(* ===== verification/Prelude.thy ===== *)
theory Prelude
  imports Main "HOL-Library.Word"
begin

text \<open>
  Shared vocabulary of the development: the machine integers of the port
  (demo/UCOSII/PORT/os_cpu.h, demo/SYSTEM/sys/sys.h), the collections of simplification rules the
  components fill, facts on single bits of words, and null-terminated chains of
  array cells, which is how uC/OS-II keeps its free lists, its task list, its
  flag wait lists and its timer spokes.
\<close>

unbundle bit_operations_syntax

type_synonym u8 = "8 word"
type_synonym u16 = "16 word"
type_synonym u32 = "32 word"

named_theorems bitmap_simps \<open>rules on the two-level priority bitmap\<close>
named_theorems tcb_simps \<open>rules on the cells of the kernel tables\<close>
named_theorems frame_simps \<open>what an operation leaves alone\<close>

section \<open>Bits of words\<close>

lemma bit_or_single:
  "bit ((w::'a::len word) OR push_bit k 1) n \<longleftrightarrow> bit w n \<or> n = k \<and> n < LENGTH('a)"
  by (auto simp: bit_or_iff bit_exp_iff)

lemma bit_and_not_single:
  "bit ((w::'a::len word) AND NOT (push_bit k 1)) n \<longleftrightarrow> bit w n \<and> n \<noteq> k"
  by (auto simp: bit_and_iff bit_not_iff bit_exp_iff dest: bit_imp_le_length)

lemma word_nonzero_bit: "(w::'a::len word) \<noteq> 0 \<longleftrightarrow> (\<exists>n<LENGTH('a). bit w n)"
  by (metis bit_0_eq bit_imp_le_length bit_word_eqI bot_apply bot_bool_def)

lemma bit_and_single:
  "((w::'a::len word) AND push_bit k 1 \<noteq> 0) \<longleftrightarrow> bit w k"
  by (simp add: and_exp_eq_0_iff_not_bit push_bit_eq_mult)

lemma unat_u8_of_nat: "n < 256 \<Longrightarrow> unat (word_of_nat n :: u8) = n"
  by (simp add: unat_of_nat take_bit_nat_eq_self)

lemma unat_u8_lt: "unat (w::u8) < 256"
proof -
  have "unat w < 2 ^ LENGTH(8)" by (rule unsigned_less)
  then show ?thesis by simp
qed

lemma unat_u16_lt: "unat (w::u16) < 65536"
proof -
  have "unat w < 2 ^ LENGTH(16)" by (rule unsigned_less)
  then show ?thesis by simp
qed

lemma unat_u32_lt: "unat (w::u32) < 4294967296"
proof -
  have "unat w < 2 ^ LENGTH(32)" by (rule unsigned_less)
  then show ?thesis by simp
qed

lemma of_nat_u32_inj: "j < 4294967296 \<Longrightarrow> k < 4294967296 \<Longrightarrow> (of_nat j :: u32) = of_nat k \<longleftrightarrow> j = k"
  by (simp add: word_of_nat_eq_iff take_bit_nat_eq_self)

section \<open>Chains of cells\<close>

text \<open>
  \<open>chain nx p xs\<close>: following \<open>nx\<close> from the pointer \<open>p\<close> visits exactly the cells
  \<open>xs\<close> and ends at the null pointer. \<open>dchain\<close> adds the back pointers.
\<close>

fun chain :: "('a \<Rightarrow> 'a option) \<Rightarrow> 'a option \<Rightarrow> 'a list \<Rightarrow> bool" where
  "chain nx p [] \<longleftrightarrow> p = None"
| "chain nx p (x # xs) \<longleftrightarrow> p = Some x \<and> chain nx (nx x) xs"

fun dchain :: "('a \<Rightarrow> 'a option) \<Rightarrow> ('a \<Rightarrow> 'a option) \<Rightarrow> 'a option \<Rightarrow> 'a option \<Rightarrow> 'a list \<Rightarrow> bool"
where
  "dchain nx pv b p [] \<longleftrightarrow> p = None"
| "dchain nx pv b p (x # xs) \<longleftrightarrow> p = Some x \<and> pv x = b \<and> dchain nx pv (Some x) (nx x) xs"

lemma chain_cong:
  "(\<And>x. x \<in> set xs \<Longrightarrow> nx x = nx' x) \<Longrightarrow> chain nx p xs = chain nx' p xs"
  by (induction xs arbitrary: p) auto

lemma chain_unique: "chain nx p xs \<Longrightarrow> chain nx p ys \<Longrightarrow> xs = ys"
proof (induction xs arbitrary: p ys)
  case Nil
  then show ?case by (cases ys) auto
next
  case (Cons x xs)
  then show ?case by (cases ys) auto
qed

lemma chain_append:
  "chain nx p (xs @ y # ys) \<Longrightarrow> chain nx (Some y) (y # ys)"
  by (induction xs arbitrary: p) auto

lemma chain_distinct: "chain nx p xs \<Longrightarrow> distinct xs"
proof (induction xs arbitrary: p)
  case Nil
  then show ?case by simp
next
  case (Cons x xs)
  have "x \<notin> set xs"
  proof
    assume "x \<in> set xs"
    then obtain us vs where xs: "xs = us @ x # vs"
      by (auto dest: split_list)
    with Cons.prems have "chain nx (nx x) (us @ x # vs)" and "chain nx (nx x) vs"
      by (auto dest: chain_append)
    then have "us @ x # vs = vs" by (rule chain_unique)
    then show False by (metis length_append length_Cons add_Suc_right less_add_Suc2 less_irrefl)
  qed
  with Cons show ?case by auto
qed

lemma chain_upd_outside [simp]:
  "y \<notin> set xs \<Longrightarrow> chain (nx(y := v)) p xs = chain nx p xs"
  by (rule chain_cong) auto

lemma dchain_cong:
  "(\<And>x. x \<in> set xs \<Longrightarrow> nx x = nx' x) \<Longrightarrow> (\<And>x. x \<in> set xs \<Longrightarrow> pv x = pv' x) \<Longrightarrow>
   dchain nx pv b p xs = dchain nx' pv' b p xs"
  by (induction xs arbitrary: b p) auto

lemma dchain_chain: "dchain nx pv b p xs \<Longrightarrow> chain nx p xs"
  by (induction xs arbitrary: b p) auto

lemma dchain_distinct: "dchain nx pv b p xs \<Longrightarrow> distinct xs"
  by (rule chain_distinct) (rule dchain_chain)

lemma dchain_upd_outside [simp]:
  "y \<notin> set xs \<Longrightarrow> dchain (nx(y := v)) pv b p xs = dchain nx pv b p xs"
  "y \<notin> set xs \<Longrightarrow> dchain nx (pv(y := v)) b p xs = dchain nx pv b p xs"
  by (rule dchain_cong; auto)+

lemma dchain_ends:
  assumes "dchain nx pv b p (xs @ x # ys)"
  shows "pv x = (if xs = [] then b else Some (last xs))" and "nx x = (if ys = [] then None else Some (hd ys))"
    and "p = Some (hd (xs @ [x]))"
proof -
  have "pv x = (if xs = [] then b else Some (last xs)) \<and> nx x = (if ys = [] then None else Some (hd ys))"
    using assms
  proof (induction xs arbitrary: b p)
    case Nil
    then show ?case by (cases ys) auto
  next
    case (Cons u us)
    then show ?case using Cons.IH [of "Some u" "nx u"] by auto
  qed
  then show "pv x = (if xs = [] then b else Some (last xs))" "nx x = (if ys = [] then None else Some (hd ys))" by auto
  show "p = Some (hd (xs @ [x]))" using assms by (cases xs) auto
qed

lemma dchain_behead:
  assumes "dchain nx pv c p ys"
  shows "dchain nx (if ys = [] then pv else pv(hd ys := b)) b p ys"
proof (cases ys)
  case (Cons y zs)
  have "y \<notin> set zs" using dchain_distinct [OF assms] Cons by simp
  then show ?thesis using assms Cons by simp
qed (use assms in simp)

text \<open>Unlinking a cell of a doubly linked list, as \<open>OSTaskDel\<close>, \<open>OS_FlagUnlink\<close> and \<open>OSTmr_Unlink\<close> do.\<close>

lemma dchain_remove:
  assumes "dchain nx pv b p (xs @ x # ys)"
  shows "dchain (if xs = [] then nx else nx(last xs := nx x))
      (if ys = [] then pv else pv(hd ys := if xs = [] then b else Some (last xs))) b
      (if xs = [] then nx x else p) (xs @ ys)"
  using assms
proof (induction xs arbitrary: b p)
  case Nil
  then show ?case using dchain_behead [of nx pv "Some x" "nx x" ys b]
    by (auto simp del: fun_upd_apply split: if_splits)
next
  case (Cons u us)
  have d: "distinct (u # us @ x # ys)" using dchain_distinct [OF Cons.prems] by simp
  have tl: "dchain nx pv (Some u) (nx u) (us @ x # ys)" and u: "p = Some u" "pv u = b" using Cons.prems by auto
  note ih = Cons.IH [OF tl]
  have pu: "(if ys = [] then pv else pv(hd ys := c)) u = b" for c using d u by (cases ys) auto
  show ?case
  proof (cases "us = []")
    case True
    have "dchain nx pv (Some x) (nx x) ys" using tl True by simp
    then have "dchain nx (if ys = [] then pv else pv(hd ys := Some u)) (Some u) (nx x) ys"
      by (rule dchain_behead)
    then have "dchain (nx(u := nx x)) (if ys = [] then pv else pv(hd ys := Some u)) (Some u) (nx x) ys"
      by (subst dchain_upd_outside) (use d in auto)
    moreover have "(nx(u := nx x)) u = nx x" by simp
    ultimately show ?thesis using True u pu by (cases "ys = []") (simp_all del: fun_upd_apply)
  next
    case False
    have nu: "u \<noteq> last us" using False d last_in_set [OF False] by auto
    have "(nx(last us := nx x)) u = nx u" using nu by simp
    then show ?thesis using ih False u pu by (cases "ys = []") (simp_all del: fun_upd_apply)
  qed
qed

text \<open>Linking a cell in at the head.\<close>

lemma dchain_push:
  assumes "dchain nx pv c p ys" and "x \<notin> set ys"
  shows "dchain (nx(x := p)) ((if ys = [] then pv else pv(hd ys := Some x))(x := b)) b (Some x) (x # ys)"
proof -
  have "dchain nx (if ys = [] then pv else pv(hd ys := Some x)) (Some x) p ys"
    using assms(1) by (rule dchain_behead)
  then show ?thesis using assms(2) by simp
qed

lemma dchain_head: "dchain nx pv b p ys \<Longrightarrow> p = (if ys = [] then None else Some (hd ys))"
  by (cases ys) auto

end
