(* ===== verification/PrioBitmap.thy ===== *)
theory PrioBitmap
  imports Prelude
begin

text \<open>
  The two-level bitmap over the 64 priorities that uC/OS-II uses for its ready
  list (\<open>OSRdyGrp\<close>, \<open>OSRdyTbl\<close>) and for the wait list of every event control block
  (\<open>OSEventGrp\<close>, \<open>OSEventTbl\<close>); priority 0 is the most urgent. The statements the
  kernel repeats inline (set both bits, clear both bits, look the first bit up
  twice in \<open>OSUnMapTbl\<close>) are the three operations below; the locale \<open>prio_set\<close> is
  what their users rely on.
\<close>

definition OSUnMapTbl :: "u8 list" where
  "OSUnMapTbl =
   [0, 0, 1, 0, 2, 0, 1, 0, 3, 0, 1, 0, 2, 0, 1, 0,
    4, 0, 1, 0, 2, 0, 1, 0, 3, 0, 1, 0, 2, 0, 1, 0,
    5, 0, 1, 0, 2, 0, 1, 0, 3, 0, 1, 0, 2, 0, 1, 0,
    4, 0, 1, 0, 2, 0, 1, 0, 3, 0, 1, 0, 2, 0, 1, 0,
    6, 0, 1, 0, 2, 0, 1, 0, 3, 0, 1, 0, 2, 0, 1, 0,
    4, 0, 1, 0, 2, 0, 1, 0, 3, 0, 1, 0, 2, 0, 1, 0,
    5, 0, 1, 0, 2, 0, 1, 0, 3, 0, 1, 0, 2, 0, 1, 0,
    4, 0, 1, 0, 2, 0, 1, 0, 3, 0, 1, 0, 2, 0, 1, 0,
    7, 0, 1, 0, 2, 0, 1, 0, 3, 0, 1, 0, 2, 0, 1, 0,
    4, 0, 1, 0, 2, 0, 1, 0, 3, 0, 1, 0, 2, 0, 1, 0,
    5, 0, 1, 0, 2, 0, 1, 0, 3, 0, 1, 0, 2, 0, 1, 0,
    4, 0, 1, 0, 2, 0, 1, 0, 3, 0, 1, 0, 2, 0, 1, 0,
    6, 0, 1, 0, 2, 0, 1, 0, 3, 0, 1, 0, 2, 0, 1, 0,
    4, 0, 1, 0, 2, 0, 1, 0, 3, 0, 1, 0, 2, 0, 1, 0,
    5, 0, 1, 0, 2, 0, 1, 0, 3, 0, 1, 0, 2, 0, 1, 0,
    4, 0, 1, 0, 2, 0, 1, 0, 3, 0, 1, 0, 2, 0, 1, 0]"

definition unmap :: "u8 \<Rightarrow> u8" where
  "unmap w = OSUnMapTbl ! unat w"

type_synonym bitmap = "u8 \<times> (nat \<Rightarrow> u8)"

definition bm_set :: "nat \<Rightarrow> u8 \<Rightarrow> u8 \<Rightarrow> bitmap \<Rightarrow> bitmap" where
  "bm_set y bitx bity b = (fst b OR bity, (snd b)(y := snd b y OR bitx))"

definition bm_clear :: "nat \<Rightarrow> u8 \<Rightarrow> u8 \<Rightarrow> bitmap \<Rightarrow> bitmap" where
  "bm_clear y bitx bity b =
     (let tbl = (snd b)(y := snd b y AND NOT bitx)
      in (if tbl y = 0 then fst b AND NOT bity else fst b, tbl))"

definition bm_highest :: "bitmap \<Rightarrow> u8" where
  "bm_highest b = (let y = unmap (fst b) in push_bit 3 y + unmap (snd b (unat y)))"

definition prios :: "bitmap \<Rightarrow> nat set" where
  "prios b = {p. p < 64 \<and> bit (snd b (p div 8)) (p mod 8)}"

definition bm_ok :: "bitmap \<Rightarrow> bool" where
  "bm_ok b \<longleftrightarrow> (\<forall>y<8. bit (fst b) y \<longleftrightarrow> snd b y \<noteq> 0)"

definition bm_empty :: bitmap where
  "bm_empty = (0, \<lambda>_. 0)"

abbreviation prio_y :: "nat \<Rightarrow> nat" where "prio_y p \<equiv> p div 8"
abbreviation bit_x :: "nat \<Rightarrow> u8" where "bit_x p \<equiv> push_bit (p mod 8) 1"
abbreviation bit_y :: "nat \<Rightarrow> u8" where "bit_y p \<equiv> push_bit (p div 8) 1"

section \<open>The lookup table finds the lowest bit\<close>

lemma unmap_table:
  "list_all (\<lambda>n. let w = word_of_nat n :: u8; k = unat (unmap w) in
     bit w k \<and> list_all (\<lambda>m. \<not> bit w m) [0..<k]) [1..<256]"
  unfolding unmap_def OSUnMapTbl_def by code_simp


lemma unmap_lowest_aux:
  assumes "w \<noteq> (0::u8)"
  shows "bit w (unat (unmap w)) \<and> (\<forall>m<unat (unmap w). \<not> bit w m)"
proof -
  have "unat w \<in> set [1..<256]"
    using assms unat_u8_lt [of w] by (auto simp: Suc_le_eq unat_gt_0)
  then have "let v = word_of_nat (unat w) :: u8; k = unat (unmap v) in
      bit v k \<and> list_all (\<lambda>m. \<not> bit v m) [0..<k]"
    using unmap_table by (simp only: list_all_iff)
  then show ?thesis by (simp add: Let_def list_all_iff)
qed

lemma unmap_bit: "w \<noteq> 0 \<Longrightarrow> bit w (unat (unmap w))"
  by (simp add: unmap_lowest_aux)

lemma unmap_least: "bit w n \<Longrightarrow> unat (unmap w) \<le> n"
  by (metis bit_0_eq bot_apply bot_bool_def not_le unmap_lowest_aux)

lemma unmap_lt: "w \<noteq> 0 \<Longrightarrow> unat (unmap w) < 8"
  by (drule unmap_bit) (auto dest: bit_imp_le_length)

section \<open>What the operations do to the set of priorities\<close>

lemma prios_lt: "p \<in> prios b \<Longrightarrow> p < 64"
  by (simp add: prios_def)

lemma finite_prios [simp, intro]: "finite (prios b)"
  by (rule finite_subset [of _ "{..<64}"]) (auto simp: prios_def)

lemma prio_split: "p = q \<longleftrightarrow> p div 8 = q div 8 \<and> p mod 8 = q mod (8::nat)"
  by (metis div_mult_mod_eq)

lemma prios_bm_empty [simp, bitmap_simps]: "prios bm_empty = {}"
  by (simp add: prios_def bm_empty_def)

lemma bm_ok_empty [simp, bitmap_simps]: "bm_ok bm_empty"
  by (simp add: bm_ok_def bm_empty_def)

lemma prios_bm_set [bitmap_simps]:
  "p < 64 \<Longrightarrow> prios (bm_set (prio_y p) (bit_x p) bity b) = insert p (prios b)"
  by (auto simp: prios_def bm_set_def bit_or_single prio_split [of _ p]
      simp del: push_bit_of_1)

lemma prios_bm_clear [bitmap_simps]:
  "prios (bm_clear (prio_y p) (bit_x p) bity b) = prios b - {p}"
  by (auto simp: prios_def bm_clear_def Let_def bit_and_not_single prio_split [of _ p]
      simp del: push_bit_of_1)

lemma bm_ok_set [bitmap_simps]:
  "bm_ok b \<Longrightarrow> p < 64 \<Longrightarrow> bm_ok (bm_set (prio_y p) (bit_x p) (bit_y p) b)"
proof -
  assume ok: "bm_ok b" and p: "p < 64"
  have "snd b (p div 8) OR bit_x p \<noteq> 0"
    by (subst word_nonzero_bit) (auto simp: bit_or_single intro: exI [of _ "p mod 8"] simp del: push_bit_of_1)
  with ok p show ?thesis
    by (auto simp: bm_ok_def bm_set_def bit_or_single simp del: push_bit_of_1)
qed

lemma bm_ok_clear [bitmap_simps]:
  "bm_ok b \<Longrightarrow> bm_ok (bm_clear (prio_y p) bitx (bit_y p) b)"
  by (auto simp: bm_ok_def bm_clear_def Let_def bit_and_not_single simp del: push_bit_of_1)

lemma bm_ok_grp: "bm_ok b \<Longrightarrow> fst b \<noteq> 0 \<longleftrightarrow> prios b \<noteq> {}"
proof
  assume ok: "bm_ok b" and "fst b \<noteq> 0"
  then obtain y where y: "y < 8" "bit (fst b) y"
    using word_nonzero_bit [of "fst b"] by auto
  with ok have "snd b y \<noteq> 0" by (auto simp: bm_ok_def)
  then obtain x where "x < 8" "bit (snd b y) x"
    using word_nonzero_bit [of "snd b y"] by auto
  with y have "8 * y + x \<in> prios b" by (simp add: prios_def)
  then show "prios b \<noteq> {}" by auto
next
  assume ok: "bm_ok b" and "prios b \<noteq> {}"
  then obtain p where "p < 64" "bit (snd b (p div 8)) (p mod 8)"
    by (auto simp: prios_def)
  with ok have "bit (fst b) (p div 8)"
    by (auto simp: bm_ok_def)
  then show "fst b \<noteq> 0" by auto
qed

lemma bm_highest_split:
  assumes ok: "bm_ok b" and ne: "prios b \<noteq> {}"
  defines "y \<equiv> unat (unmap (fst b))"
  shows "y < 8" and "snd b y \<noteq> 0"
    and "unat (bm_highest b) = 8 * y + unat (unmap (snd b y))"
proof -
  have g: "fst b \<noteq> 0" using bm_ok_grp [OF ok] ne by simp
  then show y8: "y < 8" unfolding y_def by (rule unmap_lt)
  from g have "bit (fst b) y" unfolding y_def by (rule unmap_bit)
  with ok y8 show nz: "snd b y \<noteq> 0" by (simp add: bm_ok_def)
  then have x8: "unat (unmap (snd b y)) < 8" by (rule unmap_lt)
  have "unat (push_bit 3 (unmap (fst b))) = 8 * y"
    using y8 by (simp add: y_def push_bit_eq_mult unat_word_ariths)
  moreover have "bm_highest b = push_bit 3 (unmap (fst b)) + unmap (snd b y)"
    by (simp add: bm_highest_def Let_def y_def)
  ultimately show "unat (bm_highest b) = 8 * y + unat (unmap (snd b y))"
    using y8 x8 by (simp add: unat_word_ariths)
qed

lemma bm_highest_Min:
  assumes ok: "bm_ok b" and ne: "prios b \<noteq> {}"
  shows "unat (bm_highest b) = Min (prios b)"
proof (rule Min_eqI [symmetric])
  define y where "y = unat (unmap (fst b))"
  note sp = bm_highest_split [OF ok ne, folded y_def]
  have x8: "unat (unmap (snd b y)) < 8" using sp(2) by (rule unmap_lt)
  show "finite (prios b)" by simp
  show "unat (bm_highest b) \<in> prios b"
    using sp x8 unmap_bit [OF sp(2)] by (simp add: prios_def)
  fix p assume p: "p \<in> prios b"
  then have bitp: "bit (snd b (p div 8)) (p mod 8)" and p64: "p < 64"
    by (auto simp: prios_def)
  with ok have "bit (fst b) (p div 8)" by (auto simp: bm_ok_def)
  then have le: "y \<le> p div 8" unfolding y_def by (rule unmap_least)
  show "unat (bm_highest b) \<le> p"
  proof (cases "y = p div 8")
    case True
    then show ?thesis using sp(3) unmap_least [OF bitp] by (metis add_left_mono div_mult_mod_eq mult.commute)
  next
    case False
    with le have "8 * y + 8 \<le> 8 * (p div 8)" by simp
    then show ?thesis using sp(3) x8 by linarith
  qed
qed

section \<open>The interface: a set of priorities with its most urgent member\<close>

text \<open>
  What the scheduler and the event services use of a priority set: \<open>elems\<close> is the
  abstraction, \<open>nonempty\<close> the test of the group byte, \<open>highest\<close> the table lookup.
\<close>

locale prio_set =
  fixes empty_set :: "'b"
    and ins :: "nat \<Rightarrow> 'b \<Rightarrow> 'b"
    and del :: "nat \<Rightarrow> 'b \<Rightarrow> 'b"
    and nonempty :: "'b \<Rightarrow> bool"
    and highest :: "'b \<Rightarrow> u8"
    and elems :: "'b \<Rightarrow> nat set"
    and invar :: "'b \<Rightarrow> bool"
  assumes elems_empty: "elems empty_set = {}"
    and elems_ins: "p < 64 \<Longrightarrow> elems (ins p b) = insert p (elems b)"
    and elems_del: "elems (del p b) = elems b - {p}"
    and elems_finite: "finite (elems b)"
    and nonempty_iff: "invar b \<Longrightarrow> nonempty b \<longleftrightarrow> elems b \<noteq> {}"
    and highest_Min: "invar b \<Longrightarrow> elems b \<noteq> {} \<Longrightarrow> unat (highest b) = Min (elems b)"
    and invar_empty: "invar empty_set"
    and invar_ins: "invar b \<Longrightarrow> p < 64 \<Longrightarrow> invar (ins p b)"
    and invar_del: "invar b \<Longrightarrow> invar (del p b)"
begin

lemma highest_in: "invar b \<Longrightarrow> nonempty b \<Longrightarrow> unat (highest b) \<in> elems b"
  by (simp add: nonempty_iff highest_Min elems_finite)

lemma highest_le: "invar b \<Longrightarrow> p \<in> elems b \<Longrightarrow> unat (highest b) \<le> p"
  by (subst highest_Min) (auto simp: elems_finite)

lemma highest_eqI:
  "invar b \<Longrightarrow> p \<in> elems b \<Longrightarrow> (\<And>q. q \<in> elems b \<Longrightarrow> p \<le> q) \<Longrightarrow> unat (highest b) = p"
  by (subst highest_Min) (auto simp: elems_finite intro!: Min_eqI)

lemma highest_ins:
  assumes "invar b" "p < 64" "elems b \<noteq> {}"
  shows "unat (highest (ins p b)) = min p (unat (highest b))"
proof -
  have "elems (ins p b) \<noteq> {}" using assms by (simp add: elems_ins)
  then show ?thesis
    using assms by (simp add: highest_Min invar_ins elems_ins elems_finite)
qed

lemma drain_card:
  assumes "invar b" "nonempty b"
  shows "card (elems (del (unat (highest b)) b)) < card (elems b)"
  using highest_in [OF assms] by (metis elems_del elems_finite card_Diff1_less)

end

definition bm_ins :: "nat \<Rightarrow> bitmap \<Rightarrow> bitmap" where
  "bm_ins p b = bm_set (prio_y p) (bit_x p) (bit_y p) b"

definition bm_del :: "nat \<Rightarrow> bitmap \<Rightarrow> bitmap" where
  "bm_del p b = bm_clear (prio_y p) (bit_x p) (bit_y p) b"

interpretation bm: prio_set bm_empty bm_ins bm_del "\<lambda>b. fst b \<noteq> 0" bm_highest prios bm_ok
  by unfold_locales
    (auto simp: bm_ins_def bm_del_def bitmap_simps bm_ok_grp bm_highest_Min simp del: push_bit_of_1)

section \<open>Properties\<close>

text \<open>A history of tasks that become ready (\<open>True\<close>) and stop being ready, on the bitmap and on a plain set.\<close>

definition bm_op :: "bool \<times> nat \<Rightarrow> bitmap \<Rightarrow> bitmap" where
  "bm_op o' b = (if fst o' then bm_ins (snd o') b else bm_del (snd o') b)"

definition set_op :: "bool \<times> nat \<Rightarrow> nat set \<Rightarrow> nat set" where
  "set_op o' S = (if fst o' then insert (snd o') S else S - {snd o'})"

lemma bm_ops_sets:
  "\<forall>o'\<in>set ops. snd o' < 64 \<Longrightarrow> bm_ok b \<Longrightarrow> bm_ok (fold bm_op ops b) \<and> prios (fold bm_op ops b) = fold set_op ops (prios b)"
  by (induction ops arbitrary: b) (auto simp: bm_op_def set_op_def bm.elems_ins bm.elems_del bm.invar_ins bm.invar_del)

text \<open>C2. The two-level bitmap of the ready list and its table lookup are equivalent to a set and its minimum: after any sequence of
  insertions and removals of priorities below 64 the bitmap holds exactly the priorities of the set, the
  group byte is zero exactly if the set is empty, and the table lookup of \<open>OS_SchedNew\<close> yields the least priority.\<close>

theorem bitmap_is_priority_set:
  assumes "\<forall>o'\<in>set ops. snd o' < 64"
  shows "let b = fold bm_op ops bm_empty; S = fold set_op ops {}
    in prios b = S \<and> (fst b = 0 \<longleftrightarrow> S = {}) \<and> (S \<noteq> {} \<longrightarrow> unat (bm_highest b) = Min S)"
  using bm_ops_sets [OF assms bm_ok_empty] bm_ok_grp [of "fold bm_op ops bm_empty"] bm_highest_Min [of "fold bm_op ops bm_empty"]
  by (auto simp: Let_def)

theorem bitmap_is_priority_set_witness:
  "unat (bm_highest (fold bm_op [(True, 10), (True, 5), (True, 63), (False, 5)] bm_empty)) = 10"
  using bitmap_is_priority_set [of "[(True, 10), (True, 5), (True, 63), (False, 5)]"] by (simp add: Let_def set_op_def insert_Diff_if)

end
