(* ===== verification/OsState.thy ===== *)
theory OsState
  imports PrioBitmap
begin

text \<open>
  The data of uC/OS-II V2.91 as it is configured for this program
  (demo/UCOSII/CONFIG/os_cfg.h: \<open>OS_LOWEST_PRIO\<close> 63, \<open>OS_ARG_CHK_EN\<close> 0,
  \<open>OS_EVENT_MULTI_EN\<close> 0): the structures of demo/UCOSII/CORE/ucos_ii.h as records and
  the global variables of the kernel as one record \<open>os\<close>. A pointer into one of the
  kernel's own arrays is the index of the cell, the null pointer is \<open>None\<close>; a
  \<open>void *\<close> is a \<open>ptr\<close>. An array is a function of the index.
\<close>

section \<open>Constants\<close>

abbreviation (input) "OS_LOWEST_PRIO \<equiv> 63 :: nat"
abbreviation (input) "OS_TASK_IDLE_PRIO \<equiv> 63 :: u8"
abbreviation (input) "OS_TASK_STAT_PRIO \<equiv> 62 :: u8"
abbreviation (input) "OS_PRIO_SELF \<equiv> 0xFF :: u8"
abbreviation (input) "OS_MAX_EVENTS \<equiv> 10 :: nat"
abbreviation (input) "OS_MAX_QS \<equiv> 5 :: nat"
abbreviation (input) "OS_MAX_FLAGS \<equiv> 5 :: nat"
abbreviation (input) "OS_MAX_MEM_PART \<equiv> 5 :: nat"
abbreviation (input) "OS_N_TCBS \<equiv> 12 :: nat"
abbreviation (input) "OS_TICKS_PER_SEC \<equiv> 200 :: u32"

abbreviation (input) "OS_STAT_RDY \<equiv> 0x00 :: u8"
abbreviation (input) "OS_STAT_SEM \<equiv> 0x01 :: u8"
abbreviation (input) "OS_STAT_MBOX \<equiv> 0x02 :: u8"
abbreviation (input) "OS_STAT_Q \<equiv> 0x04 :: u8"
abbreviation (input) "OS_STAT_SUSPEND \<equiv> 0x08 :: u8"
abbreviation (input) "OS_STAT_MUTEX \<equiv> 0x10 :: u8"
abbreviation (input) "OS_STAT_FLAG \<equiv> 0x20 :: u8"
abbreviation (input) "OS_STAT_PEND_ANY \<equiv> 0x37 :: u8"
abbreviation (input) "OS_STAT_PEND_OK \<equiv> 0 :: u8"
abbreviation (input) "OS_STAT_PEND_TO \<equiv> 1 :: u8"
abbreviation (input) "OS_STAT_PEND_ABORT \<equiv> 2 :: u8"

abbreviation (input) "OS_EVENT_TYPE_UNUSED \<equiv> 0 :: u8"
abbreviation (input) "OS_EVENT_TYPE_MBOX \<equiv> 1 :: u8"
abbreviation (input) "OS_EVENT_TYPE_Q \<equiv> 2 :: u8"
abbreviation (input) "OS_EVENT_TYPE_SEM \<equiv> 3 :: u8"
abbreviation (input) "OS_EVENT_TYPE_MUTEX \<equiv> 4 :: u8"
abbreviation (input) "OS_EVENT_TYPE_FLAG \<equiv> 5 :: u8"

abbreviation (input) "OS_DEL_NO_PEND \<equiv> 0 :: u8"
abbreviation (input) "OS_DEL_ALWAYS \<equiv> 1 :: u8"
abbreviation (input) "OS_PEND_OPT_NONE \<equiv> 0 :: u8"
abbreviation (input) "OS_PEND_OPT_BROADCAST \<equiv> 1 :: u8"
abbreviation (input) "OS_POST_OPT_BROADCAST \<equiv> 1 :: u8"
abbreviation (input) "OS_POST_OPT_FRONT \<equiv> 2 :: u8"
abbreviation (input) "OS_POST_OPT_NO_SCHED \<equiv> 4 :: u8"
abbreviation (input) "OS_TICK_STEP_DIS \<equiv> 0 :: u8"
abbreviation (input) "OS_TICK_STEP_WAIT \<equiv> 1 :: u8"
abbreviation (input) "OS_TICK_STEP_ONCE \<equiv> 2 :: u8"

abbreviation (input) "OS_ERR_NONE \<equiv> 0 :: u8"
abbreviation (input) "OS_ERR_EVENT_TYPE \<equiv> 1 :: u8"
abbreviation (input) "OS_ERR_PEND_ISR \<equiv> 2 :: u8"
abbreviation (input) "OS_ERR_PEVENT_NULL \<equiv> 4 :: u8"
abbreviation (input) "OS_ERR_POST_ISR \<equiv> 5 :: u8"
abbreviation (input) "OS_ERR_QUERY_ISR \<equiv> 6 :: u8"
abbreviation (input) "OS_ERR_INVALID_OPT \<equiv> 7 :: u8"
abbreviation (input) "OS_ERR_TIMEOUT \<equiv> 10 :: u8"
abbreviation (input) "OS_ERR_PEND_LOCKED \<equiv> 13 :: u8"
abbreviation (input) "OS_ERR_PEND_ABORT \<equiv> 14 :: u8"
abbreviation (input) "OS_ERR_DEL_ISR \<equiv> 15 :: u8"
abbreviation (input) "OS_ERR_CREATE_ISR \<equiv> 16 :: u8"
abbreviation (input) "OS_ERR_NAME_GET_ISR \<equiv> 17 :: u8"
abbreviation (input) "OS_ERR_NAME_SET_ISR \<equiv> 18 :: u8"
abbreviation (input) "OS_ERR_MBOX_FULL \<equiv> 20 :: u8"
abbreviation (input) "OS_ERR_Q_FULL \<equiv> 30 :: u8"
abbreviation (input) "OS_ERR_Q_EMPTY \<equiv> 31 :: u8"
abbreviation (input) "OS_ERR_PRIO_EXIST \<equiv> 40 :: u8"
abbreviation (input) "OS_ERR_PRIO \<equiv> 41 :: u8"
abbreviation (input) "OS_ERR_PRIO_INVALID \<equiv> 42 :: u8"
abbreviation (input) "OS_ERR_SCHED_LOCKED \<equiv> 50 :: u8"
abbreviation (input) "OS_ERR_SEM_OVF \<equiv> 51 :: u8"
abbreviation (input) "OS_ERR_TASK_CREATE_ISR \<equiv> 60 :: u8"
abbreviation (input) "OS_ERR_TASK_DEL \<equiv> 61 :: u8"
abbreviation (input) "OS_ERR_TASK_DEL_IDLE \<equiv> 62 :: u8"
abbreviation (input) "OS_ERR_TASK_DEL_REQ \<equiv> 63 :: u8"
abbreviation (input) "OS_ERR_TASK_DEL_ISR \<equiv> 64 :: u8"
abbreviation (input) "OS_ERR_TASK_NO_MORE_TCB \<equiv> 66 :: u8"
abbreviation (input) "OS_ERR_TASK_NOT_EXIST \<equiv> 67 :: u8"
abbreviation (input) "OS_ERR_TASK_NOT_SUSPENDED \<equiv> 68 :: u8"
abbreviation (input) "OS_ERR_TASK_OPT \<equiv> 69 :: u8"
abbreviation (input) "OS_ERR_TASK_RESUME_PRIO \<equiv> 70 :: u8"
abbreviation (input) "OS_ERR_TASK_SUSPEND_PRIO \<equiv> 72 :: u8"
abbreviation (input) "OS_ERR_TASK_WAITING \<equiv> 73 :: u8"
abbreviation (input) "OS_ERR_TIME_NOT_DLY \<equiv> 80 :: u8"
abbreviation (input) "OS_ERR_TIME_DLY_ISR \<equiv> 85 :: u8"
abbreviation (input) "OS_ERR_MEM_INVALID_PART \<equiv> 90 :: u8"
abbreviation (input) "OS_ERR_MEM_NO_FREE_BLKS \<equiv> 93 :: u8"
abbreviation (input) "OS_ERR_MEM_FULL \<equiv> 94 :: u8"
abbreviation (input) "OS_ERR_NOT_MUTEX_OWNER \<equiv> 100 :: u8"
abbreviation (input) "OS_ERR_FLAG_WAIT_TYPE \<equiv> 111 :: u8"
abbreviation (input) "OS_ERR_FLAG_NOT_RDY \<equiv> 112 :: u8"
abbreviation (input) "OS_ERR_FLAG_INVALID_OPT \<equiv> 113 :: u8"
abbreviation (input) "OS_ERR_FLAG_GRP_DEPLETED \<equiv> 114 :: u8"
abbreviation (input) "OS_ERR_PIP_LOWER \<equiv> 120 :: u8"

section \<open>Pointers and structures\<close>

datatype ptr = PNull | PTcb nat | PEvent nat | PQ nat | PFlagGrp nat | PFlagNode nat
  | PMem nat | PTmr nat | PAddr nat

text \<open>An entry of \<open>OSTCBPrioTbl\<close>: null, the constant \<open>OS_TCB_RESERVED\<close>, or a task.\<close>

datatype tcb_slot = NoTcb | Reserved | Tcb nat

record os_event =
  OSEventType :: u8
  OSEventPtr :: ptr
  OSEventCnt :: u16
  OSEventGrp :: u8
  OSEventTbl :: "nat \<Rightarrow> u8"
  OSEventName :: string

record os_flag_grp =
  OSFlagType :: u8
  OSFlagWaitList :: ptr
  OSFlagFlags :: u16
  OSFlagName :: string

record os_flag_node =
  OSFlagNodeNext :: ptr
  OSFlagNodePrev :: ptr
  OSFlagNodeTCB :: nat
  OSFlagNodeFlagGrp :: nat
  OSFlagNodeFlags :: u16
  OSFlagNodeWaitType :: u8

record os_mem =
  OSMemAddr :: nat
  OSMemFreeList :: ptr
  OSMemBlkSize :: u32
  OSMemNBlks :: u32
  OSMemNFree :: u32
  OSMemName :: string

record os_q =
  OSQPtr :: "nat option"
  OSQStart :: nat
  OSQEnd :: nat
  OSQIn :: nat
  OSQOut :: nat
  OSQSize :: u16
  OSQEntries :: u16

record os_tcb =
  OSTCBStkPtr :: nat
  OSTCBExtPtr :: ptr
  OSTCBStkBottom :: nat
  OSTCBStkSize :: u32
  OSTCBOpt :: u16
  OSTCBId :: u16
  OSTCBNext :: "nat option"
  OSTCBPrev :: "nat option"
  OSTCBEventPtr :: "nat option"
  OSTCBMsg :: ptr
  OSTCBFlagNode :: "nat option"
  OSTCBFlagsRdy :: u16
  OSTCBDly :: u32
  OSTCBStat :: u8
  OSTCBStatPend :: u8
  OSTCBPrio :: u8
  OSTCBX :: u8
  OSTCBY :: u8
  OSTCBBitX :: u8
  OSTCBBitY :: u8
  OSTCBDelReq :: u8
  OSTCBCtxSwCtr :: u32
  OSTCBCyclesTot :: u32
  OSTCBCyclesStart :: u32
  OSTCBStkBase :: nat
  OSTCBStkUsed :: u32
  OSTCBTaskName :: string
  OSTCBRegTbl :: "nat \<Rightarrow> u32"

record os_tmr =
  OSTmrType :: u8
  OSTmrCallback :: "nat option"
  OSTmrCallbackArg :: ptr
  OSTmrNext :: "nat option"
  OSTmrPrev :: "nat option"
  OSTmrMatch :: u32
  OSTmrDly :: u32
  OSTmrPeriod :: u32
  OSTmrName :: string
  OSTmrOpt :: u8
  OSTmrState :: u8

record os_tmr_wheel =
  OSTmrFirst :: "nat option"
  OSTmrEntries :: u16

text \<open>
  The global variables. Four fields are memory outside the kernel's own arrays:
  \<open>OSHeap\<close> the pointer-sized cells the application hands to \<open>OSQCreate\<close>, by byte address (the queues
  access them at multiples of four from the start only); \<open>OSMemRam\<close> the bytes of the memory handed to
  \<open>OSMemCreate\<close>, by address; \<open>OSStkMem\<close> the stack words, by index in units of
  \<open>OS_STK\<close>; \<open>OSFlagNodes\<close> the \<open>OS_FLAG_NODE\<close> that \<open>OSFlagPend\<close> keeps on the stack of
  the calling task, by the index of that task.
\<close>

record os =
  OSCtxSwCtr :: u32
  OSEventFreeList :: "nat option"
  OSEventTbl_arr :: "nat \<Rightarrow> os_event"
  OSFlagTbl :: "nat \<Rightarrow> os_flag_grp"
  OSFlagFreeList :: "nat option"
  OSFlagNodes :: "nat \<Rightarrow> os_flag_node"
  OSCPUUsage :: u8
  OSIdleCtrMax :: u32
  OSIdleCtrRun :: u32
  OSStatRdy :: bool
  OSIntNesting :: u8
  OSLockNesting :: u8
  OSPrioCur :: u8
  OSPrioHighRdy :: u8
  OSRdyGrp :: u8
  OSRdyTbl :: "nat \<Rightarrow> u8"
  OSRunning :: bool
  OSTaskCtr :: u8
  OSIdleCtr :: u32
  OSTCBCur :: "nat option"
  OSTCBFreeList :: "nat option"
  OSTCBHighRdy :: "nat option"
  OSTCBList :: "nat option"
  OSTCBPrioTbl :: "nat \<Rightarrow> tcb_slot"
  OSTCBTbl :: "nat \<Rightarrow> os_tcb"
  OSTickStepState :: u8
  OSMemFreeList_g :: "nat option"
  OSMemTbl :: "nat \<Rightarrow> os_mem"
  OSQFreeList :: "nat option"
  OSQTbl :: "nat \<Rightarrow> os_q"
  OSTime :: u32
  OSTmrCtr :: u16
  OSTmrFree :: u16
  OSTmrUsed :: u16
  OSTmrTime :: u32
  OSTmrSem :: "nat option"
  OSTmrSemSignal :: "nat option"
  OSTmrTbl :: "nat \<Rightarrow> os_tmr"
  OSTmrFreeList :: "nat option"
  OSTmrWheelTbl :: "nat \<Rightarrow> os_tmr_wheel"
  OSHeap :: "nat \<Rightarrow> ptr"
  OSMemRam :: "nat \<Rightarrow> u8"
  OSStkMem :: "nat \<Rightarrow> u32"

section \<open>Access to the tables\<close>

abbreviation tcb :: "os \<Rightarrow> nat \<Rightarrow> os_tcb" where "tcb s i \<equiv> OSTCBTbl s i"
abbreviation ev :: "os \<Rightarrow> nat \<Rightarrow> os_event" where "ev s e \<equiv> OSEventTbl_arr s e"

definition upd_tcb :: "nat \<Rightarrow> (os_tcb \<Rightarrow> os_tcb) \<Rightarrow> os \<Rightarrow> os" where
  "upd_tcb i f s = s\<lparr>OSTCBTbl := (OSTCBTbl s)(i := f (OSTCBTbl s i))\<rparr>"

definition upd_ev :: "nat \<Rightarrow> (os_event \<Rightarrow> os_event) \<Rightarrow> os \<Rightarrow> os" where
  "upd_ev e f s = s\<lparr>OSEventTbl_arr := (OSEventTbl_arr s)(e := f (OSEventTbl_arr s e))\<rparr>"

text \<open>
  The running task. \<open>OSTCBCur\<close> is null only before \<open>OSStart\<close>; the invariant of the
  kernel says that it names a task once \<open>OSRunning\<close> is set.
\<close>

definition cur :: "os \<Rightarrow> nat" where
  "cur s = the (OSTCBCur s)"

definition rdy_bm :: "os \<Rightarrow> bitmap" where
  "rdy_bm s = (OSRdyGrp s, OSRdyTbl s)"

definition ev_bm :: "os_event \<Rightarrow> bitmap" where
  "ev_bm e = (OSEventGrp e, OSEventTbl e)"

definition set_rdy :: "bitmap \<Rightarrow> os \<Rightarrow> os" where
  "set_rdy b s = s\<lparr>OSRdyGrp := fst b, OSRdyTbl := snd b\<rparr>"

definition set_ev_bm :: "bitmap \<Rightarrow> os_event \<Rightarrow> os_event" where
  "set_ev_bm b e = e\<lparr>OSEventGrp := fst b, OSEventTbl := snd b\<rparr>"

text \<open>
  \<open>OSRdyGrp |= ptcb->OSTCBBitY; OSRdyTbl[ptcb->OSTCBY] |= ptcb->OSTCBBitX;\<close> and its
  inverse, and the same on the wait list of an event, as the sources write them.
\<close>

definition rdy_set :: "os_tcb \<Rightarrow> os \<Rightarrow> os" where
  "rdy_set t s = set_rdy (bm_set (unat (OSTCBY t)) (OSTCBBitX t) (OSTCBBitY t) (rdy_bm s)) s"

definition rdy_clear :: "os_tcb \<Rightarrow> os \<Rightarrow> os" where
  "rdy_clear t s = set_rdy (bm_clear (unat (OSTCBY t)) (OSTCBBitX t) (OSTCBBitY t) (rdy_bm s)) s"

definition ev_set :: "os_tcb \<Rightarrow> os_event \<Rightarrow> os_event" where
  "ev_set t e = set_ev_bm (bm_set (unat (OSTCBY t)) (OSTCBBitX t) (OSTCBBitY t) (ev_bm e)) e"

definition ev_clear :: "os_tcb \<Rightarrow> os_event \<Rightarrow> os_event" where
  "ev_clear t e = set_ev_bm (bm_clear (unat (OSTCBY t)) (OSTCBBitX t) (OSTCBBitY t) (ev_bm e)) e"

section \<open>Zeroed memory\<close>

text \<open>
  The content of the kernel's variables before \<open>OSInit\<close> (the C start-up code clears them) and
  of a cell that \<open>OS_MemClr\<close> has cleared.
\<close>

definition ev_zero :: os_event where
  "ev_zero = \<lparr>OSEventType = 0, OSEventPtr = PNull, OSEventCnt = 0, OSEventGrp = 0,
     OSEventTbl = (\<lambda>_. 0), OSEventName = []\<rparr>"

definition flag_zero :: os_flag_grp where
  "flag_zero = \<lparr>OSFlagType = 0, OSFlagWaitList = PNull, OSFlagFlags = 0, OSFlagName = []\<rparr>"

definition node_zero :: os_flag_node where
  "node_zero = \<lparr>OSFlagNodeNext = PNull, OSFlagNodePrev = PNull, OSFlagNodeTCB = 0,
     OSFlagNodeFlagGrp = 0, OSFlagNodeFlags = 0, OSFlagNodeWaitType = 0\<rparr>"

definition mem_zero :: os_mem where
  "mem_zero = \<lparr>OSMemAddr = 0, OSMemFreeList = PNull, OSMemBlkSize = 0, OSMemNBlks = 0,
     OSMemNFree = 0, OSMemName = []\<rparr>"

definition q_zero :: os_q where
  "q_zero = \<lparr>OSQPtr = None, OSQStart = 0, OSQEnd = 0, OSQIn = 0, OSQOut = 0, OSQSize = 0,
     OSQEntries = 0\<rparr>"

definition tcb_zero :: os_tcb where
  "tcb_zero = \<lparr>OSTCBStkPtr = 0, OSTCBExtPtr = PNull, OSTCBStkBottom = 0, OSTCBStkSize = 0,
     OSTCBOpt = 0, OSTCBId = 0, OSTCBNext = None, OSTCBPrev = None, OSTCBEventPtr = None,
     OSTCBMsg = PNull, OSTCBFlagNode = None, OSTCBFlagsRdy = 0, OSTCBDly = 0, OSTCBStat = 0,
     OSTCBStatPend = 0, OSTCBPrio = 0, OSTCBX = 0, OSTCBY = 0, OSTCBBitX = 0, OSTCBBitY = 0,
     OSTCBDelReq = 0, OSTCBCtxSwCtr = 0, OSTCBCyclesTot = 0, OSTCBCyclesStart = 0,
     OSTCBStkBase = 0, OSTCBStkUsed = 0, OSTCBTaskName = [], OSTCBRegTbl = (\<lambda>_. 0)\<rparr>"

definition tmr_zero :: os_tmr where
  "tmr_zero = \<lparr>OSTmrType = 0, OSTmrCallback = None, OSTmrCallbackArg = PNull, OSTmrNext = None,
     OSTmrPrev = None, OSTmrMatch = 0, OSTmrDly = 0, OSTmrPeriod = 0, OSTmrName = [],
     OSTmrOpt = 0, OSTmrState = 0\<rparr>"

definition os_bss :: os where
  "os_bss = \<lparr>OSCtxSwCtr = 0, OSEventFreeList = None, OSEventTbl_arr = (\<lambda>_. ev_zero),
     OSFlagTbl = (\<lambda>_. flag_zero), OSFlagFreeList = None, OSFlagNodes = (\<lambda>_. node_zero),
     OSCPUUsage = 0, OSIdleCtrMax = 0, OSIdleCtrRun = 0, OSStatRdy = False, OSIntNesting = 0,
     OSLockNesting = 0, OSPrioCur = 0, OSPrioHighRdy = 0, OSRdyGrp = 0, OSRdyTbl = (\<lambda>_. 0),
     OSRunning = False, OSTaskCtr = 0, OSIdleCtr = 0, OSTCBCur = None, OSTCBFreeList = None,
     OSTCBHighRdy = None, OSTCBList = None, OSTCBPrioTbl = (\<lambda>_. NoTcb),
     OSTCBTbl = (\<lambda>_. tcb_zero), OSTickStepState = 0, OSMemFreeList_g = None,
     OSMemTbl = (\<lambda>_. mem_zero), OSQFreeList = None, OSQTbl = (\<lambda>_. q_zero), OSTime = 0,
     OSTmrCtr = 0, OSTmrFree = 0, OSTmrUsed = 0, OSTmrTime = 0, OSTmrSem = None,
     OSTmrSemSignal = None, OSTmrTbl = (\<lambda>_. tmr_zero), OSTmrFreeList = None,
     OSTmrWheelTbl = (\<lambda>_. \<lparr>OSTmrFirst = None, OSTmrEntries = 0\<rparr>), OSHeap = (\<lambda>_. PNull),
     OSMemRam = (\<lambda>_. 0), OSStkMem = (\<lambda>_. 0)\<rparr>"

lemmas zero_defs = ev_zero_def flag_zero_def node_zero_def mem_zero_def q_zero_def tcb_zero_def
  tmr_zero_def

end
