(* ===== verification/OsCore.thy ===== *)
theory OsCore
  imports OsState
begin

text \<open>
  demo/UCOSII/CORE/os_core.c without the start-up code: the scheduler, the scheduler
  lock, interrupt entry and exit, and the four routines on the wait list of an
  event control block that every service shares. \<open>kinv\<close> is the invariant of the
  ready list, the wait lists and the task control blocks; \<open>sched_ok\<close> says that
  the running task is the most urgent ready one.
\<close>

section \<open>Operations\<close>

fun slot_tcb :: "tcb_slot \<Rightarrow> nat option" where
  "slot_tcb (Tcb i) = Some i"
| "slot_tcb NoTcb = None"
| "slot_tcb Reserved = None"

definition OS_SchedNew :: "os \<Rightarrow> os" where
  "OS_SchedNew s = s\<lparr>OSPrioHighRdy := bm_highest (rdy_bm s)\<rparr>"

text \<open>
  \<open>PendSV_Handler\<close> (demo/UCOSII/PORT/os_cpu_a.asm) is the exception that \<open>OS_TASK_SW\<close> and
  \<open>OSIntCtxSw\<close> raise. It saves the registers on the stack of the task that loses the processor,
  and its stack pointer in \<open>OSTCBStkPtr\<close>, which is the processor's state and not modelled, and
  stores two variables of the kernel.
\<close>

definition OSPendSV :: "os \<Rightarrow> os" where
  "OSPendSV s = s\<lparr>OSPrioCur := OSPrioHighRdy s, OSTCBCur := OSTCBHighRdy s\<rparr>"

definition os_switch :: "os \<Rightarrow> os" where
  "os_switch s =
    (let s1 = OS_SchedNew s;
         s2 = s1\<lparr>OSTCBHighRdy := slot_tcb (OSTCBPrioTbl s1 (unat (OSPrioHighRdy s1)))\<rparr>
     in if OSPrioHighRdy s2 \<noteq> OSPrioCur s2
        then OSPendSV ((upd_tcb (the (OSTCBHighRdy s2))
               (\<lambda>t. t\<lparr>OSTCBCtxSwCtr := OSTCBCtxSwCtr t + 1\<rparr>) s2)
                 \<lparr>OSCtxSwCtr := OSCtxSwCtr s2 + 1\<rparr>)
        else s2)"

definition OS_Sched :: "os \<Rightarrow> os" where
  "OS_Sched s = (if OSIntNesting s = 0 then if OSLockNesting s = 0 then os_switch s else s else s)"

definition OSIntEnter :: "os \<Rightarrow> os" where
  "OSIntEnter s =
    (if OSRunning s then
       if OSIntNesting s < 255 then s\<lparr>OSIntNesting := OSIntNesting s + 1\<rparr> else s
     else s)"

definition OSIntExit :: "os \<Rightarrow> os" where
  "OSIntExit s =
    (if OSRunning s then
       let s1 = (if 0 < OSIntNesting s then s\<lparr>OSIntNesting := OSIntNesting s - 1\<rparr> else s)
       in if OSIntNesting s1 = 0 then if OSLockNesting s1 = 0 then os_switch s1 else s1 else s1
     else s)"

definition OSSchedLock :: "os \<Rightarrow> os" where
  "OSSchedLock s =
    (if OSRunning s then
       if OSIntNesting s = 0 then
         if OSLockNesting s < 255 then s\<lparr>OSLockNesting := OSLockNesting s + 1\<rparr> else s
       else s
     else s)"

definition OSSchedUnlock :: "os \<Rightarrow> os" where
  "OSSchedUnlock s =
    (if OSRunning s then
       if 0 < OSLockNesting s then
         let s1 = s\<lparr>OSLockNesting := OSLockNesting s - 1\<rparr>
         in if OSLockNesting s1 = 0 then if OSIntNesting s1 = 0 then OS_Sched s1 else s1 else s1
       else s
     else s)"

text \<open>\<open>OSStartHighRdy\<close> sets \<open>OSRunning\<close> and raises the first \<open>OSPendSV\<close>.\<close>

definition OSStart :: "os \<Rightarrow> os" where
  "OSStart s =
    (if \<not> OSRunning s then
       let s1 = OS_SchedNew s;
           s2 = s1\<lparr>OSPrioCur := OSPrioHighRdy s1,
                   OSTCBHighRdy := slot_tcb (OSTCBPrioTbl s1 (unat (OSPrioHighRdy s1)))\<rparr>;
           s3 = s2\<lparr>OSTCBCur := OSTCBHighRdy s2\<rparr>
       in OSPendSV (s3\<lparr>OSRunning := True\<rparr>)
     else s)"

definition OS_EventTaskRemove :: "nat \<Rightarrow> nat \<Rightarrow> os \<Rightarrow> os" where
  "OS_EventTaskRemove i e s = upd_ev e (ev_clear (tcb s i)) s"

definition OS_EventTaskRdy :: "nat \<Rightarrow> ptr \<Rightarrow> u8 \<Rightarrow> u8 \<Rightarrow> os \<Rightarrow> u8 \<times> os" where
  "OS_EventTaskRdy e pmsg msk pend_stat s =
    (let y = unmap (OSEventGrp (ev s e));
         x = unmap (OSEventTbl (ev s e) (unat y));
         prio = push_bit 3 y + x;
         i = the (slot_tcb (OSTCBPrioTbl s (unat prio)));
         s1 = upd_tcb i (\<lambda>t. t\<lparr>OSTCBDly := 0, OSTCBMsg := pmsg,
                OSTCBStat := OSTCBStat t AND NOT msk, OSTCBStatPend := pend_stat\<rparr>) s;
         t = tcb s1 i;
         s2 = (if OSTCBStat t AND OS_STAT_SUSPEND = OS_STAT_RDY
               then set_rdy (bm_set (unat y) (OSTCBBitX t) (OSTCBBitY t) (rdy_bm s1)) s1 else s1)
     in (prio, OS_EventTaskRemove i e s2))"

definition OS_EventTaskWait :: "nat \<Rightarrow> os \<Rightarrow> os" where
  "OS_EventTaskWait e s =
    (let s1 = upd_tcb (cur s) (\<lambda>t. t\<lparr>OSTCBEventPtr := Some e\<rparr>) s;
         t = tcb s1 (cur s)
     in rdy_clear t (upd_ev e (ev_set t) s1))"

definition OS_EventWaitListInit :: "os_event \<Rightarrow> os_event" where
  "OS_EventWaitListInit e = e\<lparr>OSEventGrp := 0, OSEventTbl := (\<lambda>_. 0)\<rparr>"

text \<open>
  The loop \<open>while (pevent->OSEventGrp != 0u) (void)OS_EventTaskRdy(...)\<close> of the
  delete, abort and broadcast services, with the counter \<open>nbr_tasks\<close> of the
  abort services; \<open>None\<close> is a loop that does not end.
\<close>

partial_function (option) event_rdy_all ::
  "nat \<Rightarrow> ptr \<Rightarrow> u8 \<Rightarrow> u8 \<Rightarrow> u8 \<Rightarrow> os \<Rightarrow> (u8 \<times> os) option" where
  "event_rdy_all e pmsg msk pend_stat nbr s =
    (if OSEventGrp (ev s e) \<noteq> 0
     then event_rdy_all e pmsg msk pend_stat (nbr + 1) (snd (OS_EventTaskRdy e pmsg msk pend_stat s))
     else Some (nbr, s))"

section \<open>The invariant\<close>

definition live :: "os \<Rightarrow> nat \<Rightarrow> bool" where
  "live s i \<longleftrightarrow> unat (OSTCBPrio (tcb s i)) < 64 \<and> OSTCBPrioTbl s (unat (OSTCBPrio (tcb s i))) = Tcb i"

abbreviation prio :: "os \<Rightarrow> nat \<Rightarrow> nat" where "prio s i \<equiv> unat (OSTCBPrio (tcb s i))"

definition rdyset :: "os \<Rightarrow> nat set" where "rdyset s = prios (rdy_bm s)"
definition wset :: "os \<Rightarrow> nat \<Rightarrow> nat set" where "wset s e = prios (ev_bm (ev s e))"

text \<open>The cached bit positions of a task control block agree with its priority.\<close>

definition wf_tcb :: "os_tcb \<Rightarrow> bool" where
  "wf_tcb t \<longleftrightarrow>
     OSTCBY t = drop_bit 3 (OSTCBPrio t) \<and> OSTCBX t = OSTCBPrio t AND 7 \<and>
     OSTCBBitY t = push_bit (unat (OSTCBY t)) 1 \<and> OSTCBBitX t = push_bit (unat (OSTCBX t)) 1"

text \<open>The status bit of a task that waits on an event of the given type.\<close>

definition stat_mask :: "u8 \<Rightarrow> u8" where
  "stat_mask ty =
    (if ty = OS_EVENT_TYPE_SEM then OS_STAT_SEM else if ty = OS_EVENT_TYPE_MBOX then OS_STAT_MBOX
     else if ty = OS_EVENT_TYPE_Q then OS_STAT_Q else if ty = OS_EVENT_TYPE_MUTEX then OS_STAT_MUTEX
     else 0)"

definition task_ok :: "os \<Rightarrow> nat \<Rightarrow> bool" where
  "task_ok s i \<longleftrightarrow>
     wf_tcb (tcb s i) \<and> OSTCBStat (tcb s i) AND NOT 0x3F = 0 \<and>
     (prio s i \<in> rdyset s \<longleftrightarrow> OSTCBStat (tcb s i) = OS_STAT_RDY \<and> OSTCBDly (tcb s i) = 0) \<and>
     (\<forall>e. prio s i \<in> wset s e \<longrightarrow>
        OSTCBEventPtr (tcb s i) = Some e \<and>
        OSTCBStat (tcb s i) AND NOT (stat_mask (OSEventType (ev s e)) OR OS_STAT_SUSPEND) = 0 \<and>
        (OSTCBStat (tcb s i) AND stat_mask (OSEventType (ev s e)) = 0 \<longrightarrow>
           OSTCBStatPend (tcb s i) = OS_STAT_PEND_TO \<and> OSTCBDly (tcb s i) = 0)) \<and>
     (OSTCBStat (tcb s i) AND 0x17 \<noteq> 0 \<longrightarrow> (\<exists>e. prio s i \<in> wset s e))"

definition kinv :: "os \<Rightarrow> bool" where
  "kinv s \<longleftrightarrow>
     bm_ok (rdy_bm s) \<and> (\<forall>e. bm_ok (ev_bm (ev s e))) \<and>
     (\<forall>i. live s i \<longrightarrow> task_ok s i) \<and>
     (\<forall>p \<in> rdyset s. \<exists>i. live s i \<and> prio s i = p) \<and>
     (\<forall>e. \<forall>p \<in> wset s e. \<exists>i. live s i \<and> prio s i = p) \<and>
     63 \<in> rdyset s \<and> (\<forall>p i. OSTCBPrioTbl s p = Tcb i \<longrightarrow> live s i) \<and>
     (\<forall>e. wset s e \<noteq> {} \<longrightarrow> stat_mask (OSEventType (ev s e)) \<noteq> 0)"

definition cur_ok :: "os \<Rightarrow> bool" where
  "cur_ok s \<longleftrightarrow> OSRunning s \<and> (\<exists>i. OSTCBCur s = Some i \<and> live s i \<and> OSTCBPrio (tcb s i) = OSPrioCur s)"

definition sched_ok :: "os \<Rightarrow> bool" where
  "sched_ok s \<longleftrightarrow> (OSIntNesting s = 0 \<and> OSLockNesting s = 0 \<longrightarrow> unat (OSPrioCur s) = Min (rdyset s))"

section \<open>Bit positions and the two bitmaps of the state\<close>

lemma unat_and_7: "unat ((w::u8) AND 7) = unat w mod 8"
proof -
  have "w AND 7 = take_bit 3 w" by (simp add: take_bit_eq_mask mask_eq_exp_minus_1)
  then show ?thesis by (simp add: take_bit_eq_mod unat_mod)
qed

lemma unat_shift_3: "unat (drop_bit 3 (w::u8)) = unat w div 8"
  by (subst unat_drop_bit_eq) (simp add: drop_bit_eq_div)

lemma wf_tcb_pos:
  assumes "wf_tcb t"
  shows "unat (OSTCBY t) = unat (OSTCBPrio t) div 8"
    and "OSTCBBitX t = bit_x (unat (OSTCBPrio t))"
    and "OSTCBBitY t = bit_y (unat (OSTCBPrio t))"
  using assms
  by (auto simp: wf_tcb_def unat_shift_3 unat_and_7 simp del: push_bit_of_1)

lemmas rdy_defs = rdyset_def rdy_bm_def set_rdy_def rdy_set_def rdy_clear_def

lemma rdy_bm_set_rdy [simp]: "rdy_bm (set_rdy b s) = b"
  by (simp add: rdy_bm_def set_rdy_def)

lemma ev_bm_set [simp]: "ev_bm (set_ev_bm b e) = b"
  by (simp add: ev_bm_def set_ev_bm_def)

lemma rdy_bm_set:
  "wf_tcb t \<Longrightarrow> rdy_bm (rdy_set t s) = bm_ins (unat (OSTCBPrio t)) (rdy_bm s)"
  by (simp add: rdy_set_def bm_ins_def wf_tcb_pos del: push_bit_of_1)

lemma rdy_bm_clear:
  "wf_tcb t \<Longrightarrow> rdy_bm (rdy_clear t s) = bm_del (unat (OSTCBPrio t)) (rdy_bm s)"
  by (simp add: rdy_clear_def bm_del_def wf_tcb_pos del: push_bit_of_1)

lemma ev_bm_ev_set:
  "wf_tcb t \<Longrightarrow> ev_bm (ev_set t e) = bm_ins (unat (OSTCBPrio t)) (ev_bm e)"
  by (simp add: ev_set_def bm_ins_def wf_tcb_pos del: push_bit_of_1)

lemma ev_bm_ev_clear:
  "wf_tcb t \<Longrightarrow> ev_bm (ev_clear t e) = bm_del (unat (OSTCBPrio t)) (ev_bm e)"
  by (simp add: ev_clear_def bm_del_def wf_tcb_pos del: push_bit_of_1)

lemmas bm_moves = rdy_bm_set rdy_bm_clear ev_bm_ev_set ev_bm_ev_clear

lemma ev_set_frame [simp]:
  "OSEventType (ev_set t e) = OSEventType e" "OSEventPtr (ev_set t e) = OSEventPtr e"
  "OSEventCnt (ev_set t e) = OSEventCnt e" "OSEventName (ev_set t e) = OSEventName e"
  "OSEventType (ev_clear t e) = OSEventType e" "OSEventPtr (ev_clear t e) = OSEventPtr e"
  "OSEventCnt (ev_clear t e) = OSEventCnt e" "OSEventName (ev_clear t e) = OSEventName e"
  by (simp_all add: ev_set_def ev_clear_def set_ev_bm_def)

lemma rdy_set_more [simp]:
  "OSTCBTbl (rdy_set t s) = OSTCBTbl s" "OSEventTbl_arr (rdy_set t s) = OSEventTbl_arr s"
  "OSTCBPrioTbl (rdy_set t s) = OSTCBPrioTbl s"
  "OSTCBTbl (rdy_clear t s) = OSTCBTbl s" "OSEventTbl_arr (rdy_clear t s) = OSEventTbl_arr s"
  "OSTCBPrioTbl (rdy_clear t s) = OSTCBPrioTbl s"
  by (simp_all add: rdy_set_def rdy_clear_def set_rdy_def)

section \<open>Consequences of the invariant\<close>

lemma live_inj: "live s i \<Longrightarrow> live s j \<Longrightarrow> prio s i = prio s j \<Longrightarrow> i = j"
  by (auto simp: live_def)

lemma kinvD:
  assumes "kinv s"
  shows kinv_rdy: "bm_ok (rdy_bm s)"
    and kinv_ev: "bm_ok (ev_bm (ev s e))"
    and kinv_task: "live s i \<Longrightarrow> task_ok s i"
    and kinv_rdy_live: "p \<in> rdyset s \<Longrightarrow> \<exists>i. live s i \<and> prio s i = p"
    and kinv_wait_live: "p \<in> wset s e \<Longrightarrow> \<exists>i. live s i \<and> prio s i = p"
    and kinv_idle: "63 \<in> rdyset s"
    and kinv_slot: "OSTCBPrioTbl s q = Tcb i \<Longrightarrow> live s i"
    and kinv_used: "p \<in> wset s e \<Longrightarrow> stat_mask (OSEventType (ev s e)) \<noteq> 0"
  using assms by (auto simp: kinv_def)

lemma kinv_wf: "kinv s \<Longrightarrow> live s i \<Longrightarrow> wf_tcb (tcb s i)"
  using kinv_task by (auto simp: task_ok_def)

lemma kinv_ready_iff:
  "kinv s \<Longrightarrow> live s i \<Longrightarrow>
   prio s i \<in> rdyset s \<longleftrightarrow> OSTCBStat (tcb s i) = OS_STAT_RDY \<and> OSTCBDly (tcb s i) = 0"
  using kinv_task by (auto simp: task_ok_def)

lemma kinv_waits_on:
  "kinv s \<Longrightarrow> live s i \<Longrightarrow> prio s i \<in> wset s e \<Longrightarrow> OSTCBEventPtr (tcb s i) = Some e"
  using kinv_task by (auto simp: task_ok_def)

lemma kinv_wait_stat:
  "kinv s \<Longrightarrow> live s i \<Longrightarrow> prio s i \<in> wset s e \<Longrightarrow>
   OSTCBStat (tcb s i) AND NOT (stat_mask (OSEventType (ev s e)) OR OS_STAT_SUSPEND) = 0"
  using kinv_task by (auto simp: task_ok_def)

lemma kinv_stat_bits: "kinv s \<Longrightarrow> live s i \<Longrightarrow> OSTCBStat (tcb s i) AND NOT 0x3F = 0"
  using kinv_task by (auto simp: task_ok_def)

lemma stat_mask_bits [simp]: "stat_mask ty AND - 64 = 0"
  by (simp add: stat_mask_def)

lemma and_drop: "x AND m = (0::'a::len word) \<Longrightarrow> (x AND k) AND m = 0"
  by (metis and.assoc and.commute and_zero_eq)

lemma kinv_wait_unique:
  "kinv s \<Longrightarrow> live s i \<Longrightarrow> prio s i \<in> wset s e \<Longrightarrow> prio s i \<in> wset s x \<Longrightarrow> x = e"
  by (metis kinv_waits_on option.inject)

section \<open>Rules that keep the invariant\<close>

definition same_core :: "os_tcb \<Rightarrow> os_tcb \<Rightarrow> bool" where
  "same_core t t' \<longleftrightarrow>
     OSTCBPrio t' = OSTCBPrio t \<and> OSTCBX t' = OSTCBX t \<and> OSTCBY t' = OSTCBY t \<and>
     OSTCBBitX t' = OSTCBBitX t \<and> OSTCBBitY t' = OSTCBBitY t \<and> OSTCBStat t' = OSTCBStat t \<and>
     OSTCBStatPend t' = OSTCBStatPend t \<and> OSTCBDly t' = OSTCBDly t \<and>
     OSTCBEventPtr t' = OSTCBEventPtr t"

lemma same_core_refl [simp]: "same_core t t"
  by (simp add: same_core_def)

lemma same_core_wf: "same_core t t' \<Longrightarrow> wf_tcb t' = wf_tcb t"
  by (auto simp: same_core_def wf_tcb_def)

text \<open>Only one task changes; everything else about the other tasks is as before.\<close>

lemma kinv_one_task:
  assumes inv: "kinv s" and li: "live s i"
    and tbl: "OSTCBPrioTbl s' = OSTCBPrioTbl s"
    and oth: "\<And>j. j \<noteq> i \<Longrightarrow> same_core (tcb s j) (tcb s' j)"
    and pri: "OSTCBPrio (tcb s' i) = OSTCBPrio (tcb s i)"
    and bmr: "bm_ok (rdy_bm s')" and bme: "\<And>e. bm_ok (ev_bm (ev s' e))"
    and rdy: "\<And>q. q \<noteq> prio s i \<Longrightarrow> q \<in> rdyset s' \<longleftrightarrow> q \<in> rdyset s"
    and wai: "\<And>e q. q \<noteq> prio s i \<Longrightarrow> q \<in> wset s' e \<longleftrightarrow> q \<in> wset s e"
    and ety: "\<And>e. OSEventType (ev s' e) = OSEventType (ev s e)"
    and ok: "task_ok s' i" and idle: "63 \<in> rdyset s'"
    and used: "\<And>e. prio s i \<in> wset s' e \<Longrightarrow> stat_mask (OSEventType (ev s e)) \<noteq> 0"
  shows "kinv s'"
proof -
  have prio_eq: "OSTCBPrio (tcb s' j) = OSTCBPrio (tcb s j)" for j
    using oth pri by (cases "j = i") (auto simp: same_core_def)
  have live_eq: "live s' j = live s j" for j
    by (simp add: live_def prio_eq tbl)
  have "task_ok s' j" if "live s j" for j
  proof (cases "j = i")
    case False
    have ne: "prio s j \<noteq> prio s i" using live_inj [OF that li] False by blast
    have "task_ok s j" using inv that by (rule kinv_task)
    with oth [OF False] show ?thesis
      by (simp add: task_ok_def rdy [OF ne] wai [OF ne] same_core_wf ety prio_eq)
        (simp add: same_core_def)
  qed (simp add: ok)
  moreover have "\<exists>j. live s j \<and> prio s j = p" if "p \<in> rdyset s'" for p
    using that rdy [of p] kinv_rdy_live [OF inv] li by (cases "p = prio s i") auto
  moreover have "\<exists>j. live s j \<and> prio s j = p" if "p \<in> wset s' e" for e p
    using that wai [of p e] kinv_wait_live [OF inv] li by (cases "p = prio s i") auto
  moreover have "stat_mask (OSEventType (ev s' e)) \<noteq> 0" if "p \<in> wset s' e" for e p
    using that wai [of p e] kinv_used [OF inv] used ety by (cases "p = prio s i") auto
  ultimately show ?thesis
    using bmr bme idle kinv_slot [OF inv] by (auto simp: kinv_def live_eq prio_eq tbl)
qed

text \<open>Nothing the invariant speaks of changes.\<close>

lemma kinv_frame:
  assumes inv: "kinv s"
    and tbl: "OSTCBPrioTbl s' = OSTCBPrioTbl s"
    and oth: "\<And>j. same_core (tcb s j) (tcb s' j)"
    and rdy: "OSRdyGrp s' = OSRdyGrp s" "OSRdyTbl s' = OSRdyTbl s"
    and eve: "\<And>e. OSEventType (ev s' e) = OSEventType (ev s e) \<and> ev_bm (ev s' e) = ev_bm (ev s e)"
  shows "kinv s'"
proof -
  have prio_eq: "OSTCBPrio (tcb s' j) = OSTCBPrio (tcb s j)" for j
    using oth by (auto simp: same_core_def)
  have live_eq: "live s' j = live s j" for j by (simp add: live_def prio_eq tbl)
  have r: "rdy_bm s' = rdy_bm s" "rdyset s' = rdyset s" by (simp_all add: rdy_defs rdy)
  have w: "wset s' e = wset s e" for e by (simp add: wset_def eve)
  have "task_ok s' j = task_ok s j" for j
    using oth [of j] by (simp add: task_ok_def r w same_core_wf eve prio_eq) (simp add: same_core_def)
  with inv show ?thesis by (simp add: kinv_def live_eq prio_eq r w eve tbl)
qed

section \<open>The scheduler\<close>

lemma os_switch_frame:
  "OSTCBPrioTbl (os_switch s) = OSTCBPrioTbl s" "OSRdyGrp (os_switch s) = OSRdyGrp s"
  "OSRdyTbl (os_switch s) = OSRdyTbl s" "OSEventTbl_arr (os_switch s) = OSEventTbl_arr s"
  "OSRunning (os_switch s) = OSRunning s" "OSIntNesting (os_switch s) = OSIntNesting s"
  "OSLockNesting (os_switch s) = OSLockNesting s" "OSTime (os_switch s) = OSTime s"
  "same_core (tcb s j) (tcb (os_switch s) j)"
  by (simp_all add: os_switch_def OS_SchedNew_def OSPendSV_def upd_tcb_def Let_def same_core_def)

lemma kinv_os_switch: "kinv s \<Longrightarrow> kinv (os_switch s)"
  by (rule kinv_frame) (simp_all add: os_switch_frame)

lemma kinv_OS_Sched: "kinv s \<Longrightarrow> kinv (OS_Sched s)"
  by (simp add: OS_Sched_def kinv_os_switch)

lemma kinv_high: "kinv s \<Longrightarrow> unat (bm_highest (rdy_bm s)) = Min (rdyset s)"
  using bm.highest_Min kinv_idle kinv_rdy by (fastforce simp: rdyset_def)

lemma kinv_Min_in: "kinv s \<Longrightarrow> Min (rdyset s) \<in> rdyset s"
  using kinv_idle by (intro Min_in) (auto simp: rdyset_def)

lemma kinv_Min_live:
  assumes "kinv s"
  obtains i where "live s i" and "prio s i = Min (rdyset s)" and "OSTCBPrioTbl s (Min (rdyset s)) = Tcb i"
  using kinv_rdy_live [OF assms kinv_Min_in [OF assms]] by (auto simp: live_def)

text \<open>
  After a scheduling point the processor runs the most urgent ready task. The
  second premise covers a caller that has just deleted itself: its priority is then
  no longer in the ready list.
\<close>

lemma os_switch_cur:
  assumes inv: "kinv s" and run: "OSRunning s"
    and cur: "unat (OSPrioCur s) \<in> rdyset s \<Longrightarrow> cur_ok s"
  shows "cur_ok (os_switch s)" and "sched_ok (os_switch s)"
proof -
  let ?h = "bm_highest (rdy_bm s)"
  have h: "unat ?h = Min (rdyset s)" using inv by (rule kinv_high)
  obtain i where li: "live s i" and pi: "prio s i = Min (rdyset s)"
    and slot: "OSTCBPrioTbl s (Min (rdyset s)) = Tcb i"
    using inv by (rule kinv_Min_live)
  have hi: "OSTCBPrio (tcb s i) = ?h"
    using h pi by (metis word_unat_eq_iff)
  have rs: "rdyset (os_switch s) = rdyset s"
    by (simp add: rdyset_def rdy_bm_def os_switch_frame)
  show "cur_ok (os_switch s)"
  proof (cases "?h = OSPrioCur s")
    case True
    have "unat (OSPrioCur s) \<in> rdyset s"
      using kinv_Min_in [OF inv] h True by simp
    then have "cur_ok s" by (rule cur)
    then show ?thesis using True
      by (auto simp: cur_ok_def live_def os_switch_def OS_SchedNew_def upd_tcb_def Let_def)
  next
    case False
    then show ?thesis using run li hi slot h
      by (auto simp: cur_ok_def live_def os_switch_def OS_SchedNew_def OSPendSV_def upd_tcb_def Let_def)
  qed
  have "OSPrioCur (os_switch s) = ?h"
    by (auto simp: os_switch_def OS_SchedNew_def OSPendSV_def upd_tcb_def Let_def)
  then show "sched_ok (os_switch s)" by (simp add: sched_ok_def rs h)
qed

lemma OS_Sched_cur:
  assumes "kinv s" and "cur_ok s"
  shows "cur_ok (OS_Sched s)" and "sched_ok (OS_Sched s)"
  using assms os_switch_cur [of s] by (auto simp: OS_Sched_def cur_ok_def sched_ok_def)

section \<open>Words of status bits\<close>

lemma and_parts_zero: "x AND k = 0 \<Longrightarrow> x AND NOT k = 0 \<Longrightarrow> x = (0::'a::len word)"
  by (metis bit.compl_zero bit.conj_disj_distrib bit.disj_cancel_right or.left_neutral and.right_neutral)

lemma and_not_8_17: "x AND NOT 8 = (0::u8) \<Longrightarrow> x AND 0x17 = 0"
proof -
  assume x: "x AND NOT 8 = 0"
  have "x AND 0x17 = (x AND NOT 8) AND 0x17" by (simp add: and.assoc)
  with x show ?thesis by simp
qed

lemma stat_after_mask:
  assumes "st AND NOT (k OR 8) = (0::u8)"
  shows "(st AND NOT k) AND NOT 8 = 0" and "(st AND NOT k) AND 8 = 0 \<Longrightarrow> st AND NOT k = 0"
    and "(st AND NOT k) AND 0x17 = 0"
proof -
  show z: "(st AND NOT k) AND NOT 8 = 0" using assms by (simp add: and.assoc)
  then show "st AND NOT k = 0" if "(st AND NOT k) AND 8 = 0"
    using that and_parts_zero [of "st AND NOT k" 8] by simp
  show "(st AND NOT k) AND 0x17 = 0" using z by (rule and_not_8_17)
qed

section \<open>Making the most urgent waiter ready\<close>

text \<open>\<open>OS_EventTaskRdy\<close> in a state that satisfies the invariant, with the task it picks named.\<close>

definition wake :: "nat \<Rightarrow> nat \<Rightarrow> ptr \<Rightarrow> u8 \<Rightarrow> u8 \<Rightarrow> os \<Rightarrow> os" where
  "wake i e pmsg msk pend_stat s =
    (let t = (tcb s i)\<lparr>OSTCBDly := 0, OSTCBMsg := pmsg,
               OSTCBStat := OSTCBStat (tcb s i) AND NOT msk, OSTCBStatPend := pend_stat\<rparr>;
         s1 = upd_tcb i (\<lambda>_. t) s;
         s2 = (if OSTCBStat t AND OS_STAT_SUSPEND = OS_STAT_RDY then rdy_set t s1 else s1)
     in upd_ev e (ev_clear t) s2)"

lemma wset_highest:
  assumes inv: "kinv s" and grp: "OSEventGrp (ev s e) \<noteq> 0"
  shows "wset s e \<noteq> {}" and "unat (bm_highest (ev_bm (ev s e))) = Min (wset s e)"
    and "Min (wset s e) \<in> wset s e"
proof -
  have ok: "bm_ok (ev_bm (ev s e))" using inv by (rule kinv_ev)
  show ne: "wset s e \<noteq> {}" using bm_ok_grp [OF ok] grp by (simp add: wset_def ev_bm_def)
  then show "unat (bm_highest (ev_bm (ev s e))) = Min (wset s e)"
    using bm.highest_Min [OF ok] by (simp add: wset_def)
  show "Min (wset s e) \<in> wset s e" using ne by (intro Min_in) (auto simp: wset_def)
qed

lemma grp_zero_iff: "kinv s \<Longrightarrow> OSEventGrp (ev s e) = 0 \<longleftrightarrow> wset s e = {}"
  using bm_ok_grp [OF kinv_ev, of s e] by (auto simp: wset_def ev_bm_def)

lemma EventTaskRdy_wake:
  assumes inv: "kinv s" and grp: "OSEventGrp (ev s e) \<noteq> 0"
  obtains i where "live s i" and "prio s i = Min (wset s e)" and "prio s i \<in> wset s e"
    and "OS_EventTaskRdy e pmsg msk ps s = (OSTCBPrio (tcb s i), wake i e pmsg msk ps s)"
proof -
  let ?b = "ev_bm (ev s e)"
  note w = wset_highest [OF inv grp]
  obtain i where li: "live s i" and pi: "prio s i = Min (wset s e)"
    using kinv_wait_live [OF inv w(3)] by auto
  have hb: "bm_highest ?b = OSTCBPrio (tcb s i)" using w(2) pi by (metis word_unat_eq_iff)
  have slot: "OSTCBPrioTbl s (unat (OSTCBPrio (tcb s i))) = Tcb i" using li by (simp add: live_def)
  have hl: "push_bit 3 (unmap (OSEventGrp (ev s e))) +
      unmap (OSEventTbl (ev s e) (unat (unmap (OSEventGrp (ev s e))))) = OSTCBPrio (tcb s i)"
    using hb by (simp add: bm_highest_def ev_bm_def Let_def)
  have sp: "prios ?b \<noteq> {}" using w(1) by (simp add: wset_def)
  note hs = bm_highest_split [OF kinv_ev [OF inv] sp]
  have x8: "unat (unmap (snd ?b (unat (unmap (fst ?b))))) < 8" using hs(2) by (rule unmap_lt)
  have "prio s i div 8 = unat (unmap (fst ?b))" using hs(3) x8 hb by simp
  then have y: "unat (unmap (OSEventGrp (ev s e))) = unat (OSTCBY (tcb s i))"
    using wf_tcb_pos(1) [OF kinv_wf [OF inv li]] by (simp add: ev_bm_def)
  have "OS_EventTaskRdy e pmsg msk ps s = (OSTCBPrio (tcb s i), wake i e pmsg msk ps s)"
    unfolding OS_EventTaskRdy_def wake_def Let_def hl slot
    by (simp add: upd_tcb_def rdy_set_def set_rdy_def rdy_bm_def OS_EventTaskRemove_def y)
  with li pi w(3) show ?thesis by (metis that)
qed

lemma wake_sets:
  fixes msk :: u8
  assumes inv: "kinv s" and li: "live s i"
  defines "st \<equiv> OSTCBStat (tcb s i) AND NOT msk"
  shows "rdy_bm (wake i e m msk ps s) =
      (if st AND OS_STAT_SUSPEND = 0 then bm_ins (prio s i) (rdy_bm s) else rdy_bm s)"
    and "ev_bm (ev (wake i e m msk ps s) x) =
      (if x = e then bm_del (prio s i) (ev_bm (ev s e)) else ev_bm (ev s x))"
proof -
  have "wf_tcb (tcb s i)" using inv li by (rule kinv_wf)
  then have "wf_tcb (t\<lparr>OSTCBDly := d, OSTCBMsg := q, OSTCBStat := r, OSTCBStatPend := ps\<rparr>)"
    if "t = tcb s i" for t d q r using that by (simp add: wf_tcb_def)
  then have wf: "wf_tcb ((tcb s i)\<lparr>OSTCBDly := 0, OSTCBMsg := m,
      OSTCBStat := st, OSTCBStatPend := ps\<rparr>)" by blast
  show "rdy_bm (wake i e m msk ps s) =
      (if st AND OS_STAT_SUSPEND = 0 then bm_ins (prio s i) (rdy_bm s) else rdy_bm s)"
    using rdy_bm_set [OF wf]
    by (auto simp: wake_def Let_def st_def rdy_bm_def upd_ev_def upd_tcb_def)
  show "ev_bm (ev (wake i e m msk ps s) x) =
      (if x = e then bm_del (prio s i) (ev_bm (ev s e)) else ev_bm (ev s x))"
    using ev_bm_ev_clear [OF wf]
    by (auto simp: wake_def Let_def st_def upd_ev_def upd_tcb_def)
qed

lemma wake_frame [simp]:
  "OSTCBPrioTbl (wake i e m msk ps s) = OSTCBPrioTbl s" "OSRunning (wake i e m msk ps s) = OSRunning s"
  "OSPrioCur (wake i e m msk ps s) = OSPrioCur s" "OSTCBCur (wake i e m msk ps s) = OSTCBCur s"
  "OSIntNesting (wake i e m msk ps s) = OSIntNesting s" "OSTime (wake i e m msk ps s) = OSTime s"
  "OSLockNesting (wake i e m msk ps s) = OSLockNesting s"
  "OSEventFreeList (wake i e m msk ps s) = OSEventFreeList s"
  "OSQTbl (wake i e m msk ps s) = OSQTbl s" "OSHeap (wake i e m msk ps s) = OSHeap s"
  "OSQFreeList (wake i e m msk ps s) = OSQFreeList s"
  "j \<noteq> i \<Longrightarrow> tcb (wake i e m msk ps s) j = tcb s j"
  "tcb (wake i e m msk ps s) i = (tcb s i)\<lparr>OSTCBDly := 0, OSTCBMsg := m,
      OSTCBStat := OSTCBStat (tcb s i) AND NOT msk, OSTCBStatPend := ps\<rparr>"
  "OSEventType (ev (wake i e m msk ps s) x) = OSEventType (ev s x)"
  "OSEventCnt (ev (wake i e m msk ps s) x) = OSEventCnt (ev s x)"
  "OSEventPtr (ev (wake i e m msk ps s) x) = OSEventPtr (ev s x)"
  by (simp_all add: wake_def Let_def upd_ev_def upd_tcb_def set_rdy_def rdy_set_def)

lemma kinv_wake:
  assumes inv: "kinv s" and li: "live s i" and pw: "prio s i \<in> wset s e"
    and msk: "msk = stat_mask (OSEventType (ev s e))"
  shows "kinv (wake i e m msk ps s)"
proof -
  let ?s = "wake i e m msk ps s" and ?t = "tcb s i"
  note ws = wake_sets [OF inv li, where e = e and m = m and msk = msk and ps = ps]
  note st = stat_after_mask [OF kinv_wait_stat [OF inv li pw, folded msk]]
  have p64: "prio s i < 64" using li by (simp add: live_def)
  have r: "q \<in> rdyset ?s \<longleftrightarrow> q \<in> rdyset s \<or> q = prio s i \<and> (OSTCBStat ?t AND NOT msk) AND 8 = 0" for q
    using p64 by (auto simp: rdyset_def ws(1) bm.elems_ins)
  have w: "q \<in> wset ?s x \<longleftrightarrow> q \<in> wset s x \<and> \<not> (x = e \<and> q = prio s i)" for q x
    by (auto simp: wset_def ws(2) bm.elems_del)
  have nw: "prio s i \<notin> wset ?s x" for x
    using kinv_wait_unique [OF inv li pw] by (auto simp: w)
  have wf: "wf_tcb (tcb ?s i)" using kinv_wf [OF inv li] by (simp add: wf_tcb_def)
  have "prio s i \<in> rdyset s \<Longrightarrow> OSTCBStat ?t = 0" using kinv_ready_iff [OF inv li] by simp
  moreover have "(OSTCBStat ?t AND NOT msk) AND NOT 0x3F = 0"
    using kinv_stat_bits [OF inv li] by (rule and_drop)
  ultimately have ok: "task_ok ?s i" using st wf nw by (auto simp: task_ok_def r)
  have "bm_ok (rdy_bm ?s)" using kinv_rdy [OF inv] p64 by (simp add: ws(1) bm.invar_ins)
  moreover have "bm_ok (ev_bm (ev ?s x))" for x
    using kinv_ev [OF inv] by (simp add: ws(2) bm.invar_del)
  ultimately show ?thesis
    using inv li ok nw kinv_idle [OF inv]
    by (intro kinv_one_task [OF inv li]) (auto simp: r w)
qed

lemma cur_ok_core:
  assumes "cur_ok s" "OSTCBPrioTbl s' = OSTCBPrioTbl s" "OSRunning s' = OSRunning s"
    "OSTCBCur s' = OSTCBCur s" "OSPrioCur s' = OSPrioCur s"
    "\<And>j. OSTCBPrio (tcb s' j) = OSTCBPrio (tcb s j)"
  shows "cur_ok s'"
  using assms by (auto simp: cur_ok_def live_def)

lemma cur_ok_wake: "cur_ok s \<Longrightarrow> cur_ok (wake i e m msk ps s)"
  by (erule cur_ok_core) (auto simp: wake_def Let_def upd_ev_def upd_tcb_def set_rdy_def rdy_set_def)

text \<open>Every waiter is made ready in turn; each turn shortens the wait list, so the loop ends.\<close>

lemma event_rdy_all_ends:
  assumes "kinv s" and "msk = stat_mask (OSEventType (ev s e))"
  shows "\<exists>n s'. event_rdy_all e m msk ps nbr s = Some (n, s') \<and> kinv s' \<and> wset s' e = {} \<and>
     (cur_ok s \<longrightarrow> cur_ok s') \<and> (\<forall>x. OSEventType (ev s' x) = OSEventType (ev s x)) \<and>
     n = nbr + word_of_nat (card (wset s e))"
  using assms
proof (induction "card (wset s e)" arbitrary: s nbr rule: less_induct)
  case less
  show ?case
  proof (cases "OSEventGrp (ev s e) = 0")
    case True
    then have "wset s e = {}" using grp_zero_iff [OF less.prems(1)] by simp
    then show ?thesis using True less.prems by (subst event_rdy_all.simps) auto
  next
    case False
    obtain i where li: "live s i" and pw: "prio s i \<in> wset s e"
      and rd: "OS_EventTaskRdy e m msk ps s = (OSTCBPrio (tcb s i), wake i e m msk ps s)"
      using EventTaskRdy_wake [OF less.prems(1) False] by metis
    let ?s = "wake i e m msk ps s"
    have inv: "kinv ?s" using less.prems li pw by (intro kinv_wake) auto
    have ws: "wset ?s e = wset s e - {prio s i}"
      using wake_sets(2) [OF less.prems(1) li] by (simp add: wset_def bm.elems_del)
    have fin: "finite (wset s e)" by (simp add: wset_def)
    have card: "card (wset s e) = Suc (card (wset ?s e))"
      unfolding ws using fin pw by (rule card.remove)
    have ih: "\<exists>n s'. event_rdy_all e m msk ps (nbr + 1) ?s = Some (n, s') \<and> kinv s' \<and>
        wset s' e = {} \<and> (cur_ok ?s \<longrightarrow> cur_ok s') \<and>
        (\<forall>x. OSEventType (ev s' x) = OSEventType (ev ?s x)) \<and>
        n = (nbr + 1) + word_of_nat (card (wset ?s e))"
      using less.prems inv card by (intro less.hyps) auto
    have "event_rdy_all e m msk ps nbr s = event_rdy_all e m msk ps (nbr + 1) ?s"
      using False rd by (subst event_rdy_all.simps) simp
    with ih cur_ok_wake card show ?thesis by (auto simp: algebra_simps)
  qed
qed

section \<open>Blocking the running task on an event, and its return\<close>

text \<open>
  The middle of every pend service, from \<open>OSTCBCur->OSTCBStat |= OS_STAT_SEM\<close> to the
  call of \<open>OS_EventTaskWait\<close>, and its end, from the switch on \<open>OSTCBStatPend\<close> after the
  task has been scheduled again; \<open>msk\<close> is the status bit of the service.
\<close>

definition pend_block :: "u8 \<Rightarrow> nat \<Rightarrow> u32 \<Rightarrow> os \<Rightarrow> os" where
  "pend_block msk e timeout s =
     OS_EventTaskWait e (upd_tcb (cur s) (\<lambda>t. t\<lparr>OSTCBStat := OSTCBStat t OR msk,
       OSTCBStatPend := OS_STAT_PEND_OK, OSTCBDly := timeout\<rparr>) s)"

definition pend_finish :: "nat \<Rightarrow> os \<Rightarrow> u8 \<times> os" where
  "pend_finish e s =
    (let st = OSTCBStatPend (tcb s (cur s));
         (err, s1) = (if st = OS_STAT_PEND_OK then (OS_ERR_NONE, s)
                      else if st = OS_STAT_PEND_ABORT then (OS_ERR_PEND_ABORT, s)
                      else (OS_ERR_TIMEOUT, OS_EventTaskRemove (cur s) e s))
     in (err, upd_tcb (cur s) (\<lambda>t. t\<lparr>OSTCBStat := OS_STAT_RDY, OSTCBStatPend := OS_STAT_PEND_OK,
               OSTCBEventPtr := None\<rparr>) s1))"

lemma pend_block_sets:
  assumes inv: "kinv s" and lc: "live s (cur s)"
  shows "rdy_bm (pend_block msk e tmo s) = bm_del (prio s (cur s)) (rdy_bm s)"
    and "ev_bm (ev (pend_block msk e tmo s) x) =
      (if x = e then bm_ins (prio s (cur s)) (ev_bm (ev s e)) else ev_bm (ev s x))"
proof -
  let ?t = "(tcb s (cur s))\<lparr>OSTCBStat := OSTCBStat (tcb s (cur s)) OR msk,
       OSTCBStatPend := OS_STAT_PEND_OK, OSTCBDly := tmo, OSTCBEventPtr := Some e\<rparr>"
  have wf: "wf_tcb ?t" using kinv_wf [OF inv lc] by (simp add: wf_tcb_def)
  show "rdy_bm (pend_block msk e tmo s) = bm_del (prio s (cur s)) (rdy_bm s)"
    using rdy_bm_clear [OF wf]
    by (simp add: pend_block_def OS_EventTaskWait_def Let_def upd_ev_def upd_tcb_def rdy_bm_def cur_def)
  show "ev_bm (ev (pend_block msk e tmo s) x) =
      (if x = e then bm_ins (prio s (cur s)) (ev_bm (ev s e)) else ev_bm (ev s x))"
    using ev_bm_ev_set [OF wf]
    by (simp add: pend_block_def OS_EventTaskWait_def Let_def upd_ev_def upd_tcb_def cur_def)
qed

lemma pend_block_frame [simp]:
  "OSTCBPrioTbl (pend_block msk e tmo s) = OSTCBPrioTbl s"
  "OSRunning (pend_block msk e tmo s) = OSRunning s"
  "OSPrioCur (pend_block msk e tmo s) = OSPrioCur s"
  "OSTCBCur (pend_block msk e tmo s) = OSTCBCur s"
  "OSIntNesting (pend_block msk e tmo s) = OSIntNesting s"
  "OSLockNesting (pend_block msk e tmo s) = OSLockNesting s"
  "j \<noteq> cur s \<Longrightarrow> tcb (pend_block msk e tmo s) j = tcb s j"
  "tcb (pend_block msk e tmo s) (cur s) = (tcb s (cur s))\<lparr>OSTCBStat := OSTCBStat (tcb s (cur s)) OR msk,
       OSTCBStatPend := OS_STAT_PEND_OK, OSTCBDly := tmo, OSTCBEventPtr := Some e\<rparr>"
  "OSEventType (ev (pend_block msk e tmo s) x) = OSEventType (ev s x)"
  "OSEventCnt (ev (pend_block msk e tmo s) x) = OSEventCnt (ev s x)"
  "OSEventPtr (ev (pend_block msk e tmo s) x) = OSEventPtr (ev s x)"
  by (simp_all add: pend_block_def OS_EventTaskWait_def Let_def upd_ev_def upd_tcb_def cur_def
      rdy_clear_def set_rdy_def)

lemma kinv_pend_block:
  assumes inv: "kinv s" and lc: "live s (cur s)" and rc: "prio s (cur s) \<in> rdyset s"
    and idle: "prio s (cur s) \<noteq> 63" and free: "\<And>x. prio s (cur s) \<notin> wset s x"
    and msk: "msk = stat_mask (OSEventType (ev s e))" "msk \<noteq> 0"
  shows "kinv (pend_block msk e tmo s)"
proof -
  let ?s = "pend_block msk e tmo s" and ?p = "prio s (cur s)"
  note ps = pend_block_sets [OF inv lc, where msk = msk and e = e and tmo = tmo]
  have p64: "?p < 64" using lc by (simp add: live_def)
  have r: "q \<in> rdyset ?s \<longleftrightarrow> q \<in> rdyset s \<and> q \<noteq> ?p" for q
    by (auto simp: rdyset_def ps(1) bm.elems_del)
  have w: "q \<in> wset ?s x \<longleftrightarrow> q \<in> wset s x \<or> x = e \<and> q = ?p" for q x
    using p64 by (auto simp: wset_def ps(2) bm.elems_ins)
  have st: "OSTCBStat (tcb s (cur s)) = 0" using kinv_ready_iff [OF inv lc] rc by simp
  have wf: "wf_tcb (tcb ?s (cur s))" using kinv_wf [OF inv lc] by (simp add: wf_tcb_def)
  have m: "msk AND NOT msk = 0" by simp
  have ok: "task_ok ?s (cur s)"
    using wf st msk(2) free m stat_mask_bits [of "OSEventType (ev s e)"]
    by (auto simp: task_ok_def r w simp flip: and.assoc msk(1))
  have "bm_ok (rdy_bm ?s)" using kinv_rdy [OF inv] by (simp add: ps(1) bm.invar_del)
  moreover have "bm_ok (ev_bm (ev ?s x))" for x
    using kinv_ev [OF inv] p64 by (simp add: ps(2) bm.invar_ins)
  ultimately show ?thesis
    using inv lc ok free kinv_idle [OF inv] idle msk(2)
    by (intro kinv_one_task [OF inv lc]) (auto simp: r w simp flip: msk(1))
qed

lemma cur_ok_live: "cur_ok s \<Longrightarrow> live s (cur s)" "cur_ok s \<Longrightarrow> prio s (cur s) = unat (OSPrioCur s)"
  by (auto simp: cur_ok_def cur_def)

lemma cur_ok_pend_block: "cur_ok s \<Longrightarrow> cur_ok (pend_block msk e tmo s)"
  by (erule cur_ok_core) (auto simp: pend_block_def OS_EventTaskWait_def Let_def upd_ev_def
      upd_tcb_def rdy_clear_def set_rdy_def)

lemma pend_finish_cases:
  obtains "OSTCBStatPend (tcb s (cur s)) = OS_STAT_PEND_OK" "fst (pend_finish e s) = OS_ERR_NONE"
  | "OSTCBStatPend (tcb s (cur s)) = OS_STAT_PEND_ABORT" "fst (pend_finish e s) = OS_ERR_PEND_ABORT"
  | "OSTCBStatPend (tcb s (cur s)) \<notin> {OS_STAT_PEND_OK, OS_STAT_PEND_ABORT}"
    "fst (pend_finish e s) = OS_ERR_TIMEOUT"
  by (auto simp: pend_finish_def Let_def)

lemma pend_finish_frame [simp]:
  "OSTCBPrioTbl (snd (pend_finish e s)) = OSTCBPrioTbl s" "OSRunning (snd (pend_finish e s)) = OSRunning s"
  "OSPrioCur (snd (pend_finish e s)) = OSPrioCur s" "OSTCBCur (snd (pend_finish e s)) = OSTCBCur s"
  "OSIntNesting (snd (pend_finish e s)) = OSIntNesting s"
  "OSLockNesting (snd (pend_finish e s)) = OSLockNesting s" "rdy_bm (snd (pend_finish e s)) = rdy_bm s"
  "j \<noteq> cur s \<Longrightarrow> tcb (snd (pend_finish e s)) j = tcb s j"
  "tcb (snd (pend_finish e s)) (cur s) = (tcb s (cur s))\<lparr>OSTCBStat := OS_STAT_RDY,
     OSTCBStatPend := OS_STAT_PEND_OK, OSTCBEventPtr := None\<rparr>"
  "OSEventType (ev (snd (pend_finish e s)) x) = OSEventType (ev s x)"
  "OSEventCnt (ev (snd (pend_finish e s)) x) = OSEventCnt (ev s x)"
  "OSEventPtr (ev (snd (pend_finish e s)) x) = OSEventPtr (ev s x)"
  by (auto simp: pend_finish_def Let_def OS_EventTaskRemove_def upd_ev_def upd_tcb_def rdy_bm_def)

lemma pend_finish_sets:
  assumes inv: "kinv s" and lc: "live s (cur s)"
  shows "ev_bm (ev (snd (pend_finish e s)) x) =
    (if x = e \<and> OSTCBStatPend (tcb s (cur s)) \<notin> {OS_STAT_PEND_OK, OS_STAT_PEND_ABORT}
     then bm_del (prio s (cur s)) (ev_bm (ev s e)) else ev_bm (ev s x))"
  using ev_bm_ev_clear [OF kinv_wf [OF inv lc]]
  by (auto simp: pend_finish_def Let_def OS_EventTaskRemove_def upd_ev_def upd_tcb_def)

text \<open>
  The tail of a pend service restores what a running task must satisfy: it is in no
  wait list and has no event pointer.
\<close>

lemma kinv_pend_finish:
  assumes inv: "kinv s" and lc: "live s (cur s)" and rc: "prio s (cur s) \<in> rdyset s"
    and ep: "OSTCBEventPtr (tcb s (cur s)) = Some e"
  shows "kinv (snd (pend_finish e s))" and "prio s (cur s) \<notin> wset (snd (pend_finish e s)) x"
proof -
  let ?s = "snd (pend_finish e s)" and ?p = "prio s (cur s)"
  let ?to = "OSTCBStatPend (tcb s (cur s)) \<notin> {OS_STAT_PEND_OK, OS_STAT_PEND_ABORT}"
  note es = pend_finish_sets [OF inv lc, of e]
  have st: "OSTCBStat (tcb s (cur s)) = 0" "OSTCBDly (tcb s (cur s)) = 0"
    using kinv_ready_iff [OF inv lc] rc by auto
  have lst: "x = e \<and> OSTCBStatPend (tcb s (cur s)) = OS_STAT_PEND_TO" if "?p \<in> wset s x" for x
    using kinv_task [OF inv lc] that ep st by (auto simp: task_ok_def)
  have w: "q \<in> wset ?s x \<longleftrightarrow> q \<in> wset s x \<and> \<not> (x = e \<and> ?to \<and> q = ?p)" for q x
    by (auto simp: wset_def es bm.elems_del)
  have nw: "?p \<notin> wset ?s x" for x using lst [of x] by (auto simp: w)
  then show "?p \<notin> wset ?s x" .
  have r: "rdyset ?s = rdyset s" by (simp add: rdyset_def)
  have wf: "wf_tcb (tcb ?s (cur s))" using kinv_wf [OF inv lc] by (simp add: wf_tcb_def)
  have ok: "task_ok ?s (cur s)" using wf nw st rc by (auto simp: task_ok_def r)
  have "bm_ok (ev_bm (ev ?s x))" for x using kinv_ev [OF inv] by (simp add: es bm.invar_del)
  then show "kinv ?s"
    using ok nw kinv_idle [OF inv] kinv_rdy [OF inv]
    by (intro kinv_one_task [OF inv lc]) (auto simp: r w)
qed

text \<open>An event without waiters may change its type, its pointer and its counter.\<close>

lemma kinv_quiet_event:
  assumes inv: "kinv s"
    and tbl: "OSTCBPrioTbl s' = OSTCBPrioTbl s"
    and oth: "\<And>j. same_core (tcb s j) (tcb s' j)"
    and rdy: "rdy_bm s' = rdy_bm s"
    and eve: "\<And>x. x \<noteq> e \<Longrightarrow> OSEventType (ev s' x) = OSEventType (ev s x) \<and> ev_bm (ev s' x) = ev_bm (ev s x)"
    and quiet: "wset s e = {}" "wset s' e = {}" "bm_ok (ev_bm (ev s' e))"
  shows "kinv s'"
proof -
  have prio_eq: "OSTCBPrio (tcb s' j) = OSTCBPrio (tcb s j)" for j
    using oth by (auto simp: same_core_def)
  have live_eq: "live s' j = live s j" for j by (simp add: live_def prio_eq tbl)
  have r: "rdyset s' = rdyset s" by (simp add: rdyset_def rdy)
  have w: "wset s' x = wset s x" for x
    using quiet eve by (cases "x = e") (auto simp: wset_def)
  have t: "p \<in> wset s x \<Longrightarrow> OSEventType (ev s' x) = OSEventType (ev s x)" for p x
    using quiet eve by (cases "x = e") auto
  have "task_ok s' j" if "live s j" for j
    using kinv_task [OF inv that] oth [of j]
    by (simp add: task_ok_def r w same_core_wf prio_eq) (auto simp: same_core_def t)
  moreover have "bm_ok (ev_bm (ev s' x))" for x
    using quiet eve kinv_ev [OF inv, of x] by (cases "x = e") auto
  ultimately show ?thesis
    using kinv_rdy [OF inv] kinv_rdy_live [OF inv] kinv_wait_live [OF inv] kinv_idle [OF inv]
      kinv_used [OF inv] kinv_slot [OF inv]
    by (auto simp: kinv_def live_eq prio_eq r w rdy t tbl)
qed

end
