(* ===== verification/OsEvent.thy ===== *)
theory OsEvent
  imports OsCore
begin

text \<open>
  What the semaphore, mailbox, queue and mutex services have in common: they take
  event control blocks from one free list and give them back, they hand a resource
  to the most urgent waiter, and they block the running task. The locale
  \<open>wait_service\<close> proves the last two once; each service interprets it with its
  event type and its status bit.
\<close>

section \<open>Names\<close>

text \<open>A C string is the list of its characters before the terminating null.\<close>

fun strlen_loop :: "string \<Rightarrow> u8 \<Rightarrow> u8" where
  "strlen_loop [] len = len"
| "strlen_loop (c # psrc) len = strlen_loop psrc (len + 1)"

definition OS_StrLen :: "string \<Rightarrow> u8" where
  "OS_StrLen psrc = strlen_loop psrc 0"

definition event_has_name :: "u8 \<Rightarrow> bool" where
  "event_has_name ty \<longleftrightarrow> ty = OS_EVENT_TYPE_SEM \<or> ty = OS_EVENT_TYPE_MUTEX \<or> ty = OS_EVENT_TYPE_MBOX \<or>
     ty = OS_EVENT_TYPE_Q"

definition OSEventNameGet :: "nat \<Rightarrow> os \<Rightarrow> u8 \<times> string option \<times> u8" where
  "OSEventNameGet e s =
    (if 0 < OSIntNesting s then (0, None, OS_ERR_NAME_GET_ISR)
     else if \<not> event_has_name (OSEventType (ev s e)) then (0, None, OS_ERR_EVENT_TYPE)
     else let pname = OSEventName (ev s e) in (OS_StrLen pname, Some pname, OS_ERR_NONE))"

definition OSEventNameSet :: "nat \<Rightarrow> string \<Rightarrow> os \<Rightarrow> u8 \<times> os" where
  "OSEventNameSet e pname s =
    (if 0 < OSIntNesting s then (OS_ERR_NAME_SET_ISR, s)
     else if \<not> event_has_name (OSEventType (ev s e)) then (OS_ERR_EVENT_TYPE, s)
     else (OS_ERR_NONE, upd_ev e (\<lambda>v. v\<lparr>OSEventName := pname\<rparr>) s))"

lemma strlen_loop_len: "strlen_loop cs n = n + of_nat (length cs)"
  by (induction cs arbitrary: n) (simp_all add: algebra_simps)

lemma OS_StrLen_length: "length cs < 256 \<Longrightarrow> unat (OS_StrLen cs) = length cs"
  by (simp add: OS_StrLen_def strlen_loop_len unat_u8_of_nat)

section \<open>The free list of event control blocks\<close>

text \<open>The cast of the \<open>void *\<close> in \<open>OSEventPtr\<close> of an unused block to \<open>OS_EVENT *\<close>.\<close>

fun ev_link :: "ptr \<Rightarrow> nat option" where
  "ev_link (PEvent e) = Some e"
| "ev_link _ = None"

definition ptr_of_ev :: "nat option \<Rightarrow> ptr" where
  "ptr_of_ev p = (case p of None \<Rightarrow> PNull | Some e \<Rightarrow> PEvent e)"

definition event_get :: "os \<Rightarrow> nat option \<times> os" where
  "event_get s = (case OSEventFreeList s of
      None \<Rightarrow> (None, s)
    | Some e \<Rightarrow> (Some e, s\<lparr>OSEventFreeList := ev_link (OSEventPtr (ev s e))\<rparr>))"

definition event_put :: "nat \<Rightarrow> os \<Rightarrow> os" where
  "event_put e s =
     (upd_ev e (\<lambda>v. v\<lparr>OSEventName := ''?'', OSEventType := OS_EVENT_TYPE_UNUSED,
        OSEventPtr := ptr_of_ev (OSEventFreeList s), OSEventCnt := 0\<rparr>) s)\<lparr>OSEventFreeList := Some e\<rparr>"

text \<open>Initialisation of a block taken by \<open>event_get\<close>, the last lines of the create services.\<close>

definition event_init :: "nat \<Rightarrow> u8 \<Rightarrow> u16 \<Rightarrow> ptr \<Rightarrow> os \<Rightarrow> os" where
  "event_init e ty cnt p s = upd_ev e (\<lambda>v. OS_EventWaitListInit (v\<lparr>OSEventType := ty,
      OSEventCnt := cnt, OSEventPtr := p, OSEventName := ''?''\<rparr>)) s"

definition evlist_ok :: "os \<Rightarrow> bool" where
  "evlist_ok s \<longleftrightarrow> (\<exists>fl. chain (\<lambda>e. ev_link (OSEventPtr (ev s e))) (OSEventFreeList s) fl \<and>
     set fl = {e. e < OS_MAX_EVENTS \<and> OSEventType (ev s e) = OS_EVENT_TYPE_UNUSED})"

lemma ev_link_ptr [simp]: "ev_link (ptr_of_ev p) = p"
  by (simp add: ptr_of_ev_def split: option.split)

lemma evlist_frame:
  assumes "evlist_ok s" and "OSEventFreeList s' = OSEventFreeList s"
    and "\<And>e. OSEventType (ev s' e) = OSEventType (ev s e)"
    and "\<And>e. OSEventType (ev s e) = OS_EVENT_TYPE_UNUSED \<Longrightarrow> OSEventPtr (ev s' e) = OSEventPtr (ev s e)"
  shows "evlist_ok s'"
proof -
  obtain fl where c: "chain (\<lambda>e. ev_link (OSEventPtr (ev s e))) (OSEventFreeList s) fl"
    and f: "set fl = {e. e < OS_MAX_EVENTS \<and> OSEventType (ev s e) = OS_EVENT_TYPE_UNUSED}"
    using assms(1) by (auto simp: evlist_ok_def)
  have "chain (\<lambda>e. ev_link (OSEventPtr (ev s' e))) (OSEventFreeList s') fl"
    using c assms(2,4) f by (subst chain_cong [of fl _ "\<lambda>e. ev_link (OSEventPtr (ev s e))"]) auto
  with f assms(3) show ?thesis by (auto simp: evlist_ok_def)
qed

lemma event_get_SomeD:
  assumes ok: "evlist_ok s" and g: "event_get s = (Some e, s1)"
  shows "e < OS_MAX_EVENTS" and "OSEventType (ev s e) = OS_EVENT_TYPE_UNUSED"
    and "s1 = s\<lparr>OSEventFreeList := ev_link (OSEventPtr (ev s e))\<rparr>"
proof -
  obtain fl where c: "chain (\<lambda>e. ev_link (OSEventPtr (ev s e))) (OSEventFreeList s) fl"
    and f: "set fl = {e. e < OS_MAX_EVENTS \<and> OSEventType (ev s e) = OS_EVENT_TYPE_UNUSED}"
    using ok by (auto simp: evlist_ok_def)
  from g have p: "OSEventFreeList s = Some e"
    and s1: "s1 = s\<lparr>OSEventFreeList := ev_link (OSEventPtr (ev s e))\<rparr>"
    by (auto simp: event_get_def split: option.splits)
  from c p have "e \<in> set fl" by (cases fl) auto
  with f s1 show "e < OS_MAX_EVENTS" "OSEventType (ev s e) = OS_EVENT_TYPE_UNUSED"
    "s1 = s\<lparr>OSEventFreeList := ev_link (OSEventPtr (ev s e))\<rparr>" by auto
qed

lemma evlist_get_init:
  assumes ok: "evlist_ok s" and g: "event_get s = (Some e, s1)" and ty: "ty \<noteq> OS_EVENT_TYPE_UNUSED"
  shows "evlist_ok (event_init e ty cnt p s1)"
proof -
  obtain fl where c: "chain (\<lambda>e. ev_link (OSEventPtr (ev s e))) (OSEventFreeList s) fl"
    and f: "set fl = {e. e < OS_MAX_EVENTS \<and> OSEventType (ev s e) = OS_EVENT_TYPE_UNUSED}"
    using ok by (auto simp: evlist_ok_def)
  note d = event_get_SomeD [OF ok g]
  have "OSEventFreeList s = Some e" using g by (auto simp: event_get_def split: option.splits)
  with c obtain fl' where fl: "fl = e # fl'" by (cases fl) auto
  then have e: "e \<notin> set fl'" using chain_distinct [OF c] by simp
  let ?s = "event_init e ty cnt p s1"
  have "chain (\<lambda>x. ev_link (OSEventPtr (ev ?s x))) (OSEventFreeList ?s) fl'"
    using c fl e d(3)
    by (subst chain_cong [of fl' _ "\<lambda>e. ev_link (OSEventPtr (ev s e))"])
      (auto simp: event_init_def upd_ev_def OS_EventWaitListInit_def)
  moreover have "set fl' = {x. x < OS_MAX_EVENTS \<and> OSEventType (ev ?s x) = OS_EVENT_TYPE_UNUSED}"
    using f fl e d ty
    by (auto simp: event_init_def upd_ev_def OS_EventWaitListInit_def set_eq_iff)
  ultimately show ?thesis by (auto simp: evlist_ok_def)
qed

lemma evlist_put:
  assumes ok: "evlist_ok s" and e: "e < OS_MAX_EVENTS" "OSEventType (ev s e) \<noteq> OS_EVENT_TYPE_UNUSED"
  shows "evlist_ok (event_put e s)"
proof -
  obtain fl where c: "chain (\<lambda>e. ev_link (OSEventPtr (ev s e))) (OSEventFreeList s) fl"
    and f: "set fl = {e. e < OS_MAX_EVENTS \<and> OSEventType (ev s e) = OS_EVENT_TYPE_UNUSED}"
    using ok by (auto simp: evlist_ok_def)
  have n: "e \<notin> set fl" using e f by auto
  let ?s = "event_put e s"
  have "chain (\<lambda>x. ev_link (OSEventPtr (ev ?s x))) (OSEventFreeList s) fl"
    using c n by (subst chain_cong [of fl _ "\<lambda>e. ev_link (OSEventPtr (ev s e))"])
      (auto simp: event_put_def upd_ev_def)
  then have "chain (\<lambda>x. ev_link (OSEventPtr (ev ?s x))) (OSEventFreeList ?s) (e # fl)"
    by (simp add: event_put_def upd_ev_def)
  moreover have "set (e # fl) = {x. x < OS_MAX_EVENTS \<and> OSEventType (ev ?s x) = OS_EVENT_TYPE_UNUSED}"
    using f e by (auto simp: event_put_def upd_ev_def)
  ultimately show ?thesis unfolding evlist_ok_def by blast
qed

lemma unat_numeral_63: "unat (63::u8) = 63"
  by simp

section \<open>The three parts of a well-formed running kernel\<close>

definition kok :: "os \<Rightarrow> bool" where
  "kok s \<longleftrightarrow> kinv s \<and> evlist_ok s \<and> cur_ok s"

abbreviation ksafe :: "os \<Rightarrow> bool" where "ksafe s \<equiv> kok s \<and> sched_ok s"

text \<open>
  A task that is running its own code, outside every pend service, at task level and
  with the scheduler unlocked: it stands in no wait list.
\<close>

definition task_level :: "os \<Rightarrow> bool" where
  "task_level s \<longleftrightarrow> OSIntNesting s = 0 \<and> OSLockNesting s = 0 \<and> (\<forall>x. prio s (cur s) \<notin> wset s x)"

lemma kokI: "kinv s \<Longrightarrow> evlist_ok s \<Longrightarrow> cur_ok s \<Longrightarrow> kok s"
  by (simp add: kok_def)

lemma kokD: "kok s \<Longrightarrow> kinv s" "kok s \<Longrightarrow> evlist_ok s" "kok s \<Longrightarrow> cur_ok s"
  by (simp_all add: kok_def)

lemma evlist_OS_Sched: "evlist_ok s \<Longrightarrow> evlist_ok (OS_Sched s)"
  by (erule evlist_frame)
    (simp_all add: OS_Sched_def os_switch_def OS_SchedNew_def OSPendSV_def upd_tcb_def Let_def)

lemma OS_Sched_frame [simp]:
  "OSEventTbl_arr (OS_Sched s) = OSEventTbl_arr s" "OSTCBPrioTbl (OS_Sched s) = OSTCBPrioTbl s"
  "rdy_bm (OS_Sched s) = rdy_bm s" "rdyset (OS_Sched s) = rdyset s" "wset (OS_Sched s) e = wset s e"
  "OSIntNesting (OS_Sched s) = OSIntNesting s" "OSLockNesting (OS_Sched s) = OSLockNesting s"
  "OSRunning (OS_Sched s) = OSRunning s" "OSTime (OS_Sched s) = OSTime s"
  "OSEventFreeList (OS_Sched s) = OSEventFreeList s"
  "OSQTbl (OS_Sched s) = OSQTbl s" "OSQFreeList (OS_Sched s) = OSQFreeList s"
  "OSHeap (OS_Sched s) = OSHeap s" "OSFlagTbl (OS_Sched s) = OSFlagTbl s"
  "OSFlagNodes (OS_Sched s) = OSFlagNodes s"
  "OSTCBList (OS_Sched s) = OSTCBList s" "OSTCBFreeList (OS_Sched s) = OSTCBFreeList s"
  by (simp_all add: OS_Sched_def os_switch_def OS_SchedNew_def OSPendSV_def upd_tcb_def Let_def
      rdy_bm_def rdyset_def wset_def)

lemma OS_Sched_tcb [simp]:
  "OSTCBStat (tcb (OS_Sched s) i) = OSTCBStat (tcb s i)" "OSTCBDly (tcb (OS_Sched s) i) = OSTCBDly (tcb s i)"
  "OSTCBStatPend (tcb (OS_Sched s) i) = OSTCBStatPend (tcb s i)"
  "OSTCBPrio (tcb (OS_Sched s) i) = OSTCBPrio (tcb s i)" "OSTCBMsg (tcb (OS_Sched s) i) = OSTCBMsg (tcb s i)"
  "OSTCBEventPtr (tcb (OS_Sched s) i) = OSTCBEventPtr (tcb s i)"
  "OSTCBNext (tcb (OS_Sched s) i) = OSTCBNext (tcb s i)" "OSTCBPrev (tcb (OS_Sched s) i) = OSTCBPrev (tcb s i)"
  "OSTCBFlagNode (tcb (OS_Sched s) i) = OSTCBFlagNode (tcb s i)"
  "OSTCBFlagsRdy (tcb (OS_Sched s) i) = OSTCBFlagsRdy (tcb s i)"
  by (simp_all add: OS_Sched_def os_switch_def OS_SchedNew_def OSPendSV_def upd_tcb_def Let_def)

lemma kok_OS_Sched: "kok s \<Longrightarrow> kok (OS_Sched s) \<and> sched_ok (OS_Sched s)"
  by (simp add: kok_def kinv_OS_Sched OS_Sched_cur evlist_OS_Sched)

text \<open>At task level the running task is ready: it has no status bit and no delay.\<close>

lemma running_ready:
  assumes "kinv s" "cur_ok s" "sched_ok s" "OSIntNesting s = 0" "OSLockNesting s = 0"
  shows "prio s (cur s) \<in> rdyset s"
  using assms kinv_Min_in [of s] cur_ok_live(2) [of s] by (simp add: sched_ok_def)

lemma unused_quiet:
  "kinv s \<Longrightarrow> OSEventType (ev s e) = OS_EVENT_TYPE_UNUSED \<Longrightarrow> wset s e = {}"
  using kinv_used [of s _ e] by (auto simp: stat_mask_def)

lemma kinv_event_init:
  assumes inv: "kinv s" and q: "wset s e = {}"
  shows "kinv (event_init e ty cnt p s)"
proof (rule kinv_quiet_event [OF inv, where e = e])
  let ?s = "event_init e ty cnt p s"
  have b: "ev_bm (ev ?s e) = bm_empty"
    by (simp add: event_init_def upd_ev_def OS_EventWaitListInit_def ev_bm_def bm_empty_def)
  show "wset ?s e = {}" "bm_ok (ev_bm (ev ?s e))" by (simp_all add: wset_def b)
qed (auto simp: q event_init_def upd_ev_def rdy_bm_def)

lemma kinv_event_put:
  assumes inv: "kinv s" and q: "wset s e = {}"
  shows "kinv (event_put e s)"
proof (rule kinv_quiet_event [OF inv, where e = e])
  let ?s = "event_put e s"
  have b: "ev_bm (ev ?s e) = ev_bm (ev s e)" by (simp add: event_put_def upd_ev_def ev_bm_def)
  show "wset ?s e = {}" "bm_ok (ev_bm (ev ?s e))"
    using q kinv_ev [OF inv] by (simp_all add: wset_def b)
qed (auto simp: q event_put_def upd_ev_def rdy_bm_def)

lemma event_init_frame [simp]:
  "OSTCBPrioTbl (event_init e ty cnt p s) = OSTCBPrioTbl s" "OSRunning (event_init e ty cnt p s) = OSRunning s"
  "OSPrioCur (event_init e ty cnt p s) = OSPrioCur s" "OSTCBCur (event_init e ty cnt p s) = OSTCBCur s"
  "OSTCBTbl (event_init e ty cnt p s) = OSTCBTbl s" "OSIntNesting (event_init e ty cnt p s) = OSIntNesting s"
  "OSLockNesting (event_init e ty cnt p s) = OSLockNesting s" "rdy_bm (event_init e ty cnt p s) = rdy_bm s"
  by (simp_all add: event_init_def upd_ev_def rdy_bm_def)

lemma event_put_frame [simp]:
  "OSTCBPrioTbl (event_put e s) = OSTCBPrioTbl s" "OSRunning (event_put e s) = OSRunning s"
  "OSPrioCur (event_put e s) = OSPrioCur s" "OSTCBCur (event_put e s) = OSTCBCur s"
  "OSTCBTbl (event_put e s) = OSTCBTbl s" "OSIntNesting (event_put e s) = OSIntNesting s"
  "OSLockNesting (event_put e s) = OSLockNesting s" "rdy_bm (event_put e s) = rdy_bm s"
  by (simp_all add: event_put_def upd_ev_def rdy_bm_def)

lemma sched_ok_core:
  "sched_ok s \<Longrightarrow> rdy_bm s' = rdy_bm s \<Longrightarrow> OSPrioCur s' = OSPrioCur s \<Longrightarrow>
   OSIntNesting s' = OSIntNesting s \<Longrightarrow> OSLockNesting s' = OSLockNesting s \<Longrightarrow> sched_ok s'"
  by (simp add: sched_ok_def rdyset_def)

text \<open>Allocation in a well-formed kernel: either the pool is empty, or a fresh block is set up.\<close>

lemma kok_event_get:
  assumes ok: "kok s" and g: "event_get s = (Some e, s1)" and ty: "ty \<noteq> OS_EVENT_TYPE_UNUSED"
  shows "kok (event_init e ty cnt p s1)" and "sched_ok s \<Longrightarrow> sched_ok (event_init e ty cnt p s1)"
proof -
  note d = event_get_SomeD [OF kokD(2) [OF ok] g]
  have k1: "kinv s1" using kokD(1) [OF ok] by (rule kinv_frame) (simp_all add: d(3))
  have "wset s1 e = {}" using unused_quiet [OF kokD(1) [OF ok] d(2)] by (simp add: d(3) wset_def)
  with k1 have "kinv (event_init e ty cnt p s1)" by (rule kinv_event_init)
  moreover have "cur_ok (event_init e ty cnt p s1)"
    using kokD(3) [OF ok] by (rule cur_ok_core) (simp_all add: d(3))
  ultimately show "kok (event_init e ty cnt p s1)"
    using evlist_get_init [OF kokD(2) [OF ok] g ty] by (simp add: kok_def)
  show "sched_ok (event_init e ty cnt p s1)" if "sched_ok s"
    using that by (rule sched_ok_core) (simp_all add: d(3), simp add: rdy_bm_def)
qed

lemma kok_event_put:
  assumes ok: "kok s" and e: "e < OS_MAX_EVENTS" "OSEventType (ev s e) \<noteq> OS_EVENT_TYPE_UNUSED"
    and q: "wset s e = {}"
  shows "kok (event_put e s)"
proof -
  have "cur_ok (event_put e s)" using kokD(3) [OF ok] by (rule cur_ok_core) simp_all
  then show ?thesis
    using kinv_event_put [OF kokD(1) [OF ok] q] evlist_put [OF kokD(2) [OF ok] e]
    by (simp add: kok_def)
qed

text \<open>Waking tasks leaves the event types, the event pointers and the free list alone.\<close>

lemma EventTaskRdy_events [simp]:
  "OSEventFreeList (snd (OS_EventTaskRdy e m k ps s)) = OSEventFreeList s"
  "OSEventType (ev (snd (OS_EventTaskRdy e m k ps s)) x) = OSEventType (ev s x)"
  "OSEventPtr (ev (snd (OS_EventTaskRdy e m k ps s)) x) = OSEventPtr (ev s x)"
  "OSEventCnt (ev (snd (OS_EventTaskRdy e m k ps s)) x) = OSEventCnt (ev s x)"
  by (simp_all add: OS_EventTaskRdy_def OS_EventTaskRemove_def Let_def upd_ev_def upd_tcb_def set_rdy_def)

text \<open>What each turn of the loop keeps, the loop keeps.\<close>

lemma event_rdy_all_keeps:
  assumes "event_rdy_all e m k ps nbr s = Some r"
    and "\<And>s. f (snd (OS_EventTaskRdy e m k ps s)) = f s"
  shows "f (snd r) = f s"
  using assms(1)
proof (rule event_rdy_all.raw_induct [where P = "\<lambda>e' m' k' ps' nbr s r.
    e' = e \<and> m' = m \<and> k' = k \<and> ps' = ps \<longrightarrow> f (snd r) = f s", THEN mp, rotated])
  fix g e' m' k' ps' nbr' s' r'
  assume ih: "\<And>e'' m'' k'' ps'' nbr'' s'' r''. g e'' m'' k'' ps'' nbr'' s'' = Some r'' \<Longrightarrow>
      e'' = e \<and> m'' = m \<and> k'' = k \<and> ps'' = ps \<longrightarrow> f (snd r'') = f s''"
    and r: "(if OSEventGrp (ev s' e') \<noteq> 0 then g e' m' k' ps' (nbr' + 1)
        (snd (OS_EventTaskRdy e' m' k' ps' s')) else Some (nbr', s')) = Some r'"
  show "e' = e \<and> m' = m \<and> k' = k \<and> ps' = ps \<longrightarrow> f (snd r') = f s'"
    using r ih assms(2) by (auto split: if_splits)
qed simp

lemma EventTaskRdy_rest [simp]:
  "OSQTbl (snd (OS_EventTaskRdy e m k ps s)) = OSQTbl s"
  "OSQFreeList (snd (OS_EventTaskRdy e m k ps s)) = OSQFreeList s"
  "OSHeap (snd (OS_EventTaskRdy e m k ps s)) = OSHeap s"
  "OSFlagTbl (snd (OS_EventTaskRdy e m k ps s)) = OSFlagTbl s"
  "OSFlagNodes (snd (OS_EventTaskRdy e m k ps s)) = OSFlagNodes s"
  "OSTCBPrioTbl (snd (OS_EventTaskRdy e m k ps s)) = OSTCBPrioTbl s"
  "OSTCBList (snd (OS_EventTaskRdy e m k ps s)) = OSTCBList s"
  "OSTCBFreeList (snd (OS_EventTaskRdy e m k ps s)) = OSTCBFreeList s"
  "OSIntNesting (snd (OS_EventTaskRdy e m k ps s)) = OSIntNesting s"
  "OSLockNesting (snd (OS_EventTaskRdy e m k ps s)) = OSLockNesting s"
  "OSTCBCur (snd (OS_EventTaskRdy e m k ps s)) = OSTCBCur s"
  "OSPrioCur (snd (OS_EventTaskRdy e m k ps s)) = OSPrioCur s"
  "OSTmrTbl (snd (OS_EventTaskRdy e m k ps s)) = OSTmrTbl s"
  "OSTCBEventPtr (tcb (snd (OS_EventTaskRdy e m k ps s)) i) = OSTCBEventPtr (tcb s i)"
  "OSTCBPrio (tcb (snd (OS_EventTaskRdy e m k ps s)) i) = OSTCBPrio (tcb s i)"
  "OSTCBNext (tcb (snd (OS_EventTaskRdy e m k ps s)) i) = OSTCBNext (tcb s i)"
  "OSTCBPrev (tcb (snd (OS_EventTaskRdy e m k ps s)) i) = OSTCBPrev (tcb s i)"
  "OSTCBFlagNode (tcb (snd (OS_EventTaskRdy e m k ps s)) i) = OSTCBFlagNode (tcb s i)"
  by (simp_all add: OS_EventTaskRdy_def OS_EventTaskRemove_def Let_def upd_ev_def upd_tcb_def set_rdy_def)

lemma event_rdy_all_events:
  assumes "event_rdy_all e m k ps nbr s = Some r"
  shows "OSEventFreeList (snd r) = OSEventFreeList s \<and>
    (\<forall>x. OSEventType (ev (snd r) x) = OSEventType (ev s x) \<and> OSEventPtr (ev (snd r) x) = OSEventPtr (ev s x) \<and>
      OSEventCnt (ev (snd r) x) = OSEventCnt (ev s x))"
  using assms
proof (rule event_rdy_all.raw_induct [where P = "\<lambda>e m k ps nbr s r. OSEventFreeList (snd r) = OSEventFreeList s \<and>
    (\<forall>x. OSEventType (ev (snd r) x) = OSEventType (ev s x) \<and> OSEventPtr (ev (snd r) x) = OSEventPtr (ev s x) \<and>
      OSEventCnt (ev (snd r) x) = OSEventCnt (ev s x))", rotated])
qed (force split: if_splits)

lemma event_rdy_all_evlist:
  assumes "event_rdy_all e m k ps nbr s = Some (n, s')" and "evlist_ok s"
  shows "evlist_ok s'"
  using assms(2) by (rule evlist_frame) (use event_rdy_all_events [OF assms(1)] in simp_all)

lemma wset_wake:
  assumes "kinv s" "live s i"
  shows "wset (wake i e m msk ps s) x = (if x = e then wset s e - {prio s i} else wset s x)"
  using wake_sets(2) [OF assms] by (simp add: wset_def bm.elems_del)

lemma rdyset_wake:
  assumes "kinv s" "live s i" "(OSTCBStat (tcb s i) AND NOT msk) AND OS_STAT_SUSPEND = 0"
  shows "rdyset (wake i e m msk ps s) = insert (prio s i) (rdyset s)"
  using wake_sets(1) [OF assms(1,2)] assms by (simp add: rdyset_def bm.elems_ins live_def)

text \<open>An event record may change its counter or pointer without any effect on the tasks.\<close>

lemma kok_upd_ev:
  assumes ok: "kok s" and f: "\<And>v. OSEventType (f v) = OSEventType v" "\<And>v. ev_bm (f v) = ev_bm v"
    and u: "OSEventType (ev s e) \<noteq> OS_EVENT_TYPE_UNUSED"
  shows "kok (upd_ev e f s)" and "sched_ok s \<Longrightarrow> sched_ok (upd_ev e f s)"
proof -
  have "kinv (upd_ev e f s)" using kokD(1) [OF ok] by (rule kinv_frame) (simp_all add: upd_ev_def f)
  moreover have "evlist_ok (upd_ev e f s)" using kokD(2) [OF ok]
    by (rule evlist_frame) (use u in \<open>auto simp: upd_ev_def f\<close>)
  moreover have "cur_ok (upd_ev e f s)" using kokD(3) [OF ok]
    by (rule cur_ok_core) (simp_all add: upd_ev_def)
  ultimately show "kok (upd_ev e f s)" by (simp add: kok_def)
  show "sched_ok s \<Longrightarrow> sched_ok (upd_ev e f s)"
    by (erule sched_ok_core) (simp_all add: upd_ev_def rdy_bm_def)
qed

section \<open>What the wait services share\<close>

locale wait_service =
  fixes ty :: u8 and msk :: u8
  assumes mask: "stat_mask ty = msk" and mask_nz: "msk \<noteq> 0" and ty_used: "ty \<noteq> OS_EVENT_TYPE_UNUSED"
begin

lemma kok_wake:
  assumes "kok s" "OSEventType (ev s e) = ty" "live s i" "prio s i \<in> wset s e"
  shows "kok (wake i e m msk ps s)"
proof -
  have "kinv (wake i e m msk ps s)"
    using assms mask by (intro kinv_wake) (auto simp: kok_def)
  moreover have "evlist_ok (wake i e m msk ps s)"
    using kokD(2) [OF assms(1)] by (rule evlist_frame) simp_all
  ultimately show ?thesis using assms(1) by (simp add: kok_def cur_ok_wake)
qed

lemma hand_over:
  assumes ok: "kok s" and ty: "OSEventType (ev s e) = ty" and grp: "OSEventGrp (ev s e) \<noteq> 0"
  shows "kok (snd (OS_EventTaskRdy e m msk ps s))"
    and "kok (OS_Sched (snd (OS_EventTaskRdy e m msk ps s)))"
    and "sched_ok (OS_Sched (snd (OS_EventTaskRdy e m msk ps s)))"
proof -
  obtain i where "live s i" "prio s i \<in> wset s e"
    and rd: "OS_EventTaskRdy e m msk ps s = (OSTCBPrio (tcb s i), wake i e m msk ps s)"
    using EventTaskRdy_wake [OF kokD(1) [OF ok] grp] by metis
  then show "kok (snd (OS_EventTaskRdy e m msk ps s))"
    using kok_wake [OF ok ty] by simp
  then show "kok (OS_Sched (snd (OS_EventTaskRdy e m msk ps s)))"
    and "sched_ok (OS_Sched (snd (OS_EventTaskRdy e m msk ps s)))"
    by (simp_all add: kok_OS_Sched)
qed

lemma drain:
  assumes ok: "kok s" and ty: "OSEventType (ev s e) = ty"
  obtains n s' where "event_rdy_all e m msk ps nbr s = Some (n, s')" and "kok s'" and "wset s' e = {}"
    and "OSEventType (ev s' e) = ty" and "n = nbr + word_of_nat (card (wset s e))"
proof -
  obtain n s' where r: "event_rdy_all e m msk ps nbr s = Some (n, s')"
    and k: "kinv s'" "wset s' e = {}" "cur_ok s'" "OSEventType (ev s' e) = ty"
    and n: "n = nbr + word_of_nat (card (wset s e))"
    using event_rdy_all_ends [OF kokD(1) [OF ok], of msk e m ps nbr] mask ty kokD(3) [OF ok]
    by auto
  have "evlist_ok s'"
    using r kokD(2) [OF ok] event_rdy_all_evlist by blast
  with r k n show ?thesis by (intro that) (auto simp: kok_def)
qed

text \<open>The tail of a delete service with \<open>OS_DEL_ALWAYS\<close> and of an abort with broadcast.\<close>

lemma delete:
  assumes ok: "ksafe s" and ty: "OSEventType (ev s e) = ty" and e: "e < OS_MAX_EVENTS"
  obtains n s1 where "event_rdy_all e m msk ps 0 s = Some (n, s1)" and "wset s1 e = {}"
    and "OSEventType (ev s1 e) = ty"
    and "ksafe (if OSEventGrp (ev s e) \<noteq> 0 then OS_Sched (event_put e s1) else event_put e s1)"
proof -
  obtain n s1 where r: "event_rdy_all e m msk ps 0 s = Some (n, s1)" and k: "kok s1" "wset s1 e = {}"
    and t1: "OSEventType (ev s1 e) = ty"
    using drain [OF conjunct1 [OF ok] ty] by metis
  have put: "kok (event_put e s1)" using k e t1 ty_used by (intro kok_event_put) auto
  show ?thesis
  proof (cases "OSEventGrp (ev s e) = 0")
    case True
    then have "s1 = s" using r by (subst (asm) event_rdy_all.simps) simp
    moreover have "sched_ok (event_put e s)" using conjunct2 [OF ok] by (rule sched_ok_core) simp_all
    ultimately show ?thesis using that [OF r k(2) t1] True put by simp
  qed (use that [OF r k(2) t1] put in \<open>simp add: kok_OS_Sched\<close>)
qed

lemma abort_all:
  assumes ok: "kok s" and ty: "OSEventType (ev s e) = ty"
  obtains s1 where "event_rdy_all e m msk ps 0 s = Some (word_of_nat (card (wset s e)), s1)"
    and "wset s1 e = {}" and "ksafe (OS_Sched s1)"
  using drain [OF ok ty, of m ps 0] by (metis add_0 kok_OS_Sched)

lemma quiet_put:
  assumes "ksafe s" "OSEventType (ev s e) = ty" "e < OS_MAX_EVENTS" "OSEventGrp (ev s e) = 0"
  shows "ksafe (event_put e s)"
  using delete [of s e PNull 0] assms by (subst (asm) event_rdy_all.simps) auto

text \<open>
  A running task that is in no wait list may block; it then gives up the processor
  and stands in the wait list of the event.
\<close>

lemma block_ready:
  fixes tmo :: u32
  assumes ok: "kok s" and rc: "prio s (cur s) \<in> rdyset s" and task: "OSIntNesting s = 0" "OSLockNesting s = 0"
    and ty: "OSEventType (ev s e) = ty" and idle: "OSPrioCur s \<noteq> OS_TASK_IDLE_PRIO"
    and free: "\<And>x. prio s (cur s) \<notin> wset s x"
  defines "s' \<equiv> OS_Sched (pend_block msk e tmo s)"
  shows "kok s'" and "sched_ok s'" and "OSTCBCur s' \<noteq> OSTCBCur s" and "prio s (cur s) \<in> wset s' e"
proof -
  note inv = kokD(1) [OF ok] and c = kokD(3) [OF ok]
  let ?b = "pend_block msk e tmo s" and ?p = "prio s (cur s)"
  have lc: "live s (cur s)" and pc: "?p = unat (OSPrioCur s)" using c by (auto dest: cur_ok_live)
  have "?p \<noteq> 63" using idle pc by (metis word_unat_eq_iff unat_numeral_63)
  then have kb: "kinv ?b"
    using inv lc rc free ty mask mask_nz by (intro kinv_pend_block) auto
  moreover have "evlist_ok ?b" using kokD(2) [OF ok]
    by (rule evlist_frame) (simp_all add: pend_block_def OS_EventTaskWait_def Let_def upd_ev_def
        upd_tcb_def rdy_clear_def set_rdy_def)
  ultimately have kokb: "kok ?b" using c by (simp add: kok_def cur_ok_pend_block)
  then show k: "kok s'" and "sched_ok s'" unfolding s'_def by (simp_all add: kok_OS_Sched)
  have r': "rdyset s' = rdyset s - {?p}"
    using pend_block_sets(1) [OF inv lc, of msk e tmo]
    by (simp add: s'_def OS_Sched_def rdyset_def rdy_bm_def os_switch_frame bm.elems_del)
  have "unat (OSPrioCur s') = Min (rdyset s')"
    using \<open>sched_ok s'\<close> task by (simp add: sched_ok_def s'_def OS_Sched_def os_switch_frame)
  then have ne: "unat (OSPrioCur s') \<noteq> ?p"
    using kinv_Min_in [OF kokD(1) [OF k]] r' by auto
  show "OSTCBCur s' \<noteq> OSTCBCur s"
  proof
    assume "OSTCBCur s' = OSTCBCur s"
    then have "cur s' = cur s" by (simp add: cur_def)
    then have "prio s' (cur s) = unat (OSPrioCur s')" using kokD(3) [OF k] by (auto dest: cur_ok_live)
    moreover have "OSTCBPrio (tcb s' (cur s)) = OSTCBPrio (tcb s (cur s))"
      using os_switch_frame(9) [of ?b "cur s"] by (simp add: s'_def OS_Sched_def same_core_def)
    ultimately show False using ne by simp
  qed
  have "?p < 64" using lc by (simp add: live_def)
  then show "?p \<in> wset s' e"
    using pend_block_sets(2) [OF inv lc, of msk e tmo e]
    by (simp add: s'_def OS_Sched_def wset_def os_switch_frame bm.elems_ins)
qed

lemma block:
  fixes tmo :: u32
  assumes ok: "kok s" and sch: "sched_ok s" and task: "OSIntNesting s = 0" "OSLockNesting s = 0"
    and ty: "OSEventType (ev s e) = ty" and idle: "OSPrioCur s \<noteq> OS_TASK_IDLE_PRIO"
    and free: "\<And>x. prio s (cur s) \<notin> wset s x"
  defines "s' \<equiv> OS_Sched (pend_block msk e tmo s)"
  shows "kok s'" and "sched_ok s'" and "OSTCBCur s' \<noteq> OSTCBCur s" and "prio s (cur s) \<in> wset s' e"
  unfolding s'_def using block_ready [OF ok running_ready [OF kokD(1) [OF ok] kokD(3) [OF ok] sch task] task ty idle free] by simp_all

end

text \<open>The return of a pend service, for every type of event.\<close>

lemma resume:
  assumes ok: "kok s" and sch: "sched_ok s" and task: "OSIntNesting s = 0" "OSLockNesting s = 0"
    and ep: "OSTCBEventPtr (tcb s (cur s)) = Some e"
  defines "s' \<equiv> snd (pend_finish e s)"
  shows "kok s'" and "sched_ok s'" and "prio s (cur s) \<notin> wset s' x"
proof -
  note inv = kokD(1) [OF ok] and c = kokD(3) [OF ok]
  note rc = running_ready [OF inv c sch task]
  have lc: "live s (cur s)" using c by (rule cur_ok_live)
  show "prio s (cur s) \<notin> wset s' x" unfolding s'_def using inv lc rc ep by (rule kinv_pend_finish)
  have "kinv s'" unfolding s'_def using inv lc rc ep by (rule kinv_pend_finish)
  moreover have "evlist_ok s'" unfolding s'_def using kokD(2) [OF ok]
    by (rule evlist_frame) (auto simp: pend_finish_def Let_def OS_EventTaskRemove_def upd_ev_def upd_tcb_def)
  moreover have "cur_ok s'" unfolding s'_def using c
    by (rule cur_ok_core) (auto simp: pend_finish_def Let_def OS_EventTaskRemove_def upd_ev_def upd_tcb_def)
  ultimately show "kok s'" by (simp add: kok_def)
  show "sched_ok s'" unfolding s'_def using sch by (rule sched_ok_core) simp_all
qed

text \<open>
  A pend that blocks, followed by a post to the same event: when the caller is the most urgent
  waiter, the post gives it the processor back at once, with the message of the post.
\<close>

context wait_service
begin

lemma pend_post:
  fixes tmo :: u32 and m :: ptr
  assumes ok: "ksafe s" and lev: "task_level s" and ty: "OSEventType (ev s e) = ty"
    and idle: "OSPrioCur s \<noteq> OS_TASK_IDLE_PRIO"
    and first: "\<And>q. q \<in> wset s e \<Longrightarrow> unat (OSPrioCur s) < q"
  defines "s1 \<equiv> OS_Sched (pend_block msk e tmo s)"
  defines "s2 \<equiv> OS_Sched (snd (OS_EventTaskRdy e m msk OS_STAT_PEND_OK s1))"
  shows "OSEventGrp (ev s1 e) \<noteq> 0" and "OSTCBCur s2 = OSTCBCur s" and "OSTCBMsg (tcb s2 (cur s)) = m"
    and "fst (pend_finish e s2) = OS_ERR_NONE" and "ksafe (snd (pend_finish e s2))"
    and "wset s2 e = wset s e"
proof -
  let ?c = "cur s" and ?p = "prio s (cur s)"
  from lev have task: "OSIntNesting s = 0" "OSLockNesting s = 0" and free: "\<And>x. ?p \<notin> wset s x"
    by (auto simp: task_level_def)
  note inv = kokD(1) [OF conjunct1 [OF ok]] and c = kokD(3) [OF conjunct1 [OF ok]]
  have lc: "live s ?c" and pc: "?p = unat (OSPrioCur s)" using c by (auto dest: cur_ok_live)
  have rc: "?p \<in> rdyset s" using running_ready [OF inv c _ task] ok by simp
  have mn: "?p = Min (rdyset s)" using ok task pc by (simp add: sched_ok_def)
  note b = block [OF conjunct1 [OF ok] conjunct2 [OF ok] task ty idle free, of tmo, folded s1_def]
  have p64: "?p < 64" using lc by (simp add: live_def)
  have r1: "rdyset s1 = rdyset s - {?p}"
    by (simp add: s1_def rdyset_def pend_block_sets(1) [OF inv lc] bm.elems_del)
  have w1: "wset s1 e = insert ?p (wset s e)"
    by (simp add: s1_def wset_def pend_block_sets(2) [OF inv lc] bm.elems_ins p64)
  then have m1: "Min (wset s1 e) = ?p"
    using first pc by (auto intro!: Min_eqI simp: wset_def less_imp_le)
  show g1: "OSEventGrp (ev s1 e) \<noteq> 0" using grp_zero_iff [OF kokD(1) [OF b(1)]] w1 by auto
  have l1: "live s1 ?c" "prio s1 ?c = ?p" "OSTCBEventPtr (tcb s1 ?c) = Some e"
    "OSTCBStat (tcb s1 ?c) = msk"
    using lc kinv_ready_iff [OF inv lc] rc by (simp_all add: s1_def live_def)
  obtain i where li: "live s1 i" "prio s1 i = ?p"
    and rd: "OS_EventTaskRdy e m msk OS_STAT_PEND_OK s1 = (OSTCBPrio (tcb s1 i), wake i e m msk OS_STAT_PEND_OK s1)"
    using EventTaskRdy_wake [OF kokD(1) [OF b(1)] g1] m1 by metis
  have i: "i = ?c" using live_inj [OF li(1) l1(1)] li(2) l1(2) by simp
  have t1: "OSEventType (ev s1 e) = ty" using ty by (simp add: s1_def)
  have k2: "ksafe s2" unfolding s2_def using hand_over [OF b(1) t1 g1, of m OS_STAT_PEND_OK] by simp
  have "rdyset (wake ?c e m msk OS_STAT_PEND_OK s1) = insert ?p (rdyset s1)"
    using rdyset_wake [OF kokD(1) [OF b(1)] l1(1)] l1 by simp
  then have r2: "rdyset s2 = rdyset s" using r1 rc by (auto simp: s2_def rd i)
  have n2: "OSIntNesting s2 = 0" "OSLockNesting s2 = 0" using task
    by (simp_all add: s2_def rd) (simp_all add: s1_def)
  have c2: "unat (OSPrioCur s2) = ?p" using k2 n2 r2 mn by (simp add: sched_ok_def)
  have l2: "live s2 ?c" "prio s2 ?c = ?p" "OSTCBEventPtr (tcb s2 ?c) = Some e"
      "OSTCBStatPend (tcb s2 ?c) = OS_STAT_PEND_OK"
    using l1 by (auto simp: s2_def rd i live_def)
  show "OSTCBMsg (tcb s2 ?c) = m" by (simp add: s2_def rd i)
  show "wset s2 e = wset s e"
    using wset_wake [OF kokD(1) [OF b(1)] l1(1)] w1 free [of e] l1(2) by (simp add: s2_def rd i)
  have cur2: "live s2 (cur s2)" "prio s2 (cur s2) = ?p"
    using cur_ok_live [OF kokD(3) [OF conjunct1 [OF k2]]] c2 by auto
  then have e2: "cur s2 = ?c" using live_inj [OF cur2(1) l2(1)] l2(2) by simp
  then show "OSTCBCur s2 = OSTCBCur s" using kokD(3) [OF conjunct1 [OF k2]] c by (auto simp: cur_ok_def cur_def)
  show "fst (pend_finish e s2) = OS_ERR_NONE" using l2 e2 by (simp add: pend_finish_def Let_def)
  show "ksafe (snd (pend_finish e s2))"
    using resume [OF conjunct1 [OF k2] conjunct2 [OF k2] n2, of e] l2 e2 by simp
qed

end

section \<open>Messages\<close>

text \<open>
  The end of \<open>OSMboxPend\<close> and \<open>OSQPend\<close>: the message is taken from the task control block on
  success, and the field is cleared.
\<close>

definition pend_finish_msg :: "nat \<Rightarrow> os \<Rightarrow> ptr \<times> u8 \<times> os" where
  "pend_finish_msg e s =
    (let pmsg = (if OSTCBStatPend (tcb s (cur s)) = OS_STAT_PEND_OK then OSTCBMsg (tcb s (cur s)) else PNull);
         (err, s1) = pend_finish e s
     in (pmsg, err, upd_tcb (cur s) (\<lambda>t. t\<lparr>OSTCBMsg := PNull\<rparr>) s1))"

lemma ksafe_tcb_msg: "ksafe s \<Longrightarrow> ksafe (upd_tcb i (\<lambda>t. t\<lparr>OSTCBMsg := m\<rparr>) s)"
  by (auto simp: kok_def upd_tcb_def rdy_bm_def same_core_def
      intro: kinv_frame [of s] evlist_frame [of s] cur_ok_core [of s] sched_ok_core [of s])

lemma resume_msg:
  assumes "ksafe s" "OSIntNesting s = 0" "OSLockNesting s = 0" "OSTCBEventPtr (tcb s (cur s)) = Some e"
  shows "ksafe (snd (snd (pend_finish_msg e s)))"
proof -
  have "ksafe (snd (pend_finish e s))" using assms resume [of s e] by simp
  then show ?thesis by (simp add: pend_finish_msg_def Let_def case_prod_beta ksafe_tcb_msg)
qed

context wait_service
begin

lemma pend_post_msg:
  fixes tmo :: u32 and m :: ptr
  assumes "ksafe s" "task_level s" "OSEventType (ev s e) = ty" "OSPrioCur s \<noteq> OS_TASK_IDLE_PRIO"
    "\<And>q. q \<in> wset s e \<Longrightarrow> unat (OSPrioCur s) < q"
  defines "s1 \<equiv> OS_Sched (pend_block msk e tmo s)"
  defines "s2 \<equiv> OS_Sched (snd (OS_EventTaskRdy e m msk OS_STAT_PEND_OK s1))"
  shows "fst (pend_finish_msg e s2) = m" and "fst (snd (pend_finish_msg e s2)) = OS_ERR_NONE"
    and "ksafe (snd (snd (pend_finish_msg e s2)))"
proof -
  note pp = pend_post(2-6) [OF assms(1-5), where m = m and tmo = tmo, folded s1_def, folded s2_def]
  have c: "cur s2 = cur s" using pp(1) by (simp add: cur_def)
  have st: "OSTCBStatPend (tcb s2 (cur s2)) = OS_STAT_PEND_OK"
    using pp(3) by (cases rule: pend_finish_cases [of s2 e]) auto
  show "fst (pend_finish_msg e s2) = m" using pp(2) c st
    by (simp add: pend_finish_msg_def Let_def case_prod_beta)
  show "fst (snd (pend_finish_msg e s2)) = OS_ERR_NONE" "ksafe (snd (snd (pend_finish_msg e s2)))"
    using pp(3,4) by (simp_all add: pend_finish_msg_def Let_def case_prod_beta ksafe_tcb_msg)
qed

end

text \<open>A broadcast reaches every waiter, and only the waiters.\<close>

lemma event_rdy_all_delivers:
  assumes "kinv s" and "msk = stat_mask (OSEventType (ev s e))"
    and "event_rdy_all e m msk ps nbr s = Some (n, s')"
  shows "(live s i \<and> prio s i \<in> wset s e \<longrightarrow> OSTCBMsg (tcb s' i) = m \<and> OSTCBStatPend (tcb s' i) = ps \<and>
        OSTCBDly (tcb s' i) = 0 \<and> OSTCBStat (tcb s' i) = OSTCBStat (tcb s i) AND NOT msk) \<and>
    (live s i \<and> prio s i \<notin> wset s e \<longrightarrow> tcb s' i = tcb s i)"
  using assms
proof (induction "card (wset s e)" arbitrary: s nbr rule: less_induct)
  case less
  show ?case
  proof (cases "OSEventGrp (ev s e) = 0")
    case True
    then have "wset s e = {}" using grp_zero_iff [OF less.prems(1)] by simp
    then show ?thesis using True less.prems(3) by (subst (asm) event_rdy_all.simps) auto
  next
    case False
    obtain k where lk: "live s k" and pw: "prio s k \<in> wset s e"
      and rd: "OS_EventTaskRdy e m msk ps s = (OSTCBPrio (tcb s k), wake k e m msk ps s)"
      using EventTaskRdy_wake [OF less.prems(1) False] by metis
    let ?s = "wake k e m msk ps s"
    have inv: "kinv ?s" using less.prems lk pw by (intro kinv_wake) auto
    have w: "wset ?s e = wset s e - {prio s k}" using wset_wake [OF less.prems(1) lk] by simp
    have fin: "finite (wset s e)" by (simp add: wset_def)
    have c: "card (wset ?s e) < card (wset s e)" unfolding w using fin pw by (rule card_Diff1_less)
    have r: "event_rdy_all e m msk ps (nbr + 1) ?s = Some (n, s')"
      using less.prems(3) False rd by (subst (asm) event_rdy_all.simps) simp
    have m: "msk = stat_mask (OSEventType (ev ?s e))" using less.prems(2) by simp
    note ih = less.hyps [OF c inv m r]
    have pr: "OSTCBPrio (tcb ?s j) = OSTCBPrio (tcb s j)" for j by (cases "j = k") simp_all
    have lv: "live ?s j = live s j" for j by (simp add: live_def pr)
    show ?thesis
    proof (cases "i = k")
      case True
      then show ?thesis using ih w pw lk by (simp add: pr lv)
    next
      case False
      then have "live s i \<Longrightarrow> prio s i \<noteq> prio s k" using live_inj lk by blast
      then show ?thesis using ih False w by (auto simp: pr lv)
    qed
  qed
qed

section \<open>What a post hands over\<close>

text \<open>
  What the tasks see of a post: nothing, or one task, the waiter of priority \<open>p\<close>, gets the message \<open>m\<close> and the
  status \<open>OS_STAT_PEND_OK\<close>, its status bit and its timeout are cleared, it is ready unless it is
  suspended, and it leaves the wait list; every other task is as before.
\<close>

definition delivered :: "u8 \<Rightarrow> os \<Rightarrow> (nat \<times> ptr) option \<Rightarrow> os \<Rightarrow> bool" where
  "delivered msk s d s' \<longleftrightarrow>
    (case d of
       None \<Rightarrow> OSTCBTbl s' = OSTCBTbl s \<and> rdyset s' = rdyset s \<and> (\<forall>x. wset s' x = wset s x)
     | Some (p, m) \<Rightarrow> (\<exists>i. live s i \<and> prio s i = p \<and> OSTCBMsg (tcb s' i) = m \<and> OSTCBStatPend (tcb s' i) = OS_STAT_PEND_OK \<and>
         OSTCBDly (tcb s' i) = 0 \<and> OSTCBStat (tcb s' i) = OSTCBStat (tcb s i) AND NOT msk \<and>
         rdyset s' = (if OSTCBStat (tcb s i) AND OS_STAT_SUSPEND = 0 then insert p (rdyset s) else rdyset s) \<and>
         (\<forall>x. wset s' x = wset s x - {p}) \<and>
         (\<forall>j. j \<noteq> i \<longrightarrow> same_core (tcb s j) (tcb s' j) \<and> OSTCBMsg (tcb s' j) = OSTCBMsg (tcb s j))))"

lemma delivered_rdy:
  assumes inv: "kinv s" and w: "wset s e \<noteq> {}" and k: "msk AND OS_STAT_SUSPEND = 0"
  shows "delivered msk s (Some (Min (wset s e), m)) (OS_Sched (snd (OS_EventTaskRdy e m msk OS_STAT_PEND_OK s)))"
proof -
  have g: "OSEventGrp (ev s e) \<noteq> 0" using w grp_zero_iff [OF inv] by simp
  obtain i where li: "live s i" and pi: "prio s i = Min (wset s e)" and pw: "prio s i \<in> wset s e"
    and rd: "OS_EventTaskRdy e m msk OS_STAT_PEND_OK s = (OSTCBPrio (tcb s i), wake i e m msk OS_STAT_PEND_OK s)"
    using EventTaskRdy_wake [OF inv g] by metis
  let ?w = "wake i e m msk OS_STAT_PEND_OK s"
  have b: "(OSTCBStat (tcb s i) AND NOT msk) AND 8 = OSTCBStat (tcb s i) AND 8"
  proof -
    have "NOT msk AND 8 = (8 :: u8)"
      using bit.conj_disj_distrib [of 8 msk "NOT msk"] k by (simp add: and.commute)
    then show ?thesis by (simp add: and.assoc)
  qed
  have r: "rdyset ?w = (if OSTCBStat (tcb s i) AND 8 = 0 then insert (prio s i) (rdyset s) else rdyset s)"
    using wake_sets(1) [OF inv li] li b by (simp add: rdyset_def bm.elems_ins live_def)
  have ws: "wset ?w x = wset s x - {prio s i}" for x
    using wset_wake [OF inv li] kinv_wait_unique [OF inv li pw, of x] by auto
  have o: "same_core (tcb s j) (tcb (OS_Sched ?w) j)" if "j \<noteq> i" for j
    using that os_switch_frame(9) [of ?w j] by (simp add: OS_Sched_def)
  show ?thesis unfolding delivered_def rd snd_conv using li pi r ws o
    by (simp add: exI [of _ i])
qed

section \<open>States that agree on the scheduler's data\<close>

definition same_kernel :: "os \<Rightarrow> os \<Rightarrow> bool" where
  "same_kernel s s' \<longleftrightarrow> OSEventTbl_arr s' = OSEventTbl_arr s \<and> OSTCBTbl s' = OSTCBTbl s \<and>
     OSTCBPrioTbl s' = OSTCBPrioTbl s \<and> OSRdyGrp s' = OSRdyGrp s \<and> OSRdyTbl s' = OSRdyTbl s \<and>
     OSEventFreeList s' = OSEventFreeList s \<and> OSRunning s' = OSRunning s \<and> OSTCBCur s' = OSTCBCur s \<and>
     OSPrioCur s' = OSPrioCur s \<and> OSIntNesting s' = OSIntNesting s \<and> OSLockNesting s' = OSLockNesting s"

lemma same_kernel_safe:
  assumes sk: "same_kernel s s'"
  shows "kok s \<Longrightarrow> kok s'" and "sched_ok s \<Longrightarrow> sched_ok s'" and "task_level s \<Longrightarrow> task_level s'"
proof -
  show "kok s'" if "kok s"
  proof (rule kokI)
    show "kinv s'" using sk kokD(1) [OF that] by (auto simp: same_kernel_def intro: kinv_frame [of s])
    show "evlist_ok s'" using sk kokD(2) [OF that] by (auto simp: same_kernel_def intro: evlist_frame [of s])
    show "cur_ok s'" using sk kokD(3) [OF that] by (auto simp: same_kernel_def intro: cur_ok_core [of s])
  qed
  show "sched_ok s \<Longrightarrow> sched_ok s'" using sk
    by (auto simp: same_kernel_def rdy_bm_def intro: sched_ok_core [of s])
  show "task_level s \<Longrightarrow> task_level s'" using sk
    by (simp add: same_kernel_def task_level_def cur_def wset_def)
qed

end
