(* ===== verification/OsExample.thy ===== *)
theory OsExample
  imports OsEvent
begin

text \<open>
  One concrete kernel state, for the witnesses of the other theories: the idle task, a
  running task of priority 5 and a task of priority 10 that waits on event 0. The type of event 0, the status bit
  of the waiter and the service fields of the event are parameters.
\<close>

definition ex_tcb :: "u8 \<Rightarrow> u8 \<Rightarrow> nat option \<Rightarrow> nat option \<Rightarrow> nat option \<Rightarrow> os_tcb" where
  "ex_tcb p st e nx pv = tcb_zero\<lparr>OSTCBPrio := p, OSTCBStat := st, OSTCBEventPtr := e,
     OSTCBNext := nx, OSTCBPrev := pv,
     OSTCBY := drop_bit 3 p, OSTCBX := p AND 7, OSTCBBitY := push_bit (unat (drop_bit 3 p)) 1,
     OSTCBBitX := push_bit (unat (p AND 7)) 1\<rparr>"

definition ex_ev :: "u8 \<Rightarrow> u16 \<Rightarrow> ptr \<Rightarrow> nat set \<Rightarrow> os_event" where
  "ex_ev ty cnt p w = (let b = (if w = {} then bm_empty else bm_ins (Min w) bm_empty) in
     ev_zero\<lparr>OSEventType := ty, OSEventCnt := cnt, OSEventPtr := p, OSEventGrp := fst b,
       OSEventTbl := snd b\<rparr>)"

definition ex_os :: "u8 \<Rightarrow> u16 \<Rightarrow> ptr \<Rightarrow> bool \<Rightarrow> os" where
  "ex_os ty cnt p waiting = os_bss\<lparr>
     OSEventTbl_arr := (\<lambda>e. if e = 0 then ex_ev ty cnt p (if waiting then {10} else {}) else
        ev_zero\<lparr>OSEventPtr := (if e < 9 then PEvent (e + 1) else PNull)\<rparr>),
     OSEventFreeList := Some 1, OSRunning := True, OSPrioCur := 5, OSPrioHighRdy := 5,
     OSTCBCur := Some 1, OSTCBHighRdy := Some 1, OSTaskCtr := 3,
     OSTCBPrioTbl := (\<lambda>_. NoTcb)(63 := Tcb 0, 5 := Tcb 1, 10 := Tcb 2),
     OSTCBList := Some 2, OSTCBFreeList := Some 3,
     OSTCBTbl := (\<lambda>i. tcb_zero\<lparr>OSTCBNext := (if i < 11 then Some (i + 1) else None)\<rparr>)
       (0 := ex_tcb 63 0 None None (Some 1), 1 := ex_tcb 5 0 None (Some 0) (Some 2),
        2 := ex_tcb 10 (if waiting then stat_mask ty else 0) (if waiting then Some 0 else None) (Some 1) None),
     OSRdyGrp := fst (bm_ins 63 (bm_ins 5 (if waiting then bm_empty else bm_ins 10 bm_empty))),
     OSRdyTbl := snd (bm_ins 63 (bm_ins 5 (if waiting then bm_empty else bm_ins 10 bm_empty)))\<rparr>"

lemma ex_rdyset: "rdyset (ex_os ty cnt p w) = (if w then {5, 63} else {5, 10, 63})"
  by (auto simp: rdyset_def rdy_bm_def ex_os_def bm.elems_ins)

lemma ex_wset: "wset (ex_os ty cnt p w) e = (if e = 0 \<and> w then {10} else {})"
  by (auto simp: wset_def ev_bm_def ex_os_def ex_ev_def Let_def bm.elems_ins ev_zero_def
      bm_empty_def [symmetric])

lemma ex_live: "live (ex_os ty cnt p w) i \<longleftrightarrow> i < 3"
  by (auto simp: live_def ex_os_def ex_tcb_def tcb_zero_def)

lemma ex_wf: "wf_tcb (ex_tcb p st e nx pv)"
  by (simp add: wf_tcb_def ex_tcb_def del: push_bit_of_1)

lemma ex_tcb_fields [simp]:
  "OSTCBPrio (ex_tcb p st e nx pv) = p" "OSTCBStat (ex_tcb p st e nx pv) = st"
  "OSTCBDly (ex_tcb p st e nx pv) = 0" "OSTCBEventPtr (ex_tcb p st e nx pv) = e"
  "OSTCBNext (ex_tcb p st e nx pv) = nx" "OSTCBPrev (ex_tcb p st e nx pv) = pv"
  by (simp_all add: ex_tcb_def tcb_zero_def)

lemma less_3_cases: "i < 3 \<Longrightarrow> i = 0 \<or> i = 1 \<or> i = (2::nat)"
  by auto

lemma ex_tcbs:
  "tcb (ex_os ty cnt p w) 0 = ex_tcb 63 0 None None (Some 1)"
  "tcb (ex_os ty cnt p w) (Suc 0) = ex_tcb 5 0 None (Some 0) (Some 2)"
  "tcb (ex_os ty cnt p w) 2 =
     ex_tcb 10 (if w then stat_mask ty else 0) (if w then Some 0 else None) (Some 1) None"
  by (simp_all add: ex_os_def)

lemma ex_ty: "OSEventType (ev (ex_os ty cnt p w) 0) = ty"
  by (simp add: ex_os_def ex_ev_def Let_def ev_zero_def)

lemma ex_task_ok:
  assumes m: "stat_mask ty \<noteq> 0" and i: "i < 3"
  shows "task_ok (ex_os ty cnt p w) i"
proof -
  have n: "stat_mask ty AND (NOT (stat_mask ty) AND - 9) = 0" by (simp flip: and.assoc)
  show ?thesis
    using less_3_cases [OF i] m
    by (auto simp: task_ok_def ex_tcbs ex_wf ex_rdyset ex_wset ex_ty n split: if_splits)
qed

lemma ex_kinv:
  assumes "stat_mask ty \<noteq> 0"
  shows "kinv (ex_os ty cnt p w)"
proof -
  let ?s = "ex_os ty cnt p w"
  have "bm_ok (rdy_bm ?s)" by (simp add: rdy_bm_def ex_os_def bm.invar_ins)
  moreover have "bm_ok (ev_bm (ev ?s e))" for e
    by (simp add: ev_bm_def ex_os_def ex_ev_def Let_def bm.invar_ins ev_zero_def flip: bm_empty_def)
  moreover have "prio ?s 0 = 63" "prio ?s 1 = 5" "prio ?s 2 = 10"
    by (simp_all add: ex_os_def ex_tcb_def)
  moreover have "OSTCBPrioTbl ?s q = Tcb i \<Longrightarrow> i < 3" for q i
    by (auto simp: ex_os_def split: if_splits)
  moreover have "OSEventType (ev ?s 0) = ty" by (simp add: ex_os_def ex_ev_def Let_def ev_zero_def)
  ultimately show ?thesis
    unfolding kinv_def ex_live ex_rdyset ex_wset using assms ex_task_ok [OF assms]
    by (auto intro: exI [of _ 0] exI [of _ 1] exI [of _ 2])
qed

lemma ex_evlist: 
  assumes "ty \<noteq> 0"
  shows "evlist_ok (ex_os ty cnt p w)"
proof -
  let ?s = "ex_os ty cnt p w"
  have "chain (\<lambda>e. ev_link (OSEventPtr (ev ?s e))) (OSEventFreeList ?s) [1, 2, 3, 4, 5, 6, 7, 8, 9]"
    by (simp add: ex_os_def ev_zero_def)
  moreover have "set [1, 2, 3, 4, 5, 6, 7, 8, 9] = {e. e < OS_MAX_EVENTS \<and> OSEventType (ev ?s e) = 0}"
    using assms by (auto simp: ex_os_def ex_ev_def Let_def ev_zero_def)
  ultimately show ?thesis unfolding evlist_ok_def by blast
qed

lemma ex_safe:
  assumes "stat_mask ty \<noteq> 0"
  shows "kok (ex_os ty cnt p w)" and "sched_ok (ex_os ty cnt p w)"
proof -
  have "ty \<noteq> 0" using assms by (auto simp: stat_mask_def)
  moreover have "cur_ok (ex_os ty cnt p w)" unfolding cur_ok_def ex_live
    by (simp add: ex_os_def ex_tcb_def)
  ultimately show "kok (ex_os ty cnt p w)"
    using ex_kinv [OF assms] ex_evlist by (simp add: kok_def)
  show "sched_ok (ex_os ty cnt p w)"
    by (simp add: sched_ok_def ex_rdyset) (simp add: ex_os_def)
qed

lemma ex_fields:
  "OSEventType (ev (ex_os ty cnt p w) 0) = ty" "OSEventCnt (ev (ex_os ty cnt p w) 0) = cnt"
  "OSEventPtr (ev (ex_os ty cnt p w) 0) = p" "OSIntNesting (ex_os ty cnt p w) = 0"
  "OSLockNesting (ex_os ty cnt p w) = 0" "OSPrioCur (ex_os ty cnt p w) = 5"
  "cur (ex_os ty cnt p w) = 1" "OSTCBPrio (tcb (ex_os ty cnt p w) 1) = 5"
  "OSTCBPrio (tcb (ex_os ty cnt p w) (Suc 0)) = 5" "OSTCBCur (ex_os ty cnt p w) = Some 1"
  "OSEventFreeList (ex_os ty cnt p w) = Some 1"
  "OSTCBPrio (tcb (ex_os ty cnt p w) 2) = 10" "OSTCBPrio (tcb (ex_os ty cnt p w) 0) = 63"
  by (simp_all add: ex_os_def os_bss_def ex_ev_def Let_def ev_zero_def cur_def ex_tcb_def)

lemma ex_task_level: "task_level (ex_os ty cnt p w)"
  by (simp add: task_level_def ex_fields ex_wset)

lemma ex_quiet: "OSEventGrp (ev (ex_os ty cnt p False) 0) = 0"
  by (simp add: ex_os_def ex_ev_def ev_zero_def bm_empty_def)

lemma ex_free: "event_get (ex_os ty cnt p w) = (Some 1, (ex_os ty cnt p w)\<lparr>OSEventFreeList := Some 2\<rparr>)"
  by (simp add: event_get_def ex_os_def ev_zero_def)

lemmas ex_facts = ex_safe ex_task_level ex_fields ex_rdyset ex_wset ex_live

end
