(* ===== verification/OsSem.thy ===== *)
theory OsSem
  imports OsExample
begin

text \<open>
  Counting semaphores, demo/UCOSII/CORE/os_sem.c. A pend that blocks returns \<open>None\<close> for
  its error code: the caller has lost the processor, and the rest of the C function
  runs as \<open>OSSemPend_return\<close> when the task is scheduled again.
\<close>

section \<open>Operations\<close>

definition OSSemAccept :: "nat \<Rightarrow> os \<Rightarrow> u16 \<times> os" where
  "OSSemAccept e s =
    (if OSEventType (ev s e) \<noteq> OS_EVENT_TYPE_SEM then (0, s)
     else let cnt = OSEventCnt (ev s e)
          in (cnt, if 0 < cnt then upd_ev e (\<lambda>v. v\<lparr>OSEventCnt := OSEventCnt v - 1\<rparr>) s else s))"

definition OSSemCreate :: "u16 \<Rightarrow> os \<Rightarrow> nat option \<times> os" where
  "OSSemCreate cnt s =
    (if 0 < OSIntNesting s then (None, s)
     else case event_get s of
            (None, s1) \<Rightarrow> (None, s1)
          | (Some e, s1) \<Rightarrow> (Some e, event_init e OS_EVENT_TYPE_SEM cnt PNull s1))"

definition OSSemDel :: "nat \<Rightarrow> u8 \<Rightarrow> os \<Rightarrow> (nat option \<times> u8 \<times> os) option" where
  "OSSemDel e opt s =
    (if OSEventType (ev s e) \<noteq> OS_EVENT_TYPE_SEM then Some (Some e, OS_ERR_EVENT_TYPE, s)
     else if 0 < OSIntNesting s then Some (Some e, OS_ERR_DEL_ISR, s)
     else let tasks_waiting = (OSEventGrp (ev s e) \<noteq> 0) in
       if opt = OS_DEL_NO_PEND then
         if \<not> tasks_waiting then Some (None, OS_ERR_NONE, event_put e s)
         else Some (Some e, OS_ERR_TASK_WAITING, s)
       else if opt = OS_DEL_ALWAYS then
         (case event_rdy_all e PNull OS_STAT_SEM OS_STAT_PEND_OK 0 s of
            None \<Rightarrow> None
          | Some (_, s1) \<Rightarrow>
              let s2 = event_put e s1
              in Some (None, OS_ERR_NONE, if tasks_waiting then OS_Sched s2 else s2))
       else Some (Some e, OS_ERR_INVALID_OPT, s))"

definition OSSemPend :: "nat \<Rightarrow> u32 \<Rightarrow> os \<Rightarrow> u8 option \<times> os" where
  "OSSemPend e timeout s =
    (if OSEventType (ev s e) \<noteq> OS_EVENT_TYPE_SEM then (Some OS_ERR_EVENT_TYPE, s)
     else if 0 < OSIntNesting s then (Some OS_ERR_PEND_ISR, s)
     else if 0 < OSLockNesting s then (Some OS_ERR_PEND_LOCKED, s)
     else if 0 < OSEventCnt (ev s e)
       then (Some OS_ERR_NONE, upd_ev e (\<lambda>v. v\<lparr>OSEventCnt := OSEventCnt v - 1\<rparr>) s)
     else (None, OS_Sched (pend_block OS_STAT_SEM e timeout s)))"

definition OSSemPend_return :: "nat \<Rightarrow> os \<Rightarrow> u8 \<times> os" where
  "OSSemPend_return e s = pend_finish e s"

definition OSSemPendAbort :: "nat \<Rightarrow> u8 \<Rightarrow> os \<Rightarrow> (u8 \<times> u8 \<times> os) option" where
  "OSSemPendAbort e opt s =
    (if OSEventType (ev s e) \<noteq> OS_EVENT_TYPE_SEM then Some (0, OS_ERR_EVENT_TYPE, s)
     else if OSEventGrp (ev s e) \<noteq> 0 then
       if opt = OS_PEND_OPT_BROADCAST then
         (case event_rdy_all e PNull OS_STAT_SEM OS_STAT_PEND_ABORT 0 s of
            None \<Rightarrow> None
          | Some (nbr, s1) \<Rightarrow> Some (nbr, OS_ERR_PEND_ABORT, OS_Sched s1))
       else Some (1, OS_ERR_PEND_ABORT,
              OS_Sched (snd (OS_EventTaskRdy e PNull OS_STAT_SEM OS_STAT_PEND_ABORT s)))
     else Some (0, OS_ERR_NONE, s))"

definition OSSemPost :: "nat \<Rightarrow> os \<Rightarrow> u8 \<times> os" where
  "OSSemPost e s =
    (if OSEventType (ev s e) \<noteq> OS_EVENT_TYPE_SEM then (OS_ERR_EVENT_TYPE, s)
     else if OSEventGrp (ev s e) \<noteq> 0
       then (OS_ERR_NONE, OS_Sched (snd (OS_EventTaskRdy e PNull OS_STAT_SEM OS_STAT_PEND_OK s)))
     else if OSEventCnt (ev s e) < 65535
       then (OS_ERR_NONE, upd_ev e (\<lambda>v. v\<lparr>OSEventCnt := OSEventCnt v + 1\<rparr>) s)
     else (OS_ERR_SEM_OVF, s))"

text \<open>The error code and, on success, the fields \<open>OSCnt\<close>, \<open>OSEventGrp\<close> and \<open>OSEventTbl\<close>.\<close>

definition OSSemQuery :: "nat \<Rightarrow> os \<Rightarrow> u8 \<times> (u16 \<times> u8 \<times> (nat \<Rightarrow> u8)) option" where
  "OSSemQuery e s =
    (if OSEventType (ev s e) \<noteq> OS_EVENT_TYPE_SEM then (OS_ERR_EVENT_TYPE, None)
     else (OS_ERR_NONE, Some (OSEventCnt (ev s e), OSEventGrp (ev s e), OSEventTbl (ev s e))))"

definition OSSemSet :: "nat \<Rightarrow> u16 \<Rightarrow> os \<Rightarrow> u8 \<times> os" where
  "OSSemSet e cnt s =
    (if OSEventType (ev s e) \<noteq> OS_EVENT_TYPE_SEM then (OS_ERR_EVENT_TYPE, s)
     else if 0 < OSEventCnt (ev s e) then (OS_ERR_NONE, upd_ev e (\<lambda>v. v\<lparr>OSEventCnt := cnt\<rparr>) s)
     else if OSEventGrp (ev s e) = 0 then (OS_ERR_NONE, upd_ev e (\<lambda>v. v\<lparr>OSEventCnt := cnt\<rparr>) s)
     else (OS_ERR_TASK_WAITING, s))"

interpretation sem: wait_service OS_EVENT_TYPE_SEM OS_STAT_SEM
  by unfold_locales (simp_all add: stat_mask_def)

section \<open>The semaphore as a counter with a set of waiters\<close>

definition sem_abs :: "os \<Rightarrow> nat \<Rightarrow> nat \<times> nat set" where
  "sem_abs s e = (unat (OSEventCnt (ev s e)), wset s e)"

text \<open>The error code, the task and the message handed over (a semaphore passes none), and the new view.\<close>

definition spec_post :: "nat \<times> nat set \<Rightarrow> u8 \<times> (nat \<times> ptr) option \<times> nat \<times> nat set" where
  "spec_post a =
    (if snd a \<noteq> {} then (OS_ERR_NONE, Some (Min (snd a), PNull), fst a, snd a - {Min (snd a)})
     else if fst a < 65535 then (OS_ERR_NONE, None, fst a + 1, {})
     else (OS_ERR_SEM_OVF, None, fst a, {}))"

definition spec_take :: "nat \<Rightarrow> nat \<times> nat set \<Rightarrow> nat \<times> nat set" where
  "spec_take p a = (if 0 < fst a then (fst a - 1, snd a) else (0, insert p (snd a)))"

lemma u16_inc: "(c::u16) < 65535 \<Longrightarrow> unat (c + 1) = unat c + 1"
  by (simp add: word_less_nat_alt unat_word_ariths)

lemma u16_dec: "0 < (c::u16) \<Longrightarrow> unat (c - 1) = unat c - 1"
  by (simp add: word_less_nat_alt unat_sub_if_size)

lemma u16_max: "\<not> (c::u16) < 65535 \<longleftrightarrow> c = 65535"
proof -
  have "unat c < 2 ^ LENGTH(16)" by (rule unsigned_less)
  then show ?thesis by (auto simp: word_less_nat_alt word_unat_eq_iff)
qed

lemma wset_upd_cnt [simp]: "wset (upd_ev e (\<lambda>v. v\<lparr>OSEventCnt := f v\<rparr>) s) x = wset s x"
  by (simp add: wset_def upd_ev_def ev_bm_def)

lemma ev_bm_cnt [simp]: "ev_bm (v\<lparr>OSEventCnt := c\<rparr>) = ev_bm v"
  by (simp add: ev_bm_def)

lemma sem_kok_cnt:
  assumes "kok s" "OSEventType (ev s e) = OS_EVENT_TYPE_SEM"
  shows "kok (upd_ev e (\<lambda>v. v\<lparr>OSEventCnt := f v\<rparr>) s)"
    and "sched_ok s \<Longrightarrow> sched_ok (upd_ev e (\<lambda>v. v\<lparr>OSEventCnt := f v\<rparr>) s)"
  using assms by (auto intro!: kok_upd_ev)

lemma sem_post_safe:
  assumes ok: "ksafe s"
  shows "ksafe (snd (OSSemPost e s))"
  using ok sem.hand_over [of s e PNull OS_STAT_PEND_OK] sem_kok_cnt [of s e]
  by (auto simp: OSSemPost_def)

lemma sem_accept_safe: "ksafe s \<Longrightarrow> ksafe (snd (OSSemAccept e s))"
  using sem_kok_cnt [of s e] by (auto simp: OSSemAccept_def Let_def)

lemma sem_set_safe: "ksafe s \<Longrightarrow> ksafe (snd (OSSemSet e c s))"
  using sem_kok_cnt [of s e] by (auto simp: OSSemSet_def)

lemma sem_create_safe: "ksafe s \<Longrightarrow> ksafe (snd (OSSemCreate c s))"
  using kok_event_get [of s _ _ OS_EVENT_TYPE_SEM c PNull]
  by (auto simp: OSSemCreate_def split: prod.splits option.splits)
    (auto simp: event_get_def split: option.splits)

lemma sem_del_safe:
  assumes ok: "ksafe s" and e: "e < OS_MAX_EVENTS"
  shows "\<exists>h err s'. OSSemDel e opt s = Some (h, err, s') \<and> ksafe s'"
proof (cases "OSEventType (ev s e) = OS_EVENT_TYPE_SEM")
  case True
  obtain n s1 where "event_rdy_all e PNull OS_STAT_SEM OS_STAT_PEND_OK 0 s = Some (n, s1)"
    "ksafe (if OSEventGrp (ev s e) \<noteq> 0 then OS_Sched (event_put e s1) else event_put e s1)"
    using sem.delete [OF ok True e] by metis
  then show ?thesis
    using ok True sem.quiet_put [OF ok True e] by (auto simp: OSSemDel_def Let_def split: if_splits)
qed (use ok in \<open>simp add: OSSemDel_def\<close>)

lemma sem_abort_safe:
  assumes ok: "ksafe s"
  shows "\<exists>n err s'. OSSemPendAbort e opt s = Some (n, err, s') \<and> ksafe s'"
proof (cases "OSEventType (ev s e) = OS_EVENT_TYPE_SEM")
  case True
  obtain s1 where "event_rdy_all e PNull OS_STAT_SEM OS_STAT_PEND_ABORT 0 s =
      Some (word_of_nat (card (wset s e)), s1)" "ksafe (OS_Sched s1)"
    using sem.abort_all [OF conjunct1 [OF ok] True] by metis
  then show ?thesis
    using ok True sem.hand_over [OF conjunct1 [OF ok] True, of PNull OS_STAT_PEND_ABORT]
    by (auto simp: OSSemPendAbort_def split: if_splits)
qed (use ok in \<open>simp add: OSSemPendAbort_def\<close>)

lemma sem_pend_safe:
  assumes ok: "ksafe s" and lev: "\<forall>x. prio s (cur s) \<notin> wset s x" and idle: "OSPrioCur s \<noteq> OS_TASK_IDLE_PRIO"
  shows "ksafe (snd (OSSemPend e tmo s))"
  using ok lev idle sem.block [of s e tmo] sem_kok_cnt [of s e]
  by (auto simp: OSSemPend_def word_gt_0)

section \<open>Properties\<close>

text \<open>
  Every service of os_sem.c keeps the kernel well formed: ready list, wait lists, task
  control blocks and free list stay consistent and the most urgent ready task runs. The
  delete and abort services, which loop over the waiters, return.
\<close>

theorem sem_services_safe:
  assumes ok: "ksafe s" and e: "e < OS_MAX_EVENTS"
  shows "ksafe (snd (OSSemPost e s)) \<and> ksafe (snd (OSSemAccept e s)) \<and> ksafe (snd (OSSemSet e c s)) \<and>
    ksafe (snd (OSSemCreate c s)) \<and>
    (\<exists>h err s'. OSSemDel e opt s = Some (h, err, s') \<and> ksafe s') \<and>
    (\<exists>n err s'. OSSemPendAbort e opt s = Some (n, err, s') \<and> ksafe s') \<and>
    (task_level s \<and> OSPrioCur s \<noteq> OS_TASK_IDLE_PRIO \<longrightarrow> ksafe (snd (OSSemPend e tmo s)))"
  using ok e sem_post_safe sem_accept_safe sem_set_safe sem_create_safe sem_del_safe sem_abort_safe
    sem_pend_safe by (simp add: task_level_def)

theorem sem_services_safe_witness:
  "ksafe (snd (OSSemPost 0 (ex_os OS_EVENT_TYPE_SEM 0 PNull True))) \<and>
   ksafe (snd (OSSemPend 0 7 (ex_os OS_EVENT_TYPE_SEM 0 PNull True)))"
  using sem_services_safe [of "ex_os OS_EVENT_TYPE_SEM 0 PNull True" 0]
  by (simp add: ex_facts stat_mask_def)

text \<open>
  C6. Refinement of \<open>OSSemPost\<close>: on a well-formed kernel a post with waiters hands the token to the
  most urgent waiter: that task gets the status \<open>OS_STAT_PEND_OK\<close>, loses the semaphore bit of its status and its timeout,
  leaves the wait list and is ready unless it is also suspended, and no other task changes. A post without
  waiters increments the counter, and at 65535 it answers \<open>OS_ERR_SEM_OVF\<close> and leaves it; neither changes a task.
\<close>

theorem sem_post_refines:
  assumes ok: "kok s" and ty: "OSEventType (ev s e) = OS_EVENT_TYPE_SEM"
  shows "case spec_post (sem_abs s e) of (err, d, a) \<Rightarrow>
    fst (OSSemPost e s) = err \<and> sem_abs (snd (OSSemPost e s)) e = a \<and> delivered OS_STAT_SEM s d (snd (OSSemPost e s))"
proof -
  note inv = kokD(1) [OF ok]
  have z: "OSEventGrp (ev s e) = 0 \<longleftrightarrow> wset s e = {}" using inv by (rule grp_zero_iff)
  have lt: "OSEventCnt (ev s e) < 65535 \<longleftrightarrow> unat (OSEventCnt (ev s e)) < 65535" by (simp add: word_less_nat_alt)
  show ?thesis
  proof (cases "wset s e = {}")
    case True
    have n: "delivered OS_STAT_SEM s None s" "delivered OS_STAT_SEM s None (upd_ev e (\<lambda>v. v\<lparr>OSEventCnt := c v\<rparr>) s)" for c
      by (simp_all add: delivered_def rdyset_def) (simp add: upd_ev_def rdy_bm_def)
    show ?thesis using True ty z lt n u16_inc
      by (auto simp: OSSemPost_def sem_abs_def spec_post_def) (simp add: upd_ev_def)
  next
    case False
    obtain i where li: "live s i" and pi: "prio s i = Min (wset s e)"
      and rd: "OS_EventTaskRdy e PNull OS_STAT_SEM OS_STAT_PEND_OK s =
         (OSTCBPrio (tcb s i), wake i e PNull OS_STAT_SEM OS_STAT_PEND_OK s)"
      using EventTaskRdy_wake [OF inv] z False by metis
    have "wset (wake i e PNull OS_STAT_SEM OS_STAT_PEND_OK s) e = wset s e - {Min (wset s e)}"
      using wset_wake [OF inv li] pi by simp
    then show ?thesis using False z rd ty delivered_rdy [OF inv False, of OS_STAT_SEM PNull]
      by (simp add: OSSemPost_def sem_abs_def spec_post_def)
  qed
qed

theorem sem_post_refines_witness:
  "sem_abs (snd (OSSemPost 0 (ex_os OS_EVENT_TYPE_SEM 0 PNull True))) 0 = (0, {}) \<and>
   delivered OS_STAT_SEM (ex_os OS_EVENT_TYPE_SEM 0 PNull True) (Some (10, PNull)) (snd (OSSemPost 0 (ex_os OS_EVENT_TYPE_SEM 0 PNull True)))"
  using sem_post_refines [of "ex_os OS_EVENT_TYPE_SEM 0 PNull True" 0]
  by (simp add: ex_facts stat_mask_def sem_abs_def spec_post_def)

text \<open>
  C32. Refinement of \<open>OSSemPend\<close> called by a task: it takes a token if there is one and goes on; if there is none
  the caller joins the waiters, and the most urgent of the other ready tasks
  gets the processor.
\<close>

theorem sem_pend_refines:
  assumes ok: "ksafe s" and lev: "task_level s" and ty: "OSEventType (ev s e) = OS_EVENT_TYPE_SEM"
    and idle: "OSPrioCur s \<noteq> OS_TASK_IDLE_PRIO"
  shows "sem_abs (snd (OSSemPend e tmo s)) e = spec_take (prio s (cur s)) (sem_abs s e) \<and>
    (if 0 < OSEventCnt (ev s e)
     then fst (OSSemPend e tmo s) = Some OS_ERR_NONE \<and> OSTCBCur (snd (OSSemPend e tmo s)) = OSTCBCur s
     else fst (OSSemPend e tmo s) = None \<and> OSTCBCur (snd (OSSemPend e tmo s)) \<noteq> OSTCBCur s \<and>
       unat (OSPrioCur (snd (OSSemPend e tmo s))) = Min (rdyset s - {prio s (cur s)}))"
proof (cases "0 < OSEventCnt (ev s e)")
  case True
  then show ?thesis using lev ty u16_dec [OF True]
    by (auto simp: OSSemPend_def task_level_def sem_abs_def spec_take_def word_gt_0 unat_gt_0)
      (auto simp: upd_ev_def)
next
  case False
  let ?s = "OS_Sched (pend_block OS_STAT_SEM e tmo s)"
  from lev have task: "OSIntNesting s = 0" "OSLockNesting s = 0"
    and free: "\<And>x. prio s (cur s) \<notin> wset s x" by (auto simp: task_level_def)
  note inv = kokD(1) [OF conjunct1 [OF ok]]
  have lc: "live s (cur s)" using kokD(3) [OF conjunct1 [OF ok]] by (rule cur_ok_live)
  have p: "OSSemPend e tmo s = (None, ?s)" using False task ty by (simp add: OSSemPend_def)
  note b = sem.block [OF conjunct1 [OF ok] conjunct2 [OF ok] task ty idle free, of tmo]
  have w: "wset ?s e = insert (prio s (cur s)) (wset s e)"
    using lc by (simp add: wset_def pend_block_sets(2) [OF inv lc] bm.elems_ins live_def)
  have "rdyset ?s = rdyset s - {prio s (cur s)}"
    by (simp add: rdyset_def pend_block_sets(1) [OF inv lc] bm.elems_del)
  then have "unat (OSPrioCur ?s) = Min (rdyset s - {prio s (cur s)})"
    using b(2) task by (simp add: sched_ok_def)
  moreover have "OSEventCnt (ev s e) = 0" using False by (simp add: word_gt_0)
  ultimately show ?thesis using p b(3) w by (simp add: sem_abs_def spec_take_def)
qed

theorem sem_pend_refines_witness:
  "sem_abs (snd (OSSemPend 0 7 (ex_os OS_EVENT_TYPE_SEM 0 PNull True))) 0 = (0, {5, 10}) \<and>
   unat (OSPrioCur (snd (OSSemPend 0 7 (ex_os OS_EVENT_TYPE_SEM 0 PNull True)))) = 63"
  using sem_pend_refines [of "ex_os OS_EVENT_TYPE_SEM 0 PNull True" 0 7]
  by (simp add: ex_facts stat_mask_def sem_abs_def spec_take_def insert_Diff_if)

text \<open>
  A task that blocks in \<open>OSSemPend\<close> and is the most urgent waiter gets the processor back from the next
  \<open>OSSemPost\<close>: the rest of its \<open>OSSemPend\<close> reports success, the other waiters stay, the counter is as before.
\<close>

theorem sem_pend_post_returns:
  assumes ok: "ksafe s" and lev: "task_level s" and ty: "OSEventType (ev s e) = OS_EVENT_TYPE_SEM"
    and idle: "OSPrioCur s \<noteq> OS_TASK_IDLE_PRIO" and none: "OSEventCnt (ev s e) = 0"
    and first: "\<forall>q \<in> wset s e. unat (OSPrioCur s) < q"
  shows "let s1 = snd (OSSemPend e tmo s); s2 = snd (OSSemPost e s1); r = OSSemPend_return e s2
    in OSTCBCur s1 \<noteq> OSTCBCur s \<and> OSTCBCur s2 = OSTCBCur s \<and> fst r = OS_ERR_NONE \<and> ksafe (snd r) \<and>
       sem_abs s2 e = sem_abs s e"
proof -
  let ?s1 = "OS_Sched (pend_block OS_STAT_SEM e tmo s)"
  let ?s2 = "OS_Sched (snd (OS_EventTaskRdy e PNull OS_STAT_SEM OS_STAT_PEND_OK ?s1))"
  note pp = sem.pend_post [OF ok lev ty idle first [rule_format]]
  have p1: "snd (OSSemPend e tmo s) = ?s1" using lev ty none by (simp add: OSSemPend_def task_level_def)
  have p2: "snd (OSSemPost e ?s1) = ?s2" using pp(1) [of tmo] ty by (simp add: OSSemPost_def)
  have "OSTCBCur ?s1 \<noteq> OSTCBCur s"
    using sem.block(3) [of s e tmo] ok lev ty idle by (simp add: task_level_def)
  then show ?thesis
    using pp(2-6) [of PNull tmo] by (simp add: p1 p2 OSSemPend_return_def sem_abs_def Let_def)
qed

theorem sem_pend_post_returns_witness:
  "OSTCBCur (snd (OSSemPost 0 (snd (OSSemPend 0 7 (ex_os OS_EVENT_TYPE_SEM 0 PNull True))))) = Some 1"
  using sem_pend_post_returns [of "ex_os OS_EVENT_TYPE_SEM 0 PNull True" 0 7]
  by (simp add: ex_facts stat_mask_def Let_def split: prod.splits)

text \<open>
  Deleting a semaphore that was just created restores the free list: the block is the head of the pool again
  and nothing else about the pool has changed.
\<close>

theorem sem_create_del:
  assumes ok: "ksafe s" and lev: "OSIntNesting s = 0" and c: "OSSemCreate cnt s = (Some e, s1)"
  shows "sem_abs s1 e = (unat cnt, {}) \<and>
    (\<exists>s2. OSSemDel e OS_DEL_NO_PEND s1 = Some (None, OS_ERR_NONE, s2) \<and> ksafe s2 \<and>
      OSEventFreeList s2 = OSEventFreeList s \<and> OSEventType (ev s2 e) = OS_EVENT_TYPE_UNUSED \<and>
      (\<forall>x. ev_link (OSEventPtr (ev s2 x)) = ev_link (OSEventPtr (ev s x))))"
proof -
  from c lev obtain s0 where g: "event_get s = (Some e, s0)"
    and s1: "s1 = event_init e OS_EVENT_TYPE_SEM cnt PNull s0"
    by (auto simp: OSSemCreate_def split: prod.splits option.splits)
  note d = event_get_SomeD [OF kokD(2) [OF conjunct1 [OF ok]] g]
  have k1: "ksafe s1" using kok_event_get [OF conjunct1 [OF ok] g] ok by (simp add: s1)
  have f: "OSEventFreeList s = Some e" using g by (auto simp: event_get_def split: option.splits)
  have ty: "OSEventType (ev s1 e) = OS_EVENT_TYPE_SEM" "OSEventGrp (ev s1 e) = 0" "wset s1 e = {}"
    "OSEventCnt (ev s1 e) = cnt"
    by (simp_all add: s1 event_init_def upd_ev_def OS_EventWaitListInit_def wset_def ev_bm_def flip: bm_empty_def)
  have n1: "OSIntNesting s1 = 0" using lev by (simp add: s1 d(3))
  have "ksafe (event_put e s1)" using sem.quiet_put [OF k1 ty(1) d(1) ty(2)] .
  moreover have "OSSemDel e OS_DEL_NO_PEND s1 = Some (None, OS_ERR_NONE, event_put e s1)"
    using ty n1 by (simp add: OSSemDel_def)
  ultimately show ?thesis
    using ty f by (simp add: sem_abs_def) (simp add: s1 d(3) event_put_def event_init_def upd_ev_def)
qed

theorem sem_create_del_witness:
  "\<exists>e s1 s2. OSSemCreate 4 (ex_os OS_EVENT_TYPE_SEM 0 PNull True) = (Some e, s1) \<and>
     OSSemDel e OS_DEL_NO_PEND s1 = Some (None, OS_ERR_NONE, s2) \<and> OSEventFreeList s2 = Some 1"
proof -
  let ?s = "ex_os OS_EVENT_TYPE_SEM 0 PNull True"
  obtain s1 where c: "OSSemCreate 4 ?s = (Some 1, s1)" by (simp add: OSSemCreate_def ex_facts ex_free)
  show ?thesis
    using sem_create_del [of ?s 4 1 s1] c
    by (auto simp: ex_facts stat_mask_def)
qed

text \<open>
  \<open>OSSemDel\<close> with \<open>OS_DEL_ALWAYS\<close> from a task returns the block to the pool and wakes every waiter; with
  \<open>OS_DEL_NO_PEND\<close> it refuses while a task waits and changes nothing.
\<close>

theorem sem_del_releases:
  assumes ok: "ksafe s" and e: "e < OS_MAX_EVENTS" and lev: "OSIntNesting s = 0"
    and ty: "OSEventType (ev s e) = OS_EVENT_TYPE_SEM"
  shows "(\<exists>s'. OSSemDel e OS_DEL_ALWAYS s = Some (None, OS_ERR_NONE, s') \<and> ksafe s' \<and> wset s' e = {} \<and>
      OSEventType (ev s' e) = OS_EVENT_TYPE_UNUSED \<and> OSEventFreeList s' = Some e) \<and>
    (wset s e \<noteq> {} \<longrightarrow> OSSemDel e OS_DEL_NO_PEND s = Some (Some e, OS_ERR_TASK_WAITING, s))"
proof -
  obtain n s1 where r: "event_rdy_all e PNull OS_STAT_SEM OS_STAT_PEND_OK 0 s = Some (n, s1)"
    and w: "wset s1 e = {}"
    and k: "ksafe (if OSEventGrp (ev s e) \<noteq> 0 then OS_Sched (event_put e s1) else event_put e s1)"
    using sem.delete [OF ok ty e] by metis
  let ?s = "if OSEventGrp (ev s e) \<noteq> 0 then OS_Sched (event_put e s1) else event_put e s1"
  have "OSSemDel e OS_DEL_ALWAYS s = Some (None, OS_ERR_NONE, ?s)"
    using r ty lev by (simp add: OSSemDel_def Let_def)
  moreover have "wset (event_put e s1) e = {}"
    using w by (simp add: wset_def event_put_def upd_ev_def ev_bm_def)
  ultimately show ?thesis
    using k ty lev grp_zero_iff [OF kokD(1) [OF conjunct1 [OF ok]]]
    by (auto simp: OSSemDel_def) (auto simp: event_put_def upd_ev_def)
qed

theorem sem_del_releases_witness:
  "OSSemDel 0 OS_DEL_NO_PEND (ex_os OS_EVENT_TYPE_SEM 0 PNull True) =
     Some (Some 0, OS_ERR_TASK_WAITING, ex_os OS_EVENT_TYPE_SEM 0 PNull True)"
  using sem_del_releases [of "ex_os OS_EVENT_TYPE_SEM 0 PNull True" 0]
  by (simp add: ex_facts stat_mask_def)

end
