(* ===== verification/OsTime.thy ===== *)
theory OsTime
  imports OsSem
begin

text \<open>
  Time: demo/UCOSII/CORE/os_time.c, the tick handler \<open>OSTimeTick\<close> of os_core.c with its hook
  in demo/UCOSII/PORT/os_cpu_c.c, and the SysTick interrupt of demo/SYSTEM/delay/delay.c. \<open>tlist_ok\<close> is the
  invariant of the doubly linked list of tasks the tick handler walks.
\<close>

section \<open>Operations\<close>

text \<open>A delay or timeout has run out: the shared tail of \<open>OSTimeTick\<close> and \<open>OSTimeDlyResume\<close>.\<close>

definition expire_tcb :: "os_tcb \<Rightarrow> os_tcb" where
  "expire_tcb t =
    (if OSTCBStat t AND OS_STAT_PEND_ANY \<noteq> OS_STAT_RDY
     then t\<lparr>OSTCBStat := OSTCBStat t AND NOT OS_STAT_PEND_ANY, OSTCBStatPend := OS_STAT_PEND_TO\<rparr>
     else t\<lparr>OSTCBStatPend := OS_STAT_PEND_OK\<rparr>)"

definition dly_expire :: "nat \<Rightarrow> os \<Rightarrow> os" where
  "dly_expire i s =
    (let s1 = upd_tcb i expire_tcb s; t = tcb s1 i
     in if OSTCBStat t AND OS_STAT_SUSPEND = OS_STAT_RDY then rdy_set t s1 else s1)"

definition OSTimeDly :: "u32 \<Rightarrow> os \<Rightarrow> os" where
  "OSTimeDly ticks s =
    (if 0 < OSIntNesting s then s
     else if 0 < OSLockNesting s then s
     else if 0 < ticks
       then OS_Sched (upd_tcb (cur s) (\<lambda>t. t\<lparr>OSTCBDly := ticks\<rparr>) (rdy_clear (tcb s (cur s)) s))
     else s)"

definition hmsm_ticks :: "u8 \<Rightarrow> u8 \<Rightarrow> u8 \<Rightarrow> u16 \<Rightarrow> u32" where
  "hmsm_ticks hours minutes seconds ms =
     (ucast hours * 3600 + ucast minutes * 60 + ucast seconds) * OS_TICKS_PER_SEC
     + (OS_TICKS_PER_SEC * (ucast ms + 500 div OS_TICKS_PER_SEC)) div 1000"

definition OSTimeDlyHMSM :: "u8 \<Rightarrow> u8 \<Rightarrow> u8 \<Rightarrow> u16 \<Rightarrow> os \<Rightarrow> u8 \<times> os" where
  "OSTimeDlyHMSM hours minutes seconds ms s =
    (if 0 < OSIntNesting s then (OS_ERR_TIME_DLY_ISR, s)
     else if 0 < OSLockNesting s then (OS_ERR_SCHED_LOCKED, s)
     else (OS_ERR_NONE, OSTimeDly (hmsm_ticks hours minutes seconds ms) s))"

definition OSTimeDlyResume :: "u8 \<Rightarrow> os \<Rightarrow> u8 \<times> os" where
  "OSTimeDlyResume pri s =
    (if of_nat OS_LOWEST_PRIO \<le> pri then (OS_ERR_PRIO_INVALID, s)
     else case OSTCBPrioTbl s (unat pri) of
       NoTcb \<Rightarrow> (OS_ERR_TASK_NOT_EXIST, s)
     | Reserved \<Rightarrow> (OS_ERR_TASK_NOT_EXIST, s)
     | Tcb i \<Rightarrow>
        if OSTCBDly (tcb s i) = 0 then (OS_ERR_TIME_NOT_DLY, s)
        else let s1 = dly_expire i (upd_tcb i (\<lambda>t. t\<lparr>OSTCBDly := 0\<rparr>) s)
             in (OS_ERR_NONE,
                 if OSTCBStat (tcb s1 i) AND OS_STAT_SUSPEND = OS_STAT_RDY then OS_Sched s1 else s1))"

definition OSTimeGet :: "os \<Rightarrow> u32" where
  "OSTimeGet s = OSTime s"

definition OSTimeSet :: "u32 \<Rightarrow> os \<Rightarrow> os" where
  "OSTimeSet ticks s = s\<lparr>OSTime := ticks\<rparr>"

definition OSTmrSignal :: "os \<Rightarrow> u8 \<times> os" where
  "OSTmrSignal s = OSSemPost (the (OSTmrSemSignal s)) s"

definition OSTimeTickHook :: "os \<Rightarrow> os" where
  "OSTimeTickHook s =
    (let s1 = s\<lparr>OSTmrCtr := OSTmrCtr s + 1\<rparr>
     in if 2 \<le> OSTmrCtr s1 then snd (OSTmrSignal (s1\<lparr>OSTmrCtr := 0\<rparr>)) else s1)"

definition tick_task :: "nat \<Rightarrow> os \<Rightarrow> os" where
  "tick_task i s =
    (if OSTCBDly (tcb s i) \<noteq> 0 then
       let s1 = upd_tcb i (\<lambda>t. t\<lparr>OSTCBDly := OSTCBDly t - 1\<rparr>) s
       in if OSTCBDly (tcb s1 i) = 0 then dly_expire i s1 else s1
     else s)"

text \<open>
  The loop \<open>while (ptcb->OSTCBPrio != OS_TASK_IDLE_PRIO)\<close> of \<open>OSTimeTick\<close>; \<open>None\<close> is a walk
  that runs off the list or never meets the idle task.
\<close>

partial_function (option) tick_loop :: "nat option \<Rightarrow> os \<Rightarrow> os option" where
  "tick_loop p s =
    (case p of None \<Rightarrow> None
     | Some i \<Rightarrow> if OSTCBPrio (tcb s i) \<noteq> OS_TASK_IDLE_PRIO
                then tick_loop (OSTCBNext (tcb s i)) (tick_task i s) else Some s)"

definition tick_step :: "os \<Rightarrow> bool \<times> os" where
  "tick_step s =
    (if OSTickStepState s = OS_TICK_STEP_DIS then (True, s)
     else if OSTickStepState s = OS_TICK_STEP_WAIT then (False, s)
     else if OSTickStepState s = OS_TICK_STEP_ONCE then (True, s\<lparr>OSTickStepState := OS_TICK_STEP_WAIT\<rparr>)
     else (True, s\<lparr>OSTickStepState := OS_TICK_STEP_DIS\<rparr>))"

definition OSTimeTick :: "os \<Rightarrow> os option" where
  "OSTimeTick s =
    (let s1 = OSTimeTickHook s; s2 = s1\<lparr>OSTime := OSTime s1 + 1\<rparr>
     in if OSRunning s2 then
          let (step, s3) = tick_step s2
          in if \<not> step then Some s3 else tick_loop (OSTCBList s3) s3
        else Some s2)"

definition SysTick_Handler :: "os \<Rightarrow> os option" where
  "SysTick_Handler s =
    (if OSRunning s
     then (case OSTimeTick (OSIntEnter s) of None \<Rightarrow> None | Some s1 \<Rightarrow> Some (OSIntExit s1))
     else Some s)"

section \<open>The list of tasks\<close>

definition tlist_ok :: "os \<Rightarrow> bool" where
  "tlist_ok s \<longleftrightarrow>
    (\<exists>xs k. dchain (\<lambda>i. OSTCBNext (tcb s i)) (\<lambda>i. OSTCBPrev (tcb s i)) None (OSTCBList s) (xs @ [k]) \<and>
       OSTCBPrio (tcb s k) = OS_TASK_IDLE_PRIO \<and> set (xs @ [k]) = {i. live s i})"

lemma tlist_frame:
  assumes "tlist_ok s" "OSTCBList s' = OSTCBList s" "OSTCBPrioTbl s' = OSTCBPrioTbl s"
    "\<And>i. OSTCBNext (tcb s' i) = OSTCBNext (tcb s i)" "\<And>i. OSTCBPrev (tcb s' i) = OSTCBPrev (tcb s i)"
    "\<And>i. OSTCBPrio (tcb s' i) = OSTCBPrio (tcb s i)"
  shows "tlist_ok s'"
proof -
  have "live s' i = live s i" for i using assms by (simp add: live_def)
  then show ?thesis using assms by (simp add: tlist_ok_def)
qed

lemma tlist_sched [simp]: "tlist_ok s \<Longrightarrow> tlist_ok (OS_Sched s)"
  by (erule tlist_frame) simp_all

lemma tlist_rdy [simp]: "tlist_ok s \<Longrightarrow> tlist_ok (snd (OS_EventTaskRdy e m k ps s))"
  by (erule tlist_frame) simp_all

lemma tlist_sem_post: "tlist_ok s \<Longrightarrow> tlist_ok (snd (OSSemPost e s))"
  by (auto simp: OSSemPost_def) (erule tlist_frame, simp_all add: upd_ev_def)

section \<open>A delay runs out\<close>

lemma upd_tcb_same: "tcb (upd_tcb i f s) j = (if j = i then f (tcb s i) else tcb s j)"
  by (simp add: upd_tcb_def)

lemma expire_tcb_frame [simp]:
  "OSTCBPrio (expire_tcb t) = OSTCBPrio t" "OSTCBEventPtr (expire_tcb t) = OSTCBEventPtr t"
  "OSTCBDly (expire_tcb t) = OSTCBDly t" "wf_tcb (expire_tcb t) = wf_tcb t"
  "OSTCBStat (expire_tcb t) = OSTCBStat t AND NOT OS_STAT_PEND_ANY"
  "OSTCBNext (expire_tcb t) = OSTCBNext t" "OSTCBPrev (expire_tcb t) = OSTCBPrev t"
  "OSTCBMsg (expire_tcb t) = OSTCBMsg t" "OSTCBFlagNode (expire_tcb t) = OSTCBFlagNode t"
proof -
  have "OSTCBStat t AND 0x37 = 0 \<Longrightarrow> OSTCBStat t = OSTCBStat t AND NOT 0x37"
    by (metis bit.conj_disj_distrib bit.conj_one_right bit.disj_cancel_right or.left_neutral)
  then show "OSTCBStat (expire_tcb t) = OSTCBStat t AND NOT OS_STAT_PEND_ANY" by (auto simp: expire_tcb_def)
qed (simp_all add: expire_tcb_def wf_tcb_def)

lemma expire_pend: "OSTCBStatPend (expire_tcb t) =
    (if OSTCBStat t AND OS_STAT_PEND_ANY \<noteq> 0 then OS_STAT_PEND_TO else OS_STAT_PEND_OK)"
  by (simp add: expire_tcb_def)

lemma dly_expire_frame [simp]:
  "OSTCBPrioTbl (dly_expire i s) = OSTCBPrioTbl s" "OSRunning (dly_expire i s) = OSRunning s"
  "OSPrioCur (dly_expire i s) = OSPrioCur s" "OSTCBCur (dly_expire i s) = OSTCBCur s"
  "OSIntNesting (dly_expire i s) = OSIntNesting s" "OSLockNesting (dly_expire i s) = OSLockNesting s"
  "OSEventTbl_arr (dly_expire i s) = OSEventTbl_arr s" "OSTCBList (dly_expire i s) = OSTCBList s"
  "OSEventFreeList (dly_expire i s) = OSEventFreeList s" "OSQTbl (dly_expire i s) = OSQTbl s"
  "OSQFreeList (dly_expire i s) = OSQFreeList s" "OSHeap (dly_expire i s) = OSHeap s"
  "tcb (dly_expire i s) j = (if j = i then expire_tcb (tcb s i) else tcb s j)"
  by (simp_all add: dly_expire_def Let_def rdy_set_def set_rdy_def upd_tcb_def)

lemma dly_expire_rdy:
  assumes "wf_tcb (tcb s i)"
  shows "rdy_bm (dly_expire i s) =
    (if (OSTCBStat (tcb s i) AND NOT OS_STAT_PEND_ANY) AND OS_STAT_SUSPEND = 0
     then bm_ins (prio s i) (rdy_bm s) else rdy_bm s)"
  using rdy_bm_set [of "expire_tcb (tcb s i)"] assms
  by (simp add: dly_expire_def Let_def upd_tcb_def rdy_bm_def)

lemma upd_dly_frame [simp]:
  "OSTCBPrioTbl (upd_tcb i f s) = OSTCBPrioTbl s" "OSRunning (upd_tcb i f s) = OSRunning s"
  "OSPrioCur (upd_tcb i f s) = OSPrioCur s" "OSTCBCur (upd_tcb i f s) = OSTCBCur s"
  "OSIntNesting (upd_tcb i f s) = OSIntNesting s" "OSLockNesting (upd_tcb i f s) = OSLockNesting s"
  "OSEventTbl_arr (upd_tcb i f s) = OSEventTbl_arr s" "OSTCBList (upd_tcb i f s) = OSTCBList s"
  "OSEventFreeList (upd_tcb i f s) = OSEventFreeList s" "rdy_bm (upd_tcb i f s) = rdy_bm s"
  "OSQTbl (upd_tcb i f s) = OSQTbl s" "OSQFreeList (upd_tcb i f s) = OSQFreeList s"
  "OSHeap (upd_tcb i f s) = OSHeap s"
  by (simp_all add: upd_tcb_def rdy_bm_def)

text \<open>The status bits that are left when the pend bits are cleared.\<close>

lemma stat_suspend_only:
  assumes "st AND NOT 0x3F = (0::u8)"
  shows "(st AND NOT 0x37) AND 8 = 0 \<longleftrightarrow> st AND NOT 0x37 = 0" and "(st AND NOT 0x37) AND NOT (k OR 8) = 0"
proof -
  have n: "NOT (0x3F::u8) = NOT 0x37 AND NOT 8" by simp
  have z: "(st AND NOT 0x37) AND NOT 8 = 0" using assms unfolding n by (simp add: and.assoc)
  show "(st AND NOT 0x37) AND 8 = 0 \<longleftrightarrow> st AND NOT 0x37 = 0"
    using z and_parts_zero [of "st AND NOT 0x37" 8] by auto
  have "(st AND NOT 0x37) AND NOT (k OR 8) = ((st AND NOT 0x37) AND NOT 8) AND NOT k"
    by (simp add: ac_simps)
  then show "(st AND NOT 0x37) AND NOT (k OR 8) = 0" using z by simp
qed

lemma stat_mask_pend: "stat_mask ty AND 0x37 = stat_mask ty"
  by (simp add: stat_mask_def)

lemma pend_bits_nz:
  assumes "st AND stat_mask ty \<noteq> 0"
  shows "st AND 0x37 \<noteq> (0::u8)"
proof
  assume "st AND 0x37 = 0"
  then have "(st AND 0x37) AND stat_mask ty = 0" by simp
  then have "st AND (stat_mask ty AND 0x37) = 0" by (simp add: ac_simps)
  then show False using assms by (simp only: stat_mask_pend)
qed

lemma kinv_expire:
  assumes inv: "kinv s" and li: "live s i" and d: "OSTCBDly (tcb s i) \<noteq> 0"
  defines "s' \<equiv> dly_expire i (upd_tcb i (\<lambda>t. t\<lparr>OSTCBDly := 0\<rparr>) s)"
  shows "kinv s'"
    and "rdyset s' = (if OSTCBStat (tcb s i) AND OS_STAT_SUSPEND = 0 then insert (prio s i) (rdyset s) else rdyset s)"
proof -
  let ?t = "tcb s i"
  let ?u = "?t\<lparr>OSTCBDly := 0\<rparr>"
  have wf: "wf_tcb ?t" using kinv_wf [OF inv li] .
  have wfu: "wf_tcb ?u" using wf by (simp add: wf_tcb_def)
  have p64: "prio s i < 64" using li by (simp add: live_def)
  note bits = kinv_stat_bits [OF inv li]
  have s8: "(OSTCBStat ?t AND NOT 0x37) AND 8 = OSTCBStat ?t AND 8" by (simp add: and.assoc)
  have rb: "rdy_bm s' = (if OSTCBStat ?t AND 8 = 0 then bm_ins (prio s i) (rdy_bm s) else rdy_bm s)"
    unfolding s'_def using dly_expire_rdy [of "upd_tcb i (\<lambda>t. t\<lparr>OSTCBDly := 0\<rparr>) s" i] wfu
    by (simp add: upd_tcb_same s8 [simplified])
  then show r: "rdyset s' = (if OSTCBStat ?t AND OS_STAT_SUSPEND = 0 then insert (prio s i) (rdyset s) else rdyset s)"
    using p64 by (simp add: rdyset_def bm.elems_ins)
  have t': "tcb s' i = expire_tcb ?u" by (simp add: s'_def upd_tcb_same)
  have w: "wset s' e = wset s e" for e by (simp add: s'_def wset_def)
  have ev': "ev s' = ev s" by (simp add: s'_def)
  have pw: "OSTCBEventPtr ?t = Some e \<and> OSTCBStat ?t AND 0x37 \<noteq> 0" if "prio s i \<in> wset s e" for e
    using kinv_task [OF inv li] that d pend_bits_nz by (auto simp: task_ok_def)
  have st0: "OSTCBStat ?t AND 8 = 0 \<longleftrightarrow> OSTCBStat ?t AND NOT 0x37 = 0"
    using stat_suspend_only(1) [OF bits] s8 by simp
  have nr: "prio s i \<notin> rdyset s" using kinv_ready_iff [OF inv li] d by simp
  have a: "(OSTCBStat ?t AND NOT 0x37) AND NOT 0x3F = 0" using bits by (rule and_drop)
  have b: "(OSTCBStat ?t AND NOT 0x37) AND 0x17 = 0" by (simp add: and.assoc)
  have c: "(OSTCBStat ?t AND NOT 0x37) AND NOT (k OR 8) = 0" for k using stat_suspend_only(2) [OF bits] .
  have ok: "task_ok s' i"
    unfolding task_ok_def t' w ev' r
    using wfu st0 nr a b c pw by (auto simp: expire_pend)
  have bo: "bm_ok (rdy_bm s')" using rb kinv_rdy [OF inv] p64 by (simp add: bm.invar_ins)
  have i63: "63 \<in> rdyset s'" using kinv_idle [OF inv] r by simp
  show "kinv s'"
    using ok bo i63 kinv_ev [OF inv] kinv_used [OF inv]
    by (intro kinv_one_task [OF inv li]) (auto simp: r w t' ev', auto simp: s'_def upd_tcb_same)
qed

section \<open>One tick\<close>

text \<open>What a tick does to one task control block, and when it makes the task ready.\<close>

definition tick_tcb :: "os_tcb \<Rightarrow> os_tcb" where
  "tick_tcb t =
    (if OSTCBDly t = 0 then t
     else if OSTCBDly t = 1 then expire_tcb (t\<lparr>OSTCBDly := 0\<rparr>)
     else t\<lparr>OSTCBDly := OSTCBDly t - 1\<rparr>)"

definition expires :: "os_tcb \<Rightarrow> bool" where
  "expires t \<longleftrightarrow> OSTCBDly t = 1 \<and> OSTCBStat t AND OS_STAT_SUSPEND = 0"

lemma tick_tcb_frame [simp]:
  "OSTCBPrio (tick_tcb t) = OSTCBPrio t" "OSTCBNext (tick_tcb t) = OSTCBNext t"
  "OSTCBPrev (tick_tcb t) = OSTCBPrev t" "OSTCBEventPtr (tick_tcb t) = OSTCBEventPtr t"
  "OSTCBDly (tick_tcb t) = (if OSTCBDly t = 0 then 0 else OSTCBDly t - 1)"
  by (simp_all add: tick_tcb_def)

lemma tick_task_tcb: "tcb (tick_task i s) j = (if j = i then tick_tcb (tcb s i) else tcb s j)"
proof -
  have "OSTCBDly (tcb s i) - 1 = 0 \<longleftrightarrow> OSTCBDly (tcb s i) = 1" by auto
  then show ?thesis by (auto simp: tick_task_def tick_tcb_def Let_def upd_tcb_same)
qed

lemma tick_task_frame:
  "tick_task i s = s\<lparr>OSTCBTbl := OSTCBTbl (tick_task i s), OSRdyGrp := OSRdyGrp (tick_task i s),
     OSRdyTbl := OSRdyTbl (tick_task i s)\<rparr>"
  by (rule os.equality)
    (simp_all add: tick_task_def dly_expire_def Let_def upd_tcb_def rdy_set_def set_rdy_def)

lemma kinv_upd_dly:
  assumes inv: "kinv s" and li: "live s i" and d: "OSTCBDly (tcb s i) \<noteq> 0" "n \<noteq> 0"
  shows "kinv (upd_tcb i (\<lambda>t. t\<lparr>OSTCBDly := n\<rparr>) s)"
proof -
  let ?s = "upd_tcb i (\<lambda>t. t\<lparr>OSTCBDly := n\<rparr>) s"
  have r: "rdyset ?s = rdyset s" "wset ?s e = wset s e" for e by (simp_all add: rdyset_def wset_def)
  have ok: "task_ok ?s i" using kinv_task [OF inv li] d kinv_ready_iff [OF inv li]
    unfolding task_ok_def r by (auto simp: upd_tcb_same wf_tcb_def)
  show ?thesis
    using ok kinv_rdy [OF inv] kinv_ev [OF inv] kinv_idle [OF inv] kinv_used [OF inv]
    by (intro kinv_one_task [OF inv li]) (auto simp: r upd_tcb_same)
qed

lemma kinv_tick_task:
  assumes inv: "kinv s" and li: "live s i"
  shows "kinv (tick_task i s)"
    and "rdyset (tick_task i s) = (if expires (tcb s i) then insert (prio s i) (rdyset s) else rdyset s)"
proof -
  let ?d = "OSTCBDly (tcb s i)"
  have one: "?d - 1 = 0 \<longleftrightarrow> ?d = 1" by auto
  have "kinv (tick_task i s) \<and>
      rdyset (tick_task i s) = (if expires (tcb s i) then insert (prio s i) (rdyset s) else rdyset s)"
  proof (cases "?d = 0 \<or> ?d = 1")
    case True
    have "upd_tcb i (\<lambda>t. t\<lparr>OSTCBDly := OSTCBDly t - 1\<rparr>) s = upd_tcb i (\<lambda>t. t\<lparr>OSTCBDly := 0\<rparr>) s" if "?d = 1"
      using that by (simp add: upd_tcb_def)
    then show ?thesis using True inv kinv_expire [OF inv li]
      by (auto simp: tick_task_def expires_def Let_def upd_tcb_same)
  next
    case False
    have u: "upd_tcb i (\<lambda>t. t\<lparr>OSTCBDly := OSTCBDly t - 1\<rparr>) s = upd_tcb i (\<lambda>t. t\<lparr>OSTCBDly := ?d - 1\<rparr>) s"
      by (simp add: upd_tcb_def)
    have "tick_task i s = upd_tcb i (\<lambda>t. t\<lparr>OSTCBDly := ?d - 1\<rparr>) s"
      using False one by (simp add: tick_task_def Let_def upd_tcb_same u)
    then show ?thesis using kinv_upd_dly [OF inv li, of "?d - 1"] False one
      by (simp add: expires_def rdyset_def)
  qed
  then show "kinv (tick_task i s)"
    and "rdyset (tick_task i s) = (if expires (tcb s i) then insert (prio s i) (rdyset s) else rdyset s)" by auto
qed

lemma tick_loop_ends:
  assumes "kinv s" and "chain (\<lambda>i. OSTCBNext (tcb s i)) p (xs @ [k])"
    and "OSTCBPrio (tcb s k) = OS_TASK_IDLE_PRIO" and "\<And>i. i \<in> set xs \<Longrightarrow> live s i \<and> OSTCBPrio (tcb s i) \<noteq> OS_TASK_IDLE_PRIO"
  shows "\<exists>s' g b. tick_loop p s = Some s' \<and> kinv s' \<and>
    s' = s\<lparr>OSTCBTbl := \<lambda>j. if j \<in> set xs then tick_tcb (tcb s j) else tcb s j, OSRdyGrp := g, OSRdyTbl := b\<rparr> \<and>
    rdyset s' = rdyset s \<union> {prio s j |j. j \<in> set xs \<and> expires (tcb s j)}"
  using assms
proof (induction xs arbitrary: p s)
  case Nil
  then have "tick_loop p s = Some s" by (subst tick_loop.simps) simp
  then show ?case using Nil
    by (intro exI [of _ s] exI [of _ "OSRdyGrp s"] exI [of _ "OSRdyTbl s"]) simp
next
  case (Cons i xs)
  then have p: "p = Some i" and c: "chain (\<lambda>i. OSTCBNext (tcb s i)) (OSTCBNext (tcb s i)) (xs @ [k])"
    and li: "live s i" and pi: "OSTCBPrio (tcb s i) \<noteq> 63" by auto
  have i: "i \<notin> set xs" "i \<noteq> k" using chain_distinct [OF Cons.prems(2)] by auto
  let ?s = "tick_task i s"
  note kt = kinv_tick_task [OF Cons.prems(1) li] and tt = tick_task_tcb [of i s]
  have pr: "OSTCBPrio (tcb ?s j) = OSTCBPrio (tcb s j)" "OSTCBNext (tcb ?s j) = OSTCBNext (tcb s j)" for j
    by (simp_all add: tt)
  obtain t0 g0 b0 where fr: "?s = s\<lparr>OSTCBTbl := t0, OSRdyGrp := g0, OSRdyTbl := b0\<rparr>"
    using tick_task_frame [of i s] by (rule that)
  have "OSTCBPrioTbl ?s = OSTCBPrioTbl s" by (simp add: fr)
  then have lv: "live ?s j = live s j" for j by (simp add: live_def pr)
  have "\<exists>s' g b. tick_loop (OSTCBNext (tcb s i)) ?s = Some s' \<and> kinv s' \<and>
    s' = ?s\<lparr>OSTCBTbl := \<lambda>j. if j \<in> set xs then tick_tcb (tcb ?s j) else tcb ?s j, OSRdyGrp := g, OSRdyTbl := b\<rparr> \<and>
    rdyset s' = rdyset ?s \<union> {prio ?s j |j. j \<in> set xs \<and> expires (tcb ?s j)}"
    using Cons.prems c by (intro Cons.IH kt) (simp_all add: pr lv)
  then obtain s' g b where r: "tick_loop (OSTCBNext (tcb s i)) ?s = Some s'" "kinv s'"
    and s': "s' = ?s\<lparr>OSTCBTbl := \<lambda>j. if j \<in> set xs then tick_tcb (tcb ?s j) else tcb ?s j, OSRdyGrp := g, OSRdyTbl := b\<rparr>"
    and rd: "rdyset s' = rdyset ?s \<union> {prio ?s j |j. j \<in> set xs \<and> expires (tcb ?s j)}" by blast
  have l: "tick_loop p s = Some s'" using r(1) p pi by (subst tick_loop.simps) simp
  have "(\<lambda>j. if j \<in> set xs then tick_tcb (tcb ?s j) else tcb ?s j) =
      (\<lambda>j. if j \<in> set (i # xs) then tick_tcb (tcb s j) else tcb s j)" using i by (auto simp: tt fun_eq_iff)
  then have e: "s' = s\<lparr>OSTCBTbl := \<lambda>j. if j \<in> set (i # xs) then tick_tcb (tcb s j) else tcb s j,
      OSRdyGrp := g, OSRdyTbl := b\<rparr>" using s' fr by simp
  have "{prio ?s j |j. j \<in> set xs \<and> expires (tcb ?s j)} = {prio s j |j. j \<in> set xs \<and> expires (tcb s j)}"
    using i by (auto simp: tt)
  then have "rdyset s' = rdyset s \<union> {prio s j |j. j \<in> set (i # xs) \<and> expires (tcb s j)}"
    using rd kt(2) by auto
  then show ?case using l r(2) e by blast
qed

section \<open>Interrupt entry and exit, and the scheduler lock\<close>

lemma kok_nesting [simp]: "kok (s\<lparr>OSIntNesting := n\<rparr>) = kok s" "kok (s\<lparr>OSLockNesting := n\<rparr>) = kok s"
  by (simp_all add: kok_def kinv_def evlist_ok_def cur_ok_def live_def rdyset_def rdy_bm_def task_ok_def wset_def)

lemma kok_os_switch: "kok s \<Longrightarrow> kok (os_switch s) \<and> sched_ok (os_switch s)"
  using os_switch_cur [of s] kinv_os_switch [of s]
  by (auto simp: kok_def cur_ok_def intro: evlist_frame [of s])
    (auto simp: os_switch_def OS_SchedNew_def OSPendSV_def upd_tcb_def Let_def intro: evlist_frame [of s])

lemma u8_inc: "(n::u8) < 255 \<Longrightarrow> unat (n + 1) = unat n + 1"
  by (simp add: word_less_nat_alt unat_word_ariths)

lemma u8_inc_nz: "(n::u8) < 255 \<Longrightarrow> n + 1 \<noteq> 0"
  using u8_inc [of n] by (metis add_is_0 one_neq_zero unat_0)

lemma kok_OSIntEnter: "kok s \<Longrightarrow> kok (OSIntEnter s)"
  by (simp add: OSIntEnter_def)

lemma OSIntExit_safe:
  assumes "kok s"
  shows "kok (OSIntExit s)" and "sched_ok (OSIntExit s)"
proof -
  let ?s = "if 0 < OSIntNesting s then s\<lparr>OSIntNesting := OSIntNesting s - 1\<rparr> else s"
  have run: "OSRunning s" using assms by (simp add: kok_def cur_ok_def)
  have k: "kok ?s" using assms by simp
  show "kok (OSIntExit s)" "sched_ok (OSIntExit s)"
    using kok_os_switch [OF k] k run by (auto simp: OSIntExit_def Let_def sched_ok_def)
qed

lemma sched_lock_safe:
  assumes ok: "ksafe s"
  shows "ksafe (OSSchedLock s)" and "ksafe (OSSchedUnlock s)"
proof -
  have ok': "kok s" "sched_ok s" using ok by auto
  show "ksafe (OSSchedLock s)" using ok'
    by (auto simp: OSSchedLock_def sched_ok_def u8_inc_nz)
  show "ksafe (OSSchedUnlock s)"
    using ok' kok_OS_Sched [of "s\<lparr>OSLockNesting := OSLockNesting s - 1\<rparr>"]
    by (auto simp: OSSchedUnlock_def Let_def) (auto simp: sched_ok_def)
qed

section \<open>The tick handler\<close>

lemma sem_post_kok: "kok s \<Longrightarrow> kok (snd (OSSemPost e s))"
  using sem.hand_over(2) [of s e PNull OS_STAT_PEND_OK] sem_kok_cnt(1) [of s e] by (auto simp: OSSemPost_def)

lemma OS_Sched_core: "same_core (tcb s i) (tcb (OS_Sched s) i)"
  by (simp add: OS_Sched_def os_switch_frame)

lemma rdy_globals [simp]:
  "OSRunning (snd (OS_EventTaskRdy e m k ps s)) = OSRunning s"
  "OSTickStepState (snd (OS_EventTaskRdy e m k ps s)) = OSTickStepState s"
  "OSTime (snd (OS_EventTaskRdy e m k ps s)) = OSTime s"
  "OSTickStepState (OS_Sched s) = OSTickStepState s"
  by (simp_all add: OS_EventTaskRdy_def OS_EventTaskRemove_def Let_def upd_ev_def upd_tcb_def set_rdy_def
      OS_Sched_def os_switch_def OS_SchedNew_def OSPendSV_def)

text \<open>A post leaves a task alone that waits for nothing.\<close>

lemma sem_post_others:
  assumes inv: "kinv s" and li: "live s i" and nw: "\<forall>x. prio s i \<notin> wset s x"
  shows "same_core (tcb s i) (tcb (snd (OSSemPost e s)) i)"
    and "\<And>x. prio s i \<notin> wset (snd (OSSemPost e s)) x"
    and "prio s i \<in> rdyset (snd (OSSemPost e s)) \<longleftrightarrow> prio s i \<in> rdyset s"
proof -
  have "same_core (tcb s i) (tcb (snd (OSSemPost e s)) i) \<and> (\<forall>x. prio s i \<notin> wset (snd (OSSemPost e s)) x) \<and>
    (prio s i \<in> rdyset (snd (OSSemPost e s)) \<longleftrightarrow> prio s i \<in> rdyset s)"
  proof (cases "OSEventType (ev s e) = OS_EVENT_TYPE_SEM \<and> OSEventGrp (ev s e) \<noteq> 0")
    case True
    obtain k where lk: "live s k" and pk: "prio s k \<in> wset s e"
      and rd: "OS_EventTaskRdy e PNull OS_STAT_SEM OS_STAT_PEND_OK s =
        (OSTCBPrio (tcb s k), wake k e PNull OS_STAT_SEM OS_STAT_PEND_OK s)"
      using EventTaskRdy_wake [OF inv] True by metis
    have ne: "k \<noteq> i" using pk nw by auto
    then have np: "prio s i \<noteq> prio s k" using live_inj [OF lk li] by auto
    have w: "prio s i \<notin> wset (wake k e PNull OS_STAT_SEM OS_STAT_PEND_OK s) x" for x
      using wset_wake [OF inv lk, of e PNull OS_STAT_SEM OS_STAT_PEND_OK x] nw by auto
    have r: "prio s i \<in> rdyset (wake k e PNull OS_STAT_SEM OS_STAT_PEND_OK s) \<longleftrightarrow> prio s i \<in> rdyset s"
      using wake_sets(1) [OF inv lk, of e PNull OS_STAT_SEM OS_STAT_PEND_OK] np lk
      by (auto simp: rdyset_def bm.elems_ins live_def)
    have "OSSemPost e s = (OS_ERR_NONE, OS_Sched (wake k e PNull OS_STAT_SEM OS_STAT_PEND_OK s))"
      using True rd by (simp add: OSSemPost_def)
    then show ?thesis using w r ne OS_Sched_core [of "wake k e PNull OS_STAT_SEM OS_STAT_PEND_OK s" i]
      by simp
  next
    case False
    then show ?thesis using nw by (auto simp: OSSemPost_def) (simp_all add: upd_ev_def rdyset_def rdy_bm_def)
  qed
  then show "same_core (tcb s i) (tcb (snd (OSSemPost e s)) i)"
    and "\<And>x. prio s i \<notin> wset (snd (OSSemPost e s)) x"
    and "prio s i \<in> rdyset (snd (OSSemPost e s)) \<longleftrightarrow> prio s i \<in> rdyset s" by auto
qed

lemma sem_post_frame [simp]:
  "OSTCBPrioTbl (snd (OSSemPost e s)) = OSTCBPrioTbl s" "OSTime (snd (OSSemPost e s)) = OSTime s"
  "OSRunning (snd (OSSemPost e s)) = OSRunning s" "OSIntNesting (snd (OSSemPost e s)) = OSIntNesting s"
  "OSLockNesting (snd (OSSemPost e s)) = OSLockNesting s"
  "OSTickStepState (snd (OSSemPost e s)) = OSTickStepState s"
  "OSTCBPrio (tcb (snd (OSSemPost e s)) i) = OSTCBPrio (tcb s i)" "OSTCBList (snd (OSSemPost e s)) = OSTCBList s"
  by (auto simp: OSSemPost_def) (simp_all add: upd_ev_def)

lemma hook_frame [simp]:
  "OSTCBPrioTbl (OSTimeTickHook s) = OSTCBPrioTbl s" "OSTime (OSTimeTickHook s) = OSTime s"
  "OSRunning (OSTimeTickHook s) = OSRunning s" "OSIntNesting (OSTimeTickHook s) = OSIntNesting s"
  "OSLockNesting (OSTimeTickHook s) = OSLockNesting s" "OSTickStepState (OSTimeTickHook s) = OSTickStepState s"
  "OSTCBPrio (tcb (OSTimeTickHook s) i) = OSTCBPrio (tcb s i)" "live (OSTimeTickHook s) i = live s i"
  by (simp_all add: OSTimeTickHook_def OSTmrSignal_def Let_def live_def)

lemma kok_tmr_ctr: "kok s \<Longrightarrow> kok (s\<lparr>OSTmrCtr := n\<rparr>)"
  using same_kernel_safe(1) [of s "s\<lparr>OSTmrCtr := n\<rparr>"] by (simp add: same_kernel_def)

lemma kok_hook: "kok s \<Longrightarrow> kok (OSTimeTickHook s)"
  by (simp add: OSTimeTickHook_def OSTmrSignal_def Let_def sem_post_kok kok_tmr_ctr)

lemma tlist_hook:
  assumes "tlist_ok s" shows "tlist_ok (OSTimeTickHook s)"
proof -
  have "tlist_ok (s\<lparr>OSTmrCtr := n\<rparr>)" for n using assms by (rule tlist_frame) simp_all
  then show ?thesis by (simp add: OSTimeTickHook_def OSTmrSignal_def Let_def tlist_sem_post)
qed

lemma OSTimeTick_ends:
  assumes ok: "kok s" and tl: "tlist_ok s" and st: "OSTickStepState s = OS_TICK_STEP_DIS"
  defines "h \<equiv> OSTimeTickHook s"
  shows "\<exists>s'. OSTimeTick s = Some s' \<and> kok s' \<and> tlist_ok s' \<and> OSTime s' = OSTime s + 1 \<and>
    OSTickStepState s' = OS_TICK_STEP_DIS \<and> OSTCBPrioTbl s' = OSTCBPrioTbl s \<and> OSIntNesting s' = OSIntNesting s \<and>
    OSLockNesting s' = OSLockNesting s \<and> OSRunning s' \<and> OSEventTbl_arr s' = OSEventTbl_arr h \<and>
    (\<forall>i. live s i \<longrightarrow> tcb s' i = (if prio s i = 63 then tcb h i else tick_tcb (tcb h i))) \<and>
    rdyset s' = rdyset h \<union> {prio s i |i. live s i \<and> prio s i \<noteq> 63 \<and> expires (tcb h i)}"
proof -
  let ?s = "h\<lparr>OSTime := OSTime h + 1\<rparr>"
  have kh: "kok h" and th: "tlist_ok h" unfolding h_def using ok tl by (simp_all add: kok_hook tlist_hook)
  have ks: "kok ?s" using same_kernel_safe(1) [of h ?s] kh by (simp add: same_kernel_def)
  have ts: "tlist_ok ?s" using th by (rule tlist_frame) simp_all
  obtain xs k where d: "dchain (\<lambda>i. OSTCBNext (tcb ?s i)) (\<lambda>i. OSTCBPrev (tcb ?s i)) None (OSTCBList ?s) (xs @ [k])"
    and pk: "OSTCBPrio (tcb ?s k) = OS_TASK_IDLE_PRIO" and xs: "set (xs @ [k]) = {i. live ?s i}"
    using ts unfolding tlist_ok_def by blast
  have lk: "live ?s k" using xs by auto
  have dist: "k \<notin> set xs" using dchain_distinct [OF d] by auto
  have i63: "OSTCBPrio (tcb ?s i) = OS_TASK_IDLE_PRIO \<longleftrightarrow> i = k" if "live ?s i" for i
    using live_inj [OF that lk] pk by auto
  have lx: "live ?s i \<and> OSTCBPrio (tcb ?s i) \<noteq> OS_TASK_IDLE_PRIO" if "i \<in> set xs" for i
    using that xs i63 dist by auto
  have mem: "i \<in> set xs \<longleftrightarrow> live s i \<and> prio s i \<noteq> 63" for i
  proof -
    have "live ?s i = live s i" for i by (simp add: live_def h_def)
    moreover have "prio s i = 63 \<longleftrightarrow> OSTCBPrio (tcb ?s i) = 63"
      by (simp add: h_def) (metis unat_numeral_63 word_unat_eq_iff)
    ultimately show ?thesis using xs i63 [of i] lx [of i] lk by auto
  qed
  obtain s' g b where r: "tick_loop (OSTCBList ?s) ?s = Some s'" "kinv s'"
    and s': "s' = ?s\<lparr>OSTCBTbl := \<lambda>j. if j \<in> set xs then tick_tcb (tcb ?s j) else tcb ?s j, OSRdyGrp := g, OSRdyTbl := b\<rparr>"
    and rd: "rdyset s' = rdyset ?s \<union> {prio ?s j |j. j \<in> set xs \<and> expires (tcb ?s j)}"
    using tick_loop_ends [OF kokD(1) [OF ks] dchain_chain [OF d] pk lx] by blast
  have pr: "OSTCBPrio (tcb s' i) = OSTCBPrio (tcb s i)" for i by (simp add: s' h_def)
  have "evlist_ok s'" using kokD(2) [OF kh] by (rule evlist_frame) (simp_all add: s')
  moreover have "cur_ok s'" using kokD(3) [OF kh] by (rule cur_ok_core) (simp_all add: s')
  ultimately have "kok s'" using r(2) by (simp add: kok_def)
  moreover have "tlist_ok s'" using th by (rule tlist_frame) (simp_all add: s')
  moreover have "OSRunning ?s" using ks by (simp add: kok_def cur_ok_def)
  moreover have "OSTickStepState ?s = OS_TICK_STEP_DIS" using st by (simp add: h_def)
  ultimately show ?thesis
    using r(1) mem rd unfolding OSTimeTick_def tick_step_def Let_def h_def [symmetric]
    by (intro exI [of _ s']) (auto simp: s' rdyset_def rdy_bm_def h_def)
qed

lemma IntEnter_frame [simp]:
  "OSTCBTbl (OSIntEnter s) = OSTCBTbl s" "OSEventTbl_arr (OSIntEnter s) = OSEventTbl_arr s"
  "OSTCBPrioTbl (OSIntEnter s) = OSTCBPrioTbl s" "OSTickStepState (OSIntEnter s) = OSTickStepState s"
  "OSTime (OSIntEnter s) = OSTime s" "OSLockNesting (OSIntEnter s) = OSLockNesting s"
  "OSTCBList (OSIntEnter s) = OSTCBList s" "rdyset (OSIntEnter s) = rdyset s" "wset (OSIntEnter s) x = wset s x"
  "live (OSIntEnter s) i = live s i"
  by (simp_all add: OSIntEnter_def rdyset_def rdy_bm_def wset_def live_def)

lemma os_switch_rest [simp]:
  "OSTCBNext (tcb (os_switch s) i) = OSTCBNext (tcb s i)" "OSTCBPrev (tcb (os_switch s) i) = OSTCBPrev (tcb s i)"
  "OSTCBList (os_switch s) = OSTCBList s" "OSTickStepState (os_switch s) = OSTickStepState s"
  by (simp_all add: os_switch_def OS_SchedNew_def OSPendSV_def upd_tcb_def Let_def)

lemma IntExit_frame [simp]:
  "OSEventTbl_arr (OSIntExit s) = OSEventTbl_arr s" "OSTCBPrioTbl (OSIntExit s) = OSTCBPrioTbl s"
  "OSTickStepState (OSIntExit s) = OSTickStepState s" "OSTime (OSIntExit s) = OSTime s"
  "OSLockNesting (OSIntExit s) = OSLockNesting s" "OSTCBList (OSIntExit s) = OSTCBList s"
  "rdyset (OSIntExit s) = rdyset s" "wset (OSIntExit s) x = wset s x"
  "same_core (tcb s i) (tcb (OSIntExit s) i)" "OSTCBNext (tcb (OSIntExit s) i) = OSTCBNext (tcb s i)"
  "OSTCBPrev (tcb (OSIntExit s) i) = OSTCBPrev (tcb s i)"
proof -
  have "same_core (tcb s i) (tcb (os_switch (s\<lparr>OSIntNesting := n\<rparr>)) i)" for n
    using os_switch_frame(9) [of "s\<lparr>OSIntNesting := n\<rparr>" i] by simp
  then show "same_core (tcb s i) (tcb (OSIntExit s) i)"
    by (simp add: OSIntExit_def Let_def os_switch_frame)
qed (simp_all add: OSIntExit_def Let_def os_switch_frame rdyset_def rdy_bm_def wset_def)

text \<open>The whole timer interrupt.\<close>

lemma SysTick_ends:
  assumes ok: "ksafe s" and tl: "tlist_ok s" and st: "OSTickStepState s = OS_TICK_STEP_DIS"
    and n: "OSIntNesting s < 255"
  shows "\<exists>s1 s'. SysTick_Handler s = Some s' \<and> OSTimeTick (OSIntEnter s) = Some s1 \<and> s' = OSIntExit s1 \<and>
    ksafe s' \<and> tlist_ok s' \<and> OSTickStepState s' = OS_TICK_STEP_DIS \<and> OSIntNesting s' = OSIntNesting s \<and>
    OSTime s' = OSTime s + 1 \<and> OSTCBPrioTbl s' = OSTCBPrioTbl s \<and> OSLockNesting s' = OSLockNesting s \<and>
    (\<forall>i. live s i \<longrightarrow> OSTCBPrio (tcb s' i) = OSTCBPrio (tcb s i))"
proof -
  have run: "OSRunning s" using ok by (simp add: kok_def cur_ok_def)
  have ke: "kok (OSIntEnter s)" using ok by (simp add: kok_OSIntEnter)
  have te: "tlist_ok (OSIntEnter s)" using tl by (rule tlist_frame) simp_all
  have ne: "OSIntNesting (OSIntEnter s) = OSIntNesting s + 1" using run n by (simp add: OSIntEnter_def)
  obtain s1 where t: "OSTimeTick (OSIntEnter s) = Some s1" "kok s1" "tlist_ok s1"
    "OSTime s1 = OSTime s + 1" "OSTickStepState s1 = OS_TICK_STEP_DIS" "OSTCBPrioTbl s1 = OSTCBPrioTbl s"
    "OSIntNesting s1 = OSIntNesting s + 1" "OSLockNesting s1 = OSLockNesting s" "OSRunning s1"
    "\<forall>i. live s i \<longrightarrow> OSTCBPrio (tcb s1 i) = OSTCBPrio (tcb s i)"
    using OSTimeTick_ends [OF ke te] st ne by auto
  have "OSIntNesting (OSIntExit s1) = OSIntNesting s" using t(7,9) u8_inc_nz [OF n]
    by (simp add: OSIntExit_def Let_def os_switch_frame word_gt_0)
  moreover have pe: "OSTCBPrio (tcb (OSIntExit s1) i) = OSTCBPrio (tcb s1 i)" for i
    using IntExit_frame(9) [of s1 i] by (simp add: same_core_def)
  moreover have "tlist_ok (OSIntExit s1)" using t(3) by (rule tlist_frame) (simp_all add: pe)
  moreover have "SysTick_Handler s = Some (OSIntExit s1)" using run t(1) by (simp add: SysTick_Handler_def)
  ultimately show ?thesis using t OSIntExit_safe [OF t(2)] by auto
qed

section \<open>A delayed task\<close>

text \<open>The task waits for \<open>d\<close> ticks and for nothing else.\<close>

definition delayed :: "nat \<Rightarrow> u32 \<Rightarrow> os \<Rightarrow> bool" where
  "delayed i d s \<longleftrightarrow> live s i \<and> OSTCBPrio (tcb s i) \<noteq> OS_TASK_IDLE_PRIO \<and> OSTCBDly (tcb s i) = d \<and>
     OSTCBStat (tcb s i) = OS_STAT_RDY \<and> (\<forall>x. prio s i \<notin> wset s x)"

lemma delayed_core:
  assumes "delayed i d s" "same_core (tcb s i) (tcb s' i)" "OSTCBPrioTbl s' = OSTCBPrioTbl s"
    "\<And>x. prio s i \<notin> wset s' x"
  shows "delayed i d s'"
  using assms unfolding same_core_def by (auto simp: delayed_def same_core_def live_def)

lemma delayed_hook:
  assumes inv: "kinv s" and d: "delayed i d s"
  shows "delayed i d (OSTimeTickHook s)"
proof -
  have "delayed i d (snd (OSSemPost e (s\<lparr>OSTmrCtr := n\<rparr>)))" for e n
  proof -
    let ?s = "s\<lparr>OSTmrCtr := n\<rparr>"
    have k: "kinv ?s" using inv by (rule kinv_frame) simp_all
    have l: "live ?s i" "\<forall>x. prio ?s i \<notin> wset ?s x" using d by (simp_all add: delayed_def live_def wset_def)
    have "delayed i d ?s" using d by (simp add: delayed_def live_def wset_def)
    then show ?thesis
      using sem_post_others(1) [OF k l, of e]
      by (rule delayed_core) (simp, rule sem_post_others(2) [OF k l])
  qed
  moreover have "delayed i d (s\<lparr>OSTmrCtr := n\<rparr>)" for n using d by (simp add: delayed_def live_def wset_def)
  ultimately show ?thesis by (simp add: OSTimeTickHook_def OSTmrSignal_def Let_def)
qed

lemma delayed_tick:
  assumes ok: "ksafe s" and tl: "tlist_ok s" and st: "OSTickStepState s = OS_TICK_STEP_DIS"
    and n: "OSIntNesting s < 255" and d: "delayed i d s" "d \<noteq> 0" and r: "SysTick_Handler s = Some s'"
  shows "delayed i (d - 1) s'"
proof -
  let ?e = "OSIntEnter s"
  obtain s1 where t: "OSTimeTick ?e = Some s1" and s': "s' = OSIntExit s1"
    using SysTick_ends [OF ok tl st n] r by auto
  have ke: "kok ?e" using ok by (simp add: kok_OSIntEnter)
  have te: "tlist_ok ?e" using tl by (rule tlist_frame) simp_all
  have de: "delayed i d ?e" using d(1) by (simp add: delayed_def)
  have dh: "delayed i d (OSTimeTickHook ?e)" using kokD(1) [OF ke] de by (rule delayed_hook)
  have le: "live ?e i" "prio ?e i \<noteq> 63" using de by (auto simp: delayed_def) (metis unat_numeral_63 word_unat_eq_iff)
  obtain h where h: "h = OSTimeTickHook ?e" by simp
  have tt: "tcb s1 i = tick_tcb (tcb h i)" "OSEventTbl_arr s1 = OSEventTbl_arr h"
      "OSTCBPrioTbl s1 = OSTCBPrioTbl ?e"
    using OSTimeTick_ends [OF ke te] st t le h by auto
  have st0: "OSTCBStat (tcb s1 i) = 0" using dh d(2) by (simp add: tt(1) h tick_tcb_def delayed_def)
  have "delayed i (d - 1) s1" using dh d(2) st0
    by (simp add: delayed_def live_def h [symmetric] wset_def tt(2)) (simp add: tt h wset_def)
  then show ?thesis unfolding s' using IntExit_frame(9) [of s1 i]
    by (rule delayed_core) (use \<open>delayed i (d - 1) s1\<close> in \<open>auto simp: delayed_def\<close>)
qed

lemma OSTimeDly_delayed:
  assumes ok: "ksafe s" and lev: "task_level s" and idle: "OSPrioCur s \<noteq> OS_TASK_IDLE_PRIO" and n: "0 < n"
  shows "ksafe (OSTimeDly n s)" and "delayed (cur s) n (OSTimeDly n s)" and "OSTCBCur (OSTimeDly n s) \<noteq> OSTCBCur s"
    and "tlist_ok s \<Longrightarrow> tlist_ok (OSTimeDly n s)" and "rdyset (OSTimeDly n s) = rdyset s - {prio s (cur s)}"
proof -
  let ?c = "cur s" and ?p = "prio s (cur s)"
  let ?s = "upd_tcb ?c (\<lambda>t. t\<lparr>OSTCBDly := n\<rparr>) (rdy_clear (tcb s ?c) s)"
  have k: "kok s" and sch: "sched_ok s" using ok by auto
  note inv = kokD(1) [OF k] and c = kokD(3) [OF k]
  have task: "OSIntNesting s = 0" "OSLockNesting s = 0" and free: "\<And>x. ?p \<notin> wset s x"
    using lev by (auto simp: task_level_def)
  have lc: "live s ?c" and pc: "?p = unat (OSPrioCur s)" using c by (auto dest: cur_ok_live)
  have p63: "?p \<noteq> 63" using idle pc by (metis word_unat_eq_iff unat_numeral_63)
  have rc: "?p \<in> rdyset s" using running_ready [OF inv c sch task] .
  have st: "OSTCBStat (tcb s ?c) = 0" using kinv_ready_iff [OF inv lc] rc by simp
  have rb: "rdy_bm ?s = bm_del ?p (rdy_bm s)" using rdy_bm_clear [OF kinv_wf [OF inv lc]] by simp
  have bo: "bm_ok (rdy_bm (rdy_clear (tcb s ?c) s))"
    using rdy_bm_clear [OF kinv_wf [OF inv lc]] kinv_rdy [OF inv] by (simp add: bm.invar_del)
  have r: "rdyset ?s = rdyset s - {?p}" unfolding rdyset_def rb by (simp add: bm.elems_del)
  have w: "wset ?s x = wset s x" for x by (simp add: wset_def)
  have t: "tcb ?s ?c = (tcb s ?c)\<lparr>OSTCBDly := n\<rparr>" by (simp add: upd_tcb_same)
  have ok': "task_ok ?s ?c" using kinv_wf [OF inv lc] st free n
    by (simp add: task_ok_def t r w wf_tcb_def word_gt_0)
  have ki: "kinv ?s"
    using ok' bo kinv_ev [OF inv] kinv_idle [OF inv] kinv_used [OF inv] p63
    by (intro kinv_one_task [OF inv lc]) (auto simp: r w upd_tcb_same)
  have "evlist_ok ?s" using kokD(2) [OF k] by (rule evlist_frame) (simp_all add: rdy_clear_def set_rdy_def)
  moreover have "cur_ok ?s" using c by (rule cur_ok_core) (simp_all add: rdy_clear_def set_rdy_def upd_tcb_same)
  ultimately have ks: "kok ?s" using ki by (simp add: kok_def)
  have e: "OSTimeDly n s = OS_Sched ?s" using task n by (simp add: OSTimeDly_def)
  show safe: "ksafe (OSTimeDly n s)" unfolding e using kok_OS_Sched [OF ks] .
  show rs: "rdyset (OSTimeDly n s) = rdyset s - {?p}" by (simp add: e r)
  have "OSTCBPrio (tcb s ?c) \<noteq> 63" using p63 by auto
  then have "delayed ?c n ?s" using lc st free unfolding delayed_def live_def t w by simp
  then show d: "delayed ?c n (OSTimeDly n s)" unfolding e using OS_Sched_core
    by (rule delayed_core) (simp_all add: w free upd_tcb_same)
  show "tlist_ok s \<Longrightarrow> tlist_ok (OSTimeDly n s)" unfolding e
    by (rule tlist_sched) (erule tlist_frame, simp_all add: upd_tcb_same, simp add: rdy_clear_def set_rdy_def)
  have task': "OSIntNesting (OSTimeDly n s) = 0" "OSLockNesting (OSTimeDly n s) = 0"
    using task by (simp_all add: e) (simp_all add: rdy_clear_def set_rdy_def)
  show "OSTCBCur (OSTimeDly n s) \<noteq> OSTCBCur s"
  proof
    assume "OSTCBCur (OSTimeDly n s) = OSTCBCur s"
    then have "cur (OSTimeDly n s) = ?c" by (simp add: cur_def)
    then have "prio (OSTimeDly n s) ?c \<in> rdyset (OSTimeDly n s)"
      using running_ready [of "OSTimeDly n s"] safe task' by (simp add: kok_def)
    moreover have "prio (OSTimeDly n s) ?c = ?p" by (simp add: e upd_tcb_same)
    ultimately show False using rs by simp
  qed
qed

fun ticks :: "nat \<Rightarrow> os \<Rightarrow> os option" where
  "ticks 0 s = Some s"
| "ticks (Suc k) s = (case SysTick_Handler s of None \<Rightarrow> None | Some s' \<Rightarrow> ticks k s')"

lemma ticks_delayed:
  assumes "ksafe s" "tlist_ok s" "OSTickStepState s = OS_TICK_STEP_DIS" "OSIntNesting s < 255"
    and "delayed i d s" "k \<le> unat d"
  shows "\<exists>s'. ticks k s = Some s' \<and> ksafe s' \<and> delayed i (d - word_of_nat k) s' \<and> OSIntNesting s' = OSIntNesting s \<and>
    OSLockNesting s' = OSLockNesting s \<and> OSTCBPrio (tcb s' i) = OSTCBPrio (tcb s i)"
  using assms
proof (induction k arbitrary: s d)
  case (Suc k)
  have li: "live s i" using Suc.prems by (simp add: delayed_def)
  obtain s1 where r: "SysTick_Handler s = Some s1" "ksafe s1" "tlist_ok s1" "OSTickStepState s1 = OS_TICK_STEP_DIS"
    "OSIntNesting s1 = OSIntNesting s" "OSLockNesting s1 = OSLockNesting s" "OSTCBPrio (tcb s1 i) = OSTCBPrio (tcb s i)"
    using SysTick_ends [OF Suc.prems(1-4)] li by auto
  have d0: "d \<noteq> 0" using Suc.prems(6) by auto
  have d1: "delayed i (d - 1) s1" using delayed_tick [OF Suc.prems(1-5) d0 r(1)] .
  have "unat (d - 1) = unat d - 1" using d0 by (simp add: unat_sub_if_size) (metis Suc_leI unat_gt_0)
  then have le: "k \<le> unat (d - 1)" using Suc.prems(6) by simp
  show ?case using Suc.IH [OF r(2-4) _ d1 le] Suc.prems(4) r by (simp add: diff_diff_eq)
qed simp

section \<open>Properties\<close>

text \<open>
  C10. \<open>OSTimeTick\<close> walks the task list to its end and does what the tick must do, to each task but the idle one: a
  running delay is decremented; at zero a pending wait is turned into a timeout and the task is made
  ready unless it is suspended. The clock advances by one. The effect is relative to the state after
  the tick hook, which may post the timer semaphore.
\<close>

theorem tick_decrements_delays:
  assumes ok: "kok s" and tl: "tlist_ok s" and st: "OSTickStepState s = OS_TICK_STEP_DIS"
  shows "\<exists>s'. OSTimeTick s = Some s' \<and> kok s' \<and> tlist_ok s' \<and> OSTime s' = OSTime s + 1 \<and>
    (\<forall>i. live s i \<longrightarrow> tcb s' i =
       (if prio s i = 63 then tcb (OSTimeTickHook s) i else tick_tcb (tcb (OSTimeTickHook s) i))) \<and>
    rdyset s' = rdyset (OSTimeTickHook s) \<union>
      {prio s i |i. live s i \<and> prio s i \<noteq> 63 \<and> expires (tcb (OSTimeTickHook s) i)}"
  using OSTimeTick_ends [OF ok tl st] by blast

text \<open>
  C11. A task that calls \<open>OSTimeDly n\<close> gives up the processor, is not ready during the next n - 1 tick interrupts and is
  ready after exactly n of them; every tick interrupt returns and leaves the kernel well formed with the
  most urgent ready task running.
\<close>

theorem dly_lasts_exactly:
  assumes ok: "ksafe s" and tl: "tlist_ok s" and lev: "task_level s" and idle: "OSPrioCur s \<noteq> OS_TASK_IDLE_PRIO"
    and st: "OSTickStepState s = OS_TICK_STEP_DIS" and n: "0 < n" and k: "k \<le> unat n"
  shows "OSTCBCur (OSTimeDly n s) \<noteq> OSTCBCur s \<and>
    (\<exists>s'. ticks k (OSTimeDly n s) = Some s' \<and> ksafe s' \<and> (prio s (cur s) \<in> rdyset s' \<longleftrightarrow> k = unat n))"
proof -
  let ?s = "OSTimeDly n s"
  note d = OSTimeDly_delayed [OF ok lev idle n]
  have fr: "OSTickStepState ?s = OS_TICK_STEP_DIS" "OSIntNesting ?s = 0" "OSTCBPrio (tcb ?s (cur s)) = OSTCBPrio (tcb s (cur s))"
    using st lev n by (simp_all add: OSTimeDly_def task_level_def upd_tcb_same)
      (simp_all add: rdy_clear_def set_rdy_def upd_tcb_def)
  obtain s' where r: "ticks k ?s = Some s'" "ksafe s'" "delayed (cur s) (n - word_of_nat k) s'"
    and p: "OSTCBPrio (tcb s' (cur s)) = OSTCBPrio (tcb s (cur s))"
    using ticks_delayed [OF d(1) d(4) [OF tl] fr(1) _ d(2) k] fr by auto
  have "n - word_of_nat k = 0 \<longleftrightarrow> k = unat n"
  proof
    assume "n - word_of_nat k = 0"
    then have "n = word_of_nat k" by simp
    then have "unat n = k mod 2 ^ 32" by (simp add: unat_of_nat take_bit_nat_def)
    moreover have "unat n < 2 ^ 32" using unsigned_less [of n] by simp
    ultimately show "k = unat n" using k by simp
  qed simp
  moreover have "prio s' (cur s) \<in> rdyset s' \<longleftrightarrow> n - word_of_nat k = 0"
    using kinv_ready_iff [of s' "cur s"] r(2,3) by (simp add: delayed_def kok_def)
  ultimately show ?thesis using d(3) r p by auto
qed

text \<open>
  The tick count of \<open>OSTimeDlyHMSM\<close> never overflows 32 bits, whatever its arguments (argument checking is compiled
  out), and equals the delay in ticks of 5 ms with the milliseconds rounded to the nearest tick.
\<close>

theorem hmsm_exact:
  "unat (hmsm_ticks h m s ms) = (unat h * 3600 + unat m * 60 + unat s) * 200 + 200 * (unat ms + 2) div 1000"
proof -
  have u8: "unat (ucast x :: u32) = unat x" for x :: u8
    using unat_u8_lt [of x] by (simp add: unsigned_ucast_eq take_bit_nat_eq_self)
  have u16: "unat (ucast x :: u32) = unat x" for x :: u16
    using unat_u16_lt [of x] by (simp add: unsigned_ucast_eq take_bit_nat_eq_self)
  note bounds = unat_u8_lt [of h] unat_u8_lt [of m] unat_u8_lt [of s] unat_u16_lt [of ms]
  have a: "unat (200 * (ucast ms + 500 div 200) :: u32) = 200 * (unat ms + 2)"
    using bounds by (simp add: unat_word_ariths u16)
  have b: "unat ((ucast h * 3600 + ucast m * 60 + ucast s) * 200 :: u32) =
      (unat h * 3600 + unat m * 60 + unat s) * 200"
    using bounds by (simp add: unat_word_ariths u8)
  have c: "200 * (unat ms + 2) div 1000 \<le> 13108" using bounds by simp
  have "unat (hmsm_ticks h m s ms) =
      ((unat h * 3600 + unat m * 60 + unat s) * 200 + 200 * (unat ms + 2) div 1000) mod 2 ^ 32"
    unfolding hmsm_ticks_def unat_word_ariths(1) unat_div a b by simp
  then show ?thesis using bounds c by simp
qed

lemma dly_expire_safe:
  assumes ok: "ksafe s" and li: "live s i" and d: "OSTCBDly (tcb s i) \<noteq> 0"
  defines "s1 \<equiv> dly_expire i (upd_tcb i (\<lambda>t. t\<lparr>OSTCBDly := 0\<rparr>) s)"
  shows "kok s1" and "OSTCBStat (tcb s i) AND OS_STAT_SUSPEND \<noteq> 0 \<Longrightarrow> sched_ok s1"
proof -
  note ke = kinv_expire [OF kokD(1) li d, folded s1_def]
  have k: "kok s" and sch: "sched_ok s" using ok by auto
  have "evlist_ok s1" using kokD(2) [OF k] by (rule evlist_frame) (simp_all add: s1_def)
  moreover have "cur_ok s1" using kokD(3) [OF k] by (rule cur_ok_core) (simp_all add: s1_def upd_tcb_same)
  ultimately show "kok s1" using ke(1) k by (simp add: kok_def)
  show "sched_ok s1" if "OSTCBStat (tcb s i) AND OS_STAT_SUSPEND \<noteq> 0"
    using sch ke(2) [OF k] that by (simp add: sched_ok_def s1_def)
qed

lemma tlist_dly_resume: "tlist_ok s \<Longrightarrow> tlist_ok (snd (OSTimeDlyResume p s))"
proof -
  assume tl: "tlist_ok s"
  have "tlist_ok (dly_expire i (upd_tcb i (\<lambda>t. t\<lparr>OSTCBDly := 0\<rparr>) s))" for i
    using tl by (rule tlist_frame) (simp_all add: upd_tcb_same)
  then show ?thesis using tl by (simp add: OSTimeDlyResume_def Let_def split: tcb_slot.split)
qed

text \<open>
  \<open>OSTimeDlyResume\<close> keeps the kernel well formed with the most urgent ready task running. On a delayed
  task it ends the delay: a wait with a timeout becomes a timeout, and the task is ready at once unless it is
  suspended. On a task that is not delayed it reports that and changes nothing.
\<close>

theorem dly_resume_wakes:
  assumes ok: "ksafe s" and p: "p < 63" and i: "OSTCBPrioTbl s (unat p) = Tcb i"
  shows "ksafe (snd (OSTimeDlyResume p s)) \<and>
    (if OSTCBDly (tcb s i) = 0 then OSTimeDlyResume p s = (OS_ERR_TIME_NOT_DLY, s)
     else fst (OSTimeDlyResume p s) = OS_ERR_NONE \<and> OSTCBDly (tcb (snd (OSTimeDlyResume p s)) i) = 0 \<and>
       OSTCBStatPend (tcb (snd (OSTimeDlyResume p s)) i) =
         (if OSTCBStat (tcb s i) AND OS_STAT_PEND_ANY \<noteq> 0 then OS_STAT_PEND_TO else OS_STAT_PEND_OK) \<and>
       (prio s i \<in> rdyset (snd (OSTimeDlyResume p s)) \<longleftrightarrow> OSTCBStat (tcb s i) AND OS_STAT_SUSPEND = 0))"
proof (cases "OSTCBDly (tcb s i) = 0")
  case True
  then show ?thesis using ok p i by (simp add: OSTimeDlyResume_def not_le [symmetric])
next
  case False
  let ?s1 = "dly_expire i (upd_tcb i (\<lambda>t. t\<lparr>OSTCBDly := 0\<rparr>) s)"
  have inv: "kinv s" using ok by (simp add: kok_def)
  have li: "live s i" using kinv_slot [OF inv i] .
  note safe = dly_expire_safe [OF ok li False]
  have nr: "prio s i \<notin> rdyset s" using kinv_ready_iff [OF inv li] False by simp
  have st: "OSTCBStat (tcb ?s1 i) AND 8 = OSTCBStat (tcb s i) AND 8" by (simp add: upd_tcb_same and.assoc)
  have e: "OSTimeDlyResume p s = (OS_ERR_NONE, if OSTCBStat (tcb s i) AND 8 = 0 then OS_Sched ?s1 else ?s1)"
    using p i False st by (simp add: OSTimeDlyResume_def Let_def not_le [symmetric] del: dly_expire_frame)
  have "ksafe (snd (OSTimeDlyResume p s))" using safe kok_OS_Sched [OF safe(1)] by (simp add: e)
  moreover have "prio s i \<in> rdyset (snd (OSTimeDlyResume p s)) \<longleftrightarrow> OSTCBStat (tcb s i) AND OS_STAT_SUSPEND = 0"
    using kinv_expire(2) [OF inv li False] nr by (simp add: e)
  ultimately show ?thesis using False by (simp add: e upd_tcb_same expire_pend)
qed

text \<open>
  The scheduler lock: while it is held \<open>OS_Sched\<close> does nothing, and the matching \<open>OSSchedUnlock\<close> restores the nesting count
  and lets the most urgent ready task run. Both keep the kernel well formed.
\<close>

theorem sched_lock_nests:
  assumes ok: "ksafe s" and lev: "OSIntNesting s = 0" and n: "OSLockNesting s < 255"
  shows "ksafe (OSSchedLock s) \<and> OS_Sched (OSSchedLock s) = OSSchedLock s \<and>
    OSLockNesting (OSSchedUnlock (OSSchedLock s)) = OSLockNesting s \<and> ksafe (OSSchedUnlock (OSSchedLock s))"
proof -
  have run: "OSRunning s" using ok by (simp add: kok_def cur_ok_def)
  have l: "OSSchedLock s = s\<lparr>OSLockNesting := OSLockNesting s + 1\<rparr>" using run lev n by (simp add: OSSchedLock_def)
  note nz = u8_inc_nz [OF n]
  have "OSLockNesting (OSSchedUnlock (OSSchedLock s)) = OSLockNesting s"
    unfolding l using run lev nz by (simp add: OSSchedUnlock_def Let_def word_gt_0)
  moreover have "OS_Sched (OSSchedLock s) = OSSchedLock s" unfolding l using nz by (simp add: OS_Sched_def)
  ultimately show ?thesis using sched_lock_safe(1) [OF ok] sched_lock_safe(2) [OF sched_lock_safe(1) [OF ok]] by simp
qed

section \<open>Witnesses\<close>

lemma ex_tlist: "tlist_ok (ex_os ty cnt p w)"
proof -
  let ?s = "ex_os ty cnt p w"
  have "dchain (\<lambda>i. OSTCBNext (tcb ?s i)) (\<lambda>i. OSTCBPrev (tcb ?s i)) None (OSTCBList ?s) ([2, 1] @ [0])"
    by (simp add: ex_tcbs) (simp add: ex_os_def)
  moreover have "set ([2, 1] @ [0]) = {i. live ?s i}" by (auto simp: ex_live)
  moreover have "OSTCBPrio (tcb ?s 0) = OS_TASK_IDLE_PRIO" by (rule ex_fields)
  ultimately show ?thesis unfolding tlist_ok_def by (intro exI [of _ "[2, 1]"] exI [of _ 0] conjI)
qed

lemma ex_step: "OSTickStepState (ex_os ty cnt p w) = OS_TICK_STEP_DIS"
  by (simp add: ex_os_def os_bss_def)

theorem tick_decrements_delays_witness:
  "\<exists>s'. OSTimeTick (ex_os OS_EVENT_TYPE_SEM 0 PNull True) = Some s' \<and> OSTime s' = 1"
  using tick_decrements_delays [OF ex_safe(1) ex_tlist ex_step, of OS_EVENT_TYPE_SEM 0 PNull True]
  by (auto simp: stat_mask_def) (simp add: ex_os_def os_bss_def)

theorem dly_lasts_exactly_witness:
  "\<exists>s'. ticks 3 (OSTimeDly 3 (ex_os OS_EVENT_TYPE_SEM 0 PNull True)) = Some s' \<and> 5 \<in> rdyset s'"
  using dly_lasts_exactly [of "ex_os OS_EVENT_TYPE_SEM 0 PNull True" 3 3]
  by (auto simp: ex_facts ex_tlist ex_step stat_mask_def)

theorem dly_resume_wakes_witness:
  "OSTimeDlyResume 10 (ex_os OS_EVENT_TYPE_SEM 0 PNull True) = (OS_ERR_TIME_NOT_DLY, ex_os OS_EVENT_TYPE_SEM 0 PNull True)"
  using dly_resume_wakes [of "ex_os OS_EVENT_TYPE_SEM 0 PNull True" 10 2]
  by (simp add: ex_facts ex_tcbs stat_mask_def) (simp add: ex_os_def)

theorem sched_lock_nests_witness:
  "OSLockNesting (OSSchedUnlock (OSSchedLock (ex_os OS_EVENT_TYPE_SEM 0 PNull True))) = 0"
  using sched_lock_nests [of "ex_os OS_EVENT_TYPE_SEM 0 PNull True"] by (simp add: ex_facts stat_mask_def)

end
