(* ===== verification/FreePool.thy ===== *)
theory FreePool
  imports Prelude
begin

text \<open>
  The interface of a pool of identical objects kept in a linked free list: memory blocks, event flag
  groups and timers are handed out from one end of such a list and given back to the same end.
  \<open>repr s bs\<close> says that the pool in state \<open>s\<close> holds the free objects \<open>bs\<close> in this order, \<open>own s bs\<close> that an object
  may be given back to it.
\<close>

fun takes :: "('s \<Rightarrow> 'b option \<times> 's) \<Rightarrow> nat \<Rightarrow> 's \<Rightarrow> 'b list \<times> 's" where
  "takes tk 0 s = ([], s)"
| "takes tk (Suc n) s =
    (case tk s of (None, s') \<Rightarrow> ([], s')
     | (Some b, s') \<Rightarrow> (case takes tk n s' of (bs, s'') \<Rightarrow> (b # bs, s'')))"

locale free_pool =
  fixes tk :: "'s \<Rightarrow> 'b option \<times> 's" and gv :: "'b \<Rightarrow> 's \<Rightarrow> 's"
    and repr :: "'s \<Rightarrow> 'b list \<Rightarrow> bool" and own :: "'s \<Rightarrow> 'b list \<Rightarrow> 'b set"
  assumes take_empty: "repr s [] \<Longrightarrow> tk s = (None, s)"
    and take_cons: "repr s (b # bs) \<Longrightarrow> \<exists>s'. tk s = (Some b, s') \<and> repr s' bs"
    and give_cons: "repr s bs \<Longrightarrow> b \<notin> set bs \<Longrightarrow> b \<in> own s bs \<Longrightarrow> repr (gv b s) (b # bs)"
    and repr_distinct: "repr s bs \<Longrightarrow> distinct bs"
begin

text \<open>Objects handed out one after another are distinct and no longer free.\<close>

lemma takes_prefix:
  "repr s bs \<Longrightarrow> n \<le> length bs \<Longrightarrow> fst (takes tk n s) = take n bs \<and> repr (snd (takes tk n s)) (drop n bs)"
proof (induction n arbitrary: s bs)
  case (Suc n)
  then obtain b cs where bs: "bs = b # cs" by (cases bs) auto
  with Suc.prems obtain s' where t: "tk s = (Some b, s')" and r: "repr s' cs" using take_cons by blast
  from Suc.IH [OF r] Suc.prems bs t show ?case by (auto split: prod.split)
qed simp

lemma takes_distinct:
  assumes "repr s bs" "n \<le> length bs"
  shows "distinct (fst (takes tk n s))"
  using takes_prefix [OF assms] repr_distinct [OF assms(1)] by (simp add: distinct_take)

text \<open>What is taken and given back at once is the next to be taken.\<close>

lemma take_give:
  assumes "repr s bs" "tk s = (Some b, s')" "\<And>cs. bs = b # cs \<Longrightarrow> b \<in> own s' cs"
  shows "repr (gv b s') bs"
proof -
  obtain cs where bs: "bs = b # cs" and r: "repr s' cs"
    using assms(1,2) take_empty take_cons by (cases bs) (auto, fastforce)
  then show ?thesis using give_cons [OF r] repr_distinct [OF assms(1)] assms(3) by simp
qed

end

end
