(* ===== verification/OsTmr.thy ===== *)
theory OsTmr
  imports OsTime FreePool
begin

text \<open>
  Software timers, demo/UCOSII/CORE/os_tmr.c: a pool of 16 timers with a free list, and a wheel of 8 doubly
  linked spokes, in which a running timer stands on the spoke of its expiry time. The
  callback functions belong to the application: they are the parameter \<open>cb\<close>, which takes the function, the
  timer, its argument and the state of the kernel beside the memory of the application.
\<close>

abbreviation (input) "OS_TMR_CFG_MAX \<equiv> 16 :: nat"
abbreviation (input) "OS_TMR_CFG_WHEEL_SIZE \<equiv> 8 :: u32"
abbreviation (input) "OS_TMR_TYPE \<equiv> 100 :: u8"
abbreviation (input) "OS_TMR_LINK_DLY \<equiv> 0 :: u8"
abbreviation (input) "OS_TMR_LINK_PERIODIC \<equiv> 1 :: u8"
abbreviation (input) "OS_TMR_STATE_UNUSED \<equiv> 0 :: u8"
abbreviation (input) "OS_TMR_STATE_STOPPED \<equiv> 1 :: u8"
abbreviation (input) "OS_TMR_STATE_COMPLETED \<equiv> 2 :: u8"
abbreviation (input) "OS_TMR_STATE_RUNNING \<equiv> 3 :: u8"
abbreviation (input) "OS_TMR_OPT_NONE \<equiv> 0 :: u8"
abbreviation (input) "OS_TMR_OPT_ONE_SHOT \<equiv> 1 :: u8"
abbreviation (input) "OS_TMR_OPT_PERIODIC \<equiv> 2 :: u8"
abbreviation (input) "OS_TMR_OPT_CALLBACK \<equiv> 3 :: u8"
abbreviation (input) "OS_TMR_OPT_CALLBACK_ARG \<equiv> 4 :: u8"
abbreviation (input) "OS_ERR_TMR_INVALID_OPT \<equiv> 132 :: u8"
abbreviation (input) "OS_ERR_TMR_NON_AVAIL \<equiv> 134 :: u8"
abbreviation (input) "OS_ERR_TMR_INACTIVE \<equiv> 135 :: u8"
abbreviation (input) "OS_ERR_TMR_INVALID_TYPE \<equiv> 137 :: u8"
abbreviation (input) "OS_ERR_TMR_ISR \<equiv> 139 :: u8"
abbreviation (input) "OS_ERR_TMR_INVALID_STATE \<equiv> 141 :: u8"
abbreviation (input) "OS_ERR_TMR_STOPPED \<equiv> 142 :: u8"
abbreviation (input) "OS_ERR_TMR_NO_CALLBACK \<equiv> 143 :: u8"

type_synonym 'w callback = "nat \<Rightarrow> nat \<Rightarrow> ptr \<Rightarrow> os \<times> 'w \<Rightarrow> os \<times> 'w"

section \<open>Operations\<close>

abbreviation tmr :: "os \<Rightarrow> nat \<Rightarrow> os_tmr" where "tmr s i \<equiv> OSTmrTbl s i"

definition upd_tmr :: "nat \<Rightarrow> (os_tmr \<Rightarrow> os_tmr) \<Rightarrow> os \<Rightarrow> os" where
  "upd_tmr i f s = s\<lparr>OSTmrTbl := (OSTmrTbl s)(i := f (OSTmrTbl s i))\<rparr>"

definition upd_spoke :: "nat \<Rightarrow> (os_tmr_wheel \<Rightarrow> os_tmr_wheel) \<Rightarrow> os \<Rightarrow> os" where
  "upd_spoke k f s = s\<lparr>OSTmrWheelTbl := (OSTmrWheelTbl s)(k := f (OSTmrWheelTbl s k))\<rparr>"

definition spoke_of :: "u32 \<Rightarrow> nat" where
  "spoke_of t = unat (ucast (t mod OS_TMR_CFG_WHEEL_SIZE) :: u16)"

subsection \<open>The pool and the wheel\<close>

definition OSTmr_Alloc :: "os \<Rightarrow> nat option \<times> os" where
  "OSTmr_Alloc s =
    (case OSTmrFreeList s of
       None \<Rightarrow> (None, s)
     | Some i \<Rightarrow>
         let s1 = s\<lparr>OSTmrFreeList := OSTmrNext (tmr s i)\<rparr>;
             s2 = upd_tmr i (\<lambda>t. t\<lparr>OSTmrNext := None, OSTmrPrev := None\<rparr>) s1
         in (Some i, s2\<lparr>OSTmrUsed := OSTmrUsed s2 + 1, OSTmrFree := OSTmrFree s2 - 1\<rparr>))"

definition OSTmr_Free :: "nat \<Rightarrow> os \<Rightarrow> os" where
  "OSTmr_Free i s =
    (let s1 = upd_tmr i (\<lambda>t. t\<lparr>OSTmrState := OS_TMR_STATE_UNUSED, OSTmrOpt := OS_TMR_OPT_NONE, OSTmrPeriod := 0,
                OSTmrMatch := 0, OSTmrCallback := None, OSTmrCallbackArg := PNull, OSTmrName := ''?'',
                OSTmrPrev := None, OSTmrNext := OSTmrFreeList s\<rparr>) s;
         s2 = s1\<lparr>OSTmrFreeList := Some i\<rparr>
     in s2\<lparr>OSTmrUsed := OSTmrUsed s2 - 1, OSTmrFree := OSTmrFree s2 + 1\<rparr>)"

text \<open>The expiry time \<open>OSTmr_Link\<close> computes.\<close>

definition link_match :: "u8 \<Rightarrow> os_tmr \<Rightarrow> u32 \<Rightarrow> u32" where
  "link_match kind t now =
    (if kind = OS_TMR_LINK_PERIODIC then OSTmrPeriod t + now else if OSTmrDly t = 0 then OSTmrPeriod t + now else OSTmrDly t + now)"

definition OSTmr_Link :: "nat \<Rightarrow> u8 \<Rightarrow> os \<Rightarrow> os" where
  "OSTmr_Link i kind s =
    (let m = link_match kind (tmr s i) (OSTmrTime s);
         s2 = upd_tmr i (\<lambda>t. t\<lparr>OSTmrState := OS_TMR_STATE_RUNNING, OSTmrMatch := m\<rparr>) s;
         k = spoke_of m;
         s3 = (case OSTmrFirst (OSTmrWheelTbl s2 k) of
                 None \<Rightarrow> upd_spoke k (\<lambda>w. w\<lparr>OSTmrEntries := 1\<rparr>)
                   (upd_tmr i (\<lambda>t. t\<lparr>OSTmrNext := None\<rparr>) (upd_spoke k (\<lambda>w. w\<lparr>OSTmrFirst := Some i\<rparr>) s2))
               | Some j \<Rightarrow> upd_spoke k (\<lambda>w. w\<lparr>OSTmrEntries := OSTmrEntries w + 1\<rparr>)
                   (upd_tmr j (\<lambda>t. t\<lparr>OSTmrPrev := Some i\<rparr>)
                     (upd_tmr i (\<lambda>t. t\<lparr>OSTmrNext := Some j\<rparr>) (upd_spoke k (\<lambda>w. w\<lparr>OSTmrFirst := Some i\<rparr>) s2))))
     in upd_tmr i (\<lambda>t. t\<lparr>OSTmrPrev := None\<rparr>) s3)"

text \<open>The back pointer is dereferenced without a test; on a well-formed wheel it is not null there.\<close>

definition OSTmr_Unlink :: "nat \<Rightarrow> os \<Rightarrow> os" where
  "OSTmr_Unlink i s =
    (let k = spoke_of (OSTmrMatch (tmr s i));
         s1 = (if OSTmrFirst (OSTmrWheelTbl s k) = Some i then
                 let p1 = OSTmrNext (tmr s i);
                     s2 = upd_spoke k (\<lambda>w. w\<lparr>OSTmrFirst := p1\<rparr>) s
                 in case p1 of None \<Rightarrow> s2 | Some j \<Rightarrow> upd_tmr j (\<lambda>t. t\<lparr>OSTmrPrev := None\<rparr>) s2
               else
                 let p1 = the (OSTmrPrev (tmr s i)); p2 = OSTmrNext (tmr s i);
                     s2 = upd_tmr p1 (\<lambda>t. t\<lparr>OSTmrNext := p2\<rparr>) s
                 in case p2 of None \<Rightarrow> s2 | Some j \<Rightarrow> upd_tmr j (\<lambda>t. t\<lparr>OSTmrPrev := Some p1\<rparr>) s2);
         s3 = upd_tmr i (\<lambda>t. t\<lparr>OSTmrState := OS_TMR_STATE_STOPPED, OSTmrNext := None, OSTmrPrev := None\<rparr>) s1
     in upd_spoke k (\<lambda>w. w\<lparr>OSTmrEntries := OSTmrEntries w - 1\<rparr>) s3)"

subsection \<open>The services\<close>

definition OSTmrCreate ::
  "u32 \<Rightarrow> u32 \<Rightarrow> u8 \<Rightarrow> nat option \<Rightarrow> ptr \<Rightarrow> string \<Rightarrow> os \<Rightarrow> nat option \<times> u8 \<times> os" where
  "OSTmrCreate dly period opt callback arg pname s =
    (if 0 < OSIntNesting s then (None, OS_ERR_TMR_ISR, s)
     else case OSTmr_Alloc (OSSchedLock s) of
            (None, s1) \<Rightarrow> (None, OS_ERR_TMR_NON_AVAIL, OSSchedUnlock s1)
          | (Some i, s1) \<Rightarrow>
              let s2 = upd_tmr i (\<lambda>t. t\<lparr>OSTmrState := OS_TMR_STATE_STOPPED, OSTmrDly := dly, OSTmrPeriod := period,
                         OSTmrOpt := opt, OSTmrCallback := callback, OSTmrCallbackArg := arg, OSTmrName := pname\<rparr>) s1
              in (Some i, OS_ERR_NONE, OSSchedUnlock s2))"

definition OSTmrDel :: "nat \<Rightarrow> os \<Rightarrow> bool \<times> u8 \<times> os" where
  "OSTmrDel i s =
    (if OSTmrType (tmr s i) \<noteq> OS_TMR_TYPE then (False, OS_ERR_TMR_INVALID_TYPE, s)
     else if 0 < OSIntNesting s then (False, OS_ERR_TMR_ISR, s)
     else let s1 = OSSchedLock s; st = OSTmrState (tmr s1 i) in
       if st = OS_TMR_STATE_RUNNING then (True, OS_ERR_NONE, OSSchedUnlock (OSTmr_Free i (OSTmr_Unlink i s1)))
       else if st = OS_TMR_STATE_STOPPED \<or> st = OS_TMR_STATE_COMPLETED
         then (True, OS_ERR_NONE, OSSchedUnlock (OSTmr_Free i s1))
       else if st = OS_TMR_STATE_UNUSED then (False, OS_ERR_TMR_INACTIVE, OSSchedUnlock s1)
       else (False, OS_ERR_TMR_INVALID_STATE, OSSchedUnlock s1))"

definition OSTmrNameGet :: "nat \<Rightarrow> os \<Rightarrow> u8 \<times> string option \<times> u8 \<times> os" where
  "OSTmrNameGet i s =
    (if OSTmrType (tmr s i) \<noteq> OS_TMR_TYPE then (0, None, OS_ERR_TMR_INVALID_TYPE, s)
     else if 0 < OSIntNesting s then (0, None, OS_ERR_NAME_GET_ISR, s)
     else let s1 = OSSchedLock s; st = OSTmrState (tmr s1 i) in
       if st \<in> {OS_TMR_STATE_RUNNING, OS_TMR_STATE_STOPPED, OS_TMR_STATE_COMPLETED}
         then (OS_StrLen (OSTmrName (tmr s1 i)), Some (OSTmrName (tmr s1 i)), OS_ERR_NONE, OSSchedUnlock s1)
       else if st = OS_TMR_STATE_UNUSED then (0, None, OS_ERR_TMR_INACTIVE, OSSchedUnlock s1)
       else (0, None, OS_ERR_TMR_INVALID_STATE, OSSchedUnlock s1))"

definition OSTmrRemainGet :: "nat \<Rightarrow> os \<Rightarrow> u32 \<times> u8 \<times> os" where
  "OSTmrRemainGet i s =
    (if OSTmrType (tmr s i) \<noteq> OS_TMR_TYPE then (0, OS_ERR_TMR_INVALID_TYPE, s)
     else if 0 < OSIntNesting s then (0, OS_ERR_TMR_ISR, s)
     else let s1 = OSSchedLock s; t = tmr s1 i; st = OSTmrState t in
       if st = OS_TMR_STATE_RUNNING then (OSTmrMatch t - OSTmrTime s1, OS_ERR_NONE, OSSchedUnlock s1)
       else if st = OS_TMR_STATE_STOPPED
         then (if OSTmrOpt t = OS_TMR_OPT_PERIODIC then (if OSTmrDly t = 0 then OSTmrPeriod t else OSTmrDly t)
               else OSTmrDly t, OS_ERR_NONE, OSSchedUnlock s1)
       else if st = OS_TMR_STATE_COMPLETED then (0, OS_ERR_NONE, OSSchedUnlock s1)
       else if st = OS_TMR_STATE_UNUSED then (0, OS_ERR_TMR_INACTIVE, OSSchedUnlock s1)
       else (0, OS_ERR_TMR_INVALID_STATE, OSSchedUnlock s1))"

definition OSTmrStateGet :: "nat \<Rightarrow> os \<Rightarrow> u8 \<times> u8 \<times> os" where
  "OSTmrStateGet i s =
    (if OSTmrType (tmr s i) \<noteq> OS_TMR_TYPE then (0, OS_ERR_TMR_INVALID_TYPE, s)
     else if 0 < OSIntNesting s then (0, OS_ERR_TMR_ISR, s)
     else let s1 = OSSchedLock s; st = OSTmrState (tmr s1 i) in
       (st, if st \<in> {OS_TMR_STATE_UNUSED, OS_TMR_STATE_STOPPED, OS_TMR_STATE_COMPLETED, OS_TMR_STATE_RUNNING}
            then OS_ERR_NONE else OS_ERR_TMR_INVALID_STATE, OSSchedUnlock s1))"

definition OSTmrStart :: "nat \<Rightarrow> os \<Rightarrow> bool \<times> u8 \<times> os" where
  "OSTmrStart i s =
    (if OSTmrType (tmr s i) \<noteq> OS_TMR_TYPE then (False, OS_ERR_TMR_INVALID_TYPE, s)
     else if 0 < OSIntNesting s then (False, OS_ERR_TMR_ISR, s)
     else let s1 = OSSchedLock s; st = OSTmrState (tmr s1 i) in
       if st = OS_TMR_STATE_RUNNING
         then (True, OS_ERR_NONE, OSSchedUnlock (OSTmr_Link i OS_TMR_LINK_DLY (OSTmr_Unlink i s1)))
       else if st = OS_TMR_STATE_STOPPED \<or> st = OS_TMR_STATE_COMPLETED
         then (True, OS_ERR_NONE, OSSchedUnlock (OSTmr_Link i OS_TMR_LINK_DLY s1))
       else if st = OS_TMR_STATE_UNUSED then (False, OS_ERR_TMR_INACTIVE, OSSchedUnlock s1)
       else (False, OS_ERR_TMR_INVALID_STATE, OSSchedUnlock s1))"

definition OSTmrStop :: "'w callback \<Rightarrow> nat \<Rightarrow> u8 \<Rightarrow> ptr \<Rightarrow> os \<times> 'w \<Rightarrow> bool \<times> u8 \<times> (os \<times> 'w)" where
  "OSTmrStop cb i opt arg = (\<lambda>(s, w).
    (if OSTmrType (tmr s i) \<noteq> OS_TMR_TYPE then (False, OS_ERR_TMR_INVALID_TYPE, s, w)
     else if 0 < OSIntNesting s then (False, OS_ERR_TMR_ISR, s, w)
     else let s1 = OSSchedLock s; st = OSTmrState (tmr s1 i) in
       if st = OS_TMR_STATE_RUNNING then
         let s2 = OSTmr_Unlink i s1;
             (err, s3, w3) =
               (if opt = OS_TMR_OPT_CALLBACK then
                  case OSTmrCallback (tmr s2 i) of
                    None \<Rightarrow> (OS_ERR_TMR_NO_CALLBACK, s2, w)
                  | Some f \<Rightarrow> (OS_ERR_NONE, cb f i (OSTmrCallbackArg (tmr s2 i)) (s2, w))
                else if opt = OS_TMR_OPT_CALLBACK_ARG then
                  case OSTmrCallback (tmr s2 i) of
                    None \<Rightarrow> (OS_ERR_TMR_NO_CALLBACK, s2, w)
                  | Some f \<Rightarrow> (OS_ERR_NONE, cb f i arg (s2, w))
                else if opt = OS_TMR_OPT_NONE then (OS_ERR_NONE, s2, w)
                else (OS_ERR_TMR_INVALID_OPT, s2, w))
         in (True, err, OSSchedUnlock s3, w3)
       else if st = OS_TMR_STATE_COMPLETED \<or> st = OS_TMR_STATE_STOPPED then (True, OS_ERR_TMR_STOPPED, OSSchedUnlock s1, w)
       else if st = OS_TMR_STATE_UNUSED then (False, OS_ERR_TMR_INACTIVE, OSSchedUnlock s1, w)
       else (False, OS_ERR_TMR_INVALID_STATE, OSSchedUnlock s1, w)))"

subsection \<open>The timer task\<close>

text \<open>What \<open>OSTmr_Task\<close> does with a timer that is due, before its callback.\<close>

definition tmr_fire :: "nat \<Rightarrow> os \<Rightarrow> os" where
  "tmr_fire i s =
    (let s1 = OSTmr_Unlink i s
     in if OSTmrOpt (tmr s1 i) = OS_TMR_OPT_PERIODIC then OSTmr_Link i OS_TMR_LINK_PERIODIC s1
        else upd_tmr i (\<lambda>t. t\<lparr>OSTmrState := OS_TMR_STATE_COMPLETED\<rparr>) s1)"

text \<open>A timer of the current spoke.\<close>

definition tmr_visit :: "'w callback \<Rightarrow> nat \<Rightarrow> os \<times> 'w \<Rightarrow> os \<times> 'w" where
  "tmr_visit cb i = (\<lambda>(s, w).
    (if OSTmrTime s = OSTmrMatch (tmr s i) then
       let s1 = tmr_fire i s
       in case OSTmrCallback (tmr s1 i) of None \<Rightarrow> (s1, w) | Some f \<Rightarrow> cb f i (OSTmrCallbackArg (tmr s1 i)) (s1, w)
     else (s, w)))"

partial_function (option) tmr_loop :: "'w callback \<Rightarrow> nat option \<Rightarrow> os \<times> 'w \<Rightarrow> (os \<times> 'w) option" where
  "tmr_loop cb p x =
    (case p of None \<Rightarrow> Some x
     | Some i \<Rightarrow> tmr_loop cb (OSTmrNext (tmr (fst x) i)) (tmr_visit cb i x))"

text \<open>One turn of the loop of \<open>OSTmr_Task\<close>, from the return of \<open>OSSemPend(OSTmrSemSignal, 0, &err)\<close> to the next call of it.\<close>

definition OSTmr_Task :: "'w callback \<Rightarrow> os \<times> 'w \<Rightarrow> (os \<times> 'w) option" where
  "OSTmr_Task cb = (\<lambda>(s, w).
    (let s1 = OSSchedLock s; s2 = s1\<lparr>OSTmrTime := OSTmrTime s1 + 1\<rparr>
     in case tmr_loop cb (OSTmrFirst (OSTmrWheelTbl s2 (spoke_of (OSTmrTime s2)))) (s2, w) of
          None \<Rightarrow> None
        | Some (s3, w3) \<Rightarrow> Some (OSSchedUnlock s3, w3)))"

subsection \<open>The tables\<close>

text \<open>The part of \<open>OSTmr_Init\<close> that sets up the pool and the wheel.\<close>

definition tmr_tables :: "os \<Rightarrow> os" where
  "tmr_tables s =
    (let t = fold (\<lambda>ix t. t(ix := (t ix)\<lparr>OSTmrType := OS_TMR_TYPE, OSTmrState := OS_TMR_STATE_UNUSED, OSTmrNext := Some (ix + 1),
                 OSTmrName := ''?''\<rparr>)) [0..<OS_TMR_CFG_MAX - 1] (\<lambda>_. tmr_zero)
     in s\<lparr>OSTmrTbl := t(OS_TMR_CFG_MAX - 1 := (t (OS_TMR_CFG_MAX - 1))\<lparr>OSTmrType := OS_TMR_TYPE,
            OSTmrState := OS_TMR_STATE_UNUSED, OSTmrNext := None, OSTmrName := ''?''\<rparr>),
          OSTmrWheelTbl := (\<lambda>_. \<lparr>OSTmrFirst = None, OSTmrEntries = 0\<rparr>),
          OSTmrTime := 0, OSTmrUsed := 0, OSTmrFree := 16, OSTmrFreeList := Some 0\<rparr>)"

section \<open>The timer part of the state\<close>

definition nxt :: "os \<Rightarrow> nat \<Rightarrow> nat option" where "nxt s i = OSTmrNext (tmr s i)"
definition prv :: "os \<Rightarrow> nat \<Rightarrow> nat option" where "prv s i = OSTmrPrev (tmr s i)"

text \<open>A timer without its links.\<close>

definition core :: "os_tmr \<Rightarrow> os_tmr" where "core t = t\<lparr>OSTmrNext := None, OSTmrPrev := None\<rparr>"

definition tmr_part :: "os \<Rightarrow> (nat \<Rightarrow> os_tmr) \<times> (nat \<Rightarrow> os_tmr_wheel) \<times> nat option \<times> u16 \<times> u16 \<times> u32" where
  "tmr_part s = (OSTmrTbl s, OSTmrWheelTbl s, OSTmrFreeList s, OSTmrUsed s, OSTmrFree s, OSTmrTime s)"

lemma tmr_partD:
  assumes "tmr_part s' = tmr_part s"
  shows "OSTmrTbl s' = OSTmrTbl s" "OSTmrWheelTbl s' = OSTmrWheelTbl s" "OSTmrFreeList s' = OSTmrFreeList s"
    "OSTmrUsed s' = OSTmrUsed s" "OSTmrFree s' = OSTmrFree s" "OSTmrTime s' = OSTmrTime s"
  using assms by (simp_all add: tmr_part_def)

lemma tmr_part_sched [simp]:
  "tmr_part (OS_Sched s) = tmr_part s" "tmr_part (OSSchedLock s) = tmr_part s" "tmr_part (OSSchedUnlock s) = tmr_part s"
  by (simp_all add: tmr_part_def OS_Sched_def os_switch_def OS_SchedNew_def OSPendSV_def upd_tcb_def Let_def
      OSSchedLock_def OSSchedUnlock_def)

lemmas sched_tmr [simp] = tmr_partD [OF tmr_part_sched(2)] tmr_partD [OF tmr_part_sched(3)]

lemma core_fields [simp]:
  "OSTmrState (core t) = OSTmrState t" "OSTmrMatch (core t) = OSTmrMatch t" "OSTmrType (core t) = OSTmrType t"
  "OSTmrOpt (core t) = OSTmrOpt t" "OSTmrPeriod (core t) = OSTmrPeriod t" "OSTmrDly (core t) = OSTmrDly t"
  "OSTmrCallback (core t) = OSTmrCallback t" "OSTmrCallbackArg (core t) = OSTmrCallbackArg t"
  by (simp_all add: core_def)

lemma core_eqD:
  assumes "core t = core u"
  shows "OSTmrState t = OSTmrState u" "OSTmrMatch t = OSTmrMatch u" "OSTmrType t = OSTmrType u"
    "OSTmrOpt t = OSTmrOpt u" "OSTmrPeriod t = OSTmrPeriod u" "OSTmrDly t = OSTmrDly u"
    "OSTmrCallback t = OSTmrCallback u" "OSTmrCallbackArg t = OSTmrCallbackArg u"
  using assms core_fields by metis+

lemma spoke_of_mod: "spoke_of t = unat t mod 8" and spoke_of_less [simp]: "spoke_of t < 8"
proof -
  have u: "unat (t mod 8) = unat t mod 8" by (simp add: unat_mod)
  then have "unat (t mod 8) < 8" by simp
  then have "unat (ucast (t mod 8) :: u16) = unat (t mod 8)"
    by (simp add: unsigned_ucast_eq unsigned_take_bit_eq take_bit_nat_eq_self)
  then show *: "spoke_of t = unat t mod 8" using u by (simp add: spoke_of_def)
  then show "spoke_of t < 8" by simp
qed

lemma link_eqs:
  fixes i kind s
  defines "m \<equiv> link_match kind (tmr s i) (OSTmrTime s)"
  defines "F \<equiv> OSTmrFirst (OSTmrWheelTbl s (spoke_of m))" and "s' \<equiv> OSTmr_Link i kind s"
  assumes ne: "F \<noteq> Some i"
  shows "nxt s' = (nxt s)(i := F)"
    and "prv s' = (case F of None \<Rightarrow> prv s | Some j \<Rightarrow> (prv s)(j := Some i))(i := None)"
    and "core (tmr s' j) = (if j = i then core ((tmr s i)\<lparr>OSTmrState := OS_TMR_STATE_RUNNING, OSTmrMatch := m\<rparr>) else core (tmr s j))"
    and "OSTmrWheelTbl s' = (OSTmrWheelTbl s)(spoke_of m :=
      \<lparr>OSTmrFirst = Some i, OSTmrEntries = (case F of None \<Rightarrow> 1 | Some _ \<Rightarrow> OSTmrEntries (OSTmrWheelTbl s (spoke_of m)) + 1)\<rparr>)"
    and "OSTmrFreeList s' = OSTmrFreeList s" "OSTmrUsed s' = OSTmrUsed s" "OSTmrFree s' = OSTmrFree s" "OSTmrTime s' = OSTmrTime s"
proof -
  show "nxt s' = (nxt s)(i := F)"
    and "prv s' = (case F of None \<Rightarrow> prv s | Some j \<Rightarrow> (prv s)(j := Some i))(i := None)"
    and "core (tmr s' j) = (if j = i then core ((tmr s i)\<lparr>OSTmrState := OS_TMR_STATE_RUNNING, OSTmrMatch := m\<rparr>) else core (tmr s j))"
    and "OSTmrWheelTbl s' = (OSTmrWheelTbl s)(spoke_of m :=
      \<lparr>OSTmrFirst = Some i, OSTmrEntries = (case F of None \<Rightarrow> 1 | Some _ \<Rightarrow> OSTmrEntries (OSTmrWheelTbl s (spoke_of m)) + 1)\<rparr>)"
    and "OSTmrFreeList s' = OSTmrFreeList s" "OSTmrUsed s' = OSTmrUsed s" "OSTmrFree s' = OSTmrFree s" "OSTmrTime s' = OSTmrTime s"
    unfolding s'_def OSTmr_Link_def m_def [symmetric] Let_def using ne
    by (cases F; simp add: F_def upd_tmr_def upd_spoke_def fun_eq_iff nxt_def prv_def core_def; fail)+
qed

lemma unlink_eqs:
  fixes i s
  defines "k \<equiv> spoke_of (OSTmrMatch (tmr s i))" and "s' \<equiv> OSTmr_Unlink i s"
  assumes d: "dchain (nxt s) (prv s) None (OSTmrFirst (OSTmrWheelTbl s k)) (us @ i # vs)"
  shows "nxt s' = (if us = [] then nxt s else (nxt s)(last us := nxt s i))(i := None)"
    and "prv s' = (if vs = [] then prv s else (prv s)(hd vs := if us = [] then None else Some (last us)))(i := None)"
    and "core (tmr s' j) = (if j = i then core ((tmr s i)\<lparr>OSTmrState := OS_TMR_STATE_STOPPED\<rparr>) else core (tmr s j))"
    and "OSTmrWheelTbl s' = (OSTmrWheelTbl s)(k := \<lparr>OSTmrFirst = (if us = [] then nxt s i else OSTmrFirst (OSTmrWheelTbl s k)),
           OSTmrEntries = OSTmrEntries (OSTmrWheelTbl s k) - 1\<rparr>)"
    and "OSTmrFreeList s' = OSTmrFreeList s" "OSTmrUsed s' = OSTmrUsed s" "OSTmrFree s' = OSTmrFree s" "OSTmrTime s' = OSTmrTime s"
proof -
  note e = dchain_ends [OF d]
  have dis: "distinct (us @ i # vs)" using d by (rule dchain_distinct)
  have f: "OSTmrFirst (OSTmrWheelTbl s k) = Some i \<longleftrightarrow> us = []" using e(3) dis by (cases us) auto
  have n: "OSTmrNext (tmr s i) = (if vs = [] then None else Some (hd vs))" using e(2) by (simp add: nxt_def)
  have p: "us \<noteq> [] \<Longrightarrow> OSTmrPrev (tmr s i) = Some (last us)" using e(1) by (simp add: prv_def)
  have q: "us \<noteq> [] \<Longrightarrow> last us \<noteq> i" "vs \<noteq> [] \<Longrightarrow> hd vs \<noteq> i" "us \<noteq> [] \<Longrightarrow> vs \<noteq> [] \<Longrightarrow> hd vs \<noteq> last us"
    using dis last_in_set [of us] hd_in_set [of vs] by (auto, metis IntI empty_iff hd_in_set last_in_set)
  show "nxt s' = (if us = [] then nxt s else (nxt s)(last us := nxt s i))(i := None)"
    and "prv s' = (if vs = [] then prv s else (prv s)(hd vs := if us = [] then None else Some (last us)))(i := None)"
    and "core (tmr s' j) = (if j = i then core ((tmr s i)\<lparr>OSTmrState := OS_TMR_STATE_STOPPED\<rparr>) else core (tmr s j))"
    and "OSTmrWheelTbl s' = (OSTmrWheelTbl s)(k := \<lparr>OSTmrFirst = (if us = [] then nxt s i else OSTmrFirst (OSTmrWheelTbl s k)),
           OSTmrEntries = OSTmrEntries (OSTmrWheelTbl s k) - 1\<rparr>)"
    and "OSTmrFreeList s' = OSTmrFreeList s" "OSTmrUsed s' = OSTmrUsed s" "OSTmrFree s' = OSTmrFree s" "OSTmrTime s' = OSTmrTime s"
    unfolding s'_def OSTmr_Unlink_def k_def [symmetric] Let_def f n using p q
    by (auto simp: upd_tmr_def upd_spoke_def fun_eq_iff nxt_def prv_def core_def n)
qed

section \<open>The invariant of the timers\<close>

definition running :: "os \<Rightarrow> nat \<Rightarrow> nat set" where
  "running s k = {i. i < OS_TMR_CFG_MAX \<and> OSTmrState (tmr s i) = OS_TMR_STATE_RUNNING \<and> spoke_of (OSTmrMatch (tmr s i)) = k}"

definition tmr_pool :: "os \<Rightarrow> nat list \<Rightarrow> bool" where
  "tmr_pool s fs \<longleftrightarrow> chain (nxt s) (OSTmrFreeList s) fs \<and> set fs \<subseteq> {..<OS_TMR_CFG_MAX} \<and>
     unat (OSTmrFree s) = length fs \<and> unat (OSTmrUsed s) + length fs = OS_TMR_CFG_MAX"

definition spoke_ok :: "os \<Rightarrow> nat \<Rightarrow> nat list \<Rightarrow> bool" where
  "spoke_ok s k xs \<longleftrightarrow> dchain (nxt s) (prv s) None (OSTmrFirst (OSTmrWheelTbl s k)) xs \<and> set xs = running s k \<and>
     unat (OSTmrEntries (OSTmrWheelTbl s k)) = length xs"

definition tmr_inv :: "os \<Rightarrow> bool" where
  "tmr_inv s \<longleftrightarrow>
     (\<exists>fs. tmr_pool s fs \<and> set fs = {i. i < OS_TMR_CFG_MAX \<and> OSTmrState (tmr s i) = OS_TMR_STATE_UNUSED}) \<and>
     (\<forall>k<8. \<exists>xs. spoke_ok s k xs) \<and> (\<forall>i<OS_TMR_CFG_MAX. OSTmrType (tmr s i) = OS_TMR_TYPE \<and> OSTmrState (tmr s i) < 4)"

lemma tmr_inv_part: "tmr_part s' = tmr_part s \<Longrightarrow> tmr_inv s' = tmr_inv s"
proof -
  assume p: "tmr_part s' = tmr_part s"
  show ?thesis unfolding tmr_inv_def tmr_pool_def spoke_ok_def running_def nxt_def [abs_def] prv_def [abs_def] tmr_partD [OF p] ..
qed

lemma pool_len: "tmr_pool s fs \<Longrightarrow> b \<notin> set fs \<Longrightarrow> b < OS_TMR_CFG_MAX \<Longrightarrow> length fs < OS_TMR_CFG_MAX"
proof -
  assume p: "tmr_pool s fs" and b: "b \<notin> set fs" "b < OS_TMR_CFG_MAX"
  have "distinct (b # fs)" using p b chain_distinct by (auto simp: tmr_pool_def)
  moreover have "set (b # fs) \<subseteq> {..<16}" using p b by (simp add: tmr_pool_def)
  ultimately have "length (b # fs) \<le> card {..<16::nat}" using distinct_card [of "b # fs"] card_mono by (metis finite_lessThan)
  then show ?thesis by simp
qed

lemma u16_incr: "unat (c::u16) < 65535 \<Longrightarrow> unat (c + 1) = unat c + 1"
  by (simp add: unat_word_ariths)

lemma u16_decr: "0 < unat (c::u16) \<Longrightarrow> unat (c - 1) = unat c - 1"
  by (simp add: unat_sub_if_size)

subsection \<open>The pool\<close>

lemma alloc_eqs:
  assumes "OSTmrFreeList s = Some i"
  defines "s' \<equiv> snd (OSTmr_Alloc s)"
  shows "fst (OSTmr_Alloc s) = Some i" "nxt s' = (nxt s)(i := None)" "prv s' = (prv s)(i := None)" "core (tmr s' j) = core (tmr s j)"
    "OSTmrWheelTbl s' = OSTmrWheelTbl s" "OSTmrFreeList s' = nxt s i" "OSTmrUsed s' = OSTmrUsed s + 1"
    "OSTmrFree s' = OSTmrFree s - 1" "OSTmrTime s' = OSTmrTime s"
  unfolding s'_def OSTmr_Alloc_def using assms(1)
  by (auto simp: Let_def upd_tmr_def nxt_def prv_def core_def fun_eq_iff)

lemma free_eqs:
  fixes i s
  defines "s' \<equiv> OSTmr_Free i s"
  shows "nxt s' = (nxt s)(i := OSTmrFreeList s)" "prv s' = (prv s)(i := None)"
    "j \<noteq> i \<Longrightarrow> core (tmr s' j) = core (tmr s j)" "OSTmrState (tmr s' i) = OS_TMR_STATE_UNUSED" "OSTmrType (tmr s' i) = OSTmrType (tmr s i)"
    "OSTmrWheelTbl s' = OSTmrWheelTbl s" "OSTmrFreeList s' = Some i" "OSTmrUsed s' = OSTmrUsed s - 1"
    "OSTmrFree s' = OSTmrFree s + 1" "OSTmrTime s' = OSTmrTime s"
  unfolding s'_def OSTmr_Free_def
  by (auto simp: Let_def upd_tmr_def nxt_def prv_def core_def fun_eq_iff)

interpretation timers: free_pool OSTmr_Alloc OSTmr_Free tmr_pool "\<lambda>s bs. {..<OS_TMR_CFG_MAX}"
proof (unfold_locales)
  show "tmr_pool s [] \<Longrightarrow> OSTmr_Alloc s = (None, s)" for s by (simp add: tmr_pool_def OSTmr_Alloc_def)
  show "\<exists>s'. OSTmr_Alloc s = (Some b, s') \<and> tmr_pool s' bs" if p: "tmr_pool s (b # bs)" for s b bs
  proof -
    have f: "OSTmrFreeList s = Some b" and d: "b \<notin> set bs" using p chain_distinct [of _ _ "b # bs"] by (auto simp: tmr_pool_def)
    note e = alloc_eqs [OF f]
    have "unat (OSTmrFree s) = Suc (length bs)" "unat (OSTmrUsed s) + Suc (length bs) = 16" using p by (auto simp: tmr_pool_def)
    then have "unat (OSTmrFree s - 1) = length bs" "unat (OSTmrUsed s + 1) + length bs = 16" by (simp_all add: u16_incr u16_decr)
    then have "tmr_pool (snd (OSTmr_Alloc s)) bs" using p d unfolding tmr_pool_def e by simp
    then show ?thesis using e(1) by (metis prod.collapse)
  qed
  show "tmr_pool (OSTmr_Free b s) (b # bs)" if p: "tmr_pool s bs" and b: "b \<notin> set bs" "b \<in> {..<OS_TMR_CFG_MAX}" for s b bs
  proof -
    have l: "length bs < 16" using pool_len [OF p b(1)] b(2) by simp
    have "unat (OSTmrFree s) = length bs" "unat (OSTmrUsed s) + length bs = 16" using p by (auto simp: tmr_pool_def)
    then have "unat (OSTmrFree s + 1) = Suc (length bs)" "unat (OSTmrUsed s - 1) + Suc (length bs) = 16"
      using l by (simp_all add: u16_incr u16_decr)
    then show ?thesis using p b unfolding tmr_pool_def free_eqs by simp
  qed
  show "tmr_pool s bs \<Longrightarrow> distinct bs" for s bs using chain_distinct by (auto simp: tmr_pool_def)
qed

subsection \<open>What keeps the lists\<close>

lemma spoke_keep:
  assumes "spoke_ok s k xs" "OSTmrWheelTbl s' k = OSTmrWheelTbl s k" "running s' k = running s k"
    "\<And>j. j \<in> running s k \<Longrightarrow> nxt s' j = nxt s j \<and> prv s' j = prv s j"
  shows "spoke_ok s' k xs"
proof -
  have e: "set xs = running s k" using assms(1) by (simp add: spoke_ok_def)
  have "dchain (nxt s) (prv s) None p xs = dchain (nxt s') (prv s') None p xs" for p
    by (rule dchain_cong) (use assms(4) e in auto)
  then show ?thesis using assms(1-3) by (simp add: spoke_ok_def)
qed

lemma pool_keep:
  assumes "tmr_pool s fs" "OSTmrFreeList s' = OSTmrFreeList s" "OSTmrUsed s' = OSTmrUsed s" "OSTmrFree s' = OSTmrFree s"
    "\<And>j. j \<in> set fs \<Longrightarrow> nxt s' j = nxt s j"
  shows "tmr_pool s' fs"
proof -
  have "chain (nxt s) p fs = chain (nxt s') p fs" for p by (rule chain_cong) (use assms(5) in auto)
  then show ?thesis using assms(1-4) by (simp add: tmr_pool_def)
qed

lemma tmr_invI:
  assumes "tmr_pool s fs" "set fs = {i. i < OS_TMR_CFG_MAX \<and> OSTmrState (tmr s i) = OS_TMR_STATE_UNUSED}"
    "\<And>k. k < 8 \<Longrightarrow> \<exists>xs. spoke_ok s k xs"
    "\<And>i. i < OS_TMR_CFG_MAX \<Longrightarrow> OSTmrType (tmr s i) = OS_TMR_TYPE \<and> OSTmrState (tmr s i) < 4"
  shows "tmr_inv s"
  using assms by (auto simp: tmr_inv_def)

lemma spoke_head:
  assumes "spoke_ok s k xs" "OSTmrFirst (OSTmrWheelTbl s k) = Some j"
  shows "j \<in> running s k"
proof -
  have "dchain (nxt s) (prv s) None (Some j) xs" "set xs = running s k" using assms by (simp_all add: spoke_ok_def)
  then show ?thesis by (cases xs) auto
qed

lemma spoke_len: "spoke_ok s k xs \<Longrightarrow> length xs \<le> 16"
proof -
  assume o: "spoke_ok s k xs"
  then have "distinct xs" "set xs \<subseteq> {..<16}" using dchain_distinct by (auto simp: spoke_ok_def running_def)
  then show ?thesis using distinct_card card_mono by (metis card_lessThan finite_lessThan)
qed

lemma tmr_inv_link:
  assumes inv: "tmr_inv s" and i: "i < OS_TMR_CFG_MAX" "OSTmrState (tmr s i) \<noteq> OS_TMR_STATE_UNUSED"
    "OSTmrState (tmr s i) \<noteq> OS_TMR_STATE_RUNNING"
  shows "tmr_inv (OSTmr_Link i kind s)"
    and "OSTmrFirst (OSTmrWheelTbl s (spoke_of (link_match kind (tmr s i) (OSTmrTime s)))) \<noteq> Some i"
proof -
  obtain fs where P: "tmr_pool s fs" "set fs = {i. i < OS_TMR_CFG_MAX \<and> OSTmrState (tmr s i) = OS_TMR_STATE_UNUSED}"
    using inv by (auto simp: tmr_inv_def)
  have S: "\<exists>xs. spoke_ok s k xs" if "k < 8" for k using inv that by (simp add: tmr_inv_def)
  have T: "OSTmrType (tmr s i) = OS_TMR_TYPE \<and> OSTmrState (tmr s i) < 4" if "i < OS_TMR_CFG_MAX" for i
    using inv that by (simp add: tmr_inv_def)
  define m where "m = link_match kind (tmr s i) (OSTmrTime s)"
  define F where "F = OSTmrFirst (OSTmrWheelTbl s (spoke_of m))"
  let ?s = "OSTmr_Link i kind s"
  obtain ys where ys: "spoke_ok s (spoke_of m) ys" using S [OF spoke_of_less] by blast
  have inF: "j \<in> running s (spoke_of m)" if "F = Some j" for j using spoke_head [OF ys] that by (simp add: F_def)
  show ne: "OSTmrFirst (OSTmrWheelTbl s (spoke_of (link_match kind (tmr s i) (OSTmrTime s)))) \<noteq> Some i"
    using inF i by (auto simp: F_def m_def running_def)
  note e = link_eqs [OF ne, folded m_def, folded F_def]
  have st: "OSTmrState (tmr ?s j) = (if j = i then 3 else OSTmrState (tmr s j))"
    "OSTmrMatch (tmr ?s j) = (if j = i then m else OSTmrMatch (tmr s j))" "OSTmrType (tmr ?s j) = OSTmrType (tmr s j)" for j
    using core_eqD(1-3) [OF e(3) [of j, unfolded if_distrib [of core, symmetric]]] by auto
  have run: "running ?s k = (if k = spoke_of m then insert i (running s k) else running s k)" for k
    using i by (auto simp: running_def st)
  have "\<exists>xs. spoke_ok ?s k xs" if k: "k < 8" for k
  proof (cases "k = spoke_of m")
    case True
    have d: "dchain (nxt s) (prv s) None F ys" "set ys = running s k" using ys True by (simp_all add: spoke_ok_def F_def)
    have iy: "i \<notin> set ys" using d(2) i by (simp add: running_def)
    have hF: "F = (if ys = [] then None else Some (hd ys))" using d(1) by (rule dchain_head)
    have "dchain (nxt ?s) (prv ?s) None (Some i) (i # ys)"
      using dchain_push [OF d(1) iy, of None] unfolding e(1,2) hF by (cases ys) auto
    moreover have "unat (OSTmrEntries (OSTmrWheelTbl ?s k)) = length (i # ys)"
      using ys True spoke_len [OF ys] unfolding e(4) hF by (auto simp: spoke_ok_def u16_incr)
    ultimately have "spoke_ok ?s k (i # ys)" using True d(2) unfolding spoke_ok_def run e(4) by simp
    then show ?thesis by blast
  next
    case False
    obtain xs where xs: "spoke_ok s k xs" using S [OF k] by blast
    have "nxt ?s j = nxt s j \<and> prv ?s j = prv s j" if j: "j \<in> running s k" for j
    proof -
      have "j \<noteq> i" "F \<noteq> Some j" using j i inF False by (auto simp: running_def)
      then show ?thesis unfolding e(1,2) by (auto split: option.splits)
    qed
    then have "spoke_ok ?s k xs" using False by (intro spoke_keep [OF xs]) (simp_all add: e(4) run)
    then show ?thesis by blast
  qed
  moreover have "tmr_pool ?s fs" using i P(2) by (intro pool_keep [OF P(1)]) (auto simp: e)
  ultimately show "tmr_inv ?s" using P(2) T i by (intro tmr_invI [of _ fs]) (auto simp: st)
qed

lemma running_split:
  assumes inv: "tmr_inv s" and i: "i < OS_TMR_CFG_MAX" "OSTmrState (tmr s i) = OS_TMR_STATE_RUNNING"
  obtains us vs where "spoke_ok s (spoke_of (OSTmrMatch (tmr s i))) (us @ i # vs)"
proof -
  obtain xs where xs: "spoke_ok s (spoke_of (OSTmrMatch (tmr s i))) xs" using inv spoke_of_less unfolding tmr_inv_def by blast
  then have "i \<in> set xs" using i by (simp add: spoke_ok_def running_def)
  then show thesis using xs that by (metis split_list)
qed

lemma tmr_inv_unlink:
  assumes inv: "tmr_inv s" and i: "i < OS_TMR_CFG_MAX" "OSTmrState (tmr s i) = OS_TMR_STATE_RUNNING"
  shows "tmr_inv (OSTmr_Unlink i s)"
    and "core (tmr (OSTmr_Unlink i s) j) = (if j = i then core ((tmr s i)\<lparr>OSTmrState := OS_TMR_STATE_STOPPED\<rparr>) else core (tmr s j))"
    and "j \<noteq> i \<Longrightarrow> nxt s j \<noteq> Some i \<Longrightarrow> nxt (OSTmr_Unlink i s) j = nxt s j"
    and "OSTmrTime (OSTmr_Unlink i s) = OSTmrTime s"
proof -
  define k0 where "k0 = spoke_of (OSTmrMatch (tmr s i))"
  obtain fs where P: "tmr_pool s fs" "set fs = {i. i < OS_TMR_CFG_MAX \<and> OSTmrState (tmr s i) = OS_TMR_STATE_UNUSED}"
    using inv by (auto simp: tmr_inv_def)
  have S: "\<exists>xs. spoke_ok s k xs" if "k < 8" for k using inv that by (simp add: tmr_inv_def)
  have T: "OSTmrType (tmr s i) = OS_TMR_TYPE \<and> OSTmrState (tmr s i) < 4" if "i < OS_TMR_CFG_MAX" for i
    using inv that by (simp add: tmr_inv_def)
  let ?s = "OSTmr_Unlink i s"
  obtain us vs where uv: "spoke_ok s k0 (us @ i # vs)" using running_split [OF inv i] by (auto simp: k0_def)
  have d: "dchain (nxt s) (prv s) None (OSTmrFirst (OSTmrWheelTbl s k0)) (us @ i # vs)" and r: "set (us @ i # vs) = running s k0"
    using uv by (simp_all add: spoke_ok_def)
  note e = unlink_eqs [OF d [unfolded k0_def], folded k0_def]
  have dis: "distinct (us @ i # vs)" using d by (rule dchain_distinct)
  show "core (tmr ?s j) = (if j = i then core ((tmr s i)\<lparr>OSTmrState := OS_TMR_STATE_STOPPED\<rparr>) else core (tmr s j))" for j by (rule e(3))
  show "OSTmrTime ?s = OSTmrTime s" by (rule e(8))
  have last: "nxt s (last us) = Some i" if "us \<noteq> []"
  proof -
    have eq: "us @ i # vs = butlast us @ last us # i # vs" using that by simp
    show ?thesis using dchain_ends(2) [OF d [unfolded eq]] by simp
  qed
  show "nxt ?s j = nxt s j" if "j \<noteq> i" "nxt s j \<noteq> Some i" for j using that last unfolding e(1) by auto
  have st: "OSTmrState (tmr ?s j) = (if j = i then 1 else OSTmrState (tmr s j))"
    "OSTmrMatch (tmr ?s j) = OSTmrMatch (tmr s j)" "OSTmrType (tmr ?s j) = OSTmrType (tmr s j)" for j
    using core_eqD(1-3) [OF e(3) [of j, unfolded if_distrib [of core, symmetric]]] by auto
  have run: "running ?s k = running s k - {i}" for k using i by (auto simp: running_def st)
  have "\<exists>xs. spoke_ok ?s k xs" if k: "k < 8" for k
  proof (cases "k = k0")
    case True
    have "dchain (nxt ?s) (prv ?s) None (OSTmrFirst (OSTmrWheelTbl ?s k0)) (us @ vs)"
      using dchain_remove [OF d] dis unfolding e(1,2,4) by simp
    moreover have "unat (OSTmrEntries (OSTmrWheelTbl ?s k0)) = length (us @ vs)"
      using uv unfolding e(4) by (simp add: spoke_ok_def u16_decr)
    moreover have "set (us @ vs) = running ?s k0" using r dis unfolding run by auto
    ultimately have "spoke_ok ?s k (us @ vs)" using True by (simp add: spoke_ok_def)
    then show ?thesis by blast
  next
    case False
    obtain xs where xs: "spoke_ok s k xs" using S [OF k] by blast
    have ni: "i \<notin> running s k" using False by (simp add: running_def k0_def)
    have "nxt ?s j = nxt s j \<and> prv ?s j = prv s j" if j: "j \<in> running s k" for j
    proof -
      have "j \<notin> set (us @ i # vs)" using j False unfolding r by (simp add: running_def)
      then have "j \<noteq> i" "us \<noteq> [] \<Longrightarrow> j \<noteq> last us" "vs \<noteq> [] \<Longrightarrow> j \<noteq> hd vs" by auto
      then show ?thesis unfolding e(1,2) by simp
    qed
    then have "spoke_ok ?s k xs" using False ni by (intro spoke_keep [OF xs]) (simp_all add: e(4) run)
    then show ?thesis by blast
  qed
  moreover have "tmr_pool ?s fs"
  proof (rule pool_keep [OF P(1)])
    fix j assume "j \<in> set fs"
    then have "j \<notin> set (us @ i # vs)" using P(2) unfolding r by (simp add: running_def)
    then have "j \<noteq> i" "us \<noteq> [] \<Longrightarrow> j \<noteq> last us" by auto
    then show "nxt ?s j = nxt s j" unfolding e(1) by simp
  qed (simp_all add: e)
  ultimately show "tmr_inv ?s" using P(2) T i by (intro tmr_invI [of _ fs]) (auto simp: st)
qed

text \<open>Changes of a timer that leave its links alone and keep it off the wheel and out of the pool.\<close>

lemma tmr_inv_upd:
  assumes inv: "tmr_inv s" and i: "OSTmrState (tmr s i) \<notin> {OS_TMR_STATE_UNUSED, OS_TMR_STATE_RUNNING}"
    and f: "OSTmrNext (f (tmr s i)) = OSTmrNext (tmr s i)" "OSTmrPrev (f (tmr s i)) = OSTmrPrev (tmr s i)"
      "OSTmrType (f (tmr s i)) = OSTmrType (tmr s i)"
      "OSTmrState (f (tmr s i)) \<in> {OS_TMR_STATE_STOPPED, OS_TMR_STATE_COMPLETED}"
  shows "tmr_inv (upd_tmr i f s)"
proof -
  let ?s = "upd_tmr i f s"
  obtain fs where P: "tmr_pool s fs" "set fs = {i. i < OS_TMR_CFG_MAX \<and> OSTmrState (tmr s i) = OS_TMR_STATE_UNUSED}"
    using inv by (auto simp: tmr_inv_def)
  have l: "nxt ?s = nxt s" "prv ?s = prv s" using f by (auto simp: upd_tmr_def nxt_def prv_def fun_eq_iff)
  have r: "running ?s k = running s k" for k using i f(4) by (auto simp: upd_tmr_def running_def)
  have u: "OSTmrState (tmr ?s j) = OS_TMR_STATE_UNUSED \<longleftrightarrow> OSTmrState (tmr s j) = OS_TMR_STATE_UNUSED" for j
    using i f(4) by (auto simp: upd_tmr_def)
  have "tmr_pool ?s fs" using P(1) by (simp add: tmr_pool_def l) (simp add: upd_tmr_def)
  moreover have "\<exists>xs. spoke_ok ?s k xs" if "k < 8" for k
    using inv that by (simp add: tmr_inv_def spoke_ok_def l r) (simp add: upd_tmr_def)
  moreover have "OSTmrType (tmr ?s j) = OS_TMR_TYPE \<and> OSTmrState (tmr ?s j) < 4" if "j < 16" for j
    using inv that f by (auto simp: tmr_inv_def upd_tmr_def)
  ultimately show ?thesis using P(2) by (intro tmr_invI [of _ fs]) (simp_all add: u)
qed

lemma tmr_inv_free:
  assumes inv: "tmr_inv s" and i: "i < OS_TMR_CFG_MAX" "OSTmrState (tmr s i) \<notin> {OS_TMR_STATE_UNUSED, OS_TMR_STATE_RUNNING}"
  shows "tmr_inv (OSTmr_Free i s)"
proof -
  let ?s = "OSTmr_Free i s"
  obtain fs where P: "tmr_pool s fs" "set fs = {i. i < OS_TMR_CFG_MAX \<and> OSTmrState (tmr s i) = OS_TMR_STATE_UNUSED}"
    using inv by (auto simp: tmr_inv_def)
  have o: "i \<notin> set fs" using i P(2) by simp
  have st: "OSTmrState (tmr ?s j) = (if j = i then 0 else OSTmrState (tmr s j))" "OSTmrType (tmr ?s j) = OSTmrType (tmr s j)"
    "j \<noteq> i \<Longrightarrow> OSTmrMatch (tmr ?s j) = OSTmrMatch (tmr s j)" for j
    using free_eqs(4,5) [of i s] core_eqD(1-3) [OF free_eqs(3) [of j i s]] by auto
  have r: "running ?s k = running s k" for k using i st by (auto simp: running_def split: if_splits)
  have "tmr_pool ?s (i # fs)" using timers.give_cons [OF P(1) o] i by simp
  moreover have "\<exists>xs. spoke_ok ?s k xs" if k: "k < 8" for k
  proof -
    obtain xs where xs: "spoke_ok s k xs" using inv k by (auto simp: tmr_inv_def)
    have "j \<noteq> i" if "j \<in> running s k" for j using that i by (auto simp: running_def)
    then have "spoke_ok ?s k xs" by (intro spoke_keep [OF xs]) (auto simp: free_eqs r)
    then show ?thesis by blast
  qed
  moreover have "OSTmrType (tmr ?s j) = OS_TMR_TYPE \<and> OSTmrState (tmr ?s j) < 4" if "j < 16" for j
    using inv that by (auto simp: tmr_inv_def st)
  ultimately show ?thesis using P(2) i by (intro tmr_invI [of _ "i # fs"]) (auto simp: st)
qed

lemma tmr_inv_alloc:
  assumes inv: "tmr_inv s" and a: "OSTmr_Alloc s = (Some i, s1)"
    and f: "OSTmrNext (f (tmr s1 i)) = OSTmrNext (tmr s1 i)" "OSTmrPrev (f (tmr s1 i)) = OSTmrPrev (tmr s1 i)"
      "OSTmrType (f (tmr s1 i)) = OSTmrType (tmr s1 i)" "OSTmrState (f (tmr s1 i)) = OS_TMR_STATE_STOPPED"
  shows "tmr_inv (upd_tmr i f s1)" and "i < OS_TMR_CFG_MAX" and "OSTmrState (tmr s i) = OS_TMR_STATE_UNUSED"
proof -
  let ?s = "upd_tmr i f s1"
  obtain gs where P: "tmr_pool s gs" "set gs = {i. i < OS_TMR_CFG_MAX \<and> OSTmrState (tmr s i) = OS_TMR_STATE_UNUSED}"
    using inv by (auto simp: tmr_inv_def)
  have fl: "OSTmrFreeList s = Some i" and s1: "s1 = snd (OSTmr_Alloc s)" using a by (auto simp: OSTmr_Alloc_def Let_def split: option.splits)
  then obtain fs where gs: "gs = i # fs" using P(1) by (cases gs) (auto simp: tmr_pool_def)
  show i: "i < OS_TMR_CFG_MAX" and u: "OSTmrState (tmr s i) = OS_TMR_STATE_UNUSED" using P(2) gs by auto
  note e = alloc_eqs [OF fl, folded s1]
  have st: "OSTmrState (tmr ?s j) = (if j = i then 1 else OSTmrState (tmr s j))" "OSTmrType (tmr ?s j) = OSTmrType (tmr s j)"
    "j \<noteq> i \<Longrightarrow> OSTmrMatch (tmr ?s j) = OSTmrMatch (tmr s j)" for j
    using core_eqD [OF e(4) [of j]] f by (auto simp: upd_tmr_def)
  have l: "nxt ?s = nxt s1" "prv ?s = prv s1" using f by (auto simp: upd_tmr_def nxt_def prv_def fun_eq_iff)
  have r: "running ?s k = running s k" for k using u st by (auto simp: running_def split: if_splits)
  have "tmr_pool s1 fs" using timers.take_cons [OF P(1) [unfolded gs]] a by simp
  then have p: "tmr_pool ?s fs" by (simp add: tmr_pool_def l) (simp add: upd_tmr_def)
  have "\<exists>xs. spoke_ok ?s k xs" if k: "k < 8" for k
  proof -
    obtain xs where xs: "spoke_ok s k xs" using inv k by (auto simp: tmr_inv_def)
    have "OSTmrWheelTbl ?s k = OSTmrWheelTbl s k" using e(5) by (simp add: upd_tmr_def)
    moreover have "j \<noteq> i" if "j \<in> running s k" for j using that u by (auto simp: running_def)
    ultimately have "spoke_ok ?s k xs" by (intro spoke_keep [OF xs]) (auto simp: r l e(2,3))
    then show ?thesis by blast
  qed
  moreover have "OSTmrType (tmr ?s j) = OS_TMR_TYPE \<and> OSTmrState (tmr ?s j) < 4" if "j < 16" for j
    using inv that by (auto simp: tmr_inv_def st)
  moreover have "set fs = {j. j < OS_TMR_CFG_MAX \<and> OSTmrState (tmr ?s j) = OS_TMR_STATE_UNUSED}"
    using P(2) timers.repr_distinct [OF P(1)] gs by (auto simp: st)
  ultimately show "tmr_inv ?s" using p by (intro tmr_invI [of _ fs]) auto
qed

section \<open>The services keep the kernel and the timers well formed\<close>

lemma same_kernel_tmr:
  "same_kernel s (upd_tmr i f s)" "same_kernel s (upd_spoke k g s)" "same_kernel s (OSTmr_Link i kind s)"
  "same_kernel s (OSTmr_Unlink i s)" "same_kernel s (OSTmr_Free i s)" "same_kernel s (snd (OSTmr_Alloc s))"
  "same_kernel s (s\<lparr>OSTmrTime := t\<rparr>)"
  by (simp_all add: same_kernel_def upd_tmr_def upd_spoke_def OSTmr_Link_def OSTmr_Unlink_def OSTmr_Free_def OSTmr_Alloc_def
      Let_def split: option.split)

lemma same_kernel_ksafe: "same_kernel s s' \<Longrightarrow> ksafe s \<Longrightarrow> ksafe s'"
  using same_kernel_safe by blast

lemmas ksafe_tmr = same_kernel_tmr [THEN same_kernel_ksafe]

abbreviation wsafe :: "os \<Rightarrow> bool" where "wsafe s \<equiv> ksafe s \<and> tmr_inv s"

lemma wsafe_lock: "wsafe s \<Longrightarrow> wsafe (OSSchedLock s)" "wsafe s \<Longrightarrow> wsafe (OSSchedUnlock s)"
  using sched_lock_safe [of s] tmr_inv_part [OF tmr_part_sched(2)] tmr_inv_part [OF tmr_part_sched(3)] by simp_all

lemma wsafe_unlink:
  assumes "wsafe s" "i < OS_TMR_CFG_MAX" "OSTmrState (tmr s i) = OS_TMR_STATE_RUNNING"
  shows "wsafe (OSTmr_Unlink i s)" "OSTmrState (tmr (OSTmr_Unlink i s) i) = OS_TMR_STATE_STOPPED"
  using assms ksafe_tmr(4) tmr_inv_unlink(1) [of s i] core_eqD(1) [OF tmr_inv_unlink(2) [of s i i, simplified]] by auto

lemma wsafe_link:
  assumes "wsafe s" "i < OS_TMR_CFG_MAX" "OSTmrState (tmr s i) \<noteq> OS_TMR_STATE_UNUSED" "OSTmrState (tmr s i) \<noteq> OS_TMR_STATE_RUNNING"
  shows "wsafe (OSTmr_Link i kind s)"
  using assms ksafe_tmr(3) tmr_inv_link(1) [of s i] by auto

lemma wsafe_free:
  assumes "wsafe s" "i < OS_TMR_CFG_MAX" "OSTmrState (tmr s i) \<notin> {OS_TMR_STATE_UNUSED, OS_TMR_STATE_RUNNING}"
  shows "wsafe (OSTmr_Free i s)"
  using assms ksafe_tmr(5) tmr_inv_free [of s i] by auto

text \<open>
  What the services rely on a callback for: it does not call the timer services, and it leaves the kernel well formed.
\<close>

definition cb_ok :: "'w callback \<Rightarrow> bool" where
  "cb_ok cb \<longleftrightarrow> (\<forall>f i a s w. tmr_part (fst (cb f i a (s, w))) = tmr_part s \<and> (ksafe s \<longrightarrow> ksafe (fst (cb f i a (s, w)))))"

lemma cb_okD:
  assumes "cb_ok cb"
  shows "tmr_part (fst (cb f i a (s, w))) = tmr_part s" "wsafe s \<Longrightarrow> wsafe (fst (cb f i a (s, w)))"
proof -
  show p: "tmr_part (fst (cb f i a (s, w))) = tmr_part s" using assms by (simp add: cb_ok_def)
  show "wsafe s \<Longrightarrow> wsafe (fst (cb f i a (s, w)))" using assms tmr_inv_part [OF p] by (simp add: cb_ok_def)
qed

lemma create_safe: "wsafe s \<Longrightarrow> wsafe (snd (snd (OSTmrCreate dly period opt callback arg pname s)))"
proof -
  assume s: "wsafe s"
  let ?f = "\<lambda>t. t\<lparr>OSTmrState := OS_TMR_STATE_STOPPED, OSTmrDly := dly, OSTmrPeriod := period,
    OSTmrOpt := opt, OSTmrCallback := callback, OSTmrCallbackArg := arg, OSTmrName := pname\<rparr>"
  note l = wsafe_lock(1) [OF s]
  show ?thesis
  proof (cases "OSTmr_Alloc (OSSchedLock s)")
    case (Pair p s1)
    have k1: "ksafe s1" using ksafe_tmr(6) [of "OSSchedLock s"] l Pair by simp
    show ?thesis
    proof (cases p)
      case None
      then have "s1 = OSSchedLock s" using Pair by (auto simp: OSTmr_Alloc_def Let_def split: option.splits)
      then show ?thesis using None Pair s l wsafe_lock(2) by (auto simp: OSTmrCreate_def)
    next
      case (Some i)
      have al: "OSTmr_Alloc (OSSchedLock s) = (Some i, s1)" using Pair Some by simp
      have "tmr_inv (upd_tmr i ?f s1)" using l by (intro tmr_inv_alloc(1) [OF _ al, where f = ?f]) simp_all
      then have "wsafe (upd_tmr i ?f s1)" using k1 ksafe_tmr(1) by blast
      then show ?thesis using Some Pair s wsafe_lock(2) by (auto simp: OSTmrCreate_def Let_def)
    qed
  qed
qed

lemma del_safe:
  assumes s: "wsafe s" and i: "i < OS_TMR_CFG_MAX"
  shows "wsafe (snd (snd (OSTmrDel i s)))"
proof -
  note l = wsafe_lock(1) [OF s]
  have a: "wsafe (OSTmr_Free i (OSTmr_Unlink i (OSSchedLock s)))" if "OSTmrState (tmr s i) = OS_TMR_STATE_RUNNING"
    using wsafe_unlink [OF l i] that i by (intro wsafe_free) simp_all
  have b: "wsafe (OSTmr_Free i (OSSchedLock s))" if "OSTmrState (tmr s i) = OS_TMR_STATE_STOPPED \<or> OSTmrState (tmr s i) = OS_TMR_STATE_COMPLETED"
    using l that i by (intro wsafe_free) auto
  show ?thesis using s l a b wsafe_lock(2) by (simp add: OSTmrDel_def Let_def)
qed

lemma start_safe:
  assumes s: "wsafe s" and i: "i < OS_TMR_CFG_MAX"
  shows "wsafe (snd (snd (OSTmrStart i s)))"
proof -
  note l = wsafe_lock(1) [OF s]
  have a: "wsafe (OSTmr_Link i k (OSTmr_Unlink i (OSSchedLock s)))" if "OSTmrState (tmr s i) = OS_TMR_STATE_RUNNING" for k
    using wsafe_unlink [OF l i] that i by (intro wsafe_link) simp_all
  have b: "wsafe (OSTmr_Link i k (OSSchedLock s))" if "OSTmrState (tmr s i) = OS_TMR_STATE_STOPPED \<or> OSTmrState (tmr s i) = OS_TMR_STATE_COMPLETED" for k
    using l that i by (intro wsafe_link) auto
  show ?thesis using s l a b wsafe_lock(2) by (simp add: OSTmrStart_def Let_def)
qed

lemma stop_safe:
  assumes s: "wsafe s" and i: "i < OS_TMR_CFG_MAX" and cb: "cb_ok cb"
  shows "wsafe (fst (snd (snd (OSTmrStop cb i opt arg (s, w)))))"
proof -
  note l = wsafe_lock(1) [OF s]
  let ?u = "OSTmr_Unlink i (OSSchedLock s)"
  have a: "wsafe ?u" if "OSTmrState (tmr s i) = OS_TMR_STATE_RUNNING" using wsafe_unlink [OF l i] that by simp
  have b: "wsafe (OSSchedUnlock (fst (cb f i x (?u, w))))" if "OSTmrState (tmr s i) = OS_TMR_STATE_RUNNING" for f x
    using cb_okD(2) [OF cb a [OF that]] wsafe_lock(2) by blast
  show ?thesis using s l a b wsafe_lock(2)
    by (simp add: OSTmrStop_def Let_def case_prod_beta prod.case_eq_if split: option.split)
qed

lemma query_safe:
  assumes s: "wsafe s"
  shows "wsafe (snd (snd (snd (OSTmrNameGet i s))))" "wsafe (snd (snd (OSTmrRemainGet i s)))" "wsafe (snd (snd (OSTmrStateGet i s)))"
  using s wsafe_lock(2) [OF wsafe_lock(1) [OF s]] by (simp_all add: OSTmrNameGet_def OSTmrRemainGet_def OSTmrStateGet_def Let_def)

section \<open>The timer task\<close>

text \<open>What becomes of a timer that expires at time \<open>now\<close>.\<close>

definition fired :: "u32 \<Rightarrow> os_tmr \<Rightarrow> os_tmr" where
  "fired now t =
    (if OSTmrOpt t = OS_TMR_OPT_PERIODIC then t\<lparr>OSTmrState := OS_TMR_STATE_RUNNING, OSTmrMatch := OSTmrPeriod t + now\<rparr>
     else t\<lparr>OSTmrState := OS_TMR_STATE_COMPLETED\<rparr>)"

definition due :: "os \<Rightarrow> nat \<Rightarrow> bool" where
  "due s i \<longleftrightarrow> i < OS_TMR_CFG_MAX \<and> OSTmrState (tmr s i) = OS_TMR_STATE_RUNNING \<and> OSTmrMatch (tmr s i) = OSTmrTime s"

lemma core_cong: "core t = core u \<Longrightarrow> core (t\<lparr>OSTmrState := x\<rparr>) = core (u\<lparr>OSTmrState := x\<rparr>)"
  "core t = core u \<Longrightarrow> core (t\<lparr>OSTmrState := x, OSTmrMatch := m\<rparr>) = core (u\<lparr>OSTmrState := x, OSTmrMatch := m\<rparr>)"
  by (cases t; cases u; simp add: core_def)+

lemma fire_spec:
  assumes s: "wsafe s" and i: "i < OS_TMR_CFG_MAX" "OSTmrState (tmr s i) = OS_TMR_STATE_RUNNING"
  shows "wsafe (tmr_fire i s)" and "OSTmrTime (tmr_fire i s) = OSTmrTime s"
    and "core (tmr (tmr_fire i s) j) = (if j = i then core (fired (OSTmrTime s) (tmr s i)) else core (tmr s j))"
    and "j \<noteq> i \<Longrightarrow> nxt s j \<noteq> Some i \<Longrightarrow> nxt (tmr_fire i s) j = nxt s j"
proof -
  let ?u = "OSTmr_Unlink i s"
  have inv: "tmr_inv s" using s by simp
  note u = tmr_inv_unlink [OF inv i]
  have wu: "wsafe ?u" "OSTmrState (tmr ?u i) = OS_TMR_STATE_STOPPED" using wsafe_unlink [OF s i] by auto
  have ci: "core (tmr ?u i) = core ((tmr s i)\<lparr>OSTmrState := OS_TMR_STATE_STOPPED\<rparr>)" using u(2) [of i] by simp
  note c = core_eqD(4-8) [OF ci, simplified]
  have main: "wsafe (tmr_fire i s) \<and> OSTmrTime (tmr_fire i s) = OSTmrTime s \<and>
    core (tmr (tmr_fire i s) j) = (if j = i then core (fired (OSTmrTime s) (tmr s i)) else core (tmr s j)) \<and>
    (j \<noteq> i \<longrightarrow> nxt (tmr_fire i s) j = nxt ?u j)" for j
  proof (cases "OSTmrOpt (tmr s i) = OS_TMR_OPT_PERIODIC")
    case True
    have f: "tmr_fire i s = OSTmr_Link i OS_TMR_LINK_PERIODIC ?u" using True c by (simp add: tmr_fire_def Let_def)
    have st: "OSTmrState (tmr ?u i) \<noteq> OS_TMR_STATE_UNUSED" "OSTmrState (tmr ?u i) \<noteq> OS_TMR_STATE_RUNNING" using wu by auto
    have iu: "tmr_inv ?u" using wu by simp
    note e = link_eqs [OF tmr_inv_link(2) [OF iu i(1) st, of OS_TMR_LINK_PERIODIC]]
    have m: "link_match OS_TMR_LINK_PERIODIC (tmr ?u i) (OSTmrTime ?u) = OSTmrPeriod (tmr s i) + OSTmrTime s"
      using c u(4) by (simp add: link_match_def)
    have "wsafe (tmr_fire i s)" unfolding f using wsafe_link [OF wu(1) i(1) st] .
    moreover have "core (tmr (tmr_fire i s) j) = (if j = i then core (fired (OSTmrTime s) (tmr s i)) else core (tmr s j))"
      using core_cong(2) [OF ci] True u(2) [of j] unfolding f e(3) m fired_def by simp
    ultimately show ?thesis using u(4) unfolding f e(1,8) by simp
  next
    case False
    have f: "tmr_fire i s = upd_tmr i (\<lambda>t. t\<lparr>OSTmrState := OS_TMR_STATE_COMPLETED\<rparr>) ?u"
      using False c by (simp add: tmr_fire_def Let_def)
    have "tmr_inv (tmr_fire i s)" unfolding f using wu by (intro tmr_inv_upd) simp_all
    then have "wsafe (tmr_fire i s)" using ksafe_tmr(1) wu(1) unfolding f by blast
    moreover have "core (tmr (tmr_fire i s) j) = (if j = i then core (fired (OSTmrTime s) (tmr s i)) else core (tmr s j))"
      using core_cong(1) [OF ci] False u(2) [of j] unfolding f fired_def by (simp add: upd_tmr_def)
    ultimately show ?thesis using u(4) unfolding f by (simp add: upd_tmr_def nxt_def)
  qed
  show "wsafe (tmr_fire i s)" "OSTmrTime (tmr_fire i s) = OSTmrTime s" using main [of i] by blast+
  show "core (tmr (tmr_fire i s) j) = (if j = i then core (fired (OSTmrTime s) (tmr s i)) else core (tmr s j))" using main [of j] by blast
  show "j \<noteq> i \<Longrightarrow> nxt s j \<noteq> Some i \<Longrightarrow> nxt (tmr_fire i s) j = nxt s j" using main [of j] u(3) [of j] by simp
qed

lemma visit_spec:
  fixes w :: 'w
  assumes s: "wsafe s" and i: "i < OS_TMR_CFG_MAX" "OSTmrState (tmr s i) = OS_TMR_STATE_RUNNING" and cb: "cb_ok cb"
  defines "s' \<equiv> fst (tmr_visit cb i (s, w))"
  shows "wsafe s'" and "OSTmrTime s' = OSTmrTime s"
    and "core (tmr s' j) = (if j = i \<and> due s i then core (fired (OSTmrTime s) (tmr s j)) else core (tmr s j))"
    and "j \<noteq> i \<Longrightarrow> nxt s j \<noteq> Some i \<Longrightarrow> nxt s' j = nxt s j"
proof -
  note f = fire_spec [OF s i]
  have d: "due s i \<longleftrightarrow> OSTmrTime s = OSTmrMatch (tmr s i)" using i by (auto simp: due_def)
  have p: "tmr_part s' = tmr_part (if due s i then tmr_fire i s else s)"
    using cb_okD(1) [OF cb] by (auto simp: s'_def tmr_visit_def Let_def d split: option.split)
  show "wsafe s'" using s f(1) cb_okD(2) [OF cb f(1)] by (auto simp: s'_def tmr_visit_def Let_def split: option.split)
  have t: "OSTmrTbl s' = OSTmrTbl (if due s i then tmr_fire i s else s)" "OSTmrTime s' = OSTmrTime (if due s i then tmr_fire i s else s)"
    using tmr_partD(1,6) [OF p] .
  show "OSTmrTime s' = OSTmrTime s" using t(2) f(2) by simp
  show "core (tmr s' j) = (if j = i \<and> due s i then core (fired (OSTmrTime s) (tmr s j)) else core (tmr s j))"
    using f(3) [of j] unfolding t(1) by auto
  show "j \<noteq> i \<Longrightarrow> nxt s j \<noteq> Some i \<Longrightarrow> nxt s' j = nxt s j" using f(4) [of j] t(1) by (auto simp: nxt_def)
qed

lemma chain_next:
  assumes "chain nx p (x # xs)" "j \<in> set xs"
  shows "nx j \<noteq> Some x"
proof
  assume n: "nx j = Some x"
  have d: "distinct (x # xs)" using assms(1) by (rule chain_distinct)
  obtain us vs where xs: "xs = us @ j # vs" using assms(2) by (auto dest: split_list)
  have "chain nx (Some j) (j # vs)" using chain_append [of nx p "x # us" j vs] assms(1) xs by simp
  then have "x \<in> set vs" using n by (cases vs) auto
  then show False using d xs by simp
qed

text \<open>
  A callback whose effect \<open>lg\<close> on the memory of the application does not depend on the kernel; then that memory
  tells which callbacks have been called, in which order.
\<close>

definition cb_logs :: "'w callback \<Rightarrow> (nat \<Rightarrow> nat \<Rightarrow> ptr \<Rightarrow> 'w \<Rightarrow> 'w) \<Rightarrow> bool" where
  "cb_logs cb lg \<longleftrightarrow> (\<forall>f i a s w. snd (cb f i a (s, w)) = lg f i a w)"

definition call :: "(nat \<Rightarrow> nat \<Rightarrow> ptr \<Rightarrow> 'w \<Rightarrow> 'w) \<Rightarrow> os \<Rightarrow> nat \<Rightarrow> 'w \<Rightarrow> 'w" where
  "call lg s i w =
    (if due s i then (case OSTmrCallback (tmr s i) of None \<Rightarrow> w | Some f \<Rightarrow> lg f i (OSTmrCallbackArg (tmr s i)) w) else w)"

lemma visit_call:
  assumes "wsafe s" "i < OS_TMR_CFG_MAX" "OSTmrState (tmr s i) = OS_TMR_STATE_RUNNING" "cb_logs cb lg"
  shows "snd (tmr_visit cb i (s, w)) = call lg s i w"
proof -
  have "core (tmr (tmr_fire i s) i) = core (fired (OSTmrTime s) (tmr s i))" using fire_spec(3) [OF assms(1-3), of i] by simp
  note c = core_eqD(7,8) [OF this]
  have "OSTmrCallback (tmr (tmr_fire i s) i) = OSTmrCallback (tmr s i)" "OSTmrCallbackArg (tmr (tmr_fire i s) i) = OSTmrCallbackArg (tmr s i)"
    using c by (simp_all add: fired_def)
  then show ?thesis using assms(2-4) by (auto simp: tmr_visit_def Let_def call_def due_def cb_logs_def split: option.split)
qed

text \<open>The loop over a spoke returns, changes exactly the timers that are due, and calls exactly their callbacks.\<close>

lemma tmr_loop_ends:
  assumes "cb_ok cb" "wsafe s" "chain (nxt s) p ys" "\<And>j. j \<in> set ys \<Longrightarrow> j < OS_TMR_CFG_MAX \<and> OSTmrState (tmr s j) = OS_TMR_STATE_RUNNING"
  shows "\<exists>s' w'. tmr_loop cb p (s, w) = Some (s', w') \<and> wsafe s' \<and> OSTmrTime s' = OSTmrTime s \<and>
    (\<forall>j. core (tmr s' j) = (if j \<in> set ys \<and> due s j then core (fired (OSTmrTime s) (tmr s j)) else core (tmr s j))) \<and>
    (\<forall>lg. cb_logs cb lg \<longrightarrow> w' = fold (call lg s) ys w)"
  using assms
proof (induction ys arbitrary: p s w)
  case Nil
  then show ?case by (simp add: tmr_loop.simps)
next
  case (Cons i ys)
  have p: "p = Some i" and tl: "chain (nxt s) (nxt s i) ys" and d: "i \<notin> set ys"
    using Cons.prems(3) chain_distinct [OF Cons.prems(3)] by auto
  obtain s1 w1 where v: "tmr_visit cb i (s, w) = (s1, w1)" by (cases "tmr_visit cb i (s, w)")
  have i: "i < OS_TMR_CFG_MAX" "OSTmrState (tmr s i) = OS_TMR_STATE_RUNNING" using Cons.prems(4) by auto
  note vs = visit_spec [OF Cons.prems(2) i Cons.prems(1), where w = w, unfolded v fst_conv]
  have nx: "nxt s1 j = nxt s j" if "j \<in> set ys" for j using vs(4) chain_next [OF Cons.prems(3) that] that d by metis
  have c1: "chain (nxt s1) (nxt s i) ys" using tl chain_cong [of ys "nxt s1" "nxt s"] nx by simp
  have same: "core (tmr s1 j) = core (tmr s j)" if "j \<in> set ys" for j using vs(3) [of j] that d by auto
  have r1: "j < OS_TMR_CFG_MAX \<and> OSTmrState (tmr s1 j) = OS_TMR_STATE_RUNNING" if "j \<in> set ys" for j
    using Cons.prems(4) that core_eqD(1) [OF same [OF that]] by simp
  have d1: "due s1 j \<longleftrightarrow> due s j" if "j \<in> set ys" for j using core_eqD(1,2) [OF same [OF that]] vs(2) by (simp add: due_def)
  have fi: "core (fired t (tmr s1 j)) = core (fired t (tmr s j))" if "j \<in> set ys" for j t
    using core_eqD [OF same [OF that]] core_cong [OF same [OF that]] by (simp add: fired_def)
  obtain s' w' where l: "tmr_loop cb (nxt s i) (s1, w1) = Some (s', w')" "wsafe s'" "OSTmrTime s' = OSTmrTime s1"
    and c: "\<forall>j. core (tmr s' j) = (if j \<in> set ys \<and> due s1 j then core (fired (OSTmrTime s1) (tmr s1 j)) else core (tmr s1 j))"
    and w: "\<forall>lg. cb_logs cb lg \<longrightarrow> w' = fold (call lg s1) ys w1"
    using Cons.IH [OF Cons.prems(1) vs(1) c1 r1] by blast
  have "call lg s1 j x = call lg s j x" if "j \<in> set ys" for lg j x
    using d1 [OF that] core_eqD(7,8) [OF same [OF that]] by (auto simp: call_def split: option.split)
  then have "fold (call lg s1) ys x = fold (call lg s) ys x" for lg x by (intro fold_cong) (auto simp: fun_eq_iff)
  moreover have "w1 = call lg s i w" if "cb_logs cb lg" for lg
    using visit_call [OF Cons.prems(2) i that, of w] v by simp
  ultimately have "w' = fold (call lg s) (i # ys) w" if "cb_logs cb lg" for lg using w that by simp
  moreover have "tmr_loop cb p (s, w) = Some (s', w')"
    using l(1) by (subst tmr_loop.simps) (simp add: p v nxt_def)
  moreover have "core (tmr s' j) = (if j \<in> set (i # ys) \<and> due s j then core (fired (OSTmrTime s) (tmr s j)) else core (tmr s j))" for j
    using c vs(2) vs(3) [of j] d1 [of j] fi [of j] same [of j] d by auto
  ultimately show ?case using l vs(2) by auto
qed

lemma tmr_inv_time: "tmr_inv (s\<lparr>OSTmrTime := t\<rparr>) = tmr_inv s"
  by (simp add: tmr_inv_def tmr_pool_def spoke_ok_def running_def nxt_def [abs_def] prv_def [abs_def])

lemma task_spec:
  assumes cb: "cb_ok cb" and s: "wsafe s"
  defines "now \<equiv> OSTmrTime s + 1"
  shows "\<exists>s' w' fs. OSTmr_Task cb (s, w) = Some (s', w') \<and> wsafe s' \<and> OSTmrTime s' = now \<and>
    (\<forall>j. core (tmr s' j) = (if due (s\<lparr>OSTmrTime := now\<rparr>) j then core (fired now (tmr s j)) else core (tmr s j))) \<and>
    distinct fs \<and> set fs = {j. due (s\<lparr>OSTmrTime := now\<rparr>) j} \<and>
    (\<forall>lg. cb_logs cb lg \<longrightarrow> w' = fold (call lg (s\<lparr>OSTmrTime := now\<rparr>)) fs w)"
proof -
  let ?t = "s\<lparr>OSTmrTime := now\<rparr>" and ?u = "(OSSchedLock s)\<lparr>OSTmrTime := now\<rparr>"
  have u: "wsafe ?u" using wsafe_lock(1) [OF s] ksafe_tmr(7) tmr_inv_time by blast
  obtain ys where ys: "spoke_ok ?u (spoke_of now) ys" using u spoke_of_less unfolding tmr_inv_def by blast
  have c: "chain (nxt ?u) (OSTmrFirst (OSTmrWheelTbl ?u (spoke_of now))) ys" and r: "set ys = running ?u (spoke_of now)" and d: "distinct ys"
    using ys dchain_chain dchain_distinct unfolding spoke_ok_def by blast+
  have du: "due ?u j = due ?t j" for j by (simp add: due_def)
  have cu: "call lg ?u = call lg ?t" for lg by (auto simp: call_def fun_eq_iff du split: option.split)
  have sub: "due ?t j \<Longrightarrow> j \<in> set ys" for j unfolding r by (auto simp: due_def running_def)
  obtain s' w' where l: "tmr_loop cb (OSTmrFirst (OSTmrWheelTbl ?u (spoke_of now))) (?u, w) = Some (s', w')" "wsafe s'" "OSTmrTime s' = now"
    and cr: "\<forall>j. core (tmr s' j) = (if j \<in> set ys \<and> due ?u j then core (fired now (tmr ?u j)) else core (tmr ?u j))"
    and w: "\<forall>lg. cb_logs cb lg \<longrightarrow> w' = fold (call lg ?u) ys w"
    using tmr_loop_ends [OF cb u c, of w] r by (auto simp: running_def)
  have f: "fold (call lg ?t) xs x = fold (call lg ?t) (filter (due ?t) xs) x" for lg xs x
    by (induction xs arbitrary: x) (simp_all add: call_def)
  have "OSTmr_Task cb (s, w) = Some (OSSchedUnlock s', w')" using l(1) by (simp add: OSTmr_Task_def now_def)
  moreover have "wsafe (OSSchedUnlock s')" using wsafe_lock(2) [OF l(2)] .
  moreover have "\<forall>j. core (tmr (OSSchedUnlock s') j) = (if due ?t j then core (fired now (tmr s j)) else core (tmr s j))"
    using cr sub by (auto simp: du)
  moreover have "set (filter (due ?t) ys) = {j. due ?t j}" using sub by auto
  moreover have "\<forall>lg. cb_logs cb lg \<longrightarrow> w' = fold (call lg ?t) (filter (due ?t) ys) w" using w f [of _ ys w] unfolding cu by metis
  ultimately show ?thesis using l(3) d by (intro exI [of _ "OSSchedUnlock s'"] exI [of _ w'] exI [of _ "filter (due ?t) ys"]) simp
qed

section \<open>Starting a timer and waiting\<close>

fun tmr_ticks :: "'w callback \<Rightarrow> nat \<Rightarrow> os \<times> 'w \<Rightarrow> (os \<times> 'w) option" where
  "tmr_ticks cb 0 x = Some x"
| "tmr_ticks cb (Suc n) x = (case OSTmr_Task cb x of None \<Rightarrow> None | Some y \<Rightarrow> tmr_ticks cb n y)"

lemma tmr_ticks_snoc: "tmr_ticks cb (Suc n) x = (case tmr_ticks cb n x of None \<Rightarrow> None | Some y \<Rightarrow> OSTmr_Task cb y)"
proof (induction n arbitrary: x)
  case (Suc n)
  show ?case
  proof (cases "OSTmr_Task cb x")
    case (Some y)
    then show ?thesis using Suc.IH [of y] by simp
  qed simp
qed (simp split: option.split)

lemma u32_left:
  assumes "Suc 0 < unat (m - t :: u32)"
  shows "unat (m - (t + 1)) = unat (m - t) - 1" and "m \<noteq> t + 1"
proof -
  have e: "m - (t + 1) = (m - t) - 1" by simp
  have "unat (x - 1) = unat x - 1" if "0 < unat x" for x :: u32 using that by (simp add: unat_sub_if_size)
  then show "unat (m - (t + 1)) = unat (m - t) - 1" unfolding e using assms by (metis Suc_lessD)
  show "m \<noteq> t + 1" using assms by auto
qed

lemma ticks_wait:
  assumes "cb_ok cb" "wsafe s" "i < OS_TMR_CFG_MAX" "OSTmrState (tmr s i) = OS_TMR_STATE_RUNNING"
    "n < unat (OSTmrMatch (tmr s i) - OSTmrTime s)"
  shows "\<exists>s' w'. tmr_ticks cb n (s, w) = Some (s', w') \<and> wsafe s' \<and> core (tmr s' i) = core (tmr s i) \<and>
    unat (OSTmrMatch (tmr s' i) - OSTmrTime s') = unat (OSTmrMatch (tmr s i) - OSTmrTime s) - n"
  using assms
proof (induction n arbitrary: s w)
  case 0
  then show ?case by simp
next
  case (Suc n)
  let ?m = "OSTmrMatch (tmr s i)" and ?t = "OSTmrTime s"
  have r: "unat (?m - (?t + 1)) = unat (?m - ?t) - 1" "?m \<noteq> ?t + 1" using Suc.prems(5) by (intro u32_left; simp)+
  obtain s1 w1 where t: "OSTmr_Task cb (s, w) = Some (s1, w1)" "wsafe s1" "OSTmrTime s1 = ?t + 1"
    and c: "core (tmr s1 i) = core (tmr s i)"
    using task_spec [OF Suc.prems(1,2), of w] r(2) by (auto simp: due_def)
  note e = core_eqD(1,2) [OF c]
  have "n < unat (OSTmrMatch (tmr s1 i) - OSTmrTime s1)" using Suc.prems(5) r(1) e t(3) by simp
  then obtain s' w' where "tmr_ticks cb n (s1, w1) = Some (s', w') \<and> wsafe s' \<and> core (tmr s' i) = core (tmr s1 i) \<and>
      unat (OSTmrMatch (tmr s' i) - OSTmrTime s') = unat (OSTmrMatch (tmr s1 i) - OSTmrTime s1) - n"
    using Suc.IH [OF Suc.prems(1) t(2) Suc.prems(3), of w1] e Suc.prems(4) by auto
  then show ?case using t c e r(1) by auto
qed

lemma ticks_fire:
  assumes cb: "cb_ok cb" and s: "wsafe s" and i: "i < OS_TMR_CFG_MAX" "OSTmrState (tmr s i) = OS_TMR_STATE_RUNNING"
    and ne: "OSTmrMatch (tmr s i) \<noteq> OSTmrTime s"
  shows "\<exists>s' w'. tmr_ticks cb (unat (OSTmrMatch (tmr s i) - OSTmrTime s)) (s, w) = Some (s', w') \<and> wsafe s' \<and>
    core (tmr s' i) = core (fired (OSTmrTime s') (tmr s i))"
proof -
  let ?r = "unat (OSTmrMatch (tmr s i) - OSTmrTime s)"
  obtain n where n: "?r = Suc n" using ne by (cases ?r) (auto simp: unat_eq_zero)
  obtain s1 w1 where a: "tmr_ticks cb n (s, w) = Some (s1, w1)" "wsafe s1" and c: "core (tmr s1 i) = core (tmr s i)"
    and l: "unat (OSTmrMatch (tmr s1 i) - OSTmrTime s1) = 1"
    using ticks_wait [OF cb s i, of n w] n by auto
  have "OSTmrMatch (tmr s1 i) - OSTmrTime s1 = 1" using l by (metis unat_1 word_unat_eq_iff)
  then have m: "OSTmrMatch (tmr s1 i) = OSTmrTime s1 + 1" by (simp add: algebra_simps)
  have du: "due (s1\<lparr>OSTmrTime := OSTmrTime s1 + 1\<rparr>) i" using m i core_eqD(1) [OF c] by (simp add: due_def)
  obtain s' w' where t: "OSTmr_Task cb (s1, w1) = Some (s', w')" "wsafe s'" "OSTmrTime s' = OSTmrTime s1 + 1"
    and f: "core (tmr s' i) = core (fired (OSTmrTime s1 + 1) (tmr s1 i))"
    using task_spec [OF cb a(2), of w1] du by auto
  have "core (fired x (tmr s1 i)) = core (fired x (tmr s i))" for x using core_eqD [OF c] core_cong [OF c] by (simp add: fired_def)
  moreover have "tmr_ticks cb ?r (s, w) = Some (s', w')" unfolding n tmr_ticks_snoc using a t by simp
  ultimately show ?thesis using t f by auto
qed

lemma start_spec:
  assumes s: "wsafe s" and i: "i < OS_TMR_CFG_MAX" "OSTmrState (tmr s i) \<noteq> OS_TMR_STATE_UNUSED" and n: "OSIntNesting s = 0"
    and r: "OSTmrStart i s = (ok, err, s')"
  shows "ok \<and> err = OS_ERR_NONE \<and> wsafe s' \<and> OSTmrTime s' = OSTmrTime s \<and>
    core (tmr s' i) = core ((tmr s i)\<lparr>OSTmrState := OS_TMR_STATE_RUNNING, OSTmrMatch := link_match OS_TMR_LINK_DLY (tmr s i) (OSTmrTime s)\<rparr>)"
proof -
  let ?l = "OSSchedLock s"
  have inv: "tmr_inv ?l" "wsafe ?l" using wsafe_lock(1) [OF s] by auto
  have ty: "OSTmrType (tmr s i) = OS_TMR_TYPE" and st4: "OSTmrState (tmr s i) < 4" using s i by (auto simp: tmr_inv_def)
  have st: "OSTmrState (tmr s i) \<in> {1, 2, 3}"
  proof -
    have "unat (OSTmrState (tmr s i)) < 4" "unat (OSTmrState (tmr s i)) \<noteq> 0" using st4 i(2) by (simp_all add: word_less_nat_alt unat_eq_zero)
    then have "unat (OSTmrState (tmr s i)) \<in> {1, 2, 3}" by auto
    then show ?thesis by (auto simp: word_unat_eq_iff)
  qed
  have w: "wsafe s'" using start_safe [OF s i(1)] r by simp
  show ?thesis
  proof (cases "OSTmrState (tmr s i) = 3")
    case True
    let ?u = "OSTmr_Unlink i ?l"
    have rl: "OSTmrState (tmr ?l i) = OS_TMR_STATE_RUNNING" using True by simp
    note u = tmr_inv_unlink [OF inv(1) i(1) rl]
    have c: "core (tmr ?u i) = core ((tmr s i)\<lparr>OSTmrState := OS_TMR_STATE_STOPPED\<rparr>)" using u(2) [of i] by simp
    note e = core_eqD [OF c, simplified]
    have q: "OSTmrState (tmr ?u i) \<noteq> OS_TMR_STATE_UNUSED" "OSTmrState (tmr ?u i) \<noteq> OS_TMR_STATE_RUNNING" using e(1) by auto
    note k = link_eqs [OF tmr_inv_link(2) [OF u(1) i(1) q, of OS_TMR_LINK_DLY]]
    have "link_match OS_TMR_LINK_DLY (tmr ?u i) (OSTmrTime ?u) = link_match OS_TMR_LINK_DLY (tmr s i) (OSTmrTime s)"
      using e u(4) by (simp add: link_match_def)
    then show ?thesis using r True ty n w k(3) [of i] k(8) u(4) core_cong(2) [OF c] by (auto simp: OSTmrStart_def Let_def)
  next
    case False
    have q: "OSTmrState (tmr ?l i) \<noteq> OS_TMR_STATE_UNUSED" "OSTmrState (tmr ?l i) \<noteq> OS_TMR_STATE_RUNNING" using i(2) False by auto
    note k = link_eqs [OF tmr_inv_link(2) [OF inv(1) i(1) q, of OS_TMR_LINK_DLY]]
    show ?thesis using r False st ty n w k(3) [of i] k(8) by (auto simp: OSTmrStart_def Let_def)
  qed
qed

section \<open>The initial state\<close>

lemma tmr_tables_cells:
  "i < 16 \<Longrightarrow> tmr (tmr_tables s) i = tmr_zero\<lparr>OSTmrType := OS_TMR_TYPE, OSTmrNext := if i = 15 then None else Some (i + 1), OSTmrName := ''?''\<rparr>"
proof -
  have "fold (\<lambda>ix t. t(ix := (t ix)\<lparr>OSTmrType := OS_TMR_TYPE, OSTmrState := OS_TMR_STATE_UNUSED, OSTmrNext := Some (ix + 1),
      OSTmrName := ''?''\<rparr>)) [0..<n] (\<lambda>_. tmr_zero) j =
    (if j < n then tmr_zero\<lparr>OSTmrType := OS_TMR_TYPE, OSTmrNext := Some (j + 1), OSTmrName := ''?''\<rparr> else tmr_zero)" for n j
    by (induction n) (auto simp: tmr_zero_def)
  then show "i < 16 \<Longrightarrow> ?thesis" by (auto simp: tmr_tables_def Let_def tmr_zero_def)
qed

lemma tmr_tables_rest:
  "OSTmrFreeList (tmr_tables s) = Some 0" "OSTmrUsed (tmr_tables s) = 0" "OSTmrFree (tmr_tables s) = 16" "OSTmrTime (tmr_tables s) = 0"
  "OSTmrWheelTbl (tmr_tables s) = (\<lambda>_. \<lparr>OSTmrFirst = None, OSTmrEntries = 0\<rparr>)" "same_kernel s (tmr_tables s)"
  by (simp_all add: tmr_tables_def Let_def same_kernel_def)

lemma chain_upt:
  assumes "\<And>i. a \<le> i \<Longrightarrow> i < b \<Longrightarrow> nx i = (if i = b - 1 then None else Some (i + 1))" "a < b"
  shows "chain nx (Some a) [a..<b]"
  using assms
proof (induction "b - a" arbitrary: a)
  case (Suc n)
  show ?case
  proof (cases "a = b - 1")
    case True
    then have "[a..<b] = [a]" using Suc.prems(2) by (simp add: upt_rec)
    then show ?thesis using Suc.prems True by simp
  next
    case False
    then have "chain nx (Some (a + 1)) [a + 1..<b]" using Suc by simp
    then show ?thesis using Suc.prems False by (simp add: upt_conv_Cons)
  qed
qed simp

lemma tmr_inv_tables: "tmr_inv (tmr_tables s)"
proof (rule tmr_invI)
  let ?s = "tmr_tables s"
  have z: "OSTmrState (tmr ?s i) = 0" "OSTmrType (tmr ?s i) = OS_TMR_TYPE" "nxt ?s i = (if i = 15 then None else Some (i + 1))" if "i < 16" for i
    using tmr_tables_cells [OF that] by (simp_all add: tmr_zero_def nxt_def)
  have "chain (nxt ?s) (Some 0) [0..<16]" by (rule chain_upt) (auto simp: z)
  then show "tmr_pool ?s [0..<16]" by (auto simp: tmr_pool_def tmr_tables_rest)
  show "set [0..<16] = {i. i < 16 \<and> OSTmrState (tmr ?s i) = 0}" using z by auto
  show "\<exists>xs. spoke_ok ?s k xs" for k using z by (intro exI [of _ "[]"]) (auto simp: spoke_ok_def tmr_tables_rest running_def)
  show "OSTmrType (tmr ?s i) = OS_TMR_TYPE \<and> OSTmrState (tmr ?s i) < 4" if "i < 16" for i using z that by simp
qed

section \<open>Properties\<close>

text \<open>The timers of a kernel in which a one-shot timer of 5 ticks has been created.\<close>

definition tmex :: os where
  "tmex = snd (snd (OSTmrCreate 5 0 OS_TMR_OPT_ONE_SHOT (Some 7) PNull ''t'' (tmr_tables (ex_os OS_EVENT_TYPE_SEM 0 PNull True))))"

definition log_cb :: "(nat \<times> nat) list callback" where
  "log_cb f i a x = (fst x, snd x @ [(f, i)])"

lemma log_cb_ok: "cb_ok log_cb" "cb_logs log_cb (\<lambda>f i a w. w @ [(f, i)])"
  by (simp_all add: cb_ok_def cb_logs_def log_cb_def)

lemma tmex_facts:
  "wsafe tmex" "OSTmrState (tmr tmex 0) = OS_TMR_STATE_STOPPED" "OSTmrDly (tmr tmex 0) = 5" "OSTmrOpt (tmr tmex 0) = OS_TMR_OPT_ONE_SHOT"
  "OSIntNesting tmex = 0" "OSTmrTime tmex = 0"
proof -
  let ?b = "ex_os OS_EVENT_TYPE_SEM 0 PNull True"
  have "wsafe (tmr_tables ?b)"
    using same_kernel_ksafe [OF tmr_tables_rest(6)] ex_safe tmr_inv_tables by (simp add: stat_mask_def)
  then show "wsafe tmex" unfolding tmex_def by (rule create_safe)
  have n: "OSIntNesting (tmr_tables ?b) = 0" using tmr_tables_rest(6) [of ?b] ex_fields by (simp add: same_kernel_def)
  have e: "tmex = OSSchedUnlock (upd_tmr 0 (\<lambda>t. t\<lparr>OSTmrState := OS_TMR_STATE_STOPPED, OSTmrDly := 5, OSTmrPeriod := 0, OSTmrOpt := OS_TMR_OPT_ONE_SHOT,
      OSTmrCallback := Some 7, OSTmrCallbackArg := PNull, OSTmrName := ''t''\<rparr>) (snd (OSTmr_Alloc (OSSchedLock (tmr_tables ?b)))))"
    using n by (simp add: tmex_def OSTmrCreate_def OSTmr_Alloc_def tmr_tables_rest Let_def)
  show "OSTmrState (tmr tmex 0) = OS_TMR_STATE_STOPPED" "OSTmrDly (tmr tmex 0) = 5" "OSTmrOpt (tmr tmex 0) = OS_TMR_OPT_ONE_SHOT"
    unfolding e by (simp_all add: upd_tmr_def)
  show "OSTmrTime tmex = 0" unfolding e by (simp add: upd_tmr_def OSTmr_Alloc_def tmr_tables_rest Let_def)
  have "OSIntNesting (OSSchedUnlock x) = OSIntNesting x" "OSIntNesting (OSSchedLock x) = OSIntNesting x" for x
    by (simp_all add: OSSchedUnlock_def OSSchedLock_def Let_def)
  then show "OSIntNesting tmex = 0" unfolding e using n by (simp add: upd_tmr_def OSTmr_Alloc_def tmr_tables_rest Let_def)
qed

text \<open>Every service keeps the kernel and the timers well formed: each running timer stands on the spoke of its expiry
  time in a doubly linked list, the unused ones are exactly the free list, and the counters agree.\<close>

theorem tmr_services_safe:
  assumes "wsafe s" "i < OS_TMR_CFG_MAX" "cb_ok cb"
  shows "wsafe (snd (snd (OSTmrCreate dly period opt callback arg pname s))) \<and> wsafe (snd (snd (OSTmrDel i s))) \<and>
    wsafe (snd (snd (OSTmrStart i s))) \<and> wsafe (fst (snd (snd (OSTmrStop cb i opt arg (s, w))))) \<and>
    wsafe (snd (snd (OSTmrRemainGet i s))) \<and> wsafe (snd (snd (OSTmrStateGet i s))) \<and> wsafe (snd (snd (snd (OSTmrNameGet i s))))"
  by (intro conjI [OF create_safe [OF assms(1)] conjI [OF del_safe [OF assms(1,2)] conjI [OF start_safe [OF assms(1,2)]
    conjI [OF stop_safe [OF assms] conjI [OF query_safe(2) [OF assms(1)] conjI [OF query_safe(3,1) [OF assms(1)]]]]]]])

theorem tmr_services_safe_witness:
  "wsafe (snd (snd (OSTmrDel 0 tmex))) \<and> wsafe (fst (snd (snd (OSTmrStop log_cb 0 OS_TMR_OPT_CALLBACK PNull (tmex, [])))))"
  using tmr_services_safe [of tmex 0 log_cb] tmex_facts(1) log_cb_ok(1) by simp

text \<open>C17. A turn of the timer task whose callbacks leave the timers alone and the kernel well formed (\<open>cb_ok\<close>) and do to the rest of
  the program what \<open>lg\<close> says (\<open>cb_logs\<close>) returns. It advances the time by one; a timer that is running and whose expiry time has come
  is completed or, if periodic, started again; no other timer changes; and the callbacks that are called are
  exactly those of the timers that expire, each once. (With a callback that stops or deletes the next timer of the spoke this fails: the
  rest of the spoke is skipped.)\<close>

theorem tmr_task_fires:
  assumes "cb_ok cb" "wsafe s" "cb_logs cb lg"
  shows "\<exists>s' w' fs. OSTmr_Task cb (s, w) = Some (s', w') \<and> wsafe s' \<and> OSTmrTime s' = OSTmrTime s + 1 \<and>
    distinct fs \<and> set fs = {j. j < OS_TMR_CFG_MAX \<and> OSTmrState (tmr s j) = OS_TMR_STATE_RUNNING \<and> OSTmrMatch (tmr s j) = OSTmrTime s + 1} \<and>
    (\<forall>j. core (tmr s' j) = (if j \<in> set fs then core (fired (OSTmrTime s + 1) (tmr s j)) else core (tmr s j))) \<and>
    w' = fold (\<lambda>j w. case OSTmrCallback (tmr s j) of None \<Rightarrow> w | Some f \<Rightarrow> lg f j (OSTmrCallbackArg (tmr s j)) w) fs w"
proof -
  let ?t = "s\<lparr>OSTmrTime := OSTmrTime s + 1\<rparr>"
  obtain s' w' fs where t: "OSTmr_Task cb (s, w) = Some (s', w')" "wsafe s'" "OSTmrTime s' = OSTmrTime s + 1"
    "\<forall>j. core (tmr s' j) = (if due ?t j then core (fired (OSTmrTime s + 1) (tmr s j)) else core (tmr s j))"
    "distinct fs" "set fs = {j. due ?t j}" "w' = fold (call lg ?t) fs w"
    using task_spec [OF assms(1,2), of w] assms(3) by metis
  have "w' = fold (\<lambda>j w. case OSTmrCallback (tmr s j) of None \<Rightarrow> w | Some f \<Rightarrow> lg f j (OSTmrCallbackArg (tmr s j)) w) fs w"
    unfolding t(7) using t(6) by (intro fold_cong) (auto simp: call_def fun_eq_iff split: option.split)
  then show ?thesis using t by (intro exI [of _ s'] exI [of _ w'] exI [of _ fs]) (auto simp: due_def)
qed

theorem tmr_task_fires_witness: "\<exists>s' w'. OSTmr_Task log_cb (tmex, []) = Some (s', w') \<and> OSTmrTime s' = 1"
  using tmr_task_fires [OF log_cb_ok(1) tmex_facts(1) log_cb_ok(2), of "[]"] tmex_facts(6) by auto

text \<open>C14. A timer in use that a task starts expires at exactly the tick its delay (or, without one, its period), which is not 0, names: until then it
  is running and the time left goes down by one at each tick; at that tick it is completed or, if periodic, runs
  again with its full period before it. This is for callbacks (\<open>cb_ok\<close>) that leave the timers alone, their own and the others, and the kernel well
  formed: a callback that stops or deletes the next timer of its spoke makes \<open>OSTmr_Task\<close> skip the rest of the spoke.\<close>

theorem tmr_expires_exactly:
  assumes s: "wsafe s" and i: "i < OS_TMR_CFG_MAX" "OSTmrState (tmr s i) \<noteq> OS_TMR_STATE_UNUSED" and n: "OSIntNesting s = 0"
    and cb: "cb_ok cb" and r: "OSTmrStart i s = (ok, err, s1)"
    and d: "d = (if OSTmrDly (tmr s i) = 0 then OSTmrPeriod (tmr s i) else OSTmrDly (tmr s i))" "d \<noteq> 0"
  shows "ok \<and> err = OS_ERR_NONE \<and>
    (\<forall>k<unat d. \<exists>s2 w2. tmr_ticks cb k (s1, w) = Some (s2, w2) \<and> wsafe s2 \<and> OSTmrState (tmr s2 i) = OS_TMR_STATE_RUNNING \<and>
       unat (OSTmrMatch (tmr s2 i) - OSTmrTime s2) = unat d - k) \<and>
    (\<exists>s2 w2. tmr_ticks cb (unat d) (s1, w) = Some (s2, w2) \<and> wsafe s2 \<and>
       (if OSTmrOpt (tmr s i) = OS_TMR_OPT_PERIODIC
        then OSTmrState (tmr s2 i) = OS_TMR_STATE_RUNNING \<and> OSTmrMatch (tmr s2 i) - OSTmrTime s2 = OSTmrPeriod (tmr s i)
        else OSTmrState (tmr s2 i) = OS_TMR_STATE_COMPLETED))"
proof -
  have st: "ok \<and> err = OS_ERR_NONE \<and> wsafe s1 \<and> OSTmrTime s1 = OSTmrTime s"
    and c: "core (tmr s1 i) = core ((tmr s i)\<lparr>OSTmrState := OS_TMR_STATE_RUNNING, OSTmrMatch := link_match OS_TMR_LINK_DLY (tmr s i) (OSTmrTime s)\<rparr>)"
    using start_spec [OF s i n r] by auto
  note e = core_eqD [OF c, simplified]
  have m: "OSTmrMatch (tmr s1 i) - OSTmrTime s1 = d" using e(2) st d(1) by (simp add: link_match_def)
  have w: "wsafe s1" using st by simp
  have "\<exists>s2 w2. tmr_ticks cb k (s1, w) = Some (s2, w2) \<and> wsafe s2 \<and> OSTmrState (tmr s2 i) = OS_TMR_STATE_RUNNING \<and>
       unat (OSTmrMatch (tmr s2 i) - OSTmrTime s2) = unat d - k" if "k < unat d" for k
    using ticks_wait [OF cb w i(1) e(1), of k w] that core_eqD(1) e(1) unfolding m by metis
  moreover obtain s2 w2 where f: "tmr_ticks cb (unat d) (s1, w) = Some (s2, w2)" "wsafe s2"
    "core (tmr s2 i) = core (fired (OSTmrTime s2) (tmr s1 i))"
    using ticks_fire [OF cb w i(1) e(1), of w] d(2) m by force
  moreover have "if OSTmrOpt (tmr s i) = OS_TMR_OPT_PERIODIC
      then OSTmrState (tmr s2 i) = OS_TMR_STATE_RUNNING \<and> OSTmrMatch (tmr s2 i) - OSTmrTime s2 = OSTmrPeriod (tmr s i)
      else OSTmrState (tmr s2 i) = OS_TMR_STATE_COMPLETED"
    using core_eqD(1,2) [OF f(3)] e by (simp add: fired_def)
  ultimately show ?thesis using st by blast
qed

theorem tmr_expires_exactly_witness:
  "\<exists>s2 w2. tmr_ticks log_cb 5 (snd (snd (OSTmrStart 0 tmex)), []) = Some (s2, w2) \<and> OSTmrState (tmr s2 0) = OS_TMR_STATE_COMPLETED"
proof -
  obtain ok err s1 where r: "OSTmrStart 0 tmex = (ok, err, s1)" by (metis prod_cases3)
  show ?thesis using tmr_expires_exactly [OF tmex_facts(1) _ _ tmex_facts(5) log_cb_ok(1) r, of 5 "[]"] tmex_facts(2-4) r by auto
qed

end
