(* ===== verification/OsFlag.thy ===== *)
theory OsFlag
  imports OsTime
begin

text \<open>
  Event flag groups, demo/UCOSII/CORE/os_flag.c. The node that \<open>OSFlagPend\<close> keeps on the stack
  of the calling task is the entry of \<open>OSFlagNodes\<close> with the index of that task; the wait list
  of a group is a doubly linked list of such nodes. A pend that blocks returns \<open>None\<close>, and the
  rest of the C function is \<open>OSFlagPend_return\<close>.
\<close>

section \<open>Operations\<close>

abbreviation (input) "OS_FLAG_WAIT_CLR_ALL \<equiv> 0 :: u8"
abbreviation (input) "OS_FLAG_WAIT_CLR_ANY \<equiv> 1 :: u8"
abbreviation (input) "OS_FLAG_WAIT_SET_ALL \<equiv> 2 :: u8"
abbreviation (input) "OS_FLAG_WAIT_SET_ANY \<equiv> 3 :: u8"
abbreviation (input) "OS_FLAG_CONSUME \<equiv> 0x80 :: u8"
abbreviation (input) "OS_FLAG_CLR \<equiv> 0 :: u8"
abbreviation (input) "OS_FLAG_SET \<equiv> 1 :: u8"

abbreviation grp :: "os \<Rightarrow> nat \<Rightarrow> os_flag_grp" where "grp s g \<equiv> OSFlagTbl s g"
abbreviation node :: "os \<Rightarrow> nat \<Rightarrow> os_flag_node" where "node s j \<equiv> OSFlagNodes s j"

definition upd_grp :: "nat \<Rightarrow> (os_flag_grp \<Rightarrow> os_flag_grp) \<Rightarrow> os \<Rightarrow> os" where
  "upd_grp g f s = s\<lparr>OSFlagTbl := (OSFlagTbl s)(g := f (OSFlagTbl s g))\<rparr>"

definition upd_node :: "nat \<Rightarrow> (os_flag_node \<Rightarrow> os_flag_node) \<Rightarrow> os \<Rightarrow> os" where
  "upd_node j f s = s\<lparr>OSFlagNodes := (OSFlagNodes s)(j := f (OSFlagNodes s j))\<rparr>"

fun node_link :: "ptr \<Rightarrow> nat option" where
  "node_link (PFlagNode j) = Some j"
| "node_link _ = None"

fun grp_link :: "ptr \<Rightarrow> nat option" where
  "grp_link (PFlagGrp g) = Some g"
| "grp_link _ = None"

definition ptr_of_grp :: "nat option \<Rightarrow> ptr" where
  "ptr_of_grp p = (case p of None \<Rightarrow> PNull | Some g \<Rightarrow> PFlagGrp g)"

text \<open>
  The switch on the wait type that \<open>OSFlagAccept\<close>, \<open>OSFlagPend\<close> and \<open>OSFlagPost\<close> each spell
  out: the flags that are ready and whether the wait is satisfied; \<open>None\<close> is the default branch.
\<close>

definition flags_match :: "u8 \<Rightarrow> u16 \<Rightarrow> u16 \<Rightarrow> (u16 \<times> bool) option" where
  "flags_match wait_type now flags =
    (if wait_type = OS_FLAG_WAIT_SET_ALL then Some (now AND flags, now AND flags = flags)
     else if wait_type = OS_FLAG_WAIT_SET_ANY then Some (now AND flags, now AND flags \<noteq> 0)
     else if wait_type = OS_FLAG_WAIT_CLR_ALL then Some (NOT now AND flags, NOT now AND flags = flags)
     else if wait_type = OS_FLAG_WAIT_CLR_ANY then Some (NOT now AND flags, NOT now AND flags \<noteq> 0)
     else None)"

definition flags_consume :: "u8 \<Rightarrow> u16 \<Rightarrow> u16 \<Rightarrow> u16" where
  "flags_consume wait_type flags_rdy now =
    (if wait_type = OS_FLAG_WAIT_SET_ALL \<or> wait_type = OS_FLAG_WAIT_SET_ANY
     then now AND NOT flags_rdy else now OR flags_rdy)"

definition consume_grp :: "nat \<Rightarrow> u8 \<Rightarrow> u16 \<Rightarrow> os \<Rightarrow> os" where
  "consume_grp g wait_type flags_rdy =
     upd_grp g (\<lambda>v. v\<lparr>OSFlagFlags := flags_consume wait_type flags_rdy (OSFlagFlags v)\<rparr>)"

definition OSFlagAccept :: "nat \<Rightarrow> u16 \<Rightarrow> u8 \<Rightarrow> os \<Rightarrow> u16 \<times> u8 \<times> os" where
  "OSFlagAccept g flags wait_type s =
    (if OSFlagType (grp s g) \<noteq> OS_EVENT_TYPE_FLAG then (0, OS_ERR_EVENT_TYPE, s)
     else let consume = (wait_type AND OS_FLAG_CONSUME \<noteq> 0);
              wt = wait_type AND NOT OS_FLAG_CONSUME
          in case flags_match wt (OSFlagFlags (grp s g)) flags of
               None \<Rightarrow> (0, OS_ERR_FLAG_WAIT_TYPE, s)
             | Some (flags_rdy, ok) \<Rightarrow>
                 if ok then (flags_rdy, OS_ERR_NONE, if consume then consume_grp g wt flags_rdy s else s)
                 else (flags_rdy, OS_ERR_FLAG_NOT_RDY, s))"

definition OSFlagCreate :: "u16 \<Rightarrow> os \<Rightarrow> nat option \<times> u8 \<times> os" where
  "OSFlagCreate flags s =
    (if 0 < OSIntNesting s then (None, OS_ERR_CREATE_ISR, s)
     else case OSFlagFreeList s of
            None \<Rightarrow> (None, OS_ERR_FLAG_GRP_DEPLETED, s)
          | Some g \<Rightarrow> (Some g, OS_ERR_NONE,
              upd_grp g (\<lambda>v. v\<lparr>OSFlagType := OS_EVENT_TYPE_FLAG, OSFlagFlags := flags,
                OSFlagWaitList := PNull, OSFlagName := ''?''\<rparr>)
              (s\<lparr>OSFlagFreeList := grp_link (OSFlagWaitList (grp s g))\<rparr>)))"

definition OS_FlagUnlink :: "nat \<Rightarrow> os \<Rightarrow> os" where
  "OS_FlagUnlink j s =
    (let pnode_prev = node_link (OSFlagNodePrev (node s j));
         pnode_next = OSFlagNodeNext (node s j);
         s1 = (case pnode_prev of
                 None \<Rightarrow> upd_grp (OSFlagNodeFlagGrp (node s j)) (\<lambda>v. v\<lparr>OSFlagWaitList := pnode_next\<rparr>) s
               | Some k \<Rightarrow> upd_node k (\<lambda>n. n\<lparr>OSFlagNodeNext := pnode_next\<rparr>) s);
         s2 = (case node_link pnode_next of
                 None \<Rightarrow> s1
               | Some n \<Rightarrow> upd_node n (\<lambda>v. v\<lparr>OSFlagNodePrev :=
                   (case pnode_prev of None \<Rightarrow> PNull | Some k \<Rightarrow> PFlagNode k)\<rparr>) s1)
     in upd_tcb (OSFlagNodeTCB (node s2 j)) (\<lambda>t. t\<lparr>OSTCBFlagNode := None\<rparr>) s2)"

definition OS_FlagTaskRdy :: "nat \<Rightarrow> u16 \<Rightarrow> os \<Rightarrow> bool \<times> os" where
  "OS_FlagTaskRdy j flags_rdy s =
    (let i = OSFlagNodeTCB (node s j);
         s1 = upd_tcb i (\<lambda>t. t\<lparr>OSTCBDly := 0, OSTCBFlagsRdy := flags_rdy,
                OSTCBStat := OSTCBStat t AND NOT OS_STAT_FLAG, OSTCBStatPend := OS_STAT_PEND_OK\<rparr>) s;
         sched = (OSTCBStat (tcb s1 i) = OS_STAT_RDY);
         s2 = (if sched then rdy_set (tcb s1 i) s1 else s1)
     in (sched, OS_FlagUnlink j s2))"

definition OS_FlagBlock :: "nat \<Rightarrow> nat \<Rightarrow> u16 \<Rightarrow> u8 \<Rightarrow> u32 \<Rightarrow> os \<Rightarrow> os" where
  "OS_FlagBlock g j flags wait_type timeout s =
    (let s1 = upd_tcb (cur s) (\<lambda>t. t\<lparr>OSTCBStat := OSTCBStat t OR OS_STAT_FLAG,
                OSTCBStatPend := OS_STAT_PEND_OK, OSTCBDly := timeout, OSTCBFlagNode := Some j\<rparr>) s;
         s2 = upd_node j (\<lambda>n. n\<lparr>OSFlagNodeFlags := flags, OSFlagNodeWaitType := wait_type,
                OSFlagNodeTCB := cur s, OSFlagNodeNext := OSFlagWaitList (grp s1 g),
                OSFlagNodePrev := PNull, OSFlagNodeFlagGrp := g\<rparr>) s1;
         s3 = (case node_link (OSFlagWaitList (grp s2 g)) of
                 None \<Rightarrow> s2
               | Some n \<Rightarrow> upd_node n (\<lambda>v. v\<lparr>OSFlagNodePrev := PFlagNode j\<rparr>) s2);
         s4 = upd_grp g (\<lambda>v. v\<lparr>OSFlagWaitList := PFlagNode j\<rparr>) s3
     in rdy_clear (tcb s4 (cur s)) s4)"

text \<open>The group goes back to the free list, in \<open>OSFlagDel\<close>.\<close>

definition grp_put :: "nat \<Rightarrow> os \<Rightarrow> os" where
  "grp_put g s = (upd_grp g (\<lambda>v. v\<lparr>OSFlagName := ''?'', OSFlagType := OS_EVENT_TYPE_UNUSED,
     OSFlagWaitList := ptr_of_grp (OSFlagFreeList s), OSFlagFlags := 0\<rparr>) s)\<lparr>OSFlagFreeList := Some g\<rparr>"

text \<open>
  The loops over the wait list. The link is read after the node has been unlinked, as in the
  source; \<open>None\<close> is a loop that does not end. The loop of \<open>OSFlagPost\<close> stops in the default branch
  of its switch, for which the first component of the result is \<open>None\<close>.
\<close>

partial_function (option) flag_del_loop :: "nat option \<Rightarrow> os \<Rightarrow> os option" where
  "flag_del_loop p s =
    (case p of
       None \<Rightarrow> Some s
     | Some j \<Rightarrow> let s1 = snd (OS_FlagTaskRdy j 0 s)
                in flag_del_loop (node_link (OSFlagNodeNext (node s1 j))) s1)"

partial_function (option) flag_post_loop ::
  "nat \<Rightarrow> nat option \<Rightarrow> bool \<Rightarrow> os \<Rightarrow> (bool option \<times> os) option" where
  "flag_post_loop g p sched s =
    (case p of
       None \<Rightarrow> Some (Some sched, s)
     | Some j \<Rightarrow>
         (case flags_match (OSFlagNodeWaitType (node s j)) (OSFlagFlags (grp s g)) (OSFlagNodeFlags (node s j)) of
            None \<Rightarrow> Some (None, s)
          | Some (flags_rdy, ok) \<Rightarrow>
              (let (rdy, s1) = (if ok then OS_FlagTaskRdy j flags_rdy s else (False, s))
               in flag_post_loop g (node_link (OSFlagNodeNext (node s1 j))) (sched \<or> rdy) s1)))"

definition OSFlagDel :: "nat \<Rightarrow> u8 \<Rightarrow> os \<Rightarrow> (nat option \<times> u8 \<times> os) option" where
  "OSFlagDel g opt s =
    (if 0 < OSIntNesting s then Some (Some g, OS_ERR_DEL_ISR, s)
     else if OSFlagType (grp s g) \<noteq> OS_EVENT_TYPE_FLAG then Some (Some g, OS_ERR_EVENT_TYPE, s)
     else let tasks_waiting = (OSFlagWaitList (grp s g) \<noteq> PNull) in
       if opt = OS_DEL_NO_PEND then
         if \<not> tasks_waiting then Some (None, OS_ERR_NONE, grp_put g s)
         else Some (Some g, OS_ERR_TASK_WAITING, s)
       else if opt = OS_DEL_ALWAYS then
         (case flag_del_loop (node_link (OSFlagWaitList (grp s g))) s of
            None \<Rightarrow> None
          | Some s1 \<Rightarrow> let s2 = grp_put g s1
                      in Some (None, OS_ERR_NONE, if tasks_waiting then OS_Sched s2 else s2))
       else Some (Some g, OS_ERR_INVALID_OPT, s))"

definition OSFlagNameGet :: "nat \<Rightarrow> os \<Rightarrow> u8 \<times> string option \<times> u8" where
  "OSFlagNameGet g s =
    (if 0 < OSIntNesting s then (0, None, OS_ERR_NAME_GET_ISR)
     else if OSFlagType (grp s g) \<noteq> OS_EVENT_TYPE_FLAG then (0, None, OS_ERR_EVENT_TYPE)
     else (OS_StrLen (OSFlagName (grp s g)), Some (OSFlagName (grp s g)), OS_ERR_NONE))"

definition OSFlagNameSet :: "nat \<Rightarrow> string \<Rightarrow> os \<Rightarrow> u8 \<times> os" where
  "OSFlagNameSet g pname s =
    (if 0 < OSIntNesting s then (OS_ERR_NAME_SET_ISR, s)
     else if OSFlagType (grp s g) \<noteq> OS_EVENT_TYPE_FLAG then (OS_ERR_EVENT_TYPE, s)
     else (OS_ERR_NONE, upd_grp g (\<lambda>v. v\<lparr>OSFlagName := pname\<rparr>) s))"

definition OSFlagPend :: "nat \<Rightarrow> u16 \<Rightarrow> u8 \<Rightarrow> u32 \<Rightarrow> os \<Rightarrow> (u16 \<times> u8) option \<times> os" where
  "OSFlagPend g flags wait_type timeout s =
    (if 0 < OSIntNesting s then (Some (0, OS_ERR_PEND_ISR), s)
     else if 0 < OSLockNesting s then (Some (0, OS_ERR_PEND_LOCKED), s)
     else if OSFlagType (grp s g) \<noteq> OS_EVENT_TYPE_FLAG then (Some (0, OS_ERR_EVENT_TYPE), s)
     else let consume = (wait_type AND OS_FLAG_CONSUME \<noteq> 0);
              wt = wait_type AND NOT OS_FLAG_CONSUME
          in case flags_match wt (OSFlagFlags (grp s g)) flags of
               None \<Rightarrow> (Some (0, OS_ERR_FLAG_WAIT_TYPE), s)
             | Some (flags_rdy, ok) \<Rightarrow>
                 if ok then
                   (Some (flags_rdy, OS_ERR_NONE),
                    upd_tcb (cur s) (\<lambda>t. t\<lparr>OSTCBFlagsRdy := flags_rdy\<rparr>)
                      (if consume then consume_grp g wt flags_rdy s else s))
                 else (None, OS_Sched (OS_FlagBlock g (cur s) flags wt timeout s)))"

definition OSFlagPend_return :: "nat \<Rightarrow> u8 \<Rightarrow> os \<Rightarrow> u16 \<times> u8 \<times> os" where
  "OSFlagPend_return g wait_type s =
    (let consume = (wait_type AND OS_FLAG_CONSUME \<noteq> 0);
         wt = wait_type AND NOT OS_FLAG_CONSUME;
         pend_stat = OSTCBStatPend (tcb s (cur s))
     in if pend_stat \<noteq> OS_STAT_PEND_OK then
          (0, if pend_stat = OS_STAT_PEND_ABORT then OS_ERR_PEND_ABORT else OS_ERR_TIMEOUT,
           upd_tcb (cur s) (\<lambda>t. t\<lparr>OSTCBStat := OS_STAT_RDY\<rparr>)
             (OS_FlagUnlink (cur s) (upd_tcb (cur s) (\<lambda>t. t\<lparr>OSTCBStatPend := OS_STAT_PEND_OK\<rparr>) s)))
        else let flags_rdy = OSTCBFlagsRdy (tcb s (cur s)) in
          if consume then
            if wt \<in> {OS_FLAG_WAIT_SET_ALL, OS_FLAG_WAIT_SET_ANY, OS_FLAG_WAIT_CLR_ALL, OS_FLAG_WAIT_CLR_ANY}
            then (flags_rdy, OS_ERR_NONE, consume_grp g wt flags_rdy s)
            else (0, OS_ERR_FLAG_WAIT_TYPE, s)
          else (flags_rdy, OS_ERR_NONE, s))"

definition OSFlagPendGetFlagsRdy :: "os \<Rightarrow> u16" where
  "OSFlagPendGetFlagsRdy s = OSTCBFlagsRdy (tcb s (cur s))"

definition OSFlagPost :: "nat \<Rightarrow> u16 \<Rightarrow> u8 \<Rightarrow> os \<Rightarrow> (u16 \<times> u8 \<times> os) option" where
  "OSFlagPost g flags opt s =
    (if OSFlagType (grp s g) \<noteq> OS_EVENT_TYPE_FLAG then Some (0, OS_ERR_EVENT_TYPE, s)
     else if opt \<noteq> OS_FLAG_CLR \<and> opt \<noteq> OS_FLAG_SET then Some (0, OS_ERR_FLAG_INVALID_OPT, s)
     else let s1 = upd_grp g (\<lambda>v. v\<lparr>OSFlagFlags :=
                (if opt = OS_FLAG_CLR then OSFlagFlags v AND NOT flags else OSFlagFlags v OR flags)\<rparr>) s
          in case flag_post_loop g (node_link (OSFlagWaitList (grp s1 g))) False s1 of
               None \<Rightarrow> None
             | Some (None, s2) \<Rightarrow> Some (0, OS_ERR_FLAG_WAIT_TYPE, s2)
             | Some (Some sched, s2) \<Rightarrow>
                 let s3 = (if sched then OS_Sched s2 else s2)
                 in Some (OSFlagFlags (grp s3 g), OS_ERR_NONE, s3))"

definition OSFlagQuery :: "nat \<Rightarrow> os \<Rightarrow> u16 \<times> u8" where
  "OSFlagQuery g s =
    (if OSFlagType (grp s g) \<noteq> OS_EVENT_TYPE_FLAG then (0, OS_ERR_EVENT_TYPE)
     else (OSFlagFlags (grp s g), OS_ERR_NONE))"

definition OS_FlagInit :: "os \<Rightarrow> os" where
  "OS_FlagInit s =
    (let t = fold (\<lambda>ix t. t(ix := (t ix)\<lparr>OSFlagType := OS_EVENT_TYPE_UNUSED,
               OSFlagWaitList := PFlagGrp (ix + 1), OSFlagName := ''?''\<rparr>))
               [0..<OS_MAX_FLAGS - 1] (\<lambda>_. flag_zero)
     in s\<lparr>OSFlagTbl := t(OS_MAX_FLAGS - 1 := (t (OS_MAX_FLAGS - 1))\<lparr>OSFlagType := OS_EVENT_TYPE_UNUSED,
             OSFlagWaitList := PNull, OSFlagName := ''?''\<rparr>),
          OSFlagFreeList := Some 0\<rparr>)"

section \<open>The invariant of the flag groups\<close>

definition nxt :: "os \<Rightarrow> nat \<Rightarrow> nat option" where "nxt s j = node_link (OSFlagNodeNext (node s j))"
definition prv :: "os \<Rightarrow> nat \<Rightarrow> nat option" where "prv s j = node_link (OSFlagNodePrev (node s j))"
definition whd :: "os \<Rightarrow> nat \<Rightarrow> nat option" where "whd s g = node_link (OSFlagWaitList (grp s g))"

definition flag_list :: "os \<Rightarrow> nat \<Rightarrow> nat list \<Rightarrow> bool" where
  "flag_list s g xs \<longleftrightarrow> dchain (nxt s) (prv s) None (whd s g) xs"

definition node_ptr :: "ptr \<Rightarrow> bool" where
  "node_ptr p \<longleftrightarrow> p = PNull \<or> (\<exists>j. p = PFlagNode j)"

text \<open>
  A task that waits on a group, by its control block and its node. That these tasks are exactly the members of the
  chain that starts at \<open>OSFlagWaitList\<close> is \<open>fgrp_ok\<close>, a part of the invariant \<open>flags_ok\<close>. Below it is what the node and the
  status of such a task look like.
\<close>

definition flag_waits :: "os \<Rightarrow> nat \<Rightarrow> nat \<Rightarrow> bool" where
  "flag_waits s g j \<longleftrightarrow> live s j \<and> OSTCBFlagNode (tcb s j) = Some j \<and> OSFlagNodeFlagGrp (node s j) = g"

definition fnode_ok :: "os \<Rightarrow> nat \<Rightarrow> bool" where
  "fnode_ok s j \<longleftrightarrow>
     (case OSTCBFlagNode (tcb s j) of
        None \<Rightarrow> OSTCBStat (tcb s j) AND OS_STAT_FLAG = 0
      | Some k \<Rightarrow> k = j \<and> OSFlagNodeTCB (node s j) = j \<and> OSFlagNodeWaitType (node s j) < 4 \<and>
          OSFlagType (grp s (OSFlagNodeFlagGrp (node s j))) = OS_EVENT_TYPE_FLAG \<and>
          node_ptr (OSFlagNodeNext (node s j)) \<and> (\<forall>e. prio s j \<notin> wset s e) \<and>
          OSTCBStat (tcb s j) AND NOT (OS_STAT_FLAG OR OS_STAT_SUSPEND) = 0 \<and>
          (OSTCBStat (tcb s j) AND OS_STAT_FLAG = 0 \<longrightarrow>
             OSTCBStatPend (tcb s j) = OS_STAT_PEND_TO \<and> OSTCBDly (tcb s j) = 0))"

definition fgrp_ok :: "os \<Rightarrow> nat \<Rightarrow> bool" where
  "fgrp_ok s g \<longleftrightarrow> node_ptr (OSFlagWaitList (grp s g)) \<and>
     (\<exists>xs. flag_list s g xs \<and> (\<forall>j. j \<in> set xs \<longleftrightarrow> flag_waits s g j))"

definition fglist_ok :: "os \<Rightarrow> bool" where
  "fglist_ok s \<longleftrightarrow> (\<exists>xs. chain (\<lambda>g. grp_link (OSFlagWaitList (grp s g))) (OSFlagFreeList s) xs \<and>
     (\<forall>g \<in> set xs. g < OS_MAX_FLAGS \<and> OSFlagType (grp s g) = OS_EVENT_TYPE_UNUSED))"

definition flags_ok :: "os \<Rightarrow> bool" where
  "flags_ok s \<longleftrightarrow> (\<forall>j. live s j \<longrightarrow> fnode_ok s j) \<and>
     (\<forall>g. OSFlagType (grp s g) = OS_EVENT_TYPE_FLAG \<longrightarrow> fgrp_ok s g) \<and> fglist_ok s"

abbreviation fsafe :: "os \<Rightarrow> bool" where "fsafe s \<equiv> ksafe s \<and> flags_ok s"

lemma flags_okD:
  assumes "flags_ok s"
  shows "live s j \<Longrightarrow> fnode_ok s j" and "OSFlagType (grp s g) = OS_EVENT_TYPE_FLAG \<Longrightarrow> fgrp_ok s g"
    and "fglist_ok s"
  using assms by (auto simp: flags_ok_def)

lemma fgrp_okE:
  assumes "flags_ok s" "OSFlagType (grp s g) = OS_EVENT_TYPE_FLAG"
  obtains xs where "flag_list s g xs" "\<And>j. j \<in> set xs \<longleftrightarrow> flag_waits s g j"
    "node_ptr (OSFlagWaitList (grp s g))"
  using flags_okD(2) [OF assms] by (auto simp: fgrp_ok_def)

lemma fnode_waits:
  assumes "flags_ok s" "flag_waits s g j"
  shows "OSFlagNodeTCB (node s j) = j" "OSFlagNodeWaitType (node s j) < 4"
    "OSFlagType (grp s g) = OS_EVENT_TYPE_FLAG" "node_ptr (OSFlagNodeNext (node s j))" "prio s j \<notin> wset s e"
    "OSTCBStat (tcb s j) AND NOT (OS_STAT_FLAG OR OS_STAT_SUSPEND) = 0"
    "OSTCBStat (tcb s j) AND OS_STAT_FLAG = 0 \<Longrightarrow> OSTCBStatPend (tcb s j) = OS_STAT_PEND_TO \<and> OSTCBDly (tcb s j) = 0"
  using flags_okD(1) [OF assms(1), of j] assms(2) by (auto simp: flag_waits_def fnode_ok_def)

section \<open>Unlinking a node\<close>

text \<open>The operations of this file change the task control blocks, the groups, the nodes and the ready list only.\<close>

definition flag_part :: "os \<Rightarrow> os \<Rightarrow> bool" where
  "flag_part s s' \<longleftrightarrow> (\<exists>t f n r b. s' = s\<lparr>OSTCBTbl := t, OSFlagTbl := f, OSFlagNodes := n,
     OSRdyGrp := r, OSRdyTbl := b\<rparr>)"

lemma flag_partI:
  assumes "s\<lparr>OSTCBTbl := OSTCBTbl s', OSFlagTbl := OSFlagTbl s', OSFlagNodes := OSFlagNodes s',
     OSRdyGrp := OSRdyGrp s', OSRdyTbl := OSRdyTbl s'\<rparr> = s'"
  shows "flag_part s s'"
  using assms unfolding flag_part_def by metis

lemma flag_part_refl [simp]: "flag_part s s"
  by (rule flag_partI) simp

lemma flag_part_trans:
  assumes "flag_part s s'" "flag_part s' s''"
  shows "flag_part s s''"
proof -
  obtain t f n r b where 1: "s' = s\<lparr>OSTCBTbl := t, OSFlagTbl := f, OSFlagNodes := n, OSRdyGrp := r, OSRdyTbl := b\<rparr>"
    using assms(1) by (auto simp: flag_part_def)
  obtain t' f' n' r' b' where "s'' = s'\<lparr>OSTCBTbl := t', OSFlagTbl := f', OSFlagNodes := n', OSRdyGrp := r', OSRdyTbl := b'\<rparr>"
    using assms(2) by (auto simp: flag_part_def)
  then have "s'' = s\<lparr>OSTCBTbl := t', OSFlagTbl := f', OSFlagNodes := n', OSRdyGrp := r', OSRdyTbl := b'\<rparr>"
    unfolding 1 by (intro os.equality) simp_all
  then show ?thesis unfolding flag_part_def by blast
qed

lemma flag_part_frame:
  assumes "flag_part s s'"
  shows "OSEventTbl_arr s' = OSEventTbl_arr s" "OSTCBPrioTbl s' = OSTCBPrioTbl s"
    "OSEventFreeList s' = OSEventFreeList s" "OSRunning s' = OSRunning s" "OSTCBCur s' = OSTCBCur s"
    "OSPrioCur s' = OSPrioCur s" "OSIntNesting s' = OSIntNesting s" "OSLockNesting s' = OSLockNesting s"
    "OSFlagFreeList s' = OSFlagFreeList s" "OSTCBList s' = OSTCBList s" "wset s' e = wset s e"
    "cur s' = cur s"
  using assms by (auto simp: flag_part_def wset_def cur_def)

lemma unlink_part: "flag_part s (OS_FlagUnlink j s)"
  by (rule flag_partI, rule os.equality)
    (simp_all add: OS_FlagUnlink_def Let_def upd_grp_def upd_node_def upd_tcb_def split: option.splits)

lemma unlink_links:
  assumes l: "flag_list s g (xs @ j # ys)" and g: "OSFlagNodeFlagGrp (node s j) = g"
  shows "nxt (OS_FlagUnlink j s) = (if xs = [] then nxt s else (nxt s)(last xs := nxt s j))"
    and "prv (OS_FlagUnlink j s) =
      (if ys = [] then prv s else (prv s)(hd ys := if xs = [] then None else Some (last xs)))"
    and "whd (OS_FlagUnlink j s) = (if xs = [] then (whd s)(g := nxt s j) else whd s)"
proof -
  note ends = dchain_ends [OF l [unfolded flag_list_def]]
  have pj: "node_link (OSFlagNodePrev (node s j)) = (if xs = [] then None else Some (last xs))"
    and nj: "node_link (OSFlagNodeNext (node s j)) = (if ys = [] then None else Some (hd ys))"
    using ends by (simp_all add: prv_def nxt_def)
  show "nxt (OS_FlagUnlink j s) = (if xs = [] then nxt s else (nxt s)(last xs := nxt s j))"
    "prv (OS_FlagUnlink j s) =
      (if ys = [] then prv s else (prv s)(hd ys := if xs = [] then None else Some (last xs)))"
    "whd (OS_FlagUnlink j s) = (if xs = [] then (whd s)(g := nxt s j) else whd s)"
    by (auto simp: OS_FlagUnlink_def Let_def pj nj upd_node_def upd_grp_def upd_tcb_def nxt_def prv_def whd_def g
        fun_eq_iff)
qed

lemma unlink_rest [simp]:
  "OSFlagNodeFlagGrp (node (OS_FlagUnlink j s) k) = OSFlagNodeFlagGrp (node s k)"
  "OSFlagNodeTCB (node (OS_FlagUnlink j s) k) = OSFlagNodeTCB (node s k)"
  "OSFlagNodeFlags (node (OS_FlagUnlink j s) k) = OSFlagNodeFlags (node s k)"
  "OSFlagNodeWaitType (node (OS_FlagUnlink j s) k) = OSFlagNodeWaitType (node s k)"
  "OSFlagType (grp (OS_FlagUnlink j s) g) = OSFlagType (grp s g)"
  "OSFlagFlags (grp (OS_FlagUnlink j s) g) = OSFlagFlags (grp s g)"
  "OSFlagName (grp (OS_FlagUnlink j s) g) = OSFlagName (grp s g)"
  "rdy_bm (OS_FlagUnlink j s) = rdy_bm s"
  by (simp_all add: OS_FlagUnlink_def Let_def upd_node_def upd_grp_def upd_tcb_def rdy_bm_def split: option.splits)

lemma unlink_tcb:
  "OSFlagNodeTCB (node s j) = i \<Longrightarrow>
   OSTCBTbl (OS_FlagUnlink j s) = (OSTCBTbl s)(i := (tcb s i)\<lparr>OSTCBFlagNode := None\<rparr>)"
  by (auto simp: OS_FlagUnlink_def Let_def upd_node_def upd_grp_def upd_tcb_def split: option.splits)

lemma unlink_lists:
  assumes l: "flag_list s g (xs @ j # ys)" and g: "OSFlagNodeFlagGrp (node s j) = g"
  shows "flag_list (OS_FlagUnlink j s) g (xs @ ys)"
    and "nxt (OS_FlagUnlink j s) j = (if ys = [] then None else Some (hd ys))"
    and "h \<noteq> g \<Longrightarrow> flag_list s h zs \<Longrightarrow> set zs \<inter> set (xs @ ys) = {} \<Longrightarrow> flag_list (OS_FlagUnlink j s) h zs"
proof -
  note lk = unlink_links [OF l g]
  note ends = dchain_ends [OF l [unfolded flag_list_def]]
  have d: "distinct (xs @ j # ys)" using l [unfolded flag_list_def] by (rule dchain_distinct)
  show "flag_list (OS_FlagUnlink j s) g (xs @ ys)"
    using dchain_remove [OF l [unfolded flag_list_def]] unfolding flag_list_def lk
    by (auto simp del: fun_upd_apply split: if_splits) (auto simp: fun_upd_same)
  show "nxt (OS_FlagUnlink j s) j = (if ys = [] then None else Some (hd ys))"
    unfolding lk using ends d by auto
  show "flag_list (OS_FlagUnlink j s) h zs"
    if h: "h \<noteq> g" and z: "flag_list s h zs" and di: "set zs \<inter> set (xs @ ys) = {}"
  proof -
    have nl: "xs \<noteq> [] \<Longrightarrow> last xs \<notin> set zs" using di last_in_set [of xs] by auto
    have nh: "ys \<noteq> [] \<Longrightarrow> hd ys \<notin> set zs" using di hd_in_set [of ys] by auto
    show ?thesis using z h nl nh unfolding flag_list_def lk by simp
  qed
qed

section \<open>Making a waiting task ready\<close>

definition fl_woken :: "u16 \<Rightarrow> os_tcb \<Rightarrow> os_tcb" where
  "fl_woken f t = t\<lparr>OSTCBDly := 0, OSTCBFlagsRdy := f, OSTCBStat := OSTCBStat t AND NOT OS_STAT_FLAG,
     OSTCBStatPend := OS_STAT_PEND_OK, OSTCBFlagNode := None\<rparr>"

lemma fl_woken_frame [simp]:
  "OSTCBPrio (fl_woken f t) = OSTCBPrio t" "wf_tcb (fl_woken f t) = wf_tcb t"
  "OSTCBStat (fl_woken f t) = OSTCBStat t AND NOT OS_STAT_FLAG" "OSTCBDly (fl_woken f t) = 0"
  "OSTCBStatPend (fl_woken f t) = OS_STAT_PEND_OK" "OSTCBFlagNode (fl_woken f t) = None"
  "OSTCBFlagsRdy (fl_woken f t) = f" "OSTCBEventPtr (fl_woken f t) = OSTCBEventPtr t"
  "OSTCBNext (fl_woken f t) = OSTCBNext t" "OSTCBPrev (fl_woken f t) = OSTCBPrev t"
  by (simp_all add: fl_woken_def wf_tcb_def)

text \<open>\<open>OS_FlagTaskRdy\<close> before the node is unlinked.\<close>

definition flag_rdy1 :: "nat \<Rightarrow> u16 \<Rightarrow> os \<Rightarrow> os" where
  "flag_rdy1 i flags_rdy s =
    (let s1 = upd_tcb i (\<lambda>t. t\<lparr>OSTCBDly := 0, OSTCBFlagsRdy := flags_rdy,
                OSTCBStat := OSTCBStat t AND NOT OS_STAT_FLAG, OSTCBStatPend := OS_STAT_PEND_OK\<rparr>) s
     in if OSTCBStat (tcb s1 i) = OS_STAT_RDY then rdy_set (tcb s1 i) s1 else s1)"

lemma links_cong:
  assumes "OSFlagTbl s' = OSFlagTbl s" "OSFlagNodes s' = OSFlagNodes s"
  shows "nxt s' = nxt s" "prv s' = prv s" "whd s' = whd s" "flag_list s' = flag_list s"
proof -
  show *: "nxt s' = nxt s" "prv s' = prv s" "whd s' = whd s"
    using assms by (simp_all add: nxt_def prv_def whd_def fun_eq_iff)
  show "flag_list s' = flag_list s" by (simp add: flag_list_def * fun_eq_iff)
qed

lemma rdy1_fields [simp]:
  "OSFlagTbl (flag_rdy1 i f s) = OSFlagTbl s" "OSFlagNodes (flag_rdy1 i f s) = OSFlagNodes s"
  by (simp_all add: flag_rdy1_def Let_def upd_tcb_def rdy_set_def set_rdy_def)

lemmas rdy1_links [simp] = links_cong [OF rdy1_fields]

lemma rdy1_part: "flag_part s (flag_rdy1 i f s)"
  by (rule flag_partI, rule os.equality) (simp_all add: flag_rdy1_def Let_def upd_tcb_def rdy_set_def set_rdy_def)

lemma rdy1_tcb:
  "OSTCBTbl (flag_rdy1 i f s) = (OSTCBTbl s)(i := (tcb s i)\<lparr>OSTCBDly := 0, OSTCBFlagsRdy := f,
     OSTCBStat := OSTCBStat (tcb s i) AND NOT OS_STAT_FLAG, OSTCBStatPend := OS_STAT_PEND_OK\<rparr>)"
  by (simp add: flag_rdy1_def Let_def upd_tcb_def rdy_set_def set_rdy_def)

lemma task_rdy_eq:
  "OS_FlagTaskRdy j f s =
    (OSTCBStat (tcb s (OSFlagNodeTCB (node s j))) AND NOT OS_STAT_FLAG = 0,
     OS_FlagUnlink j (flag_rdy1 (OSFlagNodeTCB (node s j)) f s))"
  by (simp add: OS_FlagTaskRdy_def flag_rdy1_def Let_def upd_tcb_def)

lemma rdy1_bm:
  "kinv s \<Longrightarrow> live s i \<Longrightarrow> rdy_bm (flag_rdy1 i f s) =
    (if OSTCBStat (tcb s i) AND NOT OS_STAT_FLAG = 0 then bm_ins (prio s i) (rdy_bm s) else rdy_bm s)"
  using kinv_wf [of s i]
  by (auto simp: flag_rdy1_def Let_def upd_tcb_def rdy_bm_set wf_tcb_def) (simp_all add: rdy_bm_def)

lemma task_rdy_tcbs:
  assumes "OSFlagNodeTCB (node s j) = j"
  shows "OSTCBTbl (snd (OS_FlagTaskRdy j f s)) = (OSTCBTbl s)(j := fl_woken f (tcb s j))"
  using assms by (simp add: task_rdy_eq unlink_tcb rdy1_tcb fl_woken_def)

lemma task_rdy_part: "flag_part s (snd (OS_FlagTaskRdy j f s))"
  unfolding task_rdy_eq using flag_part_trans [OF rdy1_part unlink_part] by simp

lemma task_rdy_rest [simp]:
  "OSFlagNodeFlagGrp (node (snd (OS_FlagTaskRdy j f s)) k) = OSFlagNodeFlagGrp (node s k)"
  "OSFlagNodeTCB (node (snd (OS_FlagTaskRdy j f s)) k) = OSFlagNodeTCB (node s k)"
  "OSFlagNodeFlags (node (snd (OS_FlagTaskRdy j f s)) k) = OSFlagNodeFlags (node s k)"
  "OSFlagNodeWaitType (node (snd (OS_FlagTaskRdy j f s)) k) = OSFlagNodeWaitType (node s k)"
  "OSFlagType (grp (snd (OS_FlagTaskRdy j f s)) g) = OSFlagType (grp s g)"
  "OSFlagFlags (grp (snd (OS_FlagTaskRdy j f s)) g) = OSFlagFlags (grp s g)"
  by (simp_all add: task_rdy_eq)

lemma and_sub_zero: "x AND m = 0 \<Longrightarrow> m AND k = k \<Longrightarrow> x AND k = (0::'a::len word)"
  by (metis and.assoc and_zero_eq zero_and_eq)

lemma stat_flag_masked:
  assumes "(st::u8) AND NOT (0x20 OR 8) = 0"
  shows "(st AND NOT 0x20) AND 0x17 = 0" and "(st AND NOT 0x20) AND NOT 0x3F = 0"
    and "(st AND NOT 0x20) AND 0x20 = 0"
proof -
  have z: "(st AND NOT 0x20) AND NOT 8 = 0" using assms by (simp add: and.assoc)
  show "(st AND NOT 0x20) AND 0x17 = 0" using z by (rule and_not_8_17)
  have "st AND NOT 0x3F = 0" using assms by (rule and_sub_zero) simp
  then show "(st AND NOT 0x20) AND NOT 0x3F = 0" by (rule and_drop)
  show "(st AND NOT 0x20) AND 0x20 = 0" by (simp add: and.assoc)
qed

lemma stat_flag_only:
  assumes "(st::u8) AND NOT (0x20 OR 8) = 0"
  shows "st AND NOT 0x20 = 0 \<longleftrightarrow> st AND 8 = 0"
proof
  assume "st AND NOT 0x20 = 0"
  then show "st AND 8 = 0" by (rule and_sub_zero) simp
next
  assume "st AND 8 = 0"
  then have "(st AND NOT 0x20) AND 8 = 0" by (rule and_drop)
  moreover have "(st AND NOT 0x20) AND NOT 8 = 0" using assms by (simp add: and.assoc)
  ultimately show "st AND NOT 0x20 = 0" by (rule and_parts_zero)
qed

lemma task_rdy_sets:
  assumes "kinv s" "live s j" "OSFlagNodeTCB (node s j) = j"
  shows "rdy_bm (snd (OS_FlagTaskRdy j f s)) =
     (if OSTCBStat (tcb s j) AND NOT OS_STAT_FLAG = 0 then bm_ins (prio s j) (rdy_bm s) else rdy_bm s)"
    and "q \<in> rdyset (snd (OS_FlagTaskRdy j f s)) \<longleftrightarrow>
     q \<in> rdyset s \<or> q = prio s j \<and> OSTCBStat (tcb s j) AND NOT OS_STAT_FLAG = 0"
proof -
  show b: "rdy_bm (snd (OS_FlagTaskRdy j f s)) =
     (if OSTCBStat (tcb s j) AND NOT OS_STAT_FLAG = 0 then bm_ins (prio s j) (rdy_bm s) else rdy_bm s)"
    using assms rdy1_bm [OF assms(1,2)] by (simp add: task_rdy_eq)
  show "q \<in> rdyset (snd (OS_FlagTaskRdy j f s)) \<longleftrightarrow>
     q \<in> rdyset s \<or> q = prio s j \<and> OSTCBStat (tcb s j) AND NOT OS_STAT_FLAG = 0"
    using assms(2) unfolding rdyset_def b by (auto simp: live_def bm.elems_ins)
qed

lemma task_rdy_kinv:
  assumes inv: "kinv s" and fok: "flags_ok s" and w: "flag_waits s g j"
  shows "kinv (snd (OS_FlagTaskRdy j f s))"
proof -
  let ?s = "snd (OS_FlagTaskRdy j f s)"
  have lj: "live s j" using w by (simp add: flag_waits_def)
  note n = fnode_waits [OF fok w]
  note part = flag_part_frame [OF task_rdy_part [of s j f]]
  have tj: "tcb ?s j = fl_woken f (tcb s j)" "k \<noteq> j \<Longrightarrow> tcb ?s k = tcb s k" for k
    by (simp_all add: task_rdy_tcbs [OF n(1)])
  note r = task_rdy_sets [OF inv lj n(1), where f = f]
  note st = stat_flag_masked [OF n(6)]
  have wf: "wf_tcb (tcb ?s j)" using kinv_wf [OF inv lj] by (simp add: tj)
  have "prio s j \<in> rdyset s \<Longrightarrow> OSTCBStat (tcb s j) = 0" using kinv_ready_iff [OF inv lj] by simp
  then have ok: "task_ok ?s j" using st wf n(5) by (auto simp: task_ok_def tj r(2) part)
  have "bm_ok (rdy_bm ?s)" using kinv_rdy [OF inv] lj by (simp add: r(1) live_def bm.invar_ins)
  then show ?thesis using ok n(5) kinv_ev [OF inv] kinv_idle [OF inv]
    by (intro kinv_one_task [OF inv lj]) (auto simp: r(2) part tj)
qed

text \<open>
  The invariant after a task has left the wait list of its group: whatever else happens to that
  task, the other tasks and groups are as before.
\<close>

lemma unlink_ptrs:
  assumes "node_ptr (OSFlagNodeNext (node s j))"
  shows "node_ptr (OSFlagNodeNext (node s k)) \<Longrightarrow> node_ptr (OSFlagNodeNext (node (OS_FlagUnlink j s) k))"
    and "node_ptr (OSFlagWaitList (grp s g)) \<Longrightarrow> node_ptr (OSFlagWaitList (grp (OS_FlagUnlink j s) g))"
    and "OSFlagNodeFlagGrp (node s j) \<noteq> g \<Longrightarrow> OSFlagWaitList (grp (OS_FlagUnlink j s) g) = OSFlagWaitList (grp s g)"
  using assms
  by (auto simp: OS_FlagUnlink_def Let_def upd_node_def upd_grp_def upd_tcb_def split: option.splits)

lemma flags_ok_remove:
  assumes fok: "flags_ok s" and w: "flag_waits s g j" and l: "flag_list s g (xs @ j # ys)"
    and fl: "OSFlagTbl s' = OSFlagTbl (OS_FlagUnlink j s)" "OSFlagNodes s' = OSFlagNodes (OS_FlagUnlink j s)"
      "OSFlagFreeList s' = OSFlagFreeList s"
    and oth: "\<And>k. k \<noteq> j \<Longrightarrow> live s' k = live s k"
      "\<And>k. k \<noteq> j \<Longrightarrow> same_core (tcb s k) (tcb s' k) \<and> OSTCBFlagNode (tcb s' k) = OSTCBFlagNode (tcb s k)"
      "\<And>k e. k \<noteq> j \<Longrightarrow> prio s k \<notin> wset s e \<Longrightarrow> prio s k \<notin> wset s' e"
    and me: "live s' j \<Longrightarrow> OSTCBStat (tcb s' j) AND OS_STAT_FLAG = 0" "OSTCBFlagNode (tcb s' j) = None"
  shows "flags_ok s'" and "flag_list s' g (xs @ ys)"
    and "h \<noteq> g \<Longrightarrow> OSFlagType (grp s h) = OS_EVENT_TYPE_FLAG \<Longrightarrow> flag_list s h zs \<Longrightarrow> flag_list s' h zs"
proof -
  note n = fnode_waits [OF fok w]
  have gj: "OSFlagNodeFlagGrp (node s j) = g" using w by (simp add: flag_waits_def)
  note lk = links_cong [OF fl(1,2)]
  note ul = unlink_lists [OF l gj]
  have ws: "flag_waits s' h k \<longleftrightarrow> k \<noteq> j \<and> flag_waits s h k" for h k
    using oth(1,2) [of k] me(2) by (cases "k = j") (auto simp: flag_waits_def fl)
  have mem: "k \<in> set zs \<longleftrightarrow> flag_waits s h k" if "OSFlagType (grp s h) = OS_EVENT_TYPE_FLAG" "flag_list s h zs" for h k zs
    using flags_okD(2) [OF fok that(1)] that(2) by (metis chain_unique dchain_chain fgrp_ok_def flag_list_def)
  have d: "distinct (xs @ j # ys)" using l [unfolded flag_list_def] by (rule dchain_distinct)
  show lg: "flag_list s' g (xs @ ys)" using ul(1) by (simp add: lk)
  show lh: "flag_list s' h zs" if "h \<noteq> g" "OSFlagType (grp s h) = OS_EVENT_TYPE_FLAG" "flag_list s h zs" for h zs
  proof -
    have "set zs \<inter> set (xs @ ys) = {}"
      using mem [OF that(2,3)] mem [OF n(3) l] that(1) by (fastforce simp: flag_waits_def)
    then show ?thesis using ul(3) that by (simp add: lk)
  qed
  show "flags_ok s'"
    unfolding flags_ok_def
  proof (intro conjI allI impI)
    fix k assume lv: "live s' k"
    show "fnode_ok s' k"
    proof (cases "k = j")
      case True
      then show ?thesis using me lv by (simp add: fnode_ok_def)
    next
      case False
      then have "fnode_ok s k" using lv oth(1) flags_okD(1) [OF fok] by simp
      then show ?thesis using oth(2,3) [OF False] unlink_ptrs(1) [OF n(4), of k]
        by (auto simp: fnode_ok_def fl same_core_def split: option.splits)
    qed
  next
    fix h assume "OSFlagType (grp s' h) = OS_EVENT_TYPE_FLAG"
    then have th: "OSFlagType (grp s h) = OS_EVENT_TYPE_FLAG" by (simp add: fl)
    obtain zs where z: "flag_list s h zs" and np: "node_ptr (OSFlagWaitList (grp s h))"
      using fgrp_okE [OF fok th] by metis
    have "node_ptr (OSFlagWaitList (grp s' h))" using unlink_ptrs(2) [OF n(4) np] by (simp add: fl)
    moreover have "\<exists>us. flag_list s' h us \<and> (\<forall>k. k \<in> set us \<longleftrightarrow> flag_waits s' h k)"
    proof (cases "h = g")
      case True
      have "k \<in> set (xs @ ys) \<longleftrightarrow> flag_waits s' g k" for k
        using mem [OF n(3) l, of k] d by (auto simp: ws)
      then show ?thesis using lg True by blast
    next
      case False
      have "k \<in> set zs \<longleftrightarrow> flag_waits s' h k" for k
        using mem [OF th z, of k] gj False by (auto simp: ws) (auto simp: flag_waits_def)
      then show ?thesis using lh [OF False th z] by blast
    qed
    ultimately show "fgrp_ok s' h" by (simp add: fgrp_ok_def)
  next
    obtain us where c: "chain (\<lambda>g. grp_link (OSFlagWaitList (grp s g))) (OSFlagFreeList s) us"
      and u: "\<forall>g \<in> set us. g < OS_MAX_FLAGS \<and> OSFlagType (grp s g) = OS_EVENT_TYPE_UNUSED"
      using flags_okD(3) [OF fok] by (auto simp: fglist_ok_def)
    have "OSFlagWaitList (grp s' h) = OSFlagWaitList (grp s h)" if "h \<in> set us" for h
      using unlink_ptrs(3) [OF n(4), of h] u [rule_format, OF that] n(3) gj by (cases "h = g") (auto simp: fl)
    then have "chain (\<lambda>g. grp_link (OSFlagWaitList (grp s' g))) (OSFlagFreeList s') us"
      unfolding fl(3) using c by (simp cong: chain_cong)
    then show "fglist_ok s'" using u by (auto simp: fglist_ok_def fl)
  qed
qed

lemma task_rdy_flags:
  fixes f :: u16
  assumes inv: "kinv s" and fok: "flags_ok s" and w: "flag_waits s g j" and l: "flag_list s g (xs @ j # ys)"
  defines "s' \<equiv> snd (OS_FlagTaskRdy j f s)"
  shows "flags_ok s'" and "flag_list s' g (xs @ ys)"
    and "h \<noteq> g \<Longrightarrow> OSFlagType (grp s h) = OS_EVENT_TYPE_FLAG \<Longrightarrow> flag_list s h zs \<Longrightarrow> flag_list s' h zs"
    and "nxt s' j = (if ys = [] then None else Some (hd ys))"
proof -
  note n = fnode_waits [OF fok w]
  note part = flag_part_frame [OF task_rdy_part [of s j f], folded s'_def]
  have t: "OSTCBTbl s' = (OSTCBTbl s)(j := fl_woken f (tcb s j))" unfolding s'_def using n(1) by (rule task_rdy_tcbs)
  have u: "OSFlagTbl s' = OSFlagTbl (OS_FlagUnlink j s)" "OSFlagNodes s' = OSFlagNodes (OS_FlagUnlink j s)"
    by (auto simp: s'_def task_rdy_eq OS_FlagUnlink_def Let_def upd_grp_def upd_node_def upd_tcb_def
        split: option.splits)
  have st: "OSTCBStat (tcb s' j) AND OS_STAT_FLAG = 0" using stat_flag_masked(3) [OF n(6)] by (simp add: t)
  have lv: "live s' k = live s k" for k by (simp add: live_def t part)
  note rm = flags_ok_remove [OF fok w l u]
  show "flags_ok s'" "flag_list s' g (xs @ ys)"
    by (rule rm; use st in \<open>simp add: t lv part\<close>)+
  show "flag_list s' h zs" if "h \<noteq> g" "OSFlagType (grp s h) = OS_EVENT_TYPE_FLAG" "flag_list s h zs"
    by (rule rm(3) [OF _ _ _ _ _ _ that]; use st in \<open>simp add: t lv part\<close>)
  show "nxt s' j = (if ys = [] then None else Some (hd ys))"
    using unlink_lists(2) [OF l] w by (simp add: links_cong [OF u] flag_waits_def)
qed

section \<open>The loops over a wait list\<close>

text \<open>
  \<open>woke D F s s'\<close>: going from \<open>s\<close> to \<open>s'\<close> the tasks \<open>D\<close>, and no others, have left the wait
  list, each with the flags \<open>F j\<close>; those that were not suspended as well are ready.
\<close>

definition woke :: "nat set \<Rightarrow> (nat \<Rightarrow> u16) \<Rightarrow> os \<Rightarrow> os \<Rightarrow> bool" where
  "woke D F s s' \<longleftrightarrow> kinv s' \<and> flags_ok s' \<and> flag_part s s' \<and>
     (\<forall>j. tcb s' j = (if j \<in> D then fl_woken (F j) (tcb s j) else tcb s j)) \<and>
     (\<forall>k. OSFlagNodeFlags (node s' k) = OSFlagNodeFlags (node s k) \<and>
          OSFlagNodeWaitType (node s' k) = OSFlagNodeWaitType (node s k) \<and>
          OSFlagNodeFlagGrp (node s' k) = OSFlagNodeFlagGrp (node s k)) \<and>
     (\<forall>g. OSFlagType (grp s' g) = OSFlagType (grp s g) \<and> OSFlagFlags (grp s' g) = OSFlagFlags (grp s g)) \<and>
     (\<forall>q. q \<in> rdyset s' \<longleftrightarrow> q \<in> rdyset s \<or>
        (\<exists>j \<in> D. q = prio s j \<and> OSTCBStat (tcb s j) AND NOT OS_STAT_FLAG = 0))"

lemma wokeD:
  assumes "woke D F s s'"
  shows "kinv s'" "flags_ok s'" "flag_part s s'"
    "tcb s' j = (if j \<in> D then fl_woken (F j) (tcb s j) else tcb s j)"
    "OSFlagNodeFlags (node s' k) = OSFlagNodeFlags (node s k)"
    "OSFlagNodeWaitType (node s' k) = OSFlagNodeWaitType (node s k)"
    "OSFlagNodeFlagGrp (node s' k) = OSFlagNodeFlagGrp (node s k)"
    "OSFlagType (grp s' g) = OSFlagType (grp s g)" "OSFlagFlags (grp s' g) = OSFlagFlags (grp s g)"
    "q \<in> rdyset s' \<longleftrightarrow> q \<in> rdyset s \<or>
        (\<exists>j \<in> D. q = prio s j \<and> OSTCBStat (tcb s j) AND NOT OS_STAT_FLAG = 0)"
  using assms by (auto simp: woke_def)

lemma woke_refl: "kinv s \<Longrightarrow> flags_ok s \<Longrightarrow> woke {} F s s"
  by (simp add: woke_def)

lemma woke_one:
  assumes "kinv s" "flags_ok s" "flag_waits s g j" "flag_list s g (xs @ j # ys)"
  shows "woke {j} F s (snd (OS_FlagTaskRdy j (F j) s))"
  unfolding woke_def
  using assms task_rdy_kinv [OF assms(1-3)] task_rdy_flags(1) [OF assms] task_rdy_part [of s j]
    task_rdy_tcbs [OF fnode_waits(1) [OF assms(2,3)]] fnode_waits(1) [OF assms(2,3)]
    task_rdy_sets(2) [of s j] assms(3)
  by (simp add: flag_waits_def)

lemma woke_trans:
  assumes 1: "woke D F s s1" and 2: "woke E F s1 s2" and dis: "D \<inter> E = {}"
  shows "woke (D \<union> E) F s s2"
proof -
  note a = wokeD [OF 1] and b = wokeD [OF 2]
  have e: "j \<in> E \<Longrightarrow> tcb s1 j = tcb s j" for j using a(4) dis by auto
  have "tcb s2 j = (if j \<in> D \<union> E then fl_woken (F j) (tcb s j) else tcb s j)" for j
    using dis by (auto simp: b(4) a(4))
  moreover have "q \<in> rdyset s2 \<longleftrightarrow> q \<in> rdyset s \<or>
      (\<exists>j \<in> D \<union> E. q = prio s j \<and> OSTCBStat (tcb s j) AND NOT OS_STAT_FLAG = 0)" for q
    using e unfolding b(10) a(10) by auto
  ultimately show ?thesis unfolding woke_def
    by (intro conjI allI b(1,2) flag_part_trans [OF a(3) b(3)]) (simp_all add: a b)
qed

lemma waits_in_list:
  assumes "flags_ok s" "OSFlagType (grp s g) = OS_EVENT_TYPE_FLAG" "flag_list s g zs"
  shows "k \<in> set zs \<longleftrightarrow> flag_waits s g k"
  using flags_okD(2) [OF assms(1,2)] assms(3) by (metis chain_unique dchain_chain fgrp_ok_def flag_list_def)

lemma list_head: "flag_list s g xs \<Longrightarrow> whd s g = (if xs = [] then None else Some (hd xs))"
  unfolding flag_list_def by (rule dchain_head)

lemma del_loop_ends:
  assumes "kinv s" "flags_ok s" "OSFlagType (grp s g) = OS_EVENT_TYPE_FLAG" "flag_list s g xs"
    "p = (if xs = [] then None else Some (hd xs))"
  shows "\<exists>s'. flag_del_loop p s = Some s' \<and> woke (set xs) (\<lambda>_. 0) s s' \<and> flag_list s' g []"
  using assms
proof (induction xs arbitrary: p s)
  case Nil
  then show ?case by (subst flag_del_loop.simps) (simp add: woke_refl)
next
  case (Cons j ys)
  let ?s1 = "snd (OS_FlagTaskRdy j 0 s)"
  have w: "flag_waits s g j" using waits_in_list [OF Cons.prems(2-4), of j] by simp
  have l: "flag_list s g ([] @ j # ys)" using Cons.prems by simp
  note r = task_rdy_flags [OF Cons.prems(1,2) w l, where f = 0]
  note o = woke_one [OF Cons.prems(1,2) w l, of "\<lambda>_. 0"]
  have d: "j \<notin> set ys" using dchain_distinct [OF l [unfolded flag_list_def]] by simp
  obtain s' where s': "flag_del_loop (nxt ?s1 j) ?s1 = Some s'" "woke (set ys) (\<lambda>_. 0) ?s1 s'" "flag_list s' g []"
    using Cons.IH [OF wokeD(1,2) [OF o], of "nxt ?s1 j"] Cons.prems(3) r(2,4) by auto
  have "flag_del_loop p s = Some s'"
    using s'(1) Cons.prems(5) by (subst flag_del_loop.simps) (simp add: Let_def nxt_def)
  moreover have "woke (set (j # ys)) (\<lambda>_. 0) s s'"
    using woke_trans [OF o s'(2)] d by simp
  ultimately show ?case using s'(3) by blast
qed

definition fl_sat :: "os \<Rightarrow> nat \<Rightarrow> nat \<Rightarrow> bool" where
  "fl_sat s g j = snd (the (flags_match (OSFlagNodeWaitType (node s j)) (OSFlagFlags (grp s g)) (OSFlagNodeFlags (node s j))))"

definition fl_got :: "os \<Rightarrow> nat \<Rightarrow> nat \<Rightarrow> u16" where
  "fl_got s g j = fst (the (flags_match (OSFlagNodeWaitType (node s j)) (OSFlagFlags (grp s g)) (OSFlagNodeFlags (node s j))))"

lemma word_less_4: "(w::u8) < 4 \<longleftrightarrow> w = 0 \<or> w = 1 \<or> w = 2 \<or> w = 3"
  by (auto simp: word_less_nat_alt word_unat_eq_iff)

lemma flags_match_total: "wt < 4 \<Longrightarrow> flags_match wt c f = Some (fst (the (flags_match wt c f)), snd (the (flags_match wt c f)))"
  by (auto simp: flags_match_def word_less_4)

lemma fl_match:
  assumes "OSFlagNodeWaitType (node s j) < 4"
  shows "flags_match (OSFlagNodeWaitType (node s j)) (OSFlagFlags (grp s g)) (OSFlagNodeFlags (node s j)) =
    Some (fl_got s g j, fl_sat s g j)"
  unfolding fl_got_def fl_sat_def using assms by (rule flags_match_total)

lemma woke_sat:
  assumes "woke D F s s'"
  shows "fl_sat s' g = fl_sat s g" "fl_got s' g = fl_got s g"
  by (simp_all add: fl_sat_def fl_got_def fun_eq_iff wokeD [OF assms])

lemma post_loop_ends:
  assumes "kinv s" "flags_ok s" "OSFlagType (grp s g) = OS_EVENT_TYPE_FLAG" "flag_list s g (us @ ys)"
    "p = (if ys = [] then None else Some (hd ys))"
  defines "D \<equiv> \<lambda>ys s. {j \<in> set ys. fl_sat s g j}"
  shows "\<exists>s'. flag_post_loop g p sched s =
      Some (Some (sched \<or> (\<exists>j \<in> D ys s. OSTCBStat (tcb s j) AND NOT OS_STAT_FLAG = 0)), s') \<and>
    woke (D ys s) (fl_got s g) s s' \<and> flag_list s' g (us @ filter (\<lambda>j. \<not> fl_sat s g j) ys)"
  using assms(1-5)
proof (induction ys arbitrary: us p s sched)
  case Nil
  then show ?case by (subst flag_post_loop.simps) (simp add: woke_refl D_def)
next
  case (Cons j ys)
  note pre = Cons.prems
  have w: "flag_waits s g j" using waits_in_list [OF pre(2-4), of j] by simp
  have d: "j \<notin> set ys" using dchain_distinct [OF pre(4) [unfolded flag_list_def]] by simp
  note n = fnode_waits [OF pre(2) w]
  have m: "flags_match (OSFlagNodeWaitType (node s j)) (OSFlagFlags (grp s g)) (OSFlagNodeFlags (node s j)) =
      Some (fl_got s g j, fl_sat s g j)"
    using n(2) by (rule fl_match)
  have tj: "OSFlagNodeTCB (node s j) = j" by (rule n(1))
  show ?case
  proof (cases "fl_sat s g j")
    case True
    let ?s1 = "snd (OS_FlagTaskRdy j (fl_got s g j) s)"
    let ?b = "OSTCBStat (tcb s j) AND NOT OS_STAT_FLAG = 0"
    note r = task_rdy_flags [OF pre(1,2) w pre(4), where f = "fl_got s g j"]
    note o = woke_one [OF pre(1,2) w pre(4), of "fl_got s g"]
    note sat = woke_sat [OF o, of g]
    obtain s' where s': "flag_post_loop g (nxt ?s1 j) (sched \<or> ?b) ?s1 =
        Some (Some ((sched \<or> ?b) \<or> (\<exists>k \<in> D ys ?s1. OSTCBStat (tcb ?s1 k) AND NOT OS_STAT_FLAG = 0)), s')"
      and wk: "woke (D ys ?s1) (fl_got ?s1 g) ?s1 s'"
      and fl: "flag_list s' g (us @ filter (\<lambda>j. \<not> fl_sat ?s1 g j) ys)"
      using Cons.IH [OF wokeD(1,2) [OF o], of us "nxt ?s1 j" "sched \<or> ?b"] pre(3) r(2,4) by auto
    have Ds: "D ys ?s1 = D ys s" "D (j # ys) s = insert j (D ys s)" using True by (auto simp: D_def sat)
    have "OSTCBStat (tcb ?s1 k) = OSTCBStat (tcb s k)" if "k \<in> D ys s" for k
      using that d wokeD(4) [OF o, of k] by (auto simp: D_def)
    then have ex: "(\<exists>k \<in> D ys ?s1. OSTCBStat (tcb ?s1 k) AND NOT OS_STAT_FLAG = 0) =
        (\<exists>k \<in> D ys s. OSTCBStat (tcb s k) AND NOT OS_STAT_FLAG = 0)" unfolding Ds by auto
    have rd: "fst (OS_FlagTaskRdy j (fl_got s g j) s) = ?b" by (simp add: task_rdy_eq tj)
    have "flag_post_loop g p sched s = flag_post_loop g (nxt ?s1 j) (sched \<or> ?b) ?s1"
      using pre(5) True rd by (subst flag_post_loop.simps) (simp add: m nxt_def split_beta)
    then have "flag_post_loop g p sched s =
        Some (Some (sched \<or> (\<exists>k \<in> D (j # ys) s. OSTCBStat (tcb s k) AND NOT OS_STAT_FLAG = 0)), s')"
      using s' [unfolded ex] by (simp add: Ds(2) disj_assoc)
    moreover have "woke (D (j # ys) s) (fl_got s g) s s'"
      using woke_trans [OF o, of "D ys s" s'] wk [unfolded Ds(1) sat] d unfolding Ds(2) by (auto simp: D_def)
    ultimately show ?thesis using fl True by (auto simp: sat)
  next
    case False
    have nj: "nxt s j = (if ys = [] then None else Some (hd ys))"
      using dchain_ends(2) [OF pre(4) [unfolded flag_list_def]] .
    have Ds: "D (j # ys) s = D ys s" using False by (auto simp: D_def)
    have "flag_post_loop g p sched s = flag_post_loop g (nxt s j) sched s"
      using pre(5) False by (subst flag_post_loop.simps) (simp add: m nxt_def)
    then show ?thesis
      using Cons.IH [OF pre(1,2,3), of "us @ [j]" "nxt s j" sched] pre(4) nj False by (simp add: Ds)
  qed
qed

section \<open>The services\<close>

lemma flags_ok_frame:
  assumes fok: "flags_ok s" and nd: "OSFlagNodes s' = OSFlagNodes s" and fr: "OSFlagFreeList s' = OSFlagFreeList s"
    and gr: "\<And>g. OSFlagType (grp s' g) = OSFlagType (grp s g) \<and> OSFlagWaitList (grp s' g) = OSFlagWaitList (grp s g)"
    and pt: "OSTCBPrioTbl s' = OSTCBPrioTbl s"
    and tc: "\<And>j. OSTCBPrio (tcb s' j) = OSTCBPrio (tcb s j) \<and> OSTCBFlagNode (tcb s' j) = OSTCBFlagNode (tcb s j) \<and>
      OSTCBStat (tcb s' j) = OSTCBStat (tcb s j) \<and> OSTCBStatPend (tcb s' j) = OSTCBStatPend (tcb s j) \<and>
      OSTCBDly (tcb s' j) = OSTCBDly (tcb s j)"
    and ws: "\<And>e. wset s' e = wset s e"
  shows "flags_ok s'"
proof -
  have lv: "live s' j = live s j" for j by (simp add: live_def pt tc)
  have lk: "nxt s' = nxt s" "prv s' = prv s" "whd s' = whd s"
    by (simp_all add: nxt_def prv_def whd_def nd gr fun_eq_iff)
  have fn: "fnode_ok s' j = fnode_ok s j" for j by (simp add: fnode_ok_def tc nd gr ws split: option.split)
  have fw: "flag_waits s' g j = flag_waits s g j" for g j by (simp add: flag_waits_def lv tc nd)
  have fg: "fgrp_ok s' g = fgrp_ok s g" for g by (simp add: fgrp_ok_def gr flag_list_def lk fw)
  have "fglist_ok s' = fglist_ok s" by (simp add: fglist_ok_def gr fr)
  with fok show ?thesis by (simp add: flags_ok_def lv fn fg gr)
qed

lemma OS_Sched_flag_free [simp]: "OSFlagFreeList (OS_Sched s) = OSFlagFreeList s"
  by (simp add: OS_Sched_def os_switch_def OS_SchedNew_def OSPendSV_def upd_tcb_def Let_def)

lemma flags_ok_OS_Sched: "flags_ok s \<Longrightarrow> flags_ok (OS_Sched s)"
  by (erule flags_ok_frame) simp_all

lemma fsafe_OS_Sched: "kok s \<Longrightarrow> flags_ok s \<Longrightarrow> fsafe (OS_Sched s)"
  by (simp add: kok_OS_Sched flags_ok_OS_Sched)

lemma woke_kok:
  assumes "woke D F s s'" "kok s"
  shows "kok s'"
proof (rule kokI)
  note w = wokeD [OF assms(1)]
  note part = flag_part_frame [OF w(3)]
  show "kinv s'" by (rule w(1))
  show "evlist_ok s'" using kokD(2) [OF assms(2)] by (rule evlist_frame) (simp_all add: part)
  show "cur_ok s'" using kokD(3) [OF assms(2)] by (rule cur_ok_core) (simp_all add: part w(4))
qed

text \<open>Changes of a group that keep its type and its wait list.\<close>

lemma fsafe_upd_grp:
  assumes "\<And>v. OSFlagType (f v) = OSFlagType v \<and> OSFlagWaitList (f v) = OSFlagWaitList v"
  shows "kok s \<Longrightarrow> kok (upd_grp g f s)" "sched_ok s \<Longrightarrow> sched_ok (upd_grp g f s)"
    "flags_ok s \<Longrightarrow> flags_ok (upd_grp g f s)"
proof -
  have sk: "same_kernel s (upd_grp g f s)" by (simp add: same_kernel_def upd_grp_def)
  show "kok s \<Longrightarrow> kok (upd_grp g f s)" "sched_ok s \<Longrightarrow> sched_ok (upd_grp g f s)"
    using same_kernel_safe [OF sk] by auto
  show "flags_ok s \<Longrightarrow> flags_ok (upd_grp g f s)"
    by (erule flags_ok_frame) (simp_all add: upd_grp_def assms wset_def)
qed

lemma fsafe_consume: "fsafe s \<Longrightarrow> fsafe (consume_grp g wt f s)"
  unfolding consume_grp_def using fsafe_upd_grp by auto

lemma fsafe_accept: "fsafe s \<Longrightarrow> fsafe (snd (snd (OSFlagAccept g f wt s)))"
  by (simp add: OSFlagAccept_def Let_def fsafe_consume split: option.split)

lemma post_spec:
  fixes flags :: u16 and opt :: u8
  assumes ok: "fsafe s" and ty: "OSFlagType (grp s g) = OS_EVENT_TYPE_FLAG" and opt: "opt = OS_FLAG_CLR \<or> opt = OS_FLAG_SET"
  defines "s1 \<equiv> upd_grp g (\<lambda>v. v\<lparr>OSFlagFlags :=
      (if opt = OS_FLAG_CLR then OSFlagFlags v AND NOT flags else OSFlagFlags v OR flags)\<rparr>) s"
  obtains s2 s' where "woke {j. flag_waits s g j \<and> fl_sat s1 g j} (fl_got s1 g) s1 s2"
    and "OSFlagPost g flags opt s = Some (OSFlagFlags (grp s1 g), OS_ERR_NONE, s')"
    and "s' = s2 \<or> s' = OS_Sched s2" and "fsafe s'" and "kok s2"
    and "\<And>ws. flag_list s g ws \<Longrightarrow> flag_list s' g (filter (\<lambda>j. \<not> fl_sat s1 g j) ws)"
proof -
  have ok1: "fsafe s1" unfolding s1_def using ok fsafe_upd_grp by auto
  have ty1: "OSFlagType (grp s1 g) = OS_EVENT_TYPE_FLAG" using ty by (simp add: s1_def upd_grp_def)
  obtain xs where l: "flag_list s1 g xs" and mem: "\<And>j. j \<in> set xs \<longleftrightarrow> flag_waits s1 g j"
    using fgrp_okE [OF conjunct2 [OF ok1] ty1] by metis
  have fw: "flag_waits s1 g j = flag_waits s g j" for j by (simp add: s1_def upd_grp_def flag_waits_def live_def)
  let ?D = "{j \<in> set xs. fl_sat s1 g j}"
  let ?b = "\<exists>j \<in> ?D. OSTCBStat (tcb s1 j) AND NOT OS_STAT_FLAG = 0"
  have k1: "kinv s1" using ok1 by (simp add: kok_def)
  obtain s2 where lp: "flag_post_loop g (whd s1 g) False s1 = Some (Some ?b, s2)"
    and wk: "woke ?D (fl_got s1 g) s1 s2" and l2: "flag_list s2 g (filter (\<lambda>j. \<not> fl_sat s1 g j) xs)"
    using post_loop_ends [OF k1 conjunct2 [OF ok1] ty1, of "[]" xs "whd s1 g" False] l list_head [OF l] by auto
  let ?s = "if ?b then OS_Sched s2 else s2"
  have k2: "kok s2" using woke_kok [OF wk] ok1 by simp
  note w = wokeD [OF wk] and part = flag_part_frame [OF wokeD(3) [OF wk]]
  have "OSFlagFlags (grp ?s g) = OSFlagFlags (grp s1 g)" by (simp add: w)
  then have res: "OSFlagPost g flags opt s = Some (OSFlagFlags (grp s1 g), OS_ERR_NONE, ?s)"
    using ty opt lp unfolding OSFlagPost_def Let_def s1_def [symmetric] by (auto simp: whd_def)
  have "fsafe ?s"
  proof (cases ?b)
    case True
    then show ?thesis using k2 w(2) fsafe_OS_Sched by simp
  next
    case False
    have "rdyset s2 = rdyset s1" using False w(10) by blast
    then have "sched_ok s2" using ok1 by (simp add: sched_ok_def part)
    then show ?thesis using False k2 w(2) by simp
  qed
  moreover have "?D = {j. flag_waits s g j \<and> fl_sat s1 g j}" by (auto simp: mem fw)
  moreover have "flag_list ?s g (filter (\<lambda>j. \<not> fl_sat s1 g j) ws)" if ws: "flag_list s g ws" for ws
  proof -
    have "flag_list s1 g ws" using ws by (simp add: s1_def flag_list_def upd_grp_def nxt_def [abs_def] prv_def [abs_def] whd_def)
    then have "ws = xs" using l unfolding flag_list_def by (metis chain_unique dchain_chain)
    moreover have "nxt (OS_Sched s2) = nxt s2" "prv (OS_Sched s2) = prv s2" "whd (OS_Sched s2) = whd s2"
      by (simp_all add: nxt_def prv_def whd_def fun_eq_iff)
    ultimately show ?thesis using l2 by (simp add: flag_list_def)
  qed
  ultimately show ?thesis using that [of s2 ?s] wk res k2 by auto
qed


lemma fsafe_post:
  assumes ok: "fsafe s"
  shows "\<exists>f err s'. OSFlagPost g flags opt s = Some (f, err, s') \<and> fsafe s'"
proof (cases "OSFlagType (grp s g) = OS_EVENT_TYPE_FLAG \<and> (opt = OS_FLAG_CLR \<or> opt = OS_FLAG_SET)")
  case True
  show ?thesis by (rule post_spec [OF ok, of g opt flags]) (use True in auto)
next
  case False
  then show ?thesis using ok by (auto simp: OSFlagPost_def)
qed

lemma fglist_grp:
  assumes fok: "flags_ok s" and g: "OSFlagFreeList s = Some g"
  shows "g < OS_MAX_FLAGS" "OSFlagType (grp s g) = OS_EVENT_TYPE_UNUSED"
  using flags_okD(3) [OF fok] g by (auto simp: fglist_ok_def elim: chain.elims)

text \<open>A group changes that no task waits on, and perhaps the free list; all else is as before.\<close>

lemma flags_ok_group:
  assumes fok: "flags_ok s" and nd: "OSFlagNodes s' = OSFlagNodes s" and tc: "OSTCBTbl s' = OSTCBTbl s"
    and gr: "\<And>h. h \<noteq> g \<Longrightarrow> grp s' h = grp s h"
    and pt: "OSTCBPrioTbl s' = OSTCBPrioTbl s" and ws: "\<And>e. wset s' e = wset s e"
    and idle: "\<And>j. \<not> flag_waits s g j"
    and new: "OSFlagType (grp s' g) = OS_EVENT_TYPE_FLAG \<Longrightarrow> OSFlagWaitList (grp s' g) = PNull"
    and free: "fglist_ok s'"
  shows "flags_ok s'"
proof -
  have lv: "live s' j = live s j" for j by (simp add: live_def pt tc)
  have lk: "nxt s' = nxt s" "prv s' = prv s" "h \<noteq> g \<Longrightarrow> whd s' h = whd s h" for h
    by (simp_all add: nxt_def prv_def whd_def nd gr fun_eq_iff)
  have fw: "flag_waits s' h j = flag_waits s h j" for h j by (simp add: flag_waits_def lv tc nd)
  have "fnode_ok s' j" if "live s j" for j
  proof -
    have "OSTCBFlagNode (tcb s j) = Some k \<Longrightarrow> OSFlagNodeFlagGrp (node s j) \<noteq> g" for k
      using flags_okD(1) [OF fok that] idle [of j] that by (auto simp: fnode_ok_def flag_waits_def)
    then show ?thesis using flags_okD(1) [OF fok that] by (auto simp: fnode_ok_def tc nd ws gr split: option.splits)
  qed
  moreover have "fgrp_ok s' h" if t: "OSFlagType (grp s' h) = OS_EVENT_TYPE_FLAG" for h
  proof (cases "h = g")
    case True
    then have "flag_list s' g [] \<and> OSFlagWaitList (grp s' g) = PNull" using new t by (simp add: flag_list_def whd_def)
    then show ?thesis using idle True by (auto simp: fgrp_ok_def fw node_ptr_def intro!: exI [of _ "[]"])
  next
    case False
    then show ?thesis using t flags_okD(2) [OF fok, of h] by (simp add: gr fgrp_ok_def flag_list_def lk fw)
  qed
  ultimately show ?thesis using free by (simp add: flags_ok_def lv)
qed

lemma not_waiting:
  assumes "flags_ok s" "OSFlagType (grp s g) \<noteq> OS_EVENT_TYPE_FLAG"
  shows "\<not> flag_waits s g j"
  using fnode_waits(3) [OF assms(1), of g j] assms(2) by auto

lemma empty_not_waiting:
  assumes "flags_ok s" "OSFlagType (grp s g) = OS_EVENT_TYPE_FLAG" "flag_list s g []"
  shows "\<not> flag_waits s g j"
  using waits_in_list [OF assms, of j] by simp

lemma fsafe_create:
  assumes ok: "fsafe s"
  shows "fsafe (snd (snd (OSFlagCreate f s)))"
proof (cases "0 < OSIntNesting s \<or> OSFlagFreeList s = None")
  case True
  then show ?thesis using ok by (auto simp: OSFlagCreate_def)
next
  case False
  then obtain g where g: "OSFlagFreeList s = Some g" by auto
  let ?s = "snd (snd (OSFlagCreate f s))"
  have e: "?s = upd_grp g (\<lambda>v. v\<lparr>OSFlagType := OS_EVENT_TYPE_FLAG, OSFlagFlags := f,
                OSFlagWaitList := PNull, OSFlagName := ''?''\<rparr>)
              (s\<lparr>OSFlagFreeList := grp_link (OSFlagWaitList (grp s g))\<rparr>)"
    using False g by (simp add: OSFlagCreate_def)
  have sk: "same_kernel s ?s" by (simp add: e same_kernel_def upd_grp_def)
  have fok: "flags_ok s" using ok by simp
  obtain xs where c: "chain (\<lambda>g. grp_link (OSFlagWaitList (grp s g))) (Some g) (g # xs)"
    and u: "\<forall>h \<in> set (g # xs). h < OS_MAX_FLAGS \<and> OSFlagType (grp s h) = OS_EVENT_TYPE_UNUSED"
    using flags_okD(3) [OF fok] g by (auto simp: fglist_ok_def elim: chain.elims)
  have nm: "g \<notin> set xs" using chain_distinct [OF c] by simp
  have "chain (\<lambda>h. grp_link (OSFlagWaitList (grp ?s h))) (OSFlagFreeList ?s) xs"
    using c nm by (subst chain_cong [where nx' = "\<lambda>h. grp_link (OSFlagWaitList (grp s h))"])
      (auto simp: e upd_grp_def)
  then have "fglist_ok ?s" using u nm unfolding fglist_ok_def by (auto simp: e upd_grp_def intro!: exI [of _ xs])
  then have "flags_ok ?s"
    by (intro flags_ok_group [OF fok, of _ g] not_waiting [OF fok])
      (use fglist_grp [OF fok g] in \<open>simp_all add: e upd_grp_def wset_def\<close>)
  then show ?thesis using same_kernel_safe [OF sk] ok by simp
qed

lemma grp_put_fields [simp]:
  "OSFlagNodes (grp_put g s) = OSFlagNodes s" "OSTCBTbl (grp_put g s) = OSTCBTbl s"
  "OSTCBPrioTbl (grp_put g s) = OSTCBPrioTbl s" "wset (grp_put g s) e = wset s e"
  "h \<noteq> g \<Longrightarrow> grp (grp_put g s) h = grp s h" "OSFlagType (grp (grp_put g s) g) = OS_EVENT_TYPE_UNUSED"
  "OSFlagFreeList (grp_put g s) = Some g"
  by (simp_all add: grp_put_def upd_grp_def wset_def)

lemma grp_put_safe:
  assumes fok: "flags_ok s" and ty: "OSFlagType (grp s g) = OS_EVENT_TYPE_FLAG" and g: "g < OS_MAX_FLAGS"
    and idle: "\<And>j. \<not> flag_waits s g j"
  shows "flags_ok (grp_put g s)" and "kok s \<Longrightarrow> kok (grp_put g s)" and "sched_ok s \<Longrightarrow> sched_ok (grp_put g s)"
proof -
  have sk: "same_kernel s (grp_put g s)" by (simp add: same_kernel_def grp_put_def upd_grp_def)
  then show "kok s \<Longrightarrow> kok (grp_put g s)" "sched_ok s \<Longrightarrow> sched_ok (grp_put g s)" by (auto dest: same_kernel_safe)
  obtain xs where c: "chain (\<lambda>g. grp_link (OSFlagWaitList (grp s g))) (OSFlagFreeList s) xs"
    and u: "\<forall>h \<in> set xs. h < OS_MAX_FLAGS \<and> OSFlagType (grp s h) = OS_EVENT_TYPE_UNUSED"
    using flags_okD(3) [OF fok] by (auto simp: fglist_ok_def)
  have nm: "g \<notin> set xs" using u ty by auto
  have gl: "grp_link (OSFlagWaitList (grp (grp_put g s) g)) = OSFlagFreeList s"
    by (simp add: grp_put_def upd_grp_def ptr_of_grp_def split: option.split)
  have "chain (\<lambda>h. grp_link (OSFlagWaitList (grp (grp_put g s) h))) (OSFlagFreeList s) xs"
    using c nm by (subst chain_cong [where nx' = "\<lambda>h. grp_link (OSFlagWaitList (grp s h))"])
      (auto simp: grp_put_def upd_grp_def)
  then have "chain (\<lambda>h. grp_link (OSFlagWaitList (grp (grp_put g s) h))) (Some g) (g # xs)"
    by (simp add: gl)
  moreover have "\<forall>h \<in> set (g # xs). h < OS_MAX_FLAGS \<and> OSFlagType (grp (grp_put g s) h) = OS_EVENT_TYPE_UNUSED"
    using u nm g by (auto simp: grp_put_def upd_grp_def)
  ultimately have "fglist_ok (grp_put g s)" unfolding fglist_ok_def by (metis grp_put_fields(7))
  then show "flags_ok (grp_put g s)" using idle by (intro flags_ok_group [OF fok, of _ g]) simp_all
qed

lemma del_spec:
  assumes ok: "fsafe s" and ty: "OSFlagType (grp s g) = OS_EVENT_TYPE_FLAG" and g: "g < OS_MAX_FLAGS"
    and task: "OSIntNesting s = 0"
  obtains s1 s' where "woke {j. flag_waits s g j} (\<lambda>_. 0) s s1"
    and "OSFlagDel g OS_DEL_ALWAYS s = Some (None, OS_ERR_NONE, s')"
    and "s' = grp_put g s1 \<or> s' = OS_Sched (grp_put g s1)" and "fsafe s'"
proof -
  have fok: "flags_ok s" and k: "kok s" and ki: "kinv s" using ok by (auto simp: kok_def)
  obtain xs where l: "flag_list s g xs" and mem: "\<And>j. j \<in> set xs \<longleftrightarrow> flag_waits s g j"
    and np: "node_ptr (OSFlagWaitList (grp s g))"
    using fgrp_okE [OF fok ty] by metis
  obtain s1 where lp: "flag_del_loop (whd s g) s = Some s1" and wk: "woke (set xs) (\<lambda>_. 0) s s1"
    and l1: "flag_list s1 g []"
    using del_loop_ends [OF ki fok ty l, of "whd s g"] list_head [OF l] by auto
  note w = wokeD [OF wk]
  have k1: "kok s1" using woke_kok [OF wk k] .
  have ty1: "OSFlagType (grp s1 g) = OS_EVENT_TYPE_FLAG" by (simp add: w ty)
  note put = grp_put_safe [OF w(2) ty1 g empty_not_waiting [OF w(2) ty1 l1]]
  let ?b = "OSFlagWaitList (grp s g) \<noteq> PNull"
  let ?s = "if ?b then OS_Sched (grp_put g s1) else grp_put g s1"
  have res: "OSFlagDel g OS_DEL_ALWAYS s = Some (None, OS_ERR_NONE, ?s)"
    using lp task ty by (simp add: OSFlagDel_def whd_def Let_def)
  have "fsafe ?s"
  proof (cases ?b)
    case True
    then show ?thesis using fsafe_OS_Sched [OF put(2) [OF k1] put(1)] by simp
  next
    case False
    then have "s1 = s" using lp by (simp add: whd_def flag_del_loop.simps)
    then show ?thesis using False put k1 ok by simp
  qed
  moreover have "set xs = {j. flag_waits s g j}" using mem by auto
  ultimately show ?thesis using that [of s1 ?s] wk res by auto
qed

lemma fsafe_del:
  assumes ok: "fsafe s" and g: "g < OS_MAX_FLAGS"
  shows "\<exists>r err s'. OSFlagDel g opt s = Some (r, err, s') \<and> fsafe s'"
proof (cases "OSFlagType (grp s g) = OS_EVENT_TYPE_FLAG \<and> OSIntNesting s = 0")
  case True
  note ty = conjunct1 [OF True] and task = conjunct2 [OF True]
  have fok: "flags_ok s" using ok by simp
  consider (always) "opt = OS_DEL_ALWAYS" | (put) "opt = OS_DEL_NO_PEND" "OSFlagWaitList (grp s g) = PNull"
    | (err) "opt \<noteq> OS_DEL_ALWAYS" "opt = OS_DEL_NO_PEND \<Longrightarrow> OSFlagWaitList (grp s g) \<noteq> PNull" by auto
  then show ?thesis
  proof cases
    case always
    then show ?thesis using del_spec [OF ok ty g task] by metis
  next
    case put
    then have "flag_list s g []" by (simp add: flag_list_def whd_def)
    note idle = empty_not_waiting [OF fok ty this]
    show ?thesis using grp_put_safe [OF fok ty g idle] ok put ty task by (simp add: OSFlagDel_def Let_def)
  next
    case err
    then show ?thesis using ok ty task by (auto simp: OSFlagDel_def Let_def)
  qed
qed (use ok in \<open>auto simp: OSFlagDel_def word_gt_0\<close>)

section \<open>Blocking on a group and coming back\<close>

definition fl_blocked :: "nat \<Rightarrow> u32 \<Rightarrow> os_tcb \<Rightarrow> os_tcb" where
  "fl_blocked j tmo t = t\<lparr>OSTCBStat := OSTCBStat t OR OS_STAT_FLAG, OSTCBStatPend := OS_STAT_PEND_OK,
     OSTCBDly := tmo, OSTCBFlagNode := Some j\<rparr>"

lemma fl_blocked_frame [simp]:
  "OSTCBPrio (fl_blocked j tmo t) = OSTCBPrio t" "wf_tcb (fl_blocked j tmo t) = wf_tcb t"
  "OSTCBStat (fl_blocked j tmo t) = OSTCBStat t OR OS_STAT_FLAG" "OSTCBDly (fl_blocked j tmo t) = tmo"
  "OSTCBStatPend (fl_blocked j tmo t) = OS_STAT_PEND_OK" "OSTCBFlagNode (fl_blocked j tmo t) = Some j"
  by (simp_all add: fl_blocked_def wf_tcb_def)

lemma block_part: "flag_part s (OS_FlagBlock g j f wt tmo s)"
  by (rule flag_partI, rule os.equality)
    (simp_all add: OS_FlagBlock_def Let_def upd_grp_def upd_node_def upd_tcb_def rdy_clear_def set_rdy_def
      split: option.splits)

lemma block_fields:
  "OSTCBTbl (OS_FlagBlock g j f wt tmo s) = (OSTCBTbl s)(cur s := fl_blocked j tmo (tcb s (cur s)))"
  "OSFlagType (grp (OS_FlagBlock g j f wt tmo s) h) = OSFlagType (grp s h)"
  "OSFlagFlags (grp (OS_FlagBlock g j f wt tmo s) h) = OSFlagFlags (grp s h)"
  "OSFlagWaitList (grp (OS_FlagBlock g j f wt tmo s) h) = (if h = g then PFlagNode j else OSFlagWaitList (grp s h))"
  "OSFlagNodeNext (node (OS_FlagBlock g j f wt tmo s) k) = (if k = j then OSFlagWaitList (grp s g) else OSFlagNodeNext (node s k))"
  "OSFlagNodeTCB (node (OS_FlagBlock g j f wt tmo s) k) = (if k = j then cur s else OSFlagNodeTCB (node s k))"
  "OSFlagNodeFlagGrp (node (OS_FlagBlock g j f wt tmo s) k) = (if k = j then g else OSFlagNodeFlagGrp (node s k))"
  "OSFlagNodeFlags (node (OS_FlagBlock g j f wt tmo s) k) = (if k = j then f else OSFlagNodeFlags (node s k))"
  "OSFlagNodeWaitType (node (OS_FlagBlock g j f wt tmo s) k) = (if k = j then wt else OSFlagNodeWaitType (node s k))"
  by (simp_all add: OS_FlagBlock_def Let_def upd_grp_def upd_node_def upd_tcb_def rdy_clear_def set_rdy_def
      fl_blocked_def split: option.splits)

lemma block_links:
  fixes f :: u16 and wt :: u8 and tmo :: u32
  assumes "flag_list s g xs" "j \<notin> set xs"
  defines "s' \<equiv> OS_FlagBlock g j f wt tmo s"
  shows "nxt s' = (nxt s)(j := whd s g)" "whd s' = (whd s)(g := Some j)"
    "prv s' = (if xs = [] then prv s else (prv s)(hd xs := Some j))(j := None)"
proof -
  show "nxt s' = (nxt s)(j := whd s g)" "whd s' = (whd s)(g := Some j)"
    by (simp_all add: s'_def nxt_def whd_def fun_eq_iff block_fields)
  have h: "node_link (OSFlagWaitList (grp s g)) = (if xs = [] then None else Some (hd xs))"
    using list_head [OF assms(1)] by (simp add: whd_def)
  show "prv s' = (if xs = [] then prv s else (prv s)(hd xs := Some j))(j := None)"
    using assms(2) h
    by (cases xs) (auto simp: s'_def prv_def fun_eq_iff OS_FlagBlock_def Let_def upd_grp_def upd_node_def upd_tcb_def
        rdy_clear_def set_rdy_def)
qed

lemma block_rdy:
  assumes "kinv s" "live s (cur s)"
  shows "rdy_bm (OS_FlagBlock g j f wt tmo s) = bm_del (prio s (cur s)) (rdy_bm s)"
proof -
  let ?t = "tcb s (cur s)"
  have "rdy_bm (OS_FlagBlock g j f wt tmo s) = bm_clear (unat (OSTCBY ?t)) (OSTCBBitX ?t) (OSTCBBitY ?t) (rdy_bm s)"
    by (simp add: OS_FlagBlock_def Let_def rdy_clear_def upd_grp_def upd_node_def upd_tcb_def split: option.splits)
      (simp add: rdy_bm_def)
  then show ?thesis using wf_tcb_pos [OF kinv_wf [OF assms]] by (simp add: bm_del_def del: push_bit_of_1)
qed

lemma block_kinv:
  assumes inv: "kinv s" and lc: "live s (cur s)" and rc: "prio s (cur s) \<in> rdyset s"
    and idle: "prio s (cur s) \<noteq> 63" and free: "\<And>x. prio s (cur s) \<notin> wset s x"
  shows "kinv (OS_FlagBlock g j f wt tmo s)"
proof -
  let ?s = "OS_FlagBlock g j f wt tmo s" and ?p = "prio s (cur s)"
  note part = flag_part_frame [OF block_part [of s g j f wt tmo]]
  have r: "q \<in> rdyset ?s \<longleftrightarrow> q \<in> rdyset s \<and> q \<noteq> ?p" for q
    by (auto simp: rdyset_def block_rdy [OF inv lc] bm.elems_del)
  have st: "OSTCBStat (tcb s (cur s)) = 0" using kinv_ready_iff [OF inv lc] rc by simp
  have ok: "task_ok ?s (cur s)"
    using kinv_wf [OF inv lc] st free by (auto simp: task_ok_def r part block_fields)
  have "bm_ok (rdy_bm ?s)" using kinv_rdy [OF inv] by (simp add: block_rdy [OF inv lc] bm.invar_del)
  then show ?thesis using ok free kinv_idle [OF inv] idle kinv_ev [OF inv]
    by (intro kinv_one_task [OF inv lc]) (auto simp: r part block_fields)
qed

lemma block_flags:
  fixes f :: u16 and tmo :: u32
  assumes fok: "flags_ok s" and ty: "OSFlagType (grp s g) = OS_EVENT_TYPE_FLAG" and lc: "live s (cur s)"
    and st: "OSTCBStat (tcb s (cur s)) = 0" and free: "\<And>x. prio s (cur s) \<notin> wset s x"
    and none: "OSTCBFlagNode (tcb s (cur s)) = None" and wt: "wt < 4"
  defines "s' \<equiv> OS_FlagBlock g (cur s) f wt tmo s"
  shows "flags_ok s'" and "flag_waits s' g (cur s)"
proof -
  let ?c = "cur s"
  note part = flag_part_frame [OF block_part [of s g "cur s" f wt tmo], folded s'_def]
  note bf = block_fields [of g "cur s" f wt tmo s, folded s'_def]
  have lv: "live s' j = live s j" for j by (simp add: live_def part bf)
  have ws: "flag_waits s' h j \<longleftrightarrow> (if j = ?c then h = g else flag_waits s h j)" for h j
    using lc by (auto simp: flag_waits_def lv bf)
  then show "flag_waits s' g ?c" by simp
  have nc: "\<not> flag_waits s h ?c" for h using none by (simp add: flag_waits_def)
  have mem: "?c \<notin> set zs" if "OSFlagType (grp s h) = OS_EVENT_TYPE_FLAG" "flag_list s h zs" for h zs
    using waits_in_list [OF fok that, of ?c] nc by simp
  obtain xs where l: "flag_list s g xs" and np: "node_ptr (OSFlagWaitList (grp s g))"
    using fgrp_okE [OF fok ty] by metis
  have cx: "?c \<notin> set xs" using mem [OF ty l] .
  note lk = block_links [OF l cx, of f wt tmo, folded s'_def]
  show "flags_ok s'"
    unfolding flags_ok_def
  proof (intro conjI allI impI)
    fix j assume "live s' j"
    then have "fnode_ok s j" using flags_okD(1) [OF fok] by (simp add: lv)
    then show "fnode_ok s' j"
      using np wt st free ty
      by (cases "j = ?c") (auto simp: fnode_ok_def bf part split: option.splits)
  next
    fix h assume "OSFlagType (grp s' h) = OS_EVENT_TYPE_FLAG"
    then have th: "OSFlagType (grp s h) = OS_EVENT_TYPE_FLAG" by (simp add: bf)
    show "fgrp_ok s' h"
    proof (cases "h = g")
      case True
      have "flag_list s' g (?c # xs)"
        using dchain_push [OF l [unfolded flag_list_def] cx] unfolding flag_list_def lk by simp
      moreover have "j \<in> set (?c # xs) \<longleftrightarrow> flag_waits s' g j" for j
        using waits_in_list [OF fok ty l, of j] by (auto simp: ws)
      ultimately show ?thesis unfolding fgrp_ok_def True using bf(4) [of g] by (auto simp: node_ptr_def)
    next
      case False
      obtain zs where z: "flag_list s h zs" and np: "node_ptr (OSFlagWaitList (grp s h))"
        using fgrp_okE [OF fok th] by metis
      have "xs \<noteq> [] \<Longrightarrow> hd xs \<notin> set zs"
        using waits_in_list [OF fok th z] waits_in_list [OF fok ty l, of "hd xs"] False by (auto simp: flag_waits_def)
      then have "flag_list s' h zs" using z mem [OF th z] False unfolding flag_list_def lk by simp
      moreover have "j \<in> set zs \<longleftrightarrow> flag_waits s' h j" for j
        using waits_in_list [OF fok th z, of j] mem [OF th z] nc False by (auto simp: ws)
      ultimately show ?thesis using np False by (auto simp: fgrp_ok_def bf)
    qed
  next
    obtain us where c: "chain (\<lambda>g. grp_link (OSFlagWaitList (grp s g))) (OSFlagFreeList s) us"
      and u: "\<forall>g \<in> set us. g < OS_MAX_FLAGS \<and> OSFlagType (grp s g) = OS_EVENT_TYPE_UNUSED"
      using flags_okD(3) [OF fok] by (auto simp: fglist_ok_def)
    have "g \<notin> set us" using u ty by auto
    then have "chain (\<lambda>g. grp_link (OSFlagWaitList (grp s' g))) (OSFlagFreeList s') us"
      unfolding part(9) using c by (subst chain_cong [where nx' = "\<lambda>h. grp_link (OSFlagWaitList (grp s h))"]) (auto simp: bf)
    then show "fglist_ok s'" using u by (auto simp: fglist_ok_def bf)
  qed
qed

text \<open>A running task at task level that has no node in a wait list.\<close>

definition flag_free :: "os \<Rightarrow> bool" where
  "flag_free s \<longleftrightarrow> task_level s \<and> OSTCBFlagNode (tcb s (cur s)) = None"

text \<open>
  What a task that has called \<open>OSFlagPend\<close> satisfies until the call returns: either its node
  is still in the list (it waits, or it has timed out) or it has been made ready by a post.
\<close>

definition flag_pending :: "os \<Rightarrow> nat \<Rightarrow> bool" where
  "flag_pending s j \<longleftrightarrow> OSTCBFlagNode (tcb s j) = Some j \<or> OSTCBStatPend (tcb s j) = OS_STAT_PEND_OK"

lemma match_type: "flags_match wt c f = Some r \<Longrightarrow> wt < 4"
  by (auto simp: flags_match_def word_less_4 split: if_splits)

lemma flag_block:
  assumes ok: "fsafe s" and fr: "flag_free s" and idle: "OSPrioCur s \<noteq> OS_TASK_IDLE_PRIO"
    and ty: "OSFlagType (grp s g) = OS_EVENT_TYPE_FLAG" and wt: "wt < 4"
  shows "kok (OS_FlagBlock g (cur s) f wt tmo s)" "flags_ok (OS_FlagBlock g (cur s) f wt tmo s)"
    "flag_waits (OS_FlagBlock g (cur s) f wt tmo s) g (cur s)"
    "fsafe (OS_Sched (OS_FlagBlock g (cur s) f wt tmo s))"
    "OSTCBStat (tcb s (cur s)) = 0" "live s (cur s)"
proof -
  let ?s = "OS_FlagBlock g (cur s) f wt tmo s"
  note part = flag_part_frame [OF block_part [of s g "cur s" f wt tmo]]
  have k: "kinv s" "evlist_ok s" "cur_ok s" and fok: "flags_ok s" using ok by (auto simp: kok_def)
  have lvl: "OSIntNesting s = 0" "OSLockNesting s = 0" and free: "prio s (cur s) \<notin> wset s x" for x
    using fr by (auto simp: flag_free_def task_level_def)
  show lc: "live s (cur s)" using k(3) by (rule cur_ok_live)
  have rc: "prio s (cur s) \<in> rdyset s" using running_ready [OF k(1,3) _ lvl] ok by simp
  have pc: "prio s (cur s) = unat (OSPrioCur s)" using k(3) by (rule cur_ok_live)
  have i: "prio s (cur s) \<noteq> 63" using idle unfolding pc by (metis word_unat_eq_iff unat_numeral_63)
  show st: "OSTCBStat (tcb s (cur s)) = 0" using kinv_ready_iff [OF k(1) lc] rc by simp
  have none: "OSTCBFlagNode (tcb s (cur s)) = None" using fr by (simp add: flag_free_def)
  note bf = block_flags [OF fok ty lc st free none wt, of f tmo]
  show f: "flags_ok ?s" and "flag_waits ?s g (cur s)" by (rule bf)+
  have "kinv ?s" using k(1) lc rc i free by (rule block_kinv)
  moreover have "evlist_ok ?s" using k(2) by (rule evlist_frame) (simp_all add: part)
  moreover have "cur_ok ?s" using k(3) by (rule cur_ok_core) (simp_all add: part block_fields)
  ultimately show kk: "kok ?s" by (rule kokI)
  show "fsafe (OS_Sched ?s)" using kk f by (rule fsafe_OS_Sched)
qed

lemma fsafe_tcb_rdy:
  assumes ok: "fsafe s"
  shows "fsafe (upd_tcb i (\<lambda>t. t\<lparr>OSTCBFlagsRdy := f\<rparr>) s)"
proof (intro conjI)
  let ?s = "upd_tcb i (\<lambda>t. t\<lparr>OSTCBFlagsRdy := f\<rparr>) s"
  have k: "kinv s" "evlist_ok s" "cur_ok s" "sched_ok s" "flags_ok s" using ok by (simp_all add: kok_def)
  have "kinv ?s" using k(1) by (rule kinv_frame) (simp_all add: upd_tcb_def same_core_def)
  moreover have "evlist_ok ?s" using k(2) by (rule evlist_frame) (simp_all add: upd_tcb_def)
  moreover have "cur_ok ?s" using k(3) by (rule cur_ok_core) (simp_all add: upd_tcb_def)
  ultimately show "kok ?s" by (rule kokI)
  show "sched_ok ?s" using k(4) by (rule sched_ok_core) (simp_all add: upd_tcb_def rdy_bm_def)
  show "flags_ok ?s" using k(5) by (rule flags_ok_frame) (simp_all add: upd_tcb_def wset_def)
qed

lemma fsafe_pend:
  assumes ok: "fsafe s" and fr: "flag_free s" and idle: "OSPrioCur s \<noteq> OS_TASK_IDLE_PRIO"
  shows "fsafe (snd (OSFlagPend g f wt tmo s))"
proof (cases "OSFlagType (grp s g) = OS_EVENT_TYPE_FLAG \<and> OSIntNesting s = 0 \<and> OSLockNesting s = 0")
  case True
  let ?wt = "wt AND NOT OS_FLAG_CONSUME"
  show ?thesis
  proof (cases "flags_match ?wt (OSFlagFlags (grp s g)) f")
    case None
    then show ?thesis using True ok by (simp add: OSFlagPend_def Let_def)
  next
    case (Some r)
    obtain rf b where r: "r = (rf, b)" by fastforce
    show ?thesis
    proof (cases b)
      case b: True
      have "fsafe (if wt AND OS_FLAG_CONSUME \<noteq> 0 then consume_grp g ?wt rf s else s)"
        using ok fsafe_consume by simp
      then have "fsafe (upd_tcb (cur s) (\<lambda>t. t\<lparr>OSTCBFlagsRdy := rf\<rparr>)
          (if wt AND OS_FLAG_CONSUME \<noteq> 0 then consume_grp g ?wt rf s else s))" by (rule fsafe_tcb_rdy)
      then show ?thesis using True Some r b by (cases "wt AND OS_FLAG_CONSUME = 0") (simp_all add: OSFlagPend_def Let_def)
    next
      case False
      then show ?thesis
        using flag_block(4) [OF ok fr idle conjunct1 [OF True] match_type [OF Some]] True Some r
        by (simp add: OSFlagPend_def Let_def)
    qed
  qed
qed (use ok in \<open>auto simp: OSFlagPend_def word_gt_0\<close>)

lemma unlink_kernel:
  assumes "flags_ok s" "flag_waits s g j"
  shows "OSTCBTbl (OS_FlagUnlink j s) = (OSTCBTbl s)(j := (tcb s j)\<lparr>OSTCBFlagNode := None\<rparr>)"
    "OSTCBPrioTbl (OS_FlagUnlink j s) = OSTCBPrioTbl s"
  using unlink_tcb fnode_waits(1) [OF assms] flag_part_frame [OF unlink_part] by auto

lemma flag_return_timeout:
  fixes g :: nat and wt :: u8
  assumes ok: "fsafe s" and lvl: "OSIntNesting s = 0" "OSLockNesting s = 0"
    and nd: "OSTCBFlagNode (tcb s (cur s)) = Some (cur s)"
  defines "s' \<equiv> snd (snd (OSFlagPend_return g wt s))"
  shows "fst (snd (OSFlagPend_return g wt s)) = OS_ERR_TIMEOUT" and "fsafe s'" and "flag_free s'"
proof -
  let ?c = "cur s"
  have k: "kinv s" "evlist_ok s" "cur_ok s" and fok: "flags_ok s" using ok by (auto simp: kok_def)
  have lc: "live s ?c" using k(3) by (rule cur_ok_live)
  have rc: "prio s ?c \<in> rdyset s" using running_ready [OF k(1,3) _ lvl] ok by simp
  have st: "OSTCBStat (tcb s ?c) = 0" "OSTCBDly (tcb s ?c) = 0" using kinv_ready_iff [OF k(1) lc] rc by auto
  define h where "h = OSFlagNodeFlagGrp (node s ?c)"
  have w: "flag_waits s h ?c" using lc nd by (simp add: flag_waits_def h_def)
  note n = fnode_waits [OF fok w]
  have to: "OSTCBStatPend (tcb s ?c) = OS_STAT_PEND_TO" using n(7) st by simp
  obtain xs ys where l: "flag_list s h (xs @ ?c # ys)"
    using fgrp_okE [OF fok n(3)] w by (metis split_list)
  show "fst (snd (OSFlagPend_return g wt s)) = OS_ERR_TIMEOUT" by (simp add: OSFlagPend_return_def to)
  let ?f = "\<lambda>t. t\<lparr>OSTCBStatPend := OS_STAT_PEND_OK\<rparr>"
  have eq: "s' = upd_tcb ?c (\<lambda>t. t\<lparr>OSTCBStat := OS_STAT_RDY\<rparr>) (OS_FlagUnlink ?c (upd_tcb ?c ?f s))"
    by (simp add: s'_def OSFlagPend_return_def to)
  have cm: "OS_FlagUnlink ?c (upd_tcb ?c ?f s) = upd_tcb ?c ?f (OS_FlagUnlink ?c s)"
    using n(1) by (intro os.equality) (auto simp: OS_FlagUnlink_def Let_def upd_tcb_def upd_grp_def upd_node_def split: option.splits)
  have t: "OSTCBTbl s' = (OSTCBTbl s)(?c := (tcb s ?c)\<lparr>OSTCBFlagNode := None, OSTCBStatPend := OS_STAT_PEND_OK, OSTCBStat := 0\<rparr>)"
    unfolding eq cm by (simp add: upd_tcb_def unlink_kernel [OF fok w])
  have part: "flag_part s s'"
    unfolding eq cm by (rule flag_part_trans [OF unlink_part [of s ?c]], rule flag_partI, rule os.equality)
      (simp_all add: upd_tcb_def)
  note p = flag_part_frame [OF part]
  have u: "OSFlagTbl s' = OSFlagTbl (OS_FlagUnlink ?c s)" "OSFlagNodes s' = OSFlagNodes (OS_FlagUnlink ?c s)"
    unfolding eq cm by (simp_all add: upd_tcb_def)
  have rd: "rdy_bm s' = rdy_bm s"
    unfolding eq cm using unlink_rest(8) [of ?c s] by (simp add: upd_tcb_def rdy_bm_def)
  then have r: "rdyset s' = rdyset s" by (simp add: rdyset_def)
  have lv: "live s' j = live s j" for j by (simp add: live_def t p)
  have "flags_ok s'" by (rule flags_ok_remove(1) [OF fok w l u]) (simp_all add: t p lv)
  moreover have "task_ok s' ?c"
    using kinv_wf [OF k(1) lc] rc st n(5) by (auto simp: task_ok_def t p r wf_tcb_def)
  then have "kinv s'" using n(5) kinv_ev [OF k(1)] kinv_idle [OF k(1)] kinv_rdy [OF k(1)]
    by (intro kinv_one_task [OF k(1) lc]) (auto simp: t p r rd)
  moreover have "evlist_ok s'" using k(2) by (rule evlist_frame) (simp_all add: p)
  moreover have "cur_ok s'" using k(3) by (rule cur_ok_core) (simp_all add: p t)
  moreover have "sched_ok s'" using conjunct2 [OF conjunct1 [OF ok]] by (rule sched_ok_core) (simp_all add: rd p)
  ultimately show "fsafe s'" by (simp add: kok_def)
  show "flag_free s'" using lvl n(5) by (simp add: flag_free_def task_level_def p t)
qed

lemma flag_return_ok:
  fixes g :: nat and wt :: u8
  assumes ok: "fsafe s" and lvl: "OSIntNesting s = 0" "OSLockNesting s = 0"
    and pd: "OSTCBStatPend (tcb s (cur s)) = OS_STAT_PEND_OK"
  defines "s' \<equiv> snd (snd (OSFlagPend_return g wt s))"
  shows "fsafe s'" and "flag_free s'"
proof -
  let ?c = "cur s"
  have k: "kinv s" "cur_ok s" and fok: "flags_ok s" using ok by (auto simp: kok_def)
  have lc: "live s ?c" using k(2) by (rule cur_ok_live)
  have rc: "prio s ?c \<in> rdyset s" using running_ready [OF k _ lvl] ok by simp
  have st: "OSTCBStat (tcb s ?c) = 0" using kinv_ready_iff [OF k(1) lc] rc by auto
  have "OSTCBFlagNode (tcb s ?c) = None"
    using flags_okD(1) [OF fok lc] st pd by (auto simp: fnode_ok_def split: option.splits)
  moreover have "prio s ?c \<notin> wset s e" for e
    using kinv_task [OF k(1) lc] st pd by (auto simp: task_ok_def)
  ultimately have fr: "flag_free s" using lvl by (simp add: flag_free_def task_level_def)
  have s': "s' = s \<or> (\<exists>f. s' = consume_grp g (wt AND NOT OS_FLAG_CONSUME) f s)"
    by (auto simp: s'_def OSFlagPend_return_def Let_def pd)
  then show "fsafe s'" using ok fsafe_consume by auto
  show "flag_free s'" using s' fr by (auto simp: flag_free_def task_level_def consume_grp_def upd_grp_def cur_def wset_def)
qed

lemma flag_return:
  assumes "fsafe s" "OSIntNesting s = 0" "OSLockNesting s = 0" "flag_pending s (cur s)"
  shows "fsafe (snd (snd (OSFlagPend_return g wt s)))" and "flag_free (snd (snd (OSFlagPend_return g wt s)))"
  using assms flag_return_ok flag_return_timeout(2,3) by (auto simp: flag_pending_def)

section \<open>What a wait asks for, bit by bit\<close>

definition wait_holds :: "u8 \<Rightarrow> u16 \<Rightarrow> u16 \<Rightarrow> bool" where
  "wait_holds wt now flags \<longleftrightarrow>
     (if wt = OS_FLAG_WAIT_SET_ALL then \<forall>n < 16. bit flags n \<longrightarrow> bit now n
      else if wt = OS_FLAG_WAIT_SET_ANY then \<exists>n < 16. bit flags n \<and> bit now n
      else if wt = OS_FLAG_WAIT_CLR_ALL then \<forall>n < 16. bit flags n \<longrightarrow> \<not> bit now n
      else if wt = OS_FLAG_WAIT_CLR_ANY then \<exists>n < 16. bit flags n \<and> \<not> bit now n
      else False)"

lemma u16_eq_iff: "(x::u16) = y \<longleftrightarrow> (\<forall>n < 16. bit x n = bit y n)"
  by (auto intro: bit_word_eqI)

lemma flags_match_holds:
  "flags_match wt now flags = Some (r, ok) \<Longrightarrow> ok = wait_holds wt now flags"
  by (auto simp: flags_match_def wait_holds_def u16_eq_iff bit_and_iff bit_not_iff split: if_splits)

lemma flags_match_rdy:
  assumes "flags_match wt now flags = Some (r, ok)"
  shows "r = (if wt = OS_FLAG_WAIT_SET_ALL \<or> wt = OS_FLAG_WAIT_SET_ANY then now AND flags else NOT now AND flags)"
  using assms by (auto simp: flags_match_def split: if_splits)

lemma flags_match_bits:
  assumes "flags_match wt now flags = Some (r, ok)"
  shows "bit r n \<longleftrightarrow> n < 16 \<and> bit flags n \<and> (bit now n \<longleftrightarrow> wt = OS_FLAG_WAIT_SET_ALL \<or> wt = OS_FLAG_WAIT_SET_ANY)"
    and "bit (flags_consume wt r now) n \<longleftrightarrow> (if bit r n then \<not> bit now n else bit now n)"
  unfolding flags_match_rdy [OF assms] flags_consume_def
  by (auto simp: bit_and_iff bit_or_iff bit_not_iff dest: bit_imp_le_length)

lemma fl_sat_holds:
  assumes "OSFlagNodeWaitType (node s j) < 4"
  shows "fl_sat s g j \<longleftrightarrow> wait_holds (OSFlagNodeWaitType (node s j)) (OSFlagFlags (grp s g)) (OSFlagNodeFlags (node s j))"
  using flags_match_holds [OF flags_match_total [OF assms]] by (simp add: fl_sat_def)

section \<open>Properties\<close>

lemma flags_ok_init:
  assumes "\<And>j. live s j \<Longrightarrow> OSTCBFlagNode (tcb s j) = None \<and> OSTCBStat (tcb s j) AND OS_STAT_FLAG = 0"
  shows "flags_ok (OS_FlagInit s)"
proof -
  let ?s = "OS_FlagInit s"
  have t: "OSFlagType (grp ?s g) = OS_EVENT_TYPE_UNUSED" for g
    by (simp add: OS_FlagInit_def Let_def upt_rec flag_zero_def)
  have "chain (\<lambda>g. grp_link (OSFlagWaitList (grp ?s g))) (OSFlagFreeList ?s) [0, 1, 2, 3, 4]"
    by (simp add: OS_FlagInit_def Let_def upt_rec flag_zero_def)
  then have "fglist_ok ?s" unfolding fglist_ok_def using t by (intro exI [of _ "[0, 1, 2, 3, 4]"]) simp
  moreover have "fnode_ok ?s j" if "live ?s j" for j
    using assms [of j] that by (simp add: fnode_ok_def OS_FlagInit_def Let_def live_def)
  ultimately show ?thesis by (simp add: flags_ok_def t)
qed

text \<open>Three tasks and one group without flags set; the running task has priority 5.\<close>

definition fex :: os where
  "fex = snd (snd (OSFlagCreate 0 (OS_FlagInit (ex_os OS_EVENT_TYPE_SEM 0 PNull False))))"

lemma fex_init: "fsafe (OS_FlagInit (ex_os OS_EVENT_TYPE_SEM 0 PNull False))"
proof -
  let ?x = "ex_os OS_EVENT_TYPE_SEM 0 PNull False"
  have "same_kernel ?x (OS_FlagInit ?x)" by (simp add: same_kernel_def OS_FlagInit_def Let_def)
  moreover have "OSTCBFlagNode (tcb ?x j) = None \<and> OSTCBStat (tcb ?x j) AND OS_STAT_FLAG = 0" if "live ?x j" for j
    using that less_3_cases [of j] by (auto simp: ex_live ex_tcbs ex_tcb_def tcb_zero_def)
  ultimately show ?thesis using ex_safe [of OS_EVENT_TYPE_SEM] same_kernel_safe flags_ok_init by (simp add: stat_mask_def)
qed

lemma fex_facts:
  "OSFlagType (grp fex 0) = OS_EVENT_TYPE_FLAG" "OSFlagFlags (grp fex 0) = 0" "OSPrioCur fex = 5" "cur fex = 1"
  "OSIntNesting fex = 0" "OSLockNesting fex = 0" "OSTCBFlagNode (tcb fex 1) = None" "prio fex 1 = 5" "prio fex 2 = 10"
  "OSTCBTbl fex = OSTCBTbl (ex_os OS_EVENT_TYPE_SEM 0 PNull False)"
  "rdyset fex = {5, 10, 63}" "wset fex e = {}"
proof -
  have n: "OSIntNesting (OS_FlagInit (ex_os ty c p w)) = 0" "OSFlagFreeList (OS_FlagInit (ex_os ty c p w)) = Some 0" for ty c p w
    by (simp_all add: OS_FlagInit_def Let_def ex_fields)
  have e: "fex = upd_grp 0 (\<lambda>v. v\<lparr>OSFlagType := OS_EVENT_TYPE_FLAG, OSFlagFlags := 0,
                OSFlagWaitList := PNull, OSFlagName := ''?''\<rparr>)
              ((OS_FlagInit (ex_os OS_EVENT_TYPE_SEM 0 PNull False))\<lparr>OSFlagFreeList := Some 1\<rparr>)"
    unfolding fex_def OSFlagCreate_def by (simp add: n) (simp add: OS_FlagInit_def Let_def upt_rec)
  show "OSFlagType (grp fex 0) = OS_EVENT_TYPE_FLAG" "OSFlagFlags (grp fex 0) = 0" by (simp_all add: e upd_grp_def)
  show t: "OSTCBTbl fex = OSTCBTbl (ex_os OS_EVENT_TYPE_SEM 0 PNull False)"
    by (simp add: e upd_grp_def OS_FlagInit_def Let_def)
  show "OSPrioCur fex = 5" "cur fex = 1" "OSIntNesting fex = 0" "OSLockNesting fex = 0"
    by (simp_all add: e upd_grp_def OS_FlagInit_def Let_def ex_fields cur_def)
  show "OSTCBFlagNode (tcb fex 1) = None" "prio fex 1 = 5" "prio fex 2 = 10"
    unfolding t by (simp_all add: ex_os_def ex_tcb_def tcb_zero_def)
  have "rdy_bm fex = rdy_bm (ex_os OS_EVENT_TYPE_SEM 0 PNull False)"
    by (simp add: e upd_grp_def OS_FlagInit_def Let_def rdy_bm_def)
  then show "rdyset fex = {5, 10, 63}" using ex_rdyset [of OS_EVENT_TYPE_SEM 0 PNull False] by (simp add: rdyset_def)
  have "ev fex = ev (ex_os OS_EVENT_TYPE_SEM 0 PNull False)"
    by (simp add: e upd_grp_def OS_FlagInit_def Let_def)
  then show "wset fex e = {}" using ex_wset [of OS_EVENT_TYPE_SEM 0 PNull False e] by (simp add: wset_def)
qed

lemma fex_safe: "fsafe fex" "flag_free fex"
proof -
  show "fsafe fex" unfolding fex_def using fex_init by (rule fsafe_create)
  show "flag_free fex" by (simp add: flag_free_def task_level_def fex_facts(4-9,12) del: One_nat_def)
qed

text \<open>
  The services on event flag groups keep the kernel and the flag groups well formed, and end:
  the wait lists stay doubly linked lists of exactly the tasks that wait on the group, the task that
  runs is the most urgent ready one, and a task that returns from a pend, woken or timed out, is in
  no list any more.
\<close>

theorem flag_services_safe:
  assumes ok: "fsafe s" and g: "g < OS_MAX_FLAGS"
  shows "fsafe (snd (snd (OSFlagAccept g f wt s))) \<and> fsafe (snd (snd (OSFlagCreate f s))) \<and>
    (\<exists>r err s'. OSFlagDel g opt s = Some (r, err, s') \<and> fsafe s') \<and>
    (\<exists>r err s'. OSFlagPost g f opt s = Some (r, err, s') \<and> fsafe s') \<and>
    (flag_free s \<and> OSPrioCur s \<noteq> OS_TASK_IDLE_PRIO \<longrightarrow> fsafe (snd (OSFlagPend g f wt tmo s))) \<and>
    (OSIntNesting s = 0 \<and> OSLockNesting s = 0 \<and> flag_pending s (cur s) \<longrightarrow>
      fsafe (snd (snd (OSFlagPend_return g wt s))) \<and> flag_free (snd (snd (OSFlagPend_return g wt s))))"
  using fsafe_accept [OF ok] fsafe_create [OF ok] fsafe_del [OF ok g] fsafe_post [OF ok] fsafe_pend [OF ok]
    flag_return [OF ok] by auto

theorem flag_services_safe_witness:
  "\<exists>r err s'. OSFlagPost 0 3 OS_FLAG_SET (snd (OSFlagPend 0 1 OS_FLAG_WAIT_SET_ALL 0 fex)) = Some (r, err, s') \<and> fsafe s'"
proof -
  have "fsafe (snd (OSFlagPend 0 1 OS_FLAG_WAIT_SET_ALL 0 fex))"
    using flag_services_safe [OF fex_safe(1), of 0 1 OS_FLAG_WAIT_SET_ALL 0 0] fex_safe(2) fex_facts(3) by auto
  then show ?thesis
    using flag_services_safe [of "snd (OSFlagPend 0 1 OS_FLAG_WAIT_SET_ALL 0 fex)" 0 3 0 OS_FLAG_SET 0] by auto
qed

text \<open>The flags after a post, and the waiters whose condition they satisfy.\<close>

definition flag_posted :: "u8 \<Rightarrow> u16 \<Rightarrow> u16 \<Rightarrow> u16" where
  "flag_posted opt f old = (if opt = OS_FLAG_CLR then old AND NOT f else old OR f)"

definition flag_hit :: "os \<Rightarrow> nat \<Rightarrow> u16 \<Rightarrow> nat \<Rightarrow> bool" where
  "flag_hit s g now j \<longleftrightarrow> flag_waits s g j \<and>
    wait_holds (OSFlagNodeWaitType (node s j)) now (OSFlagNodeFlags (node s j))"

lemma post_wakes:
  assumes ok: "fsafe s" and ty: "OSFlagType (grp s g) = OS_EVENT_TYPE_FLAG"
    and opt: "opt = OS_FLAG_CLR \<or> opt = OS_FLAG_SET" and now: "now = flag_posted opt f (OSFlagFlags (grp s g))"
  shows "\<exists>s'. OSFlagPost g f opt s = Some (now, OS_ERR_NONE, s') \<and> fsafe s' \<and> OSFlagFlags (grp s' g) = now \<and>
    (\<forall>ws. flag_list s g ws \<longrightarrow> flag_list s' g (filter (\<lambda>j. \<not> flag_hit s g now j) ws)) \<and>
    (\<forall>j. flag_hit s g now j \<longrightarrow> \<not> flag_waits s' g j \<and> OSTCBStatPend (tcb s' j) = OS_STAT_PEND_OK \<and>
       flags_match (OSFlagNodeWaitType (node s j)) now (OSFlagNodeFlags (node s j)) =
         Some (OSTCBFlagsRdy (tcb s' j), True) \<and>
       (prio s j \<in> rdyset s' \<longleftrightarrow> OSTCBStat (tcb s j) AND OS_STAT_SUSPEND = 0)) \<and>
    (\<forall>j. live s j \<and> \<not> flag_hit s g now j \<longrightarrow> flag_waits s' g j = flag_waits s g j \<and>
       OSTCBStat (tcb s' j) = OSTCBStat (tcb s j) \<and> OSTCBDly (tcb s' j) = OSTCBDly (tcb s j) \<and>
       (prio s j \<in> rdyset s' \<longleftrightarrow> prio s j \<in> rdyset s))"
proof -
  define s1 where "s1 = upd_grp g (\<lambda>v. v\<lparr>OSFlagFlags :=
      (if opt = OS_FLAG_CLR then OSFlagFlags v AND NOT f else OSFlagFlags v OR f)\<rparr>) s"
  obtain s2 s' where wk: "woke {j. flag_waits s g j \<and> fl_sat s1 g j} (fl_got s1 g) s1 s2"
    and res: "OSFlagPost g f opt s = Some (OSFlagFlags (grp s1 g), OS_ERR_NONE, s')"
    and s': "s' = s2 \<or> s' = OS_Sched s2" and ok': "fsafe s'"
    and li: "\<And>ws. flag_list s g ws \<Longrightarrow> flag_list s' g (filter (\<lambda>j. \<not> fl_sat s1 g j) ws)"
    by (rule post_spec [OF ok ty opt, of f, folded s1_def]) (rule that)
  note w = wokeD [OF wk] and p = flag_part_frame [OF wokeD(3) [OF wk]]
  have ki: "kinv s" and fok: "flags_ok s" using ok by (auto simp: kok_def)
  have f1: "OSFlagFlags (grp s1 g) = now" by (simp add: s1_def upd_grp_def now flag_posted_def)
  have e1: "OSTCBTbl s1 = OSTCBTbl s" "OSFlagNodes s1 = OSFlagNodes s" "rdyset s1 = rdyset s"
      "OSTCBPrioTbl s1 = OSTCBPrioTbl s"
    by (simp_all add: s1_def upd_grp_def rdyset_def rdy_bm_def)
  have sat: "flag_waits s g j \<and> fl_sat s1 g j \<longleftrightarrow> flag_hit s g now j" for j
    using fl_sat_holds [of s1 j g] fnode_waits(2) [OF fok, of g j] by (auto simp: flag_hit_def e1 f1)
  have tc: "same_core (tcb s2 j) (tcb s' j)" "OSTCBFlagNode (tcb s' j) = OSTCBFlagNode (tcb s2 j)"
      "OSTCBFlagsRdy (tcb s' j) = OSTCBFlagsRdy (tcb s2 j)" for j
    using s' by (auto simp: OS_Sched_core)
  have sp: "rdyset s' = rdyset s2" "OSTCBPrioTbl s' = OSTCBPrioTbl s" "OSFlagNodes s' = OSFlagNodes s2"
      "OSFlagFlags (grp s' g) = now"
    using s' by (auto simp: p e1 w f1)
  have pr: "OSTCBPrio (tcb s' j) = OSTCBPrio (tcb s j)" for j
    using tc(1) [of j] by (simp add: same_core_def w(4) e1)
  have lv: "live s' j = live s j" for j by (simp add: live_def pr sp)
  have fw: "flag_waits s' g j \<longleftrightarrow> flag_waits s g j \<and> \<not> flag_hit s g now j" for j
    using sat [of j] by (auto simp: flag_waits_def lv tc sp w e1)
  have rs: "q \<in> rdyset s' \<longleftrightarrow> q \<in> rdyset s \<or> (\<exists>j. flag_hit s g now j \<and> q = prio s j \<and> OSTCBStat (tcb s j) AND NOT OS_STAT_FLAG = 0)" for q
    unfolding sp w(10) by (auto simp: sat e1)
  have A: "\<not> flag_waits s' g j \<and> OSTCBStatPend (tcb s' j) = OS_STAT_PEND_OK \<and>
       flags_match (OSFlagNodeWaitType (node s j)) now (OSFlagNodeFlags (node s j)) = Some (OSTCBFlagsRdy (tcb s' j), True) \<and>
       (prio s j \<in> rdyset s' \<longleftrightarrow> OSTCBStat (tcb s j) AND OS_STAT_SUSPEND = 0)" if j: "flag_hit s g now j" for j
  proof -
    have wj: "flag_waits s g j" and st: "fl_sat s1 g j" using j sat by auto
    note n = fnode_waits [OF fok wj]
    have lj: "live s j" using wj by (simp add: flag_waits_def)
    have "tcb s2 j = fl_woken (fl_got s1 g j) (tcb s j)" using wj st by (simp add: w(4) e1)
    then have "OSTCBStatPend (tcb s' j) = OS_STAT_PEND_OK" "OSTCBFlagsRdy (tcb s' j) = fl_got s1 g j"
      using tc [of j] by (simp_all add: same_core_def)
    moreover have "flags_match (OSFlagNodeWaitType (node s j)) now (OSFlagNodeFlags (node s j)) = Some (fl_got s1 g j, True)"
      using fl_match [of s1 j g] n(2) st by (simp add: e1 f1)
    moreover have z: "OSTCBStat (tcb s j) AND NOT OS_STAT_FLAG = 0 \<longleftrightarrow> OSTCBStat (tcb s j) AND OS_STAT_SUSPEND = 0"
      using n(6) by (rule stat_flag_only)
    moreover have "prio s j \<in> rdyset s \<Longrightarrow> OSTCBStat (tcb s j) AND OS_STAT_SUSPEND = 0"
      using kinv_ready_iff [OF ki lj] by simp
    moreover have "k = j" if "flag_hit s g now k" "prio s j = prio s k" for k
      using that lj live_inj [of s j k] by (auto simp: flag_hit_def flag_waits_def)
    ultimately show ?thesis using j fw rs by auto
  qed
  have B: "flag_waits s' g j = flag_waits s g j \<and>
       OSTCBStat (tcb s' j) = OSTCBStat (tcb s j) \<and> OSTCBDly (tcb s' j) = OSTCBDly (tcb s j) \<and>
       (prio s j \<in> rdyset s' \<longleftrightarrow> prio s j \<in> rdyset s)" if j: "live s j" "\<not> flag_hit s g now j" for j
  proof -
    have "tcb s2 j = tcb s j" using j(2) sat by (auto simp: w(4) e1)
    moreover have "k = j" if "flag_hit s g now k" "prio s j = prio s k" for k
      using that j(1) live_inj [of s j k] by (auto simp: flag_hit_def flag_waits_def)
    ultimately show ?thesis using tc(1) [of j] fw rs j by (auto simp: same_core_def)
  qed
  have C: "flag_list s' g (filter (\<lambda>j. \<not> flag_hit s g now j) ws)" if ws: "flag_list s g ws" for ws
  proof -
    have "filter (\<lambda>j. \<not> fl_sat s1 g j) ws = filter (\<lambda>j. \<not> flag_hit s g now j) ws"
      using waits_in_list [OF fok ty ws] sat by (intro filter_cong) auto
    then show ?thesis using li [OF ws] by simp
  qed
  show ?thesis using res [unfolded f1] A B C sp(4) ok' by (intro exI [of _ s'] conjI) auto
qed

text \<open>
  C12. A post changes the flags of its group and wakes exactly the waiters whose condition then
  holds. The doubly linked list from \<open>OSFlagWaitList\<close> is afterwards the list before it without exactly those waiters,
  in the same order, and all invariants of the flag groups and of the kernel hold again. Each woken waiter has no
  node any more, holds the flags that satisfied it and is ready unless it is also suspended; every other task keeps
  its wait, its status, its delay and its readiness. The loop over the list ends.
\<close>

theorem flag_post_wakes_exactly:
  assumes ok: "fsafe s" and ty: "OSFlagType (grp s g) = OS_EVENT_TYPE_FLAG" and ws: "flag_list s g ws"
    and opt: "opt = OS_FLAG_CLR \<or> opt = OS_FLAG_SET" and now: "now = flag_posted opt f (OSFlagFlags (grp s g))"
  shows "set ws = {j. flag_waits s g j} \<and>
    (\<exists>s'. OSFlagPost g f opt s = Some (now, OS_ERR_NONE, s') \<and> fsafe s' \<and> OSFlagFlags (grp s' g) = now \<and>
    flag_list s' g (filter (\<lambda>j. \<not> flag_hit s g now j) ws) \<and>
    (\<forall>j. flag_hit s g now j \<longrightarrow> \<not> flag_waits s' g j \<and> OSTCBStatPend (tcb s' j) = OS_STAT_PEND_OK \<and>
       flags_match (OSFlagNodeWaitType (node s j)) now (OSFlagNodeFlags (node s j)) =
         Some (OSTCBFlagsRdy (tcb s' j), True) \<and>
       (prio s j \<in> rdyset s' \<longleftrightarrow> OSTCBStat (tcb s j) AND OS_STAT_SUSPEND = 0)) \<and>
    (\<forall>j. live s j \<and> \<not> flag_hit s g now j \<longrightarrow> flag_waits s' g j = flag_waits s g j \<and>
       OSTCBStat (tcb s' j) = OSTCBStat (tcb s j) \<and> OSTCBDly (tcb s' j) = OSTCBDly (tcb s j) \<and>
       (prio s j \<in> rdyset s' \<longleftrightarrow> prio s j \<in> rdyset s)))" (is "_ \<and> (\<exists>s'. ?A s' \<and> ?B s' \<and> ?F s' \<and> ?L s' \<and> ?H s' \<and> ?N s')")
proof -
  have st: "set ws = {j. flag_waits s g j}" using waits_in_list [OF conjunct2 [OF ok] ty ws] by auto
  obtain s' where r: "?A s'" "?B s'" "?F s'" "\<forall>ws. flag_list s g ws \<longrightarrow> flag_list s' g (filter (\<lambda>j. \<not> flag_hit s g now j) ws)"
    "?H s'" "?N s'" using post_wakes [OF ok ty opt now] by (elim exE conjE) (rule that; (assumption | (rule conjI; (rule conjI)?; assumption)))
  show ?thesis by (rule conjI [OF st], rule exI [of _ s'], intro conjI r(1-3,5,6) r(4) [rule_format, OF ws])
qed

text \<open>The running task of \<open>fex\<close> waits for bit 0.\<close>

definition fexp :: os where "fexp = snd (OSFlagPend 0 1 OS_FLAG_WAIT_SET_ALL 0 fex)"

lemma fexp_eq: "OSFlagPend 0 1 OS_FLAG_WAIT_SET_ALL 0 fex = (None, OS_Sched (OS_FlagBlock 0 1 1 OS_FLAG_WAIT_SET_ALL 0 fex))"
  by (simp add: OSFlagPend_def fex_facts(1-6) flags_match_def Let_def)

lemma fex_nodes: "OSTCBFlagNode (tcb fex j) = None"
  unfolding fex_facts(10) by (simp add: ex_os_def ex_tcb_def tcb_zero_def os_bss_def)

lemma fexp_facts:
  "fsafe fexp" "OSFlagType (grp fexp 0) = OS_EVENT_TYPE_FLAG" "OSFlagFlags (grp fexp 0) = 0" "flag_waits fexp 0 1"
  "OSFlagNodeWaitType (node fexp 1) = OS_FLAG_WAIT_SET_ALL" "OSFlagNodeFlags (node fexp 1) = 1"
  "OSTCBStat (tcb fexp 1) = OS_STAT_FLAG" "prio fexp 1 = 5" "flag_waits fexp 0 j \<Longrightarrow> j = 1"
proof -
  have c: "cur fex = 1" by (rule fex_facts)
  show "fsafe fexp" unfolding fexp_def using fex_safe fex_facts(3) by (intro fsafe_pend) auto
  have w: "(OS_FLAG_WAIT_SET_ALL :: u8) < 4" by simp
  have i: "OSPrioCur fex \<noteq> OS_TASK_IDLE_PRIO" by (simp add: fex_facts(3))
  note b = flag_block(3) [OF fex_safe i fex_facts(1) w, of 1 0, unfolded c] flag_block(5) [OF fex_safe i fex_facts(1) w, unfolded c]
  have s: "fexp = OS_Sched (OS_FlagBlock 0 1 1 OS_FLAG_WAIT_SET_ALL 0 fex)" by (simp add: fexp_def fexp_eq)
  show "OSFlagType (grp fexp 0) = OS_EVENT_TYPE_FLAG" "OSFlagFlags (grp fexp 0) = 0"
    "OSFlagNodeWaitType (node fexp 1) = OS_FLAG_WAIT_SET_ALL" "OSFlagNodeFlags (node fexp 1) = 1"
    by (simp_all add: s block_fields fex_facts(1,2))
  show "flag_waits fexp 0 1" using b(1) by (simp add: s flag_waits_def live_def)
  show "j = 1" if "flag_waits fexp 0 j"
    using that fex_nodes [of j] unfolding s flag_waits_def by (auto simp: block_fields c live_def split: if_splits)
  show "OSTCBStat (tcb fexp 1) = OS_STAT_FLAG" "prio fexp 1 = 5"
    using b(2) by (simp_all add: s block_fields c fex_facts(8) del: One_nat_def)
qed

theorem flag_post_wakes_exactly_witness:
  "\<exists>s'. OSFlagPost 0 3 OS_FLAG_SET fexp = Some (3, OS_ERR_NONE, s') \<and> flag_list s' 0 [] \<and>
     OSTCBFlagsRdy (tcb s' 1) = 1 \<and> 5 \<in> rdyset s'"
proof -
  have l: "flag_list fexp 0 [1]"
  proof -
    obtain xs where x: "flag_list fexp 0 xs" "\<And>j. j \<in> set xs \<longleftrightarrow> flag_waits fexp 0 j"
      using fgrp_okE [OF conjunct2 [OF fexp_facts(1)] fexp_facts(2)] by metis
    have "set xs = {1}" using x(2) fexp_facts(4,9) by (auto simp del: One_nat_def)
    moreover have "distinct xs" using x(1) [unfolded flag_list_def] by (rule dchain_distinct)
    ultimately have "xs = [1]" by (cases xs; cases "tl xs") auto
    then show ?thesis using x(1) by simp
  qed
  have h: "flag_hit fexp 0 3 1"
    using fexp_facts(3-6) by (simp add: flag_hit_def wait_holds_def bit_1_iff)
  have n: "3 = flag_posted OS_FLAG_SET 3 (OSFlagFlags (grp fexp 0))" by (simp add: flag_posted_def fexp_facts(3))
  obtain s' where p: "OSFlagPost 0 3 OS_FLAG_SET fexp = Some (3, OS_ERR_NONE, s')" and w: "flag_list s' 0 []"
    and m: "flags_match (OSFlagNodeWaitType (node fexp 1)) 3 (OSFlagNodeFlags (node fexp 1)) = Some (OSTCBFlagsRdy (tcb s' 1), True)"
    and r: "prio fexp 1 \<in> rdyset s' \<longleftrightarrow> OSTCBStat (tcb fexp 1) AND OS_STAT_SUSPEND = 0"
    using flag_post_wakes_exactly [OF fexp_facts(1,2) l disjI2 [OF refl] n] h by (auto simp del: One_nat_def)
  have "OSTCBFlagsRdy (tcb s' 1) = 1" using m by (simp add: fexp_facts(5,6) flags_match_def del: One_nat_def)
  moreover have "5 \<in> rdyset s'" using r by (simp add: fexp_facts(7,8) del: One_nat_def)
  ultimately show ?thesis using p w by blast
qed



text \<open>
  \<open>OSFlagAccept\<close> never blocks: it succeeds exactly when the wanted bits satisfy the condition,
  returns the bits that are in the wanted state, and with \<open>OS_FLAG_CONSUME\<close> inverts those bits of
  the group and no others; when the condition does not hold nothing changes.
\<close>

theorem flag_accept_bits:
  assumes ty: "OSFlagType (grp s g) = OS_EVENT_TYPE_FLAG" and wt: "wt < 4"
    and res: "OSFlagAccept g f (if consume then wt OR OS_FLAG_CONSUME else wt) s = (r, err, s')"
  shows "(err = OS_ERR_NONE \<longleftrightarrow> wait_holds wt (OSFlagFlags (grp s g)) f) \<and>
    (err \<noteq> OS_ERR_NONE \<longrightarrow> err = OS_ERR_FLAG_NOT_RDY \<and> s' = s) \<and>
    (\<forall>n. bit r n \<longleftrightarrow> n < 16 \<and> bit f n \<and> (bit (OSFlagFlags (grp s g)) n \<longleftrightarrow>
        wt = OS_FLAG_WAIT_SET_ALL \<or> wt = OS_FLAG_WAIT_SET_ANY)) \<and>
    (\<forall>n. bit (OSFlagFlags (grp s' g)) n \<longleftrightarrow>
        (if err = OS_ERR_NONE \<and> consume \<and> bit r n then \<not> bit (OSFlagFlags (grp s g)) n
         else bit (OSFlagFlags (grp s g)) n)) \<and>
    (\<forall>h. h \<noteq> g \<longrightarrow> grp s' h = grp s h)"
proof -
  let ?w = "if consume then wt OR OS_FLAG_CONSUME else wt" and ?now = "OSFlagFlags (grp s g)"
  have w: "?w AND NOT OS_FLAG_CONSUME = wt" "?w AND OS_FLAG_CONSUME \<noteq> 0 \<longleftrightarrow> consume"
    using wt by (auto simp: word_less_4)
  obtain r0 ok where m: "flags_match wt ?now f = Some (r0, ok)"
    using flags_match_total [OF wt] by blast
  have "(r, err, s') = (if ok then (r0, OS_ERR_NONE, if consume then consume_grp g wt r0 s else s)
      else (r0, OS_ERR_FLAG_NOT_RDY, s))"
    using res unfolding OSFlagAccept_def Let_def w m by (simp add: ty)
  then have r: "r = r0" and err: "err = (if ok then OS_ERR_NONE else OS_ERR_FLAG_NOT_RDY)"
    and s': "s' = (if ok \<and> consume then consume_grp g wt r0 s else s)"
    by (auto split: if_splits)
  have ok: "ok = wait_holds wt ?now f" using m by (rule flags_match_holds)
  have fl: "OSFlagFlags (grp s' g) = (if ok \<and> consume then flags_consume wt r0 ?now else ?now)"
    by (simp add: s' consume_grp_def upd_grp_def)
  have "h \<noteq> g \<Longrightarrow> grp s' h = grp s h" for h by (simp add: s' consume_grp_def upd_grp_def)
  then show ?thesis using flags_match_bits [OF m] ok s' unfolding r err fl by auto
qed

theorem flag_accept_bits_witness:
  "OSFlagAccept 0 3 (if True then OS_FLAG_WAIT_CLR_ALL OR OS_FLAG_CONSUME else OS_FLAG_WAIT_CLR_ALL) fex =
     (3, OS_ERR_NONE, consume_grp 0 OS_FLAG_WAIT_CLR_ALL 3 fex) \<and>
   wait_holds OS_FLAG_WAIT_CLR_ALL (OSFlagFlags (grp fex 0)) 3"
proof -
  have a: "OSFlagAccept 0 3 (if True then OS_FLAG_WAIT_CLR_ALL OR OS_FLAG_CONSUME else OS_FLAG_WAIT_CLR_ALL) fex =
     (3, OS_ERR_NONE, consume_grp 0 OS_FLAG_WAIT_CLR_ALL 3 fex)"
    by (simp add: OSFlagAccept_def fex_facts(1,2) flags_match_def)
  then show ?thesis using flag_accept_bits [OF fex_facts(1) _ a] by simp
qed

end
