(* ===== verification/OsTask.thy ===== *)
theory OsTask
  imports OsFlag
begin

text \<open>
  Task management, demo/UCOSII/CORE/os_task.c, with \<open>OS_TCBInit\<close> of os_core.c and
  \<open>OSTaskStkInit\<close> of demo/UCOSII/PORT/os_cpu_c.c. Stack memory is \<open>OSStkMem\<close>, indexed by words of
  \<open>OS_STK\<close>. The hooks of the port are empty. \<open>fpu\<close> says whether the port is built for the
  floating point unit, \<open>ret\<close> is the address of \<open>OS_TaskReturn\<close>.
\<close>

section \<open>Operations\<close>

abbreviation (input) "OS_TASK_OPT_STK_CHK \<equiv> 1 :: u16"
abbreviation (input) "OS_TASK_OPT_STK_CLR \<equiv> 2 :: u16"
abbreviation (input) "OS_TASK_REG_TBL_SIZE \<equiv> 1 :: nat"

text \<open>\<open>if (prio == OS_PRIO_SELF) prio = OSTCBCur->OSTCBPrio;\<close>\<close>

definition self_prio :: "u8 \<Rightarrow> os \<Rightarrow> u8" where
  "self_prio p s = (if p = OS_PRIO_SELF then OSTCBPrio (tcb s (cur s)) else p)"

definition set_slot :: "u8 \<Rightarrow> tcb_slot \<Rightarrow> os \<Rightarrow> os" where
  "set_slot p v s = s\<lparr>OSTCBPrioTbl := (OSTCBPrioTbl s)(unat p := v)\<rparr>"

definition sched_if_running :: "os \<Rightarrow> os" where
  "sched_if_running s = (if OSRunning s then OS_Sched s else s)"

subsection \<open>Priorities\<close>

definition prio_fields :: "u8 \<Rightarrow> os_tcb \<Rightarrow> os_tcb" where
  "prio_fields p t = t\<lparr>OSTCBPrio := p, OSTCBY := drop_bit 3 p, OSTCBX := p AND 7,
     OSTCBBitY := push_bit (unat (drop_bit 3 p)) 1, OSTCBBitX := push_bit (unat (p AND 7)) 1\<rparr>"

definition OSTaskChangePrio :: "u8 \<Rightarrow> u8 \<Rightarrow> os \<Rightarrow> u8 \<times> os" where
  "OSTaskChangePrio oldprio newprio s =
    (if OSTCBPrioTbl s (unat newprio) \<noteq> NoTcb then (OS_ERR_PRIO_EXIST, s)
     else let oldprio = self_prio oldprio s in
       case OSTCBPrioTbl s (unat oldprio) of
         NoTcb \<Rightarrow> (OS_ERR_PRIO, s)
       | Reserved \<Rightarrow> (OS_ERR_TASK_NOT_EXIST, s)
       | Tcb i \<Rightarrow>
           let old = tcb s i; new = prio_fields newprio old;
               s1 = set_slot newprio (Tcb i) (set_slot oldprio NoTcb s);
               s2 = (if OSRdyTbl s1 (unat (OSTCBY old)) AND OSTCBBitX old \<noteq> 0
                     then rdy_set new (rdy_clear old s1) else s1);
               s3 = (case OSTCBEventPtr old of
                       None \<Rightarrow> s2
                     | Some e \<Rightarrow> upd_ev e (\<lambda>v. ev_set new (ev_clear old v)) s2);
               s4 = upd_tcb i (prio_fields newprio) s3
           in (OS_ERR_NONE, sched_if_running s4))"

subsection \<open>The initial stack of a task\<close>

fun push_words :: "u32 list \<Rightarrow> nat \<Rightarrow> (nat \<Rightarrow> u32) \<Rightarrow> nat \<times> (nat \<Rightarrow> u32)" where
  "push_words [] stk m = (stk, m)"
| "push_words (w # ws) stk m = push_words ws (stk - 1) (m(stk - 1 := w))"

definition OSTaskStkInit :: "bool \<Rightarrow> u32 \<Rightarrow> u32 \<Rightarrow> u32 \<Rightarrow> nat \<Rightarrow> (nat \<Rightarrow> u32) \<Rightarrow> nat \<times> (nat \<Rightarrow> u32)" where
  "OSTaskStkInit fpu ret task p_arg ptos m =
    (let (stk, m1) = (if fpu
            then push_words [0, 0x1000, 0x15, 0x14, 0x13, 0x12, 0x11, 0x10, 0x09, 0x08, 0x07, 0x06, 0x05, 0x04,
                   0x03, 0x02, 0x01, 0] ptos m
            else (ptos, m));
         m2 = m1(stk := 0x01000000);
         (stk3, m3) = push_words [task, ret, 0x12121212, 0x03030303, 0x02020202, 0x01010101, p_arg] stk m2;
         (stk4, m4) = (if fpu
            then push_words [0x31, 0x30, 0x29, 0x28, 0x27, 0x26, 0x25, 0x24, 0x23, 0x22, 0x21, 0x20, 0x19, 0x18,
                   0x17, 0x16] stk3 m3
            else (stk3, m3))
     in push_words [0x11111111, 0x10101010, 0x09090909, 0x08080808, 0x07070707, 0x06060606, 0x05050505,
          0x04040404] stk4 m4)"

fun stk_clr :: "nat \<Rightarrow> nat \<Rightarrow> (nat \<Rightarrow> u32) \<Rightarrow> (nat \<Rightarrow> u32)" where
  "stk_clr pbos 0 m = m"
| "stk_clr pbos (Suc n) m = stk_clr (pbos + 1) n (m(pbos := 0))"

definition OS_TaskStkClr :: "nat \<Rightarrow> u32 \<Rightarrow> u16 \<Rightarrow> (nat \<Rightarrow> u32) \<Rightarrow> (nat \<Rightarrow> u32)" where
  "OS_TaskStkClr pbos stk_words opt m =
    (if opt AND OS_TASK_OPT_STK_CHK \<noteq> 0 then
       if opt AND OS_TASK_OPT_STK_CLR \<noteq> 0 then stk_clr pbos (unat stk_words) m else m
     else m)"

subsection \<open>Creating a task\<close>

definition tcb_fields :: "u8 \<Rightarrow> nat \<Rightarrow> nat \<Rightarrow> u16 \<Rightarrow> u32 \<Rightarrow> ptr \<Rightarrow> u16 \<Rightarrow> os_tcb \<Rightarrow> os_tcb" where
  "tcb_fields p ptos pbos tid stk_size pext opt t =
     prio_fields p (t\<lparr>OSTCBStkPtr := ptos, OSTCBStat := OS_STAT_RDY, OSTCBStatPend := OS_STAT_PEND_OK,
       OSTCBDly := 0, OSTCBExtPtr := pext, OSTCBStkSize := stk_size, OSTCBStkBottom := pbos,
       OSTCBOpt := opt, OSTCBId := tid, OSTCBDelReq := OS_ERR_NONE, OSTCBEventPtr := None,
       OSTCBFlagNode := None, OSTCBMsg := PNull, OSTCBCtxSwCtr := 0, OSTCBCyclesStart := 0,
       OSTCBCyclesTot := 0, OSTCBStkBase := 0, OSTCBStkUsed := 0, OSTCBTaskName := ''?'',
       OSTCBRegTbl := (\<lambda>i. if i < OS_TASK_REG_TBL_SIZE then 0 else OSTCBRegTbl t i)\<rparr>)"

definition OS_TCBInit :: "u8 \<Rightarrow> nat \<Rightarrow> nat \<Rightarrow> u16 \<Rightarrow> u32 \<Rightarrow> ptr \<Rightarrow> u16 \<Rightarrow> os \<Rightarrow> u8 \<times> os" where
  "OS_TCBInit p ptos pbos tid stk_size pext opt s =
    (case OSTCBFreeList s of
       None \<Rightarrow> (OS_ERR_TASK_NO_MORE_TCB, s)
     | Some i \<Rightarrow>
         let s1 = s\<lparr>OSTCBFreeList := OSTCBNext (tcb s i)\<rparr>;
             s2 = upd_tcb i (tcb_fields p ptos pbos tid stk_size pext opt) s1;
             s3 = set_slot p (Tcb i) s2;
             s4 = upd_tcb i (\<lambda>t. t\<lparr>OSTCBNext := OSTCBList s3, OSTCBPrev := None\<rparr>) s3;
             s5 = (case OSTCBList s4 of
                     None \<Rightarrow> s4
                   | Some k \<Rightarrow> upd_tcb k (\<lambda>t. t\<lparr>OSTCBPrev := Some i\<rparr>) s4);
             s6 = rdy_set (tcb s5 i) (s5\<lparr>OSTCBList := Some i\<rparr>)
         in (OS_ERR_NONE, s6\<lparr>OSTaskCtr := OSTaskCtr s6 + 1\<rparr>))"

definition OSTaskCreate :: "bool \<Rightarrow> u32 \<Rightarrow> u32 \<Rightarrow> u32 \<Rightarrow> nat \<Rightarrow> u8 \<Rightarrow> os \<Rightarrow> u8 \<times> os" where
  "OSTaskCreate fpu ret task p_arg ptos p s =
    (if 0 < OSIntNesting s then (OS_ERR_TASK_CREATE_ISR, s)
     else if OSTCBPrioTbl s (unat p) = NoTcb then
       let s1 = set_slot p Reserved s;
           (psp, m) = OSTaskStkInit fpu ret task p_arg ptos (OSStkMem s1);
           (err, s2) = OS_TCBInit p psp 0 0 0 PNull 0 (s1\<lparr>OSStkMem := m\<rparr>)
       in (err, if err = OS_ERR_NONE then sched_if_running s2 else set_slot p NoTcb s2)
     else (OS_ERR_PRIO_EXIST, s))"

definition OSTaskCreateExt ::
  "bool \<Rightarrow> u32 \<Rightarrow> u32 \<Rightarrow> u32 \<Rightarrow> nat \<Rightarrow> u8 \<Rightarrow> u16 \<Rightarrow> nat \<Rightarrow> u32 \<Rightarrow> ptr \<Rightarrow> u16 \<Rightarrow> os \<Rightarrow> u8 \<times> os" where
  "OSTaskCreateExt fpu ret task p_arg ptos p tid pbos stk_size pext opt s =
    (if 0 < OSIntNesting s then (OS_ERR_TASK_CREATE_ISR, s)
     else if OSTCBPrioTbl s (unat p) = NoTcb then
       let s1 = set_slot p Reserved s;
           m1 = OS_TaskStkClr pbos stk_size opt (OSStkMem s1);
           (psp, m) = OSTaskStkInit fpu ret task p_arg ptos m1;
           (err, s2) = OS_TCBInit p psp pbos tid stk_size pext opt (s1\<lparr>OSStkMem := m\<rparr>)
       in (err, if err = OS_ERR_NONE then sched_if_running s2 else set_slot p NoTcb s2)
     else (OS_ERR_PRIO_EXIST, s))"

subsection \<open>Deleting a task\<close>

text \<open>
  The unlinking of a control block from the list of tasks: \<open>OSTCBNext\<close> is dereferenced without
  a test, which is right as long as the idle task is the last of the list.
\<close>

definition tcb_unlink :: "nat \<Rightarrow> os \<Rightarrow> os" where
  "tcb_unlink i s =
    (let nx = OSTCBNext (tcb s i) in
     case OSTCBPrev (tcb s i) of
       None \<Rightarrow> (upd_tcb (the nx) (\<lambda>t. t\<lparr>OSTCBPrev := None\<rparr>) s)\<lparr>OSTCBList := nx\<rparr>
     | Some k \<Rightarrow> upd_tcb (the nx) (\<lambda>t. t\<lparr>OSTCBPrev := Some k\<rparr>) (upd_tcb k (\<lambda>t. t\<lparr>OSTCBNext := nx\<rparr>) s))"

definition OSTaskDel :: "u8 \<Rightarrow> os \<Rightarrow> u8 \<times> os" where
  "OSTaskDel p s =
    (if 0 < OSIntNesting s then (OS_ERR_TASK_DEL_ISR, s)
     else if p = OS_TASK_IDLE_PRIO then (OS_ERR_TASK_DEL_IDLE, s)
     else let p = self_prio p s in
       case OSTCBPrioTbl s (unat p) of
         NoTcb \<Rightarrow> (OS_ERR_TASK_NOT_EXIST, s)
       | Reserved \<Rightarrow> (OS_ERR_TASK_DEL, s)
       | Tcb i \<Rightarrow>
           let s1 = rdy_clear (tcb s i) s;
               s2 = (case OSTCBEventPtr (tcb s1 i) of None \<Rightarrow> s1 | Some e \<Rightarrow> OS_EventTaskRemove i e s1);
               s3 = (case OSTCBFlagNode (tcb s2 i) of None \<Rightarrow> s2 | Some j \<Rightarrow> OS_FlagUnlink j s2);
               s4 = upd_tcb i (\<lambda>t. t\<lparr>OSTCBDly := 0, OSTCBStat := OS_STAT_RDY, OSTCBStatPend := OS_STAT_PEND_OK\<rparr>) s3;
               s5 = (if OSLockNesting s4 < 255 then s4\<lparr>OSLockNesting := OSLockNesting s4 + 1\<rparr> else s4);
               s6 = (if 0 < OSLockNesting s5 then s5\<lparr>OSLockNesting := OSLockNesting s5 - 1\<rparr> else s5);
               s7 = set_slot p NoTcb (s6\<lparr>OSTaskCtr := OSTaskCtr s6 - 1\<rparr>);
               s8 = tcb_unlink i s7;
               s9 = upd_tcb i (\<lambda>t. t\<lparr>OSTCBNext := OSTCBFreeList s8, OSTCBTaskName := ''?''\<rparr>)
                      (s8\<lparr>OSTCBFreeList := Some i\<rparr>)
           in (OS_ERR_NONE, sched_if_running s9))"

definition OSTaskDelReq :: "u8 \<Rightarrow> os \<Rightarrow> u8 \<times> os" where
  "OSTaskDelReq p s =
    (if p = OS_TASK_IDLE_PRIO then (OS_ERR_TASK_DEL_IDLE, s)
     else if p = OS_PRIO_SELF then (OSTCBDelReq (tcb s (cur s)), s)
     else case OSTCBPrioTbl s (unat p) of
            NoTcb \<Rightarrow> (OS_ERR_TASK_NOT_EXIST, s)
          | Reserved \<Rightarrow> (OS_ERR_TASK_DEL, s)
          | Tcb i \<Rightarrow> (OS_ERR_NONE, upd_tcb i (\<lambda>t. t\<lparr>OSTCBDelReq := OS_ERR_TASK_DEL_REQ\<rparr>) s))"

definition OS_TaskReturn :: "os \<Rightarrow> os" where
  "OS_TaskReturn s = snd (OSTaskDel OS_PRIO_SELF s)"

subsection \<open>Names, suspension and the other services\<close>

definition OSTaskNameGet :: "u8 \<Rightarrow> os \<Rightarrow> u8 \<times> string option \<times> u8" where
  "OSTaskNameGet p s =
    (if 0 < OSIntNesting s then (0, None, OS_ERR_NAME_GET_ISR)
     else case OSTCBPrioTbl s (unat (self_prio p s)) of
            NoTcb \<Rightarrow> (0, None, OS_ERR_TASK_NOT_EXIST)
          | Reserved \<Rightarrow> (0, None, OS_ERR_TASK_NOT_EXIST)
          | Tcb i \<Rightarrow> (OS_StrLen (OSTCBTaskName (tcb s i)), Some (OSTCBTaskName (tcb s i)), OS_ERR_NONE))"

definition OSTaskNameSet :: "u8 \<Rightarrow> string \<Rightarrow> os \<Rightarrow> u8 \<times> os" where
  "OSTaskNameSet p pname s =
    (if 0 < OSIntNesting s then (OS_ERR_NAME_SET_ISR, s)
     else case OSTCBPrioTbl s (unat (self_prio p s)) of
            NoTcb \<Rightarrow> (OS_ERR_TASK_NOT_EXIST, s)
          | Reserved \<Rightarrow> (OS_ERR_TASK_NOT_EXIST, s)
          | Tcb i \<Rightarrow> (OS_ERR_NONE, upd_tcb i (\<lambda>t. t\<lparr>OSTCBTaskName := pname\<rparr>) s))"

definition OSTaskResume :: "u8 \<Rightarrow> os \<Rightarrow> u8 \<times> os" where
  "OSTaskResume p s =
    (case OSTCBPrioTbl s (unat p) of
       NoTcb \<Rightarrow> (OS_ERR_TASK_RESUME_PRIO, s)
     | Reserved \<Rightarrow> (OS_ERR_TASK_NOT_EXIST, s)
     | Tcb i \<Rightarrow>
         if OSTCBStat (tcb s i) AND OS_STAT_SUSPEND \<noteq> OS_STAT_RDY then
           let s1 = upd_tcb i (\<lambda>t. t\<lparr>OSTCBStat := OSTCBStat t AND NOT OS_STAT_SUSPEND\<rparr>) s in
           (OS_ERR_NONE,
            if OSTCBStat (tcb s1 i) = OS_STAT_RDY then
              if OSTCBDly (tcb s1 i) = 0 then sched_if_running (rdy_set (tcb s1 i) s1) else s1
            else s1)
         else (OS_ERR_TASK_NOT_SUSPENDED, s))"

definition OSTaskSuspend :: "u8 \<Rightarrow> os \<Rightarrow> u8 \<times> os" where
  "OSTaskSuspend p s =
    (let self = (p = OS_PRIO_SELF \<or> p = OSTCBPrio (tcb s (cur s))) in
     case OSTCBPrioTbl s (unat (self_prio p s)) of
       NoTcb \<Rightarrow> (OS_ERR_TASK_SUSPEND_PRIO, s)
     | Reserved \<Rightarrow> (OS_ERR_TASK_NOT_EXIST, s)
     | Tcb i \<Rightarrow>
         let s1 = upd_tcb i (\<lambda>t. t\<lparr>OSTCBStat := OSTCBStat t OR OS_STAT_SUSPEND\<rparr>) (rdy_clear (tcb s i) s)
         in (OS_ERR_NONE, if self then OS_Sched s1 else s1))"

text \<open>\<open>OSTaskQuery\<close> copies the control block.\<close>

definition OSTaskQuery :: "u8 \<Rightarrow> os \<Rightarrow> u8 \<times> os_tcb option" where
  "OSTaskQuery p s =
    (case OSTCBPrioTbl s (unat (self_prio p s)) of
       NoTcb \<Rightarrow> (OS_ERR_PRIO, None)
     | Reserved \<Rightarrow> (OS_ERR_TASK_NOT_EXIST, None)
     | Tcb i \<Rightarrow> (OS_ERR_NONE, Some (tcb s i)))"

text \<open>The entry of the priority table is dereferenced without a test; \<open>None\<close> is a null or reserved entry.\<close>

definition reg_tcb :: "u8 \<Rightarrow> os \<Rightarrow> nat option" where
  "reg_tcb p s = (if p = OS_PRIO_SELF then Some (cur s) else slot_tcb (OSTCBPrioTbl s (unat p)))"

definition OSTaskRegGet :: "u8 \<Rightarrow> u8 \<Rightarrow> os \<Rightarrow> (u32 \<times> u8) option" where
  "OSTaskRegGet p tid s =
    (case reg_tcb p s of None \<Rightarrow> None | Some i \<Rightarrow> Some (OSTCBRegTbl (tcb s i) (unat tid), OS_ERR_NONE))"

definition OSTaskRegSet :: "u8 \<Rightarrow> u8 \<Rightarrow> u32 \<Rightarrow> os \<Rightarrow> (u8 \<times> os) option" where
  "OSTaskRegSet p tid v s =
    (case reg_tcb p s of
       None \<Rightarrow> None
     | Some i \<Rightarrow> Some (OS_ERR_NONE, upd_tcb i (\<lambda>t. t\<lparr>OSTCBRegTbl := (OSTCBRegTbl t)(unat tid := v)\<rparr>) s))"

subsection \<open>Checking a stack\<close>

text \<open>The loop \<open>while (*pchk++ == 0) nfree++;\<close> stops at the first word that is not zero; \<open>None\<close> is a loop that does not end.\<close>

partial_function (option) stk_scan :: "(nat \<Rightarrow> u32) \<Rightarrow> nat \<Rightarrow> u32 \<Rightarrow> u32 option" where
  "stk_scan m pchk nfree = (if m pchk = 0 then stk_scan m (pchk + 1) (nfree + 1) else Some nfree)"

text \<open>The error code and the pair \<open>OSFree\<close>, \<open>OSUsed\<close>, in bytes.\<close>

definition OSTaskStkChk :: "u8 \<Rightarrow> os \<Rightarrow> (u8 \<times> u32 \<times> u32) option" where
  "OSTaskStkChk p s =
    (case OSTCBPrioTbl s (unat (self_prio p s)) of
       NoTcb \<Rightarrow> Some (OS_ERR_TASK_NOT_EXIST, 0, 0)
     | Reserved \<Rightarrow> Some (OS_ERR_TASK_NOT_EXIST, 0, 0)
     | Tcb i \<Rightarrow>
         if OSTCBOpt (tcb s i) AND OS_TASK_OPT_STK_CHK = 0 then Some (OS_ERR_TASK_OPT, 0, 0)
         else case stk_scan (OSStkMem s) (OSTCBStkBottom (tcb s i)) 0 of
                None \<Rightarrow> None
              | Some nfree \<Rightarrow> Some (OS_ERR_NONE, nfree * 4, (OSTCBStkSize (tcb s i) - nfree) * 4))"

section \<open>The invariant of the task list\<close>

definition tfree_ok :: "os \<Rightarrow> bool" where
  "tfree_ok s \<longleftrightarrow> (\<exists>xs. chain (\<lambda>i. OSTCBNext (tcb s i)) (OSTCBFreeList s) xs \<and>
     (\<forall>i \<in> set xs. i < OS_N_TCBS \<and> \<not> live s i))"

definition tasks_ok :: "os \<Rightarrow> bool" where
  "tasks_ok s \<longleftrightarrow> tlist_ok s \<and> tfree_ok s \<and> (\<forall>i. live s i \<longrightarrow> i < OS_N_TCBS)"

abbreviation tsafe :: "os \<Rightarrow> bool" where "tsafe s \<equiv> fsafe s \<and> tasks_ok s"

lemma tfree_frame:
  assumes "tfree_ok s" "OSTCBFreeList s' = OSTCBFreeList s" "OSTCBPrioTbl s' = OSTCBPrioTbl s"
    "\<And>i. OSTCBNext (tcb s' i) = OSTCBNext (tcb s i)" "\<And>i. OSTCBPrio (tcb s' i) = OSTCBPrio (tcb s i)"
  shows "tfree_ok s'"
proof -
  have "live s' i = live s i" for i using assms by (simp add: live_def)
  then show ?thesis using assms by (simp add: tfree_ok_def)
qed

lemma tasks_frame:
  assumes "tasks_ok s" "OSTCBFreeList s' = OSTCBFreeList s" "OSTCBList s' = OSTCBList s" "OSTCBPrioTbl s' = OSTCBPrioTbl s"
    "\<And>i. OSTCBNext (tcb s' i) = OSTCBNext (tcb s i)" "\<And>i. OSTCBPrev (tcb s' i) = OSTCBPrev (tcb s i)"
    "\<And>i. OSTCBPrio (tcb s' i) = OSTCBPrio (tcb s i)"
  shows "tasks_ok s'"
proof -
  have "live s' i = live s i" for i using assms by (simp add: live_def)
  then show ?thesis using assms tfree_frame [of s s'] tlist_frame [of s s'] by (simp add: tasks_ok_def)
qed

lemma tasks_OS_Sched: "tasks_ok s \<Longrightarrow> tasks_ok (OS_Sched s)"
  by (erule tasks_frame) simp_all

section \<open>A task is added or removed\<close>

lemma wf_links [simp]:
  "wf_tcb (t\<lparr>OSTCBNext := a\<rparr>) = wf_tcb t" "wf_tcb (t\<lparr>OSTCBPrev := a\<rparr>) = wf_tcb t"
  "wf_tcb (t\<lparr>OSTCBStat := st\<rparr>) = wf_tcb t" "wf_tcb (t\<lparr>OSTCBNext := a, OSTCBPrev := b\<rparr>) = wf_tcb t"
  by (simp_all add: wf_tcb_def)

lemma prio_fields_wf [simp]: "wf_tcb (prio_fields p t)" "OSTCBPrio (prio_fields p t) = p"
  by (simp_all add: prio_fields_def wf_tcb_def del: push_bit_of_1)

lemma prio_fields_frame [simp]:
  "OSTCBStat (prio_fields p t) = OSTCBStat t" "OSTCBStatPend (prio_fields p t) = OSTCBStatPend t"
  "OSTCBDly (prio_fields p t) = OSTCBDly t" "OSTCBEventPtr (prio_fields p t) = OSTCBEventPtr t"
  "OSTCBFlagNode (prio_fields p t) = OSTCBFlagNode t" "OSTCBNext (prio_fields p t) = OSTCBNext t"
  "OSTCBPrev (prio_fields p t) = OSTCBPrev t" "OSTCBStkBottom (prio_fields p t) = OSTCBStkBottom t"
  "OSTCBStkSize (prio_fields p t) = OSTCBStkSize t" "OSTCBOpt (prio_fields p t) = OSTCBOpt t"
  by (simp_all add: prio_fields_def)

lemma no_prio:
  assumes "kinv s" "\<And>i. OSTCBPrioTbl s q \<noteq> Tcb i"
  shows "live s j \<Longrightarrow> prio s j \<noteq> q" and "q \<notin> rdyset s" and "q \<notin> wset s e"
proof -
  show n: "live s j \<Longrightarrow> prio s j \<noteq> q" for j using assms(2) by (auto simp: live_def)
  show "q \<notin> rdyset s" "q \<notin> wset s e" using n kinv_rdy_live [OF assms(1)] kinv_wait_live [OF assms(1)] by blast+
qed

lemma task_ok_other:
  assumes ok: "task_ok s j" and sc: "same_core (tcb s j) (tcb s' j)"
    and rd: "prio s j \<in> rdyset s' \<longleftrightarrow> prio s j \<in> rdyset s" and ws: "\<And>e. prio s j \<in> wset s' e \<longleftrightarrow> prio s j \<in> wset s e"
    and ty: "\<And>e. OSEventType (ev s' e) = OSEventType (ev s e)"
  shows "task_ok s' j"
proof -
  have "OSTCBPrio (tcb s' j) = OSTCBPrio (tcb s j)" using sc by (simp add: same_core_def)
  with assms show ?thesis by (simp add: task_ok_def same_core_wf) (simp add: same_core_def)
qed

lemma kinv_add:
  assumes inv: "kinv s" and nl: "\<not> live s i" and q: "\<And>k. OSTCBPrioTbl s q \<noteq> Tcb k" "q < 64"
    and tbl: "OSTCBPrioTbl s' = (OSTCBPrioTbl s)(q := Tcb i)"
    and oth: "\<And>j. j \<noteq> i \<Longrightarrow> same_core (tcb s j) (tcb s' j)"
    and me: "prio s' i = q" "wf_tcb (tcb s' i)" "OSTCBStat (tcb s' i) = 0" "OSTCBDly (tcb s' i) = 0"
    and rdy: "rdy_bm s' = bm_ins q (rdy_bm s)" and eve: "OSEventTbl_arr s' = OSEventTbl_arr s"
  shows "kinv s'" and "live s' i" and "\<And>j. j \<noteq> i \<Longrightarrow> live s' j = live s j" and "rdyset s' = insert q (rdyset s)"
proof -
  note np = no_prio [OF inv q(1)]
  have pe: "j \<noteq> i \<Longrightarrow> OSTCBPrio (tcb s' j) = OSTCBPrio (tcb s j)" for j using oth [of j] by (simp add: same_core_def)
  show li: "live s' i" using me(1) q(2) by (simp add: live_def tbl)
  show lv: "live s' j = live s j" if "j \<noteq> i" for j
    using that q(1) [of j] by (cases "prio s j = q") (simp_all add: live_def tbl pe)
  show r: "rdyset s' = insert q (rdyset s)" using q(2) by (simp add: rdyset_def rdy bm.elems_ins)
  have w: "wset s' e = wset s e" for e by (simp add: wset_def eve)
  have t: "task_ok s' j" if "live s' j" for j
  proof (cases "j = i")
    case True
    then show ?thesis using me np(3) by (auto simp: task_ok_def r w)
  next
    case False
    then have lj: "live s j" using lv that by simp
    show ?thesis by (rule task_ok_other [OF kinv_task [OF inv lj] oth [OF False]]) (use np(1) [OF lj] in \<open>simp_all add: r w eve\<close>)
  qed
  have p1: "\<exists>j. live s' j \<and> prio s' j = p" if "\<exists>j. live s j \<and> prio s j = p" for p
    using that lv pe nl by metis
  have "live s' k" if "OSTCBPrioTbl s' p = Tcb k" for p k
    using that li lv kinv_slot [OF inv, of p k] nl by (cases "p = q"; cases "k = i") (auto simp: tbl)
  moreover have "bm_ok (rdy_bm s')" using kinv_rdy [OF inv] q(2) by (simp add: rdy bm.invar_ins)
  moreover have "\<exists>j. live s' j \<and> prio s' j = p" if "p \<in> rdyset s'" for p
    using that r li me(1) p1 [OF kinv_rdy_live [OF inv, of p]] by auto
  ultimately show "kinv s'"
    using t kinv_ev [OF inv] kinv_idle [OF inv] kinv_used [OF inv] p1 [OF kinv_wait_live [OF inv]]
    by (auto simp: kinv_def r w eve)
qed

text \<open>The task has one entry of the priority table: no mutex has raised its priority.\<close>

definition one_slot :: "os \<Rightarrow> nat \<Rightarrow> bool" where
  "one_slot s i \<longleftrightarrow> (\<forall>q. OSTCBPrioTbl s q = Tcb i \<longrightarrow> q = prio s i)"

lemma one_slotD: "one_slot s i \<Longrightarrow> OSTCBPrioTbl s q = Tcb i \<Longrightarrow> q = prio s i"
  by (simp add: one_slot_def)

lemma kinv_remove:
  assumes inv: "kinv s" and li: "live s i" and one: "one_slot s i"
    and idle: "prio s i \<noteq> 63"
    and tbl: "OSTCBPrioTbl s' = (OSTCBPrioTbl s)(prio s i := NoTcb)"
    and oth: "\<And>j. j \<noteq> i \<Longrightarrow> same_core (tcb s j) (tcb s' j)" and me: "OSTCBPrio (tcb s' i) = OSTCBPrio (tcb s i)"
    and rdy: "rdy_bm s' = bm_del (prio s i) (rdy_bm s)"
    and bme: "\<And>e. bm_ok (ev_bm (ev s' e))" and ws: "\<And>e. wset s' e = wset s e - {prio s i}"
    and ety: "\<And>e. OSEventType (ev s' e) = OSEventType (ev s e)"
  shows "kinv s'" and "\<not> live s' i" and "\<And>j. j \<noteq> i \<Longrightarrow> live s' j = live s j" and "rdyset s' = rdyset s - {prio s i}"
proof -
  let ?p = "prio s i"
  have pe: "OSTCBPrio (tcb s' j) = OSTCBPrio (tcb s j)" for j using oth [of j] me by (cases "j = i") (auto simp: same_core_def)
  show nl: "\<not> live s' i" by (simp add: live_def tbl pe)
  show lv: "live s' j = live s j" if "j \<noteq> i" for j
    using that li by (cases "prio s j = ?p") (auto simp: live_def tbl pe)
  show r: "rdyset s' = rdyset s - {?p}" by (simp add: rdyset_def rdy bm.elems_del)
  have t: "task_ok s' j" if lj: "live s' j" for j
  proof -
    have ne: "j \<noteq> i" using lj nl by auto
    then have l: "live s j" using lv lj by simp
    have "prio s j \<noteq> ?p" using live_inj [OF l li] ne by blast
    then show ?thesis by (intro task_ok_other [OF kinv_task [OF inv l] oth [OF ne]]) (simp_all add: r ws ety)
  qed
  have p1: "\<exists>j. live s' j \<and> prio s' j = p" if "\<exists>j. live s j \<and> prio s j = p" "p \<noteq> ?p" for p
    using that lv pe by metis
  have "live s' k" if "OSTCBPrioTbl s' p = Tcb k" for p k
    using that one_slotD [OF one] kinv_slot [OF inv, of p k] lv by (cases "k = i") (auto simp: tbl split: if_splits)
  moreover have "bm_ok (rdy_bm s')" using kinv_rdy [OF inv] by (simp add: rdy bm.invar_del)
  moreover have "\<exists>j. live s' j \<and> prio s' j = p" if "p \<in> wset s' e" for p e
    using that p1 [OF kinv_wait_live [OF inv, of p e]] by (simp add: ws)
  moreover have "\<exists>j. live s' j \<and> prio s' j = p" if "p \<in> rdyset s'" for p
    using that p1 [OF kinv_rdy_live [OF inv, of p]] by (simp add: r)
  moreover have "wset s' e \<noteq> {} \<Longrightarrow> stat_mask (OSEventType (ev s' e)) \<noteq> 0" for e
    using kinv_used [OF inv, of _ e] by (auto simp: ws ety)
  ultimately show "kinv s'"
    using t bme kinv_idle [OF inv] idle unfolding kinv_def r by simp
qed

section \<open>\<open>OS_TCBInit\<close>\<close>

lemma tcb_fields_frame [simp]:
  "OSTCBPrio (tcb_fields p a b c d x o' t) = p" "wf_tcb (tcb_fields p a b c d x o' t)"
  "OSTCBStat (tcb_fields p a b c d x o' t) = 0" "OSTCBDly (tcb_fields p a b c d x o' t) = 0"
  "OSTCBFlagNode (tcb_fields p a b c d x o' t) = None" "OSTCBStatPend (tcb_fields p a b c d x o' t) = 0"
  "OSTCBEventPtr (tcb_fields p a b c d x o' t) = None" "OSTCBStkBottom (tcb_fields p a b c d x o' t) = b"
  "OSTCBStkSize (tcb_fields p a b c d x o' t) = d" "OSTCBOpt (tcb_fields p a b c d x o' t) = o'"
  by (simp_all add: tcb_fields_def)

text \<open>The state after a successful \<open>OS_TCBInit\<close>, and what it leaves alone.\<close>

lemma TCBInit_fields:
  assumes "OSTCBFreeList s = Some i" "OSTCBList s \<noteq> Some i"
    and r: "OS_TCBInit p ptos pbos tid n x o' s = (err, s')"
  shows "err = OS_ERR_NONE"
    "OSTCBTbl s' = (case OSTCBList s of None \<Rightarrow> OSTCBTbl s | Some k \<Rightarrow> (OSTCBTbl s)(k := (tcb s k)\<lparr>OSTCBPrev := Some i\<rparr>))
       (i := (tcb_fields p ptos pbos tid n x o' (tcb s i))\<lparr>OSTCBNext := OSTCBList s, OSTCBPrev := None\<rparr>)"
    "OSTCBPrioTbl s' = (OSTCBPrioTbl s)(unat p := Tcb i)" "OSTCBList s' = Some i"
    "OSTCBFreeList s' = OSTCBNext (tcb s i)" "rdy_bm s' = bm_ins (unat p) (rdy_bm s)"
    "OSEventTbl_arr s' = OSEventTbl_arr s" "OSEventFreeList s' = OSEventFreeList s" "OSFlagTbl s' = OSFlagTbl s"
    "OSFlagNodes s' = OSFlagNodes s" "OSFlagFreeList s' = OSFlagFreeList s" "OSRunning s' = OSRunning s"
    "OSTCBCur s' = OSTCBCur s" "OSPrioCur s' = OSPrioCur s" "OSIntNesting s' = OSIntNesting s"
    "OSLockNesting s' = OSLockNesting s" "OSStkMem s' = OSStkMem s" "OSTaskCtr s' = OSTaskCtr s + 1"
proof -
  let ?t = "(tcb_fields p ptos pbos tid n x o' (tcb s i))\<lparr>OSTCBNext := OSTCBList s, OSTCBPrev := None\<rparr>"
  have wf: "wf_tcb ?t" by simp
  define s5 where "s5 = (let s1 = s\<lparr>OSTCBFreeList := OSTCBNext (tcb s i)\<rparr>;
             s2 = upd_tcb i (tcb_fields p ptos pbos tid n x o') s1;
             s3 = set_slot p (Tcb i) s2;
             s4 = upd_tcb i (\<lambda>t. t\<lparr>OSTCBNext := OSTCBList s3, OSTCBPrev := None\<rparr>) s3
           in case OSTCBList s4 of None \<Rightarrow> s4 | Some k \<Rightarrow> upd_tcb k (\<lambda>t. t\<lparr>OSTCBPrev := Some i\<rparr>) s4)"
  have t5: "OSTCBTbl s5 = (case OSTCBList s of None \<Rightarrow> OSTCBTbl s | Some k \<Rightarrow> (OSTCBTbl s)(k := (tcb s k)\<lparr>OSTCBPrev := Some i\<rparr>))
       (i := ?t)"
    using assms(2) by (auto simp: s5_def Let_def upd_tcb_def set_slot_def fun_eq_iff split: option.splits)
  have ti: "tcb s5 i = ?t" by (simp add: t5)
  have f5: "OSTCBPrioTbl s5 = (OSTCBPrioTbl s)(unat p := Tcb i)" "OSTCBFreeList s5 = OSTCBNext (tcb s i)"
    "OSEventTbl_arr s5 = OSEventTbl_arr s" "OSEventFreeList s5 = OSEventFreeList s" "OSFlagTbl s5 = OSFlagTbl s"
    "OSFlagNodes s5 = OSFlagNodes s" "OSFlagFreeList s5 = OSFlagFreeList s" "OSRunning s5 = OSRunning s"
    "OSTCBCur s5 = OSTCBCur s" "OSPrioCur s5 = OSPrioCur s" "OSIntNesting s5 = OSIntNesting s"
    "OSLockNesting s5 = OSLockNesting s" "OSStkMem s5 = OSStkMem s" "OSTaskCtr s5 = OSTaskCtr s" "rdy_bm s5 = rdy_bm s"
    by (auto simp: s5_def Let_def upd_tcb_def set_slot_def rdy_bm_def split: option.splits)
  have e: "OS_TCBInit p ptos pbos tid n x o' s =
      (OS_ERR_NONE, (rdy_set ?t (s5\<lparr>OSTCBList := Some i\<rparr>))\<lparr>OSTaskCtr := OSTaskCtr s + 1\<rparr>)"
    using f5(14) unfolding OS_TCBInit_def assms(1) Let_def ti [symmetric] s5_def
    by (simp add: rdy_set_def set_rdy_def)
  have s'_def: "s' = snd (OS_TCBInit p ptos pbos tid n x o' s)" by (simp add: r)
  show "err = OS_ERR_NONE" using r by (simp add: e)
  show "rdy_bm s' = bm_ins (unat p) (rdy_bm s)"
    using rdy_bm_set [OF wf, of "s5\<lparr>OSTCBList := Some i\<rparr>"] f5(15) by (simp add: s'_def e rdy_bm_def)
  show "OSTCBTbl s' = (case OSTCBList s of None \<Rightarrow> OSTCBTbl s | Some k \<Rightarrow> (OSTCBTbl s)(k := (tcb s k)\<lparr>OSTCBPrev := Some i\<rparr>))
       (i := ?t)" by (simp add: s'_def e t5)
  show "OSTCBPrioTbl s' = (OSTCBPrioTbl s)(unat p := Tcb i)" "OSTCBList s' = Some i"
    "OSTCBFreeList s' = OSTCBNext (tcb s i)"
    "OSEventTbl_arr s' = OSEventTbl_arr s" "OSEventFreeList s' = OSEventFreeList s" "OSFlagTbl s' = OSFlagTbl s"
    "OSFlagNodes s' = OSFlagNodes s" "OSFlagFreeList s' = OSFlagFreeList s" "OSRunning s' = OSRunning s"
    "OSTCBCur s' = OSTCBCur s" "OSPrioCur s' = OSPrioCur s" "OSIntNesting s' = OSIntNesting s"
    "OSLockNesting s' = OSLockNesting s" "OSStkMem s' = OSStkMem s" "OSTaskCtr s' = OSTaskCtr s + 1"
    by (simp_all add: s'_def e f5 rdy_set_def set_rdy_def)
qed

lemma flags_ok_live:
  assumes fok: "flags_ok s" and fl: "OSFlagTbl s' = OSFlagTbl s" "OSFlagNodes s' = OSFlagNodes s"
      "OSFlagFreeList s' = OSFlagFreeList s"
    and fn: "\<And>j. live s' j \<Longrightarrow> fnode_ok s' j" and fw: "\<And>g j. flag_waits s' g j = flag_waits s g j"
  shows "flags_ok s'"
  using fok fn by (simp add: flags_ok_def fl fw fgrp_ok_def fglist_ok_def links_cong [OF fl(1,2)])

lemma fnode_other:
  assumes "fnode_ok s j" "OSFlagTbl s' = OSFlagTbl s" "OSFlagNodes s' = OSFlagNodes s"
    "same_core (tcb s j) (tcb s' j)" "OSTCBFlagNode (tcb s' j) = OSTCBFlagNode (tcb s j)"
    "\<And>e. prio s j \<notin> wset s e \<Longrightarrow> prio s j \<notin> wset s' e"
  shows "fnode_ok s' j"
  using assms by (auto simp: fnode_ok_def same_core_def split: option.splits)

lemma TCBInit_ok:
  assumes inv: "kinv s" and tok: "tasks_ok s" and fok: "flags_ok s" and el: "evlist_ok s"
    and i: "OSTCBFreeList s = Some i" and p: "\<And>k. OSTCBPrioTbl s (unat p) \<noteq> Tcb k" "unat p < 64"
    and r: "OS_TCBInit p ptos pbos tid n x o' s = (err, s')"
  shows "kinv s'" "tasks_ok s'" "flags_ok s'" "evlist_ok s'" "live s' i" "prio s' i = unat p"
    "\<And>j. j \<noteq> i \<Longrightarrow> live s' j = live s j" "rdyset s' = insert (unat p) (rdyset s)"
    "\<And>j. j \<noteq> i \<Longrightarrow> same_core (tcb s j) (tcb s' j)" "err = OS_ERR_NONE" "\<not> live s i"
proof -
  have tl: "tlist_ok s" and tf: "tfree_ok s" and bnd: "\<And>j. live s j \<Longrightarrow> j < OS_N_TCBS"
    using tok by (auto simp: tasks_ok_def)
  obtain xs where cx: "chain (\<lambda>i. OSTCBNext (tcb s i)) (Some i) (i # xs)"
    and fx: "\<forall>j \<in> set (i # xs). j < OS_N_TCBS \<and> \<not> live s j"
    using tf i by (auto simp: tfree_ok_def elim: chain.elims)
  then show nl: "\<not> live s i" by simp
  obtain ys k where d: "dchain (\<lambda>i. OSTCBNext (tcb s i)) (\<lambda>i. OSTCBPrev (tcb s i)) None (OSTCBList s) (ys @ [k])"
    and pk: "OSTCBPrio (tcb s k) = OS_TASK_IDLE_PRIO" and live: "set (ys @ [k]) = {j. live s j}"
    using tl by (auto simp: tlist_ok_def)
  let ?h = "hd (ys @ [k])"
  have hd: "OSTCBList s = Some ?h" using dchain_head [OF d] by simp
  have im: "i \<notin> set (ys @ [k])" using live nl by auto
  have hm: "?h \<in> set (ys @ [k])" by (rule hd_in_set) simp
  then have hi: "?h \<noteq> i" using im by metis
  note f = TCBInit_fields [OF i _ r]
  have f': "OSTCBList s \<noteq> Some i" using hd hi by simp
  note f = f [OF f']
  show "err = OS_ERR_NONE" by (rule f)
  have t: "OSTCBTbl s' = (OSTCBTbl s)(?h := (tcb s ?h)\<lparr>OSTCBPrev := Some i\<rparr>,
       i := (tcb_fields p ptos pbos tid n x o' (tcb s i))\<lparr>OSTCBNext := Some ?h, OSTCBPrev := None\<rparr>)"
    using f(2) by (simp add: hd)
  show sc: "same_core (tcb s j) (tcb s' j)" if "j \<noteq> i" for j using that by (simp add: t same_core_def)
  have ti: "prio s' i = unat p" "wf_tcb (tcb s' i)" "OSTCBStat (tcb s' i) = 0" "OSTCBDly (tcb s' i) = 0"
    "OSTCBFlagNode (tcb s' i) = None"
    by (simp_all add: t)
  note ka = kinv_add [OF inv nl p f(3) sc ti(1-4) f(6,7)]
  show "kinv s'" by (rule ka(1))
  show "rdyset s' = insert (unat p) (rdyset s)" by (rule ka(4))
  show li: "live s' i" by (rule ka(2))
  show lv: "live s' j = live s j" if "j \<noteq> i" for j using that ka(3) by blast
  show "prio s' i = unat p" by (rule ti)
  show "evlist_ok s'" using el by (rule evlist_frame) (simp_all add: f)
  have w: "wset s' e = wset s e" for e by (simp add: wset_def f)
  have nx: "(\<lambda>j. OSTCBNext (tcb s' j)) = (\<lambda>j. OSTCBNext (tcb s j))(i := OSTCBList s)"
    by (auto simp: t hd fun_eq_iff)
  have pv: "(\<lambda>j. OSTCBPrev (tcb s' j)) = ((\<lambda>j. OSTCBPrev (tcb s j))(?h := Some i))(i := None)"
    by (auto simp: t fun_eq_iff)
  have "dchain (\<lambda>j. OSTCBNext (tcb s' j)) (\<lambda>j. OSTCBPrev (tcb s' j)) None (OSTCBList s') ((i # ys) @ [k])"
    using dchain_push [OF d im, of None] unfolding nx pv f(4) by simp
  moreover have "OSTCBPrio (tcb s' k) = OS_TASK_IDLE_PRIO" using sc [of k] im pk by (auto simp: same_core_def)
  moreover have lv': "live s' j \<longleftrightarrow> j = i \<or> live s j" for j using li lv by (cases "j = i") auto
  then have "set ((i # ys) @ [k]) = {j. live s' j}" using live by auto
  ultimately have "tlist_ok s'" unfolding tlist_ok_def by blast
  moreover have "tfree_ok s'"
  proof -
    have ix: "i \<notin> set xs" using chain_distinct [OF cx] by simp
    have "chain (\<lambda>j. OSTCBNext (tcb s' j)) (OSTCBFreeList s') xs" unfolding nx f(5) using cx ix by simp
    then show ?thesis using fx ix unfolding tfree_ok_def by (intro exI [of _ xs]) (auto simp: lv')
  qed
  moreover have "j < OS_N_TCBS" if "live s' j" for j using that bnd fx by (auto simp: lv')
  ultimately show "tasks_ok s'" by (simp add: tasks_ok_def)
  have fnode: "j \<noteq> i \<Longrightarrow> OSTCBFlagNode (tcb s' j) = OSTCBFlagNode (tcb s j)" for j by (simp add: t)
  show "flags_ok s'"
  proof (rule flags_ok_live [OF fok f(9,10,11)])
    fix j assume l: "live s' j"
    show "fnode_ok s' j"
    proof (cases "j = i")
      case True
      then show ?thesis using ti by (simp add: fnode_ok_def)
    next
      case False
      then show ?thesis using fnode_other [OF _ f(9,10) sc [OF False] fnode [OF False]] w lv l flags_okD(1) [OF fok] by simp
    qed
  next
    fix g j show "flag_waits s' g j = flag_waits s g j"
      using nl ti(5) lv fnode by (cases "j = i") (simp_all add: flag_waits_def f)
  qed
qed

section \<open>Creating a task\<close>

lemma tlist_head_live: "tlist_ok s \<Longrightarrow> \<not> live s i \<Longrightarrow> OSTCBList s \<noteq> Some i"
  unfolding tlist_ok_def by (metis dchain_head hd_in_set mem_Collect_eq option.distinct(1) option.inject)

text \<open>An entry of the priority table that names no task may change to another such entry, and so may the stacks.\<close>

lemma slot_frame:
  assumes s': "s' = (set_slot p v s)\<lparr>OSStkMem := m\<rparr>"
    and old: "\<And>i. OSTCBPrioTbl s (unat p) \<noteq> Tcb i" and new: "\<And>i. v \<noteq> Tcb i"
  shows "live s' = live s" "kinv s \<Longrightarrow> kinv s'" "tasks_ok s \<Longrightarrow> tasks_ok s'"
    "flags_ok s \<Longrightarrow> flags_ok s'" "evlist_ok s \<Longrightarrow> evlist_ok s'" "cur_ok s \<Longrightarrow> cur_ok s'" "sched_ok s \<Longrightarrow> sched_ok s'"
proof -
  have f: "OSTCBTbl s' = OSTCBTbl s" "OSEventTbl_arr s' = OSEventTbl_arr s" "rdy_bm s' = rdy_bm s"
    "OSTCBPrioTbl s' = (OSTCBPrioTbl s)(unat p := v)" "OSTCBList s' = OSTCBList s" "OSTCBFreeList s' = OSTCBFreeList s"
    "OSFlagTbl s' = OSFlagTbl s" "OSFlagNodes s' = OSFlagNodes s" "OSFlagFreeList s' = OSFlagFreeList s"
    "OSEventFreeList s' = OSEventFreeList s" "OSRunning s' = OSRunning s" "OSTCBCur s' = OSTCBCur s"
    "OSPrioCur s' = OSPrioCur s" "OSIntNesting s' = OSIntNesting s" "OSLockNesting s' = OSLockNesting s"
    by (simp_all add: s' set_slot_def rdy_bm_def)
  have w: "wset s' e = wset s e" and r: "rdyset s' = rdyset s" for e by (simp_all add: wset_def rdyset_def f)
  have lv: "live s' i = live s i" for i using old new by (auto simp: live_def f)
  then show "live s' = live s" by blast
  have tk: "task_ok s' i = task_ok s i" for i by (simp add: task_ok_def f w r)
  have sl: "OSTCBPrioTbl s' q = Tcb i \<longleftrightarrow> OSTCBPrioTbl s q = Tcb i" for q i using old new by (auto simp: f)
  show "kinv s \<Longrightarrow> kinv s'" by (simp add: kinv_def lv tk sl w r) (simp add: f)
  show "tasks_ok s \<Longrightarrow> tasks_ok s'" by (simp add: tasks_ok_def tlist_ok_def tfree_ok_def lv f)
  show "flags_ok s'" if fok: "flags_ok s"
  proof (rule flags_ok_live [OF fok f(7,8,9)])
    show "fnode_ok s' j" if "live s' j" for j
    proof -
      have "fnode_ok s j" using flags_okD(1) [OF fok] that by (simp add: lv)
      then show ?thesis by (rule fnode_other) (simp_all only: f w same_core_refl not_False_eq_True)
    qed
    show "flag_waits s' g j = flag_waits s g j" for g j by (simp add: flag_waits_def f lv)
  qed
  show "evlist_ok s \<Longrightarrow> evlist_ok s'" by (erule evlist_frame) (simp_all add: f)
  show "cur_ok s \<Longrightarrow> cur_ok s'" by (simp add: cur_ok_def lv f)
  show "sched_ok s \<Longrightarrow> sched_ok s'" by (simp add: sched_ok_def r f)
qed

text \<open>The common tail of \<open>OSTaskCreate\<close> and \<open>OSTaskCreateExt\<close>.\<close>

definition create_tail :: "u8 \<Rightarrow> nat \<Rightarrow> nat \<Rightarrow> u16 \<Rightarrow> u32 \<Rightarrow> ptr \<Rightarrow> u16 \<Rightarrow> (nat \<Rightarrow> u32) \<Rightarrow> os \<Rightarrow> u8 \<times> os" where
  "create_tail p psp pbos tid n x o' m s =
    (let (err, s2) = OS_TCBInit p psp pbos tid n x o' ((set_slot p Reserved s)\<lparr>OSStkMem := m\<rparr>)
     in (err, if err = OS_ERR_NONE then sched_if_running s2 else set_slot p NoTcb s2))"

lemma create_tails:
  assumes "OSIntNesting s = 0" "OSTCBPrioTbl s (unat p) = NoTcb"
  shows "OSTaskCreate fpu ret task arg ptos p s =
      create_tail p (fst (OSTaskStkInit fpu ret task arg ptos (OSStkMem s))) 0 0 0 PNull 0
        (snd (OSTaskStkInit fpu ret task arg ptos (OSStkMem s))) s"
    and "OSTaskCreateExt fpu ret task arg ptos p tid pbos n x o' s =
      create_tail p (fst (OSTaskStkInit fpu ret task arg ptos (OS_TaskStkClr pbos n o' (OSStkMem s)))) pbos tid n x o'
        (snd (OSTaskStkInit fpu ret task arg ptos (OS_TaskStkClr pbos n o' (OSStkMem s)))) s"
  using assms
  by (simp_all add: OSTaskCreate_def OSTaskCreateExt_def create_tail_def Let_def split_beta set_slot_def)

lemma create_tail_ok:
  assumes ok: "tsafe s" and slot: "OSTCBPrioTbl s (unat p) = NoTcb" and p: "unat p < 64"
    and i: "OSTCBFreeList s = Some i" and nest: "OSIntNesting s = 0"
    and r: "create_tail p psp pbos tid n x o' m s = (err, s')"
  shows "err = OS_ERR_NONE" "tsafe s'" "live s' i" "prio s' i = unat p" "OSStkMem s' = m"
    "rdyset s' = insert (unat p) (rdyset s)" "\<not> live s i"
    "OSLockNesting s = 0 \<Longrightarrow> p < OSPrioCur s \<Longrightarrow> OSTCBCur s' = Some i"
    "\<And>j. j \<noteq> i \<Longrightarrow> live s' j = live s j" "\<And>j. j \<noteq> i \<Longrightarrow> same_core (tcb s j) (tcb s' j)"
    "OSTCBStkBottom (tcb s' i) = pbos" "OSTCBStkSize (tcb s' i) = n" "OSTCBOpt (tcb s' i) = o'"
proof -
  define s1 where "s1 = (set_slot p Reserved s)\<lparr>OSStkMem := m\<rparr>"
  have k: "kinv s" "evlist_ok s" "cur_ok s" "sched_ok s" "flags_ok s" "tasks_ok s"
    using ok by (simp_all add: kok_def)
  note sf = slot_frame [OF s1_def]
  have nt: "OSTCBPrioTbl s (unat p) \<noteq> Tcb j" for j using slot by simp
  have k1: "kinv s1" "evlist_ok s1" "cur_ok s1" "flags_ok s1" "tasks_ok s1"
    using sf(2-6) [OF nt] k by simp_all
  have s1f: "OSTCBFreeList s1 = Some i" "OSTCBPrioTbl s1 (unat p) \<noteq> Tcb j" "OSTCBTbl s1 = OSTCBTbl s"
    "OSLockNesting s1 = OSLockNesting s" "OSIntNesting s1 = 0" "rdyset s1 = rdyset s" "OSPrioCur s1 = OSPrioCur s"
    "OSStkMem s1 = m" for j
    by (simp_all add: s1_def set_slot_def i nest rdyset_def rdy_bm_def)
  have l1: "live s1 = live s" using sf(1) [OF nt] by simp
  obtain e2 s2 where r2: "OS_TCBInit p psp pbos tid n x o' s1 = (e2, s2)" by fastforce
  note t = TCBInit_ok [OF k1(1,5,4,2) s1f(1,2) p r2]
  have hl: "OSTCBList s1 \<noteq> Some i"
    using k1(5) t(11) by (simp add: tasks_ok_def tlist_head_live)
  note f = TCBInit_fields [OF s1f(1) hl r2]
  have e: "err = e2" "s' = sched_if_running s2" using r t(10) unfolding create_tail_def Let_def s1_def [symmetric] r2 by auto
  show "err = OS_ERR_NONE" using e t by simp
  have run: "OSRunning s2" using k1(3) by (simp add: f cur_ok_def)
  have s': "s' = OS_Sched s2" using e run by (simp add: sched_if_running_def)
  have c2: "cur_ok s2"
    using k1(3) t(7,9,11) by (auto simp: cur_ok_def f l1 same_core_def)
  have kk: "kok s2" using t(1,4) c2 by (rule kokI)
  note sc = kok_OS_Sched [OF kk]
  show ts: "tsafe s'" using sc flags_ok_OS_Sched [OF t(3)] tasks_OS_Sched [OF t(2)] by (simp add: s')
  show li: "live s' i" and pi: "prio s' i = unat p" using t(5,6) by (simp_all add: s' live_def)
  show rs: "rdyset s' = insert (unat p) (rdyset s)" using t(8) by (simp add: s' s1f)
  show "\<not> live s i" using t(11) by (simp add: l1)
  show "live s' j = live s j" if "j \<noteq> i" for j using t(7) [OF that] by (simp add: s' l1 live_def)
  show "same_core (tcb s j) (tcb s' j)" if "j \<noteq> i" for j
    using t(9) [OF that] OS_Sched_core [of s2 j] by (simp add: s' s1f same_core_def)
  show "OSTCBCur s' = Some i" if "OSLockNesting s = 0" "p < OSPrioCur s"
  proof -
    have k': "cur_ok s'" "sched_ok s'" using ts by (simp_all add: kok_def)
    have "unat (OSPrioCur s) = Min (rdyset s)" using k(4) nest that(1) by (simp add: sched_ok_def)
    moreover have "finite (rdyset s)" "rdyset s \<noteq> {}" using kinv_idle [OF k(1)] by (auto simp: rdyset_def)
    ultimately have "Min (rdyset s') = unat p"
      using that(2) unfolding rs by (auto simp: word_less_nat_alt min_def less_imp_le)
    then have "prio s' (cur s') = unat p"
      using k'(2) cur_ok_live(2) [OF k'(1)] that nest by (simp add: sched_ok_def s' f s1f)
    then have "cur s' = i" using live_inj [OF cur_ok_live(1) [OF k'(1)] li] pi by simp
    then show ?thesis using k'(1) by (auto simp: cur_ok_def cur_def)
  qed
  show "OSStkMem s' = m" using f(17) by (simp add: s' s1f OS_Sched_def os_switch_def OS_SchedNew_def OSPendSV_def upd_tcb_def Let_def)
  show "OSTCBStkBottom (tcb s' i) = pbos" "OSTCBStkSize (tcb s' i) = n" "OSTCBOpt (tcb s' i) = o'"
    using f(2) by (simp_all add: s' OS_Sched_def os_switch_def OS_SchedNew_def OSPendSV_def upd_tcb_def Let_def)
qed

section \<open>Deleting a task\<close>

text \<open>\<open>OSTaskDel\<close> up to the point where the control block is taken off the list of tasks.\<close>

definition del_quiet :: "nat \<Rightarrow> os \<Rightarrow> os" where
  "del_quiet i s =
    (let s1 = rdy_clear (tcb s i) s;
         s2 = (case OSTCBEventPtr (tcb s1 i) of None \<Rightarrow> s1 | Some e \<Rightarrow> OS_EventTaskRemove i e s1);
         s3 = (case OSTCBFlagNode (tcb s2 i) of None \<Rightarrow> s2 | Some j \<Rightarrow> OS_FlagUnlink j s2)
     in upd_tcb i (\<lambda>t. t\<lparr>OSTCBDly := 0, OSTCBStat := OS_STAT_RDY, OSTCBStatPend := OS_STAT_PEND_OK\<rparr>) s3)"

definition del_unlink :: "u8 \<Rightarrow> nat \<Rightarrow> os \<Rightarrow> os" where
  "del_unlink p i s =
    (let s7 = set_slot p NoTcb (s\<lparr>OSTaskCtr := OSTaskCtr s - 1\<rparr>);
         s8 = tcb_unlink i s7
     in upd_tcb i (\<lambda>t. t\<lparr>OSTCBNext := OSTCBFreeList s8, OSTCBTaskName := ''?''\<rparr>) (s8\<lparr>OSTCBFreeList := Some i\<rparr>))"

lemma lock_twice: "(x::u8) < 255 \<Longrightarrow> 0 < x + 1" 
  by (simp add: word_gt_0 u8_inc_nz)

lemma rdy_clear_rest [simp]:
  "OSEventFreeList (rdy_clear t s) = OSEventFreeList s" "OSTCBList (rdy_clear t s) = OSTCBList s"
  "OSTCBFreeList (rdy_clear t s) = OSTCBFreeList s" "OSFlagFreeList (rdy_clear t s) = OSFlagFreeList s"
  "OSRunning (rdy_clear t s) = OSRunning s" "OSTCBCur (rdy_clear t s) = OSTCBCur s" "OSPrioCur (rdy_clear t s) = OSPrioCur s"
  "OSIntNesting (rdy_clear t s) = OSIntNesting s" "OSLockNesting (rdy_clear t s) = OSLockNesting s"
  "OSFlagTbl (rdy_clear t s) = OSFlagTbl s" "OSFlagNodes (rdy_clear t s) = OSFlagNodes s"
  by (simp_all add: rdy_clear_def set_rdy_def)

lemma upd_ev_rest [simp]:
  "OSEventFreeList (upd_ev e f s) = OSEventFreeList s" "OSTCBList (upd_ev e f s) = OSTCBList s"
  "OSTCBFreeList (upd_ev e f s) = OSTCBFreeList s" "OSFlagFreeList (upd_ev e f s) = OSFlagFreeList s"
  "OSRunning (upd_ev e f s) = OSRunning s" "OSTCBCur (upd_ev e f s) = OSTCBCur s" "OSPrioCur (upd_ev e f s) = OSPrioCur s"
  "OSIntNesting (upd_ev e f s) = OSIntNesting s" "OSLockNesting (upd_ev e f s) = OSLockNesting s"
  "OSFlagTbl (upd_ev e f s) = OSFlagTbl s" "OSFlagNodes (upd_ev e f s) = OSFlagNodes s"
  "OSTCBTbl (upd_ev e f s) = OSTCBTbl s" "OSTCBPrioTbl (upd_ev e f s) = OSTCBPrioTbl s" "rdy_bm (upd_ev e f s) = rdy_bm s"
  "ev (upd_ev e f s) x = (if x = e then f (ev s e) else ev s x)"
  by (simp_all add: upd_ev_def rdy_bm_def)

text \<open>The task leaves the ready list and its wait list.\<close>

definition del_lists :: "nat \<Rightarrow> os \<Rightarrow> os" where
  "del_lists i s = (case OSTCBEventPtr (tcb s i) of None \<Rightarrow> rdy_clear (tcb s i) s
      | Some e \<Rightarrow> OS_EventTaskRemove i e (rdy_clear (tcb s i) s))"

lemma del_lists_rest [simp]:
  "OSTCBTbl (del_lists i s) = OSTCBTbl s" "OSTCBPrioTbl (del_lists i s) = OSTCBPrioTbl s"
  "OSEventType (ev (del_lists i s) e) = OSEventType (ev s e)" "OSEventPtr (ev (del_lists i s) e) = OSEventPtr (ev s e)"
  "OSEventFreeList (del_lists i s) = OSEventFreeList s" "OSTCBList (del_lists i s) = OSTCBList s"
  "OSTCBFreeList (del_lists i s) = OSTCBFreeList s" "OSFlagFreeList (del_lists i s) = OSFlagFreeList s"
  "OSRunning (del_lists i s) = OSRunning s" "OSTCBCur (del_lists i s) = OSTCBCur s" "OSPrioCur (del_lists i s) = OSPrioCur s"
  "OSIntNesting (del_lists i s) = OSIntNesting s" "OSLockNesting (del_lists i s) = OSLockNesting s"
  "OSFlagTbl (del_lists i s) = OSFlagTbl s" "OSFlagNodes (del_lists i s) = OSFlagNodes s"
  by (simp_all add: del_lists_def OS_EventTaskRemove_def split: option.split)

lemma del_lists_bm:
  assumes "wf_tcb (tcb s i)"
  shows "rdy_bm (del_lists i s) = bm_del (prio s i) (rdy_bm s)"
    "ev_bm (ev (del_lists i s) e) = (if OSTCBEventPtr (tcb s i) = Some e then bm_del (prio s i) (ev_bm (ev s e)) else ev_bm (ev s e))"
  using rdy_bm_clear [OF assms] ev_bm_ev_clear [OF assms]
  by (simp_all add: del_lists_def OS_EventTaskRemove_def split: option.split)

lemma unlink_frame [simp]:
  "OSTCBPrioTbl (OS_FlagUnlink j s) = OSTCBPrioTbl s" "OSEventTbl_arr (OS_FlagUnlink j s) = OSEventTbl_arr s"
  "OSEventFreeList (OS_FlagUnlink j s) = OSEventFreeList s" "OSTCBList (OS_FlagUnlink j s) = OSTCBList s"
  "OSTCBFreeList (OS_FlagUnlink j s) = OSTCBFreeList s" "OSFlagFreeList (OS_FlagUnlink j s) = OSFlagFreeList s"
  "OSRunning (OS_FlagUnlink j s) = OSRunning s" "OSTCBCur (OS_FlagUnlink j s) = OSTCBCur s" "OSPrioCur (OS_FlagUnlink j s) = OSPrioCur s"
  "OSIntNesting (OS_FlagUnlink j s) = OSIntNesting s" "OSLockNesting (OS_FlagUnlink j s) = OSLockNesting s"
  by (simp_all add: OS_FlagUnlink_def Let_def upd_grp_def upd_node_def upd_tcb_def split: option.splits)

lemma unlink_cong:
  assumes "OSFlagTbl s' = OSFlagTbl s" "OSFlagNodes s' = OSFlagNodes s"
  shows "OSFlagTbl (OS_FlagUnlink j s') = OSFlagTbl (OS_FlagUnlink j s)"
    "OSFlagNodes (OS_FlagUnlink j s') = OSFlagNodes (OS_FlagUnlink j s)"
  using assms by (auto simp: OS_FlagUnlink_def Let_def upd_grp_def upd_node_def upd_tcb_def split: option.splits)

lemma del_quiet_eq:
  "del_quiet i s = upd_tcb i (\<lambda>t. t\<lparr>OSTCBDly := 0, OSTCBStat := OS_STAT_RDY, OSTCBStatPend := OS_STAT_PEND_OK\<rparr>)
     (case OSTCBFlagNode (tcb s i) of None \<Rightarrow> del_lists i s | Some j \<Rightarrow> OS_FlagUnlink j (del_lists i s))"
proof -
  have e: "(case OSTCBEventPtr (tcb (rdy_clear (tcb s i) s) i) of None \<Rightarrow> rdy_clear (tcb s i) s
      | Some e \<Rightarrow> OS_EventTaskRemove i e (rdy_clear (tcb s i) s)) = del_lists i s" by (simp add: del_lists_def)
  show ?thesis unfolding del_quiet_def Let_def e by simp
qed

lemma upd_tcb_rest [simp]:
  "OSTCBFreeList (upd_tcb i f s) = OSTCBFreeList s" "OSFlagFreeList (upd_tcb i f s) = OSFlagFreeList s"
  "OSFlagTbl (upd_tcb i f s) = OSFlagTbl s" "OSFlagNodes (upd_tcb i f s) = OSFlagNodes s"
  by (simp_all add: upd_tcb_def)

lemma del_quiet_rest [simp]:
  "OSTCBPrioTbl (del_quiet i s) = OSTCBPrioTbl s" "OSEventType (ev (del_quiet i s) e) = OSEventType (ev s e)"
  "OSEventPtr (ev (del_quiet i s) e) = OSEventPtr (ev s e)"
  "OSEventFreeList (del_quiet i s) = OSEventFreeList s" "OSTCBList (del_quiet i s) = OSTCBList s"
  "OSTCBFreeList (del_quiet i s) = OSTCBFreeList s" "OSFlagFreeList (del_quiet i s) = OSFlagFreeList s"
  "OSRunning (del_quiet i s) = OSRunning s" "OSTCBCur (del_quiet i s) = OSTCBCur s" "OSPrioCur (del_quiet i s) = OSPrioCur s"
  "OSIntNesting (del_quiet i s) = OSIntNesting s" "OSLockNesting (del_quiet i s) = OSLockNesting s"
  by (simp_all add: del_quiet_eq split: option.split)

lemma del_quiet_fields:
  assumes w: "wf_tcb (tcb s i)" and fn: "\<And>j. OSTCBFlagNode (tcb s i) = Some j \<Longrightarrow> j = i \<and> OSFlagNodeTCB (node s i) = i"
  shows "OSTCBTbl (del_quiet i s) = (OSTCBTbl s)(i := (tcb s i)\<lparr>OSTCBFlagNode := None, OSTCBDly := 0, OSTCBStat := 0, OSTCBStatPend := 0\<rparr>)"
    "rdy_bm (del_quiet i s) = bm_del (prio s i) (rdy_bm s)"
    "ev_bm (ev (del_quiet i s) e) = (if OSTCBEventPtr (tcb s i) = Some e then bm_del (prio s i) (ev_bm (ev s e)) else ev_bm (ev s e))"
    "OSFlagTbl (del_quiet i s) = (if OSTCBFlagNode (tcb s i) = None then OSFlagTbl s else OSFlagTbl (OS_FlagUnlink i s))"
    "OSFlagNodes (del_quiet i s) = (if OSTCBFlagNode (tcb s i) = None then OSFlagNodes s else OSFlagNodes (OS_FlagUnlink i s))"
proof -
  have t: "OSTCBTbl (OS_FlagUnlink i (del_lists i s)) = (OSTCBTbl s)(i := (tcb s i)\<lparr>OSTCBFlagNode := None\<rparr>)" if "OSTCBFlagNode (tcb s i) \<noteq> None"
    using unlink_tcb [of "del_lists i s" i i] fn that by auto
  show "OSTCBTbl (del_quiet i s) = (OSTCBTbl s)(i := (tcb s i)\<lparr>OSTCBFlagNode := None, OSTCBDly := 0, OSTCBStat := 0, OSTCBStatPend := 0\<rparr>)"
    using fn t by (auto simp: del_quiet_eq upd_tcb_def split: option.split)
  show "rdy_bm (del_quiet i s) = bm_del (prio s i) (rdy_bm s)"
    "ev_bm (ev (del_quiet i s) e) = (if OSTCBEventPtr (tcb s i) = Some e then bm_del (prio s i) (ev_bm (ev s e)) else ev_bm (ev s e))"
    using del_lists_bm [OF w] by (simp_all add: del_quiet_eq split: option.split)
  show "OSFlagTbl (del_quiet i s) = (if OSTCBFlagNode (tcb s i) = None then OSFlagTbl s else OSFlagTbl (OS_FlagUnlink i s))"
    "OSFlagNodes (del_quiet i s) = (if OSTCBFlagNode (tcb s i) = None then OSFlagNodes s else OSFlagNodes (OS_FlagUnlink i s))"
    using fn by (auto simp: del_quiet_eq unlink_cong [of "del_lists i s" s] split: option.split)
qed

lemma OSTaskDel_eq:
  assumes "OSIntNesting s = 0" "p \<noteq> OS_TASK_IDLE_PRIO" "OSTCBPrioTbl s (unat (self_prio p s)) = Tcb i" "OSLockNesting s < 255"
  shows "OSTaskDel p s = (OS_ERR_NONE, sched_if_running (del_unlink (self_prio p s) i (del_quiet i s)))"
proof -
  have l: "OSLockNesting (del_quiet i s) = OSLockNesting s"
    by simp
  then have u: "(del_quiet i s)\<lparr>OSLockNesting := OSLockNesting s, OSTaskCtr := c\<rparr> = (del_quiet i s)\<lparr>OSTaskCtr := c\<rparr>" for c
    by (intro os.equality) simp_all
  show ?thesis using assms lock_twice [OF assms(4)] l
    unfolding OSTaskDel_def Let_def del_unlink_def del_quiet_def [unfolded Let_def, symmetric] by simp (simp only: u)
qed

lemma tcb_unlink_fields:
  assumes d: "dchain (\<lambda>i. OSTCBNext (tcb s i)) (\<lambda>i. OSTCBPrev (tcb s i)) None (OSTCBList s) (xs @ i # ys)" and ys: "ys \<noteq> []"
  defines "s' \<equiv> tcb_unlink i s"
  shows "dchain (\<lambda>i. OSTCBNext (tcb s' i)) (\<lambda>i. OSTCBPrev (tcb s' i)) None (OSTCBList s') (xs @ ys)"
    "\<And>j. \<exists>a b. tcb s' j = (tcb s j)\<lparr>OSTCBNext := a, OSTCBPrev := b\<rparr>"
    "\<And>j. j \<notin> set (xs @ ys) \<Longrightarrow> tcb s' j = tcb s j"
    "\<exists>t l. s' = s\<lparr>OSTCBTbl := t, OSTCBList := l\<rparr>"
proof -
  note ends = dchain_ends [OF d]
  have pv: "OSTCBPrev (tcb s i) = (if xs = [] then None else Some (last xs))" and nx: "OSTCBNext (tcb s i) = Some (hd ys)"
    using ends ys by auto
  have dis: "distinct (xs @ i # ys)" using d by (rule dchain_distinct)
  have hl: "xs \<noteq> [] \<Longrightarrow> hd ys \<noteq> last xs" using dis ys by (metis IntI disjoint_iff distinct_append hd_in_set last_in_set list.set_intros(2))
  have t: "OSTCBTbl s' = (if xs = [] then (OSTCBTbl s)(hd ys := (tcb s (hd ys))\<lparr>OSTCBPrev := None\<rparr>)
      else (OSTCBTbl s)(last xs := (tcb s (last xs))\<lparr>OSTCBNext := Some (hd ys)\<rparr>, hd ys := (tcb s (hd ys))\<lparr>OSTCBPrev := Some (last xs)\<rparr>))"
    using hl by (simp add: s'_def tcb_unlink_def Let_def pv nx upd_tcb_def)
  have l: "OSTCBList s' = (if xs = [] then Some (hd ys) else OSTCBList s)"
    by (simp add: s'_def tcb_unlink_def Let_def pv nx upd_tcb_def)
  have n': "(\<lambda>j. OSTCBNext (tcb s' j)) = (if xs = [] then (\<lambda>j. OSTCBNext (tcb s j)) else (\<lambda>j. OSTCBNext (tcb s j))(last xs := OSTCBNext (tcb s i)))"
    using hl by (auto simp: t fun_eq_iff nx)
  have p': "(\<lambda>j. OSTCBPrev (tcb s' j)) = (\<lambda>j. OSTCBPrev (tcb s j))(hd ys := if xs = [] then None else Some (last xs))"
    using hl by (auto simp: t fun_eq_iff)
  show "dchain (\<lambda>i. OSTCBNext (tcb s' i)) (\<lambda>i. OSTCBPrev (tcb s' i)) None (OSTCBList s') (xs @ ys)"
    using dchain_remove [OF d] ys unfolding n' p' l by (cases "xs = []") (simp_all del: fun_upd_apply add: nx)
  show "\<exists>a b. tcb s' j = (tcb s j)\<lparr>OSTCBNext := a, OSTCBPrev := b\<rparr>" for j
  proof -
    have "tcb s' j = (tcb s j)\<lparr>OSTCBNext := OSTCBNext (tcb s' j), OSTCBPrev := OSTCBPrev (tcb s' j)\<rparr>" by (simp add: t)
    then show ?thesis by (intro exI)
  qed
  show "tcb s' j = tcb s j" if "j \<notin> set (xs @ ys)" for j
    using that ys last_in_set [of xs] hd_in_set [OF ys] by (auto simp: t)
  show "\<exists>t l. s' = s\<lparr>OSTCBTbl := t, OSTCBList := l\<rparr>"
  proof (cases "xs = []")
    case True
    then show ?thesis unfolding s'_def tcb_unlink_def Let_def pv upd_tcb_def by auto
  next
    case False
    have "s' = s\<lparr>OSTCBTbl := OSTCBTbl s', OSTCBList := OSTCBList s'\<rparr>"
      using False by (simp add: s'_def tcb_unlink_def Let_def pv upd_tcb_def)
    then show ?thesis by (intro exI)
  qed
qed

lemma set_slot_rest [simp]:
  "OSTCBTbl (set_slot p v s) = OSTCBTbl s" "OSTCBList (set_slot p v s) = OSTCBList s" "rdy_bm (set_slot p v s) = rdy_bm s"
  "OSTCBFreeList (set_slot p v s) = OSTCBFreeList s" "OSTCBPrioTbl (set_slot p v s) = (OSTCBPrioTbl s)(unat p := v)"
  "OSEventTbl_arr (set_slot p v s) = OSEventTbl_arr s" "OSEventFreeList (set_slot p v s) = OSEventFreeList s"
  "OSFlagTbl (set_slot p v s) = OSFlagTbl s" "OSFlagNodes (set_slot p v s) = OSFlagNodes s" "OSRunning (set_slot p v s) = OSRunning s"
  "OSFlagFreeList (set_slot p v s) = OSFlagFreeList s" "OSTCBCur (set_slot p v s) = OSTCBCur s" "OSPrioCur (set_slot p v s) = OSPrioCur s"
  "OSIntNesting (set_slot p v s) = OSIntNesting s" "OSLockNesting (set_slot p v s) = OSLockNesting s"
  by (simp_all add: set_slot_def rdy_bm_def)

text \<open>The last step of \<open>OSTaskDel\<close> before it calls the scheduler.\<close>

lemma del_unlink_ok:
  assumes d: "dchain (\<lambda>i. OSTCBNext (tcb s i)) (\<lambda>i. OSTCBPrev (tcb s i)) None (OSTCBList s) (xs @ i # ys)" and ys: "ys \<noteq> []"
  defines "s' \<equiv> del_unlink (OSTCBPrio (tcb s i)) i s"
  shows "dchain (\<lambda>i. OSTCBNext (tcb s' i)) (\<lambda>i. OSTCBPrev (tcb s' i)) None (OSTCBList s') (xs @ ys)"
    "\<And>j. j \<noteq> i \<Longrightarrow> \<exists>a b. tcb s' j = (tcb s j)\<lparr>OSTCBNext := a, OSTCBPrev := b\<rparr>"
    "\<And>j. j \<notin> set (xs @ i # ys) \<Longrightarrow> tcb s' j = tcb s j"
    "tcb s' i = (tcb s i)\<lparr>OSTCBNext := OSTCBFreeList s, OSTCBTaskName := ''?''\<rparr>"
    "OSTCBFreeList s' = Some i" "OSTCBPrioTbl s' = (OSTCBPrioTbl s)(prio s i := NoTcb)" "rdy_bm s' = rdy_bm s"
    "OSEventTbl_arr s' = OSEventTbl_arr s" "OSEventFreeList s' = OSEventFreeList s" "OSFlagTbl s' = OSFlagTbl s"
    "OSFlagNodes s' = OSFlagNodes s" "OSFlagFreeList s' = OSFlagFreeList s" "OSRunning s' = OSRunning s"
    "OSTCBCur s' = OSTCBCur s" "OSPrioCur s' = OSPrioCur s" "OSIntNesting s' = OSIntNesting s"
    "OSLockNesting s' = OSLockNesting s"
proof -
  define s7 where "s7 = set_slot (OSTCBPrio (tcb s i)) NoTcb (s\<lparr>OSTaskCtr := OSTaskCtr s - 1\<rparr>)"
  define s8 where "s8 = tcb_unlink i s7"
  have s': "s' = upd_tcb i (\<lambda>t. t\<lparr>OSTCBNext := OSTCBFreeList s8, OSTCBTaskName := ''?''\<rparr>) (s8\<lparr>OSTCBFreeList := Some i\<rparr>)"
    by (simp add: s'_def del_unlink_def Let_def s7_def s8_def)
  have d7: "dchain (\<lambda>i. OSTCBNext (tcb s7 i)) (\<lambda>i. OSTCBPrev (tcb s7 i)) None (OSTCBList s7) (xs @ i # ys)"
    using d by (simp add: s7_def)
  note u = tcb_unlink_fields [OF d7 ys, folded s8_def]
  have ni: "i \<notin> set (xs @ ys)" using dchain_distinct [OF d] by simp
  obtain t l where e8: "s8 = s7\<lparr>OSTCBTbl := t, OSTCBList := l\<rparr>" using u(4) by blast
  have f: "OSTCBFreeList s8 = OSTCBFreeList s" "OSTCBPrioTbl s8 = (OSTCBPrioTbl s)(prio s i := NoTcb)" "rdy_bm s8 = rdy_bm s"
    "OSEventTbl_arr s8 = OSEventTbl_arr s" "OSEventFreeList s8 = OSEventFreeList s" "OSFlagTbl s8 = OSFlagTbl s"
    "OSFlagNodes s8 = OSFlagNodes s" "OSFlagFreeList s8 = OSFlagFreeList s" "OSRunning s8 = OSRunning s"
    "OSTCBCur s8 = OSTCBCur s" "OSPrioCur s8 = OSPrioCur s" "OSIntNesting s8 = OSIntNesting s"
    "OSLockNesting s8 = OSLockNesting s"
    by (simp_all add: e8 s7_def rdy_bm_def set_slot_def)
  have t8: "tcb s' j = (if j = i then (tcb s i)\<lparr>OSTCBNext := OSTCBFreeList s, OSTCBTaskName := ''?''\<rparr> else tcb s8 j)" for j
    using u(3) [OF ni] by (simp add: s' upd_tcb_def f(1)) (simp add: s7_def)
  then show "tcb s' i = (tcb s i)\<lparr>OSTCBNext := OSTCBFreeList s, OSTCBTaskName := ''?''\<rparr>" by simp
  have "dchain (\<lambda>i. OSTCBNext (tcb s' i)) (\<lambda>i. OSTCBPrev (tcb s' i)) None (OSTCBList s8) (xs @ ys) =
      dchain (\<lambda>i. OSTCBNext (tcb s8 i)) (\<lambda>i. OSTCBPrev (tcb s8 i)) None (OSTCBList s8) (xs @ ys)"
    using ni by (intro dchain_cong) (auto simp: t8)
  then show "dchain (\<lambda>i. OSTCBNext (tcb s' i)) (\<lambda>i. OSTCBPrev (tcb s' i)) None (OSTCBList s') (xs @ ys)"
    using u(1) by (simp add: s' upd_tcb_def)
  show "\<exists>a b. tcb s' j = (tcb s j)\<lparr>OSTCBNext := a, OSTCBPrev := b\<rparr>" if "j \<noteq> i" for j
    using u(2) [of j] that by (simp add: t8 s7_def)
  show "tcb s' j = tcb s j" if "j \<notin> set (xs @ i # ys)" for j using u(3) [of j] that by (simp add: t8 s7_def)
  show "OSTCBFreeList s' = Some i" "OSTCBPrioTbl s' = (OSTCBPrioTbl s)(prio s i := NoTcb)" "rdy_bm s' = rdy_bm s"
    "OSEventTbl_arr s' = OSEventTbl_arr s" "OSEventFreeList s' = OSEventFreeList s" "OSFlagTbl s' = OSFlagTbl s"
    "OSFlagNodes s' = OSFlagNodes s" "OSFlagFreeList s' = OSFlagFreeList s" "OSRunning s' = OSRunning s"
    "OSTCBCur s' = OSTCBCur s" "OSPrioCur s' = OSPrioCur s" "OSIntNesting s' = OSIntNesting s"
    "OSLockNesting s' = OSLockNesting s"
    using f by (simp_all add: s' upd_tcb_def rdy_bm_def)
qed

lemma task_del_core:
  assumes inv: "kinv s" and tok: "tasks_ok s" and fok: "flags_ok s" and el: "evlist_ok s"
    and li: "live s i" and one: "one_slot s i" and idle: "prio s i \<noteq> 63"
    and s': "s' = del_unlink (OSTCBPrio (tcb s i)) i (del_quiet i s)"
  shows "kinv s'" "tasks_ok s'" "flags_ok s'" "evlist_ok s'" "\<not> live s' i"
    "\<And>j. j \<noteq> i \<Longrightarrow> live s' j = live s j" "rdyset s' = rdyset s - {prio s i}"
    "\<And>j. j \<noteq> i \<Longrightarrow> same_core (tcb s j) (tcb s' j)" "wset s' e = wset s e - {prio s i}"
    "OSTCBFreeList s' = Some i" "OSTCBPrioTbl s' = (OSTCBPrioTbl s)(prio s i := NoTcb)"
    "OSRunning s' = OSRunning s" "OSTCBCur s' = OSTCBCur s" "OSPrioCur s' = OSPrioCur s"
    "OSIntNesting s' = OSIntNesting s" "OSLockNesting s' = OSLockNesting s"
proof -
  let ?p = "prio s i" and ?q = "del_quiet i s"
  note wf = kinv_wf [OF inv li]
  have fn: "j = i \<and> OSFlagNodeTCB (node s i) = i" if "OSTCBFlagNode (tcb s i) = Some j" for j
    using flags_okD(1) [OF fok li] that by (simp add: fnode_ok_def)
  note q = del_quiet_fields [OF wf fn]
  obtain zs k where d: "dchain (\<lambda>i. OSTCBNext (tcb s i)) (\<lambda>i. OSTCBPrev (tcb s i)) None (OSTCBList s) (zs @ [k])"
    and pk: "OSTCBPrio (tcb s k) = OS_TASK_IDLE_PRIO" and zs: "set (zs @ [k]) = {j. live s j}"
    using tok by (auto simp: tasks_ok_def tlist_ok_def)
  have ik: "i \<noteq> k" using pk idle by auto
  then have "i \<in> set zs" using zs li by auto
  then obtain xs us where zx: "zs = xs @ i # us" by (auto dest: split_list)
  let ?ys = "us @ [k]"
  have dq: "dchain (\<lambda>i. OSTCBNext (tcb ?q i)) (\<lambda>i. OSTCBPrev (tcb ?q i)) None (OSTCBList ?q) (xs @ i # ?ys)"
  proof -
    have "OSTCBNext (tcb ?q j) = OSTCBNext (tcb s j)" "OSTCBPrev (tcb ?q j) = OSTCBPrev (tcb s j)" for j
      by (simp_all add: q)
    then show ?thesis using d by (simp add: zx)
  qed
  have pq: "OSTCBPrio (tcb ?q i) = OSTCBPrio (tcb s i)" by (simp add: q)
  note u = del_unlink_ok [OF dq, folded pq, unfolded pq, folded s']
  have ne: "?ys \<noteq> []" by simp
  note u = u [OF ne]
  have sc: "same_core (tcb s j) (tcb s' j)" and fj: "OSTCBFlagNode (tcb s' j) = OSTCBFlagNode (tcb s j)" if j: "j \<noteq> i" for j
    using u(2) [OF j] j by (auto simp: q same_core_def)
  have ti: "tcb s' i = (tcb ?q i)\<lparr>OSTCBNext := OSTCBFreeList s, OSTCBTaskName := ''?''\<rparr>" using u(4) by simp
  have tbl: "OSTCBPrioTbl s' = (OSTCBPrioTbl s)(?p := NoTcb)" using u(6) by (simp add: pq)
  have ebm: "ev_bm (ev s' e) = (if OSTCBEventPtr (tcb s i) = Some e then bm_del ?p (ev_bm (ev s e)) else ev_bm (ev s e))" for e
    using q(3) u(8) by simp
  have ws: "wset s' e = wset s e - {?p}" for e
    using kinv_waits_on [OF inv li, of e] by (auto simp: wset_def ebm bm.elems_del)
  then show "wset s' e = wset s e - {?p}" .
  have rb: "rdy_bm s' = bm_del ?p (rdy_bm s)" using u(7) q(2) by simp
  note kr = kinv_remove [OF inv li one idle tbl sc _ rb]
  have pi: "OSTCBPrio (tcb s' i) = OSTCBPrio (tcb s i)" by (simp add: ti pq)
  have bme: "bm_ok (ev_bm (ev s' e))" for e using kinv_ev [OF inv] by (simp add: ebm bm.invar_del)
  have ety: "OSEventType (ev s' e) = OSEventType (ev s e)" for e using u(8) by simp
  show "kinv s'" by (rule kr(1) [OF _ pi bme ws ety])
  show nl: "\<not> live s' i" by (rule kr(2) [OF _ pi bme ws ety])
  have lv: "live s' j = live s j" if "j \<noteq> i" for j using kr(3) [OF _ pi bme ws ety] that by blast
  show "\<And>j. j \<noteq> i \<Longrightarrow> live s' j = live s j" by (rule lv)
  show "rdyset s' = rdyset s - {?p}" by (rule kr(4) [OF _ pi bme ws ety])
  show "\<And>j. j \<noteq> i \<Longrightarrow> same_core (tcb s j) (tcb s' j)" by (rule sc)
  show "evlist_ok s'" using el by (rule evlist_frame) (simp_all add: u)
  have lv': "live s' j \<longleftrightarrow> j \<noteq> i \<and> live s j" for j using nl lv by (cases "j = i") auto
  have dd: "distinct (xs @ i # ?ys)" using dchain_distinct [OF dq] .
  have dl: "dchain (\<lambda>i. OSTCBNext (tcb s' i)) (\<lambda>i. OSTCBPrev (tcb s' i)) None (OSTCBList s') ((xs @ us) @ [k])"
    using u(1) by simp
  moreover have "OSTCBPrio (tcb s' k) = OS_TASK_IDLE_PRIO" using sc [of k] ik pk by (auto simp: same_core_def)
  moreover have "set ((xs @ us) @ [k]) = {j. live s' j}" using zs dd by (auto simp: lv' zx)
  ultimately have "tlist_ok s'" unfolding tlist_ok_def by blast
  moreover have "tfree_ok s'"
  proof -
    obtain fs where c: "chain (\<lambda>i. OSTCBNext (tcb s i)) (OSTCBFreeList s) fs"
      and f: "\<forall>j \<in> set fs. j < OS_N_TCBS \<and> \<not> live s j" using tok by (auto simp: tasks_ok_def tfree_ok_def)
    have nf: "j \<notin> set (xs @ i # ?ys)" if "j \<in> set fs" for j using that f zs li by (auto simp: zx)
    have "chain (\<lambda>i. OSTCBNext (tcb s' i)) (OSTCBFreeList s) fs = chain (\<lambda>i. OSTCBNext (tcb s i)) (OSTCBFreeList s) fs"
    proof (rule chain_cong)
      fix j assume "j \<in> set fs"
      then have "tcb s' j = tcb ?q j" "j \<noteq> i" using u(3) nf by auto
      then show "OSTCBNext (tcb s' j) = OSTCBNext (tcb s j)" by (simp add: q)
    qed
    then have "chain (\<lambda>i. OSTCBNext (tcb s' i)) (OSTCBFreeList s') (i # fs)" using c u(5) by (simp add: ti)
    moreover have "i < OS_N_TCBS" using tok li by (simp add: tasks_ok_def)
    ultimately show ?thesis using f unfolding tfree_ok_def by (intro exI [of _ "i # fs"]) (auto simp: lv')
  qed
  ultimately show "tasks_ok s'" using tok by (simp add: tasks_ok_def lv')
  show "flags_ok s'"
  proof (cases "OSTCBFlagNode (tcb s i)")
    case None
    then have fl: "OSFlagTbl s' = OSFlagTbl s" "OSFlagNodes s' = OSFlagNodes s" "OSFlagFreeList s' = OSFlagFreeList s"
      using u(10-12) q(4,5) by simp_all
    show ?thesis
    proof (rule flags_ok_live [OF fok fl])
      fix j assume "live s' j"
      then have j: "j \<noteq> i" "fnode_ok s j" using flags_okD(1) [OF fok] by (auto simp: lv')
      show "fnode_ok s' j" using j(2) fl(1,2) sc [OF j(1)] fj [OF j(1)] by (rule fnode_other) (simp add: ws)
    next
      fix g j show "flag_waits s' g j = flag_waits s g j"
        using None fj fl by (cases "j = i") (simp_all add: flag_waits_def lv')
    qed
  next
    case (Some j0)
    then have fl: "OSFlagTbl s' = OSFlagTbl (OS_FlagUnlink i s)" "OSFlagNodes s' = OSFlagNodes (OS_FlagUnlink i s)"
        "OSFlagFreeList s' = OSFlagFreeList s" using u(10-12) q(4,5) by simp_all
    define g where "g = OSFlagNodeFlagGrp (node s i)"
    have w: "flag_waits s g i" using li Some fn by (auto simp: flag_waits_def g_def)
    obtain as bs where l: "flag_list s g (as @ i # bs)"
      using fgrp_okE [OF fok fnode_waits(3) [OF fok w]] w by (metis split_list)
    show ?thesis by (rule flags_ok_remove(1) [OF fok w l fl]) (use sc fj in \<open>simp_all add: ti q lv' ws\<close>)
  qed
  show "OSTCBFreeList s' = Some i" "OSRunning s' = OSRunning s" "OSTCBCur s' = OSTCBCur s" "OSPrioCur s' = OSPrioCur s"
    "OSIntNesting s' = OSIntNesting s" "OSLockNesting s' = OSLockNesting s" using u by simp_all
  show "OSTCBPrioTbl s' = (OSTCBPrioTbl s)(?p := NoTcb)" by (rule tbl)
qed

section \<open>Suspending and resuming\<close>

lemma pend_bits_same:
  assumes p: "(st'::u8) AND 0x37 = st AND 0x37" and b: "st' AND NOT 0x3F = 0"
  shows "st' AND stat_mask ty = st AND stat_mask ty" "st' AND 0x20 = st AND 0x20" "st' AND 0x17 = st AND 0x17"
    "st AND NOT (m OR 8) = 0 \<Longrightarrow> st' AND NOT (m OR 8) = 0"
proof -
  have sub: "st' AND k = st AND k" if "0x37 AND k = k" for k
    using p that by (metis and.assoc)
  show "st' AND stat_mask ty = st AND stat_mask ty" using stat_mask_pend [of ty] by (intro sub) (simp add: and.commute)
  show "st' AND 0x20 = st AND 0x20" "st' AND 0x17 = st AND 0x17" by (rule sub, simp)+
  show "st' AND NOT (m OR 8) = 0" if m: "st AND NOT (m OR 8) = 0"
  proof -
    have "(st' AND NOT (m OR 8)) AND 0x37 = 0"
    proof -
      have "(st' AND NOT (m OR 8)) AND 0x37 = (st' AND 0x37) AND NOT (m OR 8)" by (simp only: ac_simps)
      also have "\<dots> = (st AND NOT (m OR 8)) AND 0x37" unfolding p by (simp only: ac_simps)
      finally show ?thesis using m by simp
    qed
    moreover have "(st' AND NOT (m OR 8)) AND NOT 0x37 = 0"
    proof -
      have "(NOT (m OR 8) AND NOT 0x37 :: u8) = NOT (m OR 8) AND NOT 0x3F"
        by (simp add: bit.de_Morgan_disj and.assoc)
      then have "st' AND (NOT (m OR 8) AND NOT 0x37) = (st' AND NOT 0x3F) AND NOT (m OR 8)"
        by (simp only: ac_simps)
      then have "st' AND (NOT (m OR 8) AND NOT 0x37) = 0" unfolding b by simp
      then show ?thesis by (simp only: and.assoc)
    qed
    ultimately show ?thesis by (rule and_parts_zero)
  qed
qed

text \<open>The status byte of one task changes outside the pend bits, and the ready list follows.\<close>

lemma stat_change:
  assumes inv: "kinv s" and li: "live s i"
    and t: "OSTCBTbl s' = (OSTCBTbl s)(i := (tcb s i)\<lparr>OSTCBStat := st\<rparr>)"
    and st: "st AND 0x37 = OSTCBStat (tcb s i) AND 0x37" "st AND NOT 0x3F = 0"
    and tbl: "OSTCBPrioTbl s' = OSTCBPrioTbl s" and eve: "OSEventTbl_arr s' = OSEventTbl_arr s"
    and bok: "bm_ok (rdy_bm s')"
    and r: "\<And>q. q \<in> rdyset s' \<longleftrightarrow> (if q = prio s i then st = 0 \<and> OSTCBDly (tcb s i) = 0 else q \<in> rdyset s)"
    and idle: "prio s i \<noteq> 63"
  shows "kinv s'"
    and "flags_ok s \<Longrightarrow> OSFlagTbl s' = OSFlagTbl s \<Longrightarrow> OSFlagNodes s' = OSFlagNodes s \<Longrightarrow>
      OSFlagFreeList s' = OSFlagFreeList s \<Longrightarrow> flags_ok s'"
proof -
  note ps = pend_bits_same [OF st]
  have w: "wset s' e = wset s e" for e by (simp add: wset_def eve)
  have ok: "task_ok s' i"
    using kinv_task [OF inv li] st(2) ps by (auto simp: task_ok_def t r w eve)
  show "kinv s'" using bok ok kinv_ev [OF inv] kinv_idle [OF inv] idle kinv_used [OF inv]
    by (intro kinv_one_task [OF inv li]) (auto simp: t tbl eve w r)
  assume fok: "flags_ok s" and fl: "OSFlagTbl s' = OSFlagTbl s" "OSFlagNodes s' = OSFlagNodes s" "OSFlagFreeList s' = OSFlagFreeList s"
  have lv: "live s' j = live s j" for j by (simp add: live_def t tbl)
  show "flags_ok s'"
  proof (rule flags_ok_live [OF fok fl])
    fix j assume "live s' j"
    then have f: "fnode_ok s j" using flags_okD(1) [OF fok] by (simp add: lv)
    show "fnode_ok s' j"
      using f ps(2) ps(4) [where m = "0x20", simplified] by (cases "j = i") (auto simp: fnode_ok_def t fl w split: option.splits)
  next
    fix g j show "flag_waits s' g j = flag_waits s g j" by (simp add: flag_waits_def lv t fl)
  qed
qed

lemma suspend_tcb:
  "OSTCBTbl (upd_tcb i (\<lambda>t. t\<lparr>OSTCBStat := OSTCBStat t OR OS_STAT_SUSPEND\<rparr>) (rdy_clear (tcb s i) s)) =
    (OSTCBTbl s)(i := (tcb s i)\<lparr>OSTCBStat := OSTCBStat (tcb s i) OR OS_STAT_SUSPEND\<rparr>)"
  by (simp add: upd_tcb_def)

lemma stat_suspend_bits:
  assumes "(st::u8) AND NOT 0x3F = 0"
  shows "(st OR 8) AND 0x37 = st AND 0x37" "(st OR 8) AND NOT 0x3F = 0" "st OR 8 \<noteq> 0"
    "(st AND NOT 8) AND 0x37 = st AND 0x37" "(st AND NOT 8) AND NOT 0x3F = 0"
proof -
  show "(st OR 8) AND 0x37 = st AND 0x37" by (simp add: bit.conj_disj_distrib2)
  show "(st OR 8) AND NOT 0x3F = 0" using assms by (simp add: bit.conj_disj_distrib2)
  show "st OR 8 \<noteq> 0"
  proof
    assume "st OR 8 = 0"
    then have "(st OR 8) AND 8 = 0" by simp
    then show False by (simp add: bit.conj_disj_distrib2)
  qed
  show "(st AND NOT 8) AND 0x37 = st AND 0x37" by (simp add: and.assoc)
  show "(st AND NOT 8) AND NOT 0x3F = 0" using assms by (rule and_drop)
qed

lemma tsafe_OS_Sched: "kok s \<Longrightarrow> flags_ok s \<Longrightarrow> tasks_ok s \<Longrightarrow> tsafe (OS_Sched s)"
  by (simp add: fsafe_OS_Sched tasks_OS_Sched)

lemma tsafeD: "tsafe s \<Longrightarrow> kinv s" "tsafe s \<Longrightarrow> evlist_ok s" "tsafe s \<Longrightarrow> cur_ok s" "tsafe s \<Longrightarrow> sched_ok s"
  "tsafe s \<Longrightarrow> flags_ok s" "tsafe s \<Longrightarrow> tasks_ok s"
  by (simp_all add: kok_def)

lemma suspend_ok:
  assumes ok: "tsafe s" and li: "live s i" and idle: "prio s i \<noteq> 63"
    and s1: "s1 = upd_tcb i (\<lambda>t. t\<lparr>OSTCBStat := OSTCBStat t OR OS_STAT_SUSPEND\<rparr>) (rdy_clear (tcb s i) s)"
  shows "kok s1" "flags_ok s1" "tasks_ok s1" "rdyset s1 = rdyset s - {prio s i}"
    "OSTCBStat (tcb s1 i) = OSTCBStat (tcb s i) OR OS_STAT_SUSPEND" "i \<noteq> cur s \<Longrightarrow> sched_ok s1"
proof -
  note k = tsafeD [OF ok]
  note b = stat_suspend_bits [OF kinv_stat_bits [OF k(1) li]]
  have t: "OSTCBTbl s1 = (OSTCBTbl s)(i := (tcb s i)\<lparr>OSTCBStat := OSTCBStat (tcb s i) OR OS_STAT_SUSPEND\<rparr>)"
    unfolding s1 by (rule suspend_tcb)
  have f: "OSTCBPrioTbl s1 = OSTCBPrioTbl s" "OSEventTbl_arr s1 = OSEventTbl_arr s" "OSFlagTbl s1 = OSFlagTbl s"
    "OSFlagNodes s1 = OSFlagNodes s" "OSFlagFreeList s1 = OSFlagFreeList s" "OSTCBList s1 = OSTCBList s"
    "OSTCBFreeList s1 = OSTCBFreeList s" "OSEventFreeList s1 = OSEventFreeList s" "OSRunning s1 = OSRunning s"
    "OSTCBCur s1 = OSTCBCur s" "OSPrioCur s1 = OSPrioCur s" "OSIntNesting s1 = OSIntNesting s" "OSLockNesting s1 = OSLockNesting s"
    by (simp_all add: s1)
  have rb: "rdy_bm s1 = bm_del (prio s i) (rdy_bm s)"
    using rdy_bm_clear [OF kinv_wf [OF k(1) li], of s] by (simp add: s1)
  have p64: "prio s i < 64" using li by (simp add: live_def)
  have bok: "bm_ok (rdy_bm s1)" using kinv_rdy [OF k(1)] p64 by (simp add: rb bm.invar_del)
  have rq: "q \<in> rdyset s1 \<longleftrightarrow> (if q = prio s i then OSTCBStat (tcb s i) OR OS_STAT_SUSPEND = 0 \<and> OSTCBDly (tcb s i) = 0
      else q \<in> rdyset s)" for q using b(3) by (auto simp: rdyset_def rb bm.elems_del)
  note sc = stat_change [OF k(1) li t b(1,2) f(1,2) bok rq idle]
  have "kinv s1" by (rule sc(1))
  moreover have "evlist_ok s1" using k(2) by (rule evlist_frame) (simp_all add: f)
  moreover have "cur_ok s1" using k(3) by (rule cur_ok_core) (simp_all add: f t)
  ultimately show "kok s1" by (rule kokI)
  show "flags_ok s1" by (rule sc(2) [OF k(5) f(3-5)])
  show "tasks_ok s1" using k(6) by (rule tasks_frame) (simp_all add: f t)
  show r: "rdyset s1 = rdyset s - {prio s i}" by (simp add: rdyset_def rb bm.elems_del)
  show "OSTCBStat (tcb s1 i) = OSTCBStat (tcb s i) OR OS_STAT_SUSPEND" by (simp add: t)
  show "sched_ok s1" if "i \<noteq> cur s"
  proof -
    have fin: "finite (rdyset s)" by (simp add: rdyset_def)
    have ne: "prio s i \<noteq> unat (OSPrioCur s)"
      using live_inj [OF li cur_ok_live(1) [OF k(3)]] cur_ok_live(2) [OF k(3)] that by auto
    have "Min (rdyset s - {prio s i}) = Min (rdyset s)" if m: "unat (OSPrioCur s) = Min (rdyset s)"
      using ne m kinv_Min_in [OF k(1)] fin by (intro Min_eqI) auto
    then show ?thesis using k(4) by (simp add: sched_ok_def f r)
  qed
qed

lemma resume_ok:
  assumes ok: "tsafe s" and li: "live s i" and idle: "prio s i \<noteq> 63" and slot: "OSTCBPrioTbl s (unat p) = Tcb i"
    and su: "OSTCBStat (tcb s i) AND OS_STAT_SUSPEND \<noteq> 0"
  shows "fst (OSTaskResume p s) = OS_ERR_NONE" "tsafe (snd (OSTaskResume p s))"
    "OSTCBStat (tcb (snd (OSTaskResume p s)) i) = OSTCBStat (tcb s i) AND NOT OS_STAT_SUSPEND"
    "rdyset (snd (OSTaskResume p s)) = (if OSTCBStat (tcb s i) AND NOT OS_STAT_SUSPEND = 0 \<and> OSTCBDly (tcb s i) = 0
       then insert (prio s i) (rdyset s) else rdyset s)"
proof -
  note k = tsafeD [OF ok]
  note b = stat_suspend_bits [OF kinv_stat_bits [OF k(1) li]]
  let ?st = "OSTCBStat (tcb s i) AND NOT OS_STAT_SUSPEND"
  let ?c = "?st = 0 \<and> OSTCBDly (tcb s i) = 0"
  define s0 where "s0 = upd_tcb i (\<lambda>t. t\<lparr>OSTCBStat := OSTCBStat t AND NOT OS_STAT_SUSPEND\<rparr>) s"
  define s1 where "s1 = (if ?c then rdy_set (tcb s0 i) s0 else s0)"
  have t0: "OSTCBTbl s0 = (OSTCBTbl s)(i := (tcb s i)\<lparr>OSTCBStat := ?st\<rparr>)" by (simp add: s0_def upd_tcb_def)
  have run: "OSRunning s0" using k(3) by (simp add: s0_def cur_ok_def)
  have e: "OSTaskResume p s = (OS_ERR_NONE, if ?c then OS_Sched s1 else s1)"
    using slot su run by (auto simp: OSTaskResume_def s1_def s0_def upd_tcb_def sched_if_running_def rdy_set_def set_rdy_def Let_def)
  then show "fst (OSTaskResume p s) = OS_ERR_NONE" by simp
  have t: "OSTCBTbl s1 = (OSTCBTbl s)(i := (tcb s i)\<lparr>OSTCBStat := ?st\<rparr>)" by (simp add: s1_def t0)
  have f: "OSTCBPrioTbl s1 = OSTCBPrioTbl s" "OSEventTbl_arr s1 = OSEventTbl_arr s" "OSFlagTbl s1 = OSFlagTbl s"
    "OSFlagNodes s1 = OSFlagNodes s" "OSFlagFreeList s1 = OSFlagFreeList s" "OSTCBList s1 = OSTCBList s"
    "OSTCBFreeList s1 = OSTCBFreeList s" "OSEventFreeList s1 = OSEventFreeList s" "OSRunning s1 = OSRunning s"
    "OSTCBCur s1 = OSTCBCur s" "OSPrioCur s1 = OSPrioCur s" "OSIntNesting s1 = OSIntNesting s" "OSLockNesting s1 = OSLockNesting s"
    by (simp_all add: s1_def s0_def rdy_set_def set_rdy_def)
  have nr: "prio s i \<notin> rdyset s" using kinv_ready_iff [OF k(1) li] su by auto
  have wf: "wf_tcb (tcb s0 i)" using kinv_wf [OF k(1) li] by (simp add: t0)
  have p0: "prio s0 i = prio s i" "rdy_bm s0 = rdy_bm s" by (simp_all add: t0) (simp add: s0_def)
  have ri: "rdy_bm s1 = (if ?c then bm_ins (prio s i) (rdy_bm s) else rdy_bm s)"
    using rdy_bm_set [OF wf, of s0] by (simp add: s1_def p0)
  have p64: "prio s i < 64" using li by (simp add: live_def)
  have bok: "bm_ok (rdy_bm s1)" using kinv_rdy [OF k(1)] p64 by (simp add: ri bm.invar_ins)
  have r: "rdyset s1 = (if ?c then insert (prio s i) (rdyset s) else rdyset s)"
    using p64 by (simp add: rdyset_def ri bm.elems_ins)
  have rq: "q \<in> rdyset s1 \<longleftrightarrow> (if q = prio s i then ?c else q \<in> rdyset s)" for q using nr by (auto simp: r)
  note sc = stat_change [OF k(1) li t b(4,5) f(1,2) bok rq idle]
  have "evlist_ok s1" using k(2) by (rule evlist_frame) (simp_all add: f)
  moreover have "cur_ok s1" using k(3) by (rule cur_ok_core) (simp_all add: f t)
  ultimately have kk: "kok s1" using sc(1) by (simp add: kok_def)
  have fl: "flags_ok s1" using k(5) f(3-5) by (rule sc(2))
  have ta: "tasks_ok s1" using k(6) by (rule tasks_frame) (simp_all add: f t)
  have "sched_ok s1" if "\<not> ?c" using k(4) that by (auto simp: sched_ok_def f r)
  then show "tsafe (snd (OSTaskResume p s))" using tsafe_OS_Sched [OF kk fl ta] kk fl ta unfolding e by auto
  show "OSTCBStat (tcb (snd (OSTaskResume p s)) i) = ?st" "rdyset (snd (OSTaskResume p s)) =
      (if ?c then insert (prio s i) (rdyset s) else rdyset s)"
    unfolding e using r by (simp_all add: t)
qed

end
