(* ===== verification/OsTaskProps.thy ===== *)
theory OsTaskProps
  imports OsTask
begin

text \<open>
  What the services of os_task.c promise, on top of the lemmas of \<open>OsTask\<close>: creation, deletion,
  suspension, the change of a priority and the check of a stack.
\<close>

section \<open>An example\<close>

definition tex :: os where
  "tex = OS_FlagInit (ex_os OS_EVENT_TYPE_SEM 0 PNull True)"

lemma FlagInit_frame [simp]:
  "OSTCBTbl (OS_FlagInit s) = OSTCBTbl s" "OSTCBPrioTbl (OS_FlagInit s) = OSTCBPrioTbl s"
  "OSTCBFreeList (OS_FlagInit s) = OSTCBFreeList s" "OSTCBList (OS_FlagInit s) = OSTCBList s"
  "OSIntNesting (OS_FlagInit s) = OSIntNesting s" "OSLockNesting (OS_FlagInit s) = OSLockNesting s"
  "OSPrioCur (OS_FlagInit s) = OSPrioCur s" "OSTCBCur (OS_FlagInit s) = OSTCBCur s" "rdy_bm (OS_FlagInit s) = rdy_bm s"
  "OSEventTbl_arr (OS_FlagInit s) = OSEventTbl_arr s" "OSStkMem (OS_FlagInit s) = OSStkMem s"
  "OSRunning (OS_FlagInit s) = OSRunning s"
  by (simp_all add: OS_FlagInit_def Let_def rdy_bm_def)

lemma tex_facts:
  "tsafe tex" "OSTCBPrioTbl tex = (\<lambda>_. NoTcb)(63 := Tcb 0, 5 := Tcb 1, 10 := Tcb 2)" "OSTCBFreeList tex = Some 3"
  "OSIntNesting tex = 0" "OSLockNesting tex = 0" "OSPrioCur tex = 5" "cur tex = 1" "rdyset tex = {5, 63}"
  "live tex i \<longleftrightarrow> i < 3" "prio tex 1 = 5" "prio tex 2 = 10" "wset tex e = (if e = 0 then {10} else {})"
  "OSTCBTbl tex = OSTCBTbl (ex_os OS_EVENT_TYPE_SEM 0 PNull True)" "OSStkMem tex = (\<lambda>_. 0)"
proof -
  let ?x = "ex_os OS_EVENT_TYPE_SEM 0 PNull True"
  have m: "stat_mask OS_EVENT_TYPE_SEM \<noteq> 0" by (simp add: stat_mask_def)
  show p: "OSTCBPrioTbl tex = (\<lambda>_. NoTcb)(63 := Tcb 0, 5 := Tcb 1, 10 := Tcb 2)" "OSTCBFreeList tex = Some 3"
    "OSStkMem tex = (\<lambda>_. 0)"
    by (simp_all add: tex_def ex_os_def os_bss_def)
  show t: "OSTCBTbl tex = OSTCBTbl ?x" by (simp add: tex_def)
  show "OSIntNesting tex = 0" "OSLockNesting tex = 0" "OSPrioCur tex = 5" by (simp_all add: tex_def ex_fields)
  show "prio tex 1 = 5" "prio tex 2 = 10" unfolding t by (simp_all add: ex_fields)
  show "cur tex = 1" by (simp add: cur_def tex_def ex_fields)
  show "rdyset tex = {5, 63}" using ex_rdyset [of OS_EVENT_TYPE_SEM 0 PNull True] by (simp add: rdyset_def tex_def)
  show "wset tex e = (if e = 0 then {10} else {})" using ex_wset [of OS_EVENT_TYPE_SEM 0 PNull True e] by (simp add: wset_def tex_def)
  show l: "live tex i \<longleftrightarrow> i < 3" for i using ex_live [of OS_EVENT_TYPE_SEM 0 PNull True i] by (simp add: live_def tex_def)
  have "OSTCBFlagNode (tcb ?x j) = None \<and> OSTCBStat (tcb ?x j) AND OS_STAT_FLAG = 0" if "live ?x j" for j
    using that less_3_cases [of j] by (auto simp: ex_live ex_tcbs ex_tcb_def tcb_zero_def stat_mask_def)
  then have "flags_ok tex" unfolding tex_def by (rule flags_ok_init)
  moreover have "same_kernel ?x tex" by (simp add: same_kernel_def tex_def OS_FlagInit_def Let_def)
  then have "ksafe tex" using ex_safe [OF m] same_kernel_safe by simp
  moreover have "tlist_ok tex" using ex_tlist [of OS_EVENT_TYPE_SEM 0 PNull True] by (rule tlist_frame) (simp_all add: tex_def)
  moreover have "tfree_ok tex" unfolding tfree_ok_def
    by (intro exI [of _ "[3, 4, 5, 6, 7, 8, 9, 10, 11]"]) (simp add: p t l, simp add: ex_os_def)
  ultimately show "tsafe tex" by (simp add: tasks_ok_def l)
qed

section \<open>Creating and deleting tasks\<close>

lemma create_tail_frame:
  assumes "OSTCBFreeList s = Some i" "create_tail p psp pb t k y o' m s = (err, s')"
  shows "OSIntNesting s' = OSIntNesting s" "OSLockNesting s' = OSLockNesting s" "OSTCBPrioTbl s' = (OSTCBPrioTbl s)(unat p := Tcb i)"
  using assms
  by (auto simp: create_tail_def OS_TCBInit_def set_slot_def Let_def sched_if_running_def rdy_set_def set_rdy_def split: option.splits)

lemma create_tail_none:
  assumes "OSTCBPrioTbl s (unat p) = NoTcb" "OSTCBFreeList s = None"
  shows "create_tail p psp pb t k y o' m s = (OS_ERR_TASK_NO_MORE_TCB, s\<lparr>OSStkMem := m\<rparr>)"
proof -
  have "(OSTCBPrioTbl s)(unat p := NoTcb) = OSTCBPrioTbl s" using assms by auto
  then show ?thesis using assms by (simp add: create_tail_def OS_TCBInit_def set_slot_def Let_def)
qed

text \<open>\<open>OSTaskCreateExt\<close> with a free priority and a free control block succeeds: the new task
  exists at its priority, is ready, the kernel's invariants hold, the other tasks are as they
  were, and when the scheduler is unlocked and the new task has a higher priority than
  the caller it runs at once.\<close>

theorem task_create_ready:
  assumes "tsafe s" "OSTCBPrioTbl s (unat p) = NoTcb" "unat p < 64" "OSTCBFreeList s = Some i" "OSIntNesting s = 0"
    and r: "OSTaskCreateExt fpu ret task arg ptos p tid pbos n x opt s = (err, s')"
  shows "err = OS_ERR_NONE \<and> tsafe s' \<and> \<not> live s i \<and> live s' i \<and> prio s' i = unat p \<and>
    rdyset s' = insert (unat p) (rdyset s) \<and>
    (\<forall>j. j \<noteq> i \<longrightarrow> live s' j = live s j \<and> same_core (tcb s j) (tcb s' j)) \<and>
    (OSLockNesting s = 0 \<and> p < OSPrioCur s \<longrightarrow> OSTCBCur s' = Some i)"
  using create_tail_ok [OF assms(1-5) r [unfolded create_tails(2) [OF assms(5,2)]]] by blast

theorem task_create_ready_witness:
  "live (snd (OSTaskCreateExt False 0 32768 0 100 4 1 37 64 PNull 3 tex)) 3 \<and>
   OSTCBCur (snd (OSTaskCreateExt False 0 32768 0 100 4 1 37 64 PNull 3 tex)) = Some 3"
  using task_create_ready [OF tex_facts(1), where p = 4 and i = 3 and fpu = False and ret = 0 and task = 32768 and arg = 0 and
    ptos = 100 and tid = 1 and pbos = 37 and n = 64 and x = PNull and opt = 3] tex_facts(2-6)
  by (cases "OSTaskCreateExt False 0 32768 0 100 4 1 37 64 PNull 3 tex") simp

text \<open>The error paths of \<open>OSTaskCreate\<close> and \<open>OSTaskCreateExt\<close>: in an interrupt handler and for a
  priority in use nothing changes; without a free control block the reservation of the
  priority is undone and nothing but the memory of the stacks differs.\<close>

theorem task_create_errors:
  "(0 < OSIntNesting s \<longrightarrow> OSTaskCreate fpu ret task arg ptos p s = (OS_ERR_TASK_CREATE_ISR, s) \<and>
      OSTaskCreateExt fpu ret task arg ptos p tid pbos n x opt s = (OS_ERR_TASK_CREATE_ISR, s)) \<and>
   (OSIntNesting s = 0 \<and> OSTCBPrioTbl s (unat p) \<noteq> NoTcb \<longrightarrow> OSTaskCreate fpu ret task arg ptos p s = (OS_ERR_PRIO_EXIST, s) \<and>
      OSTaskCreateExt fpu ret task arg ptos p tid pbos n x opt s = (OS_ERR_PRIO_EXIST, s)) \<and>
   (OSIntNesting s = 0 \<and> OSTCBPrioTbl s (unat p) = NoTcb \<and> OSTCBFreeList s = None \<longrightarrow>
      (\<exists>m m'. OSTaskCreate fpu ret task arg ptos p s = (OS_ERR_TASK_NO_MORE_TCB, s\<lparr>OSStkMem := m\<rparr>) \<and>
         OSTaskCreateExt fpu ret task arg ptos p tid pbos n x opt s = (OS_ERR_TASK_NO_MORE_TCB, s\<lparr>OSStkMem := m'\<rparr>)))"
  by (auto simp: create_tails create_tail_none) (simp_all add: OSTaskCreate_def OSTaskCreateExt_def)

theorem task_create_errors_witness:
  "OSTaskCreate False 0 0 0 100 10 tex = (OS_ERR_PRIO_EXIST, tex)"
  using task_create_errors [of tex False 0 0 0 100 10] tex_facts(2,4) by simp

text \<open>The state \<open>OSTaskDel\<close> leaves, for a task that owns one entry of the priority table.\<close>

lemma task_del_ok:
  assumes ok: "tsafe s" and nest: "OSIntNesting s = 0" and p: "p \<noteq> OS_TASK_IDLE_PRIO" and lk: "OSLockNesting s < 255"
    and sl: "OSTCBPrioTbl s (unat (self_prio p s)) = Tcb i" and one: "one_slot s i"
    and idle: "prio s i \<noteq> 63" and self: "i = cur s \<Longrightarrow> OSLockNesting s = 0"
    and r: "OSTaskDel p s = (err, s')"
  shows "err = OS_ERR_NONE" "tsafe s'" "\<not> live s' i" "OSTCBPrioTbl s' = (OSTCBPrioTbl s)(prio s i := NoTcb)"
    "OSTCBFreeList s' = Some i" "rdyset s' = rdyset s - {prio s i}" "wset s' e = wset s e - {prio s i}"
    "\<And>j. j \<noteq> i \<Longrightarrow> live s' j = live s j" "\<And>j. j \<noteq> i \<Longrightarrow> same_core (tcb s j) (tcb s' j)"
    "OSTCBCur s' \<noteq> Some i"
proof -
  note k = tsafeD [OF ok]
  have li: "live s i" using kinv_slot [OF k(1) sl] .
  have sp: "self_prio p s = OSTCBPrio (tcb s i)" using one_slotD [OF one sl] by (simp add: word_unat_eq_iff)
  define d where "d = del_unlink (OSTCBPrio (tcb s i)) i (del_quiet i s)"
  note c = task_del_core [OF k(1,6,5,2) li one idle d_def]
  have run: "OSRunning d" using k(3) c(12) by (simp add: cur_ok_def)
  have e: "err = OS_ERR_NONE" "s' = OS_Sched d"
    using r OSTaskDel_eq [OF nest p sl lk] run by (simp_all add: sp sched_if_running_def flip: d_def)
  have cs: "cur_ok s' \<and> sched_ok s'"
  proof (cases "i = cur s")
    case True
    have "s' = os_switch d" using e self [OF True] nest c(15,16) by (simp add: OS_Sched_def)
    moreover have "unat (OSPrioCur d) \<notin> rdyset d" using cur_ok_live(2) [OF k(3)] True by (simp add: c(7,14))
    ultimately show ?thesis using os_switch_cur [OF c(1) run] by blast
  next
    case False
    then have "cur_ok d" using k(3) c(6) [of "cur s"] c(8) [of "cur s"] c(12-14)
      by (auto simp: cur_ok_def cur_def same_core_def)
    then show ?thesis using OS_Sched_cur [OF c(1)] by (simp add: e)
  qed
  show "err = OS_ERR_NONE" by (rule e)
  show "tsafe s'" using cs kinv_OS_Sched [OF c(1)] evlist_OS_Sched [OF c(4)] flags_ok_OS_Sched [OF c(3)] tasks_OS_Sched [OF c(2)]
    by (simp add: e kok_def)
  show nl: "\<not> live s' i" using c(5) by (simp add: e live_def)
  show "OSTCBPrioTbl s' = (OSTCBPrioTbl s)(prio s i := NoTcb)" "OSTCBFreeList s' = Some i" "rdyset s' = rdyset s - {prio s i}"
    "wset s' e = wset s e - {prio s i}" using c(7,9,10,11) by (simp_all add: e)
  show "live s' j = live s j" if "j \<noteq> i" for j using c(6) [OF that] by (simp add: e live_def)
  show "same_core (tcb s j) (tcb s' j)" if "j \<noteq> i" for j
    using c(8) [OF that] OS_Sched_core [of d j] by (simp add: e same_core_def)
  show "OSTCBCur s' \<noteq> Some i" using cs nl by (auto simp: cur_ok_def)
qed

text \<open>C13. \<open>OSTaskDel\<close>, called by a task (not an interrupt handler) while the scheduler is locked less than 255 times, removes a task, the caller itself
  or another one, except the idle task: afterwards it is not in the priority
  table, not ready and on no wait list, its control block is the first of the free list, the
  other tasks are as they were, it is not the running task, and the kernel's invariants hold. A task that deletes
  itself has not locked the scheduler; and the task deleted has one entry in the priority table only, its own: it is not the owner of a
  mutex that has been raised to the ceiling, which the table gives that task as well.\<close>

theorem task_del_removes:
  assumes "tsafe s" "OSIntNesting s = 0" "p \<noteq> OS_TASK_IDLE_PRIO" "OSLockNesting s < 255"
    "OSTCBPrioTbl s (unat (self_prio p s)) = Tcb i" "one_slot s i"
    "prio s i \<noteq> 63" "i = cur s \<Longrightarrow> OSLockNesting s = 0" "OSTaskDel p s = (err, s')"
  shows "err = OS_ERR_NONE \<and> tsafe s' \<and> \<not> live s' i \<and> OSTCBPrioTbl s' (prio s i) = NoTcb \<and>
    OSTCBFreeList s' = Some i \<and> prio s i \<notin> rdyset s' \<and> (\<forall>e. prio s i \<notin> wset s' e) \<and> OSTCBCur s' \<noteq> Some i \<and>
    (\<forall>j. j \<noteq> i \<longrightarrow> live s' j = live s j \<and> same_core (tcb s j) (tcb s' j))"
  using task_del_ok [OF assms] by simp

theorem task_del_removes_witness:
  "\<not> live (snd (OSTaskDel OS_PRIO_SELF tex)) 1 \<and> OSTCBCur (snd (OSTaskDel OS_PRIO_SELF tex)) \<noteq> Some 1"
proof -
  have sp: "self_prio OS_PRIO_SELF tex = 5" using tex_facts(7) ex_fields(8) [of OS_EVENT_TYPE_SEM 0 PNull True]
    by (simp add: self_prio_def tex_facts(13))
  show ?thesis
    using task_del_removes [OF tex_facts(1) tex_facts(4), of OS_PRIO_SELF 1, OF _ _ _ _ _ tex_facts(5) surjective_pairing]
      tex_facts(2,5,10) sp by (simp add: one_slot_def)
qed

text \<open>Deleting a task that has just been created takes the kernel back: the same tasks exist, the
  same are ready, and the control block is again the first of the free list.\<close>

theorem task_create_del:
  assumes ok: "tsafe s" and sl: "OSTCBPrioTbl s (unat p) = NoTcb" and p: "unat p < 63" and i: "OSTCBFreeList s = Some i"
    and nest: "OSIntNesting s = 0" "OSLockNesting s = 0"
    and r: "OSTaskCreate fpu ret task arg ptos p s = (e1, s1)" and d: "OSTaskDel p s1 = (e2, s2)"
  shows "e1 = OS_ERR_NONE \<and> e2 = OS_ERR_NONE \<and> tsafe s2 \<and> live s2 = live s \<and> rdyset s2 = rdyset s \<and>
    OSTCBPrioTbl s2 = OSTCBPrioTbl s \<and> OSTCBFreeList s2 = Some i"
proof -
  have p64: "unat p < 64" using p by simp
  note c = create_tail_ok [OF ok sl p64 i nest(1) r [unfolded create_tails(1) [OF nest(1) sl]]]
  have f: "OSIntNesting s1 = 0" "OSLockNesting s1 = 0" "OSTCBPrioTbl s1 = (OSTCBPrioTbl s)(unat p := Tcb i)"
    using create_tail_frame [OF i r [unfolded create_tails(1) [OF nest(1) sl]]] nest by simp_all
  have np: "p \<noteq> OS_TASK_IDLE_PRIO" "p \<noteq> OS_PRIO_SELF" using p by auto
  have one: "one_slot s1 i"
    using c(4,7) kinv_slot [OF tsafeD(1) [OF ok], of _ i] by (auto simp: one_slot_def f split: if_splits)
  have s1: "OSTCBPrioTbl s1 (unat (self_prio p s1)) = Tcb i" using np by (simp add: f self_prio_def)
  have lk: "OSLockNesting s1 < 255" "prio s1 i \<noteq> 63" using p by (simp_all add: f c(4))
  note dd = task_del_ok [OF c(2) f(1) np(1) lk(1) s1 one lk(2) f(2) d]
  have nl: "\<not> live s2 i" using dd(3) .
  have "live s2 j = live s j" for j using nl c(7) dd(8) [of j] c(9) [of j] by (cases "j = i") auto
  moreover have "unat p \<notin> rdyset s" using no_prio(2) [OF tsafeD(1) [OF ok]] sl by simp
  moreover have "(OSTCBPrioTbl s1)(unat p := NoTcb) = OSTCBPrioTbl s" using sl by (auto simp: f)
  ultimately show ?thesis using c(1,4,6) dd(1,2,4,5,6) by auto
qed

theorem task_create_del_witness:
  "live (snd (OSTaskDel 7 (snd (OSTaskCreate True 0 0 0 100 7 tex)))) = live tex"
  using task_create_del [OF tex_facts(1), of 7 3, OF _ _ tex_facts(3) tex_facts(4,5) surjective_pairing surjective_pairing,
    of True 0 0 0 100] tex_facts(2) by simp

section \<open>Suspending and resuming\<close>

lemma task_suspend_ok:
  assumes ok: "tsafe s" and sl: "OSTCBPrioTbl s (unat (self_prio p s)) = Tcb i" and one: "one_slot s i" and idle: "prio s i \<noteq> 63"
    and r: "OSTaskSuspend p s = (err, s')"
  shows "err = OS_ERR_NONE" "tsafe s'" "rdyset s' = rdyset s - {prio s i}"
    "OSTCBStat (tcb s' i) = OSTCBStat (tcb s i) OR OS_STAT_SUSPEND" "OSTCBPrioTbl s' = OSTCBPrioTbl s"
    "OSTCBDly (tcb s' i) = OSTCBDly (tcb s i)" "prio s' i = prio s i"
proof -
  note k = tsafeD [OF ok]
  have li: "live s i" using kinv_slot [OF k(1) sl] .
  define s1 where "s1 = upd_tcb i (\<lambda>t. t\<lparr>OSTCBStat := OSTCBStat t OR OS_STAT_SUSPEND\<rparr>) (rdy_clear (tcb s i) s)"
  note s = suspend_ok [OF ok li idle s1_def]
  have sp: "self_prio p s = OSTCBPrio (tcb s i)" using one_slotD [OF one sl] by (simp add: word_unat_eq_iff)
  have me: "(p = OS_PRIO_SELF \<or> p = OSTCBPrio (tcb s (cur s))) \<longleftrightarrow> i = cur s"
    using sp live_inj [OF li cur_ok_live(1) [OF k(3)]] by (auto simp: self_prio_def split: if_splits)
  have e: "err = OS_ERR_NONE" "s' = (if i = cur s then OS_Sched s1 else s1)"
    using r sl unfolding OSTaskSuspend_def Let_def me s1_def by auto
  show "err = OS_ERR_NONE" by (rule e)
  show "tsafe s'" using s(1-3,6) tsafe_OS_Sched [OF s(1-3)] by (auto simp: e)
  show "rdyset s' = rdyset s - {prio s i}" "OSTCBStat (tcb s' i) = OSTCBStat (tcb s i) OR OS_STAT_SUSPEND"
    using s(4,5) by (auto simp: e)
  have t: "OSTCBTbl s1 = (OSTCBTbl s)(i := (tcb s i)\<lparr>OSTCBStat := OSTCBStat (tcb s i) OR OS_STAT_SUSPEND\<rparr>)"
    unfolding s1_def by (rule suspend_tcb)
  show "OSTCBDly (tcb s' i) = OSTCBDly (tcb s i)" "prio s' i = prio s i" by (simp_all add: e t)
  show "OSTCBPrioTbl s' = OSTCBPrioTbl s" by (simp add: e s1_def)
qed

lemma suspend_bit_clear:
  assumes "(st::u8) AND 8 = 0"
  shows "(st OR 8) AND NOT 8 = st" "(st OR 8) AND 8 = 8"
proof -
  have "st AND NOT 8 = st" using assms by (metis bit.compl_one bit.conj_cancel_right bit.conj_disj_distrib bit.disj_cancel_right and.right_neutral or.left_neutral)
  then show "(st OR 8) AND NOT 8 = st" by (simp add: bit.conj_disj_distrib2)
  show "(st OR 8) AND 8 = 8" using assms by (simp add: bit.conj_disj_distrib2)
qed

text \<open>\<open>OSTaskSuspend\<close> takes a task off the ready list and \<open>OSTaskResume\<close> puts it back exactly as it was,
  whether it was ready, delayed or waiting: status, delay and set of ready tasks are those of
  before the suspension, and the kernel's invariants hold in between and afterwards.\<close>

theorem task_suspend_resume:
  assumes ok: "tsafe s" and sl: "OSTCBPrioTbl s (unat (self_prio p s)) = Tcb i" and one: "one_slot s i" and idle: "prio s i \<noteq> 63"
    and ns: "OSTCBStat (tcb s i) AND OS_STAT_SUSPEND = 0"
    and r: "OSTaskSuspend p s = (e1, s1)" and q: "OSTaskResume (self_prio p s) s1 = (e2, s2)"
  shows "e1 = OS_ERR_NONE \<and> tsafe s1 \<and> rdyset s1 = rdyset s - {prio s i} \<and> e2 = OS_ERR_NONE \<and> tsafe s2 \<and>
    rdyset s2 = rdyset s \<and> OSTCBStat (tcb s2 i) = OSTCBStat (tcb s i)"
proof -
  note s = task_suspend_ok [OF ok sl one idle r]
  note b = suspend_bit_clear [OF ns]
  have sl1: "OSTCBPrioTbl s1 (unat (self_prio p s)) = Tcb i" using sl by (simp add: s)
  have l1: "live s1 i" using kinv_slot [OF tsafeD(1) [OF s(2)] sl1] .
  have st: "OSTCBStat (tcb s1 i) AND OS_STAT_SUSPEND \<noteq> 0" "OSTCBStat (tcb s1 i) AND NOT OS_STAT_SUSPEND = OSTCBStat (tcb s i)"
    unfolding s(4) using b by simp_all
  have i1: "prio s1 i \<noteq> 63" using idle s(7) by simp
  note u = resume_ok [OF s(2) l1 i1 sl1 st(1), unfolded q fst_conv snd_conv st(2) s(6,7)]
  have "rdyset s2 = rdyset s"
    unfolding u(4) s(3) using kinv_ready_iff [OF tsafeD(1) [OF ok] kinv_slot [OF tsafeD(1) [OF ok] sl]] by auto
  then show ?thesis using s(1-3) u(1-3) by blast
qed

theorem task_suspend_resume_witness:
  "rdyset (snd (OSTaskResume 5 (snd (OSTaskSuspend 5 tex)))) = {5, 63} \<and> 5 \<notin> rdyset (snd (OSTaskSuspend 5 tex))"
proof -
  have sp: "self_prio 5 tex = 5" by (simp add: self_prio_def)
  have st: "OSTCBStat (tcb tex 1) AND OS_STAT_SUSPEND = 0" by (simp add: tex_facts(13) ex_tcbs)
  show ?thesis
    using task_suspend_resume [OF tex_facts(1), of 5 1, unfolded sp, OF _ _ _ st surjective_pairing surjective_pairing]
      tex_facts(2,8,10) by (simp add: one_slot_def)
qed

section \<open>Checking a stack\<close>

lemma stk_scan_count:
  assumes "\<And>k. k < n \<Longrightarrow> m (b + k) = 0" "m (b + n) \<noteq> 0"
  shows "stk_scan m b c = Some (c + of_nat n)"
  using assms
proof (induction n arbitrary: b c)
  case 0
  then show ?case by (subst stk_scan.simps) simp
next
  case (Suc n)
  have "stk_scan m (b + 1) (c + 1) = Some (c + 1 + of_nat n)"
    using Suc.prems(1) [of "Suc _"] Suc.prems(2) by (intro Suc.IH) simp_all
  then show ?case using Suc.prems(1) [of 0] by (subst stk_scan.simps) (simp add: add.assoc)
qed

lemma stk_clr_apply: "stk_clr b n m k = (if b \<le> k \<and> k < b + n then 0 else m k)"
  by (induction n arbitrary: b m) auto

lemma push_words_below: "length ws \<le> stk \<Longrightarrow> k < stk - length ws \<Longrightarrow> snd (push_words ws stk m) k = m k"
  by (induction ws arbitrary: stk m) auto

lemma push_words_apply:
  assumes "length ws \<le> stk"
  shows "fst (push_words ws stk m) = stk - length ws" "ws \<noteq> [] \<Longrightarrow> snd (push_words ws stk m) (stk - length ws) = last ws"
proof -
  show "fst (push_words ws stk m) = stk - length ws" by (induction ws arbitrary: stk m) simp_all
  show "ws \<noteq> [] \<Longrightarrow> snd (push_words ws stk m) (stk - length ws) = last ws"
    using assms
  proof (induction ws arbitrary: stk m)
    case (Cons w ws)
    have "snd (push_words ws (stk - 1) (m(stk - 1 := w))) (stk - 1 - length ws) = last ws" if "ws \<noteq> []"
      using Cons.prems that by (intro Cons.IH) simp_all
    then show ?case by (cases "ws = []") simp_all
  qed simp
qed

lemma push_words_append:
  "push_words (xs @ ys) stk m = push_words ys (fst (push_words xs stk m)) (snd (push_words xs stk m))"
  by (induction xs arbitrary: stk m) simp_all

definition ctx_words :: "u32 \<Rightarrow> u32 \<Rightarrow> u32 \<Rightarrow> u32 list" where
  "ctx_words ret task arg = [task, ret, 0x12121212, 0x03030303, 0x02020202, 0x01010101, arg] @
      [0x11111111, 0x10101010, 0x09090909, 0x08080808, 0x07070707, 0x06060606, 0x05050505, 0x04040404]"

lemma StkInit_push:
  "OSTaskStkInit False ret task arg ptos m = push_words (ctx_words ret task arg) ptos (m(ptos := 0x01000000))"
  unfolding OSTaskStkInit_def Let_def push_words_append ctx_words_def by (simp add: split_beta del: push_words.simps)

text \<open>Below the words of the first context nothing is written, and the last word pushed is the value of R4.\<close>

lemma StkInit_shape:
  assumes "15 \<le> ptos"
  shows "fst (OSTaskStkInit False ret task arg ptos m) = ptos - 15"
    "k < ptos - 15 \<Longrightarrow> snd (OSTaskStkInit False ret task arg ptos m) k = m k"
    "snd (OSTaskStkInit False ret task arg ptos m) (ptos - 15) = 0x04040404"
proof -
  have w: "length (ctx_words ret task arg) = 15" "last (ctx_words ret task arg) = 0x04040404" "ctx_words ret task arg \<noteq> []"
    by (simp_all add: ctx_words_def)
  note a = push_words_apply [where ws = "ctx_words ret task arg" and m = "m(ptos := 0x01000000)", unfolded w(1,2), OF assms]
  show "fst (OSTaskStkInit False ret task arg ptos m) = ptos - 15"
    "snd (OSTaskStkInit False ret task arg ptos m) (ptos - 15) = 0x04040404"
    unfolding StkInit_push using a w(3) by simp_all
  show "k < ptos - 15 \<Longrightarrow> snd (OSTaskStkInit False ret task arg ptos m) k = m k"
    unfolding StkInit_push using push_words_below [where ws = "ctx_words ret task arg", unfolded w(1), OF assms] by auto
qed

text \<open>\<open>OSTaskStkChk\<close> on a task just created with its stack cleared is exact: of a stack of \<open>n\<close> words
  (at least the 16 of the first context) it reports the 16 words that \<open>OSTaskStkInit\<close> wrote as
  used and all the others as free, in bytes; the scan of the stack ends.\<close>

theorem stk_chk_exact:
  assumes ok: "tsafe s" and sl: "OSTCBPrioTbl s (unat p) = NoTcb" and p: "unat p < 64" and i: "OSTCBFreeList s = Some i"
    and nest: "OSIntNesting s = 0" and n: "16 \<le> n"
    and r: "OSTaskCreateExt False ret task arg (pbos + unat n - 1) p tid pbos n x
      (OS_TASK_OPT_STK_CHK OR OS_TASK_OPT_STK_CLR) s = (err, s')"
  shows "OSTaskStkChk p s' = Some (OS_ERR_NONE, (n - 16) * 4, 64)"
proof -
  let ?m = "OS_TaskStkClr pbos n (OS_TASK_OPT_STK_CHK OR OS_TASK_OPT_STK_CLR) (OSStkMem s)"
  note r' = r [unfolded create_tails(2) [OF nest sl]]
  note c = create_tail_ok [OF ok sl p i nest r']
  note f = create_tail_frame [OF i r']
  have un: "16 \<le> unat n" using n by (simp add: word_le_nat_alt)
  then have pt: "15 \<le> pbos + unat n - 1" "pbos + unat n - 1 - 15 = pbos + (unat n - 16)" by simp_all
  note sh = StkInit_shape [OF pt(1), where ret = ret and task = task and arg = arg and m = ?m, unfolded pt(2)]
  have z: "OSStkMem s' (pbos + k) = 0" if "k < unat n - 16" for k
    using sh(2) [of "pbos + k"] that by (auto simp: c(5) OS_TaskStkClr_def stk_clr_apply)
  have e: "OSStkMem s' (pbos + (unat n - 16)) \<noteq> 0" using sh(3) by (simp add: c(5))
  have "stk_scan (OSStkMem s') pbos 0 = Some (of_nat (unat n - 16))"
    using stk_scan_count [of "unat n - 16" "OSStkMem s'" pbos 0] z e by auto
  moreover have "of_nat (unat n - 16) = n - 16" using un by (simp add: of_nat_diff)
  moreover have "self_prio p s' = p" using p by (auto simp: self_prio_def)
  ultimately show ?thesis by (simp add: OSTaskStkChk_def f c(11-13))
qed

theorem stk_chk_exact_witness:
  "OSTaskStkChk 7 (snd (OSTaskCreateExt False 0 32768 0 163 7 1 100 64 PNull 3 tex)) = Some (OS_ERR_NONE, 192, 64)"
  using stk_chk_exact [OF tex_facts(1), where p = 7 and i = 3 and n = 64 and pbos = 100 and ret = 0 and task = 32768 and
    arg = 0 and tid = 1 and x = PNull, OF _ _ tex_facts(3,4) _ surjective_pairing] tex_facts(2) by simp

section \<open>Changing a priority\<close>

lemma rdy_test:
  assumes "wf_tcb t" "unat (OSTCBPrio t) < 64"
  shows "OSRdyTbl s (unat (OSTCBY t)) AND OSTCBBitX t \<noteq> 0 \<longleftrightarrow> unat (OSTCBPrio t) \<in> rdyset s"
  using assms by (simp add: rdyset_def prios_def rdy_bm_def wf_tcb_pos and_exp_eq_0_iff_not_bit)

text \<open>The set of priorities in which one priority is replaced by another.\<close>

definition reprio :: "nat \<Rightarrow> nat \<Rightarrow> nat set \<Rightarrow> nat set" where
  "reprio a b X = (if a \<in> X then insert b (X - {a}) else X)"

lemma kinv_reprio:
  assumes inv: "kinv s" and li: "live s i" and idle: "prio s i \<noteq> 63"
    and nt: "\<And>k. OSTCBPrioTbl s q = Tcb k \<Longrightarrow> k = i" "prio s i \<noteq> q" "q < 64"
    and tbl: "OSTCBPrioTbl s' q = Tcb i" "\<And>r. r \<noteq> prio s i \<Longrightarrow> r \<noteq> q \<Longrightarrow> OSTCBPrioTbl s' r = OSTCBPrioTbl s r"
      "\<And>k. OSTCBPrioTbl s' (prio s i) = Tcb k \<Longrightarrow> k = i"
    and t: "OSTCBTbl s' = (OSTCBTbl s)(i := t')" "unat (OSTCBPrio t') = q" "wf_tcb t'" "OSTCBStat t' = OSTCBStat (tcb s i)"
      "OSTCBStatPend t' = OSTCBStatPend (tcb s i)" "OSTCBDly t' = OSTCBDly (tcb s i)" "OSTCBEventPtr t' = OSTCBEventPtr (tcb s i)"
    and bok: "bm_ok (rdy_bm s')" "\<And>e. bm_ok (ev_bm (ev s' e))"
    and rd: "rdyset s' = reprio (prio s i) q (rdyset s)" and ws: "\<And>e. wset s' e = reprio (prio s i) q (wset s e)"
    and ety: "\<And>e. OSEventType (ev s' e) = OSEventType (ev s e)"
  shows "kinv s'" "\<And>j. live s' j = live s j"
proof -
  let ?p = "prio s i"
  have np: "prio s j \<noteq> q" if "live s j" for j using that nt(1) [of j] nt(2) by (auto simp: live_def)
  have nr: "q \<notin> rdyset s" "q \<notin> wset s e" for e using np kinv_rdy_live [OF inv] kinv_wait_live [OF inv] by blast+
  have pq: "?p \<noteq> q" using np [OF li] .
  have pi: "prio s' i = q" by (simp add: t(1,2))
  have oj: "tcb s' j = tcb s j" if "j \<noteq> i" for j using that by (simp add: t(1))
  have pj: "prio s j \<noteq> ?p \<and> prio s j \<noteq> q" if "live s j" "j \<noteq> i" for j
    using live_inj [OF that(1) li] np [OF that(1)] that(2) by blast
  show lv: "live s' j = live s j" for j
  proof (cases "j = i")
    case True
    then show ?thesis using li nt(3) pi by (simp add: live_def tbl(1))
  next
    case False
    have "live s' j" if "live s j" using pj [OF that False] that by (simp add: live_def tbl(2) oj [OF False])
    moreover have "live s j" if lj: "live s' j"
    proof -
      have "prio s j \<noteq> q" "prio s j \<noteq> ?p" using lj False tbl(1) tbl(3) [of j] by (auto simp: live_def oj [OF False])
      then show ?thesis using lj by (simp add: live_def tbl(2) oj [OF False])
    qed
    ultimately show ?thesis by blast
  qed
  have in_rd: "prio s j \<in> reprio ?p q X \<longleftrightarrow> prio s j \<in> X" if "live s j" "j \<noteq> i" for j X
    using pj [OF that] by (auto simp: reprio_def)
  have q_in: "q \<in> reprio ?p q X \<longleftrightarrow> ?p \<in> X" if "q \<notin> X" for X using that by (auto simp: reprio_def)
  have tk: "task_ok s' j" if lj: "live s j" for j
  proof (cases "j = i")
    case True
    then show ?thesis using kinv_task [OF inv li] unfolding task_ok_def rd ws ety pi [unfolded True] True
      by (simp add: t nr q_in)
  next
    case False
    then show ?thesis using kinv_task [OF inv lj] in_rd [OF lj False] by (simp add: task_ok_def oj rd ws ety)
  qed
  have ex: "\<exists>j. live s' j \<and> prio s' j = k" if "k \<in> reprio ?p q X" "\<And>k. k \<in> X \<Longrightarrow> \<exists>j. live s j \<and> prio s j = k" for k X
  proof (cases "k = q")
    case True
    then show ?thesis using li pi lv by auto
  next
    case False
    then have "k \<in> X" "k \<noteq> ?p" using that(1) by (auto simp: reprio_def split: if_splits)
    then show ?thesis using that(2) [of k] oj lv by metis
  qed
  have "63 \<in> rdyset s'" using kinv_idle [OF inv] idle by (simp add: rd reprio_def)
  moreover have "live s' k" if "OSTCBPrioTbl s' r = Tcb k" for r k
    using that li kinv_slot [OF inv, of r k] tbl(1) tbl(2) [of r] tbl(3) [of k] by (cases "r = q"; cases "r = ?p") (auto simp: lv)
  moreover have "stat_mask (OSEventType (ev s' e)) \<noteq> 0" if "wset s' e \<noteq> {}" for e
    using that kinv_used [OF inv, of _ e] by (auto simp: ws ety reprio_def split: if_splits)
  moreover have "\<exists>j. live s' j \<and> prio s' j = k" if "k \<in> rdyset s'" for k
    using ex [of k "rdyset s"] that kinv_rdy_live [OF inv] by (simp add: rd)
  moreover have "\<exists>j. live s' j \<and> prio s' j = k" if "k \<in> wset s' e" for k e
    using ex [of k "wset s e"] that kinv_wait_live [OF inv] by (simp add: ws)
  ultimately show "kinv s'" using bok tk unfolding kinv_def lv by simp
qed

text \<open>The tables after the change, before the scheduler runs.\<close>

definition reprio_state :: "u8 \<Rightarrow> nat \<Rightarrow> os \<Rightarrow> os" where
  "reprio_state newprio i s =
    (let old = tcb s i; new = prio_fields newprio old;
         s1 = set_slot newprio (Tcb i) (set_slot (OSTCBPrio old) NoTcb s);
         s2 = (if OSRdyTbl s1 (unat (OSTCBY old)) AND OSTCBBitX old \<noteq> 0
               then rdy_set new (rdy_clear old s1) else s1);
         s3 = (case OSTCBEventPtr old of None \<Rightarrow> s2 | Some e \<Rightarrow> upd_ev e (\<lambda>v. ev_set new (ev_clear old v)) s2)
     in upd_tcb i (prio_fields newprio) s3)"

lemma reprio_state_frame [simp]:
  "OSRunning (reprio_state q i s) = OSRunning s" "OSTCBCur (reprio_state q i s) = OSTCBCur s"
  "OSPrioCur (reprio_state q i s) = OSPrioCur s" "OSIntNesting (reprio_state q i s) = OSIntNesting s"
  "OSLockNesting (reprio_state q i s) = OSLockNesting s" "OSTCBList (reprio_state q i s) = OSTCBList s"
  "OSTCBFreeList (reprio_state q i s) = OSTCBFreeList s" "OSFlagTbl (reprio_state q i s) = OSFlagTbl s"
  "OSFlagNodes (reprio_state q i s) = OSFlagNodes s" "OSFlagFreeList (reprio_state q i s) = OSFlagFreeList s"
  "OSEventFreeList (reprio_state q i s) = OSEventFreeList s"
  "OSTCBTbl (reprio_state q i s) = (OSTCBTbl s)(i := prio_fields q (tcb s i))"
  "OSTCBPrioTbl (reprio_state q i s) = (OSTCBPrioTbl s)(prio s i := NoTcb, unat q := Tcb i)"
  "OSEventType (ev (reprio_state q i s) e) = OSEventType (ev s e)" "OSEventPtr (ev (reprio_state q i s) e) = OSEventPtr (ev s e)"
  by (simp_all add: reprio_state_def Let_def set_slot_def rdy_set_def rdy_clear_def set_rdy_def upd_ev_def upd_tcb_def
      ev_set_def ev_clear_def set_ev_bm_def split: option.splits)

lemma reprio_state_bm:
  assumes inv: "kinv s" and li: "live s i" and q: "OSTCBPrioTbl s (unat q) = NoTcb" "unat q < 64"
    and w: "\<And>e. OSTCBEventPtr (tcb s i) = Some e \<Longrightarrow> prio s i \<in> wset s e"
  shows "bm_ok (rdy_bm (reprio_state q i s))" "bm_ok (ev_bm (ev (reprio_state q i s) e))"
    "rdyset (reprio_state q i s) = reprio (prio s i) (unat q) (rdyset s)"
    "wset (reprio_state q i s) e = reprio (prio s i) (unat q) (wset s e)"
proof -
  let ?s = "reprio_state q i s" and ?p = "prio s i"
  have wf: "wf_tcb (tcb s i)" and p: "?p < 64" using kinv_wf [OF inv li] li by (simp_all add: live_def)
  have t: "OSRdyTbl (set_slot q x (set_slot r y s)) = OSRdyTbl s" for x r y by (simp add: set_slot_def)
  have rb: "rdy_bm ?s = (if ?p \<in> rdyset s then bm_ins (unat q) (bm_del ?p (rdy_bm s)) else rdy_bm s)"
    using rdy_test [OF wf p, of s] by (simp add: reprio_state_def Let_def t bm_moves wf split: option.splits)
  have eb: "ev_bm (ev ?s e) = (if OSTCBEventPtr (tcb s i) = Some e then bm_ins (unat q) (bm_del ?p (ev_bm (ev s e))) else ev_bm (ev s e))" for e
    by (auto simp: reprio_state_def Let_def upd_ev_def bm_moves wf set_slot_def rdy_set_def rdy_clear_def set_rdy_def upd_tcb_def split: option.splits)
  show "bm_ok (rdy_bm ?s)" using kinv_rdy [OF inv] q by (simp add: rb bm.invar_ins bm.invar_del)
  show "bm_ok (ev_bm (ev ?s e))" using kinv_ev [OF inv] q by (simp add: eb bm.invar_ins bm.invar_del)
  show "rdyset ?s = reprio ?p (unat q) (rdyset s)" using q by (simp add: reprio_def rdyset_def rb bm.elems_ins bm.elems_del)
  show "wset ?s e = reprio ?p (unat q) (wset s e)"
    using w [of e] kinv_waits_on [OF inv li, of e] q by (auto simp: reprio_def wset_def eb bm.elems_ins bm.elems_del)
qed

lemma tasks_reprio:
  assumes ok: "tasks_ok s" and lv: "\<And>j. live s' j = live s j"
    and f: "OSTCBList s' = OSTCBList s" "OSTCBFreeList s' = OSTCBFreeList s" "OSTCBTbl s' = (OSTCBTbl s)(i := prio_fields q (tcb s i))"
    and idle: "prio s i \<noteq> 63"
  shows "tasks_ok s'"
proof -
  obtain xs k where d: "dchain (\<lambda>i. OSTCBNext (tcb s i)) (\<lambda>i. OSTCBPrev (tcb s i)) None (OSTCBList s) (xs @ [k])"
    and pk: "OSTCBPrio (tcb s k) = OS_TASK_IDLE_PRIO" and xs: "set (xs @ [k]) = {j. live s j}"
    using ok by (auto simp: tasks_ok_def tlist_ok_def)
  have n: "OSTCBNext (tcb s' j) = OSTCBNext (tcb s j)" "OSTCBPrev (tcb s' j) = OSTCBPrev (tcb s j)" for j
    by (simp_all add: f)
  have "OSTCBPrio (tcb s' k) = OS_TASK_IDLE_PRIO" using pk idle by (auto simp: f)
  then have "tlist_ok s'" unfolding tlist_ok_def n lv f(1) using d xs by blast
  moreover have "tfree_ok s'" using ok by (simp add: tasks_ok_def tfree_ok_def n lv f(2))
  ultimately show ?thesis using ok by (simp add: tasks_ok_def lv)
qed

lemma reprio_state_ok:
  assumes ok: "tsafe s" and li: "live s i" and idle: "prio s i \<noteq> 63" and q: "OSTCBPrioTbl s (unat q) = NoTcb" "unat q < 64"
    and w: "\<And>e. OSTCBEventPtr (tcb s i) = Some e \<Longrightarrow> prio s i \<in> wset s e"
  shows "kinv (reprio_state q i s)" "evlist_ok (reprio_state q i s)" "flags_ok (reprio_state q i s)" "tasks_ok (reprio_state q i s)"
    "\<And>j. live (reprio_state q i s) j = live s j"
proof -
  let ?s = "reprio_state q i s"
  note k = tsafeD [OF ok]
  have ns: "\<And>j. OSTCBPrioTbl s (unat q) \<noteq> Tcb j" using q by simp
  note np = no_prio [OF k(1) ns]
  note b = reprio_state_bm [OF k(1) li q w]
  note kr = kinv_reprio [OF k(1) li idle, where q = "unat q" and s' = ?s and t' = "prio_fields q (tcb s i)"]
  show "kinv ?s" by (rule kr) (use q np(1) [OF li] in \<open>simp_all add: b\<close>)
  show lv: "live ?s j = live s j" for j by (rule kr) (use q np(1) [OF li] in \<open>simp_all add: b\<close>)
  show "evlist_ok ?s" using k(2) by (rule evlist_frame) simp_all
  show "tasks_ok ?s" by (rule tasks_reprio [OF k(6) lv _ _ _ idle]) simp_all
  show "flags_ok ?s"
  proof (rule flags_ok_live [OF k(5)])
    fix j assume "live ?s j"
    then have lj: "live s j" and f: "fnode_ok s j" using flags_okD(1) [OF k(5)] by (simp_all add: lv)
    show "fnode_ok ?s j"
    proof (cases "j = i")
      case True
      then show ?thesis using f np(3) by (auto simp: fnode_ok_def b(4) reprio_def split: option.splits)
    next
      case False
      have "prio s j \<noteq> unat q" using np(1) [OF lj] .
      then show ?thesis using f False by (auto simp: fnode_ok_def b(4) reprio_def split: option.splits if_splits)
    qed
  next
    fix g j show "flag_waits ?s g j = flag_waits s g j" by (simp add: flag_waits_def lv)
  qed simp_all
qed

lemma change_prio_ok:
  assumes ok: "tsafe s" and sl: "OSTCBPrioTbl s (unat (self_prio p s)) = Tcb i" and one: "one_slot s i" and idle: "prio s i \<noteq> 63"
    and q: "OSTCBPrioTbl s (unat q) = NoTcb" "unat q < 64"
    and w: "\<And>e. OSTCBEventPtr (tcb s i) = Some e \<Longrightarrow> prio s i \<in> wset s e"
    and nest: "OSIntNesting s = 0" and self: "i = cur s \<Longrightarrow> OSLockNesting s = 0"
    and r: "OSTaskChangePrio p q s = (err, s')"
  shows "err = OS_ERR_NONE" "tsafe s'" "prio s' i = unat q" "OSTCBPrioTbl s' = (OSTCBPrioTbl s)(prio s i := NoTcb, unat q := Tcb i)"
    "rdyset s' = reprio (prio s i) (unat q) (rdyset s)" "wset s' e = reprio (prio s i) (unat q) (wset s e)" "live s' j = live s j"
proof -
  note k = tsafeD [OF ok]
  have li: "live s i" using kinv_slot [OF k(1) sl] .
  have sp: "self_prio p s = OSTCBPrio (tcb s i)" using one_slotD [OF one sl] by (simp add: word_unat_eq_iff)
  let ?d = "reprio_state q i s"
  have run: "OSRunning ?d" using k(3) by (simp add: cur_ok_def)
  have "OSTaskChangePrio p q s = (OS_ERR_NONE, sched_if_running ?d)"
    using q(1) sl unfolding OSTaskChangePrio_def reprio_state_def Let_def sp by simp
  then have e: "err = OS_ERR_NONE" "s' = OS_Sched ?d" using r run by (simp_all add: sched_if_running_def)
  note c = reprio_state_ok [OF ok li idle q w] and b = reprio_state_bm [OF k(1) li q w]
  have "cur_ok s' \<and> sched_ok s'"
  proof (cases "i = cur s")
    case True
    have "s' = os_switch ?d" using e self [OF True] nest by (simp add: OS_Sched_def)
    moreover have "unat (OSPrioCur ?d) \<notin> rdyset ?d"
      using cur_ok_live(2) [OF k(3)] no_prio(1) [OF k(1) _ li, of "unat q"] q(1) True by (auto simp: b(3) [unfolded True] reprio_def)
    ultimately show ?thesis using os_switch_cur [OF c(1) run] by blast
  next
    case False
    then have "cur_ok ?d" unfolding cur_ok_def using k(3) c(5)
      by (intro conjI exI [of _ "cur s"]) (auto simp: cur_ok_def cur_def)
    then show ?thesis using OS_Sched_cur [OF c(1)] by (simp add: e)
  qed
  then show "tsafe s'" using kinv_OS_Sched [OF c(1)] evlist_OS_Sched [OF c(2)] flags_ok_OS_Sched [OF c(3)] tasks_OS_Sched [OF c(4)]
    by (simp add: e kok_def)
  show "live s' j = live s j" using c(5) [of j] by (simp add: e live_def)
  show "err = OS_ERR_NONE" "prio s' i = unat q" "OSTCBPrioTbl s' = (OSTCBPrioTbl s)(prio s i := NoTcb, unat q := Tcb i)"
    "rdyset s' = reprio (prio s i) (unat q) (rdyset s)" "wset s' e = reprio (prio s i) (unat q) (wset s e)"
    using e b(3,4) by simp_all
qed

text \<open>\<open>OSTaskChangePrio\<close> to a free priority moves a task from its old priority to the new one in the
  priority table, in the ready list and in the wait list of the event it waits on, keeps the
  kernel's invariants, and lets the scheduler pick the task to run by the new priorities. The
  task is one whose event pointer, if any, is that of a wait list it is on, and a task that changes its own
  priority has not locked the scheduler.\<close>

theorem change_prio_moves:
  assumes ok: "tsafe s" and sl: "OSTCBPrioTbl s (unat (self_prio p s)) = Tcb i" and one: "one_slot s i" and idle: "prio s i \<noteq> 63"
    and q: "OSTCBPrioTbl s (unat q) = NoTcb" "unat q < 64"
    and w: "\<And>e. OSTCBEventPtr (tcb s i) = Some e \<Longrightarrow> prio s i \<in> wset s e"
    and nest: "OSIntNesting s = 0" and self: "i = cur s \<Longrightarrow> OSLockNesting s = 0"
    and r: "OSTaskChangePrio p q s = (err, s')"
  shows "err = OS_ERR_NONE \<and> tsafe s' \<and> prio s' i = unat q \<and> rdyset s' = reprio (prio s i) (unat q) (rdyset s) \<and>
    (\<forall>e. wset s' e = reprio (prio s i) (unat q) (wset s e)) \<and> (\<forall>j. live s' j = live s j) \<and>
    OSTCBPrioTbl s' = (OSTCBPrioTbl s)(prio s i := NoTcb, unat q := Tcb i)"
  using change_prio_ok [OF assms] by simp

theorem change_prio_moves_witness:
  "rdyset (snd (OSTaskChangePrio 10 4 tex)) = {5, 63} \<and> wset (snd (OSTaskChangePrio 10 4 tex)) 0 = {4}"
proof -
  have sp: "self_prio 10 tex = 10" by (simp add: self_prio_def)
  have w: "OSTCBEventPtr (tcb tex 2) = Some e \<Longrightarrow> prio tex 2 \<in> wset tex e" for e
    by (simp add: tex_facts(11-13) ex_tcbs split: if_splits)
  have h: "OSTCBPrioTbl tex (unat (self_prio 10 tex)) = Tcb 2" "one_slot tex 2" "prio tex 2 \<noteq> 63"
    "OSTCBPrioTbl tex (unat (4::u8)) = NoTcb" "unat (4::u8) < 64"
    using tex_facts(2,11) sp by (simp_all add: one_slot_def)
  have "reprio (prio tex 2) (unat (4::u8)) (rdyset tex) = {5, 63}" "reprio (prio tex 2) (unat (4::u8)) (wset tex 0) = {4}"
    by (simp_all add: tex_facts(8,11,12) reprio_def)
  then show ?thesis
    using change_prio_moves [OF tex_facts(1) h w tex_facts(4) tex_facts(5) surjective_pairing] by metis
qed

text \<open>\<open>OSTaskChangePrio\<close> of a task whose event pointer is left over from a wait that has ended (a post has woken the
  task, and it has not run yet) enters it on the wait list of that event: a bit of the list then stands
  for a task that does not wait, and the kernel's invariant is lost.\<close>

theorem change_prio_stale_event:
  assumes ok: "tsafe s" and sl: "OSTCBPrioTbl s (unat p) = Tcb i" and p: "p \<noteq> OS_PRIO_SELF" and one: "one_slot s i"
    and q: "OSTCBPrioTbl s (unat q) = NoTcb" "unat q < 64" and e: "OSTCBEventPtr (tcb s i) = Some e"
    and rd: "OSTCBStat (tcb s i) = 0" "OSTCBDly (tcb s i) = 0" "OSTCBStatPend (tcb s i) = OS_STAT_PEND_OK"
    and r: "OSTaskChangePrio p q s = (err, s')"
  shows "unat q \<in> wset s' e \<and> unat q \<in> rdyset s' \<and> \<not> kinv s'"
proof -
  note k = tsafeD [OF ok]
  have li: "live s i" using kinv_slot [OF k(1) sl] .
  have p64: "prio s i < 64" using li by (simp add: live_def)
  have pe: "p = OSTCBPrio (tcb s i)" using one_slotD [OF one sl] by (simp add: word_unat_eq_iff)
  have wf: "wf_tcb (tcb s i)" using kinv_wf [OF k(1) li] .
  let ?d = "reprio_state q i s"
  have run: "OSRunning ?d" using k(3) by (simp add: cur_ok_def)
  have "OSTaskChangePrio p q s = (OS_ERR_NONE, sched_if_running ?d)"
    using q(1) sl p unfolding OSTaskChangePrio_def reprio_state_def Let_def self_prio_def pe by simp
  then have s': "s' = OS_Sched ?d" using r run by (simp add: sched_if_running_def)
  have pr: "prio s i \<in> rdyset s" using kinv_ready_iff [OF k(1) li] rd by simp
  have t: "OSRdyTbl (set_slot q x (set_slot y z s)) = OSRdyTbl s" for x y z by (simp add: set_slot_def)
  have eb: "ev_bm (ev ?d e) = bm_ins (unat q) (bm_del (prio s i) (ev_bm (ev s e)))"
    using e by (simp add: reprio_state_def Let_def upd_ev_def bm_moves wf set_slot_def rdy_set_def rdy_clear_def set_rdy_def upd_tcb_def)
  have rb: "rdy_bm ?d = bm_ins (unat q) (bm_del (prio s i) (rdy_bm s))"
    using rdy_test [OF wf p64, of s] pr by (simp add: reprio_state_def Let_def t bm_moves wf split: option.splits)
  have w: "unat q \<in> wset s' e" "unat q \<in> rdyset s'"
    using q(2) eb rb by (simp_all add: s' wset_def rdyset_def bm.elems_ins)
  have "live s' i" "prio s' i = unat q" "OSTCBStat (tcb s' i) = 0" "OSTCBStatPend (tcb s' i) = OS_STAT_PEND_OK"
    using q(2) rd by (simp_all add: s' live_def)
  then have "\<not> kinv s'" using kinv_task [of s' i] w by (auto simp: task_ok_def)
  then show ?thesis using w by blast
qed

text \<open>The event pointer of a task that is on no wait list is not looked at.\<close>

lemma event_ptr_free:
  assumes ok: "tsafe s" and li: "live s i" and nw: "\<And>e. prio s i \<notin> wset s e"
  shows "tsafe (upd_tcb i (\<lambda>t. t\<lparr>OSTCBEventPtr := x\<rparr>) s)"
proof -
  let ?s = "upd_tcb i (\<lambda>t. t\<lparr>OSTCBEventPtr := x\<rparr>) s"
  note k = tsafeD [OF ok]
  have t: "OSTCBTbl ?s = (OSTCBTbl s)(i := (tcb s i)\<lparr>OSTCBEventPtr := x\<rparr>)" by (simp add: upd_tcb_def)
  have r: "rdyset ?s = rdyset s" "wset ?s e = wset s e" for e by (simp_all add: rdyset_def wset_def)
  have wf: "wf_tcb ((tcb s i)\<lparr>OSTCBEventPtr := x\<rparr>) = wf_tcb (tcb s i)" by (simp add: wf_tcb_def)
  have lv: "live ?s j = live s j" for j by (simp add: live_def t)
  have "task_ok ?s i" using kinv_task [OF k(1) li] nw by (simp add: task_ok_def t r wf)
  then have "kinv ?s" using kinv_rdy [OF k(1)] kinv_ev [OF k(1)] kinv_idle [OF k(1)] nw
    by (intro kinv_one_task [OF k(1) li]) (simp_all add: t r same_core_def)
  moreover have "evlist_ok ?s" using k(2) by (rule evlist_frame) simp_all
  moreover have "cur_ok ?s" using k(3) by (auto simp: cur_ok_def t lv)
  moreover have "sched_ok ?s" using k(4) by (simp add: sched_ok_def r)
  moreover have "flags_ok ?s"
  proof (rule flags_ok_live [OF k(5)])
    fix j assume "live ?s j"
    then have "fnode_ok s j" using flags_okD(1) [OF k(5)] by (simp add: lv)
    then show "fnode_ok ?s j" by (cases "j = i") (simp_all add: fnode_ok_def t r split: option.splits)
  qed (simp_all add: flag_waits_def lv t)
  moreover have "tasks_ok ?s" using k(6) by (rule tasks_frame) (simp_all add: t)
  ultimately show ?thesis by (simp add: kok_def)
qed

definition tex_stale :: os where
  "tex_stale = upd_tcb 1 (\<lambda>t. t\<lparr>OSTCBEventPtr := Some 0\<rparr>) tex"

theorem change_prio_stale_event_witness: "\<not> kinv (snd (OSTaskChangePrio 5 7 tex_stale))"
proof -
  have ts: "tsafe tex_stale" unfolding tex_stale_def using tex_facts(9,10,12)
    by (intro event_ptr_free [OF tex_facts(1)]) auto
  have p: "OSTCBPrioTbl tex_stale = (\<lambda>_. NoTcb)(63 := Tcb 0, 5 := Tcb 1, 10 := Tcb 2)"
    by (simp add: tex_stale_def tex_facts(2))
  have t: "tcb tex_stale 1 = (ex_tcb 5 0 None (Some 0) (Some 2))\<lparr>OSTCBEventPtr := Some 0\<rparr>"
    using ex_tcbs(2) by (simp add: tex_stale_def upd_tcb_def tex_facts(13))
  have h: "OSTCBPrioTbl tex_stale (unat (5::u8)) = Tcb 1" "(5::u8) \<noteq> OS_PRIO_SELF" "one_slot tex_stale 1"
    "OSTCBPrioTbl tex_stale (unat (7::u8)) = NoTcb" "unat (7::u8) < 64" "OSTCBEventPtr (tcb tex_stale 1) = Some 0"
    "OSTCBStat (tcb tex_stale 1) = 0" "OSTCBDly (tcb tex_stale 1) = 0" "OSTCBStatPend (tcb tex_stale 1) = OS_STAT_PEND_OK"
    unfolding p t one_slot_def by (simp_all add: ex_tcb_def tcb_zero_def)
  show ?thesis using change_prio_stale_event [OF ts h surjective_pairing] by blast
qed

end
