(* ===== verification/OsMutex.thy ===== *)
theory OsMutex
  imports OsTaskProps
begin

text \<open>
  Mutual exclusion semaphores with a priority ceiling, demo/UCOSII/CORE/os_mutex.c. The counter of the event holds
  the ceiling (\<open>pip\<close>) in its upper byte and in its lower byte the priority the owner had when it took the mutex,
  or 0xFF; \<open>OSEventPtr\<close> is the owner. A mutex reserves the table entry of its ceiling, and an owner that is
  raised to the ceiling stands in the priority table under both priorities.
\<close>

section \<open>Operations\<close>

abbreviation (input) "OS_MUTEX_KEEP_LOWER_8 \<equiv> 0x00FF :: u16"
abbreviation (input) "OS_MUTEX_KEEP_UPPER_8 \<equiv> 0xFF00 :: u16"
abbreviation (input) "OS_MUTEX_AVAILABLE \<equiv> 0x00FF :: u16"

definition mx_pip :: "u16 \<Rightarrow> u8" where "mx_pip cnt = ucast (drop_bit 8 cnt)"
definition mx_prio :: "u16 \<Rightarrow> u8" where "mx_prio cnt = ucast (cnt AND OS_MUTEX_KEEP_LOWER_8)"

text \<open>The counter after \<open>OSEventCnt &= OS_MUTEX_KEEP_UPPER_8; OSEventCnt |= prio;\<close>\<close>

definition mx_own :: "u8 \<Rightarrow> u16 \<Rightarrow> u16" where
  "mx_own p cnt = (cnt AND OS_MUTEX_KEEP_UPPER_8) OR ucast p"

text \<open>The current task takes the mutex, in \<open>OSMutexAccept\<close> and \<open>OSMutexPend\<close>.\<close>

definition mutex_take :: "nat \<Rightarrow> os \<Rightarrow> os" where
  "mutex_take e s = upd_ev e (\<lambda>v. v\<lparr>OSEventCnt := mx_own (OSTCBPrio (tcb s (cur s))) (OSEventCnt v), OSEventPtr := PTcb (cur s)\<rparr>) s"

definition OSMutexAccept :: "nat \<Rightarrow> os \<Rightarrow> bool \<times> u8 \<times> os" where
  "OSMutexAccept e s =
    (if OSEventType (ev s e) \<noteq> OS_EVENT_TYPE_MUTEX then (False, OS_ERR_EVENT_TYPE, s)
     else if 0 < OSIntNesting s then (False, OS_ERR_PEND_ISR, s)
     else let pip = mx_pip (OSEventCnt (ev s e)) in
       if OSEventCnt (ev s e) AND OS_MUTEX_KEEP_LOWER_8 = OS_MUTEX_AVAILABLE
         then (True, if OSTCBPrio (tcb s (cur s)) \<le> pip then OS_ERR_PIP_LOWER else OS_ERR_NONE, mutex_take e s)
       else (False, OS_ERR_NONE, s))"

definition OSMutexCreate :: "u8 \<Rightarrow> os \<Rightarrow> nat option \<times> u8 \<times> os" where
  "OSMutexCreate p s =
    (if 0 < OSIntNesting s then (None, OS_ERR_CREATE_ISR, s)
     else if OSTCBPrioTbl s (unat p) \<noteq> NoTcb then (None, OS_ERR_PRIO_EXIST, s)
     else let s1 = set_slot p Reserved s in
       case event_get s1 of
         (None, s2) \<Rightarrow> (None, OS_ERR_PEVENT_NULL, set_slot p NoTcb s2)
       | (Some e, s2) \<Rightarrow> (Some e, OS_ERR_NONE,
           event_init e OS_EVENT_TYPE_MUTEX (push_bit 8 (ucast p) OR OS_MUTEX_AVAILABLE) PNull s2))"

definition rdy_at_fields :: "u8 \<Rightarrow> os_tcb \<Rightarrow> os_tcb" where
  "rdy_at_fields p t = t\<lparr>OSTCBPrio := p, OSTCBY := drop_bit 3 p AND 7, OSTCBX := p AND 7,
     OSTCBBitY := push_bit (unat (drop_bit 3 p AND 7)) 1, OSTCBBitX := push_bit (unat (p AND 7)) 1\<rparr>"

definition OSMutex_RdyAtPrio :: "nat \<Rightarrow> u8 \<Rightarrow> os \<Rightarrow> os" where
  "OSMutex_RdyAtPrio i p s =
    (let s1 = rdy_clear (tcb s i) s;
         s2 = (upd_tcb i (rdy_at_fields p) s1)\<lparr>OSPrioCur := p\<rparr>
     in set_slot p (Tcb i) (rdy_set (tcb s2 i) s2))"

fun tcb_ptr :: "ptr \<Rightarrow> nat option" where
  "tcb_ptr (PTcb i) = Some i"
| "tcb_ptr _ = None"

text \<open>The last lines of both options of \<open>OSMutexDel\<close>.\<close>

definition mutex_put :: "nat \<Rightarrow> os \<Rightarrow> os" where
  "mutex_put e s = event_put e (set_slot (mx_pip (OSEventCnt (ev s e))) NoTcb s)"

definition OSMutexDel :: "nat \<Rightarrow> u8 \<Rightarrow> os \<Rightarrow> (nat option \<times> u8 \<times> os) option" where
  "OSMutexDel e opt s =
    (if OSEventType (ev s e) \<noteq> OS_EVENT_TYPE_MUTEX then Some (Some e, OS_ERR_EVENT_TYPE, s)
     else if 0 < OSIntNesting s then Some (Some e, OS_ERR_DEL_ISR, s)
     else let tasks_waiting = (OSEventGrp (ev s e) \<noteq> 0) in
       if opt = OS_DEL_NO_PEND then
         if \<not> tasks_waiting then Some (None, OS_ERR_NONE, mutex_put e s)
         else Some (Some e, OS_ERR_TASK_WAITING, s)
       else if opt = OS_DEL_ALWAYS then
         let s1 = (case tcb_ptr (OSEventPtr (ev s e)) of
                     None \<Rightarrow> s
                   | Some i \<Rightarrow> if OSTCBPrio (tcb s i) = mx_pip (OSEventCnt (ev s e))
                               then OSMutex_RdyAtPrio i (mx_prio (OSEventCnt (ev s e))) s else s)
         in (case event_rdy_all e PNull OS_STAT_MUTEX OS_STAT_PEND_OK 0 s1 of
               None \<Rightarrow> None
             | Some (_, s2) \<Rightarrow>
                 let s3 = mutex_put e s2
                 in Some (None, OS_ERR_NONE, if tasks_waiting then OS_Sched s3 else s3))
       else Some (Some e, OS_ERR_INVALID_OPT, s))"

text \<open>The owner \<open>i\<close> is raised to the ceiling, in \<open>OSMutexPend\<close>.\<close>

definition mutex_raise :: "nat \<Rightarrow> u8 \<Rightarrow> os \<Rightarrow> os" where
  "mutex_raise i pip s =
    (let t = tcb s i;
         rdy = (OSRdyTbl s (unat (OSTCBY t)) AND OSTCBBitX t \<noteq> 0);
         s1 = (if rdy then rdy_clear t s
               else case OSTCBEventPtr t of None \<Rightarrow> s | Some e2 \<Rightarrow> upd_ev e2 (ev_clear t) s);
         s2 = upd_tcb i (prio_fields pip) s1;
         s3 = (if rdy then rdy_set (tcb s2 i) s2
               else case OSTCBEventPtr (tcb s2 i) of None \<Rightarrow> s2 | Some e2 \<Rightarrow> upd_ev e2 (ev_set (tcb s2 i)) s2)
     in set_slot pip (Tcb i) s3)"

text \<open>\<open>OSEventPtr\<close> is dereferenced without a test; a mutex that is not available has an owner.\<close>

definition OSMutexPend :: "nat \<Rightarrow> u32 \<Rightarrow> os \<Rightarrow> u8 option \<times> os" where
  "OSMutexPend e timeout s =
    (if OSEventType (ev s e) \<noteq> OS_EVENT_TYPE_MUTEX then (Some OS_ERR_EVENT_TYPE, s)
     else if 0 < OSIntNesting s then (Some OS_ERR_PEND_ISR, s)
     else if 0 < OSLockNesting s then (Some OS_ERR_PEND_LOCKED, s)
     else let pip = mx_pip (OSEventCnt (ev s e)) in
       if ucast (mx_prio (OSEventCnt (ev s e))) = OS_MUTEX_AVAILABLE
         then (Some (if OSTCBPrio (tcb s (cur s)) \<le> pip then OS_ERR_PIP_LOWER else OS_ERR_NONE), mutex_take e s)
       else
         let mprio = mx_prio (OSEventCnt (ev s e)); i = the (tcb_ptr (OSEventPtr (ev s e)));
             s1 = (if pip < OSTCBPrio (tcb s i) \<and> OSTCBPrio (tcb s (cur s)) < mprio then mutex_raise i pip s else s)
         in (None, OS_Sched (pend_block OS_STAT_MUTEX e timeout s1)))"

definition OSMutexPend_return :: "nat \<Rightarrow> os \<Rightarrow> u8 \<times> os" where
  "OSMutexPend_return e s = pend_finish e s"

definition slot_ptr :: "tcb_slot \<Rightarrow> ptr" where
  "slot_ptr x = (case x of Tcb i \<Rightarrow> PTcb i | _ \<Rightarrow> PNull)"

text \<open>The entry of a task that has just been made ready is its control block.\<close>

definition OSMutexPost :: "nat \<Rightarrow> os \<Rightarrow> u8 \<times> os" where
  "OSMutexPost e s =
    (if 0 < OSIntNesting s then (OS_ERR_POST_ISR, s)
     else if OSEventType (ev s e) \<noteq> OS_EVENT_TYPE_MUTEX then (OS_ERR_EVENT_TYPE, s)
     else let pip = mx_pip (OSEventCnt (ev s e)); p = mx_prio (OSEventCnt (ev s e)) in
       if OSTCBCur s \<noteq> tcb_ptr (OSEventPtr (ev s e)) then (OS_ERR_NOT_MUTEX_OWNER, s)
       else
         let s1 = (if OSTCBPrio (tcb s (cur s)) = pip then OSMutex_RdyAtPrio (cur s) p s else s);
             s2 = set_slot pip Reserved s1
         in if OSEventGrp (ev s2 e) \<noteq> 0 then
              let (p3, s3) = OS_EventTaskRdy e PNull OS_STAT_MUTEX OS_STAT_PEND_OK s2;
                  s4 = upd_ev e (\<lambda>v. v\<lparr>OSEventCnt := mx_own p3 (OSEventCnt v),
                         OSEventPtr := slot_ptr (OSTCBPrioTbl s3 (unat p3))\<rparr>) s3
              in (if p3 \<le> pip then OS_ERR_PIP_LOWER else OS_ERR_NONE, OS_Sched s4)
            else (OS_ERR_NONE, upd_ev e (\<lambda>v. v\<lparr>OSEventCnt := OSEventCnt v OR OS_MUTEX_AVAILABLE, OSEventPtr := PNull\<rparr>) s2))"

text \<open>The error code and, on success, \<open>OSMutexPIP\<close>, \<open>OSOwnerPrio\<close>, \<open>OSValue\<close>, \<open>OSEventGrp\<close> and \<open>OSEventTbl\<close>.\<close>

definition OSMutexQuery :: "nat \<Rightarrow> os \<Rightarrow> u8 \<times> (u8 \<times> u8 \<times> bool \<times> u8 \<times> (nat \<Rightarrow> u8)) option" where
  "OSMutexQuery e s =
    (if 0 < OSIntNesting s then (OS_ERR_QUERY_ISR, None)
     else if OSEventType (ev s e) \<noteq> OS_EVENT_TYPE_MUTEX then (OS_ERR_EVENT_TYPE, None)
     else let v = ev s e in
       (OS_ERR_NONE, Some (mx_pip (OSEventCnt v), mx_prio (OSEventCnt v), mx_prio (OSEventCnt v) = 0xFF,
          OSEventGrp v, OSEventTbl v)))"

interpretation mutex: wait_service OS_EVENT_TYPE_MUTEX OS_STAT_MUTEX
  by unfold_locales (simp_all add: stat_mask_def)

section \<open>The two bytes of the counter\<close>

lemma byte_masks: "(0x00FF :: u16) = mask 8" "(0xFF00 :: u16) = push_bit 8 (mask 8)" "(0xFF :: u8) = mask 8"
  by (simp_all add: mask_eq_exp_minus_1 push_bit_eq_mult)

lemma mx_simps [simp]:
  "mx_pip (mx_own p c) = mx_pip c" "mx_prio (mx_own p c) = p" "mx_pip (c OR 0x00FF) = mx_pip c" "mx_prio (c OR 0x00FF) = 0xFF"
  "mx_pip (push_bit 8 (ucast p)) = p" "mx_pip (push_bit 8 (ucast p) OR 0x00FF) = p" "mx_prio (push_bit 8 (ucast p) OR 0x00FF) = 0xFF"
  unfolding mx_pip_def mx_prio_def mx_own_def byte_masks
  by (rule bit_word_eqI, auto simp: bit_simps dest: bit_imp_le_length)+

lemma mx_available:
  "OSEventCnt v AND 0x00FF = 0x00FF \<longleftrightarrow> mx_prio (OSEventCnt v) = 0xFF"
  "ucast (mx_prio (OSEventCnt v)) = (0x00FF :: u16) \<longleftrightarrow> mx_prio (OSEventCnt v) = 0xFF"
proof -
  have u: "ucast (mx_prio c) = c AND (0x00FF :: u16)" for c
    unfolding mx_prio_def byte_masks by (rule bit_word_eqI) (auto simp: bit_simps dest: bit_imp_le_length)
  have i: "ucast (x :: u8) = (0x00FF :: u16) \<longleftrightarrow> x = 0xFF" for x
  proof
    assume "ucast x = (0x00FF :: u16)"
    then have "ucast (ucast x :: u16) = (ucast (0x00FF :: u16) :: u8)" by simp
    moreover have "ucast (ucast x :: u16) = x" by (rule bit_word_eqI) (auto simp: bit_simps)
    ultimately show "x = 0xFF" by simp
  qed simp
  show "ucast (mx_prio (OSEventCnt v)) = (0x00FF :: u16) \<longleftrightarrow> mx_prio (OSEventCnt v) = 0xFF" by (rule i)
  then show "OSEventCnt v AND 0x00FF = 0x00FF \<longleftrightarrow> mx_prio (OSEventCnt v) = 0xFF" unfolding u .
qed

section \<open>The invariant of the mutexes\<close>

abbreviation is_mutex :: "os \<Rightarrow> nat \<Rightarrow> bool" where "is_mutex s e \<equiv> OSEventType (ev s e) = OS_EVENT_TYPE_MUTEX"
abbreviation pip :: "os \<Rightarrow> nat \<Rightarrow> nat" where "pip s e \<equiv> unat (mx_pip (OSEventCnt (ev s e)))"
abbreviation base :: "os \<Rightarrow> nat \<Rightarrow> nat" where "base s e \<equiv> unat (mx_prio (OSEventCnt (ev s e)))"
abbreviation owner :: "os \<Rightarrow> nat \<Rightarrow> nat option" where "owner s e \<equiv> tcb_ptr (OSEventPtr (ev s e))"

text \<open>
  A mutex without an owner has no waiters and its ceiling reserved; the owner of a mutex has its own
  priority (\<open>base\<close>) in the table and runs at it or at the ceiling.
\<close>

definition mx_ok :: "os \<Rightarrow> nat \<Rightarrow> bool" where
  "mx_ok s e \<longleftrightarrow> pip s e < 63 \<and>
    (case owner s e of
       None \<Rightarrow> base s e = 255 \<and> OSTCBPrioTbl s (pip s e) = Reserved \<and> wset s e = {}
     | Some i \<Rightarrow> live s i \<and> base s e < 63 \<and> OSTCBPrioTbl s (base s e) = Tcb i \<and> base s e \<noteq> pip s e \<and>
         (prio s i = base s e \<and> OSTCBPrioTbl s (pip s e) = Reserved \<or> prio s i = pip s e \<and> OSTCBPrioTbl s (pip s e) = Tcb i))"

text \<open>
  No two mutexes share a ceiling or an owner, and neither an owner nor the idle task waits for a mutex: the kernel keeps one original
  priority per mutex and does not support nesting.
\<close>

definition mutexes_ok :: "os \<Rightarrow> bool" where
  "mutexes_ok s \<longleftrightarrow> (\<forall>e. is_mutex s e \<longrightarrow> mx_ok s e) \<and>
     (\<forall>e x. is_mutex s e \<and> is_mutex s x \<and> e \<noteq> x \<longrightarrow> pip s e \<noteq> pip s x \<and> (\<forall>i. owner s e = Some i \<longrightarrow> owner s x \<noteq> Some i)) \<and>
     (\<forall>e x i. is_mutex s e \<and> is_mutex s x \<and> owner s x = Some i \<longrightarrow> prio s i \<notin> wset s e) \<and>
     (\<forall>e. is_mutex s e \<longrightarrow> 63 \<notin> wset s e)"

definition owns_none :: "os \<Rightarrow> nat \<Rightarrow> bool" where
  "owns_none s i \<longleftrightarrow> (\<forall>e. is_mutex s e \<longrightarrow> owner s e \<noteq> Some i)"

text \<open>A task whose event pointer, if any, is that of a wait list it is on, and which is not ready then.\<close>

definition settled :: "os \<Rightarrow> nat \<Rightarrow> bool" where
  "settled s i \<longleftrightarrow> (\<forall>x. OSTCBEventPtr (tcb s i) = Some x \<longrightarrow> prio s i \<in> wset s x \<and> prio s i \<notin> rdyset s)"

lemma mutexes_okD:
  assumes "mutexes_ok s" "is_mutex s e"
  shows "mx_ok s e" "is_mutex s x \<Longrightarrow> e \<noteq> x \<Longrightarrow> pip s e \<noteq> pip s x" "is_mutex s x \<Longrightarrow> e \<noteq> x \<Longrightarrow> owner s e = Some i \<Longrightarrow> owner s x \<noteq> Some i"
    "is_mutex s x \<Longrightarrow> owner s e = Some i \<Longrightarrow> prio s i \<notin> wset s x" "63 \<notin> wset s e"
  using assms by (auto simp: mutexes_ok_def)

lemma mx_ownerD:
  assumes "mx_ok s e" "owner s e = Some i"
  shows "live s i" "pip s e < 63" "base s e < 63" "OSTCBPrioTbl s (base s e) = Tcb i" "base s e \<noteq> pip s e"
    "prio s i = base s e \<and> OSTCBPrioTbl s (pip s e) = Reserved \<or> prio s i = pip s e \<and> OSTCBPrioTbl s (pip s e) = Tcb i"
  using assms by (auto simp: mx_ok_def)

lemma mx_freeD:
  assumes "mx_ok s e" "owner s e = None"
  shows "base s e = 255" "OSTCBPrioTbl s (pip s e) = Reserved" "wset s e = {}" "pip s e < 63"
  using assms by (auto simp: mx_ok_def)

lemma mx_avail: "mx_ok s e \<Longrightarrow> mx_prio (OSEventCnt (ev s e)) = 0xFF \<longleftrightarrow> owner s e = None"
proof -
  assume m: "mx_ok s e"
  have "mx_prio (OSEventCnt (ev s e)) = 0xFF \<longleftrightarrow> base s e = 255" by (simp add: word_unat_eq_iff)
  then show ?thesis using mx_freeD(1) [OF m] mx_ownerD(3) [OF m] by (cases "owner s e") auto
qed

section \<open>Raising the owner\<close>

lemma mutex_raise_frame [simp]:
  "OSRunning (mutex_raise i q s) = OSRunning s" "OSTCBCur (mutex_raise i q s) = OSTCBCur s" "cur (mutex_raise i q s) = cur s"
  "OSPrioCur (mutex_raise i q s) = OSPrioCur s" "OSIntNesting (mutex_raise i q s) = OSIntNesting s"
  "OSLockNesting (mutex_raise i q s) = OSLockNesting s" "OSEventFreeList (mutex_raise i q s) = OSEventFreeList s"
  "OSTCBTbl (mutex_raise i q s) = (OSTCBTbl s)(i := prio_fields q (tcb s i))"
  "OSTCBPrioTbl (mutex_raise i q s) = (OSTCBPrioTbl s)(unat q := Tcb i)"
  "OSEventType (ev (mutex_raise i q s) e) = OSEventType (ev s e)" "OSEventPtr (ev (mutex_raise i q s) e) = OSEventPtr (ev s e)"
  "OSEventCnt (ev (mutex_raise i q s) e) = OSEventCnt (ev s e)"
  by (simp_all add: mutex_raise_def Let_def set_slot_def rdy_set_def rdy_clear_def set_rdy_def upd_ev_def upd_tcb_def
      ev_set_def ev_clear_def set_ev_bm_def cur_def split: option.splits)

lemma mutex_raise_bm:
  assumes inv: "kinv s" and li: "live s i" and q: "unat q < 64" and st: "settled s i"
  shows "bm_ok (rdy_bm (mutex_raise i q s))" "bm_ok (ev_bm (ev (mutex_raise i q s) e))"
    "rdyset (mutex_raise i q s) = reprio (prio s i) (unat q) (rdyset s)"
    "wset (mutex_raise i q s) e = reprio (prio s i) (unat q) (wset s e)"
proof -
  let ?s = "mutex_raise i q s" and ?p = "prio s i"
  have wf: "wf_tcb (tcb s i)" and p: "?p < 64" using kinv_wf [OF inv li] li by (simp_all add: live_def)
  have wq: "wf_tcb (prio_fields q (tcb s i))" by (rule prio_fields_wf)
  have rb: "rdy_bm ?s = (if ?p \<in> rdyset s then bm_ins (unat q) (bm_del ?p (rdy_bm s)) else rdy_bm s)"
    using rdy_test [OF wf p, of s] rdy_bm_set [OF wq] rdy_bm_clear [OF wf]
    by (auto simp: mutex_raise_def Let_def set_slot_def rdy_bm_def upd_tcb_def upd_ev_def split: option.splits)
  have eb: "ev_bm (ev ?s x) = (if ?p \<notin> rdyset s \<and> OSTCBEventPtr (tcb s i) = Some x then bm_ins (unat q) (bm_del ?p (ev_bm (ev s x)))
      else ev_bm (ev s x))" for x
    using rdy_test [OF wf p, of s] ev_bm_ev_set [OF wq] ev_bm_ev_clear [OF wf]
    by (auto simp: mutex_raise_def Let_def set_slot_def upd_tcb_def upd_ev_def rdy_set_def rdy_clear_def set_rdy_def split: option.splits)
  show "bm_ok (rdy_bm ?s)" using kinv_rdy [OF inv] q by (simp add: rb bm.invar_ins bm.invar_del)
  show "bm_ok (ev_bm (ev ?s e))" using kinv_ev [OF inv] q by (simp add: eb bm.invar_ins bm.invar_del)
  show "rdyset ?s = reprio ?p (unat q) (rdyset s)" using q by (simp add: reprio_def rdyset_def rb bm.elems_ins bm.elems_del)
  show "wset ?s e = reprio ?p (unat q) (wset s e)"
    using st kinv_waits_on [OF inv li, of e] q by (auto simp: settled_def reprio_def wset_def eb bm.elems_ins bm.elems_del)
qed

lemma mutex_raise_kok:
  assumes ok: "kok s" and li: "live s i" and idle: "prio s i \<noteq> 63" and q: "OSTCBPrioTbl s (unat q) = Reserved" "unat q < 64"
    and st: "settled s i" and nc: "i \<noteq> cur s"
  shows "kok (mutex_raise i q s)" "live (mutex_raise i q s) j = live s j"
proof -
  let ?s = "mutex_raise i q s"
  note inv = kokD(1) [OF ok]
  note b = mutex_raise_bm [OF inv li q(2) st]
  have ne: "prio s i \<noteq> unat q" using li q(1) by (auto simp: live_def)
  have sl: "OSTCBPrioTbl s (prio s i) = Tcb i" using li by (simp add: live_def)
  note kr = kinv_reprio [OF inv li idle, where q = "unat q" and s' = ?s and t' = "prio_fields q (tcb s i)"]
  have k: "kinv ?s" by (rule kr) (use q ne sl in \<open>simp_all add: b\<close>)
  show lv: "live ?s j = live s j" for j by (rule kr) (use q ne sl in \<open>simp_all add: b\<close>)
  have "evlist_ok ?s" using kokD(2) [OF ok] by (rule evlist_frame) simp_all
  moreover have c: "OSTCBCur s = Some (cur s)" "live s (cur s)" "OSTCBPrio (tcb s (cur s)) = OSPrioCur s" "OSRunning s"
    using kokD(3) [OF ok] by (auto simp: cur_ok_def cur_def)
  then have "cur_ok ?s" unfolding cur_ok_def by (intro conjI exI [of _ "cur s"]) (simp_all add: lv nc [symmetric])
  ultimately show "kok ?s" using k by (simp add: kok_def)
qed

lemma mutexes_frame:
  assumes ok: "mutexes_ok s" and e: "\<And>e. OSEventType (ev s' e) = OSEventType (ev s e)" "\<And>e. OSEventCnt (ev s' e) = OSEventCnt (ev s e)"
      "\<And>e. OSEventPtr (ev s' e) = OSEventPtr (ev s e)"
    and t: "OSTCBPrioTbl s' = OSTCBPrioTbl s" "\<And>j. OSTCBPrio (tcb s' j) = OSTCBPrio (tcb s j)"
    and w: "\<And>e p. is_mutex s e \<Longrightarrow> p \<in> wset s' e \<Longrightarrow> p \<in> wset s e \<or> p \<noteq> 63 \<and> owner s e \<noteq> None \<and> (\<forall>x i. is_mutex s x \<and> owner s x = Some i \<longrightarrow> prio s i \<noteq> p)"
  shows "mutexes_ok s'"
proof -
  have lv: "live s' j = live s j" for j by (simp add: live_def t)
  have "mx_ok s' e" if m: "is_mutex s e" for e
  proof (cases "owner s e")
    case None
    note f = mx_freeD [OF mutexes_okD(1) [OF ok m] None]
    have "wset s' e = {}" using w [OF m] f(3) None by auto
    then show ?thesis using f None by (simp add: mx_ok_def e t)
  qed (use mx_ownerD [OF mutexes_okD(1) [OF ok m]] in \<open>auto simp: mx_ok_def e t lv\<close>)
  moreover have "prio s i \<notin> wset s' e" if "is_mutex s e" "is_mutex s x" "owner s x = Some i" for e x i
    using w [OF that(1)] mutexes_okD(4) [OF ok that(2,1,3)] that by blast
  moreover have "63 \<notin> wset s' e" if "is_mutex s e" for e using w [OF that] mutexes_okD(5) [OF ok that] by blast
  ultimately show ?thesis using ok by (auto simp: mutexes_ok_def e t)
qed

lemma mutexes_OS_Sched: "mutexes_ok s \<Longrightarrow> mutexes_ok (OS_Sched s)"
  by (erule mutexes_frame) simp_all

lemma mutexes_block:
  assumes ok: "mutexes_ok s" and inv: "kinv s" and lc: "live s (cur s)" and o: "owner s e \<noteq> None" and n: "owns_none s (cur s)"
    and idle: "prio s (cur s) \<noteq> 63"
  shows "mutexes_ok (pend_block OS_STAT_MUTEX e tmo s)"
proof (rule mutexes_frame [OF ok])
  have p64: "prio s (cur s) < 64" using lc by (simp add: live_def)
  show "OSTCBPrio (tcb (pend_block OS_STAT_MUTEX e tmo s) j) = OSTCBPrio (tcb s j)" for j by (cases "j = cur s") simp_all
  fix x p assume m: "is_mutex s x" and p: "p \<in> wset (pend_block OS_STAT_MUTEX e tmo s) x"
  have "p \<in> wset s x \<or> x = e \<and> p = prio s (cur s)"
    using p p64 by (auto simp: wset_def pend_block_sets(2) [OF inv lc] bm.elems_ins split: if_splits)
  moreover have "prio s i \<noteq> prio s (cur s)" if "is_mutex s y" "owner s y = Some i" for y i
    using live_inj [OF mx_ownerD(1) [OF mutexes_okD(1) [OF ok that(1)] that(2)] lc] n that by (auto simp: owns_none_def)
  ultimately show "p \<in> wset s x \<or> p \<noteq> 63 \<and> owner s x \<noteq> None \<and> (\<forall>y i. is_mutex s y \<and> owner s y = Some i \<longrightarrow> prio s i \<noteq> p)" using o idle by fastforce
qed simp_all

lemma mutexes_raise:
  assumes ok: "mutexes_ok s" and kk: "kok s" and m: "is_mutex s e" and o: "owner s e = Some i" and p: "prio s i \<noteq> pip s e"
    and st: "settled s i" and nc: "i \<noteq> cur s"
  defines "s' \<equiv> mutex_raise i (mx_pip (OSEventCnt (ev s e))) s"
  shows "mutexes_ok s'" "kok s'" "\<And>j. live s' j = live s j" "\<And>x. is_mutex s x \<Longrightarrow> wset s' x = wset s x"
    "rdyset s' = reprio (prio s i) (pip s e) (rdyset s)"
proof -
  note d = mx_ownerD [OF mutexes_okD(1) [OF ok m] o]
  note inv = kokD(1) [OF kk]
  have rs: "OSTCBPrioTbl s (pip s e) = Reserved" and pb: "prio s i = base s e" using d(6) p by auto
  have idle: "prio s i \<noteq> 63" and q: "pip s e < 64" using d(2,3) pb by auto
  note b = mutex_raise_bm [OF inv d(1) q st, folded s'_def]
  note k = mutex_raise_kok [OF kk d(1) idle rs q st nc, folded s'_def]
  show "kok s'" and lv: "\<And>j. live s' j = live s j" and "rdyset s' = reprio (prio s i) (pip s e) (rdyset s)" using k b by simp_all
  show ws: "wset s' x = wset s x" if "is_mutex s x" for x
    using mutexes_okD(4) [OF ok m that o] by (simp add: b(4) reprio_def)
  have pj: "OSTCBPrio (tcb s' j) = (if j = i then mx_pip (OSEventCnt (ev s e)) else OSTCBPrio (tcb s j))" for j
    by (simp add: s'_def prio_fields_def)
  have tb: "OSTCBPrioTbl s' = (OSTCBPrioTbl s)(pip s e := Tcb i)" by (simp add: s'_def)
  have ev: "OSEventType (ev s' x) = OSEventType (ev s x)" "OSEventCnt (ev s' x) = OSEventCnt (ev s x)" "OSEventPtr (ev s' x) = OSEventPtr (ev s x)" for x
    by (simp_all add: s'_def)
  have "mx_ok s' x" if mx: "is_mutex s x" for x
  proof (cases "x = e")
    case True
    then show ?thesis using d o by (simp add: mx_ok_def ev tb pj lv)
  next
    case False
    have pp: "pip s x \<noteq> pip s e" using mutexes_okD(2) [OF ok mx m False] .
    show ?thesis
    proof (cases "owner s x")
      case None
      then show ?thesis using mx_freeD [OF mutexes_okD(1) [OF ok mx] None] pp by (simp add: mx_ok_def ev tb ws [OF mx])
    next
      case (Some j)
      note dj = mx_ownerD [OF mutexes_okD(1) [OF ok mx] Some]
      have "j \<noteq> i" using mutexes_okD(3) [OF ok m mx _ o] False Some by auto
      moreover have "base s x \<noteq> pip s e" using dj(4) rs by auto
      ultimately show ?thesis using dj Some pp by (simp add: mx_ok_def ev tb pj lv)
    qed
  qed
  moreover have "prio s' j \<notin> wset s' x" if "is_mutex s x" "is_mutex s y" "owner s y = Some j" for x y j
  proof (cases "j = i")
    case True
    have "pip s e \<notin> wset s x" using kinv_wait_live [OF inv, of "pip s e" x] rs by (auto simp: live_def)
    then show ?thesis using True that by (simp add: pj ws)
  next
    case False
    then show ?thesis using mutexes_okD(4) [OF ok that(2,1,3)] by (simp add: pj ws [OF that(1)])
  qed
  moreover have "63 \<notin> wset s' x" if "is_mutex s x" for x using mutexes_okD(5) [OF ok that] ws [OF that] by simp
  ultimately show "mutexes_ok s'" using ok by (auto simp: mutexes_ok_def ev)
qed

lemma mutexes_take:
  assumes ok: "mutexes_ok s" and kk: "kok s" and m: "is_mutex s e" and o: "owner s e = None" and n: "owns_none s (cur s)"
    and fr: "\<And>x. prio s (cur s) \<notin> wset s x" and idle: "prio s (cur s) \<noteq> 63"
  shows "mutexes_ok (mutex_take e s)" "kok (mutex_take e s)" "sched_ok s \<Longrightarrow> sched_ok (mutex_take e s)"
proof -
  let ?s = "mutex_take e s"
  show "kok ?s" "sched_ok s \<Longrightarrow> sched_ok ?s" unfolding mutex_take_def using kok_upd_ev [OF kk] m by (simp_all add: ev_bm_def)
  note lc = cur_ok_live(1) [OF kokD(3) [OF kk]]
  note f = mx_freeD [OF mutexes_okD(1) [OF ok m] o]
  have ev: "OSEventType (ev ?s x) = OSEventType (ev s x)" "mx_pip (OSEventCnt (ev ?s x)) = mx_pip (OSEventCnt (ev s x))"
    "mx_prio (OSEventCnt (ev ?s x)) = (if x = e then OSTCBPrio (tcb s (cur s)) else mx_prio (OSEventCnt (ev s x)))"
    "owner ?s x = (if x = e then Some (cur s) else owner s x)" for x
    by (simp_all add: mutex_take_def upd_ev_def)
  have w: "wset ?s x = wset s x" for x by (simp add: mutex_take_def upd_ev_def wset_def ev_bm_def)
  have t: "OSTCBPrioTbl ?s = OSTCBPrioTbl s" "OSTCBTbl ?s = OSTCBTbl s" by (simp_all add: mutex_take_def upd_ev_def)
  have lv: "live ?s j = live s j" for j by (simp add: live_def t)
  have "prio s (cur s) < 63" "OSTCBPrioTbl s (prio s (cur s)) = Tcb (cur s)" using lc idle by (auto simp: live_def)
  moreover from this(2) have "prio s (cur s) \<noteq> pip s e" using f(2) by auto
  ultimately have "mx_ok ?s e" using f lc by (simp add: mx_ok_def ev t lv)
  moreover have "mx_ok ?s x" if "is_mutex s x" "x \<noteq> e" for x
    using mutexes_okD(1) [OF ok that(1)] that(2) by (cases "owner s x") (simp_all add: mx_ok_def ev t lv w)
  moreover have "prio s j \<notin> wset s x" if "is_mutex s x" "is_mutex s y" "owner ?s y = Some j" for x y j
    using mutexes_okD(4) [OF ok that(2,1)] that fr by (auto simp: ev split: if_splits)
  ultimately show "mutexes_ok ?s" using ok n by (auto simp: mutexes_ok_def ev t w owns_none_def)
qed

section \<open>Releasing a mutex\<close>

lemma mutexes_release:
  assumes ok: "mutexes_ok s" and m: "is_mutex s e" and o: "owner s e = Some i"
    and ty: "\<And>x. OSEventType (ev s' x) = OSEventType (ev s x)" and pe: "mx_pip (OSEventCnt (ev s' e)) = mx_pip (OSEventCnt (ev s e))"
    and ox: "\<And>x. x \<noteq> e \<Longrightarrow> OSEventCnt (ev s' x) = OSEventCnt (ev s x) \<and> OSEventPtr (ev s' x) = OSEventPtr (ev s x) \<and> wset s' x = wset s x"
    and tb: "OSTCBPrioTbl s' = (OSTCBPrioTbl s)(pip s e := Reserved)"
    and pr: "\<And>j. j \<noteq> i \<Longrightarrow> OSTCBPrio (tcb s' j) = OSTCBPrio (tcb s j)" "prio s' i = base s e" and lv: "\<And>j. live s' j = live s j"
    and nw: "owner s' e = None \<and> base s' e = 255 \<and> wset s' e = {} \<or>
      (\<exists>k. owner s' e = Some k \<and> k \<noteq> i \<and> owns_none s k \<and> live s k \<and> prio s k \<in> wset s e \<and> base s' e = prio s k \<and>
        wset s' e = wset s e - {prio s k} \<and> (\<forall>x. x \<noteq> e \<longrightarrow> prio s k \<notin> wset s x))"
  shows "mutexes_ok s'"
proof -
  note d = mx_ownerD [OF mutexes_okD(1) [OF ok m] o]
  have sub: "wset s' x \<subseteq> wset s x" for x using nw ox [of x] by (cases "x = e") auto
  have oj: "j \<noteq> i" if "is_mutex s x" "x \<noteq> e" "owner s x = Some j" for x j using mutexes_okD(3) [OF ok m that(1) _ o] that by auto
  have px: "pip s' x = pip s x" if "x \<noteq> e" for x using ox [OF that] by simp
  have A: "mx_ok s' e"
  proof (cases "owner s' e")
    case None
    then show ?thesis using nw d(2) by (simp add: mx_ok_def pe tb)
  next
    case (Some k)
    then have k: "live s k" "prio s k \<in> wset s e" "base s' e = prio s k" "k \<noteq> i" using nw by auto
    have "OSTCBPrioTbl s (prio s k) = Tcb k" "prio s k < 64" using k(1) by (auto simp: live_def)
    moreover have "prio s k \<noteq> 63" using mutexes_okD(5) [OF ok m] k(2) by metis
    moreover have "prio s k \<noteq> pip s e" using calculation(1) d(6) k(4) by auto
    ultimately show ?thesis using Some k d(2) pr(1) [OF k(4)] by (simp add: mx_ok_def pe tb lv)
  qed
  have B: "mx_ok s' x" if x: "is_mutex s x" "x \<noteq> e" for x
  proof (cases "owner s x")
    case None
    note f = mx_freeD [OF mutexes_okD(1) [OF ok x(1)] None]
    show ?thesis using f None ox [OF x(2)] mutexes_okD(2) [OF ok x(1) m x(2)] by (simp add: mx_ok_def tb)
  next
    case (Some j)
    note dj = mx_ownerD [OF mutexes_okD(1) [OF ok x(1)] Some]
    have "base s x \<noteq> pip s e" using dj(4) d(6) oj [OF x Some] by auto
    then show ?thesis using Some dj ox [OF x(2)] mutexes_okD(2) [OF ok x(1) m x(2)] pr(1) [OF oj [OF x Some]]
      by (simp add: mx_ok_def tb lv)
  qed
  have C: "prio s' j \<notin> wset s' x" if x: "is_mutex s x" "is_mutex s y" "owner s' y = Some j" for x y j
  proof (cases "y = e")
    case True
    then have k: "j \<noteq> i" "wset s' e = wset s e - {prio s j}" "\<forall>x. x \<noteq> e \<longrightarrow> prio s j \<notin> wset s x" using nw x(3) by auto
    then show ?thesis using pr(1) [OF k(1)] ox [of x] by (cases "x = e") auto
  next
    case False
    then have w: "owner s y = Some j" using ox [OF False] x(3) by simp
    then have "prio s j \<notin> wset s x" using mutexes_okD(4) [OF ok x(2,1)] by blast
    then show ?thesis using pr(1) [OF oj [OF x(2) False w]] sub [of x] by auto
  qed
  have D: "63 \<notin> wset s' x" if "is_mutex s x" for x using mutexes_okD(5) [OF ok that] sub by blast
  have E: "pip s' x \<noteq> pip s' y" if "is_mutex s x" "is_mutex s y" "x \<noteq> y" for x y
    using mutexes_okD(2) [OF ok that(1,2,3)] px pe by (cases "x = e"; cases "y = e") auto
  have F: "owner s' y \<noteq> Some j" if x: "is_mutex s x" "is_mutex s y" "x \<noteq> y" "owner s' x = Some j" for x y j
  proof -
    have a: "owner s z \<noteq> Some k" if "is_mutex s z" "owner s' e = Some k" for z k using nw that by (auto simp: owns_none_def)
    show ?thesis using mutexes_okD(3) [OF ok x(1,2,3)] x ox [of x] ox [of y] a by (cases "x = e"; cases "y = e") auto
  qed
  have "mx_ok s' x" if "is_mutex s x" for x using A B that by (cases "x = e") auto
  then show ?thesis unfolding mutexes_ok_def ty using C D E F by blast
qed

lemma rdy_at_prio: "unat p < 64 \<Longrightarrow> rdy_at_fields p t = prio_fields p t"
proof -
  assume p: "unat p < 64"
  have "drop_bit 3 p AND 7 = drop_bit 3 p"
    using p by (simp add: word_unat_eq_iff unat_and_7 unat_shift_3 del: unat_drop_bit_eq)
  then show ?thesis by (simp add: rdy_at_fields_def prio_fields_def)
qed

text \<open>The owner is back at its own priority and the ceiling reserved, in \<open>OSMutexPost\<close> before a waiter is made ready.\<close>

definition mutex_lower :: "nat \<Rightarrow> os \<Rightarrow> os" where
  "mutex_lower e s = set_slot (mx_pip (OSEventCnt (ev s e))) Reserved
     (if OSTCBPrio (tcb s (cur s)) = mx_pip (OSEventCnt (ev s e)) then OSMutex_RdyAtPrio (cur s) (mx_prio (OSEventCnt (ev s e))) s else s)"

lemma mutex_lower_spec:
  assumes ok: "mutexes_ok s" and kk: "ksafe s" and m: "is_mutex s e" and o: "owner s e = Some (cur s)" and lev: "task_level s"
  shows "kok (mutex_lower e s)" "live (mutex_lower e s) j = live s j" "prio (mutex_lower e s) (cur s) = base s e"
    "j \<noteq> cur s \<Longrightarrow> tcb (mutex_lower e s) j = tcb s j" "ev (mutex_lower e s) x = ev s x"
    "OSTCBPrioTbl (mutex_lower e s) = (OSTCBPrioTbl s)(pip s e := Reserved)" "OSTCBCur (mutex_lower e s) = OSTCBCur s"
    "OSIntNesting (mutex_lower e s) = 0" "OSLockNesting (mutex_lower e s) = 0"
    "rdyset (mutex_lower e s) = reprio (prio s (cur s)) (base s e) (rdyset s)"
    "prio s (cur s) \<noteq> pip s e \<Longrightarrow> mutex_lower e s = s"
proof -
  let ?i = "cur s" and ?s = "mutex_lower e s" and ?q = "mx_prio (OSEventCnt (ev s e))"
  note d = mx_ownerD [OF mutexes_okD(1) [OF ok m] o]
  have k: "kok s" "sched_ok s" and inv: "kinv s" using kk by (auto simp: kok_def)
  have n0: "OSIntNesting s = 0" "OSLockNesting s = 0" and fr: "prio s ?i \<notin> wset s x" for x using lev by (auto simp: task_level_def)
  have rc: "prio s ?i \<in> rdyset s" using running_ready [OF inv kokD(3) [OF k(1)] k(2) n0] .
  have eqp: "OSTCBPrio (tcb s ?i) = mx_pip (OSEventCnt (ev s e)) \<longleftrightarrow> prio s ?i = pip s e" by (simp add: word_unat_eq_iff)
  have same: "?s = s" if "prio s ?i \<noteq> pip s e"
  proof -
    have "(OSTCBPrioTbl s)(pip s e := Reserved) = OSTCBPrioTbl s" using d(6) that by auto
    then show ?thesis using that eqp by (simp add: mutex_lower_def set_slot_def)
  qed
  show "prio s ?i \<noteq> pip s e \<Longrightarrow> ?s = s" by (rule same)
  have "kok ?s \<and> (\<forall>j. live ?s j = live s j) \<and> prio ?s ?i = base s e \<and> (\<forall>j. j \<noteq> ?i \<longrightarrow> tcb ?s j = tcb s j) \<and> (\<forall>x. ev ?s x = ev s x) \<and>
    OSTCBPrioTbl ?s = (OSTCBPrioTbl s)(pip s e := Reserved) \<and> OSTCBCur ?s = OSTCBCur s \<and> OSIntNesting ?s = 0 \<and> OSLockNesting ?s = 0 \<and>
    rdyset ?s = reprio (prio s ?i) (base s e) (rdyset s)"
  proof (cases "prio s ?i = pip s e")
    case False
    then have b: "prio s ?i = base s e" "OSTCBPrioTbl s (pip s e) = Reserved" using d(6) by auto
    then have "reprio (prio s ?i) (base s e) (rdyset s) = rdyset s" using rc by (auto simp: reprio_def)
    moreover have "(OSTCBPrioTbl s)(pip s e := Reserved) = OSTCBPrioTbl s" using b(2) by auto
    ultimately show ?thesis using same [OF False] k(1) b n0 by simp
  next
    case True
    have q: "unat ?q < 64" using d(3) by simp
    have wf: "wf_tcb (tcb s ?i)" using kinv_wf [OF inv d(1)] .
    have wq: "wf_tcb (prio_fields ?q (tcb s ?i))" by (rule prio_fields_wf)
    have fields: "OSTCBTbl ?s = (OSTCBTbl s)(?i := prio_fields ?q (tcb s ?i))" "OSEventTbl_arr ?s = OSEventTbl_arr s"
      "OSTCBCur ?s = OSTCBCur s" "OSPrioCur ?s = ?q" "OSRunning ?s = OSRunning s" "OSEventFreeList ?s = OSEventFreeList s"
      "OSIntNesting ?s = OSIntNesting s" "OSLockNesting ?s = OSLockNesting s"
      "OSTCBPrioTbl ?s = (OSTCBPrioTbl s)(base s e := Tcb ?i, pip s e := Reserved)"
      using True eqp rdy_at_prio [OF q] by (simp_all add: mutex_lower_def OSMutex_RdyAtPrio_def Let_def set_slot_def upd_tcb_def
          rdy_set_def rdy_clear_def set_rdy_def)
    have rb: "rdy_bm ?s = bm_ins (unat ?q) (bm_del (prio s ?i) (rdy_bm s))"
      using True eqp rdy_at_prio [OF q] rdy_bm_set [OF wq] rdy_bm_clear [OF wf]
      by (simp add: mutex_lower_def OSMutex_RdyAtPrio_def Let_def set_slot_def upd_tcb_def rdy_bm_def)
    have tb: "OSTCBPrioTbl ?s = (OSTCBPrioTbl s)(pip s e := Reserved)" using fields(9) d(4) by auto
    have rs: "rdyset ?s = reprio (prio s ?i) (base s e) (rdyset s)" using rc q by (simp add: rdyset_def rb reprio_def bm.elems_ins bm.elems_del)
    have ws: "wset ?s x = reprio (prio s ?i) (base s e) (wset s x)" for x using fr by (simp add: wset_def fields reprio_def)
    have bo: "bm_ok (rdy_bm ?s)" "bm_ok (ev_bm (ev ?s x))" for x using kinv_rdy [OF inv] kinv_ev [OF inv] q by (simp_all add: rb bm.invar_ins bm.invar_del fields)
    have idle: "prio s ?i \<noteq> 63" using True d(2) by simp
    note kr = kinv_reprio [OF inv d(1) idle, where q = "base s e" and s' = ?s and t' = "prio_fields ?q (tcb s ?i)"]
    have kv: "kinv ?s" by (rule kr) (use q True d wq kinv_ev [OF inv] in \<open>simp_all add: tb bo rs ws fields\<close>)
    have lv: "live ?s j = live s j" for j by (rule kr) (use q True d wq kinv_ev [OF inv] in \<open>simp_all add: tb bo rs ws fields\<close>)
    have "evlist_ok ?s" using kokD(2) [OF k(1)] by (rule evlist_frame) (simp_all add: fields)
    moreover have "cur_ok ?s" unfolding cur_ok_def using kokD(3) [OF k(1)] lv
      by (intro conjI exI [of _ ?i]) (auto simp: cur_ok_def cur_def fields prio_fields_def)
    ultimately show ?thesis using kv lv tb rs n0 by (simp add: kok_def fields prio_fields_def)
  qed
  then show "kok ?s" "live ?s j = live s j" "prio ?s ?i = base s e" "j \<noteq> ?i \<Longrightarrow> tcb ?s j = tcb s j" "ev ?s x = ev s x"
    "OSTCBPrioTbl ?s = (OSTCBPrioTbl s)(pip s e := Reserved)" "OSTCBCur ?s = OSTCBCur s" "OSIntNesting ?s = 0" "OSLockNesting ?s = 0"
    "rdyset ?s = reprio (prio s ?i) (base s e) (rdyset s)" by blast+
qed

lemma ev_own_frame [simp]:
  "ev_bm (v\<lparr>OSEventCnt := c, OSEventPtr := p\<rparr>) = ev_bm v"
  by (simp add: ev_bm_def)

lemma mutex_post_spec:
  assumes ok: "mutexes_ok s" and kk: "ksafe s" and m: "is_mutex s e" and o: "OSTCBCur s = owner s e" and lev: "task_level s"
    and r: "OSMutexPost e s = (err, s')"
  shows "kok s'" "mutexes_ok s'" "wset s e \<noteq> {} \<or> prio s (cur s) \<noteq> pip s e \<Longrightarrow> sched_ok s'" "prio s' (cur s) = base s e"
    "if wset s e = {} then owner s' e = None \<and> err = OS_ERR_NONE
     else \<exists>k. live s k \<and> prio s k = Min (wset s e) \<and> owner s' e = Some k \<and> base s' e = prio s k \<and> wset s' e = wset s e - {prio s k} \<and>
       (err = OS_ERR_NONE \<or> err = OS_ERR_PIP_LOWER)"
proof -
  let ?L = "mutex_lower e s" and ?P = "mx_pip (OSEventCnt (ev s e))"
  have k: "kok s" "sched_ok s" and inv: "kinv s" using kk by (auto simp: kok_def)
  have cu: "OSTCBCur s = Some (cur s)" using kokD(3) [OF k(1)] by (auto simp: cur_ok_def cur_def)
  have ow: "owner s e = Some (cur s)" using o cu by simp
  note l = mutex_lower_spec [OF ok kk m ow lev]
  have n0: "OSIntNesting s = 0" and fr: "\<And>x. prio s (cur s) \<notin> wset s x" using lev by (auto simp: task_level_def)
  have wl: "wset ?L x = wset s x" for x by (simp add: wset_def l(5))
  have tl: "is_mutex ?L e" using m l(5) by simp
  have go: "OSMutexPost e s = (if OSEventGrp (ev ?L e) \<noteq> 0 then
      let (p3, s3) = OS_EventTaskRdy e PNull OS_STAT_MUTEX OS_STAT_PEND_OK ?L;
          s4 = upd_ev e (\<lambda>v. v\<lparr>OSEventCnt := mx_own p3 (OSEventCnt v), OSEventPtr := slot_ptr (OSTCBPrioTbl s3 (unat p3))\<rparr>) s3
      in (if p3 \<le> ?P then OS_ERR_PIP_LOWER else OS_ERR_NONE, OS_Sched s4)
    else (OS_ERR_NONE, upd_ev e (\<lambda>v. v\<lparr>OSEventCnt := OSEventCnt v OR OS_MUTEX_AVAILABLE, OSEventPtr := PNull\<rparr>) ?L))"
    using n0 m o by (simp add: OSMutexPost_def mutex_lower_def Let_def)
  have "kok s' \<and> mutexes_ok s' \<and> (wset s e \<noteq> {} \<or> prio s (cur s) \<noteq> pip s e \<longrightarrow> sched_ok s') \<and> prio s' (cur s) = base s e \<and>
    (if wset s e = {} then owner s' e = None \<and> err = OS_ERR_NONE
     else \<exists>k. live s k \<and> prio s k = Min (wset s e) \<and> owner s' e = Some k \<and> base s' e = prio s k \<and> wset s' e = wset s e - {prio s k} \<and>
       (err = OS_ERR_NONE \<or> err = OS_ERR_PIP_LOWER))"
  proof (cases "OSEventGrp (ev ?L e) = 0")
    case True
    have we: "wset s e = {}" using grp_zero_iff [OF kokD(1) [OF l(1)]] True wl by simp
    have s': "err = OS_ERR_NONE" "s' = upd_ev e (\<lambda>v. v\<lparr>OSEventCnt := OSEventCnt v OR OS_MUTEX_AVAILABLE, OSEventPtr := PNull\<rparr>) ?L"
      using r go True by simp_all
    have f: "ev s' x = (if x = e then (ev s e)\<lparr>OSEventCnt := OSEventCnt (ev s e) OR OS_MUTEX_AVAILABLE, OSEventPtr := PNull\<rparr> else ev s x)"
      "OSTCBTbl s' = OSTCBTbl ?L" "OSTCBPrioTbl s' = OSTCBPrioTbl ?L" for x using l(5) by (simp_all add: s' upd_ev_def)
    have "kok s'" unfolding s' using kok_upd_ev(1) [OF l(1)] tl by simp
    moreover have "sched_ok s'" if "prio s (cur s) \<noteq> pip s e"
    proof -
      have e: "?L = s" using l(11) [OF that] .
      show ?thesis using kok_upd_ev(2) [OF k(1) _ _ _ k(2)] m unfolding s' e by simp
    qed
    moreover have "mutexes_ok s'"
    proof (rule mutexes_release [OF ok m ow])
      show "live s' j = live s j" for j using l(2) [of j] by (simp add: live_def f)
      show "owner s' e = None \<and> base s' e = 255 \<and> wset s' e = {} \<or>
        (\<exists>k. owner s' e = Some k \<and> k \<noteq> cur s \<and> owns_none s k \<and> live s k \<and> prio s k \<in> wset s e \<and> base s' e = prio s k \<and>
          wset s' e = wset s e - {prio s k} \<and> (\<forall>x. x \<noteq> e \<longrightarrow> prio s k \<notin> wset s x))"
        using we by (simp add: f wset_def)
    qed (use l in \<open>simp_all add: f wset_def\<close>)
    ultimately show ?thesis using we l(3) s'(1) by (simp add: f)
  next
    case False
    have we: "wset s e \<noteq> {}" using grp_zero_iff [OF kokD(1) [OF l(1)]] False wl by simp
    obtain j where j: "live ?L j" "prio ?L j = Min (wset ?L e)" "prio ?L j \<in> wset ?L e"
      and rd: "OS_EventTaskRdy e PNull OS_STAT_MUTEX OS_STAT_PEND_OK ?L = (OSTCBPrio (tcb ?L j), wake j e PNull OS_STAT_MUTEX OS_STAT_PEND_OK ?L)"
      using EventTaskRdy_wake [OF kokD(1) [OF l(1)] False, of PNull OS_STAT_MUTEX OS_STAT_PEND_OK] by metis
    let ?w = "wake j e PNull OS_STAT_MUTEX OS_STAT_PEND_OK ?L"
    have wf: "prio ?L (cur s) \<noteq> prio ?L j"
    proof
      assume "prio ?L (cur s) = prio ?L j"
      moreover have "live ?L (cur s)" using l(2) cur_ok_live(1) [OF kokD(3) [OF k(1)]] by simp
      ultimately have "j = cur s" using live_inj [OF j(1)] by metis
      then have "base s e \<in> wset s e" using j(3) l(3) wl by simp
      then obtain i where i: "live s i" "prio s i = base s e" using kinv_wait_live [OF inv] by metis
      then have "i = cur s" using mx_ownerD(4) [OF mutexes_okD(1) [OF ok m] ow] by (simp add: live_def)
      then show False using i fr [of e] \<open>base s e \<in> wset s e\<close> by simp
    qed
    then have nj: "j \<noteq> cur s" by auto
    have tj: "tcb ?L j = tcb s j" using l(4) [OF nj] .
    have lj: "live s j" using j(1) l(2) by simp
    have pj: "prio s j \<in> wset s e" "prio s j = Min (wset s e)" using j tj wl by simp_all
    define s4 where "s4 = upd_ev e (\<lambda>v. v\<lparr>OSEventCnt := mx_own (OSTCBPrio (tcb s j)) (OSEventCnt v), OSEventPtr := PTcb j\<rparr>) ?w"
    have sl: "OSTCBPrioTbl ?L (prio s j) = Tcb j" using j(1) tj by (simp add: live_def)
    have s': "s' = OS_Sched s4" "err = OS_ERR_NONE \<or> err = OS_ERR_PIP_LOWER"
      using r False go tj by (auto simp: rd s4_def sl slot_ptr_def Let_def split: if_splits)
    have kw: "kok ?w" using mutex.kok_wake [OF l(1) tl j(1,3)] .
    have k4: "kok s4" unfolding s4_def using kok_upd_ev(1) [OF kw] tl by simp
    have f: "OSTCBPrio (tcb s4 i) = OSTCBPrio (tcb ?L i)" "OSTCBPrioTbl s4 = OSTCBPrioTbl ?L" for i
      by (cases "i = j"; simp add: s4_def upd_ev_def)+
    have g: "OSEventType (ev s4 x) = OSEventType (ev s x)" "x \<noteq> e \<Longrightarrow> OSEventCnt (ev s4 x) = OSEventCnt (ev s x)"
      "x \<noteq> e \<Longrightarrow> OSEventPtr (ev s4 x) = OSEventPtr (ev s x)" "OSEventPtr (ev s4 e) = PTcb j"
      "OSEventCnt (ev s4 e) = mx_own (OSTCBPrio (tcb s j)) (OSEventCnt (ev s e))" for x
      using l(5) by (simp_all add: s4_def upd_ev_def)
    have w4: "wset s4 x = (if x = e then wset s e - {prio s j} else wset s x)" for x
      using wset_wake [OF kokD(1) [OF l(1)] j(1), of e PNull OS_STAT_MUTEX OS_STAT_PEND_OK x] wl tj
      by (auto simp: s4_def wset_def upd_ev_def)
    have "mutexes_ok s4"
    proof (rule mutexes_release [OF ok m ow])
      show "live s4 i = live s i" for i using l(2) [of i] by (simp add: live_def f)
      have "owns_none s j" using mutexes_okD(4) [OF ok _ m] pj(1) by (auto simp: owns_none_def)
      moreover have "prio s j \<notin> wset s x" if "x \<noteq> e" for x using kinv_wait_unique [OF inv lj pj(1)] that by blast
      ultimately show "owner s4 e = None \<and> base s4 e = 255 \<and> wset s4 e = {} \<or>
        (\<exists>k. owner s4 e = Some k \<and> k \<noteq> cur s \<and> owns_none s k \<and> live s k \<and> prio s k \<in> wset s e \<and> base s4 e = prio s k \<and>
          wset s4 e = wset s e - {prio s k} \<and> (\<forall>x. x \<noteq> e \<longrightarrow> prio s k \<notin> wset s x))"
        using nj lj pj by (simp add: g w4)
    qed (use l in \<open>simp_all add: f g w4\<close>)
    then have "mutexes_ok s'" unfolding s'(1) by (rule mutexes_OS_Sched)
    moreover have "ksafe s'" unfolding s'(1) using kok_OS_Sched [OF k4] .
    moreover have "prio s' (cur s) = base s e" using l(3) by (simp add: s'(1) f)
    moreover have "owner s' e = Some j \<and> base s' e = prio s j \<and> wset s' e = wset s e - {prio s j}" by (simp add: s'(1) g w4)
    ultimately show ?thesis using we lj pj s'(2) by auto
  qed
  then show "kok s'" "mutexes_ok s'" "wset s e \<noteq> {} \<or> prio s (cur s) \<noteq> pip s e \<Longrightarrow> sched_ok s'" "prio s' (cur s) = base s e"
    "if wset s e = {} then owner s' e = None \<and> err = OS_ERR_NONE
     else \<exists>k. live s k \<and> prio s k = Min (wset s e) \<and> owner s' e = Some k \<and> base s' e = prio s k \<and> wset s' e = wset s e - {prio s k} \<and>
       (err = OS_ERR_NONE \<or> err = OS_ERR_PIP_LOWER)" by blast+
qed

section \<open>Pending\<close>

lemma mutex_take_fields:
  "owner (mutex_take e s) e = Some (cur s)" "base (mutex_take e s) e = prio s (cur s)" "pip (mutex_take e s) e = pip s e"
  by (simp_all add: mutex_take_def upd_ev_def)

lemma mutex_pend_spec:
  assumes ok: "mutexes_ok s" and kk: "ksafe s" and m: "is_mutex s e" and lev: "task_level s" and n: "owns_none s (cur s)"
    and idle: "OSPrioCur s \<noteq> OS_TASK_IDLE_PRIO" and st: "\<And>i. owner s e = Some i \<Longrightarrow> settled s i" and r: "OSMutexPend e tmo s = (res, s')"
  shows "ksafe s'" "mutexes_ok s'"
    "case owner s e of
       None \<Rightarrow> res = Some (if prio s (cur s) \<le> pip s e then OS_ERR_PIP_LOWER else OS_ERR_NONE) \<and> owner s' e = Some (cur s) \<and> base s' e = prio s (cur s)
     | Some i \<Rightarrow> res = None \<and> owner s' e = Some i \<and> prio s (cur s) \<in> wset s' e \<and> OSTCBCur s' \<noteq> OSTCBCur s \<and>
         prio s' i = (if prio s (cur s) < base s e \<and> pip s e < prio s i then pip s e else prio s i) \<and>
         (prio s i \<in> rdyset s \<and> prio s (cur s) < base s e \<longrightarrow> unat (OSPrioCur s') \<le> pip s e)"
proof -
  let ?c = "cur s" and ?P = "mx_pip (OSEventCnt (ev s e))"
  have k: "kok s" "sched_ok s" and inv: "kinv s" using kk by (auto simp: kok_def)
  have lc: "live s ?c" and pc: "prio s ?c = unat (OSPrioCur s)" using cur_ok_live [OF kokD(3) [OF k(1)]] by auto
  have n0: "OSIntNesting s = 0" "OSLockNesting s = 0" and fr: "\<And>x. prio s ?c \<notin> wset s x" using lev by (auto simp: task_level_def)
  have rc: "prio s ?c \<in> rdyset s" using running_ready [OF inv kokD(3) [OF k(1)] k(2) n0] .
  have i63: "prio s ?c \<noteq> 63" using idle pc by (metis word_unat_eq_iff unat_numeral_63)
  note mo = mutexes_okD(1) [OF ok m]
  note av = mx_avail [OF mo]
  have "ksafe s' \<and> mutexes_ok s' \<and> (case owner s e of
       None \<Rightarrow> res = Some (if prio s ?c \<le> pip s e then OS_ERR_PIP_LOWER else OS_ERR_NONE) \<and> owner s' e = Some ?c \<and> base s' e = prio s ?c
     | Some i \<Rightarrow> res = None \<and> owner s' e = Some i \<and> prio s ?c \<in> wset s' e \<and> OSTCBCur s' \<noteq> OSTCBCur s \<and>
         prio s' i = (if prio s ?c < base s e \<and> pip s e < prio s i then pip s e else prio s i) \<and>
         (prio s i \<in> rdyset s \<and> prio s ?c < base s e \<longrightarrow> unat (OSPrioCur s') \<le> pip s e))"
  proof (cases "owner s e")
    case None
    have "OSMutexPend e tmo s = (Some (if OSTCBPrio (tcb s ?c) \<le> ?P then OS_ERR_PIP_LOWER else OS_ERR_NONE), mutex_take e s)"
      using m n0 av None mx_available(2) [of "ev s e"] by (simp add: OSMutexPend_def)
    then show ?thesis using r mutexes_take [OF ok k(1) m None n fr i63] k(2) None mutex_take_fields [of e s] by (simp add: word_le_nat_alt)
  next
    case (Some i)
    note d = mx_ownerD [OF mo Some]
    have ic: "i \<noteq> ?c" using n m Some by (auto simp: owns_none_def)
    let ?b = "prio s ?c < base s e \<and> pip s e < prio s i"
    define s1 where "s1 = (if ?b then mutex_raise i ?P s else s)"
    have res: "res = None" "s' = OS_Sched (pend_block OS_STAT_MUTEX e tmo s1)"
      using r m n0 av Some mx_available(2) [of "ev s e"] by (auto simp: OSMutexPend_def Let_def s1_def word_less_nat_alt)
    have s1: "mutexes_ok s1 \<and> kok s1 \<and> (\<forall>j. live s1 j = live s j) \<and> rdyset s1 = (if ?b then reprio (prio s i) (pip s e) (rdyset s) else rdyset s)"
      using mutexes_raise [OF ok k(1) m Some _ st [OF Some] ic] ok k(1) by (auto simp: s1_def)
    have f: "OSTCBCur s1 = OSTCBCur s" "cur s1 = cur s" "OSIntNesting s1 = 0" "OSLockNesting s1 = 0" "OSPrioCur s1 = OSPrioCur s"
      "tcb s1 ?c = tcb s ?c" "OSEventType (ev s1 x) = OSEventType (ev s x)" "OSEventPtr (ev s1 x) = OSEventPtr (ev s x)"
      "prio s1 i = (if ?b then pip s e else prio s i)" for x
      using n0 ic by (simp_all add: s1_def prio_fields_def)
    have fr1: "prio s ?c \<notin> wset s1 x" for x
    proof (cases ?b)
      case True
      have "prio s ?c \<noteq> pip s e" using d(6) lc True by (auto simp: live_def)
      then show ?thesis using mutex_raise_bm(4) [OF inv d(1) _ st [OF Some], of ?P x] d(2) True fr [of x] by (auto simp: s1_def reprio_def)
    next
      case False
      show ?thesis unfolding s1_def if_not_P [OF False] by (rule fr)
    qed
    have rc1: "prio s ?c \<in> rdyset s1"
      using s1 rc live_inj [OF d(1) lc] ic by (auto simp: reprio_def)
    have b: "kok s'" "sched_ok s'" "OSTCBCur s' \<noteq> OSTCBCur s" "prio s ?c \<in> wset s' e"
      using mutex.block_ready [of s1 e tmo] s1 rc1 f m idle fr1 by (simp_all add: res(2))
    have o1: "owner s1 e \<noteq> None" "owns_none s1 (cur s1)" using Some n f by (simp_all add: owns_none_def)
    have "mutexes_ok s'" unfolding res(2)
      using mutexes_OS_Sched [OF mutexes_block [of s1 e]] s1 kokD(1) o1 f(2,6) lc i63 by simp
    moreover have "rdyset s' = rdyset s1 - {prio s ?c}"
      using pend_block_sets(1) [of s1 OS_STAT_MUTEX e tmo] s1 kokD(1) [of s1] f(2,6) lc by (simp add: res(2) rdyset_def bm.elems_del)
    moreover have n0': "OSIntNesting s' = 0" "OSLockNesting s' = 0" using f by (simp_all add: res(2))
    moreover have "unat (OSPrioCur s') \<le> pip s e" if h: "prio s i \<in> rdyset s" "prio s ?c < base s e"
    proof -
      have pi: "prio s1 i \<le> pip s e" "prio s1 i \<in> rdyset s1" using s1 f(9) h d(6) by (auto simp: reprio_def)
      moreover have "prio s1 i \<noteq> prio s ?c" using live_inj [of s1 i ?c] s1 d(1) lc f(6) ic by auto
      ultimately have "prio s1 i \<in> rdyset s'" using \<open>rdyset s' = _\<close> by simp
      then have "Min (rdyset s') \<le> prio s1 i" by (intro Min_le) (auto simp: rdyset_def)
      then show ?thesis using b(2) n0' pi(1) by (simp add: sched_ok_def)
    qed
    moreover have "prio s' i = prio s1 i" "owner s' e = Some i" using ic f Some by (simp_all add: res(2))
    ultimately show ?thesis using b res(1) Some f(9) by simp
  qed
  then show "ksafe s'" "mutexes_ok s'"
    "case owner s e of
       None \<Rightarrow> res = Some (if prio s (cur s) \<le> pip s e then OS_ERR_PIP_LOWER else OS_ERR_NONE) \<and> owner s' e = Some (cur s) \<and> base s' e = prio s (cur s)
     | Some i \<Rightarrow> res = None \<and> owner s' e = Some i \<and> prio s (cur s) \<in> wset s' e \<and> OSTCBCur s' \<noteq> OSTCBCur s \<and>
         prio s' i = (if prio s (cur s) < base s e \<and> pip s e < prio s i then pip s e else prio s i) \<and>
         (prio s i \<in> rdyset s \<and> prio s (cur s) < base s e \<longrightarrow> unat (OSPrioCur s') \<le> pip s e)" by blast+
qed

section \<open>Creating and deleting\<close>

lemma kok_set_slot:
  assumes ok: "kok s" and a: "\<And>k. OSTCBPrioTbl s (unat p) \<noteq> Tcb k" and b: "\<And>k. v \<noteq> Tcb k"
  shows "kok (set_slot p v s)" "live (set_slot p v s) j = live s j" "sched_ok s \<Longrightarrow> sched_ok (set_slot p v s)"
proof -
  let ?s = "set_slot p v s"
  show lv: "live ?s j = live s j" for j using a b by (auto simp: live_def set_slot_def)
  have t: "task_ok ?s i = task_ok s i" for i by (simp add: task_ok_def set_slot_def rdyset_def wset_def rdy_bm_def)
  have e: "rdy_bm ?s = rdy_bm s" "ev ?s x = ev s x" "tcb ?s i = tcb s i" "rdyset ?s = rdyset s" "wset ?s x = wset s x" for x i
    by (simp_all add: set_slot_def rdy_bm_def rdyset_def wset_def)
  have "live s i" if "OSTCBPrioTbl ?s q = Tcb i" for q i using that b kinv_slot [OF kokD(1) [OF ok], of q i] by (auto simp: set_slot_def split: if_splits)
  then have "kinv ?s" using kokD(1) [OF ok] unfolding kinv_def lv t e by blast
  moreover have "evlist_ok ?s" using kokD(2) [OF ok] by (rule evlist_frame) (simp_all add: set_slot_def)
  moreover have "cur_ok ?s" using kokD(3) [OF ok] lv by (auto simp: cur_ok_def e set_slot_def)
  ultimately show "kok ?s" by (simp add: kok_def)
  show "sched_ok s \<Longrightarrow> sched_ok ?s" by (erule sched_ok_core) (simp_all add: set_slot_def rdy_bm_def)
qed

lemma mx_slot: "mx_ok s e \<Longrightarrow> OSTCBPrioTbl s (pip s e) \<noteq> NoTcb"
  by (cases "owner s e") (auto simp: mx_ok_def)

lemma mutex_create_spec:
  assumes ok: "mutexes_ok s" and kk: "ksafe s" and p: "unat p < 64" and r: "OSMutexCreate p s = (res, err, s')"
  shows "ksafe s' \<and> mutexes_ok s' \<and> (res \<noteq> None \<longrightarrow> err = OS_ERR_NONE \<and> (\<exists>e. res = Some e \<and> is_mutex s' e \<and> owner s' e = None \<and> pip s' e = unat p))"
proof (cases "0 < OSIntNesting s \<or> OSTCBPrioTbl s (unat p) \<noteq> NoTcb")
  case True
  then show ?thesis using r ok kk by (auto simp: OSMutexCreate_def split: if_splits)
next
  case False
  then have ns: "OSTCBPrioTbl s (unat p) = NoTcb" and n0: "\<not> 0 < OSIntNesting s" by auto
  have k: "kok s" "sched_ok s" using kk by auto
  let ?s1 = "set_slot p Reserved s"
  note k1 = kok_set_slot [OF k(1), of p Reserved]
  have k1': "kok ?s1" "sched_ok ?s1" "live ?s1 j = live s j" for j using k1 ns k(2) by auto
  show ?thesis
  proof (cases "event_get ?s1")
    case (Pair g s2)
    show ?thesis
    proof (cases g)
      case None
      then have "s2 = ?s1" using Pair by (auto simp: event_get_def split: option.splits)
      moreover have "set_slot p NoTcb ?s1 = s" using ns by (simp add: set_slot_def fun_upd_idem)
      ultimately show ?thesis using r Pair None n0 ns ok kk by (simp add: OSMutexCreate_def)
    next
      case (Some e)
      have g: "event_get ?s1 = (Some e, s2)" using Pair Some by simp
      note d = event_get_SomeD [OF kokD(2) [OF k1'(1)] g]
      have s': "s' = event_init e OS_EVENT_TYPE_MUTEX (push_bit 8 (ucast p) OR OS_MUTEX_AVAILABLE) PNull s2" "res = Some e" "err = OS_ERR_NONE"
        using r g n0 ns by (simp_all add: OSMutexCreate_def)
      have ks: "ksafe s'" unfolding s'(1) using kok_event_get [OF k1'(1) g, of OS_EVENT_TYPE_MUTEX] k1'(2) by simp
      have nu: "\<not> is_mutex s e" using d(2) by (simp add: set_slot_def)
      have f: "x \<noteq> e \<Longrightarrow> ev s' x = ev s x" "OSTCBTbl s' = OSTCBTbl s" "OSTCBPrioTbl s' = (OSTCBPrioTbl s)(unat p := Reserved)" for x
        by (simp_all add: s'(1) d(3) event_init_def upd_ev_def set_slot_def)
      have fe: "is_mutex s' e" "mx_pip (OSEventCnt (ev s' e)) = p" "base s' e = 255" "owner s' e = None" "wset s' e = {}"
        by (simp_all add: s'(1) event_init_def upd_ev_def OS_EventWaitListInit_def wset_def ev_bm_def bm_empty_def [symmetric])
      have lv: "live s' j = live s j" for j using ns by (auto simp: live_def f)
      have "unat p \<noteq> 63" using kinv_rdy_live [OF kokD(1) [OF k(1)] kinv_idle [OF kokD(1) [OF k(1)]]] ns by (auto simp: live_def)
      then have "mx_ok s' e" using fe p by (simp add: mx_ok_def f)
      moreover have "mx_ok s' x \<and> pip s x \<noteq> unat p" if x: "is_mutex s x" "x \<noteq> e" for x
      proof -
        note mo = mutexes_okD(1) [OF ok x(1)]
        have "pip s x \<noteq> unat p" using mx_slot [OF mo] ns by auto
        then show ?thesis using mo ns x(2)
          by (cases "owner s x") (auto simp: mx_ok_def f lv wset_def)
      qed
      ultimately have "mutexes_ok s'" using ok nu fe unfolding mutexes_ok_def
        by (auto simp: f wset_def) (metis f(1) fe(2) fe(5) empty_iff wset_def option.distinct(1) fe(4))+
      then show ?thesis using ks s' fe by simp
    qed
  qed
qed

lemma mutexes_put:
  assumes ok: "mutexes_ok s" and m: "is_mutex s e" and rs: "OSTCBPrioTbl s (pip s e) = Reserved"
    and c: "OSEventCnt (ev s1 e) = OSEventCnt (ev s e)" "\<And>x. x \<noteq> e \<Longrightarrow> ev s1 x = ev s x"
    and t: "OSTCBPrioTbl s1 = OSTCBPrioTbl s" "\<And>j. OSTCBPrio (tcb s1 j) = OSTCBPrio (tcb s j)"
  shows "mutexes_ok (mutex_put e s1)"
proof -
  let ?s = "mutex_put e s1"
  have f: "\<not> is_mutex ?s e" "x \<noteq> e \<Longrightarrow> ev ?s x = ev s x" "OSTCBPrioTbl ?s = (OSTCBPrioTbl s)(pip s e := NoTcb)" "OSTCBPrio (tcb ?s j) = OSTCBPrio (tcb s j)" for x j
    using c t by (simp_all add: mutex_put_def event_put_def upd_ev_def set_slot_def)
  have lv: "live ?s j = live s j" for j using rs by (auto simp: live_def f)
  have A: "mx_ok ?s x" if x: "is_mutex s x" "x \<noteq> e" for x
  proof -
    note mo = mutexes_okD(1) [OF ok x(1)]
    have "pip s x \<noteq> pip s e" using mutexes_okD(2) [OF ok x(1) m x(2)] .
    then show ?thesis using mo rs x(2) by (cases "owner s x") (auto simp: mx_ok_def f lv wset_def)
  qed
  have B: "x \<noteq> e" "is_mutex s x" if "is_mutex ?s x" for x using that f(1) f(2) [of x] by (cases "x = e"; simp)+
  have W: "wset ?s x = wset s x" if "x \<noteq> e" for x using f(2) [OF that] by (simp add: wset_def)
  show ?thesis unfolding mutexes_ok_def
  proof (intro conjI allI impI; (elim conjE)?)
    fix x assume x: "is_mutex ?s x"
    show "mx_ok ?s x" using A B [OF x] by blast
    show "63 \<notin> wset ?s x" using W [OF B(1) [OF x]] B(2) [OF x] ok by (simp add: mutexes_ok_def)
  next
    fix x y assume x: "is_mutex ?s x" and y: "is_mutex ?s y" and n: "x \<noteq> y"
    note u = f(2) [OF B(1) [OF x]] f(2) [OF B(1) [OF y]]
    show "pip ?s x \<noteq> pip ?s y" unfolding u using ok n B(2) [OF x] B(2) [OF y] by (simp add: mutexes_ok_def)
    fix i assume "owner ?s x = Some i"
    then show "owner ?s y \<noteq> Some i" unfolding u using ok n B(2) [OF x] B(2) [OF y] unfolding mutexes_ok_def by blast
  next
    fix x y i assume x: "is_mutex ?s x" and y: "is_mutex ?s y" and i: "owner ?s y = Some i"
    show "prio ?s i \<notin> wset ?s x" unfolding W [OF B(1) [OF x]] f(4)
      using i ok B(2) [OF x] B(2) [OF y] unfolding f(2) [OF B(1) [OF y]] mutexes_ok_def by blast
  qed
qed

lemma mutex_del_spec:
  assumes ok: "mutexes_ok s" and kk: "ksafe s" and m: "is_mutex s e" "e < OS_MAX_EVENTS"
    and o: "\<And>i. owner s e = Some i \<Longrightarrow> prio s i \<noteq> pip s e"
  shows "\<exists>h err s'. OSMutexDel e opt s = Some (h, err, s') \<and> ksafe s' \<and> mutexes_ok s' \<and>
    (h = None \<longrightarrow> \<not> is_mutex s' e \<and> OSTCBPrioTbl s' (pip s e) = NoTcb)"
proof -
  have k: "kok s" "sched_ok s" using kk by auto
  have rs: "OSTCBPrioTbl s (pip s e) = Reserved"
  proof (cases "owner s e")
    case None
    then show ?thesis using mx_freeD(2) [OF mutexes_okD(1) [OF ok m(1)]] by blast
  next
    case (Some i)
    show ?thesis using mx_ownerD(6) [OF mutexes_okD(1) [OF ok m(1)] Some] o [OF Some] by blast
  qed
  obtain n s1 where r: "event_rdy_all e PNull OS_STAT_MUTEX OS_STAT_PEND_OK 0 s = Some (n, s1)" and k1: "kok s1" "wset s1 e = {}" "is_mutex s1 e"
    using mutex.drain [OF k(1) m(1)] by metis
  have keep: "f s1 = f s" if "\<And>s. f (snd (OS_EventTaskRdy e PNull OS_STAT_MUTEX OS_STAT_PEND_OK s)) = f s" for f :: "os \<Rightarrow> 'x"
    using event_rdy_all_keeps [where f = f, OF r that] by simp
  have f: "OSEventCnt (ev s1 e) = OSEventCnt (ev s e)" "x \<noteq> e \<Longrightarrow> ev s1 x = ev s x" "OSTCBPrioTbl s1 = OSTCBPrioTbl s"
    "OSTCBPrio (tcb s1 j) = OSTCBPrio (tcb s j)" for x j
    using keep [of "\<lambda>s. OSEventCnt (ev s e)"] keep [of "\<lambda>s. ev s x"] keep [of OSTCBPrioTbl] keep [of "\<lambda>s. OSTCBPrio (tcb s j)"]
    by (simp_all add: OS_EventTaskRdy_def OS_EventTaskRemove_def Let_def upd_ev_def upd_tcb_def set_rdy_def)
  have ks: "kok (set_slot (mx_pip (OSEventCnt (ev s1 e))) NoTcb s1)" using kok_set_slot(1) [OF k1(1)] rs f by simp
  have kp: "kok (mutex_put e s1)" unfolding mutex_put_def
    by (rule kok_event_put [OF ks m(2)]) (use k1 in \<open>simp_all add: set_slot_def wset_def\<close>)
  have mp: "mutexes_ok (mutex_put e s1)" using mutexes_put [OF ok m(1) rs f(1,2,3,4)] by blast
  have ps: "\<not> is_mutex (mutex_put e s1) e \<and> OSTCBPrioTbl (mutex_put e s1) (pip s e) = NoTcb"
    using f(1) by (simp add: mutex_put_def event_put_def upd_ev_def set_slot_def)
  have q: "s1 = s" if "OSEventGrp (ev s e) = 0" using r that by (subst (asm) event_rdy_all.simps) simp
  have sp: "sched_ok (mutex_put e s1)" if "OSEventGrp (ev s e) = 0"
  proof -
    have "rdy_bm (mutex_put e s) = rdy_bm s" "OSPrioCur (mutex_put e s) = OSPrioCur s" "OSIntNesting (mutex_put e s) = OSIntNesting s" "OSLockNesting (mutex_put e s) = OSLockNesting s"
      by (simp_all add: mutex_put_def event_put_def upd_ev_def set_slot_def rdy_bm_def)
    then show ?thesis using k(2) unfolding q [OF that] by (simp add: sched_ok_def rdyset_def)
  qed
  have nr: "(case owner s e of None \<Rightarrow> s | Some i \<Rightarrow> if OSTCBPrio (tcb s i) = mx_pip (OSEventCnt (ev s e))
      then OSMutex_RdyAtPrio i (mx_prio (OSEventCnt (ev s e))) s else s) = s" using o by (auto split: option.split)
  show ?thesis
  proof (cases "OSEventGrp (ev s e) = 0")
    case True
    then show ?thesis using ok kk m kp mp ps sp [OF True] r q [OF True] unfolding OSMutexDel_def Let_def nr by simp
  next
    case False
    have "ksafe (OS_Sched (mutex_put e s1))" using kok_OS_Sched [OF kp] .
    then show ?thesis using ok kk m mutexes_OS_Sched [OF mp] ps r False unfolding OSMutexDel_def Let_def nr by simp
  qed
qed

section \<open>Properties\<close>

definition mxex :: "u16 \<Rightarrow> nat \<Rightarrow> bool \<Rightarrow> os" where
  "mxex cnt i w = set_slot 3 Reserved (ex_os OS_EVENT_TYPE_MUTEX cnt (PTcb i) w)"

lemma mxex_facts:
  "ksafe (mxex cnt i w)" "live (mxex cnt i w) j \<longleftrightarrow> j < 3" "task_level (mxex cnt i w)" "OSTCBTbl (mxex cnt i w) = OSTCBTbl (ex_os OS_EVENT_TYPE_MUTEX cnt (PTcb i) w)"
  "is_mutex (mxex cnt i w) e \<longleftrightarrow> e = 0" "OSEventCnt (ev (mxex cnt i w) 0) = cnt" "OSEventPtr (ev (mxex cnt i w) 0) = PTcb i"
  "rdyset (mxex cnt i w) = rdyset (ex_os OS_EVENT_TYPE_MUTEX cnt (PTcb i) w)" "wset (mxex cnt i w) e = (if e = 0 \<and> w then {10} else {})"
  "cur (mxex cnt i w) = 1" "OSTCBCur (mxex cnt i w) = Some 1" "OSPrioCur (mxex cnt i w) = 5"
  "OSTCBPrioTbl (mxex cnt i w) = (\<lambda>_. NoTcb)(63 := Tcb 0, 5 := Tcb 1, 10 := Tcb 2, 3 := Reserved)"
proof -
  let ?e = "ex_os OS_EVENT_TYPE_MUTEX cnt (PTcb i) w"
  have s: "kok ?e" "sched_ok ?e" using ex_safe by (simp_all add: stat_mask_def)
  have n: "OSTCBPrioTbl ?e (unat (3::u8)) \<noteq> Tcb k" for k by (simp add: ex_os_def)
  show "ksafe (mxex cnt i w)" "live (mxex cnt i w) j \<longleftrightarrow> j < 3" unfolding mxex_def using kok_set_slot [OF s(1) n] s(2) ex_live by auto
  show "OSTCBTbl (mxex cnt i w) = OSTCBTbl ?e" "rdyset (mxex cnt i w) = rdyset ?e" "cur (mxex cnt i w) = 1"
    "OSTCBCur (mxex cnt i w) = Some 1" "OSPrioCur (mxex cnt i w) = 5" "OSEventCnt (ev (mxex cnt i w) 0) = cnt" "OSEventPtr (ev (mxex cnt i w) 0) = PTcb i"
    by (simp_all add: mxex_def set_slot_def rdyset_def rdy_bm_def ex_fields cur_def)
  show w: "wset (mxex cnt i w) e = (if e = 0 \<and> w then {10} else {})" for e using ex_wset [of OS_EVENT_TYPE_MUTEX cnt "PTcb i" w e] by (simp add: mxex_def set_slot_def wset_def)
  show "task_level (mxex cnt i w)" using ex_task_level [of OS_EVENT_TYPE_MUTEX cnt "PTcb i" w] by (simp add: task_level_def mxex_def set_slot_def cur_def wset_def)
  show "is_mutex (mxex cnt i w) e \<longleftrightarrow> e = 0" by (simp add: mxex_def set_slot_def ex_os_def ex_ev_def Let_def ev_zero_def)
  show "OSTCBPrioTbl (mxex cnt i w) = (\<lambda>_. NoTcb)(63 := Tcb 0, 5 := Tcb 1, 10 := Tcb 2, 3 := Reserved)" by (simp add: mxex_def set_slot_def ex_os_def)
qed

lemma mx_bytes: "mx_pip 0x030A = 3" "mx_prio 0x030A = 10" "mx_pip 0x0305 = 3" "mx_prio 0x0305 = 5"
  by (simp_all add: mx_pip_def mx_prio_def)

lemma mxex_ok: "mutexes_ok (mxex 0x030A 2 False)" "mutexes_ok (mxex 0x0305 1 True)"
  by (auto simp: mutexes_ok_def mx_ok_def mxex_facts mx_bytes ex_tcbs ex_fields)

text \<open>C15. Pending on a mutex: a mutex without an owner is taken; otherwise the caller blocks in its wait list, and an owner less
  urgent than the caller and than the ceiling is raised to the ceiling. As long as such an owner is
  ready, the processor goes to no task less urgent than the ceiling: the inversion of priorities is
  bounded. The caller owns no mutex, and the owner is not in the middle of a wait that has just ended.\<close>

theorem mutex_pend_inherits:
  assumes "mutexes_ok s" "ksafe s" "is_mutex s e" "task_level s" "owns_none s (cur s)" "OSPrioCur s \<noteq> OS_TASK_IDLE_PRIO"
    "\<And>i. owner s e = Some i \<Longrightarrow> settled s i" "OSMutexPend e tmo s = (res, s')"
  shows "ksafe s' \<and> mutexes_ok s' \<and>
    (case owner s e of
       None \<Rightarrow> res = Some (if prio s (cur s) \<le> pip s e then OS_ERR_PIP_LOWER else OS_ERR_NONE) \<and> owner s' e = Some (cur s) \<and> base s' e = prio s (cur s)
     | Some i \<Rightarrow> res = None \<and> owner s' e = Some i \<and> prio s (cur s) \<in> wset s' e \<and> OSTCBCur s' \<noteq> OSTCBCur s \<and>
         prio s' i = (if prio s (cur s) < base s e \<and> pip s e < prio s i then pip s e else prio s i) \<and>
         (prio s i \<in> rdyset s \<and> prio s (cur s) < base s e \<longrightarrow> unat (OSPrioCur s') \<le> pip s e))"
  using mutex_pend_spec [OF assms] by blast

theorem mutex_pend_inherits_witness:
  "prio (snd (OSMutexPend 0 0 (mxex 0x030A 2 False))) 2 = 3 \<and> unat (OSPrioCur (snd (OSMutexPend 0 0 (mxex 0x030A 2 False)))) \<le> 3"
proof -
  let ?s = "mxex 0x030A 2 False"
  have h: "is_mutex ?s 0" "owns_none ?s (cur ?s)" "OSPrioCur ?s \<noteq> OS_TASK_IDLE_PRIO" by (simp_all add: mxex_facts owns_none_def)
  have st: "owner ?s 0 = Some i \<Longrightarrow> settled ?s i" for i by (simp add: mxex_facts settled_def ex_tcbs)
  show ?thesis
    using mutex_pend_inherits [OF mxex_ok(1) mxex_facts(1) h(1) mxex_facts(3) h(2,3) st, of 0, OF _ prod.collapse [symmetric]]
    by (simp add: mxex_facts mx_bytes ex_tcbs ex_fields ex_rdyset)
qed

text \<open>C16. Posting a mutex: its owner is back at its own priority, the ceiling is reserved again, and the mutex goes to the most urgent
  waiter, or to nobody when none waits. The kernel stays well formed; the most urgent ready task has the processor
  afterwards unless the owner was raised and nobody waits any more, a case in which the code does
  not call the scheduler.\<close>

theorem mutex_post_hands_over:
  assumes "mutexes_ok s" "ksafe s" "is_mutex s e" "OSTCBCur s = owner s e" "task_level s" "OSMutexPost e s = (err, s')"
  shows "kok s' \<and> mutexes_ok s' \<and> (wset s e \<noteq> {} \<or> prio s (cur s) \<noteq> pip s e \<longrightarrow> sched_ok s') \<and> prio s' (cur s) = base s e \<and>
    (if wset s e = {} then owner s' e = None \<and> err = OS_ERR_NONE
     else \<exists>k. live s k \<and> prio s k = Min (wset s e) \<and> owner s' e = Some k \<and> base s' e = prio s k \<and> wset s' e = wset s e - {prio s k} \<and>
       (err = OS_ERR_NONE \<or> err = OS_ERR_PIP_LOWER))"
  using mutex_post_spec [OF assms] by blast

theorem mutex_post_hands_over_witness:
  "owner (snd (OSMutexPost 0 (mxex 0x0305 1 True))) 0 = Some 2 \<and> sched_ok (snd (OSMutexPost 0 (mxex 0x0305 1 True)))"
proof -
  let ?s = "mxex 0x0305 1 True"
  have h: "is_mutex ?s 0" "OSTCBCur ?s = owner ?s 0" by (simp_all add: mxex_facts)
  obtain k where k: "live ?s k" "prio ?s k = 10" "owner (snd (OSMutexPost 0 ?s)) 0 = Some k" "sched_ok (snd (OSMutexPost 0 ?s))"
    using mutex_post_hands_over [OF mxex_ok(2) mxex_facts(1) h mxex_facts(3) prod.collapse [symmetric]] by (auto simp: mxex_facts)
  have "k = 2" using k(1,2) less_3_cases [of k] by (auto simp: mxex_facts ex_fields)
  then show ?thesis using k by simp
qed

text \<open>A mutex that is created and deleted leaves the kernel well formed, its ceiling free again and the other mutexes as
  they were; creation fails without an effect when the ceiling is taken or no event is left.\<close>

theorem mutex_create_del:
  assumes ok: "mutexes_ok s" and kk: "ksafe s" and p: "unat p < 64" and r: "OSMutexCreate p s = (res, err, s1)"
  shows "case res of
      None \<Rightarrow> s1 = s
    | Some e \<Rightarrow> ksafe s1 \<and> mutexes_ok s1 \<and> is_mutex s1 e \<and> owner s1 e = None \<and> pip s1 e = unat p \<and>
        (\<exists>s2. OSMutexDel e OS_DEL_NO_PEND s1 = Some (None, OS_ERR_NONE, s2) \<and> ksafe s2 \<and> mutexes_ok s2 \<and> \<not> is_mutex s2 e \<and>
           OSTCBPrioTbl s2 = OSTCBPrioTbl s)"
proof (cases res)
  case None
  then show ?thesis using r by (auto simp: OSMutexCreate_def event_get_def set_slot_def fun_upd_idem Let_def split: if_splits option.splits prod.splits)
next
  case (Some e)
  note c = mutex_create_spec [OF ok kk p r]
  have e: "is_mutex s1 e" "owner s1 e = None" "pip s1 e = unat p" and k1: "ksafe s1" "mutexes_ok s1" using c Some by auto
  have d: "e < OS_MAX_EVENTS" "OSTCBPrioTbl s (unat p) = NoTcb" "OSTCBPrioTbl s1 = (OSTCBPrioTbl s)(unat p := Reserved)" "OSIntNesting s1 = 0"
  proof -
    obtain s2 where g: "event_get (set_slot p Reserved s) = (Some e, s2)" and q: "OSTCBPrioTbl s (unat p) = NoTcb" "OSIntNesting s = 0"
      and s1: "s1 = event_init e OS_EVENT_TYPE_MUTEX (push_bit 8 (ucast p) OR OS_MUTEX_AVAILABLE) PNull s2"
      using r Some by (auto simp: OSMutexCreate_def Let_def word_gt_0 split: if_splits option.splits prod.splits)
    have "kok (set_slot p Reserved s)" using kok_set_slot(1) [of s p Reserved] kk q by simp
    then have f: "e < OS_MAX_EVENTS" using event_get_SomeD [OF kokD(2) g] by blast
    have f2: "OSTCBPrioTbl s2 = (OSTCBPrioTbl s)(unat p := Reserved)" "OSIntNesting s2 = OSIntNesting s"
      using g by (auto simp: event_get_def set_slot_def split: option.splits)
    show "e < OS_MAX_EVENTS" "OSTCBPrioTbl s (unat p) = NoTcb" "OSTCBPrioTbl s1 = (OSTCBPrioTbl s)(unat p := Reserved)" "OSIntNesting s1 = 0"
      using f f2 q by (simp_all add: s1)
  qed
  have grp: "OSEventGrp (ev s1 e) = 0" using grp_zero_iff [of s1 e] k1(1) mx_freeD(3) [OF mutexes_okD(1) [OF k1(2) e(1)] e(2)] by (simp add: kok_def)
  then have del: "OSMutexDel e OS_DEL_NO_PEND s1 = Some (None, OS_ERR_NONE, mutex_put e s1)" using e d by (simp add: OSMutexDel_def)
  have "ksafe (mutex_put e s1) \<and> mutexes_ok (mutex_put e s1) \<and> \<not> is_mutex (mutex_put e s1) e"
    using mutex_del_spec [OF k1(2,1) e(1) d(1), of OS_DEL_NO_PEND] e(2) del by simp
  moreover have "OSTCBPrioTbl (mutex_put e s1) = OSTCBPrioTbl s" using d(2,3) e(3) by (simp add: mutex_put_def set_slot_def fun_upd_idem)
  ultimately show ?thesis using Some e k1 del by simp
qed

theorem mutex_create_del_witness:
  "\<exists>s2. OSMutexDel 1 OS_DEL_NO_PEND (snd (snd (OSMutexCreate 4 (mxex 0x030A 2 False)))) = Some (None, OS_ERR_NONE, s2) \<and> mutexes_ok s2"
proof -
  let ?s = "mxex 0x030A 2 False"
  have f: "fst (OSMutexCreate 4 ?s) = Some 1" by (simp add: OSMutexCreate_def mxex_def set_slot_def event_get_def ex_os_def os_bss_def)
  obtain err s1 where r: "OSMutexCreate 4 ?s = (Some 1, err, s1)" using f by (cases "OSMutexCreate 4 ?s") auto
  show ?thesis using mutex_create_del [OF mxex_ok(1) mxex_facts(1) _ r] r by auto
qed

end
