(* ===== verification/RingQueue.thy ===== *)
theory RingQueue
  imports OsState
begin

text \<open>
  The circular buffer of a message queue (\<open>OS_Q\<close> of demo/UCOSII/CORE/ucos_ii.h and the pointer arithmetic of
  demo/UCOSII/CORE/os_q.c): \<open>OSQStart\<close>, \<open>OSQEnd\<close>, \<open>OSQIn\<close> and \<open>OSQOut\<close> are byte addresses of cells
  of four bytes. The locale \<open>bounded_deque\<close> is what the queue services rely on.
\<close>

section \<open>The three moves\<close>

type_synonym ring = "os_q \<times> (nat \<Rightarrow> ptr)"

definition ring_put :: "ptr \<Rightarrow> ring \<Rightarrow> ring" where
  "ring_put pmsg r =
    (let pq = fst r; h = (snd r)(OSQIn pq := pmsg);
         pq1 = pq\<lparr>OSQIn := OSQIn pq + 4, OSQEntries := OSQEntries pq + 1\<rparr>
     in (if OSQIn pq1 = OSQEnd pq1 then pq1\<lparr>OSQIn := OSQStart pq1\<rparr> else pq1, h))"

definition ring_front :: "ptr \<Rightarrow> ring \<Rightarrow> ring" where
  "ring_front pmsg r =
    (let pq = fst r;
         pq1 = (if OSQOut pq = OSQStart pq then pq\<lparr>OSQOut := OSQEnd pq\<rparr> else pq);
         pq2 = pq1\<lparr>OSQOut := OSQOut pq1 - 4\<rparr>
     in (pq2\<lparr>OSQEntries := OSQEntries pq2 + 1\<rparr>, (snd r)(OSQOut pq2 := pmsg)))"

definition ring_get :: "ring \<Rightarrow> ptr \<times> ring" where
  "ring_get r =
    (let pq = fst r; pmsg = snd r (OSQOut pq);
         pq1 = pq\<lparr>OSQOut := OSQOut pq + 4, OSQEntries := OSQEntries pq - 1\<rparr>
     in (pmsg, if OSQOut pq1 = OSQEnd pq1 then pq1\<lparr>OSQOut := OSQStart pq1\<rparr> else pq1, snd r))"

section \<open>The buffer as a list\<close>

definition ring_ok :: "ring \<Rightarrow> bool" where
  "ring_ok r \<longleftrightarrow>
    (let pq = fst r; n = unat (OSQSize pq) in
     OSQEnd pq = OSQStart pq + 4 * n \<and> unat (OSQEntries pq) \<le> n \<and>
     (0 < n \<longrightarrow> (\<exists>i<n. OSQOut pq = OSQStart pq + 4 * i \<and>
        OSQIn pq = OSQStart pq + 4 * ((i + unat (OSQEntries pq)) mod n))))"

definition ring_list :: "ring \<Rightarrow> ptr list" where
  "ring_list r =
    (let pq = fst r; i = (OSQOut pq - OSQStart pq) div 4 in
     map (\<lambda>k. snd r (OSQStart pq + 4 * ((i + k) mod unat (OSQSize pq)))) [0..<unat (OSQEntries pq)])"

definition ring_cap :: "ring \<Rightarrow> nat" where
  "ring_cap r = unat (OSQSize (fst r))"

lemma length_ring_list [simp]: "length (ring_list r) = unat (OSQEntries (fst r))"
  by (simp add: ring_list_def Let_def)

lemma mod_ne:
  assumes "k < m" "m < (n::nat)"
  shows "(i + k) mod n \<noteq> (i + m) mod n"
proof
  assume "(i + k) mod n = (i + m) mod n"
  then have "n dvd m - k" using assms
    by (metis add_diff_cancel_left less_imp_le mod_eq_dvd_iff_nat nat_add_left_cancel_le)
  with assms show False by (metis diff_is_0_eq dvd_imp_le leD le_less_trans diff_le_self not_gr_zero)
qed

lemma ring_okE:
  assumes "ring_ok (pq, h)" "0 < unat (OSQSize pq)"
  obtains i where "i < unat (OSQSize pq)" "OSQOut pq = OSQStart pq + 4 * i"
    "OSQIn pq = OSQStart pq + 4 * ((i + unat (OSQEntries pq)) mod unat (OSQSize pq))"
    "OSQEnd pq = OSQStart pq + 4 * unat (OSQSize pq)" "unat (OSQEntries pq) \<le> unat (OSQSize pq)"
  using assms by (auto simp: ring_ok_def Let_def)

lemma entries_inc:
  assumes "unat (e::u16) < unat (n::u16)"
  shows "unat (e + 1) = Suc (unat e)"
proof -
  have "Suc (unat e) < 65536" using assms unat_u16_lt [of n] by linarith
  then show ?thesis by (simp add: unat_word_ariths)
qed

lemma entries_dec: "0 < unat (e::u16) \<Longrightarrow> unat (e - 1) = unat e - 1"
  by (simp add: unat_sub_if_size)

lemma upt_Cons_map: "[0..<Suc k] = 0 # map Suc [0..<k]"
  by (simp add: map_Suc_upt upt_conv_Cons del: upt_Suc)

lemma ring_put:
  assumes ok: "ring_ok r" and sp: "length (ring_list r) < ring_cap r"
  shows "ring_ok (ring_put m r)" and "ring_list (ring_put m r) = ring_list r @ [m]"
    and "ring_cap (ring_put m r) = ring_cap r"
proof -
  obtain pq h where r: "r = (pq, h)" by (cases r)
  define n where "n = unat (OSQSize pq)"
  define k where "k = unat (OSQEntries pq)"
  from sp have kn: "k < n" by (simp add: r ring_cap_def n_def k_def)
  obtain i where i: "i < n" "OSQOut pq = OSQStart pq + 4 * i"
    "OSQIn pq = OSQStart pq + 4 * ((i + k) mod n)" "OSQEnd pq = OSQStart pq + 4 * n"
    using ring_okE [OF ok [unfolded r]] kn by (auto simp: n_def k_def)
  have e: "unat (OSQEntries pq + 1) = Suc k" using entries_inc kn by (simp add: n_def k_def)
  have wrap: "(Suc (i + k)) mod n = (if Suc ((i + k) mod n) = n then 0 else Suc ((i + k) mod n))"
    by (simp add: mod_Suc)
  show "ring_ok (ring_put m r)"
    using i kn e wrap by (auto simp: r ring_put_def ring_ok_def Let_def simp flip: n_def k_def)
  show "ring_cap (ring_put m r) = ring_cap r" by (simp add: r ring_put_def ring_cap_def Let_def)
  have d: "(i + j) mod n \<noteq> (i + k) mod n" if "j < k" for j using mod_ne [OF that kn] .
  have l: "ring_list (ring_put m r) = map (\<lambda>j. (h(OSQIn pq := m)) (OSQStart pq + 4 * ((i + j) mod n))) [0..<Suc k]"
    using i e by (simp add: r ring_put_def ring_list_def Let_def n_def del: upt_Suc)
  have o: "ring_list r = map (\<lambda>j. h (OSQStart pq + 4 * ((i + j) mod n))) [0..<k]"
    using i by (simp add: r ring_list_def Let_def n_def k_def)
  show "ring_list (ring_put m r) = ring_list r @ [m]" unfolding l o using d i(3) by auto
qed

lemma ring_get:
  assumes ok: "ring_ok r" and l: "ring_list r = m # ms"
  shows "fst (ring_get r) = m" and "ring_ok (snd (ring_get r))" and "ring_list (snd (ring_get r)) = ms"
    and "ring_cap (snd (ring_get r)) = ring_cap r"
proof -
  obtain pq h where r: "r = (pq, h)" by (cases r)
  define n where "n = unat (OSQSize pq)"
  define k where "k = unat (OSQEntries pq)"
  have k0: "0 < k" using arg_cong [OF l, of length] by (simp add: r k_def)
  have kn: "k \<le> n" using ok by (simp add: r ring_ok_def Let_def n_def k_def)
  obtain i where i: "i < n" "OSQOut pq = OSQStart pq + 4 * i"
    "OSQIn pq = OSQStart pq + 4 * ((i + k) mod n)" "OSQEnd pq = OSQStart pq + 4 * n"
    using ring_okE [OF ok [unfolded r]] k0 kn by (auto simp: n_def k_def)
  have e: "unat (OSQEntries pq - 1) = k - 1" using entries_dec k0 by (simp add: k_def)
  define i' where "i' = (if Suc i = n then 0 else Suc i)"
  have i'n: "i' < n" using i(1) by (auto simp: i'_def)
  have i': "(i' + j) mod n = (i + Suc j) mod n" for j
  proof (cases "Suc i = n")
    case True
    then have "i + Suc j = n + j" by arith
    then have "(i + Suc j) mod n = j mod n" by (metis mod_add_self1)
    then show ?thesis using True by (simp only: i'_def if_True add_0 refl)
  qed (simp add: i'_def)
  have out: "OSQOut (fst (snd (ring_get r))) = OSQStart pq + 4 * i'"
    using i by (auto simp: r ring_get_def Let_def i'_def)
  have fr: "OSQStart (fst (snd (ring_get r))) = OSQStart pq" "OSQEnd (fst (snd (ring_get r))) = OSQEnd pq"
     "OSQSize (fst (snd (ring_get r))) = OSQSize pq" "OSQIn (fst (snd (ring_get r))) = OSQIn pq"
     "unat (OSQEntries (fst (snd (ring_get r)))) = k - 1" "snd (snd (ring_get r)) = h"
    using e by (simp_all add: r ring_get_def Let_def)
  show "ring_ok (snd (ring_get r))"
    using i i'n i' [of "k - 1"] k0 kn out by (auto simp: ring_ok_def Let_def fr simp flip: n_def)
  show "ring_cap (snd (ring_get r)) = ring_cap r" by (simp add: ring_cap_def fr) (simp add: r)
  have o: "ring_list r = map (\<lambda>j. h (OSQStart pq + 4 * ((i + j) mod n))) (0 # map Suc [0..<k - 1])"
    unfolding upt_Cons_map [symmetric] using i k0
    by (simp add: r ring_list_def Let_def n_def k_def del: upt_Suc)
  have "fst (ring_get r) = h (OSQStart pq + 4 * i)" using i by (simp add: r ring_get_def Let_def)
  then show "fst (ring_get r) = m" using l o i(1) by simp
  have "ring_list (snd (ring_get r)) = map (\<lambda>j. h (OSQStart pq + 4 * ((i' + j) mod n))) [0..<k - 1]"
    using out by (simp add: ring_list_def Let_def fr n_def)
  then show "ring_list (snd (ring_get r)) = ms" using l o by (auto simp: i' [simplified])
qed

lemma ring_front:
  assumes ok: "ring_ok r" and sp: "length (ring_list r) < ring_cap r"
  shows "ring_ok (ring_front m r)" and "ring_list (ring_front m r) = m # ring_list r"
    and "ring_cap (ring_front m r) = ring_cap r"
proof -
  obtain pq h where r: "r = (pq, h)" by (cases r)
  define n where "n = unat (OSQSize pq)"
  define k where "k = unat (OSQEntries pq)"
  from sp have kn: "k < n" by (simp add: r ring_cap_def n_def k_def)
  obtain i where i: "i < n" "OSQOut pq = OSQStart pq + 4 * i"
    "OSQIn pq = OSQStart pq + 4 * ((i + k) mod n)" "OSQEnd pq = OSQStart pq + 4 * n"
    using ring_okE [OF ok [unfolded r]] kn by (auto simp: n_def k_def)
  have e: "unat (OSQEntries pq + 1) = Suc k" using entries_inc kn by (simp add: n_def k_def)
  define i' where "i' = (if i = 0 then n - 1 else i - 1)"
  have i'n: "i' < n" using i(1) by (auto simp: i'_def)
  have i': "(i' + Suc j) mod n = (i + j) mod n" for j
  proof (cases "i = 0")
    case True
    then have "(i' + Suc j) mod n = (n + j) mod n" using i(1) by (simp add: i'_def)
    then show ?thesis using True by (simp only: mod_add_self1 add_0)
  qed (simp add: i'_def)
  have fr: "OSQStart (fst (ring_front m r)) = OSQStart pq" "OSQEnd (fst (ring_front m r)) = OSQEnd pq"
     "OSQSize (fst (ring_front m r)) = OSQSize pq" "OSQIn (fst (ring_front m r)) = OSQIn pq"
     "unat (OSQEntries (fst (ring_front m r))) = Suc k"
    using e by (simp_all add: r ring_front_def Let_def)
  have out: "OSQOut (fst (ring_front m r)) = OSQStart pq + 4 * i'"
    "snd (ring_front m r) = h(OSQStart pq + 4 * i' := m)"
    using i by (auto simp: r ring_front_def Let_def i'_def diff_mult_distrib2)
  show "ring_ok (ring_front m r)"
    using i i'n i' [of k] kn out by (auto simp: ring_ok_def Let_def fr simp flip: n_def)
  show "ring_cap (ring_front m r) = ring_cap r" by (simp add: ring_cap_def fr) (simp add: r)
  have d: "(i + j) mod n \<noteq> i'" if "j < k" for j
    using mod_ne [of 0 "Suc j" n i'] that kn i'n by (simp add: i' [of j, simplified])
  have "ring_list (ring_front m r) =
      map (\<lambda>j. (h(OSQStart pq + 4 * i' := m)) (OSQStart pq + 4 * ((i' + j) mod n))) (0 # map Suc [0..<k])"
    unfolding upt_Cons_map [symmetric] using out by (simp add: ring_list_def Let_def fr n_def del: upt_Suc)
  moreover have "ring_list r = map (\<lambda>j. h (OSQStart pq + 4 * ((i + j) mod n))) [0..<k]"
    using i by (simp add: r ring_list_def Let_def n_def k_def)
  ultimately show "ring_list (ring_front m r) = m # ring_list r" using d i'n by (auto simp: i' [simplified])
qed

text \<open>A move keeps the place of the buffer and writes inside it only.\<close>

definition q_span :: "os_q \<Rightarrow> nat set" where
  "q_span pq = {OSQStart pq..<OSQEnd pq}"

definition ring_step :: "ring \<Rightarrow> ring \<Rightarrow> bool" where
  "ring_step r r' \<longleftrightarrow> OSQStart (fst r') = OSQStart (fst r) \<and> OSQEnd (fst r') = OSQEnd (fst r) \<and>
     OSQPtr (fst r') = OSQPtr (fst r) \<and> ring_ok r' \<and> (\<forall>a. a \<notin> q_span (fst r) \<longrightarrow> snd r' a = snd r a)"

lemma ring_list_cong:
  assumes ok: "ring_ok (pq, h)" and eq: "\<And>a. a \<in> q_span pq \<Longrightarrow> h' a = h a"
  shows "ring_list (pq, h') = ring_list (pq, h)"
proof -
  have "OSQStart pq + 4 * (j mod unat (OSQSize pq)) \<in> q_span pq" if "unat (OSQEntries pq) \<noteq> 0" for j
    using ok that by (auto simp: q_span_def ring_ok_def Let_def)
  then show ?thesis using eq by (auto simp: ring_list_def Let_def)
qed

lemma ring_step_put:
  assumes "ring_ok r" "length (ring_list r) < ring_cap r"
  shows "ring_step r (ring_put m r)"
proof -
  have "OSQIn (fst r) \<in> q_span (fst r)"
    using assms by (cases r) (auto simp: ring_ok_def Let_def q_span_def ring_cap_def)
  then show ?thesis using ring_put(1) [OF assms, of m]
    by (auto simp: ring_step_def) (auto simp: ring_put_def Let_def)
qed

lemma ring_step_front:
  assumes "ring_ok r" "length (ring_list r) < ring_cap r"
  shows "ring_step r (ring_front m r)"
proof -
  have n: "0 < unat (OSQSize (fst r))" using assms(2) by (simp add: ring_cap_def)
  obtain pq h where r: "r = (pq, h)" by (cases r)
  obtain i where "i < unat (OSQSize pq)" "OSQOut pq = OSQStart pq + 4 * i"
    "OSQEnd pq = OSQStart pq + 4 * unat (OSQSize pq)"
    using ring_okE [OF assms(1) [unfolded r]] n r by auto
  then have "(if OSQOut (fst r) = OSQStart (fst r) then OSQEnd (fst r) else OSQOut (fst r)) - 4 \<in> q_span (fst r)"
    by (auto simp: r q_span_def)
  then show ?thesis using ring_front(1) [OF assms, of m]
    by (auto simp: ring_step_def split: if_splits) (auto simp: ring_front_def Let_def split: if_splits)
qed

lemma ring_step_get:
  assumes "ring_ok r" "ring_list r \<noteq> []"
  shows "ring_step r (snd (ring_get r))"
proof -
  have "ring_ok (snd (ring_get r))" using assms ring_get(2) by (cases "ring_list r") auto
  then show ?thesis by (auto simp: ring_step_def) (auto simp: ring_get_def Let_def)
qed

section \<open>The interface of a bounded queue\<close>

fun drain :: "('r \<Rightarrow> 'm \<times> 'r) \<Rightarrow> nat \<Rightarrow> 'r \<Rightarrow> 'm list" where
  "drain get 0 r = []"
| "drain get (Suc n) r = fst (get r) # drain get n (snd (get r))"

locale bounded_deque =
  fixes put :: "'m \<Rightarrow> 'r \<Rightarrow> 'r" and front :: "'m \<Rightarrow> 'r \<Rightarrow> 'r" and get :: "'r \<Rightarrow> 'm \<times> 'r"
    and elems :: "'r \<Rightarrow> 'm list" and cap :: "'r \<Rightarrow> nat" and invar :: "'r \<Rightarrow> bool"
  assumes put_elems: "invar r \<Longrightarrow> length (elems r) < cap r \<Longrightarrow> elems (put m r) = elems r @ [m]"
    and put_invar: "invar r \<Longrightarrow> length (elems r) < cap r \<Longrightarrow> invar (put m r)"
    and put_cap: "invar r \<Longrightarrow> length (elems r) < cap r \<Longrightarrow> cap (put m r) = cap r"
    and front_elems: "invar r \<Longrightarrow> length (elems r) < cap r \<Longrightarrow> elems (front m r) = m # elems r"
    and front_invar: "invar r \<Longrightarrow> length (elems r) < cap r \<Longrightarrow> invar (front m r)"
    and front_cap: "invar r \<Longrightarrow> length (elems r) < cap r \<Longrightarrow> cap (front m r) = cap r"
    and get_fst: "invar r \<Longrightarrow> elems r \<noteq> [] \<Longrightarrow> fst (get r) = hd (elems r)"
    and get_elems: "invar r \<Longrightarrow> elems r \<noteq> [] \<Longrightarrow> elems (snd (get r)) = tl (elems r)"
    and get_invar: "invar r \<Longrightarrow> elems r \<noteq> [] \<Longrightarrow> invar (snd (get r))"
    and get_cap: "invar r \<Longrightarrow> elems r \<noteq> [] \<Longrightarrow> cap (snd (get r)) = cap r"
begin

lemma puts:
  "invar r \<Longrightarrow> length (elems r) + length ms \<le> cap r \<Longrightarrow>
   elems (fold put ms r) = elems r @ ms \<and> invar (fold put ms r) \<and> cap (fold put ms r) = cap r"
proof (induction ms arbitrary: r)
  case (Cons m ms)
  then have "length (elems r) < cap r" by simp
  then show ?case using Cons put_elems put_invar put_cap by simp
qed simp

lemma drains: "invar r \<Longrightarrow> n \<le> length (elems r) \<Longrightarrow> drain get n r = take n (elems r)"
proof (induction n arbitrary: r)
  case (Suc n)
  then have ne: "elems r \<noteq> []" by auto
  then obtain m ms where e: "elems r = m # ms" by (cases "elems r") auto
  then show ?case using Suc get_fst [OF Suc.prems(1) ne] get_elems [OF Suc.prems(1) ne]
      get_invar [OF Suc.prems(1) ne] by simp
qed simp

lemma fifo:
  assumes "invar r" "elems r = []" "length ms \<le> cap r"
  shows "drain get (length ms) (fold put ms r) = ms"
  using puts [of r ms] drains [of "fold put ms r" "length ms"] assms by simp

lemma front_get: "invar r \<Longrightarrow> length (elems r) < cap r \<Longrightarrow> fst (get (front m r)) = m"
  by (simp add: get_fst front_invar front_elems)

end

interpretation ring: bounded_deque ring_put ring_front ring_get ring_list ring_cap ring_ok
proof
  fix r :: ring and m
  show "fst (ring_get r) = hd (ring_list r)" "ring_list (snd (ring_get r)) = tl (ring_list r)"
    "ring_ok (snd (ring_get r))" "ring_cap (snd (ring_get r)) = ring_cap r"
    if "ring_ok r" "ring_list r \<noteq> []"
    using that by (cases "ring_list r"; simp add: ring_get)+
qed (simp_all add: ring_put ring_front)

end
