(* ===== verification/OsQ.thy ===== *)
theory OsQ
  imports OsExample RingQueue
begin

text \<open>
  Message queues, demo/UCOSII/CORE/os_q.c: an event whose \<open>OSEventPtr\<close> names an \<open>OS_Q\<close>, the circular buffer
  of \<open>RingQueue\<close> in storage the caller of \<open>OSQCreate\<close> provides. \<open>qs_ok\<close> says that the
  queues in use own distinct control blocks and disjoint storage and that the other
  control blocks are in the free list.
\<close>

section \<open>Operations\<close>

text \<open>The cast of the \<open>void *\<close> in \<open>OSEventPtr\<close> of a queue event to \<open>OS_Q *\<close>.\<close>

fun q_link :: "ptr \<Rightarrow> nat option" where
  "q_link (PQ q) = Some q"
| "q_link _ = None"

definition ev_q :: "os \<Rightarrow> nat \<Rightarrow> nat" where
  "ev_q s e = the (q_link (OSEventPtr (ev s e)))"

definition upd_q :: "nat \<Rightarrow> (os_q \<Rightarrow> os_q) \<Rightarrow> os \<Rightarrow> os" where
  "upd_q q f s = s\<lparr>OSQTbl := (OSQTbl s)(q := f (OSQTbl s q))\<rparr>"

definition ring_of :: "os \<Rightarrow> nat \<Rightarrow> ring" where
  "ring_of s q = (OSQTbl s q, OSHeap s)"

definition set_ring :: "nat \<Rightarrow> ring \<Rightarrow> os \<Rightarrow> os" where
  "set_ring q r s = s\<lparr>OSQTbl := (OSQTbl s)(q := fst r), OSHeap := snd r\<rparr>"

definition OSQAccept :: "nat \<Rightarrow> os \<Rightarrow> ptr \<times> u8 \<times> os" where
  "OSQAccept e s =
    (if OSEventType (ev s e) \<noteq> OS_EVENT_TYPE_Q then (PNull, OS_ERR_EVENT_TYPE, s)
     else let q = ev_q s e in
       if 0 < OSQEntries (OSQTbl s q)
       then (fst (ring_get (ring_of s q)), OS_ERR_NONE, set_ring q (snd (ring_get (ring_of s q))) s)
       else (PNull, OS_ERR_Q_EMPTY, s))"

definition OSQCreate :: "nat \<Rightarrow> u16 \<Rightarrow> os \<Rightarrow> nat option \<times> os" where
  "OSQCreate start sz s =
    (if 0 < OSIntNesting s then (None, s)
     else case event_get s of
            (None, s1) \<Rightarrow> (None, s1)
          | (Some e, s1) \<Rightarrow>
             (case OSQFreeList s1 of
                Some q \<Rightarrow>
                  let s2 = s1\<lparr>OSQFreeList := OSQPtr (OSQTbl s1 q)\<rparr>;
                      s3 = upd_q q (\<lambda>pq. pq\<lparr>OSQStart := start, OSQEnd := start + 4 * unat sz,
                             OSQIn := start, OSQOut := start, OSQSize := sz, OSQEntries := 0\<rparr>) s2
                  in (Some e, event_init e OS_EVENT_TYPE_Q 0 (PQ q) s3)
              | None \<Rightarrow>
                  (None, (upd_ev e (\<lambda>v. v\<lparr>OSEventPtr := ptr_of_ev (OSEventFreeList s1)\<rparr>) s1)
                           \<lparr>OSEventFreeList := Some e\<rparr>)))"

text \<open>The \<open>OS_Q\<close> goes back to its free list, then the event to its own.\<close>

definition q_put_back :: "nat \<Rightarrow> os \<Rightarrow> os" where
  "q_put_back e s =
    (let q = ev_q s e
     in event_put e ((upd_q q (\<lambda>pq. pq\<lparr>OSQPtr := OSQFreeList s\<rparr>) s)\<lparr>OSQFreeList := Some q\<rparr>))"

definition OSQDel :: "nat \<Rightarrow> u8 \<Rightarrow> os \<Rightarrow> (nat option \<times> u8 \<times> os) option" where
  "OSQDel e opt s =
    (if OSEventType (ev s e) \<noteq> OS_EVENT_TYPE_Q then Some (Some e, OS_ERR_EVENT_TYPE, s)
     else if 0 < OSIntNesting s then Some (Some e, OS_ERR_DEL_ISR, s)
     else let tasks_waiting = (OSEventGrp (ev s e) \<noteq> 0) in
       if opt = OS_DEL_NO_PEND then
         if \<not> tasks_waiting then Some (None, OS_ERR_NONE, q_put_back e s)
         else Some (Some e, OS_ERR_TASK_WAITING, s)
       else if opt = OS_DEL_ALWAYS then
         (case event_rdy_all e PNull OS_STAT_Q OS_STAT_PEND_OK 0 s of
            None \<Rightarrow> None
          | Some (_, s1) \<Rightarrow>
              let s2 = q_put_back e s1
              in Some (None, OS_ERR_NONE, if tasks_waiting then OS_Sched s2 else s2))
       else Some (Some e, OS_ERR_INVALID_OPT, s))"

definition OSQFlush :: "nat \<Rightarrow> os \<Rightarrow> u8 \<times> os" where
  "OSQFlush e s = (OS_ERR_NONE, upd_q (ev_q s e)
     (\<lambda>pq. pq\<lparr>OSQIn := OSQStart pq, OSQOut := OSQStart pq, OSQEntries := 0\<rparr>) s)"

definition OSQPend :: "nat \<Rightarrow> u32 \<Rightarrow> os \<Rightarrow> (ptr \<times> u8) option \<times> os" where
  "OSQPend e timeout s =
    (if OSEventType (ev s e) \<noteq> OS_EVENT_TYPE_Q then (Some (PNull, OS_ERR_EVENT_TYPE), s)
     else if 0 < OSIntNesting s then (Some (PNull, OS_ERR_PEND_ISR), s)
     else if 0 < OSLockNesting s then (Some (PNull, OS_ERR_PEND_LOCKED), s)
     else let q = ev_q s e in
       if 0 < OSQEntries (OSQTbl s q)
       then (Some (fst (ring_get (ring_of s q)), OS_ERR_NONE), set_ring q (snd (ring_get (ring_of s q))) s)
       else (None, OS_Sched (pend_block OS_STAT_Q e timeout s)))"

definition OSQPend_return :: "nat \<Rightarrow> os \<Rightarrow> ptr \<times> u8 \<times> os" where
  "OSQPend_return e s = pend_finish_msg e s"

definition OSQPendAbort :: "nat \<Rightarrow> u8 \<Rightarrow> os \<Rightarrow> (u8 \<times> u8 \<times> os) option" where
  "OSQPendAbort e opt s =
    (if OSEventType (ev s e) \<noteq> OS_EVENT_TYPE_Q then Some (0, OS_ERR_EVENT_TYPE, s)
     else if OSEventGrp (ev s e) \<noteq> 0 then
       if opt = OS_PEND_OPT_BROADCAST then
         (case event_rdy_all e PNull OS_STAT_Q OS_STAT_PEND_ABORT 0 s of
            None \<Rightarrow> None
          | Some (nbr, s1) \<Rightarrow> Some (nbr, OS_ERR_PEND_ABORT, OS_Sched s1))
       else Some (1, OS_ERR_PEND_ABORT,
              OS_Sched (snd (OS_EventTaskRdy e PNull OS_STAT_Q OS_STAT_PEND_ABORT s)))
     else Some (0, OS_ERR_NONE, s))"

definition OSQPost :: "nat \<Rightarrow> ptr \<Rightarrow> os \<Rightarrow> u8 \<times> os" where
  "OSQPost e pmsg s =
    (if OSEventType (ev s e) \<noteq> OS_EVENT_TYPE_Q then (OS_ERR_EVENT_TYPE, s)
     else if OSEventGrp (ev s e) \<noteq> 0
       then (OS_ERR_NONE, OS_Sched (snd (OS_EventTaskRdy e pmsg OS_STAT_Q OS_STAT_PEND_OK s)))
     else let q = ev_q s e; pq = OSQTbl s q in
       if OSQSize pq \<le> OSQEntries pq then (OS_ERR_Q_FULL, s)
       else (OS_ERR_NONE, set_ring q (ring_put pmsg (ring_of s q)) s))"

definition OSQPostFront :: "nat \<Rightarrow> ptr \<Rightarrow> os \<Rightarrow> u8 \<times> os" where
  "OSQPostFront e pmsg s =
    (if OSEventType (ev s e) \<noteq> OS_EVENT_TYPE_Q then (OS_ERR_EVENT_TYPE, s)
     else if OSEventGrp (ev s e) \<noteq> 0
       then (OS_ERR_NONE, OS_Sched (snd (OS_EventTaskRdy e pmsg OS_STAT_Q OS_STAT_PEND_OK s)))
     else let q = ev_q s e; pq = OSQTbl s q in
       if OSQSize pq \<le> OSQEntries pq then (OS_ERR_Q_FULL, s)
       else (OS_ERR_NONE, set_ring q (ring_front pmsg (ring_of s q)) s))"

definition OSQPostOpt :: "nat \<Rightarrow> ptr \<Rightarrow> u8 \<Rightarrow> os \<Rightarrow> (u8 \<times> os) option" where
  "OSQPostOpt e pmsg opt s =
    (if OSEventType (ev s e) \<noteq> OS_EVENT_TYPE_Q then Some (OS_ERR_EVENT_TYPE, s)
     else if OSEventGrp (ev s e) \<noteq> 0 then
       (case (if opt AND OS_POST_OPT_BROADCAST \<noteq> 0
              then map_option snd (event_rdy_all e pmsg OS_STAT_Q OS_STAT_PEND_OK 0 s)
              else Some (snd (OS_EventTaskRdy e pmsg OS_STAT_Q OS_STAT_PEND_OK s))) of
          None \<Rightarrow> None
        | Some s1 \<Rightarrow> Some (OS_ERR_NONE, if opt AND OS_POST_OPT_NO_SCHED = 0 then OS_Sched s1 else s1))
     else let q = ev_q s e; pq = OSQTbl s q in
       if OSQSize pq \<le> OSQEntries pq then Some (OS_ERR_Q_FULL, s)
       else if opt AND OS_POST_OPT_FRONT \<noteq> 0
         then Some (OS_ERR_NONE, set_ring q (ring_front pmsg (ring_of s q)) s)
         else Some (OS_ERR_NONE, set_ring q (ring_put pmsg (ring_of s q)) s))"

text \<open>On success: the next message, \<open>OSNMsgs\<close>, \<open>OSQSize\<close>, and the wait list.\<close>

definition OSQQuery :: "nat \<Rightarrow> os \<Rightarrow> u8 \<times> (ptr \<times> u16 \<times> u16 \<times> u8 \<times> (nat \<Rightarrow> u8)) option" where
  "OSQQuery e s =
    (if OSEventType (ev s e) \<noteq> OS_EVENT_TYPE_Q then (OS_ERR_EVENT_TYPE, None)
     else let pq = OSQTbl s (ev_q s e) in
       (OS_ERR_NONE, Some (if 0 < OSQEntries pq then OSHeap s (OSQOut pq) else PNull,
          OSQEntries pq, OSQSize pq, OSEventGrp (ev s e), OSEventTbl (ev s e))))"

definition OS_QInit :: "os \<Rightarrow> os" where
  "OS_QInit s =
     s\<lparr>OSQTbl := fold (\<lambda>ix t. t(ix := (t ix)\<lparr>OSQPtr := Some (ix + 1)\<rparr>)) [0..<OS_MAX_QS - 1] (\<lambda>_. q_zero),
       OSQFreeList := Some 0\<rparr>"

interpretation queue: wait_service OS_EVENT_TYPE_Q OS_STAT_Q
  by unfold_locales (simp_all add: stat_mask_def)

section \<open>The invariant of the queues\<close>

definition is_q :: "os \<Rightarrow> nat \<Rightarrow> bool" where
  "is_q s e \<longleftrightarrow> OSEventType (ev s e) = OS_EVENT_TYPE_Q"

definition qs_ok :: "os \<Rightarrow> bool" where
  "qs_ok s \<longleftrightarrow>
     (\<forall>e. is_q s e \<longrightarrow> OSEventPtr (ev s e) = PQ (ev_q s e) \<and> ev_q s e < OS_MAX_QS \<and>
        ring_ok (ring_of s (ev_q s e))) \<and>
     (\<forall>e x. is_q s e \<and> is_q s x \<and> e \<noteq> x \<longrightarrow> ev_q s e \<noteq> ev_q s x \<and>
        q_span (OSQTbl s (ev_q s e)) \<inter> q_span (OSQTbl s (ev_q s x)) = {}) \<and>
     (\<exists>fl. chain (\<lambda>q. OSQPtr (OSQTbl s q)) (OSQFreeList s) fl \<and>
        set fl = {q. q < OS_MAX_QS \<and> (\<forall>e. is_q s e \<longrightarrow> ev_q s e \<noteq> q)})"

definition q_msgs :: "os \<Rightarrow> nat \<Rightarrow> ptr list" where
  "q_msgs s e = ring_list (ring_of s (ev_q s e))"

definition q_size :: "os \<Rightarrow> nat \<Rightarrow> nat" where
  "q_size s e = ring_cap (ring_of s (ev_q s e))"

lemma qs_frame:
  assumes "qs_ok s" "OSQTbl s' = OSQTbl s" "OSQFreeList s' = OSQFreeList s" "OSHeap s' = OSHeap s"
    "\<And>e. is_q s' e = is_q s e" "\<And>e. is_q s e \<Longrightarrow> OSEventPtr (ev s' e) = OSEventPtr (ev s e)"
  shows "qs_ok s'"
proof -
  have q: "is_q s e \<Longrightarrow> ev_q s' e = ev_q s e" for e using assms(6) [of e] by (simp add: ev_q_def)
  have r: "ring_of s' k = ring_of s k" for k using assms by (simp add: ring_of_def)
  have f: "(\<forall>e. is_q s e \<longrightarrow> ev_q s' e \<noteq> k) = (\<forall>e. is_q s e \<longrightarrow> ev_q s e \<noteq> k)" for k using q by metis
  show ?thesis using assms(1) unfolding qs_ok_def assms(2,3,5) r f
    by (simp add: q assms(6) cong: conj_cong imp_cong)
qed

lemma set_ring_frame [simp]:
  "OSEventTbl_arr (set_ring q r s) = OSEventTbl_arr s" "OSTCBTbl (set_ring q r s) = OSTCBTbl s"
  "OSTCBPrioTbl (set_ring q r s) = OSTCBPrioTbl s" "rdy_bm (set_ring q r s) = rdy_bm s"
  "OSEventFreeList (set_ring q r s) = OSEventFreeList s" "OSRunning (set_ring q r s) = OSRunning s"
  "OSTCBCur (set_ring q r s) = OSTCBCur s" "OSPrioCur (set_ring q r s) = OSPrioCur s"
  "OSIntNesting (set_ring q r s) = OSIntNesting s" "OSLockNesting (set_ring q r s) = OSLockNesting s"
  "is_q (set_ring q r s) = is_q s" "ev_q (set_ring q r s) = ev_q s" "wset (set_ring q r s) x = wset s x"
  by (simp_all add: set_ring_def rdy_bm_def is_q_def ev_q_def fun_eq_iff wset_def)

lemma ksafe_set_ring: "ksafe s \<Longrightarrow> ksafe (set_ring q r s)"
  using same_kernel_safe [of s "set_ring q r s"] by (simp add: same_kernel_def set_ring_def)

lemma qs_okD:
  assumes "qs_ok s" "is_q s e"
  shows "OSEventPtr (ev s e) = PQ (ev_q s e)" "ev_q s e < OS_MAX_QS" "ring_ok (ring_of s (ev_q s e))"
  using assms by (auto simp: qs_ok_def)

lemma qs_okI:
  assumes "\<And>e. is_q s e \<Longrightarrow> OSEventPtr (ev s e) = PQ (ev_q s e) \<and> ev_q s e < OS_MAX_QS \<and>
      ring_ok (ring_of s (ev_q s e))"
    and "\<And>e x. is_q s e \<Longrightarrow> is_q s x \<Longrightarrow> e \<noteq> x \<Longrightarrow> ev_q s e \<noteq> ev_q s x \<and>
      q_span (OSQTbl s (ev_q s e)) \<inter> q_span (OSQTbl s (ev_q s x)) = {}"
    and "chain (\<lambda>q. OSQPtr (OSQTbl s q)) (OSQFreeList s) fl"
    and "set fl = {q. q < OS_MAX_QS \<and> (\<forall>e. is_q s e \<longrightarrow> ev_q s e \<noteq> q)}"
  shows "qs_ok s"
  unfolding qs_ok_def using assms by blast

lemma qs_disjoint:
  assumes "qs_ok s" "is_q s e" "is_q s x" "e \<noteq> x"
  shows "ev_q s e \<noteq> ev_q s x" "q_span (OSQTbl s (ev_q s e)) \<inter> q_span (OSQTbl s (ev_q s x)) = {}"
  using assms by (auto simp: qs_ok_def)

lemma ring_of_set [simp]: "ring_of (set_ring q r s) q = r"
  by (simp add: ring_of_def set_ring_def)

lemma ring_ok_heap: "ring_ok (pq, h) = ring_ok (pq, h')"
  by (simp add: ring_ok_def)

text \<open>A move of one queue keeps all of them well formed and the others' messages.\<close>

lemma qs_set_ring:
  assumes ok: "qs_ok s" and e: "is_q s e" and st: "ring_step (ring_of s (ev_q s e)) r"
  shows "qs_ok (set_ring (ev_q s e) r s)"
proof -
  let ?q = "ev_q s e" and ?s = "set_ring (ev_q s e) r s"
  have sp: "q_span (OSQTbl ?s k) = q_span (OSQTbl s k)" "OSQPtr (OSQTbl ?s k) = OSQPtr (OSQTbl s k)" for k
    using st by (auto simp: set_ring_def ring_step_def ring_of_def q_span_def)
  have rk: "ring_ok (ring_of ?s (ev_q s x))" if "is_q s x" for x
  proof (cases "ev_q s x = ?q")
    case False
    have "ring_ok (OSQTbl s (ev_q s x), snd r)"
      using qs_okD(3) [OF ok that] ring_ok_heap unfolding ring_of_def by blast
    then show ?thesis using False by (simp add: ring_of_def set_ring_def)
  qed (use st in \<open>simp add: ring_step_def\<close>)
  have fl: "OSQFreeList ?s = OSQFreeList s" by (simp add: set_ring_def)
  show ?thesis using ok rk unfolding qs_ok_def set_ring_frame sp fl by auto
qed

lemma q_msgs_other:
  assumes ok: "qs_ok s" and e: "is_q s e" and x: "is_q s x" "x \<noteq> e"
    and st: "ring_step (ring_of s (ev_q s e)) r"
  shows "q_msgs (set_ring (ev_q s e) r s) x = q_msgs s x"
proof -
  note d = qs_disjoint [OF ok e x(1) x(2) [symmetric]]
  have ro: "ring_ok (OSQTbl s (ev_q s x), OSHeap s)" using qs_okD(3) [OF ok x(1)] by (simp add: ring_of_def)
  have "snd r a = OSHeap s a" if "a \<in> q_span (OSQTbl s (ev_q s x))" for a
    using st d(2) that by (auto simp: ring_step_def ring_of_def)
  then have "ring_list (OSQTbl s (ev_q s x), snd r) = ring_list (OSQTbl s (ev_q s x), OSHeap s)"
    using ring_list_cong [OF ro] by blast
  then show ?thesis using d(1) by (simp add: q_msgs_def) (simp add: ring_of_def set_ring_def)
qed

section \<open>Every service keeps the invariants\<close>

abbreviation qsafe :: "os \<Rightarrow> bool" where "qsafe s \<equiv> ksafe s \<and> qs_ok s"

lemma qs_same:
  assumes "OSQTbl s' = OSQTbl s" "OSQFreeList s' = OSQFreeList s" "OSHeap s' = OSHeap s"
    and "\<And>e. OSEventType (ev s' e) = OSEventType (ev s e)" "\<And>e. OSEventPtr (ev s' e) = OSEventPtr (ev s e)"
  shows "qs_ok s' = qs_ok s"
proof
  show "qs_ok s \<Longrightarrow> qs_ok s'" by (erule qs_frame) (simp_all add: assms is_q_def)
  show "qs_ok s' \<Longrightarrow> qs_ok s" by (erule qs_frame) (simp_all add: assms is_q_def)
qed

lemma qs_rdy [simp]: "qs_ok (snd (OS_EventTaskRdy e m k ps s)) = qs_ok s" "qs_ok (OS_Sched s) = qs_ok s"
  by (rule qs_same; simp)+

lemma qs_rdy_all: "event_rdy_all e m k ps n s = Some (n', s') \<Longrightarrow> qs_ok s' = qs_ok s"
  using event_rdy_all_keeps [of e m k ps n s "(n', s')" qs_ok] by (simp only: qs_rdy snd_conv)

lemma qs_pend_block: "qs_ok s \<Longrightarrow> qs_ok (pend_block k e tmo s)"
  by (rule qs_frame) (simp_all add: is_q_def, simp_all add: pend_block_def OS_EventTaskWait_def Let_def
      upd_ev_def upd_tcb_def rdy_clear_def set_rdy_def)

lemma entries_pos: "0 < OSQEntries (OSQTbl s q) \<longleftrightarrow> ring_list (ring_of s q) \<noteq> []"
proof -
  have "ring_list (ring_of s q) = [] \<longleftrightarrow> length (ring_list (ring_of s q)) = 0"
    by (simp only: length_0_conv)
  also have "\<dots> \<longleftrightarrow> OSQEntries (OSQTbl s q) = 0" by (simp only: length_ring_list) (simp add: ring_of_def unat_eq_0)
  finally show ?thesis by (simp add: word_gt_0)
qed

lemma entries_full: "\<not> OSQSize (OSQTbl s q) \<le> OSQEntries (OSQTbl s q) \<longleftrightarrow>
    length (ring_list (ring_of s q)) < ring_cap (ring_of s q)"
  by (simp add: ring_cap_def ring_of_def word_le_nat_alt not_le)

lemma q_move_safe:
  assumes "qsafe s" "is_q s e" "ring_step (ring_of s (ev_q s e)) r"
  shows "qsafe (set_ring (ev_q s e) r s)"
  using assms ksafe_set_ring qs_set_ring by blast

lemma q_post_safe: "qsafe s \<Longrightarrow> qsafe (snd (OSQPost e m s))"
  using queue.hand_over [of s e m OS_STAT_PEND_OK] q_move_safe [of s e] entries_full [of s "ev_q s e"]
    ring_step_put [of "ring_of s (ev_q s e)" m] qs_okD(3) [of s e]
  by (auto simp: OSQPost_def Let_def is_q_def)

lemma q_postfront_safe: "qsafe s \<Longrightarrow> qsafe (snd (OSQPostFront e m s))"
  using queue.hand_over [of s e m OS_STAT_PEND_OK] q_move_safe [of s e] entries_full [of s "ev_q s e"]
    ring_step_front [of "ring_of s (ev_q s e)" m] qs_okD(3) [of s e]
  by (auto simp: OSQPostFront_def Let_def is_q_def)

lemma q_accept_safe: "qsafe s \<Longrightarrow> qsafe (snd (snd (OSQAccept e s)))"
  using q_move_safe [of s e] entries_pos [of s "ev_q s e"]
    ring_step_get [of "ring_of s (ev_q s e)"] qs_okD(3) [of s e]
  by (auto simp: OSQAccept_def Let_def is_q_def)

lemma q_pend_safe:
  assumes ok: "qsafe s" and lev: "\<forall>x. prio s (cur s) \<notin> wset s x" and idle: "OSPrioCur s \<noteq> OS_TASK_IDLE_PRIO"
  shows "qsafe (snd (OSQPend e tmo s))"
  using ok lev idle queue.block [of s e tmo] q_move_safe [of s e] entries_pos [of s "ev_q s e"]
    ring_step_get [of "ring_of s (ev_q s e)"] qs_okD(3) [of s e] qs_pend_block [of s]
  by (auto simp: OSQPend_def Let_def is_q_def word_gt_0)

lemma q_abort_safe:
  assumes ok: "qsafe s"
  shows "\<exists>n err s'. OSQPendAbort e opt s = Some (n, err, s') \<and> qsafe s'"
proof (cases "OSEventType (ev s e) = OS_EVENT_TYPE_Q")
  case True
  obtain s1 where "event_rdy_all e PNull OS_STAT_Q OS_STAT_PEND_ABORT 0 s =
      Some (word_of_nat (card (wset s e)), s1)" "ksafe (OS_Sched s1)"
    using queue.abort_all True ok by metis
  then show ?thesis
    using ok True queue.hand_over [of s e PNull OS_STAT_PEND_ABORT] qs_rdy_all
    by (auto simp: OSQPendAbort_def split: if_splits)
qed (use ok in \<open>simp add: OSQPendAbort_def\<close>)

lemma q_postopt_ends:
  assumes ok: "qsafe s"
  shows "\<exists>err s'. OSQPostOpt e m opt s = Some (err, s') \<and> kok s' \<and> qs_ok s' \<and>
    (opt AND OS_POST_OPT_NO_SCHED = 0 \<longrightarrow> sched_ok s')"
proof (cases "OSEventType (ev s e) = OS_EVENT_TYPE_Q")
  case True
  have k: "kok s" using ok by simp
  obtain n s1 where "event_rdy_all e m OS_STAT_Q OS_STAT_PEND_OK 0 s = Some (n, s1)" "kok s1" "qs_ok s1"
    using queue.drain [OF k True] qs_rdy_all ok by metis
  then show ?thesis
    using True ok queue.hand_over(1) [OF k True, of m OS_STAT_PEND_OK] kok_OS_Sched q_move_safe [OF ok, of e]
      entries_full [of s "ev_q s e"] ring_step_front [of "ring_of s (ev_q s e)" m]
      ring_step_put [of "ring_of s (ev_q s e)" m] qs_okD(3) [of s e]
    by (auto simp: OSQPostOpt_def Let_def is_q_def split: if_splits)
qed (use ok in \<open>auto simp: OSQPostOpt_def\<close>)

lemma is_q_put: "is_q (q_put_back e s) x \<longleftrightarrow> is_q s x \<and> x \<noteq> e"
  by (simp add: is_q_def q_put_back_def event_put_def upd_ev_def upd_q_def Let_def)

lemma ev_q_put: "x \<noteq> e \<Longrightarrow> ev_q (q_put_back e s) x = ev_q s x"
  by (simp add: ev_q_def q_put_back_def event_put_def upd_ev_def upd_q_def Let_def)

lemma q_tbl_put:
  "OSQFreeList (q_put_back e s) = Some (ev_q s e)" "OSHeap (q_put_back e s) = OSHeap s"
  "OSQTbl (q_put_back e s) = (OSQTbl s)(ev_q s e := (OSQTbl s (ev_q s e))\<lparr>OSQPtr := OSQFreeList s\<rparr>)"
  by (simp_all add: q_put_back_def event_put_def upd_ev_def upd_q_def Let_def)

lemma qs_put:
  assumes ok: "qs_ok s" and e: "is_q s e"
  shows "qs_ok (q_put_back e s)"
proof -
  let ?s = "q_put_back e s" and ?q = "ev_q s e"
  obtain fl where c: "chain (\<lambda>q. OSQPtr (OSQTbl s q)) (OSQFreeList s) fl"
    and f: "set fl = {q. q < OS_MAX_QS \<and> (\<forall>e. is_q s e \<longrightarrow> ev_q s e \<noteq> q)}"
    using ok by (auto simp: qs_ok_def)
  have n: "?q \<notin> set fl" using f e by auto
  have "chain (\<lambda>q. OSQPtr (OSQTbl ?s q)) (OSQFreeList s) fl"
    using c n by (subst chain_cong [of fl _ "\<lambda>q. OSQPtr (OSQTbl s q)"]) (auto simp: q_tbl_put)
  then have "chain (\<lambda>q. OSQPtr (OSQTbl ?s q)) (OSQFreeList ?s) (?q # fl)" by (simp add: q_tbl_put)
  moreover have "set (?q # fl) = {q. q < OS_MAX_QS \<and> (\<forall>x. is_q ?s x \<longrightarrow> ev_q ?s x \<noteq> q)}"
    using f qs_okD(2) [OF ok e] qs_disjoint(1) [OF ok e] e by (auto simp: is_q_put ev_q_put) (metis ev_q_put)+
  moreover have "OSEventPtr (ev ?s x) = PQ (ev_q ?s x) \<and> ev_q ?s x < OS_MAX_QS \<and> ring_ok (ring_of ?s (ev_q ?s x))"
    if "is_q ?s x" for x
    using that qs_okD [OF ok, of x] qs_disjoint(1) [OF ok e, of x]
    by (auto simp: is_q_put ev_q_put ring_of_def q_tbl_put)
      (simp add: q_put_back_def event_put_def upd_ev_def upd_q_def Let_def)
  moreover have "q_span (OSQTbl ?s k) = q_span (OSQTbl s k)" for k by (simp add: q_tbl_put q_span_def)
  ultimately show ?thesis using qs_disjoint [OF ok]
    by (intro qs_okI [where fl = "?q # fl"]) (simp_all add: is_q_put ev_q_put)
qed

lemma same_kernel_qfree: "same_kernel s ((upd_q q f s)\<lparr>OSQFreeList := l\<rparr>)"
  by (simp add: same_kernel_def upd_q_def)

lemma kok_put_back:
  assumes "kok s" "e < OS_MAX_EVENTS" "is_q s e" "wset s e = {}"
  shows "kok (q_put_back e s)" and "sched_ok s \<Longrightarrow> sched_ok (q_put_back e s)"
proof -
  let ?s = "(upd_q (ev_q s e) (\<lambda>pq. pq\<lparr>OSQPtr := OSQFreeList s\<rparr>) s)\<lparr>OSQFreeList := Some (ev_q s e)\<rparr>"
  have "kok ?s" using assms(1) same_kernel_safe(1) same_kernel_qfree by blast
  then show "kok (q_put_back e s)" unfolding q_put_back_def Let_def
    using assms by (intro kok_event_put) (simp_all add: is_q_def upd_q_def wset_def)
  have "sched_ok s \<Longrightarrow> sched_ok ?s" using same_kernel_safe(2) same_kernel_qfree by blast
  then show "sched_ok s \<Longrightarrow> sched_ok (q_put_back e s)" unfolding q_put_back_def Let_def
    by (auto intro: sched_ok_core [of ?s])
qed

lemma q_del_safe:
  assumes ok: "qsafe s" and e: "e < OS_MAX_EVENTS"
  shows "\<exists>h err s'. OSQDel e opt s = Some (h, err, s') \<and> qsafe s'"
proof (cases "is_q s e")
  case True
  then have ty: "OSEventType (ev s e) = OS_EVENT_TYPE_Q" by (simp add: is_q_def)
  have k: "kok s" using ok by simp
  obtain n s1 where r: "event_rdy_all e PNull OS_STAT_Q OS_STAT_PEND_OK 0 s = Some (n, s1)" and k1: "kok s1"
    "wset s1 e = {}" and t1: "OSEventType (ev s1 e) = OS_EVENT_TYPE_Q"
    using queue.drain [OF k ty] by metis
  have q1: "qs_ok s1" "is_q s1 e" using qs_rdy_all [OF r] ok t1 by (simp_all add: is_q_def)
  have z: "OSEventGrp (ev s e) = 0 \<longleftrightarrow> wset s e = {}" using kokD(1) [OF k] by (rule grp_zero_iff)
  have "OSEventGrp (ev s e) = 0 \<Longrightarrow> s1 = s" using r by (subst (asm) event_rdy_all.simps) simp
  then show ?thesis
    using r ty ok True kok_put_back [OF k1(1) e q1(2) k1(2)] kok_put_back [OF k e True] z
      qs_put [OF q1] qs_put [of s e] kok_OS_Sched [of "q_put_back e s1"]
    by (auto simp: OSQDel_def Let_def split: if_splits)
qed (use ok in \<open>simp add: OSQDel_def is_q_def\<close>)

lemma q_create_cases:
  assumes ok: "qsafe s" and lev: "OSIntNesting s = 0"
  obtains (no_event) "OSQCreate a n s = (None, s)" "OSEventFreeList s = None"
  | (no_queue) e where "OSQFreeList s = None" "event_get s = (Some e, s\<lparr>OSEventFreeList := ev_link (OSEventPtr (ev s e))\<rparr>)"
      "OSQCreate a n s = (None, upd_ev e (\<lambda>v. v\<lparr>OSEventPtr := ptr_of_ev (ev_link (OSEventPtr v))\<rparr>) s)"
  | (created) e q s1 s3 where "event_get s = (Some e, s1)" "OSQFreeList s = Some q"
      "s3 = upd_q q (\<lambda>pq. pq\<lparr>OSQStart := a, OSQEnd := a + 4 * unat n, OSQIn := a, OSQOut := a,
               OSQSize := n, OSQEntries := 0\<rparr>) (s1\<lparr>OSQFreeList := OSQPtr (OSQTbl s q)\<rparr>)"
      "OSQCreate a n s = (Some e, event_init e OS_EVENT_TYPE_Q 0 (PQ q) s3)"
proof (cases "OSEventFreeList s")
  case None
  then show ?thesis using no_event lev by (simp add: OSQCreate_def event_get_def)
next
  case (Some e)
  let ?s1 = "s\<lparr>OSEventFreeList := ev_link (OSEventPtr (ev s e))\<rparr>"
  have g: "event_get s = (Some e, ?s1)" using Some by (simp add: event_get_def)
  show ?thesis
  proof (cases "OSQFreeList s")
    case None
    show ?thesis using no_queue [OF None g] None g lev Some
      by (simp add: OSQCreate_def upd_ev_def)
  next
    case (Some q)
    show ?thesis using created [OF g Some refl] Some g lev
      by (simp add: OSQCreate_def upd_q_def Let_def)
  qed
qed

lemma relink_safe:
  assumes ok: "qsafe s" and u: "OSEventType (ev s e) = OS_EVENT_TYPE_UNUSED"
  shows "qsafe (upd_ev e (\<lambda>v. v\<lparr>OSEventPtr := ptr_of_ev (ev_link (OSEventPtr v))\<rparr>) s)"
proof -
  let ?s = "upd_ev e (\<lambda>v. v\<lparr>OSEventPtr := ptr_of_ev (ev_link (OSEventPtr v))\<rparr>) s"
  have k: "kok s" and sch: "sched_ok s" and q: "qs_ok s" using ok by auto
  have l: "(\<lambda>x. ev_link (OSEventPtr (ev ?s x))) = (\<lambda>x. ev_link (OSEventPtr (ev s x)))"
    by (simp add: upd_ev_def fun_eq_iff)
  have t: "OSEventType (ev ?s x) = OSEventType (ev s x)" "OSEventFreeList ?s = OSEventFreeList s" for x
    by (simp_all add: upd_ev_def)
  have "kinv ?s" using kokD(1) [OF k] by (rule kinv_frame) (simp_all add: upd_ev_def ev_bm_def)
  moreover have "evlist_ok ?s" using kokD(2) [OF k] unfolding evlist_ok_def l t by simp
  moreover have "cur_ok ?s" using kokD(3) [OF k] by (rule cur_ok_core) (simp_all add: upd_ev_def)
  moreover have "sched_ok ?s" using sch by (rule sched_ok_core) (simp_all add: upd_ev_def rdy_bm_def)
  moreover have "qs_ok ?s" using q by (rule qs_frame) (use u in \<open>auto simp: upd_ev_def is_q_def\<close>)
  ultimately show ?thesis by (simp add: kok_def)
qed

text \<open>A further queue, with the first free control block and storage of its own.\<close>

lemma qs_add:
  assumes ok: "qs_ok s" and fr: "OSQFreeList s = Some q" and ne: "\<not> is_q s e"
    and iq: "\<And>x. is_q s' x \<longleftrightarrow> is_q s x \<or> x = e" and pe: "OSEventPtr (ev s' e) = PQ q"
    and px: "\<And>x. x \<noteq> e \<Longrightarrow> OSEventPtr (ev s' x) = OSEventPtr (ev s x)"
    and tb: "OSQTbl s' = (OSQTbl s)(q := pq)" "OSHeap s' = OSHeap s" "OSQFreeList s' = OSQPtr (OSQTbl s q)"
    and rk: "ring_ok (pq, OSHeap s)"
    and sp: "\<And>x. is_q s x \<Longrightarrow> q_span pq \<inter> q_span (OSQTbl s (ev_q s x)) = {}"
  shows "qs_ok s'" and "ev_q s' e = q" and "q < OS_MAX_QS"
proof -
  obtain fl where c: "chain (\<lambda>q. OSQPtr (OSQTbl s q)) (OSQFreeList s) fl"
    and f: "set fl = {q. q < OS_MAX_QS \<and> (\<forall>e. is_q s e \<longrightarrow> ev_q s e \<noteq> q)}"
    using ok by (auto simp: qs_ok_def)
  obtain fl' where fl: "fl = q # fl'" using c fr by (cases fl) auto
  have nq: "q \<notin> set fl'" using chain_distinct [OF c] fl by simp
  show q5: "q < OS_MAX_QS" using f fl by auto
  have own: "\<And>x. is_q s x \<Longrightarrow> ev_q s x \<noteq> q" using f fl by auto
  have eq: "ev_q s' x = (if x = e then q else ev_q s x)" for x by (simp add: ev_q_def pe px)
  then show "ev_q s' e = q" by simp
  have ro: "OSEventPtr (ev s' x) = PQ (ev_q s' x) \<and> ev_q s' x < OS_MAX_QS \<and> ring_ok (ring_of s' (ev_q s' x))"
    if "is_q s' x" for x
    using that iq own [of x] qs_okD [OF ok, of x] q5 rk pe px by (auto simp: eq ring_of_def tb)
  have spn: "q_span (OSQTbl s' (ev_q s' x)) = (if x = e then q_span pq else q_span (OSQTbl s (ev_q s x)))"
    if "is_q s' x" for x using that own iq by (auto simp: eq tb)
  have dj: "ev_q s' x \<noteq> ev_q s' y \<and> q_span (OSQTbl s' (ev_q s' x)) \<inter> q_span (OSQTbl s' (ev_q s' y)) = {}"
    if "is_q s' x" "is_q s' y" "x \<noteq> y" for x y
    unfolding spn [OF that(1)] spn [OF that(2)]
    using that iq own [of x] own [of y] sp [of x] sp [of y] qs_disjoint [OF ok, of x y] by (auto simp: eq)
  have "chain (\<lambda>k. OSQPtr (OSQTbl s' k)) (OSQFreeList s') fl'"
    using c fl by (simp add: tb) (subst chain_cong [of fl' _ "\<lambda>q. OSQPtr (OSQTbl s q)"], auto simp: nq)
  moreover have "set fl' = {k. k < OS_MAX_QS \<and> (\<forall>x. is_q s' x \<longrightarrow> ev_q s' x \<noteq> k)}"
    using f fl nq ne by (auto simp: iq eq)
  ultimately show "qs_ok s'" using ro dj by (intro qs_okI [where fl = fl'])
qed

lemma q_created:
  assumes ok: "qsafe s" and g: "event_get s = (Some e, s1)" and fr: "OSQFreeList s = Some q"
    and s3: "s3 = upd_q q (\<lambda>pq. pq\<lparr>OSQStart := a, OSQEnd := a + 4 * unat n, OSQIn := a, OSQOut := a,
               OSQSize := n, OSQEntries := 0\<rparr>) (s1\<lparr>OSQFreeList := OSQPtr (OSQTbl s q)\<rparr>)"
    and sp: "\<And>x. is_q s x \<Longrightarrow> {a..<a + 4 * unat n} \<inter> q_span (OSQTbl s (ev_q s x)) = {}"
  defines "s' \<equiv> event_init e OS_EVENT_TYPE_Q 0 (PQ q) s3"
  shows "ksafe s'" and "qs_ok s'" and "ev_q s' e = q"
proof -
  let ?f = "\<lambda>pq. pq\<lparr>OSQStart := a, OSQEnd := a + 4 * unat n, OSQIn := a, OSQOut := a, OSQSize := n, OSQEntries := 0\<rparr>"
  let ?t = "upd_q q ?f (s\<lparr>OSQFreeList := OSQPtr (OSQTbl s q)\<rparr>)"
  note d = event_get_SomeD [OF kokD(2) [OF conjunct1 [OF conjunct1 [OF ok]]] g]
  have sk: "same_kernel s ?t" by (simp add: same_kernel_def upd_q_def)
  have gt: "event_get ?t = (Some e, s3)"
    using g d(3) by (auto simp: event_get_def s3 upd_q_def split: option.splits)
  show "ksafe s'" unfolding s'_def using kok_event_get [OF _ gt] same_kernel_safe [OF sk] ok by simp
  note defs = s'_def is_q_def event_init_def upd_ev_def OS_EventWaitListInit_def s3 upd_q_def d(3)
  have rk: "ring_ok (?f (OSQTbl s q), OSHeap s)" by (auto simp: ring_ok_def Let_def)
  have "\<not> is_q s e" using d(2) by (simp add: is_q_def)
  moreover have "OSQTbl s' = (OSQTbl s)(q := ?f (OSQTbl s q))" by (simp add: defs)
  moreover have "q_span (?f (OSQTbl s q)) = {a..<a + 4 * unat n}" by (simp add: q_span_def)
  ultimately show "qs_ok s'" "ev_q s' e = q" using qs_add [OF conjunct2 [OF ok] fr, of e s'] rk sp
    by (simp_all add: defs)
qed

lemma q_create_safe:
  assumes ok: "qsafe s"
    and sp: "\<And>x. is_q s x \<Longrightarrow> {a..<a + 4 * unat n} \<inter> q_span (OSQTbl s (ev_q s x)) = {}"
  shows "qsafe (snd (OSQCreate a n s))"
proof (cases "OSIntNesting s = 0")
  case True
  show ?thesis
  proof (cases rule: q_create_cases [OF ok True, of a n, case_names no_event no_queue created])
    case (no_queue e)
    have "OSEventType (ev s e) = OS_EVENT_TYPE_UNUSED"
      using event_get_SomeD(2) [OF kokD(2) no_queue(2)] ok by simp
    then show ?thesis using relink_safe [OF ok] no_queue(3) by simp
  next
    case (created e q s1 s3)
    then show ?thesis using q_created [OF ok created(1-3) sp] by simp
  qed (use ok in simp)
qed (use ok in \<open>simp add: OSQCreate_def word_gt_0\<close>)

section \<open>An example state\<close>

text \<open>Event 0 of the example state is a queue of two messages; a task may wait on it.\<close>

definition qex :: "bool \<Rightarrow> os" where
  "qex w = (ex_os OS_EVENT_TYPE_Q 0 (PQ 0) w)\<lparr>OSQFreeList := Some 1,
     OSQTbl := (\<lambda>q. if q = 0 then q_zero\<lparr>OSQStart := 256, OSQEnd := 264, OSQIn := 256, OSQOut := 256, OSQSize := 2\<rparr>
       else q_zero\<lparr>OSQPtr := (if q < 4 then Some (q + 1) else None)\<rparr>)\<rparr>"

lemma qex_is_q: "is_q (qex w) e \<longleftrightarrow> e = 0"
  by (auto simp: is_q_def qex_def ex_os_def ex_ev_def Let_def ev_zero_def)

lemma qex_ev_q: "ev_q (qex w) 0 = 0" "OSEventPtr (ev (qex w) 0) = PQ 0"
  by (simp_all add: ev_q_def qex_def ex_fields)

lemma qex_same: "same_kernel (ex_os OS_EVENT_TYPE_Q 0 (PQ 0) w) (qex w)"
  by (simp add: same_kernel_def qex_def)

lemma qex_safe: "qsafe (qex w)"
proof -
  have "ksafe (qex w)" using same_kernel_safe [OF qex_same] ex_safe by (simp add: stat_mask_def)
  moreover have "qs_ok (qex w)"
  proof (rule qs_okI [where fl = "[1, 2, 3, 4]"])
    show "chain (\<lambda>q. OSQPtr (OSQTbl (qex w) q)) (OSQFreeList (qex w)) [1, 2, 3, 4]"
      by (simp add: qex_def q_zero_def)
    show "set [1, 2, 3, 4] = {q. q < OS_MAX_QS \<and> (\<forall>e. is_q (qex w) e \<longrightarrow> ev_q (qex w) e \<noteq> q)}"
      by (auto simp: qex_is_q qex_ev_q)
    have "ring_ok (ring_of (qex w) 0)"
      by (simp add: ring_ok_def ring_of_def qex_def q_zero_def Let_def)
    then show "OSEventPtr (ev (qex w) e) = PQ (ev_q (qex w) e) \<and> ev_q (qex w) e < OS_MAX_QS \<and>
        ring_ok (ring_of (qex w) (ev_q (qex w) e))" if "is_q (qex w) e" for e
      using that by (simp add: qex_is_q qex_ev_q)
  qed (simp_all add: qex_is_q)
  ultimately show ?thesis by simp
qed

lemma qex_facts:
  "task_level (qex w)" "OSPrioCur (qex w) = 5" "wset (qex w) e = (if e = 0 \<and> w then {10} else {})"
  "q_msgs (qex w) 0 = []" "q_size (qex w) 0 = 2" "OSIntNesting (qex w) = 0" "OSEventFreeList (qex w) = Some 1"
  "OSQFreeList (qex w) = Some 1" "q_span (OSQTbl (qex w) 0) = {256..<264}"
proof -
  show "task_level (qex w)" using same_kernel_safe(3) [OF qex_same] ex_task_level .
  have "wset (qex w) e = wset (ex_os OS_EVENT_TYPE_Q 0 (PQ 0) w) e" by (simp add: wset_def qex_def)
  then show "wset (qex w) e = (if e = 0 \<and> w then {10} else {})" by (simp only: ex_wset)
qed (simp_all add: q_msgs_def q_size_def ring_of_def ring_list_def ring_cap_def qex_ev_q q_span_def,
    simp_all add: qex_def ex_fields q_zero_def)

section \<open>A queue as a list of messages with a set of waiters\<close>

type_synonym q_view = "ptr list \<times> nat set"

definition q_abs :: "os \<Rightarrow> nat \<Rightarrow> q_view" where
  "q_abs s e = (q_msgs s e, wset s e)"

text \<open>The error code, the task and the message handed over to it, if any, and the new view.\<close>

definition spec_q_post :: "(ptr list \<Rightarrow> ptr list) \<Rightarrow> ptr \<Rightarrow> nat \<Rightarrow> q_view \<Rightarrow> u8 \<times> (nat \<times> ptr) option \<times> q_view" where
  "spec_q_post add m n a =
    (if snd a \<noteq> {} then (OS_ERR_NONE, Some (Min (snd a), m), fst a, snd a - {Min (snd a)})
     else if length (fst a) < n then (OS_ERR_NONE, None, add (fst a), {})
     else (OS_ERR_Q_FULL, None, fst a, {}))"

text \<open>A post, with the code and the state \<open>r\<close> it returns, does what the specification says.\<close>

definition q_does :: "os \<Rightarrow> nat \<Rightarrow> u8 \<times> (nat \<times> ptr) option \<times> q_view \<Rightarrow> u8 \<times> os \<Rightarrow> bool" where
  "q_does s e spec r \<longleftrightarrow> (case spec of (err, d, a) \<Rightarrow> fst r = err \<and> q_abs (snd r) e = a \<and> delivered OS_STAT_Q s d (snd r))"

definition spec_q_accept :: "q_view \<Rightarrow> ptr \<times> u8 \<times> q_view" where
  "spec_q_accept a = (case fst a of [] \<Rightarrow> (PNull, OS_ERR_Q_EMPTY, [], snd a)
     | m # ms \<Rightarrow> (m, OS_ERR_NONE, ms, snd a))"

lemma q_msgs_rdy [simp]:
  "q_msgs (snd (OS_EventTaskRdy e m k ps s)) x = q_msgs s x" "q_msgs (OS_Sched s) x = q_msgs s x"
  by (simp_all add: q_msgs_def ring_of_def ev_q_def)

lemma q_msgs_set [simp]: "q_msgs (set_ring (ev_q s e) r s) e = ring_list r"
  by (simp add: q_msgs_def)

lemma rdy_wset:
  assumes inv: "kinv s" and w: "wset s e \<noteq> {}"
  shows "wset (snd (OS_EventTaskRdy e m k ps s)) e = wset s e - {Min (wset s e)}"
proof -
  have g: "OSEventGrp (ev s e) \<noteq> 0" using w grp_zero_iff [OF inv] by simp
  obtain i where li: "live s i" and pi: "prio s i = Min (wset s e)"
    and rd: "OS_EventTaskRdy e m k ps s = (OSTCBPrio (tcb s i), wake i e m k ps s)"
    using EventTaskRdy_wake [OF inv g] by metis
  show ?thesis using wset_wake [OF inv li] pi by (simp add: rd)
qed

lemma delivered_ring [simp]: "delivered k s None (set_ring q r s)" "delivered k s None s"
  by (simp_all add: delivered_def set_ring_def rdyset_def rdy_bm_def wset_def)

text \<open>
  C8. Refinement of the queue services by a bounded list: \<open>OSQPost\<close> appends, \<open>OSQPostFront\<close> puts the message
  before the others, \<open>OSQAccept\<close> takes the first one. With waiters a post of either kind hands exactly its message to the
  most urgent one instead, with the status \<open>OS_STAT_PEND_OK\<close>; that task is ready unless it is also suspended, and neither
  the list nor another task changes. A full queue answers \<open>OS_ERR_Q_FULL\<close> and an empty one
  \<open>OS_ERR_Q_EMPTY\<close>, both unchanged.
\<close>

theorem q_services_refine:
  assumes ok: "qsafe s" and e: "is_q s e"
  shows "q_does s e (spec_q_post (\<lambda>ms. ms @ [m]) m (q_size s e) (q_abs s e)) (OSQPost e m s) \<and>
    q_does s e (spec_q_post (\<lambda>ms. m # ms) m (q_size s e) (q_abs s e)) (OSQPostFront e m s) \<and>
    (fst (OSQAccept e s), fst (snd (OSQAccept e s)), q_abs (snd (snd (OSQAccept e s))) e) =
       spec_q_accept (q_abs s e)"
proof -
  let ?r = "ring_of s (ev_q s e)"
  have inv: "kinv s" using ok by (simp add: kok_def)
  have z: "OSEventGrp (ev s e) = 0 \<longleftrightarrow> wset s e = {}" using inv by (rule grp_zero_iff)
  have ro: "ring_ok ?r" using qs_okD(3) ok e by blast
  note full = entries_full [of s "ev_q s e"] and pos = entries_pos [of s "ev_q s e"]
  have ty: "OSEventType (ev s e) = OS_EVENT_TYPE_Q" using e by (simp add: is_q_def)
  have ac: "(fst (OSQAccept e s), fst (snd (OSQAccept e s)), q_abs (snd (snd (OSQAccept e s))) e) =
       spec_q_accept (q_abs s e)"
    using ty pos ring_get [OF ro]
    by (auto simp: OSQAccept_def Let_def spec_q_accept_def q_abs_def split: list.split) (simp_all add: q_msgs_def)
  show ?thesis
  proof (cases "wset s e = {}")
    case True
    then show ?thesis using ty z full ac ring_put(2) [OF ro] ring_front(2) [OF ro]
      by (auto simp: OSQPost_def OSQPostFront_def Let_def spec_q_post_def q_does_def q_abs_def q_size_def)
        (simp_all add: q_msgs_def)
  next
    case False
    then show ?thesis using ty z ac rdy_wset [OF inv False] delivered_rdy [OF inv False, of OS_STAT_Q m]
      by (simp add: OSQPost_def OSQPostFront_def Let_def spec_q_post_def q_does_def q_abs_def)
  qed
qed

theorem q_services_refine_witness:
  "q_abs (snd (OSQPost 0 (PAddr 9) (qex False))) 0 = ([PAddr 9], {}) \<and> fst (snd (OSQAccept 0 (qex False))) = OS_ERR_Q_EMPTY"
  using q_services_refine [of "qex False" 0 "PAddr 9"] qex_safe
  by (simp add: qex_is_q qex_facts q_abs_def spec_q_post_def q_does_def spec_q_accept_def)

text \<open>
  Every service of os_q.c keeps the kernel and the queues well formed: distinct control blocks, disjoint
  storage, read and write positions inside the storage, intact free list. \<open>OSQCreate\<close> needs
  storage that no other queue uses.
\<close>

theorem q_services_safe:
  assumes ok: "qsafe s" and e: "e < OS_MAX_EVENTS"
  shows "qsafe (snd (OSQPost e m s)) \<and> qsafe (snd (OSQPostFront e m s)) \<and> qsafe (snd (snd (OSQAccept e s))) \<and>
    (\<exists>h err s'. OSQDel e opt s = Some (h, err, s') \<and> qsafe s') \<and>
    (\<exists>n err s'. OSQPendAbort e opt s = Some (n, err, s') \<and> qsafe s') \<and>
    (\<exists>err s'. OSQPostOpt e m opt s = Some (err, s') \<and> kok s' \<and> qs_ok s' \<and>
       (opt AND OS_POST_OPT_NO_SCHED = 0 \<longrightarrow> sched_ok s')) \<and>
    ((\<forall>x. is_q s x \<longrightarrow> {a..<a + 4 * unat n} \<inter> q_span (OSQTbl s (ev_q s x)) = {}) \<longrightarrow>
       qsafe (snd (OSQCreate a n s))) \<and>
    (task_level s \<and> OSPrioCur s \<noteq> OS_TASK_IDLE_PRIO \<longrightarrow> qsafe (snd (OSQPend e tmo s)))"
  using q_post_safe [OF ok] q_postfront_safe [OF ok] q_accept_safe [OF ok] q_del_safe [OF ok e]
    q_abort_safe [OF ok] q_postopt_ends [OF ok] q_create_safe [OF ok, of a n] q_pend_safe [OF ok]
  unfolding task_level_def by blast

theorem q_services_safe_witness:
  "qsafe (snd (OSQPost 0 (PAddr 9) (qex True))) \<and> qsafe (snd (OSQPend 0 7 (qex True))) \<and>
   qsafe (snd (OSQCreate 512 2 (qex True)))"
  using q_services_safe [of "qex True" 0 "PAddr 9" 0 512 2 7] qex_safe
  by (simp add: qex_facts qex_is_q qex_ev_q)

text \<open>
  A post to one queue leaves the messages of every other queue alone.
\<close>

theorem q_isolated:
  assumes ok: "qsafe s" and e: "is_q s e" and x: "is_q s x" "x \<noteq> e"
  shows "q_msgs (snd (OSQPost e m s)) x = q_msgs s x \<and> q_msgs (snd (OSQPostFront e m s)) x = q_msgs s x \<and>
    q_msgs (snd (snd (OSQAccept e s))) x = q_msgs s x"
proof -
  let ?r = "ring_of s (ev_q s e)"
  have ro: "ring_ok ?r" using qs_okD(3) ok e by blast
  note full = entries_full [of s "ev_q s e"] and pos = entries_pos [of s "ev_q s e"]
  note other = q_msgs_other [OF conjunct2 [OF ok] e x]
  show ?thesis
    using e full pos other ring_step_put [OF ro] ring_step_front [OF ro] ring_step_get [OF ro]
    by (simp add: OSQPost_def OSQPostFront_def OSQAccept_def Let_def is_q_def)
qed

theorem q_isolated_witness:
  "q_msgs (snd (OSQPost 1 (PAddr 9) (snd (OSQCreate 512 2 (qex False))))) 0 = q_msgs (snd (OSQCreate 512 2 (qex False))) 0"
proof -
  let ?s = "snd (OSQCreate 512 2 (qex False))"
  have ok: "qsafe ?s" using q_create_safe [of "qex False" 512 2, OF qex_safe] by (simp add: qex_is_q qex_ev_q qex_facts)
  have "is_q ?s 0 \<and> is_q ?s 1"
    by (simp add: OSQCreate_def qex_def event_get_def ex_os_def ev_zero_def is_q_def event_init_def upd_ev_def
        upd_q_def OS_EventWaitListInit_def Let_def ex_ev_def os_bss_def)
  then show ?thesis using q_isolated [OF ok, of 1 0 "PAddr 9"] by simp
qed

text \<open>The queue services on one event without waiters are again a bounded queue.\<close>

definition q_idle :: "nat \<Rightarrow> os \<Rightarrow> bool" where
  "q_idle e s \<longleftrightarrow> qsafe s \<and> is_q s e \<and> wset s e = {}"

lemma q_idle_moves:
  assumes i: "q_idle e s"
  shows "length (q_msgs s e) < q_size s e \<Longrightarrow>
      OSQPost e m s = (OS_ERR_NONE, set_ring (ev_q s e) (ring_put m (ring_of s (ev_q s e))) s)"
    and "length (q_msgs s e) < q_size s e \<Longrightarrow>
      OSQPostFront e m s = (OS_ERR_NONE, set_ring (ev_q s e) (ring_front m (ring_of s (ev_q s e))) s)"
    and "q_msgs s e \<noteq> [] \<Longrightarrow> OSQAccept e s = (fst (ring_get (ring_of s (ev_q s e))), OS_ERR_NONE,
      set_ring (ev_q s e) (snd (ring_get (ring_of s (ev_q s e)))) s)"
    and "ring_ok (ring_of s (ev_q s e))"
proof -
  have "OSEventGrp (ev s e) = 0" using i grp_zero_iff [of s e] by (simp add: q_idle_def kok_def)
  then show "length (q_msgs s e) < q_size s e \<Longrightarrow>
      OSQPost e m s = (OS_ERR_NONE, set_ring (ev_q s e) (ring_put m (ring_of s (ev_q s e))) s)"
    and "length (q_msgs s e) < q_size s e \<Longrightarrow>
      OSQPostFront e m s = (OS_ERR_NONE, set_ring (ev_q s e) (ring_front m (ring_of s (ev_q s e))) s)"
    and "q_msgs s e \<noteq> [] \<Longrightarrow> OSQAccept e s = (fst (ring_get (ring_of s (ev_q s e))), OS_ERR_NONE,
      set_ring (ev_q s e) (snd (ring_get (ring_of s (ev_q s e)))) s)"
    using i entries_full [of s "ev_q s e"] entries_pos [of s "ev_q s e"]
    by (auto simp: q_idle_def is_q_def OSQPost_def OSQPostFront_def OSQAccept_def Let_def q_msgs_def q_size_def)
  show "ring_ok (ring_of s (ev_q s e))" using i qs_okD(3) by (auto simp: q_idle_def)
qed

lemma q_idle_step:
  assumes "q_idle e s" "ring_step (ring_of s (ev_q s e)) r"
  shows "q_idle e (set_ring (ev_q s e) r s)"
  using assms q_move_safe [of s e r] by (simp add: q_idle_def)

lemma q_size_set: "q_size (set_ring (ev_q s e) r s) e = ring_cap r"
  by (simp add: q_size_def)

interpretation qsrv: bounded_deque "\<lambda>m s. snd (OSQPost e m s)" "\<lambda>m s. snd (OSQPostFront e m s)"
  "\<lambda>s. (fst (OSQAccept e s), snd (snd (OSQAccept e s)))" "\<lambda>s. q_msgs s e" "\<lambda>s. q_size s e" "q_idle e" for e
proof
  fix s m
  let ?r = "ring_of s (ev_q s e)"
  assume i: "q_idle e s"
  note mv = q_idle_moves [OF i] and st = q_idle_step [OF i]
  have m: "q_msgs s e = ring_list ?r" "q_size s e = ring_cap ?r" by (simp_all add: q_msgs_def q_size_def)
  {
    assume room: "length (q_msgs s e) < q_size s e"
    then have r: "length (ring_list ?r) < ring_cap ?r" by (simp only: m)
    show "q_msgs (snd (OSQPost e m s)) e = q_msgs s e @ [m]" "q_idle e (snd (OSQPost e m s))"
      "q_size (snd (OSQPost e m s)) e = q_size s e"
      using mv(1) [OF room] st [OF ring_step_put [OF mv(4) r]] ring_put [OF mv(4) r]
      by (simp_all add: m q_size_set)
    show "q_msgs (snd (OSQPostFront e m s)) e = m # q_msgs s e" "q_idle e (snd (OSQPostFront e m s))"
      "q_size (snd (OSQPostFront e m s)) e = q_size s e"
      using mv(2) [OF room] st [OF ring_step_front [OF mv(4) r]] ring_front [OF mv(4) r]
      by (simp_all add: m q_size_set)
  }
  assume ne: "q_msgs s e \<noteq> []"
  then have r: "ring_list ?r \<noteq> []" by (simp add: m)
  then obtain x xs where l: "ring_list ?r = x # xs" by (cases "ring_list ?r") auto
  show "fst (fst (OSQAccept e s), snd (snd (OSQAccept e s))) = hd (q_msgs s e)"
    "q_msgs (snd (fst (OSQAccept e s), snd (snd (OSQAccept e s)))) e = tl (q_msgs s e)"
    "q_idle e (snd (fst (OSQAccept e s), snd (snd (OSQAccept e s))))"
    "q_size (snd (fst (OSQAccept e s), snd (snd (OSQAccept e s)))) e = q_size s e"
    using mv(3) [OF ne] st [OF ring_step_get [OF mv(4) r]] ring_get [OF mv(4) l]
    by (simp_all add: m q_size_set l)
qed

text \<open>
  First in, first out, through the services: messages posted to an empty queue without waiters, no more
  than its size, come out of the same number of \<open>OSQAccept\<close> calls in the order of the posts;
  a message posted to the front comes out first.
\<close>

theorem q_fifo:
  assumes ok: "qsafe s" and e: "is_q s e" and w: "wset s e = {}" and n: "q_msgs s e = []"
    and sz: "length ms < q_size s e"
  shows "drain (\<lambda>s. (fst (OSQAccept e s), snd (snd (OSQAccept e s)))) (length ms)
      (fold (\<lambda>m s. snd (OSQPost e m s)) ms s) = ms \<and>
    fst (OSQAccept e (snd (OSQPostFront e m (fold (\<lambda>m s. snd (OSQPost e m s)) ms s)))) = m"
proof -
  have i: "q_idle e s" using ok e w by (simp add: q_idle_def)
  have p: "q_idle e (fold (\<lambda>m s. snd (OSQPost e m s)) ms s)"
    "length (q_msgs (fold (\<lambda>m s. snd (OSQPost e m s)) ms s) e) < q_size (fold (\<lambda>m s. snd (OSQPost e m s)) ms s) e"
    using qsrv.puts [OF i, of ms] n sz by simp_all
  show ?thesis using qsrv.fifo [OF i n, of ms] sz qsrv.front_get [OF p, of m] by simp
qed

theorem q_fifo_witness:
  "drain (\<lambda>s. (fst (OSQAccept 0 s), snd (snd (OSQAccept 0 s)))) 1
     (snd (OSQPost 0 (PAddr 9) (qex False))) = [PAddr 9]"
  using q_fifo [OF qex_safe, of False 0 "[PAddr 9]"] by (simp add: qex_is_q qex_facts)

text \<open>
  Message passing through a queue: a task that blocks in \<open>OSQPend\<close> on the empty queue, as the most urgent waiter, gets
  exactly the message of the next \<open>OSQPost\<close>, and the processor, and its pend reports success; the
  message does not enter the buffer.
\<close>

theorem q_pend_post_delivers:
  assumes ok: "qsafe s" and lev: "task_level s" and e: "is_q s e"
    and idle: "OSPrioCur s \<noteq> OS_TASK_IDLE_PRIO" and none: "q_msgs s e = []"
    and first: "\<forall>q \<in> wset s e. unat (OSPrioCur s) < q"
  shows "let s1 = snd (OSQPend e tmo s); s2 = snd (OSQPost e m s1); r = OSQPend_return e s2
    in OSTCBCur s1 \<noteq> OSTCBCur s \<and> OSTCBCur s2 = OSTCBCur s \<and> fst r = m \<and> fst (snd r) = OS_ERR_NONE \<and>
       ksafe (snd (snd r)) \<and> q_msgs s2 e = []"
proof -
  let ?s1 = "OS_Sched (pend_block OS_STAT_Q e tmo s)"
  let ?s2 = "OS_Sched (snd (OS_EventTaskRdy e m OS_STAT_Q OS_STAT_PEND_OK ?s1))"
  have k: "ksafe s" using ok by simp
  have ty: "OSEventType (ev s e) = OS_EVENT_TYPE_Q" using e by (simp add: is_q_def)
  have z: "\<not> 0 < OSQEntries (OSQTbl s (ev_q s e))" 
    using none entries_pos [of s "ev_q s e"] by (simp add: q_msgs_def)
  note pp = queue.pend_post [OF k lev ty idle first [rule_format]]
  have p1: "snd (OSQPend e tmo s) = ?s1" using lev ty z by (simp add: OSQPend_def task_level_def Let_def)
  have p2: "snd (OSQPost e m ?s1) = ?s2" using pp(1) [of tmo] ty by (simp add: OSQPost_def)
  have "OSTCBCur ?s1 \<noteq> OSTCBCur s"
    using queue.block(3) [of s e tmo] k lev ty idle by (simp add: task_level_def)
  moreover have "q_msgs (pend_block OS_STAT_Q e tmo s) e = q_msgs s e"
    by (simp add: q_msgs_def ring_of_def ev_q_def)
      (simp add: pend_block_def OS_EventTaskWait_def Let_def upd_ev_def upd_tcb_def rdy_clear_def set_rdy_def)
  ultimately show ?thesis
    using pp(2) [of m tmo] queue.pend_post_msg [OF k lev ty idle first [rule_format], of m tmo] none
    by (simp add: p1 p2 OSQPend_return_def Let_def)
qed

theorem q_pend_post_delivers_witness:
  "fst (OSQPend_return 0 (snd (OSQPost 0 (PAddr 9) (snd (OSQPend 0 7 (qex True)))))) = PAddr 9"
  using q_pend_post_delivers [OF qex_safe, of True 0 7 "PAddr 9"] by (simp add: qex_is_q qex_facts Let_def)

text \<open>The state a successful \<open>OSQCreate\<close> leaves.\<close>

lemma q_create_new:
  assumes ok: "qsafe s" and lev: "OSIntNesting s = 0"
    and el: "OSEventFreeList s = Some e" and ql: "OSQFreeList s = Some q"
    and sp: "\<forall>x. is_q s x \<longrightarrow> {a..<a + 4 * unat n} \<inter> q_span (OSQTbl s (ev_q s x)) = {}"
    and r: "OSQCreate a n s = (r', s1)"
  shows "r' = Some e" "qsafe s1" "q_abs s1 e = ([], {})" "q_size s1 e = unat n" "is_q s1 x \<longleftrightarrow> x = e \<or> is_q s x"
    "q_span (OSQTbl s1 (ev_q s1 e)) = {a..<a + 4 * unat n}" "is_q s x \<Longrightarrow> x \<noteq> e \<and> ev_q s1 x = ev_q s x \<and> OSQTbl s1 (ev_q s x) = OSQTbl s (ev_q s x)"
    "OSEventGrp (ev s1 e) = 0" "OSIntNesting s1 = 0" "wset s1 e = {}" "e < OS_MAX_EVENTS" "ev_q s1 e = q"
proof -
  let ?s1 = "s\<lparr>OSEventFreeList := ev_link (OSEventPtr (ev s e))\<rparr>"
  have g: "event_get s = (Some e, ?s1)" using el by (simp add: event_get_def)
  define s3 where "s3 = upd_q q (\<lambda>pq. pq\<lparr>OSQStart := a, OSQEnd := a + 4 * unat n, OSQIn := a, OSQOut := a,
               OSQSize := n, OSQEntries := 0\<rparr>) (?s1\<lparr>OSQFreeList := OSQPtr (OSQTbl s q)\<rparr>)"
  let ?s = "event_init e OS_EVENT_TYPE_Q 0 (PQ q) s3"
  note cr = q_created [OF ok g ql s3_def sp [rule_format]]
  note d = event_get_SomeD [OF kokD(2) [OF conjunct1 [OF conjunct1 [OF ok]]] g]
  have "OSQCreate a n s = (Some e, ?s)"
    using lev g ql by (simp add: OSQCreate_def s3_def upd_q_def Let_def)
  then have c: "r' = Some e" "s1 = ?s" using r by simp_all
  show "r' = Some e" by (rule c)
  show "qsafe s1" using cr(1,2) c(2) by simp
  show ty: "OSEventGrp (ev s1 e) = 0" "wset s1 e = {}" "OSIntNesting s1 = 0"
    using lev by (simp_all add: c(2) event_init_def upd_ev_def OS_EventWaitListInit_def wset_def ev_bm_def s3_def upd_q_def flip: bm_empty_def)
  show iq: "is_q s1 x \<longleftrightarrow> x = e \<or> is_q s x" for x
    by (simp add: c(2) is_q_def event_init_def upd_ev_def s3_def upd_q_def OS_EventWaitListInit_def)
  have t: "OSQTbl s1 = (OSQTbl s)(q := (OSQTbl s q)\<lparr>OSQStart := a, OSQEnd := a + 4 * unat n, OSQIn := a, OSQOut := a, OSQSize := n, OSQEntries := 0\<rparr>)"
    by (simp add: c(2) event_init_def upd_ev_def s3_def upd_q_def)
  show eq: "ev_q s1 e = q" unfolding c(2) by (rule cr(3))
  show "q_abs s1 e = ([], {})" "q_size s1 e = unat n"
    using ty eq by (simp_all add: q_abs_def q_msgs_def q_size_def ring_of_def ring_list_def ring_cap_def t)
  show "q_span (OSQTbl s1 (ev_q s1 e)) = {a..<a + 4 * unat n}" by (simp add: eq t q_span_def)
  show "e < OS_MAX_EVENTS" by (rule d(1))
  show "x \<noteq> e \<and> ev_q s1 x = ev_q s x \<and> OSQTbl s1 (ev_q s x) = OSQTbl s (ev_q s x)" if x: "is_q s x"
  proof -
    have "x \<noteq> e" using x d(2) by (auto simp: is_q_def)
    moreover obtain fl where "chain (\<lambda>q. OSQPtr (OSQTbl s q)) (Some q) fl" "set fl = {q. q < OS_MAX_QS \<and> (\<forall>e. is_q s e \<longrightarrow> ev_q s e \<noteq> q)}"
      using ok ql by (auto simp: qs_ok_def)
    then have "ev_q s x \<noteq> q" using x by (cases fl) auto
    ultimately show ?thesis by (simp add: t c(2) ev_q_def event_init_def upd_ev_def s3_def upd_q_def)
  qed
qed

text \<open>
  \<open>OSQCreate\<close> from a task yields an empty queue of the given size when both free lists have an entry, and \<open>OSQDel\<close> gives
  both entries back.
\<close>

theorem q_create_del:
  assumes ok: "qsafe s" and lev: "OSIntNesting s = 0"
    and el: "OSEventFreeList s = Some e" and ql: "OSQFreeList s = Some q"
    and sp: "\<forall>x. is_q s x \<longrightarrow> {a..<a + 4 * unat n} \<inter> q_span (OSQTbl s (ev_q s x)) = {}"
  shows "\<exists>s1 s2. OSQCreate a n s = (Some e, s1) \<and> qsafe s1 \<and> q_abs s1 e = ([], {}) \<and> q_size s1 e = unat n \<and>
    OSQDel e OS_DEL_NO_PEND s1 = Some (None, OS_ERR_NONE, s2) \<and>
    OSEventFreeList s2 = Some e \<and> OSQFreeList s2 = Some q \<and> qsafe s2"
proof -
  obtain r' s1 where r: "OSQCreate a n s = (r', s1)" by fastforce
  note c = q_create_new [OF ok lev el ql sp r]
  have iq: "is_q s1 e" by (simp add: c(5))
  have del: "OSQDel e OS_DEL_NO_PEND s1 = Some (None, OS_ERR_NONE, q_put_back e s1)"
    using iq c(8,9) by (simp add: OSQDel_def is_q_def)
  have "qsafe (q_put_back e s1)" using kok_put_back [OF _ c(11) iq c(10)] qs_put [OF _ iq] c(2) by simp
  moreover have "OSEventFreeList (q_put_back e s1) = Some e" by (simp add: q_put_back_def event_put_def Let_def)
  ultimately show ?thesis using r c(1-4,12) del by (auto simp: q_tbl_put)
qed

theorem q_create_del_witness:
  "\<exists>s1. OSQCreate 512 2 (qex False) = (Some 1, s1) \<and> q_abs s1 1 = ([], {}) \<and> q_size s1 1 = 2"
  using q_create_del [OF qex_safe, of False 1 1 512 2] by (auto simp: qex_is_q qex_ev_q qex_facts)

end
