(* ===== verification/OsMem.thy ===== *)
theory OsMem
  imports OsExample FreePool
begin

text \<open>
  Fixed-size memory partitions, demo/UCOSII/CORE/os_mem.c. The free blocks of a partition are linked through
  their own first word, so the list lives in the memory the application hands over. That memory is
  \<open>OSMemRam\<close>, byte by byte: a link is a store of four bytes, and stores to blocks that are closer together overlap.
  The partition control blocks have a free list of their own.
\<close>

section \<open>Words in memory\<close>

text \<open>\<open>*(void **)a = v\<close> and \<open>*(void **)a\<close> on a little-endian machine with 32-bit pointers.\<close>

definition st_word :: "nat \<Rightarrow> u32 \<Rightarrow> (nat \<Rightarrow> u8) \<Rightarrow> nat \<Rightarrow> u8" where
  "st_word a v h = h(a := ucast v, a + 1 := ucast (drop_bit 8 v), a + 2 := ucast (drop_bit 16 v), a + 3 := ucast (drop_bit 24 v))"

definition ld_word :: "nat \<Rightarrow> (nat \<Rightarrow> u8) \<Rightarrow> u32" where
  "ld_word a h = ucast (h a) OR push_bit 8 (ucast (h (a + 1))) OR push_bit 16 (ucast (h (a + 2))) OR push_bit 24 (ucast (h (a + 3)))"

lemma ld_st [simp]: "ld_word a (st_word a v h) = v"
proof (rule bit_word_eqI)
  fix n :: nat assume "n < LENGTH(32)"
  then consider "n < 8" | "8 \<le> n" "n < 16" | "16 \<le> n" "n < 24" | "24 \<le> n" "n < 32" by fastforce
  then show "bit (ld_word a (st_word a v h)) n = bit v n"
    by cases (auto simp: ld_word_def st_word_def bit_simps less_diff_conv2)
qed

lemma st_word_at: "x < a \<or> a + 4 \<le> x \<Longrightarrow> st_word a v h x = h x"
  by (auto simp: st_word_def)

lemma ld_word_cong: "(\<And>x. a \<le> x \<Longrightarrow> x < a + 4 \<Longrightarrow> h x = h' x) \<Longrightarrow> ld_word a h = ld_word a h'"
  by (simp add: ld_word_def)

lemma ld_st_other: "a + 4 \<le> b \<or> b + 4 \<le> a \<Longrightarrow> ld_word a (st_word b v h) = ld_word a h"
  by (rule ld_word_cong) (auto simp: st_word_at)

section \<open>Operations\<close>

fun mem_link :: "ptr \<Rightarrow> nat option" where
  "mem_link (PMem m) = Some m"
| "mem_link _ = None"

fun addr_link :: "ptr \<Rightarrow> nat option" where
  "addr_link (PAddr a) = Some a"
| "addr_link _ = None"

text \<open>A pointer to a block and the word that stands for it.\<close>

definition ptr_word :: "ptr \<Rightarrow> u32" where
  "ptr_word p = (case addr_link p of None \<Rightarrow> 0 | Some a \<Rightarrow> of_nat a)"

definition word_ptr :: "u32 \<Rightarrow> ptr" where
  "word_ptr w = (if w = 0 then PNull else PAddr (unat w))"

definition upd_mem :: "nat \<Rightarrow> (os_mem \<Rightarrow> os_mem) \<Rightarrow> os \<Rightarrow> os" where
  "upd_mem m f s = s\<lparr>OSMemTbl := (OSMemTbl s)(m := f (OSMemTbl s m))\<rparr>"

text \<open>The loop of \<open>OSMemCreate\<close>: \<open>loops\<close> turns on \<open>plink\<close>, \<open>pblk\<close> and the memory.\<close>

fun mem_links :: "nat \<Rightarrow> nat \<Rightarrow> nat \<Rightarrow> nat \<Rightarrow> (nat \<Rightarrow> u8) \<Rightarrow> nat \<times> (nat \<Rightarrow> u8)" where
  "mem_links 0 blksize plink pblk h = (plink, h)"
| "mem_links (Suc n) blksize plink pblk h =
    (let pblk1 = (pblk + blksize) mod 2 ^ 32 in mem_links n blksize pblk1 pblk1 (st_word plink (of_nat pblk1) h))"

definition OSMemCreate :: "nat \<Rightarrow> u32 \<Rightarrow> u32 \<Rightarrow> os \<Rightarrow> nat option \<times> u8 \<times> os" where
  "OSMemCreate addr nblks blksize s =
    (case OSMemFreeList_g s of
       None \<Rightarrow> (None, OS_ERR_MEM_INVALID_PART, s)
     | Some m \<Rightarrow>
        let s1 = s\<lparr>OSMemFreeList_g := mem_link (OSMemFreeList (OSMemTbl s m))\<rparr>;
            (plink, h) = mem_links (unat (nblks - 1)) (unat blksize) addr addr (OSMemRam s1);
            s2 = s1\<lparr>OSMemRam := st_word plink 0 h\<rparr>
        in (Some m, OS_ERR_NONE,
            upd_mem m (\<lambda>p. p\<lparr>OSMemAddr := addr, OSMemFreeList := PAddr addr, OSMemNFree := nblks,
              OSMemNBlks := nblks, OSMemBlkSize := blksize\<rparr>) s2))"

definition OSMemGet :: "nat \<Rightarrow> os \<Rightarrow> ptr \<times> u8 \<times> os" where
  "OSMemGet m s =
    (if 0 < OSMemNFree (OSMemTbl s m) then
       let pblk = OSMemFreeList (OSMemTbl s m)
       in (pblk, OS_ERR_NONE,
           upd_mem m (\<lambda>p. p\<lparr>OSMemFreeList := word_ptr (ld_word (the (addr_link pblk)) (OSMemRam s)),
             OSMemNFree := OSMemNFree p - 1\<rparr>) s)
     else (PNull, OS_ERR_MEM_NO_FREE_BLKS, s))"

definition OSMemPut :: "nat \<Rightarrow> nat \<Rightarrow> os \<Rightarrow> u8 \<times> os" where
  "OSMemPut m pblk s =
    (if OSMemNBlks (OSMemTbl s m) \<le> OSMemNFree (OSMemTbl s m) then (OS_ERR_MEM_FULL, s)
     else let s1 = s\<lparr>OSMemRam := st_word pblk (ptr_word (OSMemFreeList (OSMemTbl s m))) (OSMemRam s)\<rparr>
          in (OS_ERR_NONE, upd_mem m (\<lambda>p. p\<lparr>OSMemFreeList := PAddr pblk, OSMemNFree := OSMemNFree p + 1\<rparr>) s1))"

definition OSMemNameGet :: "nat \<Rightarrow> os \<Rightarrow> u8 \<times> string option \<times> u8" where
  "OSMemNameGet m s =
    (if 0 < OSIntNesting s then (0, None, OS_ERR_NAME_GET_ISR)
     else let pname = OSMemName (OSMemTbl s m) in (OS_StrLen pname, Some pname, OS_ERR_NONE))"

definition OSMemNameSet :: "nat \<Rightarrow> string \<Rightarrow> os \<Rightarrow> u8 \<times> os" where
  "OSMemNameSet m pname s =
    (if 0 < OSIntNesting s then (OS_ERR_NAME_SET_ISR, s)
     else (OS_ERR_NONE, upd_mem m (\<lambda>p. p\<lparr>OSMemName := pname\<rparr>) s))"

text \<open>\<open>OSAddr\<close>, \<open>OSFreeList\<close>, \<open>OSBlkSize\<close>, \<open>OSNBlks\<close>, \<open>OSNFree\<close>, \<open>OSNUsed\<close>.\<close>

definition OSMemQuery :: "nat \<Rightarrow> os \<Rightarrow> u8 \<times> (nat \<times> ptr \<times> u32 \<times> u32 \<times> u32 \<times> u32)" where
  "OSMemQuery m s =
    (let p = OSMemTbl s m
     in (OS_ERR_NONE, OSMemAddr p, OSMemFreeList p, OSMemBlkSize p, OSMemNBlks p, OSMemNFree p,
         OSMemNBlks p - OSMemNFree p))"

definition OS_MemInit :: "os \<Rightarrow> os" where
  "OS_MemInit s =
    (let t = fold (\<lambda>i t. t(i := (t i)\<lparr>OSMemFreeList := PMem (i + 1), OSMemName := ''?''\<rparr>))
               [0..<OS_MAX_MEM_PART - 1] (\<lambda>_. mem_zero)
     in s\<lparr>OSMemTbl := t(OS_MAX_MEM_PART - 1 :=
             (t (OS_MAX_MEM_PART - 1))\<lparr>OSMemFreeList := PNull, OSMemName := ''?''\<rparr>),
          OSMemFreeList_g := Some 0\<rparr>)"

section \<open>A partition as a list of free blocks\<close>

definition mem_blocks :: "os_mem \<Rightarrow> nat set" where
  "mem_blocks p = {OSMemAddr p + k * unat (OSMemBlkSize p) |k. k < unat (OSMemNBlks p)}"

text \<open>Where the blocks may lie: not at address 0, below the end of the address space, and large enough for a pointer.\<close>

definition mem_room :: "nat \<Rightarrow> u32 \<Rightarrow> u32 \<Rightarrow> bool" where
  "mem_room addr nblks blksize \<longleftrightarrow> 0 < addr \<and> 4 \<le> blksize \<and> addr + unat nblks * unat blksize \<le> 2 ^ 32"

definition mlink :: "(nat \<Rightarrow> u8) \<Rightarrow> nat \<Rightarrow> nat option" where
  "mlink h a = addr_link (word_ptr (ld_word a h))"

definition mem_repr :: "nat \<Rightarrow> os \<Rightarrow> nat list \<Rightarrow> bool" where
  "mem_repr m s bs \<longleftrightarrow>
    (let p = OSMemTbl s m in
     chain (mlink (OSMemRam s)) (addr_link (OSMemFreeList p)) bs \<and>
     length bs = unat (OSMemNFree p) \<and> OSMemNFree p \<le> OSMemNBlks p \<and> set bs \<subseteq> mem_blocks p \<and>
     mem_room (OSMemAddr p) (OSMemNBlks p) (OSMemBlkSize p))"

lemma addr_link_SomeD: "addr_link p = Some a \<Longrightarrow> p = PAddr a"
  by (cases p) auto

lemma word_ptr_nat: "0 < a \<Longrightarrow> a < 2 ^ 32 \<Longrightarrow> word_ptr (of_nat a) = PAddr a"
  by (auto simp: word_ptr_def unat_of_nat take_bit_nat_eq_self word_unat_eq_iff)

lemma word_ptr_zero [simp]: "word_ptr 0 = PNull"
  by (simp add: word_ptr_def)

lemma mlink_st: "mlink (st_word a v h) a = addr_link (word_ptr v)" "a + 4 \<le> b \<or> b + 4 \<le> a \<Longrightarrow> mlink (st_word b v h) a = mlink h a"
  by (simp_all add: mlink_def ld_st_other)

text \<open>Two blocks of a partition do not overlap in their first words, and each is an address.\<close>

lemma blocks_apart:
  assumes "mem_room (OSMemAddr p) (OSMemNBlks p) (OSMemBlkSize p)" "b \<in> mem_blocks p"
  shows "0 < b" "b < 2 ^ 32" "c \<in> mem_blocks p \<Longrightarrow> b \<noteq> c \<Longrightarrow> b + 4 \<le> c \<or> c + 4 \<le> b"
proof -
  let ?z = "unat (OSMemBlkSize p)" and ?n = "unat (OSMemNBlks p)"
  have r: "0 < OSMemAddr p" "4 \<le> ?z" "OSMemAddr p + ?n * ?z \<le> 2 ^ 32"
    using assms(1) by (simp_all add: mem_room_def word_le_nat_alt)
  obtain k where k: "b = OSMemAddr p + k * ?z" "k < ?n" using assms(2) by (auto simp: mem_blocks_def)
  have "Suc k * ?z \<le> ?n * ?z" using k(2) by (intro mult_le_mono1) simp
  then show "0 < b" "b < 2 ^ 32" using r k(1) by auto
  show "b + 4 \<le> c \<or> c + 4 \<le> b" if c: "c \<in> mem_blocks p" "b \<noteq> c"
  proof -
    obtain l where l: "c = OSMemAddr p + l * ?z" using c(1) by (auto simp: mem_blocks_def)
    have "k \<noteq> l" using c(2) k(1) l by auto
    then have "Suc k \<le> l \<or> Suc l \<le> k" by auto
    then have "Suc k * ?z \<le> l * ?z \<or> Suc l * ?z \<le> k * ?z" using mult_le_mono1 by blast
    then show ?thesis using k(1) l r(2) by auto
  qed
qed

lemma mem_links_list:
  assumes "4 \<le> b" "0 < a" "a + Suc n * b \<le> 2 ^ 32"
  shows "chain (mlink (st_word (fst (mem_links n b a a h)) 0 (snd (mem_links n b a a h)))) (Some a) (map (\<lambda>k. a + k * b) [0..<Suc n]) \<and>
    fst (mem_links n b a a h) = a + n * b \<and>
    (\<forall>x. x < a \<or> a + n * b \<le> x \<longrightarrow> snd (mem_links n b a a h) x = h x)"
  using assms
proof (induction n arbitrary: a h)
  case 0
  then show ?case by (simp add: mlink_st)
next
  case (Suc n)
  let ?h = "st_word a (of_nat (a + b)) h"
  let ?r = "mem_links n b (a + b) (a + b) ?h"
  have ab: "a + b < 2 ^ 32" using Suc.prems by simp
  then have r: "mem_links (Suc n) b a a h = ?r" by (simp add: Let_def)
  have ih: "chain (mlink (st_word (fst ?r) 0 (snd ?r))) (Some (a + b)) (map (\<lambda>k. (a + b) + k * b) [0..<Suc n])"
    "fst ?r = a + b + n * b" "\<And>x. x < a + b \<or> a + b + n * b \<le> x \<Longrightarrow> snd ?r x = ?h x"
    using Suc.IH [of "a + b" ?h] Suc.prems by auto
  have "ld_word a (st_word (fst ?r) 0 (snd ?r)) = ld_word a (snd ?r)" using ih(2) Suc.prems(1) by (intro ld_st_other) simp
  also have "\<dots> = ld_word a ?h" using ih(3) Suc.prems(1) by (intro ld_word_cong) simp
  finally have at: "mlink (st_word (fst ?r) 0 (snd ?r)) a = Some (a + b)"
    using word_ptr_nat [OF _ ab] Suc.prems(2) by (simp add: mlink_def)
  have l: "map (\<lambda>k. a + k * b) [0..<Suc (Suc n)] = a # map (\<lambda>k. (a + b) + k * b) [0..<Suc n]"
    by (subst upt_conv_Cons) (simp_all add: map_Suc_upt [symmetric] del: upt_Suc)
  have "chain (mlink (st_word (fst ?r) 0 (snd ?r))) (Some a) (map (\<lambda>k. a + k * b) [0..<Suc (Suc n)])"
    unfolding l using ih(1) at by simp
  moreover have "snd ?r x = h x" if "x < a \<or> a + Suc n * b \<le> x" for x
  proof -
    have "a + 4 \<le> a + Suc n * b" using Suc.prems(1) by simp
    then show ?thesis using ih(3) [of x] that by (subst ih(3)) (auto simp: st_word_at)
  qed
  ultimately show ?case unfolding r using ih(2) by simp
qed

lemma same_kernel_mem [simp]:
  "same_kernel s (s\<lparr>OSMemRam := h\<rparr>)" "same_kernel s (upd_mem m f s)"
  "same_kernel s (upd_mem m f (s\<lparr>OSMemRam := h\<rparr>))" "same_kernel s (upd_mem m f (s\<lparr>OSMemFreeList_g := l, OSMemRam := h\<rparr>))"
  by (simp_all add: same_kernel_def upd_mem_def)

lemma mem_get_cases:
  assumes r: "mem_repr m s bs"
  shows "bs = [] \<Longrightarrow> OSMemGet m s = (PNull, OS_ERR_MEM_NO_FREE_BLKS, s)"
    and "bs = b # cs \<Longrightarrow> fst (OSMemGet m s) = PAddr b \<and> fst (snd (OSMemGet m s)) = OS_ERR_NONE \<and>
      mem_repr m (snd (snd (OSMemGet m s))) cs"
proof -
  let ?p = "OSMemTbl s m"
  have c: "chain (mlink (OSMemRam s)) (addr_link (OSMemFreeList ?p)) bs"
    and n: "length bs = unat (OSMemNFree ?p)" "OSMemNFree ?p \<le> OSMemNBlks ?p" and b: "set bs \<subseteq> mem_blocks ?p"
    and ro: "mem_room (OSMemAddr ?p) (OSMemNBlks ?p) (OSMemBlkSize ?p)"
    using r by (auto simp: mem_repr_def Let_def)
  show "OSMemGet m s = (PNull, OS_ERR_MEM_NO_FREE_BLKS, s)" if "bs = []"
    using n that by (simp add: OSMemGet_def word_gt_0 unat_eq_0 [symmetric])
  show "fst (OSMemGet m s) = PAddr b \<and> fst (snd (OSMemGet m s)) = OS_ERR_NONE \<and>
      mem_repr m (snd (snd (OSMemGet m s))) cs" if bs: "bs = b # cs"
  proof -
    have nz: "OSMemNFree ?p \<noteq> 0" using n bs by auto
    have fl: "addr_link (OSMemFreeList ?p) = Some b" using c bs by simp
    then have pb: "OSMemFreeList ?p = PAddr b" by (rule addr_link_SomeD)
    have u: "unat (OSMemNFree ?p - 1) = unat (OSMemNFree ?p) - 1"
      using nz by (simp add: unat_sub_if_size) (metis Suc_leI unat_gt_0)
    then have le: "OSMemNFree ?p - 1 \<le> OSMemNBlks ?p" using n(2) by (simp add: word_le_nat_alt)
    have g: "OSMemGet m s = (PAddr b, OS_ERR_NONE,
        upd_mem m (\<lambda>p. p\<lparr>OSMemFreeList := word_ptr (ld_word b (OSMemRam s)), OSMemNFree := OSMemNFree p - 1\<rparr>) s)"
      using nz pb by (simp add: OSMemGet_def word_gt_0 Let_def)
    show ?thesis using c bs n u le b ro by (simp add: g mem_repr_def upd_mem_def Let_def mem_blocks_def mlink_def [symmetric])
  qed
qed

lemma mem_put_cons:
  assumes r: "mem_repr m s bs" and nb: "b \<notin> set bs" and room: "length bs < unat (OSMemNBlks (OSMemTbl s m))"
    and bl: "b \<in> mem_blocks (OSMemTbl s m)"
  shows "fst (OSMemPut m b s) = OS_ERR_NONE" and "mem_repr m (snd (OSMemPut m b s)) (b # bs)"
proof -
  let ?p = "OSMemTbl s m"
  let ?v = "ptr_word (OSMemFreeList ?p)"
  have c: "chain (mlink (OSMemRam s)) (addr_link (OSMemFreeList ?p)) bs"
    and n: "length bs = unat (OSMemNFree ?p)" "set bs \<subseteq> mem_blocks ?p"
    and ro: "mem_room (OSMemAddr ?p) (OSMemNBlks ?p) (OSMemBlkSize ?p)"
    using r by (auto simp: mem_repr_def Let_def)
  note ap = blocks_apart [OF ro]
  have lt: "\<not> OSMemNBlks ?p \<le> OSMemNFree ?p" using room n by (simp add: word_le_nat_alt)
  then have e: "OSMemPut m b s = (OS_ERR_NONE, upd_mem m (\<lambda>p. p\<lparr>OSMemFreeList := PAddr b, OSMemNFree := OSMemNFree p + 1\<rparr>)
      (s\<lparr>OSMemRam := st_word b ?v (OSMemRam s)\<rparr>))" by (simp add: OSMemPut_def Let_def)
  then show "fst (OSMemPut m b s) = OS_ERR_NONE" by simp
  have u: "unat (OSMemNFree ?p + 1) = Suc (unat (OSMemNFree ?p))"
    using room n unat_u32_lt [of "OSMemNBlks ?p"] by (simp add: unat_word_ariths)
  then have le: "OSMemNFree ?p + 1 \<le> OSMemNBlks ?p" using room n by (simp add: word_le_nat_alt)
  have "mlink (st_word b ?v (OSMemRam s)) x = mlink (OSMemRam s) x" if "x \<in> set bs" for x
    using that n(2) nb bl ap(3) [of x b] by (intro mlink_st(2)) auto
  then have "chain (mlink (st_word b ?v (OSMemRam s))) (addr_link (OSMemFreeList ?p)) bs"
    using c by (subst chain_cong [of bs _ "mlink (OSMemRam s)"]) auto
  moreover have "addr_link (word_ptr ?v) = addr_link (OSMemFreeList ?p)"
  proof (cases "addr_link (OSMemFreeList ?p)")
    case (Some a)
    then have "a \<in> mem_blocks ?p" using c n(2) by (cases bs) auto
    then show ?thesis using Some ap(1,2) [of a] word_ptr_nat by (simp add: ptr_word_def)
  qed (simp add: ptr_word_def)
  ultimately show "mem_repr m (snd (OSMemPut m b s)) (b # bs)"
    using n bl u le ro by (simp add: e mem_repr_def upd_mem_def Let_def mem_blocks_def mlink_st(1))
qed

definition mem_take :: "nat \<Rightarrow> os \<Rightarrow> nat option \<times> os" where
  "mem_take m s = (addr_link (fst (OSMemGet m s)), snd (snd (OSMemGet m s)))"

definition mem_own :: "nat \<Rightarrow> os \<Rightarrow> nat list \<Rightarrow> nat set" where
  "mem_own m s bs =
    (if length bs < unat (OSMemNBlks (OSMemTbl s m)) then mem_blocks (OSMemTbl s m) else {})"

interpretation mem: free_pool "mem_take m" "\<lambda>b s. snd (OSMemPut m b s)" "mem_repr m" "mem_own m" for m
proof
  fix s b bs
  show "mem_take m s = (None, s)" if "mem_repr m s []"
    using mem_get_cases(1) [OF that] by (simp add: mem_take_def)
  show "\<exists>s'. mem_take m s = (Some b, s') \<and> mem_repr m s' bs" if "mem_repr m s (b # bs)"
    using mem_get_cases(2) [OF that] by (simp add: mem_take_def)
  show "mem_repr m (snd (OSMemPut m b s)) (b # bs)" if "mem_repr m s bs" "b \<notin> set bs" "b \<in> mem_own m s bs"
    using mem_put_cons(2) [OF that(1,2)] that(3) by (simp add: mem_own_def split: if_splits)
  show "distinct bs" if "mem_repr m s bs" using that chain_distinct by (auto simp: mem_repr_def Let_def)
qed

lemma mem_create_list:
  assumes f: "OSMemFreeList_g s = Some m" and n: "0 < nblks" and ro: "mem_room a nblks blksize"
  shows "\<exists>s'. OSMemCreate a nblks blksize s = (Some m, OS_ERR_NONE, s') \<and>
    mem_repr m s' (map (\<lambda>k. a + k * unat blksize) [0..<unat nblks]) \<and> same_kernel s s' \<and>
    (\<forall>x. x < a \<or> a + unat nblks * unat blksize \<le> x \<longrightarrow> OSMemRam s' x = OSMemRam s x)"
proof -
  let ?h = "mem_links (unat (nblks - 1)) (unat blksize) a a (OSMemRam s)"
  let ?hp = "st_word (fst ?h) 0 (snd ?h)"
  let ?f = "\<lambda>p. p\<lparr>OSMemAddr := a, OSMemFreeList := PAddr a, OSMemNFree := nblks,
              OSMemNBlks := nblks, OSMemBlkSize := blksize\<rparr>"
  let ?s = "upd_mem m ?f (s\<lparr>OSMemFreeList_g := mem_link (OSMemFreeList (OSMemTbl s m)), OSMemRam := ?hp\<rparr>)"
  have u: "Suc (unat (nblks - 1)) = unat nblks"
    using n by (simp add: unat_sub_if_size word_less_nat_alt)
  have b0: "4 \<le> unat blksize" "0 < a" "a + Suc (unat (nblks - 1)) * unat blksize \<le> 2 ^ 32"
    using ro unfolding u by (simp_all add: mem_room_def word_le_nat_alt)
  note l = mem_links_list [OF b0, of "OSMemRam s"]
  have "chain (mlink ?hp) (Some a) (map (\<lambda>k. a + k * unat blksize) [0..<unat nblks])"
    using conjunct1 [OF l] unfolding u .
  then have "mem_repr m ?s (map (\<lambda>k. a + k * unat blksize) [0..<unat nblks])"
    using ro by (auto simp: mem_repr_def Let_def upd_mem_def mem_blocks_def)
  moreover have "OSMemRam ?s x = OSMemRam s x" if "x < a \<or> a + unat nblks * unat blksize \<le> x" for x
  proof -
    have e: "unat nblks * unat blksize = unat (nblks - 1) * unat blksize + unat blksize" by (simp flip: u)
    then have "x < a \<or> a + unat (nblks - 1) * unat blksize \<le> x" using that by linarith
    then have "snd ?h x = OSMemRam s x" using l by blast
    moreover have "x < fst ?h \<or> fst ?h + 4 \<le> x" using that l e b0(1) by linarith
    ultimately show ?thesis by (simp add: upd_mem_def st_word_at)
  qed
  moreover have "OSMemCreate a nblks blksize s = (Some m, OS_ERR_NONE, ?s)"
    using f by (simp add: OSMemCreate_def Let_def case_prod_beta upd_mem_def)
  ultimately show ?thesis by auto
qed

lemma ex_room: "mem_room 1000 3 16"
  by (simp add: mem_room_def)

lemma ex_partition: "mem_repr 0 (snd (snd (OSMemCreate 1000 3 16 (OS_MemInit os_bss)))) [1000, 1016, 1032]"
  using mem_create_list [of "OS_MemInit os_bss" 0 3, OF _ _ ex_room]
  by (auto simp: OS_MemInit_def Let_def upt_conv_Cons)

text \<open>
  The application may write anywhere but into the free blocks' first words: the partition stays intact when
  memory outside the free list changes.
\<close>

lemma mem_write_outside:
  assumes r: "mem_repr m s bs" and w: "\<forall>b\<in>set bs. x < b \<or> b + 4 \<le> x"
  shows "mem_repr m (s\<lparr>OSMemRam := (OSMemRam s)(x := v)\<rparr>) bs"
proof -
  have "mlink ((OSMemRam s)(x := v)) b = mlink (OSMemRam s) b" if "b \<in> set bs" for b
    unfolding mlink_def using w that by (subst ld_word_cong [of b _ "OSMemRam s"]) auto
  then have "chain (mlink ((OSMemRam s)(x := v))) p bs = chain (mlink (OSMemRam s)) p bs" for p by (intro chain_cong) auto
  then show ?thesis using r unfolding mem_repr_def Let_def by simp
qed

text \<open>
  With \<open>OS_ARG_CHK_EN\<close> 0 the source does not check the size. Blocks of one byte overlap, so that the second link
  destroys the first: the second block handed out is at an address outside the partition.
\<close>

lemma small_blocks_break:
  "(let (r, err, s) = OSMemCreate 1000 3 1 (OS_MemInit os_bss); (p, err1, s1) = OSMemGet 0 s; (q, err2, s2) = OSMemGet 0 s1
    in err = OS_ERR_NONE \<and> p = PAddr 1000 \<and> err2 = OS_ERR_NONE \<and> q \<noteq> PAddr 1001)"
proof -
  have "mem_links (Suc (Suc 0)) 1 1000 1000 h = (1002, st_word 1001 1002 (st_word 1000 1001 h))" for h by (simp add: Let_def)
  then have "mem_links 2 1 1000 1000 h = (1002, st_word 1001 1002 (st_word 1000 1001 h))" for h by (simp only: numeral_2_eq_2)
  then show ?thesis
    by (simp add: OSMemCreate_def OSMemGet_def OS_MemInit_def Let_def upd_mem_def mem_zero_def st_word_def ld_word_def word_ptr_def)
qed

section \<open>Properties\<close>



text \<open>
  A partition hands out its free blocks one by one, never the same block twice, refuses with \<open>OS_ERR_MEM_NO_FREE_BLKS\<close>
  exactly when none is left, and a block that is put back is the next one to be handed out.
\<close>

theorem mem_get_put:
  assumes r: "mem_repr m s bs"
  shows "(n \<le> length bs \<longrightarrow> fst (takes (mem_take m) n s) = take n bs \<and> distinct (fst (takes (mem_take m) n s)) \<and>
      mem_repr m (snd (takes (mem_take m) n s)) (drop n bs)) \<and>
    (fst (snd (OSMemGet m s)) = OS_ERR_MEM_NO_FREE_BLKS \<longleftrightarrow> bs = []) \<and>
    (\<forall>b cs. bs = b # cs \<longrightarrow> (let s1 = snd (snd (OSMemGet m s)) in
       fst (OSMemPut m b s1) = OS_ERR_NONE \<and> mem_repr m (snd (OSMemPut m b s1)) bs))"
proof -
  have e: "fst (snd (OSMemGet m s)) = OS_ERR_MEM_NO_FREE_BLKS \<longleftrightarrow> bs = []"
    using mem_get_cases [OF r] by (cases bs) auto
  have p: "fst (OSMemPut m b s1) = OS_ERR_NONE \<and> mem_repr m (snd (OSMemPut m b s1)) bs"
    if bs: "bs = b # cs" and s1: "s1 = snd (snd (OSMemGet m s))" for b cs s1
  proof -
    have r1: "mem_repr m s1 cs" using mem_get_cases(2) [OF r bs] s1 by simp
    have nb: "b \<notin> set cs" using mem.repr_distinct [OF r] bs by simp
    have sm: "OSMemNBlks (OSMemTbl s1 m) = OSMemNBlks (OSMemTbl s m)" "mem_blocks (OSMemTbl s1 m) = mem_blocks (OSMemTbl s m)"
      by (simp_all add: s1 OSMemGet_def Let_def upd_mem_def mem_blocks_def)
    have "length cs < unat (OSMemNBlks (OSMemTbl s1 m))" "b \<in> mem_blocks (OSMemTbl s1 m)"
      using r bs sm by (auto simp: mem_repr_def Let_def word_le_nat_alt)
    then show ?thesis using mem_put_cons [OF r1 nb] bs by simp
  qed
  show ?thesis using mem.takes_prefix [OF r, of n] mem.takes_distinct [OF r, of n] e p by (auto simp: Let_def)
qed

theorem mem_get_put_witness:
  "\<exists>s. mem_repr 0 s [1000, 1016, 1032] \<and> fst (takes (mem_take 0) 2 s) = [1000, 1016]"
  using mem_get_put [OF ex_partition, of 2] ex_partition by auto

end
