(* ===== verification/OsInit.thy ===== *)
theory OsInit
  imports OsTmr OsMutex OsQ OsMem
begin

text \<open>
  The initialisation of the kernel, the idle task and the statistics task: \<open>OSInit\<close> and the functions it
  calls in demo/UCOSII/CORE/os_core.c, the rest of \<open>OSTmr_Init\<close> in os_tmr.c and the hook of the port. What the
  linker decides, the addresses of the functions of the system tasks and of their stacks, is the record \<open>image\<close>.
\<close>

abbreviation (input) "OS_TASK_IDLE_ID \<equiv> 65535 :: u16"
abbreviation (input) "OS_TASK_STAT_ID \<equiv> 65534 :: u16"
abbreviation (input) "OS_TASK_TMR_ID \<equiv> 65533 :: u16"
abbreviation (input) "OS_TASK_TMR_PRIO \<equiv> 3 :: u8"
abbreviation (input) "SYS_STK_SIZE \<equiv> 128 :: nat"

record image =
  img_fpu :: bool
  img_ret :: u32
  img_idle :: u32
  img_stat :: u32
  img_tmr :: u32
  OSTaskIdleStk :: nat
  OSTaskStatStk :: nat
  OSTmrTaskStk :: nat

section \<open>Operations\<close>

subsection \<open>Byte loops\<close>

function OS_MemClr :: "nat \<Rightarrow> u16 \<Rightarrow> (nat \<Rightarrow> u8) \<Rightarrow> (nat \<Rightarrow> u8)" where
  "OS_MemClr pdest n m = (if 0 < n then OS_MemClr (pdest + 1) (n - 1) (m(pdest := 0)) else m)"
  by auto
termination by (relation "measure (\<lambda>(_, n, _). unat n)") (simp_all add: unat_minus_one unat_gt_0)

function OS_MemCopy :: "nat \<Rightarrow> nat \<Rightarrow> u16 \<Rightarrow> (nat \<Rightarrow> u8) \<Rightarrow> (nat \<Rightarrow> u8)" where
  "OS_MemCopy pdest psrc n m = (if 0 < n then OS_MemCopy (pdest + 1) (psrc + 1) (n - 1) (m(pdest := m psrc)) else m)"
  by auto
termination by (relation "measure (\<lambda>(_, _, n, _). unat n)") (simp_all add: unat_minus_one unat_gt_0)

declare OS_MemClr.simps [simp del] OS_MemCopy.simps [simp del]

subsection \<open>The tables\<close>

definition OSInitHookBegin :: "os \<Rightarrow> os" where
  "OSInitHookBegin s = s\<lparr>OSTmrCtr := 0\<rparr>"

definition OS_InitMisc :: "os \<Rightarrow> os" where
  "OS_InitMisc s = s\<lparr>OSTime := 0, OSIntNesting := 0, OSLockNesting := 0, OSTaskCtr := 0, OSRunning := False,
     OSCtxSwCtr := 0, OSIdleCtr := 0, OSIdleCtrRun := 0, OSIdleCtrMax := 0, OSStatRdy := False\<rparr>"

definition OS_InitRdyList :: "os \<Rightarrow> os" where
  "OS_InitRdyList s = s\<lparr>OSRdyGrp := 0, OSRdyTbl := fold (\<lambda>i t. t(i := 0)) [0..<8] (OSRdyTbl s),
     OSPrioCur := 0, OSPrioHighRdy := 0, OSTCBHighRdy := None, OSTCBCur := None\<rparr>"

definition OS_InitTCBList :: "os \<Rightarrow> os" where
  "OS_InitTCBList s =
    (let t = fold (\<lambda>ix t. t(ix := (t ix)\<lparr>OSTCBNext := Some (ix + 1), OSTCBTaskName := ''?''\<rparr>)) [0..<OS_N_TCBS - 1] (\<lambda>_. tcb_zero)
     in s\<lparr>OSTCBTbl := t(OS_N_TCBS - 1 := (t (OS_N_TCBS - 1))\<lparr>OSTCBNext := None, OSTCBTaskName := ''?''\<rparr>),
          OSTCBPrioTbl := (\<lambda>_. NoTcb), OSTCBList := None, OSTCBFreeList := Some 0\<rparr>)"

definition OS_InitEventList :: "os \<Rightarrow> os" where
  "OS_InitEventList s =
    (let t = fold (\<lambda>ix t. t(ix := (t ix)\<lparr>OSEventType := OS_EVENT_TYPE_UNUSED, OSEventPtr := PEvent (ix + 1), OSEventName := ''?''\<rparr>))
               [0..<OS_MAX_EVENTS - 1] (\<lambda>_. ev_zero)
     in s\<lparr>OSEventTbl_arr := t(OS_MAX_EVENTS - 1 := (t (OS_MAX_EVENTS - 1))\<lparr>OSEventType := OS_EVENT_TYPE_UNUSED,
            OSEventPtr := PNull, OSEventName := ''?''\<rparr>),
          OSEventFreeList := Some 0\<rparr>)"

subsection \<open>The system tasks\<close>

definition sys_task :: "image \<Rightarrow> u32 \<Rightarrow> nat \<Rightarrow> u8 \<Rightarrow> u16 \<Rightarrow> string \<Rightarrow> os \<Rightarrow> os" where
  "sys_task im fn stk p tid nm s =
    snd (OSTaskNameSet p nm (snd (OSTaskCreateExt (img_fpu im) (img_ret im) fn 0 (stk + SYS_STK_SIZE - 1) p tid stk (of_nat SYS_STK_SIZE)
      PNull (OS_TASK_OPT_STK_CHK OR OS_TASK_OPT_STK_CLR) s)))"

definition OS_InitTaskIdle :: "image \<Rightarrow> os \<Rightarrow> os" where
  "OS_InitTaskIdle im = sys_task im (img_idle im) (OSTaskIdleStk im) OS_TASK_IDLE_PRIO OS_TASK_IDLE_ID ''uC/OS-II Idle''"

definition OS_InitTaskStat :: "image \<Rightarrow> os \<Rightarrow> os" where
  "OS_InitTaskStat im = sys_task im (img_stat im) (OSTaskStatStk im) OS_TASK_STAT_PRIO OS_TASK_STAT_ID ''uC/OS-II Stat''"

definition OSTmr_InitTask :: "image \<Rightarrow> os \<Rightarrow> os" where
  "OSTmr_InitTask im = sys_task im (img_tmr im) (OSTmrTaskStk im) OS_TASK_TMR_PRIO OS_TASK_TMR_ID ''uC/OS-II Tmr''"

text \<open>A null handle is not named; the code passes the handle on without a test.\<close>

definition name_sem :: "nat option \<Rightarrow> string \<Rightarrow> os \<Rightarrow> os" where
  "name_sem h nm s = (case h of None \<Rightarrow> s | Some e \<Rightarrow> snd (OSEventNameSet e nm s))"

definition OSTmr_Init :: "image \<Rightarrow> os \<Rightarrow> os" where
  "OSTmr_Init im s =
    (let s1 = tmr_tables s;
         (h1, s2) = OSSemCreate 1 s1; s3 = s2\<lparr>OSTmrSem := h1\<rparr>;
         (h2, s4) = OSSemCreate 0 s3; s5 = s4\<lparr>OSTmrSemSignal := h2\<rparr>;
         s6 = name_sem (OSTmrSem s5) ''uC/OS-II TmrLock'' s5;
         s7 = name_sem (OSTmrSemSignal s6) ''uC/OS-II TmrSignal'' s6
     in OSTmr_InitTask im s7)"

definition OSInit :: "image \<Rightarrow> os \<Rightarrow> os" where
  "OSInit im s =
    (let s1 = OS_InitEventList (OS_InitTCBList (OS_InitRdyList (OS_InitMisc (OSInitHookBegin s))));
         s2 = OS_QInit (OS_MemInit (OS_FlagInit s1))
     in OSTmr_Init im (OS_InitTaskStat im (OS_InitTaskIdle im s2)))"

subsection \<open>The idle task and the statistics task\<close>

text \<open>A turn of the loop of \<open>OS_TaskIdle\<close>; the hook of the port does nothing.\<close>

definition OS_TaskIdle :: "os \<Rightarrow> os" where
  "OS_TaskIdle s = s\<lparr>OSIdleCtr := OSIdleCtr s + 1\<rparr>"

text \<open>\<open>OSStatInit\<close> is divided at its two calls of \<open>OSTimeDly\<close>.\<close>

definition OSStatInit :: "os \<Rightarrow> os" where
  "OSStatInit s = OSTimeDly 2 s"

definition OSStatInit_sync :: "os \<Rightarrow> os" where
  "OSStatInit_sync s = OSTimeDly (200 div 10) (s\<lparr>OSIdleCtr := 0\<rparr>)"

definition OSStatInit_return :: "os \<Rightarrow> os" where
  "OSStatInit_return s = s\<lparr>OSIdleCtrMax := OSIdleCtr s, OSStatRdy := True\<rparr>"

text \<open>
  The loop of \<open>OS_TaskStatStkChk\<close> over the priorities; \<open>None\<close> is a stack check that does not end.
\<close>

definition stat_chk :: "u8 \<Rightarrow> os \<Rightarrow> os option" where
  "stat_chk p s =
    (case OSTaskStkChk p s of
       None \<Rightarrow> None
     | Some (err, free, used) \<Rightarrow>
         Some (if err = OS_ERR_NONE then
                 case OSTCBPrioTbl s (unat p) of
                   Tcb i \<Rightarrow> upd_tcb i (\<lambda>t. t\<lparr>OSTCBStkBase := OSTCBStkBottom t + unat (OSTCBStkSize t), OSTCBStkUsed := used\<rparr>) s
                 | _ \<Rightarrow> s
               else s))"

fun stat_chks :: "u8 list \<Rightarrow> os \<Rightarrow> os option" where
  "stat_chks [] s = Some s"
| "stat_chks (p # ps) s = (case stat_chk p s of None \<Rightarrow> None | Some s1 \<Rightarrow> stat_chks ps s1)"

definition OS_TaskStatStkChk :: "os \<Rightarrow> os option" where
  "OS_TaskStatStkChk s = stat_chks (map of_nat [0..<64]) s"

text \<open>
  \<open>OS_TaskStat\<close>: the test of \<open>while (OSStatRdy == OS_FALSE)\<close> with the delay of its body (\<open>None\<close> when the loop is left),
  the lines between the loops, and a turn of the main loop up to its delay. A
  division by zero has no result.
\<close>

definition stat_wait :: "os \<Rightarrow> os option" where
  "stat_wait s = (if \<not> OSStatRdy s then Some (OSTimeDly (2 * 200 div 10) s) else None)"

definition stat_begin :: "os \<Rightarrow> os" where
  "stat_begin s =
    (let s1 = s\<lparr>OSIdleCtrMax := OSIdleCtrMax s div 100\<rparr>
     in if OSIdleCtrMax s1 = 0 then snd (OSTaskSuspend OS_PRIO_SELF (s1\<lparr>OSCPUUsage := 0\<rparr>)) else s1)"

definition OS_TaskStat :: "os \<Rightarrow> os option" where
  "OS_TaskStat s =
    (let s1 = s\<lparr>OSIdleCtrRun := OSIdleCtr s, OSIdleCtr := 0\<rparr>
     in if OSIdleCtrMax s1 = 0 then None
        else case OS_TaskStatStkChk (s1\<lparr>OSCPUUsage := ucast (100 - OSIdleCtrRun s1 div OSIdleCtrMax s1)\<rparr>) of
               None \<Rightarrow> None
             | Some s2 \<Rightarrow> Some (OSTimeDly (200 div 10) s2))"

section \<open>The byte loops\<close>

lemma u16_pred: "0 < (n::u16) \<Longrightarrow> unat (n - 1) = unat n - 1" "0 < (n::u16) \<Longrightarrow> 0 < unat n"
  by (simp_all add: unat_minus_one unat_gt_0 word_gt_0)

lemma OS_MemClr_apply: "OS_MemClr d n m a = (if d \<le> a \<and> a < d + unat n then 0 else m a)"
proof (induction d n m rule: OS_MemClr.induct)
  case (1 d n m)
  show ?case
  proof (cases "0 < n")
    case True
    then have "OS_MemClr d n m a = OS_MemClr (d + 1) (n - 1) (m(d := 0)) a" by (subst OS_MemClr.simps) simp
    also have "\<dots> = (if d + 1 \<le> a \<and> a < d + 1 + unat (n - 1) then 0 else (m(d := 0)) a)" by (rule 1 [OF True])
    also have "\<dots> = (if d \<le> a \<and> a < d + unat n then 0 else m a)" using u16_pred [OF True] by auto
    finally show ?thesis .
  qed (auto simp: OS_MemClr.simps word_gt_0)
qed

lemma OS_MemCopy_apply:
  assumes "d + unat n \<le> b \<or> b + unat n \<le> d \<or> d \<le> b"
  shows "OS_MemCopy d b n m a = (if d \<le> a \<and> a < d + unat n then m (b + (a - d)) else m a)"
  using assms
proof (induction d b n m rule: OS_MemCopy.induct)
  case (1 d b n m)
  show ?case
  proof (cases "0 < n")
    case True
    then have c: "d + 1 + unat (n - 1) \<le> b + 1 \<or> b + 1 + unat (n - 1) \<le> d + 1 \<or> d + 1 \<le> b + 1"
      using 1(2) u16_pred [of n] by linarith
    have "OS_MemCopy d b n m a = OS_MemCopy (d + 1) (b + 1) (n - 1) (m(d := m b)) a"
      using True by (subst OS_MemCopy.simps) simp
    also have "\<dots> = (if d + 1 \<le> a \<and> a < d + 1 + unat (n - 1) then (m(d := m b)) (b + 1 + (a - (d + 1))) else (m(d := m b)) a)"
      by (rule 1(1) [OF True c])
    also have "\<dots> = (if d \<le> a \<and> a < d + unat n then m (b + (a - d)) else m a)"
    proof -
      have "b + 1 + (a - (d + 1)) = b + (a - d)" if "d < a" using that by simp
      then show ?thesis using 1(2) u16_pred [OF True] by (cases "a = d") auto
    qed
    finally show ?thesis .
  qed (auto simp: OS_MemCopy.simps word_gt_0)
qed

section \<open>The tables after their initialisation\<close>

lemma fold_links:
  fixes z :: 'a
  assumes "\<And>k. g k z = c k"
  shows "fold (\<lambda>ix t. t(ix := g ix (t ix))) [0..<n] (\<lambda>_. z) = (\<lambda>j. if j < n then c j else z)"
  by (induction n) (auto simp: assms fun_eq_iff less_Suc_eq)

lemma InitTCB_cells:
  "OSTCBTbl (OS_InitTCBList s) = (\<lambda>i. if i < 11 then tcb_zero\<lparr>OSTCBNext := Some (i + 1), OSTCBTaskName := ''?''\<rparr>
     else if i = 11 then tcb_zero\<lparr>OSTCBTaskName := ''?''\<rparr> else tcb_zero)"
  unfolding OS_InitTCBList_def Let_def fold_links [where g = "\<lambda>ix t. t\<lparr>OSTCBNext := Some (ix + 1), OSTCBTaskName := ''?''\<rparr>", OF refl]
  by (auto simp: tcb_zero_def)

lemma InitEvent_cells:
  "OSEventTbl_arr (OS_InitEventList s) = (\<lambda>i. if i < 9 then ev_zero\<lparr>OSEventPtr := PEvent (i + 1), OSEventName := ''?''\<rparr>
     else if i = 9 then ev_zero\<lparr>OSEventName := ''?''\<rparr> else ev_zero)"
  unfolding OS_InitEventList_def Let_def
    fold_links [where g = "\<lambda>ix t. t\<lparr>OSEventType := OS_EVENT_TYPE_UNUSED, OSEventPtr := PEvent (ix + 1), OSEventName := ''?''\<rparr>", OF refl]
  by (auto simp: ev_zero_def)

lemma QInit_cells: "OSQTbl (OS_QInit s) = (\<lambda>i. if i < 4 then q_zero\<lparr>OSQPtr := Some (i + 1)\<rparr> else q_zero)"
  unfolding OS_QInit_def fold_links [where g = "\<lambda>ix t. t\<lparr>OSQPtr := Some (ix + 1)\<rparr>", OF refl] by auto

lemma evlist_init:
  assumes "OSEventTbl_arr s = OSEventTbl_arr (OS_InitEventList s0)" "OSEventFreeList s = Some 0"
  shows "evlist_ok s"
  unfolding evlist_ok_def
proof (intro exI conjI)
  show "chain (\<lambda>e. ev_link (OSEventPtr (ev s e))) (OSEventFreeList s) [0..<10]"
    unfolding assms(2) by (rule chain_upt) (auto simp: assms InitEvent_cells ev_zero_def)
  show "set [0..<10] = {e. e < 10 \<and> OSEventType (ev s e) = OS_EVENT_TYPE_UNUSED}"
    by (auto simp: assms InitEvent_cells ev_zero_def)
qed

section \<open>The kernel before it is started\<close>

text \<open>No task waits for anything, no flag group is in use, and each task has the one entry of the priority table.\<close>

definition plain :: "os \<Rightarrow> bool" where
  "plain s \<longleftrightarrow> (\<forall>g. OSFlagType (OSFlagTbl s g) = OS_EVENT_TYPE_UNUSED) \<and> (\<forall>j. OSTCBFlagNode (tcb s j) = None \<and> OSTCBStat (tcb s j) = OS_STAT_RDY \<and> OSTCBEventPtr (tcb s j) = None) \<and>
     (\<forall>q i. OSTCBPrioTbl s q = Tcb i \<longrightarrow> prio s i = q)"

text \<open>The invariants that do not speak of the running task; there are no mutexes yet.\<close>

definition boot_ok :: "os \<Rightarrow> bool" where
  "boot_ok s \<longleftrightarrow> kinv s \<and> evlist_ok s \<and> flags_ok s \<and> tasks_ok s \<and> \<not> OSRunning s \<and> OSIntNesting s = 0 \<and> OSLockNesting s = 0 \<and>
     (\<forall>e. \<not> is_mutex s e) \<and> qs_ok s \<and> plain s"

lemma boot_okD:
  assumes "boot_ok s"
  shows "kinv s" "evlist_ok s" "flags_ok s" "tasks_ok s" "\<not> OSRunning s" "OSIntNesting s = 0" "OSLockNesting s = 0" "\<not> is_mutex s e" "qs_ok s" "plain s"
  using assms by (auto simp: boot_ok_def)

lemma boot_mutexes: "boot_ok s \<Longrightarrow> mutexes_ok s"
  unfolding mutexes_ok_def using boot_okD(8) [of s] by simp

lemma qs_init:
  assumes "OSQTbl s = OSQTbl (OS_QInit s)" "OSQFreeList s = Some 0" "\<And>e. \<not> is_q s e"
  shows "qs_ok s"
proof (rule qs_okI)
  show "chain (\<lambda>q. OSQPtr (OSQTbl s q)) (OSQFreeList s) [0..<5]"
    unfolding assms(2) by (rule chain_upt) (simp_all add: assms(1) QInit_cells q_zero_def)
qed (use assms(3) in auto)

text \<open>The invariant of the queues does not depend on the memory they are in.\<close>

lemma qs_tables:
  assumes "qs_ok s" "OSQTbl s' = OSQTbl s" "OSQFreeList s' = OSQFreeList s"
    "\<And>e. is_q s' e = is_q s e" "\<And>e. is_q s e \<Longrightarrow> OSEventPtr (ev s' e) = OSEventPtr (ev s e)"
  shows "qs_ok s'"
proof -
  let ?h = "s\<lparr>OSHeap := OSHeap s'\<rparr>"
  have h: "qs_ok ?h" using assms(1) by (simp add: qs_ok_def is_q_def ev_q_def ring_of_def ring_ok_def)
  have q: "is_q ?h e = is_q s e" for e by (simp add: is_q_def)
  show ?thesis by (rule qs_frame [OF h]) (simp_all add: assms q)
qed

lemma TCBInit_rest [simp]:
  "OSQTbl (snd (OS_TCBInit p a b c d x o' s)) = OSQTbl s" "OSQFreeList (snd (OS_TCBInit p a b c d x o' s)) = OSQFreeList s"
  "tmr_part (snd (OS_TCBInit p a b c d x o' s)) = tmr_part s" "OSTmrSem (snd (OS_TCBInit p a b c d x o' s)) = OSTmrSem s"
  "OSTmrSemSignal (snd (OS_TCBInit p a b c d x o' s)) = OSTmrSemSignal s" "OSTickStepState (snd (OS_TCBInit p a b c d x o' s)) = OSTickStepState s"
  "OSHeap (snd (OS_TCBInit p a b c d x o' s)) = OSHeap s"
  by (simp_all add: OS_TCBInit_def Let_def upd_tcb_def set_slot_def rdy_set_def set_rdy_def tmr_part_def split: option.split)

lemma boot_create:
  assumes b: "boot_ok s" and slot: "OSTCBPrioTbl s (unat p) = NoTcb" and p: "unat p < 64" and i: "OSTCBFreeList s = Some i"
    and r: "create_tail p psp pb t n x o' m s = (err, s')"
  shows "err = OS_ERR_NONE" "boot_ok s'" "tmr_part s' = tmr_part s" "OSTCBPrioTbl s' = (OSTCBPrioTbl s)(unat p := Tcb i)"
    "rdyset s' = insert (unat p) (rdyset s)" "OSTCBFreeList s' = OSTCBNext (tcb s i)" "OSTCBNext (tcb s' j) = (if j = i then OSTCBList s else OSTCBNext (tcb s j))"
    "OSEventTbl_arr s' = OSEventTbl_arr s" "OSTmrSem s' = OSTmrSem s" "OSTmrSemSignal s' = OSTmrSemSignal s" "live s' i" "prio s' i = unat p"
    "OSEventFreeList s' = OSEventFreeList s" "OSTickStepState s' = OSTickStepState s" "OSQTbl s' = OSQTbl s" "OSHeap s' = OSHeap s"
proof -
  define s1 where "s1 = (set_slot p Reserved s)\<lparr>OSStkMem := m\<rparr>"
  note k = boot_okD [OF b]
  have nt: "OSTCBPrioTbl s (unat p) \<noteq> Tcb j" for j using slot by simp
  note sf = slot_frame [OF s1_def nt]
  have k1: "kinv s1" "tasks_ok s1" "flags_ok s1" "evlist_ok s1" using sf k by simp_all
  have f1: "OSTCBFreeList s1 = Some i" "OSTCBPrioTbl s1 (unat p) \<noteq> Tcb j" "OSTCBTbl s1 = OSTCBTbl s" "OSTCBList s1 = OSTCBList s"
    "OSTCBPrioTbl s1 = (OSTCBPrioTbl s)(unat p := Reserved)" "rdyset s1 = rdyset s" "OSRunning s1 = OSRunning s" "OSIntNesting s1 = 0" "OSLockNesting s1 = 0"
    "OSEventTbl_arr s1 = OSEventTbl_arr s" "OSQTbl s1 = OSQTbl s" "OSQFreeList s1 = OSQFreeList s" "tmr_part s1 = tmr_part s" "OSTmrSem s1 = OSTmrSem s"
    "OSTmrSemSignal s1 = OSTmrSemSignal s" "OSEventFreeList s1 = OSEventFreeList s"
    "OSTickStepState s1 = OSTickStepState s" "OSFlagTbl s1 = OSFlagTbl s" "OSHeap s1 = OSHeap s" for j
    using k by (simp_all add: s1_def set_slot_def i rdyset_def rdy_bm_def tmr_part_def)
  obtain e2 s2 where r2: "OS_TCBInit p psp pb t n x o' s1 = (e2, s2)" by fastforce
  note t = TCBInit_ok [OF k1 f1(1,2) p r2]
  have hl: "OSTCBList s1 \<noteq> Some i" using k1(2) t(11) by (simp add: tasks_ok_def tlist_head_live)
  note f = TCBInit_fields [OF f1(1) hl r2]
  have s2: "s2 = snd (OS_TCBInit p psp pb t n x o' s1)" by (simp add: r2)
  have s': "s' = s2" "err = e2" using r t(10) k(5) f(12) f1(7) unfolding create_tail_def Let_def s1_def [symmetric] r2
    by (auto simp: sched_if_running_def)
  show "err = OS_ERR_NONE" using s' t by simp
  show tp: "tmr_part s' = tmr_part s" "OSTmrSem s' = OSTmrSem s" "OSTmrSemSignal s' = OSTmrSemSignal s" "OSTickStepState s' = OSTickStepState s"
    by (simp_all add: s'(1) s2 f1)
  show "OSTCBPrioTbl s' = (OSTCBPrioTbl s)(unat p := Tcb i)" "rdyset s' = insert (unat p) (rdyset s)" "OSTCBFreeList s' = OSTCBNext (tcb s i)"
    "OSEventTbl_arr s' = OSEventTbl_arr s" "OSEventFreeList s' = OSEventFreeList s"
    by (simp_all add: s' f f1 t(8))
  show "OSTCBNext (tcb s' j) = (if j = i then OSTCBList s else OSTCBNext (tcb s j))"
    unfolding s'(1) f(2) by (auto simp: f1 split: option.split)
  show qt: "OSQTbl s' = OSQTbl s" "OSHeap s' = OSHeap s" by (simp_all add: s'(1) s2 f1)
  have "OSQFreeList s' = OSQFreeList s" by (simp add: s'(1) s2 f1)
  moreover have ea: "OSEventTbl_arr s' = OSEventTbl_arr s" by (simp add: s' f f1)
  ultimately have "qs_ok s'" using qs_tables [OF k(9) qt(1)] by (simp add: is_q_def)
  moreover have "\<not> is_mutex s' e" for e using k(8) [of e] by (simp add: ea)
  moreover have "plain s'"
  proof -
    have pl: "plain s" by (rule k)
    have tb: "OSTCBFlagNode (tcb s' j) = None \<and> OSTCBStat (tcb s' j) = OS_STAT_RDY \<and> OSTCBEventPtr (tcb s' j) = None" for j
      using pl unfolding s'(1) f(2) by (auto simp: f1 plain_def split: option.split)
    have pr: "OSTCBPrio (tcb s' j) = (if j = i then p else OSTCBPrio (tcb s j))" for j unfolding s'(1) f(2) by (auto simp: f1 split: option.split)
    have nl: "\<not> live s i" using t(11) by (simp add: sf(1))
    have "prio s' x = q" if "OSTCBPrioTbl s' q = Tcb x" for q x
    proof (cases "q = unat p")
      case True
      then show ?thesis using that pr [of x] by (simp add: s'(1) f)
    next
      case False
      then have sl: "OSTCBPrioTbl s q = Tcb x" using that by (simp add: s'(1) f f1)
      then have "x \<noteq> i" using kinv_slot [OF k(1) sl] nl by auto
      then show ?thesis using sl pl pr [of x] by (simp add: plain_def)
    qed
    then show ?thesis using pl tb unfolding plain_def by (simp add: s'(1) f f1)
  qed
  ultimately show "boot_ok s'" unfolding boot_ok_def using t k by (simp add: s'(1) f f1)
  show "live s' i" "prio s' i = unat p" using t by (simp_all add: s')
qed

text \<open>The state in which \<open>OSInit\<close> creates the idle task.\<close>

definition init_tables :: "os \<Rightarrow> os" where
  "init_tables s = OS_QInit (OS_MemInit (OS_FlagInit (OS_InitEventList (OS_InitTCBList (OS_InitRdyList (OS_InitMisc (OSInitHookBegin s)))))))"

lemma OSInit_tables: "OSInit im s = OSTmr_Init im (OS_InitTaskStat im (OS_InitTaskIdle im (init_tables s)))"
  by (simp add: OSInit_def init_tables_def Let_def)

lemma init_frame [simp]:
  "OSTCBTbl (OS_QInit s) = OSTCBTbl s" "OSTCBTbl (OS_MemInit s) = OSTCBTbl s" "OSTCBTbl (OS_InitEventList s) = OSTCBTbl s"
  "OSTCBPrioTbl (OS_QInit s) = OSTCBPrioTbl s" "OSTCBPrioTbl (OS_MemInit s) = OSTCBPrioTbl s" "OSTCBPrioTbl (OS_InitEventList s) = OSTCBPrioTbl s"
  "OSTCBList (OS_QInit s) = OSTCBList s" "OSTCBList (OS_MemInit s) = OSTCBList s" "OSTCBList (OS_InitEventList s) = OSTCBList s"
  "OSTCBFreeList (OS_QInit s) = OSTCBFreeList s" "OSTCBFreeList (OS_MemInit s) = OSTCBFreeList s" "OSTCBFreeList (OS_InitEventList s) = OSTCBFreeList s"
  "OSEventTbl_arr (OS_QInit s) = OSEventTbl_arr s" "OSEventTbl_arr (OS_MemInit s) = OSEventTbl_arr s"
  "OSEventFreeList (OS_QInit s) = OSEventFreeList s" "OSEventFreeList (OS_MemInit s) = OSEventFreeList s" "OSEventFreeList (OS_FlagInit s) = OSEventFreeList s"
  "OSFlagTbl (OS_QInit s) = OSFlagTbl s" "OSFlagTbl (OS_MemInit s) = OSFlagTbl s" "OSFlagNodes (OS_QInit s) = OSFlagNodes s" "OSFlagNodes (OS_MemInit s) = OSFlagNodes s"
  "OSFlagFreeList (OS_QInit s) = OSFlagFreeList s" "OSFlagFreeList (OS_MemInit s) = OSFlagFreeList s"
  "rdy_bm (OS_QInit s) = rdy_bm s" "rdy_bm (OS_MemInit s) = rdy_bm s" "rdy_bm (OS_InitEventList s) = rdy_bm s" "rdy_bm (OS_InitTCBList s) = rdy_bm s"
  "OSRunning (OS_QInit s) = OSRunning s" "OSRunning (OS_MemInit s) = OSRunning s" "OSRunning (OS_InitEventList s) = OSRunning s" "OSRunning (OS_InitTCBList s) = OSRunning s"
  "OSRunning (OS_InitRdyList s) = OSRunning s"
  "OSIntNesting (OS_QInit s) = OSIntNesting s" "OSIntNesting (OS_MemInit s) = OSIntNesting s" "OSIntNesting (OS_InitEventList s) = OSIntNesting s"
  "OSIntNesting (OS_InitTCBList s) = OSIntNesting s" "OSIntNesting (OS_InitRdyList s) = OSIntNesting s"
  "OSLockNesting (OS_QInit s) = OSLockNesting s" "OSLockNesting (OS_MemInit s) = OSLockNesting s" "OSLockNesting (OS_InitEventList s) = OSLockNesting s"
  "OSLockNesting (OS_InitTCBList s) = OSLockNesting s" "OSLockNesting (OS_InitRdyList s) = OSLockNesting s"
  by (simp_all add: OS_QInit_def OS_MemInit_def OS_InitEventList_def OS_InitTCBList_def OS_InitRdyList_def OS_FlagInit_def Let_def rdy_bm_def)

lemma init_fields [simp]:
  "OSTCBPrioTbl (OS_InitTCBList s) = (\<lambda>_. NoTcb)" "OSTCBList (OS_InitTCBList s) = None" "OSTCBFreeList (OS_InitTCBList s) = Some 0"
  "OSEventFreeList (OS_InitEventList s) = Some 0" "OSQFreeList (OS_QInit s) = Some 0" "\<not> OSRunning (OS_InitMisc s)"
  "OSIntNesting (OS_InitMisc s) = 0" "OSLockNesting (OS_InitMisc s) = 0"
  by (simp_all add: OS_InitTCBList_def OS_InitEventList_def OS_QInit_def OS_InitMisc_def Let_def)

lemma init_rdy: "prios (rdy_bm (OS_InitRdyList s)) = {}" "bm_ok (rdy_bm (OS_InitRdyList s))"
proof -
  have z: "OSRdyTbl (OS_InitRdyList s) y = 0" if "y < 8" for y
  proof -
    have "fold (\<lambda>i t. t(i := 0)) [0..<n] T y = (0 :: u8)" if "y < n" for n T using that by (induction n) auto
    then show ?thesis using that by (simp add: OS_InitRdyList_def)
  qed
  show "bm_ok (rdy_bm (OS_InitRdyList s))" using z by (simp add: bm_ok_def rdy_bm_def) (simp add: OS_InitRdyList_def)
  show "prios (rdy_bm (OS_InitRdyList s)) = {}" using z by (auto simp: prios_def rdy_bm_def)
qed

lemma init_tables_facts:
  fixes s
  defines "b \<equiv> init_tables s"
  shows "OSTCBPrioTbl b = (\<lambda>_. NoTcb)" "OSTCBList b = None" "OSTCBFreeList b = Some 0" "OSTCBTbl b = OSTCBTbl (OS_InitTCBList s)" "rdyset b = {}"
    "bm_ok (rdy_bm b)" "\<not> OSRunning b" "OSIntNesting b = 0" "OSLockNesting b = 0" "evlist_ok b" "OSEventType (ev b e) = OS_EVENT_TYPE_UNUSED"
    "ev_bm (ev b e) = bm_empty" "flags_ok b" "OSQTbl b = OSQTbl (OS_QInit b)" "OSQFreeList b = Some 0" "\<not> live b i"
    "OSEventTbl_arr b = OSEventTbl_arr (OS_InitEventList s)" "OSEventFreeList b = Some 0"
proof -
  show p: "OSTCBPrioTbl b = (\<lambda>_. NoTcb)" "OSTCBList b = None" "OSTCBFreeList b = Some 0" "OSTCBTbl b = OSTCBTbl (OS_InitTCBList s)" "\<not> OSRunning b"
    "OSIntNesting b = 0" "OSLockNesting b = 0" "OSQTbl b = OSQTbl (OS_QInit b)" "OSQFreeList b = Some 0" "OSEventFreeList b = Some 0"
    by (simp_all add: b_def init_tables_def InitTCB_cells QInit_cells)
  show e: "OSEventTbl_arr b = OSEventTbl_arr (OS_InitEventList s)" by (simp add: b_def init_tables_def InitEvent_cells)
  show "evlist_ok b" by (rule evlist_init [OF e]) (rule p)
  show "OSEventType (ev b e) = OS_EVENT_TYPE_UNUSED" "ev_bm (ev b e) = bm_empty"
    by (simp_all add: e InitEvent_cells ev_zero_def ev_bm_def bm_empty_def)
  show "rdyset b = {}" "bm_ok (rdy_bm b)" using init_rdy by (simp_all add: b_def init_tables_def rdyset_def)
  show "\<not> live b i" by (simp add: live_def p)
  let ?f = "OS_FlagInit (OS_InitEventList (OS_InitTCBList (OS_InitRdyList (OS_InitMisc (OSInitHookBegin s)))))"
  have "flags_ok ?f" by (rule flags_ok_init) (simp add: live_def)
  then show "flags_ok b" by (rule flags_ok_frame) (simp_all add: b_def init_tables_def wset_def)
qed

lemma init_flags: "OSFlagType (OSFlagTbl (init_tables s) g) = OS_EVENT_TYPE_UNUSED"
  by (simp add: init_tables_def OS_FlagInit_def Let_def upt_rec flag_zero_def)

lemma init_tick: "OSTickStepState (init_tables s) = OSTickStepState s"
  by (simp add: init_tables_def OS_QInit_def OS_MemInit_def OS_FlagInit_def OS_InitEventList_def OS_InitTCBList_def OS_InitRdyList_def OS_InitMisc_def
      OSInitHookBegin_def Let_def)

lemma sys_task_tail:
  assumes "OSIntNesting s = 0" "OSTCBPrioTbl s (unat p) = NoTcb" "p \<noteq> OS_PRIO_SELF"
  obtains psp m err s1 where "create_tail p psp stk tid 128 PNull 3 m s = (err, s1)" "sys_task im fn stk p tid nm s = snd (OSTaskNameSet p nm s1)"
proof -
  let ?m = "OSTaskStkInit (img_fpu im) (img_ret im) fn 0 (stk + SYS_STK_SIZE - 1) (OS_TaskStkClr stk (of_nat SYS_STK_SIZE) (OS_TASK_OPT_STK_CHK OR OS_TASK_OPT_STK_CLR) (OSStkMem s))"
  have "sys_task im fn stk p tid nm s = snd (OSTaskNameSet p nm (snd (create_tail p (fst ?m) stk tid 128 PNull 3 (snd ?m) s)))"
    unfolding sys_task_def create_tails(2) [OF assms(1,2)] by simp
  then show thesis by (rule that [OF prod.collapse [symmetric]])
qed

text \<open>A change of names and of memory outside the kernel's tables.\<close>

lemma boot_frame:
  assumes b: "boot_ok s" and e: "\<And>e. OSEventType (ev s' e) = OSEventType (ev s e) \<and> ev_bm (ev s' e) = ev_bm (ev s e) \<and> OSEventPtr (ev s' e) = OSEventPtr (ev s e)"
    and t: "\<And>i. \<exists>nm. tcb s' i = (tcb s i)\<lparr>OSTCBTaskName := nm\<rparr>"
    and f: "OSTCBPrioTbl s' = OSTCBPrioTbl s" "OSRdyGrp s' = OSRdyGrp s" "OSRdyTbl s' = OSRdyTbl s" "OSEventFreeList s' = OSEventFreeList s" "OSTCBList s' = OSTCBList s"
      "OSTCBFreeList s' = OSTCBFreeList s" "OSFlagTbl s' = OSFlagTbl s" "OSFlagNodes s' = OSFlagNodes s" "OSFlagFreeList s' = OSFlagFreeList s"
      "OSRunning s' = OSRunning s" "OSIntNesting s' = OSIntNesting s" "OSLockNesting s' = OSLockNesting s" "OSQTbl s' = OSQTbl s" "OSQFreeList s' = OSQFreeList s"
  shows "boot_ok s'"
proof -
  note k = boot_okD [OF b]
  have tc: "OSTCBPrio (tcb s' i) = OSTCBPrio (tcb s i)" "OSTCBFlagNode (tcb s' i) = OSTCBFlagNode (tcb s i)" "OSTCBStat (tcb s' i) = OSTCBStat (tcb s i)"
    "OSTCBStatPend (tcb s' i) = OSTCBStatPend (tcb s i)" "OSTCBDly (tcb s' i) = OSTCBDly (tcb s i)" "OSTCBNext (tcb s' i) = OSTCBNext (tcb s i)"
    "OSTCBPrev (tcb s' i) = OSTCBPrev (tcb s i)" "same_core (tcb s i) (tcb s' i)"
    "OSTCBEventPtr (tcb s' i) = OSTCBEventPtr (tcb s i)" for i
    using t [of i] by (auto simp: same_core_def)
  have w: "wset s' e = wset s e" for e using e by (simp add: wset_def)
  have "kinv s'" by (rule kinv_frame [OF k(1) f(1) tc(8) f(2,3)]) (use e in blast)
  moreover have "evlist_ok s'" by (rule evlist_frame [OF k(2) f(4)]) (use e in blast)+
  moreover have "flags_ok s'" by (rule flags_ok_frame [OF k(3) f(8,9) _ f(1) _ w]) (simp_all add: f tc)
  moreover have "tasks_ok s'" by (rule tasks_frame [OF k(4) f(6,5,1) tc(6,7,1)])
  moreover have "qs_ok s'" by (rule qs_tables [OF k(9) f(13,14)]) (simp_all add: is_q_def e)
  moreover have "\<not> is_mutex s' x" for x using k(8) [of x] e [of x] by simp
  moreover have "plain s'" using k(10) by (simp add: plain_def f tc)
  ultimately show ?thesis unfolding boot_ok_def using k e by (simp add: f)
qed

lemma NameSet_frame [simp]:
  defines "s' \<equiv> \<lambda>p nm s. snd (OSTaskNameSet p nm s)"
  shows "OSTCBPrioTbl (s' p nm s) = OSTCBPrioTbl s" "OSRdyGrp (s' p nm s) = OSRdyGrp s" "OSRdyTbl (s' p nm s) = OSRdyTbl s"
    "OSEventFreeList (s' p nm s) = OSEventFreeList s" "OSTCBList (s' p nm s) = OSTCBList s" "OSTCBFreeList (s' p nm s) = OSTCBFreeList s"
    "OSFlagTbl (s' p nm s) = OSFlagTbl s" "OSFlagNodes (s' p nm s) = OSFlagNodes s" "OSFlagFreeList (s' p nm s) = OSFlagFreeList s" "OSRunning (s' p nm s) = OSRunning s"
    "OSIntNesting (s' p nm s) = OSIntNesting s" "OSLockNesting (s' p nm s) = OSLockNesting s" "OSQTbl (s' p nm s) = OSQTbl s" "OSQFreeList (s' p nm s) = OSQFreeList s"
    "OSEventTbl_arr (s' p nm s) = OSEventTbl_arr s" "tmr_part (s' p nm s) = tmr_part s" "OSTmrSem (s' p nm s) = OSTmrSem s" "OSTmrSemSignal (s' p nm s) = OSTmrSemSignal s"
    "rdyset (s' p nm s) = rdyset s" "OSTCBPrio (tcb (s' p nm s) i) = OSTCBPrio (tcb s i)" "OSTCBNext (tcb (s' p nm s) i) = OSTCBNext (tcb s i)"
    "OSTCBPrev (tcb (s' p nm s) i) = OSTCBPrev (tcb s i)" "OSTickStepState (s' p nm s) = OSTickStepState s"
  by (simp_all add: s'_def OSTaskNameSet_def upd_tcb_def tmr_part_def rdyset_def rdy_bm_def split: tcb_slot.split)

lemma same_name [simp]: "\<exists>nm. t = t\<lparr>OSTCBTaskName := nm\<rparr>"
  by (rule exI [of _ "OSTCBTaskName t"]) (cases t, simp)

lemma boot_name: "boot_ok s \<Longrightarrow> boot_ok (snd (OSTaskNameSet p nm s))"
  by (erule boot_frame) (simp_all, auto simp: OSTaskNameSet_def upd_tcb_def split: tcb_slot.split)

lemma boot_name_sem: "boot_ok s \<Longrightarrow> boot_ok (name_sem h nm s)"
  by (erule boot_frame) (auto simp: name_sem_def OSEventNameSet_def upd_ev_def ev_bm_def split: option.split)

text \<open>The first task: the idle task, in an empty list.\<close>

lemma boot_idle:
  assumes r: "create_tail 63 psp pb t n x o' m (init_tables s) = (err, s')"
  shows "boot_ok s'" "OSTCBPrioTbl s' = (\<lambda>_. NoTcb)(63 := Tcb 0)" "OSTCBFreeList s' = Some 1" "rdyset s' = {63}"
    "OSTCBNext (tcb s' j) = (if j < 11 \<and> j \<noteq> 0 then Some (j + 1) else None)" "OSEventTbl_arr s' = OSEventTbl_arr (OS_InitEventList s)"
    "OSEventFreeList s' = Some 0" "OSTickStepState s' = OSTickStepState s"
proof -
  define s1 where "s1 = (set_slot 63 Reserved (init_tables s))\<lparr>OSStkMem := m\<rparr>"
  note b = init_tables_facts [of s]
  have nt: "OSTCBPrioTbl (init_tables s) (unat 63) \<noteq> Tcb j" for j by (simp add: b)
  note sf = slot_frame [OF s1_def nt]
  have f1: "OSTCBFreeList s1 = Some 0" "OSTCBTbl s1 = OSTCBTbl (OS_InitTCBList s)" "OSTCBList s1 = None" "OSTCBPrioTbl s1 = (\<lambda>_. NoTcb)(63 := Reserved)"
    "rdy_bm s1 = rdy_bm (init_tables s)" "\<not> OSRunning s1" "OSIntNesting s1 = 0" "OSLockNesting s1 = 0" "OSEventTbl_arr s1 = OSEventTbl_arr (init_tables s)"
    "OSQTbl s1 = OSQTbl (init_tables s)" "OSQFreeList s1 = Some 0" "OSEventFreeList s1 = Some 0"
    by (simp_all add: s1_def set_slot_def b rdy_bm_def)
  obtain e2 s2 where r2: "OS_TCBInit 63 psp pb t n x o' s1 = (e2, s2)" by fastforce
  have hl: "OSTCBList s1 \<noteq> Some 0" by (simp add: f1)
  note f = TCBInit_fields [OF f1(1) hl r2]
  have s2: "s2 = snd (OS_TCBInit 63 psp pb t n x o' s1)" by (simp add: r2)
  have s': "s' = s2" using r f(1) f(12) f1(6) unfolding create_tail_def Let_def s1_def [symmetric] r2 by (auto simp: sched_if_running_def)
  have tb: "OSTCBTbl s' = (OSTCBTbl (OS_InitTCBList s))(0 := (tcb_fields 63 psp pb t n x o' (tcb s1 0))\<lparr>OSTCBNext := None, OSTCBPrev := None\<rparr>)"
    unfolding s' f(2) by (simp add: f1)
  show "OSTickStepState s' = OSTickStepState s" by (simp add: s' s2 s1_def set_slot_def init_tick)
  show pt: "OSTCBPrioTbl s' = (\<lambda>_. NoTcb)(63 := Tcb 0)" by (simp add: s' f f1 fun_eq_iff)
  show nx: "OSTCBNext (tcb s' j) = (if j < 11 \<and> j \<noteq> 0 then Some (j + 1) else None)" for j by (simp add: tb InitTCB_cells tcb_zero_def)
  show fl: "OSTCBFreeList s' = Some 1" by (simp add: s' f f1 InitTCB_cells)
  show ea: "OSEventTbl_arr s' = OSEventTbl_arr (OS_InitEventList s)" "OSEventFreeList s' = Some 0" by (simp_all add: s' f f1 b)
  have eb: "OSEventTbl_arr s' = OSEventTbl_arr (init_tables s)" by (simp add: s' f f1)
  show rs: "rdyset s' = {63}" using b(5) by (simp add: rdyset_def s' f f1 bm.elems_ins)
  have lv: "live s' i \<longleftrightarrow> i = 0" for i by (simp add: live_def pt tb InitTCB_cells tcb_zero_def)
  have w: "wset s' e = {}" for e by (simp add: wset_def eb b(12))
  have t0: "wf_tcb (tcb s' 0)" "OSTCBStat (tcb s' 0) = 0" "OSTCBDly (tcb s' 0) = 0" "prio s' 0 = 63" "OSTCBFlagNode (tcb s' 0) = None" by (simp_all add: tb)
  have "bm_ok (rdy_bm s')" using b(6) by (simp add: s' f f1 bm.invar_ins)
  then have "kinv s'" by (simp add: kinv_def lv task_ok_def rs w t0 eb b(11,12) pt)
  moreover have "evlist_ok s'" by (rule evlist_init [OF ea])
  moreover have "flags_ok s'"
  proof (rule flags_ok_live [OF b(13)])
    show "OSFlagTbl s' = OSFlagTbl (init_tables s)" "OSFlagNodes s' = OSFlagNodes (init_tables s)" "OSFlagFreeList s' = OSFlagFreeList (init_tables s)"
      by (simp_all add: s' f s1_def set_slot_def)
    show "live s' j \<Longrightarrow> fnode_ok s' j" for j using t0 by (simp add: lv fnode_ok_def)
    show "flag_waits s' g j = flag_waits (init_tables s) g j" for g j using t0 by (auto simp: flag_waits_def lv b)
  qed
  moreover have "tasks_ok s'"
  proof -
    have "OSTCBList s' = Some 0" "OSTCBPrio (tcb s' 0) = 63" "OSTCBPrev (tcb s' 0) = None" by (simp add: s' f, simp_all add: tb)
    then have "tlist_ok s'" unfolding tlist_ok_def by (intro exI [of _ "[]"] exI [of _ 0]) (auto simp: nx lv)
    moreover have "chain (\<lambda>i. OSTCBNext (tcb s' i)) (Some 1) [1..<12]" by (rule chain_upt) (auto simp: nx)
    then have "tfree_ok s'" unfolding tfree_ok_def by (intro exI [of _ "[1..<12]"]) (auto simp: fl lv)
    ultimately show ?thesis by (simp add: tasks_ok_def lv)
  qed
  moreover have "qs_ok s'" 
  proof (rule qs_init)
    show "\<not> is_q s' e" for e by (simp add: is_q_def eb b(11))
  qed (use b(14) in \<open>simp_all add: s' s2 f1 QInit_cells\<close>)
  moreover have "plain s'"
  proof -
    have "OSFlagTbl s' = OSFlagTbl (init_tables s)" by (simp add: s' f s1_def set_slot_def)
    then have "OSFlagType (OSFlagTbl s' g) = OS_EVENT_TYPE_UNUSED" for g using init_flags by simp
    then show ?thesis by (auto simp: plain_def pt tb InitTCB_cells tcb_zero_def)
  qed
  ultimately show "boot_ok s'" using b(11) unfolding boot_ok_def by (simp add: eb s' f f1)
qed

text \<open>A new event control block, with a queue or without.\<close>

lemma boot_event:
  fixes s e cnt pt tb fl
  defines "s' \<equiv> \<lambda>ty. event_init e ty cnt pt (s\<lparr>OSQTbl := tb, OSQFreeList := fl, OSEventFreeList := ev_link (OSEventPtr (ev s e))\<rparr>)"
  assumes b: "boot_ok s" and e: "OSEventFreeList s = Some e" and ty: "ty \<noteq> OS_EVENT_TYPE_UNUSED" "ty \<noteq> OS_EVENT_TYPE_MUTEX" and q: "qs_ok (s' ty)"
  shows "boot_ok (s' ty)" "OSTCBTbl (s' ty) = OSTCBTbl s" "OSTCBPrioTbl (s' ty) = OSTCBPrioTbl s" "rdyset (s' ty) = rdyset s"
    "OSTCBFreeList (s' ty) = OSTCBFreeList s" "OSTCBList (s' ty) = OSTCBList s" "tmr_part (s' ty) = tmr_part s" "OSTmrSem (s' ty) = OSTmrSem s"
    "OSEventType (ev (s' ty) e) = ty" "OSEventCnt (ev (s' ty) e) = cnt" "x \<noteq> e \<Longrightarrow> ev (s' ty) x = ev s x" "OSEventFreeList (s' ty) = ev_link (OSEventPtr (ev s e))"
    "OSTickStepState (s' ty) = OSTickStepState s"
proof -
  let ?q = "s\<lparr>OSQTbl := tb, OSQFreeList := fl\<rparr>"
  let ?g = "?q\<lparr>OSEventFreeList := ev_link (OSEventPtr (ev s e))\<rparr>"
  let ?s = "s' ty"
  note k = boot_okD [OF b]
  have kq: "evlist_ok ?q" using k(2) by (rule evlist_frame) simp_all
  have g: "event_get ?q = (Some e, ?g)" using e by (simp add: event_get_def)
  note d = event_get_SomeD [OF kq g]
  have k1: "kinv ?g" using k(1) by (rule kinv_frame) simp_all
  have w0: "wset s e = {}" by (rule unused_quiet [OF k(1)]) (use d(2) in simp)
  then have kv: "kinv ?s" unfolding s'_def by (intro kinv_event_init [OF k1]) (simp add: wset_def)
  show f: "OSTCBTbl ?s = OSTCBTbl s" "OSTCBPrioTbl ?s = OSTCBPrioTbl s" "rdyset ?s = rdyset s" "OSTCBFreeList ?s = OSTCBFreeList s" "OSTCBList ?s = OSTCBList s"
    "tmr_part ?s = tmr_part s" "OSTmrSem ?s = OSTmrSem s" "OSEventType (ev ?s e) = ty" "OSEventCnt (ev ?s e) = cnt" "OSEventFreeList ?s = ev_link (OSEventPtr (ev s e))"
    "OSTickStepState ?s = OSTickStepState s"
    by (simp_all add: s'_def event_init_def upd_ev_def OS_EventWaitListInit_def tmr_part_def rdyset_def rdy_bm_def)
  have f1: "OSFlagTbl ?s = OSFlagTbl s" "OSFlagNodes ?s = OSFlagNodes s" "OSFlagFreeList ?s = OSFlagFreeList s" "OSRunning ?s = OSRunning s"
    "OSIntNesting ?s = OSIntNesting s" "OSLockNesting ?s = OSLockNesting s"
    by (simp_all add: s'_def event_init_def upd_ev_def OS_EventWaitListInit_def)
  show o: "ev ?s x = ev s x" if "x \<noteq> e" for x using that by (simp add: s'_def event_init_def upd_ev_def)
  have w: "wset ?s x = wset s x" for x
    using w0 o by (cases "x = e") (simp_all add: s'_def wset_def event_init_def upd_ev_def OS_EventWaitListInit_def ev_bm_def bm_empty_def [symmetric])
  have "evlist_ok ?s" unfolding s'_def by (rule evlist_get_init [OF kq g ty(1)])
  moreover have "flags_ok ?s" by (rule flags_ok_frame [OF k(3) f1(2,3) _ f(2) _ w]) (simp_all add: f f1)
  moreover have "tasks_ok ?s" by (rule tasks_frame [OF k(4) f(4,5,2)]) (simp_all add: f)
  moreover have "\<not> is_mutex ?s x" for x using f(8) ty(2) o k(8) [of x] by (cases "x = e") auto
  moreover have "plain ?s" using k(10) by (simp add: plain_def f f1)
  ultimately show "boot_ok ?s" unfolding boot_ok_def using kv k f1 q by simp
qed

lemma boot_sem:
  assumes b: "boot_ok s" and e: "OSEventFreeList s = Some e"
  obtains s' where "OSSemCreate cnt s = (Some e, s')" "boot_ok s'" "OSTCBTbl s' = OSTCBTbl s" "OSTCBPrioTbl s' = OSTCBPrioTbl s" "rdyset s' = rdyset s"
    "OSTCBFreeList s' = OSTCBFreeList s" "OSTCBList s' = OSTCBList s" "tmr_part s' = tmr_part s" "OSTmrSem s' = OSTmrSem s"
    "OSEventType (ev s' e) = OS_EVENT_TYPE_SEM" "OSEventCnt (ev s' e) = cnt" "\<And>x. x \<noteq> e \<Longrightarrow> ev s' x = ev s x" "OSEventFreeList s' = ev_link (OSEventPtr (ev s e))"
    "OSTickStepState s' = OSTickStepState s"
proof -
  note k = boot_okD [OF b]
  let ?s = "event_init e OS_EVENT_TYPE_SEM cnt PNull (s\<lparr>OSEventFreeList := ev_link (OSEventPtr (ev s e))\<rparr>)"
  have g: "event_get s = (Some e, s\<lparr>OSEventFreeList := ev_link (OSEventPtr (ev s e))\<rparr>)" using e by (simp add: event_get_def)
  have c: "OSSemCreate cnt s = (Some e, ?s)" using k(6) g by (simp add: OSSemCreate_def)
  have o: "ev ?s x = ev s x" if "x \<noteq> e" for x using that by (simp add: event_init_def upd_ev_def)
  have "qs_ok ?s"
  proof (rule qs_tables [OF k(9)])
    have n: "\<not> is_q s e" "\<not> is_q ?s e" using event_get_SomeD(2) [OF k(2) g] by (simp_all add: is_q_def event_init_def upd_ev_def OS_EventWaitListInit_def)
    show "is_q ?s x = is_q s x" for x using n o by (cases "x = e") (simp_all add: is_q_def)
    show "OSEventPtr (ev ?s x) = OSEventPtr (ev s x)" if "is_q s x" for x using n that o by (cases "x = e") simp_all
  qed (simp_all add: event_init_def upd_ev_def OS_EventWaitListInit_def)
  then have "boot_ok ?s" and f: "OSTCBTbl ?s = OSTCBTbl s" "OSTCBPrioTbl ?s = OSTCBPrioTbl s" "rdyset ?s = rdyset s"
    "OSTCBFreeList ?s = OSTCBFreeList s" "OSTCBList ?s = OSTCBList s" "tmr_part ?s = tmr_part s" "OSTmrSem ?s = OSTmrSem s"
    "OSEventType (ev ?s e) = OS_EVENT_TYPE_SEM" "OSEventCnt (ev ?s e) = cnt" "OSEventFreeList ?s = ev_link (OSEventPtr (ev s e))"
    "OSTickStepState ?s = OSTickStepState s"
    using boot_event(1-10,12,13) [OF b e, where ty = OS_EVENT_TYPE_SEM and cnt = cnt and pt = PNull and tb = "OSQTbl s" and fl = "OSQFreeList s"] by simp_all
  then show thesis using that [OF c] o by blast
qed

text \<open>The first message queue.\<close>

lemma boot_queue:
  assumes b: "boot_ok s" and e: "OSEventFreeList s = Some e" and nq: "\<And>x. \<not> is_q s x"
  obtains s' where "OSQCreate a n s = (Some e, s')" "boot_ok s'" "OSTCBTbl s' = OSTCBTbl s" "OSTCBPrioTbl s' = OSTCBPrioTbl s" "rdyset s' = rdyset s"
    "OSTCBFreeList s' = OSTCBFreeList s" "is_q s' e" "q_size s' e = unat n" "q_msgs s' e = []" "\<And>x. x \<noteq> e \<Longrightarrow> ev s' x = ev s x"
proof -
  note k = boot_okD [OF b]
  obtain fl where fl: "chain (\<lambda>q. OSQPtr (OSQTbl s q)) (OSQFreeList s) fl" "set fl = {q. q < OS_MAX_QS \<and> (\<forall>e. is_q s e \<longrightarrow> ev_q s e \<noteq> q)}"
    using k(9) by (auto simp: qs_ok_def)
  then have "0 \<in> set fl" using nq by simp
  then obtain q where q: "OSQFreeList s = Some q" using fl(1) by (cases fl) auto
  let ?f = "\<lambda>pq. pq\<lparr>OSQStart := a, OSQEnd := a + 4 * unat n, OSQIn := a, OSQOut := a, OSQSize := n, OSQEntries := 0\<rparr>"
  let ?tb = "(OSQTbl s)(q := ?f (OSQTbl s q))"
  let ?s = "event_init e OS_EVENT_TYPE_Q 0 (PQ q) (s\<lparr>OSQTbl := ?tb, OSQFreeList := OSQPtr (OSQTbl s q), OSEventFreeList := ev_link (OSEventPtr (ev s e))\<rparr>)"
  have "s\<lparr>OSEventFreeList := v, OSQFreeList := u, OSQTbl := w\<rparr> = s\<lparr>OSQTbl := w, OSQFreeList := u, OSEventFreeList := v\<rparr>" for u v w by simp
  moreover have "OSQCreate a n s = (Some e, event_init e OS_EVENT_TYPE_Q 0 (PQ q)
      (s\<lparr>OSEventFreeList := ev_link (OSEventPtr (ev s e)), OSQFreeList := OSQPtr (OSQTbl s q), OSQTbl := ?tb\<rparr>))"
    using k(6) e q by (simp add: OSQCreate_def event_get_def upd_q_def Let_def)
  ultimately have c: "OSQCreate a n s = (Some e, ?s)" by (simp only:)
  note defs = is_q_def event_init_def upd_ev_def OS_EventWaitListInit_def
  have rk: "ring_ok (?f (OSQTbl s q), OSHeap s)" by (auto simp: ring_ok_def Let_def)
  have qs: "qs_ok ?s" "ev_q ?s e = q" using qs_add [OF k(9) q nq [of e], of ?s "?f (OSQTbl s q)"] rk nq by (simp_all add: defs)
  have ty: "OS_EVENT_TYPE_Q \<noteq> OS_EVENT_TYPE_UNUSED" "OS_EVENT_TYPE_Q \<noteq> OS_EVENT_TYPE_MUTEX" by simp_all
  note f = boot_event [OF b e ty qs(1)]
  have r: "ring_of ?s q = (?f (OSQTbl s q), OSHeap s)" by (simp add: ring_of_def event_init_def upd_ev_def OS_EventWaitListInit_def)
  have qf: "q_size ?s e = unat n" "q_msgs ?s e = []" by (simp_all add: q_size_def q_msgs_def qs(2) r ring_cap_def ring_list_def)
  have iq: "is_q ?s e" by (simp add: defs)
  show thesis by (rule that [OF c f(1-5) iq qf f(11)])
qed

lemma boot_sys_task:
  assumes b: "boot_ok s" and slot: "OSTCBPrioTbl s (unat p) = NoTcb" and p: "unat p < 64" and i: "OSTCBFreeList s = Some i" and d: "s' = sys_task im fn stk p tid nm s"
  shows "boot_ok s'" "OSTCBPrioTbl s' = (OSTCBPrioTbl s)(unat p := Tcb i)" "rdyset s' = insert (unat p) (rdyset s)"
    "OSTCBFreeList s' = OSTCBNext (tcb s i)" "OSTCBNext (tcb s' j) = (if j = i then OSTCBList s else OSTCBNext (tcb s j))" "tmr_part s' = tmr_part s"
    "OSEventTbl_arr s' = OSEventTbl_arr s" "OSEventFreeList s' = OSEventFreeList s" "OSTmrSem s' = OSTmrSem s" "OSTmrSemSignal s' = OSTmrSemSignal s"
    "OSTickStepState s' = OSTickStepState s"
proof -
  have ps: "p \<noteq> OS_PRIO_SELF" using p by auto
  obtain psp m err s1 where r: "create_tail p psp stk tid 128 PNull 3 m s = (err, s1)" and q: "s' = snd (OSTaskNameSet p nm s1)"
    using sys_task_tail [OF boot_okD(6) [OF b] slot ps, of stk tid im fn nm] d by metis
  note c = boot_create [OF b slot p i r]
  show "boot_ok s'" unfolding q by (rule boot_name [OF c(2)])
  show "OSTCBPrioTbl s' = (OSTCBPrioTbl s)(unat p := Tcb i)" "rdyset s' = insert (unat p) (rdyset s)"
    "OSTCBFreeList s' = OSTCBNext (tcb s i)" "OSTCBNext (tcb s' j) = (if j = i then OSTCBList s else OSTCBNext (tcb s j))" "tmr_part s' = tmr_part s"
    "OSEventTbl_arr s' = OSEventTbl_arr s" "OSEventFreeList s' = OSEventFreeList s" "OSTmrSem s' = OSTmrSem s" "OSTmrSemSignal s' = OSTmrSemSignal s"
    "OSTickStepState s' = OSTickStepState s"
    using c by (simp_all add: q)
qed

section \<open>The kernel after \<open>OSInit\<close>, and its start\<close>

lemma tmr_sem_part [simp]: "tmr_part (s\<lparr>OSTmrSem := h\<rparr>) = tmr_part s" "tmr_part (s\<lparr>OSTmrSemSignal := h\<rparr>) = tmr_part s"
  by (simp_all add: tmr_part_def)

lemma boot_sem_handle: "boot_ok (s\<lparr>OSTmrSem := h\<rparr>) = boot_ok s" "boot_ok (s\<lparr>OSTmrSemSignal := h\<rparr>) = boot_ok s"
  by (rule iffI; erule boot_frame; simp)+

lemma boot_tmr_tables: "boot_ok s \<Longrightarrow> boot_ok (tmr_tables s)"
  by (erule boot_frame) (simp_all add: tmr_tables_def Let_def)

lemma name_sem_frame [simp]:
  "OSTCBTbl (name_sem h nm s) = OSTCBTbl s" "OSTCBPrioTbl (name_sem h nm s) = OSTCBPrioTbl s" "rdyset (name_sem h nm s) = rdyset s"
  "OSTCBFreeList (name_sem h nm s) = OSTCBFreeList s" "tmr_part (name_sem h nm s) = tmr_part s" "OSTmrSem (name_sem h nm s) = OSTmrSem s"
  "OSTmrSemSignal (name_sem h nm s) = OSTmrSemSignal s" "OSEventType (ev (name_sem h nm s) e) = OSEventType (ev s e)"
  "OSEventCnt (ev (name_sem h nm s) e) = OSEventCnt (ev s e)" "OSTickStepState (name_sem h nm s) = OSTickStepState s"
  by (simp_all add: name_sem_def OSEventNameSet_def upd_ev_def rdyset_def rdy_bm_def tmr_part_def split: option.split)

lemma OSInit_ok:
  defines "s' \<equiv> \<lambda>im s. OSInit im s"
  shows "boot_ok (s' im s)" "tmr_inv (s' im s)" "rdyset (s' im s) = {3, 62, 63}" "OSTCBFreeList (s' im s) = Some 3"
    "OSTCBPrioTbl (s' im s) = (\<lambda>_. NoTcb)(63 := Tcb 0, 62 := Tcb 1, 3 := Tcb 2)" "OSTmrSem (s' im s) = Some 0" "OSTmrSemSignal (s' im s) = Some 1"
    "OSEventType (ev (s' im s) 0) = OS_EVENT_TYPE_SEM" "OSEventType (ev (s' im s) 1) = OS_EVENT_TYPE_SEM"
    "OSEventCnt (ev (s' im s) 0) = 1" "OSEventCnt (ev (s' im s) 1) = 0" "OSTickStepState (s' im s) = OSTickStepState s"
    "3 \<le> j \<Longrightarrow> j < 11 \<Longrightarrow> OSTCBNext (tcb (s' im s) j) = Some (j + 1)" "2 \<le> e \<Longrightarrow> OSEventType (ev (s' im s) e) = OS_EVENT_TYPE_UNUSED"
proof -
  define a where "a = OS_InitTaskIdle im (init_tables s)"
  define b where "b = OS_InitTaskStat im a"
  define t where "t = tmr_tables b"
  have i0: "OSIntNesting (init_tables s) = 0" "OSTCBPrioTbl (init_tables s) (unat 63) = NoTcb" "(63::u8) \<noteq> OS_PRIO_SELF" by (simp_all add: init_tables_facts)
  obtain psp m err a1 where r: "create_tail 63 psp (OSTaskIdleStk im) OS_TASK_IDLE_ID 128 PNull 3 m (init_tables s) = (err, a1)"
    and a: "a = snd (OSTaskNameSet 63 ''uC/OS-II Idle'' a1)"
    using sys_task_tail [OF i0, of "OSTaskIdleStk im" OS_TASK_IDLE_ID im "img_idle im" "''uC/OS-II Idle''"] unfolding a_def OS_InitTaskIdle_def by metis
  note c = boot_idle [OF r]
  have fa: "boot_ok a" "OSTCBPrioTbl a = (\<lambda>_. NoTcb)(63 := Tcb 0)" "OSTCBFreeList a = Some 1" "rdyset a = {63}"
    "OSTCBNext (tcb a j) = (if j < 11 \<and> j \<noteq> 0 then Some (j + 1) else None)" "OSEventTbl_arr a = OSEventTbl_arr (OS_InitEventList s)" "OSEventFreeList a = Some 0"
    "OSTickStepState a = OSTickStepState s" for j
    using c boot_name [OF c(1)] by (simp_all add: a)
  have "OSTCBPrioTbl a (unat (62::u8)) = NoTcb" "unat (62::u8) < 64" by (simp_all add: fa)
  note fb = boot_sys_task [OF fa(1) this fa(3) b_def [unfolded OS_InitTaskStat_def]]
  have ft: "boot_ok t" "OSTCBTbl t = OSTCBTbl b" "OSTCBPrioTbl t = OSTCBPrioTbl b" "rdyset t = rdyset b" "OSTCBFreeList t = OSTCBFreeList b" "tmr_inv t"
    "OSEventTbl_arr t = OSEventTbl_arr b" "OSEventFreeList t = OSEventFreeList b" "OSTickStepState t = OSTickStepState b"
    using boot_tmr_tables [OF fb(1)] tmr_inv_tables by (simp_all add: t_def) (simp_all add: tmr_tables_def Let_def rdyset_def rdy_bm_def)
  have et: "OSEventFreeList t = Some 0" by (simp add: ft fb fa)
  obtain u where cu: "OSSemCreate 1 t = (Some 0, u)" "boot_ok u" "OSTCBTbl u = OSTCBTbl t" "OSTCBPrioTbl u = OSTCBPrioTbl t" "rdyset u = rdyset t"
    "OSTCBFreeList u = OSTCBFreeList t" "tmr_part u = tmr_part t" "OSEventType (ev u 0) = OS_EVENT_TYPE_SEM" "OSEventCnt (ev u 0) = 1"
    "\<And>x. x \<noteq> 0 \<Longrightarrow> ev u x = ev t x" "OSEventFreeList u = ev_link (OSEventPtr (ev t 0))"
    "OSTickStepState u = OSTickStepState t"
    using boot_sem [OF ft(1) et] by metis
  let ?u = "u\<lparr>OSTmrSem := Some 0\<rparr>"
  have eu: "OSEventFreeList ?u = Some 1" "boot_ok ?u" using cu(2) by (simp_all add: cu(11) ft fb fa InitEvent_cells boot_sem_handle)
  obtain v where cv: "OSSemCreate 0 ?u = (Some 1, v)" "boot_ok v" "OSTCBTbl v = OSTCBTbl ?u" "OSTCBPrioTbl v = OSTCBPrioTbl ?u" "rdyset v = rdyset ?u"
    "OSTCBFreeList v = OSTCBFreeList ?u" "tmr_part v = tmr_part ?u" "OSTmrSem v = OSTmrSem ?u" "OSEventType (ev v 1) = OS_EVENT_TYPE_SEM" "OSEventCnt (ev v 1) = 0"
    "\<And>x. x \<noteq> 1 \<Longrightarrow> ev v x = ev ?u x" "OSTickStepState v = OSTickStepState ?u"
    using boot_sem [OF eu(2,1)] by metis
  define w where "w = name_sem (Some 1) ''uC/OS-II TmrSignal'' (name_sem (Some 0) ''uC/OS-II TmrLock'' (v\<lparr>OSTmrSemSignal := Some 1\<rparr>))"
  have "OSTmrSem v = Some 0" using cv(8) by simp
  then have e: "s' im s = OSTmr_InitTask im w"
    unfolding s'_def OSInit_tables a_def [symmetric] b_def [symmetric] OSTmr_Init_def t_def [symmetric] cu(1) Let_def prod.case cv(1) w_def by simp
  have rw: "rdyset (q\<lparr>OSTmrSemSignal := h\<rparr>) = rdyset q" "rdyset (q\<lparr>OSTmrSem := h\<rparr>) = rdyset q" for q h by (simp_all add: rdyset_def rdy_bm_def)
  have bw: "boot_ok w" unfolding w_def by (intro boot_name_sem) (simp add: boot_sem_handle cv)
  have fw: "OSTCBPrioTbl w = (\<lambda>_. NoTcb)(63 := Tcb 0, 62 := Tcb 1)" "OSTCBFreeList w = Some 2" "rdyset w = {62, 63}" "OSTCBNext (tcb w 2) = Some 3" "tmr_part w = tmr_part t"
    "OSTmrSem w = Some 0" "OSTmrSemSignal w = Some 1" "OSEventType (ev w 0) = OS_EVENT_TYPE_SEM" "OSEventType (ev w 1) = OS_EVENT_TYPE_SEM"
    "OSEventCnt (ev w 0) = 1" "OSEventCnt (ev w 1) = 0" "OSTickStepState w = OSTickStepState s"
    using cv(9,10) by (simp_all add: w_def cv cu ft fb fa rw)
  have nw: "OSTCBNext (tcb w j) = Some (j + 1)" if "2 \<le> j" "j < 11" for j using that by (simp add: w_def cv cu ft fb fa rw)
  have "OSTCBPrioTbl w (unat (3::u8)) = NoTcb" "unat (3::u8) < 64" by (simp_all add: fw)
  note fz = boot_sys_task [OF bw this fw(2) e [unfolded OSTmr_InitTask_def]]
  show "boot_ok (s' im s)" by (rule fz)
  have "tmr_inv w = tmr_inv t" by (rule tmr_inv_part [OF fw(5)])
  moreover have "tmr_inv (s' im s) = tmr_inv w" by (rule tmr_inv_part [OF fz(6)])
  ultimately show "tmr_inv (s' im s)" using ft(6) by simp
  show "rdyset (s' im s) = {3, 62, 63}" "OSTCBFreeList (s' im s) = Some 3" "OSTCBPrioTbl (s' im s) = (\<lambda>_. NoTcb)(63 := Tcb 0, 62 := Tcb 1, 3 := Tcb 2)"
    "OSTmrSem (s' im s) = Some 0" "OSTmrSemSignal (s' im s) = Some 1"
    "OSEventType (ev (s' im s) 0) = OS_EVENT_TYPE_SEM" "OSEventType (ev (s' im s) 1) = OS_EVENT_TYPE_SEM"
    "OSEventCnt (ev (s' im s) 0) = 1" "OSEventCnt (ev (s' im s) 1) = 0" "OSTickStepState (s' im s) = OSTickStepState s"
    using fw(9,11) by (simp_all add: fz fw)
  show "OSTCBNext (tcb (s' im s) j) = Some (j + 1)" if "3 \<le> j" "j < 11" using that by (simp add: fz nw)
  show "OSEventType (ev (s' im s) e) = OS_EVENT_TYPE_UNUSED" if "2 \<le> e"
    using that cv(11) [of e] cu(10) [of e] by (simp add: fz w_def ft fb fa InitEvent_cells ev_zero_def)
qed

lemma boot_start:
  assumes b: "boot_ok s"
  shows "tsafe (OSStart s)" "qs_ok (OSStart s)" "mutexes_ok (OSStart s)" "tmr_part (OSStart s) = tmr_part s" "unat (OSPrioCur (OSStart s)) = Min (rdyset s)"
    "OSRunning (OSStart s)" "OSIntNesting (OSStart s) = 0" "OSLockNesting (OSStart s) = 0" "live (OSStart s) = live s" "OSTCBTbl (OSStart s) = OSTCBTbl s"
    "OSTmrSemSignal (OSStart s) = OSTmrSemSignal s" "OSEventTbl_arr (OSStart s) = OSEventTbl_arr s" "rdyset (OSStart s) = rdyset s"
    "OSTickStepState (OSStart s) = OSTickStepState s" "plain (OSStart s)"
proof -
  note k = boot_okD [OF b]
  let ?s = "OSStart s" and ?h = "bm_highest (rdy_bm s)"
  have h: "unat ?h = Min (rdyset s)" using k(1) by (rule kinv_high)
  obtain i where li: "live s i" and pi: "prio s i = Min (rdyset s)" and slot: "OSTCBPrioTbl s (Min (rdyset s)) = Tcb i"
    using k(1) by (rule kinv_Min_live)
  have hi: "OSTCBPrio (tcb s i) = ?h" using h pi by (metis word_unat_eq_iff)
  have f: "OSTCBTbl ?s = OSTCBTbl s" "OSTCBPrioTbl ?s = OSTCBPrioTbl s" "OSTCBFreeList ?s = OSTCBFreeList s" "OSTCBList ?s = OSTCBList s" "OSFlagTbl ?s = OSFlagTbl s"
    "OSFlagNodes ?s = OSFlagNodes s" "OSFlagFreeList ?s = OSFlagFreeList s" "OSRdyGrp ?s = OSRdyGrp s" "OSRdyTbl ?s = OSRdyTbl s" "OSEventTbl_arr ?s = OSEventTbl_arr s"
    "OSEventFreeList ?s = OSEventFreeList s" "OSQTbl ?s = OSQTbl s" "OSQFreeList ?s = OSQFreeList s" "tmr_part ?s = tmr_part s" "OSTmrSemSignal ?s = OSTmrSemSignal s"
    "OSIntNesting ?s = OSIntNesting s" "OSLockNesting ?s = OSLockNesting s" "OSRunning ?s" "OSPrioCur ?s = ?h" "OSTCBCur ?s = Some i" "OSHeap ?s = OSHeap s" "OSTickStepState ?s = OSTickStepState s"
    using k(5) slot by (simp_all add: OSStart_def OS_SchedNew_def OSPendSV_def Let_def tmr_part_def h)
  have r: "rdyset ?s = rdyset s" and w: "wset ?s e = wset s e" for e by (simp_all add: rdyset_def rdy_bm_def wset_def f)
  show lv: "live ?s = live s" by (simp add: live_def f fun_eq_iff)
  have "kinv ?s" using k(1) by (rule kinv_frame) (simp_all add: f)
  moreover have "evlist_ok ?s" using k(2) by (rule evlist_frame) (simp_all add: f)
  moreover have "cur_ok ?s" using li hi by (simp add: cur_ok_def f lv)
  moreover have "sched_ok ?s" using h by (simp add: sched_ok_def f r)
  moreover have "flags_ok ?s" by (rule flags_ok_frame [OF k(3) f(6,7) _ f(2) _ w]) (simp_all add: f)
  moreover have "tasks_ok ?s" by (rule tasks_frame [OF k(4) f(3,4,2)]) (simp_all add: f)
  ultimately show "tsafe ?s" by (simp add: kok_def)
  show "qs_ok ?s" using k(9) by (rule qs_frame) (simp_all add: f is_q_def)
  show "mutexes_ok ?s" using k(8) by (simp add: mutexes_ok_def f)
  show "tmr_part ?s = tmr_part s" "OSRunning ?s" "OSIntNesting ?s = 0" "OSLockNesting ?s = 0" "OSTCBTbl ?s = OSTCBTbl s" "unat (OSPrioCur ?s) = Min (rdyset s)"
    "OSTmrSemSignal ?s = OSTmrSemSignal s" "OSEventTbl_arr ?s = OSEventTbl_arr s" "rdyset ?s = rdyset s"
    "OSTickStepState ?s = OSTickStepState s"
    using f k h r by simp_all
  show "plain ?s" using k(10) by (simp add: plain_def f)
qed

text \<open>The tasks an application creates between \<open>OSInit\<close> and \<open>OSStart\<close>: function, argument, stack and priority.\<close>

definition boot_task :: "image \<Rightarrow> u32 \<times> u32 \<times> nat \<times> u8 \<Rightarrow> os \<Rightarrow> os" where
  "boot_task im = (\<lambda>(task, arg, ptos, p) s. snd (OSTaskCreate (img_fpu im) (img_ret im) task arg ptos p s))"

lemma boot_task_ok:
  fixes im task arg ptos
  assumes b: "boot_ok s" and p: "unat p < 64"
  defines "s' \<equiv> boot_task im (task, arg, ptos, p) s"
  shows "boot_ok s' \<and> tmr_part s' = tmr_part s \<and> rdyset s \<subseteq> rdyset s' \<and> OSEventTbl_arr s' = OSEventTbl_arr s \<and> OSTmrSemSignal s' = OSTmrSemSignal s \<and>
    OSTickStepState s' = OSTickStepState s"
proof (cases "OSTCBPrioTbl s (unat p) = NoTcb")
  case True
  let ?m = "OSTaskStkInit (img_fpu im) (img_ret im) task arg ptos (OSStkMem s)"
  let ?c = "create_tail p (fst ?m) 0 0 0 PNull 0 (snd ?m) s"
  have e: "s' = snd ?c" unfolding s'_def boot_task_def prod.case create_tails(1) [OF boot_okD(6) [OF b] True] ..
  show ?thesis
  proof (cases "OSTCBFreeList s")
    case None
    have q: "s' = s\<lparr>OSStkMem := snd ?m\<rparr>" unfolding e create_tail_none [OF True None] by simp
    show ?thesis unfolding q by (intro conjI boot_frame [OF b]) (simp_all add: tmr_part_def rdyset_def rdy_bm_def)
  next
    case (Some i)
    note c = boot_create [OF b True p Some prod.collapse [symmetric]]
    show ?thesis unfolding e by (intro conjI c(2,3,8,10,14)) (simp add: c(5) subset_insertI)
  qed
next
  case False
  then have "s' = s" using boot_okD(6) [OF b] by (simp add: s'_def boot_task_def OSTaskCreate_def)
  then show ?thesis using b by simp
qed

lemma boot_tasks_ok:
  assumes "boot_ok s" "list_all (\<lambda>(_, _, _, p). unat p < 64) ts"
  shows "boot_ok (fold (boot_task im) ts s) \<and> tmr_part (fold (boot_task im) ts s) = tmr_part s \<and> rdyset s \<subseteq> rdyset (fold (boot_task im) ts s) \<and>
    OSEventTbl_arr (fold (boot_task im) ts s) = OSEventTbl_arr s \<and> OSTmrSemSignal (fold (boot_task im) ts s) = OSTmrSemSignal s \<and>
    OSTickStepState (fold (boot_task im) ts s) = OSTickStepState s"
  using assms
proof (induction ts arbitrary: s)
  case (Cons t ts)
  obtain task arg ptos p where t: "t = (task, arg, ptos, p)" by (cases t)
  have p: "unat p < 64" using Cons.prems(2) by (simp add: t)
  note c = boot_task_ok [OF Cons.prems(1) p, of im task arg ptos]
  show ?case using Cons.IH [of "boot_task im t s"] Cons.prems(2) c by (auto simp: t)
qed simp

section \<open>Properties\<close>

text \<open>C3. Whatever the memory of the kernel held before, after \<open>OSInit\<close>, the creation of the application's tasks and
  \<open>OSStart\<close> every invariant of the kernel holds: tasks and lists, event flags, queues, mutexes and
  timers; the most urgent task runs, and the semaphore of the timer task exists and is not signalled.\<close>

theorem boot_establishes:
  fixes im s
  assumes "list_all (\<lambda>(_, _, _, p). unat p < 64) ts"
  defines "s' \<equiv> OSStart (fold (boot_task im) ts (OSInit im s))"
  shows "tsafe s' \<and> qs_ok s' \<and> mutexes_ok s' \<and> tmr_inv s' \<and> OSRunning s' \<and> unat (OSPrioCur s') = Min (rdyset s') \<and> {3, 62, 63} \<subseteq> rdyset s' \<and>
    OSTmrSemSignal s' = Some 1 \<and> OSEventType (ev s' 1) = OS_EVENT_TYPE_SEM \<and> OSEventCnt (ev s' 1) = 0"
proof -
  note i = OSInit_ok(1-12) [of im s]
  note t = boot_tasks_ok [OF i(1) assms(1), of im]
  have b: "boot_ok (fold (boot_task im) ts (OSInit im s))" using t by blast
  note st = boot_start [OF b]
  have p: "tmr_part s' = tmr_part (OSInit im s)" using st(4) t by (simp add: s'_def)
  have "tmr_inv s'" using tmr_inv_part [OF p] i(2) by simp
  then show ?thesis using st t i unfolding s'_def by auto
qed

definition img0 :: image where
  "img0 = \<lparr>img_fpu = False, img_ret = 0, img_idle = 0x8000100, img_stat = 0x8000200, img_tmr = 0x8000300, OSTaskIdleStk = 1000, OSTaskStatStk = 1200,
     OSTmrTaskStk = 1400\<rparr>"

theorem boot_establishes_witness:
  "tsafe (OSStart (fold (boot_task img0) [(0x8001000, 0, 2000, 6), (0x8001100, 0, 2400, 2)] (OSInit img0 os_bss)))"
  using boot_establishes [of "[(0x8001000, 0, 2000, 6), (0x8001100, 0, 2400, 2)]" img0 os_bss] by simp

section \<open>Processor usage\<close>

text \<open>A stack check reads nothing that the statistics task writes.\<close>

definition stat_same :: "os \<Rightarrow> os \<Rightarrow> bool" where
  "stat_same s s' \<longleftrightarrow> OSTCBPrioTbl s' = OSTCBPrioTbl s \<and> OSStkMem s' = OSStkMem s \<and>
     (\<forall>i. OSTCBOpt (tcb s' i) = OSTCBOpt (tcb s i) \<and> OSTCBStkBottom (tcb s' i) = OSTCBStkBottom (tcb s i) \<and> OSTCBStkSize (tcb s' i) = OSTCBStkSize (tcb s i))"

lemma stkchk_same: "stat_same s s' \<Longrightarrow> p \<noteq> OS_PRIO_SELF \<Longrightarrow> OSTaskStkChk p s' = OSTaskStkChk p s"
  by (simp add: stat_same_def OSTaskStkChk_def self_prio_def split: tcb_slot.split option.split)

lemma stat_chk_step:
  assumes "OSTaskStkChk p s = Some (err, free, used)"
  obtains s' where "stat_chk p s = Some s'" "stat_same s s'" "OSCPUUsage s' = OSCPUUsage s"
    "\<And>i. OSTCBStkUsed (tcb s' i) = (if err = OS_ERR_NONE \<and> OSTCBPrioTbl s (unat p) = Tcb i then used else OSTCBStkUsed (tcb s i))"
  using assms by (auto simp: stat_chk_def stat_same_def upd_tcb_def split: tcb_slot.split)

lemma stat_chks_all:
  assumes "\<And>p. p \<in> set ps \<Longrightarrow> p \<noteq> OS_PRIO_SELF \<and> OSTaskStkChk p s \<noteq> None" "distinct ps"
    and one: "\<And>p q i. p \<in> set ps \<Longrightarrow> q \<in> set ps \<Longrightarrow> OSTCBPrioTbl s (unat p) = Tcb i \<Longrightarrow> OSTCBPrioTbl s (unat q) = Tcb i \<Longrightarrow> p = q"
  shows "\<exists>s'. stat_chks ps s = Some s' \<and> stat_same s s' \<and> OSCPUUsage s' = OSCPUUsage s \<and>
    (\<forall>p \<in> set ps. \<forall>i free used. OSTCBPrioTbl s (unat p) = Tcb i \<and> OSTaskStkChk p s = Some (OS_ERR_NONE, free, used) \<longrightarrow> OSTCBStkUsed (tcb s' i) = used) \<and>
    (\<forall>i. (\<forall>p \<in> set ps. OSTCBPrioTbl s (unat p) \<noteq> Tcb i) \<longrightarrow> OSTCBStkUsed (tcb s' i) = OSTCBStkUsed (tcb s i))"
  using assms
proof (induction ps arbitrary: s)
  case Nil
  then show ?case by (simp add: stat_same_def)
next
  case (Cons p ps)
  obtain err free used where c: "OSTaskStkChk p s = Some (err, free, used)" using Cons.prems(1) [of p] by auto
  obtain s1 where s1: "stat_chk p s = Some s1" "stat_same s s1" "OSCPUUsage s1 = OSCPUUsage s"
    "\<And>i. OSTCBStkUsed (tcb s1 i) = (if err = OS_ERR_NONE \<and> OSTCBPrioTbl s (unat p) = Tcb i then used else OSTCBStkUsed (tcb s i))"
    using stat_chk_step [OF c] by metis
  have pt: "OSTCBPrioTbl s1 = OSTCBPrioTbl s" using s1(2) by (simp add: stat_same_def)
  have same: "OSTaskStkChk q s1 = OSTaskStkChk q s" if "q \<in> set ps" for q using stkchk_same [OF s1(2)] Cons.prems(1) [of q] that by simp
  obtain s' where s': "stat_chks ps s1 = Some s'" "stat_same s1 s'" "OSCPUUsage s' = OSCPUUsage s1"
    "\<forall>q \<in> set ps. \<forall>i free used. OSTCBPrioTbl s1 (unat q) = Tcb i \<and> OSTaskStkChk q s1 = Some (OS_ERR_NONE, free, used) \<longrightarrow> OSTCBStkUsed (tcb s' i) = used"
    "\<forall>i. (\<forall>q \<in> set ps. OSTCBPrioTbl s1 (unat q) \<noteq> Tcb i) \<longrightarrow> OSTCBStkUsed (tcb s' i) = OSTCBStkUsed (tcb s1 i)"
  proof -
    have 1: "q \<noteq> OS_PRIO_SELF \<and> OSTaskStkChk q s1 \<noteq> None" if "q \<in> set ps" for q using Cons.prems(1) [of q] same [OF that] that by simp
    have 2: "q = x" if "q \<in> set ps" "x \<in> set ps" "OSTCBPrioTbl s1 (unat q) = Tcb i" "OSTCBPrioTbl s1 (unat x) = Tcb i" for q x i
      using Cons.prems(3) [of q x i] that by (simp add: pt)
    have 3: "distinct ps" using Cons.prems(2) by simp
    show thesis by (rule exE [OF Cons.IH [of s1]]) (use 1 2 3 that in blast)+
  qed
  have "stat_same s s'" using s1(2) s'(2) by (simp add: stat_same_def)
  moreover have "OSTCBStkUsed (tcb s' i) = u" if q: "q \<in> set (p # ps)" "OSTCBPrioTbl s (unat q) = Tcb i" "OSTaskStkChk q s = Some (OS_ERR_NONE, fr, u)" for q i fr u
  proof (cases "q \<in> set ps")
    case True
    then show ?thesis using s'(4) q same [OF True] by (auto simp: pt)
  next
    case False
    then have qp: "q = p" using q(1) by simp
    have "\<forall>x \<in> set ps. OSTCBPrioTbl s1 (unat x) \<noteq> Tcb i" using Cons.prems(3) [of p _ i] q(2) False by (auto simp: pt qp)
    then show ?thesis using s'(5) s1(4) [of i] q(2,3) c by (simp add: qp)
  qed
  moreover have "OSTCBStkUsed (tcb s' i) = OSTCBStkUsed (tcb s i)" if "\<forall>q \<in> set (p # ps). OSTCBPrioTbl s (unat q) \<noteq> Tcb i" for i
    using that s'(5) s1(4) [of i] by (simp add: pt)
  ultimately show ?case using s1(1,3) s'(1,3) by auto
qed

lemma TimeDly_frame [simp]: "OSCPUUsage (OSTimeDly n s) = OSCPUUsage s" "OSTCBStkUsed (tcb (OSTimeDly n s) i) = OSTCBStkUsed (tcb s i)"
  by (simp_all add: OSTimeDly_def OS_Sched_def os_switch_def OS_SchedNew_def OSPendSV_def rdy_clear_def set_rdy_def upd_tcb_def Let_def)

lemma prios_list: "set (map of_nat [0..<64]) = {p::u8. unat p < 64}" "distinct (map (of_nat :: nat \<Rightarrow> u8) [0..<64])"
proof -
  have i: "inj_on (of_nat :: nat \<Rightarrow> u8) {0..<64}" by (auto simp: inj_on_def word_of_nat_eq_iff take_bit_nat_eq_self)
  then show "distinct (map (of_nat :: nat \<Rightarrow> u8) [0..<64])" by (simp add: distinct_map)
  show "set (map of_nat [0..<64]) = {p::u8. unat p < 64}"
  proof (rule set_eqI, rule iffI)
    fix p :: u8 assume "p \<in> {p. unat p < 64}"
    then have "unat p \<in> set [0..<64]" by simp
    then have "of_nat (unat p) \<in> (of_nat :: nat \<Rightarrow> u8) ` set [0..<64]" by (rule imageI)
    then show "p \<in> set (map of_nat [0..<64])" by simp
  qed (auto simp: unat_of_nat take_bit_nat_eq_self)
qed

text \<open>A turn of the statistics task: when the stack checks end, the processor usage is 100 minus the idle percentage, and
  the used part of the stack of every checked task is recorded.\<close>

lemma task_stat_usage:
  assumes mx: "OSIdleCtrMax s \<noteq> 0" and run: "unat (OSIdleCtr s) div unat (OSIdleCtrMax s) \<le> 100"
    and chk: "\<And>p. unat p < 64 \<Longrightarrow> OSTaskStkChk p s \<noteq> None" and one: "\<And>i. one_slot s i"
  shows "\<exists>s'. OS_TaskStat s = Some s' \<and> unat (OSCPUUsage s') = 100 - unat (OSIdleCtr s) div unat (OSIdleCtrMax s) \<and>
    (\<forall>p i free used. unat p < 64 \<and> OSTCBPrioTbl s (unat p) = Tcb i \<and> OSTaskStkChk p s = Some (OS_ERR_NONE, free, used) \<longrightarrow> OSTCBStkUsed (tcb s' i) = used)"
proof -
  let ?u = "ucast (100 - OSIdleCtr s div OSIdleCtrMax s) :: u8"
  let ?s = "s\<lparr>OSIdleCtrRun := OSIdleCtr s, OSIdleCtr := 0, OSCPUUsage := ?u\<rparr>"
  have ss: "stat_same s ?s" by (simp add: stat_same_def)
  have e: "OSTaskStkChk p ?s = OSTaskStkChk p s" if "unat p < 64" for p using that by (intro stkchk_same [OF ss]) auto
  have one': "p = q" if "OSTCBPrioTbl s (unat p) = Tcb i" "OSTCBPrioTbl s (unat q) = Tcb i" for p q :: u8 and i
    using one_slotD [OF one that(1)] one_slotD [OF one that(2)] by (simp add: word_unat_eq_iff)
  have "p \<noteq> OS_PRIO_SELF \<and> OSTaskStkChk p ?s \<noteq> None" if "p \<in> set (map of_nat [0..<64])" for p
    using that e chk unfolding prios_list(1) by auto
  from stat_chks_all [OF this prios_list(2)] one'
  obtain s' where s': "stat_chks (map of_nat [0..<64]) ?s = Some s'" "OSCPUUsage s' = OSCPUUsage ?s"
    "\<forall>p \<in> {p. unat p < 64}. \<forall>i free used. OSTCBPrioTbl ?s (unat p) = Tcb i \<and> OSTaskStkChk p ?s = Some (OS_ERR_NONE, free, used) \<longrightarrow> OSTCBStkUsed (tcb s' i) = used"
    unfolding prios_list(1) by auto
  have d: "unat (OSIdleCtr s div OSIdleCtrMax s) = unat (OSIdleCtr s) div unat (OSIdleCtrMax s)" by (simp add: unat_div)
  then have "unat (100 - OSIdleCtr s div OSIdleCtrMax s) = 100 - unat (OSIdleCtr s) div unat (OSIdleCtrMax s)"
    using run by (subst unat_sub) (simp_all add: word_le_nat_alt)
  then have u: "unat ?u = 100 - unat (OSIdleCtr s) div unat (OSIdleCtrMax s)"
    by (simp add: unsigned_ucast_eq unsigned_take_bit_eq take_bit_nat_eq_self)
  have r: "OS_TaskStat s = Some (OSTimeDly (200 div 10) s')" using s'(1) mx by (simp add: OS_TaskStat_def Let_def OS_TaskStatStkChk_def)
  show ?thesis
  proof (intro exI [of _ "OSTimeDly (200 div 10) s'"] conjI allI impI, rule r)
    show "unat (OSCPUUsage (OSTimeDly (200 div 10) s')) = 100 - unat (OSIdleCtr s) div unat (OSIdleCtrMax s)" using u s'(2) by simp
    show "OSTCBStkUsed (tcb (OSTimeDly (200 div 10) s') i) = used"
      if "unat p < 64 \<and> OSTCBPrioTbl s (unat p) = Tcb i \<and> OSTaskStkChk p s = Some (OS_ERR_NONE, free, used)" for p i free used
      using s'(3) [rule_format, of p i free used] that e [of p] by simp
  qed
qed

end
