(* ===== verification/OsMbox.thy ===== *)
theory OsMbox
  imports OsExample
begin

text \<open>
  Mailboxes, demo/UCOSII/CORE/os_mbox.c: an event whose \<open>OSEventPtr\<close> holds one message, the null pointer when
  the mailbox is empty. A pend that blocks returns \<open>None\<close>; its end is
  \<open>OSMboxPend_return\<close>.
\<close>

section \<open>Operations\<close>

definition OSMboxAccept :: "nat \<Rightarrow> os \<Rightarrow> ptr \<times> os" where
  "OSMboxAccept e s =
    (if OSEventType (ev s e) \<noteq> OS_EVENT_TYPE_MBOX then (PNull, s)
     else (OSEventPtr (ev s e), upd_ev e (\<lambda>v. v\<lparr>OSEventPtr := PNull\<rparr>) s))"

definition OSMboxCreate :: "ptr \<Rightarrow> os \<Rightarrow> nat option \<times> os" where
  "OSMboxCreate pmsg s =
    (if 0 < OSIntNesting s then (None, s)
     else case event_get s of
            (None, s1) \<Rightarrow> (None, s1)
          | (Some e, s1) \<Rightarrow> (Some e, event_init e OS_EVENT_TYPE_MBOX 0 pmsg s1))"

definition OSMboxDel :: "nat \<Rightarrow> u8 \<Rightarrow> os \<Rightarrow> (nat option \<times> u8 \<times> os) option" where
  "OSMboxDel e opt s =
    (if OSEventType (ev s e) \<noteq> OS_EVENT_TYPE_MBOX then Some (Some e, OS_ERR_EVENT_TYPE, s)
     else if 0 < OSIntNesting s then Some (Some e, OS_ERR_DEL_ISR, s)
     else let tasks_waiting = (OSEventGrp (ev s e) \<noteq> 0) in
       if opt = OS_DEL_NO_PEND then
         if \<not> tasks_waiting then Some (None, OS_ERR_NONE, event_put e s)
         else Some (Some e, OS_ERR_TASK_WAITING, s)
       else if opt = OS_DEL_ALWAYS then
         (case event_rdy_all e PNull OS_STAT_MBOX OS_STAT_PEND_OK 0 s of
            None \<Rightarrow> None
          | Some (_, s1) \<Rightarrow>
              let s2 = event_put e s1
              in Some (None, OS_ERR_NONE, if tasks_waiting then OS_Sched s2 else s2))
       else Some (Some e, OS_ERR_INVALID_OPT, s))"

definition OSMboxPend :: "nat \<Rightarrow> u32 \<Rightarrow> os \<Rightarrow> (ptr \<times> u8) option \<times> os" where
  "OSMboxPend e timeout s =
    (if OSEventType (ev s e) \<noteq> OS_EVENT_TYPE_MBOX then (Some (PNull, OS_ERR_EVENT_TYPE), s)
     else if 0 < OSIntNesting s then (Some (PNull, OS_ERR_PEND_ISR), s)
     else if 0 < OSLockNesting s then (Some (PNull, OS_ERR_PEND_LOCKED), s)
     else let pmsg = OSEventPtr (ev s e) in
       if pmsg \<noteq> PNull
       then (Some (pmsg, OS_ERR_NONE), upd_ev e (\<lambda>v. v\<lparr>OSEventPtr := PNull\<rparr>) s)
       else (None, OS_Sched (pend_block OS_STAT_MBOX e timeout s)))"

definition OSMboxPend_return :: "nat \<Rightarrow> os \<Rightarrow> ptr \<times> u8 \<times> os" where
  "OSMboxPend_return e s = pend_finish_msg e s"

definition OSMboxPendAbort :: "nat \<Rightarrow> u8 \<Rightarrow> os \<Rightarrow> (u8 \<times> u8 \<times> os) option" where
  "OSMboxPendAbort e opt s =
    (if OSEventType (ev s e) \<noteq> OS_EVENT_TYPE_MBOX then Some (0, OS_ERR_EVENT_TYPE, s)
     else if OSEventGrp (ev s e) \<noteq> 0 then
       if opt = OS_PEND_OPT_BROADCAST then
         (case event_rdy_all e PNull OS_STAT_MBOX OS_STAT_PEND_ABORT 0 s of
            None \<Rightarrow> None
          | Some (nbr, s1) \<Rightarrow> Some (nbr, OS_ERR_PEND_ABORT, OS_Sched s1))
       else Some (1, OS_ERR_PEND_ABORT,
              OS_Sched (snd (OS_EventTaskRdy e PNull OS_STAT_MBOX OS_STAT_PEND_ABORT s)))
     else Some (0, OS_ERR_NONE, s))"

definition OSMboxPost :: "nat \<Rightarrow> ptr \<Rightarrow> os \<Rightarrow> u8 \<times> os" where
  "OSMboxPost e pmsg s =
    (if OSEventType (ev s e) \<noteq> OS_EVENT_TYPE_MBOX then (OS_ERR_EVENT_TYPE, s)
     else if OSEventGrp (ev s e) \<noteq> 0
       then (OS_ERR_NONE, OS_Sched (snd (OS_EventTaskRdy e pmsg OS_STAT_MBOX OS_STAT_PEND_OK s)))
     else if OSEventPtr (ev s e) \<noteq> PNull then (OS_ERR_MBOX_FULL, s)
     else (OS_ERR_NONE, upd_ev e (\<lambda>v. v\<lparr>OSEventPtr := pmsg\<rparr>) s))"

definition OSMboxPostOpt :: "nat \<Rightarrow> ptr \<Rightarrow> u8 \<Rightarrow> os \<Rightarrow> (u8 \<times> os) option" where
  "OSMboxPostOpt e pmsg opt s =
    (if OSEventType (ev s e) \<noteq> OS_EVENT_TYPE_MBOX then Some (OS_ERR_EVENT_TYPE, s)
     else if OSEventGrp (ev s e) \<noteq> 0 then
       (case (if opt AND OS_POST_OPT_BROADCAST \<noteq> 0
              then map_option snd (event_rdy_all e pmsg OS_STAT_MBOX OS_STAT_PEND_OK 0 s)
              else Some (snd (OS_EventTaskRdy e pmsg OS_STAT_MBOX OS_STAT_PEND_OK s))) of
          None \<Rightarrow> None
        | Some s1 \<Rightarrow> Some (OS_ERR_NONE, if opt AND OS_POST_OPT_NO_SCHED = 0 then OS_Sched s1 else s1))
     else if OSEventPtr (ev s e) \<noteq> PNull then Some (OS_ERR_MBOX_FULL, s)
     else Some (OS_ERR_NONE, upd_ev e (\<lambda>v. v\<lparr>OSEventPtr := pmsg\<rparr>) s))"

definition OSMboxQuery :: "nat \<Rightarrow> os \<Rightarrow> u8 \<times> (ptr \<times> u8 \<times> (nat \<Rightarrow> u8)) option" where
  "OSMboxQuery e s =
    (if OSEventType (ev s e) \<noteq> OS_EVENT_TYPE_MBOX then (OS_ERR_EVENT_TYPE, None)
     else (OS_ERR_NONE, Some (OSEventPtr (ev s e), OSEventGrp (ev s e), OSEventTbl (ev s e))))"

interpretation mbox: wait_service OS_EVENT_TYPE_MBOX OS_STAT_MBOX
  by unfold_locales (simp_all add: stat_mask_def)

section \<open>The mailbox as a one-place buffer with a set of waiters\<close>

definition mbox_abs :: "os \<Rightarrow> nat \<Rightarrow> ptr option \<times> nat set" where
  "mbox_abs s e = (if OSEventPtr (ev s e) = PNull then None else Some (OSEventPtr (ev s e)), wset s e)"

definition spec_mbox_post :: "ptr \<Rightarrow> ptr option \<times> nat set \<Rightarrow> u8 \<times> ptr option \<times> nat set" where
  "spec_mbox_post m a =
    (if snd a \<noteq> {} then (OS_ERR_NONE, fst a, snd a - {Min (snd a)})
     else case fst a of None \<Rightarrow> (OS_ERR_NONE, Some m, {}) | Some x \<Rightarrow> (OS_ERR_MBOX_FULL, Some x, {}))"

lemma ev_bm_ptr [simp]: "ev_bm (v\<lparr>OSEventPtr := c\<rparr>) = ev_bm v"
  by (simp add: ev_bm_def)

lemma wset_upd_ptr [simp]: "wset (upd_ev e (\<lambda>v. v\<lparr>OSEventPtr := f v\<rparr>) s) x = wset s x"
  by (simp add: wset_def upd_ev_def)

lemma mbox_kok_ptr:
  assumes "ksafe s" "OSEventType (ev s e) = OS_EVENT_TYPE_MBOX"
  shows "ksafe (upd_ev e (\<lambda>v. v\<lparr>OSEventPtr := m\<rparr>) s)"
  using assms by (auto intro!: kok_upd_ev)

lemma mbox_post_safe: "ksafe s \<Longrightarrow> ksafe (snd (OSMboxPost e m s))"
  using mbox.hand_over [of s e m OS_STAT_PEND_OK] mbox_kok_ptr [of s e] by (auto simp: OSMboxPost_def)

lemma mbox_accept_safe: "ksafe s \<Longrightarrow> ksafe (snd (OSMboxAccept e s))"
  using mbox_kok_ptr [of s e] by (auto simp: OSMboxAccept_def)

lemma mbox_create_safe: "ksafe s \<Longrightarrow> ksafe (snd (OSMboxCreate m s))"
  using kok_event_get [of s _ _ OS_EVENT_TYPE_MBOX 0 m]
  by (auto simp: OSMboxCreate_def split: prod.splits option.splits)
    (auto simp: event_get_def split: option.splits)

lemma mbox_del_safe:
  assumes ok: "ksafe s" and e: "e < OS_MAX_EVENTS"
  shows "\<exists>h err s'. OSMboxDel e opt s = Some (h, err, s') \<and> ksafe s'"
proof (cases "OSEventType (ev s e) = OS_EVENT_TYPE_MBOX")
  case True
  obtain n s1 where "event_rdy_all e PNull OS_STAT_MBOX OS_STAT_PEND_OK 0 s = Some (n, s1)"
    "ksafe (if OSEventGrp (ev s e) \<noteq> 0 then OS_Sched (event_put e s1) else event_put e s1)"
    using mbox.delete [OF ok True e] by metis
  then show ?thesis
    using ok True mbox.quiet_put [OF ok True e] by (auto simp: OSMboxDel_def Let_def split: if_splits)
qed (use ok in \<open>simp add: OSMboxDel_def\<close>)

lemma mbox_abort_safe:
  assumes ok: "ksafe s"
  shows "\<exists>n err s'. OSMboxPendAbort e opt s = Some (n, err, s') \<and> ksafe s'"
proof (cases "OSEventType (ev s e) = OS_EVENT_TYPE_MBOX")
  case True
  obtain s1 where "event_rdy_all e PNull OS_STAT_MBOX OS_STAT_PEND_ABORT 0 s =
      Some (word_of_nat (card (wset s e)), s1)" "ksafe (OS_Sched s1)"
    using mbox.abort_all [OF conjunct1 [OF ok] True] by metis
  then show ?thesis
    using ok True mbox.hand_over [OF conjunct1 [OF ok] True, of PNull OS_STAT_PEND_ABORT]
    by (auto simp: OSMboxPendAbort_def split: if_splits)
qed (use ok in \<open>simp add: OSMboxPendAbort_def\<close>)

lemma mbox_pend_safe:
  assumes ok: "ksafe s" and lev: "\<forall>x. prio s (cur s) \<notin> wset s x" and idle: "OSPrioCur s \<noteq> OS_TASK_IDLE_PRIO"
  shows "ksafe (snd (OSMboxPend e tmo s))"
  using ok lev idle mbox.block [of s e tmo] mbox_kok_ptr [of s e]
  by (auto simp: OSMboxPend_def Let_def word_gt_0)

lemma mbox_postopt_ends:
  assumes ok: "kok s"
  shows "\<exists>err s'. OSMboxPostOpt e m opt s = Some (err, s') \<and> kok s' \<and>
    (sched_ok s \<and> opt AND OS_POST_OPT_NO_SCHED = 0 \<longrightarrow> sched_ok s')"
proof (cases "OSEventType (ev s e) = OS_EVENT_TYPE_MBOX")
  case True
  obtain n s1 where "event_rdy_all e m OS_STAT_MBOX OS_STAT_PEND_OK 0 s = Some (n, s1)" "kok s1"
    using mbox.drain [OF ok True] by metis
  then show ?thesis
    using True ok mbox.hand_over(1) [OF ok True, of m OS_STAT_PEND_OK] kok_OS_Sched
      kok_upd_ev [OF ok, of "\<lambda>v. v\<lparr>OSEventPtr := m\<rparr>" e]
    by (auto simp: OSMboxPostOpt_def split: if_splits)
qed (use ok in \<open>auto simp: OSMboxPostOpt_def\<close>)

section \<open>Properties\<close>

text \<open>
  Every service of os_mbox.c keeps the kernel well formed, and the services that loop over
  the waiters return; a post with \<open>OS_POST_OPT_NO_SCHED\<close> keeps everything but the
  choice of the running task.
\<close>

theorem mbox_services_safe:
  assumes ok: "ksafe s" and e: "e < OS_MAX_EVENTS"
  shows "ksafe (snd (OSMboxPost e m s)) \<and> ksafe (snd (OSMboxAccept e s)) \<and> ksafe (snd (OSMboxCreate m s)) \<and>
    (\<exists>h err s'. OSMboxDel e opt s = Some (h, err, s') \<and> ksafe s') \<and>
    (\<exists>n err s'. OSMboxPendAbort e opt s = Some (n, err, s') \<and> ksafe s') \<and>
    (\<exists>err s'. OSMboxPostOpt e m opt s = Some (err, s') \<and> kok s' \<and>
       (opt AND OS_POST_OPT_NO_SCHED = 0 \<longrightarrow> sched_ok s')) \<and>
    (task_level s \<and> OSPrioCur s \<noteq> OS_TASK_IDLE_PRIO \<longrightarrow> ksafe (snd (OSMboxPend e tmo s)))"
  using ok e mbox_post_safe mbox_accept_safe mbox_create_safe mbox_del_safe mbox_abort_safe
    mbox_pend_safe mbox_postopt_ends [of s e m opt] by (simp add: task_level_def)

theorem mbox_services_safe_witness:
  "ksafe (snd (OSMboxPost 0 (PAddr 3) (ex_os OS_EVENT_TYPE_MBOX 0 PNull True))) \<and>
   ksafe (snd (OSMboxPend 0 7 (ex_os OS_EVENT_TYPE_MBOX 0 PNull True)))"
  using mbox_services_safe [of "ex_os OS_EVENT_TYPE_MBOX 0 PNull True" 0]
  by (simp add: ex_facts stat_mask_def)

text \<open>
  Refinement of \<open>OSMboxPost\<close> by a one-place buffer: a non-null message goes to the most urgent waiter if
  there is one, else into the empty slot, and a full mailbox refuses it with \<open>OS_ERR_MBOX_FULL\<close>, keeping
  the message it holds. \<open>OSMboxAccept\<close> takes the message out.
\<close>

theorem mbox_post_refines:
  assumes ok: "kok s" and ty: "OSEventType (ev s e) = OS_EVENT_TYPE_MBOX" and m: "m \<noteq> PNull"
  shows "(fst (OSMboxPost e m s), mbox_abs (snd (OSMboxPost e m s)) e) = spec_mbox_post m (mbox_abs s e) \<and>
    fst (OSMboxAccept e s) = OSEventPtr (ev s e) \<and>
    mbox_abs (snd (OSMboxAccept e s)) e = (None, wset s e)"
proof -
  have z: "OSEventGrp (ev s e) = 0 \<longleftrightarrow> wset s e = {}" using kokD(1) [OF ok] by (rule grp_zero_iff)
  have acc: "fst (OSMboxAccept e s) = OSEventPtr (ev s e)" "mbox_abs (snd (OSMboxAccept e s)) e = (None, wset s e)"
    using ty by (simp_all add: OSMboxAccept_def mbox_abs_def) (simp add: upd_ev_def)
  show ?thesis
  proof (cases "wset s e = {}")
    case True
    then show ?thesis using ty z m acc
      by (auto simp: OSMboxPost_def mbox_abs_def spec_mbox_post_def) (auto simp: upd_ev_def)
  next
    case False
    then have g: "OSEventGrp (ev s e) \<noteq> 0" using z by simp
    obtain i where li: "live s i" and pi: "prio s i = Min (wset s e)"
      and rd: "OS_EventTaskRdy e m OS_STAT_MBOX OS_STAT_PEND_OK s =
         (OSTCBPrio (tcb s i), wake i e m OS_STAT_MBOX OS_STAT_PEND_OK s)"
      using EventTaskRdy_wake [OF kokD(1) [OF ok] g] by metis
    have "wset (wake i e m OS_STAT_MBOX OS_STAT_PEND_OK s) e = wset s e - {Min (wset s e)}"
      using wset_wake [OF kokD(1) [OF ok] li] pi by simp
    then show ?thesis using False g rd ty acc
      by (simp add: OSMboxPost_def mbox_abs_def spec_mbox_post_def)
  qed
qed

theorem mbox_post_refines_witness:
  "mbox_abs (snd (OSMboxPost 0 (PAddr 3) (ex_os OS_EVENT_TYPE_MBOX 0 PNull False))) 0 = (Some (PAddr 3), {})"
  using mbox_post_refines [of "ex_os OS_EVENT_TYPE_MBOX 0 PNull False" 0 "PAddr 3"]
  by (simp add: ex_facts stat_mask_def mbox_abs_def spec_mbox_post_def)

text \<open>
  C33. Message passing through a mailbox: a task that blocks in \<open>OSMboxPend\<close> as the most urgent waiter gets exactly
  the message of the next \<open>OSMboxPost\<close>, and the processor, and its pend reports success.
\<close>

theorem mbox_pend_post_delivers:
  assumes ok: "ksafe s" and lev: "task_level s" and ty: "OSEventType (ev s e) = OS_EVENT_TYPE_MBOX"
    and idle: "OSPrioCur s \<noteq> OS_TASK_IDLE_PRIO" and none: "OSEventPtr (ev s e) = PNull"
    and first: "\<forall>q \<in> wset s e. unat (OSPrioCur s) < q"
  shows "let s1 = snd (OSMboxPend e tmo s); s2 = snd (OSMboxPost e m s1); r = OSMboxPend_return e s2
    in OSTCBCur s1 \<noteq> OSTCBCur s \<and> OSTCBCur s2 = OSTCBCur s \<and> fst r = m \<and> fst (snd r) = OS_ERR_NONE \<and>
       ksafe (snd (snd r))"
proof -
  let ?s1 = "OS_Sched (pend_block OS_STAT_MBOX e tmo s)"
  let ?s2 = "OS_Sched (snd (OS_EventTaskRdy e m OS_STAT_MBOX OS_STAT_PEND_OK ?s1))"
  note pp = mbox.pend_post [OF ok lev ty idle first [rule_format]]
  have p1: "snd (OSMboxPend e tmo s) = ?s1" using lev ty none by (simp add: OSMboxPend_def task_level_def)
  have p2: "snd (OSMboxPost e m ?s1) = ?s2" using pp(1) [of tmo] ty by (simp add: OSMboxPost_def)
  have "OSTCBCur ?s1 \<noteq> OSTCBCur s"
    using mbox.block(3) [of s e tmo] ok lev ty idle by (simp add: task_level_def)
  then show ?thesis
    using pp(2) [of m tmo] mbox.pend_post_msg [OF ok lev ty idle first [rule_format], of m tmo]
    by (simp add: p1 p2 OSMboxPend_return_def Let_def)
qed

theorem mbox_pend_post_delivers_witness:
  "fst (OSMboxPend_return 0 (snd (OSMboxPost 0 (PAddr 3)
     (snd (OSMboxPend 0 7 (ex_os OS_EVENT_TYPE_MBOX 0 PNull True)))))) = PAddr 3"
  using mbox_pend_post_delivers [of "ex_os OS_EVENT_TYPE_MBOX 0 PNull True" 0 7 "PAddr 3"]
  by (simp add: ex_facts stat_mask_def Let_def)

text \<open>
  \<open>OSMboxPostOpt\<close> with \<open>OS_POST_OPT_BROADCAST\<close> returns after it has given the message to every waiter: the wait list is empty, each
  waiter holds the message with status OK, and no other task is touched.
\<close>

theorem mbox_broadcast:
  assumes ok: "kok s" and ty: "OSEventType (ev s e) = OS_EVENT_TYPE_MBOX"
    and b: "opt AND OS_POST_OPT_BROADCAST \<noteq> 0" and w: "wset s e \<noteq> {}"
  shows "\<exists>s'. OSMboxPostOpt e m opt s = Some (OS_ERR_NONE, s') \<and> kok s' \<and> wset s' e = {} \<and>
    (\<forall>i. live s i \<longrightarrow> (if prio s i \<in> wset s e
       then OSTCBMsg (tcb s' i) = m \<and> OSTCBStatPend (tcb s' i) = OS_STAT_PEND_OK \<and> OSTCBDly (tcb s' i) = 0
       else OSTCBMsg (tcb s' i) = OSTCBMsg (tcb s i) \<and> OSTCBStat (tcb s' i) = OSTCBStat (tcb s i)))"
proof -
  note inv = kokD(1) [OF ok]
  obtain n s1 where r: "event_rdy_all e m OS_STAT_MBOX OS_STAT_PEND_OK 0 s = Some (n, s1)"
    and k: "kok s1" "wset s1 e = {}"
    using mbox.drain [OF ok ty] by metis
  have d: "OS_STAT_MBOX = stat_mask (OSEventType (ev s e))" using ty by (simp add: stat_mask_def)
  let ?s = "if opt AND OS_POST_OPT_NO_SCHED = 0 then OS_Sched s1 else s1"
  have g: "OSEventGrp (ev s e) \<noteq> 0" using grp_zero_iff [OF inv] w by simp
  then have "OSMboxPostOpt e m opt s = Some (OS_ERR_NONE, ?s)" using r ty b by (simp add: OSMboxPostOpt_def)
  moreover have "kok ?s" "wset ?s e = {}" using k kok_OS_Sched by auto
  moreover have "if prio s i \<in> wset s e
       then OSTCBMsg (tcb ?s i) = m \<and> OSTCBStatPend (tcb ?s i) = OS_STAT_PEND_OK \<and> OSTCBDly (tcb ?s i) = 0
       else OSTCBMsg (tcb ?s i) = OSTCBMsg (tcb s i) \<and> OSTCBStat (tcb ?s i) = OSTCBStat (tcb s i)"
    if "live s i" for i
    using event_rdy_all_delivers [OF inv d r, of i] that by simp
  ultimately show ?thesis by blast
qed

theorem mbox_broadcast_witness:
  "\<exists>s'. OSMboxPostOpt 0 (PAddr 3) OS_POST_OPT_BROADCAST (ex_os OS_EVENT_TYPE_MBOX 0 PNull True) = Some (OS_ERR_NONE, s') \<and>
     OSTCBMsg (tcb s' 2) = PAddr 3"
  using mbox_broadcast [of "ex_os OS_EVENT_TYPE_MBOX 0 PNull True" 0 OS_POST_OPT_BROADCAST "PAddr 3"]
  by (auto simp: ex_facts stat_mask_def)

end
