(* ===== verification/KernelSys.thy ===== *)
theory KernelSys
  imports OsInit OsSem OsMbox
begin

text \<open>
  The kernel as a state machine: the calls of services by the running task, the return of a task from a wait, the turns of the timer
  task with its callbacks and the clock interrupt are its steps, in any order the scheduler allows. The invariants of the parts, which the theories of
  the services prove each for its own part, hold together in every state reachable from the boot of the
  kernel. Left out of the machine are the mutexes, whose priority inheritance and deletion can break these invariants (OsMutex states
  what each of their services keeps), and \<open>OSTaskChangePrio\<close> of a task whose event pointer is left over from a wait that has ended.
\<close>

section \<open>What the steps leave alone\<close>

text \<open>The part of the state that the task list, the timers and the flag groups are in.\<close>

definition tpart :: "os \<Rightarrow> _" where
  "tpart s = ((OSTCBPrioTbl s, OSTCBList s, OSTCBFreeList s),
     (\<lambda>i. (OSTCBNext (tcb s i), OSTCBPrev (tcb s i), OSTCBPrio (tcb s i), OSTCBFlagNode (tcb s i))),
     tmr_part s, (OSFlagTbl s, OSFlagFreeList s, OSFlagNodes s), OSTickStepState s, OSIntNesting s)"

lemma tpartD:
  assumes "tpart s' = tpart s"
  shows "OSTCBPrioTbl s' = OSTCBPrioTbl s" "OSTCBList s' = OSTCBList s" "OSTCBFreeList s' = OSTCBFreeList s"
    "OSTCBNext (tcb s' i) = OSTCBNext (tcb s i)" "OSTCBPrev (tcb s' i) = OSTCBPrev (tcb s i)" "OSTCBPrio (tcb s' i) = OSTCBPrio (tcb s i)"
    "OSTCBFlagNode (tcb s' i) = OSTCBFlagNode (tcb s i)" "tmr_part s' = tmr_part s" "OSFlagTbl s' = OSFlagTbl s" "OSFlagFreeList s' = OSFlagFreeList s"
    "OSTickStepState s' = OSTickStepState s" "OSIntNesting s' = OSIntNesting s" "OSFlagNodes s' = OSFlagNodes s"
  using assms by (simp_all add: tpart_def fun_eq_iff)

text \<open>The part the queues are in.\<close>

definition qpart :: "os \<Rightarrow> _" where
  "qpart s = (OSQTbl s, OSQFreeList s, OSHeap s, \<lambda>e. if is_q s e then Some (OSEventPtr (ev s e)) else None)"

lemma qpartD:
  assumes "qpart s' = qpart s"
  shows "OSQTbl s' = OSQTbl s" "OSQFreeList s' = OSQFreeList s" "OSHeap s' = OSHeap s" "is_q s' e = is_q s e" "is_q s e \<Longrightarrow> OSEventPtr (ev s' e) = OSEventPtr (ev s e)"
proof -
  have e: "(if is_q s' e then Some (OSEventPtr (ev s' e)) else None) = (if is_q s e then Some (OSEventPtr (ev s e)) else None)"
    using assms by (simp add: qpart_def fun_eq_iff)
  show "OSQTbl s' = OSQTbl s" "OSQFreeList s' = OSQFreeList s" "OSHeap s' = OSHeap s" using assms by (simp_all add: qpart_def)
  show "is_q s' e = is_q s e" "is_q s e \<Longrightarrow> OSEventPtr (ev s' e) = OSEventPtr (ev s e)" using e by (auto split: if_splits)
qed

lemma tpart_ok:
  assumes "tpart s' = tpart s"
  shows "tasks_ok s \<Longrightarrow> tasks_ok s'" "tmr_inv s \<Longrightarrow> tmr_inv s'"
  using tasks_frame [of s s'] tmr_inv_part [of s' s] tpartD [OF assms] by auto

lemma qpart_ok:
  assumes p: "qpart s' = qpart s" and ok: "qs_ok s"
  shows "qs_ok s'"
proof -
  note d = qpartD [OF p]
  have q: "ev_q s' e = ev_q s e" if "is_q s e" for e using d(5) [OF that] by (simp add: ev_q_def)
  have r: "ring_of s' n = ring_of s n" for n by (simp add: ring_of_def d)
  show ?thesis using ok unfolding qs_ok_def d(1,2,4) r by (auto simp: q d(5))
qed

section \<open>The building blocks\<close>

lemma parts_sched [simp]:
  "tpart (OS_Sched s) = tpart s" "qpart (OS_Sched s) = qpart s" "tpart (OSSchedLock s) = tpart s" "qpart (OSSchedLock s) = qpart s"
  "tpart (OSSchedUnlock s) = tpart s" "qpart (OSSchedUnlock s) = qpart s" "tpart (os_switch s) = tpart s" "qpart (os_switch s) = qpart s"
  by (simp_all add: tpart_def qpart_def is_q_def tmr_part_def OS_Sched_def os_switch_def OS_SchedNew_def OSPendSV_def upd_tcb_def Let_def
      OSSchedLock_def OSSchedUnlock_def fun_eq_iff)

lemma parts_rdy [simp]:
  "tpart (snd (OS_EventTaskRdy e m k ps s)) = tpart s" "qpart (snd (OS_EventTaskRdy e m k ps s)) = qpart s"
  by (auto simp: tpart_def qpart_def is_q_def tmr_part_def OS_EventTaskRdy_def OS_EventTaskRemove_def Let_def upd_ev_def upd_tcb_def set_rdy_def
      fun_eq_iff ev_clear_def set_ev_bm_def)

lemma parts_rdy_all:
  assumes "event_rdy_all e m k ps n s = Some (c, s')"
  shows "tpart s' = tpart s" "qpart s' = qpart s" "OSEventType (ev s' x) = OSEventType (ev s x)"
  using event_rdy_all_keeps [where f = tpart, OF assms parts_rdy(1)] event_rdy_all_keeps [where f = qpart, OF assms parts_rdy(2)]
    event_rdy_all_events [OF assms] by simp_all

lemma parts_block [simp]: "tpart (pend_block k e t s) = tpart s" "qpart (pend_block k e t s) = qpart s"
  by (auto simp: tpart_def qpart_def is_q_def tmr_part_def pend_block_def OS_EventTaskWait_def Let_def upd_ev_def upd_tcb_def rdy_clear_def set_rdy_def
      fun_eq_iff ev_set_def set_ev_bm_def)

lemma parts_finish [simp]:
  "tpart (snd (pend_finish e s)) = tpart s" "qpart (snd (pend_finish e s)) = qpart s"
  "tpart (snd (snd (pend_finish_msg e s))) = tpart s" "qpart (snd (snd (pend_finish_msg e s))) = qpart s"
  by (auto simp: tpart_def qpart_def is_q_def tmr_part_def pend_finish_def pend_finish_msg_def Let_def OS_EventTaskRemove_def upd_ev_def upd_tcb_def
      fun_eq_iff ev_clear_def set_ev_bm_def split: prod.split)

lemma parts_upd_ev:
  "tpart (upd_ev e f s) = tpart s"
  "OSEventType (ev s e) \<noteq> OS_EVENT_TYPE_Q \<Longrightarrow> OSEventType (f (ev s e)) \<noteq> OS_EVENT_TYPE_Q \<Longrightarrow> qpart (upd_ev e f s) = qpart s"
  by (auto simp: tpart_def qpart_def is_q_def tmr_part_def upd_ev_def fun_eq_iff)

lemma parts_free_list [simp]: "tpart (s\<lparr>OSEventFreeList := l\<rparr>) = tpart s" "qpart (s\<lparr>OSEventFreeList := l\<rparr>) = qpart s"
  by (simp_all add: tpart_def qpart_def is_q_def tmr_part_def fun_eq_iff)

lemma parts_init [simp]: "tpart (event_init e ty c p s) = tpart s" "tpart (event_put e s) = tpart s"
  by (simp_all add: event_init_def event_put_def parts_upd_ev)

lemma parts_put: "OSEventType (ev s e) \<noteq> OS_EVENT_TYPE_Q \<Longrightarrow> qpart (event_put e s) = qpart s"
  by (simp add: event_put_def parts_upd_ev)

lemma parts_get: "event_get s = (h, s1) \<Longrightarrow> tpart s1 = tpart s" "event_get s = (h, s1) \<Longrightarrow> qpart s1 = qpart s"
  by (auto simp: event_get_def split: option.splits)

lemma parts_get_init:
  assumes "evlist_ok s" "event_get s = (Some e, s1)" "ty \<noteq> OS_EVENT_TYPE_Q"
  shows "qpart (event_init e ty c p s1) = qpart s"
proof -
  note d = event_get_SomeD [OF assms(1,2)]
  show ?thesis unfolding event_init_def using d(2) assms(3) parts_get(2) [OF assms(2)]
    by (subst parts_upd_ev(2)) (simp_all add: d(3) OS_EventWaitListInit_def)
qed

lemma parts_q [simp]: "tpart (set_ring q r s) = tpart s" "tpart (upd_q q f s) = tpart s" "tpart (s\<lparr>OSQFreeList := l\<rparr>) = tpart s"
  by (simp_all add: tpart_def tmr_part_def set_ring_def upd_q_def)

section \<open>The services\<close>

lemma parts_sem:
  "tpart (snd (OSSemPost e s)) = tpart s" "qpart (snd (OSSemPost e s)) = qpart s" "tpart (snd (OSSemAccept e s)) = tpart s" "qpart (snd (OSSemAccept e s)) = qpart s"
  "tpart (snd (OSSemSet e c s)) = tpart s" "qpart (snd (OSSemSet e c s)) = qpart s" "tpart (snd (OSSemPend e t s)) = tpart s" "qpart (snd (OSSemPend e t s)) = qpart s"
  "OSSemDel e opt s = Some (h, err, s') \<Longrightarrow> tpart s' = tpart s" "OSSemDel e opt s = Some (h, err, s') \<Longrightarrow> qpart s' = qpart s"
  "OSSemPendAbort e opt s = Some (n, err, s') \<Longrightarrow> tpart s' = tpart s" "OSSemPendAbort e opt s = Some (n, err, s') \<Longrightarrow> qpart s' = qpart s"
  by (auto simp: OSSemPost_def OSSemAccept_def OSSemSet_def OSSemPend_def OSSemDel_def OSSemPendAbort_def Let_def parts_upd_ev parts_put parts_rdy_all
      split: if_splits option.splits prod.splits)

lemma parts_sem_create: "evlist_ok s \<Longrightarrow> tpart (snd (OSSemCreate c s)) = tpart s" "evlist_ok s \<Longrightarrow> qpart (snd (OSSemCreate c s)) = qpart s"
  by (auto simp: OSSemCreate_def parts_get parts_get_init split: option.splits prod.splits)

lemma parts_mbox:
  "tpart (snd (OSMboxPost e m s)) = tpart s" "qpart (snd (OSMboxPost e m s)) = qpart s" "tpart (snd (OSMboxAccept e s)) = tpart s" "qpart (snd (OSMboxAccept e s)) = qpart s"
  "tpart (snd (OSMboxPend e t s)) = tpart s" "qpart (snd (OSMboxPend e t s)) = qpart s"
  "OSMboxPostOpt e m opt s = Some (err, s') \<Longrightarrow> tpart s' = tpart s" "OSMboxPostOpt e m opt s = Some (err, s') \<Longrightarrow> qpart s' = qpart s"
  "OSMboxDel e opt s = Some (h, err, s') \<Longrightarrow> tpart s' = tpart s" "OSMboxDel e opt s = Some (h, err, s') \<Longrightarrow> qpart s' = qpart s"
  "OSMboxPendAbort e opt s = Some (n, err, s') \<Longrightarrow> tpart s' = tpart s" "OSMboxPendAbort e opt s = Some (n, err, s') \<Longrightarrow> qpart s' = qpart s"
  by (auto simp: OSMboxPost_def OSMboxAccept_def OSMboxPend_def OSMboxPostOpt_def OSMboxDel_def OSMboxPendAbort_def Let_def parts_upd_ev parts_put parts_rdy_all
      split: if_splits option.splits prod.splits)

lemma parts_mbox_create: "evlist_ok s \<Longrightarrow> tpart (snd (OSMboxCreate m s)) = tpart s" "evlist_ok s \<Longrightarrow> qpart (snd (OSMboxCreate m s)) = qpart s"
  by (auto simp: OSMboxCreate_def parts_get parts_get_init split: option.splits prod.splits)

lemma tpart_q_put: "tpart (q_put_back e s) = tpart s"
  by (simp add: q_put_back_def Let_def)

lemma tpart_queue:
  "tpart (snd (OSQPost e m s)) = tpart s" "tpart (snd (OSQPostFront e m s)) = tpart s" "tpart (snd (snd (OSQAccept e s))) = tpart s"
  "tpart (snd (OSQPend e t s)) = tpart s" "OSQPostOpt e m opt s = Some (err, s') \<Longrightarrow> tpart s' = tpart s"
  "OSQDel e opt s = Some (h, err, s') \<Longrightarrow> tpart s' = tpart s" "OSQPendAbort e opt s = Some (n, err, s') \<Longrightarrow> tpart s' = tpart s"
  "tpart (snd (OSQCreate a k s)) = tpart s"
  by (auto simp: OSQPost_def OSQPostFront_def OSQAccept_def OSQPend_def OSQPostOpt_def OSQDel_def OSQPendAbort_def OSQCreate_def event_get_def Let_def tpart_q_put
      parts_upd_ev parts_rdy_all split: if_splits option.splits prod.splits)

subsection \<open>Time\<close>

lemma parts_expire [simp]: "tpart (dly_expire i s) = tpart s" "qpart (dly_expire i s) = qpart s"
  by (auto simp: tpart_def qpart_def is_q_def tmr_part_def dly_expire_def Let_def rdy_set_def set_rdy_def upd_tcb_def fun_eq_iff)

lemma parts_dly_field [simp]: "tpart (upd_tcb i (\<lambda>t. t\<lparr>OSTCBDly := d t\<rparr>) s) = tpart s" "qpart (upd_tcb i f s) = qpart s"
  "tpart (upd_tcb i (\<lambda>t. t\<lparr>OSTCBStat := st t\<rparr>) s) = tpart s"
  by (auto simp: tpart_def qpart_def is_q_def tmr_part_def upd_tcb_def fun_eq_iff)

lemma parts_rdy_lists [simp]: "tpart (rdy_clear t s) = tpart s" "qpart (rdy_clear t s) = qpart s" "tpart (rdy_set t s) = tpart s" "qpart (rdy_set t s) = qpart s"
  by (auto simp: tpart_def qpart_def is_q_def tmr_part_def rdy_clear_def rdy_set_def set_rdy_def fun_eq_iff)

lemma parts_time [simp]:
  "tpart (OSTimeDly n s) = tpart s" "qpart (OSTimeDly n s) = qpart s" "tpart (snd (OSTimeDlyResume p s)) = tpart s" "qpart (snd (OSTimeDlyResume p s)) = qpart s"
  "tpart (tick_task i s) = tpart s" "qpart (tick_task i s) = qpart s" "tpart (s\<lparr>OSTime := t\<rparr>) = tpart s" "qpart (s\<lparr>OSTime := t\<rparr>) = qpart s"
  "tpart (s\<lparr>OSTmrCtr := c\<rparr>) = tpart s" "qpart (s\<lparr>OSTmrCtr := c\<rparr>) = qpart s"
  by (auto simp: OSTimeDly_def OSTimeDlyResume_def tick_task_def Let_def split: tcb_slot.split)
    (auto simp: tpart_def qpart_def is_q_def tmr_part_def fun_eq_iff)

lemma parts_hook [simp]: "tpart (OSTimeTickHook s) = tpart s" "qpart (OSTimeTickHook s) = qpart s"
  by (simp_all add: OSTimeTickHook_def OSTmrSignal_def Let_def parts_sem)

lemma tick_loop_keeps:
  assumes "tick_loop p s = Some s'" and f: "\<And>i s. f (tick_task i s) = f s"
  shows "f s' = f s"
  using assms(1)
proof (rule tick_loop.raw_induct [where P = "\<lambda>p s s'. f s' = f s", rotated])
  fix g p s s'
  assume "\<And>p s s'. g p s = Some s' \<Longrightarrow> f s' = f s"
    and "(case p of None \<Rightarrow> None | Some i \<Rightarrow> if OSTCBPrio (tcb s i) \<noteq> OS_TASK_IDLE_PRIO then g (OSTCBNext (tcb s i)) (tick_task i s) else Some s) = Some s'"
  then show "f s' = f s" using f by (auto split: option.splits if_splits)
qed

lemma parts_nesting [simp]: "qpart (s\<lparr>OSIntNesting := n\<rparr>) = qpart s" "qpart (OSIntEnter s) = qpart s" "qpart (OSIntExit s) = qpart s"
proof -
  show a: "qpart (s\<lparr>OSIntNesting := n\<rparr>) = qpart s" for s n by (simp add: qpart_def is_q_def fun_eq_iff)
  show "qpart (OSIntEnter s) = qpart s" "qpart (OSIntExit s) = qpart s" by (simp_all add: OSIntEnter_def OSIntExit_def Let_def a)
qed

lemma parts_tick:
  assumes "OSTimeTick s = Some s'" "OSTickStepState s = OS_TICK_STEP_DIS"
  shows "tpart s' = tpart s" "qpart s' = qpart s"
proof -
  let ?s = "OSTimeTickHook s"
  let ?t = "?s\<lparr>OSTime := OSTime ?s + 1\<rparr>"
  have st: "OSTickStepState ?t = OS_TICK_STEP_DIS" using tpartD(11) [OF parts_hook(1)] assms(2) by simp
  then have "s' = ?t \<or> (\<exists>p. tick_loop p ?t = Some s')" using assms(1) by (auto simp: OSTimeTick_def Let_def tick_step_def split: if_splits)
  then have "tpart s' = tpart ?t \<and> qpart s' = qpart ?t"
    using tick_loop_keeps [where f = tpart, OF _ parts_time(5)] tick_loop_keeps [where f = qpart, OF _ parts_time(6)] by auto
  then show "tpart s' = tpart s" "qpart s' = qpart s" by simp_all
qed

lemma tpart_nesting: "tpart (s\<lparr>OSIntNesting := n\<rparr>) = (case tpart s of (a, b, c, d, e, _) \<Rightarrow> (a, b, c, d, e, n))"
  by (simp add: tpart_def tmr_part_def)

lemma parts_SysTick:
  assumes "SysTick_Handler s = Some s'" "OSTickStepState s = OS_TICK_STEP_DIS" "OSIntNesting s' = OSIntNesting s"
  shows "tpart s' = tpart s" "qpart s' = qpart s"
proof -
  have e: "OSTickStepState (OSIntEnter s) = OSTickStepState s" by (simp add: OSIntEnter_def)
  show "qpart s' = qpart s" using assms(1,2) parts_tick(2) e by (auto simp: SysTick_Handler_def split: if_splits option.splits)
  have n: "snd (snd (snd (snd (snd (tpart x))))) = OSIntNesting x" for x by (simp add: tpart_def)
  have i: "(case tpart (OSIntEnter s) of (a, b, c, d, e, _) \<Rightarrow> (a, b, c, d, e)) = (case tpart s of (a, b, c, d, e, _) \<Rightarrow> (a, b, c, d, e))"
    by (simp add: OSIntEnter_def tpart_nesting split: prod.split)
  have o: "(case tpart (OSIntExit x) of (a, b, c, d, e, _) \<Rightarrow> (a, b, c, d, e)) = (case tpart x of (a, b, c, d, e, _) \<Rightarrow> (a, b, c, d, e))" for x
    by (simp add: OSIntExit_def tpart_nesting Let_def split: prod.split)
  have "(case tpart s' of (a, b, c, d, e, _) \<Rightarrow> (a, b, c, d, e)) = (case tpart s of (a, b, c, d, e, _) \<Rightarrow> (a, b, c, d, e))"
    using assms(1,2) parts_tick(1) e i o by (auto simp: SysTick_Handler_def split: if_splits option.splits)
  then show "tpart s' = tpart s" using n [of s] n [of s'] assms(3) by (auto simp: prod_eq_iff split: prod.splits)
qed

subsection \<open>Timers\<close>

definition rpart :: "os \<Rightarrow> _" where
  "rpart s = ((OSTCBPrioTbl s, OSTCBList s, OSTCBFreeList s),
     (\<lambda>i. (OSTCBNext (tcb s i), OSTCBPrev (tcb s i), OSTCBPrio (tcb s i), OSTCBFlagNode (tcb s i))),
     (OSFlagTbl s, OSFlagFreeList s, OSFlagNodes s), OSTickStepState s, OSIntNesting s)"

lemma tpart_iff: "tpart s' = tpart s \<longleftrightarrow> rpart s' = rpart s \<and> tmr_part s' = tmr_part s"
  by (auto simp: tpart_def rpart_def)

lemma rpart_sched [simp]: "rpart (OSSchedLock s) = rpart s" "rpart (OSSchedUnlock s) = rpart s"
  using parts_sched(3,5) tpart_iff by blast+

lemma rpart_tmr [simp]: "rpart (upd_tmr i f s) = rpart s" "rpart (upd_spoke k g s) = rpart s" "rpart (OSTmr_Link i kind s) = rpart s" "rpart (OSTmr_Unlink i s) = rpart s"
  "rpart (OSTmr_Free i s) = rpart s" "rpart (snd (OSTmr_Alloc s)) = rpart s" "rpart (s\<lparr>OSTmrTime := t\<rparr>) = rpart s"
  by (simp_all add: rpart_def upd_tmr_def upd_spoke_def OSTmr_Link_def OSTmr_Unlink_def OSTmr_Free_def OSTmr_Alloc_def Let_def fun_eq_iff split: option.split)

lemma qpart_tmr [simp]: "qpart (upd_tmr i f s) = qpart s" "qpart (upd_spoke k g s) = qpart s" "qpart (OSTmr_Link i kind s) = qpart s" "qpart (OSTmr_Unlink i s) = qpart s"
  "qpart (OSTmr_Free i s) = qpart s" "qpart (snd (OSTmr_Alloc s)) = qpart s" "qpart (s\<lparr>OSTmrTime := t\<rparr>) = qpart s"
  by (simp_all add: qpart_def is_q_def upd_tmr_def upd_spoke_def OSTmr_Link_def OSTmr_Unlink_def OSTmr_Free_def OSTmr_Alloc_def Let_def fun_eq_iff split: option.split)

lemma tmr_alloc_parts:
  assumes "OSTmr_Alloc s = (h, s')"
  shows "rpart s' = rpart s" "qpart s' = qpart s"
  using assms rpart_tmr(6) [of s] qpart_tmr(6) [of s] by simp_all

lemma parts_tmr:
  "rpart (snd (snd (OSTmrCreate dly period opt callback arg pname s))) = rpart s" "qpart (snd (snd (OSTmrCreate dly period opt callback arg pname s))) = qpart s"
  "rpart (snd (snd (OSTmrDel i s))) = rpart s" "qpart (snd (snd (OSTmrDel i s))) = qpart s"
  "rpart (snd (snd (OSTmrStart i s))) = rpart s" "qpart (snd (snd (OSTmrStart i s))) = qpart s"
  by (auto simp: OSTmrCreate_def OSTmrDel_def OSTmrStart_def Let_def tmr_alloc_parts split: prod.splits option.splits)

lemma rpartD:
  assumes "rpart s' = rpart s"
  shows "OSTCBPrioTbl s' = OSTCBPrioTbl s" "OSTCBList s' = OSTCBList s" "OSTCBFreeList s' = OSTCBFreeList s"
    "OSTCBNext (tcb s' i) = OSTCBNext (tcb s i)" "OSTCBPrev (tcb s' i) = OSTCBPrev (tcb s i)" "OSTCBPrio (tcb s' i) = OSTCBPrio (tcb s i)"
    "OSTCBFlagNode (tcb s' i) = OSTCBFlagNode (tcb s i)" "OSFlagTbl s' = OSFlagTbl s" "OSFlagFreeList s' = OSFlagFreeList s"
    "OSTickStepState s' = OSTickStepState s" "OSIntNesting s' = OSIntNesting s" "OSFlagNodes s' = OSFlagNodes s"
  using assms by (simp_all add: rpart_def fun_eq_iff)

section \<open>Waiting for flags and waiting for events\<close>

text \<open>A task that is in the wait list of a flag group is not in that of an event: it has no event pointer, and its status is
  that of such a wait. This is what lets the services on events leave the flag groups alone, and the other way round.\<close>

definition tflag :: "os_tcb \<Rightarrow> bool" where
  "tflag t \<longleftrightarrow>
     (case OSTCBFlagNode t of
        None \<Rightarrow> OSTCBStat t AND OS_STAT_FLAG = 0
      | Some _ \<Rightarrow> OSTCBEventPtr t = None \<and> OSTCBStat t AND NOT (OS_STAT_FLAG OR OS_STAT_SUSPEND) = 0 \<and>
          (OSTCBStat t AND OS_STAT_FLAG = 0 \<longrightarrow> OSTCBStatPend t = OS_STAT_PEND_TO \<and> OSTCBDly t = 0))"

definition tflags :: "os \<Rightarrow> bool" where
  "tflags s \<longleftrightarrow> (\<forall>j. tflag (tcb s j))"

definition slots :: "os \<Rightarrow> bool" where
  "slots s \<longleftrightarrow> (\<forall>q i. OSTCBPrioTbl s q = Tcb i \<longrightarrow> prio s i = q)"

lemma slots_one: "slots s \<Longrightarrow> one_slot s i"
  by (simp add: slots_def one_slot_def)

lemma tflagsD: "tflags s \<Longrightarrow> tflag (tcb s j)"
  by (simp add: tflags_def)

lemma tflag_event: "tflag t \<Longrightarrow> OSTCBEventPtr t = Some e \<Longrightarrow> OSTCBFlagNode t = None \<and> OSTCBStat t AND OS_STAT_FLAG = 0"
  by (auto simp: tflag_def split: option.splits)

lemma tflag_none: "OSTCBFlagNode t = None \<Longrightarrow> tflag t \<longleftrightarrow> OSTCBStat t AND OS_STAT_FLAG = 0"
  by (simp add: tflag_def)

text \<open>The flag groups stay well formed when their tables and nodes do not change and the tasks keep that.\<close>

lemma flags_keep:
  assumes ok: "flags_ok s" "kinv s'" "tflags s'" and fl: "OSFlagTbl s' = OSFlagTbl s" "OSFlagNodes s' = OSFlagNodes s" "OSFlagFreeList s' = OSFlagFreeList s"
    and pt: "OSTCBPrioTbl s' = OSTCBPrioTbl s" and tc: "\<And>j. OSTCBPrio (tcb s' j) = OSTCBPrio (tcb s j) \<and> OSTCBFlagNode (tcb s' j) = OSTCBFlagNode (tcb s j)"
  shows "flags_ok s'"
proof (rule flags_ok_live [OF ok(1) fl])
  have lv: "live s' j = live s j" for j by (simp add: live_def pt tc)
  show "flag_waits s' g j = flag_waits s g j" for g j by (simp add: flag_waits_def lv tc fl)
  show "fnode_ok s' j" if l: "live s' j" for j
  proof -
    have f: "fnode_ok s j" using flags_okD(1) [OF ok(1)] l by (simp add: lv)
    have t: "tflag (tcb s' j)" using tflagsD [OF ok(3)] .
    have w: "OSTCBEventPtr (tcb s' j) = None \<Longrightarrow> prio s' j \<notin> wset s' e" for e using kinv_waits_on [OF ok(2) l, of e] by auto
    show ?thesis
    proof (cases "OSTCBFlagNode (tcb s j)")
      case None
      then show ?thesis using t by (simp add: fnode_ok_def tflag_def tc)
    next
      case (Some k)
      then have "OSTCBFlagNode (tcb s' j) = Some k" by (simp add: tc)
      then show ?thesis using Some f t w by (simp add: fnode_ok_def tflag_def fl)
    qed
  qed
qed

lemma tflags_cong:
  assumes "\<And>j. OSTCBFlagNode (tcb s' j) = OSTCBFlagNode (tcb s j) \<and> OSTCBStat (tcb s' j) = OSTCBStat (tcb s j) \<and>
    OSTCBEventPtr (tcb s' j) = OSTCBEventPtr (tcb s j) \<and> OSTCBStatPend (tcb s' j) = OSTCBStatPend (tcb s j) \<and> OSTCBDly (tcb s' j) = OSTCBDly (tcb s j)"
  shows "tflags s' = tflags s"
proof -
  have "tflag (tcb s' j) = tflag (tcb s j)" for j using assms [of j] by (simp add: tflag_def split: option.split)
  then show ?thesis by (simp add: tflags_def)
qed

lemma tflags_same [simp]:
  "tflags (OS_Sched s) = tflags s" "tflags (OSSchedLock s) = tflags s" "tflags (OSSchedUnlock s) = tflags s" "tflags (os_switch s) = tflags s"
  "tflags (upd_ev e f s) = tflags s" "tflags (s\<lparr>OSEventFreeList := l\<rparr>) = tflags s" "tflags (event_init e ty c p s) = tflags s" "tflags (event_put e s) = tflags s"
  "tflags (set_ring q r s) = tflags s" "tflags (upd_q q g s) = tflags s" "tflags (s\<lparr>OSQFreeList := l\<rparr>) = tflags s" "tflags (q_put_back e s) = tflags s"
  "tflags (rdy_clear t s) = tflags s" "tflags (rdy_set t s) = tflags s" "tflags (s\<lparr>OSTime := n\<rparr>) = tflags s" "tflags (s\<lparr>OSTmrCtr := c'\<rparr>) = tflags s"
  "tflags (OSIntEnter s) = tflags s" "tflags (OSIntExit s) = tflags s" "tflags (s\<lparr>OSStkMem := m\<rparr>) = tflags s"
  "tflags (upd_grp k fg s) = tflags s" "tflags (s\<lparr>OSFlagFreeList := l\<rparr>) = tflags s" "tflags (grp_put k s) = tflags s"
  "tflags (upd_tmr i h s) = tflags s" "tflags (OSTmr_Link i kind s) = tflags s" "tflags (OSTmr_Unlink i s) = tflags s" "tflags (OSTmr_Free i s) = tflags s"
  "tflags (s\<lparr>OSTmrTime := t'\<rparr>) = tflags s"
  by (rule tflags_cong; simp add: OSSchedLock_def OSSchedUnlock_def Let_def event_init_def event_put_def upd_ev_def set_ring_def upd_q_def q_put_back_def
      OSIntEnter_def OSIntExit_def OS_Sched_def os_switch_def OS_SchedNew_def OSPendSV_def upd_tcb_def upd_tmr_def upd_spoke_def OSTmr_Link_def OSTmr_Unlink_def
      OSTmr_Free_def upd_grp_def split: option.split; fail)+

lemma and_flag: "(x AND NOT k) AND 0x20 = (0::u8)" "(x OR k) AND 0x20 = (0::u8)" if "x AND 0x20 = 0" "k AND 0x20 = 0"
proof -
  show "(x AND NOT k) AND 0x20 = 0" using that by (metis and.assoc and.commute and_zero_eq)
  show "(x OR k) AND 0x20 = 0" using that by (simp add: bit.conj_disj_distrib2)
qed

lemma and_flag_not: "(x::u8) AND 0x20 = 0 \<Longrightarrow> (x AND k) AND 0x20 = 0"
  by (metis and.assoc and.commute and_zero_eq)

lemma and_zero_mono: "(x::u8) AND m = 0 \<Longrightarrow> (x AND k) AND m = 0"
  by (metis and.assoc and.commute and_zero_eq)

lemma tflags_upd: "tflags s \<Longrightarrow> tflag (f (tcb s i)) \<Longrightarrow> tflags (upd_tcb i f s)"
  by (simp add: tflags_def upd_tcb_def)

lemma tflags_rdy:
  assumes "OSEventGrp (ev s e) \<noteq> 0" "kinv s" "tflags s"
  shows "tflags (snd (OS_EventTaskRdy e m k ps s))"
proof -
  obtain i where i: "live s i" "prio s i \<in> wset s e" and w: "OS_EventTaskRdy e m k ps s = (OSTCBPrio (tcb s i), wake i e m k ps s)"
    using EventTaskRdy_wake [OF assms(2,1)] by metis
  note t = tflag_event [OF tflagsD [OF assms(3)] kinv_waits_on [OF assms(2) i]]
  show ?thesis unfolding tflags_def w snd_conv
  proof
    fix j show "tflag (tcb (wake i e m k ps s) j)"
      using t tflagsD [OF assms(3), of j] by (cases "j = i") (auto simp: tflag_none and_flag_not)
  qed
qed

lemma event_rdy_all_inv:
  assumes "event_rdy_all e m k ps nbr s = Some r" and step: "\<And>s. OSEventGrp (ev s e) \<noteq> 0 \<Longrightarrow> P s \<Longrightarrow> P (snd (OS_EventTaskRdy e m k ps s))"
  shows "P s \<longrightarrow> P (snd r)"
  using assms(1)
proof (rule event_rdy_all.raw_induct [where P = "\<lambda>e' m' k' ps' nbr s r. e' = e \<and> m' = m \<and> k' = k \<and> ps' = ps \<longrightarrow> P s \<longrightarrow> P (snd r)", THEN mp, rotated])
  fix g e' m' k' ps' nbr' s' r'
  assume ih: "\<And>e'' m'' k'' ps'' nbr'' s'' r''. g e'' m'' k'' ps'' nbr'' s'' = Some r'' \<Longrightarrow> e'' = e \<and> m'' = m \<and> k'' = k \<and> ps'' = ps \<longrightarrow> P s'' \<longrightarrow> P (snd r'')"
    and r: "(if OSEventGrp (ev s' e') \<noteq> 0 then g e' m' k' ps' (nbr' + 1) (snd (OS_EventTaskRdy e' m' k' ps' s')) else Some (nbr', s')) = Some r'"
  show "e' = e \<and> m' = m \<and> k' = k \<and> ps' = ps \<longrightarrow> P s' \<longrightarrow> P (snd r')"
    using r ih [of e m k ps "nbr' + 1" "snd (OS_EventTaskRdy e m k ps s')" r'] step [of s'] by (cases "OSEventGrp (ev s' e) \<noteq> 0") auto
qed simp

lemma tflags_rdy_all:
  assumes r: "event_rdy_all e m k ps n s = Some (c, s')" and k: "kinv s" "tflags s" and ty: "k = stat_mask (OSEventType (ev s e))"
  shows "tflags s'"
proof -
  let ?P = "\<lambda>s. kinv s \<and> tflags s \<and> k = stat_mask (OSEventType (ev s e))"
  have "?P (snd (OS_EventTaskRdy e m k ps t))" if g: "OSEventGrp (ev t e) \<noteq> 0" and pt: "?P t" for t
  proof -
    have a: "kinv t" "tflags t" "k = stat_mask (OSEventType (ev t e))" using pt by blast+
    obtain i where i: "live t i" "prio t i \<in> wset t e" and w: "OS_EventTaskRdy e m k ps t = (OSTCBPrio (tcb t i), wake i e m k ps t)"
      using EventTaskRdy_wake [OF a(1) g] by metis
    have "OSEventType (ev (wake i e m k ps t) e) = OSEventType (ev t e)" by simp
    then show ?thesis using kinv_wake [OF a(1) i a(3), of m ps] tflags_rdy [OF g a(1,2), of m k ps] a(3) unfolding w snd_conv by metis
  qed
  then show ?thesis using event_rdy_all_inv [where P = ?P, OF r] k ty by simp
qed

lemma tflags_block:
  assumes "k AND 0x20 = 0" "OSTCBFlagNode (tcb s (cur s)) = None" "tflags s"
  shows "tflags (pend_block k e t s)"
proof -
  have b: "OSTCBTbl (pend_block k e t s) = (OSTCBTbl s)(cur s := (tcb s (cur s))\<lparr>OSTCBStat := OSTCBStat (tcb s (cur s)) OR k,
       OSTCBStatPend := OS_STAT_PEND_OK, OSTCBDly := t, OSTCBEventPtr := Some e\<rparr>)"
    by (simp add: pend_block_def OS_EventTaskWait_def Let_def upd_ev_def upd_tcb_def rdy_clear_def set_rdy_def cur_def)
  have "OSTCBStat (tcb s (cur s)) AND 0x20 = 0" using tflagsD [OF assms(3), of "cur s"] assms(2) by (simp add: tflag_none)
  then show ?thesis using assms(1,2) tflagsD [OF assms(3)] by (simp add: tflags_def b tflag_none and_flag(2))
qed

lemma tflags_finish:
  assumes "OSTCBEventPtr (tcb s (cur s)) = Some e" "tflags s"
  shows "tflags (snd (pend_finish e s))" "tflags (snd (snd (pend_finish_msg e s)))"
proof -
  note t = tflag_event [OF tflagsD [OF assms(2)] assms(1)]
  show "tflags (snd (pend_finish e s))" using t tflagsD [OF assms(2)]
    by (auto simp: tflags_def pend_finish_def Let_def OS_EventTaskRemove_def upd_ev_def upd_tcb_def tflag_none)
  then show "tflags (snd (snd (pend_finish_msg e s)))"
    by (subst tflags_cong [of _ "snd (pend_finish e s)"]) (simp_all add: pend_finish_msg_def Let_def case_prod_beta upd_tcb_def)
qed

text \<open>A delay of a task runs out, or counts down.\<close>

lemma tflag_expire:
  assumes t: "tflag t" and d: "OSTCBDly t \<noteq> 0"
  shows "tflag (expire_tcb (t\<lparr>OSTCBDly := 0\<rparr>))"
proof (cases "OSTCBFlagNode t")
  case None
  then show ?thesis using t by (auto simp: expire_tcb_def tflag_def and_flag_not)
next
  case (Some k)
  then have f: "OSTCBStat t AND 0x20 \<noteq> 0" and e: "OSTCBEventPtr t = None" and m: "OSTCBStat t AND NOT 0x28 = 0"
    using t d by (auto simp: tflag_def)
  have "OSTCBStat t AND 0x37 \<noteq> 0"
  proof
    assume "OSTCBStat t AND 0x37 = 0"
    then have "(OSTCBStat t AND 0x37) AND 0x20 = 0" by simp
    then show False using f by (simp add: and.assoc)
  qed
  moreover have "(OSTCBStat t AND NOT 0x28) AND - 64 = 0" using m by simp
  then have "OSTCBStat t AND - 64 = 0" by (simp add: and.assoc)
  ultimately show ?thesis using Some e by (simp add: expire_tcb_def tflag_def and.assoc)
qed

lemma tflags_expire: "tflags s \<Longrightarrow> OSTCBDly (tcb s i) \<noteq> 0 \<Longrightarrow> tflags (dly_expire i (upd_tcb i (\<lambda>t. t\<lparr>OSTCBDly := 0\<rparr>) s))"
  using tflag_expire [OF tflagsD] by (simp add: tflags_def upd_tcb_def)

lemma tflags_tick_task: "tflags s \<Longrightarrow> tflags (tick_task i s)"
proof (cases "OSTCBDly (tcb s i) = 0")
  case False
  assume s: "tflags s"
  let ?d = "upd_tcb i (\<lambda>t. t\<lparr>OSTCBDly := OSTCBDly t - 1\<rparr>) s"
  show ?thesis
  proof (cases "OSTCBDly (tcb s i) - 1 = 0")
    case True
    then have "?d = upd_tcb i (\<lambda>t. t\<lparr>OSTCBDly := 0\<rparr>) s" by (simp add: upd_tcb_def)
    then show ?thesis using tflags_expire [OF s False] True False by (simp add: tick_task_def Let_def upd_tcb_same)
  next
    case nz: False
    have "tflag ((tcb s i)\<lparr>OSTCBDly := OSTCBDly (tcb s i) - 1\<rparr>)" using tflagsD [OF s, of i] False by (auto simp: tflag_def split: option.splits)
    then have "tflags ?d" by (rule tflags_upd [OF s])
    then show ?thesis using False nz by (simp add: tick_task_def Let_def upd_tcb_same)
  qed
qed (simp add: tick_task_def)

lemma tflags_get: "event_get s = (h, s1) \<Longrightarrow> tflags s1 = tflags s"
  by (rule tflags_cong) (auto simp: event_get_def split: option.splits)

lemma tflags_drain:
  assumes "kinv s" "tflags s"
  shows "event_rdy_all e m OS_STAT_SEM ps n s = Some (c, s') \<Longrightarrow> OSEventType (ev s e) = OS_EVENT_TYPE_SEM \<Longrightarrow> tflags s'"
    "event_rdy_all e m OS_STAT_MBOX ps n s = Some (c, s') \<Longrightarrow> OSEventType (ev s e) = OS_EVENT_TYPE_MBOX \<Longrightarrow> tflags s'"
    "event_rdy_all e m OS_STAT_Q ps n s = Some (c, s') \<Longrightarrow> OSEventType (ev s e) = OS_EVENT_TYPE_Q \<Longrightarrow> tflags s'"
  by (erule tflags_rdy_all [OF _ assms]; simp add: stat_mask_def)+

lemmas tflags_blocks = tflags_rdy tflags_block

lemma tflags_sem:
  assumes k: "kinv s" and t: "tflags s"
  shows "tflags (snd (OSSemPost e s))" "tflags (snd (OSSemAccept e s))" "tflags (snd (OSSemSet e c s))"
    "OSTCBFlagNode (tcb s (cur s)) = None \<Longrightarrow> tflags (snd (OSSemPend e tmo s))" "OSSemDel e opt s = Some (h, err, s') \<Longrightarrow> tflags s'"
    "OSSemPendAbort e opt s = Some (n, err, s') \<Longrightarrow> tflags s'" "tflags (snd (OSSemCreate c s))"
  using k t by (auto simp: OSSemPost_def OSSemAccept_def OSSemSet_def OSSemPend_def OSSemDel_def OSSemPendAbort_def OSSemCreate_def Let_def tflags_get
      split: if_splits option.splits prod.splits intro: tflags_blocks dest: tflags_drain [OF k t])

lemma tflags_mbox:
  assumes k: "kinv s" and t: "tflags s"
  shows "tflags (snd (OSMboxPost e m s))" "tflags (snd (OSMboxAccept e s))" "OSMboxPostOpt e m opt s = Some (err, s') \<Longrightarrow> tflags s'"
    "OSTCBFlagNode (tcb s (cur s)) = None \<Longrightarrow> tflags (snd (OSMboxPend e tmo s))" "OSMboxDel e opt s = Some (h, err, s') \<Longrightarrow> tflags s'"
    "OSMboxPendAbort e opt s = Some (n, err, s') \<Longrightarrow> tflags s'" "tflags (snd (OSMboxCreate m s))"
  using k t by (auto simp: OSMboxPost_def OSMboxAccept_def OSMboxPostOpt_def OSMboxPend_def OSMboxDel_def OSMboxPendAbort_def OSMboxCreate_def Let_def tflags_get
      split: if_splits option.splits prod.splits intro: tflags_blocks dest: tflags_drain [OF k t])

lemma tflags_queue:
  assumes k: "kinv s" and t: "tflags s"
  shows "tflags (snd (OSQPost e m s))" "tflags (snd (OSQPostFront e m s))" "tflags (snd (snd (OSQAccept e s)))"
    "OSTCBFlagNode (tcb s (cur s)) = None \<Longrightarrow> tflags (snd (OSQPend e tmo s))" "OSQPostOpt e m opt s = Some (err, s') \<Longrightarrow> tflags s'"
    "OSQDel e opt s = Some (h, err, s') \<Longrightarrow> tflags s'" "OSQPendAbort e opt s = Some (n, err, s') \<Longrightarrow> tflags s'"
    "tflags (snd (OSQCreate a sz s))" "tflags (snd (OSQFlush e s))"
  using k t by (auto simp: OSQPost_def OSQPostFront_def OSQAccept_def OSQPend_def OSQPostOpt_def OSQDel_def OSQPendAbort_def OSQCreate_def OSQFlush_def Let_def
      tflags_get split: if_splits option.splits prod.splits intro: tflags_blocks dest: tflags_drain [OF k t])

lemma tick_loop_inv:
  assumes "tick_loop p s = Some s'" and f: "\<And>i s. P s \<Longrightarrow> P (tick_task i s)"
  shows "P s \<longrightarrow> P s'"
  using assms(1)
proof (rule tick_loop.raw_induct [where P = "\<lambda>p s s'. P s \<longrightarrow> P s'", rotated])
  fix g p s s'
  assume "\<And>p s s'. g p s = Some s' \<Longrightarrow> P s \<longrightarrow> P s'"
    and "(case p of None \<Rightarrow> None | Some i \<Rightarrow> if OSTCBPrio (tcb s i) \<noteq> OS_TASK_IDLE_PRIO then g (OSTCBNext (tcb s i)) (tick_task i s) else Some s) = Some s'"
  then show "P s \<longrightarrow> P s'" using f by (auto split: option.splits if_splits)
qed

lemma tflags_time:
  assumes t: "tflags s"
  shows "OSTCBFlagNode (tcb s (cur s)) = None \<Longrightarrow> tflags (OSTimeDly n s)" "tflags (snd (OSTimeDlyResume p s))"
proof -
  show "tflags (OSTimeDly n s)" if "OSTCBFlagNode (tcb s (cur s)) = None"
    using that t tflagsD [OF t, of "cur s"] tflags_upd [where f = "\<lambda>t. t\<lparr>OSTCBDly := n\<rparr>" and i = "cur s" and s = "rdy_clear (tcb s (cur s)) s"]
    by (simp add: OSTimeDly_def tflag_none)
  show "tflags (snd (OSTimeDlyResume p s))" using t tflags_expire by (auto simp: OSTimeDlyResume_def Let_def split: tcb_slot.split)
qed

lemma tflags_SysTick:
  assumes k: "kinv s" and t: "tflags s" and r: "SysTick_Handler s = Some s'"
  shows "tflags s'"
proof -
  have kc: "kinv (s\<lparr>OSTmrCtr := c\<rparr>)" if "kinv s" for s c using that by (rule kinv_frame) (simp_all add: same_core_def)
  have hook: "tflags (OSTimeTickHook s)" if "kinv s" "tflags s" for s
    using tflags_sem(1) [OF kc [OF that(1)]] that(2) by (simp add: OSTimeTickHook_def OSTmrSignal_def Let_def)
  have step: "tflags (snd (tick_step s)) = tflags s" for s by (rule tflags_cong) (simp add: tick_step_def)
  have tick: "tflags s'" if s: "kinv s" "tflags s" "OSTimeTick s = Some s'" for s s'
  proof -
    let ?t = "(OSTimeTickHook s)\<lparr>OSTime := OSTime (OSTimeTickHook s) + 1\<rparr>"
    have t: "tflags ?t" using hook [OF s(1,2)] by simp
    then have u: "tflags (snd (tick_step ?t))" by (simp only: step)
    have "s' = ?t \<or> s' = snd (tick_step ?t) \<or> (\<exists>p. tick_loop p (snd (tick_step ?t)) = Some s')"
      using s(3) by (auto simp: OSTimeTick_def Let_def split: if_splits prod.splits)
    then show ?thesis using t u tick_loop_inv [where P = tflags, OF _ tflags_tick_task] by metis
  qed
  have "kinv (OSIntEnter s)" using k by (rule kinv_frame) (simp_all add: OSIntEnter_def same_core_def)
  then show ?thesis using r t tick [of "OSIntEnter s"] by (auto simp: SysTick_Handler_def split: if_splits option.splits)
qed

lemma tflags_timers:
  assumes t: "tflags s"
  shows "tflags (snd (snd (OSTmrCreate dly period opt callback arg pname s)))" "tflags (snd (snd (OSTmrDel i s)))" "tflags (snd (snd (OSTmrStart i s)))"
proof -
  have "tflags (snd (OSTmr_Alloc s)) = tflags s" for s
    by (rule tflags_cong) (simp add: OSTmr_Alloc_def upd_tmr_def Let_def split: option.split)
  then have "tflags (snd (OSTmr_Alloc (OSSchedLock s)))" using t by simp
  then show "tflags (snd (snd (OSTmrCreate dly period opt callback arg pname s)))" "tflags (snd (snd (OSTmrDel i s)))" "tflags (snd (snd (OSTmrStart i s)))"
    using t by (auto simp: OSTmrCreate_def OSTmrDel_def OSTmrStart_def Let_def split: prod.splits option.splits)
qed

section \<open>Tasks come and go\<close>

text \<open>The invariant of the whole kernel, and what every service but those of the timers keeps: the invariant and the timers.\<close>

definition ginv :: "os \<Rightarrow> bool" where
  "ginv s \<longleftrightarrow> ksafe s \<and> tasks_ok s \<and> qs_ok s \<and> tmr_inv s \<and> flags_ok s \<and> tflags s \<and> slots s \<and> OSTickStepState s = OS_TICK_STEP_DIS \<and> OSIntNesting s = 0"

definition kept :: "os \<Rightarrow> os \<Rightarrow> bool" where
  "kept s s' \<longleftrightarrow> ginv s' \<and> tmr_part s' = tmr_part s"

lemma ginvD:
  assumes "ginv s"
  shows "ksafe s" "kok s" "kinv s" "evlist_ok s" "cur_ok s" "sched_ok s" "tasks_ok s" "qs_ok s" "tmr_inv s" "flags_ok s" "tflags s" "slots s"
    "OSTickStepState s = OS_TICK_STEP_DIS" "OSIntNesting s = 0" "fsafe s" "tsafe s" "qsafe s" "wsafe s" "tlist_ok s"
  using assms by (simp_all add: ginv_def kok_def tasks_ok_def)

lemma keptD: "kept s s' \<Longrightarrow> ginv s'"
  by (simp add: kept_def)

lemma kept_refl: "ginv s \<Longrightarrow> kept s s"
  by (simp add: kept_def)

lemma ginv_rest:
  assumes "ginv s" "tsafe s'" "tflags s'" "slots s'" "qpart s' = qpart s" "tmr_part s' = tmr_part s" "OSTickStepState s' = OSTickStepState s" "OSIntNesting s' = OSIntNesting s"
  shows "kept s s'"
  using assms tmr_inv_part [OF assms(6)] qpart_ok [OF assms(5)] by (simp add: kept_def ginv_def)

lemma rpart_ok:
  assumes "rpart s' = rpart s"
  shows "tasks_ok s \<Longrightarrow> tasks_ok s'" "flags_ok s \<Longrightarrow> kinv s' \<Longrightarrow> tflags s' \<Longrightarrow> flags_ok s'" "slots s \<Longrightarrow> slots s'"
proof -
  note d = rpartD [OF assms]
  show "tasks_ok s \<Longrightarrow> tasks_ok s'" using tasks_frame [of s s'] d by auto
  show "slots s \<Longrightarrow> slots s'" using d by (simp add: slots_def)
  show "flags_ok s'" if "flags_ok s" "kinv s'" "tflags s'" by (rule flags_keep [OF that]) (simp_all add: d)
qed

lemma ginv_keep:
  assumes g: "ginv s" and "ksafe s'" "tpart s' = tpart s" "qs_ok s'" "tflags s'"
  shows "kept s s'"
proof -
  have r: "rpart s' = rpart s" "tmr_part s' = tmr_part s" using assms(3) by (simp_all add: tpart_iff)
  have "kinv s'" using assms(2) by (simp add: kok_def)
  then show ?thesis using assms ginvD [OF g] rpart_ok [OF r(1)] tpart_ok [OF assms(3)] rpartD(10,11) [OF r(1)] r(2) by (simp add: ginv_def kept_def)
qed

lemma ginv_keep_q: "ginv s \<Longrightarrow> ksafe s' \<Longrightarrow> tpart s' = tpart s \<Longrightarrow> qpart s' = qpart s \<Longrightarrow> tflags s' \<Longrightarrow> kept s s'"
  using ginv_keep qpart_ok ginvD(8) by blast

lemma ginv_tmr:
  assumes g: "ginv s" and "wsafe s'" "rpart s' = rpart s" "qpart s' = qpart s" "tflags s'"
  shows "ginv s'"
proof -
  have "kinv s'" using assms(2) by (simp add: kok_def)
  then show ?thesis using assms ginvD [OF g] rpart_ok [OF assms(3)] rpartD(10,11) [OF assms(3)] qpart_ok by (simp add: ginv_def)
qed

lemma qpart_slot [simp]: "qpart (set_slot p v s) = qpart s" "qpart (s\<lparr>OSStkMem := m\<rparr>) = qpart s" "tmr_part (set_slot p v s) = tmr_part s" "tmr_part (s\<lparr>OSStkMem := m\<rparr>) = tmr_part s"
  by (simp_all add: qpart_def is_q_def set_slot_def tmr_part_def fun_eq_iff)

lemma qpart_TCBInit [simp]: "qpart (snd (OS_TCBInit p a b c d x o' s)) = qpart s"
  by (auto simp: qpart_def is_q_def OS_TCBInit_def Let_def upd_tcb_def set_slot_def rdy_set_def set_rdy_def fun_eq_iff split: option.split)

lemma tflag_links [simp]: "tflag (t\<lparr>OSTCBPrev := x\<rparr>) = tflag t" "tflag (t\<lparr>OSTCBNext := y\<rparr>) = tflag t" "tflag (t\<lparr>OSTCBTaskName := nm\<rparr>) = tflag t"
  "tflag (tcb_fields p ptos pbos tid n x' o' t)"
  by (simp_all add: tflag_def tcb_fields_def prio_fields_def Let_def split: option.split)

lemma ginv_create_tail:
  assumes g: "ginv s" and sl: "OSTCBPrioTbl s (unat p) = NoTcb" and p: "unat p < 64" and r: "create_tail p psp pb t n x o' m s = (err, s')"
  shows "kept s s'"
proof (cases "OSTCBFreeList s")
  case None
  have "s' = s\<lparr>OSStkMem := m\<rparr>" using r create_tail_none [OF sl None] by simp
  moreover have "same_kernel s (s\<lparr>OSStkMem := m\<rparr>)" by (simp add: same_kernel_def)
  then have "ksafe (s\<lparr>OSStkMem := m\<rparr>)" using ginvD(1) [OF g] same_kernel_ksafe by blast
  moreover have "tpart (s\<lparr>OSStkMem := m\<rparr>) = tpart s" by (simp add: tpart_def)
  ultimately show ?thesis using ginv_keep_q [OF g] ginvD(11) [OF g] by simp
next
  case (Some i)
  note d = ginvD [OF g]
  note c = create_tail_ok [OF d(16) sl p Some d(14) r]
  define s1 where "s1 = (set_slot p Reserved s)\<lparr>OSStkMem := m\<rparr>"
  have f1: "OSTCBFreeList s1 = Some i" "OSTCBList s1 = OSTCBList s" "OSTCBTbl s1 = OSTCBTbl s" "OSRunning s1 = OSRunning s" "OSIntNesting s1 = OSIntNesting s"
    "OSTickStepState s1 = OSTickStepState s" "OSTCBPrioTbl s1 = (OSTCBPrioTbl s)(unat p := Reserved)"
    by (simp_all add: s1_def set_slot_def Some)
  obtain e2 s2 where r2: "OS_TCBInit p psp pb t n x o' s1 = (e2, s2)" by fastforce
  have hl: "OSTCBList s1 \<noteq> Some i" using d(19) c(7) by (simp add: f1 tlist_head_live)
  note f = TCBInit_fields [OF f1(1) hl r2]
  have s2: "s2 = snd (OS_TCBInit p psp pb t n x o' s1)" by (simp add: r2)
  have s': "s' = OS_Sched s2" using r f(1,12) d(5) unfolding create_tail_def Let_def s1_def [symmetric] r2
    by (auto simp: sched_if_running_def f1 cur_ok_def)
  have tp: "tpart s' = tpart s2" "qpart s' = qpart s" by (simp_all add: s') (simp add: s2, simp add: s1_def)
  note tD = tpartD [OF tp(1)]
  have tm: "tmr_part s' = tmr_part s" unfolding tD(8) s2 by (simp add: s1_def)
  have "tflags s2" using tflagsD [OF d(11)] unfolding tflags_def f(2) by (auto simp: f1 split: option.split)
  then have st: "tflags s'" by (simp add: s')
  have pr: "OSTCBPrio (tcb s' j) = (if j = i then p else OSTCBPrio (tcb s j))" for j unfolding tD(6) f(2) by (auto simp: f1 split: option.split)
  have "slots s'" unfolding slots_def
  proof (intro allI impI)
    fix q x assume a: "OSTCBPrioTbl s' q = Tcb x"
    show "prio s' x = q"
    proof (cases "q = unat p")
      case True
      then show ?thesis using a pr [of x] by (simp add: tD f)
    next
      case False
      then have b: "OSTCBPrioTbl s q = Tcb x" using a by (simp add: tD f f1)
      then have "x \<noteq> i" using kinv_slot [OF d(3) b] c(7) by auto
      then show ?thesis using b d(12) pr [of x] by (simp add: slots_def)
    qed
  qed
  moreover have "OSTickStepState s' = OSTickStepState s" unfolding tD(11) s2 by (simp add: f1)
  moreover have "OSIntNesting s' = OSIntNesting s" by (simp add: tD f f1)
  ultimately show ?thesis using ginv_rest [OF g c(2) st _ tp(2) tm] by blast
qed

lemma ginv_create:
  assumes g: "ginv s" and p: "unat p < 64"
  shows "kept s (snd (OSTaskCreate fpu ret task arg ptos p s))" "kept s (snd (OSTaskCreateExt fpu ret task arg ptos p tid pbos n x opt s))"
proof -
  note n = ginvD(14) [OF g]
  have "kept s (snd (OSTaskCreate fpu ret task arg ptos p s)) \<and> kept s (snd (OSTaskCreateExt fpu ret task arg ptos p tid pbos n x opt s))"
  proof (cases "OSTCBPrioTbl s (unat p) = NoTcb")
    case True
    show ?thesis unfolding create_tails [OF n True] using ginv_create_tail [OF g True p prod.collapse [symmetric]] by blast
  qed (use kept_refl [OF g] n in \<open>simp add: OSTaskCreate_def OSTaskCreateExt_def\<close>)
  then show "kept s (snd (OSTaskCreate fpu ret task arg ptos p s))" "kept s (snd (OSTaskCreateExt fpu ret task arg ptos p tid pbos n x opt s))" by blast+
qed

lemma flag_part_rest:
  assumes "flag_part s s'"
  shows "qpart s' = qpart s" "tmr_part s' = tmr_part s" "OSTCBFreeList s' = OSTCBFreeList s" "OSTickStepState s' = OSTickStepState s"
  using assms by (auto simp: flag_part_def qpart_def is_q_def tmr_part_def fun_eq_iff)

lemma del_unlink_parts:
  "tmr_part (del_unlink p i s) = tmr_part s" "qpart (del_unlink p i s) = qpart s" "OSTickStepState (del_unlink p i s) = OSTickStepState s"
  "OSIntNesting (del_unlink p i s) = OSIntNesting s" "tflags (del_unlink p i s) = tflags s" "OSTCBPrio (tcb (del_unlink p i s) j) = OSTCBPrio (tcb s j)"
  "OSRunning (del_unlink p i s) = OSRunning s"
proof -
  show "tflags (del_unlink p i s) = tflags s"
    by (rule tflags_cong) (auto simp: del_unlink_def Let_def tcb_unlink_def set_slot_def upd_tcb_def split: option.split)
qed (auto simp: del_unlink_def Let_def tcb_unlink_def tmr_part_def qpart_def is_q_def set_slot_def upd_tcb_def fun_eq_iff split: option.split)

lemma del_quiet_parts: "tmr_part (del_quiet i s) = tmr_part s" "qpart (del_quiet i s) = qpart s" "OSTickStepState (del_quiet i s) = OSTickStepState s"
proof -
  have l: "tmr_part (del_lists i s) = tmr_part s" "qpart (del_lists i s) = qpart s" "OSTickStepState (del_lists i s) = OSTickStepState s" for s
    by (auto simp: del_lists_def tmr_part_def qpart_def is_q_def rdy_clear_def set_rdy_def OS_EventTaskRemove_def upd_ev_def upd_tcb_def ev_clear_def
        set_ev_bm_def fun_eq_iff split: option.split)
  have u: "tmr_part (upd_tcb i f s) = tmr_part s" "OSTickStepState (upd_tcb i f s) = OSTickStepState s" for f s by (simp_all add: upd_tcb_def tmr_part_def)
  note f = flag_part_rest [OF unlink_part]
  show "tmr_part (del_quiet i s) = tmr_part s" "qpart (del_quiet i s) = qpart s" "OSTickStepState (del_quiet i s) = OSTickStepState s"
    by (simp_all add: del_quiet_eq u l f split: option.split)
qed

lemma ginv_del:
  assumes g: "ginv s" and p: "p \<noteq> OS_TASK_IDLE_PRIO" and lk: "OSLockNesting s < 255" and sl: "OSTCBPrioTbl s (unat (self_prio p s)) = Tcb i"
    and idle: "prio s i \<noteq> 63" and self: "i = cur s \<Longrightarrow> OSLockNesting s = 0"
  shows "kept s (snd (OSTaskDel p s))"
proof -
  note d = ginvD [OF g]
  let ?s = "snd (OSTaskDel p s)" and ?q = "del_quiet i s" and ?d = "del_unlink (self_prio p s) i (del_quiet i s)"
  note k = task_del_ok [OF d(16,14) p lk sl slots_one [OF d(12)] idle self prod.collapse [symmetric]]
  have li: "live s i" using kinv_slot [OF d(3) sl] .
  have fn: "j = i \<and> OSFlagNodeTCB (node s i) = i" if "OSTCBFlagNode (tcb s i) = Some j" for j
    using flags_okD(1) [OF d(10) li] that by (simp add: fnode_ok_def)
  note t = del_quiet_fields(1) [OF kinv_wf [OF d(3) li] fn]
  note f = del_unlink_parts [of "self_prio p s" i ?q] and q = del_quiet_parts [of i s]
  have s': "?s = OS_Sched ?d" using OSTaskDel_eq [OF d(14) p sl lk] d(5) f(7) by (simp add: sched_if_running_def cur_ok_def)
  have pr: "OSTCBPrio (tcb ?s j) = OSTCBPrio (tcb s j)" for j using tpartD(6) [OF parts_sched(1) [of ?d]] by (simp add: s' f(6) t)
  have tf: "tflags ?s" using d(11) unfolding s' tflags_same(1) f(5) by (auto simp: tflags_def t tflag_none)
  have "slots ?s" using d(12) k(4) by (auto simp: slots_def pr split: if_splits)
  moreover have "qpart ?s = qpart s" by (simp add: s' f q)
  moreover have "tmr_part ?s = tmr_part s" by (simp add: s' f q)
  moreover have "OSTickStepState ?s = OSTickStepState s" "OSIntNesting ?s = OSIntNesting s"
    using tpartD(11,12) [OF parts_sched(1) [of ?d]] by (simp_all add: s' f q)
  ultimately show ?thesis using ginv_rest [OF g k(2) tf] by blast
qed

lemma tflag_suspend:
  assumes "tflag t"
  shows "tflag (t\<lparr>OSTCBStat := OSTCBStat t OR OS_STAT_SUSPEND\<rparr>)" "tflag (t\<lparr>OSTCBStat := OSTCBStat t AND NOT OS_STAT_SUSPEND\<rparr>)"
proof -
  have a: "(x OR 8) AND 0x20 = x AND (0x20::u8)" "(x AND NOT 8) AND 0x20 = x AND (0x20::u8)" "(x OR 8) AND NOT 0x28 = x AND (NOT 0x28 :: u8)" for x :: u8
    by (simp_all add: bit.conj_disj_distrib2 and.assoc)
  show "tflag (t\<lparr>OSTCBStat := OSTCBStat t OR OS_STAT_SUSPEND\<rparr>)" using assms a by (simp add: tflag_def split: option.splits)
  show "tflag (t\<lparr>OSTCBStat := OSTCBStat t AND NOT OS_STAT_SUSPEND\<rparr>)"
    using assms a(2) and_zero_mono [of "OSTCBStat t" "NOT 0x28" "NOT 8"] by (simp add: tflag_def split: option.splits)
qed

lemma ginv_suspend:
  assumes g: "ginv s" and sl: "OSTCBPrioTbl s (unat (self_prio p s)) = Tcb i" and idle: "prio s i \<noteq> 63"
  shows "kept s (snd (OSTaskSuspend p s))"
proof -
  note d = ginvD [OF g]
  note k = task_suspend_ok [OF d(16) sl slots_one [OF d(12)] idle prod.collapse [symmetric]]
  have "tflag (tcb (rdy_clear (tcb s i) s) i)" using tflagsD [OF d(11), of i] by simp
  then have st: "tflags (upd_tcb i (\<lambda>t. t\<lparr>OSTCBStat := OSTCBStat t OR OS_STAT_SUSPEND\<rparr>) (rdy_clear (tcb s i) s))"
    using d(11) by (intro tflags_upd tflag_suspend) simp_all
  show ?thesis
    by (rule ginv_keep_q [OF g]) (use k(2) st sl in \<open>simp_all add: OSTaskSuspend_def Let_def\<close>)
qed

lemma ginv_resume:
  assumes g: "ginv s" and idle: "p \<noteq> OS_TASK_IDLE_PRIO"
  shows "kept s (snd (OSTaskResume p s))"
proof (cases "\<exists>i. OSTCBPrioTbl s (unat p) = Tcb i \<and> OSTCBStat (tcb s i) AND OS_STAT_SUSPEND \<noteq> 0")
  case True
  then obtain i where i: "OSTCBPrioTbl s (unat p) = Tcb i" "OSTCBStat (tcb s i) AND OS_STAT_SUSPEND \<noteq> 0" by blast
  note d = ginvD [OF g]
  have "prio s i = unat p" using d(12) i(1) by (simp add: slots_def)
  then have "prio s i \<noteq> 63" using idle by (auto simp: word_unat_eq_iff)
  note k = resume_ok [OF d(16) kinv_slot [OF d(3) i(1)] this i]
  have st: "tflags (upd_tcb i (\<lambda>t. t\<lparr>OSTCBStat := OSTCBStat t AND NOT OS_STAT_SUSPEND\<rparr>) s)"
    using d(11) tflagsD [OF d(11)] by (intro tflags_upd tflag_suspend)
  show ?thesis
    by (rule ginv_keep_q [OF g]) (use k(2) st i in \<open>simp_all add: OSTaskResume_def Let_def sched_if_running_def\<close>)
qed (use kept_refl [OF g] in \<open>auto simp: OSTaskResume_def split: tcb_slot.split\<close>)

text \<open>\<open>OSTaskChangePrio\<close> of a task whose event pointer, if it has one, is that of a wait list it is on.\<close>

lemma ginv_change_prio:
  assumes g: "ginv s" and sl: "OSTCBPrioTbl s (unat (self_prio p s)) = Tcb i" and idle: "prio s i \<noteq> 63" and q: "unat q < 64"
    and w: "\<And>e. OSTCBEventPtr (tcb s i) = Some e \<Longrightarrow> prio s i \<in> wset s e" and self: "i = cur s \<Longrightarrow> OSLockNesting s = 0"
  shows "kept s (snd (OSTaskChangePrio p q s))"
proof (cases "OSTCBPrioTbl s (unat q) = NoTcb")
  case False
  then show ?thesis using kept_refl [OF g] by (simp add: OSTaskChangePrio_def)
next
  case True
  note d = ginvD [OF g]
  let ?s = "snd (OSTaskChangePrio p q s)" and ?d = "reprio_state q i s"
  note one = slots_one [OF d(12), of i]
  note k = change_prio_ok [OF d(16) sl one idle True q w d(14) self prod.collapse [symmetric]]
  have s': "?s = OS_Sched ?d"
  proof -
    have sp: "self_prio p s = OSTCBPrio (tcb s i)" using one_slotD [OF one sl] by (simp add: word_unat_eq_iff)
    have "OSRunning ?d" using d(5) by (simp add: cur_ok_def)
    then show ?thesis using True sl unfolding OSTaskChangePrio_def reprio_state_def Let_def sp by (simp add: sched_if_running_def)
  qed
  have r: "tmr_part ?d = tmr_part s" "qpart ?d = qpart s" "OSTickStepState ?d = OSTickStepState s"
    by (auto simp: reprio_state_def Let_def tmr_part_def qpart_def is_q_def set_slot_def rdy_clear_def rdy_set_def set_rdy_def upd_ev_def upd_tcb_def
        ev_clear_def ev_set_def set_ev_bm_def fun_eq_iff split: option.split)
  have pr: "OSTCBPrio (tcb ?s j) = (if j = i then q else OSTCBPrio (tcb s j))" for j
    using tpartD(6) [OF parts_sched(1) [of ?d]] by (simp add: s' prio_fields_def Let_def)
  have "tflags ?d = tflags s" by (rule tflags_cong) (simp add: prio_fields_def Let_def)
  then have tf: "tflags ?s" using d(11) by (simp add: s')
  have "slots ?s" using d(12) True k(4) unfolding slots_def pr by (auto split: if_splits)
  moreover have "OSTickStepState ?s = OSTickStepState s" "OSIntNesting ?s = OSIntNesting s"
    using tpartD(11,12) [OF parts_sched(1) [of ?d]] by (simp_all add: s' r)
  ultimately show ?thesis using ginv_rest [OF g k(2) tf] r by (simp add: s')
qed

lemma dly_resume_safe: "ksafe s \<Longrightarrow> ksafe (snd (OSTimeDlyResume p s))"
proof (cases "p < 63 \<and> (\<exists>i. OSTCBPrioTbl s (unat p) = Tcb i \<and> OSTCBDly (tcb s i) \<noteq> 0)")
  case True
  assume ok: "ksafe s"
  then have inv: "kinv s" by (simp add: kok_def)
  obtain i where p: "p < 63" and i: "OSTCBPrioTbl s (unat p) = Tcb i" "OSTCBDly (tcb s i) \<noteq> 0" using True by blast
  let ?s1 = "dly_expire i (upd_tcb i (\<lambda>t. t\<lparr>OSTCBDly := 0\<rparr>) s)"
  note safe = dly_expire_safe [OF ok kinv_slot [OF inv i(1)] i(2)]
  have st: "OSTCBStat (tcb ?s1 i) AND 8 = OSTCBStat (tcb s i) AND 8" by (simp add: upd_tcb_same and.assoc)
  have "OSTimeDlyResume p s = (OS_ERR_NONE, if OSTCBStat (tcb s i) AND 8 = 0 then OS_Sched ?s1 else ?s1)"
    using p i st by (simp add: OSTimeDlyResume_def Let_def not_le [symmetric] del: dly_expire_frame)
  then show ?thesis using safe kok_OS_Sched [OF safe(1)] by simp
qed (auto simp: OSTimeDlyResume_def split: tcb_slot.split)

section \<open>The event flags\<close>

text \<open>The part of the state that the services on flag groups leave alone.\<close>

definition fpart :: "os \<Rightarrow> _" where
  "fpart s = ((OSTCBPrioTbl s, OSTCBList s, OSTCBFreeList s), (\<lambda>i. (OSTCBNext (tcb s i), OSTCBPrev (tcb s i), OSTCBPrio (tcb s i))),
     qpart s, tmr_part s, OSTickStepState s, OSIntNesting s)"

lemma fpart_same [simp]:
  "fpart (OS_Sched s) = fpart s" "fpart (upd_grp g f s) = fpart s" "fpart (s\<lparr>OSFlagFreeList := l\<rparr>) = fpart s" "fpart (grp_put g s) = fpart s"
  "fpart (upd_tcb i (\<lambda>t. t\<lparr>OSTCBFlagsRdy := r\<rparr>) s) = fpart s" "fpart (upd_tcb i (\<lambda>t. t\<lparr>OSTCBStatPend := x\<rparr>) s) = fpart s"
  "fpart (upd_tcb i (\<lambda>t. t\<lparr>OSTCBStat := x\<rparr>) s) = fpart s"
proof -
  show "fpart (OS_Sched s) = fpart s"
    using tpartD [OF parts_sched(1) [of s]] by (simp add: fpart_def)
qed (simp_all add: fpart_def qpart_def is_q_def tmr_part_def upd_grp_def grp_put_def upd_tcb_def fun_eq_iff)

lemma fpart_flag:
  assumes "flag_part s s'" "\<And>j. OSTCBNext (tcb s' j) = OSTCBNext (tcb s j) \<and> OSTCBPrev (tcb s' j) = OSTCBPrev (tcb s j) \<and> OSTCBPrio (tcb s' j) = OSTCBPrio (tcb s j)"
  shows "fpart s' = fpart s"
  using flag_part_rest [OF assms(1)] flag_part_frame [OF assms(1)] assms(2) by (simp add: fpart_def)

lemma fpart_unlink [simp]: "fpart (OS_FlagUnlink j s) = fpart s"
  by (rule fpart_flag [OF unlink_part]) (simp add: unlink_tcb [OF refl])

lemma woke_parts:
  assumes "woke D F s s'" "tflags s"
  shows "fpart s' = fpart s" "tflags s'"
proof -
  note w = wokeD [OF assms(1)]
  show "fpart s' = fpart s" by (rule fpart_flag [OF w(3)]) (simp add: w(4))
  show "tflags s'" using tflagsD [OF assms(2)] by (simp add: tflags_def w(4) tflag_none and.assoc)
qed

lemma ginv_fpart:
  assumes g: "ginv s" and s': "fsafe s'" "tflags s'" "fpart s' = fpart s"
  shows "kept s s'"
proof -
  have e: "OSTCBPrioTbl s' = OSTCBPrioTbl s" "OSTCBList s' = OSTCBList s" "OSTCBFreeList s' = OSTCBFreeList s" "qpart s' = qpart s"
    "tmr_part s' = tmr_part s" "OSTickStepState s' = OSTickStepState s" "OSIntNesting s' = OSIntNesting s"
    "OSTCBNext (tcb s' i) = OSTCBNext (tcb s i)" "OSTCBPrev (tcb s' i) = OSTCBPrev (tcb s i)" "OSTCBPrio (tcb s' i) = OSTCBPrio (tcb s i)" for i
    using s'(3) by (simp_all add: fpart_def fun_eq_iff)
  have "tasks_ok s'" using tasks_frame [of s s'] ginvD(7) [OF g] e by auto
  moreover have "slots s'" using ginvD(12) [OF g] e by (simp add: slots_def)
  ultimately show ?thesis using ginv_rest [OF g _ s'(2) _ e(4-7)] s'(1) by blast
qed

lemma ginv_flag_create:
  assumes g: "ginv s"
  shows "kept s (snd (snd (OSFlagCreate f s)))" "kept s (snd (snd (OSFlagAccept k f wt s)))"
proof -
  note d = ginvD [OF g]
  have "tflags (snd (snd (OSFlagCreate f s)))" "fpart (snd (snd (OSFlagCreate f s))) = fpart s"
    using d(11) by (auto simp: OSFlagCreate_def Let_def split: option.split)
  then show "kept s (snd (snd (OSFlagCreate f s)))" using ginv_fpart [OF g fsafe_create [OF d(15)]] by blast
  have "tflags (snd (snd (OSFlagAccept k f wt s)))" "fpart (snd (snd (OSFlagAccept k f wt s))) = fpart s"
    using d(11) by (auto simp: OSFlagAccept_def consume_grp_def Let_def split: option.split)
  then show "kept s (snd (snd (OSFlagAccept k f wt s)))" using ginv_fpart [OF g fsafe_accept [OF d(15)]] by blast
qed

lemma ginv_flag_post:
  assumes g: "ginv s" and r: "OSFlagPost k f opt s = Some (fl, err, s')"
  shows "kept s s'"
proof (cases "OSFlagType (grp s k) = OS_EVENT_TYPE_FLAG \<and> (opt = OS_FLAG_CLR \<or> opt = OS_FLAG_SET)")
  case True
  note d = ginvD [OF g]
  let ?s1 = "upd_grp k (\<lambda>v. v\<lparr>OSFlagFlags := (if opt = OS_FLAG_CLR then OSFlagFlags v AND NOT f else OSFlagFlags v OR f)\<rparr>) s"
  show ?thesis
  proof (rule post_spec [OF d(15) conjunct1 [OF True] conjunct2 [OF True], of f])
    fix s2 t
    assume w: "woke {j. flag_waits s k j \<and> fl_sat ?s1 k j} (fl_got ?s1 k) ?s1 s2"
      and p: "OSFlagPost k f opt s = Some (OSFlagFlags (grp ?s1 k), OS_ERR_NONE, t)" and t: "t = s2 \<or> t = OS_Sched s2" and ok: "fsafe t"
    have "fpart s2 = fpart s" "tflags s2" using woke_parts [OF w] d(11) by simp_all
    then have "kept s t" using ginv_fpart [OF g ok] t by auto
    then show ?thesis using p r by simp
  qed
next
  case False
  then show ?thesis using r kept_refl [OF g] by (auto simp: OSFlagPost_def split: if_splits)
qed

lemma ginv_flag_del:
  assumes g: "ginv s" and k: "k < OS_MAX_FLAGS" and r: "OSFlagDel k opt s = Some (h, err, s')"
  shows "kept s s'"
proof -
  note d = ginvD [OF g]
  have ok: "fsafe s'" using fsafe_del [OF d(15) k, of opt] r by auto
  show ?thesis
  proof (cases "opt = OS_DEL_ALWAYS \<and> OSFlagType (grp s k) = OS_EVENT_TYPE_FLAG")
    case True
    show ?thesis
    proof (rule del_spec [OF d(15) conjunct2 [OF True] k d(14)])
      fix s1 t
      assume w: "woke {j. flag_waits s k j} (\<lambda>_. 0) s s1" and p: "OSFlagDel k OS_DEL_ALWAYS s = Some (None, OS_ERR_NONE, t)"
        and t: "t = grp_put k s1 \<or> t = OS_Sched (grp_put k s1)"
      have "s' = t" using p r True by simp
      then show ?thesis using ginv_fpart [OF g ok] t woke_parts [OF w d(11)] by auto
    qed
  next
    case False
    then have "s' = s \<or> s' = grp_put k s" using r by (auto simp: OSFlagDel_def Let_def split: if_splits)
    then show ?thesis using ginv_fpart [OF g ok] d(11) by auto
  qed
qed

lemma ginv_flag_pend:
  assumes g: "ginv s" and fr: "flag_free s" and ep: "OSTCBEventPtr (tcb s (cur s)) = None" and idle: "OSPrioCur s \<noteq> OS_TASK_IDLE_PRIO"
  shows "kept s (snd (OSFlagPend k f wt tmo s))"
proof -
  note d = ginvD [OF g]
  let ?s = "snd (OSFlagPend k f wt tmo s)" and ?wt = "wt AND NOT OS_FLAG_CONSUME"
  note ok = fsafe_pend [OF d(15) fr idle, of k f wt tmo]
  have u: "tflags (upd_tcb (cur s) (\<lambda>t. t\<lparr>OSTCBFlagsRdy := r\<rparr>) x) = tflags x" for r x by (rule tflags_cong) (simp add: upd_tcb_def)
  have c: "tflags (consume_grp k w r s)" "fpart (consume_grp k w r s) = fpart s" for w r using d(11) by (simp_all add: consume_grp_def)
  show ?thesis
  proof (cases "\<exists>r. flags_match ?wt (OSFlagFlags (grp s k)) f = Some (r, False) \<and> OSFlagType (grp s k) = OS_EVENT_TYPE_FLAG \<and> OSLockNesting s = 0")
    case True
    then obtain r where r: "flags_match ?wt (OSFlagFlags (grp s k)) f = Some (r, False)" and ty: "OSFlagType (grp s k) = OS_EVENT_TYPE_FLAG"
      and lk: "OSLockNesting s = 0" by blast
    let ?b = "OS_FlagBlock k (cur s) f ?wt tmo s"
    have s': "?s = OS_Sched ?b" using r ty lk d(14) by (simp add: OSFlagPend_def Let_def)
    have st: "OSTCBStat (tcb s (cur s)) = 0" by (rule flag_block(5) [OF d(15) fr idle ty match_type [OF r]])
    have "fpart ?b = fpart s" by (rule fpart_flag [OF block_part]) (simp add: block_fields fl_blocked_def)
    moreover have "tflags ?b" using d(11) st ep by (simp add: tflags_def block_fields) (simp add: tflag_def fl_blocked_def)
    ultimately show ?thesis using ginv_fpart [OF g ok] by (simp add: s')
  next
    case False
    then have "?s = s \<or> (\<exists>r x. ?s = upd_tcb (cur s) (\<lambda>t. t\<lparr>OSTCBFlagsRdy := r\<rparr>) x \<and> (x = s \<or> x = consume_grp k ?wt r s))"
      by (auto simp: OSFlagPend_def Let_def word_gt_0 split: option.split)
    then have "tflags ?s \<and> fpart ?s = fpart s" using c d(11) by (auto simp: u)
    then show ?thesis using ginv_fpart [OF g ok] by blast
  qed
qed

lemma ginv_flag_return:
  assumes g: "ginv s" and lk: "OSLockNesting s = 0" and pd: "flag_pending s (cur s)"
  shows "kept s (snd (snd (OSFlagPend_return k wt s)))"
proof -
  note d = ginvD [OF g]
  let ?s = "snd (snd (OSFlagPend_return k wt s))" and ?c = "cur s"
  note ok = flag_return(1) [OF d(15,14) lk pd, of k wt]
  have "tflags ?s \<and> fpart ?s = fpart s"
  proof (cases "OSTCBStatPend (tcb s ?c) = OS_STAT_PEND_OK")
    case True
    then have "?s = s \<or> (\<exists>f. ?s = consume_grp k (wt AND NOT OS_FLAG_CONSUME) f s)" by (auto simp: OSFlagPend_return_def Let_def)
    then show ?thesis using d(11) by (auto simp: consume_grp_def)
  next
    case False
    let ?p = "upd_tcb ?c (\<lambda>t. t\<lparr>OSTCBStatPend := OS_STAT_PEND_OK\<rparr>) s"
    have nd: "OSTCBFlagNode (tcb s ?c) = Some ?c" using pd False by (simp add: flag_pending_def)
    have "OSFlagNodeTCB (node s ?c) = ?c" using flags_okD(1) [OF d(10) cur_ok_live(1) [OF d(5)]] nd by (simp add: fnode_ok_def)
    then have t: "OSTCBTbl (OS_FlagUnlink ?c ?p) = (OSTCBTbl ?p)(?c := (tcb ?p ?c)\<lparr>OSTCBFlagNode := None\<rparr>)" by (intro unlink_tcb) (simp add: upd_tcb_def)
    have "?s = upd_tcb ?c (\<lambda>t. t\<lparr>OSTCBStat := OS_STAT_RDY\<rparr>) (OS_FlagUnlink ?c ?p)" using False by (simp add: OSFlagPend_return_def Let_def)
    moreover have "tflags (upd_tcb ?c (\<lambda>t. t\<lparr>OSTCBStat := OS_STAT_RDY\<rparr>) (OS_FlagUnlink ?c ?p))"
      using tflagsD [OF d(11)] by (simp add: tflags_def upd_tcb_def t [unfolded upd_tcb_def] tflag_none)
    ultimately show ?thesis by simp
  qed
  then show ?thesis using ginv_fpart [OF g ok] by blast
qed

section \<open>The state machine\<close>

text \<open>
  Services that neither block nor belong to the timers: what a callback of a timer may call too. The memory handed to
  \<open>OSQCreate\<close> is not that of another queue. Deletion and suspension spare the idle task, and a task that deletes itself has
  not locked the scheduler.
\<close>

inductive kcall :: "os \<Rightarrow> os \<Rightarrow> bool" where
  sem_create: "kcall s (snd (OSSemCreate c s))"
| sem_post: "kcall s (snd (OSSemPost e s))"
| sem_accept: "kcall s (snd (OSSemAccept e s))"
| sem_set: "kcall s (snd (OSSemSet e c s))"
| sem_del: "e < OS_MAX_EVENTS \<Longrightarrow> OSSemDel e opt s = Some (h, err, s') \<Longrightarrow> kcall s s'"
| sem_abort: "OSSemPendAbort e opt s = Some (n, err, s') \<Longrightarrow> kcall s s'"
| mbox_create: "kcall s (snd (OSMboxCreate m s))"
| mbox_post: "kcall s (snd (OSMboxPost e m s))"
| mbox_accept: "kcall s (snd (OSMboxAccept e s))"
| mbox_post_opt: "opt AND OS_POST_OPT_NO_SCHED = 0 \<Longrightarrow> OSMboxPostOpt e m opt s = Some (err, s') \<Longrightarrow> kcall s s'"
| mbox_del: "e < OS_MAX_EVENTS \<Longrightarrow> OSMboxDel e opt s = Some (h, err, s') \<Longrightarrow> kcall s s'"
| mbox_abort: "OSMboxPendAbort e opt s = Some (n, err, s') \<Longrightarrow> kcall s s'"
| q_create: "(\<forall>x. is_q s x \<longrightarrow> {a..<a + 4 * unat k} \<inter> q_span (OSQTbl s (ev_q s x)) = {}) \<Longrightarrow> kcall s (snd (OSQCreate a k s))"
| q_post: "kcall s (snd (OSQPost e m s))"
| q_post_front: "kcall s (snd (OSQPostFront e m s))"
| q_accept: "kcall s (snd (snd (OSQAccept e s)))"
| q_post_opt: "opt AND OS_POST_OPT_NO_SCHED = 0 \<Longrightarrow> OSQPostOpt e m opt s = Some (err, s') \<Longrightarrow> kcall s s'"
| q_flush: "is_q s e \<Longrightarrow> kcall s (snd (OSQFlush e s))"
| q_del: "e < OS_MAX_EVENTS \<Longrightarrow> OSQDel e opt s = Some (h, err, s') \<Longrightarrow> kcall s s'"
| q_abort: "OSQPendAbort e opt s = Some (n, err, s') \<Longrightarrow> kcall s s'"
| flag_create: "kcall s (snd (snd (OSFlagCreate f s)))"
| flag_accept: "kcall s (snd (snd (OSFlagAccept g f wt s)))"
| flag_post: "OSFlagPost g f opt s = Some (fl, err, s') \<Longrightarrow> kcall s s'"
| flag_del: "g < OS_MAX_FLAGS \<Longrightarrow> OSFlagDel g opt s = Some (h, err, s') \<Longrightarrow> kcall s s'"
| dly_resume: "kcall s (snd (OSTimeDlyResume p s))"
| time_set: "kcall s (OSTimeSet n s)"
| lock: "kcall s (OSSchedLock s)"
| unlock: "kcall s (OSSchedUnlock s)"
| task_create: "unat p < 64 \<Longrightarrow> kcall s (snd (OSTaskCreate fpu ret task arg ptos p s))"
| task_create_ext: "unat p < 64 \<Longrightarrow> kcall s (snd (OSTaskCreateExt fpu ret task arg ptos p tid pbos k x opt s))"
| task_del: "p \<noteq> OS_TASK_IDLE_PRIO \<Longrightarrow> OSTCBPrioTbl s (unat (self_prio p s)) = Tcb i \<Longrightarrow> prio s i \<noteq> 63 \<Longrightarrow>
    OSLockNesting s < 255 \<Longrightarrow> i = cur s \<longrightarrow> OSLockNesting s = 0 \<Longrightarrow> kcall s (snd (OSTaskDel p s))"
| task_suspend: "OSTCBPrioTbl s (unat (self_prio p s)) = Tcb i \<Longrightarrow> prio s i \<noteq> 63 \<Longrightarrow> kcall s (snd (OSTaskSuspend p s))"
| task_resume: "p \<noteq> OS_TASK_IDLE_PRIO \<Longrightarrow> kcall s (snd (OSTaskResume p s))"
| change_prio: "OSTCBPrioTbl s (unat (self_prio p s)) = Tcb i \<Longrightarrow> prio s i \<noteq> 63 \<Longrightarrow> unat q < 64 \<Longrightarrow>
    \<forall>e. OSTCBEventPtr (tcb s i) = Some e \<longrightarrow> prio s i \<in> wset s e \<Longrightarrow> i = cur s \<longrightarrow> OSLockNesting s = 0 \<Longrightarrow>
    kcall s (snd (OSTaskChangePrio p q s))"

text \<open>The callbacks of the timers: each call does a sequence of such services.\<close>

definition calls :: "unit callback \<Rightarrow> bool" where
  "calls cb \<longleftrightarrow> (\<forall>f i a s. kcall\<^sup>*\<^sup>* s (fst (cb f i a (s, ()))))"

text \<open>
  The running task calls a service only when it is not inside a wait; a task that gets the processor back inside one
  continues with the return of the pend. The idle task neither waits nor delays itself. The clock interrupt
  comes at any time. A turn of the timer task, which runs with the scheduler locked, is one step, its callbacks included.
\<close>

definition at_call :: "os \<Rightarrow> bool" where
  "at_call s \<longleftrightarrow> OSTCBEventPtr (tcb s (cur s)) = None \<and> OSTCBFlagNode (tcb s (cur s)) = None"

abbreviation may_wait :: "os \<Rightarrow> bool" where
  "may_wait s \<equiv> at_call s \<and> OSPrioCur s \<noteq> OS_TASK_IDLE_PRIO"

inductive kstep :: "os \<Rightarrow> os \<Rightarrow> bool" where
  service: "at_call s \<Longrightarrow> kcall s s' \<Longrightarrow> kstep s s'"
| sem_pend: "may_wait s \<Longrightarrow> kstep s (snd (OSSemPend e tmo s))"
| mbox_pend: "may_wait s \<Longrightarrow> kstep s (snd (OSMboxPend e tmo s))"
| q_pend: "may_wait s \<Longrightarrow> kstep s (snd (OSQPend e tmo s))"
| flag_pend: "may_wait s \<Longrightarrow> kstep s (snd (OSFlagPend g f wt tmo s))"
| sem_return: "OSTCBEventPtr (tcb s (cur s)) = Some e \<Longrightarrow> OSLockNesting s = 0 \<Longrightarrow> kstep s (snd (OSSemPend_return e s))"
| mbox_return: "OSTCBEventPtr (tcb s (cur s)) = Some e \<Longrightarrow> OSLockNesting s = 0 \<Longrightarrow> kstep s (snd (snd (OSMboxPend_return e s)))"
| q_return: "OSTCBEventPtr (tcb s (cur s)) = Some e \<Longrightarrow> OSLockNesting s = 0 \<Longrightarrow> kstep s (snd (snd (OSQPend_return e s)))"
| flag_return: "flag_pending s (cur s) \<Longrightarrow> OSLockNesting s = 0 \<Longrightarrow> kstep s (snd (snd (OSFlagPend_return g wt s)))"
| tick: "SysTick_Handler s = Some s' \<Longrightarrow> kstep s s'"
| dly: "may_wait s \<Longrightarrow> kstep s (OSTimeDly d s)"
| dly_hmsm: "may_wait s \<Longrightarrow> kstep s (snd (OSTimeDlyHMSM hours minutes seconds ms s))"
| tmr_create: "at_call s \<Longrightarrow> kstep s (snd (snd (OSTmrCreate dl period opt callback a nm s)))"
| tmr_start: "at_call s \<Longrightarrow> i < OS_TMR_CFG_MAX \<Longrightarrow> kstep s (snd (snd (OSTmrStart i s)))"
| tmr_stop: "at_call s \<Longrightarrow> i < OS_TMR_CFG_MAX \<Longrightarrow> calls cb \<Longrightarrow> kstep s (fst (snd (snd (OSTmrStop cb i opt a (s, ())))))"
| tmr_del: "at_call s \<Longrightarrow> i < OS_TMR_CFG_MAX \<Longrightarrow> kstep s (snd (snd (OSTmrDel i s)))"
| tmr_task: "at_call s \<Longrightarrow> calls cb \<Longrightarrow> OSTmr_Task cb (s, ()) = Some (s', u) \<Longrightarrow> kstep s s'"

inductive_cases kstepE: "kstep s s'"

text \<open>The states the kernel can be in: after the boot, and then after any sequence of steps.\<close>

inductive reach :: "os \<Rightarrow> bool" where
  boot: "list_all (\<lambda>(_, _, _, p). unat p < 64) ts \<Longrightarrow> OSTickStepState s = OS_TICK_STEP_DIS \<Longrightarrow> reach (OSStart (fold (boot_task im) ts (OSInit im s)))"
| step: "reach s \<Longrightarrow> kstep s s' \<Longrightarrow> reach s'"

lemma boot_ginv:
  assumes ts: "list_all (\<lambda>(_, _, _, p). unat p < 64) ts" and tk: "OSTickStepState s = OS_TICK_STEP_DIS"
  shows "ginv (OSStart (fold (boot_task im) ts (OSInit im s)))"
proof -
  note i = OSInit_ok(1-12) [of im s]
  note t = boot_tasks_ok [OF i(1) ts, of im]
  have b: "boot_ok (fold (boot_task im) ts (OSInit im s))" using t by blast
  let ?s = "OSStart (fold (boot_task im) ts (OSInit im s))"
  note st = boot_start [OF b]
  have p: "tmr_part ?s = tmr_part (OSInit im s)" using st(4) t by simp
  have "tmr_inv ?s" using tmr_inv_part [OF p] i(2) by simp
  moreover have "tflags ?s" "slots ?s" using st(15) st(1) by (simp_all add: plain_def tflags_def tflag_none slots_def)
  ultimately show ?thesis unfolding ginv_def using st t i tk by simp
qed

lemma ginv_call:
  assumes "ginv s" "at_call s"
  shows "\<forall>x. prio s (cur s) \<notin> wset s x"
  using assms kinv_waits_on [OF ginvD(3) [OF assms(1)] cur_ok_live(1) [OF ginvD(5) [OF assms(1)]]] by (auto simp: at_call_def)

lemma dly_safe:
  assumes g: "ginv s" and w: "may_wait s"
  shows "ksafe (OSTimeDly d s)"
proof (cases "OSLockNesting s = 0 \<and> 0 < d")
  case True
  then have "task_level s" using ginv_call [OF g] w ginvD(14) [OF g] by (simp add: task_level_def)
  then show ?thesis using OSTimeDly_delayed(1) [OF ginvD(1) [OF g]] True w by simp
qed (use ginvD(1) [OF g] in \<open>auto simp: OSTimeDly_def word_gt_0\<close>)

lemma resume_safe:
  assumes g: "ginv s" and e: "OSTCBEventPtr (tcb s (cur s)) = Some e" "OSLockNesting s = 0"
  shows "ksafe (snd (pend_finish e s))" "ksafe (snd (snd (pend_finish_msg e s)))"
  using resume(1,2) [OF ginvD(2,6,14) [OF g] e(2,1)] resume_msg [OF ginvD(1,14) [OF g] e(2,1)] by blast+

section \<open>Every step keeps the invariant\<close>

lemma call_event: "at_call s \<Longrightarrow> OSTCBEventPtr (tcb s (cur s)) = None"
  by (simp add: at_call_def)

lemma call_node: "at_call s \<Longrightarrow> OSTCBFlagNode (tcb s (cur s)) = None"
  by (simp add: at_call_def)

lemma ginv_sem:
  assumes g: "ginv s"
  shows "kept s (snd (OSSemCreate c s))" "kept s (snd (OSSemPost e s))" "kept s (snd (OSSemAccept e s))" "kept s (snd (OSSemSet e c s))"
    "may_wait s \<Longrightarrow> kept s (snd (OSSemPend e tmo s))"
    "e < OS_MAX_EVENTS \<Longrightarrow> OSSemDel e opt s = Some (h, err, s') \<Longrightarrow> kept s s'" "OSSemPendAbort e opt s = Some (n, err, s') \<Longrightarrow> kept s s'"
proof -
  note k = ginvD(1) [OF g] and st = tflags_sem [OF ginvD(3,11) [OF g]] and keep = ginv_keep_q [OF g]
  show "kept s (snd (OSSemCreate c s))" by (rule keep [OF sem_create_safe [OF k] parts_sem_create [OF ginvD(4) [OF g]] st(7)])
  show "kept s (snd (OSSemPost e s))" by (rule keep [OF sem_post_safe [OF k] parts_sem(1,2) st(1)])
  show "kept s (snd (OSSemAccept e s))" by (rule keep [OF sem_accept_safe [OF k] parts_sem(3,4) st(2)])
  show "kept s (snd (OSSemSet e c s))" by (rule keep [OF sem_set_safe [OF k] parts_sem(5,6) st(3)])
  show "kept s (snd (OSSemPend e tmo s))" if w: "may_wait s"
    by (rule keep [OF sem_pend_safe [OF k ginv_call [OF g conjunct1 [OF w]] conjunct2 [OF w]] parts_sem(7,8) st(4) [OF call_node [OF conjunct1 [OF w]]]])
  show "kept s s'" if e: "e < OS_MAX_EVENTS" and r: "OSSemDel e opt s = Some (h, err, s')"
  proof -
    have "ksafe s'" using sem_del_safe [OF k e, of opt] r by simp
    then show ?thesis by (rule keep [OF _ parts_sem(9,10) [OF r] st(5) [OF r]])
  qed
  show "kept s s'" if r: "OSSemPendAbort e opt s = Some (n, err, s')"
  proof -
    have "ksafe s'" using sem_abort_safe [OF k, of e opt] r by simp
    then show ?thesis by (rule keep [OF _ parts_sem(11,12) [OF r] st(6) [OF r]])
  qed
qed

lemma ginv_mbox:
  assumes g: "ginv s"
  shows "kept s (snd (OSMboxCreate m s))" "kept s (snd (OSMboxPost e m s))" "kept s (snd (OSMboxAccept e s))" "may_wait s \<Longrightarrow> kept s (snd (OSMboxPend e tmo s))"
    "opt AND OS_POST_OPT_NO_SCHED = 0 \<Longrightarrow> OSMboxPostOpt e m opt s = Some (err, s') \<Longrightarrow> kept s s'"
    "e < OS_MAX_EVENTS \<Longrightarrow> OSMboxDel e opt s = Some (h, err, s') \<Longrightarrow> kept s s'" "OSMboxPendAbort e opt s = Some (n, err, s') \<Longrightarrow> kept s s'"
proof -
  note k = ginvD(1) [OF g] and st = tflags_mbox [OF ginvD(3,11) [OF g]] and keep = ginv_keep_q [OF g]
  show "kept s (snd (OSMboxCreate m s))" by (rule keep [OF mbox_create_safe [OF k] parts_mbox_create [OF ginvD(4) [OF g]] st(7)])
  show "kept s (snd (OSMboxPost e m s))" by (rule keep [OF mbox_post_safe [OF k] parts_mbox(1,2) st(1)])
  show "kept s (snd (OSMboxAccept e s))" by (rule keep [OF mbox_accept_safe [OF k] parts_mbox(3,4) st(2)])
  show "kept s (snd (OSMboxPend e tmo s))" if w: "may_wait s"
    by (rule keep [OF mbox_pend_safe [OF k ginv_call [OF g conjunct1 [OF w]] conjunct2 [OF w]] parts_mbox(5,6) st(4) [OF call_node [OF conjunct1 [OF w]]]])
  show "kept s s'" if o: "opt AND OS_POST_OPT_NO_SCHED = 0" and r: "OSMboxPostOpt e m opt s = Some (err, s')"
  proof -
    have "ksafe s'" using mbox_postopt_ends [OF ginvD(2) [OF g], of e m opt] ginvD(6) [OF g] o r by simp
    then show ?thesis by (rule keep [OF _ parts_mbox(7,8) [OF r] st(3) [OF r]])
  qed
  show "kept s s'" if e: "e < OS_MAX_EVENTS" and r: "OSMboxDel e opt s = Some (h, err, s')"
  proof -
    have "ksafe s'" using mbox_del_safe [OF k e, of opt] r by simp
    then show ?thesis by (rule keep [OF _ parts_mbox(9,10) [OF r] st(5) [OF r]])
  qed
  show "kept s s'" if r: "OSMboxPendAbort e opt s = Some (n, err, s')"
  proof -
    have "ksafe s'" using mbox_abort_safe [OF k, of e opt] r by simp
    then show ?thesis by (rule keep [OF _ parts_mbox(11,12) [OF r] st(6) [OF r]])
  qed
qed

lemma q_flush_safe:
  assumes ok: "qsafe s" and e: "is_q s e"
  shows "qsafe (snd (OSQFlush e s))"
proof -
  let ?s = "snd (OSQFlush e s)" and ?f = "\<lambda>pq. pq\<lparr>OSQIn := OSQStart pq, OSQOut := OSQStart pq, OSQEntries := 0\<rparr>"
  have "same_kernel s ?s" by (simp add: OSQFlush_def same_kernel_def upd_q_def)
  then have "ksafe ?s" using same_kernel_ksafe ok by blast
  moreover have "qs_ok ?s"
  proof -
    have i: "is_q ?s x = is_q s x" "ev_q ?s x = ev_q s x" "OSEventPtr (ev ?s x) = OSEventPtr (ev s x)" for x
      by (simp_all add: OSQFlush_def is_q_def ev_q_def upd_q_def)
    have t: "OSQTbl ?s n = (if n = ev_q s e then ?f (OSQTbl s n) else OSQTbl s n)" for n by (simp add: OSQFlush_def upd_q_def)
    have h: "OSHeap ?s = OSHeap s" "OSQFreeList ?s = OSQFreeList s" by (simp_all add: OSQFlush_def upd_q_def)
    have p: "OSQPtr (OSQTbl ?s n) = OSQPtr (OSQTbl s n)" "q_span (OSQTbl ?s n) = q_span (OSQTbl s n)" for n by (simp_all add: t q_span_def)
    have r: "ring_ok (ring_of ?s n)" if "ring_ok (ring_of s n)" for n
      using that by (auto simp: ring_of_def ring_ok_def t h Let_def)
    obtain fl where fl: "chain (\<lambda>q. OSQPtr (OSQTbl s q)) (OSQFreeList s) fl" "set fl = {q. q < OS_MAX_QS \<and> (\<forall>e. is_q s e \<longrightarrow> ev_q s e \<noteq> q)}"
      using ok by (auto simp: qs_ok_def)
    have q: "qs_ok s" using ok by simp
    show ?thesis
    proof (rule qs_okI [where fl = fl])
      show "is_q ?s x \<Longrightarrow> OSEventPtr (ev ?s x) = PQ (ev_q ?s x) \<and> ev_q ?s x < OS_MAX_QS \<and> ring_ok (ring_of ?s (ev_q ?s x))" for x
        using qs_okD [OF q, of x] r unfolding i by blast
      show "is_q ?s x \<Longrightarrow> is_q ?s y \<Longrightarrow> x \<noteq> y \<Longrightarrow> ev_q ?s x \<noteq> ev_q ?s y \<and> q_span (OSQTbl ?s (ev_q ?s x)) \<inter> q_span (OSQTbl ?s (ev_q ?s y)) = {}" for x y
        using qs_disjoint [OF q, of x y] unfolding i p by blast
    qed (use fl in \<open>simp_all add: p i h\<close>)
  qed
  ultimately show ?thesis by simp
qed

lemma ginv_queue:
  assumes g: "ginv s"
  shows "kept s (snd (OSQPost e m s))" "kept s (snd (OSQPostFront e m s))" "kept s (snd (snd (OSQAccept e s)))" "may_wait s \<Longrightarrow> kept s (snd (OSQPend e tmo s))"
    "(\<forall>x. is_q s x \<longrightarrow> {a..<a + 4 * unat k} \<inter> q_span (OSQTbl s (ev_q s x)) = {}) \<Longrightarrow> kept s (snd (OSQCreate a k s))"
    "opt AND OS_POST_OPT_NO_SCHED = 0 \<Longrightarrow> OSQPostOpt e m opt s = Some (err, s') \<Longrightarrow> kept s s'"
    "e < OS_MAX_EVENTS \<Longrightarrow> OSQDel e opt s = Some (h, err, s') \<Longrightarrow> kept s s'" "OSQPendAbort e opt s = Some (n, err, s') \<Longrightarrow> kept s s'"
    "is_q s e \<Longrightarrow> kept s (snd (OSQFlush e s))"
proof -
  note q = ginvD(17) [OF g] and st = tflags_queue [OF ginvD(3,11) [OF g]]
  have keep: "qsafe t \<Longrightarrow> tpart t = tpart s \<Longrightarrow> tflags t \<Longrightarrow> kept s t" for t using ginv_keep [OF g] by blast
  show "kept s (snd (OSQPost e m s))" by (rule keep [OF q_post_safe [OF q] tpart_queue(1) st(1)])
  show "kept s (snd (OSQPostFront e m s))" by (rule keep [OF q_postfront_safe [OF q] tpart_queue(2) st(2)])
  show "kept s (snd (snd (OSQAccept e s)))" by (rule keep [OF q_accept_safe [OF q] tpart_queue(3) st(3)])
  show "kept s (snd (OSQPend e tmo s))" if w: "may_wait s"
    by (rule keep [OF q_pend_safe [OF q ginv_call [OF g conjunct1 [OF w]] conjunct2 [OF w]] tpart_queue(4) st(4) [OF call_node [OF conjunct1 [OF w]]]])
  show "kept s (snd (OSQCreate a k s))" if sp: "\<forall>x. is_q s x \<longrightarrow> {a..<a + 4 * unat k} \<inter> q_span (OSQTbl s (ev_q s x)) = {}"
    by (rule keep [OF q_create_safe [OF q sp [rule_format]] tpart_queue(8) st(8)])
  show "kept s s'" if o: "opt AND OS_POST_OPT_NO_SCHED = 0" and r: "OSQPostOpt e m opt s = Some (err, s')"
  proof -
    have "qsafe s'" using q_postopt_ends [OF q, of e m opt] o r by simp
    then show ?thesis by (rule keep [OF _ tpart_queue(5) [OF r] st(5) [OF r]])
  qed
  show "kept s s'" if e: "e < OS_MAX_EVENTS" and r: "OSQDel e opt s = Some (h, err, s')"
  proof -
    have "qsafe s'" using q_del_safe [OF q e, of opt] r by simp
    then show ?thesis by (rule keep [OF _ tpart_queue(6) [OF r] st(6) [OF r]])
  qed
  show "kept s s'" if r: "OSQPendAbort e opt s = Some (n, err, s')"
  proof -
    have "qsafe s'" using q_abort_safe [OF q, of e opt] r by simp
    then show ?thesis by (rule keep [OF _ tpart_queue(7) [OF r] st(7) [OF r]])
  qed
  have "tpart (snd (OSQFlush e s)) = tpart s" by (simp add: OSQFlush_def)
  then show "kept s (snd (OSQFlush e s))" if e: "is_q s e" by (rule keep [OF q_flush_safe [OF q e] _ st(9)])
qed

lemma ginv_return:
  assumes g: "ginv s" and e: "OSTCBEventPtr (tcb s (cur s)) = Some e" "OSLockNesting s = 0"
  shows "ginv (snd (OSSemPend_return e s))" "ginv (snd (snd (OSMboxPend_return e s)))" "ginv (snd (snd (OSQPend_return e s)))"
proof -
  note k = resume_safe [OF g e] and st = tflags_finish [OF e(1) ginvD(11) [OF g]]
  show "ginv (snd (OSSemPend_return e s))" unfolding OSSemPend_return_def by (rule keptD [OF ginv_keep_q [OF g k(1) parts_finish(1,2) st(1)]])
  have m: "ginv (snd (snd (pend_finish_msg e s)))" by (rule keptD [OF ginv_keep_q [OF g k(2) parts_finish(3,4) st(2)]])
  show "ginv (snd (snd (OSMboxPend_return e s)))" unfolding OSMboxPend_return_def by (rule m)
  show "ginv (snd (snd (OSQPend_return e s)))" unfolding OSQPend_return_def by (rule m)
qed

lemma ginv_tick:
  assumes g: "ginv s" and r: "SysTick_Handler s = Some s'"
  shows "ginv s'"
proof -
  have n: "OSIntNesting s < 255" using ginvD(14) [OF g] by simp
  have t: "ksafe s'" "OSIntNesting s' = OSIntNesting s" using SysTick_ends [OF ginvD(1,19,13) [OF g] n] r by auto
  show ?thesis by (rule keptD [OF ginv_keep_q [OF g t(1) parts_SysTick [OF r ginvD(13) [OF g] t(2)] tflags_SysTick [OF ginvD(3,11) [OF g] r]]])
qed

lemma ginv_time:
  assumes g: "ginv s"
  shows "may_wait s \<Longrightarrow> ginv (OSTimeDly d s)" "may_wait s \<Longrightarrow> ginv (snd (OSTimeDlyHMSM hours minutes seconds ms s))"
    "kept s (snd (OSTimeDlyResume p s))" "kept s (OSSchedLock s)" "kept s (OSSchedUnlock s)" "kept s (OSTimeSet n s)"
proof -
  note k = ginvD(1) [OF g] and st = ginvD(11) [OF g] and keep = ginv_keep_q [OF g]
  have d: "ginv (OSTimeDly d s)" if "may_wait s" for d
    by (rule keptD [OF keep [OF dly_safe [OF g that] parts_time(1,2) tflags_time(1) [OF st call_node [OF conjunct1 [OF that]]]]])
  then show "may_wait s \<Longrightarrow> ginv (OSTimeDly d s)" .
  show "may_wait s \<Longrightarrow> ginv (snd (OSTimeDlyHMSM hours minutes seconds ms s))" using d g by (simp add: OSTimeDlyHMSM_def)
  show "kept s (snd (OSTimeDlyResume p s))" by (rule keep [OF dly_resume_safe [OF k] parts_time(3,4) tflags_time(2) [OF st]])
  show "kept s (OSSchedLock s)" by (rule keep [OF sched_lock_safe(1) [OF k] parts_sched(3,4)]) (simp add: st)
  show "kept s (OSSchedUnlock s)" by (rule keep [OF sched_lock_safe(2) [OF k] parts_sched(5,6)]) (simp add: st)
  have "same_kernel s (OSTimeSet n s)" by (simp add: same_kernel_def OSTimeSet_def)
  then have "ksafe (OSTimeSet n s)" using same_kernel_ksafe k by blast
  then show "kept s (OSTimeSet n s)" by (rule keep) (simp_all add: OSTimeSet_def st)
qed

lemma kcall_kept:
  assumes "kcall s s'" "ginv s"
  shows "kept s s'"
  using assms
proof (induction rule: kcall.induct)
  case (q_create s a k)
  then show ?case by (blast intro: ginv_queue(5))
next
  case (task_del p s i)
  then show ?case using ginv_del [of s p i] by simp
next
  case (change_prio s p i q)
  then show ?case using ginv_change_prio [of s p i q] by simp
qed (blast intro: ginv_sem ginv_mbox ginv_queue ginv_time ginv_create ginv_suspend ginv_resume ginv_flag_create ginv_flag_post ginv_flag_del)+

lemma calls_kept: "kcall\<^sup>*\<^sup>* s s' \<Longrightarrow> ginv s \<Longrightarrow> kept s s'"
proof (induction rule: rtranclp_induct)
  case (step s1 s2)
  then have "kept s s1" by blast
  then show ?case using kcall_kept [OF step.hyps(2)] by (simp add: kept_def)
qed (rule kept_refl)

section \<open>The timers and their callbacks\<close>

lemma ginv_timers:
  assumes g: "ginv s"
  shows "ginv (snd (snd (OSTmrCreate dl period opt callback a nm s)))" "i < OS_TMR_CFG_MAX \<Longrightarrow> ginv (snd (snd (OSTmrStart i s)))"
    "i < OS_TMR_CFG_MAX \<Longrightarrow> ginv (snd (snd (OSTmrDel i s)))"
proof -
  note w = ginvD(18) [OF g] and st = tflags_timers [OF ginvD(11) [OF g]] and keep = ginv_tmr [OF g]
  show "ginv (snd (snd (OSTmrCreate dl period opt callback a nm s)))" by (rule keep [OF create_safe [OF w] parts_tmr(1,2) st(1)])
  show "i < OS_TMR_CFG_MAX \<Longrightarrow> ginv (snd (snd (OSTmrStart i s)))" by (rule keep [OF start_safe [OF w] parts_tmr(5,6) st(3)])
  show "i < OS_TMR_CFG_MAX \<Longrightarrow> ginv (snd (snd (OSTmrDel i s)))" by (rule keep [OF del_safe [OF w] parts_tmr(3,4) st(2)])
qed

lemma calls_cb: "calls cb \<Longrightarrow> ginv s \<Longrightarrow> kept s (fst (cb f i a (s, ())))"
  using calls_kept by (simp add: calls_def)

lemma ginv_unlink:
  assumes g: "ginv s" and i: "i < OS_TMR_CFG_MAX" "OSTmrState (tmr s i) = OS_TMR_STATE_RUNNING"
  shows "ginv (OSTmr_Unlink i s)" "ginv (tmr_fire i s)"
proof -
  note w = ginvD(18) [OF g]
  show "ginv (OSTmr_Unlink i s)" by (rule ginv_tmr [OF g wsafe_unlink(1) [OF w i]]) (simp_all add: ginvD(11) [OF g])
  show "ginv (tmr_fire i s)" by (rule ginv_tmr [OF g fire_spec(1) [OF w i]]) (simp_all add: tmr_fire_def Let_def ginvD(11) [OF g])
qed

lemma ginv_stop:
  assumes g: "ginv s" and i: "i < OS_TMR_CFG_MAX" and cb: "calls cb"
  shows "ginv (fst (snd (snd (OSTmrStop cb i opt a (s, ())))))"
proof -
  let ?u = "OSTmr_Unlink i (OSSchedLock s)"
  have l: "ginv (OSSchedLock s)" and un: "\<And>t. ginv t \<Longrightarrow> ginv (OSSchedUnlock t)" using keptD [OF ginv_time(4) [OF g]] keptD [OF ginv_time(5)] by blast+
  have u: "ginv ?u" if "OSTmrState (tmr s i) = OS_TMR_STATE_RUNNING" using ginv_unlink(1) [OF l i] that by simp
  have c: "ginv (OSSchedUnlock (fst (cb f i x (?u, ()))))" if "OSTmrState (tmr s i) = OS_TMR_STATE_RUNNING" for f x
    using un keptD [OF calls_cb [OF cb u [OF that]]] by blast
  show ?thesis using g l u c un by (simp add: OSTmrStop_def Let_def case_prod_beta prod.case_eq_if split: option.split)
qed

text \<open>The timer task. A callback that is only called where the invariant holds leaves the timers alone, so the loop over the
  spoke ends and each visit keeps the invariant.\<close>

definition guarded :: "unit callback \<Rightarrow> unit callback" where
  "guarded cb = (\<lambda>f i a x. if ginv (fst x) then cb f i a x else x)"

lemma guarded_ok: "calls cb \<Longrightarrow> cb_ok (guarded cb)"
  using calls_cb [of cb] by (auto simp: cb_ok_def guarded_def kept_def ginvD(1))

lemma visit_ginv:
  assumes g: "ginv s" and cb: "calls cb" and i: "i < OS_TMR_CFG_MAX" "OSTmrState (tmr s i) = OS_TMR_STATE_RUNNING"
  shows "tmr_visit cb i (s, ()) = tmr_visit (guarded cb) i (s, ())" "ginv (fst (tmr_visit cb i (s, ())))"
  using g ginv_unlink(2) [OF g i] keptD [OF calls_cb [OF cb ginv_unlink(2) [OF g i]]]
  by (simp_all add: tmr_visit_def guarded_def Let_def split: option.split)

lemma tmr_loop_ginv:
  assumes cb: "calls cb" and "ginv s" "chain (OsTmr.nxt s) p ys" "\<And>j. j \<in> set ys \<Longrightarrow> j < OS_TMR_CFG_MAX \<and> OSTmrState (tmr s j) = OS_TMR_STATE_RUNNING"
  shows "\<exists>s'. tmr_loop cb p (s, ()) = Some (s', ()) \<and> ginv s'"
  using assms(2-4)
proof (induction ys arbitrary: p s)
  case Nil
  then show ?case by (simp add: tmr_loop.simps)
next
  case (Cons i ys)
  have p: "p = Some i" and tl: "chain (OsTmr.nxt s) (OsTmr.nxt s i) ys" and d: "i \<notin> set ys"
    using Cons.prems(2) chain_distinct [OF Cons.prems(2)] by auto
  have i: "i < OS_TMR_CFG_MAX" "OSTmrState (tmr s i) = OS_TMR_STATE_RUNNING" using Cons.prems(3) by auto
  obtain s1 where v: "tmr_visit cb i (s, ()) = (s1, ())" by (cases "tmr_visit cb i (s, ())") simp
  note vg = visit_ginv [OF Cons.prems(1) cb i, unfolded v fst_conv]
  note vs = visit_spec [OF ginvD(18) [OF Cons.prems(1)] i guarded_ok [OF cb], where w = "()", folded vg(1), unfolded fst_conv]
  have nx: "OsTmr.nxt s1 j = OsTmr.nxt s j" if "j \<in> set ys" for j using vs(4) chain_next [OF Cons.prems(2) that] that d by metis
  have c1: "chain (OsTmr.nxt s1) (OsTmr.nxt s i) ys" using tl chain_cong [of ys "OsTmr.nxt s1" "OsTmr.nxt s"] nx by simp
  have "j < OS_TMR_CFG_MAX \<and> OSTmrState (tmr s1 j) = OS_TMR_STATE_RUNNING" if "j \<in> set ys" for j
  proof -
    have "core (tmr s1 j) = core (tmr s j)" using vs(3) [of j] that d by auto
    then have "OSTmrState (tmr s1 j) = OSTmrState (tmr s j)" by (rule core_eqD(1))
    then show ?thesis using Cons.prems(3) [of j] that by simp
  qed
  then obtain s' where s': "tmr_loop cb (OsTmr.nxt s i) (s1, ()) = Some (s', ())" "ginv s'" using Cons.IH [OF vg(2) c1] by blast
  have "tmr_loop cb p (s, ()) = tmr_loop cb (OsTmr.nxt s i) (s1, ())" by (subst tmr_loop.simps) (simp add: p v OsTmr.nxt_def)
  then show ?case using s' by metis
qed

lemma ginv_tmr_task:
  assumes g: "ginv s" and cb: "calls cb"
  shows "\<exists>s'. OSTmr_Task cb (s, ()) = Some (s', ()) \<and> ginv s'"
proof -
  define now where "now = OSTmrTime s + 1"
  let ?u = "(OSSchedLock s)\<lparr>OSTmrTime := now\<rparr>"
  have l: "ginv (OSSchedLock s)" by (rule keptD [OF ginv_time(4) [OF g]])
  have "wsafe ?u" using ginvD(18) [OF l] ksafe_tmr(7) tmr_inv_time by blast
  then have u: "ginv ?u" by (rule ginv_tmr [OF l]) (simp_all add: ginvD(11) [OF g])
  obtain ys where ys: "spoke_ok ?u (spoke_of now) ys" using ginvD(9) [OF u] spoke_of_less unfolding tmr_inv_def by blast
  have c: "chain (OsTmr.nxt ?u) (OSTmrFirst (OSTmrWheelTbl ?u (spoke_of now))) ys" and r: "set ys = running ?u (spoke_of now)"
    using ys dchain_chain unfolding spoke_ok_def by blast+
  obtain s' where "tmr_loop cb (OSTmrFirst (OSTmrWheelTbl ?u (spoke_of now))) (?u, ()) = Some (s', ())" "ginv s'"
    using tmr_loop_ginv [OF cb u c] r by (auto simp: running_def)
  then show ?thesis using keptD [OF ginv_time(5)] by (auto simp: OSTmr_Task_def now_def)
qed

lemma kstep_ginv:
  assumes "kstep s s'" "ginv s"
  shows "ginv s'"
  using assms
proof (induction rule: kstep.induct)
  case (service s s')
  then show ?case using kcall_kept keptD by blast
next
  case (flag_pend s g f wt tmo)
  note d = ginvD [OF flag_pend.prems]
  show ?case
  proof (cases "OSLockNesting s = 0")
    case True
    then have "flag_free s" using ginv_call [OF flag_pend.prems] flag_pend.hyps d(14) by (simp add: flag_free_def task_level_def at_call_def)
    then have "kept s (snd (OSFlagPend g f wt tmo s))"
      using ginv_flag_pend [OF flag_pend.prems _ call_event [OF conjunct1 [OF flag_pend.hyps]] conjunct2 [OF flag_pend.hyps]] by blast
    then show ?thesis by (rule keptD)
  next
    case False
    then show ?thesis using flag_pend.prems d(14) by (simp add: OSFlagPend_def word_gt_0)
  qed
next
  case (tmr_task s cb s' u)
  then show ?case using ginv_tmr_task [of s cb] by auto
qed (blast intro: ginv_return ginv_tick ginv_time ginv_timers ginv_stop keptD ginv_sem(5) ginv_mbox(4) ginv_queue(4) ginv_flag_return)+

lemma reach_ginv: "reach s \<Longrightarrow> ginv s"
  by (induction rule: reach.induct) (auto intro: boot_ginv kstep_ginv)

lemma stat_split: "x AND k = (0::u8) \<Longrightarrow> x AND NOT k = x"
  using bit.conj_disj_distrib [of x k "NOT k"] by simp

section \<open>Properties\<close>

text \<open>C1. In every state the kernel can reach from its boot by the steps of this theory, in any order, the lists and tables of tasks, events, flag groups,
  queues and timers are well formed, no task stands in the wait lists of an event and of a flag group at once, the task that runs
  exists, and it is the most urgent ready one whenever the scheduler is not locked. The steps are the clock interrupt and, called by the running
  task, the services on semaphores, mailboxes, message
  queues and event flags, with the returns from their waits; the delays and the scheduler lock; the creation, deletion, suspension and
  resumption of tasks, and \<open>OSTaskChangePrio\<close> where the event pointer of the task, if any, is that of a wait list it is on; and the timers,
  with the turns of the timer task, whose callbacks do any sequence of those services that neither block nor belong to the timers. The calls keep to what the services ask for:
  control blocks are in their tables and \<open>OSQFlush\<close> gets a queue, the storage given to \<open>OSQCreate\<close> is not that of another
  queue, priorities are below 64, the idle task does not wait and is not deleted, suspended or moved, a task that deletes itself or changes its own
  priority has not locked the scheduler, and a deletion finds it locked less than 255 times. Not among the steps are the
  mutexes, whose services can break these invariants (the findings on os_mutex.c), \<open>OSTaskChangePrio\<close> of a task with an event pointer left
  over from a wait that has ended, which breaks them too (\<open>change_prio_stale_event\<close>), posts with the option not to schedule, the memory
  partitions, and what only reads or names objects.\<close>

theorem kernel_reachable_safe:
  assumes "reach s"
  shows "tsafe s \<and> qs_ok s \<and> tmr_inv s \<and> (\<forall>j. OSTCBFlagNode (tcb s j) = None \<or> OSTCBEventPtr (tcb s j) = None) \<and>
    live s (cur s) \<and> (OSLockNesting s = 0 \<longrightarrow> unat (OSPrioCur s) = Min (rdyset s))"
proof -
  note g = reach_ginv [OF assms]
  have "OSTCBFlagNode (tcb s j) = None \<or> OSTCBEventPtr (tcb s j) = None" for j
    using tflagsD [OF ginvD(11) [OF g], of j] by (auto simp: tflag_def split: option.splits)
  then show ?thesis using ginvD(16,8,9) [OF g] cur_ok_live(1) [OF ginvD(5) [OF g]] ginvD(6,14) [OF g] by (simp add: sched_ok_def)
qed

text \<open>After the boot without user tasks the timer task, the most urgent of the system tasks, runs. It creates a flag group and waits on it.\<close>

abbreviation boot0 :: os where
  "boot0 \<equiv> OSStart (OSInit img0 os_bss)"

abbreviation flag_waiting :: os where
  "flag_waiting \<equiv> snd (OSFlagPend 0 1 OS_FLAG_WAIT_SET_ALL 0 (snd (snd (OSFlagCreate 0 boot0))))"

lemma boot0_reach: "reach boot0"
  using reach.boot [of "[]" os_bss img0] by (simp add: os_bss_def)

lemma boot0_facts: "OSPrioCur boot0 = 3" "at_call boot0" "OSIntNesting boot0 = 0" "OSLockNesting boot0 = 0" "plain boot0"
  "OSEventType (ev boot0 1) = OS_EVENT_TYPE_SEM" "OSEventCnt (ev boot0 1) = 0"
proof -
  note i = OSInit_ok [where im = img0 and s = os_bss]
  note b = boot_start [OF i(1)]
  show "OSPrioCur boot0 = 3" using b(5) by (simp add: i(3) word_unat_eq_iff)
  show "OSIntNesting boot0 = 0" "OSLockNesting boot0 = 0" "plain boot0" by (rule b)+
  then show "at_call boot0" by (simp add: at_call_def plain_def)
  show "OSEventType (ev boot0 1) = OS_EVENT_TYPE_SEM" "OSEventCnt (ev boot0 1) = 0" using b(12) i(9,11) by simp_all
qed

lemma free_flags: "OSFlagFreeList boot0 = Some 0"
proof -
  have t: "OSFlagFreeList (snd (OS_TCBInit p ptos pbos tid n x o' s)) = OSFlagFreeList s" for p ptos pbos tid n x o' s
    by (auto simp: OS_TCBInit_def Let_def upd_tcb_def set_slot_def rdy_set_def set_rdy_def split: option.split)
  have c: "OSFlagFreeList (snd (OSTaskCreateExt fpu ret task arg ptos p tid pbos n x opt s)) = OSFlagFreeList s" for fpu ret task arg ptos p tid pbos n x opt s
    by (simp add: OSTaskCreateExt_def Let_def case_prod_beta t sched_if_running_def)
  have n: "OSFlagFreeList (snd (OSTaskNameSet p nm s)) = OSFlagFreeList s" for p nm s
    by (auto simp: OSTaskNameSet_def upd_tcb_def Let_def split: tcb_slot.split)
  have m: "OSFlagFreeList (snd (OSSemCreate k s)) = OSFlagFreeList s" for k s
    by (auto simp: OSSemCreate_def event_get_def event_init_def upd_ev_def split: option.split)
  have v: "OSFlagFreeList (snd (OSEventNameSet e nm s)) = OSFlagFreeList s" for e nm s
    by (auto simp: OSEventNameSet_def upd_ev_def)
  have st: "OSFlagFreeList (sys_task im i stk p tid nm s) = OSFlagFreeList s" for im i stk p tid nm s
    by (simp add: sys_task_def Let_def case_prod_beta c n)
  have ns: "OSFlagFreeList (name_sem h nm s) = OSFlagFreeList s" for h nm s by (simp add: name_sem_def v split: option.split)
  have ti: "OSFlagFreeList (OSTmr_Init im s) = OSFlagFreeList s" for im s
    by (simp add: OSTmr_Init_def OSTmr_InitTask_def Let_def case_prod_beta st ns m) (simp add: tmr_tables_def Let_def)
  have i: "OSFlagFreeList (OSInit im s) = Some 0" for im s
    by (simp add: OSInit_def Let_def OS_InitTaskStat_def OS_InitTaskIdle_def st ti) (simp add: OS_QInit_def OS_MemInit_def OS_FlagInit_def Let_def)
  have b: "OSFlagFreeList (OSStart s) = OSFlagFreeList s" for s
    by (simp add: OSStart_def OS_SchedNew_def OSPendSV_def upd_tcb_def Let_def)
  show ?thesis by (simp add: b i)
qed

theorem kernel_reachable_safe_witness: "tsafe flag_waiting \<and> tmr_inv flag_waiting \<and> flag_waits flag_waiting 0 (cur boot0)"
proof -
  let ?c = "snd (snd (OSFlagCreate 0 boot0))"
  have e: "?c = upd_grp 0 (\<lambda>v. v\<lparr>OSFlagType := OS_EVENT_TYPE_FLAG, OSFlagFlags := 0, OSFlagWaitList := PNull, OSFlagName := ''?''\<rparr>)
      (boot0\<lparr>OSFlagFreeList := grp_link (OSFlagWaitList (grp boot0 0))\<rparr>)"
    using free_flags boot0_facts(3) by (simp add: OSFlagCreate_def)
  have f: "OSFlagType (grp ?c 0) = OS_EVENT_TYPE_FLAG" "OSFlagFlags (grp ?c 0) = 0" "OSPrioCur ?c = 3" "cur ?c = cur boot0" "OSTCBTbl ?c = OSTCBTbl boot0"
    "OSIntNesting ?c = 0" "OSLockNesting ?c = 0"
    using boot0_facts by (simp_all add: e upd_grp_def cur_def)
  have r: "reach ?c" by (rule reach.step [OF boot0_reach service [OF boot0_facts(2) flag_create]])
  have w: "may_wait ?c" using boot0_facts(2) f by (simp add: at_call_def)
  have rw: "reach flag_waiting" by (rule reach.step [OF r flag_pend [OF w]])
  note g = reach_ginv [OF r]
  have fr: "flag_free ?c" using ginv_call [OF g] w f by (simp add: flag_free_def task_level_def at_call_def)
  have "OSPrioCur ?c \<noteq> OS_TASK_IDLE_PRIO" using f by simp
  note b = flag_block(3) [OF ginvD(15) [OF g] fr this f(1), where wt = OS_FLAG_WAIT_SET_ALL and f = 1 and tmo = 0]
  have "flag_waiting = OS_Sched (OS_FlagBlock 0 (cur ?c) 1 OS_FLAG_WAIT_SET_ALL 0 ?c)" using f by (simp add: OSFlagPend_def Let_def flags_match_def)
  then have "flag_waits flag_waiting 0 (cur boot0)" using b f(4) by (simp add: flag_waits_def live_def)
  then show ?thesis using kernel_reachable_safe [OF rw] by blast
qed

text \<open>C4. In every state the machine of this theory can reach, with callbacks that do any sequence of the services that neither block nor belong to the timers, these return, whatever
  event, flag group and option they are called with: the clock interrupt, which walks the list of the tasks; a turn of the timer task; the
  deletions and aborts of semaphores, mailboxes and queues and the posts to all their waiters; and the posts to flag groups and
  their deletion. These are all loops over tasks and timers of the machine's services. (\<open>OSMutexDel\<close>, which loops over its waiters too, is not among them.)\<close>

theorem kernel_never_hangs:
  assumes "reach s" "e < OS_MAX_EVENTS" "g < OS_MAX_FLAGS" "calls cb"
  shows "SysTick_Handler s \<noteq> None \<and> OSTmr_Task cb (s, ()) \<noteq> None \<and> OSSemDel e opt s \<noteq> None \<and> OSSemPendAbort e opt s \<noteq> None \<and>
    OSMboxDel e opt s \<noteq> None \<and> OSMboxPendAbort e opt s \<noteq> None \<and> OSMboxPostOpt e m opt s \<noteq> None \<and>
    OSQDel e opt s \<noteq> None \<and> OSQPendAbort e opt s \<noteq> None \<and> OSQPostOpt e m opt s \<noteq> None \<and>
    OSFlagPost g fl opt s \<noteq> None \<and> OSFlagDel g opt s \<noteq> None"
proof -
  note g = reach_ginv [OF assms(1)]
  note d = ginvD [OF g]
  have "OSIntNesting s < 255" using d(14) by simp
  then have t: "SysTick_Handler s \<noteq> None" "OSTmr_Task cb (s, ()) \<noteq> None" using SysTick_ends [OF d(1,19,13)] ginv_tmr_task [OF g assms(4)] by auto
  have s: "OSSemDel e opt s \<noteq> None" "OSSemPendAbort e opt s \<noteq> None" using sem_del_safe [OF d(1) assms(2), of opt] sem_abort_safe [OF d(1), of e opt] by auto
  have m: "OSMboxDel e opt s \<noteq> None" "OSMboxPendAbort e opt s \<noteq> None" "OSMboxPostOpt e m opt s \<noteq> None"
    using mbox_del_safe [OF d(1) assms(2), of opt] mbox_abort_safe [OF d(1), of e opt] mbox_postopt_ends [OF d(2), of e m opt] by auto
  have q: "OSQDel e opt s \<noteq> None" "OSQPendAbort e opt s \<noteq> None" "OSQPostOpt e m opt s \<noteq> None"
    using q_del_safe [OF d(17) assms(2), of opt] q_abort_safe [OF d(17), of e opt] q_postopt_ends [OF d(17), of e m opt] by auto
  have f: "OSFlagPost g fl opt s \<noteq> None" "OSFlagDel g opt s \<noteq> None" using fsafe_post [OF d(15), of g fl opt] fsafe_del [OF d(15) assms(3), of opt] by auto
  show ?thesis using t s m q f by blast
qed

text \<open>A callback that signals a semaphore.\<close>

definition post_cb :: "unit callback" where
  "post_cb f i a x = (snd (OSSemPost 2 (fst x)), snd x)"

lemma post_calls: "calls post_cb"
  by (auto simp: calls_def post_cb_def intro: sem_post)

theorem kernel_never_hangs_witness:
  "SysTick_Handler boot0 \<noteq> None \<and> OSSemDel 2 OS_DEL_ALWAYS boot0 \<noteq> None \<and> OSTmr_Task post_cb (boot0, ()) \<noteq> None \<and> OSFlagDel 0 OS_DEL_ALWAYS boot0 \<noteq> None"
  using kernel_never_hangs [OF boot0_reach, of 2 0 post_cb OS_DEL_ALWAYS] post_calls by simp

text \<open>C5. In every state the machine of this theory can reach (mutexes, and priority changes of tasks with a stale event pointer, are not among its
  services), a task that its status says is waiting on an event stands in the wait list of exactly one event, the
  one its control block points to, which is of the kind it waits for, and every member of a wait list is the priority of a live task. The step with which
  every post, deletion and abort wakes a waiter, \<open>OS_EventTaskRdy\<close>, finds the most urgent one of the event, takes it and no other task off
  the list, ends its wait with the status and the message of the call, and makes it ready unless it is suspended.\<close>

theorem waiter_found:
  assumes "reach s" "live s i" "OSTCBStat (tcb s i) AND (OS_STAT_SEM OR OS_STAT_MBOX OR OS_STAT_Q OR OS_STAT_MUTEX) \<noteq> 0"
  shows "\<exists>e. {x. prio s i \<in> wset s x} = {e} \<and> OSTCBEventPtr (tcb s i) = Some e \<and> OSTCBStat (tcb s i) AND stat_mask (OSEventType (ev s e)) \<noteq> 0 \<and>
    (\<forall>x p. p \<in> wset s x \<longrightarrow> (\<exists>j. live s j \<and> prio s j = p)) \<and>
    (\<forall>m ps. \<exists>j. live s j \<and> prio s j = Min (wset s e) \<and>
       (let s' = snd (OS_EventTaskRdy e m (stat_mask (OSEventType (ev s e))) ps s) in
        (\<forall>x. wset s' x = (if x = e then wset s e - {prio s j} else wset s x)) \<and>
        OSTCBStatPend (tcb s' j) = ps \<and> OSTCBMsg (tcb s' j) = m \<and> OSTCBStat (tcb s' j) AND NOT OS_STAT_SUSPEND = 0 \<and>
        (OSTCBStat (tcb s' j) AND OS_STAT_SUSPEND = 0 \<longrightarrow> prio s j \<in> rdyset s')))"
proof -
  note inv = ginvD(3) [OF reach_ginv [OF assms(1)]]
  let ?t = "OSTCBStat (tcb s i)"
  have t: "?t AND 0x17 \<noteq> 0" using assms(3) by simp
  obtain e where e: "prio s i \<in> wset s e" using kinv_task [OF inv assms(2)] t unfolding task_ok_def by blast
  let ?m = "stat_mask (OSEventType (ev s e))"
  have "?t AND ?m \<noteq> 0"
    using stat_after_mask(3) [OF kinv_wait_stat [OF inv assms(2) e]] t by (auto simp: stat_split)
  moreover have g: "OSEventGrp (ev s e) \<noteq> 0" using e grp_zero_iff [OF inv] by auto
  have "\<exists>j. live s j \<and> prio s j = Min (wset s e) \<and>
       (let s' = snd (OS_EventTaskRdy e m ?m ps s) in
        (\<forall>x. wset s' x = (if x = e then wset s e - {prio s j} else wset s x)) \<and>
        OSTCBStatPend (tcb s' j) = ps \<and> OSTCBMsg (tcb s' j) = m \<and> OSTCBStat (tcb s' j) AND NOT OS_STAT_SUSPEND = 0 \<and>
        (OSTCBStat (tcb s' j) AND OS_STAT_SUSPEND = 0 \<longrightarrow> prio s j \<in> rdyset s'))" for m ps
  proof -
    obtain j where j: "live s j" "prio s j = Min (wset s e)" "prio s j \<in> wset s e"
      and w: "OS_EventTaskRdy e m ?m ps s = (OSTCBPrio (tcb s j), wake j e m ?m ps s)" using EventTaskRdy_wake [OF inv g] by metis
    have "(OSTCBStat (tcb s j) AND NOT ?m) AND NOT 8 = 0"
      using kinv_wait_stat [OF inv j(1,3)] by (simp add: and.assoc)
    then show ?thesis using j wset_wake [OF inv j(1), where e = e] rdyset_wake [OF inv j(1), of ?m e m ps]
      by (intro exI [of _ j]) (simp add: w Let_def)
  qed
  ultimately show ?thesis using kinv_waits_on [OF inv assms(2) e] kinv_wait_unique [OF inv assms(2) e] e kinv_wait_live [OF inv] by blast
qed

text \<open>The timer task, the only one besides the system tasks, waits for its semaphore as it does first.\<close>

abbreviation tmr_waits :: os where
  "tmr_waits \<equiv> snd (OSSemPend 1 0 boot0)"

lemma tmr_waits_reach: "reach tmr_waits" "\<exists>i. live tmr_waits i \<and> OSTCBStat (tcb tmr_waits i) = OS_STAT_SEM"
proof -
  note f = boot0_facts and g = ginvD [OF reach_ginv [OF boot0_reach]]
  have w: "may_wait boot0" using f by simp
  show "reach tmr_waits" by (rule reach.step [OF boot0_reach sem_pend [OF w]])
  have q: "OSSemPend 1 0 boot0 = (None, OS_Sched (pend_block OS_STAT_SEM 1 0 boot0))" using f by (simp add: OSSemPend_def)
  have l: "live boot0 (cur boot0)" by (rule cur_ok_live(1) [OF g(5)])
  note tp = tpartD [OF parts_sem(7) [of 1 0 boot0]]
  have "live tmr_waits (cur boot0)" using l unfolding live_def tp .
  moreover have "OSTCBStat (tcb tmr_waits (cur boot0)) = OS_STAT_SEM" using f(5) unfolding q
    by (simp add: pend_block_def plain_def OS_EventTaskWait_def Let_def upd_ev_def upd_tcb_def rdy_clear_def set_rdy_def)
  ultimately show "\<exists>i. live tmr_waits i \<and> OSTCBStat (tcb tmr_waits i) = OS_STAT_SEM" by blast
qed

theorem waiter_found_witness: "\<exists>i e. OSTCBStat (tcb tmr_waits i) = OS_STAT_SEM \<and> {x. prio tmr_waits i \<in> wset tmr_waits x} = {e}"
proof -
  obtain i where i: "live tmr_waits i" "OSTCBStat (tcb tmr_waits i) = OS_STAT_SEM" using tmr_waits_reach(2) by blast
  obtain e where "{x. prio tmr_waits i \<in> wset tmr_waits x} = {e}" using waiter_found [OF tmr_waits_reach(1) i(1)] i(2) by auto
  then show ?thesis using i(2) by blast
qed

end
