(* ===== verification/Malloc.thy ===== *)
theory Malloc
  imports Prelude
begin

text \<open>
  The allocator of the program, demo/MALLOC/malloc.c: three pools of 32-byte blocks, each with a
  table that holds, for every block, the length in blocks of the allocation it belongs to, or 0. The
  tables are arrays of half-words (\<open>memmap\<close>), the pools are part of the byte-addressed
  memory \<open>ram\<close>, and \<open>membase\<close> holds the addresses of the pools, which the linker and the \<open>at\<close>
  attributes choose. The index of a pool is one of 0, 1, 2.
\<close>

section \<open>The state and the operations\<close>

record mallco =
  membase :: "nat \<Rightarrow> u32"
  memmap :: "nat \<Rightarrow> nat \<Rightarrow> u16"
  memrdy :: "nat \<Rightarrow> u8"
  ram :: "u32 \<Rightarrow> u8"

definition memtblsize :: "nat \<Rightarrow> u32" where "memtblsize memx = [3200, 6400, 1920] ! memx"
definition memblksize :: "nat \<Rightarrow> u32" where "memblksize memx = [32, 32, 32] ! memx"
definition memsize :: "nat \<Rightarrow> u32" where "memsize memx = [102400, 204800, 61440] ! memx"

abbreviation (input) "MALLOC_FAIL \<equiv> 0xFFFFFFFF :: u32"

subsection \<open>Copying and setting memory\<close>

fun memcpy_loop :: "u32 \<Rightarrow> u32 \<Rightarrow> nat \<Rightarrow> (u32 \<Rightarrow> u8) \<Rightarrow> (u32 \<Rightarrow> u8)" where
  "memcpy_loop des src 0 m = m"
| "memcpy_loop des src (Suc n) m = memcpy_loop (des + 1) (src + 1) n (m(des := m src))"

definition mymemcpy :: "u32 \<Rightarrow> u32 \<Rightarrow> u32 \<Rightarrow> (u32 \<Rightarrow> u8) \<Rightarrow> (u32 \<Rightarrow> u8)" where
  "mymemcpy des src n = memcpy_loop des src (unat n)"

fun memset_loop :: "u32 \<Rightarrow> u8 \<Rightarrow> nat \<Rightarrow> (u32 \<Rightarrow> u8) \<Rightarrow> (u32 \<Rightarrow> u8)" where
  "memset_loop xs c 0 m = m"
| "memset_loop xs c (Suc n) m = memset_loop (xs + 1) c n (m(xs := c))"

definition mymemset :: "u32 \<Rightarrow> u8 \<Rightarrow> u32 \<Rightarrow> (u32 \<Rightarrow> u8) \<Rightarrow> (u32 \<Rightarrow> u8)" where
  "mymemset s c count = memset_loop s c (unat count)"

subsection \<open>The table of a pool\<close>

text \<open>\<open>map_fill m index v n\<close>: the loop that writes \<open>v\<close> to \<open>n\<close> entries from \<open>index\<close> on.\<close>

fun map_fill :: "(nat \<Rightarrow> u16) \<Rightarrow> nat \<Rightarrow> u16 \<Rightarrow> nat \<Rightarrow> (nat \<Rightarrow> u16)" where
  "map_fill m index v 0 = m"
| "map_fill m index v (Suc n) = map_fill (m(index := v)) (index + 1) v n"

definition set_map :: "nat \<Rightarrow> (nat \<Rightarrow> u16) \<Rightarrow> mallco \<Rightarrow> mallco" where
  "set_map memx m d = d\<lparr>memmap := (memmap d)(memx := m)\<rparr>"

definition mymem_init :: "nat \<Rightarrow> mallco \<Rightarrow> mallco" where
  "mymem_init memx d =
    (let d1 = set_map memx (map_fill (memmap d memx) 0 0 (unat (memtblsize memx))) d;
         d2 = d1\<lparr>ram := mymemset (membase d1 memx) 0 (memsize memx) (ram d1)\<rparr>
     in d2\<lparr>memrdy := (memrdy d2)(memx := 1)\<rparr>)"

fun used_loop :: "(nat \<Rightarrow> u16) \<Rightarrow> nat \<Rightarrow> nat \<Rightarrow> u32 \<Rightarrow> u32" where
  "used_loop m i 0 used = used"
| "used_loop m i (Suc n) used = used_loop m (i + 1) n (if m i \<noteq> 0 then used + 1 else used)"

definition mem_perused :: "nat \<Rightarrow> mallco \<Rightarrow> u8" where
  "mem_perused memx d = ucast (used_loop (memmap d memx) 0 (unat (memtblsize memx)) 0 * 100 div memtblsize memx)"

text \<open>
  The search of \<open>mymem_malloc\<close> from the end of the table for \<open>nmemb\<close> free blocks in a row; the last
  argument is \<open>offset + 1\<close>, \<open>cmemb\<close> the number of free blocks just above.
\<close>

fun malloc_scan :: "(nat \<Rightarrow> u16) \<Rightarrow> u16 \<Rightarrow> u16 \<Rightarrow> nat \<Rightarrow> nat option" where
  "malloc_scan m nmemb cmemb 0 = None"
| "malloc_scan m nmemb cmemb (Suc offset) =
    (let cmemb' = (if m offset = 0 then cmemb + 1 else 0)
     in if cmemb' = nmemb then Some offset else malloc_scan m nmemb cmemb' offset)"

definition nmemb_of :: "nat \<Rightarrow> u32 \<Rightarrow> u16" where
  "nmemb_of memx sz =
    (let nmemb = ucast (sz div memblksize memx) in if sz mod memblksize memx \<noteq> 0 then nmemb + 1 else nmemb)"

definition mymem_malloc :: "nat \<Rightarrow> u32 \<Rightarrow> mallco \<Rightarrow> u32 \<times> mallco" where
  "mymem_malloc memx sz d =
    (let d1 = (if memrdy d memx = 0 then mymem_init memx d else d) in
     if sz = 0 then (MALLOC_FAIL, d1)
     else
       let nmemb = nmemb_of memx sz in
       case malloc_scan (memmap d1 memx) nmemb 0 (unat (memtblsize memx)) of
         None \<Rightarrow> (MALLOC_FAIL, d1)
       | Some offset \<Rightarrow>
           (of_nat offset * memblksize memx,
            set_map memx (map_fill (memmap d1 memx) offset nmemb (unat nmemb)) d1))"

definition mymem_free :: "nat \<Rightarrow> u32 \<Rightarrow> mallco \<Rightarrow> u8 \<times> mallco" where
  "mymem_free memx offset d =
    (if memrdy d memx = 0 then (1, mymem_init memx d)
     else if offset < memsize memx then
       let index = unat (offset div memblksize memx);
           nmemb = memmap d memx index
       in (0, set_map memx (map_fill (memmap d memx) index 0 (unat nmemb)) d)
     else (2, d))"

subsection \<open>The functions the program calls\<close>

definition myfree :: "nat \<Rightarrow> u32 \<Rightarrow> mallco \<Rightarrow> mallco" where
  "myfree memx ptr d = (if ptr = 0 then d else snd (mymem_free memx (ptr - membase d memx) d))"

definition mymalloc :: "nat \<Rightarrow> u32 \<Rightarrow> mallco \<Rightarrow> u32 \<times> mallco" where
  "mymalloc memx sz d =
    (let (offset, d1) = mymem_malloc memx sz d
     in if offset = MALLOC_FAIL then (0, d1) else (membase d1 memx + offset, d1))"

definition myrealloc :: "nat \<Rightarrow> u32 \<Rightarrow> u32 \<Rightarrow> mallco \<Rightarrow> u32 \<times> mallco" where
  "myrealloc memx ptr sz d =
    (let (offset, d1) = mymem_malloc memx sz d
     in if offset = MALLOC_FAIL then (0, d1)
        else let d2 = d1\<lparr>ram := mymemcpy (membase d1 memx + offset) ptr sz (ram d1)\<rparr>;
                 d3 = myfree memx ptr d2
             in (membase d3 memx + offset, d3))"

section \<open>The loops\<close>

lemma memtblsize_cases:
  assumes "memx < 3"
  shows "unat (memtblsize memx) \<le> 6400" "0 < unat (memtblsize memx)" "memblksize memx = 32"
    "unat (memsize memx) = 32 * unat (memtblsize memx)" "memtblsize memx \<noteq> 0" "memtblsize memx \<le> 6400"
  using assms by (auto simp: memtblsize_def memblksize_def memsize_def less_Suc_eq numeral_3_eq_3)

lemma map_fill_apply: "map_fill m o' v n i = (if o' \<le> i \<and> i < o' + n then v else m i)"
  by (induction n arbitrary: m o') auto

lemma memset_other: "(\<And>k. k < n \<Longrightarrow> a \<noteq> s + of_nat k) \<Longrightarrow> memset_loop s c n m a = m a"
proof (induction n arbitrary: s m)
  case (Suc n)
  have "memset_loop (s + 1) c n (m(s := c)) a = (m(s := c)) a"
    using Suc.prems [of "Suc _"] by (intro Suc.IH) (simp add: algebra_simps)
  then show ?case using Suc.prems [of 0] by simp
qed simp

lemma memcpy_other: "(\<And>k. k < n \<Longrightarrow> a \<noteq> d + of_nat k) \<Longrightarrow> memcpy_loop d s n m a = m a"
proof (induction n arbitrary: d s m)
  case (Suc n)
  have "memcpy_loop (d + 1) (s + 1) n (m(d := m s)) a = (m(d := m s)) a"
    using Suc.prems [of "Suc _"] by (intro Suc.IH) (simp add: algebra_simps)
  then show ?case using Suc.prems [of 0] by simp
qed simp

text \<open>A byte of the source that no earlier write has overwritten arrives at its place.\<close>

lemma memcpy_apply:
  assumes "i < n" "n \<le> 4294967296" "\<And>j. j < i \<Longrightarrow> s + of_nat i \<noteq> d + of_nat j"
  shows "memcpy_loop d s n m (d + of_nat i) = m (s + of_nat i)"
  using assms
proof (induction n arbitrary: d s m i)
  case (Suc n)
  show ?case
  proof (cases i)
    case 0
    have "d \<noteq> d + 1 + of_nat k" if "k < n" for k
      using that Suc.prems(2) of_nat_u32_inj [of "Suc k" 0] by (simp add: add.assoc)
    then show ?thesis using memcpy_other [of n d "d + 1" "s + 1" "m(d := m s)"] 0 by simp
  next
    case (Suc l)
    have "memcpy_loop (d + 1) (s + 1) n (m(d := m s)) (d + 1 + of_nat l) = (m(d := m s)) (s + 1 + of_nat l)"
    proof (rule Suc.IH)
      show "l < n" "n \<le> 4294967296" using Suc.prems(1,2) Suc by simp_all
      show "s + 1 + of_nat l \<noteq> d + 1 + of_nat j" if "j < l" for j
        using Suc.prems(3) [of "Suc j"] that Suc by (simp add: algebra_simps)
    qed
    moreover have "s + 1 + of_nat l \<noteq> d" using Suc.prems(3) [of 0] Suc by (simp add: algebra_simps)
    ultimately show ?thesis using Suc by (simp add: algebra_simps)
  qed
qed simp

section \<open>The search\<close>

text \<open>\<open>free_run m N n a\<close>: the \<open>n\<close> blocks from \<open>a\<close> on are in the pool of \<open>N\<close> blocks and free.\<close>

definition free_run :: "(nat \<Rightarrow> u16) \<Rightarrow> nat \<Rightarrow> nat \<Rightarrow> nat \<Rightarrow> bool" where
  "free_run m N n a \<longleftrightarrow> a + n \<le> N \<and> (\<forall>i. a \<le> i \<and> i < a + n \<longrightarrow> m i = 0)"

lemma malloc_scan_spec:
  assumes "unat c < unat n" "T + unat c \<le> N" "\<forall>i. T \<le> i \<and> i < T + unat c \<longrightarrow> m i = 0"
    "T + unat c = N \<or> m (T + unat c) \<noteq> 0" "\<forall>a\<ge>T. \<not> free_run m N (unat n) a"
  shows "case malloc_scan m n c T of
      None \<Rightarrow> \<forall>a. \<not> free_run m N (unat n) a
    | Some a \<Rightarrow> free_run m N (unat n) a \<and> (\<forall>b>a. \<not> free_run m N (unat n) b)"
  using assms
proof (induction T arbitrary: c)
  case (Suc T)
  have c1: "unat (c + 1) = Suc (unat c)"
    using Suc.prems(1) unat_u16_lt [of n] by (simp add: unat_word_ariths)
  show ?case
  proof (cases "m T = 0")
    case True
    have run: "\<forall>i. T \<le> i \<and> i < T + unat (c + 1) \<longrightarrow> m i = 0"
      using Suc.prems(3) True by (auto simp: c1 Suc_le_eq nat_less_le)
    show ?thesis
    proof (cases "c + 1 = n")
      case eq: True
      have "free_run m N (unat n) T" using run Suc.prems(2) c1 eq by (auto simp: free_run_def)
      then show ?thesis using True eq Suc.prems(5) by (simp add: Suc_le_eq)
    next
      case False
      have lt: "unat (c + 1) < unat n" using False Suc.prems(1) c1 by (metis Suc_lessI word_unat_eq_iff)
      have "\<not> free_run m N (unat n) T"
        using Suc.prems(4) lt unfolding free_run_def c1 by (auto intro!: exI [of _ "T + Suc (unat c)"])
      then have "\<forall>a\<ge>T. \<not> free_run m N (unat n) a" using Suc.prems(5) by (metis Suc_le_eq le_neq_implies_less)
      then show ?thesis using Suc.IH [of "c + 1"] lt run Suc.prems(2,4) True False by (simp add: c1)
    qed
  next
    case False
    have n0: "n \<noteq> 0" "0 < unat n" using Suc.prems(1) by (auto simp: unat_gt_0)
    have "\<not> free_run m N (unat n) T" using False n0 by (auto simp: free_run_def)
    then have "\<forall>a\<ge>T. \<not> free_run m N (unat n) a" using Suc.prems(5) by (metis Suc_le_eq le_neq_implies_less)
    moreover have "\<forall>i. T \<le> i \<and> i < T + unat (0::u16) \<longrightarrow> m i = 0" by auto
    ultimately show ?thesis using Suc.IH [of 0] Suc.prems(2) False n0 by simp
  qed
qed simp

lemma malloc_scan_whole:
  assumes "n \<noteq> 0"
  shows "malloc_scan m n 0 N = None \<Longrightarrow> \<not> free_run m N (unat n) b"
    and "malloc_scan m n 0 N = Some a \<Longrightarrow> free_run m N (unat n) a \<and> (\<forall>b>a. \<not> free_run m N (unat n) b)"
proof -
  have "0 < unat n" using assms by (simp add: unat_gt_0)
  then have "\<forall>a\<ge>N. \<not> free_run m N (unat n) a" by (auto simp: free_run_def)
  moreover have "\<forall>i. N \<le> i \<and> i < N + unat (0::u16) \<longrightarrow> m i = 0" by auto
  ultimately have sp: "case malloc_scan m n 0 N of None \<Rightarrow> \<forall>a. \<not> free_run m N (unat n) a
    | Some a \<Rightarrow> free_run m N (unat n) a \<and> (\<forall>b>a. \<not> free_run m N (unat n) b)"
    using \<open>0 < unat n\<close> by (intro malloc_scan_spec) simp_all
  show "malloc_scan m n 0 N = None \<Longrightarrow> \<not> free_run m N (unat n) b"
    and "malloc_scan m n 0 N = Some a \<Longrightarrow> free_run m N (unat n) a \<and> (\<forall>b>a. \<not> free_run m N (unat n) b)"
    using sp by simp_all
qed

section \<open>Allocations\<close>

text \<open>\<open>owns m N A\<close>: the table \<open>m\<close> of a pool of \<open>N\<close> blocks records exactly the allocations \<open>A\<close>, pairs of the first
  block and the number of blocks.\<close>

definition span :: "nat \<times> nat \<Rightarrow> nat set" where "span b = {fst b ..< fst b + snd b}"

definition owns :: "(nat \<Rightarrow> u16) \<Rightarrow> nat \<Rightarrow> (nat \<times> nat) set \<Rightarrow> bool" where
  "owns m N A \<longleftrightarrow>
     (\<forall>b\<in>A. 0 < snd b \<and> snd b < 65536 \<and> fst b + snd b \<le> N \<and> (\<forall>i\<in>span b. m i = of_nat (snd b))) \<and>
     (\<forall>b\<in>A. \<forall>c\<in>A. b \<noteq> c \<longrightarrow> span b \<inter> span c = {}) \<and> (\<forall>i<N. m i \<noteq> 0 \<longrightarrow> (\<exists>b\<in>A. i \<in> span b))"

lemma owns_empty: "owns (\<lambda>_. 0) N {}"
  by (simp add: owns_def)

lemma owns_nonzero:
  assumes "owns m N A" "b \<in> A" "i \<in> span b"
  shows "m i \<noteq> 0" "unat (m i) = snd b"
proof -
  have k: "m i = of_nat (snd b)" "0 < snd b" "snd b < 65536" using assms by (auto simp: owns_def)
  then show "unat (m i) = snd b" by (simp add: unat_of_nat take_bit_nat_eq_self)
  then show "m i \<noteq> 0" using k(2) by auto
qed

lemma free_run_disjoint: "owns m N A \<Longrightarrow> free_run m N n a \<Longrightarrow> b \<in> A \<Longrightarrow> span b \<inter> span (a, n) = {}"
proof -
  assume o: "owns m N A" and f: "free_run m N n a" and b: "b \<in> A"
  have "m i = 0" if "i \<in> span (a, n)" for i using f that by (simp add: free_run_def span_def)
  then show ?thesis using owns_nonzero(1) [OF o b] by blast
qed

lemma owns_add:
  assumes o: "owns m N A" and f: "free_run m N (unat n) a" and n: "n \<noteq> 0"
  shows "owns (map_fill m a n (unat n)) N (insert (a, unat n) A)"
proof -
  let ?b = "(a, unat n)" and ?m = "map_fill m a n (unat n)"
  have dis: "span b \<inter> span ?b = {}" if "b \<in> A" for b using free_run_disjoint [OF o f that] .
  have new: "?m i = n" if "i \<in> span ?b" for i using that by (simp add: map_fill_apply span_def)
  have old: "?m i = m i" if "i \<notin> span ?b" for i using that by (auto simp: map_fill_apply span_def)
  have "0 < snd b \<and> snd b < 65536 \<and> fst b + snd b \<le> N \<and> (\<forall>i\<in>span b. ?m i = of_nat (snd b))" if "b \<in> A" for b
    using o that dis [OF that] old by (auto simp: owns_def disjoint_iff)
  moreover have "0 < unat n" "unat n < 65536" "a + unat n \<le> N" using n f unat_u16_lt by (simp_all add: unat_gt_0 free_run_def)
  moreover have "\<exists>b\<in>insert ?b A. i \<in> span b" if "i < N" "?m i \<noteq> 0" for i
    using that o old [of i] by (cases "i \<in> span ?b") (auto simp: owns_def)
  moreover have "\<forall>b\<in>insert ?b A. \<forall>c\<in>insert ?b A. b \<noteq> c \<longrightarrow> span b \<inter> span c = {}"
    using o dis by (auto simp: owns_def)
  ultimately show ?thesis using new unfolding owns_def by auto
qed

lemma owns_remove:
  assumes o: "owns m N A" and b: "(a, k) \<in> A"
  shows "unat (m a) = k" "owns (map_fill m a 0 k) N (A - {(a, k)})"
proof -
  have k: "0 < k" using o b by (auto simp: owns_def)
  then show "unat (m a) = k" using owns_nonzero(2) [OF o b, of a] by (simp add: span_def)
  have old: "map_fill m a 0 k i = (if i \<in> span (a, k) then 0 else m i)" for i by (simp add: map_fill_apply span_def)
  have dis: "span c \<inter> span (a, k) = {}" if "c \<in> A - {(a, k)}" for c using o b that by (auto simp: owns_def)
  have "0 < snd c \<and> snd c < 65536 \<and> fst c + snd c \<le> N \<and> (\<forall>i\<in>span c. map_fill m a 0 k i = of_nat (snd c))" if "c \<in> A - {(a, k)}" for c
    using o that dis [OF that] by (auto simp: owns_def old disjoint_iff)
  moreover have "\<exists>c\<in>A - {(a, k)}. i \<in> span c" if "i < N" "map_fill m a 0 k i \<noteq> 0" for i
    using that o by (auto simp: owns_def old split: if_splits)
  moreover have "\<forall>b\<in>A - {(a, k)}. \<forall>c\<in>A - {(a, k)}. b \<noteq> c \<longrightarrow> span b \<inter> span c = {}" using o by (auto simp: owns_def)
  ultimately show "owns (map_fill m a 0 k) N (A - {(a, k)})" unfolding owns_def by blast
qed

section \<open>The interface of an allocator\<close>

text \<open>
  \<open>repr s A\<close>: the blocks \<open>A\<close>, pairs of a pointer and an extent, are allocated in the state \<open>s\<close>; \<open>cells\<close>
  is what a block occupies, \<open>ext\<close> the extent that a request needs.
\<close>

fun allocs :: "('z \<Rightarrow> 's \<Rightarrow> 'p option \<times> 's) \<Rightarrow> 'z list \<Rightarrow> 's \<Rightarrow> 'p option list \<times> 's" where
  "allocs al [] s = ([], s)"
| "allocs al (z # zs) s = (let (p, s1) = al z s; (ps, s2) = allocs al zs s1 in (p # ps, s2))"

locale block_alloc =
  fixes alloc :: "'z \<Rightarrow> 's \<Rightarrow> 'p option \<times> 's" and release :: "'p \<Rightarrow> 's \<Rightarrow> 's" and repr :: "'s \<Rightarrow> ('p \<times> nat) set \<Rightarrow> bool"
    and cells :: "'p \<times> nat \<Rightarrow> 'c set" and ext :: "'z \<Rightarrow> nat" and req :: "'z \<Rightarrow> bool"
  assumes alloc_some: "repr s A \<Longrightarrow> req z \<Longrightarrow> alloc z s = (Some p, s') \<Longrightarrow>
      repr s' (insert (p, ext z) A) \<and> (\<forall>b\<in>A. cells b \<inter> cells (p, ext z) = {})"
    and alloc_none: "repr s A \<Longrightarrow> req z \<Longrightarrow> alloc z s = (None, s') \<Longrightarrow> s' = s"
    and release_own: "repr s A \<Longrightarrow> (p, k) \<in> A \<Longrightarrow> repr (release p s) (A - {(p, k)})"
    and cells_ne: "repr s A \<Longrightarrow> b \<in> A \<Longrightarrow> cells b \<noteq> {}"
begin

lemma alloc_fresh:
  assumes "repr s A" "req z" "alloc z s = (Some p, s')"
  shows "(p, ext z) \<notin> A"
  using alloc_some [OF assms] cells_ne [of s' "insert (p, ext z) A" "(p, ext z)"] by blast

lemma alloc_release:
  assumes "repr s A" "req z" "alloc z s = (Some p, s')"
  shows "repr (release p s') A"
  using release_own [of s' "insert (p, ext z) A" p "ext z"] alloc_some [OF assms] alloc_fresh [OF assms] by simp

text \<open>A series of requests: the blocks it yields are disjoint from each other and from those that were there.\<close>

definition granted :: "'z list \<Rightarrow> 'p option list \<Rightarrow> ('p \<times> nat) list" where
  "granted zs ps = [(p, ext z). (z, Some p) \<leftarrow> zip zs ps]"

lemma granted_Cons: "granted (z # zs) (p # ps) = (case p of None \<Rightarrow> granted zs ps | Some q \<Rightarrow> (q, ext z) # granted zs ps)"
  by (simp add: granted_def split: option.split)

lemma allocs_disjoint:
  assumes "repr s A" "\<forall>z\<in>set zs. req z" "allocs alloc zs s = (ps, s')"
  shows "repr s' (set (granted zs ps) \<union> A) \<and> distinct (granted zs ps) \<and> set (granted zs ps) \<inter> A = {} \<and>
    (\<forall>b\<in>set (granted zs ps). \<forall>c\<in>set (granted zs ps) \<union> A. b \<noteq> c \<longrightarrow> cells b \<inter> cells c = {})"
  using assms
proof (induction zs arbitrary: s A ps)
  case Nil
  then show ?case by (simp add: granted_def)
next
  case (Cons z zs)
  obtain p s1 where a: "alloc z s = (p, s1)" by fastforce
  obtain qs where b: "allocs alloc zs s1 = (qs, s')" and ps: "ps = p # qs" using Cons.prems(3) a by (auto split: prod.splits)
  have rz: "req z" "\<forall>z\<in>set zs. req z" using Cons.prems(2) by simp_all
  show ?case
  proof (cases p)
    case None
    then have "s1 = s" using alloc_none [OF Cons.prems(1) rz(1)] a by simp
    then show ?thesis using Cons.IH [OF _ rz(2), of s1 A qs] Cons.prems(1) b by (simp add: ps None granted_Cons)
  next
    case (Some q)
    have al: "alloc z s = (Some q, s1)" using a Some by simp
    note r1 = alloc_some [OF Cons.prems(1) rz(1) al] and nf = alloc_fresh [OF Cons.prems(1) rz(1) al]
    note ih = Cons.IH [OF conjunct1 [OF r1] rz(2) b]
    show ?thesis unfolding ps Some granted_Cons option.case using ih r1 nf by (auto simp: insert_commute Int_commute)
  qed
qed

end

section \<open>The pools of the program\<close>

text \<open>A request the counters of the allocator can represent: at most 65535 blocks.\<close>

definition request :: "u32 \<Rightarrow> bool" where "request sz \<longleftrightarrow> 0 < sz \<and> sz \<le> 2097120"

definition blocks :: "u32 \<Rightarrow> nat" where "blocks sz = (unat sz + 31) div 32"

lemma ceil_div: "(n + 31) div 32 = (if n mod 32 = 0 then n div 32 else n div 32 + 1)" for n :: nat
proof -
  define q r where "q = n div 32" and "r = n mod 32"
  have n: "n = 32 * q + r" and r: "r < 32" by (simp_all add: q_def r_def)
  have "(r + 31) div 32 = (if r = 0 then 0 else 1)" using r by (auto simp: div_nat_eqI)
  moreover have "(n + 31) div 32 = q + (r + 31) div 32"
    unfolding n add.assoc using div_mult_self4 [of 32 q "r + 31"] by simp
  ultimately show ?thesis unfolding r_def q_def by simp
qed

lemma nmemb_blocks:
  assumes "memx < 3" "request sz"
  shows "unat (nmemb_of memx sz) = blocks sz" "nmemb_of memx sz \<noteq> 0" "unat sz \<le> 32 * blocks sz"
proof -
  have sz: "0 < unat sz" "unat sz \<le> 2097120" using assms(2) by (auto simp: request_def word_less_nat_alt word_le_nat_alt)
  have d: "unat (ucast (sz div 32) :: u16) = unat sz div 32"
    using sz by (simp add: unsigned_ucast_eq unsigned_take_bit_eq unat_div take_bit_nat_eq_self)
  have m: "sz mod 32 = 0 \<longleftrightarrow> unat sz mod 32 = 0" by (simp add: word_unat_eq_iff unat_mod)
  have s: "Suc (unat sz div 32) < 65536" if "0 < unat sz mod 32" using sz that div_mult_mod_eq [of "unat sz" 32] by linarith
  have "unat (nmemb_of memx sz) = (if unat sz mod 32 = 0 then unat sz div 32 else unat sz div 32 + 1)"
    using sz d m s memtblsize_cases(3) [OF assms(1)] by (auto simp: nmemb_of_def Let_def unat_word_ariths)
  then show b: "unat (nmemb_of memx sz) = blocks sz"
    unfolding blocks_def ceil_div by simp
  have "0 < blocks sz" using sz by (simp add: blocks_def)
  then show "nmemb_of memx sz \<noteq> 0" using b by auto
  show "unat sz \<le> 32 * blocks sz" unfolding blocks_def by simp
qed

text \<open>The pool is initialised, its memory does not wrap around the address space and does not start at the
  null pointer, and its table records the allocations \<open>A\<close>, which are given by their byte addresses.\<close>

definition addr :: "nat \<Rightarrow> mallco \<Rightarrow> nat \<times> nat \<Rightarrow> u32 \<times> nat" where
  "addr memx d b = (membase d memx + of_nat (32 * fst b), snd b)"

definition pool_repr :: "nat \<Rightarrow> mallco \<Rightarrow> (u32 \<times> nat) set \<Rightarrow> bool" where
  "pool_repr memx d A \<longleftrightarrow> memx < 3 \<and> memrdy d memx \<noteq> 0 \<and> membase d memx \<noteq> 0 \<and>
     unat (membase d memx) + unat (memsize memx) < 4294967296 \<and>
     (\<exists>B. owns (memmap d memx) (unat (memtblsize memx)) B \<and> A = addr memx d ` B)"

definition bytes :: "u32 \<times> nat \<Rightarrow> nat set" where
  "bytes b = {unat (fst b) ..< unat (fst b) + 32 * snd b}"

definition alloc_op :: "nat \<Rightarrow> u32 \<Rightarrow> mallco \<Rightarrow> u32 option \<times> mallco" where
  "alloc_op memx sz d = (let (p, d') = mymalloc memx sz d in (if p = 0 then None else Some p, d'))"

lemma addr_unat:
  assumes "pool_repr memx d A" "owns (memmap d memx) (unat (memtblsize memx)) B" "b \<in> B"
  shows "unat (fst (addr memx d b)) = unat (membase d memx) + 32 * fst b" "fst (addr memx d b) \<noteq> 0"
    "bytes (addr memx d b) = {unat (membase d memx) + 32 * fst b ..< unat (membase d memx) + 32 * (fst b + snd b)}"
proof -
  have m: "memx < 3" "membase d memx \<noteq> 0" "unat (membase d memx) + unat (memsize memx) < 4294967296"
    using assms(1) by (simp_all add: pool_repr_def)
  have "fst b + snd b \<le> unat (memtblsize memx)" using assms(2,3) by (auto simp: owns_def)
  then have o: "unat (membase d memx) + 32 * fst b < 4294967296" using m memtblsize_cases(4) [OF m(1)] by simp
  have "unat (of_nat (32 * fst b) :: u32) = 32 * fst b" using o by (simp add: unat_of_nat take_bit_nat_eq_self del: of_nat_mult)
  then show u: "unat (fst (addr memx d b)) = unat (membase d memx) + 32 * fst b"
    using o by (simp add: addr_def unat_word_ariths del: of_nat_mult)
  then show "fst (addr memx d b) \<noteq> 0" using m(2) by (auto simp: unat_eq_0)
  show "bytes (addr memx d b) = {unat (membase d memx) + 32 * fst b ..< unat (membase d memx) + 32 * (fst b + snd b)}"
    unfolding bytes_def u by (simp add: addr_def algebra_simps)
qed

lemma bytes_disjoint:
  assumes "pool_repr memx d A" "owns (memmap d memx) (unat (memtblsize memx)) B" "b \<in> B" "c \<in> B" "b \<noteq> c"
  shows "bytes (addr memx d b) \<inter> bytes (addr memx d c) = {}" "addr memx d b \<noteq> addr memx d c"
proof -
  have "span b \<inter> span c = {}" and k: "0 < snd b" "0 < snd c" using assms(2-5) by (auto simp: owns_def)
  then have "fst b + snd b \<le> fst c \<or> fst c + snd c \<le> fst b"
    unfolding span_def by (metis atLeastLessThan_iff disjoint_iff le_add1 less_add_same_cancel1 linorder_not_le nat_le_linear)
  then show d: "bytes (addr memx d b) \<inter> bytes (addr memx d c) = {}"
    unfolding addr_unat(3) [OF assms(1-3)] addr_unat(3) [OF assms(1,2,4)] by auto
  have "bytes (addr memx d b) \<noteq> {}" using k by (simp add: bytes_def addr_def)
  then show "addr memx d b \<noteq> addr memx d c" using d by force
qed

text \<open>What \<open>mymem_malloc\<close> does on an initialised pool.\<close>

lemma mymem_malloc_ready:
  assumes "memx < 3" "memrdy d memx \<noteq> 0" "request sz"
  shows "mymem_malloc memx sz d =
    (case malloc_scan (memmap d memx) (nmemb_of memx sz) 0 (unat (memtblsize memx)) of
       None \<Rightarrow> (MALLOC_FAIL, d)
     | Some o' \<Rightarrow> (of_nat (32 * o'), set_map memx (map_fill (memmap d memx) o' (nmemb_of memx sz) (blocks sz)) d))"
  using assms nmemb_blocks(1) [OF assms(1,3)] memtblsize_cases(3) [OF assms(1)]
  by (auto simp: mymem_malloc_def Let_def request_def mult.commute split: option.split)

lemma offset_not_fail:
  assumes "memx < 3" "free_run m (unat (memtblsize memx)) n a" 
  shows "(of_nat (32 * a) :: u32) \<noteq> MALLOC_FAIL" "unat (of_nat (32 * a) :: u32) = 32 * a"
proof -
  have "a \<le> 6400" using assms(2) memtblsize_cases(1) [OF assms(1)] by (simp add: free_run_def)
  then show u: "unat (of_nat (32 * a) :: u32) = 32 * a" by (simp add: unat_of_nat take_bit_nat_eq_self del: of_nat_mult)
  show "(of_nat (32 * a) :: u32) \<noteq> MALLOC_FAIL"
  proof
    assume "(of_nat (32 * a) :: u32) = MALLOC_FAIL"
    then have "unat (of_nat (32 * a) :: u32) = unat MALLOC_FAIL" by (rule arg_cong)
    then show False using u \<open>a \<le> 6400\<close> by simp
  qed
qed

lemma set_map_simps [simp]:
  "memmap (set_map memx m d) memx = m" "memrdy (set_map memx m d) = memrdy d" "membase (set_map memx m d) = membase d"
  "ram (set_map memx m d) = ram d" "memx \<noteq> k \<Longrightarrow> memmap (set_map memx m d) k = memmap d k"
  "addr memx (set_map k m d) = addr memx d"
  by (simp_all add: set_map_def addr_def fun_eq_iff)

lemma alloc_op_cases:
  assumes r: "pool_repr memx d A" and q: "request sz"
  obtains (fail) "alloc_op memx sz d = (None, d)" "\<And>a. \<not> free_run (memmap d memx) (unat (memtblsize memx)) (blocks sz) a"
  | (ok) a where "free_run (memmap d memx) (unat (memtblsize memx)) (blocks sz) a"
      "\<And>b. a < b \<Longrightarrow> \<not> free_run (memmap d memx) (unat (memtblsize memx)) (blocks sz) b"
      "alloc_op memx sz d = (Some (membase d memx + of_nat (32 * a)),
         set_map memx (map_fill (memmap d memx) a (nmemb_of memx sz) (blocks sz)) d)"
      "mymem_malloc memx sz d = (of_nat (32 * a), set_map memx (map_fill (memmap d memx) a (nmemb_of memx sz) (blocks sz)) d)"
proof -
  have m: "memx < 3" "memrdy d memx \<noteq> 0" "membase d memx \<noteq> 0" "unat (membase d memx) + unat (memsize memx) < 4294967296"
    using r by (simp_all add: pool_repr_def)
  note e = mymem_malloc_ready [OF m(1,2) q] and nb = nmemb_blocks [OF m(1) q]
  note w = malloc_scan_whole [OF nb(2), where N = "unat (memtblsize memx)" and m = "memmap d memx", unfolded nb(1)]
  show thesis
  proof (cases "malloc_scan (memmap d memx) (nmemb_of memx sz) 0 (unat (memtblsize memx))")
    case None
    then show thesis using e w(1) by (intro fail) (auto simp: alloc_op_def mymalloc_def)
  next
    case (Some a)
    have f: "free_run (memmap d memx) (unat (memtblsize memx)) (blocks sz) a" using w(2) [OF Some] by blast
    have "a \<le> unat (memtblsize memx)" using f by (simp add: free_run_def)
    then have "unat (membase d memx) + 32 * a < 4294967296" using m(4) memtblsize_cases(4) [OF m(1)] by simp
    then have "unat (membase d memx + of_nat (32 * a)) = unat (membase d memx) + 32 * a"
      using offset_not_fail(2) [OF m(1) f] by (simp add: unat_word_ariths del: of_nat_mult)
    then have "membase d memx + of_nat (32 * a) \<noteq> 0" using m(3) by (auto simp: unat_eq_0)
    then show thesis using e w(2) [OF Some] f Some offset_not_fail(1) [OF m(1) f]
      by (intro ok [of a]) (simp_all add: alloc_op_def mymalloc_def del: of_nat_mult)
  qed
qed

lemma pool_repr_add:
  assumes r: "pool_repr memx d A" and q: "request sz" and a: "alloc_op memx sz d = (Some p, d')"
  shows "pool_repr memx d' (insert (p, blocks sz) A) \<and> (\<forall>b\<in>A. bytes b \<inter> bytes (p, blocks sz) = {})"
proof -
  obtain B where B: "owns (memmap d memx) (unat (memtblsize memx)) B" "A = addr memx d ` B" and m: "memx < 3"
    using r by (auto simp: pool_repr_def)
  note nb = nmemb_blocks [OF m q]
  from r q show ?thesis
  proof (cases rule: alloc_op_cases)
    case fail
    then show ?thesis using a by simp
  next
    case (ok a')
    let ?m = "map_fill (memmap d memx) a' (nmemb_of memx sz) (blocks sz)" and ?b = "(a', blocks sz)"
    have p: "(p, blocks sz) = addr memx d' ?b" and d': "d' = set_map memx ?m d" using a ok(3) by (auto simp: addr_def)
    have B': "owns (memmap d' memx) (unat (memtblsize memx)) (insert ?b B)"
      using owns_add [OF B(1), of "nmemb_of memx sz" a'] ok(1) nb by (simp add: d')
    have A': "insert (p, blocks sz) A = addr memx d' ` insert ?b B" using p B(2) by (simp add: d')
    have r': "pool_repr memx d' (insert (p, blocks sz) A)" using r B' A' by (auto simp: pool_repr_def d')
    have "bytes b \<inter> bytes (p, blocks sz) = {}" if bA: "b \<in> A" for b
    proof -
      obtain c where c: "c \<in> B" "b = addr memx d' c" using bA B(2) by (auto simp: d')
      have "c \<noteq> ?b" using free_run_disjoint [OF B(1) ok(1) c(1)] owns_add [OF B(1) _ nb(2), of a'] B' c(1) nb(1)
        by (auto simp: span_def owns_def)
      then show ?thesis using bytes_disjoint(1) [OF r' B', of c ?b] c p by simp
    qed
    then show ?thesis using r' by blast
  qed
qed

lemma mymem_free_own:
  assumes r: "pool_repr memx d A" and B: "owns (memmap d memx) (unat (memtblsize memx)) B" and b: "(a, k) \<in> B"
  shows "mymem_free memx (of_nat (32 * a)) d = (0, set_map memx (map_fill (memmap d memx) a 0 k) d)"
proof -
  have m: "memx < 3" "memrdy d memx \<noteq> 0" using r by (simp_all add: pool_repr_def)
  have ak: "0 < k" "a + k \<le> unat (memtblsize memx)" using B b by (auto simp: owns_def)
  then have "32 * a < 4294967296" using memtblsize_cases(1) [OF m(1)] by simp
  then have u: "unat (of_nat (32 * a) :: u32) = 32 * a" by (simp add: unat_of_nat take_bit_nat_eq_self del: of_nat_mult)
  have "(of_nat (32 * a) :: u32) < memsize memx" unfolding word_less_nat_alt u using ak memtblsize_cases(4) [OF m(1)] by simp
  moreover have "unat ((of_nat (32 * a) :: u32) div memblksize memx) = a"
    unfolding memtblsize_cases(3) [OF m(1)] unat_div u by simp
  ultimately show ?thesis using m(2) owns_remove(1) [OF B b] by (simp add: mymem_free_def del: of_nat_mult)
qed

lemma pool_repr_remove:
  assumes r: "pool_repr memx d A" and p: "(p, k) \<in> A"
  shows "pool_repr memx (myfree memx p d) (A - {(p, k)})"
proof -
  obtain B where B: "owns (memmap d memx) (unat (memtblsize memx)) B" "A = addr memx d ` B" 
    using r by (auto simp: pool_repr_def)
  obtain a where b: "(a, k) \<in> B" "(p, k) = addr memx d (a, k)" using p B(2) by (auto simp: addr_def)
  have "p \<noteq> 0" using addr_unat(2) [OF r B(1) b(1)] b(2) by (metis fst_conv)
  moreover have "p - membase d memx = of_nat (32 * a)" using b(2) by (simp add: addr_def)
  ultimately have f: "myfree memx p d = set_map memx (map_fill (memmap d memx) a 0 k) d"
    using mymem_free_own [OF r B(1) b(1)] by (simp add: myfree_def del: of_nat_mult)
  have "inj_on (addr memx d) B" using bytes_disjoint(2) [OF r B(1)] by (meson inj_onI)
  then have "A - {(p, k)} = addr memx d ` (B - {(a, k)})" using B(2) b inj_on_image_set_diff [of "addr memx d" B B "{(a, k)}"] by simp
  then have "A - {(p, k)} = addr memx (myfree memx p d) ` (B - {(a, k)})" by (simp add: f)
  moreover have "owns (memmap (myfree memx p d) memx) (unat (memtblsize memx)) (B - {(a, k)})"
    using owns_remove(2) [OF B(1) b(1)] by (simp add: f)
  ultimately show ?thesis using r unfolding pool_repr_def by (auto simp: f)
qed

interpretation pool: block_alloc "alloc_op memx" "myfree memx" "pool_repr memx" bytes blocks request for memx
proof
  fix s A z p s' assume "pool_repr memx s A" "request z" "alloc_op memx z s = (Some p, s')"
  then show "pool_repr memx s' (insert (p, blocks z) A) \<and> (\<forall>b\<in>A. bytes b \<inter> bytes (p, blocks z) = {})"
    by (rule pool_repr_add)
next
  fix s A z s' assume r: "pool_repr memx s A" "request z" and a: "alloc_op memx z s = (None, s')"
  from r show "s' = s" by (cases rule: alloc_op_cases) (use a in auto)
next
  fix s A p k assume "pool_repr memx s A" "(p, k) \<in> A"
  then show "pool_repr memx (myfree memx p s) (A - {(p, k)})" by (rule pool_repr_remove)
next
  fix s A b assume "pool_repr memx s A" "b \<in> A"
  then obtain B c where "owns (memmap s memx) (unat (memtblsize memx)) B" "c \<in> B" "b = addr memx s c" by (auto simp: pool_repr_def)
  then show "bytes b \<noteq> {}" by (auto simp: owns_def bytes_def addr_def)
qed

section \<open>Properties\<close>

text \<open>A state in which nothing has been allocated yet, with the pools at plausible addresses.\<close>

definition mex :: mallco where
  "mex = \<lparr>membase = (\<lambda>k. [0x20000100, 0x68000000, 0x10000000] ! k), memmap = (\<lambda>_ _. 0), memrdy = (\<lambda>_. 1), ram = (\<lambda>_. 0)\<rparr>"

lemma mex_repr: "pool_repr 0 mex {}"
  by (simp add: pool_repr_def mex_def memsize_def owns_empty)

text \<open>C7. \<open>mymalloc\<close> of 1 to 2097120 bytes on a pool that records the allocations \<open>A\<close>: it returns the null pointer and changes nothing exactly
  if no run of free blocks is long enough, and otherwise a block of at least the requested size, disjoint
  from all others, which the table then records too. (The number of blocks of a larger request does not fit into 16 bits; what happens
  then is \<open>malloc_truncated\<close>.)\<close>

theorem malloc_correct:
  assumes r: "pool_repr memx d A" and q: "0 < sz \<and> sz \<le> 2097120" and a: "mymalloc memx sz d = (p, d')"
  shows "(p = 0 \<longleftrightarrow> (\<forall>b. \<not> free_run (memmap d memx) (unat (memtblsize memx)) (blocks sz) b)) \<and> (p = 0 \<longrightarrow> d' = d) \<and>
    (p \<noteq> 0 \<longrightarrow> pool_repr memx d' (insert (p, blocks sz) A) \<and> unat sz \<le> 32 * blocks sz \<and>
       (\<forall>b\<in>A. bytes b \<inter> bytes (p, blocks sz) = {}))"
proof -
  have q': "request sz" using q by (simp add: request_def)
  have o: "alloc_op memx sz d = (if p = 0 then None else Some p, d')" using a by (simp add: alloc_op_def)
  have m: "memx < 3" using r by (simp add: pool_repr_def)
  show ?thesis
  proof (cases "p = 0")
    case True
    then have n: "alloc_op memx sz d = (None, d')" using o by simp
    from r q' have "d' = d \<and> (\<forall>b. \<not> free_run (memmap d memx) (unat (memtblsize memx)) (blocks sz) b)"
      by (cases rule: alloc_op_cases) (use n in auto)
    then show ?thesis using True by simp
  next
    case False
    then have n: "alloc_op memx sz d = (Some p, d')" using o by simp
    from r q' have "\<exists>b. free_run (memmap d memx) (unat (memtblsize memx)) (blocks sz) b"
      by (cases rule: alloc_op_cases) (use n in auto)
    then show ?thesis using False pool.alloc_some [OF r q' n] nmemb_blocks(3) [OF m q'] by auto
  qed
qed

theorem malloc_correct_witness:
  "fst (mymalloc 0 100 mex) \<noteq> 0 \<and> pool_repr 0 (snd (mymalloc 0 100 mex)) {(fst (mymalloc 0 100 mex), 4)}"
proof -
  have "free_run (memmap mex 0) 3200 4 0" by (simp add: free_run_def mex_def)
  then show ?thesis
    using malloc_correct [OF mex_repr, of 100, OF _ surjective_pairing] by (auto simp: blocks_def memtblsize_def)
qed

text \<open>A block that is freed right after it has been allocated leaves the allocations as they were; a series of
  requests, some of which may fail, yields blocks that are disjoint from each other and from the
  earlier ones, and all of them are recorded.\<close>

theorem malloc_free_series:
  assumes r: "pool_repr memx d A"
  shows "(\<forall>sz p d'. request sz \<and> mymalloc memx sz d = (p, d') \<and> p \<noteq> 0 \<longrightarrow> pool_repr memx (myfree memx p d') A) \<and>
    (\<forall>zs ps d'. (\<forall>z\<in>set zs. request z) \<and> allocs (alloc_op memx) zs d = (ps, d') \<longrightarrow>
       (let G = pool.granted zs ps in pool_repr memx d' (set G \<union> A) \<and> distinct G \<and> set G \<inter> A = {} \<and>
         (\<forall>b\<in>set G. \<forall>c\<in>set G \<union> A. b \<noteq> c \<longrightarrow> bytes b \<inter> bytes c = {})))"
proof (intro conjI allI impI)
  fix sz p d' assume h: "request sz \<and> mymalloc memx sz d = (p, d') \<and> p \<noteq> 0"
  then have "alloc_op memx sz d = (Some p, d')" by (simp add: alloc_op_def)
  then show "pool_repr memx (myfree memx p d') A" using pool.alloc_release [OF r] h by blast
next
  fix zs ps d' assume "(\<forall>z\<in>set zs. request z) \<and> allocs (alloc_op memx) zs d = (ps, d')"
  then show "let G = pool.granted zs ps in pool_repr memx d' (set G \<union> A) \<and> distinct G \<and> set G \<inter> A = {} \<and>
         (\<forall>b\<in>set G. \<forall>c\<in>set G \<union> A. b \<noteq> c \<longrightarrow> bytes b \<inter> bytes c = {})"
    using pool.allocs_disjoint [OF r] unfolding Let_def by blast
qed

theorem malloc_free_series_witness:
  "pool_repr 0 (snd (allocs (alloc_op 0) [100, 64] mex)) (set (pool.granted [100, 64] (fst (allocs (alloc_op 0) [100, 64] mex))))"
  using malloc_free_series [OF mex_repr] by (simp add: Let_def request_def)

text \<open>The counters of \<open>mymem_malloc\<close> have 16 bits: a request of \<open>2^21\<close> bytes is counted as 0 blocks, and on a pool whose
  last block is in use it succeeds, with the address of that block, and reserves nothing.\<close>

theorem malloc_truncated:
  assumes "memx < 3" "memrdy d memx \<noteq> 0" "memmap d memx (unat (memtblsize memx) - 1) \<noteq> 0"
  shows "mymem_malloc memx 0x200000 d = (32 * (memtblsize memx - 1), d)"
proof -
  have n: "nmemb_of memx 0x200000 = 0" using memtblsize_cases(3) [OF assms(1)] by (simp add: nmemb_of_def)
  obtain t where t: "unat (memtblsize memx) = Suc t" using memtblsize_cases(2) [OF assms(1)] by (cases "unat (memtblsize memx)") auto
  have o: "of_nat t = memtblsize memx - 1" 
  proof -
    have "of_nat (Suc t) = memtblsize memx" unfolding t [symmetric] by simp
    then show ?thesis by (simp add: algebra_simps flip: of_nat_Suc)
  qed
  have "malloc_scan (memmap d memx) 0 0 (Suc t) = Some t" using assms(3) t by simp
  moreover have "set_map memx (memmap d memx) d = d" by (simp add: set_map_def)
  ultimately show ?thesis using assms(2) memtblsize_cases(3) [OF assms(1)] o
    by (simp add: mymem_malloc_def Let_def n t mult.commute)
qed

theorem malloc_truncated_witness:
  "mymem_malloc 2 0x200000 (mex\<lparr>memmap := \<lambda>_ _. 1\<rparr>) = (61408, mex\<lparr>memmap := \<lambda>_ _. 1\<rparr>)"
  using malloc_truncated [of 2 "mex\<lparr>memmap := \<lambda>_ _. 1\<rparr>"] by (simp add: mex_def memtblsize_def)

section \<open>The share in use\<close>

lemma used_loop_count:
  "used_loop m i n u = u + of_nat (card {j. i \<le> j \<and> j < i + n \<and> m j \<noteq> 0})"
proof (induction n arbitrary: i u)
  case (Suc n)
  have e: "{j. i \<le> j \<and> j < i + Suc n \<and> m j \<noteq> 0} =
      (if m i \<noteq> 0 then insert i else id) {j. i + 1 \<le> j \<and> j < i + 1 + n \<and> m j \<noteq> 0}"
    by (auto simp: Suc_le_eq nat_less_le)
  have "finite {j. i + 1 \<le> j \<and> j < i + 1 + n \<and> m j \<noteq> 0}" by (rule finite_subset [of _ "{..< i + 1 + n}"]) auto
  then show ?case unfolding used_loop.simps Suc.IH e by auto
next
  case 0
  have "{j. i \<le> j \<and> j < i + 0 \<and> m j \<noteq> 0} = {}" by auto
  then show ?case by (simp only: card.empty) simp
qed

text \<open>\<open>mem_perused\<close> is the share of the blocks in use in per cent, rounded down, between 0 and 100: none of its
  computations overflows.\<close>

theorem mem_perused_exact:
  assumes "memx < 3"
  shows "unat (mem_perused memx d) =
      card {j. j < unat (memtblsize memx) \<and> memmap d memx j \<noteq> 0} * 100 div unat (memtblsize memx) \<and>
    unat (mem_perused memx d) \<le> 100"
proof -
  let ?T = "unat (memtblsize memx)" and ?c = "card {j. j < unat (memtblsize memx) \<and> memmap d memx j \<noteq> 0}"
  note T = memtblsize_cases [OF assms]
  have c: "?c \<le> ?T" using card_mono [of "{..< ?T}" "{j. j < ?T \<and> memmap d memx j \<noteq> 0}"] by auto
  have u: "used_loop (memmap d memx) 0 ?T 0 = of_nat ?c" by (simp add: used_loop_count)
  have c100: "unat (of_nat ?c * 100 :: u32) = ?c * 100"
    using c T(1) by (simp add: unat_word_ariths unat_of_nat take_bit_nat_eq_self)
  have le: "?c * 100 div ?T \<le> 100" 
    using div_le_mono [of "?c * 100" "?T * 100" ?T] c T(2) by simp
  have "unat (mem_perused memx d) = take_bit 8 (?c * 100 div ?T)"
    unfolding mem_perused_def u unsigned_ucast_eq unsigned_take_bit_eq unat_div c100 by simp
  then show ?thesis using le by (simp add: take_bit_nat_eq_self)
qed

theorem mem_perused_exact_witness: "unat (mem_perused 2 mex) = 0"
  using mem_perused_exact [of 2 mex] by (simp add: mex_def)

section \<open>Reallocation\<close>

lemma pool_repr_ram: "pool_repr memx (d\<lparr>ram := m\<rparr>) A = pool_repr memx d A"
proof -
  have "addr memx (d\<lparr>ram := m\<rparr>) = addr memx d" by (simp add: addr_def fun_eq_iff)
  then show ?thesis by (simp add: pool_repr_def)
qed

lemma myfree_ram [simp]: "memrdy d memx \<noteq> 0 \<Longrightarrow> ram (myfree memx p d) = ram d" "memrdy d memx \<noteq> 0 \<Longrightarrow> membase (myfree memx p d) = membase d"
  by (simp_all add: myfree_def mymem_free_def Let_def)

lemma bytes_addr:
  assumes "pool_repr memx d A" "(p, k) \<in> A" "i < 32 * k"
  shows "unat (p + of_nat i) = unat p + i" "unat (p + of_nat i) \<in> bytes (p, k)"
proof -
  obtain B where B: "owns (memmap d memx) (unat (memtblsize memx)) B" "A = addr memx d ` B" using assms(1) by (auto simp: pool_repr_def)
  then obtain a where a: "(a, k) \<in> B" "(p, k) = addr memx d (a, k)" using assms(2) by (auto simp: addr_def)
  have m: "memx < 3" "unat (membase d memx) + unat (memsize memx) < 4294967296" using assms(1) by (simp_all add: pool_repr_def)
  have "a + k \<le> unat (memtblsize memx)" using B(1) a(1) by (auto simp: owns_def)
  moreover have p: "unat p = unat (membase d memx) + 32 * a" using addr_unat(1) [OF assms(1) B(1) a(1)] a(2) by (metis fst_conv)
  ultimately have "unat p + i < 4294967296" using assms(3) m memtblsize_cases(4) [OF m(1)] by simp
  then show u: "unat (p + of_nat i) = unat p + i" by (simp add: unat_word_ariths unat_of_nat take_bit_nat_eq_self)
  show "unat (p + of_nat i) \<in> bytes (p, k)" unfolding u using assms(3) by (simp add: bytes_def)
qed

text \<open>\<open>myrealloc\<close> of an allocated block: it fails exactly when no run of free blocks is long enough for the new size (the old block still
  counts as used), and then nothing changes; otherwise the new block replaces the old one
  among the allocations, its first bytes, up to the shorter of the two sizes, are those of the old block,
  and the bytes of all other blocks are unchanged.\<close>

theorem realloc_correct:
  assumes r: "pool_repr memx d A" and o: "(ptr, k) \<in> A" and q: "request sz" and a: "myrealloc memx ptr sz d = (p, d')"
  shows "(p = 0 \<longleftrightarrow> (\<forall>b. \<not> free_run (memmap d memx) (unat (memtblsize memx)) (blocks sz) b)) \<and> (p = 0 \<longrightarrow> d' = d) \<and>
    (p \<noteq> 0 \<longrightarrow> pool_repr memx d' (insert (p, blocks sz) (A - {(ptr, k)})) \<and>
       (\<forall>i. i < unat sz \<and> i < 32 * k \<longrightarrow> ram d' (p + of_nat i) = ram d (ptr + of_nat i)) \<and>
       (\<forall>b\<in>A. \<forall>x. unat x \<in> bytes b \<longrightarrow> ram d' x = ram d x))"
  using r q
proof (cases rule: alloc_op_cases)
  case fail
  have "fst (mymem_malloc memx sz d) = MALLOC_FAIL \<and> snd (mymem_malloc memx sz d) = d"
  proof -
    have m: "memx < 3" "memrdy d memx \<noteq> 0" using r by (simp_all add: pool_repr_def)
    have "malloc_scan (memmap d memx) (nmemb_of memx sz) 0 (unat (memtblsize memx)) = None"
    proof (rule ccontr)
      assume "malloc_scan (memmap d memx) (nmemb_of memx sz) 0 (unat (memtblsize memx)) \<noteq> None"
      then obtain x where "malloc_scan (memmap d memx) (nmemb_of memx sz) 0 (unat (memtblsize memx)) = Some x" by blast
      then show False using malloc_scan_whole(2) [OF nmemb_blocks(2) [OF m(1) q]] fail(2) nmemb_blocks(1) [OF m(1) q] by metis
    qed
    then show ?thesis unfolding mymem_malloc_ready [OF m q] by simp
  qed
  then show ?thesis using a fail(2) by (auto simp: myrealloc_def split_beta)
next
  case (ok a')
  let ?q = "membase d memx + of_nat (32 * a')" and ?d1 = "set_map memx (map_fill (memmap d memx) a' (nmemb_of memx sz) (blocks sz)) d"
  have m: "memx < 3" "memrdy d memx \<noteq> 0" using r by (simp_all add: pool_repr_def)
  note s = pool.alloc_some [OF r q ok(3)] and fr = pool.alloc_fresh [OF r q ok(3)]
  let ?d2 = "?d1\<lparr>ram := mymemcpy ?q ptr sz (ram d)\<rparr>"
  have e: "p = ?q" "d' = myfree memx ptr ?d2"
    using a m offset_not_fail(1) [OF m(1) ok(1)] unfolding myrealloc_def ok(4) by (auto simp del: of_nat_mult)
  have r2: "pool_repr memx ?d2 (insert (p, blocks sz) A)" using s by (simp add: pool_repr_ram e)
  have "pool_repr memx d' (insert (p, blocks sz) A - {(ptr, k)})" unfolding e(2) using pool_repr_remove [OF r2] o by blast
  moreover have "insert (p, blocks sz) A - {(ptr, k)} = insert (p, blocks sz) (A - {(ptr, k)})" using fr o e(1) by auto
  moreover have rm: "ram d' = memcpy_loop p ptr (unat sz) (ram d)" using m by (simp add: e mymemcpy_def)
  have new: "unat (p + of_nat j) \<in> bytes (p, blocks sz)" if "j < unat sz" for j
    using bytes_addr(2) [OF r2, of p "blocks sz" j] nmemb_blocks(3) [OF m(1) q] that by simp
  have dis: "bytes b \<inter> bytes (p, blocks sz) = {}" if "b \<in> A" for b using s that e(1) by blast
  have "ram d' (p + of_nat i) = ram d (ptr + of_nat i)" if i: "i < unat sz" "i < 32 * k" for i
  proof -
    have "ptr + of_nat i \<noteq> p + of_nat j" if "j < i" for j
      using new [of j] that i bytes_addr(2) [OF r o i(2)] dis [OF o] by (metis IntI dual_order.strict_trans empty_iff)
    then show ?thesis unfolding rm using unat_u32_lt [of sz] i(1) by (intro memcpy_apply) auto
  qed
  moreover have "ram d' x = ram d x" if "b \<in> A" "unat x \<in> bytes b" for b x
    unfolding rm using new dis [OF that(1)] that(2) by (intro memcpy_other) (metis IntI empty_iff)
  moreover have "p \<noteq> 0" using ok(3) unfolding e(1) alloc_op_def by (auto simp: split_beta split: if_splits)
  ultimately show ?thesis using ok(1) by auto
qed

definition mex1 :: mallco where
  "mex1 = mex\<lparr>memmap := \<lambda>_ i. if i = 3199 then 1 else 0\<rparr>"

lemma mex1_repr: "pool_repr 0 mex1 {(0x200190E0, 1)}"
proof -
  have "owns (memmap mex1 0) 3200 {(3199, 1)}" by (auto simp: owns_def mex1_def span_def)
  moreover have "addr 0 mex1 ` {(3199, 1)} = {(0x200190E0, 1)}" by (simp add: addr_def mex1_def mex_def)
  ultimately show ?thesis unfolding pool_repr_def
    by (intro conjI exI [of _ "{(3199, 1)}"]) (simp_all add: mex1_def mex_def memsize_def memtblsize_def)
qed

theorem realloc_correct_witness:
  "fst (myrealloc 0 0x200190E0 64 mex1) \<noteq> 0 \<and>
     pool_repr 0 (snd (myrealloc 0 0x200190E0 64 mex1)) {(fst (myrealloc 0 0x200190E0 64 mex1), 2)}"
proof -
  have "free_run (memmap mex1 0) 3200 2 0" by (simp add: free_run_def mex1_def)
  then show ?thesis using realloc_correct [OF mex1_repr _ _ surjective_pairing, of "0x200190E0" 1 64]
    by (auto simp: request_def blocks_def memtblsize_def)
qed

text \<open>\<open>mymem_init\<close> leaves an empty pool.\<close>

lemma init_repr:
  assumes "memx < 3" "membase d memx \<noteq> 0" "unat (membase d memx) + unat (memsize memx) < 4294967296"
  shows "pool_repr memx (mymem_init memx d) {}"
proof -
  have "owns (memmap (mymem_init memx d) memx) (unat (memtblsize memx)) {}"
    by (simp add: owns_def mymem_init_def Let_def map_fill_apply)
  then show ?thesis using assms by (simp add: pool_repr_def mymem_init_def Let_def)
qed

end
