(* ===== verification/SysArch.thy ===== *)
theory SysArch
  imports OsQ OsTask Malloc
begin

text \<open>
  The operating system layer of lwIP, demo/LWIP/arch/sys_arch.c: mailboxes and semaphores of the network stack on the
  queues and semaphores of the kernel and on the allocator. The state is that of the kernel, that of the
  allocator, and the field \<open>pQ\<close> of the structures \<open>TQ_DESCR\<close> by their address; the array \<open>pvQEntries\<close> of such a structure
  is the storage of its queue, the cells from 4 bytes after its address on. A mailbox is the address of its
  structure, 0 for \<open>NULL\<close>. \<open>np\<close> is the address of the constant \<open>pvNullPointer\<close>. Functions that block in the
  kernel are divided into the part up to the pend and the part after it.
\<close>

section \<open>Operations\<close>

record sysarch =
  sa_os :: os
  sa_mem :: mallco
  sa_pQ :: "u32 \<Rightarrow> nat option"

abbreviation (input) "SRAMIN \<equiv> 0 :: nat"
abbreviation (input) "TQ_DESCR_SIZE \<equiv> 84 :: u32"
abbreviation (input) "MAX_QUEUE_ENTRIES \<equiv> 20 :: int"
abbreviation (input) "ERR_OK \<equiv> 0 :: int"
abbreviation (input) "ERR_MEM \<equiv> - 1 :: int"
abbreviation (input) "SYS_ARCH_TIMEOUT \<equiv> 0xFFFFFFFF :: u32"

text \<open>Clearing a structure writes its bytes, its field \<open>pQ\<close> and its 20 entries.\<close>

definition clear_descr :: "u32 \<Rightarrow> sysarch \<Rightarrow> sysarch" where
  "clear_descr p w = w\<lparr>sa_mem := (sa_mem w)\<lparr>ram := mymemset p 0 TQ_DESCR_SIZE (ram (sa_mem w))\<rparr>,
     sa_pQ := (sa_pQ w)(p := None),
     sa_os := (sa_os w)\<lparr>OSHeap := \<lambda>a. if unat p + 4 \<le> a \<and> a < unat p + 84 then PNull else OSHeap (sa_os w) a\<rparr>\<rparr>"

definition sys_mbox_new :: "int \<Rightarrow> sysarch \<Rightarrow> int \<times> u32 \<times> sysarch" where
  "sys_mbox_new sz w =
    (let (mbox, m1) = mymalloc SRAMIN TQ_DESCR_SIZE (sa_mem w);
         w1 = clear_descr mbox (w\<lparr>sa_mem := m1\<rparr>)
     in if mbox \<noteq> 0 then
          let sz1 = (if MAX_QUEUE_ENTRIES < sz then MAX_QUEUE_ENTRIES else sz);
              (pQ, s2) = OSQCreate (unat mbox + 4) (of_int sz1) (sa_os w1);
              w2 = w1\<lparr>sa_os := s2, sa_pQ := (sa_pQ w1)(mbox := pQ)\<rparr>
          in if pQ \<noteq> None then (ERR_OK, mbox, w2)
             else (ERR_MEM, mbox, w2\<lparr>sa_mem := myfree SRAMIN mbox (sa_mem w2)\<rparr>)
        else (ERR_MEM, mbox, w1))"

text \<open>\<open>sys_mbox_free\<close> and the functions below take the content of \<open>*mbox\<close>; the null pointer \<open>sys_mbox_free\<close> leaves
  there is the 0 of its result. \<open>None\<close> is a deletion whose loop does not end.\<close>

definition sys_mbox_free :: "u32 \<Rightarrow> sysarch \<Rightarrow> (u32 \<times> sysarch) option" where
  "sys_mbox_free m_box w =
    (case OSQDel (the (sa_pQ w m_box)) OS_DEL_ALWAYS (sa_os w) of
       None \<Rightarrow> None
     | Some (_, _, s1) \<Rightarrow> Some (0, w\<lparr>sa_os := s1, sa_mem := myfree SRAMIN m_box (sa_mem w)\<rparr>))"

definition mbox_msg :: "ptr \<Rightarrow> ptr \<Rightarrow> ptr" where
  "mbox_msg np msg = (if msg = PNull then np else msg)"

text \<open>The loop of \<open>sys_mbox_post\<close>; \<open>env k\<close> is what the interrupts and the other tasks do after the \<open>k\<close>-th attempt.\<close>

partial_function (option) post_loop :: "(nat \<Rightarrow> os \<Rightarrow> os) \<Rightarrow> nat \<Rightarrow> nat \<Rightarrow> ptr \<Rightarrow> os \<Rightarrow> os option" where
  "post_loop env k e msg s =
    (case OSQPost e msg s of (err, s1) \<Rightarrow>
       if err \<noteq> OS_ERR_NONE then post_loop env (k + 1) e msg (env k s1) else Some s1)"

definition sys_mbox_post :: "ptr \<Rightarrow> (nat \<Rightarrow> os \<Rightarrow> os) \<Rightarrow> u32 \<Rightarrow> ptr \<Rightarrow> sysarch \<Rightarrow> sysarch option" where
  "sys_mbox_post np env mbox msg w =
    (case post_loop env 0 (the (sa_pQ w mbox)) (mbox_msg np msg) (sa_os w) of
       None \<Rightarrow> None
     | Some s1 \<Rightarrow> Some (w\<lparr>sa_os := s1\<rparr>))"

definition sys_mbox_trypost :: "ptr \<Rightarrow> u32 \<Rightarrow> ptr \<Rightarrow> sysarch \<Rightarrow> int \<times> sysarch" where
  "sys_mbox_trypost np mbox msg w =
    (let (err, s1) = OSQPost (the (sa_pQ w mbox)) (mbox_msg np msg) (sa_os w)
     in (if err \<noteq> OS_ERR_NONE then ERR_MEM else ERR_OK, w\<lparr>sa_os := s1\<rparr>))"

text \<open>The conversion of a timeout in milliseconds to ticks, at the width of the kernel's parameter.\<close>

definition ucos_timeout :: "u32 \<Rightarrow> u16" where
  "ucos_timeout timeout =
    (if timeout \<noteq> 0 then
       let t = timeout * OS_TICKS_PER_SEC div 1000 in ucast (if t < 1 then 1 else t)
     else 0)"

text \<open>The pend of \<open>sys_arch_mbox_fetch\<close>: \<open>None\<close> if the task blocks, and the time of the call.\<close>

definition sys_arch_mbox_fetch :: "u32 \<Rightarrow> u32 \<Rightarrow> sysarch \<Rightarrow> (ptr \<times> u8) option \<times> u32 \<times> sysarch" where
  "sys_arch_mbox_fetch mbox timeout w =
    (let t0 = OSTimeGet (sa_os w);
         (r, s1) = OSQPend (the (sa_pQ w mbox)) (ucast (ucos_timeout timeout)) (sa_os w)
     in (r, t0, w\<lparr>sa_os := s1\<rparr>))"

text \<open>What follows the pend: the message and the value returned. The message is delivered if \<open>msg != NULL\<close>.\<close>

definition fetch_time :: "u32 \<Rightarrow> u32 \<Rightarrow> u32" where
  "fetch_time t0 t1 =
    (let d = (if t0 < t1 then t1 - t0 else 0xFFFFFFFF - t0 + t1) in d * 1000 div OS_TICKS_PER_SEC + 1)"

definition sys_arch_mbox_fetch_return :: "ptr \<Rightarrow> u32 \<Rightarrow> ptr \<times> u8 \<Rightarrow> sysarch \<Rightarrow> ptr \<times> u32" where
  "sys_arch_mbox_fetch_return np t0 = (\<lambda>(temp, ucErr) w.
     (if temp = np then PNull else temp,
      if ucErr = OS_ERR_TIMEOUT then SYS_ARCH_TIMEOUT else fetch_time t0 (OSTimeGet (sa_os w))))"

definition sys_arch_mbox_tryfetch :: "u32 \<Rightarrow> sysarch \<Rightarrow> (ptr \<times> u8) option \<times> u32 \<times> sysarch" where
  "sys_arch_mbox_tryfetch mbox w = sys_arch_mbox_fetch mbox 1 w"

definition sys_mbox_valid :: "u32 \<Rightarrow> sysarch \<Rightarrow> int" where
  "sys_mbox_valid m_box w =
    (let (ucErr, d) = OSQQuery (the (sa_pQ w m_box)) (sa_os w);
         (nmsgs, sz) = (case d of None \<Rightarrow> (0, 0) | Some (_, n, z, _) \<Rightarrow> (n, z))
     in if ucErr < 2 \<and> nmsgs < sz then 1 else 0)"

subsection \<open>Semaphores\<close>

definition sys_sem_new :: "u8 \<Rightarrow> sysarch \<Rightarrow> int \<times> nat option \<times> sysarch" where
  "sys_sem_new count w =
    (case OSSemCreate (ucast count) (sa_os w) of
       (None, s1) \<Rightarrow> (ERR_MEM, None, w\<lparr>sa_os := s1\<rparr>)
     | (Some e, s1) \<Rightarrow> (ERR_OK, Some e, w\<lparr>sa_os := snd (OSEventNameSet e ''LWIP Sem'' s1)\<rparr>))"

definition sys_arch_sem_wait :: "nat \<Rightarrow> u32 \<Rightarrow> sysarch \<Rightarrow> u8 option \<times> u32 \<times> sysarch" where
  "sys_arch_sem_wait e timeout w =
    (let t0 = OSTimeGet (sa_os w);
         (r, s1) = OSSemPend e (ucast (ucos_timeout timeout)) (sa_os w)
     in (r, t0, w\<lparr>sa_os := s1\<rparr>))"

definition wait_time :: "u32 \<Rightarrow> u32 \<Rightarrow> u32" where
  "wait_time t0 t1 =
    (let d = (if t0 \<le> t1 then t1 - t0 else 0xFFFFFFFF - t0 + t1) in d * 1000 div OS_TICKS_PER_SEC + 1)"

definition sys_arch_sem_wait_return :: "u32 \<Rightarrow> u8 \<Rightarrow> sysarch \<Rightarrow> u32" where
  "sys_arch_sem_wait_return t0 ucErr w =
    (if ucErr = OS_ERR_TIMEOUT then SYS_ARCH_TIMEOUT else wait_time t0 (OSTimeGet (sa_os w)))"

definition sys_sem_signal :: "nat \<Rightarrow> sysarch \<Rightarrow> sysarch" where
  "sys_sem_signal e w = w\<lparr>sa_os := snd (OSSemPost e (sa_os w))\<rparr>"

definition sys_sem_free :: "nat \<Rightarrow> sysarch \<Rightarrow> (nat option \<times> sysarch) option" where
  "sys_sem_free e w =
    (case OSSemDel e OS_DEL_ALWAYS (sa_os w) of
       None \<Rightarrow> None
     | Some (_, _, s1) \<Rightarrow> Some (None, w\<lparr>sa_os := s1\<rparr>))"

definition sys_sem_valid :: "nat \<Rightarrow> sysarch \<Rightarrow> int" where
  "sys_sem_valid e w = (if fst (OSSemQuery e (sa_os w)) = OS_ERR_NONE then 1 else 0)"

subsection \<open>Threads and time\<close>

text \<open>\<open>stk\<close> is the word index of the stack \<open>TCPIP_THREAD_TASK_STK\<close>.\<close>

definition sys_thread_new ::
  "bool \<Rightarrow> u32 \<Rightarrow> nat \<Rightarrow> string \<Rightarrow> u32 \<Rightarrow> u32 \<Rightarrow> nat \<Rightarrow> u8 \<Rightarrow> sysarch \<Rightarrow> sysarch" where
  "sys_thread_new fpu ret stk name thread arg stacksize p w =
    (if name = ''tcpip_thread'' then w\<lparr>sa_os := snd (OSTaskCreate fpu ret thread arg (stk + stacksize - 1) p (sa_os w))\<rparr> else w)"

definition sys_now :: "os \<Rightarrow> u32" where
  "sys_now s = OSTimeGet s * 1000 div OS_TICKS_PER_SEC + 1"

section \<open>Time\<close>

lemma fetch_wait_time:
  assumes "unat t0 + k < 4294967296" "k \<le> 4294967"
  shows "wait_time t0 (t0 + of_nat k) = of_nat (5 * k + 1)" "0 < k \<Longrightarrow> fetch_time t0 (t0 + of_nat k) = of_nat (5 * k + 1)"
proof -
  have k: "unat (of_nat k :: u32) = k" using assms(2) by (simp add: unat_of_nat take_bit_nat_eq_self)
  have u: "unat (t0 + of_nat k) = unat t0 + k" using assms(1) k by (simp add: unat_word_ariths)
  have m: "(of_nat k :: u32) * 1000 div 200 = of_nat (5 * k)"
  proof -
    have "unat ((of_nat k :: u32) * 1000 div 200) = 5 * k" using assms(2) k by (simp add: unat_div unat_word_ariths)
    then show ?thesis by (metis of_nat_unat ucast_id)
  qed
  show "wait_time t0 (t0 + of_nat k) = of_nat (5 * k + 1)" using u m by (simp add: wait_time_def word_le_nat_alt)
  show "fetch_time t0 (t0 + of_nat k) = of_nat (5 * k + 1)" if "0 < k"
    using u m that by (simp add: fetch_time_def word_less_nat_alt)
qed

text \<open>The time the waiting functions of the network stack report is that of the kernel clock in milliseconds, plus one: after
  \<open>k\<close> ticks, while the tick counter does not wrap, \<open>5 * k + 1\<close> for \<open>sys_arch_sem_wait\<close> always, and for \<open>sys_arch_mbox_fetch\<close> when at
  least one tick has passed; a message that is fetched within the tick of the call is reported as a wait of
  21474832 ms.\<close>

theorem reported_wait:
  assumes "unat (OSTime (sa_os w)) + k < 4294967296" "k \<le> 4294967" "OSTime (sa_os w') = OSTime (sa_os w) + of_nat k" "err \<noteq> OS_ERR_TIMEOUT"
  shows "sys_arch_sem_wait_return (OSTimeGet (sa_os w)) err w' = of_nat (5 * k + 1) \<and>
    (0 < k \<longrightarrow> snd (sys_arch_mbox_fetch_return np (OSTimeGet (sa_os w)) (msg, err) w') = of_nat (5 * k + 1)) \<and>
    (k = 0 \<longrightarrow> snd (sys_arch_mbox_fetch_return np (OSTimeGet (sa_os w)) (msg, err) w') = 21474832)"
  using fetch_wait_time [OF assms(1,2)] assms(3,4)
  by (simp add: sys_arch_sem_wait_return_def sys_arch_mbox_fetch_return_def OSTimeGet_def) (simp add: fetch_time_def)

text \<open>The timeout the network stack asks for in milliseconds reaches the kernel in ticks of 5 ms, at least one, up to
  327679 ms; because the kernel's parameter is cut to 16 bits, 327680 ms become 0 ticks, which the kernel takes for a wait
  without end.\<close>

theorem timeout_in_ticks:
  "(\<forall>t. 0 < t \<and> t \<le> 327679 \<longrightarrow> unat (ucos_timeout t) = max 1 (unat t div 5)) \<and> ucos_timeout 0 = 0 \<and> ucos_timeout 327680 = 0"
proof (intro conjI allI impI)
  fix t :: u32 assume t: "0 < t \<and> t \<le> 327679"
  have b: "0 < unat t" "unat t \<le> 327679" using t by (simp_all add: word_le_nat_alt unat_gt_0 word_gt_0)
  have u: "unat (t * 200 div 1000) = unat t div 5" using b by (simp add: unat_div unat_word_ariths div_mult2_eq [symmetric])
  have c: "unat (ucast (t * 200 div 1000) :: u16) = unat t div 5"
    using b u by (simp add: unsigned_ucast_eq unsigned_take_bit_eq take_bit_nat_eq_self)
  have "t * 200 div 1000 < 1 \<longleftrightarrow> unat t div 5 = 0" using u by (simp add: word_less_nat_alt)
  then show "unat (ucos_timeout t) = max 1 (unat t div 5)" using t c by (auto simp: ucos_timeout_def Let_def)
qed (simp_all add: ucos_timeout_def)

theorem timeout_in_ticks_witness: "unat (ucos_timeout 1000) = 200"
proof -
  have "unat (ucos_timeout 1000) = max 1 (unat (1000::u32) div 5)" using timeout_in_ticks by simp
  then show ?thesis by simp
qed

section \<open>Mailboxes\<close>

text \<open>The kernel, the queues and the pool of the allocator are well formed, and the storage of every queue lies in an
  allocated block.\<close>

definition sa_ok :: "sysarch \<Rightarrow> (u32 \<times> nat) set \<Rightarrow> bool" where
  "sa_ok w A \<longleftrightarrow> qsafe (sa_os w) \<and> pool_repr SRAMIN (sa_mem w) A \<and>
     (\<forall>x. is_q (sa_os w) x \<longrightarrow> (\<exists>b\<in>A. q_span (OSQTbl (sa_os w) (ev_q (sa_os w) x)) \<subseteq> bytes b))"

lemma heap_frame [simp]:
  "is_q (s\<lparr>OSHeap := h\<rparr>) x = is_q s x" "ev_q (s\<lparr>OSHeap := h\<rparr>) x = ev_q s x"
  by (simp_all add: is_q_def ev_q_def)

lemma qsafe_heap: "qsafe s \<Longrightarrow> qsafe (s\<lparr>OSHeap := h\<rparr>)"
proof -
  assume ok: "qsafe s"
  have "same_kernel s (s\<lparr>OSHeap := h\<rparr>)" by (simp add: same_kernel_def)
  then have "ksafe (s\<lparr>OSHeap := h\<rparr>)" using ok same_kernel_safe by simp
  moreover have "qs_ok (s\<lparr>OSHeap := h\<rparr>)" using ok by (simp add: qs_ok_def ring_of_def ring_ok_def)
  ultimately show ?thesis by simp
qed

lemma clear_descr_fields [simp]:
  "sa_os (clear_descr p w) = (sa_os w)\<lparr>OSHeap := \<lambda>a. if unat p + 4 \<le> a \<and> a < unat p + 84 then PNull else OSHeap (sa_os w) a\<rparr>"
  "sa_mem (clear_descr p w) = (sa_mem w)\<lparr>ram := mymemset p 0 TQ_DESCR_SIZE (ram (sa_mem w))\<rparr>"
  "sa_pQ (clear_descr p w) = (sa_pQ w)(p := None)"
  by (simp_all add: clear_descr_def)

lemma block_84: "request 84" "blocks 84 = 3"
  by (simp_all add: request_def blocks_def)

lemma q_del_removes:
  assumes ok: "qsafe s" and e: "is_q s e" "e < OS_MAX_EVENTS" and lev: "OSIntNesting s = 0"
  obtains s' where "OSQDel e OS_DEL_ALWAYS s = Some (None, OS_ERR_NONE, s')" "qsafe s'" "\<And>x. is_q s' x \<longleftrightarrow> is_q s x \<and> x \<noteq> e"
    "\<And>x. x \<noteq> e \<Longrightarrow> ev_q s' x = ev_q s x" "\<And>k. q_span (OSQTbl s' k) = q_span (OSQTbl s k)"
proof -
  let ?f = "\<lambda>s. (OSQTbl s, \<lambda>x. (OSEventType (ev s x), OSEventPtr (ev s x)))"
  obtain h er s' where d: "OSQDel e OS_DEL_ALWAYS s = Some (h, er, s')" "qsafe s'" using q_del_safe [OF ok e(2)] by blast
  obtain n s1 where r: "event_rdy_all e PNull OS_STAT_Q OS_STAT_PEND_OK 0 s = Some (n, s1)" using d(1) lev e
    by (cases "event_rdy_all e PNull OS_STAT_Q OS_STAT_PEND_OK 0 s") (auto simp: OSQDel_def is_q_def)
  have f: "?f (snd (OS_EventTaskRdy e PNull OS_STAT_Q OS_STAT_PEND_OK t)) = ?f t" for t
    by (auto simp: OS_EventTaskRdy_def OS_EventTaskRemove_def Let_def upd_ev_def upd_tcb_def set_rdy_def ev_clear_def set_ev_bm_def fun_eq_iff)
  have s1: "?f s1 = ?f s" using event_rdy_all_keeps [where f = ?f, OF r f] by simp
  then have q1: "is_q s1 x = is_q s x" "ev_q s1 x = ev_q s x" "OSQTbl s1 = OSQTbl s" for x by (simp_all add: is_q_def ev_q_def fun_eq_iff)
  have o: "h = None" "er = OS_ERR_NONE" "s' = q_put_back e s1 \<or> s' = OS_Sched (q_put_back e s1)"
    using d(1) r lev e(1) by (auto simp: OSQDel_def is_q_def Let_def split: if_splits)
  have c: "is_q (OS_Sched t) x = is_q t x" "ev_q (OS_Sched t) x = ev_q t x" "OSQTbl (OS_Sched t) = OSQTbl t" for t x
    by (simp_all add: is_q_def ev_q_def OS_Sched_def os_switch_def OS_SchedNew_def OSPendSV_def upd_tcb_def Let_def)
  show ?thesis by (rule that [OF d(1) [unfolded o(1,2)] d(2)]) (use o(3) in \<open>auto simp: c is_q_put ev_q_put q_tbl_put q1 q_span_def split: if_splits\<close>)
qed

text \<open>The mailbox at \<open>mbox\<close> is in use: its queue exists, its structure is an allocated block of its own, and the storage of
  every other queue lies in one of the other blocks, \<open>A\<close>.\<close>

definition mbox_held :: "u32 \<Rightarrow> nat \<Rightarrow> (u32 \<times> nat) set \<Rightarrow> sysarch \<Rightarrow> bool" where
  "mbox_held mbox e A w \<longleftrightarrow> sa_ok w (insert (mbox, 3) A) \<and> (mbox, 3) \<notin> A \<and> sa_pQ w mbox = Some e \<and> is_q (sa_os w) e \<and> e < OS_MAX_EVENTS \<and>
     (\<forall>x. is_q (sa_os w) x \<and> x \<noteq> e \<longrightarrow> (\<exists>b\<in>A. q_span (OSQTbl (sa_os w) (ev_q (sa_os w) x)) \<subseteq> bytes b))"

lemma mbox_free_ok:
  assumes h: "mbox_held mbox e A w" and lev: "OSIntNesting (sa_os w) = 0"
  shows "\<exists>w2. sys_mbox_free mbox w = Some (0, w2) \<and> sa_ok w2 A \<and> \<not> is_q (sa_os w2) e"
proof -
  have ok: "qsafe (sa_os w)" "pool_repr SRAMIN (sa_mem w) (insert (mbox, 3) A)" "(mbox, 3) \<notin> A" "sa_pQ w mbox = Some e" "is_q (sa_os w) e" "e < OS_MAX_EVENTS"
    and st: "\<And>x. is_q (sa_os w) x \<Longrightarrow> x \<noteq> e \<Longrightarrow> \<exists>b\<in>A. q_span (OSQTbl (sa_os w) (ev_q (sa_os w) x)) \<subseteq> bytes b"
    using h by (auto simp: mbox_held_def sa_ok_def)
  obtain s' where s': "OSQDel e OS_DEL_ALWAYS (sa_os w) = Some (None, OS_ERR_NONE, s')" "qsafe s'" "\<And>x. is_q s' x \<longleftrightarrow> is_q (sa_os w) x \<and> x \<noteq> e"
    "\<And>x. x \<noteq> e \<Longrightarrow> ev_q s' x = ev_q (sa_os w) x" "\<And>k. q_span (OSQTbl s' k) = q_span (OSQTbl (sa_os w) k)"
    using q_del_removes [OF ok(1,5,6) lev] by metis
  have "pool_repr SRAMIN (myfree SRAMIN mbox (sa_mem w)) A" using pool.release_own [OF ok(2), of mbox 3] ok(3) by simp
  then show ?thesis using s' st ok(4) by (auto simp: sys_mbox_free_def sa_ok_def)
qed

text \<open>C9. \<open>sys_mbox_new\<close>, when memory, an event and a queue are free, yields an empty mailbox for the number of messages asked for, at
  most 20, in a block of the allocator of its own, which the storage of no other queue reaches into, and keeps the kernel, the queues and
  the allocator well formed. \<open>sys_mbox_free\<close> of a mailbox in use, whoever waits on it and whatever has happened since it was made,
  returns, deletes its queue and gives its block back: all the queues that are left have their storage in the blocks that
  are still allocated, so none lies in freed memory.\<close>

theorem mbox_lifecycle:
  assumes ok: "sa_ok w A" and lev: "OSIntNesting (sa_os w) = 0" and el: "OSEventFreeList (sa_os w) = Some e" and ql: "OSQFreeList (sa_os w) = Some q"
    and sz: "0 \<le> sz" and mem: "fst (mymalloc SRAMIN TQ_DESCR_SIZE (sa_mem w)) \<noteq> 0" and r: "sys_mbox_new sz w = (err, mbox, w1)"
  shows "err = ERR_OK \<and> mbox_held mbox e A w1 \<and> q_abs (sa_os w1) e = ([], {}) \<and> q_size (sa_os w1) e = nat (min 20 sz) \<and>
    (\<forall>w' A'. mbox_held mbox e A' w' \<and> OSIntNesting (sa_os w') = 0 \<longrightarrow>
      (\<exists>w2. sys_mbox_free mbox w' = Some (0, w2) \<and> sa_ok w2 A' \<and> \<not> is_q (sa_os w2) e))"
proof -
  have k: "qsafe (sa_os w)" and pr: "pool_repr SRAMIN (sa_mem w) A"
    and st: "\<And>x. is_q (sa_os w) x \<Longrightarrow> \<exists>b\<in>A. q_span (OSQTbl (sa_os w) (ev_q (sa_os w) x)) \<subseteq> bytes b" using ok by (auto simp: sa_ok_def)
  obtain m m1 where m: "mymalloc SRAMIN TQ_DESCR_SIZE (sa_mem w) = (m, m1)" "m \<noteq> 0" using mem by (cases "mymalloc SRAMIN TQ_DESCR_SIZE (sa_mem w)") auto
  then have al: "alloc_op SRAMIN 84 (sa_mem w) = (Some m, m1)" by (simp add: alloc_op_def)
  note a = pool.alloc_some [OF pr block_84(1) al, unfolded block_84] and fr = pool.alloc_fresh [OF pr block_84(1) al, unfolded block_84]
  define w0 where "w0 = clear_descr m (w\<lparr>sa_mem := m1\<rparr>)"
  define n :: u16 where "n = of_int (if 20 < sz then 20 else sz)"
  have n: "unat n = nat (min 20 sz)" "unat n \<le> 20"
  proof -
    have "n = of_nat (nat (min 20 sz))" using sz by (auto simp: n_def)
    then show "unat n = nat (min 20 sz)" by (simp add: unat_of_nat take_bit_nat_eq_self)
    then show "unat n \<le> 20" by simp
  qed
  have f0: "OSIntNesting (sa_os w0) = 0" "OSEventFreeList (sa_os w0) = Some e" "OSQFreeList (sa_os w0) = Some q" "OSQTbl (sa_os w0) = OSQTbl (sa_os w)"
    "is_q (sa_os w0) = is_q (sa_os w)" "ev_q (sa_os w0) = ev_q (sa_os w)" "qsafe (sa_os w0)" "pool_repr SRAMIN (sa_mem w0) (insert (m, 3) A)"
    using lev el ql a qsafe_heap [OF k] by (simp_all add: w0_def fun_eq_iff pool_repr_ram)
  have sp: "\<forall>x. is_q (sa_os w0) x \<longrightarrow> {unat m + 4..<unat m + 4 + 4 * unat n} \<inter> q_span (OSQTbl (sa_os w0) (ev_q (sa_os w0) x)) = {}"
  proof (intro allI impI)
    fix x assume "is_q (sa_os w0) x"
    then obtain b where b: "b \<in> A" "q_span (OSQTbl (sa_os w) (ev_q (sa_os w) x)) \<subseteq> bytes b" using st [of x] f0(5) by metis
    have "{unat m + 4..<unat m + 4 + 4 * unat n} \<subseteq> bytes (m, 3)" using n(2) by (auto simp: bytes_def)
    moreover have "bytes b \<inter> bytes (m, 3) = {}" using a b(1) by blast
    ultimately show "{unat m + 4..<unat m + 4 + 4 * unat n} \<inter> q_span (OSQTbl (sa_os w0) (ev_q (sa_os w0) x)) = {}"
      using b(2) unfolding f0(4,6) by blast
  qed
  obtain r' s1 where c: "OSQCreate (unat m + 4) n (sa_os w0) = (r', s1)" by fastforce
  note q = q_create_new [OF f0(7,1-3) sp c]
  have e: "err = ERR_OK" "mbox = m" "w1 = w0\<lparr>sa_os := s1, sa_pQ := (sa_pQ w0)(m := Some e)\<rparr>"
    using r m q(1) c unfolding sys_mbox_new_def n_def w0_def by (auto simp: Let_def)
  have "\<exists>b\<in>insert (m, 3) A. q_span (OSQTbl s1 (ev_q s1 x)) \<subseteq> bytes b" if "is_q s1 x" for x
  proof (cases "x = e")
    case True
    then show ?thesis using q(6) n(2) by (intro bexI [of _ "(m, 3)"]) (auto simp: bytes_def)
  next
    case False
    then have "is_q (sa_os w0) x" using that q(5) by simp
    then show ?thesis using q(7) [of x] st [of x] f0 by auto
  qed
  then have "sa_ok w1 (insert (mbox, 3) A)" using q(2) f0(8) by (simp add: sa_ok_def e)
  moreover have "\<exists>b\<in>A. q_span (OSQTbl s1 (ev_q s1 x)) \<subseteq> bytes b" if "is_q s1 x" "x \<noteq> e" for x
    using that q(5) [of x] q(7) [of x] st [of x] f0 by auto
  ultimately have "mbox_held mbox e A w1" using q(5,11) fr unfolding mbox_held_def e by auto
  then show ?thesis using e(1) q(3,4) n(1) mbox_free_ok by (simp add: e(3))
qed

text \<open>Messages through a mailbox arrive as they were sent, the null pointer included: what \<open>sys_mbox_trypost\<close> puts into an
  empty mailbox nobody waits on is what \<open>sys_arch_mbox_fetch\<close> then yields without blocking. (The address of \<open>pvNullPointer\<close>
  itself is never sent.)\<close>

theorem mbox_round_trip:
  assumes ok: "qsafe (sa_os w)" and lev: "OSIntNesting (sa_os w) = 0" "OSLockNesting (sa_os w) = 0"
    and e: "sa_pQ w mbox = Some e" "is_q (sa_os w) e" "q_abs (sa_os w) e = ([], {})" "0 < q_size (sa_os w) e"
    and np: "np \<noteq> PNull" "msg \<noteq> np"
  shows "\<exists>w1 r w2. sys_mbox_trypost np mbox msg w = (ERR_OK, w1) \<and>
    sys_arch_mbox_fetch mbox timeout w1 = (Some r, OSTime (sa_os w), w2) \<and> snd r = OS_ERR_NONE \<and>
    fst (sys_arch_mbox_fetch_return np (OSTime (sa_os w)) r w2) = msg"
proof -
  let ?m = "mbox_msg np msg" and ?s = "sa_os w"
  let ?s1 = "snd (OSQPost e ?m ?s)"
  have w: "wset ?s e = {}" and ms: "q_msgs ?s e = []" using e(3) by (simp_all add: q_abs_def)
  have idle: "q_idle e ?s" using ok e(2) w by (simp add: q_idle_def)
  have room: "length (q_msgs ?s e) < q_size ?s e" using ms e(4) by simp
  note mv = q_idle_moves [OF idle]
  have i1: "q_idle e ?s1" and m1: "q_msgs ?s1 e = [?m]"
    using qsrv.put_invar [OF idle room] qsrv.put_elems [OF idle room] ms by simp_all
  have p: "OSQPost e ?m ?s = (OS_ERR_NONE, set_ring (ev_q ?s e) (ring_put ?m (ring_of ?s (ev_q ?s e))) ?s)" using mv(1) [OF room] .
  have f1: "OSIntNesting ?s1 = 0" "OSLockNesting ?s1 = 0" "OSTime ?s1 = OSTime ?s" using lev by (simp_all add: p set_ring_def)
  have "ring_list (ring_of ?s1 (ev_q ?s1 e)) = [?m]" using m1 by (simp add: q_msgs_def)
  then have g: "fst (ring_get (ring_of ?s1 (ev_q ?s1 e))) = ?m" "0 < OSQEntries (OSQTbl ?s1 (ev_q ?s1 e))"
    using q_idle_moves(4) [OF i1] ring_get(1) entries_pos [of ?s1 "ev_q ?s1 e"] by fastforce+
  have pe: "OSQPend e t ?s1 = (Some (?m, OS_ERR_NONE), set_ring (ev_q ?s1 e) (snd (ring_get (ring_of ?s1 (ev_q ?s1 e)))) ?s1)" for t
    using i1 f1 g by (simp add: OSQPend_def q_idle_def is_q_def Let_def)
  have t: "sys_mbox_trypost np mbox msg w = (ERR_OK, w\<lparr>sa_os := ?s1\<rparr>)" using p by (simp add: sys_mbox_trypost_def e)
  show ?thesis
    using t pe f1(3) np by (auto simp: sys_arch_mbox_fetch_def e OSTimeGet_def sys_arch_mbox_fetch_return_def mbox_msg_def)
qed

theorem reported_wait_witness:
  "sys_arch_sem_wait_return 0 OS_ERR_NONE \<lparr>sa_os = os_bss\<lparr>OSTime := 3\<rparr>, sa_mem = mex, sa_pQ = (\<lambda>_. None)\<rparr> = 16"
  using reported_wait [of "\<lparr>sa_os = os_bss, sa_mem = mex, sa_pQ = (\<lambda>_. None)\<rparr>" 3
      "\<lparr>sa_os = os_bss\<lparr>OSTime := 3\<rparr>, sa_mem = mex, sa_pQ = (\<lambda>_. None)\<rparr>" OS_ERR_NONE PNull PNull]
  by (simp add: os_bss_def OSTimeGet_def)

text \<open>The kernel state of the queue example, which has a queue of its own, with the storage of that queue in an allocated block.\<close>

definition saex :: sysarch where
  "saex = \<lparr>sa_os = qex False, sa_mem = mex\<lparr>membase := \<lambda>_. 32, memmap := \<lambda>_ i. if i = 7 then 1 else 0\<rparr>, sa_pQ = (\<lambda>_. Some 0)\<rparr>"

lemma saex_ok: "sa_ok saex {(256, 1)}" "fst (mymalloc SRAMIN TQ_DESCR_SIZE (sa_mem saex)) \<noteq> 0"
proof -
  let ?d = "sa_mem saex"
  have "owns (memmap ?d 0) 3200 {(7, 1)}" by (auto simp: owns_def saex_def span_def)
  moreover have "addr 0 ?d ` {(7, 1)} = {(256, 1)}" by (simp add: addr_def saex_def)
  ultimately have p: "pool_repr 0 ?d {(256, 1)}" unfolding pool_repr_def
    by (intro conjI exI [of _ "{(7, 1)}"]) (simp_all add: saex_def mex_def memsize_def memtblsize_def)
  moreover have "q_span (OSQTbl (qex False) 0) \<subseteq> bytes (256, 1)" by (auto simp: qex_facts bytes_def)
  ultimately show "sa_ok saex {(256, 1)}" using qex_safe by (simp add: sa_ok_def saex_def qex_is_q qex_ev_q)
  have f: "free_run (memmap ?d 0) (unat (memtblsize 0)) (blocks 84) 100" by (simp add: free_run_def saex_def block_84 memtblsize_def)
  from p block_84(1) show "fst (mymalloc SRAMIN TQ_DESCR_SIZE (sa_mem saex)) \<noteq> 0"
    by (cases rule: alloc_op_cases) (use f in \<open>auto simp: alloc_op_def split_beta split: if_splits\<close>)
qed

theorem mbox_lifecycle_witness:
  "fst (sys_mbox_new 30 saex) = ERR_OK \<and> q_size (sa_os (snd (snd (sys_mbox_new 30 saex)))) 1 = 20 \<and>
    sys_mbox_free (fst (snd (sys_mbox_new 30 saex))) (snd (snd (sys_mbox_new 30 saex))) \<noteq> None"
proof -
  have h: "OSIntNesting (sa_os saex) = 0" "OSEventFreeList (sa_os saex) = Some 1" "OSQFreeList (sa_os saex) = Some 1"
    by (simp_all add: saex_def qex_facts)
  obtain err mbox w1 where r: "sys_mbox_new 30 saex = (err, mbox, w1)" by (metis surj_pair)
  have "OSIntNesting (sa_os w1) = 0" using r h(1) by (auto simp: sys_mbox_new_def clear_descr_def OSQCreate_def event_get_def
    event_init_def upd_ev_def upd_q_def Let_def split: prod.splits if_splits option.splits)
  moreover note t = mbox_lifecycle [OF saex_ok(1) h _ saex_ok(2) r]
  then have "mbox_held mbox 1 {(256, 1)} w1" by simp
  ultimately have "\<exists>w2. sys_mbox_free mbox w1 = Some (0, w2)" using t by fastforce
  then show ?thesis using t by (auto simp: r)
qed

theorem mbox_round_trip_witness:
  "fst (sys_mbox_trypost (PAddr 8) 256 PNull saex) = ERR_OK"
proof -
  have h: "OSIntNesting (sa_os saex) = 0" "OSLockNesting (sa_os saex) = 0" "sa_pQ saex 256 = Some 0" "is_q (sa_os saex) 0"
    "q_abs (sa_os saex) 0 = ([], {})" "0 < q_size (sa_os saex) 0" "PAddr 8 \<noteq> PNull" "PNull \<noteq> PAddr 8"
    using qex_facts(1) [of False] by (simp_all add: saex_def qex_facts qex_is_q q_abs_def task_level_def)
  have "qsafe (sa_os saex)" using qex_safe by (simp add: saex_def)
  then show ?thesis using mbox_round_trip [OF _ h, of 0] by (metis fst_conv)
qed

end
