(* ===== verification/Usart.thy ===== *)
theory Usart
  imports OsTime
begin

text \<open>
  The receiving side of demo/SYSTEM/usart/usart.c: the interrupt handler of the serial port collects the bytes of
  a line that ends in CR LF. \<open>rxne\<close> is the answer of \<open>USART_GetITStatus\<close> and \<open>dr\<close> the content of the data
  register, which are the hardware's.
\<close>

record usart =
  USART_RX_BUF :: "nat \<Rightarrow> u8"
  USART_RX_STA :: u16

abbreviation (input) "USART_REC_LEN \<equiv> 200 :: u16"

definition rx_byte :: "u8 \<Rightarrow> usart \<Rightarrow> usart" where
  "rx_byte Res u =
    (if USART_RX_STA u AND 0x8000 = 0 then
       if USART_RX_STA u AND 0x4000 \<noteq> 0 then
         if Res \<noteq> 0x0A then u\<lparr>USART_RX_STA := 0\<rparr>
         else u\<lparr>USART_RX_STA := USART_RX_STA u OR 0x8000\<rparr>
       else if Res = 0x0D then u\<lparr>USART_RX_STA := USART_RX_STA u OR 0x4000\<rparr>
       else
         let u1 = u\<lparr>USART_RX_BUF := (USART_RX_BUF u)(unat (USART_RX_STA u AND 0x3FFF) := Res)\<rparr>;
             u2 = u1\<lparr>USART_RX_STA := USART_RX_STA u1 + 1\<rparr>
         in if USART_REC_LEN - 1 < USART_RX_STA u2 then u2\<lparr>USART_RX_STA := 0\<rparr> else u2
     else u)"

definition USART1_IRQHandler :: "bool \<Rightarrow> u16 \<Rightarrow> usart \<times> os \<Rightarrow> usart \<times> os" where
  "USART1_IRQHandler rxne dr = (\<lambda>(u, s).
     let s1 = OSIntEnter s;
         u1 = (if rxne then rx_byte (ucast dr) u else u)
     in (u1, OSIntExit s1))"

section \<open>The abstract receiver\<close>

text \<open>
  What the receiver is in the middle of: the bytes of a line, the same after its CR, or a complete line, which
  it keeps until the program clears the status word.
\<close>

datatype rx = Line "u8 list" | Cr "u8 list" | Done "u8 list"

fun rx_step :: "u8 \<Rightarrow> rx \<Rightarrow> rx" where
  "rx_step c (Done xs) = Done xs"
| "rx_step c (Cr xs) = (if c = 0x0A then Done xs else Line [])"
| "rx_step c (Line xs) = (if c = 0x0D then Cr xs else if length xs = 199 then Line [] else Line (xs @ [c]))"

fun rx_bytes :: "rx \<Rightarrow> u8 list" where
  "rx_bytes (Line xs) = xs" | "rx_bytes (Cr xs) = xs" | "rx_bytes (Done xs) = xs"

fun rx_mark :: "rx \<Rightarrow> u16" where
  "rx_mark (Line xs) = 0" | "rx_mark (Cr xs) = 0x4000" | "rx_mark (Done xs) = 0xC000"

definition rx_repr :: "usart \<Rightarrow> rx \<Rightarrow> bool" where
  "rx_repr u r \<longleftrightarrow> length (rx_bytes r) < 200 \<and> USART_RX_STA u = rx_mark r OR of_nat (length (rx_bytes r)) \<and>
     (\<forall>i < length (rx_bytes r). USART_RX_BUF u i = rx_bytes r ! i)"

lemma rx_len_bits:
  assumes "n < 200"
  shows "(of_nat n :: u16) AND 0x8000 = 0" "(of_nat n :: u16) AND 0x4000 = 0" "(of_nat n :: u16) AND 0x3FFF = of_nat n"
    "unat (of_nat n :: u16) = n"
proof -
  have "take_bit 8 (of_nat n :: u16) = of_nat n" using assms by (simp add: take_bit_of_nat take_bit_nat_eq_self)
  then have "(of_nat n :: u16) = of_nat n AND 0xFF" by (simp add: take_bit_eq_mask mask_eq_exp_minus_1)
  then obtain w :: u16 where m: "(of_nat n :: u16) = w AND 0xFF" by blast
  show "unat (of_nat n :: u16) = n" using assms by (simp add: unat_of_nat take_bit_nat_eq_self)
  show "(of_nat n :: u16) AND 0x8000 = 0" "(of_nat n :: u16) AND 0x4000 = 0" "(of_nat n :: u16) AND 0x3FFF = of_nat n"
    unfolding m by (simp_all add: and.assoc)
qed

text \<open>One byte, on every branch of the handler.\<close>

lemma rx_byte_refines:
  assumes r: "rx_repr u x"
  shows "rx_repr (rx_byte c u) (rx_step c x)"
proof -
  note b = rx_len_bits [of "length (rx_bytes x)"]
  have n: "length (rx_bytes x) < 200" and st: "USART_RX_STA u = rx_mark x OR of_nat (length (rx_bytes x))"
    and bf: "\<And>i. i < length (rx_bytes x) \<Longrightarrow> USART_RX_BUF u i = rx_bytes x ! i" using r by (auto simp: rx_repr_def)
  show ?thesis
  proof (cases x)
    case (Done xs)
    have "USART_RX_STA u AND 0x8000 \<noteq> 0" using st n b(1) by (simp add: Done bit.conj_disj_distrib2)
    then show ?thesis using r by (simp add: rx_byte_def Done)
  next
    case (Cr xs)
    have s: "USART_RX_STA u AND 0x8000 = 0" "USART_RX_STA u AND 0x4000 \<noteq> 0" "USART_RX_STA u OR 0x8000 = 0xC000 OR of_nat (length xs)"
      using st n b(1,2) by (simp_all add: Cr bit.conj_disj_distrib2 or.commute [of _ 32768] flip: or.assoc)
    then show ?thesis using n bf by (auto simp: rx_byte_def Cr rx_repr_def)
  next
    case (Line xs)
    let ?n = "length xs"
    have nn: "?n < 200" using n by (simp add: Line)
    have s: "USART_RX_STA u = of_nat ?n" using st by (simp add: Line)
    have ix: "unat (USART_RX_STA u AND 0x3FFF) = ?n" "USART_RX_STA u AND 0x8000 = 0" "USART_RX_STA u AND 0x4000 = 0"
      using b nn by (simp_all add: s Line)
    have up: "199 < (of_nat ?n + 1 :: u16) \<longleftrightarrow> ?n = 199"
    proof -
      have "unat (of_nat ?n + 1 :: u16) = Suc ?n" using rx_len_bits(4) [OF nn] nn by (simp add: unat_word_ariths)
      then show ?thesis using nn by (auto simp: word_less_nat_alt)
    qed
    show ?thesis
    proof (cases "c = 0x0D")
      case True
      then show ?thesis using nn bf ix by (simp add: rx_byte_def Line rx_repr_def s or.commute)
    next
      case False
      then show ?thesis using nn bf ix up
        by (auto simp: rx_byte_def Line rx_repr_def s Let_def nth_append less_Suc_eq)
    qed
  qed
qed

text \<open>C35. The interrupt handler of the serial port implements the abstract receiver of lines, for every sequence of bytes:
  it never writes outside the 200 bytes of the buffer, and a line of fewer than 200 bytes
  without CR that is followed by CR LF is delivered unchanged, whatever arrives after it.\<close>

theorem usart_delivers_lines:
  "(\<forall>u x c. rx_repr u x \<longrightarrow> rx_repr (rx_byte c u) (rx_step c x) \<and> unat (USART_RX_STA u AND 0x3FFF) < 200) \<and>
   (\<forall>u xs rest. USART_RX_STA u = 0 \<and> length xs < 200 \<and> 0x0D \<notin> set xs \<longrightarrow>
      rx_repr (fold rx_byte (xs @ [0x0D, 0x0A] @ rest) u) (Done xs))"
proof (intro conjI allI impI)
  fix u x c assume r: "rx_repr u x"
  show "rx_repr (rx_byte c u) (rx_step c x)" using r by (rule rx_byte_refines)
  have n: "length (rx_bytes x) < 200" using r by (simp add: rx_repr_def)
  have "USART_RX_STA u AND 0x3FFF = of_nat (length (rx_bytes x))"
    using r rx_len_bits(3) [OF n] by (cases x) (simp_all add: rx_repr_def bit.conj_disj_distrib2)
  then show "unat (USART_RX_STA u AND 0x3FFF) < 200" using rx_len_bits(4) [OF n] n by simp
next
  fix u :: usart and xs rest :: "u8 list"
  assume h: "USART_RX_STA u = 0 \<and> length xs < 200 \<and> 0x0D \<notin> set xs"
  have ref: "rx_repr (fold rx_byte cs v) (fold rx_step cs x)" if "rx_repr v x" for cs v x
    using that by (induction cs arbitrary: v x) (simp_all add: rx_byte_refines)
  have line: "fold rx_step ys (Line zs) = Line (zs @ ys)" if "length (zs @ ys) < 200" "0x0D \<notin> set ys" for ys zs
    using that by (induction ys arbitrary: zs) auto
  have fin: "fold rx_step ys (Done zs) = Done zs" for ys zs by (induction ys) simp_all
  have "rx_repr u (Line [])" using h by (simp add: rx_repr_def)
  from ref [OF this, of "xs @ [0x0D, 0x0A] @ rest"]
  show "rx_repr (fold rx_byte (xs @ [0x0D, 0x0A] @ rest) u) (Done xs)" using h by (simp add: line fin)
qed

theorem usart_delivers_lines_witness:
  "rx_repr (fold rx_byte [0x68, 0x69, 0x0D, 0x0A, 0x41] \<lparr>USART_RX_BUF = (\<lambda>_. 0), USART_RX_STA = 0\<rparr>) (Done [0x68, 0x69])"
  using conjunct2 [OF usart_delivers_lines, rule_format, of "\<lparr>USART_RX_BUF = (\<lambda>_. 0), USART_RX_STA = 0\<rparr>" "[0x68, 0x69]" "[0x41]"] by simp

end
