(* ===== verification/Delay.thy ===== *)
theory Delay
  imports OsTime
begin

text \<open>
  Delays, demo/SYSTEM/delay/delay.c in the configuration with uC/OS-II. The SysTick counter is the hardware's: \<open>val k\<close> is the
  value the \<open>k\<close>-th read of its register yields. \<open>irqs\<close> is what the interrupts do to the kernel's state while a delay is
  waiting with the scheduler locked.
\<close>

record delay =
  fac_us :: u8
  fac_ms :: u16
  SysTick_LOAD :: u32

definition delay_init :: "u8 \<Rightarrow> delay \<Rightarrow> delay" where
  "delay_init SYSCLK d =
    (let d1 = d\<lparr>fac_us := SYSCLK div 8\<rparr>;
         reload = ucast (SYSCLK div 8) * (1000000 div OS_TICKS_PER_SEC)
     in d1\<lparr>fac_ms := 1000 div 200, SysTick_LOAD := reload\<rparr>)"

text \<open>The loop of \<open>delay_us\<close>; the result is the number of the read that ended it. \<open>None\<close> is a loop that does not end.\<close>

partial_function (option) us_loop :: "(nat \<Rightarrow> u32) \<Rightarrow> u32 \<Rightarrow> u32 \<Rightarrow> nat \<Rightarrow> u32 \<Rightarrow> u32 \<Rightarrow> nat option" where
  "us_loop val reload nticks k told tcnt =
    (let tnow = val k in
     if tnow \<noteq> told then
       let tcnt1 = (if tnow < told then tcnt + (told - tnow) else tcnt + (reload - tnow + told))
       in if nticks \<le> tcnt1 then Some k else us_loop val reload nticks (k + 1) tnow tcnt1
     else us_loop val reload nticks (k + 1) told tcnt)"

definition delay_us :: "(nat \<Rightarrow> u32) \<Rightarrow> (os \<Rightarrow> os) \<Rightarrow> u32 \<Rightarrow> delay \<Rightarrow> os \<Rightarrow> (nat \<times> os) option" where
  "delay_us val irqs nus d s =
    (let nticks = nus * ucast (fac_us d);
         s1 = OSSchedLock s
     in case us_loop val (SysTick_LOAD d) nticks 1 (val 0) 0 of
          None \<Rightarrow> None
        | Some k \<Rightarrow> Some (k, OSSchedUnlock (irqs s1)))"

text \<open>\<open>delay_ms\<close> up to its busy wait: the state after the kernel's delay, if there is one, and the microseconds that remain.\<close>

definition delay_ms :: "u16 \<Rightarrow> delay \<Rightarrow> os \<Rightarrow> u32 \<times> os" where
  "delay_ms nms d s =
    (if OSRunning s \<and> OSIntNesting s = 0 then
       let s1 = (if fac_ms d \<le> nms then OSTimeDly (ucast (nms div fac_ms d)) s else s)
       in (ucast (nms mod fac_ms d) * 1000, s1)
     else (ucast nms * 1000, s))"

section \<open>The counter\<close>

text \<open>The SysTick counter with reload value \<open>R\<close> at time \<open>t\<close>: it counts down from \<open>R\<close> to 0 and starts again.\<close>

definition systick :: "nat \<Rightarrow> nat \<Rightarrow> u32" where
  "systick R t = of_nat (R - t mod (R + 1))"

lemma unat_systick: "R < 16777216 \<Longrightarrow> unat (systick R t) = R - t mod (R + 1)"
  by (simp add: systick_def unat_of_nat take_bit_nat_eq_self del: of_nat_diff)

text \<open>What the loop adds to its counter between two reads.\<close>

definition tick_inc :: "u32 \<Rightarrow> u32 \<Rightarrow> u32 \<Rightarrow> u32" where
  "tick_inc reload told tnow = (if tnow < told then told - tnow else reload - tnow + told)"

text \<open>The time between two times less the reloads of the counter in between, each of which the loop misses by one.\<close>

definition counted :: "nat \<Rightarrow> nat \<Rightarrow> nat \<Rightarrow> nat" where
  "counted R t t' = (t' - t) - (t' div (R + 1) - t div (R + 1))"

lemma div_growth: "t \<le> t' \<Longrightarrow> t' div (R + 1) - t div (R + 1) \<le> t' - (t::nat)"
proof (induction t')
  case (Suc t')
  have "Suc t' div (R + 1) \<le> Suc (t' div (R + 1))"
    by (metis Suc_eq_plus1 add.commute add_le_mono1 div_le_mono div_self le_add1 mult_1 plus_1_eq_Suc div_add_self1 nat.distinct(1) Suc_le_mono)
  then show ?case using Suc by (cases "t = Suc t'") auto
qed simp

lemma counted_step:
  assumes R: "0 < R" "R < 16777216" and t: "t < t'" "t' - t \<le> R"
  shows "systick R t' \<noteq> systick R t" "unat (tick_inc (of_nat R) (systick R t) (systick R t')) = counted R t t'"
    "counted R t t' \<le> R" 
proof -
  define P a d where "P = R + 1" and "a = t mod P" and "d = t' - t"
  have P: "0 < P" "R < P" by (simp_all add: P_def)
  have a: "a \<le> R" using mod_less_divisor [OF P(1), of t] by (simp add: a_def P_def)
  have d: "0 < d" "d \<le> R" "t' = t + d" using t by (simp_all add: d_def)
  have ad: "a + d < 2 * P" using a d(2) by (simp add: P_def)
  have e: "t' = P * (t div P) + (a + d)" by (simp add: a_def d(3))
  have m: "t' mod P = (a + d) mod P" "t' div P = t div P + (a + d) div P" unfolding e using P(1) by simp_all
  have w: "(a + d) mod P = (if a + d \<le> R then a + d else a + d - P)" "(a + d) div P = (if a + d \<le> R then 0 else 1)"
    using ad by (auto simp: P_def mod_if div_if)
  have c: "counted R t t' = (if a + d \<le> R then d else d - 1)"
    unfolding counted_def using m(2) w(2) d(3) by (simp add: P_def)
  then show "counted R t t' \<le> R" using d(2) by auto
  have u: "unat (systick R t) = R - a" "unat (systick R t') = R - (if a + d \<le> R then a + d else a + d - P)"
    using unat_systick [OF R(2)] m(1) w(1) by (simp_all add: a_def P_def)
  show "systick R t' \<noteq> systick R t"
  proof
    assume "systick R t' = systick R t"
    then have "unat (systick R t') = unat (systick R t)" by simp
    then show False using u a d P_def by (auto split: if_splits)
  qed
  have r: "unat (of_nat R :: u32) = R" using R by (simp add: unat_of_nat take_bit_nat_eq_self)
  show "unat (tick_inc (of_nat R) (systick R t) (systick R t')) = counted R t t'"
  proof (cases "a + d \<le> R")
    case True
    then have "systick R t' < systick R t" using u d by (simp add: word_less_nat_alt)
    then show ?thesis using True u d c by (simp add: tick_inc_def unat_sub_if_size word_le_nat_alt word_less_nat_alt)
  next
    case False
    have n: "\<not> systick R t' < systick R t" using False u a d by (simp add: word_less_nat_alt P_def)
    have "unat (of_nat R - systick R t') = a + d - P"
      using u False a d r by (auto simp: unat_sub_if_size word_le_nat_alt P_def)
    then show ?thesis using n u False a d R c by (simp add: tick_inc_def unat_word_ariths P_def)
  qed
qed

lemma counted_add:
  assumes "t \<le> t'" "t' \<le> t''"
  shows "counted R t t'' = counted R t t' + counted R t' t''"
  using div_growth [OF assms(1), of R] div_growth [OF assms(2), of R] assms
    div_le_mono [OF assms(1), of "R + 1"] div_le_mono [OF assms(2), of "R + 1"] by (simp add: counted_def)

lemma counted_two:
  assumes "0 < R" "t + 2 \<le> t'"
  shows "1 \<le> counted R t t'"
proof -
  have "(t + 2) div (R + 1) \<le> (t + (R + 1)) div (R + 1)" using assms(1) by (intro div_le_mono) simp
  also have "\<dots> = t div (R + 1) + 1" by (rule div_add_self2) simp
  finally have "(t + 2) div (R + 1) \<le> t div (R + 1) + 1" .
  then have "1 \<le> counted R t (t + 2)" by (simp add: counted_def)
  then show ?thesis using counted_add [of t "t + 2" t' R] assms(2) by simp
qed

section \<open>The loop\<close>

text \<open>The reads of the register: at strictly increasing times, and never a whole period of the counter apart.\<close>

definition sampled :: "nat \<Rightarrow> (nat \<Rightarrow> nat) \<Rightarrow> (nat \<Rightarrow> u32) \<Rightarrow> bool" where
  "sampled R T val \<longleftrightarrow> 0 < R \<and> R < 16777216 \<and> (\<forall>k. val k = systick R (T k) \<and> T k < T (k + 1) \<and> T (k + 1) - T k \<le> R)"

lemma sampled_mono: "sampled R T val \<Longrightarrow> j \<le> k \<Longrightarrow> T j + (k - j) \<le> T k"
proof (induction k)
  case (Suc k)
  then show ?case using Suc unfolding sampled_def by (cases "j = Suc k") (auto simp: Suc_diff_le dest: spec [of _ k])
qed simp

lemma counted_grows: "sampled R T val \<Longrightarrow> m \<le> counted R (T 0) (T (2 * m))"
proof (induction m)
  case (Suc m)
  have "T 0 \<le> T (2 * m)" using sampled_mono [OF Suc.prems, of 0 "2 * m"] by simp
  moreover have t: "T (2 * m) + 2 \<le> T (2 * Suc m)" using sampled_mono [OF Suc.prems, of "2 * m" "2 * Suc m"] by simp
  moreover have "1 \<le> counted R (T (2 * m)) (T (2 * Suc m))" using Suc.prems t by (intro counted_two) (simp_all add: sampled_def)
  ultimately show ?case using Suc.IH [OF Suc.prems] counted_add [of "T 0" "T (2 * m)" "T (2 * Suc m)" R] by simp
qed simp

lemma us_loop_step:
  assumes sm: "sampled R T val" and c: "unat c = counted R (T 0) (T k)" "unat c \<le> 4278190080"
  shows "unat (c + tick_inc (of_nat R) (val k) (val (k + 1))) = counted R (T 0) (T (k + 1))"
    "us_loop val (of_nat R) n (k + 1) (val k) c =
      (if n \<le> c + tick_inc (of_nat R) (val k) (val (k + 1)) then Some (k + 1)
       else us_loop val (of_nat R) n (k + 1 + 1) (val (k + 1)) (c + tick_inc (of_nat R) (val k) (val (k + 1))))"
proof -
  have R: "0 < R" "R < 16777216" and v: "val k = systick R (T k)" "val (k + 1) = systick R (T (k + 1))"
    and T: "T k < T (k + 1)" "T (k + 1) - T k \<le> R" using sm by (auto simp: sampled_def)
  note s = counted_step [OF R T, folded v]
  have "T 0 \<le> T k" using sampled_mono [OF sm, of 0 k] by simp
  then have a: "counted R (T 0) (T (k + 1)) = unat c + counted R (T k) (T (k + 1))"
    using counted_add [of "T 0" "T k" "T (k + 1)" R] T c(1) by simp
  have "unat c + counted R (T k) (T (k + 1)) < 4294967296" using s(3) c(2) R(2) by linarith
  then show "unat (c + tick_inc (of_nat R) (val k) (val (k + 1))) = counted R (T 0) (T (k + 1))"
    unfolding a by (simp add: unat_word_ariths s(2) [simplified])
  show "us_loop val (of_nat R) n (k + 1) (val k) c =
      (if n \<le> c + tick_inc (of_nat R) (val k) (val (k + 1)) then Some (k + 1)
       else us_loop val (of_nat R) n (k + 1 + 1) (val (k + 1)) (c + tick_inc (of_nat R) (val k) (val (k + 1))))"
    using s(1) by (subst us_loop.simps) (simp add: Let_def tick_inc_def)
qed

lemma us_loop_ends:
  assumes sm: "sampled R T val" and n: "unat n \<le> 4278190080" and j: "unat n \<le> counted R (T 0) (T j)"
    and b: "\<And>i. k < i \<Longrightarrow> i < j \<Longrightarrow> counted R (T 0) (T i) < unat n"
    and k: "k < j" and c: "unat c = counted R (T 0) (T k)" "unat c \<le> 4278190080"
  shows "us_loop val (of_nat R) n (k + 1) (val k) c = Some j"
  using b k c
proof (induction "j - k" arbitrary: k c)
  case (Suc m k c)
  note s = us_loop_step(1) [OF sm Suc.prems(3,4)] us_loop_step(2) [OF sm Suc.prems(3,4), where n = n]
  let ?c = "c + tick_inc (of_nat R) (val k) (val (k + 1))"
  show ?case
  proof (cases "k + 1 = j")
    case True
    then have "n \<le> ?c" using s(1) j by (simp add: word_le_nat_alt)
    then show ?thesis using s(2) True by simp
  next
    case False
    then have lt: "k + 1 < j" using Suc.prems(2) by simp
    have "unat ?c < unat n" using Suc.prems(1) [of "k + 1"] lt s(1) by simp
    then have "\<not> n \<le> ?c" "unat ?c \<le> 4278190080" using n by (simp_all add: word_le_nat_alt)
    moreover have "us_loop val (of_nat R) n (k + 1 + 1) (val (k + 1)) ?c = Some j"
      using Suc.hyps(2) Suc.prems(1) lt s(1) calculation(2) by (intro Suc.hyps(1)) simp_all
    ultimately show ?thesis using s(2) by simp
  qed
qed simp

text \<open>The product the loop waits for is computed in 32 bits.\<close>

lemma delay_us_reads:
  assumes sm: "sampled R T val" and d: "SysTick_LOAD d = of_nat R" and n: "unat nus * unat (fac_us d) mod 4294967296 \<le> 4278190080"
  shows "\<exists>j>0. delay_us val irqs nus d s = Some (j, OSSchedUnlock (irqs (OSSchedLock s))) \<and>
    unat nus * unat (fac_us d) mod 4294967296 \<le> counted R (T 0) (T j) \<and> counted R (T 0) (T j) \<le> T j - T 0 \<and>
    (\<forall>i. 0 < i \<and> i < j \<longrightarrow> counted R (T 0) (T i) < unat nus * unat (fac_us d) mod 4294967296)"
proof -
  let ?n = "unat nus * unat (fac_us d) mod 4294967296" and ?w = "nus * ucast (fac_us d) :: u32"
  have "unat (ucast (fac_us d) :: u32) = unat (fac_us d)"
    using unat_u8_lt [of "fac_us d"] by (simp add: unsigned_ucast_eq unsigned_take_bit_eq take_bit_nat_eq_self)
  then have w: "unat ?w = ?n" by (simp add: unat_word_ariths)
  define j where "j = (LEAST j. 0 < j \<and> ?n \<le> counted R (T 0) (T j))"
  have "\<exists>j. 0 < j \<and> ?n \<le> counted R (T 0) (T j)"
    using counted_grows [OF sm, of "Suc ?n"] by (intro exI [of _ "2 * Suc ?n"]) simp
  then have j12: "0 < j \<and> ?n \<le> counted R (T 0) (T j)" unfolding j_def by (rule LeastI_ex)
  then have j: "0 < j" "?n \<le> counted R (T 0) (T j)" "\<And>i. 0 < i \<Longrightarrow> i < j \<Longrightarrow> counted R (T 0) (T i) < ?n"
    using not_less_Least [of _ "\<lambda>j. 0 < j \<and> ?n \<le> counted R (T 0) (T j)"] by (auto simp: not_le simp flip: j_def)
  have "us_loop val (of_nat R) ?w (0 + 1) (val 0) 0 = Some j"
    by (rule us_loop_ends [OF sm]) (use j n w in \<open>simp_all add: counted_def\<close>)
  moreover have "counted R (T 0) (T j) \<le> T j - T 0" by (simp add: counted_def)
  ultimately show ?thesis using j by (intro exI [of _ j]) (auto simp: delay_us_def Let_def d)
qed

text \<open>A delay of 204522253 us (204.5 s) at 168 MHz is over after 17 ticks, less than a microsecond.\<close>

lemma delay_us_wraps:
  assumes "sampled R T val" "SysTick_LOAD d = of_nat R" "fac_us d = 21"
  shows "\<exists>j>0. delay_us val irqs 204522253 d s = Some (j, OSSchedUnlock (irqs (OSSchedLock s))) \<and> (\<forall>i. 0 < i \<and> i < j \<longrightarrow> counted R (T 0) (T i) < 17)"
  using delay_us_reads [OF assms(1,2), of 204522253 irqs s] by (auto simp: assms(3))

text \<open>C39. \<open>delay_us\<close> ends: with reads of the SysTick counter at times \<open>T 0 < T 1 < \<dots>\<close>, each less than a period of the counter after the one
  before, it returns at the first read (after the first one) at which the time that has passed, less one tick for every reload of the
  counter, has reached the value of \<open>nus * fac_us\<close> in 32 bits, when that value is at most \<open>0xFF000000\<close> (beyond it the count of the loop itself may
  wrap). So it does not return too early if the product of the integers is at most \<open>0xFF000000\<close> ticks; a delay whose product does not fit
  into 32 bits is cut to what is left of it (\<open>delay_us_wraps\<close>: 204522253 us at 21 ticks for each end after 17 ticks).\<close>

theorem delay_us_exact:
  assumes sm: "sampled R T val" and d: "SysTick_LOAD d = of_nat R" and n: "unat nus * unat (fac_us d) mod 4294967296 \<le> 4278190080"
  shows "\<exists>j>0. delay_us val irqs nus d s = Some (j, OSSchedUnlock (irqs (OSSchedLock s))) \<and>
    unat nus * unat (fac_us d) mod 4294967296 \<le> counted R (T 0) (T j) \<and>
    (\<forall>i. 0 < i \<and> i < j \<longrightarrow> counted R (T 0) (T i) < unat nus * unat (fac_us d) mod 4294967296) \<and>
    (unat nus * unat (fac_us d) \<le> 4278190080 \<longrightarrow> unat nus * unat (fac_us d) \<le> T j - T 0)"
proof -
  obtain j where j: "0 < j" "delay_us val irqs nus d s = Some (j, OSSchedUnlock (irqs (OSSchedLock s)))"
    "unat nus * unat (fac_us d) mod 4294967296 \<le> counted R (T 0) (T j)" "counted R (T 0) (T j) \<le> T j - T 0"
    "\<forall>i. 0 < i \<and> i < j \<longrightarrow> counted R (T 0) (T i) < unat nus * unat (fac_us d) mod 4294967296"
    using delay_us_reads [OF sm d n, of irqs s] by blast
  then show ?thesis by (intro exI [of _ j]) auto
qed

text \<open>Reads every 10 ticks of a counter of period 105001.\<close>

definition ex_val :: "nat \<Rightarrow> u32" where "ex_val k = systick 105000 (10 * k)"

lemma ex_sampled: "sampled 105000 (\<lambda>k. 10 * k) ex_val"
  by (simp add: sampled_def ex_val_def)

lemma delay_init_168:
  "fac_us (delay_init 168 d) = 21" "fac_ms (delay_init 168 d) = 5" "SysTick_LOAD (delay_init 168 d) = 105000"
  by (simp_all add: delay_init_def Let_def)

abbreviation "delay_bss \<equiv> \<lparr>fac_us = 0, fac_ms = 0, SysTick_LOAD = 0\<rparr>"

theorem delay_us_exact_witness:
  "\<exists>j>0. delay_us ex_val id 2 (delay_init 168 delay_bss) os_bss = Some (j, OSSchedUnlock (OSSchedLock os_bss)) \<and> 42 \<le> 10 * j"
proof -
  have l: "SysTick_LOAD (delay_init 168 delay_bss) = of_nat 105000" "unat (2::u32) * unat (fac_us (delay_init 168 delay_bss)) mod 4294967296 \<le> 4278190080"
    by (simp_all add: delay_init_168)
  obtain j where "j > 0" "delay_us ex_val id 2 (delay_init 168 delay_bss) os_bss = Some (j, OSSchedUnlock (id (OSSchedLock os_bss)))"
    "unat (2::u32) * unat (fac_us (delay_init 168 delay_bss)) \<le> 10 * j - 10 * 0"
    using delay_us_exact [OF ex_sampled l, of id os_bss] by (auto simp: delay_init_168)
  then show ?thesis by (auto simp: delay_init_168)
qed

text \<open>With the initialisation the program uses, a SysTick period is 5 ms (up to one count of the 105001), and at task level
  \<open>delay_ms\<close> divides its argument without loss: kernel ticks of 5 ms and a busy wait of less than 5 ms.\<close>

theorem delay_ms_divides:
  assumes "OSRunning s" "OSIntNesting s = 0"
  shows "\<exists>k us. delay_ms nms (delay_init 168 d) s = (us, OSTimeDly k s) \<and> unat us < 5000 \<and>
    1000 * unat nms = 5000 * unat k + unat us"
proof -
  let ?k = "ucast (nms div 5) :: u32" and ?us = "ucast (nms mod 5) * 1000 :: u32"
  have "unat (ucast w :: u32) = unat w" for w :: u16
    using unat_u16_lt [of w] by (simp add: unsigned_ucast_eq unsigned_take_bit_eq take_bit_nat_eq_self)
  then have u: "unat ?k = unat nms div 5" "unat (ucast (nms mod 5) :: u32) = unat nms mod 5" by (simp_all add: unat_div unat_mod)
  have us: "unat ?us = 1000 * (unat nms mod 5)"
    using u(2) mod_less_divisor [of 5 "unat nms"] by (simp add: unat_word_ariths)
  have "(if 5 \<le> nms then OSTimeDly ?k s else s) = OSTimeDly ?k s"
  proof (cases "5 \<le> nms")
    case False
    then have "unat ?k = 0" unfolding u(1) by (simp add: word_le_nat_alt)
    then have "?k = 0" by (simp add: unat_eq_0)
    then show ?thesis using False by (simp add: OSTimeDly_def)
  qed simp
  then have "delay_ms nms (delay_init 168 d) s = (?us, OSTimeDly ?k s)" 
    using assms unfolding delay_ms_def delay_init_168 Let_def by simp
  moreover have "1000 * unat nms = 5000 * unat ?k + unat ?us" unfolding u(1) us using div_mult_mod_eq [of "unat nms" 5] by linarith
  moreover have "unat ?us < 5000" unfolding us by simp
  ultimately show ?thesis by blast
qed

theorem delay_ms_divides_witness:
  "\<exists>k us. delay_ms 17 (delay_init 168 delay_bss) (ex_os OS_EVENT_TYPE_SEM 0 PNull True) =
     (us, OSTimeDly k (ex_os OS_EVENT_TYPE_SEM 0 PNull True)) \<and> 17000 = 5000 * unat k + unat us"
  using delay_ms_divides [of "ex_os OS_EVENT_TYPE_SEM 0 PNull True" 17] by (fastforce simp: ex_os_def os_bss_def)

end
