(* ===== verification/DatahubTimer.thy ===== *)
theory DatahubTimer
  imports OsTime
begin

text \<open>
  The timers the DataHub client library asks of the program, demo/USER/DatahubTimer.c: a timer holds
  the tick count at which it expires. Unsigned and signed integers have 32 bits; the result of \<open>left_ms\<close>, an \<open>int\<close>, is
  given by its bits.
\<close>

record timer =
  timer_end :: u32

definition expired :: "timer \<Rightarrow> os \<Rightarrow> u8" where
  "expired timer s =
    (let now = OSTimeGet s; res = timer_end timer - now
     in if sint res \<le> 0 then 1 else 0)"

definition countdown_ms :: "u32 \<Rightarrow> os \<Rightarrow> timer \<Rightarrow> timer" where
  "countdown_ms timeout s timer =
    (let count = timeout * OS_TICKS_PER_SEC div 1000;
         count' = (if count = 0 then 1 else count);
         now = OSTimeGet s
     in timer\<lparr>timer_end := now + count'\<rparr>)"

definition countdown :: "u32 \<Rightarrow> os \<Rightarrow> timer \<Rightarrow> timer" where
  "countdown timeout s timer =
    (let count = timeout * OS_TICKS_PER_SEC in timer\<lparr>timer_end := OSTimeGet s + count\<rparr>)"

definition left_ms :: "timer \<Rightarrow> os \<Rightarrow> u32" where
  "left_ms timer s =
    (let now = OSTimeGet s; res = timer_end timer - now
     in if sint res < 0 then 0 else res * (1000 div OS_TICKS_PER_SEC))"

definition InitTimer :: "timer \<Rightarrow> timer" where
  "InitTimer timer = timer\<lparr>timer_end := 0\<rparr>"

section \<open>Time that passes\<close>

lemma ticks_time:
  assumes "ksafe s" "tlist_ok s" "OSTickStepState s = OS_TICK_STEP_DIS" "OSIntNesting s < 255"
  shows "\<exists>s'. ticks k s = Some s' \<and> ksafe s' \<and> OSTime s' = OSTime s + of_nat k"
  using assms
proof (induction k arbitrary: s)
  case (Suc k)
  obtain s1 where r: "SysTick_Handler s = Some s1" "ksafe s1" "tlist_ok s1" "OSTickStepState s1 = OS_TICK_STEP_DIS"
    "OSIntNesting s1 = OSIntNesting s" "OSTime s1 = OSTime s + 1"
    using SysTick_ends [OF Suc.prems] by auto
  show ?case using Suc.IH [OF r(2-4)] Suc.prems(4) r by (auto simp: algebra_simps)
qed simp

lemma sint_u32: "- 2147483648 \<le> x \<Longrightarrow> x < 2147483648 \<Longrightarrow> sint (of_int x :: u32) = x"
  by (simp add: sint_sbintrunc' signed_take_bit_int_eq_self)

lemma sint_difference:
  assumes "n < 2147483648" "k < 2147483648"
  shows "sint (t + of_nat n - (t + of_nat k) :: u32) = int n - int k"
proof -
  have "(t + of_nat n - (t + of_nat k) :: u32) = of_int (int n - int k)" by simp
  then show ?thesis using assms by (simp only: sint_u32)
qed

lemma timer_reading:
  assumes "timer_end tm = OSTime s + of_nat n" "OSTime s' = OSTime s + of_nat k" "n \<le> 429496729" "k < 2147483648"
  shows "expired tm s' = 1 \<longleftrightarrow> n \<le> k" "sint (left_ms tm s') = 5 * int (n - k)"
proof -
  have d: "sint (timer_end tm - OSTime s') = int n - int k" unfolding assms(1,2) using assms by (intro sint_difference) simp_all
  show "expired tm s' = 1 \<longleftrightarrow> n \<le> k" by (simp add: expired_def OSTimeGet_def d)
  show "sint (left_ms tm s') = 5 * int (n - k)"
  proof (cases "n < k")
    case True
    then show ?thesis by (simp add: left_ms_def OSTimeGet_def d)
  next
    case False
    have "(timer_end tm - OSTime s') * 5 = (of_int (5 * (int n - int k)) :: u32)" by (simp add: assms(1,2))
    moreover have "sint (of_int (5 * (int n - int k)) :: u32) = 5 * (int n - int k)"
      using assms False by (intro sint_u32) simp_all
    ultimately show ?thesis using False by (simp add: left_ms_def OSTimeGet_def d of_nat_diff)
  qed
qed

lemma countdown_ms_ticks:
  assumes "timeout \<le> 21474836"
  shows "timer_end (countdown_ms timeout s tm) = OSTime s + of_nat (max 1 (unat timeout div 5))"
proof -
  have t: "unat timeout \<le> 21474836" using assms by (simp add: word_le_nat_alt)
  have u: "unat (timeout * 200 div 1000) = unat timeout div 5"
    using t by (simp add: unat_div unat_word_ariths div_mult2_eq [symmetric])
  have c: "timeout * 200 div 1000 = of_nat (unat timeout div 5)" unfolding u [symmetric] by simp
  have "timeout * 200 div 1000 = 0 \<longleftrightarrow> unat timeout div 5 = 0" using u by (metis unat_0 unat_eq_0)
  then show ?thesis by (simp add: countdown_ms_def OSTimeGet_def c max_def Let_def)
qed

text \<open>C36. A timer set by \<open>countdown_ms\<close> for at most 21474836 ms expires exactly after the number of ticks of the kernel clock (5 ms
  each, at least one) that the request amounts to, also when the tick counter wraps around, and \<open>left_ms\<close> counts down
  to it in steps of 5; \<open>countdown\<close> does the same for seconds. The clock is read within \<open>2^31\<close> ticks.\<close>

theorem timer_expires_exactly:
  assumes ok: "ksafe s" "tlist_ok s" "OSTickStepState s = OS_TICK_STEP_DIS" "OSIntNesting s < 255"
    and ms: "ms \<le> 21474836" and sec: "sec \<le> 2147483" and k: "k < 2147483648"
  shows "\<exists>s'. ticks k s = Some s' \<and>
    (expired (countdown_ms ms s tm) s' = 1 \<longleftrightarrow> max 1 (unat ms div 5) \<le> k) \<and>
    sint (left_ms (countdown_ms ms s tm) s') = 5 * int (max 1 (unat ms div 5) - k) \<and>
    (expired (countdown sec s tm) s' = 1 \<longleftrightarrow> 200 * unat sec \<le> k) \<and>
    sint (left_ms (countdown sec s tm) s') = 5 * int (200 * unat sec - k)"
proof -
  obtain s' where s': "ticks k s = Some s'" "OSTime s' = OSTime s + of_nat k" using ticks_time [OF ok] by blast
  have m: "max 1 (unat ms div 5) \<le> 429496729" using ms by (simp add: word_le_nat_alt)
  have e: "timer_end (countdown sec s tm) = OSTime s + of_nat (200 * unat sec)"
    by (simp add: countdown_def OSTimeGet_def mult.commute)
  have "200 * unat sec \<le> 429496729" using sec by (simp add: word_le_nat_alt)
  then show ?thesis using s' timer_reading [OF countdown_ms_ticks [OF ms] s'(2) m k] timer_reading [OF e s'(2) _ k] by blast
qed

theorem timer_expires_exactly_witness:
  "\<exists>s'. ticks 3 (ex_os OS_EVENT_TYPE_SEM 0 PNull True) = Some s' \<and>
     (expired (countdown_ms 12 (ex_os OS_EVENT_TYPE_SEM 0 PNull True) \<lparr>timer_end = 0\<rparr>) s' = 1)"
  using timer_expires_exactly [of "ex_os OS_EVENT_TYPE_SEM 0 PNull True" 12 1 3 "\<lparr>timer_end = 0\<rparr>"]
  by (auto simp: ex_facts ex_tlist ex_step stat_mask_def)

text \<open>The product of \<open>countdown_ms\<close> has 32 bits: a request of 21474837 ms (six hours) is taken for one tick.\<close>

theorem countdown_ms_wraps:
  "timer_end (countdown_ms 21474837 s tm) = OSTime s + 1"
  by (simp add: countdown_ms_def OSTimeGet_def Let_def)

end
