(* ===== verification/DatahubNetwork.thy ===== *)
theory DatahubNetwork
  imports Prelude
begin

text \<open>
  The network functions the program hands to the DataHub client library, demo/USER/DatahubNetwork.c, and the
  thread that uses the library, \<open>data_thread\<close> of demo/USER/datahub_demo.c. The socket layer and the library are
  parameters: functions on a state of the network (\<open>'n\<close>) or of the client (\<open>'c\<close>). The output of \<open>printf\<close> is
  not modelled. The structure \<open>Network\<close> holds the pointer to the socket number and the three functions.
\<close>

section \<open>The structures\<close>

record self_s =
  socket_nr :: int

definition self_init :: "self_s \<Rightarrow> self_s" where
  "self_init self = self\<lparr>socket_nr := - 1\<rparr>"

text \<open>The functions a structure \<open>Network\<close> points to.\<close>

datatype netfn = Ucos_read | Ucos_write | Ucos_disconnect

record 'd network =
  net_data :: 'd
  net_read :: netfn
  net_write :: netfn
  net_disconnect :: netfn

definition NewNetwork :: "'d \<Rightarrow> 'd network \<Rightarrow> 'd network" where
  "NewNetwork data net = net\<lparr>net_data := data, net_read := Ucos_read, net_write := Ucos_write, net_disconnect := Ucos_disconnect\<rparr>"

section \<open>Reading and writing\<close>

text \<open>The loop of \<open>ucos_read\<close>: \<open>recv sock n\<close> yields the number of bytes received, at most the \<open>n\<close> asked for, or 0 or
  a negative number, and the bytes. The result is the value returned, the buffer and the network; \<open>None\<close> is a loop
  that does not end.\<close>

partial_function (option) read_loop ::
  "(int \<Rightarrow> int \<Rightarrow> 'n \<Rightarrow> (int \<times> u8 list) \<times> 'n) \<Rightarrow> int \<Rightarrow> int \<Rightarrow> int \<Rightarrow> (int \<Rightarrow> u8) \<Rightarrow> 'n \<Rightarrow> (int \<times> (int \<Rightarrow> u8) \<times> 'n) option" where
  "read_loop recv sock len bytes buf net =
    (if bytes < len then
       (case recv sock (len - bytes) net of
          ((rc, data), net1) \<Rightarrow>
            let buf1 = (\<lambda>i. if bytes \<le> i \<and> i < bytes + int (length data) then data ! nat (i - bytes) else buf i)
            in if 0 < rc then read_loop recv sock len (bytes + rc) buf1 net1
               else if rc = 0 then Some (- 1, buf1, net1)
               else Some (- 1, buf1, net1))
     else Some (bytes, buf, net))"

definition ucos_read where
  "ucos_read setsockopt recv sock len timeout_ms buf net =
     read_loop recv sock len 0 buf (setsockopt sock (timeout_ms::int) net)"

definition ucos_write :: "(int \<Rightarrow> int \<Rightarrow> 'n \<Rightarrow> 'n) \<Rightarrow> (int \<Rightarrow> u8 list \<Rightarrow> 'n \<Rightarrow> int \<times> 'n) \<Rightarrow> int \<Rightarrow> u8 list \<Rightarrow> int \<Rightarrow> 'n \<Rightarrow> int \<times> 'n" where
  "ucos_write setsockopt wr sock buffer timeout_ms net =
    (let (rc, net1) = wr sock buffer (setsockopt sock timeout_ms net)
     in if rc = int (length buffer) then (rc, net1) else (- 1, net1))"

definition ucos_disconnect :: "(int \<Rightarrow> 'n \<Rightarrow> 'n) \<Rightarrow> int \<Rightarrow> 'n \<Rightarrow> 'n" where
  "ucos_disconnect close sock net = close sock net"

section \<open>Connecting\<close>

text \<open>An entry of the list \<open>getaddrinfo\<close> yields: the family and the address.\<close>

record addrinfo =
  ai_family :: int
  ai_addr :: u32

abbreviation (input) "AF_INET \<equiv> 2 :: int"

text \<open>The loop that looks for the first IPv4 entry; without one, \<open>result\<close> stays the first entry of the list.\<close>

fun prefer_ip4 :: "addrinfo list \<Rightarrow> addrinfo list \<Rightarrow> addrinfo list" where
  "prefer_ip4 result [] = result"
| "prefer_ip4 result (r # rs) = (if ai_family r = AF_INET then r # rs else prefer_ip4 result rs)"

definition ConnectNetwork ::
  "(string \<Rightarrow> 'n \<Rightarrow> (int \<times> addrinfo list) \<times> 'n) \<Rightarrow> ('n \<Rightarrow> int \<times> 'n) \<Rightarrow> (int \<Rightarrow> int \<times> u32 \<times> u16 \<Rightarrow> 'n \<Rightarrow> int \<times> 'n) \<Rightarrow>
   (int \<Rightarrow> 'n \<Rightarrow> 'n) \<Rightarrow> string \<Rightarrow> u16 \<Rightarrow> int \<Rightarrow> 'n \<Rightarrow> int \<times> int \<times> 'n" where
  "ConnectNetwork getaddrinfo socket connect close addr port sock net =
    (let ((rc, result), net1) = getaddrinfo addr net in
     if rc = 0 then
       let result1 = prefer_ip4 result result;
           address = (if ai_family (hd result1) = AF_INET then (AF_INET, ai_addr (hd result1), port) else (0, 0, 0));
           (sock1, net2) = socket net1
       in if sock1 = - 1 then (- 1, sock1, net2)
          else let (rc1, net3) = connect sock1 address net2
               in if rc1 = - 1 then (- 1, sock1, close sock1 net3) else (0, sock1, net3)
     else (- 1, sock, net1))"

section \<open>The thread\<close>

text \<open>
  What \<open>data_thread\<close> calls, in order: the client library and the kernel's delay. The functions of the library
  return an error code; \<open>dly\<close> is \<open>OSTimeDlyHMSM(0, 0, 2, 0)\<close>.
\<close>

datatype call = Create int | Subscribe int | Publish int | Dly | Destroy

partial_function (option) subscribe_loop :: "('c \<Rightarrow> int \<times> 'c) \<Rightarrow> ('c \<Rightarrow> 'c) \<Rightarrow> 'c \<Rightarrow> call list \<Rightarrow> ('c \<times> call list) option" where
  "subscribe_loop subscribe dly c tr =
    (case subscribe c of (ret, c1) \<Rightarrow>
       if ret \<noteq> 0 then subscribe_loop subscribe dly (dly c1) (tr @ [Subscribe ret, Dly])
       else Some (c1, tr @ [Subscribe ret]))"

fun publish_loop :: "('c \<Rightarrow> int \<times> 'c) \<Rightarrow> ('c \<Rightarrow> 'c) \<Rightarrow> nat \<Rightarrow> 'c \<Rightarrow> call list \<Rightarrow> 'c \<times> call list" where
  "publish_loop publish dly 0 c tr = (c, tr)"
| "publish_loop publish dly (Suc n) c tr =
    (case publish c of (ret, c1) \<Rightarrow> publish_loop publish dly n (dly c1) (tr @ [Publish ret, Dly]))"

definition data_thread ::
  "('c \<Rightarrow> int \<times> 'c) \<Rightarrow> ('c \<Rightarrow> int \<times> 'c) \<Rightarrow> ('c \<Rightarrow> int \<times> 'c) \<Rightarrow> ('c \<Rightarrow> 'c) \<Rightarrow> ('c \<Rightarrow> 'c) \<Rightarrow> 'c \<Rightarrow> ('c \<times> call list) option" where
  "data_thread create subscribe publish dly destroy c =
    (case create c of (ret, c1) \<Rightarrow>
       if ret \<noteq> 0 then Some (c1, [Create ret])
       else case subscribe_loop subscribe dly c1 [Create ret] of
              None \<Rightarrow> None
            | Some (c2, tr2) \<Rightarrow>
                let (c3, tr3) = publish_loop publish dly 10 c2 tr2
                in Some (destroy c3, tr3 @ [Destroy]))"

section \<open>Properties of reading\<close>

text \<open>What the program relies on of \<open>recv\<close>: it delivers at most what is asked for, and the bytes it announces.\<close>

definition recv_ok :: "(int \<Rightarrow> int \<Rightarrow> 'n \<Rightarrow> (int \<times> u8 list) \<times> 'n) \<Rightarrow> bool" where
  "recv_ok recv \<longleftrightarrow> (\<forall>sock n net rc data net1. 0 < n \<and> recv sock n net = ((rc, data), net1) \<longrightarrow>
     rc \<le> n \<and> length data = nat rc)"

text \<open>The chunks a stream of calls delivers: the reference for the loop.\<close>

fun chunks :: "(int \<Rightarrow> int \<Rightarrow> 'n \<Rightarrow> (int \<times> u8 list) \<times> 'n) \<Rightarrow> int \<Rightarrow> nat \<Rightarrow> int \<Rightarrow> 'n \<Rightarrow> u8 list option" where
  "chunks recv sock fuel n net =
    (if n \<le> 0 then Some []
     else case fuel of
       0 \<Rightarrow> None
     | Suc fuel' \<Rightarrow>
       (case recv sock n net of ((rc, data), net1) \<Rightarrow>
          if rc \<le> 0 then None else map_option ((@) data) (chunks recv sock fuel' (n - rc) net1)))"

declare chunks.simps [simp del]

definition got :: "int \<Rightarrow> u8 list \<Rightarrow> (int \<Rightarrow> u8) \<Rightarrow> (int \<Rightarrow> u8) \<Rightarrow> bool" where
  "got b xs buf buf' \<longleftrightarrow> (\<forall>i. buf' i = (if b \<le> i \<and> i < b + int (length xs) then xs ! nat (i - b) else buf i))"

lemma read_loop_chunks:
  assumes ok: "recv_ok recv" and f: "nat (len - bytes) \<le> fuel"
  shows "\<exists>r buf' net'. read_loop recv sock len bytes buf net = Some (r, buf', net') \<and>
    (\<forall>i. i < bytes \<or> max bytes len \<le> i \<longrightarrow> buf' i = buf i) \<and>
    (case chunks recv sock fuel (len - bytes) net of
       None \<Rightarrow> r = - 1
     | Some xs \<Rightarrow> r = max bytes len \<and> length xs = nat (len - bytes) \<and> got bytes xs buf buf')"
  using f
proof (induction fuel arbitrary: bytes buf net)
  case 0
  then show ?case by (subst read_loop.simps, subst chunks.simps) (auto simp: got_def)
next
  case (Suc fuel)
  show ?case
  proof (cases "bytes < len")
    case False
    then show ?thesis by (subst read_loop.simps, subst chunks.simps) (auto simp: got_def)
  next
    case True
    obtain rc data net1 where r: "recv sock (len - bytes) net = ((rc, data), net1)" by (metis surj_pair)
    have rc: "rc \<le> len - bytes" "length data = nat rc" using ok True r unfolding recv_ok_def by (metis diff_gt_0_iff_gt)+
    define buf1 where "buf1 = (\<lambda>i. if bytes \<le> i \<and> i < bytes + int (length data) then data ! nat (i - bytes) else buf i)"
    show ?thesis
    proof (cases "0 < rc")
      case False
      then have "data = []" using rc(2) by simp
      then show ?thesis using True False r by (subst read_loop.simps, subst chunks.simps) (simp add: Let_def)
    next
      case pos: True
      have "nat (len - (bytes + rc)) \<le> fuel" using Suc.prems pos by simp
      from Suc.IH [OF this, of buf1 net1] obtain r' buf' net' where
        ih: "read_loop recv sock len (bytes + rc) buf1 net1 = Some (r', buf', net')"
        "\<And>i. i < bytes + rc \<or> max (bytes + rc) len \<le> i \<Longrightarrow> buf' i = buf1 i"
        "case chunks recv sock fuel (len - (bytes + rc)) net1 of None \<Rightarrow> r' = - 1
         | Some xs \<Rightarrow> r' = max (bytes + rc) len \<and> length xs = nat (len - (bytes + rc)) \<and> got (bytes + rc) xs buf1 buf'"
        by blast
      have l: "read_loop recv sock len bytes buf net = Some (r', buf', net')"
        using True pos r ih(1) by (subst read_loop.simps) (simp add: Let_def buf1_def)
      have o: "buf' i = buf i" if "i < bytes \<or> max bytes len \<le> i" for i
        using that ih(2) [of i] rc pos True by (auto simp: buf1_def)
      have c: "chunks recv sock (Suc fuel) (len - bytes) net = map_option ((@) data) (chunks recv sock fuel (len - (bytes + rc)) net1)"
        using True pos r by (subst chunks.simps) (simp add: algebra_simps)
      show ?thesis
      proof (cases "chunks recv sock fuel (len - (bytes + rc)) net1")
        case None
        then show ?thesis using l o c ih(3) by auto
      next
        case (Some xs)
        have g: "got (bytes + rc) xs buf1 buf'" and n: "length xs = nat (len - (bytes + rc))" "r' = len" using ih(3) rc(1) by (auto simp: Some)
        have ix: "nat (i - bytes) - nat rc = nat (i - (bytes + rc))" for i using pos by arith
        have "got bytes (data @ xs) buf buf'"
          using g rc pos ix unfolding got_def buf1_def by (auto simp: nth_append algebra_simps)
        then show ?thesis using l o c n rc pos True by (auto simp: Some)
      qed
    qed
  qed
qed

text \<open>C37. \<open>ucos_read\<close> returns, whatever the network does: either the number of bytes asked for, and then the buffer holds
  exactly the bytes received, in order, or -1. Outside the \<open>len\<close> bytes it may fill the buffer is unchanged.\<close>

theorem ucos_read_exact:
  assumes ok: "recv_ok recv" and len: "0 \<le> len"
  shows "\<exists>r buf' net'. ucos_read setsockopt recv sock len timeout_ms buf net = Some (r, buf', net') \<and>
    (\<forall>i. i < 0 \<or> len \<le> i \<longrightarrow> buf' i = buf i) \<and>
    (case chunks recv sock (nat len) len (setsockopt sock timeout_ms net) of
       None \<Rightarrow> r = - 1
     | Some xs \<Rightarrow> r = len \<and> length xs = nat len \<and> (\<forall>i < nat len. buf' (int i) = xs ! i))"
proof -
  obtain r buf' net' where "ucos_read setsockopt recv sock len timeout_ms buf net = Some (r, buf', net')"
    "\<forall>i. i < 0 \<or> len \<le> i \<longrightarrow> buf' i = buf i"
    "case chunks recv sock (nat len) len (setsockopt sock timeout_ms net) of None \<Rightarrow> r = - 1
     | Some xs \<Rightarrow> r = len \<and> length xs = nat len \<and> got 0 xs buf buf'"
    using read_loop_chunks [OF ok, of len 0 "nat len" sock buf "setsockopt sock timeout_ms net"] len
    by (auto simp: ucos_read_def split: option.splits)
  then show ?thesis by (intro exI [of _ r] exI [of _ buf'] exI [of _ net']) (auto simp: got_def split: option.splits)
qed

text \<open>A network that delivers the bytes 1, 2, 3, \<open>\<dots>\<close> two at a time.\<close>

definition ex_recv :: "int \<Rightarrow> int \<Rightarrow> nat \<Rightarrow> (int \<times> u8 list) \<times> nat" where
  "ex_recv sock n k = (let m = nat (min 2 n) in ((int m, map (\<lambda>i. of_nat (k + i)) [1 ..< m + 1]), k + m))"

theorem ucos_read_exact_witness:
  "\<exists>r buf' net'. ucos_read (\<lambda>_ _ n. n) ex_recv 4 3 1000 (\<lambda>_. 0) 0 = Some (r, buf', net') \<and> r = 3 \<and> buf' 0 = 1 \<and> buf' 2 = 3"
proof -
  have ok: "recv_ok ex_recv" by (auto simp: recv_ok_def ex_recv_def Let_def)
  have c: "chunks ex_recv 4 (nat 3) 3 0 = Some [1, 2, 3]"
    by (simp add: chunks.simps ex_recv_def Let_def eval_nat_numeral)
  show ?thesis
    using ucos_read_exact [OF ok, of 3 "\<lambda>_ _ n. n" 4 1000 "\<lambda>_. 0" 0] unfolding c
    by (auto simp: numeral_3_eq_3 All_less_Suc)
qed

section \<open>Properties of connecting\<close>

text \<open>When no entry of the list \<open>getaddrinfo\<close> yields is an IPv4 address, \<open>ConnectNetwork\<close> does not fail as it
  means to (\<open>rc = -1\<close>): it opens a socket and connects it to the address with all fields zero, and reports
  success if that succeeds.\<close>

theorem connect_without_ip4:
  assumes "getaddrinfo addr net = ((0, rs), net1)" "rs \<noteq> []" "\<forall>r\<in>set rs. ai_family r \<noteq> AF_INET"
    and "socket net1 = (sk, net2)" "sk \<noteq> - 1" "connect sk (0, 0, 0) net2 = (rc, net3)" "rc \<noteq> - 1"
  shows "ConnectNetwork getaddrinfo socket connect close addr port sock net = (0, sk, net3)"
proof -
  have "prefer_ip4 qs rs = qs" for qs using assms(3) by (induction rs) simp_all
  then show ?thesis using assms by (simp add: ConnectNetwork_def)
qed

theorem connect_without_ip4_witness:
  "ConnectNetwork (\<lambda>_ n. ((0, [\<lparr>ai_family = 10, ai_addr = 0\<rparr>]), n)) (\<lambda>n. (3, n)) (\<lambda>_ _ n. (0, Suc n)) (\<lambda>_ n. n) ''host'' 1883 (- 1) 0 = (0, 3, 1)"
  using connect_without_ip4 [of "\<lambda>_ n. ((0, [\<lparr>ai_family = 10, ai_addr = 0\<rparr>]), n)" "''host''" 0 _ 0 "\<lambda>n. (3, n)" 3 0 "\<lambda>_ _ n. (0, Suc n)" 0 1
      "\<lambda>_ n. n" 1883 "- 1"] by simp

section \<open>Properties of the thread\<close>

lemma publish_loop_trace:
  "\<exists>c' ps. publish_loop publish dly n c tr = (c', tr @ concat (map (\<lambda>r. [Publish r, Dly]) ps)) \<and> length ps = n"
proof (induction n arbitrary: c tr)
  case (Suc n)
  obtain r c1 where p: "publish c = (r, c1)" by fastforce
  obtain c' ps where "publish_loop publish dly n (dly c1) (tr @ [Publish r, Dly]) =
      (c', (tr @ [Publish r, Dly]) @ concat (map (\<lambda>r. [Publish r, Dly]) ps))" "length ps = n" using Suc.IH by blast
  then show ?case using p by (intro exI [of _ c'] exI [of _ "r # ps"]) simp
qed simp

definition retry :: "('c \<Rightarrow> int \<times> 'c) \<Rightarrow> ('c \<Rightarrow> 'c) \<Rightarrow> 'c \<Rightarrow> 'c" where
  "retry subscribe dly c = dly (snd (subscribe c))"

lemma subscribe_loop_trace:
  assumes "fst (subscribe ((retry subscribe dly ^^ n) c)) = 0" "\<And>m. m < n \<Longrightarrow> fst (subscribe ((retry subscribe dly ^^ m) c)) \<noteq> 0"
  shows "\<exists>c' rs. subscribe_loop subscribe dly c tr = Some (c', tr @ concat (map (\<lambda>r. [Subscribe r, Dly]) rs) @ [Subscribe 0]) \<and>
    length rs = n \<and> 0 \<notin> set rs"
  using assms
proof (induction n arbitrary: c tr)
  case 0
  then show ?case by (subst subscribe_loop.simps) (auto simp: split_beta)
next
  case (Suc n)
  let ?c = "retry subscribe dly c" and ?r = "fst (subscribe c)"
  have r: "?r \<noteq> 0" using Suc.prems(2) [of 0] by simp
  have l: "subscribe_loop subscribe dly c tr = subscribe_loop subscribe dly ?c (tr @ [Subscribe ?r, Dly])"
    using r by (subst subscribe_loop.simps) (simp add: split_beta retry_def)
  have "\<exists>c' rs. subscribe_loop subscribe dly ?c (tr @ [Subscribe ?r, Dly]) =
      Some (c', (tr @ [Subscribe ?r, Dly]) @ concat (map (\<lambda>r. [Subscribe r, Dly]) rs) @ [Subscribe 0]) \<and> length rs = n \<and> 0 \<notin> set rs"
    using Suc.prems(1) Suc.prems(2) [of "Suc _"] by (intro Suc.IH) (simp_all add: funpow_swap1)
  then obtain c' rs where "subscribe_loop subscribe dly ?c (tr @ [Subscribe ?r, Dly]) =
      Some (c', (tr @ [Subscribe ?r, Dly]) @ concat (map (\<lambda>r. [Subscribe r, Dly]) rs) @ [Subscribe 0])" "length rs = n" "0 \<notin> set rs" by blast
  then show ?case using r l by (intro exI [of _ c'] exI [of _ "?r # rs"]) simp
qed

text \<open>C38. Once a client is created and some attempt to subscribe succeeds, \<open>data_thread\<close> ends, and what it does is: the failed attempts
  with a delay after each, the successful one, ten publications with a delay after each, and the destruction of the client.
  When the creation fails it does nothing else.\<close>

theorem data_thread_runs:
  "(\<forall>c ret c1. create c = (ret, c1) \<and> ret \<noteq> 0 \<longrightarrow> data_thread create subscribe publish dly destroy c = Some (c1, [Create ret])) \<and>
   (\<forall>c c1 n. create c = (0, c1) \<and> fst (subscribe ((retry subscribe dly ^^ n) c1)) = 0 \<longrightarrow>
      (\<exists>c' rs ps. data_thread create subscribe publish dly destroy c = Some (c', [Create 0] @ concat (map (\<lambda>r. [Subscribe r, Dly]) rs) @
         [Subscribe 0] @ concat (map (\<lambda>r. [Publish r, Dly]) ps) @ [Destroy]) \<and> length ps = 10 \<and> length rs \<le> n \<and> 0 \<notin> set rs))"
proof (intro conjI allI impI)
  fix c ret c1 assume "create c = (ret, c1) \<and> ret \<noteq> 0"
  then show "data_thread create subscribe publish dly destroy c = Some (c1, [Create ret])" by (simp add: data_thread_def)
next
  fix c c1 n assume h: "create c = (0, c1) \<and> fst (subscribe ((retry subscribe dly ^^ n) c1)) = 0"
  define k where "k = (LEAST m. fst (subscribe ((retry subscribe dly ^^ m) c1)) = 0)"
  have k: "fst (subscribe ((retry subscribe dly ^^ k) c1)) = 0" "k \<le> n" "\<And>m. m < k \<Longrightarrow> fst (subscribe ((retry subscribe dly ^^ m) c1)) \<noteq> 0"
    using h unfolding k_def by (auto intro: LeastI Least_le dest: not_less_Least)
  obtain c2 rs where s: "subscribe_loop subscribe dly c1 [Create 0] =
      Some (c2, [Create 0] @ concat (map (\<lambda>r. [Subscribe r, Dly]) rs) @ [Subscribe 0])" "length rs = k" "0 \<notin> set rs"
    using subscribe_loop_trace [where subscribe = subscribe and dly = dly and n = k and c = c1 and tr = "[Create 0]"] k(1,3) by blast
  obtain c3 ps where p: "publish_loop publish dly 10 c2 ([Create 0] @ concat (map (\<lambda>r. [Subscribe r, Dly]) rs) @ [Subscribe 0]) =
      (c3, ([Create 0] @ concat (map (\<lambda>r. [Subscribe r, Dly]) rs) @ [Subscribe 0]) @ concat (map (\<lambda>r. [Publish r, Dly]) ps))" "length ps = 10"
    using publish_loop_trace [where publish = publish and dly = dly and n = 10 and c = c2 and
      tr = "[Create 0] @ concat (map (\<lambda>r. [Subscribe r, Dly]) rs) @ [Subscribe 0]"] by blast
  show "\<exists>c' rs ps. data_thread create subscribe publish dly destroy c = Some (c', [Create 0] @ concat (map (\<lambda>r. [Subscribe r, Dly]) rs) @
         [Subscribe 0] @ concat (map (\<lambda>r. [Publish r, Dly]) ps) @ [Destroy]) \<and> length ps = 10 \<and> length rs \<le> n \<and> 0 \<notin> set rs"
    using h s p k(2) by (intro exI [of _ "destroy c3"] exI [of _ rs] exI [of _ ps]) (simp add: data_thread_def)
qed

theorem data_thread_runs_witness:
  "\<exists>c' rs ps. data_thread (\<lambda>c. (0, c)) (\<lambda>c. (if c < 2 then 7 else 0, c)) (\<lambda>c. (0, c)) Suc id (0::nat) =
     Some (c', [Create 0] @ concat (map (\<lambda>r. [Subscribe r, Dly]) rs) @ [Subscribe 0] @ concat (map (\<lambda>r. [Publish r, Dly]) ps) @ [Destroy]) \<and>
     length ps = 10 \<and> length rs \<le> 2 \<and> 0 \<notin> set rs"
proof -
  have "fst ((\<lambda>c. (if c < 2 then 7 else 0 :: int, c)) ((retry (\<lambda>c. (if c < 2 then 7 else 0 :: int, c)) Suc ^^ 2) (0::nat))) = 0"
    by (simp add: retry_def numeral_2_eq_2)
  then show ?thesis
    using conjunct2 [OF data_thread_runs [where create = "\<lambda>c. (0, c)" and subscribe = "\<lambda>c. (if c < 2 then 7 else 0, c)" and
        publish = "\<lambda>c. (0, c)" and dly = Suc and destroy = id], rule_format, of "0::nat" 0 2] by blast
qed

end
