(* ===== verification/LwipInet.thy ===== *)
theory LwipInet
  imports Prelude
begin

text \<open>
  Byte order and internet addresses of lwIP: demo/LWIP/lwip-1.4.1/src/core/def.c, src/core/ipv4/ip_addr.c and the
  macros of src/include/ipv4/lwip/ip_addr.h on the little-endian processor. An address is the 32-bit word in network
  byte order, so its first byte is the low one. A C string is the list of its characters without the final
  null character; reading at its end gives the null character.
\<close>

section \<open>Byte order\<close>

definition lwip_htons :: "u16 \<Rightarrow> u16" where
  "lwip_htons n = push_bit 8 (n AND 0xFF) OR drop_bit 8 (n AND 0xFF00)"

definition lwip_ntohs :: "u16 \<Rightarrow> u16" where
  "lwip_ntohs n = lwip_htons n"

definition lwip_htonl :: "u32 \<Rightarrow> u32" where
  "lwip_htonl n = push_bit 24 (n AND 0xFF) OR push_bit 8 (n AND 0xFF00) OR drop_bit 8 (n AND 0xFF0000) OR drop_bit 24 (n AND 0xFF000000)"

definition lwip_ntohl :: "u32 \<Rightarrow> u32" where
  "lwip_ntohl n = lwip_htonl n"

section \<open>Addresses\<close>

abbreviation (input) "IPADDR_ANY \<equiv> 0 :: u32"
abbreviation (input) "IPADDR_NONE \<equiv> 0xFFFFFFFF :: u32"
abbreviation (input) "IPADDR_BROADCAST \<equiv> 0xFFFFFFFF :: u32"
abbreviation (input) "NETIF_FLAG_BROADCAST \<equiv> 2 :: u8"

definition IP4_ADDR :: "u8 \<Rightarrow> u8 \<Rightarrow> u8 \<Rightarrow> u8 \<Rightarrow> u32" where
  "IP4_ADDR a b c d = push_bit 24 (ucast d) OR push_bit 16 (ucast c) OR push_bit 8 (ucast b) OR ucast a"

text \<open>The fields of \<open>struct netif\<close> that address tests read.\<close>

record netif_addr =
  ip_addr :: u32
  netmask :: u32
  netif_flags :: u8

definition ip_addr_netcmp :: "u32 \<Rightarrow> u32 \<Rightarrow> u32 \<Rightarrow> bool" where
  "ip_addr_netcmp addr1 addr2 m \<longleftrightarrow> addr1 AND m = addr2 AND m"

definition ip4_addr_isbroadcast :: "u32 \<Rightarrow> netif_addr \<Rightarrow> bool" where
  "ip4_addr_isbroadcast addr n =
    (if NOT addr = IPADDR_ANY \<or> addr = IPADDR_ANY then True
     else if netif_flags n AND NETIF_FLAG_BROADCAST = 0 then False
     else if addr = ip_addr n then False
     else if ip_addr_netcmp addr (ip_addr n) (netmask n) \<and>
       addr AND NOT (netmask n) = IPADDR_BROADCAST AND NOT (netmask n) then True
     else False)"

text \<open>The two loops of \<open>ip4_addr_netmask_valid\<close>, which share the variable \<open>mask\<close>.\<close>

lemma drop_bit_1_less: "m \<noteq> 0 \<Longrightarrow> unat (drop_bit (Suc 0) m) < unat (m::'a::len word)"
  by (subst unat_drop_bit_eq) (simp add: drop_bit_eq_div unat_gt_0)

function first_zero :: "u32 \<Rightarrow> u32 \<Rightarrow> u32" where
  "first_zero nm m = (if m = 0 then 0 else if nm AND m = 0 then m else first_zero nm (drop_bit 1 m))"
  by auto
termination by (relation "measure (unat \<circ> snd)") (auto simp: drop_bit_1_less)

function no_ones :: "u32 \<Rightarrow> u32 \<Rightarrow> bool" where
  "no_ones nm m = (if m = 0 then True else if nm AND m \<noteq> 0 then False else no_ones nm (drop_bit 1 m))"
  by auto
termination by (relation "measure (unat \<circ> snd)") (auto simp: drop_bit_1_less)

definition ip4_addr_netmask_valid :: "u32 \<Rightarrow> bool" where
  "ip4_addr_netmask_valid nm = (let h = lwip_htonl nm in no_ones h (first_zero h (push_bit 31 1)))"

section \<open>Addresses as text\<close>

definition in_range :: "char \<Rightarrow> char \<Rightarrow> char \<Rightarrow> bool" where
  "in_range c lo up \<longleftrightarrow> (of_char lo :: nat) \<le> of_char c \<and> (of_char c :: nat) \<le> of_char up"

definition isdigit :: "char \<Rightarrow> bool" where "isdigit c \<longleftrightarrow> in_range c (CHR ''0'') (CHR ''9'')"
definition islower :: "char \<Rightarrow> bool" where "islower c \<longleftrightarrow> in_range c (CHR ''a'') (CHR ''z'')"
definition isxdigit :: "char \<Rightarrow> bool" where
  "isxdigit c \<longleftrightarrow> isdigit c \<or> in_range c (CHR ''a'') (CHR ''f'') \<or> in_range c (CHR ''A'') (CHR ''F'')"
definition isspace :: "char \<Rightarrow> bool" where
  "isspace c \<longleftrightarrow> c \<in> {CHR '' '', CHR 0x0C, CHR 0x0A, CHR 0x0D, CHR 0x09, CHR 0x0B}"

definition cur_char :: "string \<Rightarrow> char" where
  "cur_char cp = (case cp of [] \<Rightarrow> CHR 0x00 | c # _ \<Rightarrow> c)"

text \<open>The number at \<open>cp\<close>: its base with the characters that give it, then its digits.\<close>

definition aton_base :: "string \<Rightarrow> u32 \<times> string" where
  "aton_base cp =
    (if cur_char cp = CHR ''0'' then
       let cp1 = tl cp in if cur_char cp1 \<in> {CHR ''x'', CHR ''X''} then (16, tl cp1) else (8, cp1)
     else (10, cp))"

fun aton_digits :: "u32 \<Rightarrow> u32 \<Rightarrow> string \<Rightarrow> u32 \<times> string" where
  "aton_digits base val [] = (val, [])"
| "aton_digits base val (c # cp) =
    (if isdigit c then aton_digits base (val * base + (of_char c - of_char (CHR ''0''))) cp
     else if base = 16 \<and> isxdigit c
       then aton_digits base (push_bit 4 val OR (of_char c + 10 - (if islower c then of_char (CHR ''a'') else of_char (CHR ''A'')))) cp
     else (val, c # cp))"

lemma aton_digits_length: "aton_digits base val cp = (v, cp') \<Longrightarrow> length cp' \<le> length cp"
  by (induction base val cp rule: aton_digits.induct) (force split: if_splits)+

lemma aton_base_length: "aton_base cp = (b, cp') \<Longrightarrow> length cp' \<le> length cp"
  by (auto simp: aton_base_def Let_def split: if_splits)

text \<open>The loop over the parts: the parts before the last one, the last one, and what follows it.\<close>

function aton_parts :: "u32 list \<Rightarrow> string \<Rightarrow> (u32 list \<times> u32 \<times> string) option" where
  "aton_parts parts cp =
    (if \<not> isdigit (cur_char cp) then None
     else let (base, cp1) = aton_base cp; (val, cp2) = aton_digits base 0 cp1
       in if cur_char cp2 = CHR ''.''
            then if 3 \<le> length parts then None else aton_parts (parts @ [val]) (tl cp2)
          else Some (parts, val, cp2))"
  by auto
termination
proof (relation "measure (length \<circ> snd)")
  fix parts :: "u32 list" and cp :: string and p1 base cp1 p2 and val :: u32 and cp2
  assume "p1 = aton_base cp" "(base, cp1) = p1" "p2 = aton_digits base 0 cp1" "(val, cp2) = p2" "cur_char cp2 = CHR ''.''"
  then have "length cp2 \<le> length cp" "cp2 \<noteq> []"
    using aton_base_length [of cp base cp1] aton_digits_length [of base 0 cp1 val cp2] by (auto simp: cur_char_def)
  then show "((parts @ [val], tl cp2), parts, cp) \<in> measure (length \<circ> snd)" by (cases cp2) auto
qed simp

definition ipaddr_aton :: "string \<Rightarrow> u32 option" where
  "ipaddr_aton cp =
    (case aton_parts [] cp of
       None \<Rightarrow> None
     | Some (parts, val, rest) \<Rightarrow>
         if cur_char rest \<noteq> CHR 0x00 \<and> \<not> isspace (cur_char rest) then None
         else if length parts = 0 then Some (lwip_htonl val)
         else if length parts = 1
           then if 0xFFFFFF < val then None else Some (lwip_htonl (val OR push_bit 24 (parts ! 0)))
         else if length parts = 2
           then if 0xFFFF < val then None else Some (lwip_htonl (val OR push_bit 24 (parts ! 0) OR push_bit 16 (parts ! 1)))
         else if 0xFF < val then None
           else Some (lwip_htonl (val OR push_bit 24 (parts ! 0) OR push_bit 16 (parts ! 1) OR push_bit 8 (parts ! 2))))"

definition ipaddr_addr :: "string \<Rightarrow> u32" where
  "ipaddr_addr cp = (case ipaddr_aton cp of Some a \<Rightarrow> a | None \<Rightarrow> IPADDR_NONE)"

text \<open>The digits of a byte, the least significant first, as \<open>inv\<close> holds them.\<close>

function inv_digits :: "u8 \<Rightarrow> string" where
  "inv_digits b = (let c = char_of (of_char (CHR ''0'') + unat (b mod 10)); b' = b div 10 in if b' = 0 then [c] else c # inv_digits b')"
  by auto
termination by (relation "measure unat") (auto simp: unat_div_distrib unat_eq_0 [symmetric])

text \<open>Writing a character into the buffer with its count of characters.\<close>

definition put_char :: "int \<Rightarrow> char \<Rightarrow> (int \<times> string) option \<Rightarrow> (int \<times> string) option" where
  "put_char buflen c st = (case st of None \<Rightarrow> None | Some (len, buf) \<Rightarrow> if buflen \<le> len then None else Some (len + 1, buf @ [c]))"

definition put_byte :: "int \<Rightarrow> u8 \<Rightarrow> (int \<times> string) option \<Rightarrow> (int \<times> string) option" where
  "put_byte buflen b st = put_char buflen (CHR ''.'') (fold (put_char buflen) (rev (inv_digits b)) st)"

definition addr_bytes :: "u32 \<Rightarrow> u8 list" where
  "addr_bytes a = [ucast a, ucast (drop_bit 8 a), ucast (drop_bit 16 a), ucast (drop_bit 24 a)]"

definition ipaddr_ntoa_r :: "u32 \<Rightarrow> int \<Rightarrow> string option" where
  "ipaddr_ntoa_r addr buflen = map_option (butlast \<circ> snd) (fold (put_byte buflen) (addr_bytes addr) (Some (0, [])))"

definition ipaddr_ntoa :: "u32 \<Rightarrow> string option" where
  "ipaddr_ntoa addr = ipaddr_ntoa_r addr 16"

declare first_zero.simps [simp del] no_ones.simps [simp del] aton_parts.simps [simp del] inv_digits.simps [simp del]

section \<open>Bits of the swapped words\<close>

lemma lane_masks:
  "(0xFF :: u32) = mask 8" "(0xFF00 :: u32) = push_bit 8 (mask 8)" "(0xFF0000 :: u32) = push_bit 16 (mask 8)" "(0xFF000000 :: u32) = push_bit 24 (mask 8)"
  by (simp_all add: mask_eq_exp_minus_1)

lemma half_masks: "(0xFF :: u16) = mask 8" "(0xFF00 :: u16) = push_bit 8 (mask 8)"
  by (simp_all add: mask_eq_exp_minus_1)

lemma bit_lwip_htons: "bit (lwip_htons n) i \<longleftrightarrow> i < 16 \<and> bit n (if i < 8 then i + 8 else i - 8)"
  unfolding lwip_htons_def half_masks
  by (auto simp: bit_simps not_less add.commute dest: bit_imp_le_length)

lemma bit_lwip_htonl:
  "bit (lwip_htonl n) i \<longleftrightarrow> i < 32 \<and> bit n (if i < 8 then i + 24 else if i < 16 then i + 8 else if i < 24 then i - 8 else i - 24)"
  unfolding lwip_htonl_def lane_masks
  by (auto simp: bit_simps not_less add.commute dest: bit_imp_le_length)

lemma htons_htons [simp]: "lwip_htons (lwip_htons n) = n"
  by (rule bit_word_eqI) (auto simp: bit_lwip_htons)

lemma htonl_htonl [simp]: "lwip_htonl (lwip_htonl n) = n"
  by (rule bit_word_eqI) (auto simp: bit_lwip_htonl)

lemma addr_bytes_htonl: "addr_bytes (lwip_htonl a) = rev (addr_bytes a)"
proof -
  have "ucast (drop_bit k (lwip_htonl a)) = (ucast (drop_bit (24 - k) a) :: u8)" if "k \<in> {0, 8, 16, 24}" for k
    by (rule bit_word_eqI) (use that in \<open>auto simp: bit_simps bit_lwip_htonl add.commute\<close>)
  from this [of 0] this [of 8] this [of 16] this [of 24] show ?thesis by (simp add: addr_bytes_def)
qed

lemma IP4_ADDR_bytes: "addr_bytes (IP4_ADDR a b c d) = [a, b, c, d]"
proof -
  have "ucast (drop_bit k (IP4_ADDR a b c d)) = (if k = 0 then a else if k = 8 then b else if k = 16 then c else d)"
    if "k \<in> {0, 8, 16, 24}" for k
    by (rule bit_word_eqI) (use that in \<open>auto simp: IP4_ADDR_def bit_simps dest: bit_imp_le_length\<close>)
  from this [of 0] this [of 8] this [of 16] this [of 24] show ?thesis by (simp add: addr_bytes_def)
qed

lemma addr_bytes_inj: "addr_bytes a = addr_bytes b \<Longrightarrow> a = b"
proof (rule bit_word_eqI)
  fix n assume e: "addr_bytes a = addr_bytes b" and "n < LENGTH(32)"
  have q: "bit a (k + i) = bit b (k + i)" if "i < 8" "k \<in> {0, 8, 16, 24}" for k i
  proof -
    have "ucast (drop_bit k a) = (ucast (drop_bit k b) :: u8)" using e that by (auto simp: addr_bytes_def)
    then have "bit (ucast (drop_bit k a) :: u8) i = bit (ucast (drop_bit k b) :: u8) i" by simp
    then show ?thesis using that by (simp add: bit_simps)
  qed
  have "n mod 8 < 8" "8 * (n div 8) \<in> {0, 8, 16, 24}" using \<open>n < LENGTH(32)\<close> by auto
  then show "bit a n = bit b n" using q [of "n mod 8" "8 * (n div 8)"] by simp
qed

lemma IP4_ADDR_of_bytes: "a = IP4_ADDR (ucast a) (ucast (drop_bit 8 a)) (ucast (drop_bit 16 a)) (ucast (drop_bit 24 a))"
  by (rule addr_bytes_inj) (simp only: IP4_ADDR_bytes, simp add: addr_bytes_def)

section \<open>Netmasks\<close>

lemma loops_end [simp]: "no_ones h 0" "first_zero h 0 = 0"
  by (simp_all add: no_ones.simps first_zero.simps)

lemma drop_single: "drop_bit (Suc 0) (push_bit j 1 :: u32) = (if j = 0 \<or> 32 \<le> j then 0 else push_bit (j - 1) 1)"
  by (rule bit_word_eqI) (auto simp: bit_simps)

lemma single_nz: "j < 32 \<Longrightarrow> (push_bit j 1 :: u32) \<noteq> 0"
  using bit_and_single [of "-1 :: u32" j] by auto

lemma no_ones_upto: "j < 32 \<Longrightarrow> no_ones h (push_bit j 1) \<longleftrightarrow> (\<forall>i\<le>j. \<not> bit h i)"
proof (induction j)
  case 0
  then show ?case using bit_and_single [of h 0] by (subst no_ones.simps) (simp add: drop_single)
next
  case (Suc j)
  then show ?case using bit_and_single [of h "Suc j"] single_nz [OF Suc.prems] drop_single [of "Suc j"]
    by (subst no_ones.simps) (auto simp: le_Suc_eq)
qed

lemma netmask_loops: "j < 32 \<Longrightarrow> no_ones h (first_zero h (push_bit j 1)) \<longleftrightarrow> (\<exists>k\<le>Suc j. \<forall>i\<le>j. bit h i \<longleftrightarrow> k \<le> i)"
proof (induction j)
  case 0
  show ?case using bit_and_single [of h 0] no_ones_upto [of 0 h]
    by (subst first_zero.simps) (auto simp: drop_single intro: exI [of _ 0] exI [of _ 1])
next
  case (Suc j)
  have nz: "(push_bit (Suc j) 1 :: u32) \<noteq> 0" using Suc.prems by (rule single_nz)
  show ?case
  proof (cases "bit h (Suc j)")
    case True
    then have "first_zero h (push_bit (Suc j) 1) = first_zero h (push_bit j 1)"
      using bit_and_single [of h "Suc j"] nz Suc.prems drop_single [of "Suc j"] by (subst first_zero.simps) simp
    moreover have "(\<exists>k\<le>Suc j. \<forall>i\<le>j. bit h i \<longleftrightarrow> k \<le> i) \<longleftrightarrow> (\<exists>k\<le>Suc (Suc j). \<forall>i\<le>Suc j. bit h i \<longleftrightarrow> k \<le> i)"
      using True by (auto simp: le_Suc_eq)
    ultimately show ?thesis using Suc by simp
  next
    case False
    then have "first_zero h (push_bit (Suc j) 1) = push_bit (Suc j) 1"
      using bit_and_single [of h "Suc j"] nz by (subst first_zero.simps) simp
    moreover have "(\<exists>k\<le>Suc (Suc j). \<forall>i\<le>Suc j. bit h i \<longleftrightarrow> k \<le> i) \<longleftrightarrow> (\<forall>i\<le>Suc j. \<not> bit h i)"
      using False by (metis le_antisym not_less_eq_eq order_refl)
    ultimately show ?thesis using no_ones_upto [OF Suc.prems] by simp
  qed
qed

section \<open>Properties of addresses\<close>

text \<open>C31. A netmask passes the test exactly when it consists, in host byte order, of ones followed by zeros.\<close>

theorem netmask_valid_iff: "ip4_addr_netmask_valid nm \<longleftrightarrow> (\<exists>k\<le>32. lwip_htonl nm = NOT (mask k))"
proof -
  have "(lwip_htonl nm = NOT (mask k)) = (\<forall>i\<le>31. bit (lwip_htonl nm) i \<longleftrightarrow> k \<le> i)" for k
    by (auto simp: bit_eq_iff bit_simps not_less)
  then show ?thesis using netmask_loops [of 31 "lwip_htonl nm"] by (simp add: ip4_addr_netmask_valid_def)
qed

lemma subnet_broadcast:
  assumes "netif_flags n AND NETIF_FLAG_BROADCAST \<noteq> 0" "ip_addr n \<noteq> (ip_addr n AND netmask n) OR NOT (netmask n)"
  shows "ip4_addr_isbroadcast ((ip_addr n AND netmask n) OR NOT (netmask n)) n" "ip4_addr_isbroadcast IPADDR_BROADCAST n"
proof -
  let ?b = "(ip_addr n AND netmask n) OR NOT (netmask n)"
  have "ip_addr_netcmp ?b (ip_addr n) (netmask n)" by (simp add: ip_addr_netcmp_def bit.conj_disj_distrib2 and.assoc)
  moreover have "IPADDR_BROADCAST = NOT 0" by simp
  then have "?b AND NOT (netmask n) = IPADDR_BROADCAST AND NOT (netmask n)" by (simp only: bit.conj_disj_distrib2 and.assoc) simp
  ultimately show "ip4_addr_isbroadcast ?b n" using assms by (auto simp: ip4_addr_isbroadcast_def)
  show "ip4_addr_isbroadcast IPADDR_BROADCAST n" by (simp add: ip4_addr_isbroadcast_def)
qed

section \<open>Printing and parsing\<close>

text \<open>The decimal digits of a byte, and how the parser reads them back.\<close>

lemma aton_digits_app:
  assumes "\<And>c. c \<in> set ds \<Longrightarrow> isdigit c" "\<not> isdigit (cur_char rest)"
  shows "aton_digits 10 v (ds @ rest) = (fold (\<lambda>c v. v * 10 + (of_char c - 48)) ds v, rest)"
  using assms
proof (induction ds arbitrary: v)
  case Nil
  then show ?case by (cases rest) (auto simp: cur_char_def)
qed simp

abbreviation digit :: "nat \<Rightarrow> char" where "digit n \<equiv> char_of (48 + n)"

lemma digit_facts:
  assumes "n < 10"
  shows "(of_char (digit n) :: nat) = 48 + n" "isdigit (digit n)" "digit n = CHR ''0'' \<longleftrightarrow> n = 0"
proof -
  show c: "(of_char (digit n) :: nat) = 48 + n" using assms by simp
  show "isdigit (digit n)" using assms unfolding isdigit_def in_range_def c by simp
  have "digit n = CHR ''0'' \<longleftrightarrow> (of_char (digit n) :: nat) = of_char (CHR ''0'')" by (simp only: of_char_eq_iff)
  then show "digit n = CHR ''0'' \<longleftrightarrow> n = 0" unfolding c by simp
qed

lemma of_char_digit: "n < 10 \<Longrightarrow> (of_char (digit n) :: u32) - 48 = of_nat n"
proof -
  assume n: "n < 10"
  have "(of_char (digit n) :: u32) = of_nat (of_char (digit n))" by (simp only: of_nat_of_char)
  then show ?thesis using digit_facts(1) [OF n] by simp
qed

definition dec :: "nat \<Rightarrow> string" where
  "dec n = (if n < 10 then [digit n] else if n < 100 then [digit (n div 10), digit (n mod 10)]
     else [digit (n div 100), digit (n div 10 mod 10), digit (n mod 10)])"

lemma inv_digits_dec: "rev (inv_digits b) = dec (unat b)"
proof -
  have u: "unat (x mod 10) = unat x mod 10" "unat (x div 10) = unat x div 10" for x :: u8 by (simp_all add: unat_mod_distrib unat_div_distrib)
  have z: "x div 10 = 0 \<longleftrightarrow> unat x < 10" for x :: u8 by (simp add: unat_eq_0 [symmetric] u div_eq_0_iff)
  have c: "(of_char (CHR ''0'') :: nat) = 48" by simp
  have "unat b div 10 div 10 < 10" using unat_u8_lt [of b] by simp
  then show ?thesis
    by (subst inv_digits.simps, subst inv_digits.simps, subst inv_digits.simps)
      (auto simp: Let_def u z c dec_def div_mult2_eq [symmetric] not_less)
qed

lemma dec_digits: "n < 256 \<Longrightarrow> c \<in> set (dec n) \<Longrightarrow> isdigit c"
  using digit_facts(2) by (auto simp: dec_def split: if_splits)

lemma dec_hd:
  assumes "n < 256"
  shows "dec n \<noteq> []" "isdigit (hd (dec n))" "hd (dec n) = CHR ''0'' \<longleftrightarrow> n = 0" "length (dec n) \<le> 3"
proof -
  show "dec n \<noteq> []" "length (dec n) \<le> 3" by (auto simp: dec_def)
  then show "isdigit (hd (dec n))" using dec_digits [OF assms] hd_in_set by blast
  have "n div 10 \<noteq> 0" if "10 \<le> n" using that by (simp add: div_eq_0_iff)
  moreover have "n div 100 \<noteq> 0" if "100 \<le> n" using that by (simp add: div_eq_0_iff)
  ultimately show "hd (dec n) = CHR ''0'' \<longleftrightarrow> n = 0" using assms by (auto simp: dec_def digit_facts(3))
qed

lemma of_nat_split: "(of_nat (n div 10) :: u32) * 10 + of_nat (n mod 10) = of_nat n"
proof -
  have "of_nat (n div 10 * 10 + n mod 10) = (of_nat (n div 10) :: u32) * 10 + of_nat (n mod 10)" by (simp only: of_nat_add of_nat_mult of_nat_numeral)
  then show ?thesis by (simp only: div_mult_mod_eq)
qed

lemma dec_value:
  assumes "n < 256"
  shows "fold (\<lambda>c v. v * 10 + (of_char c - 48)) (dec n) 0 = (of_nat n :: u32)"
proof -
  consider "n < 10" | "10 \<le> n" "n < 100" | "100 \<le> n" by linarith
  then show ?thesis
  proof cases
    case 1
    then show ?thesis by (simp add: dec_def of_char_digit del: of_char_of)
  next
    case 2
    then have "n div 10 < 10" by simp
    then show ?thesis using 2 of_nat_split [of n] by (simp add: dec_def of_char_digit del: of_char_of)
  next
    case 3
    then have "n div 100 < 10" using assms by simp
    moreover have "n div 100 = n div 10 div 10" by (simp add: div_mult2_eq [symmetric])
    ultimately show ?thesis using 3 of_nat_split [of n] of_nat_split [of "n div 10"] by (simp add: dec_def of_char_digit del: of_char_of)
  qed
qed

lemma aton_field:
  assumes n: "n < 256" and r: "\<not> isdigit (cur_char rest)" "cur_char rest \<notin> {CHR ''x'', CHR ''X''}"
  shows "isdigit (cur_char (dec n @ rest))" "(case aton_base (dec n @ rest) of (b, cp) \<Rightarrow> aton_digits b 0 cp) = (of_nat n, rest)"
proof -
  obtain c cs where d: "dec n = c # cs" using dec_hd(1) [OF n] by (cases "dec n") auto
  have c: "cur_char (dec n @ rest) = c" "isdigit c" "c = CHR ''0'' \<longleftrightarrow> n = 0" using dec_hd(2,3) [OF n] by (simp_all add: d cur_char_def)
  then show "isdigit (cur_char (dec n @ rest))" by simp
  show "(case aton_base (dec n @ rest) of (b, cp) \<Rightarrow> aton_digits b 0 cp) = (of_nat n, rest)"
  proof (cases "n = 0")
    case True
    have "aton_digits 8 0 rest = (0, rest)" using r(1) by (cases rest) (auto simp: cur_char_def)
    then show ?thesis using True c r by (simp add: aton_base_def dec_def cur_char_def)
  next
    case False
    have "aton_digits 10 0 (dec n @ rest) = (of_nat n, rest)" using aton_digits_app [of "dec n" rest 0] dec_digits [OF n] r(1) by (simp add: dec_value [OF n])
    then show ?thesis using False c by (simp add: aton_base_def)
  qed
qed

lemma aton_parts_step:
  assumes "n < 256"
  shows "length ps < 3 \<Longrightarrow> aton_parts ps (dec n @ CHR ''.'' # cp) = aton_parts (ps @ [of_nat n]) cp" "aton_parts ps (dec n) = Some (ps, of_nat n, [])"
proof -
  have r: "\<not> isdigit (cur_char (CHR ''.'' # cp))" "cur_char (CHR ''.'' # cp) \<notin> {CHR ''x'', CHR ''X''}" "cur_char (CHR ''.'' # cp) = CHR ''.''" for cp
    by (simp_all add: cur_char_def isdigit_def in_range_def)
  have e: "\<not> isdigit (cur_char [])" "cur_char [] \<notin> {CHR ''x'', CHR ''X''}" "cur_char [] \<noteq> CHR ''.''" by (simp_all add: cur_char_def isdigit_def in_range_def)
  have f: "aton_parts ps (dec n @ rest) = (if cur_char rest = CHR ''.'' then if 3 \<le> length ps then None else aton_parts (ps @ [of_nat n]) (tl rest)
      else Some (ps, of_nat n, rest))" if "\<not> isdigit (cur_char rest)" "cur_char rest \<notin> {CHR ''x'', CHR ''X''}" for rest
  proof -
    obtain b c where "aton_base (dec n @ rest) = (b, c)" by fastforce
    then show ?thesis using aton_field [OF assms that] by (subst aton_parts.simps) simp
  qed
  show "length ps < 3 \<Longrightarrow> aton_parts ps (dec n @ CHR ''.'' # cp) = aton_parts (ps @ [of_nat n]) cp" using f [OF r(1,2)] r(3) by simp
  show "aton_parts ps (dec n) = Some (ps, of_nat n, [])" using f [OF e(1,2)] e(3) by simp
qed

lemma put_char_simps [simp]:
  "put_char L c None = None" "put_char L c (Some (n, buf)) = (if L \<le> n then None else Some (n + 1, buf @ [c]))"
  by (simp_all add: put_char_def)

lemma fold_put_char:
  "cs \<noteq> [] \<Longrightarrow> fold (put_char L) cs (Some (n, buf)) = (if n + int (length cs) \<le> L then Some (n + int (length cs), buf @ cs) else None)"
  "fold (put_char L) cs None = None"
proof -
  show n: "fold (put_char L) cs None = None" for cs by (induction cs) simp_all
  show "cs \<noteq> [] \<Longrightarrow> fold (put_char L) cs (Some (n, buf)) = (if n + int (length cs) \<le> L then Some (n + int (length cs), buf @ cs) else None)"
  proof (induction cs arbitrary: n buf)
    case (Cons c cs)
    then show ?case using n by (cases "cs = []") auto
  qed simp
qed

text \<open>The text of an address: its four bytes in decimal with dots between them.\<close>

definition dotted :: "u32 \<Rightarrow> string" where
  "dotted a = (case map (dec \<circ> unat) (addr_bytes a) of [p, q, r, t] \<Rightarrow> p @ CHR ''.'' # q @ CHR ''.'' # r @ CHR ''.'' # t)"

lemma put_byte_text: "put_byte L b = fold (put_char L) (dec (unat b) @ [CHR ''.''])"
  by (simp add: put_byte_def inv_digits_dec fun_eq_iff)

lemma ntoa_text: "ipaddr_ntoa_r a L = (if int (length (dotted a)) < L then Some (dotted a) else None)"
proof -
  let ?t = "dotted a @ [CHR ''.'']"
  have "fold (put_byte L) (addr_bytes a) st = fold (put_char L) ?t st" for st by (simp add: put_byte_text addr_bytes_def dotted_def)
  then show ?thesis using fold_put_char(1) [of ?t L 0 "[]"] by (auto simp: ipaddr_ntoa_r_def)
qed

lemma htonl_parts:
  "lwip_htonl (of_nat (unat t) OR push_bit 24 (of_nat (unat p)) OR push_bit 16 (of_nat (unat q)) OR push_bit 8 (of_nat (unat r))) = IP4_ADDR p q r t" for p q r t :: u8
proof -
  have "lwip_htonl (IP4_ADDR p q r t) = IP4_ADDR t r q p" by (rule addr_bytes_inj) (simp add: addr_bytes_htonl IP4_ADDR_bytes)
  moreover have "of_nat (unat t) OR push_bit 24 (of_nat (unat p)) OR push_bit 16 (of_nat (unat q)) OR push_bit 8 (of_nat (unat r)) = IP4_ADDR t r q p"
    by (simp add: IP4_ADDR_def ac_simps)
  ultimately show ?thesis using htonl_htonl [of "IP4_ADDR p q r t"] by simp
qed

lemma aton_dotted: "ipaddr_aton (dotted a) = Some a"
proof -
  define p q r t :: u8 where "p = ucast a" and "q = ucast (drop_bit 8 a)" and "r = ucast (drop_bit 16 a)" and "t = ucast (drop_bit 24 a)"
  note byte = unat_u8_lt
  have d: "dotted a = dec (unat p) @ CHR ''.'' # dec (unat q) @ CHR ''.'' # dec (unat r) @ CHR ''.'' # dec (unat t)"
    by (simp add: dotted_def addr_bytes_def p_def q_def r_def t_def)
  have "aton_parts [] (dotted a) = Some ([of_nat (unat p), of_nat (unat q), of_nat (unat r)], of_nat (unat t), [])"
    unfolding d by (simp add: aton_parts_step byte)
  moreover have "\<not> 0xFF < (of_nat (unat t) :: u32)" using byte [of t] by (simp add: word_less_nat_alt unsigned_ucast_eq take_bit_nat_eq_self)
  ultimately have "ipaddr_aton (dotted a) = Some (IP4_ADDR p q r t)"
    using htonl_parts [of t p q r] by (simp add: ipaddr_aton_def cur_char_def)
  then show ?thesis using IP4_ADDR_of_bytes [of a] by (simp add: p_def q_def r_def t_def)
qed

lemma dotted_length: "7 \<le> length (dotted a)" "length (dotted a) \<le> 15"
proof -
  have "1 \<le> length (dec (unat b)) \<and> length (dec (unat b)) \<le> 3" for b :: u8 using dec_hd(1,4) [OF unat_u8_lt [of b]] by (cases "dec (unat b)") auto
  note this [of "ucast a"] this [of "ucast (drop_bit 8 a)"] this [of "ucast (drop_bit 16 a)"] this [of "ucast (drop_bit 24 a)"]
  then show "7 \<le> length (dotted a)" "length (dotted a) \<le> 15" by (auto simp: dotted_def addr_bytes_def)
qed

text \<open>C23. Printing an address and reading the text back gives the address, for every address. The buffer of 16 characters of
  \<open>ipaddr_ntoa\<close> is always enough, and with a smaller one \<open>ipaddr_ntoa_r\<close> fails exactly when the text and its null character do not fit.\<close>

theorem ntoa_aton_roundtrip:
  "\<exists>t. ipaddr_ntoa a = Some t \<and> ipaddr_aton t = Some a \<and> ipaddr_addr t = a \<and> length t \<le> 15 \<and>
    ipaddr_ntoa_r a buflen = (if int (length t) + 1 \<le> buflen then Some t else None)"
  using ntoa_text [of a] dotted_length(2) [of a] aton_dotted [of a] by (simp add: ipaddr_ntoa_def ipaddr_addr_def)

text \<open>The parts before the last one are not limited to a byte: 300 as the first part is read as 44.\<close>

lemma aton_part_overflow: "ipaddr_aton (''300.1.2.3'') = ipaddr_aton (''44.1.2.3'')"
  by (simp add: ipaddr_aton_def aton_parts.simps aton_base_def cur_char_def isdigit_def in_range_def isspace_def lwip_htonl_def)

end
