(* ===== verification/LwipChksum.thy ===== *)
theory LwipChksum
  imports LwipInet
begin

text \<open>
  The internet checksum of lwIP, demo/LWIP/lwip-1.4.1/src/core/ipv4/inet_chksum.c in its version 2, which the configuration selects,
  on a little-endian processor with byte memory. A chain of \<open>pbuf\<close> structures is the list of their payload
  addresses and lengths. The reference definition is the sum of RFC 1071 over the bytes of the message as a number.
\<close>

section \<open>The code\<close>

type_synonym ram = "u32 \<Rightarrow> u8"

definition FOLD_U32T :: "u32 \<Rightarrow> u32" where
  "FOLD_U32T u = drop_bit 16 u + (u AND 0xFFFF)"

definition SWAP_BYTES_IN_WORD :: "u32 \<Rightarrow> u32" where
  "SWAP_BYTES_IN_WORD w = push_bit 8 (w AND 0xFF) OR drop_bit 8 (w AND 0xFF00)"

text \<open>A half-word of two bytes, the low one first.\<close>

definition half :: "u8 \<Rightarrow> u8 \<Rightarrow> u16" where
  "half lo hi = ucast lo OR push_bit 8 (ucast hi)"

text \<open>The loop over the bulk of the data: the sum, the address and the length after it.\<close>

function chk_loop :: "ram \<Rightarrow> u32 \<Rightarrow> int \<Rightarrow> u32 \<Rightarrow> u32 \<times> u32 \<times> int" where
  "chk_loop m ps len sm =
    (if 1 < len then chk_loop m (ps + 2) (len - 2) (sm + ucast (half (m ps) (m (ps + 1)))) else (sm, ps, len))"
  by auto
termination by (relation "measure (\<lambda>(m, ps, len, sm). nat len)") auto

definition lwip_standard_chksum :: "ram \<Rightarrow> u32 \<Rightarrow> int \<Rightarrow> u16" where
  "lwip_standard_chksum m dataptr len =
    (let odd = (dataptr AND 1 \<noteq> 0);
         (pb, len1, hi) = (if odd \<and> 0 < len then (dataptr + 1, len - 1, m dataptr) else (dataptr, len, 0));
         (sm, ps, len2) = chk_loop m pb len1 0;
         t = half (if 0 < len2 then m ps else 0) hi;
         sm1 = FOLD_U32T (FOLD_U32T (sm + ucast t))
     in ucast (if odd then SWAP_BYTES_IN_WORD sm1 else sm1))"

definition inet_chksum :: "ram \<Rightarrow> u32 \<Rightarrow> u16 \<Rightarrow> u16" where
  "inet_chksum m dataptr len = NOT (lwip_standard_chksum m dataptr (int (unat len)))"

text \<open>The loop over the chain, with the accumulator and \<open>swapped\<close>.\<close>

definition chk_pbuf :: "ram \<Rightarrow> u32 \<times> u16 \<Rightarrow> u32 \<times> bool \<Rightarrow> u32 \<times> bool" where
  "chk_pbuf m q st =
    (let acc = FOLD_U32T (fst st + ucast (lwip_standard_chksum m (fst q) (int (unat (snd q)))))
     in if odd (unat (snd q)) then (SWAP_BYTES_IN_WORD acc, \<not> snd st) else (acc, snd st))"

definition chk_chain :: "ram \<Rightarrow> (u32 \<times> u16) list \<Rightarrow> u32" where
  "chk_chain m p = (let (acc, swapped) = fold (chk_pbuf m) p (0, False) in if swapped then SWAP_BYTES_IN_WORD acc else acc)"

definition inet_chksum_pbuf :: "ram \<Rightarrow> (u32 \<times> u16) list \<Rightarrow> u16" where
  "inet_chksum_pbuf m p = ucast (NOT (chk_chain m p AND 0xFFFF))"

definition inet_chksum_pseudo :: "ram \<Rightarrow> (u32 \<times> u16) list \<Rightarrow> u32 \<Rightarrow> u32 \<Rightarrow> u8 \<Rightarrow> u16 \<Rightarrow> u16" where
  "inet_chksum_pseudo m p src dest proto proto_len =
    (let acc = chk_chain m p;
         acc1 = acc + (src AND 0xFFFF) + (drop_bit 16 src AND 0xFFFF);
         acc2 = acc1 + (dest AND 0xFFFF) + (drop_bit 16 dest AND 0xFFFF);
         acc3 = acc2 + ucast (lwip_htons (ucast proto)) + ucast (lwip_htons proto_len)
     in ucast (NOT (FOLD_U32T (FOLD_U32T acc3) AND 0xFFFF)))"

declare chk_loop.simps [simp del]

section \<open>The reference\<close>

text \<open>The 16-bit words of a message, the high byte first, and their sum with end-around carry.\<close>

fun word_sum :: "u8 list \<Rightarrow> nat" where
  "word_sum [] = 0"
| "word_sum [b] = 256 * unat b"
| "word_sum (a # b # bs) = 256 * unat a + unat b + word_sum bs"

definition oc :: "nat \<Rightarrow> nat" where
  "oc s = (if s = 0 then 0 else (s - 1) mod 65535 + 1)"

definition rfc1071 :: "u8 list \<Rightarrow> u16" where
  "rfc1071 bs = NOT (of_nat (oc (word_sum bs)))"

definition mem_bytes :: "ram \<Rightarrow> u32 \<Rightarrow> nat \<Rightarrow> u8 list" where
  "mem_bytes m a n = map (\<lambda>k. m (a + of_nat k)) [0..<n]"

section \<open>End-around carry\<close>

lemma oc_le: "oc s \<le> 65535"
proof -
  have "(s - 1) mod 65535 + 1 \<le> 65535" by (metis Suc_eq_plus1 Suc_leI mod_less_divisor zero_less_numeral)
  then show ?thesis by (auto simp: oc_def)
qed

lemma oc_mod: "oc s mod 65535 = s mod 65535"
proof (cases s)
  case (Suc k)
  have "(k mod 65535 + 1) mod 65535 = (k + 1) mod 65535" by presburger
  then show ?thesis by (simp add: oc_def Suc)
qed (simp add: oc_def)

lemma oc_zero [simp]: "oc s = 0 \<longleftrightarrow> s = 0" "oc 0 = 0"
  by (simp_all add: oc_def)

lemma ocI:
  assumes "x \<le> 65535" "x mod 65535 = s mod 65535" "x = 0 \<longleftrightarrow> s = 0"
  shows "x = oc s"
proof (cases "s = 0")
  case False
  then have "oc s \<noteq> 0" "x \<noteq> 0" using assms(3) by auto
  moreover have "y - 1 < 65535 \<and> y = y - 1 + 1" if "y \<noteq> 0" "y \<le> 65535" for y :: nat using that by simp
  moreover have "x mod 65535 = oc s mod 65535" using assms(2) oc_mod by simp
  moreover have "x = y" if "x mod 65535 = y mod 65535" "x \<noteq> 0" "y \<noteq> 0" "x \<le> 65535" "y \<le> 65535" for x y :: nat
    using that by (cases "x = 65535"; cases "y = 65535") auto
  ultimately show ?thesis using assms(1) oc_le [of s] by blast
qed (use assms in simp)

lemma oc_cong: "a mod 65535 = b mod 65535 \<Longrightarrow> (a = 0 \<longleftrightarrow> b = 0) \<Longrightarrow> oc a = oc b"
  using ocI [OF oc_le] by (metis oc_mod oc_zero(1))

lemma oc_65536 [simp]: "oc (65536 * s) = oc s"
proof (rule oc_cong)
  have "65536 * s = 65535 * s + s" by simp
  then show "65536 * s mod 65535 = s mod 65535" by (metis mod_mult_self4)
qed simp

lemma fold_mod: "(a div 65536 + a mod 65536) mod 65535 = a mod (65535 :: nat)"
proof -
  have "a = 65535 * (a div 65536) + (a div 65536 + a mod 65536)" using div_mult_mod_eq [of a 65536] by linarith
  then show ?thesis by (metis mod_mult_self4)
qed

lemma fold_zero: "a div 65536 + a mod 65536 = 0 \<longleftrightarrow> a = (0::nat)"
  using div_mult_mod_eq [of a 65536] by auto

lemma oc_add: "oc (oc a + b) = oc (a + b)"
  by (rule oc_cong) (metis mod_add_left_eq oc_mod, simp)

lemma unat_FOLD: "unat (FOLD_U32T u) = unat u div 65536 + unat u mod 65536"
proof -
  have m: "u AND 0xFFFF = take_bit 16 u" by (simp add: take_bit_eq_mask mask_eq_exp_minus_1)
  have "unat (drop_bit 16 u) = unat u div 65536" "unat (take_bit 16 u) = unat u mod 65536"
    by (subst unat_drop_bit_eq, simp add: drop_bit_eq_div) (simp only: unsigned_take_bit_eq, simp add: take_bit_eq_mod)
  moreover have "unat u div 65536 < 65536" using unat_u32_lt [of u] by (simp add: less_mult_imp_div_less)
  moreover have "unat u mod 65536 < 65536" by simp
  ultimately show ?thesis unfolding FOLD_U32T_def m by (subst unat_add_lem [THEN iffD1]) simp_all
qed

lemma FOLD_once: "unat u \<le> 131070 \<Longrightarrow> unat (FOLD_U32T u) = oc (unat u)"
proof (rule ocI)
  assume u: "unat u \<le> 131070"
  show "unat (FOLD_U32T u) \<le> 65535"
  proof (cases "unat u < 65536")
    case False
    then have "unat u div 65536 = 1" using u by (intro div_nat_eqI) simp_all
    then show ?thesis using u div_mult_mod_eq [of "unat u" 65536] unfolding unat_FOLD by linarith
  qed (simp add: unat_FOLD)
qed (simp_all only: unat_FOLD fold_mod fold_zero)

lemma FOLD_twice: "unat (FOLD_U32T (FOLD_U32T u)) = oc (unat u)"
proof -
  have "unat u div 65536 < 65536" using unat_u32_lt [of u] by (simp add: less_mult_imp_div_less)
  moreover have "unat u mod 65536 < 65536" by simp
  ultimately have "unat (FOLD_U32T u) \<le> 131070" unfolding unat_FOLD by linarith
  then have "unat (FOLD_U32T (FOLD_U32T u)) = oc (unat (FOLD_U32T u))" by (rule FOLD_once)
  also have "\<dots> = oc (unat u)" by (rule oc_cong) (simp_all only: unat_FOLD fold_mod fold_zero)
  finally show ?thesis .
qed

lemma unat_SWAP:
  assumes "unat w \<le> 65535"
  shows "unat (SWAP_BYTES_IN_WORD w) = unat w mod 256 * 256 + unat w div 256"
proof -
  have m: "w AND 0xFF = take_bit 8 w" by (simp add: take_bit_eq_mask mask_eq_exp_minus_1)
  have "unat (take_bit 16 w) = unat w mod 65536" by (simp only: unsigned_take_bit_eq, simp add: take_bit_eq_mod)
  then have w: "w = take_bit 16 w" using assms by (simp add: word_unat_eq_iff)
  have b: "n < 16" if "bit w n" for n using w that by (metis bit_take_bit_iff)
  have d: "drop_bit 8 (w AND 0xFF00) = drop_bit 8 w" by (rule bit_word_eqI) (auto simp: lane_masks bit_simps dest: b)
  have lo: "unat (push_bit 8 (take_bit 8 w)) = unat w mod 256 * 256"
  proof -
    have "unat (push_bit 8 (take_bit 8 w)) = take_bit 32 (push_bit 8 (take_bit 8 (unat w)))" by (simp add: unsigned_push_bit_eq unsigned_take_bit_eq)
    moreover have "push_bit 8 (take_bit 8 (unat w)) = unat w mod 256 * 256" by (simp add: push_bit_eq_mult take_bit_eq_mod)
    moreover have "unat w mod 256 * 256 < 4294967296" by (rule less_trans [of _ 65536]) (simp_all add: mult_less_cancel2 [where k = 256, of _ 256, simplified])
    ultimately show ?thesis by (simp add: take_bit_nat_eq_self)
  qed
  have hi: "unat (drop_bit 8 w) = unat w div 256" by (subst unat_drop_bit_eq) (simp add: drop_bit_eq_div)
  have "push_bit 8 (take_bit 8 w) AND drop_bit 8 w = 0"
    by (rule bit_word_eqI) (auto simp: bit_simps dest: b)
  then have "SWAP_BYTES_IN_WORD w = push_bit 8 (take_bit 8 w) + drop_bit 8 w" unfolding SWAP_BYTES_IN_WORD_def m d by (simp add: disjunctive_add_eq_or)
  moreover have "unat w mod 256 * 256 + unat w div 256 < 4294967296" using assms by simp
  ultimately show ?thesis using lo hi by (simp add: unat_word_ariths)
qed

lemma SWAP_oc:
  assumes "unat w = oc s"
  shows "unat (SWAP_BYTES_IN_WORD w) = oc (256 * s)"
proof -
  have b: "unat w \<le> 65535" using oc_le assms by simp
  have e: "256 * unat w = 65535 * (unat w div 256) + (unat w mod 256 * 256 + unat w div 256)"
    using div_mult_mod_eq [of "unat w" 256] by linarith
  have "(unat w mod 256 * 256 + unat w div 256) mod 65535 = 256 * unat w mod 65535" using e by (metis mod_mult_self4)
  also have "\<dots> = 256 * s mod 65535" using assms by (metis mod_mult_right_eq oc_mod)
  finally have m: "(unat w mod 256 * 256 + unat w div 256) mod 65535 = 256 * s mod 65535" .
  show ?thesis unfolding unat_SWAP [OF b]
  proof (rule ocI)
    have "unat w mod 256 \<le> 255" "unat w div 256 \<le> 255" using b by auto
    then show "unat w mod 256 * 256 + unat w div 256 \<le> 65535" by linarith
    have "unat w = 0 \<longleftrightarrow> s = 0" using assms by simp
    then show "unat w mod 256 * 256 + unat w div 256 = 0 \<longleftrightarrow> 256 * s = 0" using div_mult_mod_eq [of "unat w" 256] by auto
  qed (rule m)
qed

section \<open>The sum as the processor sees it\<close>

text \<open>The sum of the half-words with the low byte first.\<close>

fun le_sum :: "u8 list \<Rightarrow> nat" where
  "le_sum [] = 0"
| "le_sum [b] = unat b"
| "le_sum (a # b # bs) = unat a + 256 * unat b + le_sum bs"

lemma le_sum_append: "even (length xs) \<Longrightarrow> le_sum (xs @ ys) = le_sum xs + le_sum ys"
  by (induction xs rule: le_sum.induct) auto

lemma le_sum_bound: "le_sum bs \<le> 65535 * ((length bs + 1) div 2)"
proof (induction bs rule: le_sum.induct)
  case (2 b)
  then show ?case using unat_u8_lt [of b] by simp
next
  case (3 a b bs)
  then show ?case using unat_u8_lt [of a] unat_u8_lt [of b] by simp
qed simp

lemma le_sum_zero: "le_sum bs = 0 \<longleftrightarrow> word_sum bs = 0"
  by (induction bs rule: le_sum.induct) (auto simp: unat_eq_0)

lemma le_sum_all_zero: "le_sum bs = 0 \<longleftrightarrow> (\<forall>b \<in> set bs. b = 0)"
  by (induction bs rule: le_sum.induct) (auto simp: unat_eq_0)

lemma le_sum_word_sum: "le_sum bs mod 65535 = 256 * word_sum bs mod 65535"
proof -
  have "\<exists>k. 256 * word_sum bs = 65535 * k + le_sum bs"
  proof (induction bs rule: le_sum.induct)
    case (2 b)
    then show ?case by (intro exI [of _ "unat b"]) simp
  next
    case (3 a b bs)
    then obtain k where "256 * word_sum bs = 65535 * k + le_sum bs" by blast
    then show ?case by (intro exI [of _ "k + unat a"]) simp
  qed simp
  then show ?thesis by (metis mod_mult_self4)
qed

lemma le_sum_Cons: "\<exists>k. 256 * le_sum (a # bs) = 65535 * k + (256 * unat a + le_sum bs)"
proof (induction bs arbitrary: a rule: le_sum.induct)
  case (2 b)
  then show ?case by (intro exI [of _ "unat b"]) simp
next
  case (3 c d bs)
  obtain k where "256 * le_sum (d # bs) = 65535 * k + (256 * unat d + le_sum bs)" using "3.IH" by blast
  then show ?case by (intro exI [of _ "k + unat c"]) simp
qed (intro exI [of _ 0], simp)

lemma oc_le_sum: "oc (256 * le_sum bs) = oc (word_sum bs)" "oc (le_sum bs) = oc (256 * word_sum bs)"
proof -
  show e: "oc (le_sum bs) = oc (256 * word_sum bs)" by (rule oc_cong) (simp_all add: le_sum_word_sum le_sum_zero)
  have "256 * le_sum bs mod 65535 = 256 * (256 * word_sum bs) mod 65535" using le_sum_word_sum by (metis mod_mult_right_eq)
  also have "256 * (256 * word_sum bs) = 65535 * word_sum bs + word_sum bs" by simp
  also have "\<dots> mod 65535 = word_sum bs mod 65535" by (rule mod_mult_self4)
  finally show "oc (256 * le_sum bs) = oc (word_sum bs)" by (rule oc_cong) (simp add: le_sum_zero)
qed

lemma mem_bytes_Suc: "mem_bytes m a (Suc n) = m a # mem_bytes m (a + 1) n"
  by (simp add: mem_bytes_def map_upt_Suc add.assoc del: upt_Suc)

lemma mem_bytes_0 [simp]: "mem_bytes m a 0 = []"
  by (simp add: mem_bytes_def)

lemma length_mem_bytes [simp]: "length (mem_bytes m a n) = n"
  by (simp add: mem_bytes_def)

lemma mem_bytes_append: "mem_bytes m a (n + k) = mem_bytes m a n @ mem_bytes m (a + of_nat n) k"
  by (induction n arbitrary: a) (simp_all add: mem_bytes_Suc add.assoc)

lemma unat_half: "unat (half lo hi) = unat lo + 256 * unat hi"
proof -
  have "(ucast lo :: u16) AND push_bit 8 (ucast hi) = 0" by (rule bit_word_eqI) (auto simp: bit_simps dest: bit_imp_le_length)
  then have "half lo hi = ucast lo + push_bit 8 (ucast hi)" unfolding half_def by (rule disjunctive_add_eq_or [symmetric])
  also have "\<dots> = of_nat (unat lo + 256 * unat hi)" by (simp add: push_bit_eq_mult mult.commute)
  finally have "unat (half lo hi) = (unat lo + 256 * unat hi) mod 65536" by (simp only: unat_of_nat, simp add: take_bit_eq_mod)
  then show ?thesis using unat_u8_lt [of lo] unat_u8_lt [of hi] by simp
qed

lemma unat_ucast_16_32: "unat (ucast (h::u16) :: u32) = unat h"
  using unat_u16_lt [of h] by (simp add: unsigned_ucast_eq take_bit_nat_eq_self)

lemma ucast_half: "(ucast (half lo hi) :: u32) = of_nat (unat lo + 256 * unat hi)"
proof -
  have "unat (of_nat (unat lo + 256 * unat hi) :: u32) = unat lo + 256 * unat hi"
    using unat_u8_lt [of lo] unat_u8_lt [of hi] by (subst unat_of_nat) (simp add: take_bit_nat_eq_self)
  then show ?thesis by (simp only: word_unat_eq_iff unat_ucast_16_32 unat_half)
qed

lemma chk_loop_sum:
  assumes "r \<in> {0, 1}"
  shows "chk_loop m ps (2 * int n + r) sm = (sm + of_nat (le_sum (mem_bytes m ps (2 * n))), ps + of_nat (2 * n), r)"
proof (induction n arbitrary: ps sm)
  case 0
  then show ?case using assms by (subst chk_loop.simps) auto
next
  case (Suc n)
  have b: "mem_bytes m ps (2 * Suc n) = m ps # m (ps + 1) # mem_bytes m (ps + 2) (2 * n)" by (simp add: mem_bytes_Suc add.assoc)
  have "chk_loop m ps (2 * int (Suc n) + r) sm = chk_loop m (ps + 2) (2 * int n + r) (sm + ucast (half (m ps) (m (ps + 1))))"
    using assms by (subst chk_loop.simps) (auto simp: algebra_simps)
  then show ?case unfolding Suc.IH b by (simp add: ucast_half algebra_simps)
qed

text \<open>The sum of the code is that of the bytes, up to the length its comment gives.\<close>

lemma chk_sum:
  assumes "nat len \<le> 131072"
  shows "\<exists>r \<in> {0, 1}. \<exists>n. nat len = 2 * n + r \<and> chk_loop m pb len 0 = (of_nat (le_sum (mem_bytes m pb (2 * n))), pb + of_nat (2 * n), if 0 \<le> len then int r else len) \<and>
    le_sum (mem_bytes m pb (2 * n)) + 65535 * r \<le> 65536 * 65535"
proof -
  define r n where "r = nat len mod 2" and "n = nat len div 2"
  have nl: "nat len = 2 * n + r" and r: "r \<in> {0, 1}" by (auto simp: r_def n_def)
  have c: "chk_loop m pb len 0 = (of_nat (le_sum (mem_bytes m pb (2 * n))), pb + of_nat (2 * n), if 0 \<le> len then int r else len)"
  proof (cases "0 \<le> len")
    case True
    then have "len = 2 * int n + int r" using nl by linarith
    then show ?thesis using chk_loop_sum [of "int r" m pb n 0] r True by auto
  next
    case False
    then show ?thesis by (subst chk_loop.simps) (simp add: n_def)
  qed
  have "le_sum (mem_bytes m pb (2 * n)) \<le> 65535 * n" using le_sum_bound [of "mem_bytes m pb (2 * n)"] by simp
  moreover have "n + r \<le> 65536" using assms nl r by auto
  ultimately have "le_sum (mem_bytes m pb (2 * n)) + 65535 * r \<le> 65536 * 65535" using r by auto
  then show ?thesis using nl r c by blast
qed

lemma chk_folded:
  assumes "nat len \<le> 131072"
  shows "case chk_loop m pb len 0 of (sm, ps, len2) \<Rightarrow>
    unat (FOLD_U32T (FOLD_U32T (sm + ucast (half (if 0 < len2 then m ps else 0) 0)))) = oc (le_sum (mem_bytes m pb (nat len)))"
    "nat len \<le> 131071 \<Longrightarrow> case chk_loop m pb len 0 of (sm, ps, len2) \<Rightarrow>
    unat (FOLD_U32T (FOLD_U32T (sm + ucast (half (if 0 < len2 then m ps else 0) hi)))) = oc (256 * unat hi + le_sum (mem_bytes m pb (nat len)))"
proof -
  have "case chk_loop m pb len 0 of (sm, ps, len2) \<Rightarrow>
    unat (FOLD_U32T (FOLD_U32T (sm + ucast (half (if 0 < len2 then m ps else 0) hi)))) = oc (256 * unat hi + le_sum (mem_bytes m pb (nat len)))"
    if h: "nat len \<le> 131071 \<or> hi = 0" for hi
  proof -
    obtain r n where r: "r \<in> {0, 1}" and nl: "nat len = 2 * n + r"
      and c: "chk_loop m pb len 0 = (of_nat (le_sum (mem_bytes m pb (2 * n))), pb + of_nat (2 * n), if 0 \<le> len then int r else len)"
      and b: "le_sum (mem_bytes m pb (2 * n)) + 65535 * r \<le> 65536 * 65535"
      using chk_sum [OF assms, of m pb] by blast
    let ?x = "if 0 < (if 0 \<le> len then int r else len) then m (pb + of_nat (2 * n)) else 0"
    have s: "le_sum (mem_bytes m pb (nat len)) = le_sum (mem_bytes m pb (2 * n)) + unat ?x"
      unfolding nl mem_bytes_append using r nl by (auto simp: le_sum_append mem_bytes_Suc)
    have t: "le_sum (mem_bytes m pb (2 * n)) + (unat ?x + 256 * unat hi) \<le> 65536 * 65535"
    proof (cases "nat len \<le> 131071")
      case True
      have "le_sum (mem_bytes m pb (2 * n)) \<le> 65535 * n" using le_sum_bound [of "mem_bytes m pb (2 * n)"] by simp
      moreover have "n \<le> 65535" using True nl by simp
      ultimately show ?thesis using unat_u8_lt [of ?x] unat_u8_lt [of hi] by linarith
    next
      case False
      then have "hi = 0" "r = 0" using h r nl assms by auto
      then show ?thesis using b by auto
    qed
    have "unat (of_nat (le_sum (mem_bytes m pb (2 * n))) + ucast (half ?x hi) :: u32) = le_sum (mem_bytes m pb (2 * n)) + (unat ?x + 256 * unat hi)"
      unfolding ucast_half of_nat_add [symmetric] using t by (subst unat_of_nat) (simp add: take_bit_nat_eq_self)
    moreover have "256 * unat hi + (le_sum (mem_bytes m pb (2 * n)) + unat ?x) = le_sum (mem_bytes m pb (2 * n)) + (unat ?x + 256 * unat hi)" by simp
    ultimately show ?thesis unfolding c prod.case FOLD_twice s by (rule trans [OF arg_cong [of _ _ oc] arg_cong [OF sym, of _ _ oc]])
  qed
  from this [of 0] this [of hi] show "case chk_loop m pb len 0 of (sm, ps, len2) \<Rightarrow>
    unat (FOLD_U32T (FOLD_U32T (sm + ucast (half (if 0 < len2 then m ps else 0) 0)))) = oc (le_sum (mem_bytes m pb (nat len)))"
    "nat len \<le> 131071 \<Longrightarrow> case chk_loop m pb len 0 of (sm, ps, len2) \<Rightarrow>
    unat (FOLD_U32T (FOLD_U32T (sm + ucast (half (if 0 < len2 then m ps else 0) hi)))) = oc (256 * unat hi + le_sum (mem_bytes m pb (nat len)))"
    by simp_all
qed

lemma standard_chksum_sum:
  assumes "nat len \<le> 131072"
  shows "unat (lwip_standard_chksum m p len) = oc (le_sum (mem_bytes m p (nat len)))"
proof -
  have u: "unat (ucast w :: u16) = unat w" if "unat w = oc k" for w :: u32 and k
    using that oc_le [of k] by (simp add: unsigned_ucast_eq take_bit_nat_eq_self)
  show ?thesis
  proof (cases "p AND 1 \<noteq> 0")
    case False
    obtain sm ps l where c: "chk_loop m p len 0 = (sm, ps, l)" by (metis prod_cases3)
    show ?thesis using chk_folded(1) [OF assms, of m p] u False by (auto simp: lwip_standard_chksum_def c Let_def)
  next
    case True
    show ?thesis
    proof (cases "0 < len")
      case False
      then have "chk_loop m p len 0 = (0, p, len)" by (subst chk_loop.simps) simp
      moreover have "half 0 0 = 0" by (simp add: half_def)
      ultimately show ?thesis using True False by (simp add: lwip_standard_chksum_def Let_def FOLD_U32T_def SWAP_BYTES_IN_WORD_def)
    next
      case pos: True
      obtain sm ps l where c: "chk_loop m (p + 1) (len - 1) 0 = (sm, ps, l)" by (metis prod_cases3)
      have n: "nat len = Suc (nat (len - 1))" using pos by simp
      let ?bs = "mem_bytes m (p + 1) (nat (len - 1))"
      let ?s = "FOLD_U32T (FOLD_U32T (sm + ucast (half (if 0 < l then m ps else 0) (m p))))"
      have f: "unat ?s = oc (256 * unat (m p) + le_sum ?bs)" using chk_folded(2) [where len = "len - 1" and m = m and pb = "p + 1" and hi = "m p"] assms pos by (simp add: c)
      obtain k where k: "256 * le_sum (m p # ?bs) = 65535 * k + (256 * unat (m p) + le_sum ?bs)" using le_sum_Cons by blast
      have "le_sum (m p # ?bs) = 0 \<longleftrightarrow> 256 * unat (m p) + le_sum ?bs = 0" by (auto simp: le_sum_all_zero unat_eq_0)
      then have "unat ?s = oc (256 * le_sum (m p # ?bs))" unfolding f by (intro oc_cong) (simp only: k mod_mult_self4, simp)
      then have "unat (SWAP_BYTES_IN_WORD ?s) = oc (256 * (256 * le_sum (m p # ?bs)))" by (rule SWAP_oc)
      also have "\<dots> = oc (le_sum (m p # ?bs))" by simp
      finally have r: "unat (SWAP_BYTES_IN_WORD ?s) = oc (le_sum (mem_bytes m p (nat len)))" unfolding n mem_bytes_Suc .
      show ?thesis using u [OF r] r True pos by (simp add: lwip_standard_chksum_def c Let_def)
    qed
  qed
qed

section \<open>Chains of buffers\<close>

definition chain_bytes :: "ram \<Rightarrow> (u32 \<times> u16) list \<Rightarrow> u8 list" where
  "chain_bytes m p = concat (map (\<lambda>(a, n). mem_bytes m a (unat n)) p)"

lemma le_sum_append_odd: "odd (length xs) \<Longrightarrow> le_sum (xs @ ys) mod 65535 = (le_sum xs + 256 * le_sum ys) mod 65535"
proof -
  assume o: "odd (length xs)"
  then obtain zs x where xs: "xs = zs @ [x]" by (cases xs rule: rev_cases) auto
  have e: "even (length zs)" using o by (simp add: xs)
  obtain k where "256 * le_sum (x # ys) = 65535 * k + (256 * unat x + le_sum ys)" using le_sum_Cons by blast
  then have "256 * (256 * le_sum (x # ys)) mod 65535 = 256 * (256 * unat x + le_sum ys) mod 65535" by (metis mod_mult_right_eq mod_mult_self4)
  moreover have "256 * (256 * a) mod 65535 = a mod (65535 :: nat)" for a
  proof -
    have "256 * (256 * a) = 65535 * a + a" by simp
    then show ?thesis by (metis mod_mult_self4)
  qed
  moreover have "256 * (256 * unat x + le_sum ys) = 65535 * unat x + (unat x + 256 * le_sum ys)" by simp
  ultimately have "le_sum (x # ys) mod 65535 = (unat x + 256 * le_sum ys) mod 65535" by (metis mod_mult_self4)
  then show ?thesis unfolding xs append.assoc le_sum_append [OF e] by (simp add: add.assoc) (metis mod_add_right_eq)
qed

text \<open>After some buffers the accumulator holds the sum of their bytes, swapped if their number is odd.\<close>

definition acc_of :: "u8 list \<Rightarrow> nat" where
  "acc_of bs = oc (if odd (length bs) then 256 * le_sum bs else le_sum bs)"

lemma acc_append:
  "oc (acc_of bs + le_sum cs) = oc (if odd (length bs) then 256 * le_sum (bs @ cs) else le_sum (bs @ cs))"
proof (cases "odd (length bs)")
  case True
  have "oc (256 * le_sum bs + le_sum cs) = oc (256 * le_sum (bs @ cs))"
  proof (rule oc_cong)
    have "256 * le_sum (bs @ cs) mod 65535 = 256 * (le_sum bs + 256 * le_sum cs) mod 65535" using le_sum_append_odd [OF True] by (metis mod_mult_right_eq)
    moreover have "256 * (le_sum bs + 256 * le_sum cs) = 65535 * le_sum cs + (256 * le_sum bs + le_sum cs)" by simp
    ultimately show "(256 * le_sum bs + le_sum cs) mod 65535 = 256 * le_sum (bs @ cs) mod 65535" by (metis mod_mult_self4)
  qed (auto simp: le_sum_all_zero)
  then show ?thesis using True by (simp add: acc_of_def oc_add)
qed (simp add: acc_of_def oc_add le_sum_append)

lemma chk_pbuf_step:
  assumes "unat (fst st) = acc_of bs" "snd st = odd (length bs)"
  shows "unat (fst (chk_pbuf m q st)) = acc_of (bs @ mem_bytes m (fst q) (unat (snd q)))"
    "snd (chk_pbuf m q st) = odd (length (bs @ mem_bytes m (fst q) (unat (snd q))))"
proof -
  let ?cs = "mem_bytes m (fst q) (unat (snd q))"
  let ?c = "ucast (lwip_standard_chksum m (fst q) (int (unat (snd q)))) :: u32"
  have c: "unat ?c = oc (le_sum ?cs)" using unat_u16_lt [of "snd q"] by (simp only: unat_ucast_16_32) (simp add: standard_chksum_sum)
  have "unat (fst st) \<le> 65535" using assms(1) oc_le by (simp add: acc_of_def)
  moreover have "unat ?c \<le> 65535" using c oc_le by simp
  ultimately have s: "unat (fst st + ?c) = acc_of bs + oc (le_sum ?cs)" "unat (fst st + ?c) \<le> 131070" using assms(1) c by (simp_all add: unat_word_ariths)
  have "unat (FOLD_U32T (fst st + ?c)) = oc (acc_of bs + le_sum ?cs)" unfolding FOLD_once [OF s(2)] s(1) by (metis add.commute oc_add)
  then have f: "unat (FOLD_U32T (fst st + ?c)) = oc (if odd (length bs) then 256 * le_sum (bs @ ?cs) else le_sum (bs @ ?cs))" by (simp only: acc_append)
  show "unat (fst (chk_pbuf m q st)) = acc_of (bs @ ?cs)"
  proof (cases "odd (unat (snd q))")
    case True
    then show ?thesis using SWAP_oc [OF f] by (simp add: chk_pbuf_def Let_def acc_of_def)
  next
    case False
    then show ?thesis using f by (simp add: chk_pbuf_def Let_def acc_of_def)
  qed
  show "snd (chk_pbuf m q st) = odd (length (bs @ ?cs))" using assms(2) by (simp add: chk_pbuf_def Let_def)
qed

lemma chk_chain_sum: "unat (chk_chain m p) = oc (le_sum (chain_bytes m p))"
proof -
  have "unat (fst (fold (chk_pbuf m) p st)) = acc_of (bs @ chain_bytes m p) \<and> snd (fold (chk_pbuf m) p st) = odd (length (bs @ chain_bytes m p))"
    if "unat (fst st) = acc_of bs" "snd st = odd (length bs)" for st bs
    using that
  proof (induction p arbitrary: st bs)
    case (Cons q p)
    note s = chk_pbuf_step [OF Cons.prems, of m q]
    have "chain_bytes m (q # p) = mem_bytes m (fst q) (unat (snd q)) @ chain_bytes m p" by (simp add: chain_bytes_def case_prod_beta)
    then show ?case using Cons.IH [OF s] by simp
  qed (simp add: chain_bytes_def)
  from this [of "(0, False)" "[]"] have f: "unat (fst (fold (chk_pbuf m) p (0, False))) = acc_of (chain_bytes m p)"
    "snd (fold (chk_pbuf m) p (0, False)) = odd (length (chain_bytes m p))" by (simp_all add: acc_of_def)
  show ?thesis
  proof (cases "odd (length (chain_bytes m p))")
    case True
    then have "unat (SWAP_BYTES_IN_WORD (fst (fold (chk_pbuf m) p (0, False)))) = oc (256 * (256 * le_sum (chain_bytes m p)))"
      using f(1) by (intro SWAP_oc) (simp add: acc_of_def)
    then show ?thesis using f(2) True by (simp add: chk_chain_def case_prod_beta)
  next
    case False
    then show ?thesis using f by (simp add: chk_chain_def case_prod_beta acc_of_def)
  qed
qed

section \<open>Properties\<close>

lemma htons_SWAP: "lwip_htons x = ucast (SWAP_BYTES_IN_WORD (ucast x))"
  by (rule bit_word_eqI) (auto simp: bit_lwip_htons SWAP_BYTES_IN_WORD_def lane_masks bit_simps add.commute)

lemma htons_NOT: "lwip_htons (NOT x) = NOT (lwip_htons x)"
  by (rule bit_word_eqI) (auto simp: bit_lwip_htons bit_simps)

lemma htons_oc:
  assumes "unat x = oc s"
  shows "unat (lwip_htons x) = oc (256 * s)"
proof -
  have "unat (SWAP_BYTES_IN_WORD (ucast x)) = oc (256 * s)" by (rule SWAP_oc) (simp add: unat_ucast_16_32 assms)
  then show ?thesis using oc_le [of "256 * s"] by (simp add: htons_SWAP unsigned_ucast_eq take_bit_nat_eq_self)
qed

lemma htons_rfc1071: "unat x = oc (le_sum bs) \<Longrightarrow> lwip_htons (NOT x) = rfc1071 bs"
proof -
  assume "unat x = oc (le_sum bs)"
  then have "unat (lwip_htons x) = oc (word_sum bs)" using htons_oc oc_le_sum(1) by metis
  then have "lwip_htons x = of_nat (oc (word_sum bs))" by (metis of_nat_unat ucast_id)
  then show ?thesis by (simp add: htons_NOT rfc1071_def)
qed

lemma mask_16: "(0xFFFF :: u32) = mask 16"
  by (simp add: mask_eq_exp_minus_1)

lemma low_half:
  assumes "unat a \<le> 65535"
  shows "ucast (NOT (a AND 0xFFFF)) = NOT (ucast (a :: u32) :: u16)"
  unfolding mask_16 by (rule bit_word_eqI) (auto simp: bit_simps)

lemma unat_low: "unat a \<le> 65535 \<Longrightarrow> unat (ucast (a :: u32) :: u16) = unat a"
  by (simp add: unsigned_ucast_eq take_bit_nat_eq_self)

text \<open>C22. The checksum the code computes, of a contiguous message at an even or odd address and of a message spread over a chain of buffers
  of any lengths, is in network byte order the one RFC 1071 defines on the bytes of the message.\<close>

theorem chksum_is_rfc1071:
  "lwip_htons (inet_chksum m dataptr len) = rfc1071 (mem_bytes m dataptr (unat len)) \<and> lwip_htons (inet_chksum_pbuf m p) = rfc1071 (chain_bytes m p)"
proof
  show "lwip_htons (inet_chksum m dataptr len) = rfc1071 (mem_bytes m dataptr (unat len))"
    unfolding inet_chksum_def using unat_u16_lt [of len] by (intro htons_rfc1071) (simp add: standard_chksum_sum)
  have b: "unat (chk_chain m p) \<le> 65535" using chk_chain_sum oc_le by simp
  have "lwip_htons (NOT (ucast (chk_chain m p))) = rfc1071 (chain_bytes m p)" by (rule htons_rfc1071) (simp only: unat_low [OF b] chk_chain_sum)
  then show "lwip_htons (inet_chksum_pbuf m p) = rfc1071 (chain_bytes m p)" by (simp only: inet_chksum_pbuf_def low_half [OF b])
qed

lemma half_word_parts:
  "unat (a AND 0xFFFF) = unat (ucast a :: u8) + 256 * unat (ucast (drop_bit 8 a) :: u8)"
  "unat (drop_bit 16 a AND 0xFFFF) = unat (ucast (drop_bit 16 a) :: u8) + 256 * unat (ucast (drop_bit 24 a) :: u8)" for a :: u32
proof -
  have h: "unat (a AND 0xFFFF) = unat (ucast a :: u8) + 256 * unat (ucast (drop_bit 8 a) :: u8)" for a :: u32
  proof -
    have "a AND 0xFFFF = ucast (half (ucast a) (ucast (drop_bit 8 a)))"
      unfolding half_def mask_16 by (rule bit_word_eqI) (auto simp: bit_simps)
    then show ?thesis by (simp only: unat_ucast_16_32 unat_half)
  qed
  from h [of a] h [of "drop_bit 16 a"] show "unat (a AND 0xFFFF) = unat (ucast a :: u8) + 256 * unat (ucast (drop_bit 8 a) :: u8)"
    "unat (drop_bit 16 a AND 0xFFFF) = unat (ucast (drop_bit 16 a) :: u8) + 256 * unat (ucast (drop_bit 24 a) :: u8)" by simp_all
qed

definition pseudo_header :: "u32 \<Rightarrow> u32 \<Rightarrow> u8 \<Rightarrow> u16 \<Rightarrow> u8 list" where
  "pseudo_header src dest proto proto_len = addr_bytes src @ addr_bytes dest @ [0, proto, ucast (drop_bit 8 proto_len), ucast proto_len]"

lemma htons_half: "lwip_htons n = half (ucast (drop_bit 8 n)) (ucast n)"
  unfolding half_def by (rule bit_word_eqI) (auto simp: bit_lwip_htons bit_simps add.commute)

lemma pseudo_header_length: "length (pseudo_header src dest proto proto_len) = 12"
  by (simp add: pseudo_header_def addr_bytes_def)

lemma pseudo_header_sum:
  "le_sum (pseudo_header src dest proto proto_len) = unat (src AND 0xFFFF) + unat (drop_bit 16 src AND 0xFFFF) + unat (dest AND 0xFFFF) + unat (drop_bit 16 dest AND 0xFFFF) +
    unat (lwip_htons (ucast proto)) + unat (lwip_htons proto_len)"
proof -
  have "drop_bit 8 (ucast proto :: u16) = 0" by (rule bit_word_eqI) (auto simp: bit_simps dest: bit_imp_le_length)
  moreover have "ucast (ucast proto :: u16) = proto" by (rule bit_word_eqI) (auto simp: bit_simps)
  ultimately have "unat (lwip_htons (ucast proto)) = 256 * unat proto" by (simp add: htons_half unat_half)
  then show ?thesis by (simp add: pseudo_header_def addr_bytes_def half_word_parts htons_half unat_half)
qed

text \<open>The checksum of TCP and UDP covers the pseudo header, that is the two addresses, a zero byte, the protocol and the length in network
  order, followed by the bytes of the chain.\<close>

theorem chksum_pseudo_is_rfc1071:
  "lwip_htons (inet_chksum_pseudo m p src dest proto proto_len) = rfc1071 (pseudo_header src dest proto proto_len @ chain_bytes m p)"
proof -
  let ?h = "pseudo_header src dest proto proto_len" and ?w = "\<lambda>a. unat (a AND 0xFFFF :: u32)" and ?k = "\<lambda>n. unat (lwip_htons n)"
  define acc where "acc = chk_chain m p + (src AND 0xFFFF) + (drop_bit 16 src AND 0xFFFF) + (dest AND 0xFFFF) + (drop_bit 16 dest AND 0xFFFF) +
    ucast (lwip_htons (ucast proto)) + ucast (lwip_htons proto_len)"
  have w: "?w a \<le> 65535" for a using unat_u8_lt [of "ucast a"] unat_u8_lt [of "ucast (drop_bit 8 a)"] unfolding half_word_parts(1) by linarith
  have "unat acc = unat (chk_chain m p) + ?w src + ?w (drop_bit 16 src) + ?w dest + ?w (drop_bit 16 dest) + ?k (ucast proto) + ?k proto_len"
    unfolding acc_def using oc_le [of "le_sum (chain_bytes m p)"] w [of src] w [of "drop_bit 16 src"] w [of dest] w [of "drop_bit 16 dest"]
      unat_u16_lt [of "lwip_htons (ucast proto)"] unat_u16_lt [of "lwip_htons proto_len"]
    by (simp add: unat_word_ariths chk_chain_sum unat_ucast_16_32)
  then have "unat acc = oc (le_sum (chain_bytes m p)) + le_sum ?h" by (simp add: pseudo_header_sum chk_chain_sum)
  then have f: "unat (FOLD_U32T (FOLD_U32T acc)) = oc (le_sum (?h @ chain_bytes m p))"
    using le_sum_append [of ?h "chain_bytes m p"] by (simp only: FOLD_twice oc_add) (simp add: pseudo_header_length add.commute)
  then have b: "unat (FOLD_U32T (FOLD_U32T acc)) \<le> 65535" using oc_le by simp
  have "lwip_htons (NOT (ucast (FOLD_U32T (FOLD_U32T acc)))) = rfc1071 (?h @ chain_bytes m p)" by (rule htons_rfc1071) (simp only: unat_low [OF b] f)
  then show ?thesis unfolding inet_chksum_pseudo_def Let_def add.assoc [symmetric] acc_def [symmetric] low_half [OF b] .
qed

lemma unat_ones: "unat (- 1 :: u16) = 65535"
  by (simp add: unsigned_minus_1_eq_mask mask_eq_exp_minus_1)

lemma unat_NOT: "unat (NOT x) = 65535 - unat (x :: u16)"
proof -
  have "NOT x = - 1 - x" by (simp add: not_eq_complement)
  moreover have "x \<le> - 1" by simp
  then have "unat (- 1 - x) = unat (- 1 :: u16) - unat x" by (rule unat_sub)
  ultimately show ?thesis by (simp add: unat_ones)
qed

text \<open>C27. What the sender does is what the receiver accepts: a message with a zero checksum field at an even offset, in which the
  field is then set to the checksum as the processor stores it, has the checksum 0.\<close>

theorem chksum_verifies:
  assumes "even k" "k + 2 \<le> unat len" "m (p + of_nat k) = 0" "m (p + of_nat k + 1) = 0"
  defines "c \<equiv> inet_chksum m p len"
  shows "inet_chksum (m(p + of_nat k := ucast c, p + of_nat k + 1 := ucast (drop_bit 8 c))) p len = 0"
proof -
  define a where "a = p + of_nat k"
  define m' where "m' = m(a := ucast c, a + 1 := ucast (drop_bit 8 c))"
  obtain n where n: "unat len = k + (2 + n)" using assms(2) by (metis le_Suc_ex add.assoc)
  have len: "unat len < 65536" by (rule unat_u16_lt)
  have far: "mem_bytes m' (p + of_nat j) i = mem_bytes m (p + of_nat j) i" if "j + i \<le> k \<or> k + 2 \<le> j" "j + i \<le> unat len" for i j
  proof -
    have "p + of_nat j + of_nat h \<noteq> a \<and> p + of_nat j + of_nat h \<noteq> a + 1" if h: "h < i" for h
    proof -
      have "j + h < 65536" "k + 1 < 65536" and ne: "j + h \<noteq> k" "j + h \<noteq> k + 1" using that \<open>j + i \<le> k \<or> k + 2 \<le> j\<close> \<open>j + i \<le> unat len\<close> n len by auto
      then have "of_nat (j + h) \<noteq> (of_nat k :: u32)" "of_nat (j + h) \<noteq> (of_nat (k + 1) :: u32)"
        using of_nat_u32_inj [of "j + h" k] of_nat_u32_inj [of "j + h" "k + 1"] by (simp_all del: of_nat_add)
      moreover have "p + of_nat j + of_nat h = p + of_nat (j + h)" "a + 1 = p + of_nat (k + 1)" by (simp_all add: a_def add.assoc)
      ultimately show ?thesis unfolding a_def by (simp add: add.commute [of 1] del: of_nat_add)
    qed
    then show ?thesis by (simp add: mem_bytes_def m'_def)
  qed
  have split: "mem_bytes f p (unat len) = mem_bytes f p k @ [f a, f (a + 1)] @ mem_bytes f (p + of_nat (k + 2)) n" for f
    unfolding n mem_bytes_append by (simp add: mem_bytes_Suc a_def numeral_2_eq_2 add.assoc add.commute [of 2])
  have cells: "m' a = ucast c" "m' (a + 1) = ucast (drop_bit 8 c)" "m a = 0" "m (a + 1) = 0" using assms(3,4) by (simp_all add: m'_def a_def)
  define S where "S = le_sum (mem_bytes m p (unat len))"
  have c: "unat c = 65535 - oc S"
  proof -
    have "unat (lwip_standard_chksum m p (int (unat len))) = oc S" using len by (simp add: standard_chksum_sum S_def)
    then show ?thesis unfolding c_def inet_chksum_def by (simp add: unat_NOT)
  qed
  have "c = half (ucast c) (ucast (drop_bit 8 c))" unfolding half_def by (rule bit_word_eqI) (auto simp: bit_simps)
  then have cc: "unat (ucast c :: u8) + 256 * unat (ucast (drop_bit 8 c) :: u8) = unat c" by (metis unat_half)
  have "le_sum (mem_bytes m' p (unat len)) = S + unat c"
    using far [of 0 k] far [of "k + 2" n] assms(1) n cc unfolding S_def split by (simp add: le_sum_append cells)
  moreover have "oc (S + unat c) = 65535"
  proof (rule ocI [symmetric])
    have "(oc S + unat c) mod 65535 = 0" using oc_le [of S] by (simp add: c)
    then show "65535 mod 65535 = (S + unat c) mod 65535" by (metis mod_add_left_eq mod_self oc_mod)
    show "(65535::nat) = 0 \<longleftrightarrow> S + unat c = 0" using c by auto
  qed simp
  ultimately have "unat (lwip_standard_chksum m' p (int (unat len))) = 65535" using len by (simp add: standard_chksum_sum)
  then have "lwip_standard_chksum m' p (int (unat len)) = NOT 0" by (simp add: word_unat_eq_iff unat_ones)
  then show ?thesis by (simp add: inet_chksum_def m'_def a_def)
qed

text \<open>A message of five bytes at an odd address with its checksum field at offset 2.\<close>

definition ckex :: ram where
  "ckex = (\<lambda>_. 0)(1001 := 0x45, 1002 := 0xFE, 1005 := 0x07)"

theorem chksum_verifies_witness:
  "inet_chksum (ckex(1003 := ucast (inet_chksum ckex 1001 5), 1004 := ucast (drop_bit 8 (inet_chksum ckex 1001 5)))) 1001 5 = 0"
  using chksum_verifies [of 2 5 ckex 1001] by (simp add: ckex_def)

end
