(* ===== verification/LwipMemp.thy ===== *)
theory LwipMemp
  imports FreePool
begin

text \<open>
  The memory pools of lwIP, demo/LWIP/lwip-1.4.1/src/core/memp.c with the pools the configuration selects from
  src/include/lwip/memp_std.h. The first word of a free element is its link, at the address of the element itself, so the same cell is a
  field of the structure while the element is in use; \<open>memp_next\<close> is this cell. The sizes of the structures, which
  the compiler determines, are a parameter.
\<close>

section \<open>Operations\<close>

record memp_pools =
  memp_next :: "nat \<Rightarrow> nat option"
  memp_tab :: "nat \<Rightarrow> nat option"

abbreviation (input) "MEM_ALIGNMENT \<equiv> 4 :: nat"
abbreviation (input) "MEMP_MAX \<equiv> 15 :: nat"
abbreviation (input) "MEMP_SYS_TIMEOUT \<equiv> 11 :: nat"
abbreviation (input) "MEMP_PBUF_POOL \<equiv> 14 :: nat"

definition memp_num :: "nat list" where
  "memp_num = [4, 6, 10, 6, 15, 5, 15, 2, 4, 8, 8, 8, 1, 20, 20]"

definition LWIP_MEM_ALIGN :: "nat \<Rightarrow> nat" where
  "LWIP_MEM_ALIGN a = (a + MEM_ALIGNMENT - 1) div MEM_ALIGNMENT * MEM_ALIGNMENT"

definition memp_get_memorysize :: "(nat \<Rightarrow> nat) \<Rightarrow> nat" where
  "memp_get_memorysize sz = MEM_ALIGNMENT - 1 + sum_list (map (\<lambda>i. memp_num ! i * sz i) [0..<MEMP_MAX])"

text \<open>The loop that links the elements of a pool; the result is the address after them.\<close>

fun memp_link :: "nat \<Rightarrow> nat \<Rightarrow> nat \<Rightarrow> nat \<times> 'a memp_pools_scheme \<Rightarrow> nat \<times> 'a memp_pools_scheme" where
  "memp_link i sz 0 st = st"
| "memp_link i sz (Suc n) (memp, s) =
    memp_link i sz n (memp + sz, s\<lparr>memp_next := (memp_next s)(memp := memp_tab s i), memp_tab := (memp_tab s)(i := Some memp)\<rparr>)"

definition memp_pool_init :: "(nat \<Rightarrow> nat) \<Rightarrow> nat \<Rightarrow> nat \<times> 'a memp_pools_scheme \<Rightarrow> nat \<times> 'a memp_pools_scheme" where
  "memp_pool_init sz i st = memp_link i (sz i) (memp_num ! i) (fst st, (snd st)\<lparr>memp_tab := (memp_tab (snd st))(i := None)\<rparr>)"

definition memp_init :: "(nat \<Rightarrow> nat) \<Rightarrow> nat \<Rightarrow> 'a memp_pools_scheme \<Rightarrow> 'a memp_pools_scheme" where
  "memp_init sz memp_memory s = snd (fold (memp_pool_init sz) [0..<MEMP_MAX] (LWIP_MEM_ALIGN memp_memory, s))"

definition memp_malloc :: "nat \<Rightarrow> 'a memp_pools_scheme \<Rightarrow> nat option \<times> 'a memp_pools_scheme" where
  "memp_malloc ty s =
    (if \<not> ty < MEMP_MAX then (None, s)
     else case memp_tab s ty of
       None \<Rightarrow> (None, s)
     | Some memp \<Rightarrow> (Some memp, s\<lparr>memp_tab := (memp_tab s)(ty := memp_next s memp)\<rparr>))"

definition memp_free :: "nat \<Rightarrow> nat option \<Rightarrow> 'a memp_pools_scheme \<Rightarrow> 'a memp_pools_scheme" where
  "memp_free ty mem s =
    (case mem of
       None \<Rightarrow> s
     | Some memp \<Rightarrow> s\<lparr>memp_next := (memp_next s)(memp := memp_tab s ty), memp_tab := (memp_tab s)(ty := Some memp)\<rparr>)"

section \<open>A pool is a list of free elements\<close>

definition memp_repr :: "nat \<Rightarrow> 'a memp_pools_scheme \<Rightarrow> nat list \<Rightarrow> bool" where
  "memp_repr ty s fs \<longleftrightarrow> chain (memp_next s) (memp_tab s ty) fs"

lemma memp_free_pool:
  assumes "ty < MEMP_MAX"
  shows "free_pool (memp_malloc ty) (\<lambda>b. memp_free ty (Some b)) (memp_repr ty) (\<lambda>_ _. UNIV)"
proof
  show "memp_repr ty s [] \<Longrightarrow> memp_malloc ty s = (None, s)" for s :: "'a memp_pools_scheme" by (simp add: memp_repr_def memp_malloc_def)
  show "memp_repr ty s (b # bs) \<Longrightarrow> \<exists>s'. memp_malloc ty s = (Some b, s') \<and> memp_repr ty s' bs" for s :: "'a memp_pools_scheme" and b bs
    using assms by (simp add: memp_repr_def memp_malloc_def)
  show "memp_repr ty s bs \<Longrightarrow> b \<notin> set bs \<Longrightarrow> b \<in> UNIV \<Longrightarrow> memp_repr ty (memp_free ty (Some b) s) (b # bs)" for s :: "'a memp_pools_scheme" and b bs
    by (simp add: memp_repr_def memp_free_def)
  show "memp_repr ty s bs \<Longrightarrow> distinct bs" for s :: "'a memp_pools_scheme" and bs unfolding memp_repr_def by (rule chain_distinct)
qed

interpretation tpool: free_pool "memp_malloc MEMP_SYS_TIMEOUT" "\<lambda>b. memp_free MEMP_SYS_TIMEOUT (Some b)" "memp_repr MEMP_SYS_TIMEOUT" "\<lambda>_ _. UNIV"
  by (rule memp_free_pool) simp

section \<open>The pools after initialisation\<close>

lemma memp_link_pool:
  assumes "0 < sz" "chain (memp_next s) (memp_tab s i) fs" "\<And>a. a \<in> set fs \<Longrightarrow> a < memp"
  defines "r \<equiv> \<lambda>n. memp_link i sz n (memp, s)"
  shows "fst (r n) = memp + n * sz \<and> chain (memp_next (snd (r n))) (memp_tab (snd (r n)) i) (rev (map (\<lambda>j. memp + j * sz) [0..<n]) @ fs)"
  using assms(1-3) unfolding r_def
proof (induction n arbitrary: memp s fs)
  case (Suc n)
  let ?s = "s\<lparr>memp_next := (memp_next s)(memp := memp_tab s i), memp_tab := (memp_tab s)(i := Some memp)\<rparr>"
  have "memp \<notin> set fs" using Suc.prems(3) by blast
  then have c: "chain (memp_next ?s) (memp_tab ?s i) (memp # fs)" using Suc.prems(2) by simp
  have l: "a < memp + sz" if "a \<in> set (memp # fs)" for a using that Suc.prems by fastforce
  have "[0..<Suc n] = 0 # map Suc [0..<n]" by (simp add: map_Suc_upt upt_conv_Cons del: upt_Suc)
  then have m: "rev (map (\<lambda>j. memp + j * sz) [0..<Suc n]) = rev (map (\<lambda>j. memp + sz + j * sz) [0..<n]) @ [memp]" by (simp add: o_def algebra_simps)
  show ?case using Suc.IH [OF Suc.prems(1) c l] unfolding m by simp
qed simp

lemma memp_link_others:
  "k \<noteq> i \<Longrightarrow> memp_tab (snd (memp_link i sz n (memp, s))) k = memp_tab s k"
  "0 < sz \<Longrightarrow> a < memp \<Longrightarrow> memp_next (snd (memp_link i sz n (memp, s))) a = memp_next s a"
  by (induction n arbitrary: memp s) simp_all

text \<open>Where the pools begin.\<close>

definition memp_base :: "(nat \<Rightarrow> nat) \<Rightarrow> nat \<Rightarrow> nat \<Rightarrow> nat" where
  "memp_base sz a i = a + sum_list (map (\<lambda>k. memp_num ! k * sz k) [0..<i])"

definition memp_elems :: "(nat \<Rightarrow> nat) \<Rightarrow> nat \<Rightarrow> nat \<Rightarrow> nat list" where
  "memp_elems sz a i = rev (map (\<lambda>j. memp_base sz a i + j * sz i) [0..<memp_num ! i])"

lemma memp_base_Suc: "memp_base sz a (Suc i) = memp_base sz a i + memp_num ! i * sz i"
  by (simp add: memp_base_def)

lemma memp_base_mono: "i \<le> k \<Longrightarrow> memp_base sz a i \<le> memp_base sz a k"
  by (induction k) (auto simp: memp_base_Suc le_Suc_eq)

lemma memp_elems_in:
  assumes "0 < sz i" "e \<in> set (memp_elems sz a i)"
  shows "memp_base sz a i \<le> e" "e + sz i \<le> memp_base sz a (Suc i)"
proof -
  obtain j where j: "j < memp_num ! i" "e = memp_base sz a i + j * sz i" using assms(2) by (auto simp: memp_elems_def)
  show "memp_base sz a i \<le> e" by (simp add: j)
  have "Suc j * sz i \<le> memp_num ! i * sz i" using j(1) by (intro mult_right_mono) auto
  then show "e + sz i \<le> memp_base sz a (Suc i)" by (simp add: j memp_base_Suc)
qed

lemma memp_pools_after:
  fixes a and s :: "'a memp_pools_scheme"
  assumes sz: "\<And>i. i < MEMP_MAX \<Longrightarrow> 0 < sz i" and n: "n \<le> MEMP_MAX"
  defines "st \<equiv> fold (memp_pool_init sz) [0..<n] (a, s)"
  shows "fst st = memp_base sz a n" "i < n \<Longrightarrow> memp_repr i (snd st) (memp_elems sz a i)"
proof -
  have "fst st = memp_base sz a n \<and> (\<forall>i<n. memp_repr i (snd st) (memp_elems sz a i))" using n unfolding st_def
  proof (induction n)
    case 0
    then show ?case by (simp add: memp_base_def)
  next
    case (Suc n)
    define t where "t = fold (memp_pool_init sz) [0..<n] (a, s)"
    let ?s = "(snd t)\<lparr>memp_tab := (memp_tab (snd t))(n := None)\<rparr>"
    have ih: "fst t = memp_base sz a n" "\<And>i. i < n \<Longrightarrow> memp_repr i (snd t) (memp_elems sz a i)" using Suc unfolding t_def by auto
    have p: "0 < sz n" using sz Suc.prems by simp
    have e: "fold (memp_pool_init sz) [0..<Suc n] (a, s) = memp_link n (sz n) (memp_num ! n) (fst t, ?s)" by (simp add: t_def memp_pool_init_def)
    have l: "fst (memp_link n (sz n) (memp_num ! n) (fst t, ?s)) = fst t + memp_num ! n * sz n"
      "memp_repr n (snd (memp_link n (sz n) (memp_num ! n) (fst t, ?s))) (memp_elems sz a n)"
      using memp_link_pool [OF p, of ?s n "[]" "fst t" "memp_num ! n"] by (simp_all add: memp_repr_def memp_elems_def ih(1))
    have "memp_repr i (snd (memp_link n (sz n) (memp_num ! n) (fst t, ?s))) (memp_elems sz a i)" if i: "i < n" for i
    proof -
      have "x < fst t" if "x \<in> set (memp_elems sz a i)" for x
        using memp_elems_in(2) [OF _ that] memp_base_mono [of "Suc i" n sz a] sz [of i] i Suc.prems ih(1) by fastforce
      then have "chain (memp_next (snd (memp_link n (sz n) (memp_num ! n) (fst t, ?s)))) (memp_tab (snd t) i) (memp_elems sz a i)"
        using ih(2) [OF i] unfolding memp_repr_def by (subst chain_cong [where nx' = "memp_next (snd t)"]) (simp_all add: memp_link_others p)
      then show ?thesis using i by (simp add: memp_repr_def memp_link_others)
    qed
    then show ?case unfolding e using l ih(1) by (auto simp: memp_base_Suc less_Suc_eq)
  qed
  then show "fst st = memp_base sz a n" "i < n \<Longrightarrow> memp_repr i (snd st) (memp_elems sz a i)" by blast+
qed

section \<open>Properties\<close>

text \<open>C30. \<open>memp_init\<close> carves the block that \<open>lwip_comm_mem_malloc\<close> allocates for it with the size of \<open>memp_get_memorysize\<close> into the pools: each
  pool is a list of as many free elements as configured, all elements lie inside the block, and no two
  elements of the same or of different pools overlap.\<close>

theorem memp_init_carves:
  assumes "\<forall>i < MEMP_MAX. 0 < sz i"
  shows "\<exists>el. \<forall>i < MEMP_MAX. memp_repr i (memp_init sz memp_memory s) (el i) \<and> length (el i) = memp_num ! i \<and>
    (\<forall>a \<in> set (el i). memp_memory \<le> a \<and> a + sz i \<le> memp_memory + memp_get_memorysize sz) \<and>
    (\<forall>k < MEMP_MAX. \<forall>a \<in> set (el i). \<forall>b \<in> set (el k). (i, a) \<noteq> (k, b) \<longrightarrow> {a..<a + sz i} \<inter> {b..<b + sz k} = {})"
proof -
  define A where "A = LWIP_MEM_ALIGN memp_memory"
  have sz: "0 < sz i" if "i < MEMP_MAX" for i using assms that by blast
  have al: "memp_memory \<le> A" "A \<le> memp_memory + 3" by (simp_all add: A_def LWIP_MEM_ALIGN_def)
  have top: "memp_base sz A MEMP_MAX \<le> memp_memory + memp_get_memorysize sz" using al by (simp add: memp_base_def memp_get_memorysize_def)
  have apart: "{a..<a + sz i} \<inter> {b..<b + sz k} = {}"
    if "i < k" "k < MEMP_MAX" "a \<in> set (memp_elems sz A i)" "b \<in> set (memp_elems sz A k)" for i k a b
    using memp_elems_in(2) [OF sz that(3)] memp_elems_in(1) [OF sz that(4)] memp_base_mono [of "Suc i" k sz A] that by fastforce
  have same: "{a..<a + sz i} \<inter> {b..<b + sz i} = {}"
    if el: "i < MEMP_MAX" "a \<in> set (memp_elems sz A i)" "b \<in> set (memp_elems sz A i)" "a \<noteq> b" for i a b
  proof -
    obtain j h where "a = memp_base sz A i + j * sz i" "b = memp_base sz A i + h * sz i" using el(2,3) by (auto simp: memp_elems_def)
    then have "Suc j \<le> h \<and> a + sz i \<le> b \<or> Suc h \<le> j \<and> b + sz i \<le> a"
      using el(4) mult_le_mono1 [of "Suc j" h "sz i"] mult_le_mono1 [of "Suc h" j "sz i"] by (cases "j < h") auto
    then show ?thesis by auto
  qed
  show ?thesis
  proof (intro exI [of _ "memp_elems sz A"] allI impI conjI ballI)
    fix i assume i: "i < MEMP_MAX"
    show "memp_repr i (memp_init sz memp_memory s) (memp_elems sz A i)" using memp_pools_after(2) [where n = MEMP_MAX and sz = sz] sz i by (simp add: memp_init_def A_def)
    show "length (memp_elems sz A i) = memp_num ! i" by (simp add: memp_elems_def)
    fix a assume a: "a \<in> set (memp_elems sz A i)"
    show "memp_memory \<le> a" using memp_elems_in(1) [OF sz [OF i] a] al memp_base_mono [of 0 i sz A] by (simp add: memp_base_def)
    show "a + sz i \<le> memp_memory + memp_get_memorysize sz" using memp_elems_in(2) [OF sz [OF i] a] memp_base_mono [of "Suc i" MEMP_MAX sz A] top i by simp
    fix k b assume k: "k < MEMP_MAX" and b: "b \<in> set (memp_elems sz A k)" and ne: "(i, a) \<noteq> (k, b)"
    show "{a..<a + sz i} \<inter> {b..<b + sz k} = {}"
      using apart [of i k a b] apart [of k i b a] same [of i a b] i k a b ne by (cases i k rule: linorder_cases) (auto simp: Int_commute)
  qed
qed

definition mpex :: memp_pools where
  "mpex = memp_init (\<lambda>_. 16) 0x20000001 \<lparr>memp_next = (\<lambda>_. None), memp_tab = (\<lambda>_. None)\<rparr>"

theorem memp_init_carves_witness: "\<exists>fs. memp_repr MEMP_SYS_TIMEOUT mpex fs \<and> length fs = 8"
proof -
  have p: "\<forall>i < MEMP_MAX. 0 < (\<lambda>_. 16 :: nat) i" by simp
  define s0 where "s0 = \<lparr>memp_next = (\<lambda>_. None), memp_tab = (\<lambda>_. None)\<rparr>"
  obtain el where "11 < MEMP_MAX \<longrightarrow> memp_repr 11 (memp_init (\<lambda>_. 16) 0x20000001 s0) (el 11) \<and> length (el 11) = memp_num ! 11"
    by (rule exE [OF memp_init_carves [OF p, where memp_memory = "0x20000001" and s = s0]], drule spec [of _ 11]) metis
  then show ?thesis by (auto simp: memp_num_def mpex_def s0_def)
qed

end
