(* ===== verification/LwipTimers.thy ===== *)
theory LwipTimers
  imports LwipMemp
begin

text \<open>
  The timeouts of lwIP, demo/LWIP/lwip-1.4.1/src/core/timers.c in the configuration with an operating system. The timeouts are a linked
  list in which each entry holds the time after its predecessor; an entry is an element of the pool \<open>MEMP_SYS_TIMEOUT\<close>, and its field \<open>next\<close> is the cell
  that links it while it is free. \<open>sys_timeouts_mbox_fetch\<close> is divided at its call of \<open>sys_arch_mbox_fetch\<close>, which
  blocks: \<open>fetch_timeout\<close> is the time it waits, \<open>timeouts_return\<close> what it does with the result. The functions of the protocols
  that the periodic timers call are a parameter \<open>work\<close>, the tests of the lists of TCP connections a parameter \<open>active\<close>.
\<close>

section \<open>Operations\<close>

datatype sys_timeout_handler = tcpip_tcp_timer | ip_reass_timer | arp_timer | dhcp_timer_coarse | dhcp_timer_fine | dns_timer | other_handler nat

record sys_timeouts = memp_pools +
  next_timeout :: "nat option"
  to_time :: "nat \<Rightarrow> u32"
  to_h :: "nat \<Rightarrow> sys_timeout_handler option"
  to_arg :: "nat \<Rightarrow> nat"
  tcpip_tcp_timer_active :: bool

abbreviation (input) "TCP_TMR_INTERVAL \<equiv> 250 :: u32"
abbreviation (input) "IP_TMR_INTERVAL \<equiv> 1000 :: u32"
abbreviation (input) "ARP_TMR_INTERVAL \<equiv> 5000 :: u32"
abbreviation (input) "DHCP_COARSE_TIMER_MSECS \<equiv> 60000 :: u32"
abbreviation (input) "DHCP_FINE_TIMER_MSECS \<equiv> 500 :: u32"
abbreviation (input) "DNS_TMR_INTERVAL \<equiv> 1000 :: u32"
abbreviation (input) "SYS_ARCH_TIMEOUT \<equiv> 0xFFFFFFFF :: u32"

definition set_time :: "nat \<Rightarrow> u32 \<Rightarrow> sys_timeouts \<Rightarrow> sys_timeouts" where
  "set_time t v s = s\<lparr>to_time := (to_time s)(t := v)\<rparr>"

definition set_next :: "nat \<Rightarrow> nat option \<Rightarrow> sys_timeouts \<Rightarrow> sys_timeouts" where
  "set_next t p s = s\<lparr>memp_next := (memp_next s)(t := p)\<rparr>"

text \<open>The loop of \<open>sys_timeout\<close> that looks for the place of the new entry \<open>n\<close>.\<close>

partial_function (option) timeo_insert :: "nat option \<Rightarrow> nat \<Rightarrow> sys_timeouts \<Rightarrow> sys_timeouts option" where
  "timeo_insert p n s =
    (case p of
       None \<Rightarrow> Some s
     | Some t \<Rightarrow>
         (let s1 = set_time n (to_time s n - to_time s t) s in
          case memp_next s1 t of
            None \<Rightarrow> Some (set_next t (Some n) (set_next n None s1))
          | Some r \<Rightarrow>
              if to_time s1 n < to_time s1 r
              then Some (set_next t (Some n) (set_next n (Some r) (set_time r (to_time s1 r - to_time s1 n) s1)))
              else timeo_insert (Some r) n s1))"

definition sys_timeout :: "u32 \<Rightarrow> sys_timeout_handler option \<Rightarrow> nat \<Rightarrow> sys_timeouts \<Rightarrow> sys_timeouts option" where
  "sys_timeout msecs handler arg s =
    (case memp_malloc MEMP_SYS_TIMEOUT s of
       (None, s1) \<Rightarrow> Some s1
     | (Some n, s1) \<Rightarrow>
         (let s2 = (set_next n None s1)\<lparr>to_h := (to_h s1)(n := handler), to_arg := (to_arg s1)(n := arg), to_time := (to_time s1)(n := msecs)\<rparr> in
          case next_timeout s2 of
            None \<Rightarrow> Some (s2\<lparr>next_timeout := Some n\<rparr>)
          | Some t \<Rightarrow>
              if msecs < to_time s2 t
              then Some ((set_next n (Some t) (set_time t (to_time s2 t - msecs) s2))\<lparr>next_timeout := Some n\<rparr>)
              else timeo_insert (Some t) n s2))"

text \<open>The loop of \<open>sys_untimeout\<close>, with \<open>prev_t\<close>.\<close>

partial_function (option) timeo_remove :: "nat option \<Rightarrow> nat option \<Rightarrow> sys_timeout_handler option \<Rightarrow> nat \<Rightarrow> sys_timeouts \<Rightarrow> sys_timeouts option" where
  "timeo_remove prev p handler arg s =
    (case p of
       None \<Rightarrow> Some s
     | Some t \<Rightarrow>
         if to_h s t = handler \<and> to_arg s t = arg then
           let s1 = (case prev of None \<Rightarrow> s\<lparr>next_timeout := memp_next s t\<rparr> | Some q \<Rightarrow> set_next q (memp_next s t) s);
               s2 = (case memp_next s1 t of None \<Rightarrow> s1 | Some r \<Rightarrow> set_time r (to_time s1 r + to_time s1 t) s1)
           in Some (memp_free MEMP_SYS_TIMEOUT (Some t) s2)
         else timeo_remove (Some t) (memp_next s t) handler arg s)"

definition sys_untimeout :: "sys_timeout_handler option \<Rightarrow> nat \<Rightarrow> sys_timeouts \<Rightarrow> sys_timeouts option" where
  "sys_untimeout handler arg s = (if next_timeout s = None then Some s else timeo_remove None (next_timeout s) handler arg s)"

definition periodic :: "(sys_timeout_handler \<times> u32) list" where
  "periodic = [(ip_reass_timer, IP_TMR_INTERVAL), (arp_timer, ARP_TMR_INTERVAL), (dhcp_timer_coarse, DHCP_COARSE_TIMER_MSECS),
     (dhcp_timer_fine, DHCP_FINE_TIMER_MSECS), (dns_timer, DNS_TMR_INTERVAL)]"

definition start_all :: "(sys_timeout_handler \<times> u32) list \<Rightarrow> sys_timeouts option \<Rightarrow> sys_timeouts option" where
  "start_all = fold (\<lambda>(h, ms) r. Option.bind r (sys_timeout ms (Some h) 0))"

definition sys_timeouts_init :: "sys_timeouts \<Rightarrow> sys_timeouts option" where
  "sys_timeouts_init s = start_all periodic (Some s)"

text \<open>The handlers of timers.c; \<open>run\<close> is a handler of another module.\<close>

definition tcpip_tcp_timer_fn :: "(sys_timeout_handler \<Rightarrow> 'w \<Rightarrow> 'w) \<Rightarrow> ('w \<Rightarrow> bool) \<Rightarrow> sys_timeouts \<times> 'w \<Rightarrow> (sys_timeouts \<times> 'w) option" where
  "tcpip_tcp_timer_fn work active st =
    (let w = work tcpip_tcp_timer (snd st) in
     if active w then map_option (\<lambda>s. (s, w)) (sys_timeout TCP_TMR_INTERVAL (Some tcpip_tcp_timer) 0 (fst st))
     else Some ((fst st)\<lparr>tcpip_tcp_timer_active := False\<rparr>, w))"

definition tcp_timer_needed :: "('w \<Rightarrow> bool) \<Rightarrow> sys_timeouts \<times> 'w \<Rightarrow> sys_timeouts option" where
  "tcp_timer_needed active st =
    (if \<not> tcpip_tcp_timer_active (fst st) \<and> active (snd st)
     then sys_timeout TCP_TMR_INTERVAL (Some tcpip_tcp_timer) 0 ((fst st)\<lparr>tcpip_tcp_timer_active := True\<rparr>)
     else Some (fst st))"

definition periodic_fn :: "(sys_timeout_handler \<Rightarrow> 'w \<Rightarrow> 'w) \<Rightarrow> sys_timeout_handler \<Rightarrow> u32 \<Rightarrow> sys_timeouts \<times> 'w \<Rightarrow> (sys_timeouts \<times> 'w) option" where
  "periodic_fn work h ms st = map_option (\<lambda>s. (s, work h (snd st))) (sys_timeout ms (Some h) 0 (fst st))"

definition call_handler ::
  "(sys_timeout_handler \<Rightarrow> 'w \<Rightarrow> 'w) \<Rightarrow> ('w \<Rightarrow> bool) \<Rightarrow> (nat \<Rightarrow> nat \<Rightarrow> sys_timeouts \<times> 'w \<Rightarrow> (sys_timeouts \<times> 'w) option) \<Rightarrow>
   sys_timeout_handler \<Rightarrow> nat \<Rightarrow> sys_timeouts \<times> 'w \<Rightarrow> (sys_timeouts \<times> 'w) option" where
  "call_handler work active run h arg st =
    (case h of
       tcpip_tcp_timer \<Rightarrow> tcpip_tcp_timer_fn work active st
     | other_handler k \<Rightarrow> run k arg st
     | _ \<Rightarrow> periodic_fn work h (the (map_of periodic h)) st)"

text \<open>The time to wait for a message: 0 is for ever, \<open>None\<close> is not to wait as the first timeout is due.\<close>

definition fetch_timeout :: "sys_timeouts \<Rightarrow> u32 option" where
  "fetch_timeout s = (case next_timeout s of None \<Rightarrow> Some 0 | Some t \<Rightarrow> if 0 < to_time s t then Some (to_time s t) else None)"

text \<open>The rest of a turn: whether the function goes back to \<open>again\<close>, with the new state.\<close>

definition timeouts_return ::
  "(sys_timeout_handler \<Rightarrow> nat \<Rightarrow> sys_timeouts \<times> 'w \<Rightarrow> (sys_timeouts \<times> 'w) option) \<Rightarrow> u32 \<Rightarrow> sys_timeouts \<times> 'w \<Rightarrow> (bool \<times> sys_timeouts \<times> 'w) option" where
  "timeouts_return call time_needed st =
    (case next_timeout (fst st) of
       None \<Rightarrow> Some (False, st)
     | Some t \<Rightarrow>
         if time_needed = SYS_ARCH_TIMEOUT then
           let s = fst st; h = to_h s t; arg = to_arg s t;
               s1 = memp_free MEMP_SYS_TIMEOUT (Some t) (s\<lparr>next_timeout := memp_next s t\<rparr>)
           in case h of None \<Rightarrow> Some (True, s1, snd st) | Some k \<Rightarrow> map_option (Pair True) (call k arg (s1, snd st))
         else Some (False, set_time t (if time_needed < to_time (fst st) t then to_time (fst st) t - time_needed else 0) (fst st), snd st))"

section \<open>The pending timeouts\<close>

type_synonym entry = "nat \<times> sys_timeout_handler option \<times> nat"

text \<open>The entries with the time until each is due, and the reference for starting one: after those that are due no later.\<close>

fun due :: "sys_timeouts \<Rightarrow> nat \<Rightarrow> nat list \<Rightarrow> entry list" where
  "due s b [] = []"
| "due s b (t # ts) = (b + unat (to_time s t), to_h s t, to_arg s t) # due s (b + unat (to_time s t)) ts"

fun insert_due :: "entry \<Rightarrow> entry list \<Rightarrow> entry list" where
  "insert_due e [] = [e]"
| "insert_due e (x # xs) = (if fst e < fst x then e # x # xs else x # insert_due e xs)"

definition to_list :: "sys_timeouts \<Rightarrow> nat list \<Rightarrow> nat list \<Rightarrow> bool" where
  "to_list s ts fs \<longleftrightarrow> chain (memp_next s) (next_timeout s) ts \<and> memp_repr MEMP_SYS_TIMEOUT s fs \<and> set ts \<inter> set fs = {} \<and>
     (\<forall>e \<in> set (due s 0 ts). fst e < 2 ^ 32)"

definition pending :: "sys_timeouts \<Rightarrow> entry list \<Rightarrow> nat list \<Rightarrow> bool" where
  "pending s es fs \<longleftrightarrow> (\<exists>ts. to_list s ts fs \<and> es = due s 0 ts)"

lemma set_simps [simp]:
  "to_time (set_time t v s) = (to_time s)(t := v)" "memp_next (set_time t v s) = memp_next s" "to_h (set_time t v s) = to_h s" "to_arg (set_time t v s) = to_arg s"
  "next_timeout (set_time t v s) = next_timeout s" "memp_tab (set_time t v s) = memp_tab s" "tcpip_tcp_timer_active (set_time t v s) = tcpip_tcp_timer_active s"
  "to_time (set_next t p s) = to_time s" "memp_next (set_next t p s) = (memp_next s)(t := p)" "to_h (set_next t p s) = to_h s" "to_arg (set_next t p s) = to_arg s"
  "next_timeout (set_next t p s) = next_timeout s" "memp_tab (set_next t p s) = memp_tab s" "tcpip_tcp_timer_active (set_next t p s) = tcpip_tcp_timer_active s"
  by (simp_all add: set_time_def set_next_def)

lemma due_cong:
  "(\<And>t. t \<in> set ts \<Longrightarrow> to_time s' t = to_time s t \<and> to_h s' t = to_h s t \<and> to_arg s' t = to_arg s t) \<Longrightarrow> due s' b ts = due s b ts"
  by (induction ts arbitrary: b) auto

lemma due_shift: "due s (b + c) ts = map (\<lambda>(d, x). (d + c, x)) (due s b ts)"
proof (induction ts arbitrary: b)
  case (Cons t ts)
  show ?case using Cons.IH [of "b + unat (to_time s t)"] by (simp add: ac_simps)
qed simp

lemma due_ge: "e \<in> set (due s b ts) \<Longrightarrow> b \<le> fst e"
  by (induction ts arbitrary: b) (auto, fastforce)

lemma due_sorted: "sorted (map fst (due s b ts))"
  by (induction ts arbitrary: b) (auto dest: due_ge)

lemma due_length [simp]: "length (due s b ts) = length ts"
  by (induction ts arbitrary: b) auto

section \<open>Starting a timeout\<close>

text \<open>What the loop leaves alone.\<close>

definition same_but :: "nat set \<Rightarrow> sys_timeouts \<Rightarrow> sys_timeouts \<Rightarrow> bool" where
  "same_but A s s' \<longleftrightarrow> memp_tab s' = memp_tab s \<and> next_timeout s' = next_timeout s \<and> to_h s' = to_h s \<and> to_arg s' = to_arg s \<and>
     tcpip_tcp_timer_active s' = tcpip_tcp_timer_active s \<and> (\<forall>x. x \<notin> A \<longrightarrow> memp_next s' x = memp_next s x \<and> to_time s' x = to_time s x)"

lemma timeo_insert_spec:
  assumes "chain (memp_next s) (Some t) (t # ts)" "n \<notin> set (t # ts)" "to_time s t \<le> to_time s n"
  shows "\<exists>s' ys. timeo_insert (Some t) n s = Some s' \<and> chain (memp_next s') (Some t) (t # ys) \<and> set (t # ys) = insert n (set (t # ts)) \<and>
    due s' b (t # ys) = insert_due (b + unat (to_time s n), to_h s n, to_arg s n) (due s b (t # ts)) \<and>
    same_but (insert n (set (t # ts))) s s' \<and> to_time s' t = to_time s t"
  using assms
proof (induction ts arbitrary: t s b)
  case Nil
  let ?s1 = "set_time n (to_time s n - to_time s t) s"
  let ?s' = "set_next t (Some n) (set_next n None ?s1)"
  have "timeo_insert (Some t) n s = Some ?s'" using Nil by (subst timeo_insert.simps) (simp add: Let_def)
  moreover have "unat (to_time s t) \<le> unat (to_time s n)" using Nil.prems(3) by (simp add: word_le_nat_alt)
  ultimately show ?case using Nil.prems by (intro exI [of _ ?s'] exI [of _ "[n]"]) (auto simp: same_but_def unat_sub)
next
  case (Cons r ts)
  let ?s1 = "set_time n (to_time s n - to_time s t) s"
  have d: "distinct (t # r # ts)" using chain_distinct [OF Cons.prems(1)] .
  have nx: "memp_next s t = Some r" and ch: "chain (memp_next s) (Some r) (r # ts)" using Cons.prems(1) by auto
  have le: "unat (to_time s t) \<le> unat (to_time s n)" "unat (to_time s n - to_time s t) = unat (to_time s n) - unat (to_time s t)"
    using Cons.prems(3) by (simp_all add: word_le_nat_alt unat_sub)
  show ?case
  proof (cases "to_time s n - to_time s t < to_time s r")
    case True
    let ?s' = "set_next t (Some n) (set_next n (Some r) (set_time r (to_time s r - (to_time s n - to_time s t)) ?s1))"
    have e: "timeo_insert (Some t) n s = Some ?s'" using True Cons.prems(2) nx by (subst timeo_insert.simps) (simp add: Let_def)
    have u: "unat (to_time s r - (to_time s n - to_time s t)) = unat (to_time s r) - (unat (to_time s n) - unat (to_time s t))"
      "unat (to_time s n) - unat (to_time s t) < unat (to_time s r)" using unat_sub [OF less_imp_le [OF True]] True le by (simp_all add: word_less_nat_alt)
    have "due ?s' c ts = due s c ts" for c by (rule due_cong) (use d Cons.prems(2) in auto)
    moreover have "b + unat (to_time s t) + (unat (to_time s n) - unat (to_time s t)) = b + unat (to_time s n)" using le by simp
    moreover have "b + unat (to_time s n) + (unat (to_time s r) - (unat (to_time s n) - unat (to_time s t))) = b + unat (to_time s t) + unat (to_time s r)"
      using le u(2) by simp
    ultimately have "due ?s' b (t # n # r # ts) = insert_due (b + unat (to_time s n), to_h s n, to_arg s n) (due s b (t # r # ts))"
      using le u d Cons.prems(2) by (auto simp: u(1) le(2) ac_simps)
    moreover have "chain (memp_next ?s') (Some t) (t # n # r # ts)" using ch d Cons.prems(2) by auto
    moreover have "same_but (insert n (set (t # r # ts))) s ?s'" "to_time ?s' t = to_time s t" using d Cons.prems(2) by (auto simp: same_but_def)
    moreover have "set (t # n # r # ts) = insert n (set (t # r # ts))" by auto
    ultimately show ?thesis using e by blast
  next
    case False
    then have e: "timeo_insert (Some t) n s = timeo_insert (Some r) n ?s1" using Cons.prems(2) nx by (subst timeo_insert.simps) (simp add: Let_def)
    have "n \<notin> set (r # ts)" "to_time ?s1 r \<le> to_time ?s1 n" "chain (memp_next ?s1) (Some r) (r # ts)" using False Cons.prems(2) ch by auto
    from Cons.IH [OF this(3,1,2), of "b + unat (to_time s t)"] obtain s' ys where s': "timeo_insert (Some r) n ?s1 = Some s'"
      and c: "chain (memp_next s') (Some r) (r # ys)" "set (r # ys) = insert n (set (r # ts))" and f: "same_but (insert n (set (r # ts))) ?s1 s'"
      and du: "due s' (b + unat (to_time s t)) (r # ys) =
        insert_due (b + unat (to_time s t) + unat (to_time ?s1 n), to_h s n, to_arg s n) (due ?s1 (b + unat (to_time s t)) (r # ts))" by auto
    have t: "memp_next s' t = Some r" "to_time s' t = to_time s t" using f d Cons.prems(2) nx by (auto simp: same_but_def)
    have du1: "due ?s1 (b + unat (to_time s t)) (r # ts) = due s (b + unat (to_time s t)) (r # ts)" by (rule due_cong) (use Cons.prems(2) in auto)
    have du2: "b + unat (to_time s t) + unat (to_time ?s1 n) = b + unat (to_time s n)" using le by simp
    have "due s' (b + unat (to_time s t)) (r # ys) = insert_due (b + unat (to_time s n), to_h s n, to_arg s n) (due s (b + unat (to_time s t)) (r # ts))"
      using du unfolding du1 du2 .
    moreover have "\<not> b + unat (to_time s n) < b + unat (to_time s t)" using le by simp
    moreover have "to_h s' = to_h s" "to_arg s' = to_arg s" using f by (auto simp: same_but_def)
    ultimately have "due s' b (t # r # ys) = insert_due (b + unat (to_time s n), to_h s n, to_arg s n) (due s b (t # r # ts))" by (simp add: t(2))
    moreover have "same_but (insert n (set (t # r # ts))) s s'" using f by (auto simp: same_but_def)
    ultimately show ?thesis using e s' c t by (intro exI [of _ s'] exI [of _ "r # ys"]) auto
  qed
qed

lemma insert_due_set: "set (insert_due e es) = insert e (set es)"
  by (induction es) auto

text \<open>A timeout is started with the first free element; the others keep their times.\<close>

lemma sys_timeout_spec:
  assumes l: "to_list s ts (n # fs)"
  shows "\<exists>s' ys. sys_timeout msecs h arg s = Some s' \<and> to_list s' ys fs \<and> due s' 0 ys = insert_due (unat msecs, h, arg) (due s 0 ts) \<and>
    tcpip_tcp_timer_active s' = tcpip_tcp_timer_active s"
proof -
  have ch: "chain (memp_next s) (next_timeout s) ts" and fr: "memp_tab s MEMP_SYS_TIMEOUT = Some n" "chain (memp_next s) (memp_next s n) fs"
    and dj: "set ts \<inter> set (n # fs) = {}" and lt: "\<forall>e \<in> set (due s 0 ts). fst e < 2 ^ 32"
    using l by (simp_all add: to_list_def memp_repr_def)
  have df: "distinct (n # fs)" using l chain_distinct unfolding to_list_def memp_repr_def by blast
  let ?s1 = "s\<lparr>memp_tab := (memp_tab s)(MEMP_SYS_TIMEOUT := memp_next s n)\<rparr>"
  define s2 where "s2 = (set_next n None ?s1)\<lparr>to_h := (to_h s)(n := h), to_arg := (to_arg s)(n := arg), to_time := (to_time s)(n := msecs)\<rparr>"
  have m: "memp_malloc MEMP_SYS_TIMEOUT s = (Some n, ?s1)" using fr(1) by (simp add: memp_malloc_def)
  have f2: "memp_next s2 = (memp_next s)(n := None)" "memp_tab s2 = (memp_tab s)(MEMP_SYS_TIMEOUT := memp_next s n)" "next_timeout s2 = next_timeout s"
    "to_h s2 = (to_h s)(n := h)" "to_arg s2 = (to_arg s)(n := arg)" "to_time s2 = (to_time s)(n := msecs)" "tcpip_tcp_timer_active s2 = tcpip_tcp_timer_active s"
    by (simp_all add: s2_def)
  have nts: "n \<notin> set ts" using dj by auto
  have d2: "due s2 b xs = due s b xs" if "n \<notin> set xs" for b xs by (rule due_cong) (use that in \<open>auto simp: f2\<close>)
  have free: "memp_repr MEMP_SYS_TIMEOUT s' fs" if "memp_tab s' = memp_tab s2" "\<And>x. x \<notin> insert n (set ts) \<Longrightarrow> memp_next s' x = memp_next s2 x" for s'
    unfolding memp_repr_def that(1) f2(2) using fr(2) chain_cong [of fs "memp_next s'" "memp_next s"] that(2) dj df by (force simp: f2)
  have fin: "\<exists>s' ys. sys_timeout msecs h arg s = Some s' \<and> to_list s' ys fs \<and> due s' 0 ys = insert_due (unat msecs, h, arg) (due s 0 ts) \<and>
      tcpip_tcp_timer_active s' = tcpip_tcp_timer_active s"
    if "sys_timeout msecs h arg s = Some s'" "chain (memp_next s') (next_timeout s') ys" "set ys = insert n (set ts)" "due s' 0 ys = insert_due (unat msecs, h, arg) (due s 0 ts)"
      "memp_tab s' = memp_tab s2" "\<And>x. x \<notin> insert n (set ts) \<Longrightarrow> memp_next s' x = memp_next s2 x" "tcpip_tcp_timer_active s' = tcpip_tcp_timer_active s" for s' ys
  proof -
    have "to_list s' ys fs" using that(2,3,4) free [OF that(5,6)] lt dj df unat_u32_lt [of msecs] unfolding to_list_def by (auto simp: insert_due_set)
    then show ?thesis using that by blast
  qed
  show ?thesis
  proof (cases ts)
    case Nil
    then have "sys_timeout msecs h arg s = Some (s2\<lparr>next_timeout := Some n\<rparr>)" using ch by (simp add: sys_timeout_def m s2_def Let_def)
    then show ?thesis using Nil ch by (intro fin [of "s2\<lparr>next_timeout := Some n\<rparr>" "[n]"]) (simp_all add: f2)
  next
    case (Cons t rs)
    have t: "next_timeout s = Some t" "chain (memp_next s) (Some t) (t # rs)" "n \<noteq> t" using ch nts Cons by auto
    have c2: "chain (memp_next s2) (Some t) (t # rs)" using t(2) nts Cons by (simp add: f2)
    have e: "sys_timeout msecs h arg s = (if msecs < to_time s t
        then Some ((set_next n (Some t) (set_time t (to_time s t - msecs) s2))\<lparr>next_timeout := Some n\<rparr>) else timeo_insert (Some t) n s2)"
      using t by (simp add: sys_timeout_def m s2_def [symmetric] Let_def f2)
    show ?thesis
    proof (cases "msecs < to_time s t")
      case True
      let ?s' = "(set_next n (Some t) (set_time t (to_time s t - msecs) s2))\<lparr>next_timeout := Some n\<rparr>"
      have "unat (to_time s t - msecs) = unat (to_time s t) - unat msecs" "unat msecs < unat (to_time s t)"
        using True unat_sub [OF less_imp_le [OF True]] by (simp_all add: word_less_nat_alt)
      moreover have "due ?s' b rs = due s b rs" for b using nts Cons t(2) chain_distinct [OF t(2)] by (intro due_cong) (auto simp: f2)
      ultimately have "due ?s' 0 (n # t # rs) = insert_due (unat msecs, h, arg) (due s 0 (t # rs))" using t(3) by (simp add: f2)
      moreover have "chain (memp_next ?s') (next_timeout ?s') (n # t # rs)" using c2 nts Cons t(3) by (simp add: f2)
      ultimately show ?thesis using True e by (intro fin [of ?s' "n # t # rs"]) (auto simp: Cons f2)
    next
      case False
      have "n \<notin> set (t # rs)" "to_time s2 t \<le> to_time s2 n" using False nts Cons t(3) by (auto simp: f2)
      from timeo_insert_spec [OF c2 this, of 0] obtain s' ys where s': "timeo_insert (Some t) n s2 = Some s'" "chain (memp_next s') (Some t) (t # ys)" "set (t # ys) = insert n (set ts)"
        "due s' 0 (t # ys) = insert_due (unat msecs, h, arg) (due s2 0 ts)" and f: "same_but (insert n (set ts)) s2 s'" unfolding Cons by (auto simp: f2)
      show ?thesis using s' f e False t(1) nts by (intro fin [of s' "t # ys"]) (auto simp: same_but_def f2 d2)
    qed
  qed
qed

section \<open>Cancelling a timeout\<close>

fun cancel :: "sys_timeout_handler option \<Rightarrow> nat \<Rightarrow> entry list \<Rightarrow> entry list" where
  "cancel h arg [] = []"
| "cancel h arg (e # es) = (if snd e = (h, arg) then es else e # cancel h arg es)"

definition after :: "sys_timeouts \<Rightarrow> nat list \<Rightarrow> nat" where
  "after s xs = sum_list (map (\<lambda>t. unat (to_time s t)) xs)"

lemma due_append: "due s b (xs @ ys) = due s b xs @ due s (b + after s xs) ys"
  by (induction xs arbitrary: b) (simp_all add: after_def add.assoc)

lemma cancel_append: "(\<And>e. e \<in> set es \<Longrightarrow> snd e \<noteq> (h, arg)) \<Longrightarrow> cancel h arg (es @ es') = es @ cancel h arg es'"
  by (induction es) auto

lemma due_snd: "snd ` set (due s b ts) = (\<lambda>t. (to_h s t, to_arg s t)) ` set ts"
  by (induction ts arbitrary: b) auto

lemma chain_remove:
  "chain nx p (xs @ x # ys) \<Longrightarrow> chain (if xs = [] then nx else nx(last xs := nx x)) (if xs = [] then nx x else p) (xs @ ys)"
proof (induction xs arbitrary: p)
  case (Cons u us)
  have d: "distinct (u # us @ x # ys)" using chain_distinct [OF Cons.prems] by simp
  then have "us \<noteq> [] \<Longrightarrow> last us \<noteq> u" by auto
  then show ?case using Cons d by (cases "us = []") (simp_all del: fun_upd_apply add: fun_upd_same fun_upd_other)
qed simp

lemma due_no_match:
  assumes "\<And>x. x \<in> set xs \<Longrightarrow> (to_h s x, to_arg s x) \<noteq> (h, arg)" "e \<in> set (due s b xs)"
  shows "snd e \<noteq> (h, arg)"
proof -
  have "snd e \<in> (\<lambda>t. (to_h s t, to_arg s t)) ` set xs" unfolding due_snd [of s b xs, symmetric] using assms(2) by (rule imageI)
  then show ?thesis using assms(1) by fastforce
qed

lemma timeo_remove_spec:
  assumes "to_list s (xs @ ts) fs" "\<And>x. x \<in> set xs \<Longrightarrow> (to_h s x, to_arg s x) \<noteq> (h, arg)"
    "prev = (if xs = [] then None else Some (last xs))" "p = (case ts of [] \<Rightarrow> None | t # _ \<Rightarrow> Some t)"
  shows "\<exists>s' ys gs. timeo_remove prev p h arg s = Some s' \<and> to_list s' ys gs \<and> due s' 0 ys = cancel h arg (due s 0 (xs @ ts)) \<and>
    length gs + length ys = length fs + length (xs @ ts) \<and> tcpip_tcp_timer_active s' = tcpip_tcp_timer_active s"
  using assms
proof (induction ts arbitrary: xs prev p)
  case Nil
  have "timeo_remove prev p h arg s = Some s" using Nil.prems(4) by (subst timeo_remove.simps) simp
  moreover have "cancel h arg (due s 0 xs) = due s 0 xs" using cancel_append [of "due s 0 xs" h arg "[]", OF due_no_match [OF Nil.prems(2)]] by simp
  ultimately show ?case using Nil.prems(1) by (intro exI [of _ s] exI [of _ xs] exI [of _ fs]) simp
next
  case (Cons t ts)
  have ch: "chain (memp_next s) (next_timeout s) (xs @ t # ts)" and fr: "chain (memp_next s) (memp_tab s MEMP_SYS_TIMEOUT) fs"
    and dj: "set (xs @ t # ts) \<inter> set fs = {}" and lt: "\<forall>e \<in> set (due s 0 (xs @ t # ts)). fst e < 2 ^ 32" using Cons.prems(1) by (simp_all add: to_list_def memp_repr_def)
  have d: "distinct (xs @ t # ts)" by (rule chain_distinct [OF ch])
  have nt: "memp_next s t = (case ts of [] \<Rightarrow> None | r # _ \<Rightarrow> Some r)" using chain_append [OF ch] by (cases ts) auto
  show ?case
  proof (cases "to_h s t = h \<and> to_arg s t = arg")
    case False
    then have "timeo_remove prev p h arg s = timeo_remove (Some t) (memp_next s t) h arg s" using Cons.prems(4) by (subst timeo_remove.simps) auto
    moreover have "to_list s ((xs @ [t]) @ ts) fs" using Cons.prems(1) by simp
    ultimately show ?thesis using Cons.IH [of "xs @ [t]" "Some t" "memp_next s t"] False Cons.prems(2) nt by fastforce
  next
    case True
    let ?s1 = "case prev of None \<Rightarrow> s\<lparr>next_timeout := memp_next s t\<rparr> | Some q \<Rightarrow> set_next q (memp_next s t) s"
    let ?s2 = "case ts of [] \<Rightarrow> ?s1 | r # _ \<Rightarrow> set_time r (to_time s r + to_time s t) ?s1"
    let ?s' = "memp_free MEMP_SYS_TIMEOUT (Some t) ?s2"
    have q: "prev = Some q \<Longrightarrow> q \<in> set xs \<and> q \<noteq> t" for q using Cons.prems(3) d by (auto split: if_splits)
    have f: "memp_next ?s1 t = memp_next s t" "to_time ?s1 = to_time s" "memp_next ?s2 = (if xs = [] then memp_next s else (memp_next s)(last xs := memp_next s t))"
      "next_timeout ?s2 = (if xs = [] then memp_next s t else next_timeout s)" "memp_tab ?s2 = memp_tab s" "to_h ?s2 = to_h s" "to_arg ?s2 = to_arg s"
      "to_time ?s2 = (case ts of [] \<Rightarrow> to_time s | r # _ \<Rightarrow> (to_time s)(r := to_time s r + to_time s t))"
      using Cons.prems(3) q by (auto split: list.split)
    have f': "memp_next ?s' = (memp_next ?s2)(t := memp_tab s MEMP_SYS_TIMEOUT)" "next_timeout ?s' = next_timeout ?s2" "to_time ?s' = to_time ?s2" "to_h ?s' = to_h s" "to_arg ?s' = to_arg s"
      "memp_tab ?s' MEMP_SYS_TIMEOUT = Some t" by (simp_all add: memp_free_def f)
    have e: "timeo_remove prev p h arg s = Some ?s'" using Cons.prems(4) True nt f(1,2) by (subst timeo_remove.simps) (simp add: Let_def split: list.split)
    have "chain (memp_next ?s2) (next_timeout ?s2) (xs @ ts)" using chain_remove [OF ch] by (simp only: f)
    then have c: "chain (memp_next ?s') (next_timeout ?s') (xs @ ts)" using d by (simp add: f')
    have lx: "xs \<noteq> [] \<Longrightarrow> last xs \<notin> set fs" using dj last_in_set [of xs] by (metis IntI Un_iff emptyE set_append)
    have "chain (memp_next ?s2) (memp_tab s MEMP_SYS_TIMEOUT) fs" unfolding f(3) using fr lx by simp
    then have g: "chain (memp_next ?s') (memp_tab ?s' MEMP_SYS_TIMEOUT) (t # fs)" using dj by (simp add: f')
    define s' where s': "s' = ?s'"
    have F: "to_time s' = (case ts of [] \<Rightarrow> to_time s | r # _ \<Rightarrow> (to_time s)(r := to_time s r + to_time s t))" "to_h s' = to_h s" "to_arg s' = to_arg s"
      unfolding s' f' f by simp_all
    have "tcpip_tcp_timer_active ?s1 = tcpip_tcp_timer_active s" by (simp split: option.split)
    then have fl: "tcpip_tcp_timer_active s' = tcpip_tcp_timer_active s" unfolding s' by (simp add: memp_free_def split: list.split)
    note c = c [folded s'] and g = g [folded s'] and e = e [folded s']
    have dx: "due s' 0 xs = due s 0 xs" using d by (intro due_cong) (auto simp: F split: list.split)
    have ax: "after s' xs = after s xs" unfolding after_def using d by (intro arg_cong [where f = sum_list] map_cong) (auto simp: F split: list.split)
    have dt: "due s' b ts = tl (due s b (t # ts))" if "b = after s xs" for b
    proof (cases ts)
      case Nil
      then show ?thesis by simp
    next
      case r: (Cons r rs)
      have "due s' c rs = due s c rs" for c using d by (intro due_cong) (auto simp: F r)
      moreover have "b + unat (to_time s t) + unat (to_time s r) < 2 ^ 32" using lt by (simp add: due_append r that)
      then have "unat (to_time s r + to_time s t) = unat (to_time s t) + unat (to_time s r)" by (simp add: unat_word_ariths)
      ultimately show ?thesis by (simp add: F r add.assoc)
    qed
    have "cancel h arg (due s 0 (xs @ t # ts)) = due s 0 xs @ tl (due s (after s xs) (t # ts))"
      using cancel_append [of "due s 0 xs" h arg "due s (after s xs) (t # ts)", OF due_no_match [OF Cons.prems(2)]] True by (simp add: due_append)
    then have du: "due s' 0 (xs @ ts) = cancel h arg (due s 0 (xs @ t # ts))" by (simp add: due_append dx ax dt)
    have "to_list s' (xs @ ts) (t # fs)" unfolding to_list_def memp_repr_def
    proof (intro conjI c g)
      show "set (xs @ ts) \<inter> set (t # fs) = {}" using dj d by auto
      have "set (cancel h arg es) \<subseteq> set es" for es by (induction es) auto
      then show "\<forall>e \<in> set (due s' 0 (xs @ ts)). fst e < 2 ^ 32" using lt unfolding du by blast
    qed
    then show ?thesis using e du fl by (intro exI [of _ s'] exI [of _ "xs @ ts"] exI [of _ "t # fs"]) simp
  qed
qed

section \<open>Waiting\<close>

lemma pendingI: "to_list s ts fs \<Longrightarrow> due s 0 ts = es \<Longrightarrow> pending s es fs"
  by (auto simp: pending_def)

lemma pending_cons:
  assumes "pending s ((d, h, a) # es) fs"
  obtains t ts where "to_list s (t # ts) fs" "next_timeout s = Some t" "unat (to_time s t) = d" "to_h s t = h" "to_arg s t = a" "es = due s d ts"
proof -
  obtain xs where x: "to_list s xs fs" "(d, h, a) # es = due s 0 xs" using assms by (auto simp: pending_def)
  then obtain t ts where "xs = t # ts" by (cases xs) auto
  with x have "to_list s (t # ts) fs" "d = unat (to_time s t)" "h = to_h s t" "a = to_arg s t" "es = due s (unat (to_time s t)) ts" by simp_all
  moreover from this(1) have "next_timeout s = Some t" by (simp add: to_list_def)
  ultimately show thesis using that by blast
qed

lemma pending_nil: "pending s [] fs \<Longrightarrow> next_timeout s = None"
  unfolding pending_def to_list_def by (metis chain.simps(1) due_length length_0_conv)

text \<open>The entries when a time has passed that is no longer than the first one takes.\<close>

abbreviation pass :: "nat \<Rightarrow> entry list \<Rightarrow> entry list" where
  "pass k \<equiv> map (\<lambda>(d, x). (d - k, x))"

lemma pass_shift: "pass k (map (\<lambda>(d, x). (d + k, x)) es) = es"
  by (induction es) auto

lemma due_base: "due s 0 ts = pass b (due s b ts)"
  unfolding due_shift [of s 0 b ts, simplified] pass_shift ..

lemma pass_lt: "\<forall>e \<in> set es. fst e < (m :: nat) \<Longrightarrow> \<forall>e \<in> set (pass k es). fst e < m"
  by fastforce

lemma timeout_pops:
  assumes l: "to_list s (t # ts) fs"
  defines "s1 \<equiv> memp_free MEMP_SYS_TIMEOUT (Some t) (s\<lparr>next_timeout := memp_next s t\<rparr>)"
  shows "to_list s1 ts (t # fs)" "due s1 b ts = due s b ts"
proof -
  show d: "due s1 b ts = due s b ts" for b by (rule due_cong) (simp add: s1_def memp_free_def)
  have c: "chain (memp_next s) (next_timeout s) (t # ts)" and f: "chain (memp_next s) (memp_tab s MEMP_SYS_TIMEOUT) fs" "set (t # ts) \<inter> set fs = {}"
    and lt: "\<forall>e \<in> set (due s 0 (t # ts)). fst e < 2 ^ 32" using l by (simp_all add: to_list_def memp_repr_def)
  have tt: "t \<notin> set ts" "t \<notin> set fs" using chain_distinct [OF c] f(2) by auto
  have s1: "memp_next s1 = (memp_next s)(t := memp_tab s MEMP_SYS_TIMEOUT)" "next_timeout s1 = memp_next s t" "memp_tab s1 MEMP_SYS_TIMEOUT = Some t"
    by (simp_all add: s1_def memp_free_def)
  have "\<forall>e \<in> set (due s1 0 ts). fst e < 2 ^ 32" unfolding d due_base [of s ts "unat (to_time s t)"] using lt by (intro pass_lt) simp
  moreover have "chain (memp_next s1) (next_timeout s1) ts" using c tt by (simp add: s1)
  moreover have "chain (memp_next s1) (memp_tab s1 MEMP_SYS_TIMEOUT) (t # fs)" using f(1) tt by (simp add: s1)
  moreover have "set ts \<inter> set (t # fs) = {}" using f(2) tt by simp
  ultimately show "to_list s1 ts (t # fs)" unfolding to_list_def memp_repr_def by blast
qed

lemma message_passes:
  assumes l: "to_list s (t # ts) fs" and k: "k \<le> unat (to_time s t)" "unat v = unat (to_time s t) - k"
  shows "to_list (set_time t v s) (t # ts) fs" "due (set_time t v s) 0 (t # ts) = pass k (due s 0 (t # ts))"
proof -
  have d: "t \<notin> set ts" using l chain_distinct unfolding to_list_def by fastforce
  have "due (set_time t v s) b ts = due s b ts" for b by (rule due_cong) (use d in auto)
  moreover have "due s (unat (to_time s t)) ts = map (\<lambda>(d, x). (d + k, x)) (due s (unat (to_time s t) - k) ts)" using due_shift [of s "unat (to_time s t) - k" k ts] k(1) by simp
  then have "due s (unat (to_time s t) - k) ts = pass k (due s (unat (to_time s t)) ts)" by (simp only: pass_shift)
  ultimately show e: "due (set_time t v s) 0 (t # ts) = pass k (due s 0 (t # ts))" using k by simp
  show "to_list (set_time t v s) (t # ts) fs" using l pass_lt unfolding to_list_def memp_repr_def e by (metis set_simps(2,5,6))
qed

section \<open>The operations on the pending timeouts\<close>

lemma start_pending:
  assumes "pending s es (n # fs)"
  shows "\<exists>s'. sys_timeout ms h a s = Some s' \<and> pending s' (insert_due (unat ms, h, a) es) fs \<and> tcpip_tcp_timer_active s' = tcpip_tcp_timer_active s"
  using assms sys_timeout_spec unfolding pending_def by metis

lemma start_full: "pending s es [] \<Longrightarrow> sys_timeout ms h a s = Some s"
  by (auto simp: pending_def to_list_def sys_timeout_def tpool.take_empty)

lemma cancel_pending:
  assumes "pending s es fs"
  shows "\<exists>s' gs. sys_untimeout h a s = Some s' \<and> pending s' (cancel h a es) gs \<and> length gs + length (cancel h a es) = length fs + length es \<and>
    tcpip_tcp_timer_active s' = tcpip_tcp_timer_active s"
proof -
  obtain ts where l: "to_list s ts fs" "es = due s 0 ts" using assms by (auto simp: pending_def)
  have n: "next_timeout s = (case ts of [] \<Rightarrow> None | t # _ \<Rightarrow> Some t)" using l(1) by (cases ts) (auto simp: to_list_def)
  obtain s' ys gs where "timeo_remove None (next_timeout s) h a s = Some s'" "to_list s' ys gs" "due s' 0 ys = cancel h a es" "length gs + length ys = length fs + length ts"
    "tcpip_tcp_timer_active s' = tcpip_tcp_timer_active s"
    using timeo_remove_spec [of s "[]" ts fs h a None, OF _ _ _ n] l by auto
  moreover from this(3) have "length ys = length (cancel h a es)" by (metis due_length)
  moreover have "sys_untimeout h a s = timeo_remove None (next_timeout s) h a s"
    unfolding sys_untimeout_def by (subst (2) timeo_remove.simps) (simp add: timeo_remove.simps)
  ultimately show ?thesis using l(2) pendingI by (metis due_length)
qed

lemma fire_pending:
  assumes "pending s ((d, h, a) # es) fs"
  obtains s1 fs' where "pending s1 (pass d es) fs'" "length fs' = Suc (length fs)" "tcpip_tcp_timer_active s1 = tcpip_tcp_timer_active s"
    "timeouts_return call SYS_ARCH_TIMEOUT (s, w) =
       (case h of None \<Rightarrow> Some (True, s1, w) | Some k \<Rightarrow> map_option (Pair True) (call k a (s1, w)))"
proof -
  obtain t ts where t: "to_list s (t # ts) fs" "next_timeout s = Some t" "unat (to_time s t) = d" "to_h s t = h" "to_arg s t = a" "es = due s d ts"
    by (rule pending_cons [OF assms])
  let ?s1 = "memp_free MEMP_SYS_TIMEOUT (Some t) (s\<lparr>next_timeout := memp_next s t\<rparr>)"
  have "pending ?s1 (pass d es) (t # fs)" using timeout_pops [OF t(1)] unfolding t(6) by (intro pendingI) (auto simp: due_base [of s ts d])
  then show thesis by (rule that) (simp_all add: timeouts_return_def t(2,4,5) Let_def memp_free_def split: option.split)
qed

lemma message_pending:
  assumes p: "pending s es fs" and t: "tn \<noteq> SYS_ARCH_TIMEOUT"
  shows "\<exists>s'. timeouts_return call tn (s, w) = Some (False, s', w) \<and> pending s' (pass (min (unat tn) (fst (hd es))) es) fs \<and>
    tcpip_tcp_timer_active s' = tcpip_tcp_timer_active s"
proof (cases es)
  case Nil
  then show ?thesis using p pending_nil [of s fs] by (simp add: timeouts_return_def)
next
  case (Cons e es')
  obtain d h a where e: "e = (d, h, a)" by (cases e)
  obtain x ts where x: "to_list s (x # ts) fs" "next_timeout s = Some x" "unat (to_time s x) = d" "es = due s 0 (x # ts)"
    using pending_cons [of s d h a es' fs] p unfolding Cons e by (metis add_0 due.simps(2))
  define v where "v = (if tn < to_time s x then to_time s x - tn else 0)"
  have k: "min (unat tn) d \<le> unat (to_time s x)" "unat v = unat (to_time s x) - min (unat tn) d"
    using x(3) by (auto simp: v_def word_less_nat_alt unat_sub word_le_nat_alt)
  have "timeouts_return call tn (s, w) = Some (False, set_time x v s, w)" using x(2) t by (simp add: timeouts_return_def v_def)
  then show ?thesis using message_passes [OF x(1) k] x(4) by (intro exI [of _ "set_time x v s"]) (auto simp: Cons e intro: pendingI)
qed

text \<open>C20. Starting and cancelling timeouts, seen as a list of deadlines: \<open>sys_timeout\<close> inserts the timeout after all that are due no later, without
  changing any other deadline, or does nothing when the pool is empty; \<open>sys_untimeout\<close> removes the first entry with the handler and the argument,
  keeps the deadlines of the entries behind it, and gives the entry back to the pool. Both loops end.\<close>

theorem timeout_start_cancel:
  assumes "pending s es fs"
  shows "(\<exists>s'. sys_timeout msecs h a s = Some s' \<and> (if fs = [] then s' = s else pending s' (insert_due (unat msecs, h, a) es) (tl fs))) \<and>
    (\<exists>s' gs. sys_untimeout h a s = Some s' \<and> pending s' (cancel h a es) gs \<and> length gs + length (cancel h a es) = length fs + length es)"
proof
  show "\<exists>s'. sys_timeout msecs h a s = Some s' \<and> (if fs = [] then s' = s else pending s' (insert_due (unat msecs, h, a) es) (tl fs))"
    using start_pending [of s es _ "tl fs"] start_full [of s es] assms by (cases fs) (auto, blast)
  show "\<exists>s' gs. sys_untimeout h a s = Some s' \<and> pending s' (cancel h a es) gs \<and> length gs + length (cancel h a es) = length fs + length es"
    using cancel_pending [OF assms] by blast
qed

text \<open>A turn of \<open>sys_timeouts_mbox_fetch\<close>: it waits for the first deadline, for ever if there is none and not at all if it has passed. When a message came
  after \<open>tn\<close> milliseconds, all deadlines are that much closer, but none closer than the first one allows; when the time ran out, the first
  entry is given back to the pool before its handler is called with its argument, and the others are closer by the first deadline.\<close>

theorem timeouts_turn:
  assumes p: "pending s es fs"
  shows "fetch_timeout s = (if es = [] then Some 0 else if 0 < fst (hd es) then Some (of_nat (fst (hd es))) else None)"
    "tn \<noteq> SYS_ARCH_TIMEOUT \<Longrightarrow> \<exists>s'. timeouts_return call tn (s, w) = Some (False, s', w) \<and> pending s' (pass (min (unat tn) (fst (hd es))) es) fs"
    "es = (d, Some h, a) # es' \<Longrightarrow> \<exists>s1 fs'. timeouts_return call SYS_ARCH_TIMEOUT (s, w) = map_option (Pair True) (call h a (s1, w)) \<and>
       pending s1 (pass d es') fs' \<and> length fs' = Suc (length fs)"
  subgoal
  proof (cases es)
    case Nil
    then show ?thesis using p pending_nil [of s fs] by (simp add: fetch_timeout_def)
  next
    case (Cons e es')
    obtain d h a where e: "e = (d, h, a)" by (cases e)
    obtain t where "next_timeout s = Some t" "unat (to_time s t) = d" using pending_cons [of s d h a es' fs] p unfolding Cons e by metis
    then show ?thesis by (auto simp: fetch_timeout_def Cons e word_less_nat_alt)
  qed
  subgoal using message_pending [OF p, of tn call w] by blast
  subgoal premises e
  proof -
    obtain s1 fs' where "pending s1 (pass d es') fs'" "length fs' = Suc (length fs)"
      "timeouts_return call SYS_ARCH_TIMEOUT (s, w) = (case Some h of None \<Rightarrow> Some (True, s1, w) | Some k \<Rightarrow> map_option (Pair True) (call k a (s1, w)))"
      by (rule fire_pending [OF p [unfolded e]])
    then show ?thesis by (intro exI [of _ s1] exI [of _ fs']) simp
  qed
  done

section \<open>The periodic timers\<close>

text \<open>The life of the list after \<open>memp_init\<close> and \<open>sys_timeouts_init\<close>: the other modules start and cancel their own timeouts, TCP asks for its timer, and
  the thread takes its turns. The protocols' own work, and everything else that changes their state, is \<open>work\<close> and \<open>world\<close>.\<close>

definition timers_call :: "(sys_timeout_handler \<Rightarrow> 'w \<Rightarrow> 'w) \<Rightarrow> ('w \<Rightarrow> bool) \<Rightarrow> sys_timeout_handler \<Rightarrow> nat \<Rightarrow> sys_timeouts \<times> 'w \<Rightarrow> (sys_timeouts \<times> 'w) option" where
  "timers_call work active = call_handler work active (\<lambda>_ _. Some)"

inductive timers_reach :: "(nat \<Rightarrow> nat) \<Rightarrow> nat \<Rightarrow> (sys_timeout_handler \<Rightarrow> 'w \<Rightarrow> 'w) \<Rightarrow> ('w \<Rightarrow> bool) \<Rightarrow> sys_timeouts \<times> 'w \<Rightarrow> bool"
  for sz memory work active where
  init: "next_timeout s0 = None \<Longrightarrow> \<not> tcpip_tcp_timer_active s0 \<Longrightarrow> sys_timeouts_init (memp_init sz memory s0) = Some s \<Longrightarrow>
    timers_reach sz memory work active (s, w)"
| start: "timers_reach sz memory work active (s, w) \<Longrightarrow> sys_timeout ms (Some (other_handler k)) a s = Some s' \<Longrightarrow> timers_reach sz memory work active (s', w)"
| cancel: "timers_reach sz memory work active (s, w) \<Longrightarrow> sys_untimeout (Some (other_handler k)) a s = Some s' \<Longrightarrow> timers_reach sz memory work active (s', w)"
| tcp: "timers_reach sz memory work active st \<Longrightarrow> tcp_timer_needed active st = Some s' \<Longrightarrow> timers_reach sz memory work active (s', snd st)"
| message: "timers_reach sz memory work active st \<Longrightarrow> tn \<noteq> SYS_ARCH_TIMEOUT \<Longrightarrow> timeouts_return (timers_call work active) tn st = Some (b, st') \<Longrightarrow>
    timers_reach sz memory work active st'"
| timeout: "timers_reach sz memory work active st \<Longrightarrow> timeouts_return (timers_call work active) SYS_ARCH_TIMEOUT st = Some (b, st') \<Longrightarrow>
    timers_reach sz memory work active st'"
| world: "timers_reach sz memory work active (s, w) \<Longrightarrow> timers_reach sz memory work active (s, w')"

definition pending_of :: "sys_timeout_handler \<Rightarrow> entry list \<Rightarrow> nat" where
  "pending_of h es = count_list (map (\<lambda>e. fst (snd e)) es) (Some h)"

definition in_time :: "sys_timeout_handler \<Rightarrow> u32 \<Rightarrow> entry list \<Rightarrow> bool" where
  "in_time h ms es \<longleftrightarrow> (\<forall>e \<in> set es. fst (snd e) = Some h \<longrightarrow> fst e \<le> unat ms)"

definition timers_ok :: "sys_timeouts \<Rightarrow> bool" where
  "timers_ok s \<longleftrightarrow> (\<exists>es fs. pending s es fs \<and> length es + length fs = 8 \<and> (\<forall>p \<in> set periodic. pending_of (fst p) es = 1 \<and> in_time (fst p) (snd p) es) \<and>
     pending_of tcpip_tcp_timer es \<le> of_bool (tcpip_tcp_timer_active s) \<and> in_time tcpip_tcp_timer TCP_TMR_INTERVAL es)"

lemma insert_due_length [simp]: "length (insert_due e es) = Suc (length es)"
  by (induction es) auto

lemma pending_of_simps [simp]:
  "pending_of h (insert_due e es) = (if fst (snd e) = Some h then 1 else 0) + pending_of h es"
  "pending_of h (pass k es) = pending_of h es"
  "pending_of h [] = 0"
  "pending_of h (e # es) = (if fst (snd e) = Some h then 1 else 0) + pending_of h es"
  "g \<noteq> Some h \<Longrightarrow> pending_of h (cancel g a es) = pending_of h es"
  by (induction es) (auto simp: pending_of_def)

lemma in_time_simps [simp]:
  "in_time h ms (insert_due e es) \<longleftrightarrow> (fst (snd e) = Some h \<longrightarrow> fst e \<le> unat ms) \<and> in_time h ms es"
  "in_time h ms (e # es) \<longleftrightarrow> (fst (snd e) = Some h \<longrightarrow> fst e \<le> unat ms) \<and> in_time h ms es"
  "in_time h ms []"
  by (auto simp: in_time_def insert_due_set)

lemma in_time_pass: "in_time h ms es \<Longrightarrow> in_time h ms (pass k es)"
  by (induction es) (auto simp: in_time_def)

lemma in_time_cancel: "in_time h ms es \<Longrightarrow> in_time h ms (cancel g a es)"
  by (induction es) (auto simp: in_time_def)

lemma timers_okI:
  "pending s es fs \<Longrightarrow> length es + length fs = 8 \<Longrightarrow> (\<And>h ms. (h, ms) \<in> set periodic \<Longrightarrow> pending_of h es = 1 \<and> in_time h ms es) \<Longrightarrow>
   pending_of tcpip_tcp_timer es \<le> of_bool (tcpip_tcp_timer_active s) \<Longrightarrow> in_time tcpip_tcp_timer TCP_TMR_INTERVAL es \<Longrightarrow> timers_ok s"
  unfolding timers_ok_def by fastforce

lemma timers_okE:
  assumes "timers_ok s"
  obtains es fs where "pending s es fs" "length es + length fs = 8" "\<And>h ms. (h, ms) \<in> set periodic \<Longrightarrow> pending_of h es = 1 \<and> in_time h ms es"
    "pending_of tcpip_tcp_timer es \<le> of_bool (tcpip_tcp_timer_active s)" "in_time tcpip_tcp_timer TCP_TMR_INTERVAL es"
  using assms unfolding timers_ok_def by fastforce

lemma start_all_pending:
  "pending s es fs \<Longrightarrow> length ps \<le> length fs \<Longrightarrow> \<exists>s'. start_all ps (Some s) = Some s' \<and>
     pending s' (fold (\<lambda>(h, ms). insert_due (unat ms, Some h, 0)) ps es) (drop (length ps) fs) \<and> tcpip_tcp_timer_active s' = tcpip_tcp_timer_active s"
proof (induction ps arbitrary: s es fs)
  case Nil
  then show ?case by (simp add: start_all_def)
next
  case (Cons p ps)
  obtain h ms where p: "p = (h, ms)" by (cases p)
  obtain n gs where g: "fs = n # gs" using Cons.prems(2) by (cases fs) auto
  obtain s1 where s1: "sys_timeout ms (Some h) 0 s = Some s1" "pending s1 (insert_due (unat ms, Some h, 0) es) gs" "tcpip_tcp_timer_active s1 = tcpip_tcp_timer_active s"
    using start_pending [OF Cons.prems(1) [unfolded g]] by blast
  from Cons.IH [OF s1(2)] Cons.prems(2) s1 show ?case by (simp add: g p start_all_def)
qed

lemma periodic_key: "(h, ms) \<in> set periodic \<Longrightarrow> (h, ms') \<in> set periodic \<Longrightarrow> ms' = ms"
  by (auto simp: periodic_def)

lemma periodic_other: "(h, ms) \<in> set periodic \<Longrightarrow> h \<noteq> tcpip_tcp_timer \<and> h \<noteq> other_handler k"
  by (auto simp: periodic_def)

lemma call_periodic: "(h, ms) \<in> set periodic \<Longrightarrow> call_handler work active run h a st = periodic_fn work h ms st"
  by (auto simp: periodic_def call_handler_def)

lemma handler_cases: "(\<exists>ms. (h, ms) \<in> set periodic) \<or> h = tcpip_tcp_timer \<or> (\<exists>k. h = other_handler k)"
  by (cases h) (auto simp: periodic_def)

text \<open>An operation keeps the invariant if it leaves the entries of the handlers of this module in time.\<close>

definition keeps :: "entry list \<Rightarrow> entry list \<Rightarrow> bool" where
  "keeps es es' \<longleftrightarrow> (\<forall>h ms. (\<forall>k. h \<noteq> other_handler k) \<longrightarrow> pending_of h es' = pending_of h es \<and> (in_time h ms es \<longrightarrow> in_time h ms es'))"

lemma keeps_ops: "keeps es (insert_due (d, Some (other_handler k), a) es)" "keeps es (cancel (Some (other_handler k)) a es)" "keeps es (pass d es)"
  by (simp_all add: keeps_def in_time_cancel in_time_pass) (metis option.inject pending_of_simps(5))

lemma timers_ok_keeps:
  assumes "keeps es es'" "pending s' es' fs'" "length es' + length fs' = 8" "\<And>h ms. (h, ms) \<in> set periodic \<Longrightarrow> pending_of h es = 1 \<and> in_time h ms es"
    "pending_of tcpip_tcp_timer es \<le> of_bool (tcpip_tcp_timer_active s')" "in_time tcpip_tcp_timer TCP_TMR_INTERVAL es"
  shows "timers_ok s'"
proof (rule timers_okI [OF assms(2,3)])
  show "pending_of h es' = 1 \<and> in_time h ms es'" if m: "(h, ms) \<in> set periodic" for h ms
    using assms(1) assms(4) [OF m] periodic_other [OF m] unfolding keeps_def by simp
  show "pending_of tcpip_tcp_timer es' \<le> of_bool (tcpip_tcp_timer_active s')" using assms(1,5) by (simp add: keeps_def)
  show "in_time tcpip_tcp_timer TCP_TMR_INTERVAL es'" using assms(1,6) by (simp add: keeps_def)
qed

lemma start_other_ok:
  assumes "timers_ok s" "sys_timeout ms (Some (other_handler k)) a s = Some s'"
  shows "timers_ok s'"
  using assms(1)
proof (cases rule: timers_okE)
  case (1 es fs)
  show ?thesis
  proof (cases fs)
    case Nil
    then show ?thesis using start_full [of s es] 1(1) assms by simp
  next
    case (Cons n gs)
    then have p: "pending s' (insert_due (unat ms, Some (other_handler k), a) es) gs" "tcpip_tcp_timer_active s' = tcpip_tcp_timer_active s"
      using start_pending [of s es n gs ms "Some (other_handler k)" a] 1(1) assms(2) by auto
    show ?thesis by (rule timers_ok_keeps [OF keeps_ops(1) p(1) _ 1(3) _ 1(5)]) (use 1(2,4) Cons p(2) in simp_all)
  qed
qed

lemma cancel_other_ok:
  assumes "timers_ok s" "sys_untimeout (Some (other_handler k)) a s = Some s'"
  shows "timers_ok s'"
  using assms(1)
proof (cases rule: timers_okE)
  case (1 es fs)
  obtain gs where p: "pending s' (cancel (Some (other_handler k)) a es) gs" "length gs + length (cancel (Some (other_handler k)) a es) = 8"
    "tcpip_tcp_timer_active s' = tcpip_tcp_timer_active s"
    using cancel_pending [OF 1(1), of "Some (other_handler k)" a] assms(2) 1(2) by auto
  show ?thesis by (rule timers_ok_keeps [OF keeps_ops(2) p(1) _ 1(3) _ 1(5)]) (use 1(4) p(2,3) in simp_all)
qed

lemma pending_flag: "pending (s\<lparr>tcpip_tcp_timer_active := b\<rparr>) es fs \<longleftrightarrow> pending s es fs"
proof -
  have "due (s\<lparr>tcpip_tcp_timer_active := b\<rparr>) c ts = due s c ts" for c ts by (rule due_cong) simp
  then show ?thesis by (simp add: pending_def to_list_def memp_repr_def)
qed

lemma tcp_timer_needed_ok:
  assumes "timers_ok (fst st)" "tcp_timer_needed active st = Some s'"
  shows "timers_ok s'"
  using assms(1)
proof (cases rule: timers_okE)
  case (1 es fs)
  let ?s = "(fst st)\<lparr>tcpip_tcp_timer_active := True\<rparr>"
  have p: "pending ?s es fs" using 1(1) by (simp add: pending_flag)
  show ?thesis
  proof (cases "\<not> tcpip_tcp_timer_active (fst st) \<and> active (snd st)")
    case False
    then show ?thesis using assms by (auto simp: tcp_timer_needed_def split: if_splits)
  next
    case True
    then have e: "sys_timeout TCP_TMR_INTERVAL (Some tcpip_tcp_timer) 0 ?s = Some s'" and z: "pending_of tcpip_tcp_timer es = 0"
      using assms(2) 1(4) by (simp_all add: tcp_timer_needed_def)
    show ?thesis
    proof (cases fs)
      case Nil
      then have "s' = ?s" using start_full [of ?s es] p e by simp
      then show ?thesis using p 1(2,3,5) z by (intro timers_okI [of s' es fs]) simp_all
    next
      case (Cons n gs)
      then have q: "pending s' (insert_due (250, Some tcpip_tcp_timer, 0) es) gs" "tcpip_tcp_timer_active s'"
        using start_pending [of ?s es n gs TCP_TMR_INTERVAL "Some tcpip_tcp_timer" 0] p e by auto
      show ?thesis
      proof (rule timers_okI [OF q(1)])
        show "pending_of h (insert_due (250, Some tcpip_tcp_timer, 0) es) = 1 \<and> in_time h ms (insert_due (250, Some tcpip_tcp_timer, 0) es)"
          if "(h, ms) \<in> set periodic" for h ms using 1(3) [OF that] periodic_other [OF that] by auto
      qed (use 1(2,5) Cons z q(2) in simp_all)
    qed
  qed
qed

lemma message_ok:
  assumes "timers_ok (fst st)" "tn \<noteq> SYS_ARCH_TIMEOUT" "timeouts_return call tn st = Some (b, st')"
  shows "timers_ok (fst st')"
  using assms(1)
proof (cases rule: timers_okE)
  case (1 es fs)
  have p: "pending (fst st') (pass (min (unat tn) (fst (hd es))) es) fs" "tcpip_tcp_timer_active (fst st') = tcpip_tcp_timer_active (fst st)"
    using message_pending [OF 1(1) assms(2), of call "snd st"] assms(3) by auto
  show ?thesis by (rule timers_ok_keeps [OF keeps_ops(3) p(1) _ 1(3) _ 1(5)]) (use 1(2,4) p(2) in simp_all)
qed

text \<open>A handler that starts itself again finds the element that was given back.\<close>

lemma restart_pending:
  assumes "pending s1 es fs'" "length fs' = Suc (length fs)"
  shows "\<exists>s2 gs. sys_timeout ms (Some h) 0 s1 = Some s2 \<and> pending s2 (insert_due (unat ms, Some h, 0) es) gs \<and> length gs = length fs \<and>
    tcpip_tcp_timer_active s2 = tcpip_tcp_timer_active s1"
proof -
  obtain n gs where "fs' = n # gs" "length gs = length fs" using assms(2) by (cases fs') auto
  then show ?thesis using start_pending [of s1 es n gs ms "Some h" 0] assms(1) by blast
qed

lemma timeout_ok:
  assumes "timers_ok s"
  shows "\<exists>b st'. timeouts_return (timers_call work active) SYS_ARCH_TIMEOUT (s, w) = Some (b, st') \<and> timers_ok (fst st')"
  using assms
proof (cases rule: timers_okE)
  case (1 es fs)
  obtain d g a es' where es: "es = (d, g, a) # es'"
  proof (cases es)
    case Nil
    then show ?thesis using 1(3) [of arp_timer] by (simp add: periodic_def)
  next
    case (Cons e es')
    then show ?thesis using that by (cases e) auto
  qed
  obtain s1 fs' where s1: "pending s1 (pass d es') fs'" "length fs' = Suc (length fs)" "tcpip_tcp_timer_active s1 = tcpip_tcp_timer_active s"
    and r: "timeouts_return (timers_call work active) SYS_ARCH_TIMEOUT (s, w) =
      (case g of None \<Rightarrow> Some (True, s1, w) | Some k \<Rightarrow> map_option (Pair True) (timers_call work active k a (s1, w)))"
    by (rule fire_pending [OF 1(1) [unfolded es]])
  have gone: "timers_ok s1" if "g = None \<or> g = Some (other_handler k)" for k
  proof (rule timers_ok_keeps [OF _ s1(1)])
    show "keeps es (pass d es')" using that by (auto simp: keeps_def es in_time_pass)
  qed (use 1 s1(2,3) in \<open>simp_all add: es\<close>)
  show ?thesis
  proof (cases g)
    case None
    then show ?thesis using gone by (auto simp: r)
  next
    case g: (Some h)
    consider (periodic) ms where "(h, ms) \<in> set periodic" | (tcp) "h = tcpip_tcp_timer" | (other) k where "h = other_handler k" using handler_cases by blast
    then show ?thesis
    proof cases
      case other
      then show ?thesis using gone g r unfolding timers_call_def by (auto simp: call_handler_def)
    next
      case (periodic ms)
      obtain s2 gs where s2: "sys_timeout ms (Some h) 0 s1 = Some s2" "pending s2 (insert_due (unat ms, Some h, 0) (pass d es')) gs" "length gs = length fs"
        "tcpip_tcp_timer_active s2 = tcpip_tcp_timer_active s" using restart_pending [OF s1(1,2)] s1(3) by metis
      have "timers_ok s2"
      proof (rule timers_okI [OF s2(2)])
        show "pending_of h' (insert_due (unat ms, Some h, 0) (pass d es')) = 1 \<and> in_time h' ms' (insert_due (unat ms, Some h, 0) (pass d es'))"
          if "(h', ms') \<in> set periodic" for h' ms' using 1(3) [OF that] periodic_key [OF periodic] that by (auto simp: es g in_time_pass split: if_splits)
      qed (use 1 s2(3,4) periodic_other [OF periodic] in \<open>simp_all add: es g in_time_pass\<close>)
      then show ?thesis using s2(1) r g unfolding timers_call_def by (auto simp: call_periodic [OF periodic] periodic_fn_def)
    next
      case tcp
      obtain s2 gs where s2: "sys_timeout TCP_TMR_INTERVAL (Some tcpip_tcp_timer) 0 s1 = Some s2" "pending s2 (insert_due (250, Some tcpip_tcp_timer, 0) (pass d es')) gs"
        "length gs = length fs" "tcpip_tcp_timer_active s2 = tcpip_tcp_timer_active s" using restart_pending [OF s1(1,2), of TCP_TMR_INTERVAL tcpip_tcp_timer] s1(3) by auto
      have per: "pending_of h' (pass d es') = 1 \<and> in_time h' ms' (pass d es')" "tcpip_tcp_timer \<noteq> h'" if "(h', ms') \<in> set periodic" for h' ms'
        using 1(3) [OF that] periodic_other [OF that] by (auto simp: es g tcp in_time_pass split: if_splits)
      have "timers_ok s2" by (rule timers_okI [OF s2(2)]) (use 1(2,4,5) s2(3,4) per in \<open>simp_all add: es g tcp in_time_pass\<close>)
      moreover have z: "pending_of tcpip_tcp_timer es' = 0" using 1(4) by (cases "tcpip_tcp_timer_active s") (simp_all add: es g tcp)
      have "timers_ok (s1\<lparr>tcpip_tcp_timer_active := False\<rparr>)"
        by (rule timers_okI [of _ "pass d es'" fs']) (use 1(2,5) s1(1,2) per z in \<open>simp_all add: es g tcp in_time_pass pending_flag\<close>)
      ultimately show ?thesis using s2(1) r g tcp unfolding timers_call_def by (auto simp: call_handler_def tcpip_tcp_timer_fn_def Let_def)
    qed
  qed
qed

lemma memp_init_timers:
  fixes s :: sys_timeouts
  shows "next_timeout (memp_init sz m s) = next_timeout s" "tcpip_tcp_timer_active (memp_init sz m s) = tcpip_tcp_timer_active s"
proof -
  have l: "next_timeout (snd (memp_link i z n st)) = next_timeout (snd st) \<and> tcpip_tcp_timer_active (snd (memp_link i z n st)) = tcpip_tcp_timer_active (snd st)"
    for i z n and st :: "nat \<times> sys_timeouts" by (induction i z n st rule: memp_link.induct) auto
  have "next_timeout (snd (fold (memp_pool_init sz) is st)) = next_timeout (snd st) \<and>
      tcpip_tcp_timer_active (snd (fold (memp_pool_init sz) is st)) = tcpip_tcp_timer_active (snd st)" for "is" and st :: "nat \<times> sys_timeouts"
    by (induction "is" arbitrary: st) (simp_all add: memp_pool_init_def l)
  from this [of "[0..<MEMP_MAX]" "(LWIP_MEM_ALIGN m, s)"] show "next_timeout (memp_init sz m s) = next_timeout s"
    "tcpip_tcp_timer_active (memp_init sz m s) = tcpip_tcp_timer_active s" unfolding memp_init_def by simp_all
qed

lemma init_ok:
  assumes "\<forall>i < MEMP_MAX. 0 < sz i" "next_timeout s0 = None" "\<not> tcpip_tcp_timer_active s0"
  shows "\<exists>s. sys_timeouts_init (memp_init sz memory s0) = Some s \<and> timers_ok s"
proof -
  let ?s = "memp_init sz memory s0"
  obtain fs where fs: "memp_repr MEMP_SYS_TIMEOUT ?s fs" "length fs = 8"
    using memp_pools_after(2) [where n = MEMP_MAX and sz = sz and i = MEMP_SYS_TIMEOUT] assms(1) by (fastforce simp: memp_init_def memp_elems_def memp_num_def)
  have "pending ?s [] fs" using fs(1) assms(2) by (intro pendingI [of _ "[]"]) (simp_all add: to_list_def memp_init_timers)
  from start_all_pending [OF this, of periodic] obtain s where s: "sys_timeouts_init ?s = Some s"
    "pending s (fold (\<lambda>(h, ms). insert_due (unat ms, Some h, 0)) periodic []) (drop (length periodic) fs)" "\<not> tcpip_tcp_timer_active s"
    using fs(2) assms(3) by (auto simp: sys_timeouts_init_def memp_init_timers periodic_def [THEN arg_cong, of length])
  have "timers_ok s" by (rule timers_okI [OF s(2)]) (use s(3) fs(2) in \<open>auto simp: periodic_def\<close>)
  then show ?thesis using s(1) by blast
qed

lemma reach_ok:
  assumes "timers_reach sz memory work active st" "\<forall>i < MEMP_MAX. 0 < sz i"
  shows "timers_ok (fst st)"
  using assms(1)
proof induction
  case (init s0 s w)
  then show ?case using init_ok [OF assms(2), of s0 memory] by simp
next
  case (timeout st b st')
  then show ?case using timeout_ok [of "fst st" work active "snd st"] by simp
qed (auto intro: start_other_ok cancel_other_ok tcp_timer_needed_ok message_ok)

text \<open>C21. The periodic timers of the protocols run for ever. In every state that the timeouts reach from \<open>memp_init\<close> and \<open>sys_timeouts_init\<close>, whatever timeouts other
  modules start and cancel, and even when they use up the pool, each periodic timer is pending exactly once and due within its interval, and the timer of TCP is pending
  at most once and only while it is marked active; when the first deadline passes, the turn ends and the same holds again.\<close>

theorem timers_alive:
  assumes "timers_reach sz memory work active (s, w)" "\<forall>i < MEMP_MAX. 0 < sz i"
  shows "(\<exists>es fs. pending s es fs \<and> (\<forall>p \<in> set periodic. pending_of (fst p) es = 1 \<and> in_time (fst p) (snd p) es) \<and>
      pending_of tcpip_tcp_timer es \<le> of_bool (tcpip_tcp_timer_active s)) \<and>
    (\<exists>b st'. timeouts_return (timers_call work active) SYS_ARCH_TIMEOUT (s, w) = Some (b, st') \<and> timers_reach sz memory work active st')"
proof
  show "\<exists>es fs. pending s es fs \<and> (\<forall>p \<in> set periodic. pending_of (fst p) es = 1 \<and> in_time (fst p) (snd p) es) \<and>
      pending_of tcpip_tcp_timer es \<le> of_bool (tcpip_tcp_timer_active s)"
    using reach_ok [OF assms] unfolding timers_ok_def by fastforce
  show "\<exists>b st'. timeouts_return (timers_call work active) SYS_ARCH_TIMEOUT (s, w) = Some (b, st') \<and> timers_reach sz memory work active st'"
    using reach_ok [OF assms] timeout_ok [of s work active w] timers_reach.timeout [OF assms(1)] by fastforce
qed

definition tmex0 :: sys_timeouts where
  "tmex0 = \<lparr>memp_next = (\<lambda>_. None), memp_tab = (\<lambda>_. None), next_timeout = None, to_time = (\<lambda>_. 0), to_h = (\<lambda>_. None), to_arg = (\<lambda>_. 0),
     tcpip_tcp_timer_active = False\<rparr>"

definition tmex :: sys_timeouts where
  "tmex = tmex0\<lparr>memp_next := (\<lambda>n. if n = 0 then Some 1 else if n = 2 then Some 3 else None), memp_tab := (\<lambda>_. Some 2), next_timeout := Some 0,
     to_time := (\<lambda>n. if n = 0 then 250 else 750), to_h := (\<lambda>n. Some (if n = 0 then tcpip_tcp_timer else arp_timer))\<rparr>"

lemma tmex_pending: "pending tmex [(250, Some tcpip_tcp_timer, 0), (1000, Some arp_timer, 0)] [2, 3]"
  by (rule pendingI [of _ "[0, 1]"]) (simp_all add: to_list_def memp_repr_def tmex_def tmex0_def)

theorem timeout_start_cancel_witness:
  "(\<exists>s'. sys_timeout 250 (Some dns_timer) 0 tmex = Some s' \<and>
      pending s' [(250, Some tcpip_tcp_timer, 0), (250, Some dns_timer, 0), (1000, Some arp_timer, 0)] [3]) \<and>
   (\<exists>s' gs. sys_untimeout (Some tcpip_tcp_timer) 0 tmex = Some s' \<and> pending s' [(1000, Some arp_timer, 0)] gs \<and> length gs = 3)"
  using conjunct1 [OF timeout_start_cancel [OF tmex_pending, of 250 "Some dns_timer" 0]]
    conjunct2 [OF timeout_start_cancel [OF tmex_pending, of 250 "Some tcpip_tcp_timer" 0]]
  by (auto simp: numeral_3_eq_3)

theorem timeouts_turn_witness:
  "fetch_timeout tmex = Some 250 \<and> (\<exists>s'. timeouts_return (timers_call (\<lambda>_. Suc) (\<lambda>_. True)) 100 (tmex, 5 :: nat) = Some (False, s', 5) \<and>
      pending s' [(150, Some tcpip_tcp_timer, 0), (900, Some arp_timer, 0)] [2, 3]) \<and>
   (\<exists>s1 fs'. timeouts_return (timers_call (\<lambda>_. Suc) (\<lambda>_. True)) SYS_ARCH_TIMEOUT (tmex, 5 :: nat) =
      map_option (Pair True) (timers_call (\<lambda>_. Suc) (\<lambda>_. True) tcpip_tcp_timer 0 (s1, 5)) \<and> pending s1 [(750, Some arp_timer, 0)] fs')"
  using timeouts_turn(1) [OF tmex_pending] timeouts_turn(2) [OF tmex_pending, where tn = 100 and call = "timers_call (\<lambda>_. Suc) (\<lambda>_. True)" and w = 5]
    timeouts_turn(3) [OF tmex_pending refl, where call = "timers_call (\<lambda>_. Suc) (\<lambda>_. True)" and w = 5] by auto

theorem timers_alive_witness:
  "\<exists>s. timers_reach (\<lambda>_. 16) 0x20000001 (\<lambda>_. Suc) (\<lambda>_. True) (s, 0) \<and>
     (\<exists>es fs. pending s es fs \<and> pending_of arp_timer es = 1 \<and> in_time arp_timer ARP_TMR_INTERVAL es)"
proof -
  obtain s where "sys_timeouts_init (memp_init (\<lambda>_. 16) 0x20000001 tmex0) = Some s" using init_ok [of "\<lambda>_. 16" tmex0 "0x20000001"] by (auto simp: tmex0_def)
  then have r: "timers_reach (\<lambda>_. 16) 0x20000001 (\<lambda>_. Suc) (\<lambda>_. True) (s, 0)" by (intro timers_reach.init [of tmex0]) (simp_all add: tmex0_def)
  then show ?thesis using conjunct1 [OF timers_alive [OF r]] by (auto simp: periodic_def)
qed

end
