(* ===== verification/EthDma.thy ===== *)
theory EthDma
  imports RingQueue
begin

text \<open>
  The Ethernet interface: the descriptor rings of the DMA, \<open>ETH_DMATxDescChainInit\<close>, \<open>ETH_DMARxDescChainInit\<close> and \<open>ETH_GetRxPktSize\<close> of
  demo/STM32F4x7_ETH_Driver/src/stm32f4x7_eth.c; sending and receiving a frame and the interrupt handler, demo/LWIP_APP/lan8720.c; and the interface to lwIP,
  demo/LWIP/lwip-1.4.1/src/netif/ethernetif.c. A descriptor is named by its index in its table, and the buffers are byte memory. A \<open>pbuf\<close> chain
  is the list of its payloads; \<open>pbuf_alloc\<close>, \<open>pbuf_free\<close> and the function \<open>netif->input\<close> are parameters that act on a state of their own. Status bits are cleared by writing 1.
\<close>

section \<open>The code\<close>

record eth_desc =
  Status :: u32
  ControlBufferSize :: u32
  Buffer1Addr :: nat
  Buffer2NextDescAddr :: nat

record eth =
  DMARxDscrTab :: "nat \<Rightarrow> eth_desc"
  DMATxDscrTab :: "nat \<Rightarrow> eth_desc"
  DMARxDescToGet :: nat
  DMATxDescToSet :: nat
  DMASR :: u32
  rx_polls :: nat
  tx_polls :: nat
  ram :: "nat \<Rightarrow> u8"

abbreviation (input) "ETH_RXBUFNB \<equiv> 20 :: nat"
abbreviation (input) "ETH_TXBUFNB \<equiv> 5 :: nat"
abbreviation (input) "ETH_BUF_SIZE \<equiv> 1524 :: nat"
abbreviation (input) "ETH_DMADesc_OWN \<equiv> 0x80000000 :: u32"
abbreviation (input) "ETH_DMATxDesc_LS \<equiv> 0x20000000 :: u32"
abbreviation (input) "ETH_DMATxDesc_FS \<equiv> 0x10000000 :: u32"
abbreviation (input) "ETH_DMATxDesc_TCH \<equiv> 0x00100000 :: u32"
abbreviation (input) "ETH_DMATxDesc_ChecksumTCPUDPICMPFull \<equiv> 0x00C00000 :: u32"
abbreviation (input) "ETH_DMATxDesc_TBS1 \<equiv> 0x1FFF :: u32"
abbreviation (input) "ETH_DMARxDesc_FL \<equiv> 0x3FFF0000 :: u32"
abbreviation (input) "ETH_DMARxDesc_ES \<equiv> 0x8000 :: u32"
abbreviation (input) "ETH_DMARxDesc_FS \<equiv> 0x200 :: u32"
abbreviation (input) "ETH_DMARxDesc_LS \<equiv> 0x100 :: u32"
abbreviation (input) "ETH_DMARxDesc_RCH \<equiv> 0x4000 :: u32"
abbreviation (input) "ETH_DMASR_RBUS \<equiv> 0x80 :: u32"
abbreviation (input) "ETH_DMASR_TBUS \<equiv> 4 :: u32"
abbreviation (input) "ETH_DMA_IT_R \<equiv> 0x40 :: u32"
abbreviation (input) "ETH_DMA_IT_NIS \<equiv> 0x10000 :: u32"
abbreviation (input) "ERR_OK \<equiv> 0 :: int"
abbreviation (input) "ERR_MEM \<equiv> - 1 :: int"

definition clear_status :: "u32 \<Rightarrow> eth \<Rightarrow> eth" where
  "clear_status b s = s\<lparr>DMASR := DMASR s AND NOT b\<rparr>"

definition desc_next :: "nat \<Rightarrow> nat \<Rightarrow> nat" where
  "desc_next n i = (if i < n - 1 then i + 1 else 0)"

definition ETH_DMATxDescChainInit :: "nat \<Rightarrow> nat \<Rightarrow> eth \<Rightarrow> eth" where
  "ETH_DMATxDescChainInit TxBuff TxBuffCount s =
    s\<lparr>DMATxDescToSet := 0,
      DMATxDscrTab := (\<lambda>i. if i < TxBuffCount then (DMATxDscrTab s i)\<lparr>Status := ETH_DMATxDesc_TCH, Buffer1Addr := TxBuff + i * ETH_BUF_SIZE,
          Buffer2NextDescAddr := desc_next TxBuffCount i\<rparr> else DMATxDscrTab s i)\<rparr>"

definition ETH_DMARxDescChainInit :: "nat \<Rightarrow> nat \<Rightarrow> eth \<Rightarrow> eth" where
  "ETH_DMARxDescChainInit RxBuff RxBuffCount s =
    s\<lparr>DMARxDescToGet := 0,
      DMARxDscrTab := (\<lambda>i. if i < RxBuffCount then (DMARxDscrTab s i)\<lparr>Status := ETH_DMADesc_OWN, ControlBufferSize := ETH_DMARxDesc_RCH OR of_nat ETH_BUF_SIZE,
          Buffer1Addr := RxBuff + i * ETH_BUF_SIZE, Buffer2NextDescAddr := desc_next RxBuffCount i\<rparr> else DMARxDscrTab s i)\<rparr>"

definition ETH_DMATxDescChecksumInsertionConfig :: "nat \<Rightarrow> u32 \<Rightarrow> eth \<Rightarrow> eth" where
  "ETH_DMATxDescChecksumInsertionConfig i c s = s\<lparr>DMATxDscrTab := (DMATxDscrTab s)(i := (DMATxDscrTab s i)\<lparr>Status := Status (DMATxDscrTab s i) OR c\<rparr>)\<rparr>"

text \<open>The descriptors in \<open>low_level_init\<close>, after the fields of the interface.\<close>

definition low_level_init :: "nat \<Rightarrow> nat \<Rightarrow> eth \<Rightarrow> eth" where
  "low_level_init Tx_Buff Rx_Buff s =
    fold (\<lambda>i. ETH_DMATxDescChecksumInsertionConfig i ETH_DMATxDesc_ChecksumTCPUDPICMPFull) [0..<ETH_TXBUFNB]
      (ETH_DMARxDescChainInit Rx_Buff ETH_RXBUFNB (ETH_DMATxDescChainInit Tx_Buff ETH_TXBUFNB s))"

definition ETH_GetRxPktSize :: "eth_desc \<Rightarrow> u32" where
  "ETH_GetRxPktSize d =
    (if Status d AND ETH_DMADesc_OWN = 0 \<and> Status d AND ETH_DMARxDesc_ES = 0 \<and> Status d AND ETH_DMARxDesc_LS \<noteq> 0
     then drop_bit 16 (Status d AND ETH_DMARxDesc_FL) else 0)"

record FrameTypeDef =
  frame_length :: u32
  frame_buffer :: nat
  frame_descriptor :: "nat option"

definition rx_resume :: "eth \<Rightarrow> eth" where
  "rx_resume s = (if DMASR s AND ETH_DMASR_RBUS \<noteq> 0 then (clear_status ETH_DMASR_RBUS s)\<lparr>rx_polls := Suc (rx_polls s)\<rparr> else s)"

definition ETH_Rx_Packet :: "eth \<Rightarrow> FrameTypeDef \<times> eth" where
  "ETH_Rx_Packet s =
    (let g = DMARxDescToGet s; d = DMARxDscrTab s g in
     if Status d AND ETH_DMADesc_OWN \<noteq> 0 then (\<lparr>frame_length = 0, frame_buffer = 0, frame_descriptor = None\<rparr>, rx_resume s)
     else
       let ok = (Status d AND ETH_DMARxDesc_ES = 0 \<and> Status d AND ETH_DMARxDesc_LS \<noteq> 0 \<and> Status d AND ETH_DMARxDesc_FS \<noteq> 0)
       in (\<lparr>frame_length = (if ok then drop_bit 16 (Status d AND ETH_DMARxDesc_FL) - 4 else 0), frame_buffer = (if ok then Buffer1Addr d else 0),
            frame_descriptor = Some g\<rparr>, s\<lparr>DMARxDescToGet := Buffer2NextDescAddr d\<rparr>))"

definition ETH_Tx_Packet :: "u16 \<Rightarrow> eth \<Rightarrow> bool \<times> eth" where
  "ETH_Tx_Packet FrameLength s =
    (let t = DMATxDescToSet s; d = DMATxDscrTab s t in
     if Status d AND ETH_DMADesc_OWN \<noteq> 0 then (False, s)
     else
       let d1 = d\<lparr>ControlBufferSize := ucast FrameLength AND ETH_DMATxDesc_TBS1, Status := (Status d OR (ETH_DMATxDesc_LS OR ETH_DMATxDesc_FS)) OR ETH_DMADesc_OWN\<rparr>;
           s1 = s\<lparr>DMATxDscrTab := (DMATxDscrTab s)(t := d1)\<rparr>;
           s2 = (if DMASR s1 AND ETH_DMASR_TBUS \<noteq> 0 then (clear_status ETH_DMASR_TBUS s1)\<lparr>tx_polls := Suc (tx_polls s)\<rparr> else s1)
       in (True, s2\<lparr>DMATxDescToSet := Buffer2NextDescAddr d1\<rparr>))"

definition ETH_GetCurrentTxBuffer :: "eth \<Rightarrow> nat" where
  "ETH_GetCurrentTxBuffer s = Buffer1Addr (DMATxDscrTab s (DMATxDescToSet s))"

definition mem_put :: "nat \<Rightarrow> u8 list \<Rightarrow> (nat \<Rightarrow> u8) \<Rightarrow> nat \<Rightarrow> u8" where
  "mem_put a bs m = (\<lambda>x. if a \<le> x \<and> x < a + length bs then bs ! (x - a) else m x)"

definition mem_get :: "nat \<Rightarrow> nat \<Rightarrow> (nat \<Rightarrow> u8) \<Rightarrow> u8 list" where
  "mem_get a n m = map m [a..<a + n]"

text \<open>The loops over the chain, with \<open>l\<close>.\<close>

fun copy_out :: "nat \<Rightarrow> nat \<Rightarrow> u8 list list \<Rightarrow> (nat \<Rightarrow> u8) \<Rightarrow> nat \<times> (nat \<Rightarrow> u8)" where
  "copy_out buffer l [] m = (l, m)"
| "copy_out buffer l (q # qs) m = copy_out buffer (l + length q) qs (mem_put (buffer + l) q m)"

fun copy_in :: "nat \<Rightarrow> nat \<Rightarrow> nat list \<Rightarrow> (nat \<Rightarrow> u8) \<Rightarrow> u8 list list" where
  "copy_in buffer l [] m = []"
| "copy_in buffer l (n # ns) m = mem_get (buffer + l) n m # copy_in buffer (l + n) ns m"

definition low_level_output :: "u8 list list \<Rightarrow> eth \<Rightarrow> int \<times> eth" where
  "low_level_output p s =
    (let (l, m) = copy_out (ETH_GetCurrentTxBuffer s) 0 p (ram s);
         (res, s1) = ETH_Tx_Packet (of_nat l) (s\<lparr>ram := m\<rparr>)
     in (if res then ERR_OK else ERR_MEM, s1))"

text \<open>Storing through the descriptor of the frame when it is null is \<open>None\<close>.\<close>

definition low_level_input :: "(u16 \<Rightarrow> 'w \<Rightarrow> nat list option \<times> 'w) \<Rightarrow> eth \<times> 'w \<Rightarrow> (u8 list list option \<times> eth \<times> 'w) option" where
  "low_level_input pbuf_alloc st =
    (let (frame, s1) = ETH_Rx_Packet (fst st);
         (r, w) = pbuf_alloc (ucast (frame_length frame)) (snd st);
         p = map_option (\<lambda>ls. copy_in (frame_buffer frame) 0 ls (ram s1)) r
     in case frame_descriptor frame of
          None \<Rightarrow> None
        | Some d \<Rightarrow> Some (p, rx_resume (s1\<lparr>DMARxDscrTab := (DMARxDscrTab s1)(d := (DMARxDscrTab s1 d)\<lparr>Status := ETH_DMADesc_OWN\<rparr>)\<rparr>), w))"

definition ethernetif_input ::
  "(u16 \<Rightarrow> 'w \<Rightarrow> nat list option \<times> 'w) \<Rightarrow> (u8 list list \<Rightarrow> 'w \<Rightarrow> int \<times> 'w) \<Rightarrow> (u8 list list \<Rightarrow> 'w \<Rightarrow> 'w) \<Rightarrow> eth \<times> 'w \<Rightarrow> (int \<times> eth \<times> 'w) option" where
  "ethernetif_input pbuf_alloc input pbuf_free st =
    (case low_level_input pbuf_alloc st of
       None \<Rightarrow> None
     | Some (None, s, w) \<Rightarrow> Some (ERR_MEM, s, w)
     | Some (Some p, s, w) \<Rightarrow> (let (err, w1) = input p w in Some (err, s, if err \<noteq> ERR_OK then pbuf_free p w1 else w1)))"

text \<open>The loop of the interrupt handler, which calls \<open>ethernetif_input\<close> through \<open>lwip_pkt_handle\<close>.\<close>

partial_function (option) irq_loop ::
  "(u16 \<Rightarrow> 'w \<Rightarrow> nat list option \<times> 'w) \<Rightarrow> (u8 list list \<Rightarrow> 'w \<Rightarrow> int \<times> 'w) \<Rightarrow> (u8 list list \<Rightarrow> 'w \<Rightarrow> 'w) \<Rightarrow> eth \<times> 'w \<Rightarrow> (eth \<times> 'w) option" where
  "irq_loop pbuf_alloc input pbuf_free st =
    (if ETH_GetRxPktSize (DMARxDscrTab (fst st) (DMARxDescToGet (fst st))) \<noteq> 0
     then Option.bind (ethernetif_input pbuf_alloc input pbuf_free st) (\<lambda>r. irq_loop pbuf_alloc input pbuf_free (snd r))
     else Some st)"

definition ETH_IRQHandler ::
  "(u16 \<Rightarrow> 'w \<Rightarrow> nat list option \<times> 'w) \<Rightarrow> (u8 list list \<Rightarrow> 'w \<Rightarrow> int \<times> 'w) \<Rightarrow> (u8 list list \<Rightarrow> 'w \<Rightarrow> 'w) \<Rightarrow> eth \<times> 'w \<Rightarrow> (eth \<times> 'w) option" where
  "ETH_IRQHandler pbuf_alloc input pbuf_free st =
    map_option (\<lambda>(s, w). (clear_status ETH_DMA_IT_NIS (clear_status ETH_DMA_IT_R s), w)) (irq_loop pbuf_alloc input pbuf_free st)"

section \<open>Memory\<close>

lemma bytes_get_put: "mem_get a (length bs) (mem_put a bs m) = bs"
  by (rule nth_equalityI) (simp_all add: mem_get_def mem_put_def)

lemma bytes_get_put_other: "a + n \<le> b \<or> b + length bs \<le> a \<Longrightarrow> mem_get a n (mem_put b bs m) = mem_get a n m"
  by (auto simp: mem_get_def mem_put_def)

lemma mem_put_append: "mem_put (a + length q) r (mem_put a q m) = mem_put a (q @ r) m"
  by (rule ext) (auto simp: mem_put_def nth_append)

lemma mem_put_nil [simp]: "mem_put a [] m = m"
  by (rule ext) (auto simp: mem_put_def)

lemma mem_get_length [simp]: "length (mem_get a n m) = n"
  by (simp add: mem_get_def)

lemma mem_get_take: "take k (mem_get a n m) = mem_get a (min k n) m"
  by (simp add: mem_get_def take_map min_def)

lemma copy_out_concat: "copy_out b l p m = (l + length (concat p), mem_put (b + l) (concat p) m)"
  by (induction p arbitrary: l m) (simp_all add: mem_put_append add.assoc [symmetric])

lemma copy_in_concat: "concat (copy_in b l ns m) = mem_get (b + l) (sum_list ns) m"
proof (induction ns arbitrary: l)
  case (Cons n ns)
  have "[b + l..<b + l + (n + sum_list ns)] = [b + l..<b + l + n] @ [b + l + n..<b + l + n + sum_list ns]" using upt_add_eq_append [of "b + l" "b + l + n" "sum_list ns"] by (simp add: add.assoc)
  then show ?case using Cons by (simp add: mem_get_def add.assoc)
qed (simp add: mem_get_def)

section \<open>Rings of descriptors\<close>

text \<open>The driver and the DMA go round a ring of descriptors from opposite sides. What is put in at one side is taken out at the other side, in
  the same order, as long as the ring is not full when something is put in.\<close>

fun transfer :: "('p \<Rightarrow> 's \<Rightarrow> 's) \<Rightarrow> ('s \<Rightarrow> 'f \<times> 's) \<Rightarrow> 'p option list \<Rightarrow> 's \<Rightarrow> 'f list \<times> 's" where
  "transfer put get [] s = ([], s)"
| "transfer put get (Some p # acts) s = transfer put get acts (put p s)"
| "transfer put get (None # acts) s = (let (f, s1) = get s; (fs, s2) = transfer put get acts s1 in (f # fs, s2))"

fun fits :: "nat \<Rightarrow> nat \<Rightarrow> 'p option list \<Rightarrow> bool" where
  "fits cap n [] \<longleftrightarrow> True"
| "fits cap n (Some p # acts) \<longleftrightarrow> n < cap \<and> fits cap (Suc n) acts"
| "fits cap n (None # acts) \<longleftrightarrow> 0 < n \<and> fits cap (n - 1) acts"

definition puts :: "('p \<Rightarrow> 'f) \<Rightarrow> 'p option list \<Rightarrow> 'f list" where
  "puts val acts = map val (List.map_filter (\<lambda>a. a) acts)"

locale frame_ring =
  fixes put :: "'p \<Rightarrow> 's \<Rightarrow> 's" and get :: "'s \<Rightarrow> 'f \<times> 's" and repr :: "'s \<Rightarrow> 'f list \<Rightarrow> bool" and val :: "'p \<Rightarrow> 'f" and ok :: "'p \<Rightarrow> bool" and cap :: nat
  assumes put_append: "repr s fs \<Longrightarrow> length fs < cap \<Longrightarrow> ok p \<Longrightarrow> repr (put p s) (fs @ [val p])"
    and get_first: "repr s (f # fs) \<Longrightarrow> fst (get s) = f \<and> repr (snd (get s)) fs"
begin

lemma in_order:
  "repr s fs \<Longrightarrow> fits cap (length fs) acts \<Longrightarrow> \<forall>p. Some p \<in> set acts \<longrightarrow> ok p \<Longrightarrow>
   \<exists>gs. repr (snd (transfer put get acts s)) gs \<and> fs @ puts val acts = fst (transfer put get acts s) @ gs"
proof (induction acts arbitrary: s fs)
  case Nil
  then show ?case by (auto simp: puts_def List.map_filter_def)
next
  case (Cons a acts)
  show ?case
  proof (cases a)
    case (Some p)
    then have "repr (put p s) (fs @ [val p])" using Cons.prems put_append by simp
    then show ?thesis using Cons.IH [of "put p s" "fs @ [val p]"] Cons.prems Some by (simp add: puts_def map_filter_simps)
  next
    case None
    then obtain f gs where fs: "fs = f # gs" using Cons.prems(2) by (cases fs) auto
    obtain s1 where "get s = (f, s1)" "repr s1 gs" using get_first Cons.prems(1) fs by (metis prod.collapse)
    then show ?thesis using Cons.IH [of s1 gs] Cons.prems None by (auto simp: fs puts_def map_filter_simps case_prod_beta)
  qed
qed

end

definition has :: "u32 \<Rightarrow> eth_desc \<Rightarrow> bool" where
  "has b d \<longleftrightarrow> Status d AND b \<noteq> 0"

definition ring_shape :: "nat \<Rightarrow> nat \<Rightarrow> (nat \<Rightarrow> eth_desc) \<Rightarrow> bool" where
  "ring_shape base n tab \<longleftrightarrow> (\<forall>i < n. Buffer1Addr (tab i) = base + i * ETH_BUF_SIZE \<and> Buffer2NextDescAddr (tab i) = Suc i mod n)"

lemma desc_next_mod: "i < n \<Longrightarrow> desc_next n i = Suc i mod n"
  by (auto simp: desc_next_def mod_Suc)

lemma buffers_apart: "i \<noteq> k \<Longrightarrow> n \<le> ETH_BUF_SIZE \<Longrightarrow> m \<le> ETH_BUF_SIZE \<Longrightarrow> b + i * ETH_BUF_SIZE + n \<le> b + k * ETH_BUF_SIZE \<or> b + k * ETH_BUF_SIZE + m \<le> b + i * ETH_BUF_SIZE"
  by (cases "i < k") auto

lemma ring_step: "d < n \<Longrightarrow> (Suc d mod n + k) mod n = (d + Suc k) mod n"
  by (simp add: mod_simps)

section \<open>Sending\<close>

text \<open>What the DMA does with a descriptor that it owns: it sends the frame in its buffer and gives it back.\<close>

definition tx_frame :: "eth \<Rightarrow> nat \<Rightarrow> u8 list" where
  "tx_frame s i = mem_get (Buffer1Addr (DMATxDscrTab s i)) (unat (ControlBufferSize (DMATxDscrTab s i) AND ETH_DMATxDesc_TBS1)) (ram s)"

definition dma_transmit :: "eth \<times> nat \<Rightarrow> u8 list \<times> eth \<times> nat" where
  "dma_transmit sd =
    (let s = fst sd; i = snd sd; d = DMATxDscrTab s i
     in (tx_frame s i, s\<lparr>DMATxDscrTab := (DMATxDscrTab s)(i := d\<lparr>Status := Status d AND NOT ETH_DMADesc_OWN\<rparr>)\<rparr>, Buffer2NextDescAddr d))"

text \<open>The DMA is at the descriptor \<open>d\<close>, and the frames \<open>fs\<close> wait to be sent, the last one just before \<open>DMATxDescToSet\<close>.\<close>

definition tx_repr :: "nat \<Rightarrow> eth \<times> nat \<Rightarrow> u8 list list \<Rightarrow> bool" where
  "tx_repr base sd fs \<longleftrightarrow>
    (let s = fst sd; d = snd sd in d < ETH_TXBUFNB \<and> length fs \<le> ETH_TXBUFNB \<and> DMATxDescToSet s = (d + length fs) mod ETH_TXBUFNB \<and>
      ring_shape base ETH_TXBUFNB (DMATxDscrTab s) \<and>
      (\<forall>k < ETH_TXBUFNB. has ETH_DMADesc_OWN (DMATxDscrTab s ((d + k) mod ETH_TXBUFNB)) \<longleftrightarrow> k < length fs) \<and>
      (\<forall>k < length fs. length (fs ! k) \<le> ETH_BUF_SIZE \<and> tx_frame s ((d + k) mod ETH_TXBUFNB) = fs ! k))"

lemma own_bits: "((x OR c) OR b) AND b = b" "(x AND NOT b) AND b = 0" for x c b :: u32
  by (auto simp: bit_eq_iff bit_simps)

lemma tx_length: "n \<le> ETH_BUF_SIZE \<Longrightarrow> unat (((ucast (of_nat n :: u16) :: u32) AND ETH_DMATxDesc_TBS1) AND ETH_DMATxDesc_TBS1) = n"
proof -
  assume n: "n \<le> ETH_BUF_SIZE"
  have "(x AND ETH_DMATxDesc_TBS1) AND ETH_DMATxDesc_TBS1 = take_bit 13 x" for x :: u32 by (simp add: take_bit_eq_mask mask_eq_exp_minus_1 and.assoc)
  moreover have "unat (of_nat n :: u16) = n" using n by (simp add: unsigned_of_nat take_bit_nat_eq_self)
  ultimately show ?thesis using n by (simp add: unsigned_take_bit_eq unsigned_ucast_eq take_bit_nat_eq_self)
qed

text \<open>The two outcomes of \<open>low_level_output\<close>, which in both cases has copied the frame to the buffer of the descriptor.\<close>

lemma low_level_output_eq:
  fixes s :: eth and p :: "u8 list list"
  defines "t \<equiv> DMATxDescToSet s"
  defines "s1 \<equiv> s\<lparr>ram := mem_put (Buffer1Addr (DMATxDscrTab s t)) (concat p) (ram s)\<rparr>"
  defines "d1 \<equiv> (DMATxDscrTab s t)\<lparr>ControlBufferSize := ucast (of_nat (length (concat p)) :: u16) AND ETH_DMATxDesc_TBS1,
    Status := (Status (DMATxDscrTab s t) OR (ETH_DMATxDesc_LS OR ETH_DMATxDesc_FS)) OR ETH_DMADesc_OWN\<rparr>"
  shows "has ETH_DMADesc_OWN (DMATxDscrTab s t) \<Longrightarrow> low_level_output p s = (ERR_MEM, s1)"
    "\<not> has ETH_DMADesc_OWN (DMATxDscrTab s t) \<Longrightarrow> \<exists>s'. low_level_output p s = (ERR_OK, s') \<and> DMATxDscrTab s' = (DMATxDscrTab s)(t := d1) \<and>
       DMATxDescToSet s' = Buffer2NextDescAddr (DMATxDscrTab s t) \<and> ram s' = ram s1 \<and> DMARxDscrTab s' = DMARxDscrTab s \<and> DMARxDescToGet s' = DMARxDescToGet s"
  unfolding s1_def d1_def t_def has_def
  by (simp_all add: low_level_output_def ETH_Tx_Packet_def ETH_GetCurrentTxBuffer_def copy_out_concat Let_def clear_status_def)

lemma ring_index:
  assumes "j < n" "k < (n :: nat)"
  shows "(d + j) mod n = (d + k) mod n \<longleftrightarrow> j = k"
  using mod_ne [of j k n d] mod_ne [of k j n d] assms by (cases j k rule: linorder_cases) auto

lemma tx_frame_cong:
  assumes "DMATxDscrTab s' i = DMATxDscrTab s i" "ring_shape base ETH_TXBUFNB (DMATxDscrTab s)" "ram s' = mem_put (base + t * ETH_BUF_SIZE) bs (ram s)"
    "i \<noteq> t" "i < ETH_TXBUFNB" "length (tx_frame s i) \<le> ETH_BUF_SIZE" "length bs \<le> ETH_BUF_SIZE"
  shows "tx_frame s' i = tx_frame s i"
proof -
  have "Buffer1Addr (DMATxDscrTab s i) = base + i * ETH_BUF_SIZE" using assms(2,5) by (simp add: ring_shape_def)
  then show ?thesis unfolding tx_frame_def assms(1,3) using buffers_apart [OF assms(4) _ assms(7), of _ base] assms(6)
    by (intro bytes_get_put_other) (simp add: tx_frame_def)
qed

lemma tx_reprD:
  assumes "tx_repr base (s, d) fs"
  shows "d < ETH_TXBUFNB" "length fs \<le> ETH_TXBUFNB" "DMATxDescToSet s = (d + length fs) mod ETH_TXBUFNB" "ring_shape base ETH_TXBUFNB (DMATxDscrTab s)"
    "k < ETH_TXBUFNB \<Longrightarrow> has ETH_DMADesc_OWN (DMATxDscrTab s ((d + k) mod ETH_TXBUFNB)) \<longleftrightarrow> k < length fs"
    "k < length fs \<Longrightarrow> length (fs ! k) \<le> ETH_BUF_SIZE" "k < length fs \<Longrightarrow> tx_frame s ((d + k) mod ETH_TXBUFNB) = fs ! k"
  using assms by (simp_all add: tx_repr_def)

lemma tx_put:
  assumes r: "tx_repr base (s, d) fs" and n: "length fs < ETH_TXBUFNB" "length (concat p) \<le> ETH_BUF_SIZE"
  shows "\<exists>s'. low_level_output p s = (ERR_OK, s') \<and> tx_repr base (s', d) (fs @ [concat p])"
proof -
  note R = tx_reprD [OF r]
  let ?t = "(d + length fs) mod ETH_TXBUFNB"
  let ?T = "DMATxDscrTab s"
  have t: "?t < ETH_TXBUFNB" by simp
  have sh: "Buffer1Addr (?T ?t) = base + ?t * ETH_BUF_SIZE" "Buffer2NextDescAddr (?T ?t) = Suc ?t mod ETH_TXBUFNB" using R(4) t unfolding ring_shape_def by blast+
  have "\<not> has ETH_DMADesc_OWN (?T ?t)" using R(5) [of "length fs"] n(1) by simp
  from low_level_output_eq(2) [of s p, unfolded R(3), OF this] obtain s' where s': "low_level_output p s = (ERR_OK, s')"
    and T: "DMATxDscrTab s' = ?T(?t := (?T ?t)\<lparr>ControlBufferSize := ucast (of_nat (length (concat p)) :: u16) AND ETH_DMATxDesc_TBS1,
      Status := (Status (?T ?t) OR (ETH_DMATxDesc_LS OR ETH_DMATxDesc_FS)) OR ETH_DMADesc_OWN\<rparr>)"
    and D: "DMATxDescToSet s' = Suc ?t mod ETH_TXBUFNB" and M: "ram s' = mem_put (base + ?t * ETH_BUF_SIZE) (concat p) (ram s)"
    unfolding sh by auto
  have shape: "ring_shape base ETH_TXBUFNB (DMATxDscrTab s')" using R(4) sh unfolding ring_shape_def T by simp
  have idx: "(d + k) mod ETH_TXBUFNB = ?t \<longleftrightarrow> k = length fs" if "k < ETH_TXBUFNB" for k using ring_index [OF that n(1)] .
  have own: "has ETH_DMADesc_OWN (DMATxDscrTab s' ((d + k) mod ETH_TXBUFNB)) \<longleftrightarrow> k < length (fs @ [concat p])" if k: "k < ETH_TXBUFNB" for k
    using idx [OF k] R(5) [OF k] by (cases "k = length fs") (auto simp: T has_def own_bits)
  have new: "tx_frame s' ?t = concat p" using n(2) sh(1) tx_length [OF n(2)] unfolding tx_frame_def T M by (simp add: bytes_get_put)
  have old: "tx_frame s' ((d + k) mod ETH_TXBUFNB) = fs ! k" if k: "k < length fs" for k
  proof -
    have "(d + k) mod ETH_TXBUFNB \<noteq> ?t" using idx [of k] k n(1) by simp
    then show ?thesis using tx_frame_cong [OF _ R(4) M, of "(d + k) mod ETH_TXBUFNB"] R(6,7) [OF k] n(2) by (simp add: T)
  qed
  have "tx_repr base (s', d) (fs @ [concat p])" unfolding tx_repr_def Let_def fst_conv snd_conv
    using R(1) n D shape own new old R(6) by (simp add: mod_Suc_eq nth_append less_Suc_eq)
  then show ?thesis using s' by blast
qed

lemma tx_get:
  assumes "tx_repr base sd (f # fs)"
  shows "fst (dma_transmit sd) = f \<and> tx_repr base (snd (dma_transmit sd)) fs"
proof -
  obtain s d where sd: "sd = (s, d)" by (cases sd)
  note R = tx_reprD [OF assms [unfolded sd]]
  let ?T = "DMATxDscrTab s"
  define s' where "s' = s\<lparr>DMATxDscrTab := ?T(d := (?T d)\<lparr>Status := Status (?T d) AND NOT ETH_DMADesc_OWN\<rparr>)\<rparr>"
  have nx: "Buffer2NextDescAddr (?T d) = Suc d mod ETH_TXBUFNB" using R(1,4) unfolding ring_shape_def by blast
  have e: "dma_transmit sd = (tx_frame s d, s', Suc d mod ETH_TXBUFNB)" by (simp add: dma_transmit_def sd s'_def Let_def nx)
  have f: "tx_frame s d = f" using R(1) R(7) [of 0] by simp
  have ne: "(d + Suc k) mod ETH_TXBUFNB = d \<longleftrightarrow> Suc k = ETH_TXBUFNB" if "k < ETH_TXBUFNB" for k
    using ring_index [of "Suc k" ETH_TXBUFNB 0 d] R(1) that by (cases "Suc k = ETH_TXBUFNB") auto
  have own: "has ETH_DMADesc_OWN (DMATxDscrTab s' ((d + Suc k) mod ETH_TXBUFNB)) \<longleftrightarrow> k < length fs" if k: "k < ETH_TXBUFNB" for k
    using ne [OF k] R(5) [of "Suc k"] R(2) k by (cases "Suc k = ETH_TXBUFNB") (auto simp: s'_def has_def own_bits own_bits(2) [where b = ETH_DMADesc_OWN, simplified])
  have fr: "tx_frame s' i = tx_frame s i" for i by (simp add: tx_frame_def s'_def)
  have sh: "ring_shape base ETH_TXBUFNB (DMATxDscrTab s')" using R(4) by (simp add: ring_shape_def s'_def)
  have "DMATxDescToSet s' = (d + Suc (length fs)) mod ETH_TXBUFNB" using R(3) by (simp add: s'_def)
  then have "tx_repr base (s', Suc d mod ETH_TXBUFNB) fs" unfolding tx_repr_def Let_def fst_conv snd_conv ring_step [OF R(1)]
    using R(2) sh own R(6) [of "Suc _"] R(7) [of "Suc _"] unfolding fr by simp
  then show ?thesis using e f by simp
qed

text \<open>The bytes of a frame after another one was copied to the same buffer.\<close>

definition overwrite :: "u8 list \<Rightarrow> u8 list \<Rightarrow> u8 list" where
  "overwrite new old = take (length old) (new @ drop (length new) old)"

lemma mem_get_overwrite: "mem_get a n (mem_put a bs m) = overwrite bs (mem_get a n m)"
  by (rule nth_equalityI) (auto simp: overwrite_def mem_get_def mem_put_def nth_append)

lemma tx_full:
  assumes r: "tx_repr base (s, d) (f # fs)" and n: "length fs = ETH_TXBUFNB - 1" "length (concat p) \<le> ETH_BUF_SIZE"
  shows "\<exists>s'. low_level_output p s = (ERR_MEM, s') \<and> tx_repr base (s', d) (overwrite (concat p) f # fs)"
proof -
  note R = tx_reprD [OF r]
  have t: "DMATxDescToSet s = d" using R(1,3) n(1) by simp
  have b: "Buffer1Addr (DMATxDscrTab s d) = base + d * ETH_BUF_SIZE" using R(1,4) by (simp add: ring_shape_def)
  have "has ETH_DMADesc_OWN (DMATxDscrTab s d)" using R(5) [of 0] R(1) by simp
  from low_level_output_eq(1) [of s p, unfolded t b, OF this]
  obtain s' where e: "low_level_output p s = (ERR_MEM, s')" and s': "s' = s\<lparr>ram := mem_put (base + d * ETH_BUF_SIZE) (concat p) (ram s)\<rparr>" by blast
  have "tx_frame s d = f" using R(1) R(7) [of 0] by simp
  then have new: "tx_frame s' d = overwrite (concat p) f" using b by (simp add: s' tx_frame_def mem_get_overwrite)
  have old: "tx_frame s' ((d + k) mod ETH_TXBUFNB) = (overwrite (concat p) f # fs) ! k" if k: "k < ETH_TXBUFNB" for k
  proof (cases "k = 0")
    case True
    then show ?thesis using new R(1) by simp
  next
    case False
    then have "(d + k) mod ETH_TXBUFNB \<noteq> d" using ring_index [of k ETH_TXBUFNB 0 d] k R(1) by simp
    then show ?thesis using tx_frame_cong [of s' _ s base d "concat p"] R(4) R(6,7) [of k] k n False by (simp add: s' nth_Cons')
  qed
  have "tx_repr base (s', d) (overwrite (concat p) f # fs)" unfolding tx_repr_def Let_def fst_conv snd_conv
    using R(1-5) R(6) [of 0] R(6) [of "Suc _"] n(1) old by (auto simp: s' overwrite_def nth_Cons split: nat.split)
  then show ?thesis using e by blast
qed

lemma tx_init: "tx_repr Tx_Buff (low_level_init Tx_Buff Rx_Buff s, 0) []"
  by (simp add: tx_repr_def ring_shape_def low_level_init_def ETH_DMATxDescChecksumInsertionConfig_def ETH_DMARxDescChainInit_def ETH_DMATxDescChainInit_def
      has_def upt_rec desc_next_mod)

interpretation tx: frame_ring "\<lambda>p sd. (snd (low_level_output p (fst sd)), snd sd)" dma_transmit "tx_repr base" concat "\<lambda>p. length (concat p) \<le> ETH_BUF_SIZE" ETH_TXBUFNB for base
proof unfold_locales
  show "tx_repr base (snd (low_level_output p (fst sd)), snd sd) (fs @ [concat p])"
    if "tx_repr base sd fs" "length fs < ETH_TXBUFNB" "length (concat p) \<le> ETH_BUF_SIZE" for sd fs p
    using tx_put [of base "fst sd" "snd sd" fs p] that by auto
qed (rule tx_get)

section \<open>Receiving\<close>

text \<open>What the DMA does with a frame and its checksum: it writes them to the buffer of a descriptor that it owns, with its length and the bits for the first and the last
  descriptor of a frame, and gives the descriptor to the driver; without a descriptor the frame is lost.\<close>

definition dma_receive :: "u8 list \<Rightarrow> eth \<times> nat \<Rightarrow> eth \<times> nat" where
  "dma_receive f sd =
    (let s = fst sd; i = snd sd; d = DMARxDscrTab s i
     in if has ETH_DMADesc_OWN d
        then (s\<lparr>DMARxDscrTab := (DMARxDscrTab s)(i := d\<lparr>Status := push_bit 16 (of_nat (length f)) OR (ETH_DMARxDesc_FS OR ETH_DMARxDesc_LS)\<rparr>),
                ram := mem_put (Buffer1Addr d) f (ram s)\<rparr>, Buffer2NextDescAddr d)
        else (s\<lparr>DMASR := DMASR s OR ETH_DMASR_RBUS\<rparr>, i))"

definition rx_holds :: "eth \<Rightarrow> nat \<Rightarrow> u8 list \<Rightarrow> bool" where
  "rx_holds s i f \<longleftrightarrow> (let d = DMARxDscrTab s i in \<not> has ETH_DMARxDesc_ES d \<and> has ETH_DMARxDesc_LS d \<and> has ETH_DMARxDesc_FS d \<and>
     drop_bit 16 (Status d AND ETH_DMARxDesc_FL) = of_nat (length f) \<and> mem_get (Buffer1Addr d) (length f) (ram s) = f)"

definition rx_repr :: "nat \<Rightarrow> eth \<times> nat \<Rightarrow> u8 list list \<Rightarrow> bool" where
  "rx_repr base sd fs \<longleftrightarrow>
    (let s = fst sd; g = DMARxDescToGet s in g < ETH_RXBUFNB \<and> length fs \<le> ETH_RXBUFNB \<and> snd sd = (g + length fs) mod ETH_RXBUFNB \<and>
      ring_shape base ETH_RXBUFNB (DMARxDscrTab s) \<and>
      (\<forall>k < ETH_RXBUFNB. has ETH_DMADesc_OWN (DMARxDscrTab s ((g + k) mod ETH_RXBUFNB)) \<longleftrightarrow> \<not> k < length fs) \<and>
      (\<forall>k < length fs. 4 \<le> length (fs ! k) \<and> length (fs ! k) \<le> ETH_BUF_SIZE \<and> rx_holds s ((g + k) mod ETH_RXBUFNB) (fs ! k)))"

lemma rx_reprD:
  assumes "rx_repr base (s, d) fs"
  shows "DMARxDescToGet s < ETH_RXBUFNB" "length fs \<le> ETH_RXBUFNB" "d = (DMARxDescToGet s + length fs) mod ETH_RXBUFNB" "ring_shape base ETH_RXBUFNB (DMARxDscrTab s)"
    "k < ETH_RXBUFNB \<Longrightarrow> has ETH_DMADesc_OWN (DMARxDscrTab s ((DMARxDescToGet s + k) mod ETH_RXBUFNB)) \<longleftrightarrow> \<not> k < length fs"
    "k < length fs \<Longrightarrow> 4 \<le> length (fs ! k) \<and> length (fs ! k) \<le> ETH_BUF_SIZE" "k < length fs \<Longrightarrow> rx_holds s ((DMARxDescToGet s + k) mod ETH_RXBUFNB) (fs ! k)"
  using assms by (simp_all add: rx_repr_def Let_def)

lemma rx_init: "rx_repr Rx_Buff (low_level_init Tx_Buff Rx_Buff s, 0) []"
  by (simp add: rx_repr_def ring_shape_def low_level_init_def ETH_DMATxDescChecksumInsertionConfig_def ETH_DMARxDescChainInit_def ETH_DMATxDescChainInit_def
      has_def upt_rec desc_next_mod)

lemma rx_status:
  assumes "n \<le> ETH_BUF_SIZE"
  defines "st \<equiv> push_bit 16 (of_nat n :: u32) OR (ETH_DMARxDesc_FS OR ETH_DMARxDesc_LS)"
  shows "st AND ETH_DMADesc_OWN = 0" "st AND ETH_DMARxDesc_ES = 0" "st AND ETH_DMARxDesc_LS \<noteq> 0" "st AND ETH_DMARxDesc_FS \<noteq> 0"
    "drop_bit 16 (st AND ETH_DMARxDesc_FL) = of_nat n"
proof -
  define x where "x = (of_nat n :: u32)"
  have u: "unat x = n" using assms(1) by (simp add: x_def unsigned_of_nat take_bit_nat_eq_self)
  have "unat (take_bit 11 x) = unat x" using assms(1) u by (simp add: unsigned_take_bit_eq take_bit_nat_eq_self)
  then have "take_bit 11 x = x" by (simp add: word_unat_eq_iff)
  then have hi: "bit x k \<Longrightarrow> k < 11" for k by (metis bit_take_bit_iff)
  have st: "st = push_bit 16 x OR (push_bit 9 1 OR push_bit 8 1)" by (simp add: st_def x_def)
  have one: "st AND push_bit k 1 \<noteq> 0 \<longleftrightarrow> 16 \<le> k \<and> k < 32 \<and> bit x (k - 16) \<or> k = 9 \<or> k = 8" for k
    unfolding bit_and_single st bit_or_iff bit_push_bit_iff bit_1_iff by auto
  have "\<not> bit x 15" using hi by force
  then show "st AND ETH_DMADesc_OWN = 0" "st AND ETH_DMARxDesc_ES = 0" "st AND ETH_DMARxDesc_LS \<noteq> 0" "st AND ETH_DMARxDesc_FS \<noteq> 0"
    using one [of 31] one [of 15] one [of 8] one [of 9] by auto
  have fl: "ETH_DMARxDesc_FL = push_bit 16 (mask 14)" by (simp add: mask_eq_exp_minus_1)
  show "drop_bit 16 (st AND ETH_DMARxDesc_FL) = of_nat n" unfolding x_def [symmetric] fl st
    by (rule bit_word_eqI) (auto simp: bit_simps dest: hi)
qed

lemma rx_put:
  assumes r: "rx_repr base sd fs" and n: "length fs < ETH_RXBUFNB" "4 \<le> length f \<and> length f \<le> ETH_BUF_SIZE"
  shows "rx_repr base (dma_receive f sd) (fs @ [f])"
proof -
  obtain s d where sd: "sd = (s, d)" by (cases sd)
  note R = rx_reprD [OF r [unfolded sd]]
  define g where "g = DMARxDescToGet s"
  let ?T = "DMARxDscrTab s"
  have d: "d = (g + length fs) mod ETH_RXBUFNB" "d < ETH_RXBUFNB" using R(3) by (simp_all add: g_def)
  have sh: "Buffer1Addr (?T d) = base + d * ETH_BUF_SIZE" "Buffer2NextDescAddr (?T d) = Suc d mod ETH_RXBUFNB" using R(4) d(2) unfolding ring_shape_def by blast+
  have "has ETH_DMADesc_OWN (?T d)" using R(5) [of "length fs"] n(1) d(1) by (simp add: g_def)
  then obtain s' where e: "dma_receive f sd = (s', Suc d mod ETH_RXBUFNB)"
    and T: "DMARxDscrTab s' = ?T(d := (?T d)\<lparr>Status := push_bit 16 (of_nat (length f)) OR (ETH_DMARxDesc_FS OR ETH_DMARxDesc_LS)\<rparr>)"
    and M: "ram s' = mem_put (base + d * ETH_BUF_SIZE) f (ram s)" and G: "DMARxDescToGet s' = g"
    by (simp add: dma_receive_def sd Let_def sh g_def)
  have shape: "ring_shape base ETH_RXBUFNB (DMARxDscrTab s')" using R(4) unfolding ring_shape_def T by simp
  have idx: "(g + k) mod ETH_RXBUFNB = d \<longleftrightarrow> k = length fs" if "k < ETH_RXBUFNB" for k using ring_index [OF that n(1), of g] d(1) by simp
  have own: "has ETH_DMADesc_OWN (DMARxDscrTab s' ((g + k) mod ETH_RXBUFNB)) \<longleftrightarrow> \<not> k < length (fs @ [f])" if k: "k < ETH_RXBUFNB" for k
    using idx [OF k] R(5) [OF k] rx_status(1) [of "length f"] n(2) unfolding g_def [symmetric] by (cases "k = length fs") (auto simp: T has_def)
  have new: "rx_holds s' d f" using n(2) rx_status [of "length f"] by (simp add: rx_holds_def Let_def T M has_def sh bytes_get_put)
  have old: "rx_holds s' ((g + k) mod ETH_RXBUFNB) (fs ! k)" if k: "k < length fs" for k
  proof -
    let ?i = "(g + k) mod ETH_RXBUFNB"
    have ne: "?i \<noteq> d" using idx [of k] k n(1) by simp
    have "Buffer1Addr (?T ?i) = base + ?i * ETH_BUF_SIZE" using R(4) by (simp add: ring_shape_def)
    then have "mem_get (Buffer1Addr (?T ?i)) (length (fs ! k)) (ram s') = mem_get (Buffer1Addr (?T ?i)) (length (fs ! k)) (ram s)"
      unfolding M using buffers_apart [OF ne, of "length (fs ! k)" "length f" base] R(6) [OF k] n(2) by (intro bytes_get_put_other) simp
    then show ?thesis using R(7) [OF k] ne by (simp add: rx_holds_def Let_def T g_def)
  qed
  have "rx_repr base (s', Suc d mod ETH_RXBUFNB) (fs @ [f])" unfolding rx_repr_def Let_def fst_conv snd_conv G
    using R(1,6) n shape own new old d(1) by (simp add: g_def mod_Suc_eq nth_append less_Suc_eq)
  then show ?thesis using e by simp
qed

fun chunks :: "nat list \<Rightarrow> 'a list \<Rightarrow> 'a list list" where
  "chunks [] f = []"
| "chunks (n # ns) f = take n f # chunks ns (drop n f)"

lemma copy_in_chunks: "sum_list ns = k \<Longrightarrow> copy_in b l ns m = chunks ns (mem_get (b + l) k m)"
proof (induction ns arbitrary: l k)
  case (Cons n ns)
  then have "drop n (mem_get (b + l) k m) = mem_get (b + (l + n)) (sum_list ns) m" by (auto simp: mem_get_def drop_map add.assoc)
  then show ?case using Cons by (auto simp: mem_get_take min_def)
qed simp

definition strip :: "u8 list \<Rightarrow> u8 list" where
  "strip f = take (length f - 4) f"

lemma strip_length: "length (strip f) = length f - 4"
  by (simp add: strip_def min.absorb2)

lemma rx_take:
  assumes r: "rx_repr base (s, d) (f # fs)"
  shows "\<exists>s'. low_level_input pbuf_alloc (s, w) =
      (case pbuf_alloc (of_nat (length (strip f))) w of (r, w1) \<Rightarrow> Some (map_option (\<lambda>ls. copy_in (base + DMARxDescToGet s * ETH_BUF_SIZE) 0 ls (ram s)) r, s', w1)) \<and>
    mem_get (base + DMARxDescToGet s * ETH_BUF_SIZE) (length (strip f)) (ram s) = strip f \<and> rx_repr base (s', d) fs"
proof -
  note R = rx_reprD [OF r]
  define g where "g = DMARxDescToGet s"
  let ?T = "DMARxDscrTab s"
  have g: "g < ETH_RXBUFNB" "g mod ETH_RXBUFNB = g" using R(1) by (simp_all add: g_def)
  have sh: "Buffer1Addr (?T g) = base + g * ETH_BUF_SIZE" "Buffer2NextDescAddr (?T g) = Suc g mod ETH_RXBUFNB" using R(4) g(1) unfolding ring_shape_def by blast+
  have f: "4 \<le> length f" "length f \<le> ETH_BUF_SIZE" using R(6) [of 0] by auto
  have h: "rx_holds s g f" using R(7) [of 0] g unfolding g_def [symmetric] by simp
  have nown: "Status (?T g) AND ETH_DMADesc_OWN = 0" using R(5) [of 0] g unfolding g_def [symmetric] by (simp add: has_def)
  define fl where "fl = drop_bit 16 (Status (?T g) AND ETH_DMARxDesc_FL) - 4"
  have len: "ucast fl = (of_nat (length (strip f)) :: u16)"
  proof -
    have "fl = of_nat (length f - 4)" unfolding fl_def using h f(1) by (simp add: rx_holds_def Let_def of_nat_diff)
    then show ?thesis using f(2) by (simp add: strip_length unsigned_of_nat take_bit_nat_eq_self)
  qed
  let ?s1 = "s\<lparr>DMARxDescToGet := Suc g mod ETH_RXBUFNB\<rparr>"
  define s' where "s' = rx_resume (?s1\<lparr>DMARxDscrTab := ?T(g := (?T g)\<lparr>Status := ETH_DMADesc_OWN\<rparr>)\<rparr>)"
  have F: "DMARxDscrTab s' = ?T(g := (?T g)\<lparr>Status := ETH_DMADesc_OWN\<rparr>)" "DMARxDescToGet s' = Suc g mod ETH_RXBUFNB" "ram s' = ram s"
    by (simp_all add: s'_def rx_resume_def clear_status_def)
  have "ETH_Rx_Packet s = (\<lparr>frame_length = fl, frame_buffer = base + g * ETH_BUF_SIZE, frame_descriptor = Some g\<rparr>, ?s1)"
    using h nown sh by (simp add: ETH_Rx_Packet_def Let_def g_def [symmetric] rx_holds_def has_def fl_def)
  then have e: "low_level_input pbuf_alloc (s, w) =
      (case pbuf_alloc (of_nat (length (strip f))) w of (r, w1) \<Rightarrow> Some (map_option (\<lambda>ls. copy_in (base + g * ETH_BUF_SIZE) 0 ls (ram s)) r, s', w1))"
    by (simp add: low_level_input_def len s'_def split: prod.split)
  have m: "mem_get (base + g * ETH_BUF_SIZE) (length (strip f)) (ram s) = strip f"
    using h mem_get_take [of "length f - 4" "base + g * ETH_BUF_SIZE" "length f" "ram s"] by (simp add: rx_holds_def Let_def sh strip_def min_def)
  have ne: "(g + Suc k) mod ETH_RXBUFNB = g \<longleftrightarrow> Suc k = ETH_RXBUFNB" if "k < ETH_RXBUFNB" for k
    using ring_index [of "Suc k" ETH_RXBUFNB 0 g] g that by (cases "Suc k = ETH_RXBUFNB") auto
  have own: "has ETH_DMADesc_OWN (DMARxDscrTab s' ((g + Suc k) mod ETH_RXBUFNB)) \<longleftrightarrow> \<not> k < length fs" if k: "k < ETH_RXBUFNB" for k
    using ne [OF k] R(5) [of "Suc k"] R(2) k unfolding g_def [symmetric] by (cases "Suc k = ETH_RXBUFNB") (auto simp: F has_def)
  have hold: "rx_holds s' ((g + Suc k) mod ETH_RXBUFNB) (fs ! k)" if k: "k < length fs" for k
    using R(7) [of "Suc k"] ne [of k] R(2) k unfolding g_def [symmetric] by (simp add: rx_holds_def Let_def F)
  have "ring_shape base ETH_RXBUFNB (DMARxDscrTab s')" using R(4) by (simp add: ring_shape_def F)
  then have "rx_repr base (s', d) fs" unfolding rx_repr_def Let_def fst_conv snd_conv F(2) ring_step [OF g(1)]
    using R(2) R(3) own hold R(6) [of "Suc _"] unfolding g_def [symmetric] by simp
  then show ?thesis using e m unfolding g_def by blast
qed

text \<open>What the protocol stack sees of a frame: a chain of buffers for it, if there is one, handed to \<open>input\<close>.\<close>

definition rx_deliver :: "(u16 \<Rightarrow> 'w \<Rightarrow> nat list option \<times> 'w) \<Rightarrow> (u8 list list \<Rightarrow> 'w \<Rightarrow> int \<times> 'w) \<Rightarrow> (u8 list list \<Rightarrow> 'w \<Rightarrow> 'w) \<Rightarrow> u8 list \<Rightarrow> 'w \<Rightarrow> 'w" where
  "rx_deliver pbuf_alloc input pbuf_free f w =
    (case pbuf_alloc (of_nat (length f)) w of
       (None, w1) \<Rightarrow> w1
     | (Some ls, w1) \<Rightarrow> (case input (chunks ls f) w1 of (err, w2) \<Rightarrow> if err \<noteq> ERR_OK then pbuf_free (chunks ls f) w2 else w2))"

text \<open>The chain that \<open>pbuf_alloc\<close> returns has the total length asked for.\<close>

definition pbuf_sound :: "(u16 \<Rightarrow> 'w \<Rightarrow> nat list option \<times> 'w) \<Rightarrow> bool" where
  "pbuf_sound pbuf_alloc \<longleftrightarrow> (\<forall>n w ls w'. pbuf_alloc n w = (Some ls, w') \<longrightarrow> sum_list ls = unat n)"

lemma unat_frame_length: "rx_repr base (s, d) (f # fs) \<Longrightarrow> unat (of_nat (length (strip f)) :: u16) = length (strip f)"
proof -
  assume "rx_repr base (s, d) (f # fs)"
  then have "length (strip f) < 65536" using rx_reprD(6) [of base s d "f # fs" 0] by (auto simp: strip_length)
  then show ?thesis by (simp add: unsigned_of_nat take_bit_nat_eq_self)
qed

lemma input_delivers:
  assumes p: "pbuf_sound pbuf_alloc" and r: "rx_repr base (s, d) (f # fs)"
  shows "\<exists>e s'. ethernetif_input pbuf_alloc input pbuf_free (s, w) = Some (e, s', rx_deliver pbuf_alloc input pbuf_free (strip f) w) \<and> rx_repr base (s', d) fs"
proof -
  let ?b = "base + DMARxDescToGet s * ETH_BUF_SIZE"
  obtain s' where s': "low_level_input pbuf_alloc (s, w) = (case pbuf_alloc (of_nat (length (strip f))) w of (r, w1) \<Rightarrow> Some (map_option (\<lambda>ls. copy_in ?b 0 ls (ram s)) r, s', w1))"
    "mem_get ?b (length (strip f)) (ram s) = strip f" "rx_repr base (s', d) fs" using rx_take [OF r, of pbuf_alloc w] by (elim exE conjE)
  show ?thesis
  proof (cases "pbuf_alloc (of_nat (length (strip f))) w")
    case (Pair r w1)
    show ?thesis
    proof (cases r)
      case None
      then show ?thesis using s' Pair by (auto simp: ethernetif_input_def rx_deliver_def)
    next
      case (Some ls)
      have "sum_list ls = length (strip f)" using p Pair Some unat_frame_length [OF r] unfolding pbuf_sound_def by metis
      then have "copy_in ?b 0 ls (ram s) = chunks ls (strip f)" using copy_in_chunks [of ls "length (strip f)" ?b 0 "ram s"] s'(2) by simp
      then show ?thesis using s'(1,3) Pair Some by (cases "input (chunks ls (strip f)) w1") (auto simp: ethernetif_input_def rx_deliver_def)
    qed
  qed
qed

lemma irq_loop_delivers:
  assumes p: "pbuf_sound pbuf_alloc"
  shows "rx_repr base (s, d) fs \<Longrightarrow>
    \<exists>s'. irq_loop pbuf_alloc input pbuf_free (s, w) = Some (s', fold (rx_deliver pbuf_alloc input pbuf_free) (map strip fs) w) \<and> rx_repr base (s', d) []"
proof (induction fs arbitrary: s w)
  case Nil
  then have "has ETH_DMADesc_OWN (DMARxDscrTab s (DMARxDescToGet s))" using rx_reprD(1) [OF Nil] rx_reprD(5) [OF Nil, of 0] by simp
  then have "irq_loop pbuf_alloc input pbuf_free (s, w) = Some (s, w)" by (subst irq_loop.simps) (simp add: ETH_GetRxPktSize_def has_def)
  then show ?case using Nil by simp
next
  case (Cons f fs)
  note R = rx_reprD [OF Cons.prems]
  have h: "rx_holds s (DMARxDescToGet s) f" and nown: "\<not> has ETH_DMADesc_OWN (DMARxDscrTab s (DMARxDescToGet s))" using R(1) R(7) [of 0] R(5) [of 0] by simp_all
  have "(of_nat (length f) :: u32) \<noteq> 0" using R(6) [of 0] of_nat_u32_inj [of "length f" 0] by auto
  then have sz: "ETH_GetRxPktSize (DMARxDscrTab s (DMARxDescToGet s)) \<noteq> 0" using h nown by (simp add: ETH_GetRxPktSize_def rx_holds_def Let_def has_def)
  obtain e s1 where s1: "ethernetif_input pbuf_alloc input pbuf_free (s, w) = Some (e, s1, rx_deliver pbuf_alloc input pbuf_free (strip f) w)" "rx_repr base (s1, d) fs"
    using input_delivers [OF p Cons.prems] by blast
  have "irq_loop pbuf_alloc input pbuf_free (s, w) = irq_loop pbuf_alloc input pbuf_free (s1, rx_deliver pbuf_alloc input pbuf_free (strip f) w)"
    using sz s1(1) by (subst irq_loop.simps) simp
  then show ?case using Cons.IH [OF s1(2)] by simp
qed

text \<open>The receive ring as a queue, for a stack that has buffers.\<close>

definition pbuf_total :: "(u16 \<Rightarrow> 'w \<Rightarrow> nat list option \<times> 'w) \<Rightarrow> bool" where
  "pbuf_total pbuf_alloc \<longleftrightarrow> (\<forall>n w. \<exists>ls w'. pbuf_alloc n w = (Some ls, w') \<and> sum_list ls = unat n)"

definition rx_fetch :: "(u16 \<Rightarrow> 'w \<Rightarrow> nat list option \<times> 'w) \<Rightarrow> (eth \<times> 'w) \<times> nat \<Rightarrow> u8 list \<times> (eth \<times> 'w) \<times> nat" where
  "rx_fetch pbuf_alloc st = (case low_level_input pbuf_alloc (fst st) of Some (Some p, sw) \<Rightarrow> (concat p, sw, snd st) | _ \<Rightarrow> ([], st))"

definition rx_queue :: "(u16 \<Rightarrow> 'w \<Rightarrow> nat list option \<times> 'w) \<Rightarrow> nat \<Rightarrow> (eth \<times> 'w) \<times> nat \<Rightarrow> u8 list list \<Rightarrow> bool" where
  "rx_queue pbuf_alloc base st fs \<longleftrightarrow> pbuf_total pbuf_alloc \<and> (\<exists>gs. fs = map strip gs \<and> rx_repr base (fst (fst st), snd st) gs)"

interpretation rx: frame_ring "\<lambda>f st. ((fst (dma_receive f (fst (fst st), snd st)), snd (fst st)), snd (dma_receive f (fst (fst st), snd st)))"
  "rx_fetch pbuf_alloc" "rx_queue pbuf_alloc base" strip "\<lambda>f. 4 \<le> length f \<and> length f \<le> ETH_BUF_SIZE" ETH_RXBUFNB for pbuf_alloc base
proof unfold_locales
  show "rx_queue pbuf_alloc base ((fst (dma_receive f (fst (fst st), snd st)), snd (fst st)), snd (dma_receive f (fst (fst st), snd st))) (fs @ [strip f])"
    if q: "rx_queue pbuf_alloc base st fs" "length fs < ETH_RXBUFNB" "4 \<le> length f \<and> length f \<le> ETH_BUF_SIZE" for st fs f
  proof -
    obtain gs where "pbuf_total pbuf_alloc" "fs = map strip gs" "rx_repr base (fst (fst st), snd st) gs" using q(1) by (auto simp: rx_queue_def)
    then show ?thesis using rx_put [of base "(fst (fst st), snd st)" gs f] q unfolding rx_queue_def by (intro conjI exI [of _ "gs @ [f]"]) simp_all
  qed
  show "fst (rx_fetch pbuf_alloc st) = f \<and> rx_queue pbuf_alloc base (snd (rx_fetch pbuf_alloc st)) fs" if q: "rx_queue pbuf_alloc base st (f # fs)" for st f fs
  proof -
    obtain s w d where st: "st = ((s, w), d)" by (metis surj_pair)
    obtain g gs where p: "pbuf_total pbuf_alloc" and f: "f = strip g" "fs = map strip gs" and r: "rx_repr base (s, d) (g # gs)"
      using q unfolding rx_queue_def st by (auto simp: Cons_eq_map_conv)
    obtain ls w' where a: "pbuf_alloc (of_nat (length (strip g))) w = (Some ls, w')" "sum_list ls = length (strip g)"
      using p unat_frame_length [OF r] unfolding pbuf_total_def by metis
    obtain s' where "low_level_input pbuf_alloc (s, w) = Some (Some (copy_in (base + DMARxDescToGet s * ETH_BUF_SIZE) 0 ls (ram s)), s', w')"
      "mem_get (base + DMARxDescToGet s * ETH_BUF_SIZE) (length (strip g)) (ram s) = strip g" "rx_repr base (s', d) gs"
      using rx_take [OF r, of pbuf_alloc w] a(1) by auto
    then show ?thesis using a(2) p f by (auto simp: rx_fetch_def st rx_queue_def copy_in_concat)
  qed
qed

section \<open>Frames\<close>

definition tx_run :: "u8 list list option list \<Rightarrow> nat \<Rightarrow> nat \<Rightarrow> eth \<Rightarrow> u8 list list \<times> eth \<times> nat" where
  "tx_run acts Tx_Buff Rx_Buff s = transfer (\<lambda>p sd. (snd (low_level_output p (fst sd)), snd sd)) dma_transmit acts (low_level_init Tx_Buff Rx_Buff s, 0)"

definition rx_run :: "(u16 \<Rightarrow> 'w \<Rightarrow> nat list option \<times> 'w) \<Rightarrow> u8 list option list \<Rightarrow> nat \<Rightarrow> nat \<Rightarrow> eth \<times> 'w \<Rightarrow> u8 list list \<times> (eth \<times> 'w) \<times> nat" where
  "rx_run pbuf_alloc acts Tx_Buff Rx_Buff sw =
    transfer (\<lambda>f st. ((fst (dma_receive f (fst (fst st), snd st)), snd (fst st)), snd (dma_receive f (fst (fst st), snd st)))) (rx_fetch pbuf_alloc) acts
      ((low_level_init Tx_Buff Rx_Buff (fst sw), snd sw), 0)"

text \<open>C18. Frames are sent in order and unchanged. After \<open>low_level_init\<close>, for any sequence of calls of \<open>low_level_output\<close> and completions by the DMA in which no call finds
  the ring full, what the DMA sends and what then waits in the ring is what was passed to \<open>low_level_output\<close>, byte for byte and in this order,
  whatever the division of the frames into \<open>pbuf\<close> structures.\<close>

theorem tx_in_order:
  assumes "fits ETH_TXBUFNB 0 acts" "\<forall>p. Some p \<in> set acts \<longrightarrow> length (concat p) \<le> ETH_BUF_SIZE"
  shows "\<exists>waiting. tx_repr Tx_Buff (snd (tx_run acts Tx_Buff Rx_Buff s)) waiting \<and> puts concat acts = fst (tx_run acts Tx_Buff Rx_Buff s) @ waiting"
  using tx.in_order [OF tx_init, of acts] assms by (simp add: tx_run_def)

text \<open>C28. A frame that \<open>low_level_output\<close> refuses, as the ring is full, is nevertheless copied to the buffer of the oldest frame that waits: that one is sent with the bytes of
  the refused frame in its place.\<close>

theorem tx_full_corrupts:
  assumes "tx_repr base (s, d) (f # fs)" "length fs = ETH_TXBUFNB - 1" "length (concat p) \<le> ETH_BUF_SIZE"
  shows "\<exists>s'. low_level_output p s = (ERR_MEM, s') \<and> fst (dma_transmit (s', d)) = overwrite (concat p) f \<and> tx_repr base (snd (dma_transmit (s', d))) fs"
  using tx_full [OF assms] tx_get by blast

text \<open>Frames are received in order and unchanged. After \<open>low_level_init\<close>, for any sequence of frames that the DMA receives and calls of \<open>low_level_input\<close> such that
  the ring is never full when a frame arrives nor empty at a call, and a stack that has buffers, the chains returned and the frames left in the ring are the frames
  received, without their checksums.\<close>

theorem rx_in_order:
  assumes "pbuf_total pbuf_alloc" "fits ETH_RXBUFNB 0 acts" "\<forall>f. Some f \<in> set acts \<longrightarrow> 4 \<le> length f \<and> length f \<le> ETH_BUF_SIZE"
  shows "\<exists>left. rx_queue pbuf_alloc Rx_Buff (snd (rx_run pbuf_alloc acts Tx_Buff Rx_Buff (s, w))) left \<and>
    puts strip acts = fst (rx_run pbuf_alloc acts Tx_Buff Rx_Buff (s, w)) @ left"
proof -
  have "rx_queue pbuf_alloc Rx_Buff ((low_level_init Tx_Buff Rx_Buff s, w), 0) []" using assms(1) rx_init by (simp add: rx_queue_def)
  from rx.in_order [OF this, of acts] show ?thesis using assms(2,3) by (simp add: rx_run_def)
qed

text \<open>C19. When the frames that wait in the ring, of at most \<open>ETH_BUF_SIZE\<close> bytes, have arrived without errors, each in one descriptor (\<open>rx_repr\<close>), the interrupt
  handler returns, and it delivers them all, in the order of arrival: each goes to the stack once, in the chain of buffers allocated
  for it, or is dropped when there is none; all descriptors are back at the DMA. (A frame with the error bit is never taken and blocks those behind
  it: \<open>rx_error_blocks\<close>.)\<close>

theorem irq_delivers_all:
  assumes "pbuf_sound pbuf_alloc" "rx_repr base (s, d) fs"
  shows "\<exists>s'. ETH_IRQHandler pbuf_alloc input pbuf_free (s, w) = Some (s', fold (rx_deliver pbuf_alloc input pbuf_free) (map strip fs) w) \<and> rx_repr base (s', d) []"
proof -
  obtain s1 where s1: "irq_loop pbuf_alloc input pbuf_free (s, w) = Some (s1, fold (rx_deliver pbuf_alloc input pbuf_free) (map strip fs) w)" "rx_repr base (s1, d) []"
    using irq_loop_delivers [OF assms, of input pbuf_free w] by blast
  let ?s' = "clear_status ETH_DMA_IT_NIS (clear_status ETH_DMA_IT_R s1)"
  have "rx_repr base (?s', d) []" using s1(2) by (simp add: rx_repr_def clear_status_def)
  then show ?thesis using s1(1) by (auto simp: ETH_IRQHandler_def)
qed

text \<open>The life of the receiver: the DMA receives frames, and interrupts are handled.\<close>

fun rx_life ::
  "(u16 \<Rightarrow> 'w \<Rightarrow> nat list option \<times> 'w) \<Rightarrow> (u8 list list \<Rightarrow> 'w \<Rightarrow> int \<times> 'w) \<Rightarrow> (u8 list list \<Rightarrow> 'w \<Rightarrow> 'w) \<Rightarrow> u8 list option list \<Rightarrow> (eth \<times> nat) \<times> 'w \<Rightarrow> ((eth \<times> nat) \<times> 'w) option" where
  "rx_life pbuf_alloc input pbuf_free [] st = Some st"
| "rx_life pbuf_alloc input pbuf_free (Some f # acts) st = rx_life pbuf_alloc input pbuf_free acts (dma_receive f (fst st), snd st)"
| "rx_life pbuf_alloc input pbuf_free (None # acts) st =
    Option.bind (ETH_IRQHandler pbuf_alloc input pbuf_free (fst (fst st), snd st)) (\<lambda>(s, w). rx_life pbuf_alloc input pbuf_free acts ((s, snd (fst st)), w))"

text \<open>C29. A frame with an error stops reception for good. When the descriptor at \<open>DMARxDescToGet\<close> holds a frame with its error bit set, the interrupt handler does not take it, as
  \<open>ETH_GetRxPktSize\<close> is 0 for it, although \<open>ETH_Rx_Packet\<close> would skip it; from then on no frame reaches the stack, whatever is received.\<close>

theorem rx_error_blocks:
  assumes "\<not> has ETH_DMADesc_OWN (DMARxDscrTab s (DMARxDescToGet s))" "has ETH_DMARxDesc_ES (DMARxDscrTab s (DMARxDescToGet s))"
  shows "\<exists>sd'. rx_life pbuf_alloc input pbuf_free acts ((s, d), w) = Some (sd', w)"
  using assms
proof (induction acts arbitrary: s d)
  case (Cons a acts)
  let ?g = "DMARxDescToGet s"
  show ?case
  proof (cases a)
    case None
    have "irq_loop pbuf_alloc input pbuf_free (s, w) = Some (s, w)" using Cons.prems by (subst irq_loop.simps) (simp add: ETH_GetRxPktSize_def has_def)
    then show ?thesis using Cons.IH [of "clear_status ETH_DMA_IT_NIS (clear_status ETH_DMA_IT_R s)"] Cons.prems by (simp add: None ETH_IRQHandler_def clear_status_def)
  next
    case (Some f)
    obtain s1 d1 where e: "dma_receive f (s, d) = (s1, d1)" by (cases "dma_receive f (s, d)")
    then have "DMARxDescToGet s1 = ?g" "DMARxDscrTab s1 ?g = DMARxDscrTab s ?g" using Cons.prems(1) by (auto simp: dma_receive_def Let_def split: if_splits)
    then show ?thesis using Cons.IH [of s1 d1] Cons.prems by (simp add: Some e)
  qed
qed simp

section \<open>Examples\<close>

definition ethex :: eth where
  "ethex = (let d = \<lparr>Status = 0x8100, ControlBufferSize = 0, Buffer1Addr = 0, Buffer2NextDescAddr = 0\<rparr> in
     \<lparr>DMARxDscrTab = (\<lambda>_. d), DMATxDscrTab = (\<lambda>_. d), DMARxDescToGet = 0, DMATxDescToSet = 0, DMASR = 0, rx_polls = 0, tx_polls = 0, ram = (\<lambda>_. 0)\<rparr>)"

abbreviation (input) one_pbuf :: "u16 \<Rightarrow> u8 list list \<Rightarrow> nat list option \<times> u8 list list" where
  "one_pbuf \<equiv> \<lambda>n w. (Some [unat n], w)"

lemma tx_fill: "k \<le> ETH_TXBUFNB \<Longrightarrow> \<exists>s. tx_repr 0 (s, 0) (replicate k [7])"
proof (induction k)
  case 0
  then show ?case using tx_init [of 0 7620 ethex] by auto
next
  case (Suc k)
  then obtain s where "tx_repr 0 (s, 0) (replicate k [7])" by auto
  from tx_put [OF this, of "[[7]]"] Suc.prems show ?case by (auto simp: replicate_append_same)
qed

theorem tx_in_order_witness:
  "\<exists>waiting. tx_repr 0 (snd (tx_run [Some [[1, 2], [3]], Some [[4]], None] 0 7620 ethex)) waiting \<and>
     [[1, 2, 3], [4]] = fst (tx_run [Some [[1, 2], [3]], Some [[4]], None] 0 7620 ethex) @ waiting"
  using tx_in_order [of "[Some [[1, 2], [3]], Some [[4]], None]" 0 7620 ethex] by (auto simp: puts_def map_filter_simps)

theorem tx_full_corrupts_witness:
  "\<exists>s s'. tx_repr 0 (s, 0) (replicate 5 [7]) \<and> low_level_output [[9]] s = (ERR_MEM, s') \<and> fst (dma_transmit (s', 0)) = [9]"
proof -
  obtain s where s: "tx_repr 0 (s, 0) ([7] # replicate 4 [7])" using tx_fill [of 5] by (auto simp: numeral_eq_Suc)
  from tx_full_corrupts [OF this, of "[[9]]"] show ?thesis using s by (auto simp: overwrite_def numeral_eq_Suc)
qed

theorem rx_in_order_witness:
  "\<exists>left. rx_queue one_pbuf 7620 (snd (rx_run one_pbuf [Some [1, 2, 3, 4, 5, 6], None] 0 7620 (ethex, []))) left \<and>
     [[1, 2]] = fst (rx_run one_pbuf [Some [1, 2, 3, 4, 5, 6], None] 0 7620 (ethex, [])) @ left"
  using rx_in_order [of one_pbuf "[Some [1, 2, 3, 4, 5, 6], None]" 7620 0 ethex "[]"] by (auto simp: puts_def map_filter_simps pbuf_total_def strip_def)

theorem irq_delivers_all_witness:
  "\<exists>s d s'. rx_repr 7620 (s, d) [[1, 2, 3, 4, 5, 6]] \<and>
     ETH_IRQHandler one_pbuf (\<lambda>p w. (ERR_OK, w @ p)) (\<lambda>_ w. w) (s, []) = Some (s', [[1, 2]]) \<and> rx_repr 7620 (s', d) []"
proof -
  have "rx_repr 7620 (dma_receive [1, 2, 3, 4, 5, 6] (low_level_init 0 7620 ethex, 0)) ([] @ [[1, 2, 3, 4, 5, 6]])" by (rule rx_put [OF rx_init]) simp_all
  then obtain s d where r: "rx_repr 7620 (s, d) [[1, 2, 3, 4, 5, 6]]" by (cases "dma_receive [1, 2, 3, 4, 5, 6] (low_level_init 0 7620 ethex, 0)") auto
  have p: "pbuf_sound one_pbuf" by (auto simp: pbuf_sound_def)
  have "rx_deliver one_pbuf (\<lambda>p w. (ERR_OK, w @ p)) (\<lambda>_ w. w) (strip [1, 2, 3, 4, 5, 6]) [] = [[1, 2]]" by (simp add: rx_deliver_def strip_def)
  then show ?thesis using irq_delivers_all [OF p r, of "\<lambda>p w. (ERR_OK, w @ p)" "\<lambda>_ w. w" "[]"] r by auto
qed

theorem rx_error_blocks_witness:
  "\<exists>sd'. rx_life one_pbuf (\<lambda>p w. (ERR_OK, w @ p)) (\<lambda>_ w. w) [None, Some [1, 2, 3, 4, 5, 6], None] ((ethex, 1), []) = Some (sd', [])"
  by (rule rx_error_blocks) (simp_all add: ethex_def Let_def has_def)

end
