(* ===== verification/LwipComm.thy ===== *)
theory LwipComm
  imports SysArch OsInit LwipInet LwipMemp
begin

text \<open>
  The network set-up of the program, demo/LWIP_APP/lwip_comm.c, with the memory of the Ethernet driver from demo/LWIP_APP/lan8720.c, \<open>tcpip_init\<close> of lwIP and the
  loop of \<open>main\<close> that repeats \<open>lwip_comm_init\<close> until it succeeds. The set-up works on the allocator of \<open>Malloc\<close> and, through the layer of
  \<open>SysArch\<close>, on the kernel; what \<open>LAN8720_Init\<close>, \<open>netif_add\<close> and the modules of lwIP do that own no object of the kernel is a parameter that acts on
  a state of its own. The task that waits for DHCP sees the addresses of the interface change, which is a list of what it reads in its turns.
\<close>

section \<open>The code\<close>

record lwip_mem =
  heap :: mallco
  DMARxDscrTab :: u32
  DMATxDscrTab :: u32
  Rx_Buff :: u32
  Tx_Buff :: u32
  memp_memory :: u32
  ram_heap :: u32
  TCPIP_THREAD_TASK_STK :: u32
  LWIP_DHCP_TASK_STK :: u32

definition free_in :: "u32 \<Rightarrow> lwip_mem \<Rightarrow> lwip_mem" where
  "free_in p s = s\<lparr>heap := myfree SRAMIN p (heap s)\<rparr>"

definition ETH_Mem_Free :: "lwip_mem \<Rightarrow> lwip_mem" where
  "ETH_Mem_Free s = free_in (Tx_Buff s) (free_in (Rx_Buff s) (free_in (DMATxDscrTab s) (free_in (DMARxDscrTab s) s)))"

text \<open>20 and 5 descriptors of 32 bytes, and as many buffers of 1524 bytes.\<close>

definition ETH_Mem_Malloc :: "lwip_mem \<Rightarrow> u8 \<times> lwip_mem" where
  "ETH_Mem_Malloc s =
    (let (p1, h1) = mymalloc SRAMIN (20 * 32) (heap s);
         (p2, h2) = mymalloc SRAMIN (5 * 32) h1;
         (p3, h3) = mymalloc SRAMIN (1524 * 20) h2;
         (p4, h4) = mymalloc SRAMIN (1524 * 5) h3;
         s1 = s\<lparr>heap := h4, DMARxDscrTab := p1, DMATxDscrTab := p2, Rx_Buff := p3, Tx_Buff := p4\<rparr>
     in if p1 = 0 \<or> p2 = 0 \<or> p3 = 0 \<or> p4 = 0 then (1, ETH_Mem_Free s1) else (0, s1))"

definition lwip_comm_mem_free :: "lwip_mem \<Rightarrow> lwip_mem" where
  "lwip_comm_mem_free s =
    free_in (LWIP_DHCP_TASK_STK s) (free_in (TCPIP_THREAD_TASK_STK s) (free_in (ram_heap s) (free_in (memp_memory s) s)))"

definition LWIP_MEM_ALIGN_SIZE :: "u32 \<Rightarrow> u32" where
  "LWIP_MEM_ALIGN_SIZE sz = (sz + 4 - 1) AND NOT (4 - 1)"

definition lwip_comm_mem_malloc :: "(nat \<Rightarrow> nat) \<Rightarrow> lwip_mem \<Rightarrow> u8 \<times> lwip_mem" where
  "lwip_comm_mem_malloc sz s =
    (let mempsize = of_nat (memp_get_memorysize sz);
         (p1, h1) = mymalloc SRAMIN mempsize (heap s);
         ramheapsize = LWIP_MEM_ALIGN_SIZE 16000 + 2 * LWIP_MEM_ALIGN_SIZE (4 * 3) + 4;
         (p2, h2) = mymalloc SRAMIN ramheapsize h1;
         (p3, h3) = mymalloc SRAMIN (1000 * 4) h2;
         (p4, h4) = mymalloc SRAMIN (128 * 4) h3;
         s1 = s\<lparr>heap := h4, memp_memory := p1, ram_heap := p2, TCPIP_THREAD_TASK_STK := p3, LWIP_DHCP_TASK_STK := p4\<rparr>
     in if p1 = 0 \<or> p2 = 0 \<or> p3 = 0 \<or> p4 = 0 then (1, lwip_comm_mem_free s1) else (0, s1))"

record lwip_dev =
  mac :: "u8 list"
  remoteip :: "u8 list"
  ip :: "u8 list"
  netmask :: "u8 list"
  gateway :: "u8 list"
  dhcpstatus :: u8

text \<open>\<open>sn0\<close> is the word of the processor's serial number at 0x1FFF7A10.\<close>

definition lwip_comm_default_ip_set :: "u32 \<Rightarrow> lwip_dev \<Rightarrow> lwip_dev" where
  "lwip_comm_default_ip_set sn0 lwipx =
    lwipx\<lparr>remoteip := [192, 168, 1, 54],
      mac := [2, 0, 0, ucast (drop_bit 16 sn0 AND 0xFF), ucast (drop_bit 8 sn0 AND 0xFFF), ucast (sn0 AND 0xFF)],
      ip := [192, 168, 1, 30], netmask := [255, 255, 255, 0], gateway := [192, 168, 1, 1], dhcpstatus := 0\<rparr>"

text \<open>The kernel and the network stack: the kernel's state, the field \<open>pQ\<close> of the mailboxes, the mutex of mem.c, the mailbox of tcpip.c and the rest. The functions of
  the stack that the set-up calls are the parameters of the record \<open>lwip_env\<close>: \<open>LAN8720_Init\<close> says whether it fails, \<open>lwip_modules\<close> is what \<open>lwip_init\<close> does to the modules that keep
  no object of the kernel, \<open>netif_add\<close> says whether it returns an interface, which \<open>netif_set_up\<close> then makes the default and starts.\<close>

record 'w net =
  net_os :: os
  net_pQ :: "u32 \<Rightarrow> nat option"
  mem_mutex :: "nat option"
  tcpip_mbox :: u32
  net_rest :: 'w

record 'w lwip_env =
  memp_size :: "nat \<Rightarrow> nat"
  serial :: u32
  tcpip_thread :: u32
  LAN8720_Init :: "'w \<Rightarrow> bool \<times> 'w"
  lwip_modules :: "'w \<Rightarrow> 'w"
  netif_add :: "'w \<Rightarrow> bool \<times> 'w"
  netif_set_up :: "'w \<Rightarrow> 'w"

abbreviation (input) "TCPIP_THREAD_PRIO \<equiv> 5 :: u8"
abbreviation (input) "TCPIP_THREAD_STACKSIZE \<equiv> 1000 :: nat"

text \<open>\<open>tcpip_init\<close>: the mutex that \<open>mem_init\<close> creates, the mailbox and the task.\<close>

definition tcpip_init :: "image \<Rightarrow> 'w lwip_env \<Rightarrow> lwip_mem \<times> 'w net \<Rightarrow> lwip_mem \<times> 'w net" where
  "tcpip_init im env = (\<lambda>(s, n).
    let (_, sem, w1) = sys_sem_new 1 \<lparr>sa_os = net_os n, sa_mem = heap s, sa_pQ = net_pQ n\<rparr>;
        (_, mb, w2) = sys_mbox_new MAX_QUEUE_ENTRIES w1;
        w3 = sys_thread_new (img_fpu im) (img_ret im) (unat (TCPIP_THREAD_TASK_STK s) div 4) ''tcpip_thread'' (tcpip_thread env) 0
               TCPIP_THREAD_STACKSIZE TCPIP_THREAD_PRIO w2
    in (s\<lparr>heap := sa_mem w3\<rparr>,
        n\<lparr>net_os := sa_os w3, net_pQ := sa_pQ w3, mem_mutex := sem, tcpip_mbox := mb, net_rest := lwip_modules env (net_rest n)\<rparr>))"

definition lwip_comm_init :: "image \<Rightarrow> 'w lwip_env \<Rightarrow> lwip_mem \<times> lwip_dev \<times> 'w net \<Rightarrow> u8 \<times> lwip_mem \<times> lwip_dev \<times> 'w net" where
  "lwip_comm_init im env = (\<lambda>(s, dev, n).
    let (r1, s1) = ETH_Mem_Malloc s
    in if r1 \<noteq> 0 then (1, s1, dev, n)
       else let (r2, s2) = lwip_comm_mem_malloc (memp_size env) s1
    in if r2 \<noteq> 0 then (1, s2, dev, n)
       else let (failed, w1) = LAN8720_Init env (net_rest n); n1 = n\<lparr>net_rest := w1\<rparr>
    in if failed then (2, s2, dev, n1)
       else let (s3, n2) = tcpip_init im env (s2, n1);
                dev1 = lwip_comm_default_ip_set (serial env) dev;
                (added, w2) = netif_add env (net_rest n2)
    in if \<not> added then (3, s3, dev1, n2\<lparr>net_rest := w2\<rparr>) else (0, s3, dev1, n2\<lparr>net_rest := netif_set_up env w2\<rparr>))"

text \<open>The loop of \<open>main\<close>.\<close>

partial_function (option) init_loop ::
  "(lwip_mem \<times> lwip_dev \<times> 'w net \<Rightarrow> u8 \<times> lwip_mem \<times> lwip_dev \<times> 'w net) \<Rightarrow> lwip_mem \<times> lwip_dev \<times> 'w net \<Rightarrow> (lwip_mem \<times> lwip_dev \<times> 'w net) option" where
  "init_loop attempt st = (case attempt st of (r, st1) \<Rightarrow> if r \<noteq> 0 then init_loop attempt st1 else Some st1)"

record dhcp_view =
  v_ip :: u32
  v_netmask :: u32
  v_gw :: u32
  v_tries :: u8

definition split_ip :: "u32 \<Rightarrow> u8 list" where
  "split_ip a = [ucast a, ucast (drop_bit 8 a), ucast (drop_bit 16 a), ucast (drop_bit 24 a)]"

definition join_ip :: "u8 list \<Rightarrow> u32" where
  "join_ip b = IP4_ADDR (b ! 0) (b ! 1) (b ! 2) (b ! 3)"

text \<open>The loop of \<open>lwip_dhcp_task\<close>: the device and the addresses that the task sets in the interface; \<open>None\<close> while it waits. It reads the
  interface once in each turn, every 250 milliseconds.\<close>

fun dhcp_loop :: "dhcp_view list \<Rightarrow> lwip_dev \<Rightarrow> (lwip_dev \<times> (u32 \<times> u32 \<times> u32) option) option" where
  "dhcp_loop [] dev = None"
| "dhcp_loop (v # vs) dev =
    (if v_ip v \<noteq> 0
     then Some (dev\<lparr>dhcpstatus := 2, ip := split_ip (v_ip v), netmask := split_ip (v_netmask v), gateway := split_ip (v_gw v)\<rparr>, None)
     else if v_tries v > 4
     then Some (dev\<lparr>dhcpstatus := 0xFF\<rparr>, Some (join_ip (ip dev), join_ip (netmask dev), join_ip (gateway dev)))
     else dhcp_loop vs dev)"

definition lwip_dhcp_task :: "dhcp_view list \<Rightarrow> lwip_dev \<Rightarrow> (lwip_dev \<times> (u32 \<times> u32 \<times> u32) option) option" where
  "lwip_dhcp_task vs dev = dhcp_loop vs (dev\<lparr>dhcpstatus := 0\<rparr>)"

section \<open>Groups of blocks\<close>

context block_alloc
begin

text \<open>Giving back the blocks of a series of requests leaves those that were there before.\<close>

lemma release_all:
  "repr s (set G \<union> A) \<Longrightarrow> distinct G \<Longrightarrow> set G \<inter> A = {} \<Longrightarrow> repr (fold (\<lambda>b. release (fst b)) G s) A"
proof (induction G arbitrary: s)
  case (Cons b G)
  have "insert b (set G \<union> A) - {b} = set G \<union> A" using Cons.prems by auto
  then have "repr (release (fst b) s) (set G \<union> A)" using release_own [of s "insert b (set G \<union> A)" "fst b" "snd b"] Cons.prems(1) by simp
  then show ?case using Cons by simp
qed simp

end

definition apart :: "(u32 \<times> nat) list \<Rightarrow> (u32 \<times> nat) set \<Rightarrow> bool" where
  "apart G A \<longleftrightarrow> distinct G \<and> set G \<inter> A = {} \<and> (\<forall>b \<in> set G. \<forall>c \<in> set G \<union> A. b \<noteq> c \<longrightarrow> bytes b \<inter> bytes c = {})"

lemma myfree_granted:
  "length zs = length ps \<Longrightarrow> fold (\<lambda>p. myfree m (case p of None \<Rightarrow> 0 | Some q \<Rightarrow> q)) ps h = fold (\<lambda>b. myfree m (fst b)) (pool.granted zs ps) h"
  by (induction zs ps arbitrary: h rule: list_induct2) (auto simp: pool.granted_def myfree_def split: option.split)

lemma group4:
  assumes r: "pool_repr m h A" and q: "request z1" "request z2" "request z3" "request z4"
    and a: "mymalloc m z1 h = (p1, h1)" "mymalloc m z2 h1 = (p2, h2)" "mymalloc m z3 h2 = (p3, h3)" "mymalloc m z4 h3 = (p4, h4)"
  shows "pool_repr m (myfree m p4 (myfree m p3 (myfree m p2 (myfree m p1 h4)))) A"
    "p1 \<noteq> 0 \<and> p2 \<noteq> 0 \<and> p3 \<noteq> 0 \<and> p4 \<noteq> 0 \<Longrightarrow> pool_repr m h4 (set [(p1, blocks z1), (p2, blocks z2), (p3, blocks z3), (p4, blocks z4)] \<union> A) \<and>
       apart [(p1, blocks z1), (p2, blocks z2), (p3, blocks z3), (p4, blocks z4)] A"
proof -
  let ?o = "\<lambda>p :: u32. if p = 0 then None else Some p"
  let ?zs = "[z1, z2, z3, z4]" and ?ps = "[?o p1, ?o p2, ?o p3, ?o p4]"
  have al: "allocs (alloc_op m) ?zs h = (?ps, h4)" by (simp add: alloc_op_def a)
  have "\<forall>z \<in> set ?zs. request z" using q by simp
  note d = pool.allocs_disjoint [OF r this al]
  have l: "length ?zs = length ?ps" by simp
  have e: "fold (\<lambda>p. myfree m (case p of None \<Rightarrow> 0 | Some q \<Rightarrow> q)) ?ps h4 = myfree m p4 (myfree m p3 (myfree m p2 (myfree m p1 h4)))"
    by (simp add: myfree_def)
  have "pool_repr m (fold (\<lambda>b. myfree m (fst b)) (pool.granted ?zs ?ps) h4) A" using d pool.release_all by blast
  then show "pool_repr m (myfree m p4 (myfree m p3 (myfree m p2 (myfree m p1 h4)))) A" unfolding trans [OF myfree_granted [OF l, symmetric] e] .
  show "pool_repr m h4 (set [(p1, blocks z1), (p2, blocks z2), (p3, blocks z3), (p4, blocks z4)] \<union> A) \<and>
      apart [(p1, blocks z1), (p2, blocks z2), (p3, blocks z3), (p4, blocks z4)] A" if ne: "p1 \<noteq> 0 \<and> p2 \<noteq> 0 \<and> p3 \<noteq> 0 \<and> p4 \<noteq> 0"
  proof -
    have "pool.granted ?zs ?ps = [(p1, blocks z1), (p2, blocks z2), (p3, blocks z3), (p4, blocks z4)]" using ne by (simp add: pool.granted_Cons) (simp add: pool.granted_def)
    then show ?thesis using d unfolding apart_def by metis
  qed
qed

text \<open>What is allocated fits the pool.\<close>

lemma owns_capacity: "owns m N B \<Longrightarrow> finite B \<and> (\<Sum>b \<in> B. snd b) \<le> N"
proof -
  assume o: "owns m N B"
  then have sub: "\<Union> (span ` B) \<subseteq> {..<N}" by (auto simp: owns_def span_def)
  have dj: "\<forall>b \<in> B. \<forall>c \<in> B. b \<noteq> c \<longrightarrow> span b \<inter> span c = {}" using o unfolding owns_def by blast
  have ne: "\<forall>b \<in> B. span b \<noteq> {}" using o by (auto simp: owns_def span_def)
  have "inj_on span B" unfolding inj_on_def using dj ne by (metis inf.idem)
  then have fin: "finite B" using sub by (metis finite_UnionD finite_imageD finite_lessThan rev_finite_subset)
  have "(\<Sum>b \<in> B. snd b) = (\<Sum>b \<in> B. card (span b))" by (simp add: span_def)
  also have "\<dots> = card (\<Union> (span ` B))" using dj fin by (subst card_UN_disjoint) (auto simp: span_def)
  also have "\<dots> \<le> N" using card_mono [OF _ sub] by simp
  finally show ?thesis using fin by blast
qed

lemma pool_capacity:
  assumes "pool_repr m h A"
  shows "finite A" "(\<Sum>b \<in> A. snd b) \<le> unat (memtblsize m)"
proof -
  obtain B where B: "owns (memmap h m) (unat (memtblsize m)) B" "A = addr m h ` B" using assms by (auto simp: pool_repr_def)
  note c = owns_capacity [OF B(1)]
  show "finite A" using c B(2) by simp
  have "inj_on (addr m h) B" using bytes_disjoint(2) [OF assms B(1)] by (meson inj_onI)
  then have "(\<Sum>b \<in> addr m h ` B. snd b) = (\<Sum>b \<in> B. snd b)" by (subst sum.reindex) (simp_all add: addr_def)
  then show "(\<Sum>b \<in> A. snd b) \<le> unat (memtblsize m)" using c unfolding B(2) by simp
qed

text \<open>As long as the low part of the pool is free, a request that fits there is granted, and what is left below is free: the search goes from the top down.\<close>

definition low_free :: "mallco \<Rightarrow> nat \<Rightarrow> bool" where
  "low_free h k \<longleftrightarrow> k \<le> unat (memtblsize SRAMIN) \<and> (\<forall>i < k. memmap h SRAMIN i = 0)"

lemma low_free_malloc:
  assumes r: "pool_repr SRAMIN h A" and q: "request z" and k: "low_free h k" "blocks z \<le> k" and a: "mymalloc SRAMIN z h = (p, h')"
  shows "p \<noteq> 0 \<and> low_free h' (k - blocks z)"
proof -
  have f: "free_run (memmap h SRAMIN) (unat (memtblsize SRAMIN)) (blocks z) (k - blocks z)" using k by (auto simp: free_run_def low_free_def)
  from r q show ?thesis
  proof (cases rule: alloc_op_cases)
    case fail
    then show ?thesis using f by blast
  next
    case (ok b)
    have "k - blocks z \<le> b" using ok(2) f by (metis not_le_imp_less)
    then show ?thesis using ok(3) a k(1) by (auto simp: alloc_op_def low_free_def map_fill_apply split: if_splits)
  qed
qed

section \<open>The memory of the network\<close>

definition eth_blocks :: "lwip_mem \<Rightarrow> (u32 \<times> nat) list" where
  "eth_blocks s = [(DMARxDscrTab s, 20), (DMATxDscrTab s, 5), (Rx_Buff s, 953), (Tx_Buff s, 239)]"

definition lwip_blocks :: "(nat \<Rightarrow> nat) \<Rightarrow> lwip_mem \<Rightarrow> (u32 \<times> nat) list" where
  "lwip_blocks sz s = [(memp_memory s, (memp_get_memorysize sz + 31) div 32), (ram_heap s, 501), (TCPIP_THREAD_TASK_STK s, 125), (LWIP_DHCP_TASK_STK s, 16)]"

lemma eth_request_blocks: "blocks 640 = 20" "blocks 160 = 5" "blocks 30480 = 953" "blocks 7620 = 239" "blocks 16028 = 501" "blocks 4000 = 125" "blocks 512 = 16"
  by (simp_all add: blocks_def)

lemma requests: "request 640" "request 160" "request 30480" "request 7620" "request 16028" "request 4000" "request 512"
  by (simp_all add: request_def)

lemma memp_request:
  assumes "0 < memp_get_memorysize sz" "memp_get_memorysize sz \<le> 2097120"
  shows "request (of_nat (memp_get_memorysize sz))" "blocks (of_nat (memp_get_memorysize sz)) = (memp_get_memorysize sz + 31) div 32"
proof -
  have "unat (of_nat (memp_get_memorysize sz) :: u32) = memp_get_memorysize sz" using assms by (simp add: unsigned_of_nat take_bit_nat_eq_self)
  then show "request (of_nat (memp_get_memorysize sz))" "blocks (of_nat (memp_get_memorysize sz)) = (memp_get_memorysize sz + 31) div 32"
    using assms by (simp_all add: request_def blocks_def word_less_nat_alt word_le_nat_alt)
qed

lemma heap_size: "LWIP_MEM_ALIGN_SIZE 16000 + 2 * LWIP_MEM_ALIGN_SIZE 12 + 4 = 16028"
  by (simp add: LWIP_MEM_ALIGN_SIZE_def)

lemma eth_malloc:
  assumes r: "pool_repr SRAMIN (heap s) A" and e: "ETH_Mem_Malloc s = (c, s')"
  shows "c = 0 \<and> pool_repr SRAMIN (heap s') (set (eth_blocks s') \<union> A) \<and> apart (eth_blocks s') A \<or> c = 1 \<and> pool_repr SRAMIN (heap s') A"
proof -
  obtain p1 h1 where a1: "mymalloc SRAMIN 640 (heap s) = (p1, h1)" by (cases "mymalloc SRAMIN 640 (heap s)")
  obtain p2 h2 where a2: "mymalloc SRAMIN 160 h1 = (p2, h2)" by (cases "mymalloc SRAMIN 160 h1")
  obtain p3 h3 where a3: "mymalloc SRAMIN 30480 h2 = (p3, h3)" by (cases "mymalloc SRAMIN 30480 h2")
  obtain p4 h4 where a4: "mymalloc SRAMIN 7620 h3 = (p4, h4)" by (cases "mymalloc SRAMIN 7620 h3")
  note g = group4 [OF r requests(1-4) a1 a2 a3 a4, unfolded eth_request_blocks]
  show ?thesis
  proof (cases "p1 \<noteq> 0 \<and> p2 \<noteq> 0 \<and> p3 \<noteq> 0 \<and> p4 \<noteq> 0")
    case True
    then have "c = 0" "heap s' = h4" "eth_blocks s' = [(p1, 20), (p2, 5), (p3, 953), (p4, 239)]"
      using e by (auto simp: ETH_Mem_Malloc_def a1 a2 a3 a4 eth_blocks_def Let_def)
    then show ?thesis using g(2) [OF True] by simp
  next
    case False
    then have "c = 1" "heap s' = myfree SRAMIN p4 (myfree SRAMIN p3 (myfree SRAMIN p2 (myfree SRAMIN p1 h4)))"
      using e by (auto simp: ETH_Mem_Malloc_def a1 a2 a3 a4 Let_def ETH_Mem_Free_def free_in_def)
    then show ?thesis using g(1) by simp
  qed
qed

lemma lwip_malloc:
  assumes r: "pool_repr SRAMIN (heap s) A" and z: "0 < memp_get_memorysize sz" "memp_get_memorysize sz \<le> 2097120" and e: "lwip_comm_mem_malloc sz s = (c, s')"
  shows "c = 0 \<and> pool_repr SRAMIN (heap s') (set (lwip_blocks sz s') \<union> A) \<and> apart (lwip_blocks sz s') A \<or> c = 1 \<and> pool_repr SRAMIN (heap s') A"
    "eth_blocks s' = eth_blocks s"
proof -
  let ?m = "of_nat (memp_get_memorysize sz) :: u32"
  obtain p1 h1 where a1: "mymalloc SRAMIN ?m (heap s) = (p1, h1)" by (cases "mymalloc SRAMIN ?m (heap s)")
  obtain p2 h2 where a2: "mymalloc SRAMIN 16028 h1 = (p2, h2)" by (cases "mymalloc SRAMIN 16028 h1")
  obtain p3 h3 where a3: "mymalloc SRAMIN 4000 h2 = (p3, h3)" by (cases "mymalloc SRAMIN 4000 h2")
  obtain p4 h4 where a4: "mymalloc SRAMIN 512 h3 = (p4, h4)" by (cases "mymalloc SRAMIN 512 h3")
  note g = group4 [OF r memp_request(1) [OF z] requests(5-7) a1 a2 a3 a4, unfolded eth_request_blocks memp_request(2) [OF z]]
  show "c = 0 \<and> pool_repr SRAMIN (heap s') (set (lwip_blocks sz s') \<union> A) \<and> apart (lwip_blocks sz s') A \<or> c = 1 \<and> pool_repr SRAMIN (heap s') A"
  proof (cases "p1 \<noteq> 0 \<and> p2 \<noteq> 0 \<and> p3 \<noteq> 0 \<and> p4 \<noteq> 0")
    case True
    then have "c = 0" "heap s' = h4" "lwip_blocks sz s' = [(p1, (memp_get_memorysize sz + 31) div 32), (p2, 501), (p3, 125), (p4, 16)]"
      using e by (auto simp: lwip_comm_mem_malloc_def heap_size a1 a2 a3 a4 lwip_blocks_def Let_def)
    then show ?thesis using g(2) [OF True] by simp
  next
    case False
    then have "c = 1" "heap s' = myfree SRAMIN p4 (myfree SRAMIN p3 (myfree SRAMIN p2 (myfree SRAMIN p1 h4)))"
      using e by (auto simp: lwip_comm_mem_malloc_def heap_size a1 a2 a3 a4 Let_def lwip_comm_mem_free_def free_in_def)
    then show ?thesis using g(1) by simp
  qed
  show "eth_blocks s' = eth_blocks s" using e
    by (auto simp: lwip_comm_mem_malloc_def heap_size a1 a2 a3 a4 Let_def lwip_comm_mem_free_def free_in_def eth_blocks_def split: if_splits)
qed

text \<open>C25. The memory of the network is taken as a whole or not at all: \<open>ETH_Mem_Malloc\<close> and \<open>lwip_comm_mem_malloc\<close> return 0 with four blocks large enough for the
  descriptors, buffers, pools, heap and stacks that overlap neither each other nor any block in use, or return 1 with the pool as it was.\<close>

theorem network_memory:
  assumes "pool_repr SRAMIN (heap s) A" "0 < memp_get_memorysize sz" "memp_get_memorysize sz \<le> 2097120"
  shows "(case ETH_Mem_Malloc s of (c, s') \<Rightarrow>
      c = 0 \<and> pool_repr SRAMIN (heap s') (set (eth_blocks s') \<union> A) \<and> apart (eth_blocks s') A \<or> c = 1 \<and> pool_repr SRAMIN (heap s') A) \<and>
    (case lwip_comm_mem_malloc sz s of (c, s') \<Rightarrow>
      c = 0 \<and> pool_repr SRAMIN (heap s') (set (lwip_blocks sz s') \<union> A) \<and> apart (lwip_blocks sz s') A \<or> c = 1 \<and> pool_repr SRAMIN (heap s') A)"
  using eth_malloc [OF assms(1)] lwip_malloc(1) [OF assms] by (auto split: prod.split)

section \<open>The first attempt and the others\<close>

lemma malloc_step:
  assumes "pool_repr SRAMIN h A" "request z" "low_free h (b + k)" "blocks z = b"
  obtains p h' A' where "mymalloc SRAMIN z h = (p, h')" "p \<noteq> 0" "low_free h' k" "pool_repr SRAMIN h' A'"
proof -
  obtain p h' where a: "mymalloc SRAMIN z h = (p, h')" by (cases "mymalloc SRAMIN z h")
  have l: "p \<noteq> 0" "low_free h' k" using low_free_malloc [OF assms(1-3) _ a] assms(4) by simp_all
  then have "alloc_op SRAMIN z h = (Some p, h')" by (simp add: alloc_op_def a)
  then show thesis using that [OF a l] pool_repr_add [OF assms(1,2)] by blast
qed

lemma eth_succeeds:
  assumes r: "pool_repr SRAMIN (heap s) A" and k: "low_free (heap s) (20 + (5 + (953 + (239 + k))))"
  shows "\<exists>s' A'. ETH_Mem_Malloc s = (0, s') \<and> low_free (heap s') k \<and> pool_repr SRAMIN (heap s') A'"
proof -
  obtain p1 h1 A1 where a1: "mymalloc SRAMIN 640 (heap s) = (p1, h1)" "p1 \<noteq> 0" "low_free h1 (5 + (953 + (239 + k)))" "pool_repr SRAMIN h1 A1"
    by (rule malloc_step [OF r requests(1) k eth_request_blocks(1)])
  obtain p2 h2 A2 where a2: "mymalloc SRAMIN 160 h1 = (p2, h2)" "p2 \<noteq> 0" "low_free h2 (953 + (239 + k))" "pool_repr SRAMIN h2 A2"
    by (rule malloc_step [OF a1(4) requests(2) a1(3) eth_request_blocks(2)])
  obtain p3 h3 A3 where a3: "mymalloc SRAMIN 30480 h2 = (p3, h3)" "p3 \<noteq> 0" "low_free h3 (239 + k)" "pool_repr SRAMIN h3 A3"
    by (rule malloc_step [OF a2(4) requests(3) a2(3) eth_request_blocks(3)])
  obtain p4 h4 A4 where a4: "mymalloc SRAMIN 7620 h3 = (p4, h4)" "p4 \<noteq> 0" "low_free h4 k" "pool_repr SRAMIN h4 A4"
    by (rule malloc_step [OF a3(4) requests(4) a3(3) eth_request_blocks(4)])
  show ?thesis using a1(1,2) a2(1,2) a3(1,2) a4 by (auto simp: ETH_Mem_Malloc_def Let_def)
qed

lemma lwip_succeeds:
  assumes r: "pool_repr SRAMIN (heap s) A" and z: "0 < memp_get_memorysize sz" "memp_get_memorysize sz \<le> 2097120"
    and k: "low_free (heap s) ((memp_get_memorysize sz + 31) div 32 + (501 + (125 + (16 + k))))"
  shows "\<exists>s' A'. lwip_comm_mem_malloc sz s = (0, s') \<and> low_free (heap s') k \<and> pool_repr SRAMIN (heap s') A'"
proof -
  let ?m = "of_nat (memp_get_memorysize sz) :: u32"
  note mp = memp_request [OF z]
  obtain p1 h1 A1 where a1: "mymalloc SRAMIN ?m (heap s) = (p1, h1)" "p1 \<noteq> 0" "low_free h1 (501 + (125 + (16 + k)))" "pool_repr SRAMIN h1 A1"
    by (rule malloc_step [OF r mp(1) k mp(2)])
  obtain p2 h2 A2 where a2: "mymalloc SRAMIN 16028 h1 = (p2, h2)" "p2 \<noteq> 0" "low_free h2 (125 + (16 + k))" "pool_repr SRAMIN h2 A2"
    by (rule malloc_step [OF a1(4) requests(5) a1(3) eth_request_blocks(5)])
  obtain p3 h3 A3 where a3: "mymalloc SRAMIN 4000 h2 = (p3, h3)" "p3 \<noteq> 0" "low_free h3 (16 + k)" "pool_repr SRAMIN h3 A3"
    by (rule malloc_step [OF a2(4) requests(6) a2(3) eth_request_blocks(6)])
  obtain p4 h4 A4 where a4: "mymalloc SRAMIN 512 h3 = (p4, h4)" "p4 \<noteq> 0" "low_free h4 k" "pool_repr SRAMIN h4 A4"
    by (rule malloc_step [OF a3(4) requests(7) a3(3) eth_request_blocks(7)])
  show ?thesis using a1(1,2) a2(1,2) a3(1,2) a4 by (auto simp: lwip_comm_mem_malloc_def Let_def heap_size)
qed

text \<open>A pool in which another set of Ethernet buffers does not fit.\<close>

definition exhausted :: "lwip_mem \<Rightarrow> bool" where
  "exhausted s \<longleftrightarrow> (\<exists>A. pool_repr SRAMIN (heap s) A \<and> 1983 < (\<Sum>b \<in> A. snd b))"

lemma sum_apart: "apart G A \<Longrightarrow> finite A \<Longrightarrow> (\<Sum>b \<in> set G \<union> A. snd b) = sum_list (map snd G) + (\<Sum>b \<in> A. snd b)"
  by (simp add: apart_def sum.union_disjoint sum_list_distinct_conv_sum_set)

lemma exhausted_eth:
  assumes "exhausted s"
  shows "\<exists>s'. ETH_Mem_Malloc s = (1, s') \<and> exhausted s'"
proof -
  obtain A where r: "pool_repr SRAMIN (heap s) A" and a: "1983 < (\<Sum>b \<in> A. snd b)" using assms by (auto simp: exhausted_def)
  obtain c s' where e: "ETH_Mem_Malloc s = (c, s')" by (cases "ETH_Mem_Malloc s")
  have "\<not> (pool_repr SRAMIN (heap s') (set (eth_blocks s') \<union> A) \<and> apart (eth_blocks s') A)"
  proof
    assume p: "pool_repr SRAMIN (heap s') (set (eth_blocks s') \<union> A) \<and> apart (eth_blocks s') A"
    then have "(\<Sum>b \<in> set (eth_blocks s') \<union> A. snd b) = sum_list (map snd (eth_blocks s')) + (\<Sum>b \<in> A. snd b)" using sum_apart pool_capacity(1) [OF r] by blast
    moreover have "(\<Sum>b \<in> set (eth_blocks s') \<union> A. snd b) \<le> 3200" using pool_capacity(2) [OF conjunct1 [OF p]] by (simp add: memtblsize_def)
    moreover have "sum_list (map snd (eth_blocks s')) = 1217" by (simp add: eth_blocks_def)
    ultimately show False using a by linarith
  qed
  then show ?thesis using eth_malloc [OF r e] e a by (auto simp: exhausted_def)
qed

lemma exhausted_attempt:
  assumes "exhausted s"
  shows "\<exists>s'. lwip_comm_init im env (s, dev, n) = (1, s', dev, n) \<and> exhausted s'"
  using exhausted_eth [OF assms] by (auto simp: lwip_comm_init_def)

lemma exhausted_loop: "exhausted s \<Longrightarrow> init_loop (lwip_comm_init im env) (s, dev, n) = None"
proof (rule ccontr)
  let ?att = "lwip_comm_init im env"
  assume x: "exhausted s" and "init_loop ?att (s, dev, n) \<noteq> None"
  then obtain y where y: "init_loop ?att (s, dev, n) = Some y" by blast
  have "?att = ?att \<longrightarrow> \<not> exhausted (fst (s, dev, n))"
  proof (rule init_loop.raw_induct [where P = "\<lambda>a st y. a = ?att \<longrightarrow> \<not> exhausted (fst st)", OF _ y], intro impI notI)
    fix f attempt st y
    assume ih: "\<And>a b y. f a b = Some y \<Longrightarrow> a = ?att \<longrightarrow> \<not> exhausted (fst b)"
      and b: "(case attempt st of (r, st1) \<Rightarrow> if r \<noteq> 0 then f attempt st1 else Some st1) = Some y" and t: "attempt = ?att" and ex: "exhausted (fst st)"
    obtain s dev n where st: "st = (s, dev, n)" by (cases st)
    obtain s' where s': "?att (s, dev, n) = (1, s', dev, n)" "exhausted s'"
      using exhausted_attempt [of s im env dev n] ex unfolding st fst_conv by blast
    then have "f attempt (s', dev, n) = Some y" using b by (simp add: st t)
    then show False using ih [of attempt "(s', dev, n)" y] s'(2) t by simp
  qed
  then show False using x by simp
qed

text \<open>A mailbox takes one more block or none.\<close>

lemma mbox_new_pool:
  assumes r: "pool_repr SRAMIN (sa_mem w) A" and e: "sys_mbox_new z w = (err, mb, w')"
  shows "pool_repr SRAMIN (sa_mem w') A \<or> pool_repr SRAMIN (sa_mem w') (insert (mb, 3) A)"
proof -
  obtain m h where a: "mymalloc SRAMIN TQ_DESCR_SIZE (sa_mem w) = (m, h)" by (cases "mymalloc SRAMIN TQ_DESCR_SIZE (sa_mem w)")
  have h: "if m = 0 then pool_repr SRAMIN h A else pool_repr SRAMIN h (insert (m, 3) A) \<and> (m, 3) \<notin> A"
    using pool.alloc_none [OF r block_84(1), of h] pool.alloc_some [OF r block_84(1), of m h] pool.alloc_fresh [OF r block_84(1), of m h] r
    by (simp add: alloc_op_def a block_84)
  show ?thesis
  proof (cases "m = 0")
    case True
    then show ?thesis using e h by (auto simp: sys_mbox_new_def a Let_def pool_repr_ram)
  next
    case False
    then have p: "pool_repr SRAMIN (h\<lparr>ram := f\<rparr>) (insert (m, 3) A)" for f using h by (simp add: pool_repr_ram)
    have d: "pool_repr SRAMIN (myfree SRAMIN m (h\<lparr>ram := f\<rparr>)) A" for f using pool.release_own [OF p, of m 3] h False by simp
    let ?w = "clear_descr m (w\<lparr>sa_mem := h\<rparr>)"
    obtain q k where c: "OSQCreate (unat m + 4) (of_int (if MAX_QUEUE_ENTRIES < z then MAX_QUEUE_ENTRIES else z)) (sa_os ?w) = (q, k)" by (metis surj_pair)
    note r = e [unfolded sys_mbox_new_def a Let_def prod.case c]
    have "mb = m" "sa_mem w' = (if q \<noteq> None then sa_mem ?w else myfree SRAMIN m (sa_mem ?w))"
      using r [symmetric] False by (simp_all split: if_splits)
    then show ?thesis using p d by simp
  qed
qed

lemma sem_new_mem: "sa_mem (snd (snd (sys_sem_new c w))) = sa_mem w"
  by (simp add: sys_sem_new_def split: prod.split option.split)

lemma tcpip_init_exhausted:
  assumes "exhausted s"
  shows "exhausted (fst (tcpip_init im env (s, n)))"
proof -
  obtain A where r: "pool_repr SRAMIN (heap s) A" and a: "1983 < (\<Sum>b \<in> A. snd b)" using assms by (auto simp: exhausted_def)
  obtain c1 sem w1 where w1: "sys_sem_new 1 \<lparr>sa_os = net_os n, sa_mem = heap s, sa_pQ = net_pQ n\<rparr> = (c1, sem, w1)" by (metis surj_pair)
  obtain c2 mb w2 where w2: "sys_mbox_new MAX_QUEUE_ENTRIES w1 = (c2, mb, w2)" by (metis surj_pair)
  have "sa_mem w1 = heap s" using sem_new_mem [of 1 "\<lparr>sa_os = net_os n, sa_mem = heap s, sa_pQ = net_pQ n\<rparr>"] by (simp add: w1)
  then have p: "pool_repr SRAMIN (sa_mem w2) A \<or> pool_repr SRAMIN (sa_mem w2) (insert (mb, 3) A)" using mbox_new_pool [OF _ w2] r by simp
  have "(\<Sum>b \<in> A. snd b) \<le> (\<Sum>b \<in> insert (mb, 3) A. snd b)" using pool_capacity(1) [OF r] by (intro sum_mono2) auto
  then have b: "1983 < (\<Sum>b \<in> insert (mb, 3) A. snd b)" using a by linarith
  from p have "\<exists>A'. pool_repr SRAMIN (sa_mem w2) A' \<and> 1983 < (\<Sum>b \<in> A'. snd b)"
  proof
    assume "pool_repr SRAMIN (sa_mem w2) A"
    then show ?thesis using a by blast
  next
    assume "pool_repr SRAMIN (sa_mem w2) (insert (mb, 3) A)"
    then show ?thesis using b by blast
  qed
  moreover have "heap (fst (tcpip_init im env (s, n))) = sa_mem w2" by (simp add: tcpip_init_def w1 w2 sys_thread_new_def)
  ultimately show ?thesis by (simp add: exhausted_def)
qed

lemma pool_size_pbufs: "512 \<le> sz MEMP_PBUF_POOL \<Longrightarrow> 10240 \<le> memp_get_memorysize sz"
proof -
  assume "512 \<le> sz MEMP_PBUF_POOL"
  moreover have "memp_num ! 14 * sz MEMP_PBUF_POOL \<le> sum_list (map (\<lambda>i. memp_num ! i * sz i) [0..<MEMP_MAX])" by (rule member_le_sum_list) (auto intro!: image_eqI)
  ultimately show ?thesis by (simp add: memp_get_memorysize_def memp_num_def)
qed

text \<open>The memory after the first attempt got it, whatever happens then.\<close>

lemma first_attempt:
  assumes r: "pool_repr SRAMIN (heap s) {}" and z: "512 \<le> sz MEMP_PBUF_POOL" "memp_get_memorysize sz \<le> 42912"
  shows "\<exists>s1 s2. ETH_Mem_Malloc s = (0, s1) \<and> lwip_comm_mem_malloc sz s1 = (0, s2) \<and> exhausted s2 \<and>
    (\<exists>A. pool_repr SRAMIN (heap s2) A) \<and> low_free (heap s2) (1341 - (memp_get_memorysize sz + 31) div 32)"
proof -
  note lo = pool_size_pbufs [of sz, OF z(1)]
  let ?b = "(memp_get_memorysize sz + 31) div 32"
  have b: "320 \<le> ?b" "?b \<le> 1341" using lo z(2) by simp_all
  have f: "low_free (heap s) (20 + (5 + (953 + (239 + (?b + (501 + (125 + (16 + (1341 - ?b)))))))))"
    using r b(2) by (auto simp: pool_repr_def low_free_def owns_def memtblsize_def)
  obtain s1 where s1: "ETH_Mem_Malloc s = (0, s1)" "low_free (heap s1) (?b + (501 + (125 + (16 + (1341 - ?b)))))" using eth_succeeds [OF r f] by blast
  have e1: "pool_repr SRAMIN (heap s1) (set (eth_blocks s1) \<union> {})" "apart (eth_blocks s1) {}" using eth_malloc [OF r s1(1)] by simp_all
  have z': "0 < memp_get_memorysize sz" "memp_get_memorysize sz \<le> 2097120" using lo z(2) by simp_all
  obtain s2 where s2: "lwip_comm_mem_malloc sz s1 = (0, s2)" "low_free (heap s2) (1341 - ?b)" using lwip_succeeds [OF e1(1) z' s1(2)] by blast
  have e2: "pool_repr SRAMIN (heap s2) (set (lwip_blocks sz s2) \<union> (set (eth_blocks s1) \<union> {}))" "apart (lwip_blocks sz s2) (set (eth_blocks s1) \<union> {})"
    using lwip_malloc(1) [OF e1(1) z' s2(1)] by simp_all
  have "sum_list (map snd (eth_blocks s1)) = 1217" "sum_list (map snd (lwip_blocks sz s2)) = ?b + 642" by (simp_all add: eth_blocks_def lwip_blocks_def)
  then have "(\<Sum>b \<in> set (lwip_blocks sz s2) \<union> (set (eth_blocks s1) \<union> {}). snd b) = ?b + 642 + 1217" using sum_apart [OF e2(2)] sum_apart [OF e1(2)] by simp
  then have "exhausted s2" unfolding exhausted_def using e2(1) b(1) by (intro exI [of _ "set (lwip_blocks sz s2) \<union> (set (eth_blocks s1) \<union> {})"]) simp
  then show ?thesis using s1(1) s2 e2(1) by blast
qed

lemma tcpip_init_rest: "net_rest (snd (tcpip_init im env (s, n))) = lwip_modules env (net_rest n)"
  by (simp add: tcpip_init_def Let_def split: prod.split)

lemma first_attempt_loop:
  assumes "pool_repr SRAMIN (heap s) {}" "512 \<le> memp_size env MEMP_PBUF_POOL" "memp_get_memorysize (memp_size env) \<le> 42912"
  shows "init_loop (lwip_comm_init im env) (s, dev, n) =
    (if fst (LAN8720_Init env (net_rest n)) \<or> \<not> fst (netif_add env (lwip_modules env (snd (LAN8720_Init env (net_rest n))))) then None
     else Some (snd (lwip_comm_init im env (s, dev, n))))"
proof -
  let ?att = "lwip_comm_init im env"
  obtain s1 s2 where s: "ETH_Mem_Malloc s = (0, s1)" "lwip_comm_mem_malloc (memp_size env) s1 = (0, s2)" "exhausted s2" using first_attempt [OF assms] by blast
  let ?l = "LAN8720_Init env (net_rest n)" let ?t = "tcpip_init im env (s2, n\<lparr>net_rest := snd ?l\<rparr>)"
  let ?a = "netif_add env (lwip_modules env (snd ?l))"
  have e: "?att (s, dev, n) = (if fst ?l then (2, s2, dev, n\<lparr>net_rest := snd ?l\<rparr>)
      else if \<not> fst ?a then (3, fst ?t, lwip_comm_default_ip_set (serial env) dev, (snd ?t)\<lparr>net_rest := snd ?a\<rparr>)
      else (0, fst ?t, lwip_comm_default_ip_set (serial env) dev, (snd ?t)\<lparr>net_rest := netif_set_up env (snd ?a)\<rparr>))"
  proof -
    obtain f w1 where l: "?l = (f, w1)" by (cases ?l)
    obtain s3 n2 where t: "tcpip_init im env (s2, n\<lparr>net_rest := w1\<rparr>) = (s3, n2)" by (metis surj_pair)
    obtain ad w2 where ad: "netif_add env (lwip_modules env w1) = (ad, w2)" by (metis surj_pair)
    have "net_rest n2 = lwip_modules env w1" using tcpip_init_rest [of im env s2 "n\<lparr>net_rest := w1\<rparr>"] by (simp add: t)
    then show ?thesis by (simp add: lwip_comm_init_def s l t ad)
  qed
  have x: "init_loop ?att (s2, dev', n') = None" "init_loop ?att (fst ?t, dev', n') = None" for dev' n'
    by (rule exhausted_loop, rule s(3), rule exhausted_loop, rule tcpip_init_exhausted, rule s(3))
  show ?thesis by (subst init_loop.simps) (simp add: e x)
qed

text \<open>C26. The loop of \<open>main\<close> around \<open>lwip_comm_init\<close> ends only at its first turn. On a fresh pool the memory suffices, and if the transceiver and the interface come up,
  \<open>lwip_comm_init\<close> returns 0. If one of them fails, the memory of the attempt is not given back, what is left of the pool does not hold the Ethernet buffers again, and
  the loop repeats for ever, even if the transceiver is ready at a later turn. The pools of lwIP may take up to 42912 bytes.\<close>

theorem init_only_once:
  assumes "pool_repr SRAMIN (heap s) {}" "512 \<le> memp_size env MEMP_PBUF_POOL" "memp_get_memorysize (memp_size env) \<le> 42912"
  shows "init_loop (lwip_comm_init im env) (s, dev, n) =
    (if fst (LAN8720_Init env (net_rest n)) \<or> \<not> fst (netif_add env (lwip_modules env (snd (LAN8720_Init env (net_rest n))))) then None
     else Some (snd (lwip_comm_init im env (s, dev, n))))"
  using first_attempt_loop [OF assms] .

definition commex :: lwip_mem where
  "commex = \<lparr>heap = mex, DMARxDscrTab = 0, DMATxDscrTab = 0, Rx_Buff = 0, Tx_Buff = 0, memp_memory = 0, ram_heap = 0, TCPIP_THREAD_TASK_STK = 0, LWIP_DHCP_TASK_STK = 0\<rparr>"

definition devex :: lwip_dev where
  "devex = \<lparr>mac = [], remoteip = [], ip = [], netmask = [], gateway = [], dhcpstatus = 0\<rparr>"

abbreviation (input) "szex \<equiv> \<lambda>i :: nat. if i = 14 then 528 else 40 :: nat"

lemma szex_size: "memp_get_memorysize szex = 15043"
  by (simp add: memp_get_memorysize_def memp_num_def upt_rec)

theorem network_memory_witness:
  "case ETH_Mem_Malloc commex of (c, s') \<Rightarrow> c = 0 \<and> pool_repr SRAMIN (heap s') (set (eth_blocks s')) \<and> apart (eth_blocks s') {} \<or> c = 1 \<and> pool_repr SRAMIN (heap s') {}"
  using network_memory [of commex "{}" szex] szex_size mex_repr by (simp add: commex_def)

definition netex :: "nat net" where
  "netex = \<lparr>net_os = os_bss, net_pQ = (\<lambda>_. None), mem_mutex = None, tcpip_mbox = 0, net_rest = 0\<rparr>"

text \<open>A transceiver that is ready at the second call.\<close>

definition envex :: "(nat \<Rightarrow> bool) \<Rightarrow> nat lwip_env" where
  "envex bad = \<lparr>memp_size = szex, serial = 0, tcpip_thread = 0x8002000, LAN8720_Init = (\<lambda>w. (bad w, Suc w)), lwip_modules = (\<lambda>w. w), netif_add = (\<lambda>w. (True, w)),
     netif_set_up = (\<lambda>w. w)\<rparr>"

theorem init_only_once_witness: "init_loop (lwip_comm_init img0 (envex (\<lambda>w. w = 0))) (commex, devex, netex) = None"
  using init_only_once [of commex "envex (\<lambda>w. w = 0)" img0 devex netex] szex_size mex_repr by (simp add: commex_def envex_def netex_def)

section \<open>Addresses\<close>

lemma join_split: "join_ip (split_ip a) = a"
  using IP4_ADDR_of_bytes [of a] by (simp add: join_ip_def split_ip_def)

lemma split_join: "length b = 4 \<Longrightarrow> split_ip (join_ip b) = b"
proof -
  assume "length b = 4"
  then obtain p q r t where "b = [p, q, r, t]" by (auto simp: numeral_eq_Suc length_Suc_conv)
  then show ?thesis using IP4_ADDR_bytes [of p q r t] by (simp add: join_ip_def split_ip_def addr_bytes_def)
qed

definition dhcp_outcome :: "dhcp_view \<Rightarrow> lwip_dev \<Rightarrow> lwip_dev \<Rightarrow> (u32 \<times> u32 \<times> u32) option \<Rightarrow> bool" where
  "dhcp_outcome v dev dev' st \<longleftrightarrow>
    (if v_ip v \<noteq> 0
     then dhcpstatus dev' = 2 \<and> st = None \<and> join_ip (ip dev') = v_ip v \<and> join_ip (netmask dev') = v_netmask v \<and> join_ip (gateway dev') = v_gw v
     else 4 < v_tries v \<and> dev' = dev\<lparr>dhcpstatus := 0xFF\<rparr> \<and>
       (\<exists>a m g. st = Some (a, m, g) \<and> split_ip a = ip dev' \<and> split_ip m = netmask dev' \<and> split_ip g = gateway dev'))"

lemma dhcp_loop_outcome:
  assumes "length (ip dev) = 4" "length (netmask dev) = 4" "length (gateway dev) = 4"
  shows "dhcp_loop vs dev = Some (dev', st) \<Longrightarrow> \<exists>us v ws. vs = us @ v # ws \<and> (\<forall>u \<in> set us. v_ip u = 0 \<and> v_tries u \<le> 4) \<and> dhcp_outcome v dev dev' st"
proof (induction vs)
  case (Cons v vs)
  show ?case
  proof (cases "v_ip v \<noteq> 0 \<or> 4 < v_tries v")
    case True
    then have "dhcp_outcome v dev dev' st" using Cons.prems by (auto simp: dhcp_outcome_def join_split split_join assms split: if_splits)
    then show ?thesis by (intro exI [of _ "[]"]) simp
  next
    case False
    then obtain us x ws where "vs = us @ x # ws" "\<forall>u \<in> set us. v_ip u = 0 \<and> v_tries u \<le> 4" "dhcp_outcome x dev dev' st" using Cons by auto
    then show ?thesis using False by (intro exI [of _ "v # us"] exI [of _ x] exI [of _ ws]) (simp add: not_less)
  qed
qed simp

text \<open>The end of \<open>lwip_dhcp_task\<close>: the first turn at which the interface has an address, or DHCP has tried more than four times, decides. Afterwards the addresses in the device
  record and those of the interface are the same: those from DHCP, with the status 2, or the fixed ones of the record, with the status 255. Before, the task goes on.\<close>

theorem dhcp_settles:
  assumes "length (ip dev) = 4" "length (netmask dev) = 4" "length (gateway dev) = 4"
  shows "lwip_dhcp_task vs dev = None \<longleftrightarrow> (\<forall>v \<in> set vs. v_ip v = 0 \<and> v_tries v \<le> 4)"
    "lwip_dhcp_task vs dev = Some (dev', st) \<Longrightarrow>
      \<exists>us v ws. vs = us @ v # ws \<and> (\<forall>u \<in> set us. v_ip u = 0 \<and> v_tries u \<le> 4) \<and> dhcp_outcome v (dev\<lparr>dhcpstatus := 0\<rparr>) dev' st"
  subgoal unfolding lwip_dhcp_task_def by (induction vs) (auto simp: not_less)
  subgoal using dhcp_loop_outcome [of "dev\<lparr>dhcpstatus := 0\<rparr>" vs dev' st] assms by (simp add: lwip_dhcp_task_def)
  done

theorem dhcp_settles_witness:
  "lwip_dhcp_task [\<lparr>v_ip = 0, v_netmask = 0, v_gw = 0, v_tries = 1\<rparr>] (lwip_comm_default_ip_set 5 devex) = None \<and>
   (\<exists>dev' st. lwip_dhcp_task [\<lparr>v_ip = 0, v_netmask = 0, v_gw = 0, v_tries = 1\<rparr>, \<lparr>v_ip = 0x1E01A8C0, v_netmask = 0xFFFFFF, v_gw = 0x101A8C0, v_tries = 0\<rparr>]
      (lwip_comm_default_ip_set 5 devex) = Some (dev', st) \<and> ip dev' = [192, 168, 1, 30] \<and> join_ip (ip dev') = 0x1E01A8C0)"
proof -
  let ?d = "lwip_comm_default_ip_set 5 devex"
  have l: "length (ip ?d) = 4" "length (netmask ?d) = 4" "length (gateway ?d) = 4" by (simp_all add: lwip_comm_default_ip_set_def)
  let ?v = "\<lparr>v_ip = 0, v_netmask = 0, v_gw = 0, v_tries = 1\<rparr>" and ?w = "\<lparr>v_ip = 0x1E01A8C0, v_netmask = 0xFFFFFF, v_gw = 0x101A8C0, v_tries = 0\<rparr>"
  obtain dev' st where e: "lwip_dhcp_task [?v, ?w] ?d = Some (dev', st)" "ip dev' = split_ip 0x1E01A8C0" by (simp add: lwip_dhcp_task_def)
  from dhcp_settles(2) [OF l e(1)] have "join_ip (ip dev') = 0x1E01A8C0" by (simp add: e(2) join_split)
  moreover have "split_ip 0x1E01A8C0 = [192, 168, 1, 30]" by (simp add: split_ip_def)
  ultimately show ?thesis using e dhcp_settles(1) [OF l, of "[?v]"] by simp
qed

text \<open>The default addresses: the hardware address is that of one station and locally administered, and two boards have different ones exactly if the low 24 bits of their
  serial numbers differ; the netmask is valid, and the own address and the gateway are in one network.\<close>

theorem default_addresses:
  fixes dev :: lwip_dev
  shows "mac (lwip_comm_default_ip_set a dev) ! 0 AND 3 = 2"
    "mac (lwip_comm_default_ip_set a dev) = mac (lwip_comm_default_ip_set b dev) \<longleftrightarrow> take_bit 24 a = take_bit 24 b"
    "ip4_addr_netmask_valid (join_ip (netmask (lwip_comm_default_ip_set a dev)))"
    "ip_addr_netcmp (join_ip (ip (lwip_comm_default_ip_set a dev))) (join_ip (gateway (lwip_comm_default_ip_set a dev))) (join_ip (netmask (lwip_comm_default_ip_set a dev)))"
  subgoal by (simp add: lwip_comm_default_ip_set_def)
  subgoal
  proof -
    have m: "ucast (x AND 0xFF) = (ucast x :: u8)" "ucast (x AND 0xFFF) = (ucast x :: u8)" for x :: u32
    proof -
      have "(0xFF :: u32) = mask 8" "(0xFFF :: u32) = mask 12" by (simp_all add: mask_eq_exp_minus_1)
      then show "ucast (x AND 0xFF) = (ucast x :: u8)" "ucast (x AND 0xFFF) = (ucast x :: u8)"
        by (auto intro!: bit_word_eqI simp only: bit_unsigned_iff bit_and_iff bit_mask_iff) auto
    qed
    have "(ucast (drop_bit 16 a) = (ucast (drop_bit 16 b) :: u8) \<and> ucast (drop_bit 8 a) = (ucast (drop_bit 8 b) :: u8) \<and> ucast a = (ucast b :: u8)) \<longleftrightarrow> take_bit 24 a = take_bit 24 b"
      (is "?l \<longleftrightarrow> ?r")
    proof
      assume ?l
      then have q: "bit a (k + i) = bit b (k + i)" if "i < 8" "k \<in> {0, 8, 16}" for k i
        using that by (elim insertE emptyE) (auto simp: bit_eq_iff [where 'a = "8 word"] bit_simps)
      show ?r
      proof (rule bit_word_eqI)
        fix n :: nat
        show "bit (take_bit 24 a) n = bit (take_bit 24 b) n" using q [of n 0] q [of "n - 8" 8] q [of "n - 16" 16]
          by (cases "n < 8"; cases "n < 16"; cases "n < 24") (simp_all add: bit_take_bit_iff)
      qed
    next
      assume ?r
      then have q: "bit a n = bit b n" if "n < 24" for n using that by (metis bit_take_bit_iff)
      show ?l by (intro conjI bit_word_eqI) (auto simp: bit_simps q)
    qed
    then show ?thesis by (simp add: lwip_comm_default_ip_set_def m)
  qed
  subgoal by (simp add: lwip_comm_default_ip_set_def join_ip_def IP4_ADDR_def) code_simp
  subgoal by (simp add: lwip_comm_default_ip_set_def join_ip_def IP4_ADDR_def) code_simp
  done

end
