(* ===== verification/AppMain.thy ===== *)
theory AppMain
  imports LwipComm
begin

text \<open>
  The start of the application, demo/USER/main.c and demo/LWIP_APP/lwip_comm.c: \<open>main\<close> from the memory pool on, which prepares the allocator and the kernel, brings up
  the network, creates the tasks and starts the kernel, and the task \<open>start_task\<close>, which creates the task for DHCP and suspends itself. This is where the allocator,
  the kernel, the operating system layer of lwIP and the set-up of the network work on one state. The addresses of the functions and of the static stacks are
  those of the linked program; the other stacks are blocks of the allocator.
\<close>

section \<open>The code\<close>

record app =
  data_thread_fn :: u32
  start_task_fn :: u32
  dhcp_task_fn :: u32
  DATAHUB_CLIENT_TASK_STK :: nat
  START_TASK_STK :: nat

abbreviation (input) "START_TASK_PRIO \<equiv> 2 :: u8"
abbreviation (input) "DATAHUB_CLIENT_PRIO \<equiv> 6 :: u8"
abbreviation (input) "LWIP_DHCP_TASK_PRIO \<equiv> 7 :: u8"

definition create_datahub_task :: "app \<Rightarrow> image \<Rightarrow> os \<Rightarrow> u8 \<times> os" where
  "create_datahub_task ap im s = OSTaskCreate (img_fpu im) (img_ret im) (data_thread_fn ap) 0 (DATAHUB_CLIENT_TASK_STK ap + 300 - 1) DATAHUB_CLIENT_PRIO s"

partial_function (option) create_loop :: "app \<Rightarrow> image \<Rightarrow> os \<Rightarrow> os option" where
  "create_loop ap im s = (case create_datahub_task ap im s of (r, s1) \<Rightarrow> if r \<noteq> 0 then create_loop ap im s1 else Some s1)"

text \<open>\<open>main\<close>; \<open>None\<close> if one of its loops does not end. \<open>delay_init\<close> and \<open>uart_init\<close> do not touch this state.\<close>

definition main_prog :: "app \<Rightarrow> image \<Rightarrow> 'w lwip_env \<Rightarrow> lwip_mem \<times> lwip_dev \<times> 'w net \<Rightarrow> (lwip_mem \<times> lwip_dev \<times> 'w net) option" where
  "main_prog ap im env = (\<lambda>(s, dev, n).
    let s0 = s\<lparr>heap := mymem_init SRAMIN (heap s)\<rparr>;
        n0 = n\<lparr>net_os := OSInit im (net_os n)\<rparr>
    in case init_loop (lwip_comm_init im env) (s0, dev, n0) of
         None \<Rightarrow> None
       | Some (s1, dev1, n1) \<Rightarrow>
          (case create_loop ap im (net_os n1) of
             None \<Rightarrow> None
           | Some k \<Rightarrow>
               let (_, k1) = OSTaskCreate (img_fpu im) (img_ret im) (start_task_fn ap) 0 (START_TASK_STK ap + 128 - 1) START_TASK_PRIO k
               in Some (s1, dev1, n1\<lparr>net_os := OSStart k1\<rparr>)))"

definition lwip_comm_dhcp_creat :: "app \<Rightarrow> image \<Rightarrow> lwip_mem \<Rightarrow> os \<Rightarrow> os" where
  "lwip_comm_dhcp_creat ap im m s =
    snd (OSTaskCreate (img_fpu im) (img_ret im) (dhcp_task_fn ap) 0 (unat (LWIP_DHCP_TASK_STK m) div 4 + 128 - 1) LWIP_DHCP_TASK_PRIO s)"

definition start_task :: "app \<Rightarrow> image \<Rightarrow> lwip_mem \<Rightarrow> os \<Rightarrow> os" where
  "start_task ap im m s = snd (OSTaskSuspend OS_PRIO_SELF (lwip_comm_dhcp_creat ap im m s))"

section \<open>The tasks\<close>

lemma boot_create_task:
  fixes fpu ret task arg ptos
  assumes b: "boot_ok s" and "OSTCBPrioTbl s (unat p) = NoTcb" "unat p < 64" "OSTCBFreeList s = Some i" and s': "s' = snd (OSTaskCreate fpu ret task arg ptos p s)"
  shows "OSTaskCreate fpu ret task arg ptos p s = (0, s')" "boot_ok s'" "OSTCBPrioTbl s' = (OSTCBPrioTbl s)(unat p := Tcb i)"
    "rdyset s' = insert (unat p) (rdyset s)" "OSTCBFreeList s' = OSTCBNext (tcb s i)" "j \<noteq> i \<Longrightarrow> OSTCBNext (tcb s' j) = OSTCBNext (tcb s j)"
    "OSEventTbl_arr s' = OSEventTbl_arr s" "OSQTbl s' = OSQTbl s" "OSHeap s' = OSHeap s"
proof -
  let ?m = "OSTaskStkInit fpu ret task arg ptos (OSStkMem s)"
  let ?c = "create_tail p (fst ?m) 0 0 0 PNull 0 (snd ?m) s"
  have e: "OSTaskCreate fpu ret task arg ptos p s = ?c" by (rule create_tails(1) [OF boot_okD(6) [OF b] assms(2)])
  note c = boot_create [OF assms(1-4) prod.collapse [symmetric], of "fst ?m" 0 0 0 PNull 0 "snd ?m"]
  show "OSTaskCreate fpu ret task arg ptos p s = (0, s')" using c(1) by (simp add: s' e prod_eq_iff)
  show "boot_ok s'" "OSTCBPrioTbl s' = (OSTCBPrioTbl s)(unat p := Tcb i)" "rdyset s' = insert (unat p) (rdyset s)" "OSTCBFreeList s' = OSTCBNext (tcb s i)"
    "OSEventTbl_arr s' = OSEventTbl_arr s" "OSQTbl s' = OSQTbl s" "OSHeap s' = OSHeap s"
    using c(2,4,5,6,8,15,16) by (simp_all add: s' e)
  show "OSTCBNext (tcb s' j) = OSTCBNext (tcb s j)" if "j \<noteq> i" using c(7) [of j] that by (simp add: s' e)
qed

lemma OSStart_tables: "OSTCBPrioTbl (OSStart s) = OSTCBPrioTbl s" "OSTCBFreeList (OSStart s) = OSTCBFreeList s" "OSQTbl (OSStart s) = OSQTbl s" "OSHeap (OSStart s) = OSHeap s"
  by (simp_all add: OSStart_def OS_SchedNew_def OSPendSV_def Let_def)

section \<open>The objects of the network stack\<close>

text \<open>A queue is a mailbox of 20 empty entries, and a semaphore is free.\<close>

definition net_objects :: "'w net \<Rightarrow> os \<Rightarrow> bool" where
  "net_objects n k \<longleftrightarrow> (\<exists>e m. net_pQ n (tcpip_mbox n) = Some e \<and> is_q k e \<and> q_size k e = 20 \<and> q_msgs k e = [] \<and>
     mem_mutex n = Some m \<and> OSEventType (ev k m) = OS_EVENT_TYPE_SEM \<and> OSEventCnt (ev k m) = 1)"

lemma net_objects_frame:
  "net_objects n k \<Longrightarrow> OSEventTbl_arr k' = OSEventTbl_arr k \<Longrightarrow> OSQTbl k' = OSQTbl k \<Longrightarrow> OSHeap k' = OSHeap k \<Longrightarrow> net_objects n k'"
  by (simp add: net_objects_def is_q_def q_size_def q_msgs_def ring_of_def ev_q_def)

lemma net_objects_field [simp]: "net_objects (n\<lparr>net_os := x\<rparr>) k = net_objects n k" "net_objects (n\<lparr>net_rest := r\<rparr>) k = net_objects n k"
  by (simp_all add: net_objects_def)

lemma boot_event_left:
  assumes "boot_ok s" "x < 10" "OSEventType (ev s x) = OS_EVENT_TYPE_UNUSED"
  obtains e where "OSEventFreeList s = Some e"
proof -
  obtain fl where fl: "chain (\<lambda>e. ev_link (OSEventPtr (ev s e))) (OSEventFreeList s) fl"
    "set fl = {e. e < OS_MAX_EVENTS \<and> OSEventType (ev s e) = OS_EVENT_TYPE_UNUSED}"
    using boot_okD(2) [OF assms(1)] by (auto simp: evlist_ok_def)
  have "x \<in> set fl" unfolding fl(2) using assms(2,3) by simp
  then show thesis using fl(1) that by (cases fl) auto
qed

text \<open>\<open>tcpip_init\<close> before the kernel is started, when memory, control blocks and the priority are free.\<close>

lemma tcpip_init_boot:
  fixes im env s n
  defines "n' \<equiv> snd (tcpip_init im env (s, n))"
  assumes b: "boot_ok (net_os n)" and ev: "\<And>x. 2 \<le> x \<Longrightarrow> OSEventType (ev (net_os n) x) = OS_EVENT_TYPE_UNUSED" "\<And>x. \<not> is_q (net_os n) x"
    and i: "OSTCBPrioTbl (net_os n) 5 = NoTcb" "OSTCBFreeList (net_os n) = Some i"
    and m: "pool_repr SRAMIN (heap s) A" "low_free (heap s) (3 + k)"
  shows "boot_ok (net_os n')" "OSTCBPrioTbl (net_os n') = (OSTCBPrioTbl (net_os n))(5 := Tcb i)" "rdyset (net_os n') = insert 5 (rdyset (net_os n))"
    "OSTCBFreeList (net_os n') = OSTCBNext (tcb (net_os n) i)" "j \<noteq> i \<Longrightarrow> OSTCBNext (tcb (net_os n') j) = OSTCBNext (tcb (net_os n) j)" "net_objects n' (net_os n')"
proof -
  let ?k = "net_os n"
  let ?w = "\<lparr>sa_os = ?k, sa_mem = heap s, sa_pQ = net_pQ n\<rparr>"
  obtain e where e: "OSEventFreeList ?k = Some e" using boot_event_left [OF b _ ev(1), of 2] by auto
  obtain k1 where k1: "OSSemCreate 1 ?k = (Some e, k1)" "boot_ok k1" "OSTCBTbl k1 = OSTCBTbl ?k" "OSTCBPrioTbl k1 = OSTCBPrioTbl ?k" "rdyset k1 = rdyset ?k"
    "OSTCBFreeList k1 = OSTCBFreeList ?k" "OSEventType (ev k1 e) = OS_EVENT_TYPE_SEM" "OSEventCnt (ev k1 e) = 1" "\<And>x. x \<noteq> e \<Longrightarrow> ev k1 x = ev ?k x"
    using boot_sem [OF b e, of 1] by metis
  define k2 where "k2 = name_sem (Some e) ''LWIP Sem'' k1"
  have w1: "sys_sem_new 1 ?w = (ERR_OK, Some e, ?w\<lparr>sa_os := k2\<rparr>)" by (simp add: sys_sem_new_def k1(1) k2_def name_sem_def)
  have b2: "boot_ok k2" unfolding k2_def by (rule boot_name_sem [OF k1(2)])
  obtain q h A' where mb: "mymalloc SRAMIN 84 (heap s) = (q, h)" "q \<noteq> 0" by (rule malloc_step [OF m(1) block_84(1) m(2) block_84(2)]) 
  define w2 where "w2 = clear_descr q (?w\<lparr>sa_os := k2, sa_mem := h\<rparr>)"
  have f2: "OSEventTbl_arr (sa_os w2) = OSEventTbl_arr k2" "OSTCBTbl (sa_os w2) = OSTCBTbl k2" "OSTCBPrioTbl (sa_os w2) = OSTCBPrioTbl k2" "rdyset (sa_os w2) = rdyset k2"
    "OSTCBFreeList (sa_os w2) = OSTCBFreeList k2" by (simp_all add: w2_def rdyset_def rdy_bm_def)
  have bw: "boot_ok (sa_os w2)" by (rule boot_frame [OF b2]) (simp_all add: w2_def)
  have ty: "OSEventType (ev (sa_os w2) x) = (if x = e then OS_EVENT_TYPE_SEM else OSEventType (ev ?k x))" for x by (simp add: f2 k2_def k1)
  have nq: "\<not> is_q (sa_os w2) x" for x using ev(2) [of x] by (simp add: is_q_def ty)
  obtain y where "y < 10" "2 \<le> y" "y \<noteq> e" by (cases "e = 2") (auto intro: that [of 2] that [of 3])
  then obtain e2 where e2: "OSEventFreeList (sa_os w2) = Some e2" using boot_event_left [OF bw, of y] by (auto simp: ty ev)
  obtain k3 where k3: "OSQCreate (unat q + 4) 20 (sa_os w2) = (Some e2, k3)" "boot_ok k3" "OSTCBTbl k3 = OSTCBTbl (sa_os w2)" "OSTCBPrioTbl k3 = OSTCBPrioTbl (sa_os w2)"
    "rdyset k3 = rdyset (sa_os w2)" "OSTCBFreeList k3 = OSTCBFreeList (sa_os w2)" "is_q k3 e2" "q_size k3 e2 = unat (20 :: u16)" "q_msgs k3 e2 = []"
    "\<And>x. x \<noteq> e2 \<Longrightarrow> ev k3 x = ev (sa_os w2) x"
    using boot_queue [OF bw e2 nq, of "unat q + 4" 20] by metis
  define k4 where "k4 = snd (OSTaskCreate (img_fpu im) (img_ret im) (tcpip_thread env) 0 (unat (TCPIP_THREAD_TASK_STK s) div 4 + TCPIP_THREAD_STACKSIZE - 1) TCPIP_THREAD_PRIO k3)"
  have "sys_mbox_new MAX_QUEUE_ENTRIES (?w\<lparr>sa_os := k2\<rparr>) = (ERR_OK, q, w2\<lparr>sa_os := k3, sa_pQ := (sa_pQ w2)(q := Some e2)\<rparr>)"
    using mb k3(1) by (simp add: sys_mbox_new_def w2_def Let_def del: clear_descr_fields)
  then have n': "n' = n\<lparr>net_os := k4, net_pQ := (sa_pQ w2)(q := Some e2), mem_mutex := Some e, tcpip_mbox := q, net_rest := lwip_modules env (net_rest n)\<rparr>"
    unfolding n'_def tcpip_init_def prod.case w1 Let_def by (simp add: sys_thread_new_def k4_def)
  have k3f: "OSTCBPrioTbl k3 = OSTCBPrioTbl ?k" "OSTCBTbl k3 = OSTCBTbl ?k" "rdyset k3 = rdyset ?k" "OSTCBFreeList k3 = Some i"
    by (simp_all add: k3 f2 k2_def k1 i)
  have sl: "OSTCBPrioTbl k3 (unat TCPIP_THREAD_PRIO) = NoTcb" "unat TCPIP_THREAD_PRIO < 64" by (simp_all add: k3f i)
  note c = boot_create_task [OF k3(2) sl k3f(4) k4_def]
  show "boot_ok (net_os n')" "OSTCBPrioTbl (net_os n') = (OSTCBPrioTbl ?k)(5 := Tcb i)" "rdyset (net_os n') = insert 5 (rdyset ?k)"
    "OSTCBFreeList (net_os n') = OSTCBNext (tcb ?k i)"
    using c(2-5) by (simp_all add: n' k3f)
  show "OSTCBNext (tcb (net_os n') j) = OSTCBNext (tcb ?k j)" if "j \<noteq> i" using c(6) [OF that] by (simp add: n' k3f)
  have "e2 \<noteq> e" using event_get_SomeD(2) [OF boot_okD(2) [OF bw], of e2] e2 by (auto simp: event_get_def ty)
  then have "net_objects n' k3" using k3(7-10) k1(8) ty [of e] by (auto simp: net_objects_def n' f2 k2_def)
  then show "net_objects n' (net_os n')" using net_objects_frame [OF _ c(7-9)] by (simp add: n')
qed

section \<open>The start of the application\<close>

abbreviation network_up :: "'w lwip_env \<Rightarrow> 'w \<Rightarrow> bool" where
  "network_up env w \<equiv> \<not> fst (LAN8720_Init env w) \<and> fst (netif_add env (lwip_modules env (snd (LAN8720_Init env w))))"

text \<open>The network comes up at the first attempt.\<close>

lemma network_boot:
  fixes im k0 n
  defines "k \<equiv> OSInit im k0"
  assumes r: "pool_repr SRAMIN (heap s) {}" and z: "512 \<le> memp_size env MEMP_PBUF_POOL" "memp_get_memorysize (memp_size env) \<le> 42816"
    and up: "network_up env (net_rest n)"
  obtains s' dev' n' where "init_loop (lwip_comm_init im env) (s, dev, n\<lparr>net_os := k\<rparr>) = Some (s', dev', n')" "boot_ok (net_os n')"
    "OSTCBPrioTbl (net_os n') = (\<lambda>_. NoTcb)(63 := Tcb 0, 62 := Tcb 1, 3 := Tcb 2, 5 := Tcb 3)" "rdyset (net_os n') = {3, 5, 62, 63}"
    "OSTCBFreeList (net_os n') = Some 4" "OSTCBNext (tcb (net_os n') 4) = Some 5" "OSTCBNext (tcb (net_os n') 5) = Some 6" "net_objects n' (net_os n')"
proof -
  note i = OSInit_ok(1,3,4,5,8,9) [of im k0, folded k_def] and nx = OSInit_ok(13) [of _ im k0, folded k_def]
    and un = OSInit_ok(14) [of _ im k0, folded k_def]
  have z': "memp_get_memorysize (memp_size env) \<le> 42912" using z(2) by simp
  obtain s1 s2 A where s: "ETH_Mem_Malloc s = (0, s1)" "lwip_comm_mem_malloc (memp_size env) s1 = (0, s2)" "pool_repr SRAMIN (heap s2) A"
    "low_free (heap s2) (1341 - (memp_get_memorysize (memp_size env) + 31) div 32)"
    using first_attempt [OF r z(1) z'] by blast
  obtain w1 where l: "LAN8720_Init env (net_rest n) = (False, w1)" using up by (cases "LAN8720_Init env (net_rest n)") auto
  let ?n = "n\<lparr>net_os := k, net_rest := w1\<rparr>"
  obtain s3 n3 where t: "tcpip_init im env (s2, ?n) = (s3, n3)" by (metis surj_pair)
  have nq: "\<not> is_q k x" for x
  proof (cases "2 \<le> x")
    case False
    then have "x = 0 \<or> x = 1" by auto
    then show ?thesis using i(5,6) by (auto simp: is_q_def)
  qed (simp add: is_q_def un)
  have lf: "low_free (heap s2) (3 + (1338 - (memp_get_memorysize (memp_size env) + 31) div 32))" using s(4) z(2) by simp
  have sl: "OSTCBPrioTbl k 5 = NoTcb" by (simp add: i(4))
  note tb = tcpip_init_boot [where n = ?n and s = s2 and A = A and im = im and env = env, unfolded t snd_conv, simplified, OF i(1) un nq sl i(3) s(3) lf]
  obtain w2 where a: "netif_add env (lwip_modules env w1) = (True, w2)" using up l by (cases "netif_add env (lwip_modules env w1)") auto
  have nr: "net_rest n3 = lwip_modules env w1" using tcpip_init_rest [of im env s2 ?n] by (simp add: t)
  have c: "lwip_comm_init im env (s, dev, n\<lparr>net_os := k\<rparr>) = (0, s3, lwip_comm_default_ip_set (serial env) dev, n3\<lparr>net_rest := netif_set_up env w2\<rparr>)"
    by (simp add: lwip_comm_init_def s l t a nr)
  have "init_loop (lwip_comm_init im env) (s, dev, n\<lparr>net_os := k\<rparr>) = Some (s3, lwip_comm_default_ip_set (serial env) dev, n3\<lparr>net_rest := netif_set_up env w2\<rparr>)"
    by (subst init_loop.simps) (simp add: c)
  moreover have "OSTCBNext (tcb k 3) = Some 4" "OSTCBNext (tcb k 4) = Some 5" "OSTCBNext (tcb k 5) = Some 6" using nx [of 3] nx [of 4] nx [of 5] by simp_all
  ultimately show thesis using tb(1-4,6) tb(5) [of 4] tb(5) [of 5] by (intro that [of s3 "lwip_comm_default_ip_set (serial env) dev" "n3\<lparr>net_rest := netif_set_up env w2\<rparr>"]) (auto simp: i(2,4))
qed

text \<open>The kernel when \<open>start_task\<close> begins to run.\<close>

lemma main_prog_ok:
  assumes m: "membase (heap s) SRAMIN \<noteq> 0" "unat (membase (heap s) SRAMIN) + unat (memsize SRAMIN) < 4294967296"
    and z: "512 \<le> memp_size env MEMP_PBUF_POOL" "memp_get_memorysize (memp_size env) \<le> 42816" and up: "network_up env (net_rest n)"
  obtains s' dev' n' k where "main_prog ap im env (s, dev, n) = Some (s', dev', n')" "k = net_os n'" "tsafe k" "qs_ok k" "mutexes_ok k" "net_objects n' k"
    "rdyset k = {2, 3, 5, 6, 62, 63}" "unat (OSPrioCur k) = 2" "OSIntNesting k = 0" "OSLockNesting k = 0"
    "OSTCBPrioTbl k = (\<lambda>_. NoTcb)(63 := Tcb 0, 62 := Tcb 1, 3 := Tcb 2, 5 := Tcb 3, 6 := Tcb 4, 2 := Tcb 5)" "OSTCBFreeList k = Some 6"
proof -
  let ?s = "s\<lparr>heap := mymem_init SRAMIN (heap s)\<rparr>"
  have r: "pool_repr SRAMIN (heap ?s) {}" using init_repr [of SRAMIN "heap s"] m by simp
  obtain s1 dev1 n1 where n1: "init_loop (lwip_comm_init im env) (?s, dev, n\<lparr>net_os := OSInit im (net_os n)\<rparr>) = Some (s1, dev1, n1)" "boot_ok (net_os n1)"
    "OSTCBPrioTbl (net_os n1) = (\<lambda>_. NoTcb)(63 := Tcb 0, 62 := Tcb 1, 3 := Tcb 2, 5 := Tcb 3)" "rdyset (net_os n1) = {3, 5, 62, 63}"
    "OSTCBFreeList (net_os n1) = Some 4" "OSTCBNext (tcb (net_os n1) 4) = Some 5" "OSTCBNext (tcb (net_os n1) 5) = Some 6" "net_objects n1 (net_os n1)"
    by (rule network_boot [OF r z up, where im = im and ?k0.0 = "net_os n" and dev = dev])
  define k1 where "k1 = net_os n1"
  note f1 = n1(2-8) [folded k1_def]
  define k2 where "k2 = snd (create_datahub_task ap im k1)"
  have g1: "OSTCBPrioTbl k1 (unat DATAHUB_CLIENT_PRIO) = NoTcb" "unat DATAHUB_CLIENT_PRIO < 64" by (simp_all add: f1(2))
  note k2 = boot_create_task [OF f1(1) g1 f1(4) k2_def [unfolded create_datahub_task_def], folded create_datahub_task_def]
  define k3 where "k3 = snd (OSTaskCreate (img_fpu im) (img_ret im) (start_task_fn ap) 0 (START_TASK_STK ap + 128 - 1) START_TASK_PRIO k2)"
  have f2: "OSTCBPrioTbl k2 (unat START_TASK_PRIO) = NoTcb" "unat START_TASK_PRIO < 64" "OSTCBFreeList k2 = Some 5" "OSTCBNext (tcb k2 5) = Some 6"
    by (simp_all add: k2(3,5,6) f1)
  note k3 = boot_create_task [OF k2(2) f2(1-3) k3_def]
  have "create_loop ap im k1 = Some k2" by (subst create_loop.simps) (simp add: k2(1))
  then have mp: "main_prog ap im env (s, dev, n) = Some (s1, dev1, n1\<lparr>net_os := OSStart k3\<rparr>)"
    by (simp add: main_prog_def n1(1) k1_def [symmetric] k3_def [symmetric, simplified] split_beta)
  have rd: "rdyset k3 = {2, 3, 5, 6, 62, 63}" by (auto simp: k3(4) k2(4) f1(3))
  have pt: "OSTCBPrioTbl k3 = (\<lambda>_. NoTcb)(63 := Tcb 0, 62 := Tcb 1, 3 := Tcb 2, 5 := Tcb 3, 6 := Tcb 4, 2 := Tcb 5)" by (simp add: k3(3) k2(3) f1(2))
  note st = boot_start [OF k3(2)]
  have ob: "net_objects n1 (OSStart k3)" using f1(7) by (rule net_objects_frame) (simp_all add: st(12) OSStart_tables k3(7-9) k2(7-9))
  have "Min {2, 3, 5, 6, 62, 63 :: nat} = 2" by simp
  then have "unat (OSPrioCur (OSStart k3)) = 2" using st(5) rd by simp
  then show thesis using that [OF mp] st(1,2,3,7,8,13) ob rd pt f2(4) k3(5) by (simp add: OSStart_tables)
qed

lemma start_task_ok:
  assumes ok: "tsafe k" and r: "rdyset k = {2, 3, 5, 6, 62, 63}" and c: "unat (OSPrioCur k) = 2" and n: "OSIntNesting k = 0" "OSLockNesting k = 0"
    and T: "OSTCBPrioTbl k = (\<lambda>_. NoTcb)(63 := Tcb 0, 62 := Tcb 1, 3 := Tcb 2, 5 := Tcb 3, 6 := Tcb 4, 2 := Tcb 5)" and fl: "OSTCBFreeList k = Some 6"
  shows "tsafe (start_task ap im m k) \<and> unat (OSPrioCur (start_task ap im m k)) = 3 \<and> rdyset (start_task ap im m k) = {3, 5, 6, 7, 62, 63}"
proof -
  define s2 where "s2 = lwip_comm_dhcp_creat ap im m k"
  let ?m = "OSTaskStkInit (img_fpu im) (img_ret im) (dhcp_task_fn ap) 0 (unat (LWIP_DHCP_TASK_STK m) div 4 + 128 - 1) (OSStkMem k)"
  let ?c = "create_tail LWIP_DHCP_TASK_PRIO (fst ?m) 0 0 0 PNull 0 (snd ?m) k"
  have sl: "OSTCBPrioTbl k (unat LWIP_DHCP_TASK_PRIO) = NoTcb" "unat LWIP_DHCP_TASK_PRIO < 64" by (simp_all add: T)
  have s2: "s2 = snd ?c" unfolding s2_def lwip_comm_dhcp_creat_def create_tails(1) [OF n(1) sl(1)] ..
  have cr: "?c = (fst ?c, s2)" by (simp add: s2)
  note d = create_tail_ok [OF ok sl fl n(1) cr]
  note f = create_tail_frame [OF fl cr]
  have r2: "rdyset s2 = {2, 3, 5, 6, 7, 62, 63}" using d(6) by (auto simp: r)
  have c2: "unat (OSPrioCur s2) = 2" using tsafeD(4) [OF d(2)] n f(1,2) by (simp add: sched_ok_def r2)
  have T2: "OSTCBPrioTbl s2 = (\<lambda>_. NoTcb)(63 := Tcb 0, 62 := Tcb 1, 3 := Tcb 2, 5 := Tcb 3, 6 := Tcb 4, 2 := Tcb 5, 7 := Tcb 6)" by (simp add: f(3) T)
  note cl = cur_ok_live [OF tsafeD(3) [OF d(2)]]
  have cu: "cur s2 = 5" using cl c2 by (simp add: live_def T2)
  have sp: "OSTCBPrioTbl s2 (unat (self_prio OS_PRIO_SELF s2)) = Tcb 5" using cl(2) c2 by (simp add: self_prio_def T2)
  have one: "one_slot s2 5" using cl(2) c2 cu by (auto simp: one_slot_def T2 split: if_splits)
  have p5: "prio s2 5 = 2" using cl(2) c2 cu by simp
  define s3 where "s3 = start_task ap im m k"
  have "OSTaskSuspend OS_PRIO_SELF s2 = (fst (OSTaskSuspend OS_PRIO_SELF s2), s3)" by (simp add: s3_def start_task_def s2_def)
  note q = task_suspend_ok [OF d(2) sp one _ this]
  have "prio s2 5 \<noteq> 63" by (simp add: p5)
  note q = q [OF this]
  have r3: "rdyset s3 = {3, 5, 6, 7, 62, 63}" using q(3) by (auto simp: r2 p5)
  have "OSIntNesting s3 = 0 \<and> OSLockNesting s3 = 0" using f(1,2) n by (simp add: s3_def start_task_def s2_def [symmetric] OSTaskSuspend_def Let_def split: tcb_slot.split)
  then have "unat (OSPrioCur s3) = 3" using tsafeD(4) [OF q(2)] by (simp add: sched_ok_def r3)
  then show ?thesis using q(2) r3 unfolding s3_def by blast
qed

text \<open>C24. The start of the application on a board whose network comes up: whatever the memory of the kernel and of the allocator held, \<open>main\<close> leaves its loops at the first
  turn and starts the kernel with every invariant established, an empty mailbox of 20 entries and a free mutex for the network stack, and \<open>start_task\<close>, the most
  urgent task, running. That task creates the task for DHCP and suspends itself: then the task of the software timers runs, the most urgent of the others,
  all of which are ready. The pools of lwIP may take up to 42816 bytes.\<close>

theorem application_starts:
  assumes "membase (heap s) SRAMIN \<noteq> 0" "unat (membase (heap s) SRAMIN) + unat (memsize SRAMIN) < 4294967296"
    and "512 \<le> memp_size env MEMP_PBUF_POOL" "memp_get_memorysize (memp_size env) \<le> 42816" and "network_up env (net_rest n)"
  shows "\<exists>s' dev' n'. main_prog ap im env (s, dev, n) = Some (s', dev', n') \<and>
    (let k = net_os n'; k' = start_task ap im s' k in
      tsafe k \<and> qs_ok k \<and> mutexes_ok k \<and> net_objects n' k \<and> unat (OSPrioCur k) = 2 \<and> rdyset k = {2, 3, 5, 6, 62, 63} \<and>
      tsafe k' \<and> unat (OSPrioCur k') = 3 \<and> rdyset k' = {3, 5, 6, 7, 62, 63})"
proof -
  obtain s' dev' n' k where mp: "main_prog ap im env (s, dev, n) = Some (s', dev', n')" and k: "k = net_os n'" and ok: "tsafe k" and o: "qs_ok k" "mutexes_ok k" "net_objects n' k"
    and r: "rdyset k = {2, 3, 5, 6, 62, 63}" and c: "unat (OSPrioCur k) = 2" and n: "OSIntNesting k = 0" "OSLockNesting k = 0"
    and T: "OSTCBPrioTbl k = (\<lambda>_. NoTcb)(63 := Tcb 0, 62 := Tcb 1, 3 := Tcb 2, 5 := Tcb 3, 6 := Tcb 4, 2 := Tcb 5)" and fl: "OSTCBFreeList k = Some 6"
    by (rule main_prog_ok [OF assms, where ap = ap and im = im and dev = dev])
  have "tsafe (start_task ap im s' k) \<and> unat (OSPrioCur (start_task ap im s' k)) = 3 \<and> rdyset (start_task ap im s' k) = {3, 5, 6, 7, 62, 63}"
    by (rule start_task_ok [OF ok r c n T fl])
  then show ?thesis using mp ok o c r unfolding k by (auto simp: Let_def)
qed

definition appex :: app where
  "appex = \<lparr>data_thread_fn = 0x8003000, start_task_fn = 0x8003100, dhcp_task_fn = 0x8003200, DATAHUB_CLIENT_TASK_STK = 5000, START_TASK_STK = 5400\<rparr>"

theorem application_starts_witness:
  "\<exists>s' dev' n'. main_prog appex img0 (envex (\<lambda>_. False)) (commex, devex, netex) = Some (s', dev', n') \<and> unat (OSPrioCur (start_task appex img0 s' (net_os n'))) = 3"
proof -
  have "membase mex SRAMIN \<noteq> 0" "unat (membase mex SRAMIN) + unat (memsize SRAMIN) < 4294967296" using mex_repr by (simp_all add: pool_repr_def)
  then show ?thesis using application_starts [of commex "envex (\<lambda>_. False)" netex appex img0 devex] szex_size by (auto simp: commex_def envex_def netex_def Let_def)
qed

end
