(* ===== verification/Spec2Isabelle.thy ===== *)
theory Spec2Isabelle
  imports KernelSys OsSem OsMbox OsQ OsTime OsMem OsFlag OsTaskProps OsTmr OsMutex SysArch Usart Delay DatahubTimer DatahubNetwork
    LwipChksum LwipTimers EthDma LwipComm AppMain
begin

text \<open>
  A verification library for the Dasudian DataHub embedded demo (src/demo), a program for an STM32F4 board that connects to a
  message broker, subscribes to topics and publishes messages.

  \<^bold>\<open>The program.\<close> \<open>main\<close> (USER/main.c) prepares the memory allocator, the uC/OS-II kernel and the lwIP network stack and
  creates two tasks, one of which later creates the task that waits for an address from DHCP. lwIP runs in a task of its own and
  uses the kernel through a thin layer (LWIP/arch/sys_arch.c); frames reach it from the interrupt handler of the Ethernet
  controller through a ring of descriptors, and leave through another. The DataHub client task (USER/datahub_demo.c) talks to the
  broker through USER/DatahubNetwork.c and measures time with USER/DatahubTimer.c. A serial port collects lines from a terminal.

  \<^bold>\<open>Theories and sources.\<close> Each theory begins with the code it models, whose definitions have the names of the source, and continues
  with the invariants, the lemmas and the properties.
  \<^item> \<open>Prelude\<close>, \<open>FreePool\<close>: facts on words, lists and chains of links; the interface of a free list, with interpretations by the
    memory partitions, the software timers and the pools of lwIP.
  \<^item> \<open>PrioBitmap\<close>, \<open>OsState\<close>: the bitmap of priorities with \<open>OSUnMapTbl\<close>, and the state of the kernel, a record with the fields of
    the global variables and tables of UCOSII/CORE/ucos_ii.h; addresses of control blocks are indices into their tables.
  \<^item> \<open>OsCore\<close>, \<open>OsEvent\<close>, \<open>OsExample\<close>: UCOSII/CORE/os_core.c: scheduler, interrupt nesting, wait lists, and the interface
    of the services that wait.
  \<^item> \<open>OsSem\<close>, \<open>OsMbox\<close>, \<open>RingQueue\<close>, \<open>OsQ\<close>, \<open>OsMem\<close>, \<open>OsTime\<close>, \<open>OsFlag\<close>, \<open>OsTask\<close>, \<open>OsTaskProps\<close>, \<open>OsTmr\<close>, \<open>OsMutex\<close>: the files
    os_sem.c, os_mbox.c, os_q.c, os_mem.c, os_time.c, os_flag.c, os_task.c, os_tmr.c, os_mutex.c and the parts of PORT/os_cpu_c.c they call.
  \<^item> \<open>OsInit\<close>: \<open>OSInit\<close> and what it calls, the idle and the statistics task. \<open>KernelSys\<close>: the kernel as a transition system whose
    steps are system calls of the running task, the clock interrupt and the turns of the timer task with the callbacks of the timers. The
    services that neither block nor belong to the timers are a relation of their own (\<open>kcall\<close>), since a callback may call them too. Mutexes are not
    among the calls, nor is a priority change of a task with a stale event pointer: their services can break the invariants, as the theories of their
    files show.
  \<^item> \<open>Malloc\<close>: MALLOC/malloc.c. \<open>SysArch\<close>: LWIP/arch/sys_arch.c, on \<open>OsQ\<close>, \<open>OsSem\<close> and \<open>Malloc\<close>.
  \<^item> \<open>LwipInet\<close>, \<open>LwipChksum\<close>, \<open>LwipMemp\<close>, \<open>LwipTimers\<close>: from lwIP, core/def.c and core/ipv4/ip_addr.c, core/ipv4/inet_chksum.c,
    core/memp.c and core/timers.c.
  \<^item> \<open>EthDma\<close>: the descriptor rings, netif/ethernetif.c with LWIP_APP/lan8720.c and the part of the Ethernet driver they call.
  \<^item> \<open>LwipComm\<close>: LWIP_APP/lwip_comm.c and \<open>tcpip_init\<close>. \<open>AppMain\<close>: USER/main.c, on one state of allocator, kernel and network.
  \<^item> \<open>DatahubTimer\<close>, \<open>DatahubNetwork\<close>, \<open>Delay\<close>, \<open>Usart\<close>: USER/DatahubTimer.c, USER/DatahubNetwork.c with datahub_demo.c,
    SYSTEM/delay/delay.c and the receiver of SYSTEM/usart/usart.c.

  \<^bold>\<open>State and steps.\<close> A C function becomes a function on the state record that returns its result and the new state, with a branch for each
  early return. A function that may block is divided at the call of the scheduler: the first part ends with the task in a wait list, the second,
  named with \<open>_return\<close>, is what the task does when it runs again. Critical sections make the parts atomic, and what happens between them
  is any sequence of the other steps. Integers have the width of the source and wrap; the messages are values,
  the storage of queues is a map from addresses to messages, that of the stacks a map to words, and the memory of partitions a map to bytes, in which a link is a word of four bytes. A loop that need not end is a partial function into \<open>option\<close>: \<open>None\<close> is that it does not end, and the theorems
  prove \<open>Some\<close>, so no loop has fuel. Only the loops that depend on what others do, such as the reading of a socket, run over
  the sequence of answers they get, and the theorems name the length that suffices.

  \<^bold>\<open>What is shown.\<close>
  \<^item> The kernel: the invariants of the ready list, the wait lists, the task list, the free lists, the flag nodes, the queues and the timers hold from
    \<open>OSInit\<close> on in every state that the steps of \<open>KernelSys\<close> reach (\<open>boot_establishes\<close>, \<open>kernel_reachable_safe\<close>); there the services, the
    clock interrupt and the timer task end, whatever loops they have over tasks and timers (\<open>kernel_never_hangs\<close>); a task that waits on an event is in the
    wait list of that event and no other, and a post finds the most urgent one of the list and wakes it (\<open>waiter_found\<close>). Mutexes have an invariant of their own with the priority ceiling.
  \<^item> Single services against what they promise: a semaphore is a counter with a set of waiters, a queue a bounded list, a delay lasts exactly its
    number of ticks, a timer expires exactly at its time as long as the callbacks leave the timers alone, a post to a flag group wakes exactly the tasks whose condition holds, a mutex raises and lowers its
    owner. The bitmap is the set of the priorities with its minimum.
  \<^item> The allocator gives disjoint blocks and takes them back, for requests of up to 2097120 bytes; the pools of lwIP are carved without overlap and in their memory.
  \<^item> The timeouts of lwIP are a list of deadlines, and its periodic timers never get lost.
  \<^item> The checksum is that of RFC 1071 on odd addresses and chains of buffers too; addresses printed and read again are the same.
  \<^item> The descriptor rings deliver frames in order, in both directions, while the other side keeps up and the received frames have no errors; what happens otherwise is stated too.
  \<^item> The application starts: the composition of allocator, kernel, network layer and set-up reaches the tasks running with all invariants.
  \<^item> The client: it reads exactly the number of bytes asked for, and keeps publishing.

  Some properties state what the code does where that is not what it means to do: the loop around \<open>lwip_comm_init\<close> never ends after a first failure
  (\<open>init_only_once\<close>), a frame sent to a full ring destroys the one that waits there (\<open>tx_full_corrupts\<close>), and a frame with an error
  stops the receiver (\<open>rx_error_blocks\<close>).

  \<^bold>\<open>Configuration.\<close> The preprocessor switches are those of the project (os_cfg.h, lwipopts.h): 10 tasks beside the two of the kernel, 10 events, 5 queues, 64 priorities, 200 ticks in a
  second, no argument checks, DHCP and DNS on, little endian.

  \<^bold>\<open>Not modelled.\<close> The protocols of lwIP (TCP, UDP, IP, ARP, DHCP, DNS), its sockets, heap and packet buffers, PPP and SNMP: vendored code that the program calls
  through the interfaces above, where it is a parameter. The DataHub client library, which is not part of the sources. The drivers of the
  STM32 peripherals, the start-up code, \<open>uart_init\<close>, the initialisation of the transceiver and of the pins: programming of registers whose effect is in the
  hardware. The context switch in assembler is the exchange of the current task in the state.
\<close>

end
